(* ===== verification/Prelude.thy ===== *)
theory Prelude
  imports Main "HOL-Library.Word"
begin

unbundle bit_operations_syntax

text \<open>
  Shared vocabulary of the development: the widths of the machine integers of the
  32-bit target, the result type of kernel code that can panic, and the rewrite
  collections the component theories extend.

  A C function that can fail an \<^verbatim>\<open>ASSERT\<close>, run into
  \<^verbatim>\<open>PANIC\<close> or \<^verbatim>\<open>NOT_REACHED\<close>, dereference a null pointer or loop
  forever does not return to its caller: \<^verbatim>\<open>debug_panic\<close> is declared
  \<^verbatim>\<open>NO_RETURN\<close>.
  Such functions have an \<open>option\<close> result here, and \<open>None\<close> is the outcome
  "control never comes back". A theorem that gives \<open>Some\<close> therefore says three things
  at once: no assertion fires, no loop diverges, and the result is the one shown.
\<close>

section \<open>Machine integers\<close>

type_synonym u8 = "8 word"
type_synonym u16 = "16 word"
type_synonym u32 = "32 word"
type_synonym u64 = "64 word"

text \<open>\<^verbatim>\<open>size_t\<close>, \<^verbatim>\<open>uintptr_t\<close>, \<^verbatim>\<open>unsigned\<close> and
  \<^verbatim>\<open>unsigned long\<close> are 32 bits wide on the i386 target of the kernel.\<close>

text \<open>Counting loops over unsigned integers.\<close>

lemma unat_bound: "unat (w :: 'a :: len word) < 2 ^ LENGTH('a)"
  by (rule unsigned_less)

lemma unat_inc:
  fixes i n :: "'a :: len word"
  assumes "i < n" shows "unat (i + 1) = unat i + 1"
proof -
  have "unat i + 1 < 2 ^ LENGTH('a)"
    using assms unat_bound[of n] unfolding word_less_nat_alt by linarith
  moreover have "unat (i + 1) = (unat i + 1) mod 2 ^ LENGTH('a)" by (simp add: unat_word_ariths mod_simps)
  ultimately show ?thesis by simp
qed

lemma loop_measure: "i < (cnt :: 'a :: len word) \<Longrightarrow> unat (cnt - (i + 1)) < unat (cnt - i)"
  by (subst unat_sub, metis inc_le, subst unat_sub) (auto simp: unat_inc word_less_nat_alt word_le_nat_alt)

lemma unat_dec: "0 < (n :: 'a :: len word) \<Longrightarrow> unat (n - 1) = unat n - 1"
  by (metis unat_minus_one word_gt_0)

lemma count_down: "0 < (n :: 'a :: len word) \<Longrightarrow> unat (n - 1) < unat n"
  by (simp add: unat_dec) (simp add: word_less_nat_alt)

lemma unat_add_le:
  fixes i j n :: "'a :: len word"
  assumes "unat i + unat j \<le> unat n" shows "unat (i + j) = unat i + unat j"
proof -
  have "unat i + unat j < 2 ^ LENGTH('a)" using assms unat_bound[of n] by linarith
  then show ?thesis by (simp add: unat_word_ariths)
qed

section \<open>Results of code that can panic\<close>

text \<open>\<open>ASSERT p m\<close> is the statement \<^verbatim>\<open>ASSERT (p);\<close> followed by \<open>m\<close>.\<close>

abbreviation (input) ASSERT :: "bool \<Rightarrow> 'a option \<Rightarrow> 'a option" where
  "ASSERT p m \<equiv> (if p then m else None)"

named_theorems panic_simps \<open>rewriting with and inverting code that can panic\<close>

lemma bind_eq_Some_iff [panic_simps]:
  "Option.bind m f = Some y \<longleftrightarrow> (\<exists>x. m = Some x \<and> f x = Some y)"
  by (cases m) auto

lemma if_None_eq_Some [panic_simps]: "(if p then m else None) = Some y \<longleftrightarrow> p \<and> m = Some y"
  by simp

section \<open>Lists read by position\<close>

text \<open>A read of an array that the model keeps as a list: out of range is undefined
  behaviour in C and has no value here.\<close>

definition lookup_at :: "'a list \<Rightarrow> nat \<Rightarrow> 'a option" where
  "lookup_at xs i = (if i < length xs then Some (xs ! i) else None)"

lemma lookup_at_in [simp]: "i < length xs \<Longrightarrow> lookup_at xs i = Some (xs ! i)"
  by (simp add: lookup_at_def)

lemma lookup_at_eq_Some [panic_simps]:
  "lookup_at xs i = Some x \<longleftrightarrow> i < length xs \<and> xs ! i = x"
  by (auto simp: lookup_at_def)

end
