(* ===== verification/Vaddr.thy ===== *)
theory Vaddr
  imports Prelude
begin

unbundle bit_operations_syntax

text \<open>
  Virtual addresses, after \<^verbatim>\<open>threads/vaddr.h\<close> and the rounding macros of
  \<^verbatim>\<open>lib/round.h\<close>. An address is a 32-bit word; arithmetic on it wraps, as
  \<^verbatim>\<open>uintptr_t\<close> arithmetic does.
\<close>

section \<open>Definitions\<close>

definition BITMASK :: "nat \<Rightarrow> nat \<Rightarrow> u32" where
  "BITMASK shift cnt = push_bit shift (push_bit cnt 1 - 1)"

definition PGBITS :: nat where "PGBITS = 12"

definition PGSIZE :: u32 where "PGSIZE = push_bit PGBITS 1"

definition PGMASK :: u32 where "PGMASK = BITMASK 0 PGBITS"

definition PHYS_BASE :: u32 where "PHYS_BASE = 0xc0000000"

definition pg_ofs :: "u32 \<Rightarrow> u32" where "pg_ofs va = va AND PGMASK"

definition pg_no :: "u32 \<Rightarrow> u32" where "pg_no va = drop_bit PGBITS va"

definition pg_round_up :: "u32 \<Rightarrow> u32" where
  "pg_round_up va = (va + PGSIZE - 1) AND NOT PGMASK"

definition pg_round_down :: "u32 \<Rightarrow> u32" where
  "pg_round_down va = va AND NOT PGMASK"

definition is_user_vaddr :: "u32 \<Rightarrow> bool" where "is_user_vaddr va \<longleftrightarrow> va < PHYS_BASE"

definition is_kernel_vaddr :: "u32 \<Rightarrow> bool" where "is_kernel_vaddr va \<longleftrightarrow> PHYS_BASE \<le> va"

definition ptov :: "u32 \<Rightarrow> u32 option" where
  "ptov paddr = (ASSERT (paddr < PHYS_BASE) ( Some (paddr + PHYS_BASE)))"

definition vtop :: "u32 \<Rightarrow> u32 option" where
  "vtop vaddr = (ASSERT (is_kernel_vaddr vaddr) ( Some (vaddr - PHYS_BASE)))"

text \<open>The macros of \<^verbatim>\<open>lib/round.h\<close>, on arguments whose sum does not overflow.\<close>

definition ROUND_UP :: "nat \<Rightarrow> nat \<Rightarrow> nat" where
  "ROUND_UP x step = (x + step - 1) div step * step"

definition DIV_ROUND_UP :: "nat \<Rightarrow> nat \<Rightarrow> nat" where
  "DIV_ROUND_UP x step = (x + step - 1) div step"

definition ROUND_DOWN :: "nat \<Rightarrow> nat \<Rightarrow> nat" where
  "ROUND_DOWN x step = x div step * step"

section \<open>Pages\<close>

lemma PGSIZE_eq [simp]: "PGSIZE = 4096" and PGMASK_eq: "PGMASK = 4095"
  and PGMASK_mask: "PGMASK = mask 12"
  by (simp_all add: PGSIZE_def PGMASK_def BITMASK_def PGBITS_def mask_eq_exp_minus_1)

lemma unat_pg_ofs: "unat (pg_ofs va) = unat va mod 4096"
  by (simp add: pg_ofs_def PGMASK_mask take_bit_eq_mod unat_mod flip: take_bit_eq_mask)

lemma unat_pg_no: "unat (pg_no va) = unat va div 4096"
  by (simp add: pg_no_def PGBITS_def drop_bit_eq_div unat_div)

lemma pg_round_down_minus: "pg_round_down va = va - pg_ofs va"
proof -
  have "va - (va AND PGMASK) = va AND NOT (va AND PGMASK)"
    by (rule disjunctive_diff) (simp add: bit_simps)
  also have "\<dots> = va AND NOT PGMASK"
    by (rule bit_word_eqI) (auto simp: bit_simps)
  finally show ?thesis
    by (simp add: pg_round_down_def pg_ofs_def)
qed

lemma unat_pg_round_down: "unat (pg_round_down va) = ROUND_DOWN (unat va) 4096"
proof -
  have "unat (va - pg_ofs va) = unat va - unat (pg_ofs va)"
    by (rule unat_sub) (simp add: pg_ofs_def word_and_le2)
  then show ?thesis
    by (simp add: pg_round_down_minus unat_pg_ofs minus_mod_eq_div_mult ROUND_DOWN_def)
qed

lemma pg_round_up_via_down: "pg_round_up va = pg_round_down (va + 4095)"
  by (simp add: pg_round_up_def pg_round_down_def add.commute)

lemma unat_pg_round_up:
  "unat va + 4095 < 2 ^ 32 \<Longrightarrow> unat (pg_round_up va) = ROUND_UP (unat va) 4096"
  by (simp add: pg_round_up_via_down unat_pg_round_down ROUND_UP_def ROUND_DOWN_def
      unat_add_lem [THEN iffD1])

lemma pg_round_up_wraps: "2 ^ 32 \<le> unat va + 4095 \<Longrightarrow> pg_round_up va = 0"
proof -
  assume top: "2 ^ 32 \<le> unat va + 4095"
  then have "unat (va + 4095) = unat va + 4095 - 2 ^ 32"
    by (simp add: unat_plus_if')
  moreover have "unat va < 2 ^ 32"
    using unsigned_less [of va] by simp
  ultimately have "unat (pg_round_up va) = 0"
    by (simp add: pg_round_up_via_down unat_pg_round_down ROUND_DOWN_def)
  then show ?thesis
    by (simp add: unat_eq_zero)
qed

lemma page_decompose: "unat va = unat (pg_no va) * 4096 + unat (pg_ofs va)"
  by (simp add: unat_pg_no unat_pg_ofs)

lemma pg_ofs_pg_round_down [simp]: "pg_ofs (pg_round_down va) = 0"
  and pg_no_pg_round_down [simp]: "pg_no (pg_round_down va) = pg_no va"
  and pg_round_down_idem [simp]: "pg_round_down (pg_round_down va) = pg_round_down va"
  by (rule word_unat_eq_iff [THEN iffD2], simp add: unat_pg_ofs unat_pg_no unat_pg_round_down ROUND_DOWN_def)+

section \<open>The physical mapping\<close>

lemma unat_PHYS_BASE: "unat PHYS_BASE = 0xc0000000"
  by (simp add: PHYS_BASE_def)

lemma user_or_kernel: "is_kernel_vaddr va \<longleftrightarrow> \<not> is_user_vaddr va"
  by (auto simp: is_kernel_vaddr_def is_user_vaddr_def)

lemma ptov_in_first_GB:
  assumes "unat paddr < 0x40000000"
  shows "ptov paddr = Some (paddr + PHYS_BASE)" and "is_kernel_vaddr (paddr + PHYS_BASE)"
proof -
  have "unat (paddr + PHYS_BASE) = unat paddr + 0xc0000000"
    using assms by (simp add: PHYS_BASE_def unat_add_lem [THEN iffD1])
  then show "is_kernel_vaddr (paddr + PHYS_BASE)"
    by (simp add: is_kernel_vaddr_def word_le_nat_alt unat_PHYS_BASE)
  show "ptov paddr = Some (paddr + PHYS_BASE)"
    using assms by (simp add: ptov_def word_less_nat_alt unat_PHYS_BASE)
qed

lemma ptov_beyond_first_GB:
  assumes "0x40000000 \<le> unat paddr" and "paddr < PHYS_BASE"
  shows "ptov paddr = Some (paddr + PHYS_BASE)" and "is_user_vaddr (paddr + PHYS_BASE)"
proof -
  have "unat paddr < 0xc0000000"
    using assms(2) by (simp add: word_less_nat_alt unat_PHYS_BASE)
  then have "unat (paddr + PHYS_BASE) = unat paddr - 0x40000000"
    using assms(1) by (simp add: unat_plus_if' unat_PHYS_BASE)
  with \<open>unat paddr < 0xc0000000\<close> show "is_user_vaddr (paddr + PHYS_BASE)"
    by (simp add: is_user_vaddr_def word_less_nat_alt unat_PHYS_BASE)
  show "ptov paddr = Some (paddr + PHYS_BASE)"
    using assms(2) by (simp add: ptov_def)
qed

end
