(* ===== verification/Fifo.thy ===== *)
theory Fifo
  imports Prelude
begin

text \<open>
  The contract of a first-in first-out queue: the run queue and the wait lists of the
  kernel, and the interrupt queues of the drivers, are used through it. A queue state is
  related to the list of its elements by \<open>repr\<close>; \<open>room h xs e\<close> says that \<open>e\<close> may be
  added to a queue that holds \<open>xs\<close>. Both operations may panic (\<open>None\<close>); the contract
  says when they do not.
\<close>

section \<open>Running a queue\<close>

fun enq_all :: "('a \<Rightarrow> 'h \<Rightarrow> 'h option) \<Rightarrow> 'a list \<Rightarrow> 'h \<Rightarrow> 'h option" where
  "enq_all enq [] h = Some h"
| "enq_all enq (e # es) h = Option.bind (enq e h) (enq_all enq es)"

fun deq_n :: "('h \<Rightarrow> ('a \<times> 'h) option) \<Rightarrow> nat \<Rightarrow> 'h \<Rightarrow> ('a list \<times> 'h) option" where
  "deq_n deq 0 h = Some ([], h)"
| "deq_n deq (Suc n) h =
     Option.bind (deq h) (\<lambda>(x, h). Option.bind (deq_n deq n h) (\<lambda>(xs, h). Some (x # xs, h)))"

section \<open>The contract\<close>

locale fifo =
  fixes repr :: "'h \<Rightarrow> 'a list \<Rightarrow> bool"
    and room :: "'a list \<Rightarrow> 'a \<Rightarrow> bool"
    and enq :: "'a \<Rightarrow> 'h \<Rightarrow> 'h option"
    and deq :: "'h \<Rightarrow> ('a \<times> 'h) option"
  assumes enq_law: "repr h xs \<Longrightarrow> room xs e \<Longrightarrow> \<exists>h'. enq e h = Some h' \<and> repr h' (xs @ [e])"
    and deq_law: "repr h (x # xs) \<Longrightarrow> \<exists>h'. deq h = Some (x, h') \<and> repr h' xs"
begin

lemma enq_all_law:
  assumes "repr h xs" and "\<And>i. i < length es \<Longrightarrow> room (xs @ take i es) (es ! i)"
  shows "\<exists>h'. enq_all enq es h = Some h' \<and> repr h' (xs @ es)"
  using assms
proof (induction es arbitrary: h xs)
  case (Cons e es)
  obtain h1 where h1: "enq e h = Some h1" "repr h1 (xs @ [e])"
    using enq_law [OF Cons.prems(1)] Cons.prems(2) [of 0] by auto
  have "room ((xs @ [e]) @ take i es) (es ! i)" if "i < length es" for i
    using Cons.prems(2) [of "Suc i"] that by simp
  then show ?case
    using Cons.IH [OF h1(2)] h1(1) by simp
qed simp

lemma deq_n_law:
  "repr h (xs @ ys) \<Longrightarrow> \<exists>h'. deq_n deq (length xs) h = Some (xs, h') \<and> repr h' ys"
proof (induction xs arbitrary: h)
  case (Cons x xs)
  then obtain h1 where "deq h = Some (x, h1)" "repr h1 (xs @ ys)"
    using deq_law by fastforce
  then show ?case
    using Cons.IH [of h1] by auto
qed simp

lemma fifo_order:
  assumes "repr h xs" and "\<And>i. i < length es \<Longrightarrow> room (xs @ take i es) (es ! i)"
  shows "\<exists>h1 h2. enq_all enq es h = Some h1 \<and> deq_n deq (length xs + length es) h1 = Some (xs @ es, h2) \<and> repr h2 []"
  using enq_all_law [OF assms] deq_n_law [of _ "xs @ es" "[]"] by (metis append_Nil2 length_append)

end

end
