(* ===== verification/Kernel_List.thy ===== *)
theory Kernel_List
  imports Fifo
begin

text \<open>
  The doubly linked lists of \<^verbatim>\<open>lib/kernel/list.c\<close>, at the level of pointers.

  Memory is seen field by field: a \<^verbatim>\<open>struct list_elem\<close> at address \<open>p\<close> has its
  \<^verbatim>\<open>prev\<close> member in \<open>prv h p\<close> and its \<^verbatim>\<open>next\<close> member in \<open>nxt h p\<close>.
  A \<^verbatim>\<open>struct list\<close> at address \<open>l\<close> holds two elements, the head at offset 0 and the
  tail at offset 8, the size of a \<^verbatim>\<open>struct list_elem\<close> on the target.
  The comparison function and its auxiliary data are one parameter
  \<open>lessf\<close>, a predicate on element addresses.

  The second half gives the abstraction: \<open>is_list h l xs\<close> says that the list at \<open>l\<close> holds
  exactly the elements \<open>xs\<close>, in this order, with all links consistent in both
  directions. Every operation is shown to return and to act on \<open>xs\<close> as its
  counterpart on HOL lists does, and to leave all memory outside its lists alone.
\<close>

section \<open>Memory\<close>

type_synonym ptr = nat

abbreviation (input) NULL :: ptr where "NULL \<equiv> 0"

record lheap =
  prv :: "ptr \<Rightarrow> ptr"
  nxt :: "ptr \<Rightarrow> ptr"

text \<open>A \<^verbatim>\<open>struct list_elem **\<close>: the address of one link of one element.\<close>

datatype link = Prev ptr | Next ptr

fun get_link :: "lheap \<Rightarrow> link \<Rightarrow> ptr" where
  "get_link h (Prev p) = prv h p"
| "get_link h (Next p) = nxt h p"

fun set_link :: "link \<Rightarrow> ptr \<Rightarrow> lheap \<Rightarrow> lheap" where
  "set_link (Prev p) v h = h\<lparr>prv := (prv h)(p := v)\<rparr>"
| "set_link (Next p) v h = h\<lparr>nxt := (nxt h)(p := v)\<rparr>"

abbreviation (input) head_of :: "ptr \<Rightarrow> ptr" where "head_of l \<equiv> l"

abbreviation (input) tail_of :: "ptr \<Rightarrow> ptr" where "tail_of l \<equiv> l + 8"

section \<open>Traversal\<close>

definition is_head :: "lheap \<Rightarrow> ptr \<Rightarrow> bool" where
  "is_head h e \<longleftrightarrow> e \<noteq> NULL \<and> prv h e = NULL \<and> nxt h e \<noteq> NULL"

definition is_interior :: "lheap \<Rightarrow> ptr \<Rightarrow> bool" where
  "is_interior h e \<longleftrightarrow> e \<noteq> NULL \<and> prv h e \<noteq> NULL \<and> nxt h e \<noteq> NULL"

definition is_tail :: "lheap \<Rightarrow> ptr \<Rightarrow> bool" where
  "is_tail h e \<longleftrightarrow> e \<noteq> NULL \<and> prv h e \<noteq> NULL \<and> nxt h e = NULL"

definition list_init :: "ptr \<Rightarrow> lheap \<Rightarrow> lheap option" where
  "list_init l h = (ASSERT (l \<noteq> NULL) (
    Some (set_link (Next (tail_of l)) NULL
          (set_link (Prev (tail_of l)) (head_of l)
          (set_link (Next (head_of l)) (tail_of l)
          (set_link (Prev (head_of l)) NULL h))))))"

definition list_begin :: "lheap \<Rightarrow> ptr \<Rightarrow> ptr option" where
  "list_begin h l = (ASSERT (l \<noteq> NULL) ( Some (nxt h (head_of l))))"

definition list_next :: "lheap \<Rightarrow> ptr \<Rightarrow> ptr option" where
  "list_next h e = (ASSERT (is_head h e \<or> is_interior h e) ( Some (nxt h e)))"

definition list_end :: "ptr \<Rightarrow> ptr option" where
  "list_end l = (ASSERT (l \<noteq> NULL) ( Some (tail_of l)))"

definition list_rbegin :: "lheap \<Rightarrow> ptr \<Rightarrow> ptr option" where
  "list_rbegin h l = (ASSERT (l \<noteq> NULL) ( Some (prv h (tail_of l))))"

definition list_prev :: "lheap \<Rightarrow> ptr \<Rightarrow> ptr option" where
  "list_prev h e = (ASSERT (is_interior h e \<or> is_tail h e) ( Some (prv h e)))"

definition list_rend :: "ptr \<Rightarrow> ptr option" where
  "list_rend l = (ASSERT (l \<noteq> NULL) ( Some (head_of l)))"

definition list_head :: "ptr \<Rightarrow> ptr option" where
  "list_head l = (ASSERT (l \<noteq> NULL) ( Some (head_of l)))"

definition list_tail :: "ptr \<Rightarrow> ptr option" where
  "list_tail l = (ASSERT (l \<noteq> NULL) ( Some (tail_of l)))"

section \<open>Insertion and removal\<close>

text \<open>The right-hand sides read the links in the order of the assignments of the source:
  \<^verbatim>\<open>before->prev->next\<close> is evaluated after the first two stores.\<close>

definition list_insert :: "ptr \<Rightarrow> ptr \<Rightarrow> lheap \<Rightarrow> lheap option" where
  "list_insert before elem h = (ASSERT (is_interior h before \<or> is_tail h before) (
    ASSERT (elem \<noteq> NULL) (
    let h = set_link (Prev elem) (prv h before) h in
    let h = set_link (Next elem) before h in
    let h = set_link (Next (prv h before)) elem h in
    let h = set_link (Prev before) elem h in
    Some h)))"

definition list_splice :: "ptr \<Rightarrow> ptr \<Rightarrow> ptr \<Rightarrow> lheap \<Rightarrow> lheap option" where
  "list_splice before first lst h = (ASSERT (is_interior h before \<or> is_tail h before) (
    if first = lst then Some h
     else (Option.bind (list_prev h lst) (\<lambda>lst.
       ASSERT (is_interior h first) (
       ASSERT (is_interior h lst) (
       let h = set_link (Next (prv h first)) (nxt h lst) h in
       let h = set_link (Prev (nxt h lst)) (prv h first) h in
       let h = set_link (Prev first) (prv h before) h in
       let h = set_link (Next lst) before h in
       let h = set_link (Next (prv h before)) first h in
       let h = set_link (Prev before) lst h in
       Some h))))))"

definition list_push_front :: "ptr \<Rightarrow> ptr \<Rightarrow> lheap \<Rightarrow> lheap option" where
  "list_push_front l elem h = (Option.bind (list_begin h l) (\<lambda>b. list_insert b elem h))"

definition list_push_back :: "ptr \<Rightarrow> ptr \<Rightarrow> lheap \<Rightarrow> lheap option" where
  "list_push_back l elem h = (Option.bind (list_end l) (\<lambda>e. list_insert e elem h))"

definition list_remove :: "ptr \<Rightarrow> lheap \<Rightarrow> (ptr \<times> lheap) option" where
  "list_remove elem h = (ASSERT (is_interior h elem) (
    let h = set_link (Next (prv h elem)) (nxt h elem) h in
    let h = set_link (Prev (nxt h elem)) (prv h elem) h in
    Some (nxt h elem, h)))"

definition list_empty :: "lheap \<Rightarrow> ptr \<Rightarrow> bool option" where
  "list_empty h l = (Option.bind (list_begin h l) (\<lambda>b. Option.bind (list_end l) (\<lambda>e. Some (b = e))))"

definition list_front :: "lheap \<Rightarrow> ptr \<Rightarrow> ptr option" where
  "list_front h l = (Option.bind (list_empty h l) (\<lambda>em. ASSERT (\<not> em) ( Some (nxt h (head_of l)))))"

definition list_back :: "lheap \<Rightarrow> ptr \<Rightarrow> ptr option" where
  "list_back h l = (Option.bind (list_empty h l) (\<lambda>em. ASSERT (\<not> em) ( Some (prv h (tail_of l)))))"

definition list_pop_front :: "ptr \<Rightarrow> lheap \<Rightarrow> (ptr \<times> lheap) option" where
  "list_pop_front l h = (Option.bind (list_front h l) (\<lambda>front.
    Option.bind (list_remove front h) (\<lambda>(_, h).
    Some (front, h))))"

definition list_pop_back :: "ptr \<Rightarrow> lheap \<Rightarrow> (ptr \<times> lheap) option" where
  "list_pop_back l h = (Option.bind (list_back h l) (\<lambda>back.
    Option.bind (list_remove back h) (\<lambda>(_, h).
    Some (back, h))))"

section \<open>Loops over a list\<close>

partial_function (option) list_size_loop :: "lheap \<Rightarrow> ptr \<Rightarrow> ptr \<Rightarrow> u32 \<Rightarrow> u32 option" where
  "list_size_loop h l e cnt = (Option.bind (list_end l) (\<lambda>en.
    if e \<noteq> en then (Option.bind (list_next h e) (\<lambda>e. list_size_loop h l e (cnt + 1)))
     else Some cnt))"

definition list_size :: "lheap \<Rightarrow> ptr \<Rightarrow> u32 option" where
  "list_size h l = (Option.bind (list_begin h l) (\<lambda>b. list_size_loop h l b 0))"

definition swap :: "link \<Rightarrow> link \<Rightarrow> lheap \<Rightarrow> lheap" where
  "swap a b h = (let t = get_link h a;
                     h = set_link a (get_link h b) h
                 in set_link b t h)"

partial_function (option) list_reverse_loop :: "ptr \<Rightarrow> ptr \<Rightarrow> lheap \<Rightarrow> lheap option" where
  "list_reverse_loop l e h = (Option.bind (list_end l) (\<lambda>en.
    if e \<noteq> en then (ASSERT (e \<noteq> NULL) (
  let h = swap (Prev e) (Next e) h in
  list_reverse_loop l (prv h e) h)) else Some h))"

definition list_reverse :: "ptr \<Rightarrow> lheap \<Rightarrow> lheap option" where
  "list_reverse l h = (Option.bind (list_empty h l) (\<lambda>em.
    if \<not> em then (Option.bind (list_begin h l) (\<lambda>b.
  Option.bind (list_reverse_loop l b h) (\<lambda>h.
  let h = swap (Next (head_of l)) (Prev (tail_of l)) h in
  ASSERT (nxt h (head_of l) \<noteq> NULL \<and> prv h (tail_of l) \<noteq> NULL) (
  Some (swap (Prev (nxt h (head_of l))) (Next (prv h (tail_of l))) h))))) else Some h))"

partial_function (option) is_sorted_loop ::
  "(ptr \<Rightarrow> ptr \<Rightarrow> bool) \<Rightarrow> lheap \<Rightarrow> ptr \<Rightarrow> ptr \<Rightarrow> bool option" where
  "is_sorted_loop lessf h a b = (Option.bind (list_next h a) (\<lambda>a.
    if a \<noteq> b then (Option.bind (list_prev h a) (\<lambda>p.
  if lessf a p then Some False else is_sorted_loop lessf h a b)) else Some True))"

definition is_sorted :: "(ptr \<Rightarrow> ptr \<Rightarrow> bool) \<Rightarrow> lheap \<Rightarrow> ptr \<Rightarrow> ptr \<Rightarrow> bool option" where
  "is_sorted lessf h a b = (if a \<noteq> b then is_sorted_loop lessf h a b else Some True)"

partial_function (option) find_end_of_run_loop ::
  "(ptr \<Rightarrow> ptr \<Rightarrow> bool) \<Rightarrow> lheap \<Rightarrow> ptr \<Rightarrow> ptr \<Rightarrow> ptr option" where
  "find_end_of_run_loop lessf h a b = (Option.bind (list_next h a) (\<lambda>a.
    if a \<noteq> b then (Option.bind (list_prev h a) (\<lambda>p.
  if \<not> lessf a p then find_end_of_run_loop lessf h a b else Some a)) else Some a))"

definition find_end_of_run :: "(ptr \<Rightarrow> ptr \<Rightarrow> bool) \<Rightarrow> lheap \<Rightarrow> ptr \<Rightarrow> ptr \<Rightarrow> ptr option" where
  "find_end_of_run lessf h a b = (ASSERT (a \<noteq> NULL) (
    ASSERT (b \<noteq> NULL) (
    ASSERT (a \<noteq> b) (
    find_end_of_run_loop lessf h a b))))"

partial_function (option) inplace_merge_loop ::
  "(ptr \<Rightarrow> ptr \<Rightarrow> bool) \<Rightarrow> ptr \<Rightarrow> ptr \<Rightarrow> ptr \<Rightarrow> lheap \<Rightarrow> lheap option" where
  "inplace_merge_loop lessf a0 a1b0 b1 h =
     (if a0 \<noteq> a1b0 \<and> a1b0 \<noteq> b1 then
        if \<not> lessf a1b0 a0 then (Option.bind (list_next h a0) (\<lambda>a0.
          inplace_merge_loop lessf a0 a1b0 b1 h)) else (Option.bind (list_next h a1b0) (\<lambda>a1b0.
          Option.bind (list_prev h a1b0) (\<lambda>p.
          Option.bind (list_splice a0 p a1b0 h) (\<lambda>h.
          inplace_merge_loop lessf a0 a1b0 b1 h))))
      else Some h)"

definition inplace_merge ::
  "(ptr \<Rightarrow> ptr \<Rightarrow> bool) \<Rightarrow> ptr \<Rightarrow> ptr \<Rightarrow> ptr \<Rightarrow> lheap \<Rightarrow> lheap option" where
  "inplace_merge lessf a0 a1b0 b1 h = (ASSERT (a0 \<noteq> NULL) (
    ASSERT (a1b0 \<noteq> NULL) (
    ASSERT (b1 \<noteq> NULL) (
    Option.bind (is_sorted lessf h a0 a1b0) (\<lambda>s.
    ASSERT s (
    Option.bind (is_sorted lessf h a1b0 b1) (\<lambda>s.
    ASSERT s (
    inplace_merge_loop lessf a0 a1b0 b1 h))))))))"

text \<open>One pass of \<^verbatim>\<open>list_sort\<close>: the inner \<^verbatim>\<open>for\<close> loop, with the number of
  runs it has output.\<close>

partial_function (option) list_sort_pass ::
  "(ptr \<Rightarrow> ptr \<Rightarrow> bool) \<Rightarrow> ptr \<Rightarrow> ptr \<Rightarrow> u32 \<Rightarrow> lheap \<Rightarrow> (u32 \<times> lheap) option" where
  "list_sort_pass lessf l a0 cnt h = (Option.bind (list_end l) (\<lambda>en.
    if a0 \<noteq> en then (let cnt = cnt + 1 in
  Option.bind (find_end_of_run lessf h a0 en) (\<lambda>a1b0.
  if a1b0 = en then Some (cnt, h)
       else (Option.bind (find_end_of_run lessf h a1b0 en) (\<lambda>b1.
         Option.bind (inplace_merge lessf a0 a1b0 b1 h) (\<lambda>h.
         list_sort_pass lessf l b1 cnt h))))) else Some (cnt, h)))"

partial_function (option) list_sort_loop ::
  "(ptr \<Rightarrow> ptr \<Rightarrow> bool) \<Rightarrow> ptr \<Rightarrow> lheap \<Rightarrow> lheap option" where
  "list_sort_loop lessf l h = (Option.bind (list_begin h l) (\<lambda>b.
    Option.bind (list_sort_pass lessf l b 0 h) (\<lambda>r.
    if fst r > 1 then list_sort_loop lessf l (snd r) else Some (snd r))))"

definition list_sort :: "(ptr \<Rightarrow> ptr \<Rightarrow> bool) \<Rightarrow> ptr \<Rightarrow> lheap \<Rightarrow> lheap option" where
  "list_sort lessf l h = (ASSERT (l \<noteq> NULL) (
    Option.bind (list_sort_loop lessf l h) (\<lambda>h.
    Option.bind (list_begin h l) (\<lambda>b.
    Option.bind (list_end l) (\<lambda>e.
    Option.bind (is_sorted lessf h b e) (\<lambda>s.
    ASSERT s (
    Some h)))))))"

partial_function (option) list_insert_ordered_loop ::
  "(ptr \<Rightarrow> ptr \<Rightarrow> bool) \<Rightarrow> lheap \<Rightarrow> ptr \<Rightarrow> ptr \<Rightarrow> ptr \<Rightarrow> ptr option" where
  "list_insert_ordered_loop lessf h l elem e = (Option.bind (list_end l) (\<lambda>en.
    if e \<noteq> en then
       if lessf elem e then Some e
       else (Option.bind (list_next h e) (\<lambda>e. list_insert_ordered_loop lessf h l elem e))
     else Some e))"

definition list_insert_ordered ::
  "(ptr \<Rightarrow> ptr \<Rightarrow> bool) \<Rightarrow> ptr \<Rightarrow> ptr \<Rightarrow> lheap \<Rightarrow> lheap option" where
  "list_insert_ordered lessf l elem h = (ASSERT (l \<noteq> NULL) (
    ASSERT (elem \<noteq> NULL) (
    Option.bind (list_begin h l) (\<lambda>b.
    Option.bind (list_insert_ordered_loop lessf h l elem b) (\<lambda>e.
    list_insert e elem h)))))"

partial_function (option) list_unique_loop ::
  "(ptr \<Rightarrow> ptr \<Rightarrow> bool) \<Rightarrow> ptr \<Rightarrow> ptr \<Rightarrow> ptr \<Rightarrow> lheap \<Rightarrow> lheap option" where
  "list_unique_loop lessf l duplicates elem h = (Option.bind (list_next h elem) (\<lambda>n.
    Option.bind (list_end l) (\<lambda>en.
    if n \<noteq> en then
       if \<not> lessf elem n \<and> \<not> lessf n elem then (Option.bind (list_remove n h) (\<lambda>r.
         Option.bind (if duplicates \<noteq> NULL then list_push_back duplicates n (snd r) else Some (snd r)) (\<lambda>h.
         list_unique_loop lessf l duplicates elem h))) else list_unique_loop lessf l duplicates n h
     else Some h)))"

definition list_unique ::
  "(ptr \<Rightarrow> ptr \<Rightarrow> bool) \<Rightarrow> ptr \<Rightarrow> ptr \<Rightarrow> lheap \<Rightarrow> lheap option" where
  "list_unique lessf l duplicates h = (ASSERT (l \<noteq> NULL) (
    Option.bind (list_empty h l) (\<lambda>em.
    if em then Some h
     else (Option.bind (list_begin h l) (\<lambda>b.
       list_unique_loop lessf l duplicates b h)))))"

partial_function (option) list_max_loop ::
  "(ptr \<Rightarrow> ptr \<Rightarrow> bool) \<Rightarrow> lheap \<Rightarrow> ptr \<Rightarrow> ptr \<Rightarrow> ptr \<Rightarrow> ptr option" where
  "list_max_loop lessf h l mx e = (Option.bind (list_end l) (\<lambda>en.
    if e \<noteq> en then (let mx = (if lessf mx e then e else mx) in
  Option.bind (list_next h e) (\<lambda>e.
  list_max_loop lessf h l mx e)) else Some mx))"

definition list_max :: "(ptr \<Rightarrow> ptr \<Rightarrow> bool) \<Rightarrow> lheap \<Rightarrow> ptr \<Rightarrow> ptr option" where
  "list_max lessf h l = (Option.bind (list_begin h l) (\<lambda>mx.
    Option.bind (list_end l) (\<lambda>en.
    if mx \<noteq> en then (Option.bind (list_next h mx) (\<lambda>e. list_max_loop lessf h l mx e))
     else Some mx)))"

partial_function (option) list_min_loop ::
  "(ptr \<Rightarrow> ptr \<Rightarrow> bool) \<Rightarrow> lheap \<Rightarrow> ptr \<Rightarrow> ptr \<Rightarrow> ptr \<Rightarrow> ptr option" where
  "list_min_loop lessf h l mn e = (Option.bind (list_end l) (\<lambda>en.
    if e \<noteq> en then (let mn = (if lessf e mn then e else mn) in
  Option.bind (list_next h e) (\<lambda>e.
  list_min_loop lessf h l mn e)) else Some mn))"

definition list_min :: "(ptr \<Rightarrow> ptr \<Rightarrow> bool) \<Rightarrow> lheap \<Rightarrow> ptr \<Rightarrow> ptr option" where
  "list_min lessf h l = (Option.bind (list_begin h l) (\<lambda>mn.
    Option.bind (list_end l) (\<lambda>en.
    if mn \<noteq> en then (Option.bind (list_next h mn) (\<lambda>e. list_min_loop lessf h l mn e))
     else Some mn)))"

section \<open>The abstraction\<close>

text \<open>\<open>linked h ps\<close>: neighbours in \<open>ps\<close> point at each other.\<close>

fun linked :: "lheap \<Rightarrow> ptr list \<Rightarrow> bool" where
  "linked h (a # b # ps) \<longleftrightarrow> nxt h a = b \<and> prv h b = a \<and> linked h (b # ps)"
| "linked h ps \<longleftrightarrow> True"

definition chain :: "ptr \<Rightarrow> ptr list \<Rightarrow> ptr list" where
  "chain l xs = head_of l # xs @ [tail_of l]"

definition is_list :: "lheap \<Rightarrow> ptr \<Rightarrow> ptr list \<Rightarrow> bool" where
  "is_list h l xs \<longleftrightarrow> linked h (chain l xs) \<and> distinct (chain l xs) \<and> NULL \<notin> set (chain l xs)
     \<and> prv h (head_of l) = NULL \<and> nxt h (tail_of l) = NULL"

definition same_outside :: "ptr set \<Rightarrow> lheap \<Rightarrow> lheap \<Rightarrow> bool" where
  "same_outside A h h' \<longleftrightarrow> (\<forall>p. p \<notin> A \<longrightarrow> prv h' p = prv h p \<and> nxt h' p = nxt h p)"

lemma linked_append:
  "xs \<noteq> [] \<Longrightarrow> ys \<noteq> [] \<Longrightarrow>
   linked h (xs @ ys) \<longleftrightarrow> linked h xs \<and> linked h ys \<and> nxt h (last xs) = hd ys \<and> prv h (hd ys) = last xs"
proof (induction h xs rule: linked.induct [case_names more none single])
  case (single h v)
  then show ?case by (cases ys) auto
qed auto

lemma linked_Cons: "ys \<noteq> [] \<Longrightarrow> linked h (x # ys) \<longleftrightarrow> nxt h x = hd ys \<and> prv h (hd ys) = x \<and> linked h ys"
  by (cases ys) auto

lemma linked_frame:
  assumes "linked h ps" and "\<And>x. x \<in> set (butlast ps) \<Longrightarrow> nxt h' x = nxt h x"
    and "\<And>x. x \<in> set (tl ps) \<Longrightarrow> prv h' x = prv h x"
  shows "linked h' ps"
  using assms by (induction h ps rule: linked.induct) (auto split: if_splits)

lemma linked_seg:
  assumes "linked h ps" and "distinct ps"
    and "\<And>x. x \<in> set ps \<Longrightarrow> x \<noteq> last ps \<Longrightarrow> nxt h' x = nxt h x"
    and "\<And>x. x \<in> set ps \<Longrightarrow> x \<noteq> hd ps \<Longrightarrow> prv h' x = prv h x"
  shows "linked h' ps"
proof (rule linked_frame [OF assms(1)])
  fix x
  show "nxt h' x = nxt h x" if "x \<in> set (butlast ps)"
    using assms(3) [OF in_set_butlastD [OF that]] that assms(2)
    by (cases ps rule: rev_cases) auto
  show "prv h' x = prv h x" if "x \<in> set (tl ps)"
    using that assms(2,4) by (cases ps) auto
qed

lemma same_outsideI [intro?]:
  "(\<And>p. p \<notin> A \<Longrightarrow> prv h' p = prv h p) \<Longrightarrow> (\<And>p. p \<notin> A \<Longrightarrow> nxt h' p = nxt h p) \<Longrightarrow> same_outside A h h'"
  by (simp add: same_outside_def)

lemma same_outside_refl [simp]: "same_outside A h h"
  by (simp add: same_outside_def)

lemma same_outside_trans:
  "same_outside A h h' \<Longrightarrow> same_outside B h' h'' \<Longrightarrow> A \<union> B \<subseteq> C \<Longrightarrow> same_outside C h h''"
  unfolding same_outside_def by (metis UnCI subsetD)

lemma is_list_frame:
  assumes "is_list h l xs" and "same_outside A h h'" and "A \<inter> set (chain l xs) = {}"
  shows "is_list h' l xs"
proof -
  have same: "prv h' p = prv h p" "nxt h' p = nxt h p" if "p \<in> set (chain l xs)" for p
    using assms(2,3) that by (auto simp: same_outside_def)
  have "linked h' (chain l xs)"
    by (rule linked_frame [of h])
      (use assms(1) same in \<open>auto simp: is_list_def chain_def dest: in_set_butlastD\<close>)
  then show ?thesis
    using assms(1) same by (simp add: is_list_def chain_def)
qed

lemma chain_append: "chain l (xs @ ys) = (l # xs) @ (ys @ [l + 8])"
  by (simp add: chain_def)

lemma set_chain: "set (chain l xs) = insert l (insert (l + 8) (set xs))"
  by (auto simp: chain_def)

lemma is_list_split:
  "is_list h l (xs @ ys) \<longleftrightarrow>
     linked h (l # xs) \<and> linked h (ys @ [l + 8])
     \<and> nxt h (last (l # xs)) = hd (ys @ [l + 8]) \<and> prv h (hd (ys @ [l + 8])) = last (l # xs)
     \<and> distinct (chain l (xs @ ys)) \<and> NULL \<notin> set (chain l (xs @ ys))
     \<and> prv h l = NULL \<and> nxt h (l + 8) = NULL"
  unfolding is_list_def chain_append by (subst linked_append) auto

text \<open>Where the sentinels and the elements stand.\<close>

lemma is_list_distinct: "is_list h l xs \<Longrightarrow> distinct xs \<and> l \<notin> set xs \<and> l + 8 \<notin> set xs \<and> NULL \<notin> set xs \<and> l \<noteq> NULL"
  by (simp add: is_list_def chain_def)

lemma last_pre_neq_0: "is_list h l (xs @ ys) \<Longrightarrow> last (l # xs) \<noteq> NULL"
  using last_in_set [of "l # xs"] by (auto simp: is_list_def chain_append simp del: last.simps)

lemma hd_post_neq_0: "is_list h l (xs @ ys) \<Longrightarrow> hd (ys @ [l + 8]) \<noteq> NULL"
  by (cases ys) (auto simp: is_list_def chain_append)

lemma is_list_at:
  assumes "is_list h l (xs @ x # ys)"
  shows "is_interior h x" and "prv h x = last (l # xs)" and "nxt h x = hd (ys @ [l + 8])"
proof -
  have 1: "prv h x = last (l # xs)"
    using assms by (simp add: is_list_split)
  have 2: "nxt h x = hd (ys @ [l + 8])"
    using is_list_split [of h l "xs @ [x]" ys] assms by simp
  show "prv h x = last (l # xs)" "nxt h x = hd (ys @ [l + 8])"
    by (fact 1 2)+
  show "is_interior h x"
    unfolding is_interior_def 1 2
    using assms last_pre_neq_0 [OF assms] hd_post_neq_0 [of h l "xs @ [x]" ys]
    by (auto simp: is_list_def chain_def)
qed

lemma is_list_interior: "is_list h l xs \<Longrightarrow> x \<in> set xs \<Longrightarrow> is_interior h x"
  using is_list_at(1) by (metis split_list)

lemma is_list_head: "is_list h l xs \<Longrightarrow> is_head h l \<and> nxt h l = hd (xs @ [l + 8])"
  using is_list_split [of h l "[]" xs] hd_post_neq_0 [of h l "[]" xs] is_list_distinct [of h l xs]
  by (auto simp: is_head_def)

lemma is_list_tail: "is_list h l xs \<Longrightarrow> is_tail h (l + 8) \<and> prv h (l + 8) = last (l # xs)"
  using is_list_split [of h l xs "[]"] last_pre_neq_0 [of h l xs "[]"]
  by (auto simp: is_tail_def)

lemma is_list_hd_post:
  "is_list h l (xs @ ys) \<Longrightarrow> is_interior h (hd (ys @ [l + 8])) \<or> is_tail h (hd (ys @ [l + 8]))"
  using is_list_at(1) is_list_tail by (cases ys) fastforce+

section \<open>Operations on the abstraction\<close>

lemma list_init_spec:
  assumes "l \<noteq> NULL"
  obtains h' where "list_init l h = Some h'" "is_list h' l []" "same_outside {l, l + 8} h h'"
proof
  show "list_init l h = Some (set_link (Next (l + 8)) 0 (set_link (Prev (l + 8)) l
      (set_link (Next l) (l + 8) (set_link (Prev l) 0 h))))" (is "_ = Some ?h")
    using assms by (simp add: list_init_def)
  show "is_list ?h l []"
    using assms by (simp add: is_list_def chain_def)
  show "same_outside {l, l + 8} h ?h"
    by (simp add: same_outside_def)
qed

lemma list_end_eq [simp]: "l \<noteq> NULL \<Longrightarrow> list_end l = Some (l + 8)"
  by (simp add: list_end_def)

lemma list_begin_spec: "is_list h l xs \<Longrightarrow> list_begin h l = Some (hd (xs @ [l + 8]))"
  using is_list_head is_list_distinct by (fastforce simp: list_begin_def)

lemma list_rbegin_spec: "is_list h l xs \<Longrightarrow> list_rbegin h l = Some (last (l # xs))"
  using is_list_tail is_list_distinct by (fastforce simp: list_rbegin_def)

lemma list_next_spec: "is_list h l (xs @ x # ys) \<Longrightarrow> list_next h x = Some (hd (ys @ [l + 8]))"
  by (simp add: list_next_def is_list_at)

lemma list_prev_spec:
  assumes "is_list h l (xs @ ys)"
  shows "list_prev h (hd (ys @ [l + 8])) = Some (last (l # xs))"
  using assms is_list_hd_post [OF assms] by (simp add: list_prev_def is_list_split)

lemma hd_eq_tail_iff: "is_list h l (xs @ ys) \<Longrightarrow> hd (ys @ [l + 8]) = l + 8 \<longleftrightarrow> ys = []"
  by (cases ys) (auto dest: is_list_distinct)

lemma list_empty_spec: "is_list h l xs \<Longrightarrow> list_empty h l = Some (xs = [])"
  using hd_eq_tail_iff [of h l "[]" xs]
  by (simp add: list_empty_def list_begin_spec is_list_distinct)

lemma is_list_segs:
  assumes "is_list h l zs" and "chain l zs = P @ N" and "P \<noteq> []" and "N \<noteq> []"
  shows "linked h P" "linked h N" "nxt h (last P) = hd N" "prv h (hd N) = last P"
    "distinct P" "distinct N" "set P \<inter> set N = {}" "last P \<in> set P" "hd N \<in> set N"
    "last P \<notin> set N" "hd N \<notin> set P" "last P \<noteq> hd N" "last P \<noteq> NULL" "hd N \<noteq> NULL"
    "last N = l + 8" "hd P = l"
proof -
  show "linked h P" "linked h N" "nxt h (last P) = hd N" "prv h (hd N) = last P"
    "distinct P" "distinct N" "set P \<inter> set N = {}"
    using assms by (auto simp: is_list_def linked_append)
  moreover show mem: "last P \<in> set P" "hd N \<in> set N"
    by (rule last_in_set [OF assms(3)] hd_in_set [OF assms(4)])+
  ultimately show "last P \<notin> set N" "hd N \<notin> set P"
    by blast+
  with mem show "last P \<noteq> hd N"
    by metis
  show "last P \<noteq> NULL" "hd N \<noteq> NULL"
    using assms(1,2) mem by (auto simp: is_list_def)
  show "last N = l + 8" "hd P = l"
    using arg_cong [OF assms(2), of last] arg_cong [OF assms(2), of hd] assms(3,4)
    by (auto simp: chain_def)
qed

lemma list_insert_spec:
  assumes "is_list h l (xs @ ys)" and "e \<noteq> NULL" and "e \<notin> set (chain l (xs @ ys))"
  obtains h' where "list_insert (hd (ys @ [l + 8])) e h = Some h'" "is_list h' l (xs @ e # ys)"
    "same_outside (insert e (set (chain l (xs @ ys)))) h h'"
proof -
  define P N where PN: "P = l # xs" "N = ys @ [l + 8]"
  have ch: "chain l (xs @ ys) = P @ N" "chain l (xs @ e # ys) = P @ [e] @ N" "P \<noteq> []" "N \<noteq> []"
    by (simp_all add: PN chain_def)
  note segs = is_list_segs [OF assms(1) ch(1,3,4)]
  define h' where "h' = h\<lparr>prv := (prv h)(e := last P, hd N := e), nxt := (nxt h)(e := hd N, last P := e)\<rparr>"
  have e: "e \<notin> set P" "e \<notin> set N" "e \<noteq> last P" "e \<noteq> hd N"
    using assms(3) segs(8,9) by (auto simp: ch(1))
  have run: "list_insert (hd N) e h = Some h'"
    using is_list_hd_post [OF assms(1)] assms(2) segs e
    by (simp add: list_insert_def Let_def fun_upd_twist h'_def flip: PN)
  have "linked h' P" "linked h' N"
    by (rule linked_seg [of h]; use segs e in \<open>auto simp: h'_def\<close>)+
  then have "linked h' (P @ [e] @ N)"
    using segs e ch by (simp add: linked_append linked_Cons h'_def)
  moreover have "prv h' l = NULL" "nxt h' (l + 8) = NULL"
    using assms(1) e segs ch(3,4) last_in_set [of N] hd_in_set [of P] by (auto simp: h'_def is_list_def)
  ultimately have "is_list h' l (xs @ e # ys)"
    using assms(1,2) e by (auto simp: is_list_def ch)
  moreover have "same_outside (insert e (set (chain l (xs @ ys)))) h h'"
    using segs by (auto simp: same_outside_def ch h'_def)
  ultimately show ?thesis
    using that run by (simp add: PN)
qed

lemma list_remove_spec:
  assumes "is_list h l (xs @ e # ys)"
  obtains h' where "list_remove e h = Some (hd (ys @ [l + 8]), h')" "is_list h' l (xs @ ys)"
    "same_outside (set (chain l (xs @ ys))) h h'"
proof -
  define P N where PN: "P = l # xs" "N = ys @ [l + 8]"
  have ch: "chain l (xs @ e # ys) = P @ [e] @ N" "chain l (xs @ ys) = P @ N"
    "chain l (xs @ e # ys) = (P @ [e]) @ N" "P \<noteq> []" "N \<noteq> []"
    by (simp_all add: PN chain_def)
  note pre = is_list_segs [OF assms(1) ch(1,4)] and post = is_list_segs [OF assms(1) ch(3) _ ch(5)]
  define h' where "h' = h\<lparr>prv := (prv h)(hd N := last P), nxt := (nxt h)(last P := hd N)\<rparr>"
  have e: "e \<notin> set P" "e \<notin> set N" "e \<noteq> last P" "e \<noteq> hd N" "prv h e = last P" "nxt h e = hd N"
    using pre post by auto
  have disj: "last P \<notin> set N" "hd N \<notin> set P" "hd N \<in> set N" "last P \<in> set P" "hd N \<noteq> last P"
    using pre post by auto
  have run: "list_remove e h = Some (hd N, h')"
    using is_list_at(1) [OF assms] e by (simp add: list_remove_def Let_def h'_def)
  have "linked h' P" "linked h' N"
    by (rule linked_seg [of h]; use pre(1,5) post(2,6) disj in \<open>auto simp: h'_def\<close>)+
  then have "linked h' (P @ N)"
    using ch disj by (simp add: linked_append h'_def)
  moreover have "prv h' l = NULL" "nxt h' (l + 8) = NULL"
    using assms disj ch pre(16) post(15) last_in_set [of N] hd_in_set [of P]
    by (auto simp: h'_def is_list_def)
  ultimately have "is_list h' l (xs @ ys)"
    using assms by (auto simp: is_list_def ch)
  moreover have "same_outside (set (chain l (xs @ ys))) h h'"
    using disj by (auto simp: same_outside_def ch h'_def)
  ultimately show ?thesis
    using that run by (simp add: PN)
qed

text \<open>Moving a segment forward within a list, the only use the library itself makes of
  \<^verbatim>\<open>list_splice\<close>, and moving a segment from one list to another.\<close>

lemma list_splice_same_spec:
  assumes "is_list h l (as @ cs @ ms @ ds)" and ne: "cs \<noteq> []" "ms \<noteq> []"
  obtains h' where "list_splice (hd cs) (hd ms) (hd (ds @ [l + 8])) h = Some h'"
    "is_list h' l (as @ ms @ cs @ ds)" "same_outside (set (chain l (as @ cs @ ms @ ds))) h h'"
proof -
  define P N where PN: "P = l # as" "N = ds @ [l + 8]"
  have ch: "chain l (as @ cs @ ms @ ds) = P @ (cs @ ms @ N)" "chain l (as @ ms @ cs @ ds) = P @ ms @ cs @ N"
    "P \<noteq> []" "N \<noteq> []"
    by (simp_all add: PN chain_def)
  have ch': "chain l (as @ cs @ ms @ ds) = (P @ cs) @ (ms @ N)" "chain l (as @ cs @ ms @ ds) = (P @ cs @ ms) @ N"
    by (simp_all add: PN chain_def)
  note sP = is_list_segs [OF assms(1) ch(1,3)] and sC = is_list_segs [OF assms(1) ch'(1)]
    and sN = is_list_segs [OF assms(1) ch'(2) _ ch(4)]
  have lk: "linked h P" "linked h cs" "linked h ms" "linked h N" "nxt h (last ms) = hd N" "prv h (hd N) = last ms"
    "prv h (hd ms) = last cs" "prv h (hd cs) = last P" "last N = l + 8" "hd P = l"
    using sP sC sN ne ch(3,4) by (simp_all add: linked_append)
  have mem: "last P \<in> set P" "hd cs \<in> set cs" "last cs \<in> set cs" "hd ms \<in> set ms" "last ms \<in> set ms" "hd N \<in> set N"
    "hd P \<in> set P" "last N \<in> set N"
    using ne ch by auto
  have dis: "distinct (P @ cs @ ms @ N)" "NULL \<notin> set (P @ cs @ ms @ N)"
    using assms(1) by (auto simp: is_list_def ch)
  have neq: "hd ms \<noteq> hd N" "last cs \<noteq> last ms" "last cs \<noteq> last P" "last ms \<noteq> last P" "hd N \<noteq> hd ms" "hd N \<noteq> hd cs" "hd ms \<noteq> hd cs"
    using dis(1) mem by (metis disjoint_iff distinct_append Un_iff set_append)+
  define h' where "h' = h\<lparr>nxt := (nxt h)(last cs := hd N, last ms := hd cs, last P := hd ms),
                          prv := (prv h)(hd N := last cs, hd ms := last P, hd cs := last ms)\<rparr>"
  have "is_interior h (hd cs)" "is_interior h (hd ms)" "is_interior h (last ms)"
    using assms(1) mem by (auto intro: is_list_interior)
  then have run: "list_splice (hd cs) (hd ms) (hd N) h = Some h'"
    using list_prev_spec [of h l "as @ cs @ ms" ds] assms(1) neq lk ne
    by (simp add: list_splice_def Let_def h'_def fun_upd_twist flip: PN)
  have "linked h' P" "linked h' cs" "linked h' ms" "linked h' N"
    by (rule linked_seg [of h]; use lk mem dis in \<open>auto simp: h'_def\<close>)+
  then have "linked h' (P @ ms @ cs @ N)"
    using neq ne ch(3,4) by (simp add: linked_append h'_def)
  moreover have "prv h' l = NULL" "nxt h' (l + 8) = NULL"
    using assms(1) lk(9,10) mem dis by (auto simp: h'_def is_list_def)
  ultimately have "is_list h' l (as @ ms @ cs @ ds)"
    using dis by (auto simp: is_list_def ch(2))
  moreover have "same_outside (set (chain l (as @ cs @ ms @ ds))) h h'"
    using mem by (auto simp: same_outside_def ch(1) h'_def)
  ultimately show ?thesis
    using that run by (simp add: PN)
qed

text \<open>The operations at the two ends.\<close>

lemma list_push_front_spec:
  assumes "is_list h l xs" and "e \<noteq> NULL" and "e \<notin> set (chain l xs)"
  obtains h' where "list_push_front l e h = Some h'" "is_list h' l (e # xs)"
    "same_outside (insert e (set (chain l xs))) h h'"
proof -
  obtain h' where "list_insert (hd (xs @ [l + 8])) e h = Some h'" "is_list h' l ([] @ e # xs)"
    "same_outside (insert e (set (chain l ([] @ xs)))) h h'"
    by (rule list_insert_spec [of h l "[]" xs e]) (use assms in simp_all)
  then show thesis
    using assms(1) by (intro that [of h']) (simp_all add: list_push_front_def list_begin_spec)
qed

lemma list_push_back_spec:
  assumes "is_list h l xs" and "e \<noteq> NULL" and "e \<notin> set (chain l xs)"
  obtains h' where "list_push_back l e h = Some h'" "is_list h' l (xs @ [e])"
    "same_outside (insert e (set (chain l xs))) h h'"
proof -
  obtain h' where "list_insert (hd ([] @ [l + 8])) e h = Some h'" "is_list h' l (xs @ e # [])"
    "same_outside (insert e (set (chain l (xs @ [])))) h h'"
    by (rule list_insert_spec [of h l xs "[]" e]) (use assms in simp_all)
  then show thesis
    using is_list_distinct [OF assms(1)] by (intro that [of h']) (simp_all add: list_push_back_def)
qed

lemma list_pop_front_spec:
  assumes "is_list h l (x # xs)"
  obtains h' where "list_pop_front l h = Some (x, h')" "is_list h' l xs" "same_outside (set (chain l xs)) h h'"
proof -
  obtain h' where "list_remove x h = Some (hd (xs @ [l + 8]), h')" "is_list h' l ([] @ xs)"
    "same_outside (set (chain l ([] @ xs))) h h'"
    by (rule list_remove_spec [of h l "[]" x xs]) (use assms in simp_all)
  then show thesis
    using assms is_list_head [OF assms]
    by (intro that [of h']) (simp_all add: list_pop_front_def list_front_def list_empty_spec)
qed

lemma list_pop_back_spec:
  assumes "is_list h l (xs @ [x])"
  obtains h' where "list_pop_back l h = Some (x, h')" "is_list h' l xs" "same_outside (set (chain l xs)) h h'"
proof -
  obtain h' where "list_remove x h = Some (hd ([] @ [l + 8]), h')" "is_list h' l (xs @ [])"
    "same_outside (set (chain l (xs @ []))) h h'"
    by (rule list_remove_spec [of h l xs x "[]"]) (use assms in simp_all)
  then show thesis
    using assms is_list_tail [OF assms]
    by (intro that [of h']) (simp_all add: list_pop_back_def list_back_def list_empty_spec)
qed

lemma list_pop_empty:
  assumes "is_list h l []"
  shows "list_pop_front l h = None" and "list_pop_back l h = None"
  using assms by (simp_all add: list_pop_front_def list_pop_back_def list_front_def list_back_def list_empty_spec)

text \<open>A walk along a list: at each position the loop has read the prefix \<open>xs\<close> and has the
  suffix \<open>ys\<close> before it. The two facts below drive every such loop.\<close>

lemma walk_end: "is_list h l (xs @ []) \<Longrightarrow> list_end l = Some (l + 8)"
  using is_list_distinct by fastforce

lemma walk_step:
  assumes "is_list h l (xs @ y # ys)"
  shows "list_end l = Some (l + 8)" and "y \<noteq> l + 8" and "y \<noteq> NULL"
    and "list_next h y = Some (hd (ys @ [l + 8]))" and "is_list h l ((xs @ [y]) @ ys)"
  using assms is_list_distinct [OF assms] by (auto simp: list_next_spec)

lemma list_size_loop_spec:
  "is_list h l (xs @ ys) \<Longrightarrow> list_size_loop h l (hd (ys @ [l + 8])) cnt = Some (cnt + of_nat (length ys))"
proof (induction ys arbitrary: xs cnt)
  case (Cons y ys)
  then show ?case
    using Cons.IH [OF walk_step(5)] walk_step [OF Cons.prems]
    by (subst list_size_loop.simps) (simp add: algebra_simps)
qed (subst list_size_loop.simps, simp add: walk_end)

lemma list_size_spec: "is_list h l xs \<Longrightarrow> list_size h l = Some (of_nat (length xs))"
  using list_size_loop_spec [of h l "[]" xs 0] by (simp add: list_size_def list_begin_spec)

lemma list_max_loop_spec:
  "is_list h l (xs @ ys) \<Longrightarrow> list_max_loop lt h l mx (hd (ys @ [l + 8])) = Some (fold (\<lambda>e m. if lt m e then e else m) ys mx)"
proof (induction ys arbitrary: xs mx)
  case (Cons y ys)
  then show ?case
    using Cons.IH [OF walk_step(5)] walk_step [OF Cons.prems] by (subst list_max_loop.simps) simp
qed (subst list_max_loop.simps, simp add: walk_end)

lemma list_min_loop_spec:
  "is_list h l (xs @ ys) \<Longrightarrow> list_min_loop lt h l mn (hd (ys @ [l + 8])) = Some (fold (\<lambda>e m. if lt e m then e else m) ys mn)"
proof (induction ys arbitrary: xs mn)
  case (Cons y ys)
  then show ?case
    using Cons.IH [OF walk_step(5)] walk_step [OF Cons.prems] by (subst list_min_loop.simps) simp
qed (subst list_min_loop.simps, simp add: walk_end)

lemma list_insert_ordered_loop_spec:
  "is_list h l (xs @ ys) \<Longrightarrow>
   list_insert_ordered_loop lt h l e (hd (ys @ [l + 8])) = Some (hd (dropWhile (\<lambda>y. \<not> lt e y) ys @ [l + 8]))"
proof (induction ys arbitrary: xs)
  case (Cons y ys)
  then show ?case
    using Cons.IH [OF walk_step(5)] walk_step [OF Cons.prems] by (subst list_insert_ordered_loop.simps) simp
qed (subst list_insert_ordered_loop.simps, simp add: walk_end)

lemma list_insert_ordered_spec:
  assumes "is_list h l xs" and "e \<noteq> NULL" and "e \<notin> set (chain l xs)"
  obtains h' where "list_insert_ordered lt l e h = Some h'"
    "is_list h' l (takeWhile (\<lambda>y. \<not> lt e y) xs @ e # dropWhile (\<lambda>y. \<not> lt e y) xs)"
    "same_outside (insert e (set (chain l xs))) h h'"
proof -
  let ?p = "\<lambda>y. \<not> lt e y"
  obtain h' where "list_insert (hd (dropWhile ?p xs @ [l + 8])) e h = Some h'"
    "is_list h' l (takeWhile ?p xs @ e # dropWhile ?p xs)" "same_outside (insert e (set (chain l xs))) h h'"
    by (rule list_insert_spec [of h l "takeWhile ?p xs" "dropWhile ?p xs" e]) (use assms in simp_all)
  then show thesis
    using list_insert_ordered_loop_spec [of h l "[]" xs lt e] is_list_distinct [OF assms(1)] assms
    by (intro that [of h']) (simp_all add: list_insert_ordered_def list_begin_spec)
qed

section \<open>Reversal\<close>

definition swapped :: "lheap \<Rightarrow> ptr set \<Rightarrow> lheap" where
  "swapped h A = h\<lparr>prv := (\<lambda>p. if p \<in> A then nxt h p else prv h p),
                   nxt := (\<lambda>p. if p \<in> A then prv h p else nxt h p)\<rparr>"

lemma swapped_sel [simp]:
  "prv (swapped h A) p = (if p \<in> A then nxt h p else prv h p)"
  "nxt (swapped h A) p = (if p \<in> A then prv h p else nxt h p)"
  by (simp_all add: swapped_def)

lemma swapped_insert:
  "x \<notin> A \<Longrightarrow> swap (Prev x) (Next x) (swapped h A) = swapped h (insert x A)"
  by (auto simp: swapped_def swap_def fun_eq_iff)

lemma list_reverse_loop_spec:
  "is_list h l (xs @ ys) \<Longrightarrow>
   list_reverse_loop l (hd (ys @ [l + 8])) (swapped h (set xs)) = Some (swapped h (set (xs @ ys)))"
proof (induction ys arbitrary: xs)
  case (Cons y ys)
  have "y \<notin> set xs"
    using is_list_distinct [OF Cons.prems] by simp
  then show ?case
    using Cons.IH [OF walk_step(5)] walk_step [OF Cons.prems] Cons.prems is_list_at(3) [OF Cons.prems]
    by (subst list_reverse_loop.simps) (simp add: swapped_insert)
qed (subst list_reverse_loop.simps, simp add: walk_end)

lemma linked_rev:
  assumes "linked h xs" "distinct xs"
    and "\<And>x. x \<in> set xs \<Longrightarrow> x \<noteq> last xs \<Longrightarrow> prv h' x = nxt h x"
    and "\<And>x. x \<in> set xs \<Longrightarrow> x \<noteq> hd xs \<Longrightarrow> nxt h' x = prv h x"
  shows "linked h' (rev xs)"
  using assms
proof (induction h xs rule: linked.induct)
  case (1 h a b ps)
  have "linked h' (rev (b # ps))"
    by (rule "1.IH") (use "1.prems" in \<open>auto split: if_splits\<close>)
  moreover have "a \<noteq> last (b # ps)"
    using "1.prems"(2) last_in_set [of "b # ps"] by (metis distinct.simps(2) list.discI)
  then have "nxt h' b = a" "prv h' a = b"
    using "1.prems"(1,2) "1.prems"(3) [of a] "1.prems"(4) [of b] by auto
  ultimately show ?case
    using linked_append [of "rev ps @ [b]" "[a]"] by simp
qed auto

lemma list_reverse_spec:
  assumes "is_list h l xs"
  obtains h' where "list_reverse l h = Some h'" "is_list h' l (rev xs)" "same_outside (set (chain l xs)) h h'"
proof (cases "xs = []")
  case True
  then show ?thesis
    using assms that [of h] by (simp add: list_reverse_def list_empty_spec)
next
  case False
  note ends = is_list_head [OF assms] is_list_tail [OF assms] is_list_distinct [OF assms]
  have mem: "hd xs \<in> set xs" "last xs \<in> set xs"
    by (rule hd_in_set [OF False] last_in_set [OF False])+
  then have hdl: "hd xs \<in> set xs" "last xs \<in> set xs" "hd xs \<noteq> NULL" "last xs \<noteq> NULL"
    using ends(3) by metis+
  have lk: "linked h xs" "prv h (hd xs) = l" "nxt h (last xs) = l + 8" "prv h l = 0" "nxt h (l + 8) = 0"
    using assms False by (auto simp: is_list_def chain_def linked_Cons linked_append)
  define h' where "h' = (swapped h (set xs))\<lparr>nxt := (nxt (swapped h (set xs)))(l := last xs, hd xs := l + 8),
     prv := (prv (swapped h (set xs)))(l + 8 := hd xs, last xs := l)\<rparr>"
  have run: "list_reverse l h = Some h'"
    using list_reverse_loop_spec [of h l "[]" xs] assms False ends hdl lk
    by (auto simp: list_reverse_def list_empty_spec list_begin_spec swap_def h'_def Let_def
        swapped_def [of h "{}"] fun_upd_twist)
  have "linked h' (rev xs)"
    by (rule linked_rev [of h]) (use lk ends(3) in \<open>auto simp: h'_def\<close>)
  moreover have "nxt h' l = last xs" "prv h' (last xs) = l" "nxt h' (hd xs) = l + 8" "prv h' (l + 8) = hd xs"
      "prv h' l = 0" "nxt h' (l + 8) = 0"
    using hdl ends(3) lk by (auto simp: h'_def)
  ultimately have "is_list h' l (rev xs)"
    using assms False by (auto simp: is_list_def chain_def linked_Cons linked_append hd_rev last_rev)
  moreover have "same_outside (set (chain l xs)) h h'"
    using hdl by (auto simp: same_outside_def set_chain h'_def)
  ultimately show ?thesis
    using that run by blast
qed

section \<open>Removal of duplicates\<close>

text \<open>What \<^verbatim>\<open>list_unique\<close> keeps and what it moves to the list of duplicates.\<close>

fun unique_from :: "('a \<Rightarrow> 'a \<Rightarrow> bool) \<Rightarrow> 'a \<Rightarrow> 'a list \<Rightarrow> 'a list \<times> 'a list" where
  "unique_from lt x [] = ([], [])"
| "unique_from lt x (y # ys) =
     (if \<not> lt x y \<and> \<not> lt y x then map_prod id ((#) y) (unique_from lt x ys)
      else map_prod ((#) y) id (unique_from lt y ys))"

lemma list_unique_loop_spec:
  assumes "is_list h l (as @ x # ys)" and "is_list h d zs" "set (chain l (as @ x # ys)) \<inter> set (chain d zs) = {}"
  shows "\<exists>h'. list_unique_loop lt l d x h = Some h' \<and> is_list h' l (as @ x # fst (unique_from lt x ys))
     \<and> is_list h' d (zs @ snd (unique_from lt x ys))
     \<and> same_outside (set (chain l (as @ x # ys)) \<union> set (chain d zs)) h h'"
  using assms
proof (induction ys arbitrary: as x h zs)
  case Nil
  then show ?case
    using walk_step [of h l as x "[]"] by (subst list_unique_loop.simps) simp
next
  case (Cons y ys)
  note st = walk_step [OF Cons.prems(1)] and st2 = walk_step [of h l "as @ [x]" y ys]
  show ?case
  proof (cases "\<not> lt x y \<and> \<not> lt y x")
    case True
    obtain h1 where h1: "list_remove y h = Some (hd (ys @ [l + 8]), h1)" "is_list h1 l ((as @ [x]) @ ys)"
      "same_outside (set (chain l ((as @ [x]) @ ys))) h h1"
      by (rule list_remove_spec [of h l "as @ [x]" y ys]) (use Cons.prems in simp)
    have "is_list h1 d zs"
      by (rule is_list_frame [OF Cons.prems(2) h1(3)]) (use Cons.prems(3) in \<open>auto simp: set_chain\<close>)
    moreover have y: "y \<noteq> 0" "y \<notin> set (chain d zs)"
      using Cons.prems(3) st2 Cons.prems(1) by (auto simp: set_chain)
    ultimately obtain h2 where h2: "list_push_back d y h1 = Some h2" "is_list h2 d (zs @ [y])"
      "same_outside (insert y (set (chain d zs))) h1 h2"
      by (rule list_push_back_spec)
    have "y \<notin> set (chain l (as @ x # ys))"
      using Cons.prems(1) by (auto simp: is_list_def chain_def)
    then have l2: "is_list h2 l (as @ x # ys)"
      using is_list_frame [OF h1(2) h2(3)] Cons.prems(3) by (auto simp: set_chain)
    moreover have "set (chain l (as @ x # ys)) \<inter> set (chain d (zs @ [y])) = {}"
      using Cons.prems(3) \<open>y \<notin> set (chain l (as @ x # ys))\<close> by (auto simp: set_chain)
    ultimately obtain h' where h': "list_unique_loop lt l d x h2 = Some h'"
        "is_list h' l (as @ x # fst (unique_from lt x ys))" "is_list h' d ((zs @ [y]) @ snd (unique_from lt x ys))"
        "same_outside (set (chain l (as @ x # ys)) \<union> set (chain d (zs @ [y]))) h2 h'"
      using Cons.IH [OF l2 h2(2)] by blast
    have "same_outside (set (chain l (as @ x # y # ys)) \<union> set (chain d zs)) h h'"
      by (rule same_outside_trans [OF same_outside_trans [OF h1(3) h2(3) order_refl] h'(4)])
        (auto simp: set_chain)
    then show ?thesis
      using True st st2 Cons.prems h1(1) h2(1) h' is_list_distinct [OF Cons.prems(2)]
      by (subst list_unique_loop.simps) simp
  next
    case False
    obtain h' where "list_unique_loop lt l d y h = Some h'" "is_list h' l ((as @ [x]) @ y # fst (unique_from lt y ys))"
        "is_list h' d (zs @ snd (unique_from lt y ys))"
        "same_outside (set (chain l ((as @ [x]) @ y # ys)) \<union> set (chain d zs)) h h'"
      using Cons.IH [where as = "as @ [x]" and x = y] Cons.prems by fastforce
    then show ?thesis
      using False st st2 Cons.prems by (subst list_unique_loop.simps) auto
  qed
qed

lemma list_unique_loop_null_spec:
  assumes "is_list h l (as @ x # ys)"
  shows "\<exists>h'. list_unique_loop lt l NULL x h = Some h' \<and> is_list h' l (as @ x # fst (unique_from lt x ys))
     \<and> same_outside (set (chain l (as @ x # ys))) h h'"
  using assms
proof (induction ys arbitrary: as x h)
  case Nil
  then show ?case
    using walk_step [of h l as x "[]"] by (subst list_unique_loop.simps) simp
next
  case (Cons y ys)
  note st = walk_step [OF Cons.prems(1)] and st2 = walk_step [of h l "as @ [x]" y ys]
  show ?case
  proof (cases "\<not> lt x y \<and> \<not> lt y x")
    case True
    obtain h1 where h1: "list_remove y h = Some (hd (ys @ [l + 8]), h1)" "is_list h1 l ((as @ [x]) @ ys)"
      "same_outside (set (chain l ((as @ [x]) @ ys))) h h1"
      by (rule list_remove_spec [of h l "as @ [x]" y ys]) (use Cons.prems in simp)
    then obtain h' where h': "list_unique_loop lt l NULL x h1 = Some h'"
        "is_list h' l (as @ x # fst (unique_from lt x ys))" "same_outside (set (chain l (as @ x # ys))) h1 h'"
      using Cons.IH [of h1 as x] by auto
    have "same_outside (set (chain l (as @ x # y # ys))) h h'"
      by (rule same_outside_trans [OF h1(3) h'(3)]) (auto simp: set_chain)
    then show ?thesis
      using True st st2 Cons.prems h1(1) h' by (subst list_unique_loop.simps) simp
  next
    case False
    then show ?thesis
      using Cons.IH [where as = "as @ [x]" and x = y] st st2 Cons.prems
      by (subst list_unique_loop.simps) auto
  qed
qed

text \<open>The whole operation, on a list that need not be empty.\<close>

fun unique_list :: "('a \<Rightarrow> 'a \<Rightarrow> bool) \<Rightarrow> 'a list \<Rightarrow> 'a list \<times> 'a list" where
  "unique_list lt [] = ([], [])"
| "unique_list lt (x # xs) = map_prod ((#) x) id (unique_from lt x xs)"

lemma list_unique_spec:
  assumes "is_list h l xs" and "is_list h d zs" and "set (chain l xs) \<inter> set (chain d zs) = {}"
  obtains h' where "list_unique lt l d h = Some h'" "is_list h' l (fst (unique_list lt xs))"
    "is_list h' d (zs @ snd (unique_list lt xs))"
    "same_outside (set (chain l xs) \<union> set (chain d zs)) h h'"
proof (cases xs)
  case Nil
  then show ?thesis
    using assms is_list_distinct that [of h] by (force simp: list_unique_def list_empty_spec)
next
  case (Cons x ys)
  then show ?thesis
    using list_unique_loop_spec [of h l "[]" x ys d zs lt] assms is_list_distinct [OF assms(1)]
    by (auto simp: list_unique_def list_empty_spec list_begin_spec intro!: that)
qed

lemma list_unique_null_spec:
  assumes "is_list h l xs"
  obtains h' where "list_unique lt l NULL h = Some h'" "is_list h' l (fst (unique_list lt xs))"
    "same_outside (set (chain l xs)) h h'"
proof (cases xs)
  case Nil
  then show ?thesis
    using assms is_list_distinct that [of h] by (force simp: list_unique_def list_empty_spec)
next
  case (Cons x ys)
  then show ?thesis
    using list_unique_loop_null_spec [of h l "[]" x ys lt] assms is_list_distinct [OF assms]
    by (auto simp: list_unique_def list_empty_spec list_begin_spec intro!: that)
qed

section \<open>A list is a queue\<close>

definition list_room :: "ptr \<Rightarrow> ptr list \<Rightarrow> ptr \<Rightarrow> bool" where
  "list_room l xs e \<longleftrightarrow> e \<noteq> NULL \<and> e \<notin> set (chain l xs)"

interpretation klist: fifo "\<lambda>h. is_list h l" "list_room l" "list_push_back l" "list_pop_front l" for l
proof
  show "\<exists>h'. list_push_back l e h = Some h' \<and> is_list h' l (xs @ [e])" if "is_list h l xs" "list_room l xs e" for h xs e
    using that by (auto simp: list_room_def elim: list_push_back_spec)
  show "\<exists>h'. list_pop_front l h = Some (x, h') \<and> is_list h' l xs" if "is_list h l (x # xs)" for h x xs
    using that by (auto elim: list_pop_front_spec)
qed

text \<open>A list used as a queue, the way the run queue and the wait lists use it, is first-in first-out:
  elements added with \<^verbatim>\<open>list_push_back\<close> behind the elements \<open>xs\<close> come out of
  \<^verbatim>\<open>list_pop_front\<close> after them and in the order they were added, until the list is empty.\<close>

lemma list_queue_order:
  assumes "is_list h l xs" "distinct es" "set es \<inter> set (chain l xs) = {}" "NULL \<notin> set es"
  shows "\<exists>h1 h2. enq_all (list_push_back l) es h = Some h1
    \<and> deq_n (list_pop_front l) (length xs + length es) h1 = Some (xs @ es, h2) \<and> is_list h2 l []"
proof (rule klist.fifo_order [OF assms(1)])
  fix i
  assume i: "i < length es"
  then have "es ! i \<notin> set (take i es)"
    using assms(2) by (simp add: in_set_conv_nth nth_eq_iff_index_eq)
  moreover have "es ! i \<in> set es"
    using i by simp
  moreover from this have "es ! i \<noteq> NULL" "es ! i \<notin> set (chain l xs)"
    using assms(3,4) by (metis, blast)
  ultimately show "list_room l (xs @ take i es) (es ! i)"
    by (simp add: list_room_def set_chain)
qed

lemma list_queue_order_witness:
  "\<exists>h1 h2. enq_all (list_push_back 1) [50, 30] \<lparr>prv = (\<lambda>_. 0)(9 := 70, 70 := 1), nxt = (\<lambda>_. 0)(1 := 70, 70 := 9)\<rparr> = Some h1
    \<and> deq_n (list_pop_front 1) (length [70 :: nat] + length [50, 30 :: nat]) h1 = Some ([70] @ [50, 30], h2) \<and> is_list h2 1 []"
  using list_queue_order [of "\<lparr>prv = (\<lambda>_. 0)(9 := 70, 70 := 1), nxt = (\<lambda>_. 0)(1 := 70, 70 := 9)\<rparr>" 1 "[70]" "[50, 30]"]
  by (simp add: is_list_def chain_def del: enq_all.simps deq_n.simps)

text \<open>\<^verbatim>\<open>list_reverse\<close> reverses a list in place: it returns, the list then holds its elements in the
  opposite order with consistent links, and no other memory has changed; reversing twice gives
  back the original order.\<close>

lemma list_reverse_correct:
  assumes "is_list h l xs"
  shows "\<exists>h1 h2. list_reverse l h = Some h1 \<and> is_list h1 l (rev xs) \<and> same_outside (set (chain l xs)) h h1
    \<and> list_reverse l h1 = Some h2 \<and> is_list h2 l xs"
proof -
  obtain h1 where h1: "list_reverse l h = Some h1" "is_list h1 l (rev xs)" "same_outside (set (chain l xs)) h h1"
    by (rule list_reverse_spec [OF assms])
  obtain h2 where "list_reverse l h1 = Some h2" "is_list h2 l (rev (rev xs))"
    by (rule list_reverse_spec [OF h1(2)])
  with h1 show ?thesis
    by auto
qed

lemma list_reverse_correct_witness:
  "\<exists>h1 h2. list_reverse 1 \<lparr>prv = (\<lambda>_. 0)(9 := 50, 50 := 70, 70 := 1), nxt = (\<lambda>_. 0)(1 := 70, 70 := 50, 50 := 9)\<rparr> = Some h1
     \<and> is_list h1 1 [50, 70] \<and> list_reverse 1 h1 = Some h2 \<and> is_list h2 1 [70, 50]"
  using list_reverse_correct [of "\<lparr>prv = (\<lambda>_. 0)(9 := 50, 50 := 70, 70 := 1), nxt = (\<lambda>_. 0)(1 := 70, 70 := 50, 50 := 9)\<rparr>" 1 "[70, 50]"]
  by (auto simp: is_list_def chain_def)

end
