(* ===== verification/List_Sort.thy ===== *)
theory List_Sort
  imports Kernel_List "HOL-Library.Multiset"
begin

text \<open>
  \<^verbatim>\<open>list_sort\<close> of \<^verbatim>\<open>lib/kernel/list.c\<close>: a natural merge sort that works in place on
  the links of a list. The definitions of the code are in \<open>Kernel_List\<close>. Here each of its loops
  is related to a function on HOL lists, and the sort is shown to end with a sorted,
  stable permutation of the list, without failing one of its own assertions.
\<close>

section \<open>Comparison functions\<close>

text \<open>What \<^verbatim>\<open>list.h\<close> asks of a \<^verbatim>\<open>list_less_func\<close>: it decides "less than" of some value
  of the elements, so it is asymmetric and "not less" is transitive.\<close>

locale less_func =
  fixes lt :: "'a \<Rightarrow> 'a \<Rightarrow> bool"
  assumes lt_asym: "lt x y \<Longrightarrow> \<not> lt y x"
    and ge_trans: "\<not> lt y x \<Longrightarrow> \<not> lt z y \<Longrightarrow> \<not> lt z x"
begin

lemma ge_refl [simp]: "\<not> lt x x"
  using lt_asym by blast

lemma lt_ge_trans: "lt x y \<Longrightarrow> \<not> lt z y \<Longrightarrow> lt x z"
  using ge_trans by blast

lemma ge_transp: "transp (\<lambda>x y. \<not> lt y x)"
  using ge_trans by (auto intro: transpI)

lemma successively_ge: "successively (\<lambda>x y. \<not> lt y x) xs \<longleftrightarrow> sorted_wrt (\<lambda>x y. \<not> lt y x) xs"
  by (rule successively_conv_sorted_wrt) (rule ge_transp)

end

section \<open>Runs and merging on HOL lists\<close>

text \<open>The rest of the run that starts at \<open>x\<close>, and what follows it.\<close>

fun run_of :: "('a \<Rightarrow> 'a \<Rightarrow> bool) \<Rightarrow> 'a \<Rightarrow> 'a list \<Rightarrow> 'a list \<times> 'a list" where
  "run_of lt x [] = ([], [])"
| "run_of lt x (y # ys) =
     (if \<not> lt y x then map_prod ((#) y) id (run_of lt y ys) else ([], y # ys))"

fun merge_by :: "('a \<Rightarrow> 'a \<Rightarrow> bool) \<Rightarrow> 'a list \<Rightarrow> 'a list \<Rightarrow> 'a list" where
  "merge_by lt (a # as) (b # bs) =
     (if \<not> lt b a then a # merge_by lt as (b # bs) else b # merge_by lt (a # as) bs)"
| "merge_by lt [] bs = bs"
| "merge_by lt as [] = as"

lemma run_of_append: "fst (run_of lt x ys) @ snd (run_of lt x ys) = ys"
  by (induction lt x ys rule: run_of.induct) auto

lemma length_snd_run_of: "length (snd (run_of lt x ys)) \<le> length ys"
  by (induction lt x ys rule: run_of.induct) auto

lemma run_of_sorted: "successively (\<lambda>a b. \<not> lt b a) (x # fst (run_of lt x ys))"
  by (induction lt x ys rule: run_of.induct) auto

function sort_pass :: "('a \<Rightarrow> 'a \<Rightarrow> bool) \<Rightarrow> 'a list \<Rightarrow> nat \<times> 'a list" where
  "sort_pass lt [] = (0, [])"
| "sort_pass lt (x # xs) =
     (case run_of lt x xs of
        (r, []) \<Rightarrow> (1, x # r)
      | (r, y # ys) \<Rightarrow> (case run_of lt y ys of (r', zs) \<Rightarrow>
          map_prod Suc ((@) (merge_by lt (x # r) (y # r'))) (sort_pass lt zs)))"
  by pat_completeness auto
termination
proof (relation "measure (\<lambda>(lt, xs). length xs)")
  fix lt :: "'a \<Rightarrow> 'a \<Rightarrow> bool" and x xs r s y ys r' zs
  assume "(r, s) = run_of lt x xs" "s = y # ys" "(r', zs) = run_of lt y ys"
  then have "length (y # ys) \<le> length xs" "length zs \<le> length ys"
    using length_snd_run_of [of lt x xs] length_snd_run_of [of lt y ys] by (metis snd_conv)+
  then show "((lt, zs), (lt, x # xs)) \<in> measure (\<lambda>(lt, xs). length xs)"
    by simp
qed simp

lemma sort_pass_induct [case_names empty last_run two_runs]:
  assumes "P []"
    and "\<And>x xs r. run_of lt x xs = (r, []) \<Longrightarrow> P (x # xs)"
    and "\<And>x xs r y ys r' zs. run_of lt x xs = (r, y # ys) \<Longrightarrow> run_of lt y ys = (r', zs) \<Longrightarrow> P zs \<Longrightarrow> P (x # xs)"
  shows "P xs"
proof (induction xs rule: length_induct)
  case (1 xs)
  show ?case
  proof (cases xs)
    case (Cons x us)
    obtain r s where rs: "run_of lt x us = (r, s)"
      by force
    show ?thesis
    proof (cases s)
      case (Cons y ys)
      obtain r' zs where rs': "run_of lt y ys = (r', zs)"
        by force
      have "length zs < length xs"
        using length_snd_run_of [of lt x us] length_snd_run_of [of lt y ys] rs rs' Cons \<open>xs = x # us\<close> by simp
      then show ?thesis
        using "1.IH" assms(3) [OF _ rs'] rs Cons \<open>xs = x # us\<close> by blast
    qed (use rs assms(2) \<open>xs = x # us\<close> in simp)
  qed (simp add: assms(1))
qed

lemma mset_merge_by [simp]: "mset (merge_by lt xs ys) = mset xs + mset ys"
  by (induction lt xs ys rule: merge_by.induct) auto

lemma mset_run_of: "mset (fst (run_of lt x ys)) + mset (snd (run_of lt x ys)) = mset ys"
  by (metis mset_append run_of_append)

lemma mset_sort_pass [simp]: "mset (snd (sort_pass lt xs)) = mset xs"
proof (induction xs rule: sort_pass_induct [where lt = lt])
  case (last_run x xs r)
  then show ?case using mset_run_of [of lt x xs] by simp
next
  case (two_runs x xs r y ys r' zs)
  then show ?case
    using mset_run_of [of lt x xs, symmetric] mset_run_of [of lt y ys, symmetric]
    by (simp del: merge_by.simps)
qed simp

text \<open>The number of runs, which every pass halves.\<close>

fun nruns :: "('a \<Rightarrow> 'a \<Rightarrow> bool) \<Rightarrow> 'a list \<Rightarrow> nat" where
  "nruns lt (x # y # ys) = (if \<not> lt y x then nruns lt (y # ys) else Suc (nruns lt (y # ys)))"
| "nruns lt [x] = 1"
| "nruns lt [] = 0"

lemma nruns_run_of: "nruns lt (x # xs) = Suc (nruns lt (snd (run_of lt x xs)))"
  by (induction lt x xs rule: run_of.induct) auto

lemma nruns_le_length: "nruns lt xs \<le> length xs"
  by (induction lt xs rule: nruns.induct) auto

lemma nruns_append: "nruns lt (xs @ ys) \<le> nruns lt xs + nruns lt ys"
proof (induction lt xs rule: nruns.induct)
  case (2 lt x)
  then show ?case by (cases ys) auto
qed auto

lemma nruns_sorted: "nruns lt xs \<le> 1 \<longleftrightarrow> successively (\<lambda>a b. \<not> lt b a) xs"
proof (induction lt xs rule: nruns.induct)
  case (1 lt x y ys)
  then show ?case using nruns_run_of [of lt y ys] by auto
qed auto

lemma fst_sort_pass: "fst (sort_pass lt xs) = (nruns lt xs + 1) div 2"
proof (induction xs rule: sort_pass_induct [where lt = lt])
  case (last_run x xs r)
  then show ?case using nruns_run_of [of lt x xs] by simp
next
  case (two_runs x xs r y ys r' zs)
  then show ?case using nruns_run_of [of lt x xs] nruns_run_of [of lt y ys] by simp
qed simp

lemma set_merge_by [simp]: "set (merge_by lt xs ys) = set xs \<union> set ys"
  by (metis mset_merge_by set_mset_mset set_mset_union)

lemma sorted_merge_by:
  assumes "less_func lt" "sorted_wrt (\<lambda>x y. \<not> lt y x) xs" "sorted_wrt (\<lambda>x y. \<not> lt y x) ys"
  shows "sorted_wrt (\<lambda>x y. \<not> lt y x) (merge_by lt xs ys)"
  using assms
proof (induction lt xs ys rule: merge_by.induct)
  case (1 lt a as b bs)
  note tr = less_func.ge_trans [OF "1.prems"(1)] less_func.lt_asym [OF "1.prems"(1)]
  have "\<not> lt x b" if "x \<in> set as" "\<not> lt a b" for x
    using that "1.prems"(2) tr(1) by (metis sorted_wrt.simps(2))
  moreover have "\<not> lt x a" if "x \<in> set bs" "\<not> lt b a" for x
    using that "1.prems"(3) tr(1) by (metis sorted_wrt.simps(2))
  ultimately show ?case
    using 1 tr(2) by auto
qed auto

text \<open>Stability: elements that compare equal to any given one keep their order.\<close>

definition same_order :: "('a \<Rightarrow> 'a \<Rightarrow> bool) \<Rightarrow> 'a list \<Rightarrow> 'a list \<Rightarrow> bool" where
  "same_order lt xs ys \<longleftrightarrow> (\<forall>k. filter (\<lambda>x. \<not> lt x k \<and> \<not> lt k x) xs = filter (\<lambda>x. \<not> lt x k \<and> \<not> lt k x) ys)"

lemma same_order_merge_by:
  assumes "less_func lt" "sorted_wrt (\<lambda>x y. \<not> lt y x) xs"
  shows "same_order lt (merge_by lt xs ys) (xs @ ys)"
  using assms unfolding same_order_def
proof (induction lt xs ys rule: merge_by.induct)
  case (1 lt a as b bs)
  note tr = less_func.ge_trans [OF "1.prems"(1)] less_func.lt_ge_trans [OF "1.prems"(1)]
  show ?case
  proof (cases "lt b a")
    case True
    have "lt b x" if "x \<in> set (a # as)" for x
      using that True "1.prems"(2) by (auto intro: tr(2) [OF True])
    then have none: "filter (\<lambda>x. \<not> lt x k \<and> \<not> lt k x) (a # as) = []" if "\<not> lt b k" "\<not> lt k b" for k
      using that tr(1) unfolding filter_empty_conv by blast
    have IH: "filter (\<lambda>x. \<not> lt x k \<and> \<not> lt k x) (merge_by lt (a # as) bs)
        = filter (\<lambda>x. \<not> lt x k \<and> \<not> lt k x) (a # as) @ filter (\<lambda>x. \<not> lt x k \<and> \<not> lt k x) bs" for k
      using "1.IH"(2) "1.prems" True by simp
    have "filter (\<lambda>x. \<not> lt x k \<and> \<not> lt k x) (b # merge_by lt (a # as) bs)
        = filter (\<lambda>x. \<not> lt x k \<and> \<not> lt k x) (a # as) @ filter (\<lambda>x. \<not> lt x k \<and> \<not> lt k x) (b # bs)" for k
      using none [of k] IH [of k] by (cases "\<not> lt b k \<and> \<not> lt k b") (auto simp del: merge_by.simps)
    then show ?thesis
      using True by (simp only: merge_by.simps filter_append if_True not_True_eq_False if_False simp_thms)
  qed (use 1 in auto)
qed auto

lemma same_order_append: "same_order lt xs xs' \<Longrightarrow> same_order lt ys ys' \<Longrightarrow> same_order lt (xs @ ys) (xs' @ ys')"
  by (simp add: same_order_def)

lemma same_order_trans: "same_order lt xs ys \<Longrightarrow> same_order lt ys zs \<Longrightarrow> same_order lt xs zs"
  by (simp add: same_order_def)

lemma same_order_refl [simp]: "same_order lt xs xs"
  by (simp add: same_order_def)

lemma same_order_sort_pass:
  assumes "less_func lt"
  shows "same_order lt (snd (sort_pass lt xs)) xs"
proof (induction xs rule: sort_pass_induct [where lt = lt])
  case (last_run x xs r)
  then show ?case using run_of_append [of lt x xs] by simp
next
  case (two_runs x xs r y ys r' zs)
  have "sorted_wrt (\<lambda>a b. \<not> lt b a) (x # r)"
    using run_of_sorted [of lt x xs] two_runs(1) less_func.successively_ge [OF assms] by (metis fst_conv)
  then have "same_order lt (merge_by lt (x # r) (y # r') @ snd (sort_pass lt zs)) (((x # r) @ (y # r')) @ zs)"
    by (intro same_order_append same_order_merge_by assms two_runs.IH)
  moreover have "((x # r) @ (y # r')) @ zs = x # xs"
    using run_of_append [of lt x xs] run_of_append [of lt y ys] two_runs(1,2) by simp
  ultimately show ?case
    using two_runs(1,2) by simp
qed simp

lemma nruns_sort_pass:
  assumes "less_func lt"
  shows "nruns lt (snd (sort_pass lt xs)) \<le> (nruns lt xs + 1) div 2"
proof (induction xs rule: sort_pass_induct [where lt = lt])
  case (last_run x xs r)
  then have "r = xs"
    using run_of_append [of lt x xs] by simp
  then show ?case
    using nruns_run_of [of lt x xs] last_run by simp
next
  case (two_runs x xs r y ys r' zs)
  have "sorted_wrt (\<lambda>a b. \<not> lt b a) (x # r)" "sorted_wrt (\<lambda>a b. \<not> lt b a) (y # r')"
    using run_of_sorted [of lt x xs] run_of_sorted [of lt y ys] two_runs(1,2)
      less_func.successively_ge [OF assms] by (metis fst_conv)+
  then have "nruns lt (merge_by lt (x # r) (y # r')) \<le> 1"
    using sorted_merge_by [OF assms] less_func.successively_ge [OF assms] by (metis nruns_sorted)
  then have "nruns lt (merge_by lt (x # r) (y # r') @ snd (sort_pass lt zs)) \<le> 1 + (nruns lt zs + 1) div 2"
    using nruns_append [of lt "merge_by lt (x # r) (y # r')" "snd (sort_pass lt zs)"] two_runs.IH by linarith
  then show ?case
    using nruns_run_of [of lt x xs] nruns_run_of [of lt y ys] two_runs(1,2) by (simp del: merge_by.simps)
qed simp

section \<open>The loops of the code\<close>

lemma segment_end_neq:
  assumes "is_list h l (as @ x # bs @ cs)"
  shows "x \<noteq> hd (cs @ [l + 8])"
  using is_list_distinct [OF assms] by (cases cs) auto

lemma is_sorted_loop_spec:
  "is_list h l (as @ x # bs @ cs) \<Longrightarrow>
   is_sorted_loop lt h x (hd (cs @ [l + 8])) = Some (successively (\<lambda>a b. \<not> lt b a) (x # bs))"
proof (induction bs arbitrary: as x)
  case Nil
  then show ?case
    using walk_step [of h l as x cs] by (subst is_sorted_loop.simps) simp
next
  case (Cons b bs)
  have "list_prev h b = Some x"
    using list_prev_spec [of h l "as @ [x]" "b # bs @ cs"] Cons.prems by simp
  then show ?case
    using Cons.IH [of "as @ [x]" b] Cons.prems walk_step(4) [OF Cons.prems [unfolded append_Cons]]
      segment_end_neq [of h l "as @ [x]" b bs cs]
    by (subst is_sorted_loop.simps) simp
qed

lemma is_sorted_spec:
  assumes "is_list h l (as @ bs @ cs)"
  shows "is_sorted lt h (hd (bs @ cs @ [l + 8])) (hd (cs @ [l + 8])) = Some (successively (\<lambda>a b. \<not> lt b a) bs)"
proof (cases bs)
  case (Cons x bs')
  then show ?thesis
    using assms is_sorted_loop_spec [of h l as x bs' cs] segment_end_neq [of h l as x bs' cs]
    by (simp add: is_sorted_def)
qed (simp add: is_sorted_def)

lemma find_end_of_run_loop_spec:
  "is_list h l (as @ x # ys) \<Longrightarrow>
   find_end_of_run_loop lt h x (l + 8) = Some (hd (snd (run_of lt x ys) @ [l + 8]))"
proof (induction ys arbitrary: as x)
  case Nil
  then show ?case
    using walk_step [of h l as x "[]"] by (subst find_end_of_run_loop.simps) simp
next
  case (Cons y ys)
  have "list_prev h y = Some x"
    using list_prev_spec [of h l "as @ [x]" "y # ys"] Cons.prems by simp
  then show ?case
    using Cons.IH [of "as @ [x]" y] Cons.prems walk_step [OF Cons.prems] walk_step(2) [of h l "as @ [x]" y ys]
    by (subst find_end_of_run_loop.simps) simp
qed

lemma find_end_of_run_spec:
  assumes "is_list h l (as @ x # ys)"
  shows "find_end_of_run lt h x (l + 8) = Some (hd (snd (run_of lt x ys) @ [l + 8]))"
  using find_end_of_run_loop_spec [OF assms] walk_step [OF assms] by (simp add: find_end_of_run_def)

lemma inplace_merge_loop_spec:
  assumes "is_list h l (ps @ as @ bs @ qs)"
  shows "\<exists>h'. inplace_merge_loop lt (hd (as @ bs @ qs @ [l + 8])) (hd (bs @ qs @ [l + 8])) (hd (qs @ [l + 8])) h = Some h'
    \<and> is_list h' l (ps @ merge_by lt as bs @ qs) \<and> same_outside (set (chain l (ps @ as @ bs @ qs))) h h'"
  using assms
proof (induction lt as bs arbitrary: ps h rule: merge_by.induct)
  case (1 lt a as b bs)
  have neq: "a \<noteq> b" "b \<noteq> hd (qs @ [l + 8])"
    using is_list_distinct [OF "1.prems"] segment_end_neq [of h l "ps @ a # as" b bs qs] "1.prems" by auto
  show ?case
  proof (cases "lt b a")
    case False
    obtain h' where "inplace_merge_loop lt (hd (as @ (b # bs) @ qs @ [l + 8])) b (hd (qs @ [l + 8])) h = Some h'"
      "is_list h' l ((ps @ [a]) @ merge_by lt as (b # bs) @ qs)"
      "same_outside (set (chain l ((ps @ [a]) @ as @ (b # bs) @ qs))) h h'"
      using "1.IH"(1) [OF False, of h "ps @ [a]"] "1.prems" by fastforce
    then show ?thesis
      using False neq walk_step(4) [of h l ps a "as @ b # bs @ qs"] "1.prems"
      by (subst inplace_merge_loop.simps) simp
  next
    case True
    have nb: "list_next h b = Some (hd (bs @ qs @ [l + 8]))"
      using walk_step(4) [of h l "ps @ a # as" b "bs @ qs"] "1.prems" by simp
    have pb: "list_prev h (hd (bs @ qs @ [l + 8])) = Some b"
      using list_prev_spec [of h l "ps @ a # as @ [b]" "bs @ qs"] "1.prems" by simp
    obtain h1 where h1: "list_splice (hd (a # as)) (hd [b]) (hd ((bs @ qs) @ [l + 8])) h = Some h1"
      "is_list h1 l (ps @ [b] @ (a # as) @ (bs @ qs))" "same_outside (set (chain l (ps @ (a # as) @ [b] @ (bs @ qs)))) h h1"
      by (rule list_splice_same_spec [of h l ps "a # as" "[b]" "bs @ qs"]) (use "1.prems" in simp_all)
    obtain h' where h': "inplace_merge_loop lt a (hd (bs @ qs @ [l + 8])) (hd (qs @ [l + 8])) h1 = Some h'"
      "is_list h' l ((ps @ [b]) @ merge_by lt (a # as) bs @ qs)"
      "same_outside (set (chain l ((ps @ [b]) @ (a # as) @ bs @ qs))) h1 h'"
      using "1.IH"(2) [of h1 "ps @ [b]"] True h1(2) by fastforce
    have "same_outside (set (chain l (ps @ (a # as) @ (b # bs) @ qs))) h h'"
      by (rule same_outside_trans [OF h1(3) h'(3)]) (auto simp: set_chain)
    then show ?thesis
      using True neq nb pb h1(1) h'(1,2) by (subst inplace_merge_loop.simps) simp
  qed
qed (subst inplace_merge_loop.simps, simp)+

lemma inplace_merge_spec:
  assumes "is_list h l (ps @ as @ bs @ qs)" "as \<noteq> []" "bs \<noteq> []"
    and "successively (\<lambda>a b. \<not> lt b a) as" "successively (\<lambda>a b. \<not> lt b a) bs"
  shows "\<exists>h'. inplace_merge lt (hd as) (hd bs) (hd (qs @ [l + 8])) h = Some h'
    \<and> is_list h' l (ps @ merge_by lt as bs @ qs) \<and> same_outside (set (chain l (ps @ as @ bs @ qs))) h h'"
proof -
  have "hd as \<noteq> 0" "hd bs \<noteq> 0" "hd (qs @ [l + 8]) \<noteq> 0"
    using hd_post_neq_0 [of h l "ps" "as @ bs @ qs"] hd_post_neq_0 [of h l "ps @ as" "bs @ qs"]
      hd_post_neq_0 [of h l "ps @ as @ bs" qs] assms(1-3) by simp_all
  moreover have "is_sorted lt h (hd as) (hd bs) = Some True" "is_sorted lt h (hd bs) (hd (qs @ [l + 8])) = Some True"
    using is_sorted_spec [of h l ps as "bs @ qs" lt] is_sorted_spec [of h l "ps @ as" bs qs lt] assms by simp_all
  ultimately show ?thesis
    using inplace_merge_loop_spec [OF assms(1), of lt] assms(2,3) by (simp add: inplace_merge_def)
qed

lemma list_sort_pass_spec:
  assumes "is_list h l (ds @ xs)"
  shows "\<exists>h'. list_sort_pass lt l (hd (xs @ [l + 8])) cnt h = Some (cnt + of_nat (fst (sort_pass lt xs)), h')
    \<and> is_list h' l (ds @ snd (sort_pass lt xs)) \<and> same_outside (set (chain l (ds @ xs))) h h'"
  using assms
proof (induction xs arbitrary: ds cnt h rule: sort_pass_induct [where lt = lt])
  case empty
  then show ?case
    by (subst list_sort_pass.simps) (simp add: walk_end)
next
  case (last_run x xs r)
  moreover have "r = xs"
    using last_run(1) run_of_append [of lt x xs] by simp
  ultimately show ?case
    using walk_step [OF last_run.prems] find_end_of_run_spec [OF last_run.prems, of lt]
    by (subst list_sort_pass.simps) (simp add: Let_def)
next
  case (two_runs x xs r y ys r' zs)
  have split: "xs = r @ y # ys" "ys = r' @ zs"
    using two_runs(1,2) run_of_append [of lt x xs] run_of_append [of lt y ys] by simp_all
  have prem: "is_list h l (ds @ (x # r) @ (y # r') @ zs)"
    using two_runs.prems split by simp
  have e1: "find_end_of_run lt h x (l + 8) = Some y"
    using find_end_of_run_spec [OF two_runs.prems, of lt] two_runs(1) by simp
  have e2: "find_end_of_run lt h y (l + 8) = Some (hd (zs @ [l + 8]))"
    using find_end_of_run_spec [of h l "ds @ x # r" y ys lt] two_runs(2) two_runs.prems split by simp
  have sorted: "successively (\<lambda>a b. \<not> lt b a) (x # r)" "successively (\<lambda>a b. \<not> lt b a) (y # r')"
    using run_of_sorted [of lt x xs] run_of_sorted [of lt y ys] two_runs(1,2) by simp_all
  obtain h1 where h1: "inplace_merge lt x y (hd (zs @ [l + 8])) h = Some h1"
    "is_list h1 l (ds @ merge_by lt (x # r) (y # r') @ zs)" "same_outside (set (chain l (ds @ x # xs))) h h1"
    using inplace_merge_spec [OF prem _ _ sorted] split by auto
  obtain h' where h': "list_sort_pass lt l (hd (zs @ [l + 8])) (cnt + 1) h1 = Some (cnt + 1 + of_nat (fst (sort_pass lt zs)), h')"
    "is_list h' l ((ds @ merge_by lt (x # r) (y # r')) @ snd (sort_pass lt zs))"
    "same_outside (set (chain l ((ds @ merge_by lt (x # r) (y # r')) @ zs))) h1 h'"
    using two_runs.IH [of h1 "ds @ merge_by lt (x # r) (y # r')" "cnt + 1"] h1(2) by auto
  have "same_outside (set (chain l (ds @ x # xs))) h h'"
    by (rule same_outside_trans [OF h1(3) h'(3)]) (auto simp: set_chain split simp del: merge_by.simps)
  moreover have "y \<noteq> l + 8" "x \<noteq> l + 8" "list_end l = Some (l + 8)"
    using walk_step [OF two_runs.prems] walk_step(2) [of h l "ds @ x # r" y ys] two_runs.prems split by auto
  ultimately show ?case
    using two_runs(1,2) e1 e2 h1(1) h'
    by (subst list_sort_pass.simps) (simp add: Let_def algebra_simps del: merge_by.simps)
qed

text \<open>The counter of runs is a 32-bit number; a list that fits in memory cannot overflow it.\<close>

lemma word_gt_1_iff: "n < 2 ^ 32 \<Longrightarrow> (1 :: u32) < of_nat n \<longleftrightarrow> 1 < n"
  by (simp add: word_less_nat_alt unat_of_nat)

lemma list_sort_loop_spec:
  assumes "is_list h l xs" "less_func lt" "length xs < 2 ^ 32"
  shows "\<exists>h' ys. list_sort_loop lt l h = Some h' \<and> is_list h' l ys \<and> nruns lt ys \<le> 1 \<and> mset ys = mset xs
    \<and> same_order lt ys xs \<and> same_outside (set (chain l xs)) h h'"
  using assms(1,3)
proof (induction "nruns lt xs" arbitrary: xs h rule: less_induct)
  case less
  let ?n = "fst (sort_pass lt xs)" and ?ys = "snd (sort_pass lt xs)"
  obtain h1 where h1: "list_sort_pass lt l (hd (xs @ [l + 8])) 0 h = Some (of_nat ?n, h1)" "is_list h1 l ?ys"
    "same_outside (set (chain l xs)) h h1"
    using list_sort_pass_spec [of h l "[]" xs lt 0] less.prems(1) by auto
  have n: "?n = (nruns lt xs + 1) div 2" "nruns lt ?ys \<le> ?n"
    using fst_sort_pass [of lt xs] nruns_sort_pass [OF assms(2), of xs] by simp_all
  have "?n < 2 ^ 32"
    using n(1) nruns_le_length [of lt xs] less.prems(2) by linarith
  then have test: "(1 :: u32) < of_nat ?n \<longleftrightarrow> 1 < ?n"
    by (rule word_gt_1_iff)
  have run: "list_sort_loop lt l h = (if 1 < ?n then list_sort_loop lt l h1 else Some h1)"
    using h1(1) less.prems(1) test by (subst list_sort_loop.simps) (simp add: list_begin_spec)
  show ?case
  proof (cases "1 < ?n")
    case True
    have "nruns lt ?ys < nruns lt xs"
      using True n by linarith
    moreover have "length ?ys = length xs"
      by (metis mset_sort_pass size_mset)
    ultimately obtain h' ys where h': "list_sort_loop lt l h1 = Some h'" "is_list h' l ys" "nruns lt ys \<le> 1"
        "mset ys = mset ?ys" "same_order lt ys ?ys" "same_outside (set (chain l ?ys)) h1 h'"
      using less.hyps [of ?ys h1] h1(2) less.prems(2) by auto
    have "set ?ys = set xs"
      by (metis mset_sort_pass set_mset_mset)
    then have "same_outside (set (chain l xs)) h h'"
      by (intro same_outside_trans [OF h1(3) h'(6)]) (simp add: set_chain)
    then show ?thesis
      using run True h' same_order_trans [OF h'(5) same_order_sort_pass [OF assms(2)]] by auto
  next
    case False
    then show ?thesis
      using run h1 n same_order_sort_pass [OF assms(2), of xs] by auto
  qed
qed

text \<open>C1. \<^verbatim>\<open>list_sort\<close> is correct: on a well-formed list and a comparison function that is a strict weak
  order it returns (no assertion fails, every loop ends), the list then holds a permutation of
  its elements that is sorted, elements that compare equal keep their order, all links are
  consistent, and no memory outside the list has changed.\<close>

theorem list_sort_correct:
  assumes "is_list h l xs" "less_func lt" "length xs < 2 ^ 32"
  shows "\<exists>h' ys. list_sort lt l h = Some h' \<and> is_list h' l ys \<and> mset ys = mset xs
    \<and> sorted_wrt (\<lambda>x y. \<not> lt y x) ys \<and> same_order lt ys xs \<and> same_outside (set (chain l xs)) h h'"
proof -
  obtain h' ys where h': "list_sort_loop lt l h = Some h'" "is_list h' l ys" "nruns lt ys \<le> 1" "mset ys = mset xs"
      "same_order lt ys xs" "same_outside (set (chain l xs)) h h'"
    using list_sort_loop_spec [OF assms] by auto
  have sorted: "successively (\<lambda>a b. \<not> lt b a) ys"
    using h'(3) nruns_sorted by blast
  then have "list_sort lt l h = Some h'"
    using h'(1,2) is_sorted_spec [of h' l "[]" ys "[]" lt] is_list_distinct [OF h'(2)]
    by (simp add: list_sort_def list_begin_spec)
  then show ?thesis
    using h' sorted less_func.successively_ge [OF assms(2)] by blast
qed

lemma less_func_nat: "less_func ((<) :: nat \<Rightarrow> nat \<Rightarrow> bool)"
  by unfold_locales auto

theorem list_sort_correct_witness:
  "\<exists>h' ys. list_sort (<) 1 \<lparr>prv = (\<lambda>_. 0)(9 := 50, 50 := 70, 70 := 30, 30 := 1),
                           nxt = (\<lambda>_. 0)(1 := 30, 30 := 70, 70 := 50, 50 := 9)\<rparr> = Some h'
     \<and> is_list h' 1 ys \<and> mset ys = mset [30, 70, 50] \<and> sorted_wrt (\<lambda>x y. \<not> y < x) ys"
  using list_sort_correct [of "\<lparr>prv = (\<lambda>_. 0)(9 := 50, 50 := 70, 70 := 30, 30 := 1),
      nxt = (\<lambda>_. 0)(1 := 30, 30 := 70, 70 := 50, 50 := 9)\<rparr>" 1 "[30, 70, 50]" "(<)", OF _ less_func_nat]
  by (auto simp: is_list_def chain_def)

end
