(* ===== verification/Threads.thy ===== *)
theory Threads
  imports Prelude
begin

text \<open>
  Kernel threads: \<^verbatim>\<open>threads/thread.c\<close>, and what it uses of \<^verbatim>\<open>threads/interrupt.c\<close>.

  A \<^verbatim>\<open>struct thread *\<close> is a page address, \<open>0\<close> the null pointer. The saved kernel stack of a
  thread is its \<open>kont\<close>: what the thread still has to do inside the kernel before it is back in
  its own code, as a list of \<open>action\<close>s, each of them a piece of a kernel function that runs
  as if it were not interrupted (interrupts are off, or it is one store, or it touches only data that is
  private to the thread or guarded by a lock it holds). The run queue, the list of all
  threads and the wait lists are HOL lists of threads; \<open>Kernel_List\<close> shows that the linked
  lists of the code behave like them.

  The dynamic part (who runs next, interrupts, the calls a thread makes) is the step relation of
  \<open>Kernel_Steps\<close>; the synchronization primitives are in \<open>Synch\<close>.
\<close>

section \<open>Data\<close>

type_synonym tptr = nat

datatype thread_status = THREAD_RUNNING | THREAD_READY | THREAD_BLOCKED | THREAD_DYING

datatype intr_level = INTR_OFF | INTR_ON

datatype sched_policy = SCHED_FIFO | SCHED_PRIO | SCHED_FAIR | SCHED_MLFQS

text \<open>Synchronization objects, named by where they live: a lock embeds a semaphore, a readers-writers
  lock embeds a lock and two conditions, and a thread in \<^verbatim>\<open>cond_wait\<close> has a semaphore on
  its own stack.\<close>

datatype lock = Lock nat | Tid_lock | Rw_guard nat

datatype sema = Sema nat | Lock_sema lock | Waiter_sema tptr

datatype cond = Cond nat | Rw_read nat | Rw_write nat

datatype rw_counter = AR | WR | AW | WW

text \<open>What a new thread runs: code outside this development, or the idle loop.\<close>

datatype thread_func = Client_func | Idle_func sema

datatype action =
    Intr_set_level intr_level
  | Iret intr_level
  | Sema_down sema
  | Sema_down_loop sema intr_level
  | Sema_try_down sema
  | Sema_up sema
  | Lock_acquire lock
  | Lock_try_acquire lock
  | Lock_release lock
  | Set_holder lock
  | Set_holder_if lock
  | Cond_wait cond lock
  | Cond_signal cond lock
  | Cond_broadcast cond lock
  | Rw_add nat rw_counter int
  | Rw_read_loop nat
  | Rw_write_loop nat
  | Rw_released_read nat
  | Rw_released_write nat
  | Thread_yield
  | Thread_exit
  | Init_thread tptr string int
  | Take_tid tptr
  | Alloc_frames tptr thread_func
  | Thread_unblock tptr
  | Idle_start sema
  | Idle_loop
  | Idle_block
  | Timer_sleep u64
  | Timer_sleep_loop u64 u64

record thread =
  tid :: "32 word"
  status :: thread_status
  name :: string
  stack :: nat
  priority :: int
  pcb :: nat
  magic :: u32
  kont :: "action list"
  ret :: bool

record semaphore =
  sema_value :: u32
  waiters :: "tptr list"

record kernel =
  threads :: "tptr \<Rightarrow> thread option"
  fifo_ready_list :: "tptr list"
  all_list :: "tptr list"
  idle_thread :: tptr
  initial_thread :: tptr
  running_thread :: tptr
  active_sched_policy :: sched_policy
  intr :: intr_level
  in_external_intr :: bool
  yield_on_return :: bool
  idle_ticks :: u64
  kernel_ticks :: u64
  user_ticks :: u64
  thread_ticks :: u32
  ticks :: u64
  next_tid :: "32 word"
  semas :: "sema \<Rightarrow> semaphore"
  holder :: "lock \<Rightarrow> tptr"
  cond_waiters :: "cond \<Rightarrow> tptr list"
  rw_count :: "nat \<Rightarrow> rw_counter \<Rightarrow> int"

definition THREAD_MAGIC :: u32 where "THREAD_MAGIC = 0xcd6abf4b"
definition TID_ERROR :: "32 word" where "TID_ERROR = -1"
definition PRI_MIN :: int where "PRI_MIN = 0"
definition PRI_DEFAULT :: int where "PRI_DEFAULT = 31"
definition PRI_MAX :: int where "PRI_MAX = 63"
definition TIME_SLICE :: u32 where "TIME_SLICE = 4"

section \<open>Reading and writing thread structures\<close>

definition upd :: "tptr \<Rightarrow> (thread \<Rightarrow> thread) \<Rightarrow> kernel \<Rightarrow> kernel" where
  "upd t f s = s\<lparr>threads := (threads s)(t := map_option f (threads s t))\<rparr>"

abbreviation set_status :: "tptr \<Rightarrow> thread_status \<Rightarrow> kernel \<Rightarrow> kernel" where
  "set_status t st \<equiv> upd t (status_update (\<lambda>_. st))"

text \<open>\<open>push ks s\<close>: the running thread has \<open>ks\<close> to do before the rest.\<close>

definition push :: "action list \<Rightarrow> kernel \<Rightarrow> kernel" where
  "push ks s = upd (running_thread s) (kont_update ((@) ks)) s"

definition status_of :: "kernel \<Rightarrow> tptr \<Rightarrow> thread_status option" where
  "status_of s t = map_option status (threads s t)"

definition kont_of :: "kernel \<Rightarrow> tptr \<Rightarrow> action list" where
  "kont_of s t = (case threads s t of None \<Rightarrow> [] | Some th \<Rightarrow> kont th)"

section \<open>Interrupts\<close>

definition intr_context :: "kernel \<Rightarrow> bool" where
  "intr_context s \<longleftrightarrow> in_external_intr s"

definition intr_get_level :: "kernel \<Rightarrow> intr_level" where
  "intr_get_level s = intr s"

definition intr_enable :: "kernel \<Rightarrow> kernel option" where
  "intr_enable s = ASSERT (\<not> intr_context s) (Some (s\<lparr>intr := INTR_ON\<rparr>))"

definition intr_disable :: "kernel \<Rightarrow> kernel" where
  "intr_disable s = s\<lparr>intr := INTR_OFF\<rparr>"

definition intr_set_level :: "intr_level \<Rightarrow> kernel \<Rightarrow> kernel option" where
  "intr_set_level level s = (if level = INTR_ON then intr_enable s else Some (intr_disable s))"

definition intr_yield_on_return :: "kernel \<Rightarrow> kernel option" where
  "intr_yield_on_return s = ASSERT (intr_context s) (Some (s\<lparr>yield_on_return := True\<rparr>))"

section \<open>Threads and the run queue\<close>

definition is_thread :: "kernel \<Rightarrow> tptr \<Rightarrow> bool" where
  "is_thread s t \<longleftrightarrow> t \<noteq> 0 \<and> (case threads s t of None \<Rightarrow> False | Some th \<Rightarrow> magic th = THREAD_MAGIC)"

definition thread_current :: "kernel \<Rightarrow> tptr option" where
  "thread_current s = (let t = running_thread s in
     ASSERT (is_thread s t) (ASSERT (status_of s t = Some THREAD_RUNNING) (Some t)))"

definition thread_enqueue :: "tptr \<Rightarrow> kernel \<Rightarrow> kernel option" where
  "thread_enqueue t s =
     ASSERT (intr_get_level s = INTR_OFF) (
     ASSERT (is_thread s t) (
     if active_sched_policy s = SCHED_FIFO then Some (s\<lparr>fifo_ready_list := fifo_ready_list s @ [t]\<rparr>)
     else None))"

definition thread_schedule_fifo :: "kernel \<Rightarrow> (tptr \<times> kernel) option" where
  "thread_schedule_fifo s =
     (case fifo_ready_list s of
        t # ts \<Rightarrow> Some (t, s\<lparr>fifo_ready_list := ts\<rparr>)
      | [] \<Rightarrow> Some (idle_thread s, s))"

text \<open>The other entries of \<^verbatim>\<open>scheduler_jump_table\<close> panic.\<close>

definition next_thread_to_run :: "kernel \<Rightarrow> (tptr \<times> kernel) option" where
  "next_thread_to_run s =
     (case active_sched_policy s of
        SCHED_FIFO \<Rightarrow> thread_schedule_fifo s
      | SCHED_PRIO \<Rightarrow> None
      | SCHED_FAIR \<Rightarrow> None
      | SCHED_MLFQS \<Rightarrow> None)"

text \<open>\<^verbatim>\<open>palloc_free_page (prev)\<close>: the page no longer holds a thread.\<close>

definition free_thread :: "tptr \<Rightarrow> kernel \<Rightarrow> kernel" where
  "free_thread t s = s\<lparr>threads := (threads s)(t := None)\<rparr>"

definition thread_switch_tail :: "tptr \<Rightarrow> kernel \<Rightarrow> kernel option" where
  "thread_switch_tail prev s = (
     let cur = running_thread s in
     ASSERT (intr_get_level s = INTR_OFF) (
     let s = (set_status cur THREAD_RUNNING s)\<lparr>thread_ticks := 0\<rparr> in
     if prev \<noteq> 0 \<and> status_of s prev = Some THREAD_DYING \<and> prev \<noteq> initial_thread s
     then ASSERT (prev \<noteq> cur) (Some (free_thread prev s))
     else Some s))"

definition schedule :: "kernel \<Rightarrow> kernel option" where
  "schedule s = (
     let cur = running_thread s in
     Option.bind (next_thread_to_run s) (\<lambda>(nx, s).
     ASSERT (intr_get_level s = INTR_OFF) (
     ASSERT (status_of s cur \<noteq> Some THREAD_RUNNING) (
     ASSERT (is_thread s nx) (
     if cur \<noteq> nx then thread_switch_tail cur (s\<lparr>running_thread := nx\<rparr>)
     else thread_switch_tail 0 s)))))"

definition thread_block :: "kernel \<Rightarrow> kernel option" where
  "thread_block s =
     ASSERT (\<not> intr_context s) (
     ASSERT (intr_get_level s = INTR_OFF) (
     Option.bind (thread_current s) (\<lambda>cur. schedule (set_status cur THREAD_BLOCKED s))))"

definition thread_unblock :: "tptr \<Rightarrow> kernel \<Rightarrow> kernel option" where
  "thread_unblock t s =
     ASSERT (is_thread s t) (
     let old_level = intr_get_level s in
     let s = intr_disable s in
     ASSERT (status_of s t = Some THREAD_BLOCKED) (
     Option.bind (thread_enqueue t s) (\<lambda>s.
     intr_set_level old_level (set_status t THREAD_READY s))))"

text \<open>What comes after \<^verbatim>\<open>schedule ()\<close> in \<^verbatim>\<open>thread_yield\<close> runs when the thread is scheduled again.\<close>

definition thread_yield :: "kernel \<Rightarrow> kernel option" where
  "thread_yield s =
     Option.bind (thread_current s) (\<lambda>cur.
     ASSERT (\<not> intr_context s) (
     let old_level = intr_get_level s in
     let s = intr_disable s in
     Option.bind (if cur \<noteq> idle_thread s then thread_enqueue cur s else Some s) (\<lambda>s.
     schedule (push [Intr_set_level old_level] (set_status cur THREAD_READY s)))))"

definition thread_exit :: "kernel \<Rightarrow> kernel option" where
  "thread_exit s =
     ASSERT (\<not> intr_context s) (
     let s = intr_disable s in
     Option.bind (thread_current s) (\<lambda>cur.
     ASSERT (cur \<in> set (all_list s)) (
     schedule (set_status cur THREAD_DYING (s\<lparr>all_list := remove1 cur (all_list s)\<rparr>)))))"

definition thread_tick :: "kernel \<Rightarrow> kernel option" where
  "thread_tick s =
     Option.bind (thread_current s) (\<lambda>t.
     let s = (if t = idle_thread s then s\<lparr>idle_ticks := idle_ticks s + 1\<rparr>
              else if map_option pcb (threads s t) \<noteq> Some 0 then s\<lparr>user_ticks := user_ticks s + 1\<rparr>
              else s\<lparr>kernel_ticks := kernel_ticks s + 1\<rparr>) in
     let s = s\<lparr>thread_ticks := thread_ticks s + 1\<rparr> in
     if thread_ticks s \<ge> TIME_SLICE then intr_yield_on_return s else Some s)"

text \<open>\<^verbatim>\<open>thread_foreach\<close>, for an action that only updates thread structures.\<close>

definition thread_foreach :: "(tptr \<Rightarrow> kernel \<Rightarrow> kernel) \<Rightarrow> kernel \<Rightarrow> kernel option" where
  "thread_foreach f s = ASSERT (intr_get_level s = INTR_OFF) (Some (fold f (all_list s) s))"

definition thread_set_priority :: "int \<Rightarrow> kernel \<Rightarrow> kernel option" where
  "thread_set_priority p s =
     Option.bind (thread_current s) (\<lambda>cur. Some (upd cur (priority_update (\<lambda>_. p)) s))"

definition thread_get_priority :: "kernel \<Rightarrow> int option" where
  "thread_get_priority s = Option.bind (thread_current s) (\<lambda>cur. map_option priority (threads s cur))"

definition thread_tid :: "kernel \<Rightarrow> 32 word option" where
  "thread_tid s = Option.bind (thread_current s) (\<lambda>cur. map_option tid (threads s cur))"

definition thread_name :: "kernel \<Rightarrow> string option" where
  "thread_name s = Option.bind (thread_current s) (\<lambda>cur. map_option name (threads s cur))"

section \<open>Creation\<close>

text \<open>\<^verbatim>\<open>strlcpy (t->name, name, 16)\<close> keeps at most 15 characters.\<close>

definition init_thread :: "tptr \<Rightarrow> string \<Rightarrow> int \<Rightarrow> kernel \<Rightarrow> kernel option" where
  "init_thread t nm prio s =
     ASSERT (t \<noteq> 0) (
     ASSERT (PRI_MIN \<le> prio \<and> prio \<le> PRI_MAX) (
     let th = \<lparr>tid = 0, status = THREAD_BLOCKED, name = take 15 nm, stack = t + 4096, priority = prio,
               pcb = 0, magic = THREAD_MAGIC, kont = [], ret = False\<rparr> in
     let s = s\<lparr>threads := (threads s)(t \<mapsto> th)\<rparr> in
     let old_level = intr_get_level s in
     let s = intr_disable s in
     let s = s\<lparr>all_list := all_list s @ [t]\<rparr> in
     intr_set_level old_level s))"

definition alloc_frame :: "tptr \<Rightarrow> nat \<Rightarrow> kernel \<Rightarrow> kernel option" where
  "alloc_frame t sz s =
     ASSERT (is_thread s t) (
     ASSERT (sz mod 4 = 0) (
     Some (upd t (stack_update (\<lambda>sp. sp - sz)) s)))"

text \<open>\<^verbatim>\<open>kernel_thread\<close> turns interrupts on and calls the thread's function. A client's function
  is a sequence of calls (the step relation lets the thread make them) that ends with
  \<^verbatim>\<open>thread_exit\<close>; \<^verbatim>\<open>idle\<close> never returns.\<close>

definition kernel_thread :: "thread_func \<Rightarrow> action list" where
  "kernel_thread f =
     [Intr_set_level INTR_ON] @ (case f of Client_func \<Rightarrow> [] | Idle_func x \<Rightarrow> [Idle_start x])"

text \<open>The three frames \<^verbatim>\<open>thread_create\<close> puts on the new stack make the thread start in
  \<^verbatim>\<open>kernel_thread\<close>; the sizes are those of \<^verbatim>\<open>struct kernel_thread_frame\<close>,
  \<^verbatim>\<open>struct switch_entry_frame\<close> and \<^verbatim>\<open>struct switch_threads_frame\<close>.\<close>

definition alloc_frames :: "tptr \<Rightarrow> thread_func \<Rightarrow> kernel \<Rightarrow> kernel option" where
  "alloc_frames t f s =
     Option.bind (alloc_frame t 12 s) (\<lambda>s.
     Option.bind (alloc_frame t 4 s) (\<lambda>s.
     Option.bind (alloc_frame t 28 s) (\<lambda>s.
     Some (upd t (kont_update (\<lambda>_. kernel_thread f)) s))))"

text \<open>\<^verbatim>\<open>tid = next_tid++\<close>, under \<^verbatim>\<open>tid_lock\<close>.\<close>

definition take_tid :: "tptr \<Rightarrow> kernel \<Rightarrow> kernel option" where
  "take_tid t s = Some ((upd t (tid_update (\<lambda>_. next_tid s)) s)\<lparr>next_tid := next_tid s + 1\<rparr>)"

definition allocate_tid :: "tptr \<Rightarrow> action list" where
  "allocate_tid t = [Lock_acquire Tid_lock, Take_tid t, Lock_release Tid_lock]"

text \<open>\<^verbatim>\<open>thread_create\<close>, once \<^verbatim>\<open>palloc_get_page\<close> has returned the page \<open>t\<close>.\<close>

definition thread_create :: "tptr \<Rightarrow> string \<Rightarrow> int \<Rightarrow> thread_func \<Rightarrow> action list" where
  "thread_create t nm prio f =
     [Init_thread t nm prio] @ allocate_tid t @ [Alloc_frames t f, Thread_unblock t]"

end
