(* ===== verification/Synch.thy ===== *)
theory Synch
  imports Threads
begin

text \<open>
  The synchronization primitives of \<^verbatim>\<open>threads/synch.c\<close>: semaphores, locks, condition variables
  and readers-writers locks.

  A function that cannot sleep is a function on kernel states. A function that can sleep is cut where
  the processor can be taken away: its pieces are \<open>action\<close>s, and \<open>exec\<close> runs one of them for
  the running thread, which has already taken it off its \<open>kont\<close>.
\<close>

section \<open>Semaphores\<close>

definition upd_sema :: "sema \<Rightarrow> (semaphore \<Rightarrow> semaphore) \<Rightarrow> kernel \<Rightarrow> kernel" where
  "upd_sema x f s = s\<lparr>semas := (semas s)(x := f (semas s x))\<rparr>"

definition sema_init :: "sema \<Rightarrow> u32 \<Rightarrow> kernel \<Rightarrow> kernel" where
  "sema_init x v s = upd_sema x (\<lambda>_. \<lparr>sema_value = v, waiters = []\<rparr>) s"

text \<open>The \<^verbatim>\<open>while\<close> loop of \<^verbatim>\<open>sema_down\<close>, run with interrupts off: the thread either takes the semaphore
  and restores the interrupt level, or queues itself and blocks, to find itself at the
  head of the loop again when it is next scheduled.\<close>

definition sema_down_loop :: "sema \<Rightarrow> intr_level \<Rightarrow> kernel \<Rightarrow> kernel option" where
  "sema_down_loop x old_level s =
     (if sema_value (semas s x) = 0 then
        Option.bind (thread_current s) (\<lambda>cur.
        thread_block (push [Sema_down_loop x old_level]
          (upd_sema x (\<lambda>m. m\<lparr>waiters := waiters m @ [cur]\<rparr>) s)))
      else intr_set_level old_level (upd_sema x (\<lambda>m. m\<lparr>sema_value := sema_value m - 1\<rparr>) s))"

definition sema_down :: "sema \<Rightarrow> kernel \<Rightarrow> kernel option" where
  "sema_down x s =
     ASSERT (\<not> intr_context s) (
     let old_level = intr_get_level s in
     sema_down_loop x old_level (intr_disable s))"

definition sema_try_down :: "sema \<Rightarrow> kernel \<Rightarrow> (bool \<times> kernel) option" where
  "sema_try_down x s = (
     let old_level = intr_get_level s in
     let s = intr_disable s in
     let (success, s) = (if sema_value (semas s x) > 0
       then (True, upd_sema x (\<lambda>m. m\<lparr>sema_value := sema_value m - 1\<rparr>) s)
       else (False, s)) in
     Option.bind (intr_set_level old_level s) (\<lambda>s. Some (success, s)))"

definition sema_up :: "sema \<Rightarrow> kernel \<Rightarrow> kernel option" where
  "sema_up x s = (
     let old_level = intr_get_level s in
     let s = intr_disable s in
     Option.bind (case waiters (semas s x) of
         [] \<Rightarrow> Some s
       | t # ts \<Rightarrow> thread_unblock t (upd_sema x (\<lambda>m. m\<lparr>waiters := ts\<rparr>) s)) (\<lambda>s.
     intr_set_level old_level (upd_sema x (\<lambda>m. m\<lparr>sema_value := sema_value m + 1\<rparr>) s)))"

section \<open>Locks\<close>

definition lock_init :: "lock \<Rightarrow> kernel \<Rightarrow> kernel" where
  "lock_init l s = sema_init (Lock_sema l) 1 (s\<lparr>holder := (holder s)(l := 0)\<rparr>)"

definition lock_held_by_current_thread :: "lock \<Rightarrow> kernel \<Rightarrow> bool option" where
  "lock_held_by_current_thread l s = Option.bind (thread_current s) (\<lambda>cur. Some (holder s l = cur))"

definition lock_acquire :: "lock \<Rightarrow> kernel \<Rightarrow> kernel option" where
  "lock_acquire l s =
     ASSERT (\<not> intr_context s) (
     Option.bind (lock_held_by_current_thread l s) (\<lambda>held.
     ASSERT (\<not> held) (
     Some (push [Sema_down (Lock_sema l), Set_holder l] s))))"

definition set_holder :: "lock \<Rightarrow> kernel \<Rightarrow> kernel option" where
  "set_holder l s = Option.bind (thread_current s) (\<lambda>cur. Some (s\<lparr>holder := (holder s)(l := cur)\<rparr>))"

definition lock_try_acquire :: "lock \<Rightarrow> kernel \<Rightarrow> kernel option" where
  "lock_try_acquire l s =
     Option.bind (lock_held_by_current_thread l s) (\<lambda>held.
     ASSERT (\<not> held) (
     Some (push [Sema_try_down (Lock_sema l), Set_holder_if l] s)))"

definition lock_release :: "lock \<Rightarrow> kernel \<Rightarrow> kernel option" where
  "lock_release l s =
     Option.bind (lock_held_by_current_thread l s) (\<lambda>held.
     ASSERT held (
     Some (push [Sema_up (Lock_sema l)] (s\<lparr>holder := (holder s)(l := 0)\<rparr>))))"

section \<open>Condition variables\<close>

definition cond_init :: "cond \<Rightarrow> kernel \<Rightarrow> kernel" where
  "cond_init c s = s\<lparr>cond_waiters := (cond_waiters s)(c := [])\<rparr>"

text \<open>The \<^verbatim>\<open>struct semaphore_elem\<close> on the stack of the waiting thread is named after the thread.\<close>

definition cond_wait :: "cond \<Rightarrow> lock \<Rightarrow> kernel \<Rightarrow> kernel option" where
  "cond_wait c l s =
     ASSERT (\<not> intr_context s) (
     Option.bind (lock_held_by_current_thread l s) (\<lambda>held.
     ASSERT held (
     Option.bind (thread_current s) (\<lambda>cur.
     let s = sema_init (Waiter_sema cur) 0 s in
     let s = s\<lparr>cond_waiters := (cond_waiters s)(c := cond_waiters s c @ [cur])\<rparr> in
     Some (push [Lock_release l, Sema_down (Waiter_sema cur), Lock_acquire l] s)))))"

definition cond_signal :: "cond \<Rightarrow> lock \<Rightarrow> kernel \<Rightarrow> kernel option" where
  "cond_signal c l s =
     ASSERT (\<not> intr_context s) (
     Option.bind (lock_held_by_current_thread l s) (\<lambda>held.
     ASSERT held (
     case cond_waiters s c of
       [] \<Rightarrow> Some s
     | w # ws \<Rightarrow> Some (push [Sema_up (Waiter_sema w)] (s\<lparr>cond_waiters := (cond_waiters s)(c := ws)\<rparr>)))))"

definition cond_broadcast :: "cond \<Rightarrow> lock \<Rightarrow> kernel \<Rightarrow> kernel option" where
  "cond_broadcast c l s =
     (if cond_waiters s c \<noteq> [] then Some (push [Cond_signal c l, Cond_broadcast c l] s) else Some s)"

section \<open>Readers-writers locks\<close>

definition rw_lock_init :: "nat \<Rightarrow> kernel \<Rightarrow> kernel" where
  "rw_lock_init r s = (cond_init (Rw_write r) (cond_init (Rw_read r) (lock_init (Rw_guard r) s)))
     \<lparr>rw_count := (rw_count s)(r := \<lambda>_. 0)\<rparr>"

definition rw_lock_acquire :: "nat \<Rightarrow> bool \<Rightarrow> action list" where
  "rw_lock_acquire r reader =
     [Lock_acquire (Rw_guard r), if reader then Rw_read_loop r else Rw_write_loop r,
      Lock_release (Rw_guard r)]"

definition rw_lock_release :: "nat \<Rightarrow> bool \<Rightarrow> action list" where
  "rw_lock_release r reader =
     [Lock_acquire (Rw_guard r), Rw_add r (if reader then AR else AW) (-1),
      if reader then Rw_released_read r else Rw_released_write r,
      Lock_release (Rw_guard r)]"

definition rw_add :: "nat \<Rightarrow> rw_counter \<Rightarrow> int \<Rightarrow> kernel \<Rightarrow> kernel" where
  "rw_add r c d s = s\<lparr>rw_count := (rw_count s)(r := (rw_count s r)(c := rw_count s r c + d))\<rparr>"

definition rw_read_loop :: "nat \<Rightarrow> kernel \<Rightarrow> kernel" where
  "rw_read_loop r s =
     (if rw_count s r AW + rw_count s r WW > 0
      then push [Rw_add r WR 1, Cond_wait (Rw_read r) (Rw_guard r), Rw_add r WR (-1), Rw_read_loop r] s
      else push [Rw_add r AR 1] s)"

definition rw_write_loop :: "nat \<Rightarrow> kernel \<Rightarrow> kernel" where
  "rw_write_loop r s =
     (if rw_count s r AR + rw_count s r AW > 0
      then push [Rw_add r WW 1, Cond_wait (Rw_write r) (Rw_guard r), Rw_add r WW (-1), Rw_write_loop r] s
      else push [Rw_add r AW 1] s)"

definition rw_released_read :: "nat \<Rightarrow> kernel \<Rightarrow> kernel" where
  "rw_released_read r s =
     (if rw_count s r AR = 0 \<and> rw_count s r WW > 0 then push [Cond_signal (Rw_write r) (Rw_guard r)] s
      else s)"

definition rw_released_write :: "nat \<Rightarrow> kernel \<Rightarrow> kernel" where
  "rw_released_write r s =
     (if rw_count s r WW > 0 then push [Cond_signal (Rw_write r) (Rw_guard r)] s
      else if rw_count s r WR > 0 then push [Cond_broadcast (Rw_read r) (Rw_guard r)] s
      else s)"

section \<open>The idle thread\<close>

text \<open>\<^verbatim>\<open>idle\<close>: record itself, let \<^verbatim>\<open>thread_start\<close> go on, then block for ever; each time it is
  scheduled it turns interrupts on and waits for one.\<close>

definition idle_start :: "sema \<Rightarrow> kernel \<Rightarrow> kernel option" where
  "idle_start x s =
     Option.bind (thread_current s) (\<lambda>cur. Some (push [Sema_up x, Idle_loop] (s\<lparr>idle_thread := cur\<rparr>)))"

text \<open>\<open>Iret INTR_ON\<close> is the \<^verbatim>\<open>sti; hlt\<close>: it only sets the interrupt flag.\<close>

definition idle_loop :: "kernel \<Rightarrow> kernel" where
  "idle_loop s = push [Idle_block, Iret INTR_ON, Idle_loop] (intr_disable s)"

section \<open>Sleeping on the timer\<close>

definition timer_ticks :: "kernel \<Rightarrow> (u64 \<times> kernel) option" where
  "timer_ticks s = (
     let old_level = intr_get_level s in
     let s = intr_disable s in
     let t = ticks s in
     Option.bind (intr_set_level old_level s) (\<lambda>s. Some (t, s)))"

text \<open>\<^verbatim>\<open>timer_elapsed (start) < n\<close> compares \<^verbatim>\<open>int64_t\<close> values.\<close>

definition timer_elapsed :: "u64 \<Rightarrow> kernel \<Rightarrow> (u64 \<times> kernel) option" where
  "timer_elapsed thn s = Option.bind (timer_ticks s) (\<lambda>(t, s). Some (t - thn, s))"

definition timer_sleep_loop :: "u64 \<Rightarrow> u64 \<Rightarrow> kernel \<Rightarrow> kernel option" where
  "timer_sleep_loop start n s =
     Option.bind (timer_elapsed start s) (\<lambda>(e, s).
     if e <s n then Some (push [Thread_yield, Timer_sleep_loop start n] s) else Some s)"

definition timer_sleep :: "u64 \<Rightarrow> kernel \<Rightarrow> kernel option" where
  "timer_sleep n s =
     Option.bind (timer_ticks s) (\<lambda>(start, s).
     ASSERT (intr_get_level s = INTR_ON) (timer_sleep_loop start n s))"

section \<open>One action of the running thread\<close>

fun exec :: "action \<Rightarrow> kernel \<Rightarrow> kernel option" where
  "exec (Intr_set_level level) s = intr_set_level level s"
| "exec (Iret level) s = Some (s\<lparr>intr := level\<rparr>)"
| "exec (Sema_down x) s = sema_down x s"
| "exec (Sema_down_loop x level) s = sema_down_loop x level s"
| "exec (Sema_try_down x) s =
     Option.bind (sema_try_down x s) (\<lambda>(b, s). Some (upd (running_thread s) (ret_update (\<lambda>_. b)) s))"
| "exec (Sema_up x) s = sema_up x s"
| "exec (Lock_acquire l) s = lock_acquire l s"
| "exec (Lock_try_acquire l) s = lock_try_acquire l s"
| "exec (Lock_release l) s = lock_release l s"
| "exec (Set_holder l) s = set_holder l s"
| "exec (Set_holder_if l) s =
     (if map_option ret (threads s (running_thread s)) = Some True then set_holder l s else Some s)"
| "exec (Cond_wait c l) s = cond_wait c l s"
| "exec (Cond_signal c l) s = cond_signal c l s"
| "exec (Cond_broadcast c l) s = cond_broadcast c l s"
| "exec (Rw_add r c d) s = Some (rw_add r c d s)"
| "exec (Rw_read_loop r) s = Some (rw_read_loop r s)"
| "exec (Rw_write_loop r) s = Some (rw_write_loop r s)"
| "exec (Rw_released_read r) s = Some (rw_released_read r s)"
| "exec (Rw_released_write r) s = Some (rw_released_write r s)"
| "exec Thread_yield s = thread_yield s"
| "exec Thread_exit s = thread_exit s"
| "exec (Init_thread t nm prio) s = init_thread t nm prio s"
| "exec (Take_tid t) s = take_tid t s"
| "exec (Alloc_frames t f) s = alloc_frames t f s"
| "exec (Thread_unblock t) s = thread_unblock t s"
| "exec (Idle_start x) s = idle_start x s"
| "exec Idle_loop s = Some (idle_loop s)"
| "exec Idle_block s = thread_block s"
| "exec (Timer_sleep n) s = timer_sleep n s"
| "exec (Timer_sleep_loop start n) s = timer_sleep_loop start n s"

section \<open>Starting the system\<close>

text \<open>\<^verbatim>\<open>thread_init\<close> with the boot stack in page \<open>t\<close>; \<^verbatim>\<open>allocate_tid\<close> is left on the \<open>kont\<close>.\<close>

definition thread_init :: "tptr \<Rightarrow> kernel \<Rightarrow> kernel option" where
  "thread_init t s =
     ASSERT (intr_get_level s = INTR_OFF) (
     let s = lock_init Tid_lock s in
     let s = s\<lparr>fifo_ready_list := [], all_list := []\<rparr> in
     let s = s\<lparr>running_thread := t, initial_thread := t\<rparr> in
     Option.bind (init_thread t ''main'' PRI_DEFAULT s) (\<lambda>s.
     Some (push (allocate_tid t) (set_status t THREAD_RUNNING s))))"

text \<open>\<^verbatim>\<open>thread_start\<close>; the idle thread gets the page \<open>t\<close>.\<close>

definition thread_start :: "tptr \<Rightarrow> sema \<Rightarrow> kernel \<Rightarrow> kernel" where
  "thread_start t x s =
     push (thread_create t ''idle'' PRI_MIN (Idle_func x) @ [Intr_set_level INTR_ON, Sema_down x])
       (sema_init x 0 s)"

end
