(* ===== verification/Kernel_Steps.thy ===== *)
theory Kernel_Steps
  imports Synch
begin

text \<open>
  The kernel as a transition system, and the invariant of the scheduler.

  A step is one action of the running thread, a call it makes from its own code, or an external
  interrupt (\<^verbatim>\<open>threads/interrupt.c\<close>): the timer, whose handler is in \<^verbatim>\<open>devices/timer.c\<close>, or a device
  whose handler ups a semaphore. The invariant \<open>kinv\<close> relates the status of each thread to the
  lists that hold it and to what is left on its stack.
\<close>

section \<open>Steps\<close>

text \<open>\<open>pop\<close>: the running thread takes the next action off its stack.\<close>

definition pop :: "kernel \<Rightarrow> kernel" where
  "pop s = upd (running_thread s) (kont_update tl) s"

text \<open>The processor turns interrupts off and saves the flags before it enters \<^verbatim>\<open>intr_handler\<close>;
  the saved flags come back at the end (\<open>Iret\<close>), which may be after a switch to another thread.\<close>

definition intr_handler :: "(kernel \<Rightarrow> kernel option) \<Rightarrow> kernel \<Rightarrow> kernel option" where
  "intr_handler handler s = (
     let s = push [Iret (intr s)] (s\<lparr>intr := INTR_OFF\<rparr>) in
     ASSERT (intr_get_level s = INTR_OFF) (
     ASSERT (\<not> intr_context s) (
     let s = s\<lparr>in_external_intr := True, yield_on_return := False\<rparr> in
     Option.bind (handler s) (\<lambda>s.
     ASSERT (intr_get_level s = INTR_OFF) (
     ASSERT (intr_context s) (
     let s = s\<lparr>in_external_intr := False\<rparr> in
     if yield_on_return s then thread_yield s else Some s))))))"

definition timer_interrupt :: "kernel \<Rightarrow> kernel option" where
  "timer_interrupt s = thread_tick (s\<lparr>ticks := ticks s + 1\<rparr>)"

text \<open>The calls a thread can make from its own code: those of \<^verbatim>\<open>threads/synch.c\<close>, \<^verbatim>\<open>threads/thread.c\<close> and \<^verbatim>\<open>timer_sleep\<close>.
  \<^verbatim>\<open>thread_create\<close> gets a page that holds no thread. The calls of \<^verbatim>\<open>devices/intq.c\<close>, which are made with interrupts off and whose \<^verbatim>\<open>wait\<close>
  blocks a thread that is on no semaphore, are not among them: the steps are those of a system whose threads do not read or write
  interrupt queues. \<open>Intq\<close> treats these calls by themselves.\<close>

inductive client_call :: "kernel \<Rightarrow> action list \<Rightarrow> bool" for s where
  "client_call s [Sema_down (Sema n)]"
| "client_call s [Sema_try_down (Sema n)]"
| "client_call s [Sema_up (Sema n)]"
| "client_call s [Lock_acquire (Lock n)]"
| "client_call s [Lock_try_acquire (Lock n)]"
| "client_call s [Lock_release (Lock n)]"
| "client_call s [Cond_wait (Cond n) (Lock m)]"
| "client_call s [Cond_signal (Cond n) (Lock m)]"
| "client_call s [Cond_broadcast (Cond n) (Lock m)]"
| "client_call s (rw_lock_acquire r b)"
| "client_call s (rw_lock_release r b)"
| "client_call s [Thread_yield]"
| "client_call s [Thread_exit]"
| "client_call s [Timer_sleep d]"
| "t \<noteq> 0 \<Longrightarrow> threads s t = None \<Longrightarrow> client_call s (thread_create t nm prio Client_func)"

text \<open>The state in which \<^verbatim>\<open>thread_init\<close> finds the kernel: no thread, and every synchronization
  object of a client (semaphore \<open>n\<close> with value \<open>v n\<close>) as its init function leaves it.\<close>

definition fresh_kernel :: "(nat \<Rightarrow> u32) \<Rightarrow> kernel" where
  "fresh_kernel v =
     \<lparr>threads = \<lambda>_. None, fifo_ready_list = [], all_list = [], idle_thread = 0, initial_thread = 0,
      running_thread = 0, active_sched_policy = SCHED_FIFO, intr = INTR_OFF, in_external_intr = False,
      yield_on_return = False, idle_ticks = 0, kernel_ticks = 0, user_ticks = 0, thread_ticks = 0,
      ticks = 0, next_tid = 1,
      semas = \<lambda>x. \<lparr>sema_value = (case x of Sema n \<Rightarrow> v n | Lock_sema l \<Rightarrow> 1 | Waiter_sema t \<Rightarrow> 0), waiters = []\<rparr>,
      holder = \<lambda>_. 0, cond_waiters = \<lambda>_. [], rw_count = \<lambda>_ _. 0\<rparr>"

definition run_action :: "kernel \<Rightarrow> kernel option" where
  "run_action s = (case kont_of s (running_thread s) of [] \<Rightarrow> None | a # ks \<Rightarrow> exec a (pop s))"

inductive kstep :: "kernel \<Rightarrow> kernel \<Rightarrow> bool" where
  run: "run_action s = Some s' \<Longrightarrow> kstep s s'"
| call: "kont_of s (running_thread s) = [] \<Longrightarrow> client_call s (a # ks) \<Longrightarrow> exec a (push ks s) = Some s'
    \<Longrightarrow> kstep s s'"
| timer: "intr s = INTR_ON \<Longrightarrow> intr_handler timer_interrupt s = Some s' \<Longrightarrow> kstep s s'"
| device: "intr s = INTR_ON \<Longrightarrow> intr_handler (sema_up (Sema n)) s = Some s' \<Longrightarrow> kstep s s'"

primrec run_actions :: "nat \<Rightarrow> kernel \<Rightarrow> kernel option" where
  "run_actions 0 s = Some s"
| "run_actions (Suc n) s = Option.bind (run_action s) (run_actions n)"

text \<open>Booting, with the boot stack in page \<open>m\<close> and the idle thread in page \<open>i\<close>: \<^verbatim>\<open>thread_init\<close>,
  then \<^verbatim>\<open>thread_start\<close> until it has returned to \<^verbatim>\<open>main\<close>.\<close>

definition boot :: "tptr \<Rightarrow> tptr \<Rightarrow> (nat \<Rightarrow> u32) \<Rightarrow> kernel option" where
  "boot m i v =
     Option.bind (thread_init m (fresh_kernel v)) (\<lambda>s.
     Option.bind (run_actions 6 s) (\<lambda>s.
     run_actions 17 (thread_start i (Sema 0) s)))"

inductive kreach :: "kernel \<Rightarrow> bool" where
  init: "m \<noteq> 0 \<Longrightarrow> i \<noteq> 0 \<Longrightarrow> m \<noteq> i \<Longrightarrow> boot m i v = Some s \<Longrightarrow> kreach s"
| step: "kreach s \<Longrightarrow> kstep s s' \<Longrightarrow> kreach s'"

section \<open>The scheduler invariant\<close>

text \<open>What a thread may have on its stack: \<open>okk t i level ks\<close> says that \<open>ks\<close> is a sensible
  rest for thread \<open>t\<close> (\<open>i\<close>: it is the idle thread) when the interrupt level is \<open>level\<close>; with
  interrupts off the thread is inside one of the pieces that turned them off.\<close>

definition own_sema :: "tptr \<Rightarrow> sema \<Rightarrow> bool" where
  "own_sema t x = (case x of Waiter_sema w \<Rightarrow> w = t | _ \<Rightarrow> True)"

definition plain :: "tptr \<Rightarrow> action \<Rightarrow> action list \<Rightarrow> bool" where
  "plain t a ks =
     (case a of
        Sema_down x \<Rightarrow> own_sema t x
      | Thread_unblock u \<Rightarrow> ks = []
      | Alloc_frames u f \<Rightarrow> f = Client_func \<and> ks = [Thread_unblock u]
      | Thread_exit \<Rightarrow> ks = []
      | Intr_set_level _ \<Rightarrow> False | Iret _ \<Rightarrow> False | Sema_down_loop _ _ \<Rightarrow> False
      | Idle_block \<Rightarrow> False | Idle_loop \<Rightarrow> False | Idle_start _ \<Rightarrow> False | Init_thread _ _ _ \<Rightarrow> False
      | _ \<Rightarrow> True)"

fun okk :: "tptr \<Rightarrow> bool \<Rightarrow> intr_level \<Rightarrow> action list \<Rightarrow> bool" where
  "okk t i INTR_ON [] = (\<not> i)"
| "okk t i INTR_OFF [] = False"
| "okk t i INTR_OFF (Intr_set_level l # ks) = okk t i l ks"
| "okk t i INTR_OFF (Iret l # ks) = okk t i l ks"
| "okk t i INTR_OFF (Sema_down_loop x l # ks) = (\<not> i \<and> own_sema t x \<and> okk t i l ks)"
| "okk t i INTR_OFF (Idle_block # ks) = (i \<and> okk t i INTR_OFF ks)"
| "okk t i INTR_OFF (a # ks) = False"
| "okk t i INTR_ON (a # ks) =
     (if a = Idle_loop then i \<and> ks = [] else \<not> i \<and> plain t a ks \<and> okk t i INTR_ON ks)"

definition base_ok :: "kernel \<Rightarrow> bool" where
  "base_ok s \<longleftrightarrow> active_sched_policy s = SCHED_FIFO \<and> \<not> in_external_intr s \<and> finite (dom (threads s)) \<and>
     (\<forall>t. status_of s t \<noteq> None \<longrightarrow> is_thread s t)"

text \<open>\<open>r\<close> is the running thread; \<open>None\<close> inside \<^verbatim>\<open>schedule\<close>, when the old thread has given up its status.\<close>

definition queues_ok :: "tptr option \<Rightarrow> kernel \<Rightarrow> bool" where
  "queues_ok r s \<longleftrightarrow>
     status_of s (running_thread s) \<noteq> None \<and>
     (\<forall>t. status_of s t = Some THREAD_RUNNING \<longleftrightarrow> r = Some t) \<and>
     distinct (fifo_ready_list s) \<and>
     (\<forall>t. t \<in> set (fifo_ready_list s) \<longleftrightarrow> status_of s t = Some THREAD_READY \<and> t \<noteq> idle_thread s) \<and>
     status_of s (idle_thread s) \<notin> {None, Some THREAD_DYING} \<and>
     distinct (all_list s) \<and>
     (\<forall>t. t \<in> set (all_list s) \<longleftrightarrow> status_of s t \<notin> {None, Some THREAD_DYING}) \<and>
     (\<forall>t. status_of s t = Some THREAD_DYING \<longrightarrow>
        t = initial_thread s \<or> r = None \<and> t = running_thread s)"

definition newborn_ok :: "kernel \<Rightarrow> tptr \<Rightarrow> tptr \<Rightarrow> bool" where
  "newborn_ok s u t \<longleftrightarrow> status_of s t = Some THREAD_BLOCKED \<and> t \<noteq> idle_thread s \<and>
     kont_of s t = (if Alloc_frames t Client_func \<in> set (kont_of s u) then [] else [Intr_set_level INTR_ON])"

definition waits_on :: "kernel \<Rightarrow> tptr \<Rightarrow> sema \<Rightarrow> bool" where
  "waits_on s t x \<longleftrightarrow> t \<in> set (waiters (semas s x))"

definition stopped :: "kernel \<Rightarrow> tptr \<Rightarrow> bool" where
  "stopped s t \<longleftrightarrow> status_of s t = Some THREAD_READY \<or>
     status_of s t = Some THREAD_BLOCKED \<and> (t = idle_thread s \<or> (\<exists>x. waits_on s t x))"

definition konts_ok :: "kernel \<Rightarrow> bool" where
  "konts_ok s \<longleftrightarrow>
     (\<forall>x. distinct (waiters (semas s x))) \<and>
     (\<forall>t x. waits_on s t x \<longrightarrow> status_of s t = Some THREAD_BLOCKED \<and> t \<noteq> idle_thread s \<and>
        (\<exists>l ks. kont_of s t = Sema_down_loop x l # ks)) \<and>
     (\<forall>t. stopped s t \<longrightarrow> okk t (t = idle_thread s) INTR_OFF (kont_of s t)) \<and>
     (\<forall>t. status_of s t = Some THREAD_DYING \<longrightarrow> kont_of s t = []) \<and>
     (\<forall>u t. Thread_unblock t \<in> set (kont_of s u) \<longrightarrow> newborn_ok s u t) \<and>
     (\<forall>u u' t. Thread_unblock t \<in> set (kont_of s u) \<longrightarrow> Thread_unblock t \<in> set (kont_of s u') \<longrightarrow> u = u') \<and>
     (\<forall>t. status_of s t = Some THREAD_BLOCKED \<longrightarrow> t = idle_thread s \<or> (\<exists>x. waits_on s t x) \<or>
        (\<exists>u. Thread_unblock t \<in> set (kont_of s u)))"

definition sinv :: "tptr option \<Rightarrow> kernel \<Rightarrow> bool" where
  "sinv r s \<longleftrightarrow> base_ok s \<and> queues_ok r s \<and> konts_ok s"

definition kinv :: "kernel \<Rightarrow> bool" where
  "kinv s \<longleftrightarrow> sinv (Some (running_thread s)) s \<and>
     okk (running_thread s) (running_thread s = idle_thread s) (intr s) (kont_of s (running_thread s))"

end
