(* ===== verification/Kernel_Boot.thy ===== *)
theory Kernel_Boot
  imports Kernel_Steps
begin

text \<open>
  The state in which \<^verbatim>\<open>thread_init\<close> and \<^verbatim>\<open>thread_start\<close> leave the kernel, computed from the
  definitions: the main thread runs, the idle thread is blocked inside its loop.
\<close>

definition mk_thread :: "string \<Rightarrow> int \<Rightarrow> thread_status \<Rightarrow> nat \<Rightarrow> 32 word \<Rightarrow> action list \<Rightarrow> thread" where
  "mk_thread nm p st sp n ks = \<lparr>tid = n, status = st, name = nm, stack = sp, priority = p,
     pcb = 0, magic = THREAD_MAGIC, kont = ks, ret = False\<rparr>"

definition after_init :: "tptr \<Rightarrow> (nat \<Rightarrow> u32) \<Rightarrow> action list \<Rightarrow> kernel" where
  "after_init m v ks = (fresh_kernel v)\<lparr>
     threads := [m \<mapsto> mk_thread ''main'' 31 THREAD_RUNNING (m + 4096) (if ks = [] then 1 else 0) ks],
     all_list := [m], initial_thread := m, running_thread := m, next_tid := if ks = [] then 2 else 1\<rparr>"

definition booted :: "tptr \<Rightarrow> tptr \<Rightarrow> (nat \<Rightarrow> u32) \<Rightarrow> kernel" where
  "booted m i v = (fresh_kernel (v(0 := 0)))\<lparr>
     threads := [m \<mapsto> mk_thread ''main'' 31 THREAD_RUNNING (m + 4096) 1 [],
                 i \<mapsto> mk_thread ''idle'' 0 THREAD_BLOCKED (i + 4096 - 44) 2 [Iret INTR_ON, Idle_loop]],
     all_list := [m, i], initial_thread := m, idle_thread := i, running_thread := m,
     intr := INTR_ON, next_tid := 3\<rparr>"

lemmas action_defs = run_action_def kont_of_def pop_def upd_def lock_acquire_def intr_context_def
  lock_held_by_current_thread_def thread_current_def is_thread_def status_of_def push_def
  sema_down_def sema_down_loop_def intr_get_level_def intr_disable_def intr_set_level_def upd_sema_def
  intr_enable_def set_holder_def take_tid_def Let_def lock_release_def sema_up_def init_thread_def
  PRI_DEFAULT_def PRI_MIN_def PRI_MAX_def alloc_frames_def alloc_frame_def kernel_thread_def
  thread_unblock_def thread_enqueue_def thread_block_def schedule_def next_thread_to_run_def
  thread_schedule_fifo_def thread_switch_tail_def idle_start_def idle_loop_def sema_init_def lock_init_def

lemmas state_defs = fresh_kernel_def mk_thread_def after_init_def booted_def

text \<open>Running one action at a time.\<close>

lemma run_more:
  "run_action s = Some s' \<Longrightarrow> run_actions n s' = r \<Longrightarrow> run_actions (Suc n) s = r"
  "run_action s = Some s' \<Longrightarrow> run_actions (pred_numeral k) s' = r \<Longrightarrow> run_actions (numeral k) s = r"
  by (simp_all add: numeral_eq_Suc)

lemma thread_init_boots:
  "m \<noteq> 0 \<Longrightarrow> thread_init m (fresh_kernel v) = Some (after_init m v (allocate_tid m))"
  by (simp add: thread_init_def action_defs allocate_tid_def state_defs fun_eq_iff)

lemma allocate_tid_boots:
  "m \<noteq> 0 \<Longrightarrow> run_actions 6 (after_init m v (allocate_tid m)) = Some (after_init m v [])"
  unfolding state_defs allocate_tid_def
  by (simp only: kernel.update_convs list.distinct if_False, rule run_more, simp add: action_defs,
      (unfold pred_numeral_simps BitM.simps, rule run_more, simp add: action_defs)+, simp add: fun_eq_iff)

lemma thread_start_boots:
  "m \<noteq> 0 \<Longrightarrow> i \<noteq> 0 \<Longrightarrow> m \<noteq> i \<Longrightarrow>
     run_actions 17 (thread_start i (Sema 0) (after_init m v [])) = Some (booted m i v)"
  unfolding state_defs thread_start_def
  by (simp add: action_defs thread_create_def allocate_tid_def, rule run_more, simp add: action_defs,
      (unfold pred_numeral_simps BitM.simps, rule run_more, simp add: action_defs)+,
      simp add: fun_eq_iff split: sema.split)

theorem boot_eq:
  assumes "m \<noteq> 0" "i \<noteq> 0" "m \<noteq> i"
  shows "boot m i v = Some (booted m i v)"
  by (simp add: boot_def thread_init_boots allocate_tid_boots thread_start_boots assms del: run_actions.simps)

end
