(* ===== verification/Sched_Inv.thy ===== *)
theory Sched_Inv
  imports Kernel_Boot
begin

text \<open>
  The invariant \<open>kinv\<close> of the scheduler holds in every reachable state: one lemma per change
  of state (a thread blocks, is made ready, is created, dies, is switched to), and from them one
  lemma per action.
\<close>

section \<open>What the updates do to the parts of the state\<close>

lemma status_of_upd:
  "status_of (upd t f s) u = (if u = t then map_option (status \<circ> f) (threads s t) else status_of s u)"
  by (simp add: status_of_def upd_def option.map_comp)

lemma kont_of_upd:
  "kont_of (upd t f s) u =
     (if u = t then (case threads s t of None \<Rightarrow> [] | Some th \<Rightarrow> kont (f th)) else kont_of s u)"
  by (auto simp: kont_of_def upd_def split: option.splits)

lemma status_of_set_status [simp]:
  "status_of (set_status t st s) u = (if u = t \<and> status_of s t \<noteq> None then Some st else status_of s u)"
  by (auto simp: status_of_def upd_def)

lemma kont_of_set_status [simp]: "kont_of (set_status t st s) u = kont_of s u"
  by (auto simp: kont_of_def upd_def split: option.splits)

lemma is_thread_upd:
  "(\<And>th. magic (f th) = magic th) \<Longrightarrow> is_thread (upd t f s) u = is_thread s u"
  by (auto simp: is_thread_def upd_def split: option.splits)

lemma is_thread_set_status [simp]: "is_thread (set_status t st s) u = is_thread s u"
  by (simp add: is_thread_upd)

lemma kont_none: "status_of s t = None \<Longrightarrow> kont_of s t = []"
  by (simp add: status_of_def kont_of_def)

lemma upd_fields [simp]:
  "fifo_ready_list (upd t f s) = fifo_ready_list s" "all_list (upd t f s) = all_list s"
  "idle_thread (upd t f s) = idle_thread s" "initial_thread (upd t f s) = initial_thread s"
  "running_thread (upd t f s) = running_thread s" "active_sched_policy (upd t f s) = active_sched_policy s"
  "intr (upd t f s) = intr s" "in_external_intr (upd t f s) = in_external_intr s"
  "yield_on_return (upd t f s) = yield_on_return s" "thread_ticks (upd t f s) = thread_ticks s"
  "ticks (upd t f s) = ticks s" "next_tid (upd t f s) = next_tid s" "semas (upd t f s) = semas s"
  "holder (upd t f s) = holder s" "cond_waiters (upd t f s) = cond_waiters s"
  "rw_count (upd t f s) = rw_count s" "dom (threads (upd t f s)) = dom (threads s)"
  by (auto simp: upd_def dom_def)

text \<open>\<open>kontf f s\<close>: the stack of the running thread is changed by \<open>f\<close>; \<open>push\<close> and \<open>pop\<close> are
  instances.\<close>

definition kontf :: "(action list \<Rightarrow> action list) \<Rightarrow> kernel \<Rightarrow> kernel" where
  "kontf f s = upd (running_thread s) (kont_update f) s"

lemma push_kontf: "push ks s = kontf ((@) ks) s"
  by (simp add: push_def kontf_def)

lemma pop_kontf: "pop s = kontf tl s"
  by (simp add: pop_def kontf_def)

lemma kontf_fields [simp]:
  "fifo_ready_list (kontf f s) = fifo_ready_list s" "all_list (kontf f s) = all_list s"
  "idle_thread (kontf f s) = idle_thread s" "initial_thread (kontf f s) = initial_thread s"
  "running_thread (kontf f s) = running_thread s" "active_sched_policy (kontf f s) = active_sched_policy s"
  "intr (kontf f s) = intr s" "in_external_intr (kontf f s) = in_external_intr s"
  "yield_on_return (kontf f s) = yield_on_return s" "thread_ticks (kontf f s) = thread_ticks s"
  "ticks (kontf f s) = ticks s" "next_tid (kontf f s) = next_tid s" "semas (kontf f s) = semas s"
  "holder (kontf f s) = holder s" "cond_waiters (kontf f s) = cond_waiters s"
  "rw_count (kontf f s) = rw_count s" "dom (threads (kontf f s)) = dom (threads s)"
  by (simp_all add: kontf_def)

lemma status_of_kontf [simp]: "status_of (kontf f s) u = status_of s u"
  by (auto simp: kontf_def status_of_def upd_def option.map_comp comp_def)

lemma is_thread_kontf [simp]: "is_thread (kontf f s) u = is_thread s u"
  by (simp add: kontf_def is_thread_upd)

lemma kont_of_kontf [simp]:
  "kont_of (kontf f s) u =
     (if u = running_thread s \<and> status_of s u \<noteq> None then f (kont_of s u) else kont_of s u)"
  by (auto simp: kontf_def kont_of_def upd_def status_of_def split: option.splits)

lemma status_of_other [simp]:
  "status_of (fifo_ready_list_update f1 s) = status_of s" "status_of (all_list_update f2 s) = status_of s"
  "status_of (idle_thread_update f3 s) = status_of s" "status_of (initial_thread_update f4 s) = status_of s"
  "status_of (running_thread_update f5 s) = status_of s" "status_of (active_sched_policy_update f6 s) = status_of s"
  "status_of (intr_update f7 s) = status_of s" "status_of (in_external_intr_update f8 s) = status_of s"
  "status_of (yield_on_return_update f9 s) = status_of s" "status_of (idle_ticks_update f10 s) = status_of s"
  "status_of (kernel_ticks_update f11 s) = status_of s" "status_of (user_ticks_update f12 s) = status_of s"
  "status_of (thread_ticks_update f13 s) = status_of s" "status_of (ticks_update f14 s) = status_of s"
  "status_of (next_tid_update f15 s) = status_of s" "status_of (semas_update f16 s) = status_of s"
  "status_of (holder_update f17 s) = status_of s" "status_of (cond_waiters_update f18 s) = status_of s"
  "status_of (rw_count_update f19 s) = status_of s"
  by (simp_all add: status_of_def fun_eq_iff)

lemma kont_of_other [simp]:
  "kont_of (fifo_ready_list_update f1 s) = kont_of s" "kont_of (all_list_update f2 s) = kont_of s"
  "kont_of (idle_thread_update f3 s) = kont_of s" "kont_of (initial_thread_update f4 s) = kont_of s"
  "kont_of (running_thread_update f5 s) = kont_of s" "kont_of (active_sched_policy_update f6 s) = kont_of s"
  "kont_of (intr_update f7 s) = kont_of s" "kont_of (in_external_intr_update f8 s) = kont_of s"
  "kont_of (yield_on_return_update f9 s) = kont_of s" "kont_of (idle_ticks_update f10 s) = kont_of s"
  "kont_of (kernel_ticks_update f11 s) = kont_of s" "kont_of (user_ticks_update f12 s) = kont_of s"
  "kont_of (thread_ticks_update f13 s) = kont_of s" "kont_of (ticks_update f14 s) = kont_of s"
  "kont_of (next_tid_update f15 s) = kont_of s" "kont_of (semas_update f16 s) = kont_of s"
  "kont_of (holder_update f17 s) = kont_of s" "kont_of (cond_waiters_update f18 s) = kont_of s"
  "kont_of (rw_count_update f19 s) = kont_of s"
  by (simp_all add: kont_of_def fun_eq_iff)

lemma is_thread_other [simp]:
  "is_thread (fifo_ready_list_update f1 s) = is_thread s" "is_thread (all_list_update f2 s) = is_thread s"
  "is_thread (idle_thread_update f3 s) = is_thread s" "is_thread (initial_thread_update f4 s) = is_thread s"
  "is_thread (running_thread_update f5 s) = is_thread s" "is_thread (active_sched_policy_update f6 s) = is_thread s"
  "is_thread (intr_update f7 s) = is_thread s" "is_thread (in_external_intr_update f8 s) = is_thread s"
  "is_thread (yield_on_return_update f9 s) = is_thread s" "is_thread (idle_ticks_update f10 s) = is_thread s"
  "is_thread (kernel_ticks_update f11 s) = is_thread s" "is_thread (user_ticks_update f12 s) = is_thread s"
  "is_thread (thread_ticks_update f13 s) = is_thread s" "is_thread (ticks_update f14 s) = is_thread s"
  "is_thread (next_tid_update f15 s) = is_thread s" "is_thread (semas_update f16 s) = is_thread s"
  "is_thread (holder_update f17 s) = is_thread s" "is_thread (cond_waiters_update f18 s) = is_thread s"
  "is_thread (rw_count_update f19 s) = is_thread s"
  by (simp_all add: is_thread_def fun_eq_iff)

lemma waits_on_other [simp]:
  "waits_on (fifo_ready_list_update f1 s) = waits_on s" "waits_on (all_list_update f2 s) = waits_on s"
  "waits_on (idle_thread_update f3 s) = waits_on s" "waits_on (initial_thread_update f4 s) = waits_on s"
  "waits_on (running_thread_update f5 s) = waits_on s" "waits_on (active_sched_policy_update f6 s) = waits_on s"
  "waits_on (intr_update f7 s) = waits_on s" "waits_on (in_external_intr_update f8 s) = waits_on s"
  "waits_on (yield_on_return_update f9 s) = waits_on s" "waits_on (idle_ticks_update f10 s) = waits_on s"
  "waits_on (kernel_ticks_update f11 s) = waits_on s" "waits_on (user_ticks_update f12 s) = waits_on s"
  "waits_on (thread_ticks_update f13 s) = waits_on s" "waits_on (ticks_update f14 s) = waits_on s"
  "waits_on (next_tid_update f15 s) = waits_on s" "waits_on (holder_update f16 s) = waits_on s"
  "waits_on (cond_waiters_update f17 s) = waits_on s" "waits_on (rw_count_update f18 s) = waits_on s"
  by (simp_all add: waits_on_def fun_eq_iff)

text \<open>Fields that the invariant does not read.\<close>

lemma sinv_other [simp]:
  "sinv r (intr_update f1 s) = sinv r s"
  "sinv r (yield_on_return_update f2 s) = sinv r s"
  "sinv r (idle_ticks_update f3 s) = sinv r s"
  "sinv r (kernel_ticks_update f4 s) = sinv r s"
  "sinv r (user_ticks_update f5 s) = sinv r s"
  "sinv r (thread_ticks_update f6 s) = sinv r s"
  "sinv r (ticks_update f7 s) = sinv r s"
  "sinv r (next_tid_update f8 s) = sinv r s"
  "sinv r (holder_update f9 s) = sinv r s"
  "sinv r (cond_waiters_update f10 s) = sinv r s"
  "sinv r (rw_count_update f11 s) = sinv r s"
  by (simp_all add: sinv_def base_ok_def queues_ok_def konts_ok_def newborn_ok_def waits_on_def stopped_def)

text \<open>Updates of a thread structure that keep its status, stack and magic number.\<close>

lemma status_of_upd_same: "(\<And>th. status (f th) = status th) \<Longrightarrow> status_of (upd t f s) = status_of s"
  by (rule ext, cases "threads s t") (simp_all add: status_of_upd, simp_all add: status_of_def)

lemma kont_of_upd_same: "(\<And>th. kont (f th) = kont th) \<Longrightarrow> kont_of (upd t f s) = kont_of s"
  by (rule ext, cases "threads s t") (simp_all add: kont_of_upd, simp_all add: kont_of_def)

lemma sinv_upd:
  assumes "\<And>th. status (f th) = status th" "\<And>th. kont (f th) = kont th" "\<And>th. magic (f th) = magic th"
  shows "sinv r (upd t f s) = sinv r s"
proof -
  have "is_thread (upd t f s) = is_thread s"
    by (rule ext) (simp add: is_thread_upd assms)
  then show ?thesis
    by (simp add: sinv_def base_ok_def queues_ok_def konts_ok_def newborn_ok_def waits_on_def stopped_def
      status_of_upd_same assms kont_of_upd_same)
qed

lemma queues_okI:
  assumes "status_of s (running_thread s) \<noteq> None"
    and "\<And>t. status_of s t = Some THREAD_RUNNING \<longleftrightarrow> r = Some t"
    and "distinct (fifo_ready_list s)"
    and "\<And>t. t \<in> set (fifo_ready_list s) \<longleftrightarrow> status_of s t = Some THREAD_READY \<and> t \<noteq> idle_thread s"
    and "status_of s (idle_thread s) \<noteq> None" "status_of s (idle_thread s) \<noteq> Some THREAD_DYING"
    and "distinct (all_list s)"
    and "\<And>t. t \<in> set (all_list s) \<longleftrightarrow> status_of s t \<noteq> None \<and> status_of s t \<noteq> Some THREAD_DYING"
    and "\<And>t. status_of s t = Some THREAD_DYING \<Longrightarrow> t = initial_thread s \<or> r = None \<and> t = running_thread s"
  shows "queues_ok r s"
  using assms unfolding queues_ok_def by simp

lemma queues_okD:
  assumes "queues_ok r s"
  shows "status_of s (running_thread s) \<noteq> None"
    and "status_of s t = Some THREAD_RUNNING \<longleftrightarrow> r = Some t"
    and "distinct (fifo_ready_list s)"
    and "t \<in> set (fifo_ready_list s) \<longleftrightarrow> status_of s t = Some THREAD_READY \<and> t \<noteq> idle_thread s"
    and "status_of s (idle_thread s) \<noteq> None" "status_of s (idle_thread s) \<noteq> Some THREAD_DYING"
    and "distinct (all_list s)"
    and "t \<in> set (all_list s) \<longleftrightarrow> status_of s t \<noteq> None \<and> status_of s t \<noteq> Some THREAD_DYING"
    and "status_of s t = Some THREAD_DYING \<Longrightarrow> t = initial_thread s \<or> r = None \<and> t = running_thread s"
  using assms unfolding queues_ok_def by simp_all

section \<open>The stack of the running thread\<close>

lemma konts_okI:
  assumes "\<And>x. distinct (waiters (semas s x))"
    and "\<And>t x. waits_on s t x \<Longrightarrow> status_of s t = Some THREAD_BLOCKED"
    and "\<And>t x. waits_on s t x \<Longrightarrow> t \<noteq> idle_thread s"
    and "\<And>t x. waits_on s t x \<Longrightarrow> \<exists>l ks. kont_of s t = Sema_down_loop x l # ks"
    and "\<And>t. stopped s t \<Longrightarrow> okk t (t = idle_thread s) INTR_OFF (kont_of s t)"
    and "\<And>t. status_of s t = Some THREAD_DYING \<Longrightarrow> kont_of s t = []"
    and "\<And>u t. Thread_unblock t \<in> set (kont_of s u) \<Longrightarrow> newborn_ok s u t"
    and "\<And>u u' t. Thread_unblock t \<in> set (kont_of s u) \<Longrightarrow> Thread_unblock t \<in> set (kont_of s u') \<Longrightarrow> u = u'"
    and "\<And>t. status_of s t = Some THREAD_BLOCKED \<Longrightarrow> t \<noteq> idle_thread s \<Longrightarrow> \<forall>x. \<not> waits_on s t x \<Longrightarrow>
           \<exists>u. Thread_unblock t \<in> set (kont_of s u)"
  shows "konts_ok s"
  using assms unfolding konts_ok_def by blast

lemma konts_okD:
  assumes "konts_ok s"
  shows "distinct (waiters (semas s x))"
    and "waits_on s t x \<Longrightarrow> status_of s t = Some THREAD_BLOCKED"
    and "waits_on s t x \<Longrightarrow> t \<noteq> idle_thread s"
    and "waits_on s t x \<Longrightarrow> \<exists>l ks. kont_of s t = Sema_down_loop x l # ks"
    and "stopped s t \<Longrightarrow> okk t (t = idle_thread s) INTR_OFF (kont_of s t)"
    and "status_of s t = Some THREAD_DYING \<Longrightarrow> kont_of s t = []"
    and "Thread_unblock t \<in> set (kont_of s u) \<Longrightarrow> newborn_ok s u t"
    and "Thread_unblock t \<in> set (kont_of s u) \<Longrightarrow> Thread_unblock t \<in> set (kont_of s u') \<Longrightarrow> u = u'"
    and "status_of s t = Some THREAD_BLOCKED \<Longrightarrow> t \<noteq> idle_thread s \<Longrightarrow> \<forall>x. \<not> waits_on s t x \<Longrightarrow>
           \<exists>u. Thread_unblock t \<in> set (kont_of s u)"
  using assms unfolding konts_ok_def by blast+

text \<open>The part of the invariant about stacks and wait lists, when only thread \<open>c\<close> changes.\<close>

lemma konts_change:
  assumes k: "konts_ok s" and idle: "idle_thread s' = idle_thread s"
    and st: "\<And>u. u \<noteq> c \<Longrightarrow> status_of s' u = status_of s u"
    and ko: "\<And>u. u \<noteq> c \<Longrightarrow> kont_of s' u = kont_of s u"
    and wo: "\<And>u x. u \<noteq> c \<Longrightarrow> waits_on s' u x \<longleftrightarrow> waits_on s u x"
    and di: "\<And>x. distinct (waiters (semas s' x))"
    and tu: "\<And>t. Thread_unblock t \<in> set (kont_of s' c) \<longleftrightarrow> Thread_unblock t \<in> set (kont_of s c)"
    and al: "\<And>t. Thread_unblock t \<in> set (kont_of s c) \<Longrightarrow>
       Alloc_frames t Client_func \<in> set (kont_of s' c) \<longleftrightarrow> Alloc_frames t Client_func \<in> set (kont_of s c)"
    and nb: "\<And>u. Thread_unblock c \<notin> set (kont_of s u)"
    and wc: "\<And>x. waits_on s' c x \<Longrightarrow> status_of s' c = Some THREAD_BLOCKED \<and> c \<noteq> idle_thread s \<and>
       (\<exists>l ks. kont_of s' c = Sema_down_loop x l # ks)"
    and sc: "stopped s' c \<Longrightarrow> okk c (c = idle_thread s) INTR_OFF (kont_of s' c)"
    and dc: "status_of s' c = Some THREAD_DYING \<Longrightarrow> kont_of s' c = []"
    and bc: "status_of s' c = Some THREAD_BLOCKED \<Longrightarrow> c = idle_thread s \<or> (\<exists>x. waits_on s' c x)"
  shows "konts_ok s'"
proof -
  have tu': "Thread_unblock t \<in> set (kont_of s' u) \<longleftrightarrow> Thread_unblock t \<in> set (kont_of s u)" for t u
    using tu ko by (cases "u = c") simp_all
  have al': "Alloc_frames t Client_func \<in> set (kont_of s' u) \<longleftrightarrow> Alloc_frames t Client_func \<in> set (kont_of s u)"
    if "Thread_unblock t \<in> set (kont_of s u)" for t u
    using al ko that by (cases "u = c") simp_all
  show ?thesis
  proof (rule konts_okI)
    fix t
    show "okk t (t = idle_thread s') INTR_OFF (kont_of s' t)" if "stopped s' t"
    proof (cases "t = c")
      case False
      with that have "stopped s t" by (simp add: stopped_def st wo idle)
      with False show ?thesis using konts_okD(5)[OF k] by (simp add: ko idle)
    qed (use that sc idle in simp)
    show "newborn_ok s' u t" if "Thread_unblock t \<in> set (kont_of s' u)" for u
    proof -
      from that have p: "Thread_unblock t \<in> set (kont_of s u)" by (simp add: tu')
      with nb have "t \<noteq> c" by auto
      with konts_okD(7)[OF k p] show ?thesis by (simp add: newborn_ok_def st ko idle al'[OF p])
    qed
    show "\<exists>u. Thread_unblock t \<in> set (kont_of s' u)" if "status_of s' t = Some THREAD_BLOCKED"
      "t \<noteq> idle_thread s'" "\<forall>x. \<not> waits_on s' t x"
    proof (cases "t = c")
      case False
      with that konts_okD(9)[OF k, of t] show ?thesis by (simp add: st wo idle tu')
    qed (use that bc idle in auto)
  next
    fix t x assume w: "waits_on s' t x"
    note * = konts_okD(2-4)[OF k, of t x]
    show "status_of s' t = Some THREAD_BLOCKED" using w wc * by (cases "t = c") (simp_all add: st wo)
    show "t \<noteq> idle_thread s'" using w wc * idle by (cases "t = c") (auto simp: st wo)
    show "\<exists>l ks. kont_of s' t = Sema_down_loop x l # ks"
      using w wc * by (cases "t = c") (simp_all add: st wo ko)
  next
    fix t assume "status_of s' t = Some THREAD_DYING"
    then show "kont_of s' t = []" using dc konts_okD(6)[OF k, of t] by (cases "t = c") (simp_all add: st ko)
  next
    fix u u' t assume "Thread_unblock t \<in> set (kont_of s' u)" "Thread_unblock t \<in> set (kont_of s' u')"
    then show "u = u'" using konts_okD(8)[OF k, of t u u'] by (simp add: tu')
  qed (rule di)
qed

lemma not_newborn:
  assumes "konts_ok s" "status_of s t \<noteq> Some THREAD_BLOCKED \<or> waits_on s t x \<or> t = idle_thread s"
  shows "Thread_unblock t \<notin> set (kont_of s u)"
proof
  assume p: "Thread_unblock t \<in> set (kont_of s u)"
  have n: "newborn_ok s u t" by (rule konts_okD(7)[OF assms(1) p])
  with assms(2) have "waits_on s t x" by (auto simp: newborn_ok_def)
  from konts_okD(4)[OF assms(1) this] n show False by (auto simp: newborn_ok_def split: if_splits)
qed

text \<open>What matters of the running thread's stack is the thread it is creating.\<close>

lemma sinv_runs:
  assumes "sinv (Some c) s" shows "status_of s c = Some THREAD_RUNNING" "\<not> stopped s c" "\<not> waits_on s c x"
proof -
  show r: "status_of s c = Some THREAD_RUNNING" using assms queues_okD(2)[of "Some c" s c] by (simp add: sinv_def)
  then show "\<not> stopped s c" by (simp add: stopped_def)
  show "\<not> waits_on s c x" using r assms konts_okD(2)[of s c x] by (auto simp: sinv_def)
qed

lemma sinv_kontf:
  assumes s: "sinv (Some (running_thread s)) s"
    and "\<And>t. Thread_unblock t \<in> set (f (kont_of s (running_thread s))) \<longleftrightarrow>
           Thread_unblock t \<in> set (kont_of s (running_thread s))"
    and "\<And>t. Thread_unblock t \<in> set (kont_of s (running_thread s)) \<Longrightarrow>
           Alloc_frames t Client_func \<in> set (f (kont_of s (running_thread s))) \<longleftrightarrow>
           Alloc_frames t Client_func \<in> set (kont_of s (running_thread s))"
  shows "sinv (Some (running_thread s)) (kontf f s)"
proof -
  note run = sinv_runs[OF s]
  have k: "konts_ok s" using s by (simp add: sinv_def)
  have "konts_ok (kontf f s)"
    by (rule konts_change[OF k, where c = "running_thread s"])
      (use assms(2,3) run not_newborn[OF k, of "running_thread s"] konts_okD(1)[OF k] in
        \<open>auto simp: stopped_def waits_on_def\<close>)
  then show ?thesis
    using s by (simp add: sinv_def base_ok_def queues_ok_def)
qed

lemma sinv_push:
  assumes "sinv (Some (running_thread s)) s" "\<And>t. Thread_unblock t \<notin> set ks" "\<And>t f. Alloc_frames t f \<notin> set ks"
  shows "sinv (Some (running_thread s)) (push ks s)"
  unfolding push_kontf by (rule sinv_kontf[OF assms(1)]) (use assms(2,3) in auto)

section \<open>Giving up the processor\<close>

text \<open>\<^verbatim>\<open>schedule\<close> picks the head of the run queue, or the idle thread, and frees a dying thread.\<close>

definition pick :: "kernel \<Rightarrow> tptr \<times> tptr list" where
  "pick s = (case fifo_ready_list s of t # ts \<Rightarrow> (t, ts) | [] \<Rightarrow> (idle_thread s, []))"

definition switched :: "kernel \<Rightarrow> kernel" where
  "switched s = (let (nx, ts) = pick s; cur = running_thread s;
       s' = (set_status nx THREAD_RUNNING (s\<lparr>fifo_ready_list := ts, running_thread := nx\<rparr>))\<lparr>thread_ticks := 0\<rparr>
     in if status_of s cur = Some THREAD_DYING \<and> cur \<noteq> initial_thread s
        then free_thread cur s' else s')"


lemma status_of_clear [simp]:
  "status_of (free_thread c s) u = (if u = c then None else status_of s u)"
  "kont_of (free_thread c s) u = (if u = c then [] else kont_of s u)"
  "is_thread (free_thread c s) u \<longleftrightarrow> u \<noteq> c \<and> is_thread s u"
  by (auto simp: status_of_def kont_of_def is_thread_def free_thread_def)

lemma free_thread_fields [simp]:
  "fifo_ready_list (free_thread t s) = fifo_ready_list s" "all_list (free_thread t s) = all_list s"
  "idle_thread (free_thread t s) = idle_thread s" "initial_thread (free_thread t s) = initial_thread s"
  "running_thread (free_thread t s) = running_thread s" "intr (free_thread t s) = intr s"
  "active_sched_policy (free_thread t s) = active_sched_policy s"
  "in_external_intr (free_thread t s) = in_external_intr s"
  "yield_on_return (free_thread t s) = yield_on_return s" "thread_ticks (free_thread t s) = thread_ticks s"
  "ticks (free_thread t s) = ticks s" "next_tid (free_thread t s) = next_tid s"
  "semas (free_thread t s) = semas s" "holder (free_thread t s) = holder s"
  "cond_waiters (free_thread t s) = cond_waiters s" "rw_count (free_thread t s) = rw_count s"
  "dom (threads (free_thread t s)) = dom (threads s) - {t}"
  by (auto simp: free_thread_def)

lemma base_is_thread: "base_ok s \<Longrightarrow> is_thread s t \<longleftrightarrow> status_of s t \<noteq> None"
  by (auto simp: base_ok_def) (auto simp: is_thread_def status_of_def split: option.splits)

lemma pick_ok:
  assumes q: "queues_ok None s" and p: "pick s = (nx, ts)"
  shows "status_of s nx = Some THREAD_READY \<or> nx = idle_thread s"
    "status_of s nx \<noteq> None" "status_of s nx \<noteq> Some THREAD_DYING" "status_of s nx \<noteq> Some THREAD_RUNNING"
    "distinct ts" "t \<in> set ts \<longleftrightarrow> t \<in> set (fifo_ready_list s) \<and> t \<noteq> nx"
    "nx = idle_thread s \<Longrightarrow> fifo_ready_list s = []"
proof -
  note q' = queues_okD[OF q]
  show a: "status_of s nx = Some THREAD_READY \<or> nx = idle_thread s"
    using p q'(4)[of nx] by (auto simp: pick_def split: list.splits)
  show "status_of s nx \<noteq> None" "status_of s nx \<noteq> Some THREAD_DYING" using a q'(5,6) by auto
  show "status_of s nx \<noteq> Some THREAD_RUNNING" using q'(2)[of nx] by simp
  show "distinct ts" using q'(3) p by (auto simp: pick_def split: list.splits)
  show "t \<in> set ts \<longleftrightarrow> t \<in> set (fifo_ready_list s) \<and> t \<noteq> nx"
    using q'(3) p by (auto simp: pick_def split: list.splits)
  show "nx = idle_thread s \<Longrightarrow> fifo_ready_list s = []"
    using q'(4)[of nx] p by (auto simp: pick_def split: list.splits)
qed

lemma schedule_eq:
  assumes s: "sinv None s" and off: "intr s = INTR_OFF"
  shows "schedule s = Some (switched s)"
proof -
  obtain nx ts where p: "pick s = (nx, ts)" by force
  have b: "base_ok s" and q: "queues_ok None s" using s by (auto simp: sinv_def)
  note pk = pick_ok[OF q p]
  have nt: "next_thread_to_run s = Some (nx, s\<lparr>fifo_ready_list := ts\<rparr>)"
    using p b by (auto simp: next_thread_to_run_def thread_schedule_fifo_def pick_def base_ok_def split: list.splits)
  have cr: "status_of s (running_thread s) \<noteq> Some THREAD_RUNNING" "running_thread s \<noteq> 0"
    using queues_okD(1,2)[OF q] b by (auto simp: base_ok_def is_thread_def)
  have nz: "is_thread s nx" using base_is_thread[OF b] pk(2) by simp
  let ?s1 = "s\<lparr>fifo_ready_list := ts, running_thread := nx\<rparr>"
  have tail: "thread_switch_tail prev ?s1 = Some (switched s)"
    if "prev = (if running_thread s = nx then 0 else running_thread s)" for prev
    using that off cr pk(2,3) by (auto simp: thread_switch_tail_def switched_def p Let_def intr_get_level_def)
  have sch: "schedule s = (if running_thread s \<noteq> nx then thread_switch_tail (running_thread s) ?s1
      else thread_switch_tail 0 (s\<lparr>fifo_ready_list := ts\<rparr>))"
    using off cr(1) nz by (simp add: schedule_def nt intr_get_level_def)
  show ?thesis
  proof (cases "running_thread s = nx")
    case True
    then have "s\<lparr>fifo_ready_list := ts\<rparr> = ?s1" by simp
    with True sch tail[of 0] show ?thesis by simp
  qed (use sch tail[of "running_thread s"] in simp)
qed


lemma switched_fields [simp]:
  "all_list (switched s) = all_list s" "idle_thread (switched s) = idle_thread s"
  "initial_thread (switched s) = initial_thread s" "running_thread (switched s) = fst (pick s)"
  "fifo_ready_list (switched s) = snd (pick s)" "intr (switched s) = intr s"
  "active_sched_policy (switched s) = active_sched_policy s"
  "in_external_intr (switched s) = in_external_intr s" "yield_on_return (switched s) = yield_on_return s"
  "semas (switched s) = semas s" "holder (switched s) = holder s" "thread_ticks (switched s) = 0"
  "cond_waiters (switched s) = cond_waiters s" "rw_count (switched s) = rw_count s"
  "ticks (switched s) = ticks s" "next_tid (switched s) = next_tid s"
  "waits_on (switched s) = waits_on s"
  by (simp_all add: switched_def Let_def waits_on_def fun_eq_iff split: prod.splits)

lemma switched_status:
  assumes "queues_ok None s" and p: "pick s = (nx, ts)"
  shows "status_of (switched s) u =
    (if u = nx then Some THREAD_RUNNING
     else if u = running_thread s \<and> status_of s u = Some THREAD_DYING \<and> u \<noteq> initial_thread s then None
     else status_of s u)"
  using pick_ok(2-4)[OF assms] by (auto simp: switched_def Let_def p)

lemma switched_kont:
  assumes "sinv None s"
  shows "kont_of (switched s) u = kont_of s u"
proof -
  have "status_of s u = Some THREAD_DYING \<Longrightarrow> kont_of s u = []"
    using assms konts_okD(6) by (auto simp: sinv_def)
  then show ?thesis by (auto simp: switched_def Let_def split: prod.splits)
qed

lemma switched_is_thread:
  assumes "base_ok s"
  shows "base_ok (switched s)"
proof -
  have f: "finite (dom (threads (switched s)))"
    by (rule finite_subset[of _ "dom (threads s)"])
      (use assms in \<open>auto simp: base_ok_def switched_def Let_def upd_def split: prod.splits if_splits\<close>)
  have "is_thread (switched s) t" if "status_of (switched s) t \<noteq> None" for t
  proof -
    from that have "status_of s t \<noteq> None"
      by (auto simp: switched_def Let_def split: prod.splits if_splits)
    with assms have "is_thread s t" by (simp add: base_is_thread)
    with that show ?thesis by (auto simp: switched_def Let_def split: prod.splits if_splits)
  qed
  with f assms show ?thesis by (simp add: base_ok_def)
qed

lemma switched_queues:
  assumes q: "queues_ok None s"
  shows "queues_ok (Some (fst (pick s))) (switched s)"
proof -
  obtain nx ts where p: "pick s = (nx, ts)" by force
  note pk = pick_ok[OF q p] and st = switched_status[OF q p] and q' = queues_okD[OF q]
  show ?thesis
  proof (rule queues_okI)
    fix t
    show "(status_of (switched s) t = Some THREAD_RUNNING) = (Some (fst (pick s)) = Some t)"
      using q'(2)[of t] by (auto simp: st p)
    show "(t \<in> set (fifo_ready_list (switched s))) =
      (status_of (switched s) t = Some THREAD_READY \<and> t \<noteq> idle_thread (switched s))"
      using pk(6)[of t] q'(4)[of t] by (auto simp: st p)
    show "(t \<in> set (all_list (switched s))) =
      (status_of (switched s) t \<noteq> None \<and> status_of (switched s) t \<noteq> Some THREAD_DYING)"
      using q'(8)[of t] pk(2,3) by (auto simp: st)
    show "t = initial_thread (switched s) \<or> Some (fst (pick s)) = None \<and> t = running_thread (switched s)"
      if "status_of (switched s) t = Some THREAD_DYING"
      using q'(9)[of t] that by (auto simp: st split: if_splits)
  qed (use pk(5) q'(5-7) in \<open>auto simp: st p\<close>)
qed

theorem schedule_kinv:
  assumes s: "sinv None s" and off: "intr s = INTR_OFF"
  shows "schedule s = Some (switched s)" "kinv (switched s)"
proof -
  show "schedule s = Some (switched s)" by (rule schedule_eq[OF s off])
  obtain nx ts where p: "pick s = (nx, ts)" by force
  have b: "base_ok s" and q: "queues_ok None s" and k: "konts_ok s" using s by (auto simp: sinv_def)
  note pk = pick_ok[OF q p] and st = switched_status[OF q p] and q' = queues_okD[OF q]
  have nx: "stopped s nx"
  proof (cases "nx = idle_thread s")
    case True
    then show ?thesis using pk(2-4) by (cases "status_of s nx") (auto simp: stopped_def intro: thread_status.exhaust)
  qed (use pk(1) in \<open>simp add: stopped_def\<close>)
  have nw: "\<not> waits_on s nx x" for x
    using pk(1) konts_okD(2,3)[OF k, of nx x] by auto
  have ok: "okk nx (nx = idle_thread s) INTR_OFF (kont_of s nx)" by (rule konts_okD(5)[OF k nx])
  have "konts_ok (switched s)"
  proof (rule konts_okI)
    fix t
    show "okk t (t = idle_thread (switched s)) INTR_OFF (kont_of (switched s) t)" if "stopped (switched s) t"
      using konts_okD(5)[OF k, of t] that by (auto simp: stopped_def st switched_kont[OF s] split: if_splits)
    show "newborn_ok (switched s) u t" if "Thread_unblock t \<in> set (kont_of (switched s) u)" for u
    proof -
      from that have p: "Thread_unblock t \<in> set (kont_of s u)" by (simp add: switched_kont[OF s])
      then have "t \<noteq> nx" using not_newborn[OF k, of nx] pk(1) by auto
      with konts_okD(7)[OF k p] show ?thesis by (simp add: newborn_ok_def st switched_kont[OF s])
    qed
    show "\<exists>u. Thread_unblock t \<in> set (kont_of (switched s) u)"
      if "status_of (switched s) t = Some THREAD_BLOCKED" "t \<noteq> idle_thread (switched s)"
        "\<forall>x. \<not> waits_on (switched s) t x"
      using konts_okD(9)[OF k, of t] that by (auto simp: st switched_kont[OF s] split: if_splits)
    show "status_of (switched s) t = Some THREAD_BLOCKED" if "waits_on (switched s) t x" for x
      using that konts_okD(2)[OF k, of t x] nw by (auto simp: st)
    show "kont_of (switched s) t = []" if "status_of (switched s) t = Some THREAD_DYING"
      using that konts_okD(6)[OF k, of t] by (auto simp: st switched_kont[OF s] split: if_splits)
    show "u = u'" if "Thread_unblock t \<in> set (kont_of (switched s) u)"
      "Thread_unblock t \<in> set (kont_of (switched s) u')" for u u'
      using that konts_okD(8)[OF k, of t u u'] by (simp add: switched_kont[OF s])
  qed (use konts_okD(1,3,4)[OF k] in \<open>auto simp: switched_kont[OF s]\<close>)
  then show "kinv (switched s)"
    using switched_queues[OF q] switched_is_thread[OF b] ok off
    by (simp add: kinv_def sinv_def p switched_kont[OF s])
qed


lemma waits_on_kontf [simp]: "waits_on (kontf f s) = waits_on s"
  and waits_on_upd [simp]: "waits_on (upd t g s) = waits_on s"
  by (simp_all add: waits_on_def fun_eq_iff)

lemma base_okI:
  assumes "base_ok s" "active_sched_policy s' = active_sched_policy s" "in_external_intr s' = in_external_intr s"
    "dom (threads s') = dom (threads s)" "\<And>t. is_thread s' t = is_thread s t"
    "\<And>t. status_of s' t = None \<longleftrightarrow> status_of s t = None"
  shows "base_ok s'"
  using assms by (simp add: base_ok_def)

lemma queues_stop:
  assumes q: "queues_ok (Some c) s" and c: "running_thread s = c"
    and st: "\<And>u. status_of s' u = (if u = c then Some st else status_of s u)"
    and f: "idle_thread s' = idle_thread s" "initial_thread s' = initial_thread s" "running_thread s' = c"
    and cases: "st = THREAD_BLOCKED \<and> fifo_ready_list s' = fifo_ready_list s \<and> all_list s' = all_list s \<or>
       st = THREAD_READY \<and> all_list s' = all_list s \<and>
         fifo_ready_list s' = fifo_ready_list s @ (if c = idle_thread s then [] else [c]) \<or>
       st = THREAD_DYING \<and> c \<noteq> idle_thread s \<and> fifo_ready_list s' = fifo_ready_list s \<and>
         all_list s' = remove1 c (all_list s)"
  shows "queues_ok None s'"
proof -
  note q' = queues_okD[OF q]
  have cr: "status_of s c = Some THREAD_RUNNING" using q'(2)[of c] by simp
  have cq: "c \<notin> set (fifo_ready_list s)" using q'(4)[of c] cr by simp
  show ?thesis
  proof (rule queues_okI)
    fix t
    show "(status_of s' t = Some THREAD_RUNNING) = (None = Some t)"
      using q'(2)[of t] cases by (auto simp: st)
    show "(t \<in> set (fifo_ready_list s')) = (status_of s' t = Some THREAD_READY \<and> t \<noteq> idle_thread s')"
      using q'(4)[of t] cases cq cr by (auto simp: st f split: if_splits)
    show "(t \<in> set (all_list s')) = (status_of s' t \<noteq> None \<and> status_of s' t \<noteq> Some THREAD_DYING)"
      using q'(8)[of t] q'(7) cases cr by (auto simp: st)
    show "t = initial_thread s' \<or> None = None \<and> t = running_thread s'" if "status_of s' t = Some THREAD_DYING"
      using q'(9)[of t] that by (auto simp: st f split: if_splits)
  qed (use q'(3,5-7) cases cq in \<open>auto simp: st f\<close>)
qed

lemma thread_current_eq: "sinv (Some (running_thread s)) s \<Longrightarrow> thread_current s = Some (running_thread s)"
  using sinv_runs(1)[of "running_thread s" s]
  by (auto simp: thread_current_def Let_def sinv_def base_is_thread)

lemma sinvD:
  assumes "sinv r s"
  shows "base_ok s" "queues_ok r s" "konts_ok s" "\<not> in_external_intr s"
  using assms by (auto simp: sinv_def base_ok_def)

text \<open>The running thread queues itself on a semaphore and blocks.\<close>

definition wait_state :: "sema \<Rightarrow> intr_level \<Rightarrow> kernel \<Rightarrow> kernel" where
  "wait_state x l s = push [Sema_down_loop x l]
     (upd_sema x (\<lambda>m. m\<lparr>waiters := waiters m @ [running_thread s]\<rparr>) s)"

lemma wait_state_simps [simp]:
  "fifo_ready_list (wait_state x l s) = fifo_ready_list s" "all_list (wait_state x l s) = all_list s"
  "idle_thread (wait_state x l s) = idle_thread s" "initial_thread (wait_state x l s) = initial_thread s"
  "running_thread (wait_state x l s) = running_thread s" "intr (wait_state x l s) = intr s"
  "in_external_intr (wait_state x l s) = in_external_intr s" "status_of (wait_state x l s) u = status_of s u"
  "active_sched_policy (wait_state x l s) = active_sched_policy s"
  "dom (threads (wait_state x l s)) = dom (threads s)" "is_thread (wait_state x l s) u = is_thread s u"
  "holder (wait_state x l s) = holder s"
  by (simp_all add: wait_state_def push_kontf upd_sema_def)

lemma waits_on_wait_state [simp]:
  "waits_on (wait_state x l s) u y \<longleftrightarrow> waits_on s u y \<or> u = running_thread s \<and> y = x"
  by (auto simp: waits_on_def wait_state_def push_kontf upd_sema_def)

lemma kont_of_wait_state [simp]:
  "kont_of (wait_state x l s) u =
     (if u = running_thread s \<and> status_of s u \<noteq> None then [Sema_down_loop x l] else []) @ kont_of s u"
  by (auto simp: wait_state_def push_kontf upd_sema_def)

lemma block_on_sema:
  assumes s: "sinv (Some (running_thread s)) s" and off: "intr s = INTR_OFF"
    and i: "running_thread s \<noteq> idle_thread s" and x: "own_sema (running_thread s) x"
    and ok: "okk (running_thread s) False l (kont_of s (running_thread s))"
  defines "s' \<equiv> set_status (running_thread s) THREAD_BLOCKED (wait_state x l s)"
  shows "thread_block (wait_state x l s) = Some (switched s')" "kinv (switched s')" "sinv None s'"
proof -
  let ?c = "running_thread s"
  note d = sinvD[OF s] and r = sinv_runs[OF s] and k = konts_okD[OF sinvD(3)[OF s]]
  have "base_ok s'" by (rule base_okI[OF d(1)]) (auto simp: s'_def)
  moreover have "queues_ok None s'"
    by (rule queues_stop[OF d(2), where st = THREAD_BLOCKED]) (use r in \<open>auto simp: s'_def\<close>)
  moreover have "konts_ok s'"
  proof (rule konts_change[OF d(3), where c = ?c])
    show "distinct (waiters (semas s' y))" for y
      using k(1)[of y] r(3)[of y] by (auto simp: s'_def wait_state_def push_kontf upd_sema_def waits_on_def)
    show "Thread_unblock ?c \<notin> set (kont_of s u)" for u
      by (rule not_newborn[OF d(3)]) (simp add: r)
  qed (use r i x ok in \<open>auto simp: s'_def\<close>)
  ultimately show sn: "sinv None s'" by (simp add: sinv_def)
  have o: "intr s' = INTR_OFF" using off by (simp add: s'_def)
  have "thread_current (wait_state x l s) = Some ?c"
    using thread_current_eq[OF s] by (auto simp: thread_current_def Let_def split: if_splits)
  then show "thread_block (wait_state x l s) = Some (switched s')"
    using schedule_kinv(1)[OF sn o] d(4) off
    by (simp add: thread_block_def intr_context_def intr_get_level_def s'_def)
  show "kinv (switched s')" by (rule schedule_kinv(2)[OF sn o])
qed


text \<open>The running thread yields: it goes to the back of the run queue, unless it is the idle thread.\<close>

definition ready_state :: "kernel \<Rightarrow> kernel" where
  "ready_state s = push [Intr_set_level (intr s)] (set_status (running_thread s) THREAD_READY
     (s\<lparr>intr := INTR_OFF, fifo_ready_list := fifo_ready_list s @
        (if running_thread s = idle_thread s then [] else [running_thread s])\<rparr>))"

lemma ready_state_simps [simp]:
  "fifo_ready_list (ready_state s) = fifo_ready_list s @
     (if running_thread s = idle_thread s then [] else [running_thread s])"
  "all_list (ready_state s) = all_list s"
  "idle_thread (ready_state s) = idle_thread s" "initial_thread (ready_state s) = initial_thread s"
  "running_thread (ready_state s) = running_thread s" "intr (ready_state s) = INTR_OFF"
  "in_external_intr (ready_state s) = in_external_intr s" "semas (ready_state s) = semas s"
  "active_sched_policy (ready_state s) = active_sched_policy s" "holder (ready_state s) = holder s"
  "dom (threads (ready_state s)) = dom (threads s)" "is_thread (ready_state s) u = is_thread s u"
  "waits_on (ready_state s) = waits_on s"
  "status_of (ready_state s) u =
     (if u = running_thread s \<and> status_of s u \<noteq> None then Some THREAD_READY else status_of s u)"
  "kont_of (ready_state s) u =
     (if u = running_thread s \<and> status_of s u \<noteq> None then [Intr_set_level (intr s)] else []) @ kont_of s u"
  by (auto simp: ready_state_def push_kontf waits_on_def fun_eq_iff)

lemma yield_ok:
  assumes s: "sinv (Some (running_thread s)) s"
    and ok: "okk (running_thread s) (running_thread s = idle_thread s) (intr s) (kont_of s (running_thread s))"
  shows "thread_yield s = Some (switched (ready_state s))" "kinv (switched (ready_state s))"
    "sinv None (ready_state s)"
proof -
  let ?c = "running_thread s" and ?s = "ready_state s"
  note d = sinvD[OF s] and r = sinv_runs[OF s] and k = konts_okD[OF sinvD(3)[OF s]]
  have "base_ok ?s" by (rule base_okI[OF d(1)]) auto
  moreover have "queues_ok None ?s"
    by (rule queues_stop[OF d(2), where st = THREAD_READY]) (use r in auto)
  moreover have "konts_ok ?s"
  proof (rule konts_change[OF d(3), where c = ?c])
    show "Thread_unblock ?c \<notin> set (kont_of s u)" for u
      by (rule not_newborn[OF d(3)]) (simp add: r)
  qed (use r ok k(1) in auto)
  ultimately show sn: "sinv None ?s" by (simp add: sinv_def)
  have "thread_yield s = schedule ?s"
    using thread_current_eq[OF s] d(1,4) r(1) base_is_thread[OF d(1), of ?c]
    by (simp add: thread_yield_def intr_context_def Let_def intr_disable_def thread_enqueue_def
      intr_get_level_def base_ok_def ready_state_def)
  then show "thread_yield s = Some (switched ?s)" by (simp add: schedule_kinv(1)[OF sn])
  show "kinv (switched ?s)" by (rule schedule_kinv(2)[OF sn]) simp
qed

text \<open>The running thread exits.\<close>

definition dying_state :: "kernel \<Rightarrow> kernel" where
  "dying_state s = set_status (running_thread s) THREAD_DYING
     (s\<lparr>intr := INTR_OFF, all_list := remove1 (running_thread s) (all_list s)\<rparr>)"

lemma exit_ok:
  assumes s: "sinv (Some (running_thread s)) s" and ks: "kont_of s (running_thread s) = []"
    and i: "running_thread s \<noteq> idle_thread s"
  shows "thread_exit s = Some (switched (dying_state s))" "kinv (switched (dying_state s))"
    "sinv None (dying_state s)"
proof -
  let ?c = "running_thread s" and ?s = "dying_state s"
  note d = sinvD[OF s] and r = sinv_runs[OF s] and k = konts_okD[OF sinvD(3)[OF s]]
  have w: "waits_on ?s = waits_on s" by (simp add: dying_state_def waits_on_def fun_eq_iff)
  have "base_ok ?s" by (rule base_okI[OF d(1)]) (auto simp: dying_state_def)
  moreover have "queues_ok None ?s"
    by (rule queues_stop[OF d(2), where st = THREAD_DYING]) (use r i in \<open>auto simp: dying_state_def\<close>)
  moreover have "konts_ok ?s"
  proof (rule konts_change[OF d(3), where c = ?c])
    show "Thread_unblock ?c \<notin> set (kont_of s u)" for u
      by (rule not_newborn[OF d(3)]) (simp add: r)
    show "distinct (waiters (semas ?s x))" for x using k(1)[of x] by (simp add: dying_state_def)
  qed (use r ks in \<open>auto simp: w dying_state_def stopped_def\<close>)
  ultimately show sn: "sinv None ?s" by (simp add: sinv_def)
  have off: "intr ?s = INTR_OFF" by (simp add: dying_state_def)
  have "thread_current (intr_disable s) = Some ?c"
    using thread_current_eq[OF s] by (auto simp: thread_current_def intr_disable_def Let_def split: if_splits)
  then have "thread_exit s = schedule ?s"
    using d(4) r(1) queues_okD(8)[OF d(2), of ?c]
    by (simp add: thread_exit_def intr_context_def Let_def intr_disable_def dying_state_def)
  then show "thread_exit s = Some (switched ?s)" by (simp add: schedule_kinv(1)[OF sn off])
  show "kinv (switched ?s)" by (rule schedule_kinv(2)[OF sn off])
qed

text \<open>The idle thread blocks.\<close>

lemma idle_block_ok:
  assumes s: "sinv (Some (running_thread s)) s" and off: "intr s = INTR_OFF"
    and i: "running_thread s = idle_thread s"
    and ok: "okk (running_thread s) True INTR_OFF (kont_of s (running_thread s))"
  defines "s' \<equiv> set_status (running_thread s) THREAD_BLOCKED s"
  shows "thread_block s = Some (switched s')" "kinv (switched s')" "sinv None s'"
proof -
  let ?c = "running_thread s"
  note d = sinvD[OF s] and r = sinv_runs[OF s] and k = konts_okD[OF sinvD(3)[OF s]]
  have "base_ok s'" by (rule base_okI[OF d(1)]) (auto simp: s'_def)
  moreover have "queues_ok None s'"
    by (rule queues_stop[OF d(2), where st = THREAD_BLOCKED]) (use r in \<open>auto simp: s'_def\<close>)
  moreover have "konts_ok s'"
  proof (rule konts_change[OF d(3), where c = ?c])
    show "Thread_unblock ?c \<notin> set (kont_of s u)" for u
      by (rule not_newborn[OF d(3)]) (simp add: r)
  qed (use r i ok k(1) in \<open>auto simp: s'_def\<close>)
  ultimately show sn: "sinv None s'" by (simp add: sinv_def)
  have o: "intr s' = INTR_OFF" using off by (simp add: s'_def)
  show "thread_block s = Some (switched s')"
    using schedule_kinv(1)[OF sn o] d(4) off thread_current_eq[OF s]
    by (simp add: thread_block_def intr_context_def intr_get_level_def s'_def)
  show "kinv (switched s')" by (rule schedule_kinv(2)[OF sn o])
qed

section \<open>Waking a thread\<close>

definition woken_state :: "sema \<Rightarrow> kernel \<Rightarrow> kernel" where
  "woken_state x s = (case waiters (semas s x) of [] \<Rightarrow> s | t # ts \<Rightarrow>
     set_status t THREAD_READY ((upd_sema x (\<lambda>m. m\<lparr>waiters := ts\<rparr>) s)
       \<lparr>fifo_ready_list := fifo_ready_list s @ [t]\<rparr>))"

lemma woken_state_simps [simp]:
  "all_list (woken_state x s) = all_list s" "intr (woken_state x s) = intr s"
  "idle_thread (woken_state x s) = idle_thread s" "initial_thread (woken_state x s) = initial_thread s"
  "running_thread (woken_state x s) = running_thread s" "holder (woken_state x s) = holder s"
  "in_external_intr (woken_state x s) = in_external_intr s"
  "active_sched_policy (woken_state x s) = active_sched_policy s"
  "dom (threads (woken_state x s)) = dom (threads s)" "is_thread (woken_state x s) u = is_thread s u"
  "kont_of (woken_state x s) u = kont_of s u"
  by (simp_all add: woken_state_def upd_sema_def split: list.splits)

lemma woken_waiters:
  "waiters (semas (woken_state x s) y) = (if y = x then tl (waiters (semas s x)) else waiters (semas s y))"
  by (simp add: woken_state_def upd_sema_def split: list.splits)

lemma woken_value: "sema_value (semas (woken_state x s) y) = sema_value (semas s y)"
  by (simp add: woken_state_def upd_sema_def split: list.splits)

lemma wake_queues:
  assumes q: "queues_ok r s" and b: "status_of s t = Some THREAD_BLOCKED" and i: "t \<noteq> idle_thread s"
    and st: "\<And>u. status_of s' u = (if u = t then Some THREAD_READY else status_of s u)"
    and f: "fifo_ready_list s' = fifo_ready_list s @ [t]" "all_list s' = all_list s"
      "idle_thread s' = idle_thread s" "initial_thread s' = initial_thread s" "running_thread s' = running_thread s"
  shows "queues_ok r s'"
proof -
  note q' = queues_okD[OF q]
  show ?thesis
  proof (rule queues_okI)
    fix u
    show "(status_of s' u = Some THREAD_RUNNING) = (r = Some u)" using q'(2)[of u] b by (auto simp: st)
    show "(u \<in> set (fifo_ready_list s')) = (status_of s' u = Some THREAD_READY \<and> u \<noteq> idle_thread s')"
      using q'(4)[of u] i by (auto simp: st f)
    show "(u \<in> set (all_list s')) = (status_of s' u \<noteq> None \<and> status_of s' u \<noteq> Some THREAD_DYING)"
      using q'(8)[of u] b by (auto simp: st f)
    show "u = initial_thread s' \<or> r = None \<and> u = running_thread s'" if "status_of s' u = Some THREAD_DYING"
      using q'(9)[of u] that by (auto simp: st f split: if_splits)
  qed (use q'(1,3,5-7) q'(4)[of t] b i in \<open>auto simp: st f\<close>)
qed

lemma wake_ok:
  assumes s: "sinv r s"
  shows "sinv r (woken_state x s)"
proof (cases "waiters (semas s x)")
  case Nil
  then show ?thesis using s by (simp add: woken_state_def)
next
  case (Cons t ts)
  let ?s = "woken_state x s"
  note d = sinvD[OF s] and k = konts_okD[OF sinvD(3)[OF s]]
  have w: "waits_on s t x" by (simp add: waits_on_def Cons)
  have tb: "status_of s t = Some THREAD_BLOCKED" by (rule k(2)[OF w])
  obtain l ks where kt: "kont_of s t = Sema_down_loop x l # ks" using k(4)[OF w] by auto
  have st: "status_of ?s u = (if u = t then Some THREAD_READY else status_of s u)" for u
    using tb by (simp add: woken_state_def Cons upd_sema_def)
  have wt: "waits_on ?s u y \<longleftrightarrow> waits_on s u y \<and> \<not> (u = t \<and> y = x)" for u y
    using k(1)[of x] by (auto simp: waits_on_def woken_waiters Cons)
  have nw: "\<not> waits_on ?s t y" for y
    using k(4)[of t y] kt by (auto simp: wt)
  have "base_ok ?s" by (rule base_okI[OF d(1)]) (auto simp: st tb)
  moreover have "queues_ok r ?s"
    by (rule wake_queues[OF d(2) tb k(3)[OF w]]) (simp_all add: st, simp_all add: woken_state_def Cons upd_sema_def)
  moreover have "konts_ok ?s"
  proof (rule konts_change[OF d(3), where c = t])
    show "Thread_unblock t \<notin> set (kont_of s u)" for u
      by (rule not_newborn[OF d(3)]) (use w in blast)
    show "distinct (waiters (semas ?s y))" for y using k(1)[of y] by (auto simp: woken_waiters distinct_tl)
    have "stopped s t" using tb w by (auto simp: stopped_def)
    then show "okk t (t = idle_thread s) INTR_OFF (kont_of ?s t)" using k(5)[of t] by simp
  qed (use nw in \<open>auto simp: st wt\<close>)
  ultimately show ?thesis by (simp add: sinv_def)
qed


lemma sema_up_eq:
  assumes s: "sinv r (s\<lparr>in_external_intr := False\<rparr>)" and l: "intr s = INTR_OFF \<or> \<not> in_external_intr s"
  shows "sema_up x s = Some (upd_sema x (\<lambda>m. m\<lparr>sema_value := sema_value m + 1\<rparr>) (woken_state x s))"
proof (cases "waiters (semas s x)")
  case Nil
  then show ?thesis using l
    by (auto simp: sema_up_def Let_def woken_state_def intr_set_level_def intr_enable_def intr_disable_def
      intr_get_level_def intr_context_def upd_sema_def) (cases "intr s", auto)+
next
  case (Cons t ts)
  note d = sinvD[OF s] and k = konts_okD[OF sinvD(3)[OF s]]
  have b: "status_of s t = Some THREAD_BLOCKED" using k(2)[of t x] by (simp add: waits_on_def Cons)
  have th: "is_thread s t" using base_is_thread[OF d(1), of t] b by simp
  have f: "active_sched_policy s = SCHED_FIFO" using d(1) by (simp add: base_ok_def)
  show ?thesis using l b th f
    by (cases "intr s") (auto simp: sema_up_def Let_def woken_state_def intr_set_level_def intr_enable_def
      intr_disable_def intr_get_level_def intr_context_def upd_sema_def Cons thread_unblock_def
      thread_enqueue_def upd_def)
qed


section \<open>One action\<close>

text \<open>The assertions that a caller can violate: the ownership of locks, and the range of a priority.\<close>

fun misuse :: "action \<Rightarrow> kernel \<Rightarrow> bool" where
  "misuse (Lock_acquire l) s = (holder s l = running_thread s)"
| "misuse (Lock_try_acquire l) s = (holder s l = running_thread s)"
| "misuse (Lock_release l) s = (holder s l \<noteq> running_thread s)"
| "misuse (Cond_wait c l) s = (holder s l \<noteq> running_thread s)"
| "misuse (Cond_signal c l) s = (holder s l \<noteq> running_thread s)"
| "misuse (Init_thread t nm prio) s = (\<not> (PRI_MIN \<le> prio \<and> prio \<le> PRI_MAX))"
| "misuse _ s = False"

text \<open>\<open>good a s\<close>: the running thread can do \<open>a\<close>, and the invariant holds afterwards.\<close>

definition good :: "action \<Rightarrow> kernel \<Rightarrow> bool" where
  "good a s \<longleftrightarrow> misuse a s \<and> exec a s = None \<or> (\<exists>s'. \<not> misuse a s \<and> exec a s = Some s' \<and> kinv s')"

lemma goodI: "exec a s = Some s' \<Longrightarrow> \<not> misuse a s \<Longrightarrow> kinv s' \<Longrightarrow> good a s"
  by (auto simp: good_def)

lemma kont_of_push:
  "sinv (Some (running_thread s)) s \<Longrightarrow> kont_of (push ks s) (running_thread s) = ks @ kont_of s (running_thread s)"
  by (simp add: push_kontf sinv_runs)

lemma kinv_push:
  assumes s: "sinv (Some (running_thread s)) s"
    and "okk (running_thread s) (running_thread s = idle_thread s) (intr s) (ks @ kont_of s (running_thread s))"
    and "\<And>t. Thread_unblock t \<notin> set ks" "\<And>t f. Alloc_frames t f \<notin> set ks"
  shows "kinv (push ks s)"
  using assms(2) sinv_push[OF s assms(3,4)] kont_of_push[OF s]
  by (simp add: kinv_def) (simp add: push_kontf)

lemma push_nil [simp]: "push [] s = s"
proof -
  have "map_option (kont_update ((@) [])) (threads s c) = threads s c" for c by (cases "threads s c") simp_all
  then show ?thesis unfolding push_def upd_def by simp
qed

lemmas kinv_nil = kinv_push [where ks = "[]", simplified]

lemma sinv_sema_value:
  assumes "\<And>m. waiters (f m) = waiters m"
  shows "sinv r (upd_sema x f s) = sinv r s"
proof -
  have "waiters (semas (upd_sema x f s) y) = waiters (semas s y)" for y by (simp add: upd_sema_def assms)
  then show ?thesis
    by (simp add: sinv_def base_ok_def queues_ok_def konts_ok_def newborn_ok_def waits_on_def stopped_def)
      (simp add: upd_sema_def)
qed

lemma upd_sema_fields [simp]:
  "fifo_ready_list (upd_sema x f s) = fifo_ready_list s" "all_list (upd_sema x f s) = all_list s"
  "idle_thread (upd_sema x f s) = idle_thread s" "initial_thread (upd_sema x f s) = initial_thread s"
  "running_thread (upd_sema x f s) = running_thread s" "intr (upd_sema x f s) = intr s"
  "in_external_intr (upd_sema x f s) = in_external_intr s" "status_of (upd_sema x f s) = status_of s"
  "kont_of (upd_sema x f s) = kont_of s" "holder (upd_sema x f s) = holder s"
  "yield_on_return (upd_sema x f s) = yield_on_return s" "cond_waiters (upd_sema x f s) = cond_waiters s"
  "threads (upd_sema x f s) = threads s"
  by (simp_all add: upd_sema_def)

lemma intr_set_level_eq:
  "\<not> in_external_intr s \<Longrightarrow> intr_set_level l s = Some (s\<lparr>intr := l\<rparr>)"
  by (cases l) (simp_all add: intr_set_level_def intr_enable_def intr_disable_def intr_context_def)

lemma sema_down_loop_ok:
  assumes s: "sinv (Some (running_thread s)) s" and off: "intr s = INTR_OFF"
    and ok: "running_thread s \<noteq> idle_thread s" "own_sema (running_thread s) x"
      "okk (running_thread s) False l (kont_of s (running_thread s))"
  shows "\<exists>s'. sema_down_loop x l s = Some s' \<and> kinv s'"
proof (cases "sema_value (semas s x) = 0")
  case True
  then have "sema_down_loop x l s = thread_block (wait_state x l s)"
    by (simp add: sema_down_loop_def thread_current_eq[OF s] wait_state_def)
  then show ?thesis using block_on_sema[OF s off ok] by auto
next
  case False
  let ?s = "(upd_sema x (\<lambda>m. m\<lparr>sema_value := sema_value m - 1\<rparr>) s)\<lparr>intr := l\<rparr>"
  have "sema_down_loop x l s = Some ?s"
    using False sinvD(4)[OF s] by (simp add: sema_down_loop_def intr_set_level_eq)
  moreover have "kinv ?s"
    by (rule kinv_nil) (use s ok in \<open>simp_all add: sinv_sema_value\<close>)
  ultimately show ?thesis by blast
qed

lemma sema_down_ok:
  assumes s: "sinv (Some (running_thread s)) s"
    and ok: "running_thread s \<noteq> idle_thread s" "own_sema (running_thread s) x"
      "okk (running_thread s) False (intr s) (kont_of s (running_thread s))"
  shows "\<exists>s'. sema_down x s = Some s' \<and> kinv s'"
  using sema_down_loop_ok[of "s\<lparr>intr := INTR_OFF\<rparr>" x "intr s"] assms sinvD(4)[OF s]
  by (simp add: sema_down_def intr_context_def intr_get_level_def intr_disable_def)

lemma sema_up_ok:
  assumes s: "sinv (Some (running_thread s)) s"
    and ok: "okk (running_thread s) (running_thread s = idle_thread s) (intr s) (kont_of s (running_thread s))"
  shows "\<exists>s'. sema_up x s = Some s' \<and> kinv s'"
proof -
  let ?s = "upd_sema x (\<lambda>m. m\<lparr>sema_value := sema_value m + 1\<rparr>) (woken_state x s)"
  have "s\<lparr>in_external_intr := False\<rparr> = s" using sinvD(4)[OF s] by (cases s) simp
  then have "sinv (Some (running_thread s)) (s\<lparr>in_external_intr := False\<rparr>)" using s by (subst \<open>_ = s\<close>)
  then have "sema_up x s = Some ?s" using sema_up_eq sinvD(4)[OF s] by blast
  moreover have "kinv ?s"
    by (rule kinv_nil) (use wake_ok[OF s] ok in \<open>simp_all add: sinv_sema_value\<close>)
  ultimately show ?thesis by blast
qed

lemma held_eq:
  "sinv (Some (running_thread s)) s \<Longrightarrow>
     lock_held_by_current_thread l s = Some (holder s l = running_thread s)"
  by (simp add: lock_held_by_current_thread_def thread_current_eq)

lemma waiter_sema_free:
  assumes "sinv (Some c) s" shows "waiters (semas s (Waiter_sema c)) = []"
proof (rule ccontr)
  assume "waiters (semas s (Waiter_sema c)) \<noteq> []"
  then obtain t where w: "waits_on s t (Waiter_sema c)" by (cases "waiters (semas s (Waiter_sema c))") (auto simp: waits_on_def)
  note k = konts_okD[OF sinvD(3)[OF assms]]
  have "stopped s t" using k(2)[OF w] w by (auto simp: stopped_def)
  with k(4)[OF w] k(5)[of t] have "own_sema t (Waiter_sema c)" by auto
  then have "t = c" by (simp add: own_sema_def)
  with w sinv_runs(3)[OF assms] show False by simp
qed


lemma okk_frames: "okk t i INTR_OFF (Intr_set_level l # ks) = okk t i l ks" by (rule okk.simps)

text \<open>Every action of a stack that passes \<open>okk\<close>, but for the two that complete a new thread.\<close>

lemma exec_off:
  assumes s: "sinv (Some (running_thread s)) s" and l: "intr s = INTR_OFF"
    and ok: "okk (running_thread s) (running_thread s = idle_thread s) INTR_OFF (a # kont_of s (running_thread s))"
  shows "good a s"
proof -
  have n: "sinv (Some (running_thread s)) (s\<lparr>intr := l\<rparr>)" for l using s by simp
  have set: "kinv (s\<lparr>intr := l\<rparr>)" if "okk (running_thread s) (running_thread s = idle_thread s) l (kont_of s (running_thread s))" for l
    by (rule kinv_nil) (use that s in simp_all)
  from ok show ?thesis
  proof (cases a)
    case (Intr_set_level l)
    with ok set[of l] sinvD(4)[OF s] show ?thesis by (auto simp: good_def intr_set_level_eq)
  next
    case (Iret l)
    with ok set[of l] show ?thesis by (auto simp: good_def)
  next
    case (Sema_down_loop x l)
    with ok sema_down_loop_ok[OF s \<open>intr s = INTR_OFF\<close>, of x l] show ?thesis by (auto simp: good_def)
  next
    case Idle_block
    with ok idle_block_ok[OF s \<open>intr s = INTR_OFF\<close>] show ?thesis by (auto simp: good_def)
  qed auto
qed

lemma good_push:
  assumes "exec a s = (if misuse a s then None else Some (push ks s'))" "sinv (Some (running_thread s')) s'"
    and "okk (running_thread s') (running_thread s' = idle_thread s') (intr s') (ks @ kont_of s' (running_thread s'))"
    and "\<And>t. Thread_unblock t \<notin> set ks" "\<And>t f. Alloc_frames t f \<notin> set ks"
  shows "good a s"
  using kinv_push[OF assms(2-5)] assms(1) by (auto simp: good_def)

lemmas good_nil = good_push [where ks = "[]", simplified]

text \<open>\<open>user_ok s\<close>: a thread other than the idle thread runs, with interrupts on.\<close>

definition user_ok :: "kernel \<Rightarrow> bool" where
  "user_ok s \<longleftrightarrow> sinv (Some (running_thread s)) s \<and> intr s = INTR_ON \<and>
     running_thread s \<noteq> idle_thread s \<and> okk (running_thread s) False INTR_ON (kont_of s (running_thread s))"

lemma user_okD:
  assumes "user_ok s"
  shows "sinv (Some (running_thread s)) s" "intr s = INTR_ON" "running_thread s \<noteq> idle_thread s"
    "okk (running_thread s) False INTR_ON (kont_of s (running_thread s))" "\<not> in_external_intr s"
    "thread_current s = Some (running_thread s)"
    "lock_held_by_current_thread l s = Some (holder s l = running_thread s)"
  using assms by (auto simp: user_ok_def sinvD thread_current_eq held_eq)

text \<open>An action that neither sleeps nor wakes another thread updates some data and puts further
  actions on the stack: \<open>effect a s\<close> gives both.\<close>

fun effect :: "action \<Rightarrow> kernel \<Rightarrow> (action list \<times> kernel) option" where
  "effect (Sema_try_down x) s = (let b = sema_value (semas s x) > 0 in
     Some ([], upd (running_thread s) (ret_update (\<lambda>_. b))
       (if b then upd_sema x (\<lambda>m. m\<lparr>sema_value := sema_value m - 1\<rparr>) s else s)))"
| "effect (Lock_acquire l) s = Some ([Sema_down (Lock_sema l), Set_holder l], s)"
| "effect (Lock_try_acquire l) s = Some ([Sema_try_down (Lock_sema l), Set_holder_if l], s)"
| "effect (Lock_release l) s = Some ([Sema_up (Lock_sema l)], s\<lparr>holder := (holder s)(l := 0)\<rparr>)"
| "effect (Set_holder l) s = Some ([], s\<lparr>holder := (holder s)(l := running_thread s)\<rparr>)"
| "effect (Set_holder_if l) s = Some ([], if map_option ret (threads s (running_thread s)) = Some True
     then s\<lparr>holder := (holder s)(l := running_thread s)\<rparr> else s)"
| "effect (Cond_wait c l) s = (let cur = running_thread s in
     Some ([Lock_release l, Sema_down (Waiter_sema cur), Lock_acquire l],
       (upd_sema (Waiter_sema cur) (\<lambda>m. m\<lparr>sema_value := 0\<rparr>) s)
         \<lparr>cond_waiters := (cond_waiters s)(c := cond_waiters s c @ [cur])\<rparr>))"
| "effect (Cond_signal c l) s = Some (case cond_waiters s c of [] \<Rightarrow> ([], s)
     | w # ws \<Rightarrow> ([Sema_up (Waiter_sema w)], s\<lparr>cond_waiters := (cond_waiters s)(c := ws)\<rparr>))"
| "effect (Cond_broadcast c l) s =
     Some (if cond_waiters s c = [] then [] else [Cond_signal c l, Cond_broadcast c l], s)"
| "effect (Rw_add r c d) s = Some ([], rw_add r c d s)"
| "effect (Rw_read_loop r) s = Some (if rw_count s r AW + rw_count s r WW > 0
     then [Rw_add r WR 1, Cond_wait (Rw_read r) (Rw_guard r), Rw_add r WR (-1), Rw_read_loop r]
     else [Rw_add r AR 1], s)"
| "effect (Rw_write_loop r) s = Some (if rw_count s r AR + rw_count s r AW > 0
     then [Rw_add r WW 1, Cond_wait (Rw_write r) (Rw_guard r), Rw_add r WW (-1), Rw_write_loop r]
     else [Rw_add r AW 1], s)"
| "effect (Rw_released_read r) s = Some (if rw_count s r AR = 0 \<and> rw_count s r WW > 0
     then [Cond_signal (Rw_write r) (Rw_guard r)] else [], s)"
| "effect (Rw_released_write r) s = Some (if rw_count s r WW > 0 then [Cond_signal (Rw_write r) (Rw_guard r)]
     else if rw_count s r WR > 0 then [Cond_broadcast (Rw_read r) (Rw_guard r)] else [], s)"
| "effect (Take_tid t) s = Some ([], (upd t (tid_update (\<lambda>_. next_tid s)) s)\<lparr>next_tid := next_tid s + 1\<rparr>)"
| "effect (Timer_sleep d) s = Some (if 0 <s d then [Thread_yield, Timer_sleep_loop (ticks s) d] else [], s)"
| "effect (Timer_sleep_loop st d) s =
     Some (if (ticks s - st) <s d then [Thread_yield, Timer_sleep_loop st d] else [], s)"
| "effect _ s = None"

lemma waiter_sema_reset:
  assumes "sinv (Some c) s"
  shows "sema_init (Waiter_sema c) 0 s = upd_sema (Waiter_sema c) (\<lambda>m. m\<lparr>sema_value := 0\<rparr>) s"
proof -
  have "\<lparr>sema_value = 0, waiters = []\<rparr> = (semas s (Waiter_sema c))\<lparr>sema_value := 0\<rparr>"
    using waiter_sema_free[OF assms] by (cases "semas s (Waiter_sema c)") simp
  then show ?thesis by (simp add: sema_init_def upd_sema_def)
qed

lemma timer_ticks_eq: "\<not> in_external_intr s \<Longrightarrow> timer_ticks s = Some (ticks s, s)"
  by (simp add: timer_ticks_def Let_def intr_set_level_eq intr_disable_def intr_get_level_def)

lemma sema_try_down_eq:
  "\<not> in_external_intr s \<Longrightarrow> sema_try_down x s = Some (if sema_value (semas s x) > 0
     then (True, upd_sema x (\<lambda>m. m\<lparr>sema_value := sema_value m - 1\<rparr>) s) else (False, s))"
  by (simp add: sema_try_down_def Let_def intr_set_level_eq intr_disable_def intr_get_level_def upd_sema_def)

lemma exec_effect:
  assumes u: "user_ok s" and e: "effect a s = Some (ks, s')"
  shows "exec a s = (if misuse a s then None else Some (push ks s'))"
  using e user_okD(1-3,5-7)[OF u] waiter_sema_reset[OF user_okD(1)[OF u]]
  by (cases a)
    (auto simp: sema_try_down_eq lock_acquire_def lock_try_acquire_def lock_release_def set_holder_def
      cond_wait_def cond_signal_def cond_broadcast_def rw_read_loop_def rw_write_loop_def
      rw_released_read_def rw_released_write_def take_tid_def timer_sleep_def timer_ticks_eq
      timer_sleep_loop_def timer_elapsed_def intr_get_level_def intr_context_def Let_def split: list.splits)

lemma effect_sinv:
  assumes "sinv r s" "effect a s = Some (ks, s')"
  shows "sinv r s'"
  using assms by (cases a) (auto simp: Let_def sinv_upd sinv_sema_value rw_add_def split: list.splits if_splits)

lemma effect_kont:
  assumes "effect a s = Some (ks, s')"
  shows "kont_of s' = kont_of s" "running_thread s' = running_thread s" "idle_thread s' = idle_thread s"
    "intr s' = intr s" "status_of s' = status_of s"
  using assms
  by (cases a; auto simp: Let_def rw_add_def kont_of_upd_same status_of_upd_same split: list.splits if_splits)+

lemma effect_okk:
  assumes "effect a s = Some (ks, s')" "okk (running_thread s) False INTR_ON ks'"
  shows "okk (running_thread s) False INTR_ON (ks @ ks')"
  using assms by (cases a) (auto simp: Let_def plain_def own_sema_def split: list.splits if_splits)

lemma effect_no_birth:
  assumes "effect a s = Some (ks, s')"
  shows "Thread_unblock t \<notin> set ks" "Alloc_frames t f \<notin> set ks"
  using assms by (cases a; auto simp: Let_def split: list.splits if_splits)+

lemma good_effect:
  assumes u: "user_ok s" and e: "effect a s = Some (ks, s')"
  shows "good a s"
  using user_okD(1-4)[OF u] effect_sinv[OF _ e] effect_okk[OF e] effect_no_birth[OF e]
  by (intro good_push[OF exec_effect[OF u e]]) (simp_all add: effect_kont[OF e])

lemma exec_on:
  assumes s: "sinv (Some (running_thread s)) s" and on: "intr s = INTR_ON"
    and ok: "okk (running_thread s) (running_thread s = idle_thread s) INTR_ON (a # kont_of s (running_thread s))"
    and a: "\<And>t. a \<noteq> Thread_unblock t" "\<And>t f. a \<noteq> Alloc_frames t f"
  shows "good a s"
proof (cases "a = Idle_loop")
  case True
  with ok have i: "running_thread s = idle_thread s" "kont_of s (running_thread s) = []" by auto
  have "kinv (idle_loop s)" unfolding idle_loop_def intr_disable_def
    by (rule kinv_push) (use s i in auto)
  with True show ?thesis by (simp add: good_def)
next
  case False
  let ?c = "running_thread s"
  from ok False have i: "?c \<noteq> idle_thread s" and pl: "plain ?c a (kont_of s ?c)"
    and k: "okk ?c False INTR_ON (kont_of s ?c)" by auto
  then have u: "user_ok s" using s on by (simp add: user_ok_def)
  show ?thesis
  proof (cases "effect a s")
    case None
    with pl a False show ?thesis
      using sema_down_ok[OF s i] sema_up_ok[OF s] yield_ok[OF s] exit_ok[OF s] k i on
      by (cases a) (auto simp: plain_def good_def Let_def)
  next
    case (Some p)
    then show ?thesis using good_effect[OF u] by (cases p) simp
  qed
qed


section \<open>Creating a thread\<close>

lemma kont_of_pop:
  "status_of s (running_thread s) \<noteq> None \<Longrightarrow>
     kont_of (pop s) u = (if u = running_thread s then tl (kont_of s u) else kont_of s u)"
  by (simp add: pop_kontf)

lemma pop_fields [simp]:
  "status_of (pop s) = status_of s" "is_thread (pop s) = is_thread s" "waits_on (pop s) = waits_on s"
  "fifo_ready_list (pop s) = fifo_ready_list s" "all_list (pop s) = all_list s"
  "idle_thread (pop s) = idle_thread s" "initial_thread (pop s) = initial_thread s"
  "running_thread (pop s) = running_thread s" "active_sched_policy (pop s) = active_sched_policy s"
  "intr (pop s) = intr s" "in_external_intr (pop s) = in_external_intr s" "semas (pop s) = semas s"
  "holder (pop s) = holder s" "cond_waiters (pop s) = cond_waiters s" "rw_count (pop s) = rw_count s"
  "dom (threads (pop s)) = dom (threads s)"
  by (simp_all add: pop_kontf fun_eq_iff)

lemma queues_same:
  assumes "queues_ok r s" "status_of s' = status_of s" "fifo_ready_list s' = fifo_ready_list s"
    "all_list s' = all_list s" "idle_thread s' = idle_thread s" "initial_thread s' = initial_thread s"
    "running_thread s' = running_thread s"
  shows "queues_ok r s'"
  using assms by (simp add: queues_ok_def)

lemma kinvD:
  assumes "kinv s"
  shows "sinv (Some (running_thread s)) s"
    "okk (running_thread s) (running_thread s = idle_thread s) (intr s) (kont_of s (running_thread s))"
    "status_of s (running_thread s) = Some THREAD_RUNNING"
  using assms by (auto simp: kinv_def sinv_runs)

lemma okk_birth:
  "okk c i l (Thread_unblock t # ks) \<longleftrightarrow> l = INTR_ON \<and> \<not> i \<and> ks = []"
  "okk c i l (Alloc_frames t f # ks) \<longleftrightarrow> l = INTR_ON \<and> \<not> i \<and> f = Client_func \<and> ks = [Thread_unblock t]"
  by (cases l; auto simp: plain_def)+

lemma upd_upd: "upd t f (upd t g s) = upd t (f \<circ> g) s"
  by (simp add: upd_def option.map_comp)

text \<open>\<^verbatim>\<open>thread_create\<close> puts the frames of a new thread on its stack, ...\<close>

lemma good_Alloc_frames:
  assumes s: "kinv s" and k: "kont_of s (running_thread s) = Alloc_frames t f # ks"
  shows "good (Alloc_frames t f) (pop s)"
proof -
  let ?c = "running_thread s"
  from kinvD(2)[OF s] k have l: "intr s = INTR_ON" "?c \<noteq> idle_thread s" "f = Client_func" "ks = [Thread_unblock t]"
    by (simp_all add: okk_birth)
  note d = sinvD[OF kinvD(1)[OF s]] and r = kinvD(3)[OF s] and ko = konts_okD[OF sinvD(3)[OF kinvD(1)[OF s]]]
  have p: "Thread_unblock t \<in> set (kont_of s ?c)" using k l by simp
  have nb: "newborn_ok s ?c t" by (rule ko(7)[OF p])
  then have t: "status_of s t = Some THREAD_BLOCKED" "kont_of s t = []" "t \<noteq> ?c" "is_thread s t" "\<not> stopped s t"
    using k l r ko(4)[of t] base_is_thread[OF d(1), of t] by (auto simp: newborn_ok_def stopped_def)
  define s' where "s' = upd t (kont_update (\<lambda>_. [Intr_set_level INTR_ON]) \<circ>
    stack_update (\<lambda>sp. sp - 28) \<circ> stack_update (\<lambda>sp. sp - 4) \<circ> stack_update (\<lambda>sp. sp - 12)) (pop s)"
  have e: "exec (Alloc_frames t f) (pop s) = Some s'"
    using t(4) by (simp add: alloc_frames_def alloc_frame_def is_thread_upd s'_def upd_upd
      comp_def kernel_thread_def l)
  have st: "status_of s' = status_of s" by (simp add: s'_def status_of_upd_same comp_def)
  have it: "is_thread s' u = is_thread s u" for u by (simp add: s'_def is_thread_upd)
  obtain th where "threads (pop s) t = Some th" using t(1,3) by (auto simp: status_of_def pop_def upd_def)
  then have kn: "kont_of s' u = (if u = t then [Intr_set_level INTR_ON] else if u = ?c then [Thread_unblock t] else kont_of s u)" for u
    using t r k l by (simp add: s'_def kont_of_upd kont_of_pop)
  have w: "waits_on s' = waits_on s" by (simp add: s'_def)
  have f: "running_thread s' = ?c" "idle_thread s' = idle_thread s" "intr s' = INTR_ON" "semas s' = semas s"
    using l by (simp_all add: s'_def)
  have tu: "Thread_unblock v \<in> set (kont_of s' u) \<longleftrightarrow> Thread_unblock v \<in> set (kont_of s u)" for u v
    using k l t by (auto simp: kn)
  have "konts_ok s'"
  proof (rule konts_okI)
    show "newborn_ok s' u v" if "Thread_unblock v \<in> set (kont_of s' u)" for u v
    proof (cases "v = t")
      case True
      with that ko(8)[OF p, of u] have "u = ?c" by (simp add: tu)
      with True nb t show ?thesis by (simp add: newborn_ok_def kn st f)
    next
      case False
      with that have v: "Thread_unblock v \<in> set (kont_of s u)" "u \<noteq> ?c" "u \<noteq> t"
        using k l t by (auto simp: tu)
      with ko(7)[OF v(1)] r False show ?thesis by (auto simp: newborn_ok_def st kn f)
    qed
    show "okk u (u = idle_thread s') INTR_OFF (kont_of s' u)" if "stopped s' u" for u
    proof -
      from that have "stopped s u" by (simp add: stopped_def st w f)
      with t r ko(5)[of u] show ?thesis by (auto simp: kn stopped_def f)
    qed
    show "\<exists>l ks. kont_of s' u = Sema_down_loop x l # ks" if "waits_on s' u x" for u x
      using that ko(2,4)[of u x] t r by (auto simp: kn w)
    show "u = u'" if "Thread_unblock v \<in> set (kont_of s' u)" "Thread_unblock v \<in> set (kont_of s' u')" for u u' v
      using that ko(8)[of v u u'] by (simp add: tu)
    show "\<exists>u. Thread_unblock v \<in> set (kont_of s' u)" if "status_of s' v = Some THREAD_BLOCKED"
      "v \<noteq> idle_thread s'" "\<forall>x. \<not> waits_on s' v x" for v
      using that ko(9)[of v] by (simp add: st tu w f)
    show "kont_of s' u = []" if "status_of s' u = Some THREAD_DYING" for u
      using that ko(6)[of u] t r by (auto simp: st kn)
  qed (use ko(1-3) in \<open>auto simp: st w f\<close>)
  moreover have "base_ok s'" by (rule base_okI[OF d(1)]) (simp_all add: st it, simp_all add: s'_def)
  moreover have "queues_ok (Some ?c) s'" by (rule queues_same[OF d(2)]) (simp_all add: st, simp_all add: s'_def)
  ultimately have "kinv s'" using l t(3) by (simp add: kinv_def sinv_def f kn plain_def)
  with e show ?thesis by (simp add: good_def)
qed


text \<open>... and makes it ready.\<close>

lemma good_Thread_unblock:
  assumes s: "kinv s" and k: "kont_of s (running_thread s) = Thread_unblock t # ks"
  shows "good (Thread_unblock t) (pop s)"
proof -
  let ?c = "running_thread s"
  from kinvD(2)[OF s] k have l: "intr s = INTR_ON" "?c \<noteq> idle_thread s" "ks = []"
    by (simp_all add: okk_birth)
  note d = sinvD[OF kinvD(1)[OF s]] and r = kinvD(3)[OF s] and ko = konts_okD[OF sinvD(3)[OF kinvD(1)[OF s]]]
  have p: "Thread_unblock t \<in> set (kont_of s ?c)" using k by simp
  have nb: "newborn_ok s ?c t" by (rule ko(7)[OF p])
  then have t: "status_of s t = Some THREAD_BLOCKED" "kont_of s t = [Intr_set_level INTR_ON]" "t \<noteq> ?c"
      "is_thread s t" "t \<noteq> idle_thread s" "\<not> waits_on s t x" for x
    using k l r ko(4)[of t] base_is_thread[OF d(1), of t] by (auto simp: newborn_ok_def)
  define s' where "s' = set_status t THREAD_READY ((pop s)\<lparr>fifo_ready_list := fifo_ready_list s @ [t]\<rparr>)"
  have "active_sched_policy s = SCHED_FIFO" using d(1) by (simp add: base_ok_def)
  then have e: "exec (Thread_unblock t) (pop s) = Some s'"
    using t(1,4) d(4) by (simp add: thread_unblock_def thread_enqueue_def intr_get_level_def intr_disable_def
      intr_set_level_eq s'_def upd_def)
  have st: "status_of s' u = (if u = t then Some THREAD_READY else status_of s u)" for u
    using t by (simp add: s'_def)
  have kn: "kont_of s' u = (if u = ?c then [] else kont_of s u)" for u
    using r k l by (simp add: s'_def kont_of_pop)
  have w: "waits_on s' = waits_on s" by (simp add: s'_def)
  have f: "running_thread s' = ?c" "idle_thread s' = idle_thread s" "intr s' = INTR_ON" "semas s' = semas s"
    using l by (simp_all add: s'_def)
  have tu: "Thread_unblock v \<in> set (kont_of s' u) \<longleftrightarrow> Thread_unblock v \<in> set (kont_of s u) \<and> v \<noteq> t" for u v
  proof (cases "u = ?c")
    case False
    then have "Thread_unblock t \<notin> set (kont_of s u)" using ko(8)[OF p, of u] by blast
    with False show ?thesis by (auto simp: kn)
  qed (use k l in \<open>simp add: kn\<close>)
  have "konts_ok s'"
  proof (rule konts_okI)
    show "newborn_ok s' u v" if "Thread_unblock v \<in> set (kont_of s' u)" for u v
    proof -
      have "u \<noteq> ?c" using that by (cases "u = ?c") (simp_all add: kn)
      moreover have "Thread_unblock v \<in> set (kont_of s u)" "v \<noteq> t" using that by (simp_all add: tu)
      ultimately show ?thesis using ko(7)[of v u] r by (auto simp: newborn_ok_def st kn f)
    qed
    show "okk u (u = idle_thread s') INTR_OFF (kont_of s' u)" if "stopped s' u" for u
    proof (cases "u = t")
      case True
      then show ?thesis using t by (simp add: kn f)
    next
      case False
      with that have "stopped s u" by (simp add: stopped_def st w f)
      with r ko(5)[of u] show ?thesis by (auto simp: kn stopped_def f)
    qed
    show "status_of s' u = Some THREAD_BLOCKED" if "waits_on s' u x" for u x
      using that t(6) ko(2)[of u x] by (auto simp: st w)
    show "\<exists>l ks. kont_of s' u = Sema_down_loop x l # ks" if "waits_on s' u x" for u x
      using that ko(2,4)[of u x] r by (auto simp: kn w)
    show "u = u'" if "Thread_unblock v \<in> set (kont_of s' u)" "Thread_unblock v \<in> set (kont_of s' u')" for u u' v
      using that ko(8)[of v u u'] by (simp add: tu)
    show "\<exists>u. Thread_unblock v \<in> set (kont_of s' u)" if "status_of s' v = Some THREAD_BLOCKED"
      "v \<noteq> idle_thread s'" "\<forall>x. \<not> waits_on s' v x" for v
      using that ko(9)[of v] by (auto simp: st tu w f split: if_splits)
    show "kont_of s' u = []" if "status_of s' u = Some THREAD_DYING" for u
      using that ko(6)[of u] by (auto simp: st kn split: if_splits)
  qed (use ko(1,3) in \<open>auto simp: w f\<close>)
  moreover have "base_ok s'"
    by (rule base_okI[OF d(1)]) (simp_all add: st t(1), simp_all add: s'_def)
  moreover have "queues_ok (Some ?c) s'"
    by (rule wake_queues[OF d(2) t(1,5)]) (simp_all add: st, simp_all add: s'_def)
  ultimately have "kinv s'" using l by (simp add: kinv_def sinv_def kn f)
  with e show ?thesis by (simp add: good_def)
qed

text \<open>The call of \<^verbatim>\<open>thread_create\<close>, up to the first point where the processor can be taken away.\<close>

lemma good_Init_thread:
  assumes s: "kinv s" and k: "kont_of s (running_thread s) = []" and t: "t \<noteq> 0" "threads s t = None"
    and on: "intr s = INTR_ON"
  shows "good (Init_thread t nm prio) (push (tl (thread_create t nm prio Client_func)) s)"
proof (cases "PRI_MIN \<le> prio \<and> prio \<le> PRI_MAX")
  case False
  then show ?thesis by (auto simp: good_def init_thread_def)
next
  case True
  let ?c = "running_thread s" and ?ks = "tl (thread_create t nm prio Client_func)"
  have ks: "?ks = [Lock_acquire Tid_lock, Take_tid t, Lock_release Tid_lock, Alloc_frames t Client_func, Thread_unblock t]"
    by (simp add: thread_create_def allocate_tid_def)
  note d = sinvD[OF kinvD(1)[OF s]] and r = kinvD(3)[OF s] and ko = konts_okD[OF sinvD(3)[OF kinvD(1)[OF s]]]
  have i: "?c \<noteq> idle_thread s" using kinvD(2)[OF s] k on by simp
  have tn: "status_of s t = None" "kont_of s t = []" using t(2) by (simp_all add: status_of_def kont_of_def)
  then have nt: "t \<noteq> ?c" "t \<noteq> idle_thread s" "\<not> waits_on s t x" "Thread_unblock t \<notin> set (kont_of s u)" for x u
    using r queues_okD(5)[OF d(2)] ko(2)[of t x] ko(7)[of t u] by (auto simp: newborn_ok_def)
  define th where "th = \<lparr>tid = 0, status = THREAD_BLOCKED, name = take 15 nm, stack = t + 4096, priority = prio,
               pcb = 0, magic = THREAD_MAGIC, kont = [], ret = False\<rparr>"
  define s' where "s' = (push ?ks s)\<lparr>threads := (threads (push ?ks s))(t \<mapsto> th), all_list := all_list s @ [t]\<rparr>"
  have f: "running_thread s' = ?c" "idle_thread s' = idle_thread s" "intr s' = INTR_ON" "semas s' = semas s"
    "fifo_ready_list s' = fifo_ready_list s" "all_list s' = all_list s @ [t]" "initial_thread s' = initial_thread s"
    "active_sched_policy s' = active_sched_policy s" "in_external_intr s' = in_external_intr s"
    using on by (simp_all add: s'_def push_kontf)
  have e: "exec (Init_thread t nm prio) (push ?ks s) = Some s'"
    using True t(1) d(4) by (simp add: init_thread_def intr_get_level_def intr_disable_def intr_set_level_eq
      s'_def th_def push_kontf Let_def)
  have st: "status_of s' u = (if u = t then Some THREAD_BLOCKED else status_of s u)" for u
    using status_of_kontf[of "(@) ?ks" s u] by (simp add: s'_def push_kontf status_of_def th_def)
  have it: "is_thread s' u = (u = t \<or> is_thread s u)" for u
    using is_thread_kontf[of "(@) ?ks" s u] t by (simp add: s'_def push_kontf is_thread_def th_def)
  have kn: "kont_of s' u = (if u = ?c then ?ks else kont_of s u)" for u
    using kont_of_kontf[of "(@) ?ks" s u] tn r k nt(1) by (auto simp: s'_def push_kontf kont_of_def th_def)
  have w: "waits_on s' = waits_on s" by (simp add: waits_on_def f fun_eq_iff)
  have tu: "Thread_unblock v \<in> set (kont_of s' u) \<longleftrightarrow> Thread_unblock v \<in> set (kont_of s u) \<or> v = t \<and> u = ?c" for u v
    using k by (auto simp: kn ks)
  have "konts_ok s'"
  proof (rule konts_okI)
    show "newborn_ok s' u v" if "Thread_unblock v \<in> set (kont_of s' u)" for u v
    proof (cases "v = t")
      case True
      then show ?thesis using that nt tn by (auto simp: newborn_ok_def tu st kn ks f)
    next
      case False
      with that k have v: "Thread_unblock v \<in> set (kont_of s u)" "u \<noteq> ?c" by (auto simp: tu)
      with ko(7)[OF v(1)] r False show ?thesis by (auto simp: newborn_ok_def st kn f)
    qed
    show "okk u (u = idle_thread s') INTR_OFF (kont_of s' u)" if "stopped s' u" for u
      using that ko(5)[of u] r nt by (auto simp: stopped_def st w kn f split: if_splits)
    show "\<exists>l ks. kont_of s' u = Sema_down_loop x l # ks" if "waits_on s' u x" for u x
      using that ko(2,4)[of u x] r by (auto simp: kn w)
    show "u = u'" if "Thread_unblock v \<in> set (kont_of s' u)" "Thread_unblock v \<in> set (kont_of s' u')" for u u' v
      using that ko(8)[of v u u'] nt(4) by (auto simp: tu)
    show "\<exists>u. Thread_unblock v \<in> set (kont_of s' u)" if "status_of s' v = Some THREAD_BLOCKED"
      "v \<noteq> idle_thread s'" "\<forall>x. \<not> waits_on s' v x" for v
      using that ko(9)[of v] by (auto simp: st tu w f split: if_splits)
  qed (use ko r nt in \<open>auto simp: w st kn f split: if_splits\<close>)
  moreover have "base_ok s'"
    using d(1) by (auto simp: base_ok_def f st it) (simp_all add: s'_def push_kontf)
  moreover have "queues_ok (Some ?c) s'"
    by (rule queues_okI) (use queues_okD[OF d(2)] tn nt r in \<open>auto simp: st f split: if_splits\<close>)
  ultimately have "kinv s'" using i by (simp add: kinv_def sinv_def kn f ks plain_def)
  with e True show ?thesis by (auto simp: good_def)
qed


section \<open>One step\<close>

lemma kinv_pop:
  assumes "kinv s" "kont_of s (running_thread s) = a # ks"
    "\<And>t. a \<noteq> Thread_unblock t" "\<And>t f. a \<noteq> Alloc_frames t f"
  shows "sinv (Some (running_thread s)) (pop s)" "kont_of (pop s) (running_thread s) = ks"
proof -
  show "sinv (Some (running_thread s)) (pop s)"
    unfolding pop_kontf by (rule sinv_kontf[OF kinvD(1)[OF assms(1)]]) (use assms(2-4) in auto)
  show "kont_of (pop s) (running_thread s) = ks"
    using assms(2) kinvD(3)[OF assms(1)] by (simp add: kont_of_pop)
qed

lemma run_good:
  assumes s: "kinv s" and k: "kont_of s (running_thread s) = a # ks"
  shows "good a (pop s)"
proof (cases "(\<exists>t. a = Thread_unblock t) \<or> (\<exists>t f. a = Alloc_frames t f)")
  case True
  then show ?thesis using good_Thread_unblock[OF s] good_Alloc_frames[OF s] k by blast
next
  case False
  then have p: "sinv (Some (running_thread s)) (pop s)" "kont_of (pop s) (running_thread s) = ks"
    using kinv_pop[OF s k] by auto
  then show ?thesis
    using False kinvD(2)[OF s] k exec_off[of "pop s" a] exec_on[of "pop s" a] by (cases "intr s") auto
qed

lemma idle_kont: "kinv s \<Longrightarrow> kont_of s (running_thread s) = [] \<Longrightarrow> intr s = INTR_ON \<and> running_thread s \<noteq> idle_thread s"
  using kinvD(2)[of s] by (cases "intr s") auto

lemma call_good:
  assumes s: "kinv s" and k: "kont_of s (running_thread s) = []" and c: "client_call s (a # ks)"
  shows "good a (push ks s)"
proof (cases "\<exists>t nm prio. a = Init_thread t nm prio")
  case True
  with c obtain t nm prio where a: "a = Init_thread t nm prio" "ks = tl (thread_create t nm prio Client_func)"
    "t \<noteq> 0" "threads s t = None"
    by (auto elim!: client_call.cases simp: thread_create_def rw_lock_acquire_def rw_lock_release_def)
  then show ?thesis using good_Init_thread[OF s k] idle_kont[OF s k] by simp
next
  case False
  with c have ok: "okk (running_thread s) False INTR_ON (a # ks)"
    and tu: "a \<noteq> Thread_unblock t" "Thread_unblock t \<notin> set ks" "a \<noteq> Alloc_frames t f" "Alloc_frames t f \<notin> set ks" for t f
    by (auto elim!: client_call.cases split: if_splits
      simp: thread_create_def rw_lock_acquire_def rw_lock_release_def plain_def own_sema_def)
  have p: "running_thread (push ks s) = running_thread s" "intr (push ks s) = INTR_ON"
    "running_thread s \<noteq> idle_thread (push ks s)" "kont_of (push ks s) (running_thread s) = ks"
    using idle_kont[OF s k] kont_of_push[OF kinvD(1)[OF s], of ks] k by (simp_all add: push_kontf)
  show ?thesis
    by (rule exec_on) (use sinv_push[OF kinvD(1)[OF s] tu(2,4)] tu ok p in \<open>simp_all del: okk.simps\<close>)
qed

text \<open>External interrupts.\<close>

lemma sinv_leave_intr:
  assumes "sinv r s" shows "sinv r (s\<lparr>in_external_intr := False\<rparr>)"
proof -
  have "base_ok (s\<lparr>in_external_intr := False\<rparr>)" using sinvD(1)[OF assms] by (simp add: base_ok_def)
  moreover have "queues_ok r (s\<lparr>in_external_intr := False\<rparr>)" by (rule queues_same[OF sinvD(2)[OF assms]]) simp_all
  moreover have "stopped (s\<lparr>in_external_intr := False\<rparr>) t = stopped s t" "newborn_ok (s\<lparr>in_external_intr := False\<rparr>) u t = newborn_ok s u t" for t u
    by (simp_all add: stopped_def newborn_ok_def)
  then have "konts_ok (s\<lparr>in_external_intr := False\<rparr>)"
    using sinvD(3)[OF assms] by (simp add: konts_ok_def)
  ultimately show ?thesis by (simp add: sinv_def)
qed

definition interrupted :: "kernel \<Rightarrow> kernel" where
  "interrupted s = push [Iret (intr s)] (s\<lparr>intr := INTR_OFF\<rparr>)"

lemma kinv_interrupted:
  assumes "kinv s" shows "kinv (interrupted s)" "intr (interrupted s) = INTR_OFF"
    "\<not> in_external_intr (interrupted s)" "running_thread (interrupted s) = running_thread s"
proof -
  show "kinv (interrupted s)"
    unfolding interrupted_def by (rule kinv_push) (use kinvD[OF assms] in simp_all)
  show "intr (interrupted s) = INTR_OFF" "running_thread (interrupted s) = running_thread s"
    "\<not> in_external_intr (interrupted s)"
    using sinvD(4)[OF kinvD(1)[OF assms]] by (simp_all add: interrupted_def push_kontf)
qed

text \<open>What the processor and \<^verbatim>\<open>intr_handler\<close> do around a handler, once it has returned \<open>s1\<close>.\<close>

definition leave_intr :: "kernel \<Rightarrow> kernel" where
  "leave_intr s1 = (let s2 = s1\<lparr>in_external_intr := False\<rparr> in
     if yield_on_return s1 then switched (ready_state s2) else s2)"

lemma intr_handler_ok:
  assumes s: "kinv s" and h: "handler ((interrupted s)\<lparr>in_external_intr := True, yield_on_return := False\<rparr>) = Some s1"
    and s1: "intr s1 = INTR_OFF" "in_external_intr s1" "kinv (s1\<lparr>in_external_intr := False\<rparr>)"
  shows "intr_handler handler s = Some (leave_intr s1)" "kinv (leave_intr s1)"
proof -
  let ?s2 = "s1\<lparr>in_external_intr := False\<rparr>"
  have "intr_handler handler s = (if yield_on_return s1 then thread_yield ?s2 else Some ?s2)"
    using h s1(1,2) kinv_interrupted[OF s]
    by (simp add: intr_handler_def interrupted_def[symmetric] intr_get_level_def intr_context_def)
  then show "intr_handler handler s = Some (leave_intr s1)" "kinv (leave_intr s1)"
    using s1(3) yield_ok(1,2)[OF kinvD(1,2)[OF s1(3)]] by (auto simp: leave_intr_def Let_def)
qed

text \<open>The state after the timer handler.\<close>

definition ticked :: "kernel \<Rightarrow> kernel" where
  "ticked s = (let c = running_thread s; idle = (c = idle_thread s);
       user = (map_option pcb (threads s c) \<noteq> Some 0); i = interrupted s in
     i\<lparr>in_external_intr := True, ticks := ticks s + 1,
       idle_ticks := idle_ticks s + (if idle then 1 else 0),
       kernel_ticks := kernel_ticks s + (if \<not> idle \<and> \<not> user then 1 else 0),
       user_ticks := user_ticks s + (if \<not> idle \<and> user then 1 else 0),
       thread_ticks := thread_ticks s + 1, yield_on_return := thread_ticks s + 1 \<ge> TIME_SLICE\<rparr>)"

lemma interrupted_counters:
  "ticks (interrupted s) = ticks s" "idle_ticks (interrupted s) = idle_ticks s" "user_ticks (interrupted s) = user_ticks s"
  "kernel_ticks (interrupted s) = kernel_ticks s" "thread_ticks (interrupted s) = thread_ticks s"
  "idle_thread (interrupted s) = idle_thread s"
  "map_option pcb (threads (interrupted s) c) = map_option pcb (threads s c)"
  by (auto simp: interrupted_def push_def upd_def option.map_comp comp_def)

lemma timer_interrupt_eq:
  assumes s: "kinv s"
  shows "timer_interrupt ((interrupted s)\<lparr>in_external_intr := True, yield_on_return := False\<rparr>) = Some (ticked s)"
    "intr (ticked s) = INTR_OFF" "in_external_intr (ticked s)" "kinv ((ticked s)\<lparr>in_external_intr := False\<rparr>)"
proof -
  note i = kinv_interrupted[OF s]
  have "thread_current ((interrupted s)\<lparr>in_external_intr := True, yield_on_return := False, ticks := ticks s + 1\<rparr>) =
      Some (running_thread s)"
    using thread_current_eq[OF kinvD(1)[OF i(1)]] i(4) by (auto simp: thread_current_def Let_def split: if_splits)
  then show "timer_interrupt ((interrupted s)\<lparr>in_external_intr := True, yield_on_return := False\<rparr>) = Some (ticked s)"
    unfolding timer_interrupt_def thread_tick_def
    by (simp add: Let_def intr_yield_on_return_def intr_context_def ticked_def interrupted_counters)
  show "intr (ticked s) = INTR_OFF" "in_external_intr (ticked s)" using i(2) by (simp_all add: ticked_def Let_def)
  show "kinv ((ticked s)\<lparr>in_external_intr := False\<rparr>)"
    using kinvD[OF i(1)] by (simp add: kinv_def sinv_leave_intr ticked_def Let_def)
qed

lemma timer_ok:
  assumes s: "kinv s"
  shows "intr_handler timer_interrupt s = Some (leave_intr (ticked s))" "kinv (leave_intr (ticked s))"
  using intr_handler_ok[of s timer_interrupt, OF s timer_interrupt_eq[OF s]] by auto

text \<open>The state after a device handler that ups the semaphore \<open>x\<close>.\<close>

definition upped :: "sema \<Rightarrow> kernel \<Rightarrow> kernel" where
  "upped x s = upd_sema x (\<lambda>m. m\<lparr>sema_value := sema_value m + 1\<rparr>) (woken_state x s)"

lemma device_ok:
  fixes x
  assumes s: "kinv s"
  defines "s1 \<equiv> upped x ((interrupted s)\<lparr>in_external_intr := True, yield_on_return := False\<rparr>)"
  shows "intr_handler (sema_up x) s = Some (leave_intr s1)" "kinv (leave_intr s1)"
    "kinv (s1\<lparr>in_external_intr := False\<rparr>)"
proof -
  let ?s = "(interrupted s)\<lparr>in_external_intr := True, yield_on_return := False\<rparr>"
  let ?z = "?s\<lparr>in_external_intr := False\<rparr>"
  note i = kinv_interrupted[OF s]
  have k0: "kinv ?z" using kinvD[OF i(1)] by (simp add: kinv_def sinv_leave_intr)
  have e: "sema_up x ?s = Some s1"
    using sema_up_eq[of "Some (running_thread s)" ?s x] kinvD(1)[OF k0] i(2,4) by (simp add: s1_def upped_def)
  have "s1\<lparr>in_external_intr := False\<rparr> = upped x ?z"
    by (simp add: s1_def upped_def woken_state_def upd_sema_def upd_def split: list.split)
  then show k1: "kinv (s1\<lparr>in_external_intr := False\<rparr>)"
    using sema_up_ok[OF kinvD(1,2)[OF k0], of x] sema_up_eq[of "Some (running_thread s)" ?z x] kinvD(1)[OF k0] i(4)
    by (auto simp: upped_def)
  show "intr_handler (sema_up x) s = Some (leave_intr s1)" "kinv (leave_intr s1)"
    using intr_handler_ok[of s "sema_up x", OF s e _ _ k1] i(2) by (auto simp: s1_def upped_def)
qed

theorem kstep_kinv:
  assumes "kinv s" "kstep s s'" shows "kinv s'"
  using assms(2)
proof cases
  case run
  then show ?thesis using run_good[OF assms(1)] by (auto simp: run_action_def good_def split: list.splits)
next
  case (call a ks)
  then show ?thesis using call_good[OF assms(1), of a ks] by (auto simp: good_def)
next
  case timer
  then show ?thesis using timer_ok[OF assms(1)] by simp
next
  case (device n)
  then show ?thesis using device_ok[OF assms(1), of "Sema n"] by simp
qed

lemma booted_kinv:
  assumes "m \<noteq> 0" "i \<noteq> 0" "m \<noteq> i" shows "kinv (booted m i v)"
proof -
  let ?s = "booted m i v"
  have st: "status_of ?s t = (if t = i then Some THREAD_BLOCKED else if t = m then Some THREAD_RUNNING else None)"
    "kont_of ?s t = (if t = i then [Iret INTR_ON, Idle_loop] else [])" "\<not> waits_on ?s t x" for t x
    by (simp_all add: booted_def status_of_def kont_of_def mk_thread_def waits_on_def fresh_kernel_def)
  have "base_ok ?s" using assms by (auto simp: base_ok_def booted_def fresh_kernel_def is_thread_def mk_thread_def
    status_of_def split: if_splits)
  moreover have "queues_ok (Some m) ?s"
    by (rule queues_okI) (use assms in \<open>auto simp: st split: if_splits, auto simp: booted_def fresh_kernel_def\<close>)
  moreover have "konts_ok ?s"
    by (rule konts_okI) (use assms in \<open>auto simp: st stopped_def split: if_splits, auto simp: booted_def fresh_kernel_def\<close>)
  ultimately show ?thesis
    using assms by (simp add: kinv_def sinv_def st) (simp add: booted_def fresh_kernel_def sinv_def st)
qed

theorem kreach_kinv: "kreach s \<Longrightarrow> kinv s"
  by (induction rule: kreach.induct) (auto simp: boot_eq booted_kinv intro: kstep_kinv)

end
