(* ===== verification/Step_Cases.thy ===== *)
theory Step_Cases
  imports Sched_Inv
begin

text \<open>
  What a step from a state with the invariant can be: one case per kind of action, each
  with the state it leads to written out. The invariants of the next theories are proved by these cases.
\<close>

fun frame :: "action \<Rightarrow> bool" where
  "frame (Intr_set_level _) = True"
| "frame (Iret _) = True"
| "frame _ = False"

lemma okk_on: "okk t i l (a # ks) \<Longrightarrow> effect a s \<noteq> None \<Longrightarrow> l = INTR_ON \<and> \<not> i \<and> okk t False INTR_ON ks"
  by (cases l; cases a) (auto split: if_splits)

lemma kinv_effect:
  assumes s: "kinv s" and k: "kont_of s (running_thread s) = a # ks" and e: "effect a (pop s) = Some p"
  shows "user_ok (pop s)"
proof -
  have "(\<forall>t. a \<noteq> Thread_unblock t) \<and> (\<forall>t f. a \<noteq> Alloc_frames t f)" using e by auto
  then show ?thesis
    using kinv_pop[OF s k] okk_on[of "running_thread s" "running_thread s = idle_thread s" "intr s" a ks "pop s"]
      kinvD(2)[OF s] e k by (simp add: user_ok_def)
qed

lemma intr_same: "intr s = l \<Longrightarrow> s\<lparr>intr := l\<rparr> = s"
  by (cases s) simp

abbreviation asleep :: "sema \<Rightarrow> intr_level \<Rightarrow> kernel \<Rightarrow> kernel" where
  "asleep x i s \<equiv> set_status (running_thread s) THREAD_BLOCKED (wait_state x i ((pop s)\<lparr>intr := INTR_OFF\<rparr>))"

abbreviation passed :: "sema \<Rightarrow> intr_level \<Rightarrow> kernel \<Rightarrow> kernel" where
  "passed x i s \<equiv> (upd_sema x (\<lambda>m. m\<lparr>sema_value := sema_value m - 1\<rparr>) (pop s))\<lparr>intr := i\<rparr>"

lemma down_cases:
  assumes s: "kinv s" and k: "kont_of s (running_thread s) = a # ks"
    and a: "a = Sema_down x \<or> a = Sema_down_loop x i" and e: "exec a (pop s) = Some s'"
  shows "\<exists>i'. if sema_value (semas s x) = 0 then s' = switched (asleep x i' s) \<and> sinv None (asleep x i' s)
    else s' = passed x i' s"
proof -
  let ?c = "running_thread s" and ?p = "(pop s)\<lparr>intr := INTR_OFF\<rparr>"
  define i' where "i' = (if a = Sema_down x then intr s else i)"
  note p = kinv_pop[OF s k]
  have sp: "sinv (Some ?c) ?p" using p a by auto
  have ok: "?c \<noteq> idle_thread s" "own_sema ?c x" "okk ?c False i' ks" and off: "a \<noteq> Sema_down x \<Longrightarrow> intr s = INTR_OFF"
    using kinvD(2)[OF s] k a by (cases "intr s"; auto simp: i'_def plain_def split: if_splits)+
  have ex: "exec a (pop s) = sema_down_loop x i' ?p"
  proof (cases "a = Sema_down x")
    case False
    then have "?p = pop s" using off intr_same[of "pop s"] by simp
    with False a show ?thesis by (simp add: i'_def)
  qed (use sinvD(4)[OF sp] in \<open>simp add: sema_down_def intr_context_def intr_get_level_def intr_disable_def i'_def\<close>)
  show ?thesis
  proof (cases "sema_value (semas s x) = 0")
    case True
    then have "sema_down_loop x i' ?p = thread_block (wait_state x i' ?p)"
      using thread_current_eq[of ?p] sp by (simp add: sema_down_loop_def wait_state_def)
    then show ?thesis using block_on_sema[of ?p x i'] e ex sp ok p(2) a True by auto
  next
    case False
    then have "s' = passed x i' s"
      using e ex sinvD(4)[OF sp] by (simp add: sema_down_loop_def intr_set_level_eq upd_sema_def)
    with False show ?thesis by auto
  qed
qed

lemma alloc_frames_eq:
  assumes "alloc_frames t Client_func s = Some s'"
  shows "s' = upd t (kont_update (\<lambda>_. [Intr_set_level INTR_ON]) \<circ>
    stack_update (\<lambda>sp. sp - 28) \<circ> stack_update (\<lambda>sp. sp - 4) \<circ> stack_update (\<lambda>sp. sp - 12)) s"
  using assms by (auto simp: alloc_frames_def alloc_frame_def upd_upd comp_def kernel_thread_def split: if_splits)

lemma unblock_eq:
  assumes "thread_unblock t s = Some s'" "\<not> in_external_intr s"
  shows "s' = set_status t THREAD_READY (s\<lparr>fifo_ready_list := fifo_ready_list s @ [t]\<rparr>)"
  using assms by (auto simp: thread_unblock_def thread_enqueue_def intr_get_level_def intr_disable_def
    intr_set_level_eq upd_def Let_def split: if_splits)

lemma run_cases:
  assumes s: "kinv s" and k: "kont_of s (running_thread s) = a # ks" and e: "exec a (pop s) = Some s'"
  obtains
    (effect) ks' s2 where "effect a (pop s) = Some (ks', s2)" "\<not> misuse a (pop s)" "s' = push ks' s2"
  | (sleep) x i i' where "a = Sema_down x \<or> a = Sema_down_loop x i" "sema_value (semas s x) = 0"
      "s' = switched (asleep x i' s)" "sinv None (asleep x i' s)"
  | (pass) x i i' where "a = Sema_down x \<or> a = Sema_down_loop x i" "sema_value (semas s x) \<noteq> 0" "s' = passed x i' s"
  | (up) x where "a = Sema_up x" "s' = upped x (pop s)" "sinv (Some (running_thread s)) (pop s)"
  | (level) i where "frame a" "s' = (pop s)\<lparr>intr := i\<rparr>"
  | (yield) "a = Thread_yield" "kinv (pop s)" "s' = switched (ready_state (pop s))"
  | (exit) "a = Thread_exit" "s' = switched (dying_state (pop s))" "sinv None (dying_state (pop s))"
  | (idle_block) "a = Idle_block" "s' = switched (set_status (running_thread s) THREAD_BLOCKED (pop s))"
      "sinv None (set_status (running_thread s) THREAD_BLOCKED (pop s))"
  | (idle_loop) "a = Idle_loop" "ks = []"
      "s' = push [Idle_block, Iret INTR_ON, Idle_loop] ((pop s)\<lparr>intr := INTR_OFF\<rparr>)"
  | (alloc) t where "a = Alloc_frames t Client_func" "alloc_frames t Client_func (pop s) = Some s'"
      "kont_of s t = []" "t \<noteq> running_thread s"
  | (unblock) t where "a = Thread_unblock t"
      "s' = set_status t THREAD_READY ((pop s)\<lparr>fifo_ready_list := fifo_ready_list s @ [t]\<rparr>)"
proof (cases "effect a (pop s)")
  case (Some x)
  then show ?thesis
    using exec_effect[OF kinv_effect[OF s k Some]] e that(1) by (cases x) (auto split: if_splits)
next
  case None
  let ?c = "running_thread s"
  have ext: "\<not> in_external_intr s" by (rule sinvD(4)[OF kinvD(1)[OF s]])
  note p = kinv_pop[OF s k] and ok = kinvD(2)[OF s, unfolded k]
  have cls: "frame a \<or> (\<exists>x i. a = Sema_down_loop x i) \<or> a = Idle_block \<or> a = Idle_loop \<or> plain ?c a ks"
    using ok by (cases "intr s"; cases a) auto
  show ?thesis
  proof (cases a)
    case (Intr_set_level i)
    then show ?thesis using e ext that(5)[of i] by (simp add: intr_set_level_eq)
  next
    case (Iret i)
    then show ?thesis using e that(5)[of i] by simp
  next
    case (Sema_down x)
    then show ?thesis using down_cases[OF s k _ e, of x] that(2,3)[of x] by (auto split: if_splits)
  next
    case (Sema_down_loop x i)
    then show ?thesis using down_cases[OF s k _ e, of x] that(2,3)[of x] by (auto split: if_splits)
  next
    case (Sema_up x)
    have "sinv (Some ?c) (pop s)" using p(1) Sema_up by simp
    then show ?thesis
      using sema_up_eq[OF sinv_leave_intr, of "Some ?c" "pop s" x] ext e Sema_up that(4)[of x] by (auto simp: upped_def)
  next
    case Thread_yield
    have "kinv (pop s)" using p ok Thread_yield by (cases "intr s") (auto simp: kinv_def)
    then show ?thesis using e yield_ok(1)[OF kinvD(1,2)] Thread_yield that(6) by auto
  next
    case Thread_exit
    then have "ks = [] \<and> ?c \<noteq> idle_thread s" using ok by (cases "intr s") (auto simp: plain_def)
    then show ?thesis using exit_ok(1,3)[of "pop s"] p e Thread_exit that(7) by auto
  next
    case (Alloc_frames t f)
    then have ks: "f = Client_func" "ks = [Thread_unblock t]" using ok by (auto simp: okk_birth)
    have "newborn_ok s ?c t" by (rule konts_okD(7)[OF sinvD(3)[OF kinvD(1)[OF s]]]) (simp add: k ks)
    then have "kont_of s t = []" "t \<noteq> ?c" using k Alloc_frames ks kinvD(3)[OF s] by (auto simp: newborn_ok_def)
    then show ?thesis using that(10)[of t] e Alloc_frames ks by simp
  next
    case (Thread_unblock t)
    then show ?thesis using that(11)[of t] unblock_eq[of t "pop s" s'] e ext by simp
  next
    case Idle_loop
    then have "ks = []" using ok by (cases "intr s") auto
    then show ?thesis using e Idle_loop that(9) by (simp add: idle_loop_def intr_disable_def)
  next
    case Idle_block
    then have "intr s = INTR_OFF \<and> ?c = idle_thread s \<and> okk ?c True INTR_OFF ks"
      using ok by (cases "intr s") (auto simp: plain_def)
    then show ?thesis using idle_block_ok(1,3)[of "pop s"] p e Idle_block that(8) by auto
  qed (use None cls in \<open>auto simp: plain_def Let_def\<close>)
qed

text \<open>A call is the same as its actions put on the stack and then run, but for the birth of a thread.\<close>

lemma pop_push: "pop (push (a # ks) s) = push ks s"
proof -
  have "(kont_update tl \<circ> kont_update ((@) (a # ks))) th = kont_update ((@) ks) th" for th :: thread by simp
  then have "upd c (kont_update tl \<circ> kont_update ((@) (a # ks))) s = upd c (kont_update ((@) ks)) s" for c
    unfolding upd_def by (metis ext)
  then show ?thesis unfolding pop_def push_def by (simp only: upd_fields upd_upd)
qed

definition born :: "tptr \<Rightarrow> thread \<Rightarrow> action list \<Rightarrow> kernel \<Rightarrow> kernel" where
  "born t th ks s = (push ks s)\<lparr>threads := (threads (push ks s))(t \<mapsto> th), all_list := all_list s @ [t]\<rparr>"

lemma kstep_cases:
  assumes s: "kinv s" and st: "kstep s s'"
  obtains
    (run) a ks s0 where "kinv s0" "kont_of s0 (running_thread s0) = a # ks" "exec a (pop s0) = Some s'"
      "s0 = s \<or> kont_of s (running_thread s) = [] \<and> s0 = push (a # ks) s \<and> client_call s (a # ks)"
  | (birth) t th ks nm prio where "threads s t = None" "kont_of s (running_thread s) = []"
      "kont th = []" "ks = tl (thread_create t nm prio Client_func)" "s' = born t th ks s"
  | (timer) "s' = leave_intr (ticked s)" "intr s = INTR_ON"
  | (device) n where "s' = leave_intr (upped (Sema n) ((interrupted s)\<lparr>in_external_intr := True, yield_on_return := False\<rparr>))"
      "intr s = INTR_ON"
  using st
proof cases
  case run
  then show ?thesis using that(1)[of s] s by (auto simp: run_action_def split: list.splits)
next
  case (call a ks)
  show ?thesis
  proof (cases "\<exists>t nm prio. a = Init_thread t nm prio")
    case True
    then obtain t nm prio where a: "a = Init_thread t nm prio" by blast
    with call(2) have ks: "ks = tl (thread_create t nm prio Client_func)" "threads s t = None"
      by (auto elim!: client_call.cases simp: thread_create_def rw_lock_acquire_def rw_lock_release_def)
    let ?th = "\<lparr>tid = 0, status = THREAD_BLOCKED, name = take 15 nm, stack = t + 4096, priority = prio,
        pcb = 0, magic = THREAD_MAGIC, kont = [], ret = False\<rparr>"
    have "s' = born t ?th ks s"
      using call(3) sinvD(4)[OF kinvD(1)[OF s]]
      by (auto simp: a init_thread_def Let_def intr_set_level_eq intr_disable_def intr_get_level_def push_kontf
        born_def split: if_splits)
    then show ?thesis using that(2)[of t ?th ks nm prio] ks call(1) by simp
  next
    case False
    with call(2) have ok: "okk (running_thread s) False INTR_ON (a # ks)"
      and tu: "Thread_unblock t \<notin> set (a # ks)" "Alloc_frames t f \<notin> set (a # ks)" for t f
      by (auto elim!: client_call.cases split: if_splits
        simp: thread_create_def rw_lock_acquire_def rw_lock_release_def plain_def own_sema_def)
    have "kinv (push (a # ks) s)"
      by (rule kinv_push[OF kinvD(1)[OF s]]) (use ok tu idle_kont[OF s call(1)] call(1) in \<open>simp_all del: okk.simps\<close>)
    moreover have "running_thread (push (a # ks) s) = running_thread s" by (simp add: push_kontf)
    ultimately show ?thesis
      using that(1)[of "push (a # ks) s" a ks] kont_of_push[OF kinvD(1)[OF s], of "a # ks"] call
      by (simp add: pop_push)
  qed
next
  case timer
  then show ?thesis using timer_ok(1)[OF s] that(3) by simp
next
  case (device n)
  then show ?thesis using device_ok(1)[OF s, of "Sema n"] that(4)[of n] by simp
qed


end
