(* ===== verification/Lock_Inv.thy ===== *)
theory Lock_Inv
  imports Step_Cases
begin

text \<open>
  Mutual exclusion of locks. The right to a lock passes from its semaphore (value 1) to a thread that
  has come out of \<^verbatim>\<open>sema_down\<close> but has not yet written \<^verbatim>\<open>holder\<close>, to the \<^verbatim>\<open>holder\<close> field, to a thread in
  \<^verbatim>\<open>lock_release\<close> that has cleared \<^verbatim>\<open>holder\<close> but has not yet called \<^verbatim>\<open>sema_up\<close>, and back: the invariant
  \<open>linv\<close> says that it is in exactly one of these places.
\<close>

section \<open>Where the right to a lock is\<close>

text \<open>\<open>granting r l ks\<close>: a thread with stack \<open>ks\<close>, and \<open>r\<close> the result of its last
  \<^verbatim>\<open>sema_try_down\<close>, has the right to \<open>l\<close> without being its holder.\<close>

fun granting :: "bool \<Rightarrow> lock \<Rightarrow> action list \<Rightarrow> bool" where
  "granting r l [] = False"
| "granting r l (Intr_set_level _ # ks) = granting r l ks"
| "granting r l (Iret _ # ks) = granting r l ks"
| "granting r l (a # ks) = (a = Set_holder l \<or> a = Sema_up (Lock_sema l) \<or> a = Set_holder_if l \<and> r)"

text \<open>Every other \<open>Set_holder\<close> of a stack comes right after the \<^verbatim>\<open>sema_down\<close> that pays for it.\<close>

fun guarded :: "action list \<Rightarrow> bool" where
  "guarded [] = True"
| "guarded (Set_holder l # ks) = False"
| "guarded (Set_holder_if l # ks) = False"
| "guarded (Sema_up x # ks) = ((\<forall>l. x \<noteq> Lock_sema l) \<and> guarded ks)"
| "guarded (Sema_down x # ks) =
     (case x of Lock_sema l \<Rightarrow> (case ks of Set_holder l' # ks' \<Rightarrow> l = l' \<and> guarded ks' | _ \<Rightarrow> False)
      | _ \<Rightarrow> guarded ks)"
| "guarded (Sema_down_loop x i # ks) =
     (case x of Lock_sema l \<Rightarrow> (case ks of Set_holder l' # ks' \<Rightarrow> l = l' \<and> guarded ks' | _ \<Rightarrow> False)
      | _ \<Rightarrow> guarded ks)"
| "guarded (Sema_try_down x # ks) =
     (case x of Lock_sema l \<Rightarrow> (case ks of Set_holder_if l' # ks' \<Rightarrow> l = l' \<and> guarded ks' | _ \<Rightarrow> False)
      | _ \<Rightarrow> guarded ks)"
| "guarded (a # ks) = guarded ks"

fun lshape :: "action list \<Rightarrow> bool" where
  "lshape (Intr_set_level _ # ks) = lshape ks"
| "lshape (Iret _ # ks) = lshape ks"
| "lshape (Set_holder l # ks) = guarded ks"
| "lshape (Set_holder_if l # ks) = guarded ks"
| "lshape (Sema_up x # ks) = guarded ks"
| "lshape ks = guarded ks"

text \<open>The three places; \<open>g\<close> is the set of threads that have been granted the lock.\<close>

definition one_owner :: "u32 \<Rightarrow> tptr \<Rightarrow> tptr set \<Rightarrow> bool" where
  "one_owner v h g \<longleftrightarrow> v = 1 \<and> h = 0 \<and> g = {} \<or> v = 0 \<and> h \<noteq> 0 \<and> g = {} \<or> v = 0 \<and> h = 0 \<and> (\<exists>t. g = {t})"

lemma owner_moves:
  "one_owner v h g \<Longrightarrow> v > 0 \<Longrightarrow> one_owner (v - 1) h (insert c g)"
  "one_owner v h g \<Longrightarrow> c \<in> g \<Longrightarrow> c \<noteq> 0 \<Longrightarrow> one_owner v c (g - {c})"
  "one_owner v c g \<Longrightarrow> c \<noteq> 0 \<Longrightarrow> one_owner v 0 (insert c g)"
  "one_owner v h g \<Longrightarrow> c \<in> g \<Longrightarrow> one_owner (v + 1) h (g - {c})"
  by (auto simp: one_owner_def)

definition ret_of :: "kernel \<Rightarrow> tptr \<Rightarrow> bool" where
  "ret_of s t \<longleftrightarrow> map_option ret (threads s t) = Some True"

definition granted :: "kernel \<Rightarrow> lock \<Rightarrow> tptr set" where
  "granted s l = {t. granting (ret_of s t) l (kont_of s t)}"

abbreviation lock_value :: "kernel \<Rightarrow> lock \<Rightarrow> u32" where
  "lock_value s l \<equiv> sema_value (semas s (Lock_sema l))"

definition linv :: "kernel \<Rightarrow> bool" where
  "linv s \<longleftrightarrow> (\<forall>t. lshape (kont_of s t)) \<and> (\<forall>l. one_owner (lock_value s l) (holder s l) (granted s l))"

section \<open>Changes of state\<close>

lemma guarded_lshape: "guarded ks \<Longrightarrow> lshape ks \<and> \<not> granting r l ks"
  by (induction ks rule: lshape.induct) (auto split: sema.splits list.splits action.splits)

text \<open>A change of the stack of one thread \<open>c\<close> (and of nothing else that matters).\<close>

lemma linv_change:
  assumes "linv s"
    and "\<And>t. t \<noteq> c \<Longrightarrow> kont_of s' t = kont_of s t" "\<And>t. t \<noteq> c \<Longrightarrow> kont_of s t \<noteq> [] \<Longrightarrow> ret_of s' t = ret_of s t"
    and "lshape (kont_of s' c)"
    and "\<And>l. one_owner (lock_value s l) (holder s l) (granted s l) \<Longrightarrow>
      granted s' l = (if granting (ret_of s' c) l (kont_of s' c) then insert c (granted s l) else granted s l - {c}) \<Longrightarrow>
      (c \<in> granted s l \<longleftrightarrow> granting (ret_of s c) l (kont_of s c)) \<Longrightarrow>
      one_owner (lock_value s' l) (holder s' l) (granted s' l)"
  shows "linv s'"
proof -
  have "granting (ret_of s' t) l (kont_of s' t) = granting (ret_of s t) l (kont_of s t)" if "t \<noteq> c" for t l
    using assms(2,3)[OF that] by (cases "kont_of s t") auto
  then have "t \<in> granted s' l \<longleftrightarrow> (if t = c then granting (ret_of s' c) l (kont_of s' c) else t \<in> granted s l)" for t l
    by (cases "t = c") (auto simp: granted_def)
  then have g: "granted s' l = (if granting (ret_of s' c) l (kont_of s' c) then insert c (granted s l) else granted s l - {c})" for l
    by (auto split: if_splits)
  show ?thesis
    unfolding linv_def
  proof (intro conjI allI)
    fix t show "lshape (kont_of s' t)" using assms(1,2,4) by (cases "t = c") (auto simp: linv_def)
  next
    fix l show "one_owner (lock_value s' l) (holder s' l) (granted s' l)"
      by (rule assms(5)[OF _ g]) (use assms(1) in \<open>auto simp: linv_def granted_def\<close>)
  qed
qed

lemma linv_same:
  assumes "linv s" "\<And>t. kont_of s' t = kont_of s t" "\<And>t. kont_of s t \<noteq> [] \<Longrightarrow> ret_of s' t = ret_of s t"
    "\<And>l. lock_value s' l = lock_value s l" "holder s' = holder s"
  shows "linv s'"
proof -
  have "granting (ret_of s' t) l (kont_of s' t) = granting (ret_of s t) l (kont_of s t)" for t l
    using assms(2,3)[of t] by (cases "kont_of s t") auto
  then show ?thesis using assms(1,2,4,5) by (simp add: linv_def granted_def)
qed


lemma ret_of_upd: "(\<And>th. ret (f th) = ret th) \<Longrightarrow> ret_of (upd t f s) = ret_of s"
  by (rule ext) (auto simp: ret_of_def upd_def)

lemma ret_of_upd_other: "t \<noteq> u \<Longrightarrow> ret_of (upd u f s) t = ret_of s t"
  by (simp add: ret_of_def upd_def)

lemma ret_of_kontf [simp]: "ret_of (kontf f s) = ret_of s"
  by (simp add: kontf_def ret_of_upd)

lemma ret_of_pop [simp]: "ret_of (pop s) = ret_of s"
  by (simp add: pop_kontf)

lemma ret_of_other [simp]:
  "ret_of (intr_update f1 s) = ret_of s" "ret_of (fifo_ready_list_update f2 s) = ret_of s"
  "ret_of (all_list_update f3 s) = ret_of s" "ret_of (holder_update f4 s) = ret_of s"
  "ret_of (upd_sema x f s) = ret_of s" "ret_of (cond_waiters_update f5 s) = ret_of s"
  "ret_of (rw_count_update f6 s) = ret_of s" "ret_of (next_tid_update f7 s) = ret_of s"
  "ret_of (set_status u st s) = ret_of s" "ret_of (semas_update f8 s) = ret_of s"
  by (simp_all add: ret_of_def fun_eq_iff upd_sema_def ret_of_upd)

lemma ret_of_states [simp]:
  "ret_of (wait_state x i s) = ret_of s" "ret_of (woken_state x s) = ret_of s" "ret_of (ready_state s) = ret_of s"
  "ret_of (dying_state s) = ret_of s"
  by (simp_all add: wait_state_def woken_state_def ready_state_def dying_state_def push_kontf split: list.split)

lemma linv_switched:
  assumes s: "sinv None s" and "linv s"
  shows "linv (switched s)"
proof (rule linv_same[OF assms(2)])
  show "kont_of (switched s) t = kont_of s t" for t by (rule switched_kont[OF s])
  show "ret_of (switched s) t = ret_of s t" if "kont_of s t \<noteq> []" for t
  proof -
    have "status_of s t \<noteq> Some THREAD_DYING" using that konts_okD(6)[OF sinvD(3)[OF s], of t] by blast
    then show ?thesis
      by (auto simp: switched_def Let_def ret_of_def free_thread_def upd_def split: prod.splits if_splits)
  qed
qed simp_all

text \<open>The running thread replaces its stack, keeping its rights.\<close>

lemma linv_quiet:
  assumes "linv s" and "\<And>t. kont_of s' t = (if t = c then ks' else kont_of s t)"
    and "\<And>t. t \<noteq> c \<Longrightarrow> kont_of s t \<noteq> [] \<Longrightarrow> ret_of s' t = ret_of s t"
    and "\<And>l. lock_value s' l = lock_value s l" "holder s' = holder s" "lshape ks'"
    and "\<And>l. granting (ret_of s' c) l ks' = granting (ret_of s c) l (kont_of s c)"
  shows "linv s'"
  by (rule linv_change[OF assms(1), of c]) (use assms(2-) in \<open>auto simp: insert_absorb\<close>)

lemma guarded_quiet:
  assumes "linv s" and "\<And>t. kont_of s' t = (if t = c then ks' else kont_of s t)"
    and "\<And>t. t \<noteq> c \<Longrightarrow> kont_of s t \<noteq> [] \<Longrightarrow> ret_of s' t = ret_of s t"
    and "\<And>l. lock_value s' l = lock_value s l" "holder s' = holder s" "guarded ks'"
    and "\<And>l. \<not> granting (ret_of s c) l (kont_of s c)"
  shows "linv s'"
  by (rule linv_quiet[OF assms(1-5)]) (use guarded_lshape[OF assms(6)] assms(7) in auto)

section \<open>One action\<close>

text \<open>The running thread gains or loses the right to one lock \<open>l\<close>.\<close>

lemma linv_move:
  assumes l: "linv s" and kn: "\<And>t. kont_of s' t = (if t = c then ks' else kont_of s t)"
    and rt: "\<And>t. t \<noteq> c \<Longrightarrow> ret_of s' t = ret_of s t" and sh: "lshape ks'"
    and gr: "\<And>l'. granting (ret_of s c) l' (kont_of s c) \<longleftrightarrow> g \<and> l' = l"
      "\<And>l'. granting (ret_of s' c) l' ks' \<longleftrightarrow> g' \<and> l' = l"
    and ot: "\<And>l'. l' \<noteq> l \<Longrightarrow> lock_value s' l' = lock_value s l'" "\<And>l'. l' \<noteq> l \<Longrightarrow> holder s' l' = holder s l'"
    and mv: "one_owner (lock_value s l) (holder s l) (granted s l) \<Longrightarrow> (c \<in> granted s l \<longleftrightarrow> g) \<Longrightarrow>
      one_owner (lock_value s' l) (holder s' l) (if g' then insert c (granted s l) else granted s l - {c})"
  shows "linv s'"
proof (rule linv_change[OF l, of c])
  fix l' assume *: "one_owner (lock_value s l') (holder s l') (granted s l')"
    "granted s' l' = (if granting (ret_of s' c) l' (kont_of s' c) then insert c (granted s l') else granted s l' - {c})"
    "(c \<in> granted s l') = granting (ret_of s c) l' (kont_of s c)"
  have g: "granted s' l' = (if g' \<and> l' = l then insert c (granted s l') else granted s l' - {c})"
    using *(2) by (simp add: kn gr)
  show "one_owner (lock_value s' l') (holder s' l') (granted s' l')"
  proof (cases "l' = l")
    case True
    with *(1,3) mv gr show ?thesis unfolding g by (cases g') simp_all
  next
    case False
    then have "granted s l' - {c} = granted s l'" using *(3) gr by auto
    with False *(1) ot show ?thesis unfolding g by simp
  qed
qed (use kn rt sh in auto)

lemma linv_shape: "linv s \<Longrightarrow> kont_of s t = a # ks \<Longrightarrow> lshape (a # ks)"
  by (metis linv_def)

lemma try_down_linv:
  assumes l: "linv s" and k: "kont_of s (running_thread s) = Sema_try_down (Lock_sema lk) # ks"
    and r: "status_of s (running_thread s) \<noteq> None"
  shows "linv (upd (running_thread s) (ret_update (\<lambda>_. lock_value s lk > 0)) (if lock_value s lk > 0
    then upd_sema (Lock_sema lk) (\<lambda>m. m\<lparr>sema_value := sema_value m - 1\<rparr>) (pop s) else pop s))" (is "linv ?s'")
proof -
  let ?c = "running_thread s" and ?b = "lock_value s lk > 0"
  obtain ks2 where ks: "ks = Set_holder_if lk # ks2" "guarded ks2"
    using linv_shape[OF l k] by (auto split: list.splits action.splits)
  have kn: "kont_of ?s' t = (if t = ?c then ks else kont_of s t)" for t
    using k r by (simp add: kont_of_pop kont_of_upd_same)
  have rb: "ret_of ?s' ?c = ?b" using r by (auto simp: ret_of_def upd_def status_of_def pop_def upd_sema_def)
  show ?thesis
  proof (rule linv_move[OF l kn, where l = lk and g = False and g' = ?b])
    assume "one_owner (lock_value s lk) (holder s lk) (granted s lk)" "?c \<in> granted s lk \<longleftrightarrow> False"
    then show "one_owner (lock_value ?s' lk) (holder ?s' lk) (if ?b then insert ?c (granted s lk) else granted s lk - {?c})"
      using owner_moves(1)[of "lock_value s lk" "holder s lk" "granted s lk" ?c] by (simp add: upd_sema_def)
  qed (use k ks rb in \<open>auto simp: ret_of_upd_other upd_sema_def\<close>)
qed

lemma release_linv:
  assumes l: "linv s" and k: "kont_of s (running_thread s) = Lock_release lk # ks"
    and r: "status_of s (running_thread s) \<noteq> None" and h: "holder s lk = running_thread s" "running_thread s \<noteq> 0"
  shows "linv (push [Sema_up (Lock_sema lk)] ((pop s)\<lparr>holder := (holder s)(lk := 0)\<rparr>))" (is "linv ?s'")
proof -
  let ?c = "running_thread s"
  have ks: "guarded ks" using linv_shape[OF l k] by simp
  have kn: "kont_of ?s' t = (if t = ?c then Sema_up (Lock_sema lk) # ks else kont_of s t)" for t
    using k r by (simp add: push_kontf kont_of_pop)
  show ?thesis
    by (rule linv_move[OF l kn, where l = lk and g = False and g' = True])
      (use k ks h owner_moves(3)[of "lock_value s lk" ?c "granted s lk"] in \<open>auto simp: push_kontf\<close>)
qed

lemma holder_linv:
  assumes l: "linv s" and k: "kont_of s (running_thread s) = a # ks"
    and a: "a = Set_holder lk \<or> a = Set_holder_if lk \<and> ret_of s (running_thread s)"
    and r: "status_of s (running_thread s) \<noteq> None" and h: "running_thread s \<noteq> 0"
  shows "linv ((pop s)\<lparr>holder := (holder s)(lk := running_thread s)\<rparr>)" (is "linv ?s'")
proof -
  let ?c = "running_thread s"
  have ks: "guarded ks" using linv_shape[OF l k] a by auto
  have kn: "kont_of ?s' t = (if t = ?c then ks else kont_of s t)" for t
    using k r by (simp add: kont_of_pop)
  show ?thesis
    by (rule linv_move[OF l kn, where l = lk and g = True and g' = False])
      (use k a h guarded_lshape[OF ks] owner_moves(2)[of "lock_value s lk" "holder s lk" "granted s lk" ?c] in auto)
qed

lemma quiet_effect_linv:
  assumes l: "linv s" and k: "kont_of s (running_thread s) = a # ks" and r: "status_of s (running_thread s) \<noteq> None"
    and e: "effect a (pop s) = Some (ks', s2)"
    and a: "\<nexists>lk. a = Set_holder lk \<or> a = Set_holder_if lk \<and> ret_of s (running_thread s) \<or> a = Lock_release lk \<or>
      a = Sema_try_down (Lock_sema lk)"
  shows "linv (push ks' s2)"
proof -
  let ?c = "running_thread s" and ?s' = "push ks' s2"
  have kn: "kont_of ?s' t = (if t = ?c then ks' @ ks else kont_of s t)" for t
    using k r by (auto simp: push_kontf effect_kont[OF e] kont_of_pop)
  have sh: "lshape (a # ks)" by (rule linv_shape[OF l k])
  have rp: "map_option ret (threads (pop s) ?c) = Some True \<longleftrightarrow> ret_of s ?c"
    using ret_of_pop[of s] by (metis ret_of_def)
  have pl: "lock_value ?s' l = lock_value s2 l" "holder ?s' = holder s2" for l by (simp_all add: push_kontf)
  show ?thesis
  proof (rule guarded_quiet[OF l kn])
    show "lock_value ?s' l = lock_value s l" "holder ?s' = holder s" for l
      using e a rp unfolding pl by (cases a; auto simp: Let_def rw_add_def upd_sema_def split: list.splits if_splits)+
    show "guarded (ks' @ ks)" "\<not> granting (ret_of s ?c) l (kont_of s ?c)" for l
      using e a sh unfolding k by (cases a; auto simp: Let_def split: list.splits if_splits sema.splits)+
    show "ret_of ?s' t = ret_of s t" if "t \<noteq> ?c" for t
      using e that by (cases a) (auto simp: push_kontf Let_def ret_of_upd ret_of_upd_other rw_add_def split: list.splits if_splits)
  qed
qed

lemma effect_linv:
  assumes l: "linv s" and k: "kont_of s (running_thread s) = a # ks" and r: "status_of s (running_thread s) \<noteq> None"
    and z: "running_thread s \<noteq> 0" and e: "effect a (pop s) = Some (ks', s2)" and m: "\<not> misuse a (pop s)"
  shows "linv (push ks' s2)"
proof -
  have rp: "map_option ret (threads (pop s) (running_thread s)) = Some True \<longleftrightarrow> ret_of s (running_thread s)"
    using ret_of_pop[of s] by (metis ret_of_def)
  consider lk where "a = Set_holder lk \<or> a = Set_holder_if lk \<and> ret_of s (running_thread s)"
    | lk where "a = Lock_release lk" | lk where "a = Sema_try_down (Lock_sema lk)"
    | "\<nexists>lk. a = Set_holder lk \<or> a = Set_holder_if lk \<and> ret_of s (running_thread s) \<or> a = Lock_release lk \<or>
      a = Sema_try_down (Lock_sema lk)" by blast
  then show ?thesis
  proof cases
    case (1 lk) with e rp show ?thesis using holder_linv[OF l k _ r z] by auto
  next
    case (2 lk) with e m show ?thesis using release_linv[OF l _ r _ z, of lk ks] k by auto
  next
    case (3 lk) with e show ?thesis using try_down_linv[OF l _ r, of lk ks] k by (auto simp: Let_def)
  next
    case 4 show ?thesis by (rule quiet_effect_linv[OF l k r e 4])
  qed
qed

text \<open>\<^verbatim>\<open>sema_down\<close> lets a thread pass: if the semaphore is a lock's, the thread now has the right to it.\<close>

lemma passed_linv:
  assumes l: "linv s" and k: "kont_of s (running_thread s) = a # ks" and r: "status_of s (running_thread s) \<noteq> None"
    and a: "a = Sema_down x \<or> a = Sema_down_loop x i" and v: "sema_value (semas s x) \<noteq> 0"
  shows "linv ((upd_sema x (\<lambda>m. m\<lparr>sema_value := sema_value m - 1\<rparr>) (pop s))\<lparr>intr := i'\<rparr>)" (is "linv ?s'")
proof -
  let ?c = "running_thread s"
  have kn: "kont_of ?s' t = (if t = ?c then ks else kont_of s t)" for t using k r by (simp add: kont_of_pop)
  have sh: "lshape (a # ks)" using l k by (metis linv_def)
  show ?thesis
  proof (cases "\<exists>l. x = Lock_sema l")
    case False
    show ?thesis
      by (rule guarded_quiet[OF l kn]) (use False a sh in \<open>auto simp: k upd_sema_def split: sema.splits\<close>)
  next
    case True
    then obtain l where x: "x = Lock_sema l" ..
    with sh a obtain ks2 where ks: "ks = Set_holder l # ks2" "guarded ks2"
      by (auto split: list.splits action.splits)
    show ?thesis
    proof (rule linv_change[OF \<open>linv s\<close>, of ?c])
      fix l' assume *: "one_owner (lock_value s l') (holder s l') (granted s l')"
        "granted ?s' l' = (if granting (ret_of ?s' ?c) l' (kont_of ?s' ?c) then insert ?c (granted s l') else granted s l' - {?c})"
        "(?c \<in> granted s l') = granting (ret_of s ?c) l' (kont_of s ?c)"
      have n: "?c \<notin> granted s l'" using *(3) k a by auto
      have g: "granted ?s' l' = (if l' = l then insert ?c (granted s l') else granted s l')"
        using *(2) n unfolding kn by (auto simp: ks)
      have "lock_value s l > 0" using v x by (simp add: word_gt_0)
      then show "one_owner (lock_value ?s' l') (holder ?s' l') (granted ?s' l')"
        using *(1) owner_moves(1)[of "lock_value s l" "holder s l" "granted s l" ?c] unfolding g
        by (auto simp: x upd_sema_def)
    qed (use kn ks in auto)
  qed
qed

lemma blocked_linv:
  assumes l: "linv s" and k: "kont_of s (running_thread s) = a # ks" and r: "status_of s (running_thread s) \<noteq> None"
    and a: "a = Sema_down x \<or> a = Sema_down_loop x i"
  shows "linv (set_status (running_thread s) st (wait_state x i' ((pop s)\<lparr>intr := INTR_OFF\<rparr>)))" (is "linv ?s'")
proof -
  let ?c = "running_thread s"
  have kn: "kont_of ?s' t = (if t = ?c then Sema_down_loop x i' # ks else kont_of s t)" for t
    using k r by (simp add: kont_of_pop)
  have rt: "ret_of ?s' = ret_of s" by (simp add: wait_state_def push_kontf)
  have "lshape (a # ks)" using l k by (metis linv_def)
  then have "guarded (Sema_down_loop x i' # ks)" using a by auto
  then show ?thesis
    using a by (intro guarded_quiet[OF l kn]) (auto simp: k rt, auto simp: wait_state_def push_kontf upd_sema_def)
qed

lemma sema_up_linv:
  assumes l: "linv s" and k: "kont_of s (running_thread s) = Sema_up x # ks" and r: "status_of s (running_thread s) \<noteq> None"
  shows "linv (upped x (pop s))" (is "linv ?s'")
proof -
  let ?c = "running_thread s"
  have kn: "kont_of ?s' t = (if t = ?c then ks else kont_of s t)" for t using k r by (simp add: upped_def kont_of_pop)
  have rt: "ret_of ?s' = ret_of s" by (simp add: upped_def woken_state_def split: list.split)
  have v: "sema_value (semas ?s' y) = (if y = x then sema_value (semas s x) + 1 else sema_value (semas s y))" for y
    by (simp add: upped_def upd_sema_def woken_value)
  have h: "holder ?s' = holder s" by (simp add: upped_def)
  have ks: "guarded ks" using l k by (metis linv_def lshape.simps(5))
  show ?thesis
  proof (cases "\<exists>l. x = Lock_sema l")
    case False
    show ?thesis
      by (rule guarded_quiet[OF l kn]) (use False ks in \<open>auto simp: k rt v h\<close>)
  next
    case True
    then obtain l where x: "x = Lock_sema l" ..
    show ?thesis
    proof (rule linv_change[OF \<open>linv s\<close>, of ?c])
      fix l' assume *: "one_owner (lock_value s l') (holder s l') (granted s l')"
        "granted ?s' l' = (if granting (ret_of ?s' ?c) l' (kont_of ?s' ?c) then insert ?c (granted s l') else granted s l' - {?c})"
        "(?c \<in> granted s l') = granting (ret_of s ?c) l' (kont_of s ?c)"
      have n: "?c \<in> granted s l' \<longleftrightarrow> l' = l" using *(3) k x by auto
      have g: "granted ?s' l' = granted s l' - {?c}"
        using *(2) guarded_lshape[OF ks] unfolding kn by auto
      show "one_owner (lock_value ?s' l') (holder ?s' l') (granted ?s' l')"
        using *(1) n owner_moves(4)[of "lock_value s l" "holder s l" "granted s l" ?c] unfolding g v h
        by (auto simp: x)
    qed (use kn ks rt guarded_lshape[OF ks] in auto)
  qed
qed


lemma pop_linv:
  assumes l: "linv s" and k: "kont_of s (running_thread s) = a # ks" and r: "status_of s (running_thread s) \<noteq> None"
    and a: "frame a \<or> (\<exists>t. a = Thread_unblock t) \<or> a = Idle_loop \<or> a = Idle_block \<or> a = Thread_yield \<or> a = Thread_exit \<or>
      (\<exists>t f. a = Alloc_frames t f)"
  shows "linv (pop s)"
  by (rule linv_quiet[OF l, where c = "running_thread s" and ks' = ks])
    (use k r linv_shape[OF l k] a guarded_lshape[of ks] in \<open>auto simp: kont_of_pop elim: frame.elims\<close>)

lemma push_linv:
  assumes l: "linv s" and r: "status_of s (running_thread s) \<noteq> None"
    and ks: "guarded (ks @ kont_of s (running_thread s)) \<and> (\<forall>l r. \<not> granting r l (kont_of s (running_thread s))) \<or>
      list_all frame ks"
  shows "linv (push ks s)"
proof -
  have fr: "lshape (ks @ ks') = lshape ks' \<and> granting b l (ks @ ks') = granting b l ks'" if "list_all frame ks" for b l ks'
    using that by (induction ks) (auto elim!: frame.elims)
  have kn: "kont_of (push ks s) t = (if t = running_thread s then ks @ kont_of s (running_thread s) else kont_of s t)" for t
    using r by (simp add: push_kontf)
  have sh: "lshape (kont_of s t)" for t using l by (simp add: linv_def)
  show ?thesis
    by (rule linv_quiet[OF l kn]) (use ks fr guarded_lshape sh in \<open>auto simp: push_kontf\<close>)
qed

lemma yield_linv:
  assumes s: "kinv s" and l: "linv s"
  shows "linv (switched (ready_state s))"
proof (rule linv_switched)
  show "sinv None (ready_state s)" by (rule yield_ok(3)[OF kinvD(1,2)[OF s]])
  show "linv (ready_state s)" unfolding ready_state_def
    by (rule push_linv) (use kinvD(3)[OF s] linv_same[OF l] in auto)
qed


section \<open>One step\<close>

lemma alloc_frames_linv:
  assumes l: "linv s" and e: "alloc_frames t Client_func s = Some s'" and k: "kont_of s t = []"
  shows "linv s'"
  by (rule linv_change[OF l, of t])
    (use k in \<open>auto simp: alloc_frames_eq[OF e] kont_of_upd ret_of_upd split: option.splits\<close>)

lemma run_linv:
  assumes s: "kinv s" and l: "linv s" and k: "kont_of s (running_thread s) = a # ks" and e: "exec a (pop s) = Some s'"
  shows "linv s'"
proof -
  let ?c = "running_thread s"
  have r: "status_of s ?c \<noteq> None" and z: "?c \<noteq> 0"
    using kinvD(3)[OF s] base_is_thread[OF sinvD(1)[OF kinvD(1)[OF s]], of ?c] by (auto simp: is_thread_def)
  note pl = pop_linv[OF l k r]
  from s k e show ?thesis
  proof (cases rule: run_cases)
    case (effect ks' s2)
    then show ?thesis using effect_linv[OF l k r z] by simp
  next
    case (sleep x i i')
    then show ?thesis using linv_switched blocked_linv[OF l k r sleep(1)] by simp
  next
    case (pass x i i')
    then show ?thesis using passed_linv[OF l k r pass(1,2)] by simp
  next
    case (up x)
    then show ?thesis using sema_up_linv[OF l _ r] k by simp
  next
    case (level i)
    then show ?thesis using linv_same[OF pl] by simp
  next
    case yield
    then show ?thesis using yield_linv pl by simp
  next
    case exit
    then show ?thesis using linv_switched linv_same[OF pl] by (simp add: dying_state_def)
  next
    case idle_block
    then show ?thesis using linv_switched linv_same[OF pl] by simp
  next
    case idle_loop
    have "linv (push [Idle_block, Iret INTR_ON, Idle_loop] ((pop s)\<lparr>intr := INTR_OFF\<rparr>))"
      by (rule push_linv) (use linv_same[OF pl] idle_loop r k in \<open>auto simp: kont_of_pop\<close>)
    with idle_loop show ?thesis by simp
  next
    case (alloc t)
    then show ?thesis using alloc_frames_linv[OF pl, of t s'] r by (simp add: kont_of_pop)
  next
    case (unblock t)
    then show ?thesis using linv_same[OF pl] by simp
  qed
qed

lemma call_guarded:
  "client_call s (a # ks) \<Longrightarrow> guarded (a # ks)"
  by (auto elim!: client_call.cases split: if_splits
    simp: thread_create_def allocate_tid_def rw_lock_acquire_def rw_lock_release_def)

lemma birth_linv:
  assumes s: "kinv s" and l: "linv s" and k: "kont_of s (running_thread s) = []"
    and t: "threads s t = None" and th: "kont th = []" and ks: "guarded ks"
  shows "linv (born t th ks s)"
proof -
  have p: "linv (push ks s)" by (rule push_linv[OF l]) (use kinvD(3)[OF s] k ks in auto)
  have "threads (push ks s) t = None" using t by (auto simp: push_def upd_def)
  then have "kont_of (born t th ks s) u = kont_of (push ks s) u"
    "kont_of (push ks s) u \<noteq> [] \<Longrightarrow> ret_of (born t th ks s) u = ret_of (push ks s) u" for u
    using th by (auto simp: born_def kont_of_def ret_of_def)
  then show ?thesis by (rule linv_same[OF p]) (simp_all add: born_def)
qed

lemma interrupted_linv:
  assumes s: "kinv s" and l: "linv s" shows "linv (interrupted s)"
  unfolding interrupted_def
  by (rule push_linv) (use kinvD(3)[OF s] linv_same[OF l] in auto)

lemma leave_linv:
  assumes "kinv (s1\<lparr>in_external_intr := False\<rparr>)" "linv (s1\<lparr>in_external_intr := False\<rparr>)"
  shows "linv (leave_intr s1)"
  using yield_linv[OF assms] assms(2) by (simp add: leave_intr_def Let_def)

lemma ret_of_counters [simp]:
  "ret_of (in_external_intr_update f1 s) = ret_of s" "ret_of (ticks_update f2 s) = ret_of s"
  "ret_of (idle_ticks_update f3 s) = ret_of s" "ret_of (kernel_ticks_update f4 s) = ret_of s"
  "ret_of (user_ticks_update f5 s) = ret_of s" "ret_of (thread_ticks_update f6 s) = ret_of s"
  "ret_of (yield_on_return_update f7 s) = ret_of s"
  by (simp_all add: ret_of_def fun_eq_iff)

theorem kstep_linv:
  assumes s: "kinv s" and l: "linv s" and st: "kstep s s'"
  shows "linv s'"
  using s st
proof (cases rule: kstep_cases)
  case (run a ks s0)
  have "linv s0"
    using run(4) l push_linv[OF l, of "a # ks"] kinvD(3)[OF s] call_guarded by auto
  then show ?thesis by (rule run_linv[OF run(1) _ run(2,3)])
next
  case (birth t th ks nm prio)
  then show ?thesis using birth_linv[OF s l] by (simp add: thread_create_def allocate_tid_def)
next
  case timer
  have "linv ((ticked s)\<lparr>in_external_intr := False\<rparr>)"
    using linv_same[OF interrupted_linv[OF s l]] by (simp add: ticked_def Let_def)
  then show ?thesis using leave_linv[OF timer_interrupt_eq(4)[OF s]] timer by simp
next
  case (device n)
  let ?s = "(interrupted s)\<lparr>in_external_intr := True, yield_on_return := False\<rparr>"
  have "linv ((upped (Sema n) ?s)\<lparr>in_external_intr := False\<rparr>)"
    by (rule linv_same[OF interrupted_linv[OF s l]])
      (auto simp: upped_def, auto simp: woken_state_def upd_sema_def split: list.splits)
  then show ?thesis using leave_linv[OF device_ok(3)[OF s]] device by simp
qed

lemma booted_linv: "linv (booted m i v)"
proof -
  have k: "kont_of (booted m i v) t = (if t = i then [Iret INTR_ON, Idle_loop] else [])" for t
    by (simp add: booted_def kont_of_def mk_thread_def)
  have "lock_value (booted m i v) l = 1" "holder (booted m i v) l = 0" for l
    by (simp_all add: booted_def fresh_kernel_def)
  then show ?thesis by (simp add: linv_def k granted_def one_owner_def)
qed

theorem kreach_linv: "kreach s \<Longrightarrow> linv s"
proof (induction rule: kreach.induct)
  case (init m i v s)
  then show ?case using boot_eq[of m i v] booted_linv[of m i v] by simp
next
  case (step s s')
  then show ?case using kstep_linv kreach_kinv by blast
qed


section \<open>Mutual exclusion\<close>

text \<open>Which actions write \<^verbatim>\<open>holder\<close>.\<close>

lemma run_holder:
  assumes s: "kinv s" and k: "kont_of s (running_thread s) = a # ks" and e: "exec a (pop s) = Some s'"
  shows "holder s' l = holder s l \<or> a = Lock_release l \<and> holder s l = running_thread s \<and> holder s' l = 0 \<or>
    (a = Set_holder l \<or> a = Set_holder_if l \<and> ret_of s (running_thread s)) \<and> holder s' l = running_thread s"
  using s k e
proof (cases rule: run_cases)
  case (effect ks' s2)
  have "map_option ret (threads (pop s) (running_thread s)) = Some True \<longleftrightarrow> ret_of s (running_thread s)"
    using ret_of_pop[of s] by (metis ret_of_def)
  with effect show ?thesis
    by (cases a) (auto simp: push_kontf Let_def rw_add_def split: list.splits if_splits)
next
  case (alloc t)
  then show ?thesis using alloc_frames_eq[of t "pop s" s'] by simp
qed (auto simp: upd_sema_def upped_def dying_state_def push_kontf)


lemma step_holder:
  assumes s: "kinv s" and l: "linv s" and st: "kstep s s'"
    and ch: "holder s' k \<noteq> holder s k"
  shows "holder s k = 0 \<and> holder s' k = running_thread s \<or> holder s k = running_thread s \<and> holder s' k = 0"
  using s st
proof (cases rule: kstep_cases)
  case (run a ks s0)
  have l0: "linv s0"
    using run(4) l push_linv[OF l, of "a # ks"] kinvD(3)[OF s] call_guarded by auto
  have h0: "holder s0 = holder s" "running_thread s0 = running_thread s" using run(4) by (auto simp: push_kontf)
  have "a = Set_holder k \<or> a = Set_holder_if k \<and> ret_of s0 (running_thread s0) \<Longrightarrow> running_thread s0 \<in> granted s0 k"
    using run(2) by (auto simp: granted_def)
  then have "a = Set_holder k \<or> a = Set_holder_if k \<and> ret_of s0 (running_thread s0) \<Longrightarrow> holder s0 k = 0"
    using l0 by (auto simp: linv_def one_owner_def)
  with run_holder[OF run(1-3), of k] ch h0 show ?thesis by auto
qed (use ch in \<open>auto simp: born_def push_kontf leave_intr_def Let_def ticked_def interrupted_def upped_def split: if_splits\<close>)

end
