(* ===== verification/Sema_Inv.thy ===== *)
theory Sema_Inv
  imports Lock_Inv
begin

text \<open>
  No lost wake-up: as long as a semaphore has waiting threads, its value is at most the
  number of threads that have been woken and are on their way to try again. So a waiting thread is never left
  behind with the semaphore up and nobody about to take it.
\<close>

section \<open>Woken threads\<close>

definition at_loop :: "sema \<Rightarrow> action list \<Rightarrow> bool" where
  "at_loop x ks \<longleftrightarrow> (case ks of Sema_down_loop y l # _ \<Rightarrow> y = x | _ \<Rightarrow> False)"

definition woken :: "kernel \<Rightarrow> sema \<Rightarrow> tptr set" where
  "woken s x = {t. at_loop x (kont_of s t) \<and> \<not> waits_on s t x}"

abbreviation value_of :: "kernel \<Rightarrow> sema \<Rightarrow> nat" where
  "value_of s x \<equiv> unat (sema_value (semas s x))"

definition winv :: "kernel \<Rightarrow> bool" where
  "winv s \<longleftrightarrow> (\<forall>x. waiters (semas s x) \<noteq> [] \<longrightarrow> value_of s x \<le> card (woken s x))"

lemma at_loop_simps [simp]:
  "\<not> at_loop x []" "at_loop x (a # ks) \<longleftrightarrow> (\<exists>l. a = Sema_down_loop x l)"
  by (auto simp: at_loop_def split: action.splits)

lemma finite_woken: "finite (dom (threads s)) \<Longrightarrow> finite (woken s x)"
  by (rule finite_subset) (auto simp: woken_def kont_of_def split: option.splits)

text \<open>A step that wakes nobody and raises no value, by a thread that was not at the head of the loop.\<close>

lemma winv_quiet:
  assumes w: "winv s" and b: "finite (dom (threads s'))"
    and ko: "\<And>t. t \<noteq> c \<Longrightarrow> kont_of s' t = kont_of s t \<or> kont_of s t = []"
    and wa: "\<And>x. waiters (semas s' x) = waiters (semas s x)" and v: "\<And>x. value_of s' x \<le> value_of s x"
    and c: "\<And>x. \<not> at_loop x (kont_of s c)"
  shows "winv s'"
  unfolding winv_def
proof (intro allI impI)
  fix x assume "waiters (semas s' x) \<noteq> []"
  then have "value_of s x \<le> card (woken s x)" using w wa by (simp add: winv_def)
  moreover have "woken s x \<subseteq> woken s' x"
  proof
    fix t assume "t \<in> woken s x"
    then have "at_loop x (kont_of s t)" "\<not> waits_on s t x" by (auto simp: woken_def)
    moreover from this c have "t \<noteq> c" by auto
    ultimately show "t \<in> woken s' x" using ko[of t] wa by (auto simp: woken_def waits_on_def)
  qed
  then have "card (woken s x) \<le> card (woken s' x)" by (rule card_mono[OF finite_woken[OF b]])
  ultimately show "value_of s' x \<le> card (woken s' x)" using v[of x] by simp
qed

lemma winv_same:
  assumes "winv s" "\<And>t. kont_of s' t = kont_of s t" "semas s' = semas s"
  shows "winv s'"
  using assms by (simp add: winv_def woken_def waits_on_def)

lemma value_dec: "sema_value (semas s x) \<noteq> 0 \<Longrightarrow>
  value_of (upd_sema x (\<lambda>m. m\<lparr>sema_value := sema_value m - 1\<rparr>) s) y = (if y = x then value_of s x - 1 else value_of s y)"
  by (simp add: upd_sema_def unat_minus_one)

text \<open>A thread comes out of the loop.\<close>

lemma passed_winv:
  assumes s: "kinv s" and w: "winv s" and k: "kont_of s (running_thread s) = a # ks"
    and a: "a = Sema_down x \<or> a = Sema_down_loop x i" and v: "sema_value (semas s x) \<noteq> 0"
  shows "winv ((upd_sema x (\<lambda>m. m\<lparr>sema_value := sema_value m - 1\<rparr>) (pop s))\<lparr>intr := i'\<rparr>)"
proof -
  let ?c = "running_thread s"
  define s' where "s' = (upd_sema x (\<lambda>m. m\<lparr>sema_value := sema_value m - 1\<rparr>) (pop s))\<lparr>intr := i'\<rparr>"
  have r: "status_of s ?c \<noteq> None" using kinvD(3)[OF s] by simp
  have kn: "kont_of s' t = (if t = ?c then ks else kont_of s t)" for t using k r by (simp add: s'_def kont_of_pop)
  have wt: "waits_on s' = waits_on s" by (simp add: s'_def waits_on_def upd_sema_def fun_eq_iff)
  have wa: "waiters (semas s' y) = waiters (semas s y)" for y by (simp add: s'_def upd_sema_def)
  have va: "value_of s' y = (if y = x then value_of s x - 1 else value_of s y)" for y
    using v by (simp add: s'_def upd_sema_def unat_minus_one)
  have fin: "finite (woken s' y)" for y
    by (rule finite_woken) (use sinvD(1)[OF kinvD(1)[OF s]] in \<open>simp add: base_ok_def s'_def upd_sema_def\<close>)
  have "value_of s' y \<le> card (woken s' y)" if "waiters (semas s' y) \<noteq> []" for y
  proof -
    have "woken s y - {?c} \<subseteq> woken s' y" by (auto simp: woken_def kn wt)
    then have "card (woken s y - {?c}) \<le> card (woken s' y)" by (rule card_mono[OF fin])
    moreover have "value_of s y \<le> card (woken s y)" using w that by (simp add: winv_def wa)
    moreover have "?c \<notin> woken s y" if "y \<noteq> x" using that k a by (auto simp: woken_def)
    moreover have "card (woken s y) - 1 \<le> card (woken s y - {?c})" by (simp add: card_Diff_singleton_if)
    ultimately show ?thesis unfolding va by (cases "y = x") auto
  qed
  then show ?thesis by (simp add: winv_def s'_def)
qed

text \<open>A thread goes to sleep.\<close>

lemma blocked_winv:
  assumes s: "kinv s" and w: "winv s" and k: "kont_of s (running_thread s) = a # ks"
    and a: "a = Sema_down x \<or> a = Sema_down_loop x i" and v: "sema_value (semas s x) = 0"
  shows "winv (set_status (running_thread s) st (wait_state x i' ((pop s)\<lparr>intr := INTR_OFF\<rparr>)))"
proof -
  let ?c = "running_thread s"
  define s' where "s' = set_status ?c st (wait_state x i' ((pop s)\<lparr>intr := INTR_OFF\<rparr>))"
  have r: "status_of s ?c \<noteq> None" using kinvD(3)[OF s] by simp
  have kn: "kont_of s' t = (if t = ?c then Sema_down_loop x i' # ks else kont_of s t)" for t
    using k r by (simp add: s'_def kont_of_pop)
  have sm: "waiters (semas s' z) = waiters (semas s z) @ (if z = x then [?c] else [])"
    "sema_value (semas s' z) = sema_value (semas s z)" for z
    by (simp_all add: s'_def wait_state_def push_kontf upd_sema_def)
  have "value_of s' y \<le> card (woken s' y)" if y: "waiters (semas s' y) \<noteq> []" for y
  proof (cases "y = x")
    case False
    have "woken s' y = woken s y"
      using False k a by (auto simp: woken_def kn waits_on_def sm)
    with w y False show ?thesis by (simp add: winv_def sm)
  qed (simp add: sm v)
  then show ?thesis by (simp add: winv_def s'_def)
qed

text \<open>A thread is woken, in \<open>u\<close>, which differs from \<open>s\<close> in the stack of the running thread only.\<close>

lemma upped_winv:
  assumes u: "sinv r (u\<lparr>in_external_intr := False\<rparr>)" and w: "winv u"
  shows "winv (upped x u)"
proof -
  define s' where "s' = upped x u"
  note k = konts_okD[OF sinvD(3)[OF u]]
  have kn: "kont_of s' t = kont_of u t" for t by (simp add: s'_def upped_def)
  have wa: "waiters (semas s' y) = (if y = x then tl (waiters (semas u x)) else waiters (semas u y))" for y
    by (simp add: s'_def upped_def upd_sema_def woken_waiters)
  have va: "sema_value (semas s' y) = (if y = x then sema_value (semas u x) + 1 else sema_value (semas u y))" for y
    by (simp add: s'_def upped_def upd_sema_def woken_value)
  have fin: "finite (woken s' y)" for y
    by (rule finite_woken) (use sinvD(1)[OF u] in \<open>simp add: base_ok_def s'_def upped_def\<close>)
  have "value_of s' y \<le> card (woken s' y)" if y: "waiters (semas s' y) \<noteq> []" for y
  proof (cases "y = x")
    case False
    have "woken s' y = woken u y" using False by (auto simp: woken_def kn waits_on_def wa)
    with w y False show ?thesis by (simp add: winv_def wa va)
  next
    case True
    with y obtain t ts where t: "waiters (semas u x) = t # ts" by (cases "waiters (semas u x)") (auto simp: wa)
    have wt: "waits_on u t x" by (simp add: waits_on_def t)
    then have "at_loop x (kont_of u t)" using k(4)[of t x] by (auto simp: waits_on_def)
    moreover have "t \<notin> set ts" using k(1)[of x] by (simp add: t)
    ultimately have wk: "woken s' x = insert t (woken u x)" "t \<notin> woken u x"
      using wt by (auto simp: woken_def kn waits_on_def wa t)
    have "finite (woken u x)" using fin[of x] by (simp add: wk)
    then have "card (woken s' x) = card (woken u x) + 1" by (simp add: wk)
    moreover have "value_of u x \<le> card (woken u x)" using w by (simp add: winv_def t)
    moreover have "value_of s' x \<le> value_of u x + 1" by (simp add: va unat_plus_if' le_diff_conv)
    ultimately show ?thesis using True by simp
  qed
  then show ?thesis by (simp add: winv_def s'_def)
qed

section \<open>One step\<close>

lemma switched_winv: "sinv None s \<Longrightarrow> winv s \<Longrightarrow> winv (switched s)"
  by (rule winv_same) (auto simp: switched_kont)

lemma yield_winv:
  assumes s: "kinv s" and w: "winv s" and c: "\<And>x. \<not> at_loop x (kont_of s (running_thread s))"
  shows "winv (switched (ready_state s))"
proof (rule switched_winv[OF yield_ok(3)[OF kinvD(1,2)[OF s]]])
  show "winv (ready_state s)"
    by (rule winv_quiet[OF w, of _ "running_thread s"]) (use c sinvD(1)[OF kinvD(1)[OF s]] in \<open>auto simp: base_ok_def\<close>)
qed

lemma okk_not_loop: "okk t i INTR_ON ks \<Longrightarrow> \<not> at_loop x ks"
  by (cases ks) (auto simp: plain_def split: if_splits)

lemma pop_winv:
  assumes s: "kinv s" and w: "winv s" and k: "kont_of s (running_thread s) = a # ks"
    and a: "\<And>x i. a \<noteq> Sema_down_loop x i"
  shows "winv (pop s)"
  by (rule winv_quiet[OF w, of _ "running_thread s"])
    (use k a sinvD(1)[OF kinvD(1)[OF s]] kinvD(3)[OF s] in \<open>auto simp: kont_of_pop base_ok_def\<close>)

text \<open>With interrupts on, the running thread is not at the head of the loop.\<close>

lemma push_winv:
  assumes s: "kinv s" and w: "winv s" and on: "\<And>x. \<not> at_loop x (kont_of s (running_thread s))"
    and s': "\<And>t. t \<noteq> running_thread s \<Longrightarrow> kont_of s' t = kont_of s t" "semas s' = semas s" "dom (threads s') = dom (threads s)"
  shows "winv s'"
  by (rule winv_quiet[OF w, of _ "running_thread s"])
    (use s' on sinvD(1)[OF kinvD(1)[OF s]] in \<open>auto simp: base_ok_def\<close>)

lemma effect_winv:
  assumes s: "kinv s" and w: "winv s" and k: "kont_of s (running_thread s) = a # ks"
    and e: "effect a (pop s) = Some (ks', s2)"
  shows "winv (push ks' s2)"
proof -
  have r: "status_of s (running_thread s) \<noteq> None" using kinvD(3)[OF s] by simp
  have d: "dom (threads s2) = dom (threads s)"
    using effect_kont(5)[OF e] by (auto simp: fun_eq_iff status_of_def pop_def upd_def split: if_splits) (metis option.map_disc_iff not_Some_eq)+
  show ?thesis
  proof (rule winv_quiet[OF w, of _ "running_thread s"])
    show "\<not> at_loop x (kont_of s (running_thread s))" for x using e k by auto
    show "finite (dom (threads (push ks' s2)))"
      using sinvD(1)[OF kinvD(1)[OF s]] by (simp add: push_kontf d base_ok_def)
    show "kont_of (push ks' s2) t = kont_of s t \<or> kont_of s t = []" if "t \<noteq> running_thread s" for t
      using that r by (simp add: push_kontf effect_kont[OF e] kont_of_pop)
    show "waiters (semas (push ks' s2) x) = waiters (semas s x)" for x
      using e by (cases a) (auto simp: push_kontf Let_def rw_add_def upd_sema_def split: list.splits if_splits)
    show "value_of (push ks' s2) x \<le> value_of s x" for x
      using e by (cases a) (auto simp: push_kontf Let_def rw_add_def upd_sema_def unat_minus_one word_gt_0 split: list.splits if_splits)
  qed
qed

lemma run_winv:
  assumes s: "kinv s" and w: "winv s" and k: "kont_of s (running_thread s) = a # ks" and e: "exec a (pop s) = Some s'"
  shows "winv s'"
proof -
  note pw = pop_winv[OF s w k]
  from s k e show ?thesis
  proof (cases rule: run_cases)
    case (effect ks' s2)
    then show ?thesis using effect_winv[OF s w k] by simp
  next
    case (sleep x i i')
    then show ?thesis using switched_winv blocked_winv[OF s w k sleep(1,2)] by simp
  next
    case (pass x i i')
    then show ?thesis using passed_winv[OF s w k pass(1,2)] by simp
  next
    case (up x)
    then show ?thesis using upped_winv[OF sinv_leave_intr[OF up(3)] pw] by simp
  next
    case (level i)
    from level(1) have "a \<noteq> Sema_down_loop x i" for x i by auto
    then show ?thesis using winv_same[OF pw] level by simp
  next
    case yield
    have "intr s = INTR_ON \<and> okk (running_thread s) False INTR_ON ks"
      using kinvD(2)[OF s] k yield(1) by (cases "intr s") auto
    then have "\<not> at_loop x ks" for x using okk_not_loop by blast
    then show ?thesis using yield yield_winv[OF yield(2) pw] k kinvD(3)[OF s] by (simp add: kont_of_pop)
  next
    case exit
    then show ?thesis using switched_winv winv_same[OF pw] by (simp add: dying_state_def)
  next
    case idle_block
    then show ?thesis using switched_winv winv_same[OF pw] by simp
  next
    case idle_loop
    show ?thesis
      by (rule push_winv[OF s w]) (use idle_loop k kinvD(3)[OF s] in \<open>auto simp: push_kontf kont_of_pop\<close>)
  next
    case (alloc t)
    note eq = alloc_frames_eq[OF alloc(2)]
    show ?thesis
      by (rule winv_quiet[OF w, of _ "running_thread s"])
        (use alloc k kinvD(3)[OF s] sinvD(1)[OF kinvD(1)[OF s]] in \<open>auto simp: eq kont_of_upd kont_of_pop base_ok_def\<close>)
  next
    case (unblock t)
    then show ?thesis using winv_same[OF pw] by simp
  qed
qed


lemma interrupted_winv:
  assumes s: "kinv s" and w: "winv s" and on: "intr s = INTR_ON"
  shows "winv (interrupted s)" "\<not> at_loop x (kont_of (interrupted s) (running_thread s))"
proof -
  show "winv (interrupted s)"
    by (rule push_winv[OF s w])
      (use kinvD(2)[OF s] on okk_not_loop in \<open>auto simp: interrupted_def push_kontf\<close>)
  show "\<not> at_loop x (kont_of (interrupted s) (running_thread s))"
    using kinvD(3)[OF s] by (simp add: interrupted_def push_kontf)
qed

lemma leave_winv:
  assumes "kinv (s1\<lparr>in_external_intr := False\<rparr>)" "winv s1" "\<And>x. \<not> at_loop x (kont_of s1 (running_thread s1))"
  shows "winv (leave_intr s1)"
proof -
  have "winv (s1\<lparr>in_external_intr := False\<rparr>)" by (rule winv_same[OF assms(2)]) simp_all
  with yield_winv[OF assms(1)] assms(3) show ?thesis by (simp add: leave_intr_def Let_def)
qed

lemma call_winv:
  assumes s: "kinv s" and w: "winv s" and k: "kont_of s (running_thread s) = []"
  shows "winv (push ks s)" "threads s t = None \<Longrightarrow> kont th = [] \<Longrightarrow> winv (born t th ks s)"
proof -
  show p: "winv (push ks s)" by (rule push_winv[OF s w]) (use k in \<open>auto simp: push_kontf\<close>)
  assume t: "threads s t = None" "kont th = []"
  then have "threads (push ks s) t = None" by (auto simp: push_def upd_def)
  then have "kont_of (born t th ks s) u = kont_of (push ks s) u" for u
    using t by (auto simp: born_def kont_of_def)
  then show "winv (born t th ks s)" by (rule winv_same[OF p]) (simp add: born_def)
qed

theorem kstep_winv:
  assumes s: "kinv s" and w: "winv s" and st: "kstep s s'"
  shows "winv s'"
  using s st
proof (cases rule: kstep_cases)
  case (run a ks s0)
  have "winv s0" using run(4) w call_winv(1)[OF s w] by auto
  then show ?thesis by (rule run_winv[OF run(1) _ run(2,3)])
next
  case (birth t th ks nm prio)
  then show ?thesis using call_winv(2)[OF s w] by simp
next
  case timer
  note i = interrupted_winv[OF s w timer(2)]
  have t: "winv (ticked s)" by (rule winv_same[OF i(1)]) (simp_all add: ticked_def Let_def)
  show ?thesis unfolding timer(1)
    by (rule leave_winv[OF timer_interrupt_eq(4)[OF s] t])
      (use i(2) kinv_interrupted(4)[OF s] in \<open>simp add: ticked_def Let_def\<close>)
next
  case (device n)
  let ?s = "(interrupted s)\<lparr>in_external_intr := True, yield_on_return := False\<rparr>"
  note i = interrupted_winv[OF s w device(2)]
  have "sinv (Some (running_thread s)) (?s\<lparr>in_external_intr := False\<rparr>)"
    using kinvD(1)[OF kinv_interrupted(1)[OF s]] kinv_interrupted(4)[OF s] by (simp add: sinv_leave_intr)
  moreover have "winv ?s" by (rule winv_same[OF i(1)]) simp_all
  ultimately have u: "winv (upped (Sema n) ?s)" by (rule upped_winv)
  show ?thesis unfolding device(1)
    by (rule leave_winv[OF device_ok(3)[OF s] u])
      (use i(2) kinv_interrupted(4)[OF s] in \<open>simp add: upped_def\<close>)
qed

theorem kreach_winv: "kreach s \<Longrightarrow> winv s"
proof (induction rule: kreach.induct)
  case (init m i v s)
  then have "s = booted m i v" using boot_eq[of m i v] by simp
  then show ?case by (simp add: winv_def booted_def fresh_kernel_def)
next
  case (step s s')
  then show ?case using kstep_winv kreach_kinv by blast
qed

end
