(* ===== verification/Kernel_Props.thy ===== *)
theory Kernel_Props
  imports Sema_Inv
begin

text \<open>
  The properties of threads and synchronization, over the states that \<^verbatim>\<open>thread_init\<close>,
  \<^verbatim>\<open>thread_start\<close> and any interleaving of calls and interrupts can reach.
\<close>

section \<open>A concrete run\<close>

text \<open>The main thread, just booted, and then inside and after a critical section.\<close>

definition main_runs :: kernel where
  "main_runs = booted 4096 8192 (\<lambda>_. 1)"

definition main_holds :: "action list \<Rightarrow> u32 \<Rightarrow> tptr \<Rightarrow> kernel" where
  "main_holds ks v h = (push ks main_runs)\<lparr>
     semas := (semas main_runs)(Lock_sema (Lock 0) := \<lparr>sema_value = v, waiters = []\<rparr>),
     holder := (\<lambda>_. 0)(Lock 0 := h)\<rparr>"

lemma main_runs_reach: "kreach main_runs"
  by (rule kreach.init[of 4096 8192 "\<lambda>_. 1"]) (simp_all add: main_runs_def boot_eq)

lemmas main_defs = main_holds_def main_runs_def booted_def fresh_kernel_def mk_thread_def push_def upd_def

lemma main_acquires:
  "kstep main_runs (main_holds [Sema_down (Lock_sema (Lock 0)), Set_holder (Lock 0)] 1 0)"
  "kstep (main_holds [Sema_down (Lock_sema (Lock 0)), Set_holder (Lock 0)] 1 0) (main_holds [Set_holder (Lock 0)] 0 0)"
  "kstep (main_holds [Set_holder (Lock 0)] 0 0) (main_holds [] 0 4096)"
  "kstep (main_holds [] 0 4096) (main_holds [Sema_up (Lock_sema (Lock 0))] 0 0)"
proof -
  show "kstep main_runs (main_holds [Sema_down (Lock_sema (Lock 0)), Set_holder (Lock 0)] 1 0)"
    by (rule kstep.call[of _ "Lock_acquire (Lock 0)" "[]"])
      (simp_all add: client_call.intros main_defs action_defs fun_eq_iff)
  show "kstep (main_holds [Sema_down (Lock_sema (Lock 0)), Set_holder (Lock 0)] 1 0) (main_holds [Set_holder (Lock 0)] 0 0)"
    "kstep (main_holds [Set_holder (Lock 0)] 0 0) (main_holds [] 0 4096)"
    by (rule kstep.run, simp add: main_defs action_defs fun_eq_iff)+
  show "kstep (main_holds [] 0 4096) (main_holds [Sema_up (Lock_sema (Lock 0))] 0 0)"
    by (rule kstep.call[of _ "Lock_release (Lock 0)" "[]"])
      (simp_all add: client_call.intros main_defs action_defs fun_eq_iff)
qed

lemma main_holds_reach: "kreach (main_holds [] 0 4096)"
  by (rule kreach.step[OF kreach.step[OF kreach.step[OF main_runs_reach]]]) (rule main_acquires)+


text \<open>The main thread asleep on a semaphore: the idle thread runs.\<close>

definition main_sleeps :: kernel where
  "main_sleeps = (booted 4096 8192 (\<lambda>_. 0))\<lparr>
     threads := [4096 \<mapsto> mk_thread ''main'' 31 THREAD_BLOCKED 8192 1 [Sema_down_loop (Sema 1) INTR_ON],
                 8192 \<mapsto> mk_thread ''idle'' 0 THREAD_RUNNING 12244 2 [Iret INTR_ON, Idle_loop]],
     running_thread := 8192, intr := INTR_OFF,
     semas := (semas (booted 4096 8192 (\<lambda>_. 0)))(Sema 1 := \<lparr>sema_value = 0, waiters = [4096]\<rparr>)\<rparr>"

lemma main_sleeps_reach: "kreach main_sleeps"
proof (rule kreach.step[of "booted 4096 8192 (\<lambda>_. 0)"])
  show "kreach (booted 4096 8192 (\<lambda>_. 0))"
    by (rule kreach.init[of 4096 8192 "\<lambda>_. 0"]) (simp_all add: boot_eq)
  show "kstep (booted 4096 8192 (\<lambda>_. 0)) main_sleeps"
    by (rule kstep.call[of _ "Sema_down (Sema 1)" "[]"])
      (simp_all add: client_call.intros main_sleeps_def main_defs action_defs fun_eq_iff)
qed

section \<open>The scheduler\<close>

text \<open>C2. In every reachable state the processor's thread is the only one that is running; the run queue holds
  exactly the ready threads other than the idle thread, each once; a thread waits on at most one semaphore,
  where it is queued once, and is then blocked (so its list element is never in two lists at
  once); and the list of all threads holds exactly those that have not exited.\<close>

theorem scheduler_invariant:
  assumes "kreach s"
  shows "(\<forall>t. status_of s t = Some THREAD_RUNNING \<longleftrightarrow> t = running_thread s) \<and>
    distinct (fifo_ready_list s) \<and>
    (\<forall>t. t \<in> set (fifo_ready_list s) \<longleftrightarrow> status_of s t = Some THREAD_READY \<and> t \<noteq> idle_thread s) \<and>
    (\<forall>x. distinct (waiters (semas s x))) \<and>
    (\<forall>t x. t \<in> set (waiters (semas s x)) \<longrightarrow> status_of s t = Some THREAD_BLOCKED) \<and>
    (\<forall>t x y. t \<in> set (waiters (semas s x)) \<and> t \<in> set (waiters (semas s y)) \<longrightarrow> x = y) \<and>
    distinct (all_list s) \<and>
    (\<forall>t. t \<in> set (all_list s) \<longleftrightarrow> status_of s t \<notin> {None, Some THREAD_DYING})"
proof -
  note d = sinvD[OF kinvD(1)[OF kreach_kinv[OF assms]]]
  note q = queues_okD[OF d(2)] and k = konts_okD[OF d(3)]
  have "status_of s t = Some THREAD_RUNNING \<longleftrightarrow> t = running_thread s" for t using q(2)[of t] by auto
  moreover have "t \<in> set (waiters (semas s x)) \<Longrightarrow> status_of s t = Some THREAD_BLOCKED" for t x
    by (rule k(2)) (simp add: waits_on_def)
  moreover have "t \<in> set (waiters (semas s x)) \<Longrightarrow> t \<in> set (waiters (semas s y)) \<Longrightarrow> x = y" for t x y
    using k(4)[of t x] k(4)[of t y] by (auto simp: waits_on_def)
  moreover have "t \<in> set (all_list s) \<longleftrightarrow> status_of s t \<notin> {None, Some THREAD_DYING}" for t using q(8)[of t] by simp
  ultimately show ?thesis using q(3,4,7) k(1) by blast
qed

theorem scheduler_invariant_witness:
  "status_of main_sleeps 4096 = Some THREAD_BLOCKED \<and> 4096 \<notin> set (waiters (semas main_sleeps (Sema 2)))"
proof -
  have w: "4096 \<in> set (waiters (semas main_sleeps (Sema 1)))" by (simp add: main_sleeps_def)
  have "\<forall>t x. t \<in> set (waiters (semas main_sleeps x)) \<longrightarrow> status_of main_sleeps t = Some THREAD_BLOCKED"
    and "\<forall>t x y. t \<in> set (waiters (semas main_sleeps x)) \<and> t \<in> set (waiters (semas main_sleeps y)) \<longrightarrow> x = y"
    using scheduler_invariant[OF main_sleeps_reach] by simp_all
  with w show ?thesis by fastforce
qed

text \<open>C3. No thread gets lost, when threads wait only by the calls of \<^verbatim>\<open>synch.c\<close>: in a state that is reached by the steps of \<open>kstep\<close>, which
  have no calls of \<^verbatim>\<open>intq.c\<close>, a blocked thread, other than the idle thread, is either queued on exactly one semaphore or still
  being created by exactly one thread, whose remaining work ends with making it ready. (A thread that waits at an interrupt queue is blocked without
  being on a semaphore; it is in the field \<open>not_empty\<close> or \<open>not_full\<close> of the queue, and \<open>Intq\<close> shows that the next byte wakes it.)\<close>

theorem blocked_accounted_for:
  assumes "kreach s" and "status_of s t = Some THREAD_BLOCKED" and "t \<noteq> idle_thread s"
  shows "(\<exists>!x. t \<in> set (waiters (semas s x))) \<or> (\<exists>!u. Thread_unblock t \<in> set (kont_of s u))"
proof -
  note k = konts_okD[OF sinvD(3)[OF kinvD(1)[OF kreach_kinv[OF assms(1)]]]]
  show ?thesis
  proof (cases "\<exists>x. waits_on s t x")
    case True
    then obtain x where x: "waits_on s t x" ..
    have "y = x" if "waits_on s t y" for y using k(4)[OF x] k(4)[OF that] by auto
    with x show ?thesis by (auto simp: waits_on_def)
  next
    case False
    then obtain u where "Thread_unblock t \<in> set (kont_of s u)" using k(9)[OF assms(2,3)] by auto
    with k(8) show ?thesis by blast
  qed
qed

theorem blocked_accounted_for_witness:
  "(\<exists>!x. 4096 \<in> set (waiters (semas main_sleeps x))) \<or> (\<exists>!u. Thread_unblock 4096 \<in> set (kont_of main_sleeps u))"
  by (rule blocked_accounted_for[OF main_sleeps_reach])
    (simp_all add: main_sleeps_def booted_def status_of_def mk_thread_def)

text \<open>C4. The kernel's assertions: in a reachable state an action on the stack of the running
  thread, or a call it makes, panics exactly when it misuses a lock (acquires one it holds, releases, waits or signals with one it
  does not hold) or asks for a priority out of range; a timer or device interrupt never panics.\<close>

theorem panics_only_on_misuse:
  assumes "kreach s"
  shows "(\<forall>a ks. kont_of s (running_thread s) = a # ks \<longrightarrow> (exec a (pop s) = None \<longleftrightarrow> misuse a (pop s))) \<and>
    (\<forall>a ks. kont_of s (running_thread s) = [] \<and> client_call s (a # ks) \<longrightarrow>
      (exec a (push ks s) = None \<longleftrightarrow> misuse a (push ks s))) \<and>
    intr_handler timer_interrupt s \<noteq> None \<and> (\<forall>x. intr_handler (sema_up x) s \<noteq> None)"
proof -
  note k = kreach_kinv[OF assms]
  have "exec a (pop s) = None \<longleftrightarrow> misuse a (pop s)" if "kont_of s (running_thread s) = a # ks" for a ks
    using run_good[OF k that] by (auto simp: good_def)
  moreover have "exec a (push ks s) = None \<longleftrightarrow> misuse a (push ks s)"
    if "kont_of s (running_thread s) = []" "client_call s (a # ks)" for a ks
    using call_good[OF k that] by (auto simp: good_def)
  ultimately show ?thesis using timer_ok(1)[OF k] device_ok(1)[OF k] by auto
qed

theorem panics_only_on_misuse_witness:
  "exec (Lock_acquire (Lock 0)) (push [] (main_holds [] 0 4096)) = None \<and>
   exec (Lock_release (Lock 0)) (push [] (main_holds [] 0 4096)) \<noteq> None \<and>
   exec (Iret INTR_ON) (pop main_sleeps) \<noteq> None"
proof -
  have k: "kont_of (main_holds [] 0 4096) (running_thread (main_holds [] 0 4096)) = []"
    and h: "holder (main_holds [] 0 4096) (Lock 0) = 4096" "running_thread (main_holds [] 0 4096) = 4096"
    by (simp_all add: main_defs kont_of_def)
  have c: "exec a (push [] (main_holds [] 0 4096)) = None \<longleftrightarrow> misuse a (push [] (main_holds [] 0 4096))"
    if "client_call (main_holds [] 0 4096) [a]" for a
    using panics_only_on_misuse[OF main_holds_reach] k that by blast
 have "kont_of main_sleeps (running_thread main_sleeps) = [Iret INTR_ON, Idle_loop]"
    by (simp add: main_sleeps_def kont_of_def mk_thread_def)
  then have "exec (Iret INTR_ON) (pop main_sleeps) = None \<longleftrightarrow> misuse (Iret INTR_ON) (pop main_sleeps)"
    using panics_only_on_misuse[OF main_sleeps_reach] by blast
  then show ?thesis
    using h c[of "Lock_acquire (Lock 0)"] c[of "Lock_release (Lock 0)"]
    by (simp add: client_call.intros del: exec.simps)
qed

text \<open>C5. Preemption: when the time slice of a thread ends while others are ready, the timer interrupt puts it at the back of
  the run queue and gives the processor, with a new time slice, to the thread at the front.\<close>

theorem timer_preempts:
  assumes "kreach s" and "fifo_ready_list s = t # ts" and "running_thread s \<noteq> idle_thread s"
    and "thread_ticks s + 1 \<ge> TIME_SLICE"
  shows "\<exists>s'. intr_handler timer_interrupt s = Some s' \<and> running_thread s' = t \<and>
    fifo_ready_list s' = ts @ [running_thread s] \<and> thread_ticks s' = 0 \<and> ticks s' = ticks s + 1 \<and>
    kont_of s' (running_thread s) = Intr_set_level INTR_OFF # Iret (intr s) # kont_of s (running_thread s)"
proof -
  note k = kreach_kinv[OF assms(1)] and i = kinv_interrupted(4)[OF kreach_kinv[OF assms(1)]]
  let ?z = "(ticked s)\<lparr>in_external_intr := False\<rparr>"
  have q: "fifo_ready_list ?z = t # ts" "running_thread ?z = running_thread s" "idle_thread ?z = idle_thread s"
    using assms(2) i by (simp_all add: ticked_def Let_def interrupted_def push_kontf)
  have ko: "kont_of ?z (running_thread s) = Iret (intr s) # kont_of s (running_thread s)" "intr ?z = INTR_OFF"
      "status_of ?z (running_thread s) \<noteq> None"
    using kinvD(3)[OF k] by (simp_all add: ticked_def Let_def interrupted_def push_kontf)
  have p: "pick (ready_state ?z) = (t, ts @ [running_thread s])"
    using q assms(3) by (simp add: pick_def)
  have y: "leave_intr (ticked s) = switched (ready_state ?z)"
    using assms(4) by (simp add: leave_intr_def ticked_def Let_def)
  have sn: "sinv None (ready_state ?z)" by (rule yield_ok(3)[OF kinvD(1,2)[OF timer_interrupt_eq(4)[OF k]]])
  have "ticks (ready_state ?z) = ticks s + 1"
    by (simp add: ready_state_def push_kontf ticked_def Let_def)
  with timer_ok(1)[OF k] p q ko show ?thesis
    by (simp add: y switched_kont[OF sn])
qed


text \<open>A second thread, in page 12288, created by the main thread, and \<open>n\<close> timer ticks.\<close>

definition two_threads :: "nat \<Rightarrow> kernel" where
  "two_threads n = main_runs\<lparr>
     threads := (threads main_runs)(12288 \<mapsto> mk_thread ''worker'' 31 THREAD_READY 16340 3 [Intr_set_level INTR_ON]),
     fifo_ready_list := [12288], all_list := [4096, 8192, 12288], next_tid := 4,
     thread_ticks := of_nat n, ticks := of_nat n, kernel_ticks := of_nat n\<rparr>"

lemma run_actions_reach: "run_actions n s = Some s' \<Longrightarrow> kreach s \<Longrightarrow> kreach s'"
  by (induction n arbitrary: s) (auto simp: bind_eq_Some_conv intro: kreach.step kstep.run)

lemma two_threads_0: "kreach (two_threads 0)"
proof -
  let ?call = "tl (thread_create 12288 ''worker'' 31 Client_func)"
  define s where "s = the (exec (Init_thread 12288 ''worker'' 31) (push ?call main_runs))"
  have e: "exec (Init_thread 12288 ''worker'' 31) (push ?call main_runs) = Some s"
    by (simp add: s_def main_defs action_defs)
  have k: "kont_of main_runs (running_thread main_runs) = []" by (simp add: main_defs kont_of_def)
  have c: "client_call main_runs (Init_thread 12288 ''worker'' 31 # ?call)"
    using client_call.intros(15)[of 12288 main_runs "''worker''" 31] by (simp add: main_defs thread_create_def)
  have "kreach s" by (rule kreach.step[OF main_runs_reach kstep.call[OF k c e]])
  moreover have "run_actions 8 s = Some (two_threads 0)"
    unfolding s_def main_defs thread_create_def allocate_tid_def
    by (simp add: action_defs, rule run_more, simp add: action_defs,
      (unfold pred_numeral_simps BitM.simps, rule run_more, simp add: action_defs)+,
      simp add: two_threads_def main_defs fun_eq_iff)
  ultimately show ?thesis using run_actions_reach by blast
qed


lemma two_threads_tick: "n < 3 \<Longrightarrow> kreach (two_threads n) \<Longrightarrow> kreach (two_threads (Suc n))"
proof -
  assume n: "n < 3" and r: "kreach (two_threads n)"
  define s where "s = the (intr_handler timer_interrupt (two_threads n))"
  have e: "intr_handler timer_interrupt (two_threads n) = Some s"
    using timer_ok(1)[OF kreach_kinv[OF r]] by (simp add: s_def)
  have nt: "\<not> TIME_SLICE \<le> (word_of_nat n :: u32) + 1"
  proof -
    have "n = 0 \<or> n = 1 \<or> n = 2" using n by auto
    then show ?thesis by (auto simp: TIME_SLICE_def word_le_nat_alt)
  qed
  have "run_actions 1 s = Some (two_threads (Suc n))"
    unfolding s_def
    by (simp add: intr_handler_def timer_interrupt_def thread_tick_def two_threads_def main_defs action_defs
      intr_yield_on_return_def fun_eq_iff nt)
  moreover have "kreach s" by (rule kreach.step[OF r kstep.timer[OF _ e]]) (simp add: two_threads_def main_defs)
  ultimately show ?thesis using run_actions_reach by blast
qed

lemma two_threads_reach: "kreach (two_threads 3)"
  using two_threads_tick[OF _ two_threads_tick[OF _ two_threads_tick[OF _ two_threads_0]]]
  by (simp add: numeral_3_eq_3)

theorem timer_preempts_witness:
  "\<exists>s'. intr_handler timer_interrupt (two_threads 3) = Some s' \<and> running_thread s' = 12288 \<and>
    fifo_ready_list s' = [4096] \<and> thread_ticks s' = 0"
proof -
  have "running_thread (two_threads 3) = 4096" by (simp add: two_threads_def main_defs)
  then show ?thesis
    using timer_preempts[OF two_threads_reach, of 12288 "[]"]
    by (auto simp: two_threads_def main_defs TIME_SLICE_def)
qed

section \<open>Semaphores and locks\<close>

text \<open>Semaphores are first come, first served: \<^verbatim>\<open>sema_up\<close> makes the thread that has waited longest ready, at the back of the
  run queue, leaves the others in order, and adds one to the value; with nobody waiting it only adds one.\<close>

lemma sema_up_wakes_first:
  assumes "kreach s"
  shows "\<exists>s'. sema_up x s = Some s' \<and> sema_value (semas s' x) = sema_value (semas s x) + 1 \<and>
    waiters (semas s' x) = tl (waiters (semas s x)) \<and> (\<forall>y. y \<noteq> x \<longrightarrow> semas s' y = semas s y) \<and>
    fifo_ready_list s' = fifo_ready_list s @ take 1 (waiters (semas s x)) \<and>
    (\<forall>t. status_of s' t = (if take 1 (waiters (semas s x)) = [t] then Some THREAD_READY else status_of s t)) \<and>
    running_thread s' = running_thread s"
proof -
  note k = kreach_kinv[OF assms] and d = sinvD[OF kinvD(1)[OF kreach_kinv[OF assms]]]
  have e: "sema_up x s = Some (upped x s)"
    using sema_up_eq[OF sinv_leave_intr[OF kinvD(1)[OF k]]] d(4) by (simp add: upped_def)
  have b: "status_of s t = Some THREAD_BLOCKED" if "waiters (semas s x) = t # ts" for t ts
    using konts_okD(2)[OF d(3), of t x] that by (simp add: waits_on_def)
  show ?thesis
    by (rule exI[of _ "upped x s"])
      (use e b in \<open>auto simp: upped_def woken_state_def upd_sema_def split: list.splits\<close>)
qed

lemma sema_up_wakes_first_witness:
  "\<exists>s'. sema_up (Sema 1) main_sleeps = Some s' \<and> waiters (semas s' (Sema 1)) = [] \<and>
    fifo_ready_list s' = [4096] \<and> status_of s' 4096 = Some THREAD_READY"
  using sema_up_wakes_first[OF main_sleeps_reach, of "Sema 1"]
  by (auto simp: main_sleeps_def main_defs)

text \<open>C6. No wake-up is lost: while threads wait on a semaphore, its value is at most the number of threads that
  have been woken from it and are about to test it again. In particular, if nobody is on the way, the value is zero.\<close>

theorem no_lost_wakeup:
  assumes "kreach s" and "waiters (semas s x) \<noteq> []"
  shows "unat (sema_value (semas s x)) \<le>
    card {t. t \<notin> set (waiters (semas s x)) \<and> (\<exists>l ks. kont_of s t = Sema_down_loop x l # ks)}"
proof -
  have "at_loop x ks \<longleftrightarrow> (\<exists>l ks'. ks = Sema_down_loop x l # ks')" for ks by (cases ks) auto
  then have "woken s x = {t. t \<notin> set (waiters (semas s x)) \<and> (\<exists>l ks. kont_of s t = Sema_down_loop x l # ks)}"
    by (auto simp: woken_def waits_on_def)
  then show ?thesis using kreach_winv[OF assms(1)] assms(2) unfolding winv_def by metis
qed

theorem no_lost_wakeup_witness: "sema_value (semas main_sleeps (Sema 1)) = 0"
proof -
  have n: "{t. t \<notin> set (waiters (semas main_sleeps (Sema 1))) \<and>
      (\<exists>l ks. kont_of main_sleeps t = Sema_down_loop (Sema 1) l # ks)} = {}"
    by (auto simp: main_sleeps_def kont_of_def mk_thread_def split: if_splits)
  have "waiters (semas main_sleeps (Sema 1)) \<noteq> []" by (simp add: main_sleeps_def)
  from no_lost_wakeup[OF main_sleeps_reach this] show ?thesis unfolding n by (simp add: unat_eq_zero)
qed

text \<open>C7. Mutual exclusion: while a lock is held, no step of the system hands it to another thread. The \<^verbatim>\<open>holder\<close> of a
  lock changes only from nobody to the thread that is running, and from the thread that is running to nobody.\<close>

theorem lock_mutual_exclusion:
  assumes "kreach s" and "kstep s s'" and "holder s' l \<noteq> holder s l"
  shows "holder s l = 0 \<and> holder s' l = running_thread s \<or> holder s l = running_thread s \<and> holder s' l = 0"
  by (rule step_holder[OF kreach_kinv[OF assms(1)] kreach_linv[OF assms(1)] assms(2,3)])

theorem lock_mutual_exclusion_witness:
  "holder (main_holds [] 0 4096) (Lock 0) = running_thread (main_holds [] 0 4096)"
proof -
  have "holder (main_holds [Sema_up (Lock_sema (Lock 0))] 0 0) (Lock 0) \<noteq> holder (main_holds [] 0 4096) (Lock 0)"
    by (simp add: main_holds_def)
  from lock_mutual_exclusion[OF main_holds_reach main_acquires(4) this] show ?thesis
    by (simp add: main_holds_def)
qed

text \<open>C8. A lock has one owner: at any moment either its semaphore is up, nobody holds it and nobody has been let in; or it has a
  holder, and nobody else has been let in; or exactly one thread has come through its semaphore and is about to
  become the holder, or has just stopped being it.\<close>

theorem lock_one_owner:
  assumes "kreach s"
  shows "one_owner (sema_value (semas s (Lock_sema l))) (holder s l) {t. granting (ret_of s t) l (kont_of s t)}"
  using kreach_linv[OF assms] by (simp add: linv_def granted_def)

theorem lock_one_owner_witness:
  "{t. granting (ret_of (main_holds [] 0 4096) t) (Lock 0) (kont_of (main_holds [] 0 4096) t)} = {}"
  using lock_one_owner[OF main_holds_reach, of "Lock 0"] by (simp add: one_owner_def main_holds_def)

end
