(* ===== verification/Bitmap.thy ===== *)
theory Bitmap
  imports Vaddr
begin

unbundle bit_operations_syntax

text \<open>
  Bitmaps, after \<^verbatim>\<open>lib/kernel/bitmap.c\<close>: an array of bits kept in 32-bit elements. The abstraction is
  the list of the bits; every operation is shown to be the obvious one on that list. The
  file operations are in \<open>Free_Map\<close>.
\<close>

section \<open>Definitions\<close>

record bitmap =
  bit_cnt :: u32
  bits :: "u32 list"

definition BITMAP_ERROR :: u32 where "BITMAP_ERROR = -1"

definition ELEM_BITS :: u32 where "ELEM_BITS = 4 * 8"

definition elem_idx :: "u32 \<Rightarrow> u32" where "elem_idx bit_idx = bit_idx div ELEM_BITS"

definition bit_mask :: "u32 \<Rightarrow> u32" where "bit_mask bit_idx = push_bit (unat (bit_idx mod ELEM_BITS)) 1"

definition elem_cnt :: "u32 \<Rightarrow> u32" where "elem_cnt n = (n + ELEM_BITS - 1) div ELEM_BITS"

definition byte_cnt :: "u32 \<Rightarrow> u32" where "byte_cnt n = 4 * elem_cnt n"

definition last_mask :: "bitmap \<Rightarrow> u32" where
  "last_mask b = (let last_bits = bit_cnt b mod ELEM_BITS in
     if last_bits \<noteq> 0 then push_bit (unat last_bits) 1 - 1 else -1)"

definition bitmap_size :: "bitmap \<Rightarrow> u32" where "bitmap_size b = bit_cnt b"

text \<open>Changing one element; outside the array there is no such element.\<close>

definition upd_elem :: "(u32 \<Rightarrow> u32) \<Rightarrow> u32 \<Rightarrow> bitmap \<Rightarrow> bitmap option" where
  "upd_elem f bit_idx b = (let i = unat (elem_idx bit_idx) in
     Option.bind (lookup_at (bits b) i) (\<lambda>e. Some (b\<lparr>bits := (bits b)[i := f e]\<rparr>)))"

definition bitmap_mark :: "u32 \<Rightarrow> bitmap \<Rightarrow> bitmap option" where
  "bitmap_mark bit_idx b = upd_elem (\<lambda>e. e OR bit_mask bit_idx) bit_idx b"

definition bitmap_reset :: "u32 \<Rightarrow> bitmap \<Rightarrow> bitmap option" where
  "bitmap_reset bit_idx b = upd_elem (\<lambda>e. e AND NOT (bit_mask bit_idx)) bit_idx b"

definition bitmap_flip :: "u32 \<Rightarrow> bitmap \<Rightarrow> bitmap option" where
  "bitmap_flip bit_idx b = upd_elem (\<lambda>e. e XOR bit_mask bit_idx) bit_idx b"

definition bitmap_set :: "u32 \<Rightarrow> bool \<Rightarrow> bitmap \<Rightarrow> bitmap option" where
  "bitmap_set idx v b =
     ASSERT (idx < bit_cnt b) (if v then bitmap_mark idx b else bitmap_reset idx b)"

definition bitmap_test :: "bitmap \<Rightarrow> u32 \<Rightarrow> bool option" where
  "bitmap_test b idx =
     ASSERT (idx < bit_cnt b) (
     Option.bind (lookup_at (bits b) (unat (elem_idx idx))) (\<lambda>e. Some (e AND bit_mask idx \<noteq> 0)))"

function bitmap_set_multiple_loop :: "u32 \<Rightarrow> u32 \<Rightarrow> bool \<Rightarrow> u32 \<Rightarrow> bitmap \<Rightarrow> bitmap option" where
  "bitmap_set_multiple_loop start cnt v i b =
     (if i < cnt then Option.bind (bitmap_set (start + i) v b) (bitmap_set_multiple_loop start cnt v (i + 1))
      else Some b)"
  by pat_completeness auto
termination
  by (relation "measure (\<lambda>(start, cnt, v, i, b). unat (cnt - i))") (auto intro: loop_measure)

definition bitmap_set_multiple :: "u32 \<Rightarrow> u32 \<Rightarrow> bool \<Rightarrow> bitmap \<Rightarrow> bitmap option" where
  "bitmap_set_multiple start cnt v b =
     ASSERT (start \<le> bit_cnt b) (
     ASSERT (start + cnt \<le> bit_cnt b) (
     bitmap_set_multiple_loop start cnt v 0 b))"

definition bitmap_set_all :: "bool \<Rightarrow> bitmap \<Rightarrow> bitmap option" where
  "bitmap_set_all v b = bitmap_set_multiple 0 (bitmap_size b) v b"

function bitmap_count_loop :: "bitmap \<Rightarrow> u32 \<Rightarrow> u32 \<Rightarrow> bool \<Rightarrow> u32 \<Rightarrow> u32 \<Rightarrow> u32 option" where
  "bitmap_count_loop b start cnt v i value_cnt =
     (if i < cnt then Option.bind (bitmap_test b (start + i)) (\<lambda>t.
        bitmap_count_loop b start cnt v (i + 1) (if t = v then value_cnt + 1 else value_cnt))
      else Some value_cnt)"
  by pat_completeness auto
termination
  by (relation "measure (\<lambda>(b, start, cnt, v, i, n). unat (cnt - i))") (auto intro: loop_measure)

definition bitmap_count :: "bitmap \<Rightarrow> u32 \<Rightarrow> u32 \<Rightarrow> bool \<Rightarrow> u32 option" where
  "bitmap_count b start cnt v =
     ASSERT (start \<le> bit_cnt b) (
     ASSERT (start + cnt \<le> bit_cnt b) (
     bitmap_count_loop b start cnt v 0 0))"

function bitmap_contains_loop :: "bitmap \<Rightarrow> u32 \<Rightarrow> u32 \<Rightarrow> bool \<Rightarrow> u32 \<Rightarrow> bool option" where
  "bitmap_contains_loop b start cnt v i =
     (if i < cnt then Option.bind (bitmap_test b (start + i)) (\<lambda>t.
        if t = v then Some True else bitmap_contains_loop b start cnt v (i + 1))
      else Some False)"
  by pat_completeness auto
termination
  by (relation "measure (\<lambda>(b, start, cnt, v, i). unat (cnt - i))") (auto intro: loop_measure)

definition bitmap_contains :: "bitmap \<Rightarrow> u32 \<Rightarrow> u32 \<Rightarrow> bool \<Rightarrow> bool option" where
  "bitmap_contains b start cnt v =
     ASSERT (start \<le> bit_cnt b) (
     ASSERT (start + cnt \<le> bit_cnt b) (
     bitmap_contains_loop b start cnt v 0))"

definition bitmap_any :: "bitmap \<Rightarrow> u32 \<Rightarrow> u32 \<Rightarrow> bool option" where
  "bitmap_any b start cnt = bitmap_contains b start cnt True"

definition bitmap_none :: "bitmap \<Rightarrow> u32 \<Rightarrow> u32 \<Rightarrow> bool option" where
  "bitmap_none b start cnt = map_option Not (bitmap_contains b start cnt True)"

definition bitmap_all :: "bitmap \<Rightarrow> u32 \<Rightarrow> u32 \<Rightarrow> bool option" where
  "bitmap_all b start cnt = map_option Not (bitmap_contains b start cnt False)"

text \<open>The scan can in principle run for ever: \<^verbatim>\<open>i <= last\<close> always holds when \<^verbatim>\<open>last\<close> is the largest
  \<^verbatim>\<open>size_t\<close>.\<close>

partial_function (option) bitmap_scan_loop :: "bitmap \<Rightarrow> u32 \<Rightarrow> bool \<Rightarrow> u32 \<Rightarrow> u32 \<Rightarrow> u32 option" where
  "bitmap_scan_loop b cnt v lst i =
     (if i \<le> lst then Option.bind (bitmap_contains b i cnt (\<not> v)) (\<lambda>c.
        if \<not> c then Some i else bitmap_scan_loop b cnt v lst (i + 1))
      else Some BITMAP_ERROR)"

definition bitmap_scan :: "bitmap \<Rightarrow> u32 \<Rightarrow> u32 \<Rightarrow> bool \<Rightarrow> u32 option" where
  "bitmap_scan b start cnt v =
     ASSERT (start \<le> bit_cnt b) (
     if cnt \<le> bit_cnt b then bitmap_scan_loop b cnt v (bit_cnt b - cnt) start
     else Some BITMAP_ERROR)"

definition bitmap_scan_and_flip :: "bitmap \<Rightarrow> u32 \<Rightarrow> u32 \<Rightarrow> bool \<Rightarrow> (u32 \<times> bitmap) option" where
  "bitmap_scan_and_flip b start cnt v =
     Option.bind (bitmap_scan b start cnt v) (\<lambda>idx.
     if idx \<noteq> BITMAP_ERROR then Option.bind (bitmap_set_multiple idx cnt (\<not> v) b) (\<lambda>b. Some (idx, b))
     else Some (idx, b))"

text \<open>Creation. The storage is what \<^verbatim>\<open>malloc\<close> returned (\<open>None\<close>: a null pointer), with arbitrary
  contents; the first argument of \<open>bitmap_create\<close> says whether the block for the structure itself was there.
  The result is \<open>Some None\<close> for a null pointer.\<close>

definition bitmap_buf_size :: "u32 \<Rightarrow> u32" where "bitmap_buf_size n = 8 + byte_cnt n"

definition bitmap_create :: "bool \<Rightarrow> u32 list option \<Rightarrow> u32 \<Rightarrow> bitmap option option" where
  "bitmap_create got_struct mem n =
     (if got_struct \<and> (mem \<noteq> None \<or> n = 0)
      then Option.bind (bitmap_set_all False \<lparr>bit_cnt = n, bits = (case mem of None \<Rightarrow> [] | Some m \<Rightarrow> m)\<rparr>)
        (\<lambda>b. Some (Some b))
      else Some None)"

definition bitmap_create_in_buf :: "u32 \<Rightarrow> u32 list \<Rightarrow> u32 \<Rightarrow> bitmap option" where
  "bitmap_create_in_buf n mem block_size =
     ASSERT (block_size \<ge> bitmap_buf_size n) (bitmap_set_all False \<lparr>bit_cnt = n, bits = mem\<rparr>)"


section \<open>The bits of a bitmap\<close>

definition bit_at :: "bitmap \<Rightarrow> nat \<Rightarrow> bool" where
  "bit_at b n = bit (bits b ! (n div 32)) (n mod 32)"

definition bits_of :: "bitmap \<Rightarrow> bool list" where
  "bits_of b = map (bit_at b) [0..<unat (bit_cnt b)]"

definition bitmap_ok :: "bitmap \<Rightarrow> bool" where
  "bitmap_ok b \<longleftrightarrow> unat (bit_cnt b) \<le> 32 * length (bits b)"

lemma length_bits_of [simp]: "length (bits_of b) = unat (bit_cnt b)"
  by (simp add: bits_of_def)

lemma nth_bits_of: "n < unat (bit_cnt b) \<Longrightarrow> bits_of b ! n = bit_at b n"
  by (simp add: bits_of_def)

lemma unat_elem_idx: "unat (elem_idx i) = unat i div 32"
  by (simp add: elem_idx_def ELEM_BITS_def unat_div)

lemma bit_mask_bit: "bit (bit_mask i) n \<longleftrightarrow> n = unat i mod 32"
proof -
  have "unat (i mod 32) = unat i mod 32" by (simp add: unat_mod)
  then show ?thesis
    by (auto simp: bit_mask_def ELEM_BITS_def bit_simps)
qed

lemma in_range: "bitmap_ok b \<Longrightarrow> i < bit_cnt b \<Longrightarrow> unat i div 32 < length (bits b)"
  by (simp add: bitmap_ok_def word_less_nat_alt less_mult_imp_div_less mult.commute)

lemma bitmap_test_eq:
  assumes "bitmap_ok b"
  shows "bitmap_test b i = (if i < bit_cnt b then Some (bits_of b ! unat i) else None)"
proof (cases "i < bit_cnt b")
  case True
  have "(e AND bit_mask i \<noteq> 0) \<longleftrightarrow> bit e (unat i mod 32)" for e
    using and_exp_eq_0_iff_not_bit[of e "unat i mod 32"]
    by (simp add: bit_mask_def ELEM_BITS_def unat_mod push_bit_of_1)
  moreover have "unat i < unat (bit_cnt b)" using True by (simp add: word_less_nat_alt)
  ultimately show ?thesis
    using True in_range[OF assms True] by (simp add: bitmap_test_def unat_elem_idx nth_bits_of bit_at_def)
qed (simp add: bitmap_test_def)

text \<open>Changing one element changes the bits of the element as the mask says.\<close>

lemma upd_elem_eq:
  assumes ok: "bitmap_ok b" and i: "i < bit_cnt b"
    and f: "\<And>e n. n < 32 \<Longrightarrow> bit (f e) n = (if n = unat i mod 32 then g (bit e n) else bit e n)"
  shows "\<exists>b'. upd_elem f i b = Some b' \<and> bitmap_ok b' \<and> bit_cnt b' = bit_cnt b \<and>
    bits_of b' = (bits_of b)[unat i := g (bits_of b ! unat i)]"
proof -
  let ?k = "unat i div 32"
  let ?b = "b\<lparr>bits := (bits b)[?k := f (bits b ! ?k)]\<rparr>"
  have k: "?k < length (bits b)" by (rule in_range[OF ok i])
  have iu: "unat i < unat (bit_cnt b)" using i by (simp add: word_less_nat_alt)
  have "upd_elem f i b = Some ?b" using k by (simp add: upd_elem_def unat_elem_idx Let_def)
  moreover have "bits_of ?b = (bits_of b)[unat i := g (bits_of b ! unat i)]"
  proof (rule nth_equalityI)
    fix n assume "n < length (bits_of ?b)"
    then have n: "n < unat (bit_cnt b)" by simp
    have "n = unat i \<longleftrightarrow> n div 32 = ?k \<and> n mod 32 = unat i mod 32"
      by (metis div_mult_mod_eq)
    then show "bits_of ?b ! n = (bits_of b)[unat i := g (bits_of b ! unat i)] ! n"
      using n iu k by (auto simp: nth_bits_of bit_at_def f nth_list_update)
  qed simp
  ultimately show ?thesis using ok by (auto simp: bitmap_ok_def)
qed

lemma bitmap_set_eq:
  assumes ok: "bitmap_ok b" and i: "i < bit_cnt b"
  shows "\<exists>b'. bitmap_set i v b = Some b' \<and> bitmap_ok b' \<and> bit_cnt b' = bit_cnt b \<and> bits_of b' = (bits_of b)[unat i := v]"
  using i upd_elem_eq[OF ok i, where g = "\<lambda>_. v" and f = "if v then (\<lambda>e. e OR bit_mask i) else (\<lambda>e. e AND NOT (bit_mask i))"]
  by (auto simp: bitmap_set_def bitmap_mark_def bitmap_reset_def bit_or_iff bit_and_iff bit_not_iff bit_mask_bit)

lemma bitmap_flip_eq:
  assumes ok: "bitmap_ok b" and i: "i < bit_cnt b"
  shows "\<exists>b'. bitmap_flip i b = Some b' \<and> bitmap_ok b' \<and> bit_cnt b' = bit_cnt b \<and>
    bits_of b' = (bits_of b)[unat i := \<not> bits_of b ! unat i]"
  using upd_elem_eq[OF ok i, where g = Not and f = "\<lambda>e. e XOR bit_mask i"]
  by (auto simp: bitmap_flip_def bit_xor_iff bit_mask_bit)


section \<open>Ranges of bits\<close>

text \<open>A range \<open>[start, start + cnt)\<close> inside the bitmap, as the assertions check it; the check wraps for
  huge counts, which the single-bit operations then catch.\<close>

definition in_bitmap :: "bitmap \<Rightarrow> u32 \<Rightarrow> u32 \<Rightarrow> bool" where
  "in_bitmap b start cnt \<longleftrightarrow> unat start + unat cnt \<le> unat (bit_cnt b)"

lemma in_bitmap_asserts:
  assumes "in_bitmap b start cnt"
  shows "start \<le> bit_cnt b" "start + cnt \<le> bit_cnt b" "unat (start + cnt) = unat start + unat cnt"
  using assms unat_add_le[of start cnt "bit_cnt b"] by (auto simp: in_bitmap_def word_le_nat_alt)

lemma in_bitmap_step:
  assumes "in_bitmap b start cnt" "i < cnt"
  shows "start + i < bit_cnt b" "unat (start + i) = unat start + unat i" "unat (i + 1) = unat i + 1"
proof -
  have "unat start + unat i < unat (bit_cnt b)" using assms by (simp add: in_bitmap_def word_less_nat_alt)
  then show "start + i < bit_cnt b" "unat (start + i) = unat start + unat i"
    using unat_add_le[of start i "bit_cnt b"] by (simp_all add: word_less_nat_alt)
  show "unat (i + 1) = unat i + 1" by (rule unat_inc[OF assms(2)])
qed

lemma set_multiple_loop_eq:
  assumes "bitmap_ok b" "in_bitmap b start cnt" "i \<le> cnt"
  shows "\<exists>b'. bitmap_set_multiple_loop start cnt v i b = Some b' \<and> bitmap_ok b' \<and> bit_cnt b' = bit_cnt b \<and>
    (\<forall>n < unat (bit_cnt b). bits_of b' ! n = (if unat start + unat i \<le> n \<and> n < unat start + unat cnt then v else bits_of b ! n))"
  using assms
proof (induction start cnt v i b rule: bitmap_set_multiple_loop.induct)
  case (1 start cnt v i b)
  show ?case
  proof (cases "i < cnt")
    case False
    with 1(4) have "i = cnt" by simp
    with 1 show ?thesis by (auto simp: bitmap_set_multiple_loop.simps[of _ _ _ cnt])
  next
    case True
    note st = in_bitmap_step[OF 1(3) True]
    obtain b1 where b1: "bitmap_set (start + i) v b = Some b1" "bitmap_ok b1" "bit_cnt b1 = bit_cnt b"
      "bits_of b1 = (bits_of b)[unat start + unat i := v]"
      using bitmap_set_eq[OF 1(2) st(1), of v] st(2) by auto
    have "in_bitmap b1 start cnt" using 1(3) b1(3) by (simp add: in_bitmap_def)
    moreover have "i + 1 \<le> cnt" using True by (rule inc_le)
    ultimately obtain b' where b': "bitmap_set_multiple_loop start cnt v (i + 1) b1 = Some b'" "bitmap_ok b'"
      "bit_cnt b' = bit_cnt b1" "\<forall>n < unat (bit_cnt b1). bits_of b' ! n =
         (if unat start + unat (i + 1) \<le> n \<and> n < unat start + unat cnt then v else bits_of b1 ! n)"
      using 1(1)[OF True b1(1,2)] by blast
    have "unat i < unat cnt" using True by (simp add: word_less_nat_alt)
    with b' b1 True st(3) show ?thesis
      by (subst bitmap_set_multiple_loop.simps) (auto simp: nth_list_update)
  qed
qed

lemma bitmap_set_multiple_eq:
  assumes "bitmap_ok b" "in_bitmap b start cnt"
  shows "\<exists>b'. bitmap_set_multiple start cnt v b = Some b' \<and> bitmap_ok b' \<and> bit_cnt b' = bit_cnt b \<and>
    (\<forall>n < unat (bit_cnt b). bits_of b' ! n = (if unat start \<le> n \<and> n < unat start + unat cnt then v else bits_of b ! n))"
  using set_multiple_loop_eq[OF assms, of 0 v] in_bitmap_asserts[OF assms(2)]
  by (simp add: bitmap_set_multiple_def)

lemma ex_range_Cons:
  "a < (e :: nat) \<Longrightarrow> (\<exists>n. a \<le> n \<and> n < e \<and> P n) \<longleftrightarrow> P a \<or> (\<exists>n. a + 1 \<le> n \<and> n < e \<and> P n)"
proof -
  assume "a < e"
  have "(a \<le> n) = (n = a \<or> a + 1 \<le> n)" for n by linarith
  then show ?thesis using \<open>a < e\<close> by auto
qed

lemma contains_loop_eq:
  assumes "bitmap_ok b" "in_bitmap b start cnt" "i \<le> cnt"
  shows "bitmap_contains_loop b start cnt v i =
    Some (\<exists>n. unat start + unat i \<le> n \<and> n < unat start + unat cnt \<and> bits_of b ! n = v)"
  using assms
proof (induction b start cnt v i rule: bitmap_contains_loop.induct)
  case (1 b start cnt v i)
  show ?case
  proof (cases "i < cnt")
    case False
    with 1(4) have "i = cnt" by simp
    then show ?thesis by (auto simp: bitmap_contains_loop.simps[of _ _ _ _ cnt])
  next
    case True
    note st = in_bitmap_step[OF 1(3) True]
    have u: "unat i < unat cnt" using True by (simp add: word_less_nat_alt)
    have rec: "bitmap_contains_loop b start cnt v (i + 1) =
        Some (\<exists>n. unat start + unat (i + 1) \<le> n \<and> n < unat start + unat cnt \<and> bits_of b ! n = v)"
      if "bits_of b ! (unat start + unat i) \<noteq> v"
      using 1(1)[OF True _ that 1(2,3) inc_le[OF True]] 1(2) st(1,2) by (simp add: bitmap_test_eq)
    have "(\<exists>n. unat start + unat i \<le> n \<and> n < unat start + unat cnt \<and> bits_of b ! n = v) \<longleftrightarrow>
        bits_of b ! (unat start + unat i) = v \<or>
        (\<exists>n. unat start + unat (i + 1) \<le> n \<and> n < unat start + unat cnt \<and> bits_of b ! n = v)"
      using ex_range_Cons[of "unat start + unat i" "unat start + unat cnt" "\<lambda>n. bits_of b ! n = v"] u st(3) by simp
    then show ?thesis
      using True st(1,2) rec 1(2) by (subst bitmap_contains_loop.simps) (auto simp: bitmap_test_eq)
  qed
qed

lemma bitmap_contains_eq:
  assumes "bitmap_ok b" "in_bitmap b start cnt"
  shows "bitmap_contains b start cnt v = Some (\<exists>n. unat start \<le> n \<and> n < unat start + unat cnt \<and> bits_of b ! n = v)"
  using contains_loop_eq[OF assms, of 0 v] in_bitmap_asserts[OF assms(2)] by (simp add: bitmap_contains_def)


text \<open>\<open>count_range\<close> is what \<^verbatim>\<open>bitmap_count\<close> computes.\<close>

definition count_range :: "bool list \<Rightarrow> nat \<Rightarrow> nat \<Rightarrow> bool \<Rightarrow> nat" where
  "count_range bs start cnt v = length (filter (\<lambda>n. bs ! n = v) [start..<start + cnt])"

lemma count_loop_eq:
  assumes "bitmap_ok b" "in_bitmap b start cnt" "i \<le> cnt"
  shows "bitmap_count_loop b start cnt v i c =
    Some (c + of_nat (count_range (bits_of b) (unat start + unat i) (unat cnt - unat i) v))"
  using assms
proof (induction b start cnt v i c rule: bitmap_count_loop.induct)
  case (1 b start cnt v i c)
  show ?case
  proof (cases "i < cnt")
    case False
    with 1(4) have "i = cnt" by simp
    then show ?thesis by (simp add: bitmap_count_loop.simps[of _ _ _ _ cnt] count_range_def)
  next
    case True
    note st = in_bitmap_step[OF 1(3) True]
    have u: "unat i < unat cnt" using True by (simp add: word_less_nat_alt)
    let ?t = "bits_of b ! (unat start + unat i)"
    have t: "bitmap_test b (start + i) = Some ?t" using 1(2) st by (simp add: bitmap_test_eq)
    have "[unat start + unat i..<unat start + unat cnt] =
        (unat start + unat i) # [unat start + (unat i + 1)..<unat start + unat cnt]"
      using u by (simp add: upt_conv_Cons)
    then have "count_range (bits_of b) (unat start + unat i) (unat cnt - unat i) v =
        (if ?t = v then 1 else 0) + count_range (bits_of b) (unat start + unat (i + 1)) (unat cnt - unat (i + 1)) v"
      using u st(3) by (simp add: count_range_def)
    then show ?thesis
      using 1(1)[OF True t 1(2,3) inc_le[OF True]] True t
      by (subst bitmap_count_loop.simps) (auto simp: algebra_simps)
  qed
qed

lemma bitmap_count_eq:
  assumes "bitmap_ok b" "in_bitmap b start cnt"
  shows "bitmap_count b start cnt v = Some (of_nat (count_range (bits_of b) (unat start) (unat cnt) v))"
  using count_loop_eq[OF assms, of 0 v 0] in_bitmap_asserts[OF assms(2)] by (simp add: bitmap_count_def)

section \<open>Scanning\<close>

definition run_at :: "bool list \<Rightarrow> nat \<Rightarrow> bool \<Rightarrow> nat \<Rightarrow> bool" where
  "run_at bs cnt v i \<longleftrightarrow> i + cnt \<le> length bs \<and> (\<forall>n. i \<le> n \<and> n < i + cnt \<longrightarrow> bs ! n = v)"

lemma run_at_code [code]: "run_at bs cnt v i \<longleftrightarrow> i + cnt \<le> length bs \<and> take cnt (drop i bs) = replicate cnt v"
proof -
  have "(\<forall>n. i \<le> n \<and> n < i + cnt \<longrightarrow> bs ! n = v) \<longleftrightarrow> (\<forall>k < cnt. bs ! (i + k) = v)"
    by (metis add_less_cancel_left le_add1 le_iff_add)
  then show ?thesis by (auto simp: run_at_def list_eq_iff_nth_eq)
qed

text \<open>The first run of \<open>cnt\<close> bits equal to \<open>v\<close> at or after \<open>start\<close>.\<close>

definition first_run :: "bool list \<Rightarrow> nat \<Rightarrow> nat \<Rightarrow> bool \<Rightarrow> nat option" where
  "first_run bs start cnt v = List.find (run_at bs cnt v) [start..<Suc (length bs)]"

lemma run_at_contains:
  assumes "bitmap_ok b" "in_bitmap b i cnt"
  shows "bitmap_contains b i cnt (\<not> v) = Some (\<not> run_at (bits_of b) (unat cnt) v (unat i))"
  using assms(2) bitmap_contains_eq[OF assms, of "\<not> v"] by (auto simp: run_at_def in_bitmap_def)

lemma find_none_beyond: "unat (bit_cnt b) < i + cnt \<Longrightarrow> first_run (bits_of b) i cnt v = None"
  by (auto simp: first_run_def find_None_iff run_at_def)

lemma first_run_step:
  "i \<le> length bs \<Longrightarrow> first_run bs i cnt v = (if run_at bs cnt v i then Some i else first_run bs (Suc i) cnt v)"
  unfolding first_run_def by (subst upt_conv_Cons) (simp_all del: upt_Suc)

lemma first_run_0: "i \<le> length bs \<Longrightarrow> first_run bs i 0 v = Some i"
  by (auto simp: first_run_step run_at_def)

definition idx_of :: "nat option \<Rightarrow> u32" where
  "idx_of r = (case r of None \<Rightarrow> BITMAP_ERROR | Some n \<Rightarrow> of_nat n)"

lemma scan_loop_eq:
  assumes ok: "bitmap_ok b" and c: "cnt \<le> bit_cnt b" "cnt \<noteq> 0"
  shows "bitmap_scan_loop b cnt v (bit_cnt b - cnt) i = Some (idx_of (first_run (bits_of b) (unat i) (unat cnt) v))"
proof (induction "unat (bit_cnt b) - unat i" arbitrary: i rule: less_induct)
  case less
  let ?last = "bit_cnt b - cnt"
  have last: "unat ?last = unat (bit_cnt b) - unat cnt" "unat cnt \<noteq> 0" "unat cnt \<le> unat (bit_cnt b)"
    using c by (auto simp: unat_sub word_le_nat_alt unat_eq_0)
  show ?case
  proof (cases "i \<le> ?last")
    case False
    then have "first_run (bits_of b) (unat i) (unat cnt) v = None"
      using last by (intro find_none_beyond) (simp add: word_le_nat_alt)
    with False show ?thesis by (subst bitmap_scan_loop.simps) (simp add: idx_of_def)
  next
    case True
    then have ib: "in_bitmap b i cnt" using last by (simp add: in_bitmap_def word_le_nat_alt)
    then have lt: "i < bit_cnt b" using last(2) by (simp add: in_bitmap_def word_less_nat_alt)
    have "unat (i + 1) = Suc (unat i)" using unat_inc[OF lt] by simp
    moreover have "unat (bit_cnt b) - unat (i + 1) < unat (bit_cnt b) - unat i"
      using lt unat_inc[OF lt] by (simp add: word_less_nat_alt)
    ultimately have "bitmap_scan_loop b cnt v ?last (i + 1) = Some (idx_of (first_run (bits_of b) (Suc (unat i)) (unat cnt) v))"
      using less by simp
    moreover have "unat i \<le> length (bits_of b)" using lt by (simp add: word_less_nat_alt)
    ultimately show ?thesis
      using True run_at_contains[OF ok ib] by (subst bitmap_scan_loop.simps) (simp add: first_run_step idx_of_def)
  qed
qed

lemma bitmap_scan_eq:
  assumes "bitmap_ok b" "start \<le> bit_cnt b"
  shows "bitmap_scan b start cnt v = Some (idx_of (first_run (bits_of b) (unat start) (unat cnt) v))"
proof (cases "cnt = 0")
  case True
  have "in_bitmap b start 0" using assms(2) by (simp add: in_bitmap_def word_le_nat_alt)
  then have "bitmap_scan_loop b 0 v (bit_cnt b) start = Some start"
    using assms run_at_contains[of b start 0 v]
    by (subst bitmap_scan_loop.simps) (simp add: run_at_def in_bitmap_def)
  then show ?thesis
    using True assms by (simp add: bitmap_scan_def first_run_0 idx_of_def word_le_nat_alt)
next
  case False
  show ?thesis
  proof (cases "cnt \<le> bit_cnt b")
    case True
    then show ?thesis using scan_loop_eq[OF assms(1) True False] assms(2) by (simp add: bitmap_scan_def)
  next
    case beyond: False
    then have "first_run (bits_of b) (unat start) (unat cnt) v = None"
      by (intro find_none_beyond) (simp add: word_le_nat_alt)
    with beyond assms show ?thesis by (simp add: bitmap_scan_def idx_of_def)
  qed
qed

text \<open>What a found run is: the first position from \<open>start\<close> on where the whole run fits.\<close>

lemma first_run_Some:
  assumes "first_run bs start cnt v = Some n"
  shows "start \<le> n" "run_at bs cnt v n" "\<And>m. start \<le> m \<Longrightarrow> m < n \<Longrightarrow> \<not> run_at bs cnt v m"
proof -
  obtain i where i: "i < length [start..<Suc (length bs)]" "run_at bs cnt v ([start..<Suc (length bs)] ! i)"
      "n = [start..<Suc (length bs)] ! i" "\<forall>j<i. \<not> run_at bs cnt v ([start..<Suc (length bs)] ! j)"
    using assms unfolding first_run_def find_Some_iff by blast
  have n: "n = start + i" using i(1,3) by (simp del: upt_Suc)
  show "start \<le> n" "run_at bs cnt v n" using i n by simp_all
  fix m assume m: "start \<le> m" "m < n"
  have "[start..<Suc (length bs)] ! (m - start) = m" using m n i(1) by (simp del: upt_Suc)
  moreover have "m - start < i" using m n by simp
  ultimately show "\<not> run_at bs cnt v m" using i(4) by metis
qed

lemma first_run_None:
  assumes "first_run bs start cnt v = None" "start \<le> m"
  shows "\<not> run_at bs cnt v m"
  using assms by (auto simp: first_run_def find_None_iff run_at_def simp del: upt_Suc)

definition set_run :: "bool list \<Rightarrow> nat \<Rightarrow> nat \<Rightarrow> bool \<Rightarrow> bool list" where
  "set_run bs i cnt v = map (\<lambda>n. if i \<le> n \<and> n < i + cnt then v else bs ! n) [0..<length bs]"

lemma length_set_run [simp]: "length (set_run bs i cnt v) = length bs"
  by (simp add: set_run_def)

lemma nth_set_run: "n < length bs \<Longrightarrow> set_run bs i cnt v ! n = (if i \<le> n \<and> n < i + cnt then v else bs ! n)"
  by (simp add: set_run_def)

lemma bitmap_set_multiple_run:
  assumes "bitmap_ok b" "in_bitmap b start cnt"
  shows "\<exists>b'. bitmap_set_multiple start cnt v b = Some b' \<and> bitmap_ok b' \<and> bit_cnt b' = bit_cnt b \<and>
    bits_of b' = set_run (bits_of b) (unat start) (unat cnt) v"
  using bitmap_set_multiple_eq[OF assms, of v] by (auto intro!: nth_equalityI simp: nth_set_run)

lemma scan_and_flip_eq:
  assumes ok: "bitmap_ok b" and st: "start \<le> bit_cnt b" and lt: "bit_cnt b < -1"
  shows "case first_run (bits_of b) (unat start) (unat cnt) v of
      None \<Rightarrow> bitmap_scan_and_flip b start cnt v = Some (BITMAP_ERROR, b)
    | Some n \<Rightarrow> (\<exists>b'. bitmap_scan_and_flip b start cnt v = Some (of_nat n, b') \<and> (of_nat n :: u32) \<noteq> BITMAP_ERROR \<and>
        unat (of_nat n :: u32) = n \<and> bitmap_ok b' \<and> bit_cnt b' = bit_cnt b \<and>
        bits_of b' = set_run (bits_of b) n (unat cnt) (\<not> v))"
proof (cases "first_run (bits_of b) (unat start) (unat cnt) v")
  case None
  then show ?thesis using bitmap_scan_eq[OF ok st] by (simp add: bitmap_scan_and_flip_def idx_of_def)
next
  case (Some n)
  have r: "n + unat cnt \<le> unat (bit_cnt b)" using first_run_Some(2)[OF Some] by (simp add: run_at_def)
  then have n: "unat (of_nat n :: u32) = n"
    using unat_bound[of "bit_cnt b"] by (simp add: unat_of_nat)
  have ne: "(of_nat n :: u32) \<noteq> BITMAP_ERROR"
    using lt n r by (auto simp: BITMAP_ERROR_def word_less_nat_alt)
  have "in_bitmap b (of_nat n) cnt" using n r by (simp add: in_bitmap_def)
  from bitmap_set_multiple_run[OF ok this, of "\<not> v"]
  show ?thesis using Some n ne bitmap_scan_eq[OF ok st] by (auto simp: bitmap_scan_and_flip_def idx_of_def)
qed


section \<open>Properties\<close>

text \<open>C9. A bitmap in 32-bit elements implements a list of bits: within its range, testing, setting and flipping a bit, setting
  a run of bits, and asking for a run whether and how often it contains a value, are the operations on the list,
  and none of them panics.\<close>

theorem bitmap_refines_bits:
  assumes "bitmap_ok b" "i < bit_cnt b" "unat start + unat cnt \<le> unat (bit_cnt b)"
  shows "bitmap_test b i = Some (bits_of b ! unat i) \<and>
    (\<exists>b'. bitmap_set i v b = Some b' \<and> bitmap_ok b' \<and> bits_of b' = (bits_of b)[unat i := v]) \<and>
    (\<exists>b'. bitmap_flip i b = Some b' \<and> bitmap_ok b' \<and> bits_of b' = (bits_of b)[unat i := \<not> bits_of b ! unat i]) \<and>
    (\<exists>b'. bitmap_set_multiple start cnt v b = Some b' \<and> bitmap_ok b' \<and> bits_of b' = set_run (bits_of b) (unat start) (unat cnt) v) \<and>
    bitmap_contains b start cnt v = Some (\<exists>n. unat start \<le> n \<and> n < unat start + unat cnt \<and> bits_of b ! n = v) \<and>
    bitmap_count b start cnt v = Some (of_nat (count_range (bits_of b) (unat start) (unat cnt) v))"
proof -
  have r: "in_bitmap b start cnt" using assms(3) by (simp add: in_bitmap_def)
  show ?thesis
    using bitmap_test_eq[OF assms(1), of i] bitmap_set_eq[OF assms(1,2), of v] bitmap_flip_eq[OF assms(1,2)]
      bitmap_set_multiple_run[OF assms(1) r, of v] bitmap_contains_eq[OF assms(1) r, of v] bitmap_count_eq[OF assms(1) r, of v] assms(2)
    by auto
qed

theorem bitmap_refines_bits_witness: "\<exists>b'. bitmap_set_multiple 30 4 True \<lparr>bit_cnt = 40, bits = [5, 0]\<rparr> = Some b' \<and> bitmap_ok b'"
  using bitmap_refines_bits[of "\<lparr>bit_cnt = 40, bits = [5, 0]\<rparr>" 3 30 4 True] by (auto simp: bitmap_ok_def)

text \<open>C10. \<^verbatim>\<open>bitmap_scan_and_flip\<close> finds the first run of \<open>cnt\<close> bits with the value asked for at or after
  \<open>start\<close>, flips exactly these bits and returns where they start; if there is none it returns \<^verbatim>\<open>BITMAP_ERROR\<close>
  and changes nothing. For a count of 0 the answer is \<open>start\<close>, where the comment promises 0.\<close>

theorem bitmap_scan_and_flip_first_fit:
  assumes "bitmap_ok b" "start \<le> bit_cnt b" "bit_cnt b < -1"
  shows "(\<exists>n b'. bitmap_scan_and_flip b start cnt v = Some (of_nat n, b') \<and> unat start \<le> n \<and> n + unat cnt \<le> unat (bit_cnt b) \<and>
      run_at (bits_of b) (unat cnt) v n \<and> (\<forall>m. unat start \<le> m \<and> m < n \<longrightarrow> \<not> run_at (bits_of b) (unat cnt) v m) \<and>
      bitmap_ok b' \<and> bits_of b' = set_run (bits_of b) n (unat cnt) (\<not> v) \<and> (cnt = 0 \<longrightarrow> n = unat start)) \<or>
    bitmap_scan_and_flip b start cnt v = Some (BITMAP_ERROR, b) \<and> (\<forall>m \<ge> unat start. \<not> run_at (bits_of b) (unat cnt) v m)"
proof (cases "first_run (bits_of b) (unat start) (unat cnt) v")
  case None
  then show ?thesis using scan_and_flip_eq[OF assms, of cnt v] first_run_None[OF None] by simp
next
  case (Some n)
  note r = first_run_Some[OF Some]
  have "cnt = 0 \<longrightarrow> n = unat start" using Some first_run_0[of "unat start" "bits_of b" v] assms(2) by (auto simp: word_le_nat_alt)
  moreover obtain b' where "bitmap_scan_and_flip b start cnt v = Some (of_nat n, b')" "bitmap_ok b'"
      "bits_of b' = set_run (bits_of b) n (unat cnt) (\<not> v)"
    using Some scan_and_flip_eq[OF assms, of cnt v] by auto
  moreover have "n + unat cnt \<le> unat (bit_cnt b)" using r(2) by (simp add: run_at_def)
  ultimately show ?thesis using r by (intro disjI1 exI[of _ n] exI[of _ b']) blast
qed

theorem bitmap_scan_and_flip_first_fit_witness:
  "\<exists>n b'. bitmap_scan_and_flip \<lparr>bit_cnt = 8, bits = [0]\<rparr> 3 0 False = Some (of_nat n, b') \<and> n = 3"
  using bitmap_scan_and_flip_first_fit[of "\<lparr>bit_cnt = 8, bits = [0]\<rparr>" 3 0 False] by (auto simp: bitmap_ok_def run_at_def)

end
