(* ===== verification/CString.thy ===== *)
theory CString
  imports Prelude
begin

unbundle bit_operations_syntax

text \<open>
  Blocks of memory and strings, after \<^verbatim>\<open>lib/string.c\<close>. Memory is one array of bytes
  indexed by 32-bit addresses, so that arguments may overlap, and pointer arithmetic wraps as the
  machine's does. A \<^verbatim>\<open>char\<close> is its byte. Loops bounded by a size are total; loops that
  look for a terminator are partial, since memory need not hold one.
\<close>

section \<open>Definitions\<close>

type_synonym mem = "u32 \<Rightarrow> u8"

function memcpy_loop :: "u32 \<Rightarrow> u32 \<Rightarrow> u32 \<Rightarrow> mem \<Rightarrow> mem" where
  "memcpy_loop dst src sz m =
     (if sz > 0 then memcpy_loop (dst + 1) (src + 1) (sz - 1) (m(dst := m src)) else m)"
  by pat_completeness auto
termination
  by (relation "measure (\<lambda>(d, s, n, m). unat n)") (auto intro: count_down)

definition memcpy :: "u32 \<Rightarrow> u32 \<Rightarrow> u32 \<Rightarrow> mem \<Rightarrow> (u32 \<times> mem) option" where
  "memcpy dst src sz m =
     ASSERT (dst \<noteq> 0 \<or> sz = 0) (
     ASSERT (src \<noteq> 0 \<or> sz = 0) (
     Some (dst, memcpy_loop dst src sz m)))"

text \<open>The two loops of \<^verbatim>\<open>memmove\<close>, each with the final value of \<^verbatim>\<open>dst\<close>, which the
  function returns.\<close>

function memmove_up :: "u32 \<Rightarrow> u32 \<Rightarrow> u32 \<Rightarrow> mem \<Rightarrow> u32 \<times> mem" where
  "memmove_up dst src sz m =
     (if sz > 0 then memmove_up (dst + 1) (src + 1) (sz - 1) (m(dst := m src)) else (dst, m))"
  by pat_completeness auto
termination
  by (relation "measure (\<lambda>(d, s, n, m). unat n)") (auto intro: count_down)

function memmove_down :: "u32 \<Rightarrow> u32 \<Rightarrow> u32 \<Rightarrow> mem \<Rightarrow> u32 \<times> mem" where
  "memmove_down dst src sz m =
     (if sz > 0 then memmove_down (dst - 1) (src - 1) (sz - 1) (m(dst - 1 := m (src - 1))) else (dst, m))"
  by pat_completeness auto
termination
  by (relation "measure (\<lambda>(d, s, n, m). unat n)") (auto intro: count_down)

definition memmove :: "u32 \<Rightarrow> u32 \<Rightarrow> u32 \<Rightarrow> mem \<Rightarrow> (u32 \<times> mem) option" where
  "memmove dst src sz m =
     ASSERT (dst \<noteq> 0 \<or> sz = 0) (
     ASSERT (src \<noteq> 0 \<or> sz = 0) (
     Some (if dst < src then memmove_up dst src sz m
           else memmove_down (dst + sz) (src + sz) sz m)))"

function memcmp_loop :: "u32 \<Rightarrow> u32 \<Rightarrow> u32 \<Rightarrow> mem \<Rightarrow> int" where
  "memcmp_loop a b sz m =
     (if sz > 0 then
        if m a \<noteq> m b then (if m a > m b then 1 else -1)
        else memcmp_loop (a + 1) (b + 1) (sz - 1) m
      else 0)"
  by pat_completeness auto
termination
  by (relation "measure (\<lambda>(a, b, n, m). unat n)") (auto intro: count_down)

definition memcmp :: "u32 \<Rightarrow> u32 \<Rightarrow> u32 \<Rightarrow> mem \<Rightarrow> int option" where
  "memcmp a b sz m =
     ASSERT (a \<noteq> 0 \<or> sz = 0) (
     ASSERT (b \<noteq> 0 \<or> sz = 0) (
     Some (memcmp_loop a b sz m)))"

partial_function (option) strcmp_loop :: "u32 \<Rightarrow> u32 \<Rightarrow> mem \<Rightarrow> int option" where
  "strcmp_loop a b m =
     (if m a \<noteq> 0 \<and> m a = m b then strcmp_loop (a + 1) (b + 1) m
      else Some (if m a < m b then -1 else if m a > m b then 1 else 0))"

definition strcmp :: "u32 \<Rightarrow> u32 \<Rightarrow> mem \<Rightarrow> int option" where
  "strcmp a b m =
     ASSERT (a \<noteq> 0) (
     ASSERT (b \<noteq> 0) (
     strcmp_loop a b m))"

function memchr_loop :: "u32 \<Rightarrow> u8 \<Rightarrow> u32 \<Rightarrow> mem \<Rightarrow> u32" where
  "memchr_loop block ch sz m =
     (if sz > 0 then if m block = ch then block else memchr_loop (block + 1) ch (sz - 1) m
      else 0)"
  by pat_completeness auto
termination
  by (relation "measure (\<lambda>(a, b, n, m). unat n)") (auto intro: count_down)

text \<open>Character arguments are \<^verbatim>\<open>int\<close>s, cut to a byte.\<close>

definition memchr :: "u32 \<Rightarrow> u32 \<Rightarrow> u32 \<Rightarrow> mem \<Rightarrow> u32 option" where
  "memchr block ch sz m =
     ASSERT (block \<noteq> 0 \<or> sz = 0) (Some (memchr_loop block (ucast ch) sz m))"

partial_function (option) strchr_loop :: "u32 \<Rightarrow> u8 \<Rightarrow> mem \<Rightarrow> u32 option" where
  "strchr_loop string c m =
     (if m string = c then Some string
      else if m string = 0 then Some 0
      else strchr_loop (string + 1) c m)"

definition strchr :: "u32 \<Rightarrow> u32 \<Rightarrow> mem \<Rightarrow> u32 option" where
  "strchr string c m = ASSERT (string \<noteq> 0) (strchr_loop string (ucast c) m)"

text \<open>A \<^verbatim>\<open>char\<close> passed as \<^verbatim>\<open>int\<close> is sign-extended.\<close>

abbreviation char_arg :: "u8 \<Rightarrow> u32" where "char_arg c \<equiv> scast c"

partial_function (option) strcspn_loop :: "u32 \<Rightarrow> u32 \<Rightarrow> u32 \<Rightarrow> mem \<Rightarrow> u32 option" where
  "strcspn_loop string stop len m =
     (if m (string + len) \<noteq> 0 then
        Option.bind (strchr stop (char_arg (m (string + len))) m) (\<lambda>p.
        if p \<noteq> 0 then Some len else strcspn_loop string stop (len + 1) m)
      else Some len)"

definition strcspn :: "u32 \<Rightarrow> u32 \<Rightarrow> mem \<Rightarrow> u32 option" where
  "strcspn string stop m = strcspn_loop string stop 0 m"

partial_function (option) strpbrk :: "u32 \<Rightarrow> u32 \<Rightarrow> mem \<Rightarrow> u32 option" where
  "strpbrk string stop m =
     (if m string \<noteq> 0 then
        Option.bind (strchr stop (char_arg (m string)) m) (\<lambda>p.
        if p \<noteq> 0 then Some string else strpbrk (string + 1) stop m)
      else Some 0)"

partial_function (option) strrchr_loop :: "u32 \<Rightarrow> u8 \<Rightarrow> u32 \<Rightarrow> mem \<Rightarrow> u32 option" where
  "strrchr_loop string c p m =
     (if m string \<noteq> 0 then strrchr_loop (string + 1) c (if m string = c then string else p) m
      else Some p)"

definition strrchr :: "u32 \<Rightarrow> u32 \<Rightarrow> mem \<Rightarrow> u32 option" where
  "strrchr string c m = strrchr_loop string (ucast c) 0 m"

partial_function (option) strspn_loop :: "u32 \<Rightarrow> u32 \<Rightarrow> u32 \<Rightarrow> mem \<Rightarrow> u32 option" where
  "strspn_loop string skip len m =
     (if m (string + len) \<noteq> 0 then
        Option.bind (strchr skip (char_arg (m (string + len))) m) (\<lambda>p.
        if p = 0 then Some len else strspn_loop string skip (len + 1) m)
      else Some len)"

definition strspn :: "u32 \<Rightarrow> u32 \<Rightarrow> mem \<Rightarrow> u32 option" where
  "strspn string skip m = strspn_loop string skip 0 m"

partial_function (option) strlen_loop :: "u32 \<Rightarrow> mem \<Rightarrow> u32 option" where
  "strlen_loop p m = (if m p \<noteq> 0 then strlen_loop (p + 1) m else Some p)"

definition strlen :: "u32 \<Rightarrow> mem \<Rightarrow> u32 option" where
  "strlen string m =
     ASSERT (string \<noteq> 0) (Option.bind (strlen_loop string m) (\<lambda>p. Some (p - string)))"

function strnlen_loop :: "u32 \<Rightarrow> u32 \<Rightarrow> u32 \<Rightarrow> mem \<Rightarrow> u32" where
  "strnlen_loop string maxlen len m =
     (if m (string + len) \<noteq> 0 \<and> len < maxlen then strnlen_loop string maxlen (len + 1) m
      else len)"
  by pat_completeness auto
termination
  by (relation "measure (\<lambda>(s, n, i, m). unat (n - i))") (auto intro: loop_measure)

definition strnlen :: "u32 \<Rightarrow> u32 \<Rightarrow> mem \<Rightarrow> u32" where
  "strnlen string maxlen m = strnlen_loop string maxlen 0 m"

text \<open>\<^verbatim>\<open>i <= haystack_len - needle_len\<close> would always hold for the largest bound: the
  loop is partial.\<close>

partial_function (option) strstr_loop :: "u32 \<Rightarrow> u32 \<Rightarrow> u32 \<Rightarrow> u32 \<Rightarrow> u32 \<Rightarrow> mem \<Rightarrow> u32 option" where
  "strstr_loop haystack needle needle_len lst i m =
     (if i \<le> lst then
        Option.bind (memcmp (haystack + i) needle needle_len m) (\<lambda>c.
        if c = 0 then Some (haystack + i)
        else strstr_loop haystack needle needle_len lst (i + 1) m)
      else Some 0)"

definition strstr :: "u32 \<Rightarrow> u32 \<Rightarrow> mem \<Rightarrow> u32 option" where
  "strstr haystack needle m =
     Option.bind (strlen haystack m) (\<lambda>haystack_len.
     Option.bind (strlen needle m) (\<lambda>needle_len.
     if haystack_len \<ge> needle_len
     then strstr_loop haystack needle needle_len (haystack_len - needle_len) 0 m
     else Some 0))"

text \<open>\<open>strtok_r\<close> gets the value of \<^verbatim>\<open>*save_ptr\<close> and gives back the token, the new value of
  \<^verbatim>\<open>*save_ptr\<close> and the memory. The loop that skips delimiters ends at the start of a token,
  or at the end of the string (\<open>Inl\<close>).\<close>

partial_function (option) strtok_skip :: "u32 \<Rightarrow> u32 \<Rightarrow> mem \<Rightarrow> (u32 + u32) option" where
  "strtok_skip s delimiters m =
     Option.bind (strchr delimiters (char_arg (m s)) m) (\<lambda>p.
     if p \<noteq> 0 then if m s = 0 then Some (Inl s) else strtok_skip (s + 1) delimiters m
     else Some (Inr s))"

partial_function (option) strtok_end :: "u32 \<Rightarrow> u32 \<Rightarrow> mem \<Rightarrow> u32 option" where
  "strtok_end s delimiters m =
     Option.bind (strchr delimiters (char_arg (m s)) m) (\<lambda>p.
     if p = 0 then strtok_end (s + 1) delimiters m else Some s)"

definition strtok_r :: "u32 \<Rightarrow> u32 \<Rightarrow> u32 \<Rightarrow> mem \<Rightarrow> (u32 \<times> u32 \<times> mem) option" where
  "strtok_r s delimiters save m =
     ASSERT (delimiters \<noteq> 0) (
     let s = (if s = 0 then save else s) in
     ASSERT (s \<noteq> 0) (
     Option.bind (strtok_skip s delimiters m) (\<lambda>r.
     case r of
       Inl s \<Rightarrow> Some (0, s, m)
     | Inr token \<Rightarrow>
         Option.bind (strtok_end token delimiters m) (\<lambda>s.
         if m s \<noteq> 0 then Some (token, s + 1, m(s := 0))
         else Some (token, s, m)))))"

function memset_loop :: "u32 \<Rightarrow> u8 \<Rightarrow> u32 \<Rightarrow> mem \<Rightarrow> mem" where
  "memset_loop dst v sz m =
     (if sz > 0 then memset_loop (dst + 1) v (sz - 1) (m(dst := v)) else m)"
  by pat_completeness auto
termination
  by (relation "measure (\<lambda>(d, v, n, m). unat n)") (auto intro: count_down)

definition memset :: "u32 \<Rightarrow> u32 \<Rightarrow> u32 \<Rightarrow> mem \<Rightarrow> (u32 \<times> mem) option" where
  "memset dst v sz m =
     ASSERT (dst \<noteq> 0 \<or> sz = 0) (Some (dst, memset_loop dst (ucast v) sz m))"

definition strlcpy :: "u32 \<Rightarrow> u32 \<Rightarrow> u32 \<Rightarrow> mem \<Rightarrow> (u32 \<times> mem) option" where
  "strlcpy dst src sz m =
     ASSERT (dst \<noteq> 0) (
     ASSERT (src \<noteq> 0) (
     Option.bind (strlen src m) (\<lambda>src_len.
     if sz > 0 then
       let dst_len = sz - 1;
           dst_len = (if src_len < dst_len then src_len else dst_len) in
       Option.bind (memcpy dst src dst_len m) (\<lambda>(_, m).
       Some (src_len, m(dst + dst_len := 0)))
     else Some (src_len, m))))"

definition strlcat :: "u32 \<Rightarrow> u32 \<Rightarrow> u32 \<Rightarrow> mem \<Rightarrow> (u32 \<times> mem) option" where
  "strlcat dst src sz m =
     ASSERT (dst \<noteq> 0) (
     ASSERT (src \<noteq> 0) (
     Option.bind (strlen src m) (\<lambda>src_len.
     Option.bind (strlen dst m) (\<lambda>dst_len.
     if sz > 0 \<and> dst_len < sz then
       let copy_cnt = sz - dst_len - 1;
           copy_cnt = (if src_len < copy_cnt then src_len else copy_cnt) in
       Option.bind (memcpy (dst + dst_len) src copy_cnt m) (\<lambda>(_, m).
       Some (src_len + dst_len, m(dst + (dst_len + copy_cnt) := 0)))
     else Some (src_len + dst_len, m)))))"


declare memcpy_loop.simps [simp del] memmove_up.simps [simp del] memmove_down.simps [simp del]
  memcmp_loop.simps [simp del] memchr_loop.simps [simp del] strnlen_loop.simps [simp del] memset_loop.simps [simp del]

lemma loops_0 [simp]:
  "memcpy_loop dst src 0 m = m" "memmove_up dst src 0 m = (dst, m)" "memmove_down dst src 0 m = (dst, m)"
  "memcmp_loop a b 0 m = 0" "memchr_loop a c 0 m = 0" "memset_loop dst v 0 m = m"
  by (simp_all add: memcpy_loop.simps memmove_up.simps memmove_down.simps memcmp_loop.simps memchr_loop.simps memset_loop.simps)

section \<open>Blocks of memory\<close>

text \<open>The bytes at an address, and memory with bytes written at an address.\<close>

definition bytes_at :: "mem \<Rightarrow> u32 \<Rightarrow> nat \<Rightarrow> u8 list" where
  "bytes_at m a n = map (\<lambda>i. m (a + of_nat i)) [0..<n]"

definition write_bytes :: "mem \<Rightarrow> u32 \<Rightarrow> u8 list \<Rightarrow> mem" where
  "write_bytes m a bs = (\<lambda>x. if unat (x - a) < length bs then bs ! unat (x - a) else m x)"

lemma length_bytes_at [simp]: "length (bytes_at m a n) = n"
  by (simp add: bytes_at_def)

lemma bytes_at_0 [simp]: "bytes_at m a 0 = []"
  by (simp add: bytes_at_def)

lemma bytes_at_Suc: "bytes_at m a (Suc n) = m a # bytes_at m (a + 1) n"
  by (simp add: bytes_at_def upt_conv_Cons map_Suc_upt[symmetric] o_def add.assoc del: upt_Suc)

lemma bytes_at_snoc: "bytes_at m a (Suc n) = bytes_at m a n @ [m (a + of_nat n)]"
  by (simp add: bytes_at_def)

lemma unat_offset: "i < 2 ^ 32 \<Longrightarrow> unat (a + of_nat i - (a :: u32)) = i"
  by (simp add: unat_of_nat)

lemma bytes_at_upd: "n \<le> 2 ^ 32 \<Longrightarrow> n \<le> unat (x - a) \<Longrightarrow> bytes_at (m(x := v)) a n = bytes_at m a n"
  unfolding bytes_at_def by (rule map_cong[OF refl]) (use unat_offset[of _ a] in force)

lemma write_bytes_Nil [simp]: "write_bytes m a [] = m"
  by (simp add: write_bytes_def)

lemma write_bytes_outside: "length bs \<le> unat (x - a) \<Longrightarrow> write_bytes m a bs x = m x"
  by (simp add: write_bytes_def)

lemma unat_diff_1:
  fixes x a :: u32
  shows "unat (x - (a + 1)) = (if x = a then 2 ^ 32 - 1 else unat (x - a) - 1)"
proof (cases "x = a")
  case False
  then have "unat (x - a - 1) = unat (x - a) - 1" by (intro unat_minus_one) simp
  with False show ?thesis by (simp add: diff_diff_add)
qed (simp add: unsigned_minus_1_eq_mask mask_eq_exp_minus_1)

lemma write_bytes_Cons:
  assumes "length bs < 2 ^ 32"
  shows "write_bytes (m(a := b)) (a + 1) bs = write_bytes m a (b # bs)"
proof
  fix x
  have "x \<noteq> a \<Longrightarrow> 0 < unat (x - a)" by (metis gr0I right_minus_eq unat_eq_0)
  then show "write_bytes (m(a := b)) (a + 1) bs x = write_bytes m a (b # bs) x"
    using assms by (auto simp: write_bytes_def unat_diff_1 nth_Cons')
qed

lemma at_offset: "n < 2 ^ 32 \<Longrightarrow> x = a + of_nat n \<longleftrightarrow> unat (x - (a :: u32)) = n"
  using unat_offset[of n a] by (metis add.commute diff_add_cancel word_unat_eq_iff)

lemma write_bytes_snoc:
  assumes "length bs < 2 ^ 32"
  shows "write_bytes (m(a + of_nat (length bs) := b)) a bs = write_bytes m a (bs @ [b])"
    and "(write_bytes m a bs)(a + of_nat (length bs) := b) = write_bytes m a (bs @ [b])"
  using at_offset[OF assms, of _ a] by (auto simp: fun_eq_iff write_bytes_def nth_append)

text \<open>Copying upwards is right unless the target starts inside the source, copying downwards
  unless the source starts inside the target.\<close>

lemma memmove_up_eq:
  assumes "dst = src \<or> unat n \<le> unat (dst - src)"
  shows "memmove_up dst src n m = (dst + n, write_bytes m dst (bytes_at m src (unat n)))"
  using assms
proof (induction dst src n m rule: memmove_up.induct)
  case (1 dst src n m)
  show ?case
  proof (cases "0 < n")
    case False
    then show ?thesis by (simp add: word_gt_0)
  next
    case True
    have un: "unat n = Suc (unat (n - 1))" using True by (simp add: unat_dec word_less_nat_alt)
    have off: "unat (n - 1) \<le> unat (dst - (src + 1))"
      using 1(2) un unat_bound[of n] by (auto simp: unat_diff_1)
    have "unat (n - 1) \<le> 2 ^ 32" "unat (n - 1) < 2 ^ 32" using unat_bound[of "n - 1"] by simp_all
    then have "write_bytes (m(dst := m src)) (dst + 1) (bytes_at (m(dst := m src)) (src + 1) (unat (n - 1))) =
        write_bytes m dst (bytes_at m src (unat n))"
      using bytes_at_upd[OF _ off] by (simp add: un bytes_at_Suc write_bytes_Cons del: One_nat_def)
    moreover have "dst + 1 = src + 1 \<or> unat (n - 1) \<le> unat (dst + 1 - (src + 1))"
      using 1(2) un by auto
    ultimately show ?thesis using 1(1) True by (subst memmove_up.simps) (simp flip: fun_upd_def)
  qed
qed

lemma memcpy_loop_up: "memcpy_loop dst src n m = snd (memmove_up dst src n m)"
  by (induction dst src n m rule: memcpy_loop.induct)
    (subst memcpy_loop.simps, subst memmove_up.simps, simp flip: fun_upd_def)

lemma memmove_down_eq:
  assumes "dst = src \<or> unat n \<le> unat (src - dst)"
  shows "memmove_down dst src n m = (dst - n, write_bytes m (dst - n) (bytes_at m (src - n) (unat n)))"
  using assms
proof (induction dst src n m rule: memmove_down.induct)
  case (1 dst src n m)
  show ?case
  proof (cases "0 < n")
    case False
    then show ?thesis by (simp add: word_gt_0)
  next
    case True
    let ?k = "unat (n - 1)" and ?m = "m(dst - 1 := m (src - 1))"
    have un: "unat n = Suc ?k" using True by (simp add: unat_dec word_less_nat_alt)
    have k: "of_nat ?k = n - 1" "?k < 2 ^ 32" using unat_bound[of "n - 1"] by simp_all
    have "?k \<le> unat (dst - 1 - (src - n))"
    proof (cases "dst = src")
      case True then show ?thesis by simp
    next
      case False
      have e: "dst - 1 - (src - n) = (n - 1) - (src - dst)" by simp
      have "unat (n - 1) < unat (src - dst)" using 1(2) False un by simp
      moreover have "unat ((n - 1) - (src - dst)) = unat (n - 1) + 2 ^ 32 - unat (src - dst)"
        using calculation by (simp add: unat_sub_if')
      ultimately show ?thesis unfolding e using unat_bound[of "src - dst"] by simp
    qed
    then have "bytes_at ?m (src - n) ?k = bytes_at m (src - n) ?k" by (intro bytes_at_upd) (use k in simp_all)
    moreover have "write_bytes ?m (dst - n) (bytes_at m (src - n) ?k) = write_bytes m (dst - n) (bytes_at m (src - n) (unat n))"
      using write_bytes_snoc(1)[of "bytes_at m (src - n) ?k" m "dst - n" "m (src - 1)"] k
      by (simp add: un bytes_at_snoc)
    moreover have "dst - 1 - (n - 1) = dst - n" "src - 1 - (n - 1) = src - n" by simp_all
    moreover have "dst - 1 = src - 1 \<or> unat (n - 1) \<le> unat (src - 1 - (dst - 1))"
      using 1(2) un by auto
    ultimately show ?thesis using 1(1) True by (subst memmove_down.simps) (simp flip: fun_upd_def)
  qed
qed

lemma memset_loop_eq: "memset_loop dst v n m = write_bytes m dst (replicate (unat n) v)"
proof (induction dst v n m rule: memset_loop.induct)
  case (1 dst v n m)
  show ?case
  proof (cases "0 < n")
    case True
    have un: "unat n = Suc (unat (n - 1))" using True by (simp add: unat_dec word_less_nat_alt)
    have "unat (n - 1) < 2 ^ 32" using unat_bound[of "n - 1"] by simp
    then show ?thesis using 1 True by (subst memset_loop.simps) (simp add: un write_bytes_Cons flip: fun_upd_def)
  qed (simp add: word_gt_0)
qed

lemma unat_bytes_Cons:
  assumes "0 < n" shows "bytes_at m a (unat n) = m a # bytes_at m (a + 1) (unat (n - 1))"
proof -
  have "unat n = Suc (unat (n - 1))" using assms by (simp add: unat_dec word_less_nat_alt)
  then show ?thesis by (simp only: bytes_at_Suc)
qed

lemma memcmp_loop_eq_0: "memcmp_loop a b n m = 0 \<longleftrightarrow> bytes_at m a (unat n) = bytes_at m b (unat n)"
proof (induction a b n m rule: memcmp_loop.induct)
  case (1 a b n m)
  show ?case
  proof (cases "0 < n")
    case True
    then show ?thesis using 1 by (subst memcmp_loop.simps) (auto simp: unat_bytes_Cons)
  qed (simp add: word_gt_0)
qed


section \<open>Strings\<close>

text \<open>\<open>str_at m a w\<close>: the string at \<open>a\<close> has the characters \<open>w\<close>. No address of it, the terminator's
  included, is null, so a string never wraps around the end of memory.\<close>

primrec str_at :: "mem \<Rightarrow> u32 \<Rightarrow> u8 list \<Rightarrow> bool" where
  "str_at m a [] \<longleftrightarrow> a \<noteq> 0 \<and> m a = 0"
| "str_at m a (c # w) \<longleftrightarrow> a \<noteq> 0 \<and> m a = c \<and> c \<noteq> 0 \<and> str_at m (a + 1) w"

definition str_block :: "u32 \<Rightarrow> u8 list \<Rightarrow> u32 set" where
  "str_block a w = {x. unat (x - a) \<le> length w}"

lemma str_at_nonnull: "str_at m a w \<Longrightarrow> a \<noteq> 0"
  by (cases w) simp_all

lemma str_at_bound: "str_at m a w \<Longrightarrow> unat a + length w < 2 ^ 32"
proof (induction w arbitrary: a)
  case Nil
  then show ?case using unat_bound[of a] by simp
next
  case (Cons c w)
  then have ih: "unat (a + 1) + length w < 2 ^ 32" "a + 1 \<noteq> 0" using str_at_nonnull by auto
  then have "unat (a + 1) = unat a + 1" by (simp add: unatSuc add.commute)
  with ih show ?case by simp
qed

lemma unat_str_at: "str_at m a w \<Longrightarrow> unat (of_nat (length w) :: u32) = length w"
  using str_at_bound by (force simp: unat_of_nat)

lemma str_at_append:
  "str_at m a (u @ w) \<longleftrightarrow> str_at m (a + of_nat (length u)) w \<and> 0 \<notin> set u \<and>
     (\<forall>i < length u. a + of_nat i \<noteq> 0 \<and> m (a + of_nat i) = u ! i)"
proof (induction u arbitrary: a)
  case (Cons c u)
  show ?case
    unfolding append_Cons str_at.simps Cons.IH
    by (simp add: All_less_Suc2 add.assoc) (auto simp: All_less_Suc2)
qed simp

lemma str_at_drop: "str_at m a (u @ w) \<Longrightarrow> str_at m (a + of_nat (length u)) w"
  by (simp add: str_at_append)

lemma str_at_cong:
  assumes "\<And>x. x \<in> str_block a w \<Longrightarrow> m' x = m x" "str_at m a w"
  shows "str_at m' a w"
  using assms
proof (induction w arbitrary: a)
  case Nil
  then show ?case by (simp add: str_block_def)
next
  case (Cons c w)
  have b: "length w < 2 ^ 32" using str_at_bound[OF Cons.prems(2)] by simp
  have "m' x = m x" if "x \<in> str_block (a + 1) w" for x
  proof (rule Cons.prems(1))
    show "x \<in> str_block a (c # w)" using that by (auto simp: str_block_def unat_diff_1 split: if_splits)
  qed
  then show ?case using Cons.IH[of "a + 1"] Cons.prems by (simp add: str_block_def)
qed

lemma str_block_mem:
  assumes "i \<le> length w" "length w < 2 ^ 32"
  shows "a + of_nat i \<in> str_block a w"
  using assms by (simp add: str_block_def unat_of_nat)

lemma str_at_upd: "x \<notin> str_block a w \<Longrightarrow> str_at m a w \<Longrightarrow> str_at (m(x := v)) a w"
  by (erule str_at_cong[rotated]) auto

lemma str_at_skip:
  assumes "str_at m (a + 1) w" shows "str_at (m(a := v)) (a + 1) w"
proof (rule str_at_upd[OF _ assms])
  have "unat (a + 1) \<noteq> 0" using str_at_nonnull[OF assms] by (simp add: unat_eq_0)
  then have "length w < 2 ^ 32 - 1" using str_at_bound[OF assms] by linarith
  then show "a \<notin> str_block (a + 1) w" by (simp add: str_block_def unat_diff_1)
qed

lemma str_at_cut:
  assumes "str_at m a (t @ w)" shows "str_at (m(a + of_nat (length t) := 0)) a t"
  using assms
proof (induction t arbitrary: a)
  case Nil
  then show ?case using str_at_nonnull by simp
next
  case (Cons c t)
  have "length (c # t) < 2 ^ 32" using str_at_bound[OF Cons.prems] by simp
  then have "unat (a + of_nat (length (c # t)) - a) = Suc (length t)" using unat_offset[of "length (c # t)" a] by simp
  then have "a + of_nat (length (c # t)) \<noteq> a" by (metis diff_self nat.distinct(1) unsigned_0)
  moreover have "str_at (m(a + 1 + of_nat (length t) := 0)) (a + 1) t"
    using Cons.IH[of "a + 1"] Cons.prems by (simp flip: fun_upd_def)
  ultimately show ?case using Cons.prems by (simp add: add.assoc flip: fun_upd_def)
qed

text \<open>The searches.\<close>

lemma strlen_eq:
  assumes "str_at m a w" shows "strlen a m = Some (of_nat (length w))"
proof -
  have "strlen_loop a m = Some (a + of_nat (length w))"
    using assms
  proof (induction w arbitrary: a)
    case (Cons c w)
    then show ?case by (subst strlen_loop.simps) (simp add: algebra_simps)
  qed (simp add: strlen_loop.simps)
  then show ?thesis using str_at_nonnull[OF assms] by (simp add: strlen_def)
qed

lemma strchr_loop_eq:
  assumes "str_at m a w"
  shows "strchr_loop a c m = Some (if c \<in> insert 0 (set w) then a + of_nat (length (takeWhile (\<lambda>x. x \<noteq> c) w)) else 0)"
  using assms
proof (induction w arbitrary: a)
  case Nil
  then show ?case by (auto simp: strchr_loop.simps)
next
  case (Cons d w)
  then show ?case by (subst strchr_loop.simps) (auto simp: algebra_simps)
qed

lemma strchr_eq:
  assumes "str_at m a w"
  shows "strchr a (char_arg c) m = Some (if c \<in> insert 0 (set w) then a + of_nat (length (takeWhile (\<lambda>x. x \<noteq> c) w)) else 0)"
proof -
  have "ucast (char_arg c) = c" by (rule bit_word_eqI) (simp add: bit_simps)
  then show ?thesis using str_at_nonnull[OF assms] strchr_loop_eq[OF assms, of c] by (simp add: strchr_def)
qed

lemma takeWhile_split: "w = takeWhile P w @ dropWhile P w"
  by simp

lemma str_at_offset_nonnull:
  assumes "str_at m a w" "i \<le> length w" shows "a + of_nat i \<noteq> 0"
proof -
  have "w = take i w @ drop i w" "length (take i w) = i" using assms(2) by simp_all
  then show ?thesis using assms(1) str_at_drop[of m a "take i w" "drop i w"] str_at_nonnull by metis
qed

lemma strchr_found:
  assumes "str_at m a w"
  obtains p where "strchr a (char_arg c) m = Some p" "p \<noteq> 0 \<longleftrightarrow> c \<in> insert 0 (set w)"
proof
  show "strchr a (char_arg c) m = Some (if c \<in> insert 0 (set w) then a + of_nat (length (takeWhile (\<lambda>x. x \<noteq> c) w)) else 0)"
    by (rule strchr_eq[OF assms])
  show "(if c \<in> insert 0 (set w) then a + of_nat (length (takeWhile (\<lambda>x. x \<noteq> c) w)) else 0) \<noteq> 0 \<longleftrightarrow> c \<in> insert 0 (set w)"
    using str_at_offset_nonnull[OF assms length_takeWhile_le] by simp
qed


section \<open>Tokens\<close>

lemma strtok_skip_eq:
  assumes "str_at m d ds" "str_at m s w"
  shows "strtok_skip s d m = Some (let k = length (takeWhile (\<lambda>c. c \<in> set ds) w) in
    if k = length w then Inl (s + of_nat k) else Inr (s + of_nat k))"
  using assms(2)
proof (induction w arbitrary: s)
  case Nil
  obtain p where "strchr d (char_arg (m s)) m = Some p" "p \<noteq> 0 \<longleftrightarrow> m s \<in> insert 0 (set ds)"
    by (rule strchr_found[OF assms(1)])
  with Nil show ?case by (subst strtok_skip.simps) simp
next
  case (Cons c w)
  obtain p where "strchr d (char_arg (m s)) m = Some p" "p \<noteq> 0 \<longleftrightarrow> m s \<in> insert 0 (set ds)"
    by (rule strchr_found[OF assms(1)])
  with Cons show ?case by (subst strtok_skip.simps) (simp add: Let_def algebra_simps)
qed

lemma strtok_end_eq:
  assumes "str_at m d ds" "str_at m s w"
  shows "strtok_end s d m = Some (s + of_nat (length (takeWhile (\<lambda>c. c \<notin> set ds) w)))"
  using assms(2)
proof (induction w arbitrary: s)
  case Nil
  obtain p where "strchr d (char_arg (m s)) m = Some p" "p \<noteq> 0 \<longleftrightarrow> m s \<in> insert 0 (set ds)"
    by (rule strchr_found[OF assms(1)])
  with Nil show ?case by (subst strtok_end.simps) simp
next
  case (Cons c w)
  obtain p where "strchr d (char_arg (m s)) m = Some p" "p \<noteq> 0 \<longleftrightarrow> m s \<in> insert 0 (set ds)"
    by (rule strchr_found[OF assms(1)])
  with Cons show ?case by (subst strtok_end.simps) (auto simp: algebra_simps)
qed

text \<open>The reference: the maximal runs of characters that are not delimiters.\<close>

function tokens :: "u8 set \<Rightarrow> u8 list \<Rightarrow> u8 list list" where
  "tokens D w = (let v = dropWhile (\<lambda>c. c \<in> D) w in
     if v = [] then [] else takeWhile (\<lambda>c. c \<notin> D) v # tokens D (drop 1 (dropWhile (\<lambda>c. c \<notin> D) v)))"
  by pat_completeness auto
termination
proof (relation "measure (\<lambda>(D, w). length w)")
  fix D :: "u8 set" and w v assume "v = dropWhile (\<lambda>c. c \<in> D) w" "v \<noteq> []"
  moreover have "length (dropWhile (\<lambda>c. c \<notin> D) v) \<le> length v" "length v \<le> length w"
    using calculation by (simp_all add: length_dropWhile_le)
  ultimately show "((D, drop 1 (dropWhile (\<lambda>c. c \<notin> D) v)), D, w) \<in> measure (\<lambda>(D, w). length w)"
    by (cases w) auto
qed simp

declare tokens.simps [simp del]

text \<open>One call of \<^verbatim>\<open>strtok_r\<close> on the string \<open>u @ t @ w\<close> at \<open>s\<close>, where \<open>u\<close> are delimiters, \<open>t\<close> is a
  token and \<open>w\<close> is empty or starts with a delimiter.\<close>

lemma strtok_token:
  assumes d: "str_at m d ds" and s: "str_at m s0 (u @ t @ w)" and s0: "s0 = (if s = 0 then save else s)"
    and u: "set u \<subseteq> set ds" and t: "t \<noteq> []" "set t \<inter> set ds = {}" and w: "w = [] \<or> hd w \<in> set ds"
  shows "\<exists>save' m'. strtok_r s d save m = Some (s0 + of_nat (length u), save', m') \<and>
    str_at m' (s0 + of_nat (length u)) t \<and> str_at m' save' (drop 1 w) \<and>
    save' = s0 + of_nat (length u + length t + (if w = [] then 0 else 1)) \<and>
    (\<forall>x. x \<noteq> s0 + of_nat (length u + length t) \<longrightarrow> m' x = m x)"
proof -
  let ?tok = "s0 + of_nat (length u)" and ?e = "s0 + of_nat (length u + length t)"
  have st: "str_at m ?tok (t @ w)" by (rule str_at_drop[OF s])
  have se: "str_at m ?e w" using str_at_drop[OF st] by (simp add: algebra_simps)
  have tu: "takeWhile (\<lambda>c. c \<in> set ds) (u @ t @ w) = u" using u t by (cases t) (auto simp: takeWhile_append)
  have tt: "takeWhile (\<lambda>c. c \<notin> set ds) (t @ w) = t" using t w by (cases w) (auto simp: takeWhile_append)
  have skip: "strtok_skip s0 d m = Some (Inr ?tok)"
    using strtok_skip_eq[OF d s] t(1) unfolding tu by (simp add: Let_def)
  have fin: "strtok_end ?tok d m = Some ?e"
    using strtok_end_eq[OF d st] unfolding tt by (simp add: algebra_simps)
  have nz: "s0 \<noteq> 0" "d \<noteq> 0" "?e \<noteq> 0" using s d se str_at_nonnull by blast+
  show ?thesis
  proof (cases w)
    case Nil
    then show ?thesis using skip fin nz st se s0 by (auto simp: strtok_r_def Let_def)
  next
    case (Cons c w')
    have "str_at (m(?e := 0)) (?e + 1) w'" using se Cons by (intro str_at_skip) simp
    moreover have "str_at (m(?e := 0)) ?tok t" using str_at_cut[OF st] by (simp add: algebra_simps)
    moreover have "m ?e \<noteq> 0" using se Cons by simp
    ultimately show ?thesis using skip fin nz s0 Cons by (auto simp: strtok_r_def Let_def algebra_simps)
  qed
qed


lemma strtok_none:
  assumes "str_at m d ds" "str_at m s0 u" "s0 = (if s = 0 then save else s)" "set u \<subseteq> set ds"
  shows "strtok_r s d save m = Some (0, s0 + of_nat (length u), m)"
proof -
  have tw: "takeWhile (\<lambda>c. c \<in> set ds) u = u" using assms(4) by (auto simp: takeWhile_eq_all_conv)
  have "strtok_skip s0 d m = Some (Inl (s0 + of_nat (length u)))"
    using strtok_skip_eq[OF assms(1,2)] unfolding tw by (simp add: Let_def)
  then show ?thesis using assms str_at_nonnull[of m d] str_at_nonnull[of m s0] by (auto simp: strtok_r_def Let_def)
qed

text \<open>The loop in the comment of \<^verbatim>\<open>strtok_r\<close>, with a bound on the number of calls.\<close>

fun strtok_calls :: "nat \<Rightarrow> u32 \<Rightarrow> u32 \<Rightarrow> u32 \<Rightarrow> mem \<Rightarrow> (u32 list \<times> mem) option" where
  "strtok_calls 0 s d save m = None"
| "strtok_calls (Suc n) s d save m =
     Option.bind (strtok_r s d save m) (\<lambda>(token, save, m).
     if token = 0 then Some ([], m)
     else Option.bind (strtok_calls n 0 d save m) (\<lambda>(ts, m). Some (token # ts, m)))"

lemma str_block_append:
  assumes "x \<in> str_block (a + of_nat (length u)) w" "length (u @ w) < 2 ^ 32"
  shows "x \<in> str_block a (u @ w)" and "unat (x - a) = length u + unat (x - (a + of_nat (length u)))"
proof -
  let ?y = "x - (a + of_nat (length u))"
  have x: "x - a = of_nat (length u) + ?y" by simp
  have "unat (of_nat (length u) :: u32) = length u" using assms(2) by (simp add: unat_of_nat)
  moreover have y: "unat ?y \<le> length w" using assms(1) by (simp add: str_block_def)
  moreover have "length u + unat ?y < 2 ^ 32" using assms(2) y by simp
  ultimately show eq: "unat (x - a) = length u + unat ?y"
    unfolding x using unat_add_lem[of "of_nat (length u)" ?y] by simp
  show "x \<in> str_block a (u @ w)" using y eq by (simp add: str_block_def)
qed

lemma tokens_split:
  obtains (none) "set w \<subseteq> D" "tokens D w = []"
  | (token) u t v where "w = u @ t @ v" "set u \<subseteq> D" "t \<noteq> []" "set t \<inter> D = {}" "v = [] \<or> hd v \<in> D"
      "tokens D w = t # tokens D (drop 1 v)"
proof -
  let ?w1 = "dropWhile (\<lambda>c. c \<in> D) w"
  let ?t = "takeWhile (\<lambda>c. c \<notin> D) ?w1" and ?v = "dropWhile (\<lambda>c. c \<notin> D) ?w1"
  show thesis
  proof (cases "?w1 = []")
    case True
    then show thesis using none by (auto simp: dropWhile_eq_Nil_conv tokens.simps[of D w])
  next
    case False
    show thesis
    proof (rule token[of "takeWhile (\<lambda>c. c \<in> D) w" ?t ?v])
      show "?t \<noteq> []" using False hd_dropWhile[OF False] by (cases ?w1) auto
      show "?v = [] \<or> hd ?v \<in> D" using hd_dropWhile[of "\<lambda>c. c \<notin> D" ?w1] by auto
      show "tokens D w = ?t # tokens D (drop 1 ?v)" using False by (subst tokens.simps) (simp add: Let_def)
    qed (auto dest: set_takeWhileD)
  qed
qed

lemma strtok_calls_eq:
  assumes "str_at m d ds" "str_at m s0 w" "s0 = (if s = 0 then save else s)"
    "str_block d ds \<inter> str_block s0 w = {}" "length w < n"
  shows "\<exists>ts m'. strtok_calls n s d save m = Some (ts, m') \<and> list_all2 (str_at m') ts (tokens (set ds) w) \<and>
    (\<forall>x. x \<notin> str_block s0 w \<longrightarrow> m' x = m x)"
  using assms
proof (induction n arbitrary: s save s0 w m)
  case (Suc n)
  note b = str_at_bound[OF Suc.prems(2)]
  show ?case
  proof (cases rule: tokens_split[of w "set ds"])
    case none
    then show ?thesis using strtok_none[OF Suc.prems(1,2,3)] by simp
  next
    case (token u t v)
    obtain save' m1 where r: "strtok_r s d save m = Some (s0 + of_nat (length u), save', m1)"
      and tok: "str_at m1 (s0 + of_nat (length u)) t" and rest: "str_at m1 save' (drop 1 v)"
      and save': "save' = s0 + of_nat (length u + length t + (if v = [] then 0 else 1))"
      and frame: "\<And>x. x \<noteq> s0 + of_nat (length u + length t) \<Longrightarrow> m1 x = m x"
      using strtok_token[OF Suc.prems(1) _ Suc.prems(3), of u t v] Suc.prems(2) token by blast
    let ?pre = "u @ t @ take 1 v"
    have pre: "w = ?pre @ drop 1 v" "save' = s0 + of_nat (length ?pre)"
      using token(1) save' by (auto simp: neq_Nil_conv)
    have len: "length (?pre @ drop 1 v) < 2 ^ 32" using b pre(1) by simp
    have sub: "x \<in> str_block s0 w" if "x \<in> str_block save' (drop 1 v)" for x
      using str_block_append(1)[of x s0 ?pre "drop 1 v"] that pre len by simp
    have e: "s0 + of_nat (length u + length t) \<in> str_block s0 w" using token(1) b by (intro str_block_mem) auto
    have "m1 x = m x" if "x \<in> str_block d ds" for x using that e frame[of x] Suc.prems(4) by auto
    then have d1: "str_at m1 d ds" by (rule str_at_cong[OF _ Suc.prems(1)])
    have disj: "str_block d ds \<inter> str_block save' (drop 1 v) = {}" using Suc.prems(4) sub by auto
    have "length (drop 1 v) < n" using Suc.prems(5) token(1,3) by (cases t) auto
    then obtain ts m2 where rec: "strtok_calls n 0 d save' m1 = Some (ts, m2)"
        "list_all2 (str_at m2) ts (tokens (set ds) (drop 1 v))" "\<And>x. x \<notin> str_block save' (drop 1 v) \<Longrightarrow> m2 x = m1 x"
      using Suc.IH[OF d1 rest _ disj, of 0 save'] by auto
    have apart: "x \<notin> str_block save' (drop 1 v)" if "x \<in> str_block (s0 + of_nat (length u)) t" "v \<noteq> []" for x
    proof
      assume "x \<in> str_block save' (drop 1 v)"
      then have "unat (x - s0) \<ge> length ?pre" using str_block_append(2)[of x s0 ?pre "drop 1 v"] pre len by simp
      moreover have "unat (x - s0) \<le> length u + length t"
        using str_block_append(1)[of x s0 u t] that(1) len by (simp add: str_block_def)
      ultimately show False using that(2) by (simp add: neq_Nil_conv) auto
    qed
    have "str_at m2 (s0 + of_nat (length u)) t"
    proof (cases "v = []")
      case True
      then have "strtok_calls n 0 d save' m1 = Some ([], m1)"
        using strtok_none[OF d1 rest, of 0 save'] \<open>length (drop 1 v) < n\<close> by (cases n) auto
      then show ?thesis using rec tok by simp
    next
      case False
      show ?thesis by (rule str_at_cong[OF _ tok]) (use rec(3) apart[OF _ False] in simp)
    qed
    moreover have "m2 x = m x" if "x \<notin> str_block s0 w" for x
      using rec(3)[of x] frame[of x] that sub[of x] e by metis
    ultimately show ?thesis using r rec token(6) str_at_nonnull[OF tok] by auto
  qed
qed simp


section \<open>Searching and copying strings\<close>

lemma str_at_bytes:
  assumes "str_at m a w" "k \<le> length w" shows "bytes_at m a k = take k w"
proof (rule nth_equalityI)
  fix i assume i: "i < length (bytes_at m a k)"
  have "str_at m a (w @ [])" using assms(1) by simp
  then have "m (a + of_nat i) = w ! i" unfolding str_at_append using i assms(2) by simp
  then show "bytes_at m a k ! i = take k w ! i" using i by (simp add: bytes_at_def)
qed (use assms in simp)

text \<open>\<open>occurs_at\<close>: the needle is in the haystack at a position; the reference is the first such
  position.\<close>

definition occurs_at :: "u8 list \<Rightarrow> u8 list \<Rightarrow> nat \<Rightarrow> bool" where
  "occurs_at hay ne i \<longleftrightarrow> take (length ne) (drop i hay) = ne"

definition first_occurrence :: "u8 list \<Rightarrow> u8 list \<Rightarrow> nat \<Rightarrow> nat option" where
  "first_occurrence hay ne i = List.find (occurs_at hay ne) [i..<Suc (length hay)]"

lemma occurs_at_bound: "occurs_at hay ne i \<Longrightarrow> i \<le> length hay \<Longrightarrow> i + length ne \<le> length hay"
proof -
  assume "occurs_at hay ne i" "i \<le> length hay"
  then have "length (take (length ne) (drop i hay)) = length ne" by (simp only: occurs_at_def)
  with \<open>i \<le> length hay\<close> show ?thesis by simp
qed

lemma first_occurrence_step:
  "i \<le> length hay \<Longrightarrow> first_occurrence hay ne i = (if occurs_at hay ne i then Some i else first_occurrence hay ne (Suc i))"
  unfolding first_occurrence_def by (subst upt_conv_Cons) (simp_all del: upt_Suc)

lemma no_occurrence: "length hay < i + length ne \<Longrightarrow> first_occurrence hay ne i = None"
  using occurs_at_bound[of hay ne] by (force simp: first_occurrence_def find_None_iff simp del: upt_Suc)

definition found_at :: "u32 \<Rightarrow> nat option \<Rightarrow> u32" where
  "found_at a r = (case r of None \<Rightarrow> 0 | Some i \<Rightarrow> a + of_nat i)"

lemma memcmp_occurs:
  assumes h: "str_at m a hay" and n: "str_at m b ne" and i: "i + length ne \<le> length hay"
  shows "\<exists>c. memcmp (a + of_nat i) b (of_nat (length ne)) m = Some c \<and> (c = 0 \<longleftrightarrow> occurs_at hay ne i)"
proof -
  have "str_at m (a + of_nat i) (drop i hay)"
    using h i str_at_drop[of m a "take i hay" "drop i hay"] by simp
  then have "bytes_at m (a + of_nat i) (length ne) = take (length ne) (drop i hay)"
    using i by (intro str_at_bytes) auto
  moreover have "bytes_at m b (length ne) = ne" using str_at_bytes[OF n] by simp
  moreover have "a + of_nat i \<noteq> 0" "b \<noteq> 0" using str_at_offset_nonnull[OF h] i str_at_nonnull[OF n] by simp_all
  ultimately show ?thesis by (simp add: memcmp_def memcmp_loop_eq_0 unat_str_at[OF n] occurs_at_def)
qed

lemma strstr_loop_eq:
  assumes h: "str_at m a hay" and n: "str_at m b ne" and le: "length ne \<le> length hay" and i: "i \<le> length hay"
  shows "strstr_loop a b (of_nat (length ne)) (of_nat (length hay) - of_nat (length ne)) (of_nat i) m =
    Some (found_at a (first_occurrence hay ne i))"
  using i
proof (induction "length hay - i" arbitrary: i rule: less_induct)
  case less
  have hb: "length hay < 2 ^ 32 - 1"
    using str_at_bound[OF h] str_at_nonnull[OF h] unat_eq_0[of a] by (cases "unat a") auto
  have lst: "of_nat (length hay) - of_nat (length ne) = (of_nat (length hay - length ne) :: u32)"
    using le by (simp add: of_nat_diff)
  have cmp: "(of_nat i :: u32) \<le> of_nat (length hay - length ne) \<longleftrightarrow> i + length ne \<le> length hay"
  proof -
    have "unat (of_nat (length hay - length ne) :: u32) = length hay - length ne" "unat (of_nat i :: u32) = i"
      using hb less.prems by (simp_all add: unat_of_nat del: of_nat_diff)
    then show ?thesis unfolding word_le_nat_alt using le by linarith
  qed
  show ?case
  proof (cases "i + length ne \<le> length hay")
    case False
    then show ?thesis
      unfolding lst by (subst strstr_loop.simps) (use cmp no_occurrence[of hay i ne] in \<open>simp add: found_at_def\<close>)
  next
    case True
    obtain c where c: "memcmp (a + of_nat i) b (of_nat (length ne)) m = Some c" "c = 0 \<longleftrightarrow> occurs_at hay ne i"
      using memcmp_occurs[OF h n True] by blast
    show ?thesis
    proof (cases "occurs_at hay ne i")
      case True
      then show ?thesis
        unfolding lst using c cmp \<open>i + length ne \<le> length hay\<close> less.prems
        by (subst strstr_loop.simps) (simp add: found_at_def first_occurrence_step)
    next
      case False
      have "i < length hay"
      proof (rule ccontr)
        assume "\<not> i < length hay"
        then have "ne = []" "drop i hay = []" using True less.prems by auto
        with False show False by (simp add: occurs_at_def)
      qed
      then have "strstr_loop a b (of_nat (length ne)) (of_nat (length hay) - of_nat (length ne)) (of_nat (Suc i)) m =
          Some (found_at a (first_occurrence hay ne (Suc i)))"
        by (intro less.hyps) auto
      then show ?thesis
        using c cmp True False less.prems unfolding lst
        by (subst strstr_loop.simps) (simp add: first_occurrence_step add.commute)
    qed
  qed
qed

lemma strstr_eq:
  assumes h: "str_at m a hay" and n: "str_at m b ne"
  shows "strstr a b m = Some (found_at a (first_occurrence hay ne 0))"
proof -
  have "(of_nat (length ne) :: u32) \<le> of_nat (length hay) \<longleftrightarrow> length ne \<le> length hay"
    by (simp add: word_le_nat_alt unat_str_at[OF h] unat_str_at[OF n])
  then show ?thesis
    using strlen_eq[OF h] strlen_eq[OF n] strstr_loop_eq[OF h n, of 0] no_occurrence[of hay 0 ne]
    by (auto simp: strstr_def found_at_def)
qed

lemma str_at_write:
  assumes "a \<noteq> 0" "unat a + length u < 2 ^ 32" "0 \<notin> set u"
  shows "str_at (write_bytes m a (u @ [0])) a u"
  using assms
proof (induction u arbitrary: a m)
  case Nil
  then show ?case by (simp add: write_bytes_def)
next
  case (Cons c u)
  have a1: "unat (a + 1) = unat a + 1" using Cons.prems(2) unat_add_lem[of a 1] by simp
  then have "a + 1 \<noteq> 0" by (metis add_is_0 one_neq_zero unat_0)
  with a1 have "str_at (write_bytes (m(a := c)) (a + 1) (u @ [0])) (a + 1) u"
    using Cons.prems by (intro Cons.IH) auto
  moreover have "write_bytes (m(a := c)) (a + 1) (u @ [0]) = write_bytes m a (c # u @ [0])"
    using Cons.prems(2) by (intro write_bytes_Cons) simp
  moreover have "write_bytes m a (c # u @ [0]) a = c" by (simp add: write_bytes_def)
  ultimately show ?case using Cons.prems by simp
qed

lemma strlcpy_eq:
  assumes src: "str_at m src w" and dst: "dst \<noteq> 0" "0 < sz" "unat dst + unat sz \<le> 2 ^ 32"
    and disj: "\<And>x. unat (x - dst) < unat sz \<Longrightarrow> x \<notin> str_block src w"
  shows "strlcpy dst src sz m = Some (of_nat (length w), write_bytes m dst (take (unat sz - 1) w @ [0]))"
proof -
  let ?len = "of_nat (length w) :: u32"
  define k where "k = (if ?len < sz - 1 then ?len else sz - 1)"
  have sz: "unat (sz - 1) = unat sz - 1" "0 < unat sz" using dst(2) by (simp_all add: unat_dec word_less_nat_alt)
  have k: "unat k = min (length w) (unat sz - 1)"
    using unat_str_at[OF src] sz by (auto simp: k_def word_less_nat_alt)
  have "dst \<notin> str_block src w" using disj[of dst] sz by simp
  then have "unat k \<le> unat (dst - src)" using k by (simp add: str_block_def)
  then have "memcpy_loop dst src k m = write_bytes m dst (bytes_at m src (unat k))"
    by (simp add: memcpy_loop_up memmove_up_eq)
  moreover have "bytes_at m src (unat k) = take (unat sz - 1) w"
    using str_at_bytes[OF src, of "unat k"] k by (simp add: min_def split: if_splits)
  moreover have "(write_bytes m dst (take (unat sz - 1) w))(dst + k := 0) = write_bytes m dst (take (unat sz - 1) w @ [0])"
  proof -
    have len: "length (take (unat sz - 1) w) = unat k" using k by simp
    have "unat k < 2 ^ 32" using unat_bound[of k] by simp
    then show ?thesis using write_bytes_snoc(2)[of "take (unat sz - 1) w" m dst 0] unfolding len by simp
  qed
  ultimately show ?thesis
    using strlen_eq[OF src] str_at_nonnull[OF src] dst by (simp add: strlcpy_def memcpy_def Let_def flip: k_def)
qed


section \<open>Properties\<close>

text \<open>C13. Splitting a string with repeated calls of \<^verbatim>\<open>strtok_r\<close>, as its comment shows, ends
  within one call more than the string has characters, gives exactly the maximal runs of non-delimiter characters in order, each
  terminated in place, and changes no byte outside the string.\<close>

theorem strtok_r_tokenizes:
  assumes "str_at m d ds" "str_at m s w" "str_block d ds \<inter> str_block s w = {}" "length w < n"
  shows "\<exists>ts m'. strtok_calls n s d save m = Some (ts, m') \<and> list_all2 (str_at m') ts (tokens (set ds) w) \<and>
    (\<forall>x. x \<notin> str_block s w \<longrightarrow> m' x = m x)"
  using strtok_calls_eq[OF assms(1,2) _ assms(3,4), of s save] str_at_nonnull[OF assms(2)] by simp

text \<open>A memory with \<^verbatim>\<open>" a bc"\<close> at address 16 and \<^verbatim>\<open>" "\<close> at address 32.\<close>

definition sample_mem :: mem where
  "sample_mem = write_bytes (write_bytes (\<lambda>_. 0) 16 [32, 97, 32, 98, 99, 0]) 32 [32, 0]"

lemma sample_strings: "str_at sample_mem 16 [32, 97, 32, 98, 99]" "str_at sample_mem 32 [32]"
  by (simp_all add: sample_mem_def write_bytes_def)

theorem strtok_r_tokenizes_witness:
  "\<exists>ts m'. strtok_calls 6 16 32 0 sample_mem = Some (ts, m') \<and> list_all2 (str_at m') ts [[97], [98, 99]]"
proof -
  have "str_block 32 [32] \<inter> str_block 16 [32, 97, 32, 98, 99 :: u8] = {}"
  proof (rule equals0I)
    fix x assume "x \<in> str_block 32 [32] \<inter> str_block 16 [32, 97, 32, 98, 99 :: u8]"
    then have x: "unat (x - 32) \<le> 1" "unat (x - 16) \<le> 5" by (simp_all add: str_block_def)
    have "x - 16 = (x - 32) + 16" by simp
    moreover have "unat ((x - 32) + 16) = unat (x - 32) + 16"
      using x(1) unat_add_lem[of "x - 32" 16] by simp
    ultimately show False using x by simp
  qed
  moreover have "tokens {32} [32, 97, 32, 98, 99] = [[97], [98, 99]]" by (simp add: tokens.simps)
  ultimately show ?thesis
    using strtok_r_tokenizes[OF sample_strings(2,1), of 6 0] by simp blast
qed

text \<open>C14. \<^verbatim>\<open>memmove\<close> copies as if through a buffer, however source and target overlap, as long as
  neither block runs past the end of memory. It returns the target address only when it copied downwards: after an upward copy it
  returns the end of the target, although its comment promises the target.\<close>

theorem memmove_copies:
  assumes "dst \<noteq> 0" "src \<noteq> 0" "unat dst + unat n \<le> 2 ^ 32" "unat src + unat n \<le> 2 ^ 32"
  shows "memmove dst src n m =
    Some (if dst < src then dst + n else dst, write_bytes m dst (bytes_at m src (unat n)))"
proof (cases "dst < src")
  case True
  then have "unat (dst - src) = unat dst + 2 ^ 32 - unat src" by (simp add: unat_sub_if' word_less_nat_alt)
  then have "unat n \<le> unat (dst - src)" using assms(4) by simp
  with True assms show ?thesis by (simp add: memmove_def memmove_up_eq)
next
  case False
  have "dst = src \<or> unat n \<le> unat (src - dst)"
  proof (rule disjCI)
    assume "\<not> unat n \<le> unat (src - dst)"
    show "dst = src"
    proof (rule ccontr)
      assume "dst \<noteq> src"
      with False have "unat src < unat dst" by (simp add: word_less_nat_alt not_less word_unat_eq_iff)
      then have "unat (src - dst) = unat src + 2 ^ 32 - unat dst" by (simp add: unat_sub_if')
      with assms(3) \<open>\<not> unat n \<le> unat (src - dst)\<close> show False by simp
    qed
  qed
  then have "memmove_down (dst + n) (src + n) n m = (dst, write_bytes m dst (bytes_at m src (unat n)))"
    by (subst memmove_down_eq) auto
  with False assms show ?thesis by (simp add: memmove_def)
qed

theorem memmove_copies_witness:
  "memmove 16 17 3 sample_mem = Some (19, write_bytes sample_mem 16 [97, 32, 98])"
proof -
  have "str_at sample_mem 17 [97, 32, 98, 99]" using sample_strings(1) by simp
  then have "bytes_at sample_mem 17 3 = take 3 [97, 32, 98, 99]" by (rule str_at_bytes) simp
  then show ?thesis using memmove_copies[of 16 17 3 sample_mem] by simp
qed

text \<open>\<^verbatim>\<open>strlcpy\<close> into a buffer of \<open>sz\<close> bytes apart from the source returns the length of the
  source, leaves in the buffer the source cut to \<open>sz - 1\<close> characters, always terminated, and
  writes nowhere outside the buffer.\<close>

lemma strlcpy_bounded:
  assumes "str_at m src w" "dst \<noteq> 0" "0 < sz" "unat dst + unat sz \<le> 2 ^ 32"
    "\<And>x. unat (x - dst) < unat sz \<Longrightarrow> x \<notin> str_block src w"
  shows "\<exists>m'. strlcpy dst src sz m = Some (of_nat (length w), m') \<and> str_at m' dst (take (unat sz - 1) w) \<and>
    (\<forall>x. unat sz \<le> unat (x - dst) \<longrightarrow> m' x = m x)"
proof -
  have sz: "0 < unat sz" using assms(3) by (simp add: word_less_nat_alt)
  have "str_at m src (w @ [])" using assms(1) by simp
  then have "0 \<notin> set w" unfolding str_at_append by blast
  then have "0 \<notin> set (take (unat sz - 1) w)" using set_take_subset by fast
  then have "str_at (write_bytes m dst (take (unat sz - 1) w @ [0])) dst (take (unat sz - 1) w)"
    using assms(2,4) sz by (intro str_at_write) auto
  moreover have "write_bytes m dst (take (unat sz - 1) w @ [0]) x = m x" if "unat sz \<le> unat (x - dst)" for x
    using that sz by (intro write_bytes_outside) auto
  ultimately show ?thesis using strlcpy_eq[OF assms] by simp
qed

lemma strlcpy_bounded_witness:
  "\<exists>m'. strlcpy 64 16 4 sample_mem = Some (5, m') \<and> str_at m' 64 [32, 97, 32]"
proof -
  have "x \<notin> str_block 16 [32, 97, 32, 98, 99 :: u8]" if "unat (x - 64) < unat (4 :: u32)" for x :: u32
  proof -
    have "x - 16 = (x - 64) + 48" by simp
    moreover have "unat ((x - 64) + 48) = unat (x - 64) + 48" using that unat_add_lem[of "x - 64" 48] by simp
    ultimately show ?thesis by (simp add: str_block_def)
  qed
  then have "\<exists>m'. strlcpy 64 16 4 sample_mem = Some (of_nat (length [32, 97, 32, 98, 99 :: u8]), m') \<and>
      str_at m' 64 (take (unat (4 :: u32) - 1) [32, 97, 32, 98, 99]) \<and> (\<forall>x. unat (4 :: u32) \<le> unat (x - 64) \<longrightarrow> m' x = sample_mem x)"
    by (intro strlcpy_bounded[OF sample_strings(1)]) simp_all
  moreover have "take (unat (4 :: u32) - 1) [32, 97, 32, 98, 99] = [32, 97, 32 :: u8]" by simp
  moreover have "of_nat (length [32, 97, 32, 98, 99 :: u8]) = (5 :: u32)" by simp
  ultimately show ?thesis by metis
qed

end
