(* ===== verification/Allocator.thy ===== *)
theory Allocator
  imports Prelude
begin

text \<open>
  The contract of an allocator of extents: the page pools hand out runs of pages, the free map of the file system
  runs of sectors. \<open>used\<close> is the set of units in use, \<open>extent e\<close> the units of an extent and \<open>valid e\<close> that it is one the
  allocator can hand out. An allocation may fail (\<open>Some (None, _)\<close>) but, for an acceptable request, never panics; freeing an
  extent in use never panics. The client lemma is what every caller relies on: whatever the order of requests, the extents it
  holds stay disjoint, and nothing else becomes used.
\<close>

datatype 'r request = Alloc 'r | Free nat

text \<open>Serving requests; \<open>Free i\<close> gives back the \<open>i\<close>-th extent held, if there is one.\<close>

fun serve :: "('r \<Rightarrow> 's \<Rightarrow> ('e option \<times> 's) option) \<Rightarrow> ('e \<Rightarrow> 's \<Rightarrow> 's option) \<Rightarrow> 'r request list \<Rightarrow> 'e list \<Rightarrow> 's
    \<Rightarrow> ('e list \<times> 's) option" where
  "serve alloc fre [] live s = Some (live, s)"
| "serve alloc fre (Alloc r # qs) live s =
     Option.bind (alloc r s) (\<lambda>(res, s). serve alloc fre qs (case res of None \<Rightarrow> live | Some e \<Rightarrow> live @ [e]) s)"
| "serve alloc fre (Free i # qs) live s =
     (if i < length live
      then Option.bind (fre (live ! i) s) (serve alloc fre qs (take i live @ drop (Suc i) live))
      else serve alloc fre qs live s)"

locale extent_allocator =
  fixes inv :: "'s \<Rightarrow> bool"
    and used :: "'s \<Rightarrow> 'u set"
    and valid :: "'s \<Rightarrow> 'e \<Rightarrow> bool"
    and extent :: "'s \<Rightarrow> 'e \<Rightarrow> 'u set"
    and ok_request :: "'r \<Rightarrow> bool"
    and alloc :: "'r \<Rightarrow> 's \<Rightarrow> ('e option \<times> 's) option"
    and fre :: "'e \<Rightarrow> 's \<Rightarrow> 's option"
    and same_shape :: "'s \<Rightarrow> 's \<Rightarrow> bool"
  assumes alloc_law: "inv s \<Longrightarrow> ok_request r \<Longrightarrow>
      \<exists>res s'. alloc r s = Some (res, s') \<and> inv s' \<and> same_shape s s' \<and>
        (case res of None \<Rightarrow> used s' = used s
         | Some e \<Rightarrow> valid s e \<and> extent s e \<inter> used s = {} \<and> used s' = used s \<union> extent s e)"
    and free_law: "inv s \<Longrightarrow> valid s e \<Longrightarrow> extent s e \<subseteq> used s \<Longrightarrow>
      \<exists>s'. fre e s = Some s' \<and> inv s' \<and> same_shape s s' \<and> used s' = used s - extent s e"
    and shape_valid: "same_shape s s' \<Longrightarrow> valid s' = valid s"
    and shape_extent: "same_shape s s' \<Longrightarrow> extent s' = extent s"
begin

definition holds :: "'e list \<Rightarrow> 'u set \<Rightarrow> 's \<Rightarrow> bool" where
  "holds live base s \<longleftrightarrow> inv s \<and> (\<forall>e \<in> set live. valid s e) \<and>
     sorted_wrt (\<lambda>e f. extent s e \<inter> extent s f = {}) live \<and>
     base \<inter> (\<Union>e \<in> set live. extent s e) = {} \<and> used s = base \<union> (\<Union>e \<in> set live. extent s e)"

lemma alloc_holds:
  assumes "holds live base s" "ok_request r"
  shows "\<exists>res s'. alloc r s = Some (res, s') \<and> holds (case res of None \<Rightarrow> live | Some e \<Rightarrow> live @ [e]) base s'"
proof -
  obtain res s' where r: "alloc r s = Some (res, s')" "inv s'" "same_shape s s'"
      "case res of None \<Rightarrow> used s' = used s
       | Some e \<Rightarrow> valid s e \<and> extent s e \<inter> used s = {} \<and> used s' = used s \<union> extent s e"
    using alloc_law[of s r] assms by (auto simp: holds_def)
  then show ?thesis
    using assms(1) shape_valid[OF r(3)] shape_extent[OF r(3)]
    by (cases res) (auto simp: holds_def sorted_wrt_append)
qed

lemma free_holds:
  assumes "holds live base s" "i < length live"
  shows "\<exists>s'. fre (live ! i) s = Some s' \<and> holds (take i live @ drop (Suc i) live) base s'"
proof -
  define e xs ys where "e = live ! i" and "xs = take i live" and "ys = drop (Suc i) live"
  have live: "live = xs @ e # ys" unfolding e_def xs_def ys_def by (rule id_take_nth_drop[OF assms(2)])
  have h: "holds (xs @ e # ys) base s" using assms(1) live by simp
  then have "inv s" "valid s e" "extent s e \<subseteq> used s" by (auto simp: holds_def)
  then obtain s' where r: "fre e s = Some s'" "inv s'" "same_shape s s'" "used s' = used s - extent s e"
    using free_law by blast
  have apart: "extent s f \<inter> extent s e = {}" if "f \<in> set xs \<union> set ys" for f
    using h that by (auto simp: holds_def sorted_wrt_append)
  have "used s' = base \<union> (\<Union>f \<in> set (xs @ ys). extent s f)"
    using r(4) h apart by (fastforce simp: holds_def)
  then have "holds (xs @ ys) base s'"
    using r h shape_valid[OF r(3)] shape_extent[OF r(3)] by (auto simp: holds_def sorted_wrt_append)
  then show ?thesis using r(1) by (simp add: e_def xs_def ys_def)
qed

lemma serve_holds:
  assumes "holds live base s" "\<And>r. Alloc r \<in> set qs \<Longrightarrow> ok_request r"
  shows "\<exists>live' s'. serve alloc fre qs live s = Some (live', s') \<and> holds live' base s'"
  using assms
proof (induction qs arbitrary: live s)
  case (Cons q qs)
  show ?case
  proof (cases q)
    case (Alloc r)
    then show ?thesis using alloc_holds[OF Cons.prems(1), of r] Cons.IH Cons.prems(2) by fastforce
  next
    case (Free i)
    then show ?thesis using free_holds[OF Cons.prems(1), of i] Cons.IH Cons.prems by fastforce
  qed
qed auto

end

end
