(* ===== verification/Palloc.thy ===== *)
theory Palloc
  imports Bitmap CString Allocator
begin

unbundle bit_operations_syntax

text \<open>
  The page allocator, after \<^verbatim>\<open>threads/palloc.c\<close>: two pools of pages, one for the kernel and one
  for user programs, each with a bitmap of its used pages. A pool's lock is kept as "held by the caller", since the
  calls of one thread are followed; \<open>Kernel_Props\<close> has what the locks promise between threads. The bitmap, which the C code
  puts at the start of the pool's memory, is a field of the pool.
\<close>

section \<open>Definitions\<close>

record pool =
  pool_lock :: bool
  used_map :: bitmap
  base :: u32

record palloc =
  kernel_pool :: pool
  user_pool :: pool
  page_mem :: mem

definition PAL_ASSERT :: u32 where "PAL_ASSERT = 1"
definition PAL_ZERO :: u32 where "PAL_ZERO = 2"
definition PAL_USER :: u32 where "PAL_USER = 4"

definition pool_acquire :: "pool \<Rightarrow> pool option" where
  "pool_acquire p = ASSERT (\<not> pool_lock p) (Some (p\<lparr>pool_lock := True\<rparr>))"

definition pool_release :: "pool \<Rightarrow> pool option" where
  "pool_release p = ASSERT (pool_lock p) (Some (p\<lparr>pool_lock := False\<rparr>))"

definition pool_of :: "bool \<Rightarrow> palloc \<Rightarrow> pool" where
  "pool_of user s = (if user then user_pool s else kernel_pool s)"

definition set_pool :: "bool \<Rightarrow> pool \<Rightarrow> palloc \<Rightarrow> palloc" where
  "set_pool user p s = (if user then s\<lparr>user_pool := p\<rparr> else s\<lparr>kernel_pool := p\<rparr>)"

definition palloc_get_multiple :: "u32 \<Rightarrow> u32 \<Rightarrow> palloc \<Rightarrow> (u32 \<times> palloc) option" where
  "palloc_get_multiple flags page_cnt s =
     (let user = (flags AND PAL_USER \<noteq> 0) in
      if page_cnt = 0 then Some (0, s) else
      Option.bind (pool_acquire (pool_of user s)) (\<lambda>p.
      Option.bind (bitmap_scan_and_flip (used_map p) 0 page_cnt False) (\<lambda>(page_idx, map).
      Option.bind (pool_release (p\<lparr>used_map := map\<rparr>)) (\<lambda>p.
      let s = set_pool user p s;
          pages = (if page_idx \<noteq> BITMAP_ERROR then base p + PGSIZE * page_idx else 0) in
      if pages \<noteq> 0 then
        if flags AND PAL_ZERO \<noteq> 0
        then Option.bind (memset pages 0 (PGSIZE * page_cnt) (page_mem s)) (\<lambda>(_, m). Some (pages, s\<lparr>page_mem := m\<rparr>))
        else Some (pages, s)
      else ASSERT (flags AND PAL_ASSERT = 0) (Some (pages, s))))))"

definition palloc_get_page :: "u32 \<Rightarrow> palloc \<Rightarrow> (u32 \<times> palloc) option" where
  "palloc_get_page flags s = palloc_get_multiple flags 1 s"

definition page_from_pool :: "pool \<Rightarrow> u32 \<Rightarrow> bool" where
  "page_from_pool p page =
     (let page_no = pg_no page; start_page = pg_no (base p); end_page = start_page + bitmap_size (used_map p) in
      page_no \<ge> start_page \<and> page_no < end_page)"

definition palloc_free_multiple :: "u32 \<Rightarrow> u32 \<Rightarrow> palloc \<Rightarrow> palloc option" where
  "palloc_free_multiple pages page_cnt s =
     ASSERT (pg_ofs pages = 0) (
     if pages = 0 \<or> page_cnt = 0 then Some s else
     Option.bind (if page_from_pool (kernel_pool s) pages then Some False
                  else if page_from_pool (user_pool s) pages then Some True
                  else None) (\<lambda>user.
     let p = pool_of user s; page_idx = pg_no pages - pg_no (base p) in
     Option.bind (memset pages 0xcc (PGSIZE * page_cnt) (page_mem s)) (\<lambda>(_, m).
     Option.bind (bitmap_all (used_map p) page_idx page_cnt) (\<lambda>all.
     ASSERT all (
     Option.bind (bitmap_set_multiple page_idx page_cnt False (used_map p)) (\<lambda>map.
     Some ((set_pool user (p\<lparr>used_map := map\<rparr>) s)\<lparr>page_mem := m\<rparr>)))))))"

definition palloc_free_page :: "u32 \<Rightarrow> palloc \<Rightarrow> palloc option" where
  "palloc_free_page page s = palloc_free_multiple page 1 s"

text \<open>The words of memory that the bitmap's elements occupy when the pool is set up.\<close>

definition word_at :: "mem \<Rightarrow> u32 \<Rightarrow> u32" where
  "word_at m a = ucast (m a) OR push_bit 8 (ucast (m (a + 1))) OR push_bit 16 (ucast (m (a + 2))) OR
     push_bit 24 (ucast (m (a + 3)))"

definition init_pool :: "u32 \<Rightarrow> u32 \<Rightarrow> mem \<Rightarrow> pool option" where
  "init_pool bas page_cnt m =
     (let bm_pages = (bitmap_buf_size page_cnt + PGSIZE - 1) div PGSIZE in
      ASSERT (bm_pages \<le> page_cnt) (
      let page_cnt = page_cnt - bm_pages;
          words = map (\<lambda>i. word_at m (bas + 8 + 4 * of_nat i)) [0..<unat (bm_pages * PGSIZE - 8) div 4] in
      Option.bind (bitmap_create_in_buf page_cnt words (bm_pages * PGSIZE)) (\<lambda>map.
      Some \<lparr>pool_lock = False, used_map = map, base = bas + bm_pages * PGSIZE\<rparr>)))"

text \<open>\<^verbatim>\<open>init_ram_pages\<close> is set by the loader before the kernel starts.\<close>

definition palloc_init :: "u32 \<Rightarrow> u32 \<Rightarrow> mem \<Rightarrow> palloc option" where
  "palloc_init init_ram_pages user_page_limit m =
     Option.bind (ptov (1024 * 1024)) (\<lambda>free_start.
     Option.bind (ptov (init_ram_pages * PGSIZE)) (\<lambda>free_end.
     let free_pages = (free_end - free_start) div PGSIZE;
         user_pages = free_pages div 2;
         user_pages = (if user_pages > user_page_limit then user_page_limit else user_pages);
         kernel_pages = free_pages - user_pages in
     Option.bind (init_pool free_start kernel_pages m) (\<lambda>k.
     Option.bind (init_pool (free_start + kernel_pages * PGSIZE) user_pages m) (\<lambda>u.
     Some \<lparr>kernel_pool = k, user_pool = u, page_mem = m\<rparr>))))"


section \<open>The invariant\<close>

abbreviation page_total :: "pool \<Rightarrow> nat" where "page_total p \<equiv> unat (bit_cnt (used_map p))"

abbreviation first_page :: "pool \<Rightarrow> nat" where "first_page p \<equiv> unat (base p) div 4096"

definition pool_ok :: "pool \<Rightarrow> bool" where
  "pool_ok p \<longleftrightarrow> bitmap_ok (used_map p) \<and> \<not> pool_lock p \<and> base p \<noteq> 0 \<and> unat (base p) mod 4096 = 0 \<and>
     unat (base p) + 4096 * page_total p \<le> 2 ^ 32"

definition palloc_ok :: "palloc \<Rightarrow> bool" where
  "palloc_ok s \<longleftrightarrow> pool_ok (kernel_pool s) \<and> pool_ok (user_pool s) \<and>
     first_page (kernel_pool s) + page_total (kernel_pool s) \<le> first_page (user_pool s)"

text \<open>The numbers of the used pages; the pages of a run \<open>(address, count)\<close>, and that it lies in one pool.\<close>

definition pool_used :: "pool \<Rightarrow> nat set" where
  "pool_used p = {first_page p + i | i. i < page_total p \<and> bits_of (used_map p) ! i}"

definition used_pages :: "palloc \<Rightarrow> nat set" where
  "used_pages s = pool_used (kernel_pool s) \<union> pool_used (user_pool s)"

definition run_pages :: "u32 \<times> u32 \<Rightarrow> nat set" where
  "run_pages r = {unat (fst r) div 4096 ..< unat (fst r) div 4096 + unat (snd r)}"

definition in_pool :: "pool \<Rightarrow> u32 \<times> u32 \<Rightarrow> bool" where
  "in_pool p r \<longleftrightarrow> first_page p \<le> unat (fst r) div 4096 \<and>
     unat (fst r) div 4096 + unat (snd r) \<le> first_page p + page_total p"

definition valid_run :: "palloc \<Rightarrow> u32 \<times> u32 \<Rightarrow> bool" where
  "valid_run s r \<longleftrightarrow> fst r \<noteq> 0 \<and> pg_ofs (fst r) = 0 \<and> snd r \<noteq> 0 \<and> (\<exists>user. in_pool (pool_of user s) r)"

definition same_pools :: "palloc \<Rightarrow> palloc \<Rightarrow> bool" where
  "same_pools s s' \<longleftrightarrow> (\<forall>user. base (pool_of user s') = base (pool_of user s) \<and>
     bit_cnt (used_map (pool_of user s')) = bit_cnt (used_map (pool_of user s)))"

lemma pool_of_set_pool [simp]: "pool_of v (set_pool u p s) = (if v = u then p else pool_of v s)"
  by (auto simp: pool_of_def set_pool_def)

lemma page_mem_set_pool [simp]: "page_mem (set_pool u p s) = page_mem s"
  by (simp add: set_pool_def)

lemma pool_of_page_mem [simp]: "pool_of u (s\<lparr>page_mem := m\<rparr>) = pool_of u s"
  by (simp add: pool_of_def)

lemma palloc_ok_iff:
  "palloc_ok s \<longleftrightarrow> (\<forall>u. pool_ok (pool_of u s)) \<and>
     first_page (pool_of False s) + page_total (pool_of False s) \<le> first_page (pool_of True s)"
  by (auto simp: palloc_ok_def pool_of_def)

lemma used_pages_split: "used_pages s = pool_used (pool_of u s) \<union> pool_used (pool_of (\<not> u) s)"
  by (cases u) (auto simp: used_pages_def pool_of_def)

lemma same_pools_valid: "same_pools s s' \<Longrightarrow> valid_run s' = valid_run s"
  by (auto simp: same_pools_def valid_run_def in_pool_def fun_eq_iff)


section \<open>Getting pages\<close>

lemma pool_ok_small:
  assumes "pool_ok p" shows "bit_cnt (used_map p) < -1" "4096 * page_total p < 2 ^ 32"
proof -
  have "unat (base p) \<noteq> 0" using assms by (simp add: pool_ok_def unat_eq_0)
  then show b: "4096 * page_total p < 2 ^ 32" using assms by (simp add: pool_ok_def)
  have "unat (-1 :: u32) = 2 ^ 32 - 1" by (simp add: unsigned_minus_1_eq_mask mask_eq_exp_minus_1)
  with b show "bit_cnt (used_map p) < -1" unfolding word_less_nat_alt by simp
qed

lemma unat_pages:
  assumes "pool_ok p" "n < page_total p"
  shows "unat (base p + PGSIZE * of_nat n) = unat (base p) + 4096 * n"
proof -
  have b: "unat (base p) + 4096 * n < 2 ^ 32" using assms by (simp add: pool_ok_def)
  have "unat (4096 * of_nat n :: u32) = 4096 * n" using b by (simp add: unat_word_ariths unat_of_nat)
  then show ?thesis using b unat_add_lem[of "base p" "4096 * of_nat n"] by simp
qed

lemma unat_page_bytes:
  assumes "4096 * unat cnt < 2 ^ 32" shows "unat (PGSIZE * cnt) = 4096 * unat cnt"
  using assms by (simp add: unat_word_ariths)

lemma run_of_page:
  assumes "pool_ok p" "n < page_total p" "unat pages = unat (base p) + 4096 * n"
  shows "run_pages (pages, cnt) = {first_page p + n ..< first_page p + n + unat cnt}" "pg_ofs pages = 0" "pages \<noteq> 0"
proof -
  show "run_pages (pages, cnt) = {first_page p + n ..< first_page p + n + unat cnt}"
    using assms(3) by (simp add: run_pages_def add.commute)
  have "unat (pg_ofs pages) = 0" using assms by (simp add: unat_pg_ofs pool_ok_def mod_add_eq)
  then show "pg_ofs pages = 0" by (simp add: unat_eq_0)
  have "unat (base p) \<noteq> 0" using assms(1) by (simp add: pool_ok_def unat_eq_0)
  with assms(3) show "pages \<noteq> 0" by (auto simp: unat_eq_0)
qed

text \<open>Changing a run of bits of one pool changes the used pages by that run.\<close>

lemma pool_used_run:
  assumes "bits_of bm = set_run (bits_of (used_map p)) n cnt v" "bit_cnt bm = bit_cnt (used_map p)" "n + cnt \<le> page_total p"
  shows "pool_used (p\<lparr>used_map := bm\<rparr>) =
    (if v then pool_used p \<union> {first_page p + n ..< first_page p + n + cnt}
     else pool_used p - {first_page p + n ..< first_page p + n + cnt})"
proof -
  have "i < page_total p \<Longrightarrow> bits_of bm ! i = (if n \<le> i \<and> i < n + cnt then v else bits_of (used_map p) ! i)" for i
    using assms by (simp add: nth_set_run)
  moreover have "x \<in> {first_page p + n ..< first_page p + n + cnt} \<longleftrightarrow> (\<exists>i. x = first_page p + i \<and> n \<le> i \<and> i < n + cnt)" for x
    by (auto intro: exI[of _ "x - first_page p"])
  ultimately show ?thesis
    using assms(2,3) by (auto simp: pool_used_def set_eq_iff split: if_splits)
qed

lemma pool_used_range: "pool_used p \<subseteq> {first_page p ..< first_page p + page_total p}"
  by (auto simp: pool_used_def)

lemma pools_apart:
  assumes "palloc_ok s" "u \<noteq> v"
  shows "pool_used (pool_of u s) \<inter> {first_page (pool_of v s) ..< first_page (pool_of v s) + page_total (pool_of v s)} = {}"
  using assms pool_used_range[of "pool_of u s"] by (cases u; cases v) (auto simp: palloc_ok_iff)

lemma used_pages_set_pool: "used_pages (set_pool u p' s) = pool_used p' \<union> pool_used (pool_of (\<not> u) s)"
  by (simp add: used_pages_split[of _ u])

lemma same_pools_set_pool:
  assumes "palloc_ok s" "pool_ok p'" "base p' = base (pool_of u s)" "bit_cnt (used_map p') = bit_cnt (used_map (pool_of u s))"
  shows "palloc_ok ((set_pool u p' s)\<lparr>page_mem := m\<rparr>)" "same_pools s ((set_pool u p' s)\<lparr>page_mem := m\<rparr>)"
  using assms by (auto simp: palloc_ok_iff same_pools_def)

lemma used_pages_page_mem [simp]: "used_pages (s\<lparr>page_mem := m\<rparr>) = used_pages s"
  by (simp add: used_pages_def)

lemma write_zero: "write_bytes m a (replicate n v) x = (if unat (x - a) < n then v else m x)"
  by (simp add: write_bytes_def)


lemma palloc_get_multiple_eq:
  assumes ok: "palloc_ok s" and cnt: "page_cnt \<noteq> 0" and u: "u = (flags AND PAL_USER \<noteq> 0)" and p: "p = pool_of u s"
  shows "case first_run (bits_of (used_map p)) 0 (unat page_cnt) False of
      None \<Rightarrow> palloc_get_multiple flags page_cnt s = (if flags AND PAL_ASSERT = 0 then Some (0, s) else None)
    | Some n \<Rightarrow> \<exists>pages s'. palloc_get_multiple flags page_cnt s = Some (pages, s') \<and>
        unat pages = unat (base p) + 4096 * n \<and> palloc_ok s' \<and> same_pools s s' \<and> valid_run s (pages, page_cnt) \<and>
        run_pages (pages, page_cnt) \<inter> used_pages s = {} \<and> used_pages s' = used_pages s \<union> run_pages (pages, page_cnt) \<and>
        (\<forall>x. page_mem s' x =
          (if flags AND PAL_ZERO \<noteq> 0 \<and> unat (x - pages) < 4096 * unat page_cnt then 0 else page_mem s x))"
proof -
  have pok: "pool_ok p" using ok p by (simp add: palloc_ok_iff)
  then have bok: "bitmap_ok (used_map p)" and nl: "\<not> pool_lock p" by (simp_all add: pool_ok_def)
  note scan = scan_and_flip_eq[OF bok _ pool_ok_small(1)[OF pok], of 0 page_cnt False, simplified]
  show ?thesis
  proof (cases "first_run (bits_of (used_map p)) 0 (unat page_cnt) False")
    case None
    have "set_pool u (p\<lparr>pool_lock := False\<rparr>) s = s" using nl p by (cases p; cases s) (auto simp: set_pool_def pool_of_def)
    moreover have "p\<lparr>pool_lock := True, used_map := used_map p, pool_lock := False\<rparr> = p\<lparr>pool_lock := False\<rparr>" by (cases p) simp
    ultimately show ?thesis
      using None scan cnt nl u p
      by (simp add: palloc_get_multiple_def pool_acquire_def pool_release_def Let_def)
  next
    case (Some n)
    then obtain bm where bm: "bitmap_scan_and_flip (used_map p) 0 page_cnt False = Some (of_nat n, bm)"
        "(of_nat n :: u32) \<noteq> BITMAP_ERROR" "bitmap_ok bm" "bit_cnt bm = bit_cnt (used_map p)"
        "bits_of bm = set_run (bits_of (used_map p)) n (unat page_cnt) True"
      using scan by auto
    have run: "n + unat page_cnt \<le> page_total p" "\<And>i. n \<le> i \<Longrightarrow> i < n + unat page_cnt \<Longrightarrow> \<not> bits_of (used_map p) ! i"
      using first_run_Some(2)[OF Some] by (auto simp: run_at_def)
    have ucnt: "unat page_cnt \<noteq> 0" using cnt by (simp add: unat_eq_0)
    then have n: "n < page_total p" using run(1) by simp
    define pages where "pages = base p + PGSIZE * of_nat n"
    have up: "unat pages = unat (base p) + 4096 * n" unfolding pages_def by (rule unat_pages[OF pok n])
    note rp = run_of_page[OF pok n up]
    define p' where "p' = p\<lparr>used_map := bm\<rparr>"
    have pu: "pool_used p' = pool_used p \<union> run_pages (pages, page_cnt)"
      unfolding p'_def rp(1) using pool_used_run[OF bm(5,4) run(1)] by simp
    have p'ok: "pool_ok p'" using pok bm by (simp add: p'_def pool_ok_def)
    have lock: "p\<lparr>pool_lock := True, used_map := bm, pool_lock := False\<rparr> = p'" using nl by (cases p) (simp add: p'_def)
    have bytes: "4096 * unat page_cnt < 2 ^ 32" using run(1) pool_ok_small(2)[OF pok] by simp
    define m where "m = (if flags AND PAL_ZERO \<noteq> 0 then write_bytes (page_mem s) pages (replicate (4096 * unat page_cnt) 0) else page_mem s)"
    have get: "palloc_get_multiple flags page_cnt s = Some (pages, (set_pool u p' s)\<lparr>page_mem := m\<rparr>)"
    proof -
      have "(set_pool u p' s)\<lparr>page_mem := page_mem s\<rparr> = set_pool u p' s" by (cases s) (simp add: set_pool_def)
      moreover have "base p' + 4096 * of_nat n = pages" "base p + 4096 * of_nat n = pages" by (simp_all add: p'_def pages_def)
      ultimately show ?thesis
        using cnt nl u p bm(1,2) rp(3) lock unat_page_bytes[OF bytes]
        by (simp add: palloc_get_multiple_def pool_acquire_def pool_release_def Let_def m_def memset_def memset_loop_eq)
    qed
    have inp: "in_pool p (pages, page_cnt)" using up run(1) by (simp add: in_pool_def)
    then have "run_pages (pages, page_cnt) \<inter> pool_used (pool_of (\<not> u) s) = {}"
      using pools_apart[OF ok, of "\<not> u" u] p by (auto simp: in_pool_def run_pages_def)
    moreover have "run_pages (pages, page_cnt) \<inter> pool_used p = {}"
      using run(2) unfolding rp(1) by (auto simp: pool_used_def)
    moreover have us: "used_pages s = pool_used p \<union> pool_used (pool_of (\<not> u) s)"
      unfolding p by (rule used_pages_split)
    ultimately have "run_pages (pages, page_cnt) \<inter> used_pages s = {}" by auto
    moreover have "used_pages (set_pool u p' s) = used_pages s \<union> run_pages (pages, page_cnt)"
      using used_pages_set_pool[of u p' s] us pu by auto
    moreover have "valid_run s (pages, page_cnt)" using rp cnt inp p by (auto simp: valid_run_def)
    moreover note same_pools_set_pool[OF ok p'ok, of u m]
    ultimately show ?thesis
      using Some get up p bm(4) by (auto simp: p'_def m_def write_zero)
  qed
qed


section \<open>Freeing pages\<close>

lemma pool_end: "pool_ok p \<Longrightarrow> first_page p + page_total p < 2 ^ 32"
  using div_times_less_eq_dividend[of "unat (base p)" 4096] by (auto simp: pool_ok_def)

lemma page_no_in_pool:
  assumes ok: "pool_ok p" and inp: "in_pool p (pages, cnt)" and cnt: "cnt \<noteq> 0"
  shows "page_from_pool p pages" "unat (pg_no pages - pg_no (base p)) = unat pages div 4096 - first_page p"
proof -
  have le: "pg_no (base p) \<le> pg_no pages" using inp by (simp add: in_pool_def word_le_nat_alt unat_pg_no)
  then show "unat (pg_no pages - pg_no (base p)) = unat pages div 4096 - first_page p" by (simp add: unat_sub unat_pg_no)
  have "unat (pg_no (base p) + bit_cnt (used_map p)) = first_page p + page_total p"
    using pool_end[OF ok] unat_add_lem[of "pg_no (base p)" "bit_cnt (used_map p)"] by (simp add: unat_pg_no)
  moreover have "unat cnt \<noteq> 0" using cnt by (simp add: unat_eq_0)
  ultimately show "page_from_pool p pages"
    using le inp by (simp add: page_from_pool_def bitmap_size_def Let_def in_pool_def word_less_nat_alt unat_pg_no)
qed

lemma page_from_pool_range:
  assumes "pool_ok p" "page_from_pool p pages"
  shows "first_page p \<le> unat pages div 4096" "unat pages div 4096 < first_page p + page_total p"
proof -
  have "unat (pg_no (base p) + bit_cnt (used_map p)) = first_page p + page_total p"
    using pool_end[OF assms(1)] unat_add_lem[of "pg_no (base p)" "bit_cnt (used_map p)"] by (simp add: unat_pg_no)
  then show "first_page p \<le> unat pages div 4096" "unat pages div 4096 < first_page p + page_total p"
    using assms(2)
    by (simp_all add: page_from_pool_def bitmap_size_def Let_def word_less_nat_alt word_le_nat_alt unat_pg_no)
qed

lemma palloc_free_multiple_eq:
  assumes ok: "palloc_ok s" and v: "valid_run s r" and used: "run_pages r \<subseteq> used_pages s"
  shows "\<exists>s'. palloc_free_multiple (fst r) (snd r) s = Some s' \<and> palloc_ok s' \<and> same_pools s s' \<and>
    used_pages s' = used_pages s - run_pages r \<and>
    (\<forall>x. page_mem s' x = (if unat (x - fst r) < 4096 * unat (snd r) then 0xcc else page_mem s x))"
proof -
  obtain pages cnt where r: "r = (pages, cnt)" by (cases r)
  obtain u where inp: "in_pool (pool_of u s) (pages, cnt)" and nz: "pages \<noteq> 0" "pg_ofs pages = 0" "cnt \<noteq> 0"
    using v r by (auto simp: valid_run_def)
  define p where "p = pool_of u s"
  have pok: "pool_ok p" using ok p_def by (simp add: palloc_ok_iff)
  note inp' = inp[folded p_def]
  note pn = page_no_in_pool[OF pok inp' nz(3)]
  have user: "(if page_from_pool (kernel_pool s) pages then Some False
      else if page_from_pool (user_pool s) pages then Some True else None) = Some u"
  proof (cases u)
    case True
    have "\<not> page_from_pool (pool_of False s) pages"
    proof
      assume "page_from_pool (pool_of False s) pages"
      then show False
        using page_from_pool_range(2)[of "pool_of False s" pages] ok inp True by (simp add: palloc_ok_iff in_pool_def)
    qed
    then show ?thesis using pn True by (simp add: p_def pool_of_def)
  qed (use pn in \<open>simp add: p_def pool_of_def\<close>)
  define n where "n = unat pages div 4096 - first_page p"
  have n: "n + unat cnt \<le> page_total p" "unat pages div 4096 = first_page p + n" using inp' by (auto simp: n_def in_pool_def)
  have rp: "run_pages r = {first_page p + n ..< first_page p + n + unat cnt}" by (simp add: run_pages_def r n(2))
  have inb: "in_bitmap (used_map p) (pg_no pages - pg_no (base p)) cnt" using n(1) pn(2) by (simp only: in_bitmap_def n_def)
  have us: "used_pages s = pool_used p \<union> pool_used (pool_of (\<not> u) s)"
    unfolding p_def by (rule used_pages_split)
  have apart: "run_pages r \<inter> pool_used (pool_of (\<not> u) s) = {}"
    using pools_apart[OF ok, of "\<not> u" u] inp r by (auto simp: in_pool_def run_pages_def)
  have all: "bits_of (used_map p) ! i" if "n \<le> i" "i < n + unat cnt" for i
  proof -
    have "first_page p + i \<in> run_pages r" using that by (simp add: rp)
    then have "first_page p + i \<in> pool_used p" using used apart us by blast
    then show ?thesis by (auto simp: pool_used_def)
  qed
  have bok: "bitmap_ok (used_map p)" using pok by (simp add: pool_ok_def)
  have ball: "bitmap_all (used_map p) (pg_no pages - pg_no (base p)) cnt = Some True"
    using bitmap_contains_eq[OF bok inb, of False] all pn(2) by (auto simp: bitmap_all_def n_def)
  obtain bm where bm: "bitmap_set_multiple (pg_no pages - pg_no (base p)) cnt False (used_map p) = Some bm" "bitmap_ok bm"
      "bit_cnt bm = bit_cnt (used_map p)" "bits_of bm = set_run (bits_of (used_map p)) n (unat cnt) False"
    using bitmap_set_multiple_run[OF bok inb, of False] pn(2) by (auto simp: n_def)
  define p' where "p' = p\<lparr>used_map := bm\<rparr>"
  define m where "m = write_bytes (page_mem s) pages (replicate (4096 * unat cnt) 0xcc)"
  have bytes: "4096 * unat cnt < 2 ^ 32" using n(1) pool_ok_small(2)[OF pok] by simp
  have "palloc_free_multiple pages cnt s = Some ((set_pool u p' s)\<lparr>page_mem := m\<rparr>)"
    using nz user ball bm(1) unat_page_bytes[OF bytes]
    by (simp add: palloc_free_multiple_def Let_def memset_def memset_loop_eq m_def p'_def flip: p_def)
  moreover have "pool_ok p'" using pok bm by (simp add: p'_def pool_ok_def)
  moreover have "used_pages (set_pool u p' s) = used_pages s - run_pages r"
    using used_pages_set_pool[of u p' s] us pool_used_run[OF bm(4,3) n(1)] apart unfolding rp by (auto simp: p'_def)
  moreover have "base p' = base (pool_of u s)" "bit_cnt (used_map p') = bit_cnt (used_map (pool_of u s))"
    using bm(3) by (simp_all add: p'_def p_def)
  ultimately show ?thesis
    using same_pools_set_pool[OF ok, of p' u m] r by (simp add: m_def write_zero)
qed

section \<open>The contract\<close>

definition palloc_alloc :: "u32 \<times> u32 \<Rightarrow> palloc \<Rightarrow> ((u32 \<times> u32) option \<times> palloc) option" where
  "palloc_alloc q s = map_option (\<lambda>(pages, s). (if pages = 0 then None else Some (pages, snd q), s))
     (palloc_get_multiple (fst q) (snd q) s)"

definition palloc_fre :: "u32 \<times> u32 \<Rightarrow> palloc \<Rightarrow> palloc option" where
  "palloc_fre r s = palloc_free_multiple (fst r) (snd r) s"

interpretation pages: extent_allocator palloc_ok used_pages valid_run "\<lambda>_. run_pages"
  "\<lambda>q. fst q AND PAL_ASSERT = 0" palloc_alloc palloc_fre same_pools
proof
  fix s :: palloc and q :: "u32 \<times> u32" assume ok: "palloc_ok s" and q: "fst q AND PAL_ASSERT = 0"
  let ?u = "fst q AND PAL_USER \<noteq> 0"
  show "\<exists>res s'. palloc_alloc q s = Some (res, s') \<and> palloc_ok s' \<and> same_pools s s' \<and>
      (case res of None \<Rightarrow> used_pages s' = used_pages s
       | Some e \<Rightarrow> valid_run s e \<and> run_pages e \<inter> used_pages s = {} \<and> used_pages s' = used_pages s \<union> run_pages e)"
  proof (cases "snd q = 0")
    case True
    then show ?thesis using ok by (simp add: palloc_alloc_def palloc_get_multiple_def Let_def same_pools_def)
  next
    case False
    note eq = palloc_get_multiple_eq[OF ok False refl refl, of "fst q"]
    show ?thesis
    proof (cases "first_run (bits_of (used_map (pool_of ?u s))) 0 (unat (snd q)) False")
      case None
      then show ?thesis using eq ok q by (simp add: palloc_alloc_def same_pools_def)
    next
      case (Some n)
      then obtain pages s' where get: "palloc_get_multiple (fst q) (snd q) s = Some (pages, s')" "palloc_ok s'" "same_pools s s'"
          "valid_run s (pages, snd q)" "run_pages (pages, snd q) \<inter> used_pages s = {}"
          "used_pages s' = used_pages s \<union> run_pages (pages, snd q)"
        using eq by auto
      then have "palloc_alloc q s = Some (Some (pages, snd q), s')" by (simp add: palloc_alloc_def valid_run_def)
      with get show ?thesis by auto
    qed
  qed
next
  fix s r assume "palloc_ok s" "valid_run s r" "run_pages r \<subseteq> used_pages s"
  then show "\<exists>s'. palloc_fre r s = Some s' \<and> palloc_ok s' \<and> same_pools s s' \<and> used_pages s' = used_pages s - run_pages r"
    using palloc_free_multiple_eq[of s r] by (auto simp: palloc_fre_def)
qed (simp_all add: same_pools_valid)


section \<open>Setting the pools up\<close>

lemma unat_bitmap_buf_size:
  assumes "unat n < 2 ^ 29" shows "unat (bitmap_buf_size n) = 8 + 4 * ((unat n + 31) div 32)"
proof -
  have n31: "n + ELEM_BITS - 1 = n + 31" by (simp add: ELEM_BITS_def algebra_simps)
  have "unat (n + ELEM_BITS - 1) = unat n + 31" unfolding n31 using assms unat_add_lem[of n 31] by simp
  then have e: "unat (elem_cnt n) = (unat n + 31) div 32" by (simp add: elem_cnt_def unat_div) (simp add: ELEM_BITS_def)
  then have "unat (byte_cnt n) = 4 * ((unat n + 31) div 32)" using assms by (simp add: byte_cnt_def unat_word_ariths)
  then show ?thesis using assms unat_add_lem[of 8 "byte_cnt n"] div_le_dividend[of "unat n + 31" 32]
    by (simp add: bitmap_buf_size_def)
qed

lemma set_all_false:
  assumes "bitmap_ok b" shows "\<exists>b'. bitmap_set_all False b = Some b' \<and> bitmap_ok b' \<and> bit_cnt b' = bit_cnt b \<and> (\<forall>i < unat (bit_cnt b). \<not> bits_of b' ! i)"
proof -
  have "in_bitmap b 0 (bit_cnt b)" by (simp add: in_bitmap_def)
  from bitmap_set_multiple_eq[OF assms this, of False] show ?thesis by (auto simp: bitmap_set_all_def bitmap_size_def)
qed

lemma init_pool_eq:
  assumes cnt: "1 \<le> unat cnt" "unat cnt < 2 ^ 20" and bas: "bas \<noteq> 0" "unat bas mod 4096 = 0" "unat bas + 4096 * unat cnt < 2 ^ 32"
  shows "\<exists>p b. init_pool bas cnt m = Some p \<and> pool_ok p \<and> pool_used p = {} \<and> b \<le> unat cnt \<and>
    first_page p = unat bas div 4096 + b \<and> page_total p = unat cnt - b"
proof -
  define bm where "bm = (bitmap_buf_size cnt + PGSIZE - 1) div PGSIZE"
  define b where "b = (8 + 4 * ((unat cnt + 31) div 32) + 4095) div 4096"
  have "unat (bitmap_buf_size cnt + PGSIZE - 1) = 8 + 4 * ((unat cnt + 31) div 32) + 4095"
    using cnt unat_bitmap_buf_size[of cnt] unat_add_lem[of "bitmap_buf_size cnt" 4095] div_le_dividend[of "unat cnt + 31" 32]
    by (simp add: add.commute[of 4095])
  then have ub: "unat bm = b" by (simp add: bm_def b_def unat_div)
  have b: "1 \<le> b" "b \<le> unat cnt" "8 + 4 * ((unat cnt + 31) div 32) \<le> 4096 * b" using cnt by (auto simp: b_def)
  have ubytes: "unat (bm * PGSIZE) = 4096 * b" using b cnt by (simp add: unat_word_ariths ub)
  define pc where "pc = cnt - bm"
  have pc: "unat pc = unat cnt - b" using b ub by (simp add: pc_def unat_sub word_le_nat_alt)
  define words where "words = map (\<lambda>i. word_at m (bas + 8 + 4 * of_nat i)) [0..<unat (bm * PGSIZE - 8) div 4]"
  have len: "length words = (4096 * b - 8) div 4"
    using b ubytes by (simp add: words_def unat_sub word_le_nat_alt)
  have "bitmap_ok \<lparr>bit_cnt = pc, bits = words\<rparr>"
  proof -
    have "(4096 * b - 8) div 4 = 1024 * b - 2" by (simp add: div_mult2_eq diff_mult_distrib2)
    moreover have "unat cnt \<le> 32 * ((unat cnt + 31) div 32)" by simp
    ultimately show ?thesis using b by (simp add: bitmap_ok_def pc len)
  qed
  then obtain u where u: "bitmap_set_all False \<lparr>bit_cnt = pc, bits = words\<rparr> = Some u" "bitmap_ok u" "bit_cnt u = pc"
      "\<forall>i < unat pc. \<not> bits_of u ! i"
    using set_all_false by fastforce
  have "bitmap_buf_size pc \<le> bm * PGSIZE"
    using unat_bitmap_buf_size[of pc] pc b ubytes cnt div_le_mono[of "unat cnt - b + 31" "unat cnt + 31" 32]
    by (simp add: word_le_nat_alt)
  then have "init_pool bas cnt m = Some \<lparr>pool_lock = False, used_map = u, base = bas + bm * PGSIZE\<rparr>"
    unfolding init_pool_def Let_def bm_def[symmetric] pc_def[symmetric] words_def[symmetric]
    using b(2) ub u(1) by (simp add: bitmap_create_in_buf_def word_le_nat_alt)
  moreover have ub2: "unat (bas + bm * PGSIZE) = unat bas + 4096 * b"
    using bas(3) b ubytes unat_add_lem[of bas "bm * PGSIZE"] by simp
  moreover have "bas + bm * PGSIZE \<noteq> 0" using ub2 b(1) by (metis add_is_0 mult_is_0 not_one_le_zero unat_0 zero_neq_numeral)
  moreover have "(unat bas + 4096 * b) mod 4096 = 0" using bas(2) by (simp add: mod_add_eq)
  moreover have "unat bas + 4096 * b + 4096 * unat pc \<le> 2 ^ 32" using bas(3) b(2) pc by simp
  ultimately show ?thesis
    using u pc b by (intro exI[of _ "\<lparr>pool_lock = False, used_map = u, base = bas + bm * PGSIZE\<rparr>"] exI[of _ b])
      (auto simp: pool_ok_def pool_used_def)
qed

lemma palloc_init_eq:
  assumes "258 \<le> unat ram" "unat ram < 0x40000" "1 \<le> limit"
  shows "\<exists>s. palloc_init ram limit m = Some s \<and> palloc_ok s \<and> used_pages s = {} \<and> page_total (user_pool s) \<le> unat limit \<and>
    0xc0100 \<le> first_page (kernel_pool s) \<and> first_page (user_pool s) + page_total (user_pool s) \<le> 0xc0000 + unat ram"
proof -
  have uram: "unat (ram * PGSIZE) = 4096 * unat ram" using assms(2) by (simp add: unat_word_ariths)
  have st: "ptov (1024 * 1024) = Some 0xc0100000" by (simp add: ptov_def PHYS_BASE_def)
  have en: "ptov (ram * PGSIZE) = Some (ram * PGSIZE + PHYS_BASE)"
    using ptov_in_first_GB(1)[of "ram * PGSIZE"] uram assms(2) by simp
  have uend: "unat (ram * PGSIZE + PHYS_BASE) = 4096 * unat ram + 0xc0000000"
    using uram assms(2) unat_add_lem[of "ram * PGSIZE" PHYS_BASE] by (simp add: unat_PHYS_BASE)
  define fp where "fp = (ram * PGSIZE + PHYS_BASE - 0xc0100000) div PGSIZE"
  have "unat (ram * PGSIZE + PHYS_BASE - 0xc0100000) = 4096 * (unat ram - 256)"
    using uend assms(1) by (subst unat_sub) (simp_all add: word_le_nat_alt)
  then have fp: "unat fp = unat ram - 256" by (simp add: fp_def unat_div)
  define up where "up = (if fp div 2 > limit then limit else fp div 2)"
  have up: "1 \<le> unat up" "unat up \<le> unat fp div 2" "unat up \<le> unat limit"
    using assms fp by (auto simp: up_def unat_div word_less_nat_alt word_le_nat_alt)
  have kp: "unat (fp - up) = unat fp - unat up" using up by (simp add: unat_sub word_le_nat_alt)
  have "unat fp div 2 < unat fp" using fp assms(1) by (intro div_less_dividend) auto
  then have "1 \<le> unat (fp - up)" using kp up(2) by linarith
  obtain k b where k: "init_pool 0xc0100000 (fp - up) m = Some k" "pool_ok k" "pool_used k = {}" "b \<le> unat (fp - up)"
      "first_page k = 0xc0100 + b" "page_total k = unat (fp - up) - b"
  proof -
    have "unat (0xc0100000 :: u32) + 4096 * unat (fp - up) < 2 ^ 32" using kp up fp assms(2) by simp
    moreover have "unat (fp - up) < 2 ^ 20" using kp fp assms(2) by simp
    ultimately show ?thesis using init_pool_eq[OF \<open>1 \<le> unat (fp - up)\<close>, of "0xc0100000" m] that by auto
  qed
  have ukb: "unat (0xc0100000 + (fp - up) * PGSIZE) = 0xc0100000 + 4096 * (unat fp - unat up)"
  proof -
    have "4096 * unat (fp - up) < 2 ^ 32" using kp fp assms(2) by simp
    then have "unat ((fp - up) * PGSIZE) = 4096 * (unat fp - unat up)"
      using unat_page_bytes[of "fp - up"] kp by (metis mult.commute)
    moreover have "0xc0100000 + 4096 * (unat fp - unat up) < 2 ^ 32" using fp assms(2) by simp
    ultimately show ?thesis using unat_add_lem[of "0xc0100000" "(fp - up) * PGSIZE"] by simp
  qed
  moreover have "0xc0100000 + (fp - up) * PGSIZE \<noteq> 0" using ukb by (metis add_is_0 unat_0 zero_neq_numeral)
  moreover have "(0xc0100000 + 4096 * (unat fp - unat up)) mod 4096 = 0" by presburger
  ultimately obtain u c where u: "init_pool (0xc0100000 + (fp - up) * PGSIZE) up m = Some u" "pool_ok u" "pool_used u = {}"
      "c \<le> unat up" "first_page u = 0xc0100 + (unat fp - unat up) + c" "page_total u = unat up - c"
  proof -
    assume ub: "unat (0xc0100000 + (fp - up) * PGSIZE) = 0xc0100000 + 4096 * (unat fp - unat up)"
      and nz: "0xc0100000 + (fp - up) * PGSIZE \<noteq> 0" and al: "(0xc0100000 + 4096 * (unat fp - unat up)) mod 4096 = 0"
    have "unat up \<le> unat fp" using up(2) by linarith
    then have lt: "unat (0xc0100000 + (fp - up) * PGSIZE) + 4096 * unat up < 2 ^ 32" using ub fp assms(2) by simp
    have ul: "unat up < 2 ^ 20" using up(2) fp assms(2) by simp
    have fpg: "unat (0xc0100000 + (fp - up) * PGSIZE) div 4096 = 0xc0100 + (unat fp - unat up)" unfolding ub by simp
    obtain p b where "init_pool (0xc0100000 + (fp - up) * PGSIZE) up m = Some p" "pool_ok p" "pool_used p = {}" "b \<le> unat up"
        "first_page p = unat (0xc0100000 + (fp - up) * PGSIZE) div 4096 + b" "page_total p = unat up - b"
      using init_pool_eq[OF up(1) ul nz al[folded ub] lt, of m] by blast
    then show ?thesis unfolding fpg by (rule that)
  qed
  have "palloc_init ram limit m = Some \<lparr>kernel_pool = k, user_pool = u, page_mem = m\<rparr>"
    unfolding palloc_init_def st en Let_def bind.bind_lunit fp_def[symmetric] up_def[symmetric] k(1) u(1) ..
  moreover have "palloc_ok \<lparr>kernel_pool = k, user_pool = u, page_mem = m\<rparr>"
  proof -
    have "unat up \<le> unat fp" using up(2) by linarith
    then show ?thesis using k u kp by (simp add: palloc_ok_def)
  qed
  moreover have "page_total u \<le> unat limit" using u(4,6) up(3) by linarith
  moreover have "first_page u + page_total u \<le> 0xc0000 + unat ram" using u(4,5,6) fp up(2) assms(1) by linarith
  ultimately show ?thesis using k(3,5) u(3) by (auto simp: used_pages_def)
qed


section \<open>Properties\<close>

text \<open>On a machine with more than 1 MB and less than 1 GB of memory the page allocator comes up: the two pools are
  disjoint, lie between 1 MB and the end of memory, all their pages are free, and the user pool is not larger
  than the limit asked for.\<close>

lemma palloc_init_correct:
  assumes "258 \<le> unat ram" "unat ram < 0x40000" "1 \<le> limit"
  shows "\<exists>s. palloc_init ram limit m = Some s \<and> palloc_ok s \<and> used_pages s = {} \<and> page_total (user_pool s) \<le> unat limit \<and>
    0xc0100 \<le> first_page (kernel_pool s) \<and> first_page (user_pool s) + page_total (user_pool s) \<le> 0xc0000 + unat ram"
  by (rule palloc_init_eq[OF assms])

lemma palloc_init_correct_witness: "\<exists>s. palloc_init 1024 (-1) (\<lambda>_. 7) = Some s \<and> palloc_ok s \<and> used_pages s = {}"
  using palloc_init_correct[of 1024 "-1" "\<lambda>_. 7"] by auto

text \<open>C12. \<^verbatim>\<open>palloc_get_multiple\<close> gives the first run of free pages of the pool asked for that is long enough,
  marks exactly that run as used, zeroes it on request and touches no other memory; without such a run it returns a null pointer
  and changes nothing, or panics if the caller asked for that.\<close>

theorem palloc_get_multiple_correct:
  assumes "palloc_ok s" "page_cnt \<noteq> 0" "p = pool_of (flags AND PAL_USER \<noteq> 0) s"
  shows "case first_run (bits_of (used_map p)) 0 (unat page_cnt) False of
      None \<Rightarrow> palloc_get_multiple flags page_cnt s = (if flags AND PAL_ASSERT = 0 then Some (0, s) else None)
    | Some n \<Rightarrow> \<exists>pages s'. palloc_get_multiple flags page_cnt s = Some (pages, s') \<and>
        unat pages = unat (base p) + 4096 * n \<and> palloc_ok s' \<and> same_pools s s' \<and> valid_run s (pages, page_cnt) \<and>
        run_pages (pages, page_cnt) \<inter> used_pages s = {} \<and> used_pages s' = used_pages s \<union> run_pages (pages, page_cnt) \<and>
        (\<forall>x. page_mem s' x =
          (if flags AND PAL_ZERO \<noteq> 0 \<and> unat (x - pages) < 4096 * unat page_cnt then 0 else page_mem s x))"
  by (rule palloc_get_multiple_eq[OF assms(1,2) refl assms(3)])

text \<open>Two small pools: pages \<open>0xc0110\<close> to \<open>0xc0113\<close> with the first two used, and \<open>0xc0120\<close> to \<open>0xc0123\<close>.\<close>

definition sample_pools :: palloc where
  "sample_pools = \<lparr>kernel_pool = \<lparr>pool_lock = False, used_map = \<lparr>bit_cnt = 4, bits = [3]\<rparr>, base = 0xc0110000\<rparr>,
     user_pool = \<lparr>pool_lock = False, used_map = \<lparr>bit_cnt = 4, bits = [0]\<rparr>, base = 0xc0120000\<rparr>, page_mem = (\<lambda>_. 0)\<rparr>"

lemma sample_pools_ok: "palloc_ok sample_pools"
  by (simp add: sample_pools_def palloc_ok_def pool_ok_def bitmap_ok_def)

lemma sample_kernel_bits: "bits_of \<lparr>bit_cnt = 4, bits = [3]\<rparr> = [True, True, False, False]"
  and sample_user_bits: "bits_of \<lparr>bit_cnt = 4, bits = [0]\<rparr> = [False, False, False, False]"
  by code_simp+

theorem palloc_get_multiple_correct_witness:
  "\<exists>s'. palloc_get_multiple 0 2 sample_pools = Some (0xc0112000, s') \<and> palloc_ok s' \<and>
     used_pages s' = used_pages sample_pools \<union> run_pages (0xc0112000, 2)"
proof -
  have run: "first_run [True, True, False, False] 0 2 False = Some 2"
    by code_simp
  have p: "pool_of ((0 :: u32) AND PAL_USER \<noteq> 0) sample_pools = kernel_pool sample_pools" by (simp add: pool_of_def)
  obtain pages s' where *: "palloc_get_multiple 0 2 sample_pools = Some (pages, s')" "unat pages = unat (0xc0110000 :: u32) + 4096 * 2"
      "palloc_ok s'" "used_pages s' = used_pages sample_pools \<union> run_pages (pages, 2)"
    using palloc_get_multiple_correct[OF sample_pools_ok, of 2 "kernel_pool sample_pools" 0] p run
    by (auto simp: sample_pools_def sample_kernel_bits)
  have "pages = 0xc0112000" using *(2) by (simp add: word_unat_eq_iff)
  with * show ?thesis by auto
qed

text \<open>Freeing a run of pages that is in use gives back exactly those pages and fills them with \<^verbatim>\<open>0xcc\<close>; getting
  pages and freeing them again leaves the set of used pages as it was.\<close>

lemma palloc_free_multiple_correct:
  assumes "palloc_ok s" "valid_run s (pages, page_cnt)" "run_pages (pages, page_cnt) \<subseteq> used_pages s"
  shows "\<exists>s'. palloc_free_multiple pages page_cnt s = Some s' \<and> palloc_ok s' \<and> same_pools s s' \<and>
    used_pages s' = used_pages s - run_pages (pages, page_cnt) \<and>
    (\<forall>x. page_mem s' x = (if unat (x - pages) < 4096 * unat page_cnt then 0xcc else page_mem s x))"
  using palloc_free_multiple_eq[OF assms] by simp

lemma palloc_free_multiple_correct_witness:
  "\<exists>s'. palloc_free_multiple 0xc0110000 2 sample_pools = Some s' \<and> palloc_ok s' \<and> used_pages s' = {}"
proof -
  have used: "used_pages sample_pools = {0xc0110, 0xc0111}"
  proof -
    have four: "i < (4 :: nat) \<longleftrightarrow> i = 0 \<or> i = 1 \<or> i = 2 \<or> i = 3" for i by auto
    have "pool_used (kernel_pool sample_pools) = {0xc0110, 0xc0111}"
      by (auto simp: pool_used_def sample_pools_def sample_kernel_bits four)
    moreover have "\<not> [False, False, False, False] ! i" if "i < 4" for i using that[unfolded four] by auto
    then have "pool_used (user_pool sample_pools) = {}" by (auto simp: pool_used_def sample_pools_def sample_user_bits)
    ultimately show ?thesis by (simp add: used_pages_def)
  qed
  have run: "run_pages (0xc0110000, 2) = {0xc0110, 0xc0111}" by (auto simp: run_pages_def)
  have "valid_run sample_pools (0xc0110000, 2)"
    by (auto simp: valid_run_def in_pool_def pool_of_def sample_pools_def pg_ofs_def PGMASK_eq intro!: exI[of _ False])
  then show ?thesis using palloc_free_multiple_correct[OF sample_pools_ok, of "0xc0110000" 2] used run by auto
qed

text \<open>C11. Whatever sequence of allocations and frees callers make, with no \<^verbatim>\<open>PAL_ASSERT\<close> among the flags (which makes a failed request a
  panic, see \<open>palloc_get_multiple_correct\<close>), no run of pages is ever handed out twice: the runs held are
  pairwise disjoint, they are exactly the used pages beyond those that were used at the start, and no call panics.\<close>

theorem pages_never_shared:
  assumes "palloc_ok s" "\<And>r. Alloc r \<in> set qs \<Longrightarrow> fst r AND PAL_ASSERT = 0"
  shows "\<exists>live s'. serve palloc_alloc palloc_fre qs [] s = Some (live, s') \<and> palloc_ok s' \<and>
    sorted_wrt (\<lambda>e f. run_pages e \<inter> run_pages f = {}) live \<and>
    used_pages s \<inter> (\<Union>e \<in> set live. run_pages e) = {} \<and> used_pages s' = used_pages s \<union> (\<Union>e \<in> set live. run_pages e)"
  using pages.serve_holds[of "[]" "used_pages s" s qs] assms by (auto simp: pages.holds_def)

theorem pages_never_shared_witness:
  "\<exists>live s'. serve palloc_alloc palloc_fre [Alloc (0, 1), Alloc (4, 2), Free 0, Alloc (2, 1)] [] sample_pools = Some (live, s') \<and>
    sorted_wrt (\<lambda>e f. run_pages e \<inter> run_pages f = {}) live"
proof -
  have "fst r AND PAL_ASSERT = 0" if "Alloc r \<in> set [Alloc (0, 1), Alloc (4, 2), Free 0, Alloc (2, 1 :: u32)]" for r
    using that by (auto simp: PAL_ASSERT_def)
  from pages_never_shared[OF sample_pools_ok this] show ?thesis by blast
qed

end
