(* ===== verification/Malloc.thy ===== *)
theory Malloc
  imports Palloc
begin

unbundle bit_operations_syntax

text \<open>
  The allocator of small blocks, after \<^verbatim>\<open>threads/malloc.c\<close>, on top of the page allocator. The header of an arena,
  which the C code keeps at the start of the arena's first page, is an entry of the map \<open>arenas\<close> under the address of
  that page, and the list links that the C code keeps inside free blocks are the lists of the descriptors; everything else
  that is written to blocks goes to the bytes of the pages. An address under which no header was
  written fails the check of the magic number.
\<close>

section \<open>Definitions\<close>

record desc =
  block_sz :: u32
  blocks_per_arena :: u32
  free_list :: "u32 list"
  d_lock :: bool

definition ARENA_MAGIC :: u32 where "ARENA_MAGIC = 0x9a548eed"

record arena =
  arena_magic :: u32
  arena_desc :: "nat option"
  free_cnt :: u32

record malloc_state =
  pal :: palloc
  descs :: "desc list"
  arenas :: "u32 \<Rightarrow> arena option"

definition sizeof_arena :: u32 where "sizeof_arena = 12"

partial_function (option) malloc_init_loop :: "u32 \<Rightarrow> desc list \<Rightarrow> desc list option" where
  "malloc_init_loop bs ds =
     (if bs < PGSIZE div 2 then
        ASSERT (length ds + 1 \<le> 10) (
        malloc_init_loop (bs * 2) (ds @ [\<lparr>block_sz = bs, blocks_per_arena = (PGSIZE - sizeof_arena) div bs,
          free_list = [], d_lock = False\<rparr>]))
      else Some ds)"

definition malloc_init :: "palloc \<Rightarrow> malloc_state option" where
  "malloc_init p = Option.bind (malloc_init_loop 16 []) (\<lambda>ds. Some \<lparr>pal = p, descs = ds, arenas = Map.empty\<rparr>)"

definition block_to_arena :: "u32 \<Rightarrow> malloc_state \<Rightarrow> (u32 \<times> arena) option" where
  "block_to_arena b s =
     (let a = pg_round_down b in
      ASSERT (a \<noteq> 0) (
      Option.bind (arenas s a) (\<lambda>ar.
      ASSERT (arena_magic ar = ARENA_MAGIC) (
      ASSERT (case arena_desc ar of None \<Rightarrow> True
              | Some d \<Rightarrow> (pg_ofs b - sizeof_arena) mod block_sz (descs s ! d) = 0) (
      ASSERT (arena_desc ar \<noteq> None \<or> pg_ofs b = sizeof_arena) (
      Some (a, ar)))))))"

definition arena_to_block :: "u32 \<Rightarrow> u32 \<Rightarrow> malloc_state \<Rightarrow> u32 option" where
  "arena_to_block a idx s =
     ASSERT (a \<noteq> 0) (
     Option.bind (arenas s a) (\<lambda>ar.
     ASSERT (arena_magic ar = ARENA_MAGIC) (
     Option.bind (arena_desc ar) (\<lambda>d.
     ASSERT (idx < blocks_per_arena (descs s ! d)) (
     Some (a + sizeof_arena + idx * block_sz (descs s ! d)))))))"

fun find_desc :: "u32 \<Rightarrow> desc list \<Rightarrow> nat" where
  "find_desc sz [] = 0"
| "find_desc sz (d # ds) = (if block_sz d \<ge> sz then 0 else Suc (find_desc sz ds))"

definition upd_desc :: "nat \<Rightarrow> (desc \<Rightarrow> desc) \<Rightarrow> malloc_state \<Rightarrow> malloc_state" where
  "upd_desc d f s = s\<lparr>descs := (descs s)[d := f (descs s ! d)]\<rparr>"

definition desc_acquire :: "nat \<Rightarrow> malloc_state \<Rightarrow> malloc_state option" where
  "desc_acquire d s = ASSERT (\<not> d_lock (descs s ! d)) (Some (upd_desc d (\<lambda>x. x\<lparr>d_lock := True\<rparr>) s))"

definition desc_release :: "nat \<Rightarrow> malloc_state \<Rightarrow> malloc_state option" where
  "desc_release d s = ASSERT (d_lock (descs s ! d)) (Some (upd_desc d (\<lambda>x. x\<lparr>d_lock := False\<rparr>) s))"

primrec add_blocks :: "nat \<Rightarrow> u32 \<Rightarrow> nat list \<Rightarrow> malloc_state \<Rightarrow> malloc_state option" where
  "add_blocks d a [] s = Some s"
| "add_blocks d a (i # is) s =
     Option.bind (arena_to_block a (of_nat i) s) (\<lambda>b.
     add_blocks d a is (upd_desc d (\<lambda>x. x\<lparr>free_list := free_list x @ [b]\<rparr>) s))"

definition new_arena :: "nat \<Rightarrow> malloc_state \<Rightarrow> (bool \<times> malloc_state) option" where
  "new_arena d s =
     Option.bind (palloc_get_page 0 (pal s)) (\<lambda>(a, p).
     let s = s\<lparr>pal := p\<rparr> in
     if a = 0 then Some (False, s) else
     let n = blocks_per_arena (descs s ! d);
         s = s\<lparr>arenas := (arenas s)(a \<mapsto> \<lparr>arena_magic = ARENA_MAGIC, arena_desc = Some d, free_cnt = n\<rparr>)\<rparr> in
     Option.bind (add_blocks d a [0..<unat n] s) (\<lambda>s. Some (True, s)))"

text \<open>The allocation of a big block.\<close>

definition malloc_big :: "u32 \<Rightarrow> malloc_state \<Rightarrow> (u32 \<times> malloc_state) option" where
  "malloc_big sz s =
     (let page_cnt = (sz + sizeof_arena + PGSIZE - 1) div PGSIZE in
      Option.bind (palloc_get_multiple 0 page_cnt (pal s)) (\<lambda>(a, p).
      let s = s\<lparr>pal := p\<rparr> in
      if a = 0 then Some (0, s) else
      Some (a + sizeof_arena,
        s\<lparr>arenas := (arenas s)(a \<mapsto> \<lparr>arena_magic = ARENA_MAGIC, arena_desc = None, free_cnt = page_cnt\<rparr>)\<rparr>)))"

definition malloc :: "u32 \<Rightarrow> malloc_state \<Rightarrow> (u32 \<times> malloc_state) option" where
  "malloc sz s =
     (if sz = 0 then Some (0, s) else
      let d = find_desc sz (descs s) in
      if d = length (descs s) then malloc_big sz s else
      Option.bind (desc_acquire d s) (\<lambda>s.
      Option.bind (if free_list (descs s ! d) = [] then new_arena d s else Some (True, s)) (\<lambda>(ok, s).
      if \<not> ok then Option.bind (desc_release d s) (\<lambda>s. Some (0, s)) else
      case free_list (descs s ! d) of
        [] \<Rightarrow> None
      | b # bs \<Rightarrow>
          let s = upd_desc d (\<lambda>x. x\<lparr>free_list := bs\<rparr>) s in
          Option.bind (block_to_arena b s) (\<lambda>(a, ar).
          let s = s\<lparr>arenas := (arenas s)(a \<mapsto> ar\<lparr>free_cnt := free_cnt ar - 1\<rparr>)\<rparr> in
          Option.bind (desc_release d s) (\<lambda>s. Some (b, s))))))"

definition calloc :: "u32 \<Rightarrow> u32 \<Rightarrow> malloc_state \<Rightarrow> (u32 \<times> malloc_state) option" where
  "calloc a b s =
     (let sz = a * b in
      if sz < a \<or> sz < b then Some (0, s) else
      Option.bind (malloc sz s) (\<lambda>(p, s).
      if p \<noteq> 0 then Option.bind (memset p 0 sz (page_mem (pal s))) (\<lambda>(_, m). Some (p, s\<lparr>pal := (pal s)\<lparr>page_mem := m\<rparr>\<rparr>))
      else Some (p, s)))"

definition block_size :: "u32 \<Rightarrow> malloc_state \<Rightarrow> u32 option" where
  "block_size block s =
     Option.bind (block_to_arena block s) (\<lambda>(a, ar).
     Some (case arena_desc ar of Some d \<Rightarrow> block_sz (descs s ! d) | None \<Rightarrow> PGSIZE * free_cnt ar - pg_ofs block))"

primrec remove_blocks :: "nat \<Rightarrow> u32 \<Rightarrow> nat list \<Rightarrow> malloc_state \<Rightarrow> malloc_state option" where
  "remove_blocks d a [] s = Some s"
| "remove_blocks d a (i # is) s =
     Option.bind (arena_to_block a (of_nat i) s) (\<lambda>b.
     ASSERT (b \<in> set (free_list (descs s ! d))) (
     remove_blocks d a is (upd_desc d (\<lambda>x. x\<lparr>free_list := remove1 b (free_list x)\<rparr>) s)))"

definition free_block :: "u32 \<Rightarrow> malloc_state \<Rightarrow> malloc_state option" where
  "free_block p s =
     (if p = 0 then Some s else
      Option.bind (block_to_arena p s) (\<lambda>(a, ar).
      case arena_desc ar of
        Some d \<Rightarrow>
          Option.bind (memset p 0xcc (block_sz (descs s ! d)) (page_mem (pal s))) (\<lambda>(_, m).
          let s = s\<lparr>pal := (pal s)\<lparr>page_mem := m\<rparr>\<rparr> in
          Option.bind (desc_acquire d s) (\<lambda>s.
          let s = upd_desc d (\<lambda>x. x\<lparr>free_list := p # free_list x\<rparr>) s;
              n = free_cnt ar + 1;
              s = s\<lparr>arenas := (arenas s)(a \<mapsto> ar\<lparr>free_cnt := n\<rparr>)\<rparr>;
              bpa = blocks_per_arena (descs s ! d) in
          Option.bind
            (if n \<ge> bpa then
               ASSERT (n = bpa) (
               Option.bind (remove_blocks d a [0..<unat bpa] s) (\<lambda>s.
               Option.bind (palloc_free_page a (pal s)) (\<lambda>p.
               Some (s\<lparr>pal := p, arenas := (arenas s)(a := None)\<rparr>))))
             else Some s) (desc_release d)))
      | None \<Rightarrow>
          Option.bind (palloc_free_multiple a (free_cnt ar) (pal s)) (\<lambda>p.
          Some (s\<lparr>pal := p, arenas := (arenas s)(a := None)\<rparr>))))"

definition realloc :: "u32 \<Rightarrow> u32 \<Rightarrow> malloc_state \<Rightarrow> (u32 \<times> malloc_state) option" where
  "realloc old_block new_size s =
     (if new_size = 0 then Option.bind (free_block old_block s) (\<lambda>s. Some (0, s))
      else
        Option.bind (malloc new_size s) (\<lambda>(new_block, s).
        if old_block \<noteq> 0 \<and> new_block \<noteq> 0 then
          Option.bind (block_size old_block s) (\<lambda>old_size.
          let min_size = (if new_size < old_size then new_size else old_size) in
          Option.bind (memcpy new_block old_block min_size (page_mem (pal s))) (\<lambda>(_, m).
          Option.bind (free_block old_block (s\<lparr>pal := (pal s)\<lparr>page_mem := m\<rparr>\<rparr>)) (\<lambda>s. Some (new_block, s))))
        else Some (new_block, s)))"


section \<open>The descriptors\<close>

definition sizes :: "(u32 \<times> u32) list" where
  "sizes = [(16, 255), (32, 127), (64, 63), (128, 31), (256, 15), (512, 7), (1024, 3)]"

definition shape :: "malloc_state \<Rightarrow> bool" where
  "shape s \<longleftrightarrow> map (\<lambda>d. (block_sz d, blocks_per_arena d)) (descs s) = sizes"

abbreviation bsz :: "malloc_state \<Rightarrow> nat \<Rightarrow> u32" where "bsz s d \<equiv> block_sz (descs s ! d)"

abbreviation bcnt :: "malloc_state \<Rightarrow> nat \<Rightarrow> nat" where "bcnt s d \<equiv> unat (blocks_per_arena (descs s ! d))"

abbreviation flist :: "malloc_state \<Rightarrow> nat \<Rightarrow> u32 list" where "flist s d \<equiv> free_list (descs s ! d)"

lemma shape_length: "shape s \<Longrightarrow> length (descs s) = 7"
proof -
  assume "shape s"
  then have "length (map (\<lambda>d. (block_sz d, blocks_per_arena d)) (descs s)) = length sizes" by (simp only: shape_def)
  then show ?thesis by (simp add: sizes_def)
qed

lemma shape_desc:
  assumes "shape s" "d < length (descs s)"
  shows "16 \<le> unat (bsz s d)" "unat (bsz s d) \<le> 1024" "1 < bcnt s d" "bcnt s d \<le> 255" "12 + bcnt s d * unat (bsz s d) \<le> 4096"
proof -
  have "(bsz s d, blocks_per_arena (descs s ! d)) \<in> set (map (\<lambda>d. (block_sz d, blocks_per_arena d)) (descs s))"
    using assms(2) by (force simp: in_set_conv_nth)
  then have "(bsz s d, blocks_per_arena (descs s ! d)) \<in> set sizes" using assms(1) by (simp only: shape_def)
  moreover have "\<forall>p \<in> set sizes. 16 \<le> unat (fst p) \<and> unat (fst p) \<le> 1024 \<and> 1 < unat (snd p) \<and> unat (snd p) \<le> 255 \<and>
      12 + unat (snd p) * unat (fst p) \<le> 4096" by (simp add: sizes_def)
  ultimately show "16 \<le> unat (bsz s d)" "unat (bsz s d) \<le> 1024" "1 < bcnt s d" "bcnt s d \<le> 255" "12 + bcnt s d * unat (bsz s d) \<le> 4096"
    by fastforce+
qed

lemma descs_upd [simp]:
  "d < length (descs s) \<Longrightarrow> descs (upd_desc d f s) ! e = (if e = d then f (descs s ! d) else descs s ! e)"
  "length (descs (upd_desc d f s)) = length (descs s)" "pal (upd_desc d f s) = pal s" "arenas (upd_desc d f s) = arenas s"
  by (auto simp: upd_desc_def)

lemma shape_upd:
  assumes "block_sz (f (descs s ! d)) = bsz s d" "blocks_per_arena (f (descs s ! d)) = blocks_per_arena (descs s ! d)"
  shows "shape (upd_desc d f s) \<longleftrightarrow> shape s"
proof (cases "d < length (descs s)")
  case True
  have "(map g (descs s))[d := g (descs s ! d)] = map g (descs s)" for g :: "desc \<Rightarrow> u32 \<times> u32"
    by (metis True list_update_id nth_map)
  from this[of "\<lambda>d. (block_sz d, blocks_per_arena d)"]
  show ?thesis using assms by (simp add: shape_def upd_desc_def map_update)
qed (simp add: shape_def upd_desc_def list_update_beyond)

section \<open>Addresses of blocks\<close>

definition baddr :: "u32 \<Rightarrow> u32 \<Rightarrow> nat \<Rightarrow> u32" where "baddr a z i = a + sizeof_arena + of_nat i * z"

lemma unat_baddr:
  assumes "unat a mod 4096 = 0" "unat a + 4096 \<le> 2 ^ 32" "16 \<le> unat z" "12 + n * unat z \<le> 4096" "i < n"
  shows "unat (baddr a z i) = unat a + 12 + i * unat z" "i * unat z + 16 \<le> n * unat z"
proof -
  have "Suc i * unat z \<le> n * unat z" using assms(5) by (intro mult_le_mono1) simp
  then show iz: "i * unat z + 16 \<le> n * unat z" using assms(3) by simp
  have "i \<le> i * unat z" using assms(3) by (cases "unat z") auto
  then have "i \<le> 4096" using iz assms(4) by linarith
  then have "i < 2 ^ 32" by simp
  then have "unat (of_nat i :: u32) = i" by (simp add: unat_of_nat)
  then have m: "unat (of_nat i * z) = i * unat z" using iz assms(4) by (simp add: unat_word_ariths)
  have "unat (a + sizeof_arena) = unat a + 12" using assms(2) unat_add_lem[of a 12] by (simp add: sizeof_arena_def)
  then show "unat (baddr a z i) = unat a + 12 + i * unat z"
    using m iz assms(2,4) unat_add_lem[of "a + sizeof_arena" "of_nat i * z"] by (simp add: baddr_def)
qed

lemma baddr_page:
  assumes "unat a mod 4096 = 0" "unat a + 4096 \<le> 2 ^ 32" "16 \<le> unat z" "12 + n * unat z \<le> 4096" "i < n"
  shows "pg_round_down (baddr a z i) = a" "(pg_ofs (baddr a z i) - sizeof_arena) mod z = 0" "baddr a z i \<noteq> 0"
proof -
  note u = unat_baddr[OF assms]
  have o: "12 + i * unat z < 4096" using u(2) assms(3,4) by linarith
  have "unat (baddr a z i) mod 4096 = (unat a mod 4096 + (12 + i * unat z)) mod 4096" unfolding u(1) by (metis add.assoc mod_add_left_eq)
  then have md: "unat (baddr a z i) mod 4096 = 12 + i * unat z" using assms(1) o by simp
  have "unat (pg_round_down (baddr a z i)) = unat (baddr a z i) - unat (baddr a z i) mod 4096"
    by (simp add: unat_pg_round_down ROUND_DOWN_def minus_mod_eq_div_mult)
  then have "unat (pg_round_down (baddr a z i)) = unat a" unfolding md by (simp add: u(1))
  then show "pg_round_down (baddr a z i) = a" by (simp add: word_unat_eq_iff)
  have po: "unat (pg_ofs (baddr a z i)) = 12 + i * unat z" using md by (simp add: unat_pg_ofs)
  then have "unat (pg_ofs (baddr a z i) - sizeof_arena) = i * unat z"
    by (subst unat_sub) (simp_all add: sizeof_arena_def word_le_nat_alt)
  then have "unat ((pg_ofs (baddr a z i) - sizeof_arena) mod z) = 0" by (simp add: unat_mod)
  then show "(pg_ofs (baddr a z i) - sizeof_arena) mod z = 0" by (simp add: unat_eq_0)
  show "baddr a z i \<noteq> 0" using u(1) by auto
qed

lemma baddr_inj:
  assumes "unat a mod 4096 = 0" "unat a + 4096 \<le> 2 ^ 32" "16 \<le> unat z" "12 + n * unat z \<le> 4096" "i < n" "j < n"
  shows "baddr a z i = baddr a z j \<longleftrightarrow> i = j"
proof -
  have "unat z \<noteq> 0" using assms(3) by linarith
  then show ?thesis
    unfolding word_unat_eq_iff unat_baddr(1)[OF assms(1-5)] unat_baddr(1)[OF assms(1-4,6)] by simp
qed

lemma run_bound:
  assumes "palloc_ok s" "valid_run s (a, n)"
  shows "unat a mod 4096 = 0" "unat a + 4096 * unat n \<le> 2 ^ 32" "a \<noteq> 0" "n \<noteq> 0"
proof -
  obtain u where v: "pg_ofs a = 0" "in_pool (pool_of u s) (a, n)" "a \<noteq> 0" "n \<noteq> 0"
    using assms(2) by (auto simp: valid_run_def)
  have "pool_ok (pool_of u s)" using assms(1) by (simp add: palloc_ok_iff)
  then have b: "unat (base (pool_of u s)) + 4096 * page_total (pool_of u s) \<le> 2 ^ 32" by (simp add: pool_ok_def)
  show al: "unat a mod 4096 = 0" using v(1) unat_pg_ofs[of a] by simp
  have "4096 * (unat a div 4096 + unat n) \<le> 4096 * (first_page (pool_of u s) + page_total (pool_of u s))"
    using v(2) by (simp add: in_pool_def)
  also have "\<dots> \<le> 2 ^ 32" using b div_times_less_eq_dividend[of "unat (base (pool_of u s))" 4096] by (simp add: distrib_left mult.commute)
  finally show "unat a + 4096 * unat n \<le> 2 ^ 32" using al by (simp add: distrib_left mult_div_mod_eq minus_mod_eq_mult_div[symmetric])
  show "a \<noteq> 0" "n \<noteq> 0" using v by auto
qed


section \<open>The invariant\<close>

definition arena_pages :: "arena \<Rightarrow> u32" where
  "arena_pages ar = (if arena_desc ar = None then free_cnt ar else 1)"

text \<open>The numbers of the free blocks of an arena.\<close>

definition free_idx :: "malloc_state \<Rightarrow> u32 \<Rightarrow> nat \<Rightarrow> nat set" where
  "free_idx s a d = {i. i < bcnt s d \<and> baddr a (bsz s d) i \<in> set (flist s d)}"

definition arena_ok :: "bool \<Rightarrow> malloc_state \<Rightarrow> u32 \<Rightarrow> arena \<Rightarrow> bool" where
  "arena_ok full s a ar \<longleftrightarrow> arena_magic ar = ARENA_MAGIC \<and> valid_run (pal s) (a, arena_pages ar) \<and>
     run_pages (a, arena_pages ar) \<subseteq> used_pages (pal s) \<and>
     (\<forall>d. arena_desc ar = Some d \<longrightarrow> d < length (descs s) \<and> unat (free_cnt ar) = card (free_idx s a d) \<and>
        (full \<or> unat (free_cnt ar) < bcnt s d))"

text \<open>Between calls no arena is wholly free; inside a call those in \<open>X\<close> may be.\<close>

definition heap_inv :: "u32 set \<Rightarrow> malloc_state \<Rightarrow> bool" where
  "heap_inv X s \<longleftrightarrow> palloc_ok (pal s) \<and> shape s \<and>
     (\<forall>d < length (descs s). distinct (flist s d) \<and>
        (\<forall>b \<in> set (flist s d). \<exists>a ar i. arenas s a = Some ar \<and> arena_desc ar = Some d \<and> i < bcnt s d \<and> b = baddr a (bsz s d) i)) \<and>
     (\<forall>a ar. arenas s a = Some ar \<longrightarrow> arena_ok (a \<in> X) s a ar) \<and>
     (\<forall>a ar a' ar'. arenas s a = Some ar \<and> arenas s a' = Some ar' \<and> a \<noteq> a' \<longrightarrow>
        run_pages (a, arena_pages ar) \<inter> run_pages (a', arena_pages ar') = {})"

definition malloc_ok :: "malloc_state \<Rightarrow> bool" where
  "malloc_ok s \<longleftrightarrow> heap_inv {} s \<and> (\<forall>d < length (descs s). \<not> d_lock (descs s ! d))"

text \<open>The blocks in use, each with its size.\<close>

definition used_blocks :: "malloc_state \<Rightarrow> (u32 \<times> u32) set" where
  "used_blocks s =
     {(baddr a (bsz s d) i, bsz s d) | a ar d i. arenas s a = Some ar \<and> arena_desc ar = Some d \<and> i < bcnt s d \<and>
        baddr a (bsz s d) i \<notin> set (flist s d)} \<union>
     {(a + sizeof_arena, PGSIZE * free_cnt ar - sizeof_arena) | a ar. arenas s a = Some ar \<and> arena_desc ar = None}"

lemma heap_invD:
  assumes "heap_inv X s"
  shows "palloc_ok (pal s)" "shape s" "\<And>d. d < length (descs s) \<Longrightarrow> distinct (flist s d)"
    "\<And>d b. d < length (descs s) \<Longrightarrow> b \<in> set (flist s d) \<Longrightarrow>
       \<exists>a ar i. arenas s a = Some ar \<and> arena_desc ar = Some d \<and> i < bcnt s d \<and> b = baddr a (bsz s d) i"
    "\<And>a ar. arenas s a = Some ar \<Longrightarrow> arena_ok (a \<in> X) s a ar"
    "\<And>a ar a' ar'. arenas s a = Some ar \<Longrightarrow> arenas s a' = Some ar' \<Longrightarrow> a \<noteq> a' \<Longrightarrow>
       run_pages (a, arena_pages ar) \<inter> run_pages (a', arena_pages ar') = {}"
  using assms unfolding heap_inv_def by blast+

text \<open>An arena of a descriptor: its page, and its blocks in it.\<close>

lemma arena_small:
  assumes "heap_inv X s" "arenas s a = Some ar" "arena_desc ar = Some d"
  shows "d < length (descs s)" "unat a mod 4096 = 0" "unat a + 4096 \<le> 2 ^ 32" "a \<noteq> 0"
    "arena_magic ar = ARENA_MAGIC" "unat (free_cnt ar) = card (free_idx s a d)"
    "16 \<le> unat (bsz s d)" "12 + bcnt s d * unat (bsz s d) \<le> 4096"
proof -
  note ok = heap_invD(5)[OF assms(1,2), unfolded arena_ok_def]
  show d: "d < length (descs s)" "arena_magic ar = ARENA_MAGIC" "unat (free_cnt ar) = card (free_idx s a d)"
    using ok assms(3) by auto
  have "valid_run (pal s) (a, 1)" using ok assms(3) by (simp add: arena_pages_def)
  from run_bound[OF heap_invD(1)[OF assms(1)] this]
  show "unat a mod 4096 = 0" "unat a + 4096 \<le> 2 ^ 32" "a \<noteq> 0" by auto
  show "16 \<le> unat (bsz s d)" "12 + bcnt s d * unat (bsz s d) \<le> 4096"
    using shape_desc[OF heap_invD(2)[OF assms(1)] d(1)] by auto
qed

lemma small_block:
  assumes "heap_inv X s" "arenas s a = Some ar" "arena_desc ar = Some d" "i < bcnt s d"
  shows "pg_round_down (baddr a (bsz s d) i) = a" "baddr a (bsz s d) i \<noteq> 0"
    "block_to_arena (baddr a (bsz s d) i) s = Some (a, ar)"
    "\<And>j. j < bcnt s d \<Longrightarrow> baddr a (bsz s d) i = baddr a (bsz s d) j \<longleftrightarrow> i = j"
proof -
  note sm = arena_small[OF assms(1-3)]
  note pg = baddr_page[OF sm(2,3,7,8) assms(4)]
  show "pg_round_down (baddr a (bsz s d) i) = a" "baddr a (bsz s d) i \<noteq> 0" using pg by auto
  show "block_to_arena (baddr a (bsz s d) i) s = Some (a, ar)"
    using pg sm(4,5) assms(2,3) by (simp add: block_to_arena_def Let_def)
  show "baddr a (bsz s d) i = baddr a (bsz s d) j \<longleftrightarrow> i = j" if "j < bcnt s d" for j
    by (rule baddr_inj[OF sm(2,3,7,8) assms(4) that])
qed

lemma finite_free_idx [simp]: "finite (free_idx s a d)"
  by (simp add: free_idx_def)


section \<open>Moving one block\<close>

text \<open>\<open>moved s a d i s'\<close>: from \<open>s\<close> to \<open>s'\<close> only block \<open>i\<close> of arena \<open>a\<close> enters or leaves the free list of \<open>d\<close>, and the arena's count
  follows.\<close>

definition moved :: "malloc_state \<Rightarrow> u32 \<Rightarrow> nat \<Rightarrow> nat \<Rightarrow> malloc_state \<Rightarrow> bool" where
  "moved s a d i s' \<longleftrightarrow> palloc_ok (pal s') \<and> used_pages (pal s') = used_pages (pal s) \<and> valid_run (pal s') = valid_run (pal s) \<and>
     length (descs s') = length (descs s) \<and> shape s' \<and> (\<forall>e. bsz s' e = bsz s e \<and> blocks_per_arena (descs s' ! e) = blocks_per_arena (descs s ! e)) \<and>
     (\<forall>e. e \<noteq> d \<longrightarrow> flist s' e = flist s e) \<and> distinct (flist s' d) \<and>
     insert (baddr a (bsz s d) i) (set (flist s' d)) = insert (baddr a (bsz s d) i) (set (flist s d)) \<and>
     (\<exists>ar c. arenas s a = Some ar \<and> arena_desc ar = Some d \<and> i < bcnt s d \<and> arenas s' = (arenas s)(a \<mapsto> ar\<lparr>free_cnt := c\<rparr>) \<and>
        unat c = card (free_idx s' a d))"

lemma moved_free_idx:
  assumes inv: "heap_inv X s" and m: "moved s a d i s'" and a': "arenas s a' = Some ar'" "arena_desc ar' = Some e"
  shows "a' \<noteq> a \<Longrightarrow> free_idx s' a' e = free_idx s a' e"
    and "a' = a \<Longrightarrow> j \<noteq> i \<Longrightarrow> j \<in> free_idx s' a' e \<longleftrightarrow> j \<in> free_idx s a' e"
proof -
  obtain ar where ar: "arenas s a = Some ar" "arena_desc ar = Some d" "i < bcnt s d" using m by (auto simp: moved_def)
  have k: "bsz s' x = bsz s x" "bcnt s' x = bcnt s x" "x \<noteq> d \<Longrightarrow> flist s' x = flist s x" for x using m by (auto simp: moved_def)
  have mem: "y \<in> set (flist s' d) \<longleftrightarrow> y \<in> set (flist s d)" if "y \<noteq> baddr a (bsz s d) i" for y
    using m that unfolding moved_def by blast
  show "free_idx s' a' e = free_idx s a' e" if "a' \<noteq> a"
  proof (cases "e = d")
    case True
    have "baddr a' (bsz s d) j \<noteq> baddr a (bsz s d) i" if "j < bcnt s d" for j
      using small_block(1)[OF inv a', of j] small_block(1)[OF inv ar(1,2,3)] \<open>a' \<noteq> a\<close> True that by metis
    then show ?thesis using mem True by (auto simp: free_idx_def k)
  qed (simp add: free_idx_def k)
  show "j \<in> free_idx s' a' e \<longleftrightarrow> j \<in> free_idx s a' e" if "a' = a" "j \<noteq> i"
  proof -
    have e: "e = d" using that a' ar by simp
    have "baddr a (bsz s d) j \<noteq> baddr a (bsz s d) i" if "j < bcnt s d"
      using small_block(4)[OF inv ar that] small_block(4)[OF inv ar(1,2) that ar(3)] \<open>j \<noteq> i\<close> by blast
    then show ?thesis using mem e \<open>a' = a\<close> by (auto simp: free_idx_def k)
  qed
qed

lemma moved_inv:
  assumes inv: "heap_inv X s" and m: "moved s a d i s'" and X: "X - {a} \<subseteq> X'" "a \<in> X' \<or> card (free_idx s' a d) < bcnt s d"
  shows "heap_inv X' s'"
proof -
  obtain ar c where ar: "arenas s a = Some ar" "arena_desc ar = Some d" "i < bcnt s d"
      "arenas s' = (arenas s)(a \<mapsto> ar\<lparr>free_cnt := c\<rparr>)" "unat c = card (free_idx s' a d)" using m by (auto simp: moved_def)
  have k: "bsz s' x = bsz s x" "bcnt s' x = bcnt s x" "x \<noteq> d \<Longrightarrow> flist s' x = flist s x"
    "length (descs s') = length (descs s)" "used_pages (pal s') = used_pages (pal s)" "valid_run (pal s') = valid_run (pal s)" for x
    using m by (auto simp: moved_def)
  have pages: "arena_pages (ar\<lparr>free_cnt := c\<rparr>) = arena_pages ar" using ar(2) by (simp add: arena_pages_def)
  have same: "\<exists>ar0. arenas s x = Some ar0 \<and> arena_desc ar0 = arena_desc y \<and> arena_pages ar0 = arena_pages y \<and>
      arena_magic ar0 = arena_magic y \<and> (x \<noteq> a \<longrightarrow> ar0 = y) \<and> (x = a \<longrightarrow> y = ar\<lparr>free_cnt := c\<rparr>)" if "arenas s' x = Some y" for x y
    using that ar pages by (auto split: if_splits)
  have blk: "\<exists>x y j. arenas s' x = Some y \<and> arena_desc y = Some e \<and> j < bcnt s e \<and> b = baddr x (bsz s e) j"
    if el: "e < length (descs s)" and "b \<in> set (flist s' e)" for e b
  proof -
    have ins: "insert (baddr a (bsz s d) i) (set (flist s' d)) = insert (baddr a (bsz s d) i) (set (flist s d))"
      using m by (simp add: moved_def)
    have "b \<in> set (flist s e) \<or> e = d \<and> b = baddr a (bsz s d) i"
    proof (cases "e = d")
      case True
      then have "b \<in> insert (baddr a (bsz s d) i) (set (flist s d))" using that(2) ins by blast
      then show ?thesis using True by auto
    qed (use that(2) k(3)[of e] in simp)
    then obtain x y j where "arenas s x = Some y" "arena_desc y = Some e" "j < bcnt s e" "b = baddr x (bsz s e) j"
      using heap_invD(4)[OF inv el] ar by blast
    then show ?thesis using ar by (cases "x = a") (auto intro!: exI[of _ x] exI[of _ j])
  qed
  have aok: "arena_ok (x \<in> X') s' x y" if sx: "arenas s' x = Some y" for x y
  proof -
    obtain y0 where y0: "arenas s x = Some y0" "arena_desc y0 = arena_desc y" "arena_pages y0 = arena_pages y" "arena_magic y0 = arena_magic y"
      "x \<noteq> a \<longrightarrow> y0 = y" "x = a \<longrightarrow> y = ar\<lparr>free_cnt := c\<rparr>" using same[OF sx] by blast
    note ok = heap_invD(5)[OF inv y0(1), unfolded arena_ok_def]
    show ?thesis
    proof (cases "x = a")
      case True
      then show ?thesis using ok y0 X(2) ar k by (auto simp: arena_ok_def)
    next
      case False
      then show ?thesis using ok y0 X(1) k moved_free_idx(1)[OF inv m y0(1)] by (auto simp: arena_ok_def)
    qed
  qed
  have "run_pages (x, arena_pages y) \<inter> run_pages (x', arena_pages y') = {}"
    if "arenas s' x = Some y" "arenas s' x' = Some y'" "x \<noteq> x'" for x y x' y'
    using same[OF that(1)] same[OF that(2)] that(3) heap_invD(6)[OF inv] by metis
  moreover have "distinct (flist s' e)" if "e < length (descs s)" for e
    using m heap_invD(3)[OF inv that] k(3)[of e] by (cases "e = d") (auto simp: moved_def)
  ultimately show ?thesis
    using m blk aok unfolding heap_inv_def k(4) by (auto simp: moved_def)
qed


lemma small_in_used:
  assumes "heap_inv X s" "arenas s a = Some ar" "arena_desc ar = Some d" "i < bcnt s d"
  shows "(baddr a (bsz s d) i, bsz s d) \<in> used_blocks s \<longleftrightarrow> baddr a (bsz s d) i \<notin> set (flist s d)"
proof
  assume "(baddr a (bsz s d) i, bsz s d) \<in> used_blocks s"
  then consider a' ar' d' i' where "baddr a (bsz s d) i = baddr a' (bsz s d') i'" "arenas s a' = Some ar'" "arena_desc ar' = Some d'"
      "i' < bcnt s d'" "baddr a' (bsz s d') i' \<notin> set (flist s d')"
    | a' ar' where "baddr a (bsz s d) i = a' + sizeof_arena" "arenas s a' = Some ar'" "arena_desc ar' = None"
    unfolding used_blocks_def by blast
  then show "baddr a (bsz s d) i \<notin> set (flist s d)"
  proof cases
    case 1
    then have "a = a'" using small_block(1)[OF assms] small_block(1)[OF assms(1) 1(2,3,4)] by simp
    then show ?thesis using 1 assms by auto
  next
    case 2
    have "valid_run (pal s) (a', free_cnt ar')" using heap_invD(5)[OF assms(1) 2(2)] 2(3) by (simp add: arena_ok_def arena_pages_def)
    note rb = run_bound[OF heap_invD(1)[OF assms(1)] this]
    have "unat a' + 4096 \<le> 2 ^ 32" using rb(2,4) by (cases "unat (free_cnt ar')") (auto simp: unat_eq_0)
    then have "pg_round_down (baddr a' 16 0) = a'" using rb(1) by (intro baddr_page[of _ _ 1]) auto
    moreover have "baddr a' 16 0 = a' + sizeof_arena" by (simp add: baddr_def)
    ultimately have "a = a'" using small_block(1)[OF assms] 2(1) by metis
    then show ?thesis using 2 assms by simp
  qed
qed (use assms in \<open>auto simp: used_blocks_def\<close>)

lemma moved_used:
  assumes inv: "heap_inv X s" and m: "moved s a d i s'"
  shows "used_blocks s' - {(baddr a (bsz s d) i, bsz s d)} = used_blocks s - {(baddr a (bsz s d) i, bsz s d)}"
proof -
  obtain ar c where ar: "arenas s a = Some ar" "arena_desc ar = Some d" "i < bcnt s d"
      "arenas s' = (arenas s)(a \<mapsto> ar\<lparr>free_cnt := c\<rparr>)" using m by (auto simp: moved_def)
  have k: "bsz s' x = bsz s x" "bcnt s' x = bcnt s x" for x using m by (auto simp: moved_def)
  have desc: "(\<exists>y. arenas s' x = Some y \<and> arena_desc y = Some e) \<longleftrightarrow> (\<exists>y. arenas s x = Some y \<and> arena_desc y = Some e)"
    "arenas s' x = Some y \<and> arena_desc y = None \<longleftrightarrow> arenas s x = Some y \<and> arena_desc y = None" for x y e
    using ar by auto
  have fr: "baddr x (bsz s e) j \<notin> set (flist s' e) \<longleftrightarrow> baddr x (bsz s e) j \<notin> set (flist s e)"
    if "arenas s x = Some y" "arena_desc y = Some e" "j < bcnt s e" "baddr x (bsz s e) j \<noteq> baddr a (bsz s d) i" for x y e j
  proof (cases "e = d")
    case True
    have "insert (baddr a (bsz s d) i) (set (flist s' d)) = insert (baddr a (bsz s d) i) (set (flist s d))"
      using m by (simp add: moved_def)
    then show ?thesis using that(4) True by blast
  next
    case False
    then show ?thesis using m by (simp add: moved_def)
  qed
  have "(p, z) \<in> used_blocks s' \<longleftrightarrow> (p, z) \<in> used_blocks s" if "(p, z) \<noteq> (baddr a (bsz s d) i, bsz s d)" for p z
  proof -
    have ne: "baddr x (bsz s e) j \<noteq> baddr a (bsz s d) i"
      if "arenas s x = Some y" "arena_desc y = Some e" "j < bcnt s e" "(p, z) = (baddr x (bsz s e) j, bsz s e)" for x y e j
    proof
      assume eq: "baddr x (bsz s e) j = baddr a (bsz s d) i"
      then have "x = a" using small_block(1)[OF inv that(1-3)] small_block(1)[OF inv ar(1-3)] by simp
      then have "e = d" using that ar by simp
      then show False using eq that(4) \<open>(p, z) \<noteq> _\<close> by simp
    qed
    have "(\<exists>x y e j. (p, z) = (baddr x (bsz s e) j, bsz s e) \<and> arenas s' x = Some y \<and> arena_desc y = Some e \<and> j < bcnt s e \<and>
          baddr x (bsz s e) j \<notin> set (flist s' e)) \<longleftrightarrow>
        (\<exists>x y e j. (p, z) = (baddr x (bsz s e) j, bsz s e) \<and> arenas s x = Some y \<and> arena_desc y = Some e \<and> j < bcnt s e \<and>
          baddr x (bsz s e) j \<notin> set (flist s e))"
      (is "?L \<longleftrightarrow> ?R")
    proof
      assume ?L
      then obtain x y e j where *: "(p, z) = (baddr x (bsz s e) j, bsz s e)" "arenas s' x = Some y" "arena_desc y = Some e"
        "j < bcnt s e" "baddr x (bsz s e) j \<notin> set (flist s' e)" by blast
      then obtain y0 where y0: "arenas s x = Some y0" "arena_desc y0 = Some e" using desc(1) by blast
      show ?R using * y0 fr[OF y0 *(4) ne[OF y0 *(4,1)]] by blast
    next
      assume ?R
      then obtain x y0 e j where *: "(p, z) = (baddr x (bsz s e) j, bsz s e)" "arenas s x = Some y0" "arena_desc y0 = Some e"
        "j < bcnt s e" "baddr x (bsz s e) j \<notin> set (flist s e)" by blast
      then obtain y where y: "arenas s' x = Some y" "arena_desc y = Some e" using desc(1) by blast
      show ?L using * y fr[OF *(2-4) ne[OF *(2-4,1)]] by blast
    qed
    then show ?thesis unfolding used_blocks_def Un_iff mem_Collect_eq k desc(2) by simp
  qed
  then show ?thesis by auto
qed


section \<open>Allocation\<close>

lemma card_free_idx: "card (free_idx s a d) \<le> bcnt s d"
  using card_mono[of "{..<bcnt s d}" "free_idx s a d"] by (auto simp: free_idx_def)

lemma block_to_arena_cong:
  assumes "arenas s' = arenas s" "\<And>d. bsz s' d = bsz s d" shows "block_to_arena b s' = block_to_arena b s"
  unfolding block_to_arena_def Let_def assms by simp

lemma take_block:
  assumes inv: "heap_inv X s" and d: "d < length (descs s)" and fl: "flist s d = b # bs" and X: "X \<subseteq> {pg_round_down b}"
  defines "s1 \<equiv> upd_desc d (\<lambda>x. x\<lparr>free_list := bs\<rparr>) s"
  obtains a ar where "block_to_arena b s1 = Some (a, ar)" "b \<noteq> 0"
    "heap_inv {} (s1\<lparr>arenas := (arenas s1)(a \<mapsto> ar\<lparr>free_cnt := free_cnt ar - 1\<rparr>)\<rparr>)"
    "used_blocks (s1\<lparr>arenas := (arenas s1)(a \<mapsto> ar\<lparr>free_cnt := free_cnt ar - 1\<rparr>)\<rparr>) = insert (b, bsz s d) (used_blocks s)"
    "(b, bsz s d) \<notin> used_blocks s"
proof -
  obtain a ar i where a: "arenas s a = Some ar" "arena_desc ar = Some d" "i < bcnt s d" "b = baddr a (bsz s d) i"
    using heap_invD(4)[OF inv d, of b] fl by auto
  note sb = small_block[OF inv a(1-3)]
  define s2 where "s2 = s1\<lparr>arenas := (arenas s1)(a \<mapsto> ar\<lparr>free_cnt := free_cnt ar - 1\<rparr>)\<rparr>"
  have acc: "descs s2 = descs s1" "arenas s2 = (arenas s)(a \<mapsto> ar\<lparr>free_cnt := free_cnt ar - 1\<rparr>)" "pal s2 = pal s"
    by (simp_all add: s2_def s1_def)
  have fl2: "flist s2 e = (if e = d then bs else flist s e)" and bs2: "bsz s2 e = bsz s e" "blocks_per_arena (descs s2 ! e) = blocks_per_arena (descs s ! e)"
    and len2: "length (descs s2) = length (descs s)" for e
    using d by (simp_all add: acc s1_def)
  have dist: "b \<notin> set bs" "distinct bs" using heap_invD(3)[OF inv d] fl by auto
  have idx: "free_idx s2 a d = free_idx s a d - {i}" "i \<in> free_idx s a d"
    using sb(4) a(3,4) fl dist(1) unfolding free_idx_def fl2 bs2 by (fastforce)+
  have cnt: "unat (free_cnt ar) = card (free_idx s a d)" using arena_small[OF inv a(1,2)] by simp
  moreover have "0 < card (free_idx s a d)" using idx(2) by (auto simp: card_gt_0_iff)
  ultimately have c1: "unat (free_cnt ar - 1) = card (free_idx s2 a d)" "card (free_idx s2 a d) < bcnt s d"
    using idx card_free_idx[of s a d] unat_dec[of "free_cnt ar"] by (auto simp: word_less_nat_alt)
  have sh: "shape s2" using heap_invD(2)[OF inv] shape_upd[of "\<lambda>x. x\<lparr>free_list := bs\<rparr>" s d] acc(1) by (simp add: shape_def s1_def)
  have mv: "moved s a d i s2"
    unfolding moved_def using heap_invD(1)[OF inv] sh fl2 bs2 len2 dist a c1(1) fl by (auto simp: acc)
  have "heap_inv {} s2" using moved_inv[OF inv mv, of "{}"] X sb(1) a(4) c1(2) by auto
  moreover have nin: "(b, bsz s d) \<notin> used_blocks s" using small_in_used[OF inv a(1-3)] a(4) fl by simp
  moreover have "(b, bsz s d) \<in> used_blocks s2"
    unfolding used_blocks_def using a dist(1) acc(2) by (auto simp: fl2 bs2 intro!: exI[of _ a] exI[of _ d] exI[of _ i])
  then have "used_blocks s2 = insert (b, bsz s d) (used_blocks s)"
    using moved_used[OF inv mv] nin a(4) by auto
  moreover have "block_to_arena b s1 = Some (a, ar)"
    using block_to_arena_cong[of s1 s b] sb(3) a(4) d by (simp add: s1_def)
  ultimately show thesis using that[of a ar] sb(2) a(4) by (simp add: s2_def)
qed


section \<open>Adding and dropping an arena\<close>

text \<open>\<open>grown s a ar s'\<close>: \<open>s'\<close> has one arena more than \<open>s\<close>, and all its blocks, if it is split into blocks, are free.\<close>

definition new_blocks :: "malloc_state \<Rightarrow> u32 \<Rightarrow> arena \<Rightarrow> nat \<Rightarrow> u32 set" where
  "new_blocks s a ar e = (if arena_desc ar = Some e then baddr a (bsz s e) ` {..<bcnt s e} else {})"

definition grown :: "malloc_state \<Rightarrow> u32 \<Rightarrow> arena \<Rightarrow> malloc_state \<Rightarrow> bool" where
  "grown s a ar s' \<longleftrightarrow> arenas s a = None \<and> arenas s' = (arenas s)(a \<mapsto> ar) \<and> length (descs s') = length (descs s) \<and>
     (\<forall>e. bsz s' e = bsz s e \<and> blocks_per_arena (descs s' ! e) = blocks_per_arena (descs s ! e)) \<and>
     (\<forall>e < length (descs s). set (flist s' e) = set (flist s e) \<union> new_blocks s a ar e \<and> set (flist s e) \<inter> new_blocks s a ar e = {})"

definition in_page :: "malloc_state \<Rightarrow> bool" where
  "in_page s \<longleftrightarrow> (\<forall>x y e j. arenas s x = Some y \<and> arena_desc y = Some e \<longrightarrow> e < length (descs s) \<and>
     (j < bcnt s e \<longrightarrow> pg_round_down (baddr x (bsz s e) j) = x))"

lemma in_pageD:
  assumes "in_page s" "arenas s x = Some y" "arena_desc y = Some e"
  shows "e < length (descs s)" "j < bcnt s e \<Longrightarrow> pg_round_down (baddr x (bsz s e) j) = x"
  using assms unfolding in_page_def by blast+

lemma heap_inv_in_page: "heap_inv X s \<Longrightarrow> in_page s"
  unfolding in_page_def using arena_small(1) small_block(1) by blast

lemma grown_flist:
  assumes g: "grown s a ar s'" and pg: "in_page s'" and x: "arenas s x = Some y" "arena_desc y = Some e" "j < bcnt s e"
  shows "baddr x (bsz s e) j \<in> set (flist s' e) \<longleftrightarrow> baddr x (bsz s e) j \<in> set (flist s e)"
proof -
  have k: "bsz s' e = bsz s e" "bcnt s' e = bcnt s e" "x \<noteq> a" "arenas s' x = Some y" "arenas s' a = Some ar" using g x by (auto simp: grown_def)
  have e: "e < length (descs s)" using in_pageD(1)[OF pg k(4) x(2)] g by (simp add: grown_def)
  have p: "pg_round_down (baddr x (bsz s e) j) = x" using in_pageD(2)[OF pg k(4) x(2)] k x by simp
  have "baddr x (bsz s e) j \<notin> new_blocks s a ar e"
  proof
    assume "baddr x (bsz s e) j \<in> new_blocks s a ar e"
    then obtain i where i: "arena_desc ar = Some e" "i < bcnt s e" "baddr x (bsz s e) j = baddr a (bsz s e) i"
      by (auto simp: new_blocks_def split: if_splits)
    then have "pg_round_down (baddr a (bsz s e) i) = a" using in_pageD(2)[OF pg k(5) i(1)] k by simp
    then show False using p i k by simp
  qed
  then show ?thesis using g e by (auto simp: grown_def)
qed

lemma grown_free_idx:
  assumes "grown s a ar s'" "in_page s'" "arenas s x = Some y" "arena_desc y = Some e"
  shows "free_idx s' x e = free_idx s x e"
  using grown_flist[OF assms] assms(1) by (auto simp: free_idx_def grown_def)

lemma grown_used:
  assumes g: "grown s a ar s'" and pg: "in_page s'"
  shows "used_blocks s' = used_blocks s \<union>
    (if arena_desc ar = None then {(a + sizeof_arena, PGSIZE * free_cnt ar - sizeof_arena)} else {})"
proof -
  have k: "bsz s' e = bsz s e" "bcnt s' e = bcnt s e" "arenas s' = (arenas s)(a \<mapsto> ar)" "arenas s a = None" for e
    using g by (auto simp: grown_def)
  have full: "baddr a (bsz s e) j \<in> set (flist s' e)" if "arena_desc ar = Some e" "j < bcnt s e" for e j
  proof -
    have "e < length (descs s)" using in_pageD(1)[OF pg, of a] that k(3) g by (auto simp: grown_def)
    then show ?thesis using that g by (auto simp: grown_def new_blocks_def)
  qed
  have "{(baddr x (bsz s e) j, bsz s e) | x y e j. arenas s' x = Some y \<and> arena_desc y = Some e \<and> j < bcnt s e \<and>
          baddr x (bsz s e) j \<notin> set (flist s' e)} =
        {(baddr x (bsz s e) j, bsz s e) | x y e j. arenas s x = Some y \<and> arena_desc y = Some e \<and> j < bcnt s e \<and>
          baddr x (bsz s e) j \<notin> set (flist s e)}" (is "?L = ?R")
  proof (intro equalityI subsetI)
    fix q assume "q \<in> ?L"
    then obtain x y e j where *: "q = (baddr x (bsz s e) j, bsz s e)" "arenas s' x = Some y" "arena_desc y = Some e"
      "j < bcnt s e" "baddr x (bsz s e) j \<notin> set (flist s' e)" by blast
    then have x: "arenas s x = Some y" using full k(3) by (auto split: if_splits)
    show "q \<in> ?R" using * x grown_flist[OF g pg x *(3,4)] by blast
  next
    fix q assume "q \<in> ?R"
    then obtain x y e j where *: "q = (baddr x (bsz s e) j, bsz s e)" "arenas s x = Some y" "arena_desc y = Some e"
      "j < bcnt s e" "baddr x (bsz s e) j \<notin> set (flist s e)" by blast
    then have x: "arenas s' x = Some y" using k(3,4) by auto
    show "q \<in> ?L" using * x grown_flist[OF g pg *(2,3,4)] by blast
  qed
  moreover have "{(x + sizeof_arena, PGSIZE * free_cnt y - sizeof_arena) | x y. arenas s' x = Some y \<and> arena_desc y = None} =
      {(x + sizeof_arena, PGSIZE * free_cnt y - sizeof_arena) | x y. arenas s x = Some y \<and> arena_desc y = None} \<union>
      (if arena_desc ar = None then {(a + sizeof_arena, PGSIZE * free_cnt ar - sizeof_arena)} else {})"
    using k(3,4) by (auto split: if_splits)
  ultimately show ?thesis unfolding used_blocks_def k by auto
qed

lemma grown_add:
  assumes inv: "heap_inv {} s" and g: "grown s a ar s'" and dist: "\<And>e. e < length (descs s) \<Longrightarrow> distinct (flist s' e)"
    and p: "palloc_ok (pal s')" "valid_run (pal s') = valid_run (pal s)" "valid_run (pal s) (a, arena_pages ar)"
      "run_pages (a, arena_pages ar) \<inter> used_pages (pal s) = {}"
      "used_pages (pal s') = used_pages (pal s) \<union> run_pages (a, arena_pages ar)"
    and ar: "arena_magic ar = ARENA_MAGIC" "\<And>d. arena_desc ar = Some d \<Longrightarrow> d < length (descs s) \<and> unat (free_cnt ar) = bcnt s d"
    and sh: "shape s'"
  shows "heap_inv {a} s'"
proof -
  have k: "bsz s' e = bsz s e" "bcnt s' e = bcnt s e" "arenas s' = (arenas s)(a \<mapsto> ar)" "arenas s a = None"
    "length (descs s') = length (descs s)" for e using g by (auto simp: grown_def)
  have pg: "in_page s'" unfolding in_page_def k
  proof (intro allI impI)
    fix x y e j assume *: "((arenas s)(a \<mapsto> ar)) x = Some y \<and> arena_desc y = Some e"
    show "e < length (descs s) \<and> (j < bcnt s e \<longrightarrow> pg_round_down (baddr x (bsz s e) j) = x)"
    proof (cases "x = a")
      case True
      have e: "e < length (descs s)" "arena_pages ar = 1" using * True ar(2) by (auto simp: arena_pages_def)
      then have "unat a mod 4096 = 0" "unat a + 4096 \<le> 2 ^ 32" using run_bound[OF heap_invD(1)[OF inv] p(3)] by auto
      then show ?thesis using baddr_page(1)[of a "bsz s e" "bcnt s e" j] shape_desc[OF heap_invD(2)[OF inv] e(1)] True e(1) by simp
    qed (use * in_pageD[OF heap_inv_in_page[OF inv]] in auto)
  qed
  have "arena_ok (x \<in> {a}) s' x y" if "arenas s' x = Some y" for x y
  proof (cases "x = a")
    case True
    have "free_idx s' a d = {..<bcnt s d}" if "arena_desc ar = Some d" for d
      using ar(2)[OF that] g that by (auto simp: free_idx_def k grown_def new_blocks_def)
    then show ?thesis using True that k(3) p ar by (auto simp: arena_ok_def k)
  next
    case False
    then have x: "arenas s x = Some y" using that k(3) by simp
    show ?thesis using heap_invD(5)[OF inv x] grown_free_idx[OF g pg x] False p(2,5) by (auto simp: arena_ok_def k)
  qed
  moreover have "run_pages (x, arena_pages y) \<inter> run_pages (x', arena_pages y') = {}"
    if "arenas s' x = Some y" "arenas s' x' = Some y'" "x \<noteq> x'" for x y x' y'
  proof -
    have "run_pages (x, arena_pages y) \<subseteq> used_pages (pal s)" if "arenas s x = Some y" for x y
      using heap_invD(5)[OF inv that] by (simp add: arena_ok_def)
    then show ?thesis using that p(4) heap_invD(6)[OF inv, of x y x' y'] by (fastforce simp: k(3) split: if_splits)
  qed
  moreover have "\<exists>x y i. arenas s' x = Some y \<and> arena_desc y = Some e \<and> i < bcnt s e \<and> b = baddr x (bsz s e) i"
    if e: "e < length (descs s)" and b: "b \<in> set (flist s' e)" for e b
  proof -
    have "set (flist s' e) = set (flist s e) \<union> new_blocks s a ar e" using g e by (simp add: grown_def)
    then consider "b \<in> set (flist s e)" | "b \<in> new_blocks s a ar e" using b by blast
    then show ?thesis
    proof cases
      case 1
      then show ?thesis using heap_invD(4)[OF inv e] k(3,4) by (metis fun_upd_other option.distinct(1))
    qed (use k(3) in \<open>auto simp: new_blocks_def split: if_splits\<close>)
  qed
  ultimately show ?thesis using dist p(1) sh unfolding heap_inv_def k by blast
qed

lemma grown_drop:
  assumes inv: "heap_inv {a} s'" and g: "grown s a ar s'" and dist: "\<And>e. e < length (descs s) \<Longrightarrow> distinct (flist s e)"
    and p: "palloc_ok (pal s)" "valid_run (pal s) = valid_run (pal s')"
      "used_pages (pal s) = used_pages (pal s') - run_pages (a, arena_pages ar)" and sh: "shape s"
  shows "heap_inv {} s"
proof -
  have k: "bsz s' e = bsz s e" "bcnt s' e = bcnt s e" "arenas s' = (arenas s)(a \<mapsto> ar)" "arenas s a = None" "arenas s' a = Some ar"
    "length (descs s') = length (descs s)" for e using g by (auto simp: grown_def)
  note pg = heap_inv_in_page[OF inv]
  have "arena_ok (x \<in> {}) s x y" if x: "arenas s x = Some y" for x y
  proof -
    have x': "arenas s' x = Some y" "x \<noteq> a" using k x by auto
    have "run_pages (x, arena_pages y) \<inter> run_pages (a, arena_pages ar) = {}" using heap_invD(6)[OF inv x'(1) k(5) x'(2)] .
    then show ?thesis using heap_invD(5)[OF inv x'(1)] x'(2) grown_free_idx[OF g pg x] p(2,3) by (auto simp: arena_ok_def k)
  qed
  moreover have "run_pages (x, arena_pages y) \<inter> run_pages (x', arena_pages y') = {}"
    if "arenas s x = Some y" "arenas s x' = Some y'" "x \<noteq> x'" for x y x' y'
    using heap_invD(6)[OF inv, of x y x' y'] that k(3,4) by (metis fun_upd_other option.distinct(1))
  moreover have "\<exists>x y i. arenas s x = Some y \<and> arena_desc y = Some e \<and> i < bcnt s e \<and> b = baddr x (bsz s e) i"
    if e: "e < length (descs s)" and b: "b \<in> set (flist s e)" for e b
  proof -
    have "b \<in> set (flist s' e)" "b \<notin> new_blocks s a ar e" using g e b by (auto simp: grown_def)
    then obtain x y i where "arenas s' x = Some y" "arena_desc y = Some e" "i < bcnt s e" "b = baddr x (bsz s e) i" "x \<noteq> a"
      using heap_invD(4)[OF inv, of e b] e k by (fastforce simp: new_blocks_def)
    then show ?thesis using k(3) by auto
  qed
  ultimately show ?thesis using dist p(1) sh unfolding heap_inv_def by blast
qed

section \<open>The locks and the bytes of blocks do not matter to the invariant\<close>

definition same_heap :: "malloc_state \<Rightarrow> malloc_state \<Rightarrow> bool" where
  "same_heap s s' \<longleftrightarrow> (palloc_ok (pal s) \<longrightarrow> palloc_ok (pal s')) \<and> valid_run (pal s') = valid_run (pal s) \<and>
     used_pages (pal s') = used_pages (pal s) \<and> arenas s' = arenas s \<and> length (descs s') = length (descs s) \<and>
     (\<forall>e. bsz s' e = bsz s e \<and> blocks_per_arena (descs s' ! e) = blocks_per_arena (descs s ! e) \<and> flist s' e = flist s e)"

lemma same_heap_shape: "same_heap s s' \<Longrightarrow> shape s \<Longrightarrow> shape s'"
proof -
  assume "same_heap s s'" "shape s"
  moreover from this(1) have "map (\<lambda>d. (block_sz d, blocks_per_arena d)) (descs s') = map (\<lambda>d. (block_sz d, blocks_per_arena d)) (descs s)"
    by (intro nth_equalityI) (auto simp: same_heap_def)
  ultimately show "shape s'" by (simp add: shape_def)
qed

lemma same_heap_used: "same_heap s s' \<Longrightarrow> used_blocks s' = used_blocks s"
  by (simp add: same_heap_def used_blocks_def)

lemma same_heap_inv:
  assumes "same_heap s s'" "heap_inv X s" shows "heap_inv X s'"
proof -
  have f: "free_idx s' a e = free_idx s a e" for a e using assms(1) by (simp add: same_heap_def free_idx_def)
  then have "arena_ok full s' a ar = arena_ok full s a ar" for full a ar using assms(1) by (simp add: same_heap_def arena_ok_def)
  then show ?thesis
    using assms same_heap_shape[OF assms(1)] unfolding heap_inv_def by (simp add: same_heap_def)
qed

lemma same_heap_lock: "same_heap s (upd_desc d (\<lambda>x. x\<lparr>d_lock := v\<rparr>) s)"
proof (cases "d < length (descs s)")
  case False
  then have "upd_desc d (\<lambda>x. x\<lparr>d_lock := v\<rparr>) s = s" by (simp add: upd_desc_def list_update_beyond)
  then show ?thesis by (simp add: same_heap_def)
qed (simp add: same_heap_def)

lemma same_heap_mem: "same_heap s (s\<lparr>pal := (pal s)\<lparr>page_mem := m\<rparr>\<rparr>)"
  by (simp add: same_heap_def palloc_ok_iff valid_run_def fun_eq_iff)

lemma upd_desc_twice [simp]:
  "d < length (descs s) \<Longrightarrow> upd_desc d f (upd_desc d g s) = upd_desc d (\<lambda>x. f (g x)) s"
  by (simp add: upd_desc_def)

section \<open>A new arena\<close>

lemma arena_to_block_eq:
  assumes "arenas s a = Some ar" "arena_magic ar = ARENA_MAGIC" "arena_desc ar = Some d" "a \<noteq> 0" "i < bcnt s d"
  shows "arena_to_block a (of_nat i) s = Some (baddr a (bsz s d) i)"
proof -
  have "i < 2 ^ 32" using assms(5) unat_bound[of "blocks_per_arena (descs s ! d)"] by simp
  then have "(of_nat i :: u32) < blocks_per_arena (descs s ! d)" using assms(5) by (simp add: word_less_nat_alt unat_of_nat)
  then show ?thesis using assms by (simp add: arena_to_block_def baddr_def)
qed

lemma add_blocks_eq:
  assumes "arenas s a = Some ar" "arena_magic ar = ARENA_MAGIC" "arena_desc ar = Some d" "a \<noteq> 0" "d < length (descs s)"
    "\<And>i. i \<in> set is \<Longrightarrow> i < bcnt s d"
  shows "add_blocks d a is s = Some (upd_desc d (\<lambda>x. x\<lparr>free_list := free_list x @ map (baddr a (bsz s d)) is\<rparr>) s)"
  using assms
proof (induction "is" arbitrary: s)
  case Nil
  then show ?case by (simp add: upd_desc_def)
next
  case (Cons i "is")
  show ?case using Cons.prems Cons.IH[of "upd_desc d (\<lambda>x. x\<lparr>free_list := free_list x @ [baddr a (bsz s d) i]\<rparr>) s"]
    by (simp add: arena_to_block_eq)
qed

lemma palloc_get_plain:
  assumes "palloc_ok p" "cnt \<noteq> 0"
  obtains "palloc_get_multiple 0 cnt p = Some (0, p)"
  | a p' where "palloc_get_multiple 0 cnt p = Some (a, p')" "a \<noteq> 0" "palloc_ok p'" "valid_run p' = valid_run p" "valid_run p (a, cnt)"
      "run_pages (a, cnt) \<inter> used_pages p = {}" "used_pages p' = used_pages p \<union> run_pages (a, cnt)" "page_mem p' = page_mem p"
  using palloc_get_multiple_eq[OF assms refl refl, of 0] same_pools_valid
  by (fastforce split: option.splits simp: valid_run_def)

lemma arena_fresh:
  assumes inv: "heap_inv X s" and "run_pages (a, n) \<inter> used_pages (pal s) = {}" "n \<noteq> 0"
  shows "arenas s a = None"
proof (rule ccontr)
  assume "arenas s a \<noteq> None"
  then obtain y where y: "arenas s a = Some y" by blast
  then have v: "valid_run (pal s) (a, arena_pages y)" "run_pages (a, arena_pages y) \<subseteq> used_pages (pal s)"
    using heap_invD(5)[OF inv y] by (auto simp: arena_ok_def)
  then have "unat (arena_pages y) \<noteq> 0" "unat n \<noteq> 0" using assms(3) by (simp_all add: valid_run_def unat_eq_0)
  then have "unat a div 4096 \<in> run_pages (a, arena_pages y)" "unat a div 4096 \<in> run_pages (a, n)" by (simp_all add: run_pages_def)
  then show False using v(2) assms(2) by blast
qed

lemma new_arena_spec:
  assumes inv: "heap_inv {} s" and d: "d < length (descs s)" and fl: "flist s d = []"
  obtains "new_arena d s = Some (False, s)"
  | a s' where "new_arena d s = Some (True, s')" "heap_inv {a} s'" "used_blocks s' = used_blocks s"
      "flist s' d = map (baddr a (bsz s d)) [0..<bcnt s d]" "pg_round_down (hd (flist s' d)) = a"
      "page_mem (pal s') = page_mem (pal s)" "map d_lock (descs s') = map d_lock (descs s)" "bsz s' d = bsz s d" "flist s' d \<noteq> []"
proof -
  note sd = shape_desc[OF heap_invD(2)[OF inv] d]
  consider "palloc_get_multiple 0 1 (pal s) = Some (0, pal s)"
    | a p' where "palloc_get_multiple 0 1 (pal s) = Some (a, p')" "a \<noteq> 0" "palloc_ok p'" "valid_run p' = valid_run (pal s)"
      "valid_run (pal s) (a, 1)" "run_pages (a, 1) \<inter> used_pages (pal s) = {}"
      "used_pages p' = used_pages (pal s) \<union> run_pages (a, 1)" "page_mem p' = page_mem (pal s)"
    using palloc_get_plain[OF heap_invD(1)[OF inv], of 1] by (metis one_neq_zero)
  then show thesis
  proof cases
    case 1
    then show thesis using that(1) by (simp add: new_arena_def palloc_get_page_def)
  next
    case 2
    define ar where "ar = \<lparr>arena_magic = ARENA_MAGIC, arena_desc = Some d, free_cnt = blocks_per_arena (descs s ! d)\<rparr>"
    define s0 where "s0 = s\<lparr>pal := p', arenas := (arenas s)(a \<mapsto> ar)\<rparr>"
    define s' where "s' = upd_desc d (\<lambda>x. x\<lparr>free_list := free_list x @ map (baddr a (bsz s d)) [0..<bcnt s d]\<rparr>) s0"
    have ap: "arena_pages ar = 1" by (simp add: ar_def arena_pages_def)
    have rb: "unat a mod 4096 = 0" "unat a + 4096 \<le> 2 ^ 32" using run_bound[OF heap_invD(1)[OF inv] 2(5)] by auto
    have "arenas s a = None" using arena_fresh[OF inv 2(6)] by simp
    then have g: "grown s a ar s'"
      unfolding grown_def using d fl by (auto simp: s'_def s0_def new_blocks_def ar_def atLeast0LessThan)
    have "add_blocks d a [0..<bcnt s d] s0 = Some s'"
      unfolding s'_def using add_blocks_eq[of s0 a ar d "[0..<bcnt s d]"] 2(2) d by (simp add: s0_def ar_def)
    then have na: "new_arena d s = Some (True, s')" using 2(1,2) by (simp add: new_arena_def palloc_get_page_def s0_def ar_def)
    have inj: "distinct (map (baddr a (bsz s d)) [0..<bcnt s d])"
      using baddr_inj[OF rb sd(1,5)] by (auto simp: distinct_map inj_on_def)
    have sh: "shape s'" using heap_invD(2)[OF inv] shape_upd[of "\<lambda>x. x\<lparr>free_list := free_list x @ map (baddr a (bsz s d)) [0..<bcnt s d]\<rparr>" s0 d]
      by (simp add: s'_def s0_def shape_def)
    have hi: "heap_inv {a} s'"
    proof (rule grown_add[OF inv g])
      show "distinct (flist s' e)" if "e < length (descs s)" for e
        using inj heap_invD(3)[OF inv that] d fl by (simp add: s'_def s0_def)
    qed (use 2 d sh in \<open>simp_all add: s'_def s0_def ap\<close>, auto simp: ar_def)
    have f': "flist s' d = map (baddr a (bsz s d)) [0..<bcnt s d]" using d fl by (simp add: s'_def s0_def)
    have "hd (flist s' d) = baddr a (bsz s d) 0" unfolding f' using sd(3) by (simp add: upt_conv_Cons)
    then have pg: "pg_round_down (hd (flist s' d)) = a" using baddr_page(1)[OF rb sd(1,5), of 0] sd(3) by simp
    have us: "used_blocks s' = used_blocks s" using grown_used[OF g heap_inv_in_page[OF hi]] by (simp add: ar_def)
    have lk: "map d_lock (descs s') = map d_lock (descs s)"
      by (rule nth_equalityI) (use d in \<open>auto simp: s'_def s0_def upd_desc_def nth_list_update\<close>)
    show thesis using that(2)[OF na hi us f' pg _ lk] 2(8) sd(3) d f' by (simp add: s'_def s0_def)
  qed
qed

section \<open>Blocks in use\<close>

lemma big_block:
  assumes "heap_inv X s" "arenas s a = Some ar" "arena_desc ar = None"
  shows "pg_round_down (a + sizeof_arena) = a" "a + sizeof_arena \<noteq> 0" "block_to_arena (a + sizeof_arena) s = Some (a, ar)"
    "unat (a + sizeof_arena) = unat a + 12" "unat (PGSIZE * free_cnt ar - sizeof_arena) = 4096 * unat (free_cnt ar) - 12"
    "valid_run (pal s) (a, free_cnt ar)" "pg_ofs (a + sizeof_arena) = 12" "unat a + 4096 * unat (free_cnt ar) \<le> 2 ^ 32" "free_cnt ar \<noteq> 0"
proof -
  note ok = heap_invD(5)[OF assms(1,2), unfolded arena_ok_def]
  show v: "valid_run (pal s) (a, free_cnt ar)" using ok assms(3) by (simp add: arena_pages_def)
  note rb = run_bound[OF heap_invD(1)[OF assms(1)] v]
  have n: "unat (free_cnt ar) \<noteq> 0" "unat a \<noteq> 0" using rb(3,4) by (auto simp: unat_eq_0)
  then have le: "unat a + 4096 \<le> 2 ^ 32" using rb(2) by linarith
  have b: "baddr a 16 0 = a + sizeof_arena" by (simp add: baddr_def)
  note pg = baddr_page[of a 16 1 0, OF rb(1) le, unfolded b] and ub = unat_baddr(1)[of a 16 1 0, OF rb(1) le, unfolded b]
  show rd: "pg_round_down (a + sizeof_arena) = a" "a + sizeof_arena \<noteq> 0" using pg(1,3) by simp_all
  show u: "unat (a + sizeof_arena) = unat a + 12" using ub by simp
  have "unat (pg_ofs (a + sizeof_arena)) = (unat a mod 4096 + 12) mod 4096" unfolding unat_pg_ofs u by (metis mod_add_left_eq)
  then have "unat (pg_ofs (a + sizeof_arena)) = unat (12 :: u32)" using rb(1) by simp
  then show po: "pg_ofs (a + sizeof_arena) = 12" by (simp only: word_unat_eq_iff)
  show "block_to_arena (a + sizeof_arena) s = Some (a, ar)"
    using rd(1) po rb(3) ok assms(2,3) by (simp add: block_to_arena_def Let_def sizeof_arena_def)
  have "4096 * unat (free_cnt ar) < 2 ^ 32" using rb(2) n by linarith
  then have "unat (PGSIZE * free_cnt ar) = 4096 * unat (free_cnt ar)" by (rule unat_page_bytes)
  then show "unat (PGSIZE * free_cnt ar - sizeof_arena) = 4096 * unat (free_cnt ar) - 12"
    using n(1) by (subst unat_sub) (simp_all add: sizeof_arena_def word_le_nat_alt)
  show "unat a + 4096 * unat (free_cnt ar) \<le> 2 ^ 32" "free_cnt ar \<noteq> 0" using rb by auto
qed

lemma used_block_cases:
  assumes "(p, z) \<in> used_blocks s"
  obtains (small) a ar d i where "arenas s a = Some ar" "arena_desc ar = Some d" "i < bcnt s d" "p = baddr a (bsz s d) i" "z = bsz s d"
      "p \<notin> set (flist s d)"
  | (big) a ar where "arenas s a = Some ar" "arena_desc ar = None" "p = a + sizeof_arena" "z = PGSIZE * free_cnt ar - sizeof_arena"
  using assms unfolding used_blocks_def by blast

text \<open>A block in use lies between the header and the end of its arena, and \<^verbatim>\<open>block_size\<close> knows its size.\<close>

lemma used_block:
  assumes inv: "heap_inv X s" and u: "(p, z) \<in> used_blocks s"
  shows "\<exists>ar. arenas s (pg_round_down p) = Some ar \<and> block_to_arena p s = Some (pg_round_down p, ar) \<and>
      unat (pg_round_down p) + 12 \<le> unat p \<and> unat p + unat z \<le> unat (pg_round_down p) + 4096 * unat (arena_pages ar)"
    "p \<noteq> 0" "block_size p s = Some z"
proof -
  have "(\<exists>ar. arenas s (pg_round_down p) = Some ar \<and> block_to_arena p s = Some (pg_round_down p, ar) \<and>
      unat (pg_round_down p) + 12 \<le> unat p \<and> unat p + unat z \<le> unat (pg_round_down p) + 4096 * unat (arena_pages ar)) \<and>
    p \<noteq> 0 \<and> block_size p s = Some z"
    using u
  proof (cases rule: used_block_cases)
    case (small a ar d i)
    note sb = small_block[OF inv small(1-3)] and sm = arena_small[OF inv small(1,2)]
    have up: "unat p = unat a + 12 + i * unat z" using unat_baddr(1)[OF sm(2,3,7,8) small(3)] small(4,5) by simp
    have "Suc i * unat z \<le> bcnt s d * unat z" using small(3) by (intro mult_le_mono1) simp
    then have "unat p + unat z \<le> unat a + 4096" using up sm(8) small(5) by simp
    then show ?thesis using sb(1-3) small up by (auto simp: arena_pages_def block_size_def)
  next
    case (big a ar)
    note bb = big_block[OF inv big(1,2)]
    have "block_size p s = Some z" using bb(3,7) big by (simp add: block_size_def sizeof_arena_def)
    moreover have "12 \<le> 4096 * unat (free_cnt ar)" using bb(9) by (cases "unat (free_cnt ar)") (auto simp: unat_eq_0)
    ultimately show ?thesis using bb(1-5) big by (auto simp: arena_pages_def)
  qed
  then show "\<exists>ar. arenas s (pg_round_down p) = Some ar \<and> block_to_arena p s = Some (pg_round_down p, ar) \<and>
      unat (pg_round_down p) + 12 \<le> unat p \<and> unat p + unat z \<le> unat (pg_round_down p) + 4096 * unat (arena_pages ar)"
    "p \<noteq> 0" "block_size p s = Some z" by auto
qed

section \<open>Getting a block\<close>

lemma find_desc_le: "find_desc z ds \<le> length ds"
  by (induction ds) auto

lemma find_desc_fits: "find_desc z ds < length ds \<Longrightarrow> z \<le> block_sz (ds ! find_desc z ds)"
  by (induction ds) (auto split: if_splits)

lemma desc_release_eq: "d_lock (descs s ! d) \<Longrightarrow> desc_release d s = Some (upd_desc d (\<lambda>x. x\<lparr>d_lock := False\<rparr>) s)"
  by (simp add: desc_release_def)

definition only_locked :: "nat option \<Rightarrow> malloc_state \<Rightarrow> bool" where
  "only_locked h s \<longleftrightarrow> (\<forall>e < length (descs s). d_lock (descs s ! e) \<longleftrightarrow> h = Some e)"

lemma malloc_ok_iff: "malloc_ok s \<longleftrightarrow> heap_inv {} s \<and> only_locked None s"
  by (simp add: malloc_ok_def only_locked_def)

lemma release_ok:
  assumes "heap_inv {} s" "only_locked (Some d) s" "d < length (descs s)"
  obtains s' where "desc_release d s = Some s'" "malloc_ok s'" "used_blocks s' = used_blocks s" "pal s' = pal s"
proof
  let ?s = "upd_desc d (\<lambda>x. x\<lparr>d_lock := False\<rparr>) s"
  show "desc_release d s = Some ?s" using assms by (simp add: desc_release_def only_locked_def)
  show "malloc_ok ?s" using same_heap_inv[OF same_heap_lock assms(1)] assms(2,3) by (auto simp: malloc_ok_iff only_locked_def)
  show "used_blocks ?s = used_blocks s" by (rule same_heap_used[OF same_heap_lock])
qed simp

lemma acquire_ok:
  assumes "malloc_ok s" "d < length (descs s)"
  obtains s' where "desc_acquire d s = Some s'" "heap_inv {} s'" "only_locked (Some d) s'" "used_blocks s' = used_blocks s" "pal s' = pal s"
    "same_heap s s'"
proof
  let ?s = "upd_desc d (\<lambda>x. x\<lparr>d_lock := True\<rparr>) s"
  show "desc_acquire d s = Some ?s" using assms by (simp add: desc_acquire_def malloc_ok_def)
  show "heap_inv {} ?s" using same_heap_inv[OF same_heap_lock] assms(1) by (auto simp: malloc_ok_iff)
  show "only_locked (Some d) ?s" using assms by (auto simp: malloc_ok_iff only_locked_def)
  show "used_blocks ?s = used_blocks s" by (rule same_heap_used[OF same_heap_lock])
  show "same_heap s ?s" by (rule same_heap_lock)
qed simp

text \<open>What a call of \<^verbatim>\<open>malloc\<close> for \<open>z\<close> bytes leaves behind.\<close>

definition got :: "u32 \<Rightarrow> malloc_state \<Rightarrow> u32 \<Rightarrow> malloc_state \<Rightarrow> bool" where
  "got z s p s' \<longleftrightarrow> malloc_ok s' \<and> page_mem (pal s') = page_mem (pal s) \<and>
     (if p = 0 then used_blocks s' = used_blocks s
      else \<exists>z'. z \<le> z' \<and> (p, z') \<notin> used_blocks s \<and> used_blocks s' = insert (p, z') (used_blocks s))"

lemma got_same: "used_blocks s1 = used_blocks s \<Longrightarrow> page_mem (pal s1) = page_mem (pal s) \<Longrightarrow> got z s1 = got z s"
  by (simp add: got_def fun_eq_iff)

lemma pop_block:
  assumes inv: "heap_inv X s" and d: "d < length (descs s)" and fl: "flist s d = b # bs" and X: "X \<subseteq> {pg_round_down b}"
    and lk: "only_locked (Some d) s" and z: "z \<le> bsz s d"
  shows "\<exists>p s'. Option.bind (block_to_arena b (upd_desc d (\<lambda>x. x\<lparr>free_list := bs\<rparr>) s)) (\<lambda>(a, ar).
      let s = (upd_desc d (\<lambda>x. x\<lparr>free_list := bs\<rparr>) s);
          s = s\<lparr>arenas := (arenas s)(a \<mapsto> ar\<lparr>free_cnt := free_cnt ar - 1\<rparr>)\<rparr> in
      Option.bind (desc_release d s) (\<lambda>s. Some (b, s))) = Some (p, s') \<and> got z s p s'"
proof -
  define s1 where "s1 = upd_desc d (\<lambda>x. x\<lparr>free_list := bs\<rparr>) s"
  obtain a ar where t: "block_to_arena b s1 = Some (a, ar)" "b \<noteq> 0"
    "heap_inv {} (s1\<lparr>arenas := (arenas s1)(a \<mapsto> ar\<lparr>free_cnt := free_cnt ar - 1\<rparr>)\<rparr>)" (is "heap_inv _ ?s2")
    "used_blocks (s1\<lparr>arenas := (arenas s1)(a \<mapsto> ar\<lparr>free_cnt := free_cnt ar - 1\<rparr>)\<rparr>) = insert (b, bsz s d) (used_blocks s)"
    "(b, bsz s d) \<notin> used_blocks s"
    using take_block[OF inv d fl X] unfolding s1_def by blast
  have "only_locked (Some d) ?s2" "d < length (descs ?s2)" using lk d by (simp_all add: only_locked_def s1_def)
  from release_ok[OF t(3) this]
  obtain s' where s': "desc_release d ?s2 = Some s'" "malloc_ok s'" "used_blocks s' = used_blocks ?s2" "pal s' = pal ?s2" by blast
  then have "got z s b s'" using t z by (auto simp: got_def s1_def)
  then show ?thesis using t(1) s'(1) by (simp add: Let_def flip: s1_def)
qed

lemma malloc_small:
  assumes ok: "malloc_ok s" and z: "z \<noteq> 0" "find_desc z (descs s) < length (descs s)"
  shows "\<exists>p s'. malloc z s = Some (p, s') \<and> got z s p s'"
proof -
  define d where "d = find_desc z (descs s)"
  have d: "d < length (descs s)" "z \<le> bsz s d" using z find_desc_fits by (auto simp: d_def)
  obtain s1 where s1: "desc_acquire d s = Some s1" "heap_inv {} s1" "only_locked (Some d) s1" "used_blocks s1 = used_blocks s"
    "pal s1 = pal s" "same_heap s s1" using acquire_ok[OF ok d(1)] by blast
  have d1: "d < length (descs s1)" "z \<le> bsz s1 d" using s1(6) d by (auto simp: same_heap_def)
  have m: "malloc z s = Option.bind (if flist s1 d = [] then new_arena d s1 else Some (True, s1)) (\<lambda>(ok, s).
      if \<not> ok then Option.bind (desc_release d s) (\<lambda>s. Some (0, s)) else
      case flist s d of [] \<Rightarrow> None
      | b # bs \<Rightarrow> Option.bind (block_to_arena b (upd_desc d (\<lambda>x. x\<lparr>free_list := bs\<rparr>) s)) (\<lambda>(a, ar).
        let s = (upd_desc d (\<lambda>x. x\<lparr>free_list := bs\<rparr>) s);
            s = s\<lparr>arenas := (arenas s)(a \<mapsto> ar\<lparr>free_cnt := free_cnt ar - 1\<rparr>)\<rparr> in
        Option.bind (desc_release d s) (\<lambda>s. Some (b, s))))"
    using z s1(1) d(1) unfolding malloc_def Let_def d_def[symmetric] by simp
  show ?thesis
  proof (cases "flist s1 d")
    case (Cons b bs)
    then show ?thesis using pop_block[OF s1(2) d1(1) Cons _ s1(3) d1(2)] got_same[OF s1(4)] s1(5) unfolding m by simp
  next
    case Nil
    from s1(2) d1(1) Nil show ?thesis
    proof (cases rule: new_arena_spec)
      case 1
      obtain s' where "desc_release d s1 = Some s'" "malloc_ok s'" "used_blocks s' = used_blocks s1" "pal s' = pal s1"
        using release_ok[OF s1(2,3) d1(1)] by blast
      then show ?thesis using 1 Nil s1(4,5) unfolding m by (simp add: got_def)
    next
      case (2 a s2)
      obtain b bs where bs: "flist s2 d = b # bs" using 2(9) by (cases "flist s2 d") auto
      have len: "length (descs s2) = length (descs s1)" using 2(7) by (metis length_map)
      then have "d_lock (descs s2 ! e) = d_lock (descs s1 ! e)" if "e < length (descs s1)" for e
        using 2(7) that by (metis nth_map)
      then have "only_locked (Some d) s2" using s1(3) len by (simp add: only_locked_def)
      from pop_block[OF 2(2) _ bs _ this, of z] 2(5,8) len d1 bs
      show ?thesis using 2(1) got_same[of s2 s z] 2(3,6) Nil s1(4,5) unfolding m by simp
    qed
  qed
qed

lemma malloc_big_spec:
  assumes ok: "malloc_ok s" and z: "unat z + 12 + 4095 < 2 ^ 32"
  shows "\<exists>p s'. malloc_big z s = Some (p, s') \<and> got z s p s'"
proof -
  define n where "n = (z + sizeof_arena + PGSIZE - 1) div PGSIZE"
  have e1: "z + sizeof_arena + PGSIZE - 1 = z + 4107" by (simp add: sizeof_arena_def)
  have e2: "unat (z + 4107) = unat z + 4107" by (rule unat_add_lem[THEN iffD1, of z 4107, simplified]) (use z in simp)
  have e: "unat (z + sizeof_arena + PGSIZE - 1) = unat z + 12 + 4095" unfolding e1 e2 by simp
  have n: "unat n = (unat z + 12 + 4095) div 4096" unfolding n_def unat_div e by simp
  have "unat z + 12 + 4095 = 4096 * unat n + (unat z + 12 + 4095) mod 4096" unfolding n by (simp only: mult_div_mod_eq)
  moreover have "(unat z + 12 + 4095) mod 4096 < 4096" by simp
  ultimately have nb: "unat z + 12 \<le> 4096 * unat n" by linarith
  then have n0: "n \<noteq> 0" by (cases "n = 0") auto
  have inv: "heap_inv {} s" using ok by (simp add: malloc_ok_def)
  from palloc_get_plain[OF heap_invD(1)[OF inv] n0] show ?thesis
  proof cases
    case 1
    then have "malloc_big z s = Some (0, s)" unfolding malloc_big_def Let_def n_def[symmetric] by simp
    then show ?thesis using ok by (simp add: got_def)
  next
    case (2 a p')
    define ar where "ar = \<lparr>arena_magic = ARENA_MAGIC, arena_desc = None, free_cnt = n\<rparr>"
    define s' where "s' = s\<lparr>pal := p', arenas := (arenas s)(a \<mapsto> ar)\<rparr>"
    have m: "malloc_big z s = Some (a + sizeof_arena, s')" using 2(1,2) unfolding malloc_big_def Let_def n_def[symmetric] by (simp add: s'_def ar_def)
    have ap: "arena_pages ar = n" by (simp add: ar_def arena_pages_def)
    have g: "grown s a ar s'" using arena_fresh[OF inv 2(6) n0] by (simp add: grown_def s'_def new_blocks_def ar_def)
    have hi: "heap_inv {a} s'"
      by (rule grown_add[OF inv g]) (use 2 heap_invD(2,3)[OF inv] in \<open>simp_all add: s'_def ap shape_def\<close>, auto simp: ar_def)
    then have "heap_inv {} s'" unfolding heap_inv_def arena_ok_def by (auto simp: s'_def ar_def split: if_splits)
    then have ok': "malloc_ok s'" using ok by (simp add: malloc_ok_def s'_def)
    have us: "used_blocks s' = insert (a + sizeof_arena, PGSIZE * n - sizeof_arena) (used_blocks s)"
      using grown_used[OF g heap_inv_in_page[OF hi]] by (simp add: ar_def)
    note bb = big_block[OF \<open>heap_inv {} s'\<close>, of a ar]
    have a': "arenas s' a = Some ar" "arena_desc ar = None" "free_cnt ar = n" by (simp_all add: s'_def ar_def)
    have "(a + sizeof_arena, y) \<notin> used_blocks s" for y
      using used_block[OF inv, of "a + sizeof_arena" y] bb(1)[OF a'(1,2)] arena_fresh[OF inv 2(6) n0] by auto
    moreover have "z \<le> PGSIZE * n - sizeof_arena" using bb(5)[OF a'(1,2)] a'(3) nb by (simp add: word_le_nat_alt)
    ultimately show ?thesis using m ok' us bb(2)[OF a'(1,2)] 2(8) by (auto simp: got_def s'_def)
  qed
qed

lemma malloc_spec:
  assumes "malloc_ok s" "unat z + 12 + 4095 < 2 ^ 32"
  shows "\<exists>p s'. malloc z s = Some (p, s') \<and> got z s p s'"
proof -
  consider "z = 0" | "z \<noteq> 0" "find_desc z (descs s) < length (descs s)" | "z \<noteq> 0" "find_desc z (descs s) = length (descs s)"
    using find_desc_le[of z "descs s"] by linarith
  then show ?thesis
  proof cases
    case 1
    then show ?thesis using assms(1) by (simp add: malloc_def got_def)
  next
    case 2
    then show ?thesis using malloc_small[OF assms(1)] by simp
  next
    case 3
    then show ?thesis using malloc_big_spec[OF assms] by (simp add: malloc_def Let_def)
  qed
qed

text \<open>The bytes of a block; different blocks have no byte in common.\<close>

definition block_bytes :: "u32 \<times> u32 \<Rightarrow> nat set" where
  "block_bytes b = {unat (fst b) ..< unat (fst b) + unat (snd b)}"

lemma page_bytes_apart:
  assumes "run_pages (a, n) \<inter> run_pages (a', n') = {}" "unat a mod 4096 = 0" "unat a' mod 4096 = 0"
  shows "{unat a ..< unat a + 4096 * unat n} \<inter> {unat a' ..< unat a' + 4096 * unat n'} = {}"
proof -
  have in_run: "x div 4096 \<in> run_pages (a, n)" if "x \<in> {unat a ..< unat a + 4096 * unat n}" "unat a mod 4096 = 0" for x n and a :: u32
  proof -
    have a: "unat a div 4096 * 4096 = unat a" using div_mult_mod_eq[of "unat a" 4096] that(2) by simp
    have "unat a \<le> x" "x < unat a + 4096 * unat n" using that(1) by simp_all
    then have "x < (unat a div 4096 + unat n) * 4096" unfolding distrib_right a by (simp add: mult.commute)
    then have "x div 4096 < unat a div 4096 + unat n" by (rule less_mult_imp_div_less)
    moreover have "unat a div 4096 \<le> x div 4096" using \<open>unat a \<le> x\<close> by (rule div_le_mono)
    ultimately have "x div 4096 \<in> {unat a div 4096 ..< unat a div 4096 + unat n}" by simp
    then show ?thesis by (simp add: run_pages_def)
  qed
  show ?thesis
  proof (rule equals0I)
    fix x assume "x \<in> {unat a ..< unat a + 4096 * unat n} \<inter> {unat a' ..< unat a' + 4096 * unat n'}"
    then have "x div 4096 \<in> run_pages (a, n) \<inter> run_pages (a', n')"
      using in_run[OF IntD1 assms(2)] in_run[OF IntD2 assms(3)] by blast
    then show False using assms(1) by simp
  qed
qed

lemma blocks_apart:
  assumes inv: "heap_inv X s" and b: "b \<in> used_blocks s" "b' \<in> used_blocks s" "b \<noteq> b'"
  shows "block_bytes b \<inter> block_bytes b' = {}"
proof -
  obtain p z p' z' where bz: "b = (p, z)" "b' = (p', z')" by (metis surj_pair)
  note u = b(1)[unfolded bz] and u' = b(2)[unfolded bz]
  obtain ar where ar: "arenas s (pg_round_down p) = Some ar" "unat (pg_round_down p) + 12 \<le> unat p"
    "unat p + unat z \<le> unat (pg_round_down p) + 4096 * unat (arena_pages ar)" using used_block(1)[OF inv u] by auto
  obtain ar' where ar': "arenas s (pg_round_down p') = Some ar'" "unat (pg_round_down p') + 12 \<le> unat p'"
    "unat p' + unat z' \<le> unat (pg_round_down p') + 4096 * unat (arena_pages ar')" using used_block(1)[OF inv u'] by auto
  have al: "unat a mod 4096 = 0" if "arenas s a = Some y" for a y
    using heap_invD(5)[OF inv that] run_bound(1)[OF heap_invD(1)[OF inv]] by (auto simp: arena_ok_def)
  show ?thesis
  proof (cases "pg_round_down p = pg_round_down p'")
    case False
    from page_bytes_apart[OF heap_invD(6)[OF inv ar(1) ar'(1) False] al[OF ar(1)] al[OF ar'(1)]]
    show ?thesis using ar(2,3) ar'(2,3) by (fastforce simp: block_bytes_def bz)
  next
    case True
    have small: "\<exists>d i. arena_desc ar = Some d \<and> i < bcnt s d \<and> q = baddr (pg_round_down p) (bsz s d) i \<and> y = bsz s d \<or>
        arena_desc ar = None \<and> q = pg_round_down p + sizeof_arena \<and> y = PGSIZE * free_cnt ar - sizeof_arena"
      if "(q, y) \<in> used_blocks s" "pg_round_down q = pg_round_down p" for q y
      using that(1)
    proof (cases rule: used_block_cases)
      case (small a ar1 d i)
      then show ?thesis using small_block(1)[OF inv small(1-3)] that(2) ar(1) by auto
    next
      case (big a ar1)
      then show ?thesis using big_block(1)[OF inv big(1,2)] that(2) ar(1) by auto
    qed
    obtain d i where di: "arena_desc ar = Some d \<and> i < bcnt s d \<and> p = baddr (pg_round_down p) (bsz s d) i \<and> z = bsz s d \<or>
        arena_desc ar = None \<and> p = pg_round_down p + sizeof_arena \<and> z = PGSIZE * free_cnt ar - sizeof_arena" using small[OF u] by blast
    obtain d' i' where di': "arena_desc ar = Some d' \<and> i' < bcnt s d' \<and> p' = baddr (pg_round_down p) (bsz s d') i' \<and> z' = bsz s d' \<or>
        arena_desc ar = None \<and> p' = pg_round_down p + sizeof_arena \<and> z' = PGSIZE * free_cnt ar - sizeof_arena"
      using small[OF u' True[symmetric]] by blast
    have d: "arena_desc ar = Some d" "d' = d" "i \<noteq> i'" using di di' b(3) bz by auto
    note sm = arena_small[OF inv ar(1) d(1)]
    have "unat p = unat (pg_round_down p) + 12 + i * unat z" "unat p' = unat (pg_round_down p) + 12 + i' * unat z" "z' = z"
      using unat_baddr(1)[OF sm(2,3,7,8), of i] unat_baddr(1)[OF sm(2,3,7,8), of i'] di di' d by auto
    moreover have "i * unat z + unat z \<le> i' * unat z \<or> i' * unat z + unat z \<le> i * unat z"
      using mult_le_mono1[of "Suc i" i' "unat z"] mult_le_mono1[of "Suc i'" i "unat z"] d(3) by (cases "i < i'") auto
    ultimately show ?thesis by (auto simp: block_bytes_def bz)
  qed
qed

section \<open>Giving a block back\<close>

lemma heap_inv_mono: "heap_inv X s \<Longrightarrow> X \<subseteq> Y \<Longrightarrow> heap_inv Y s"
proof -
  assume h: "heap_inv X s" "X \<subseteq> Y"
  have "arena_ok (a \<in> Y) s a ar" if "arena_ok (a \<in> X) s a ar" for a ar using that h(2) by (auto simp: arena_ok_def)
  then show ?thesis using h(1) unfolding heap_inv_def by simp
qed

lemma near_iff:
  assumes "unat (a :: u32) + n \<le> 2 ^ 32"
  shows "unat (x - a) < n \<longleftrightarrow> unat x \<in> {unat a ..< unat a + n}"
proof (cases "a \<le> x")
  case True
  then have "unat (x - a) = unat x - unat a" "unat a \<le> unat x" by (simp_all add: unat_sub word_le_nat_alt)
  then show ?thesis by auto
next
  case False
  then have "unat x < unat a" by (simp add: word_le_nat_alt)
  then have "unat (x - a) = 2 ^ 32 + unat x - unat a" by (simp add: unat_sub_if' word_le_nat_alt)
  then show ?thesis using assms \<open>unat x < unat a\<close> by auto
qed

text \<open>The contents of the blocks that stay in use are kept.\<close>

definition keeps :: "malloc_state \<Rightarrow> malloc_state \<Rightarrow> bool" where
  "keeps s s' \<longleftrightarrow> (\<forall>b \<in> used_blocks s'. \<forall>x. unat x \<in> block_bytes b \<longrightarrow> page_mem (pal s') x = page_mem (pal s) x)"

lemma other_arena:
  assumes inv: "heap_inv X s" and a: "arenas s a = Some ar" and b: "b \<in> used_blocks s" "pg_round_down (fst b) \<noteq> a"
    and x: "unat x \<in> block_bytes b"
  shows "\<not> unat (x - a) < 4096 * unat (arena_pages ar)"
proof -
  obtain p z where pz: "b = (p, z)" by (cases b)
  obtain ar' where ar': "arenas s (pg_round_down p) = Some ar'" "unat (pg_round_down p) + 12 \<le> unat p"
    "unat p + unat z \<le> unat (pg_round_down p) + 4096 * unat (arena_pages ar')" using used_block(1)[OF inv b(1)[unfolded pz]] by auto
  have run: "unat c mod 4096 = 0" "unat c + 4096 * unat (arena_pages y) \<le> 2 ^ 32" if "arenas s c = Some y" for c y
    using heap_invD(5)[OF inv that] run_bound(1,2)[OF heap_invD(1)[OF inv]] by (auto simp: arena_ok_def)
  have "pg_round_down p \<noteq> a" using b(2) pz by simp
  from page_bytes_apart[OF heap_invD(6)[OF inv ar'(1) a this] run(1)[OF ar'(1)] run(1)[OF a]]
  have "unat x \<notin> {unat a ..< unat a + 4096 * unat (arena_pages ar)}" using x ar'(2,3) by (fastforce simp: block_bytes_def pz)
  then show ?thesis unfolding near_iff[OF run(2)[OF a]] .
qed

lemma keeps_drop:
  assumes "heap_inv X s" "heap_inv Y s'" "arenas s a = Some ar" "arenas s' a = None" "used_blocks s' \<subseteq> used_blocks s"
    and "\<And>x. page_mem (pal s') x = (if unat (x - a) < 4096 * unat (arena_pages ar) then 0xcc else page_mem (pal s) x)"
  shows "keeps s s'"
  unfolding keeps_def
proof (intro ballI allI impI)
  fix b and x :: u32 assume b: "b \<in> used_blocks s'" "unat x \<in> block_bytes b"
  have "pg_round_down (fst b) \<noteq> a" using used_block(1)[OF assms(2), of "fst b" "snd b"] b(1) assms(4) by auto
  then show "page_mem (pal s') x = page_mem (pal s) x"
    using other_arena[OF assms(1,3) _ _ b(2)] assms(5,6) b(1) by auto
qed

lemma remove_blocks_eq:
  assumes "arenas s a = Some ar" "arena_magic ar = ARENA_MAGIC" "arena_desc ar = Some d" "a \<noteq> 0" "d < length (descs s)"
    "distinct is" "\<And>i. i \<in> set is \<Longrightarrow> i < bcnt s d" "\<And>i. i \<in> set is \<Longrightarrow> baddr a (bsz s d) i \<in> set (flist s d)"
    "distinct (flist s d)" "inj_on (baddr a (bsz s d)) (set is)"
  shows "remove_blocks d a is s =
    Some (upd_desc d (\<lambda>x. x\<lparr>free_list := filter (\<lambda>b. b \<notin> baddr a (bsz s d) ` set is) (free_list x)\<rparr>) s)"
  using assms
proof (induction "is" arbitrary: s)
  case Nil
  then show ?case by (simp add: upd_desc_def)
next
  case (Cons i "is")
  let ?s = "upd_desc d (\<lambda>x. x\<lparr>free_list := remove1 (baddr a (bsz s d) i) (free_list x)\<rparr>) s"
  have "baddr a (bsz s d) j \<noteq> baddr a (bsz s d) i" if "j \<in> set is" for j
    using that Cons.prems(6,10) by (auto simp: inj_on_def)
  then have "remove_blocks d a is ?s =
    Some (upd_desc d (\<lambda>x. x\<lparr>free_list := filter (\<lambda>b. b \<notin> baddr a (bsz ?s d) ` set is) (free_list x)\<rparr>) ?s)"
    using Cons.prems by (intro Cons.IH) (auto simp: inj_on_def)
  moreover have "filter (\<lambda>b. b \<notin> baddr a (bsz s d) ` set is) (remove1 (baddr a (bsz s d) i) (flist s d)) =
      filter (\<lambda>b. b \<noteq> baddr a (bsz s d) i \<and> b \<notin> baddr a (bsz s d) ` set is) (flist s d)"
    unfolding distinct_remove1_removeAll[OF Cons.prems(9)] by (simp add: removeAll_filter_not_eq conj_commute eq_commute)
  ultimately show ?case
    using Cons.prems by (simp add: arena_to_block_eq upd_desc_def)
qed

lemma insert_free:
  assumes inv: "heap_inv X s" and a: "arenas s a = Some ar" "arena_desc ar = Some d" "i < bcnt s d" "baddr a (bsz s d) i \<notin> set (flist s d)"
    and X: "X = {}"
  defines "s' \<equiv> (upd_desc d (\<lambda>x. x\<lparr>free_list := baddr a (bsz s d) i # free_list x\<rparr>) s)\<lparr>arenas := (arenas s)(a \<mapsto> ar\<lparr>free_cnt := free_cnt ar + 1\<rparr>)\<rparr>"
  shows "moved s a d i s'" "heap_inv {a} s'" "unat (free_cnt ar + 1) \<le> bcnt s d"
    "unat (free_cnt ar + 1) < bcnt s d \<Longrightarrow> heap_inv {} s'" "unat (free_cnt ar + 1) = card (free_idx s' a d)"
    "used_blocks s' = used_blocks s - {(baddr a (bsz s d) i, bsz s d)}"
proof -
  note sm = arena_small[OF inv a(1,2)] and sb = small_block[OF inv a(1-3)]
  have acc: "flist s' e = (if e = d then baddr a (bsz s d) i # flist s d else flist s e)" "bsz s' e = bsz s e"
    "blocks_per_arena (descs s' ! e) = blocks_per_arena (descs s ! e)" "length (descs s') = length (descs s)"
    "arenas s' = (arenas s)(a \<mapsto> ar\<lparr>free_cnt := free_cnt ar + 1\<rparr>)" "pal s' = pal s" for e
    using sm(1) by (simp_all add: s'_def)
  have idx: "free_idx s' a d = insert i (free_idx s a d)" "i \<notin> free_idx s a d"
    using a(3,4) sb(4) unfolding free_idx_def acc by fastforce+
  have le: "card (free_idx s' a d) \<le> bcnt s d" using card_free_idx[of s' a d] acc(3) by simp
  then have c: "unat (free_cnt ar + 1) = card (free_idx s' a d)"
    using idx sm(6) unat_inc[of "free_cnt ar" "blocks_per_arena (descs s ! d)"] by (simp add: word_less_nat_alt)
  then show "unat (free_cnt ar + 1) = card (free_idx s' a d)" "unat (free_cnt ar + 1) \<le> bcnt s d" using le by simp_all
  have sh: "shape s'" using heap_invD(2)[OF inv] shape_upd[of "\<lambda>x. x\<lparr>free_list := baddr a (bsz s d) i # free_list x\<rparr>" s d]
    by (simp add: s'_def shape_def)
  show mv: "moved s a d i s'"
    unfolding moved_def using heap_invD(1)[OF inv] sh heap_invD(3)[OF inv sm(1)] a c by (auto simp: acc)
  show "heap_inv {a} s'" using moved_inv[OF inv mv] X by simp
  show "heap_inv {} s'" if "unat (free_cnt ar + 1) < bcnt s d" using moved_inv[OF inv mv, of "{}"] X that c by simp
  have "(baddr a (bsz s d) i, bsz s d) \<notin> used_blocks s'"
    using small_in_used[OF \<open>heap_inv {a} s'\<close>, of a "ar\<lparr>free_cnt := free_cnt ar + 1\<rparr>" d i] a(2,3) by (simp add: acc)
  then show "used_blocks s' = used_blocks s - {(baddr a (bsz s d) i, bsz s d)}" using moved_used[OF inv mv] by auto
qed

text \<open>Dropping a whole arena gives back its pages, which are then filled with \<^verbatim>\<open>0xcc\<close>.\<close>

lemma drop_arena:
  assumes inv: "heap_inv {a} s" and a: "arenas s a = Some ar" "arena_desc ar = Some d" and full: "card (free_idx s a d) = bcnt s d"
  shows "\<exists>s'. Option.bind (remove_blocks d a [0..<bcnt s d] s) (\<lambda>s. Option.bind (palloc_free_page a (pal s)) (\<lambda>p.
        Some (s\<lparr>pal := p, arenas := (arenas s)(a := None)\<rparr>))) = Some s' \<and>
      heap_inv {} s' \<and> used_blocks s' = used_blocks s \<and> map d_lock (descs s') = map d_lock (descs s) \<and>
      keeps s s'"
proof -
  note sm = arena_small[OF inv a] and sd = shape_desc[OF heap_invD(2)[OF inv] arena_small(1)[OF inv a]]
  have all: "free_idx s a d = {..<bcnt s d}"
    by (rule card_subset_eq) (use full in \<open>auto simp: free_idx_def\<close>)
  then have mem: "baddr a (bsz s d) i \<in> set (flist s d)" if "i < bcnt s d" for i using that by (auto simp: free_idx_def set_eq_iff)
  have inj: "inj_on (baddr a (bsz s d)) {..<bcnt s d}" using baddr_inj[OF sm(2,3,7,8)] by (auto simp: inj_on_def)
  define f where "f = (\<lambda>x :: desc. x\<lparr>free_list := filter (\<lambda>b. b \<notin> baddr a (bsz s d) ` {..<bcnt s d}) (free_list x)\<rparr>)"
  have rm: "remove_blocks d a [0..<bcnt s d] s = Some (upd_desc d f s)"
    using remove_blocks_eq[OF a(1) sm(5) a(2) sm(4,1), of "[0..<bcnt s d]"] mem inj heap_invD(3)[OF inv sm(1)]
    by (simp add: f_def atLeast0LessThan)
  have run: "valid_run (pal s) (a, 1)" "run_pages (a, 1) \<subseteq> used_pages (pal s)" "arena_pages ar = 1"
    using heap_invD(5)[OF inv a(1)] a(2) by (auto simp: arena_ok_def arena_pages_def)
  obtain p where p: "palloc_free_multiple a 1 (pal s) = Some p" "palloc_ok p" "same_pools (pal s) p"
      "used_pages p = used_pages (pal s) - run_pages (a, 1)"
      "\<And>x. page_mem p x = (if unat (x - a) < 4096 then 0xcc else page_mem (pal s) x)"
    using palloc_free_multiple_eq[OF heap_invD(1)[OF inv] run(1,2)] by auto
  define s' where "s' = (upd_desc d f s)\<lparr>pal := p, arenas := (arenas s)(a := None)\<rparr>"
  have acc: "flist s' e = (if e = d then filter (\<lambda>b. b \<notin> baddr a (bsz s d) ` {..<bcnt s d}) (flist s d) else flist s e)"
    "bsz s' e = bsz s e" "blocks_per_arena (descs s' ! e) = blocks_per_arena (descs s ! e)" "length (descs s') = length (descs s)"
    for e using sm(1) by (simp_all add: s'_def f_def)
  have "(arenas s)(a := None, a \<mapsto> ar) = arenas s" using a(1) by auto
  then have g: "grown s' a ar s"
  proof -
    have "arenas s' = (arenas s)(a := None)" by (simp add: s'_def)
    moreover have "new_blocks s' a ar e = (if e = d then baddr a (bsz s d) ` {..<bcnt s d} else {})" for e
      using a(2) unfolding new_blocks_def acc by auto
    ultimately show ?thesis unfolding grown_def acc using mem \<open>(arenas s)(a := None, a \<mapsto> ar) = arenas s\<close> by auto
  qed
  have sh: "shape s'" using heap_invD(2)[OF inv] shape_upd[of f s d] by (simp add: s'_def shape_def f_def)
  have "heap_inv {} s'"
  proof (rule grown_drop[OF inv g])
    show "distinct (flist s' e)" if "e < length (descs s')" for e
      using heap_invD(3)[OF inv, of e] that acc(4) by (auto simp: acc(1))
  qed (use p(2,4) same_pools_valid[OF p(3)] run(3) sh in \<open>simp_all add: s'_def\<close>)
  moreover have "used_blocks s = used_blocks s'" using grown_used[OF g heap_inv_in_page[OF inv]] a(2) by simp
  moreover have "map d_lock (descs s') = map d_lock (descs s)"
    by (rule nth_equalityI) (auto simp: s'_def upd_desc_def nth_list_update f_def sm(1))
  moreover have "keeps s s'"
    by (rule keeps_drop[OF inv \<open>heap_inv {} s'\<close> a(1)]) (use \<open>used_blocks s = used_blocks s'\<close> p(5) run(3) in \<open>simp_all add: s'_def\<close>)
  ultimately show ?thesis using rm p(1) by (simp add: palloc_free_page_def s'_def)
qed

lemma drop_big:
  assumes inv: "heap_inv {} s" and a: "arenas s a = Some ar" "arena_desc ar = None"
  shows "\<exists>p. palloc_free_multiple a (free_cnt ar) (pal s) = Some p \<and> heap_inv {} (s\<lparr>pal := p, arenas := (arenas s)(a := None)\<rparr>) \<and>
      used_blocks (s\<lparr>pal := p, arenas := (arenas s)(a := None)\<rparr>) =
        used_blocks s - {(a + sizeof_arena, PGSIZE * free_cnt ar - sizeof_arena)} \<and>
      keeps s (s\<lparr>pal := p, arenas := (arenas s)(a := None)\<rparr>)"
proof -
  note bb = big_block[OF inv a]
  have run: "run_pages (a, free_cnt ar) \<subseteq> used_pages (pal s)" "arena_pages ar = free_cnt ar"
    using heap_invD(5)[OF inv a(1)] a(2) by (auto simp: arena_ok_def arena_pages_def)
  obtain p where p: "palloc_free_multiple a (free_cnt ar) (pal s) = Some p" "palloc_ok p" "same_pools (pal s) p"
      "used_pages p = used_pages (pal s) - run_pages (a, free_cnt ar)"
      "\<And>x. page_mem p x = (if unat (x - a) < 4096 * unat (free_cnt ar) then 0xcc else page_mem (pal s) x)"
    using palloc_free_multiple_eq[OF heap_invD(1)[OF inv] bb(6) run(1)] by auto
  define s' where "s' = s\<lparr>pal := p, arenas := (arenas s)(a := None)\<rparr>"
  have "(arenas s)(a := None, a \<mapsto> ar) = arenas s" using a(1) by auto
  then have g: "grown s' a ar s" using a(2) by (simp add: grown_def s'_def new_blocks_def)
  have "heap_inv {a} s" by (rule heap_inv_mono[OF inv]) simp
  from grown_drop[OF this g]
  have "heap_inv {} s'" using p(2,4) same_pools_valid[OF p(3)] heap_invD(2,3)[OF inv] run(2) by (simp add: s'_def shape_def)
  moreover have "used_blocks s = used_blocks s' \<union> {(a + sizeof_arena, PGSIZE * free_cnt ar - sizeof_arena)}"
    using grown_used[OF g heap_inv_in_page[OF inv]] a(2) by simp
  moreover have "(a + sizeof_arena, y) \<notin> used_blocks s'" for y
    using used_block(1)[OF \<open>heap_inv {} s'\<close>, of "a + sizeof_arena" y] bb(1) by (auto simp: s'_def)
  moreover have "keeps s s'"
    by (rule keeps_drop[OF inv \<open>heap_inv {} s'\<close> a(1)])
      (use \<open>used_blocks s = _\<close> p(5) run(2) in \<open>auto simp: s'_def\<close>)
  ultimately show ?thesis using p(1) by (auto simp: s'_def)
qed

lemma heap_inv_fill: "heap_inv X (s\<lparr>pal := (pal s)\<lparr>page_mem := m\<rparr>\<rparr>) \<longleftrightarrow> heap_inv X s"
  using same_heap_inv[OF same_heap_mem[of s m]] same_heap_inv[OF same_heap_mem[of "s\<lparr>pal := (pal s)\<lparr>page_mem := m\<rparr>\<rparr>" "page_mem (pal s)"]]
  by auto

lemma malloc_ok_fill: "malloc_ok (s\<lparr>pal := (pal s)\<lparr>page_mem := m\<rparr>\<rparr>) \<longleftrightarrow> malloc_ok s"
  by (simp add: malloc_ok_def heap_inv_fill)

lemma used_fill: "used_blocks (s\<lparr>pal := (pal s)\<lparr>page_mem := m\<rparr>\<rparr>) = used_blocks s"
  by (rule same_heap_used[OF same_heap_mem])

lemma block_range:
  assumes inv: "heap_inv X s" and u: "(p, z) \<in> used_blocks s" shows "unat p + unat z \<le> 2 ^ 32"
proof -
  obtain ar where ar: "arenas s (pg_round_down p) = Some ar" "unat p + unat z \<le> unat (pg_round_down p) + 4096 * unat (arena_pages ar)"
    using used_block(1)[OF inv u] by auto
  then show ?thesis using heap_invD(5)[OF inv ar(1)] run_bound(2)[OF heap_invD(1)[OF inv]] by (force simp: arena_ok_def)
qed

lemma keeps_fill:
  assumes inv: "heap_inv X s" and u: "(p, z) \<in> used_blocks s" and b: "b \<in> used_blocks s" "b \<noteq> (p, z)" "unat x \<in> block_bytes b"
    and n: "length bs \<le> unat z"
  shows "write_bytes m p bs x = m x"
proof -
  have "unat x \<notin> block_bytes (p, z)" using blocks_apart[OF inv b(1) u b(2)] b(3) by auto
  then have "\<not> unat (x - p) < unat z" unfolding near_iff[OF block_range[OF inv u]] by (simp add: block_bytes_def)
  then show ?thesis using n by (simp add: write_bytes_def)
qed

lemma free_small:
  assumes ok: "malloc_ok s" and a: "arenas s a = Some ar" "arena_desc ar = Some d" "i < bcnt s d" "baddr a (bsz s d) i \<notin> set (flist s d)"
  defines "p \<equiv> baddr a (bsz s d) i"
  shows "\<exists>s'. free_block p s = Some s' \<and> malloc_ok s' \<and> used_blocks s' = used_blocks s - {(p, bsz s d)} \<and> keeps s s'"
proof -
  define m where "m = write_bytes (page_mem (pal s)) p (replicate (unat (bsz s d)) 0xcc)"
  define s0 where "s0 = s\<lparr>pal := (pal s)\<lparr>page_mem := m\<rparr>\<rparr>"
  have inv: "heap_inv {} s" using ok by (simp add: malloc_ok_def)
  have sb: "p \<noteq> 0" "block_to_arena p s = Some (a, ar)" using small_block(2,3)[OF inv a(1-3)] by (simp_all add: p_def)
  have u: "(p, bsz s d) \<in> used_blocks s" using small_in_used[OF inv a(1-3)] a(4) by (simp add: p_def)
  have d: "d < length (descs s)" using arena_small(1)[OF inv a(1,2)] .
  have ok0: "malloc_ok s0" using ok by (simp add: s0_def malloc_ok_fill)
  obtain s1 where s1: "desc_acquire d s0 = Some s1" "heap_inv {} s1" "only_locked (Some d) s1" "used_blocks s1 = used_blocks s0"
    "pal s1 = pal s0" "same_heap s0 s1" using acquire_ok[OF ok0, of d] d by (auto simp: s0_def)
  have acc: "bsz s1 e = bsz s e" "bcnt s1 e = bcnt s e" "flist s1 e = flist s e" "arenas s1 = arenas s" "length (descs s1) = length (descs s)"
      "blocks_per_arena (descs s1 ! e) = blocks_per_arena (descs s ! e)" for e
    using s1(6) by (simp_all add: same_heap_def s0_def)
  have pre: "arenas s1 a = Some ar" "i < bcnt s1 d" "baddr a (bsz s1 d) i \<notin> set (flist s1 d)" using a acc by simp_all
  define s2 where "s2 = (upd_desc d (\<lambda>x. x\<lparr>free_list := p # free_list x\<rparr>) s1)\<lparr>arenas := (arenas s1)(a \<mapsto> ar\<lparr>free_cnt := free_cnt ar + 1\<rparr>)\<rparr>"
  note ins = insert_free[OF s1(2) pre(1) a(2) pre(2,3) refl, unfolded acc p_def[symmetric], folded s2_def[unfolded acc]]
  have s2: "blocks_per_arena (descs s2 ! d) = blocks_per_arena (descs s ! d)" "bcnt s2 d = bcnt s d" "pal s2 = pal s0"
      "arenas s2 a = Some (ar\<lparr>free_cnt := free_cnt ar + 1\<rparr>)"
      "length (descs s2) = length (descs s)" "only_locked (Some d) s2"
    using d s1(3,5) acc by (simp_all add: s2_def only_locked_def)
  have us2: "used_blocks s2 = used_blocks s - {(p, bsz s d)}" using ins(6) s1(4) by (simp add: s0_def used_fill s2_def acc)
  have k: "keeps s s2" unfolding keeps_def
  proof (intro ballI allI impI)
    fix b and x :: u32 assume b: "b \<in> used_blocks s2" "unat x \<in> block_bytes b"
    then show "page_mem (pal s2) x = page_mem (pal s) x"
      using keeps_fill[OF inv u _ _ b(2)] us2 s2(3) by (simp add: s0_def m_def)
  qed
  have fr: "free_block p s = Option.bind
      (if free_cnt ar + 1 \<ge> blocks_per_arena (descs s ! d) then
         ASSERT (free_cnt ar + 1 = blocks_per_arena (descs s ! d)) (
         Option.bind (remove_blocks d a [0..<bcnt s2 d] s2) (\<lambda>s. Option.bind (palloc_free_page a (pal s)) (\<lambda>p.
         Some (s\<lparr>pal := p, arenas := (arenas s)(a := None)\<rparr>))))
       else Some s2) (desc_release d)"
    using sb a(2) s1(1) s2(1) unfolding free_block_def memset_def memset_loop_eq
    by (simp add: Let_def m_def s0_def s2_def)
  show ?thesis
  proof (cases "free_cnt ar + 1 \<ge> blocks_per_arena (descs s ! d)")
    case False
    then have "heap_inv {} s2" using ins(4) by (simp add: word_le_nat_alt s2_def acc)
    from release_ok[OF this s2(6)] d s2(5) obtain s' where s': "desc_release d s2 = Some s'" "malloc_ok s'"
      "used_blocks s' = used_blocks s2" "pal s' = pal s2" by metis
    then show ?thesis using False fr us2 k by (simp add: keeps_def)
  next
    case True
    then have eq: "free_cnt ar + 1 = blocks_per_arena (descs s ! d)" using ins(3) by (simp add: word_le_nat_alt word_unat_eq_iff s2_def acc)
    have h2: "heap_inv {a} s2" "card (free_idx s2 a d) = bcnt s2 d" using ins(2,5) eq s2(2) by (simp_all add: s2_def acc)
    from drop_arena[OF h2(1) s2(4) _ h2(2)] a(2) obtain s3 where s3: "Option.bind (remove_blocks d a [0..<bcnt s2 d] s2)
        (\<lambda>s. Option.bind (palloc_free_page a (pal s)) (\<lambda>p. Some (s\<lparr>pal := p, arenas := (arenas s)(a := None)\<rparr>))) = Some s3"
      "heap_inv {} s3" "used_blocks s3 = used_blocks s2" "map d_lock (descs s3) = map d_lock (descs s2)" "keeps s2 s3" by auto
    have len: "length (descs s3) = length (descs s2)" using s3(4) by (metis length_map)
    then have "d_lock (descs s3 ! e) = d_lock (descs s2 ! e)" if "e < length (descs s2)" for e using s3(4) that by (metis nth_map)
    then have "only_locked (Some d) s3" using s2(6) len by (simp add: only_locked_def)
    from release_ok[OF s3(2) this] d s2(5) len obtain s' where s': "desc_release d s3 = Some s'" "malloc_ok s'"
      "used_blocks s' = used_blocks s3" "pal s' = pal s3" by metis
    have "free_block p s = Some s'" using fr True eq s3(1) s'(1) by simp
    moreover have "keeps s s'" using k s3(3,5) s'(3,4) by (simp add: keeps_def)
    ultimately show ?thesis using s'(2,3) s3(3) us2 by auto
  qed
qed

lemma free_spec:
  assumes ok: "malloc_ok s" and u: "(p, z) \<in> used_blocks s"
  shows "\<exists>s'. free_block p s = Some s' \<and> malloc_ok s' \<and> used_blocks s' = used_blocks s - {(p, z)} \<and> keeps s s'"
  using u
proof (cases rule: used_block_cases)
  case (small a ar d i)
  then show ?thesis using free_small[OF ok small(1-3)] by simp
next
  case (big a ar)
  have inv: "heap_inv {} s" using ok by (simp add: malloc_ok_def)
  note bb = big_block[OF inv big(1,2)]
  obtain q where q: "palloc_free_multiple a (free_cnt ar) (pal s) = Some q"
    "heap_inv {} (s\<lparr>pal := q, arenas := (arenas s)(a := None)\<rparr>)"
    "used_blocks (s\<lparr>pal := q, arenas := (arenas s)(a := None)\<rparr>) = used_blocks s - {(p, z)}"
    "keeps s (s\<lparr>pal := q, arenas := (arenas s)(a := None)\<rparr>)" using drop_big[OF inv big(1,2)] big(3,4) by auto
  then have "free_block p s = Some (s\<lparr>pal := q, arenas := (arenas s)(a := None)\<rparr>)" using bb(2,3) big(2,3) by (simp add: free_block_def)
  then show ?thesis using q ok by (auto simp: malloc_ok_def)
qed

section \<open>The contract\<close>

text \<open>The allocator of blocks is an extent allocator whose units are its blocks; a client learns the size of the block it got.\<close>

definition get_block :: "u32 \<Rightarrow> malloc_state \<Rightarrow> ((u32 \<times> u32) option \<times> malloc_state) option" where
  "get_block z s = Option.bind (malloc z s) (\<lambda>(p, s).
     if p = 0 then Some (None, s) else Option.bind (block_size p s) (\<lambda>z. Some (Some (p, z), s)))"

definition give_block :: "u32 \<times> u32 \<Rightarrow> malloc_state \<Rightarrow> malloc_state option" where
  "give_block b s = free_block (fst b) s"

definition fits :: "u32 \<Rightarrow> bool" where "fits z \<longleftrightarrow> unat z + 12 + 4095 < 2 ^ 32"

lemma get_block_spec:
  assumes "malloc_ok s" "fits r"
  shows "\<exists>res s'. get_block r s = Some (res, s') \<and> malloc_ok s' \<and>
    (case res of None \<Rightarrow> used_blocks s' = used_blocks s
     | Some e \<Rightarrow> r \<le> snd e \<and> e \<notin> used_blocks s \<and> used_blocks s' = insert e (used_blocks s))"
proof -
  obtain p s' where m: "malloc r s = Some (p, s')" "got r s p s'" using malloc_spec[OF assms(1) assms(2)[unfolded fits_def]] by blast
  then have ok: "malloc_ok s'" "heap_inv {} s'" by (simp_all add: got_def malloc_ok_def)
  show ?thesis
  proof (cases "p = 0")
    case True
    then show ?thesis using m ok by (auto simp: get_block_def got_def)
  next
    case False
    then obtain z' where z: "r \<le> z'" "(p, z') \<notin> used_blocks s" "used_blocks s' = insert (p, z') (used_blocks s)"
      using m(2) by (auto simp: got_def)
    then have "block_size p s' = Some z'" using used_block(3)[OF ok(2)] by simp
    then show ?thesis using m ok z False by (auto simp: get_block_def)
  qed
qed

interpretation blocks: extent_allocator malloc_ok used_blocks "\<lambda>_ _. True" "\<lambda>_ b. {b}" fits get_block give_block "\<lambda>_ _. True"
proof unfold_locales
  fix s r assume "malloc_ok s" "fits r"
  then show "\<exists>res s'. get_block r s = Some (res, s') \<and> malloc_ok s' \<and> True \<and>
      (case res of None \<Rightarrow> used_blocks s' = used_blocks s
       | Some e \<Rightarrow> True \<and> {e} \<inter> used_blocks s = {} \<and> used_blocks s' = used_blocks s \<union> {e})"
    using get_block_spec[of s r] by (fastforce split: option.splits)
next
  fix s and e :: "u32 \<times> u32" assume "malloc_ok s" "{e} \<subseteq> used_blocks s"
  then show "\<exists>s'. give_block e s = Some s' \<and> malloc_ok s' \<and> True \<and> used_blocks s' = used_blocks s - {e}"
    using free_spec[of s "fst e" "snd e"] by (auto simp: give_block_def)
qed auto

lemma malloc_init_eq:
  "malloc_init p = Some \<lparr>pal = p, descs = map (\<lambda>(z, n). \<lparr>block_sz = z, blocks_per_arena = n, free_list = [], d_lock = False\<rparr>) sizes,
     arenas = Map.empty\<rparr>"
proof -
  have "malloc_init_loop 16 [] = Some (map (\<lambda>(z, n). \<lparr>block_sz = z, blocks_per_arena = n, free_list = [], d_lock = False\<rparr>) sizes)"
    by (simp add: malloc_init_loop.simps sizes_def sizeof_arena_def)
  then show ?thesis by (simp add: malloc_init_def)
qed

lemma malloc_init_spec:
  assumes "palloc_ok p"
  shows "\<exists>s. malloc_init p = Some s \<and> malloc_ok s \<and> used_blocks s = {} \<and> pal s = p"
  using assms
  by (auto simp: malloc_init_eq malloc_ok_def heap_inv_def shape_def used_blocks_def case_prod_beta comp_def)

text \<open>\<^verbatim>\<open>realloc\<close> to a bigger or smaller block.\<close>

lemma realloc_spec:
  assumes ok: "malloc_ok s" and u: "(p, z) \<in> used_blocks s" and n: "n \<noteq> 0" "fits n"
  shows "\<exists>q s'. realloc p n s = Some (q, s') \<and> malloc_ok s' \<and>
    (if q = 0 then used_blocks s' = used_blocks s \<and> page_mem (pal s') = page_mem (pal s)
     else \<exists>z'. n \<le> z' \<and> used_blocks s' = insert (q, z') (used_blocks s - {(p, z)}) \<and>
       (\<forall>i. i < unat n \<and> i < unat z \<longrightarrow> page_mem (pal s') (q + of_nat i) = page_mem (pal s) (p + of_nat i)))"
proof -
  obtain q s1 where m: "malloc n s = Some (q, s1)" "got n s q s1" using malloc_spec[OF ok n(2)[unfolded fits_def]] by blast
  have ok1: "malloc_ok s1" "heap_inv {} s1" "page_mem (pal s1) = page_mem (pal s)" using m(2) by (simp_all add: got_def malloc_ok_def)
  have p0: "p \<noteq> 0" using used_block(2)[of "{}" s, OF _ u] ok by (simp add: malloc_ok_def)
  show ?thesis
  proof (cases "q = 0")
    case True
    then show ?thesis using m ok1 n by (auto simp: realloc_def got_def)
  next
    case False
    then obtain z' where z: "n \<le> z'" "(q, z') \<notin> used_blocks s" "used_blocks s1 = insert (q, z') (used_blocks s)"
      using m(2) by (auto simp: got_def)
    have us: "(p, z) \<in> used_blocks s1" "(q, z') \<in> used_blocks s1" "(p, z) \<noteq> (q, z')" using z u by auto
    define k where "k = (if n < z then n else z)"
    have k: "unat k = min (unat n) (unat z)" "unat k \<le> unat z'" using z(1) by (auto simp: k_def word_le_nat_alt word_less_nat_alt)
    have apart: "block_bytes (p, z) \<inter> block_bytes (q, z') = {}" by (rule blocks_apart[OF ok1(2) us])
    have "unat n \<noteq> 0" using n(1) by (simp add: unat_eq_0)
    then have "unat q \<in> block_bytes (q, z')" using z(1) by (simp add: block_bytes_def word_le_nat_alt)
    then have "unat q \<notin> {unat p ..< unat p + unat z}" using apart by (auto simp: block_bytes_def)
    then have "\<not> unat (q - p) < unat z" unfolding near_iff[OF block_range[OF ok1(2) us(1)]] .
    then have far: "unat k \<le> unat (q - p)" using k(1) by simp
    define mm where "mm = write_bytes (page_mem (pal s)) q (bytes_at (page_mem (pal s)) p (unat k))"
    define s2 where "s2 = s1\<lparr>pal := (pal s1)\<lparr>page_mem := mm\<rparr>\<rparr>"
    have ok2: "malloc_ok s2" "used_blocks s2 = used_blocks s1" using ok1(1) by (simp_all add: s2_def malloc_ok_fill used_fill)
    obtain s3 where s3: "free_block p s2 = Some s3" "malloc_ok s3" "used_blocks s3 = used_blocks s2 - {(p, z)}" "keeps s2 s3"
      using free_spec[OF ok2(1), of p z] us(1) ok2(2) by auto
    have mc: "memcpy q p k (page_mem (pal s1)) = Some (q, mm)"
      using False p0 far ok1(3) by (simp add: memcpy_def memcpy_loop_up memmove_up_eq mm_def)
    have re: "realloc p n s = Some (q, s3)"
      using n(1) m(1) False p0 used_block(3)[OF ok1(2) us(1)] mc s3(1) by (simp add: realloc_def Let_def k_def s2_def)
    have us3: "used_blocks s3 = insert (q, z') (used_blocks s - {(p, z)})" using s3(3) ok2(2) z(3) us(3) by auto
    have "page_mem (pal s3) (q + of_nat i) = page_mem (pal s) (p + of_nat i)" if i: "i < unat n" "i < unat z" for i
    proof -
      have ik: "i < unat k" using i k(1) by simp
      have "i < 2 ^ 32" using i(1) unat_bound[of n] by simp
      then have ui: "unat (q + of_nat i - q) = i" by (simp add: unat_of_nat)
      have "unat (q + of_nat i - q) < unat z'" using ui ik k(2) by simp
      then have "unat (q + of_nat i) \<in> block_bytes (q, z')"
        unfolding near_iff[OF block_range[OF ok1(2) us(2)]] by (simp add: block_bytes_def)
      moreover have "(q, z') \<in> used_blocks s3" by (simp add: us3)
      ultimately have "page_mem (pal s3) (q + of_nat i) = mm (q + of_nat i)"
        using s3(4) unfolding keeps_def by (force simp: s2_def)
      then show ?thesis using ui ik by (simp add: mm_def write_bytes_def bytes_at_def)
    qed
    then show ?thesis using re s3(2) us3 z(1) False by auto
  qed
qed

section \<open>Properties\<close>

text \<open>C19. From \<^verbatim>\<open>malloc_init\<close> on, no sequence of calls of \<^verbatim>\<open>malloc\<close> and \<^verbatim>\<open>free\<close> panics, and at its end the blocks that the
  caller holds have no byte in common and none holds fewer bytes than \<^verbatim>\<open>block_size\<close> says (requests up to \<open>2\<^sup>32 - 4108\<close> bytes).\<close>

theorem malloc_blocks_never_overlap:
  assumes "palloc_ok p" "\<And>r. Alloc r \<in> set qs \<Longrightarrow> unat r + 12 + 4095 < 2 ^ 32"
  shows "\<exists>s live s'. malloc_init p = Some s \<and> serve get_block give_block qs [] s = Some (live, s') \<and>
    sorted_wrt (\<lambda>b b'. block_bytes b \<inter> block_bytes b' = {}) live \<and>
    (\<forall>b \<in> set live. fst b \<noteq> 0 \<and> block_size (fst b) s' = Some (snd b))"
proof -
  obtain s where s: "malloc_init p = Some s" "malloc_ok s" "used_blocks s = {}" using malloc_init_spec[OF assms(1)] by blast
  have "blocks.holds [] {} s" using s by (simp add: blocks.holds_def)
  then obtain live s' where r: "serve get_block give_block qs [] s = Some (live, s')" "blocks.holds live {} s'"
    using blocks.serve_holds[of "[]" "{}" s qs] assms(2) by (auto simp: fits_def)
  then have h: "heap_inv {} s'" "sorted_wrt (\<lambda>e f. {e} \<inter> {f} = {}) live" "used_blocks s' = set live"
    by (simp_all add: blocks.holds_def malloc_ok_def)
  have "sorted_wrt (\<lambda>b b'. block_bytes b \<inter> block_bytes b' = {}) live"
    by (rule sorted_wrt_mono_rel[OF _ h(2)]) (use blocks_apart[OF h(1)] h(3) in blast)
  moreover have "fst b \<noteq> 0 \<and> block_size (fst b) s' = Some (snd b)" if "b \<in> set live" for b
    using used_block(2,3)[OF h(1), of "fst b" "snd b"] that h(3) by simp
  ultimately show ?thesis using s(1) r(1) by blast
qed

definition heap_pools :: palloc where
  "heap_pools = \<lparr>kernel_pool = \<lparr>pool_lock = False, used_map = \<lparr>bit_cnt = 3, bits = [0]\<rparr>, base = 0xc0100000\<rparr>,
     user_pool = \<lparr>pool_lock = False, used_map = \<lparr>bit_cnt = 0, bits = []\<rparr>, base = 0xc0200000\<rparr>, page_mem = (\<lambda>_. 0)\<rparr>"

lemma heap_pools_ok: "palloc_ok heap_pools"
  by (simp add: heap_pools_def palloc_ok_def pool_ok_def bitmap_ok_def)

lemma malloc_blocks_never_overlap_witness:
  "\<exists>s live s'. malloc_init heap_pools = Some s \<and>
    serve get_block give_block [Alloc 100, Alloc 20, Free 0, Alloc 5000] [] s = Some (live, s') \<and>
    sorted_wrt (\<lambda>b b'. block_bytes b \<inter> block_bytes b' = {}) live \<and>
    (\<forall>b \<in> set live. fst b \<noteq> 0 \<and> block_size (fst b) s' = Some (snd b))"
  by (rule malloc_blocks_never_overlap[OF heap_pools_ok]) auto

text \<open>C20. \<^verbatim>\<open>realloc\<close> of a block in use, to a size that is not 0 and at most \<open>2\<^sup>32 - 4108\<close> bytes, never panics; it either fails, leaving all blocks as
  they were, or returns a block of at least the size asked for that holds the old contents up to the smaller of the two sizes, and has freed the old block and
  no other. Beyond that bound the size of the block wraps (\<open>malloc_wraps\<close>).\<close>

theorem realloc_keeps_contents:
  assumes "malloc_ok s" "(p, z) \<in> used_blocks s" "n \<noteq> 0" "unat n + 12 + 4095 < 2 ^ 32"
  shows "\<exists>q s'. realloc p n s = Some (q, s') \<and> malloc_ok s' \<and>
    (if q = 0 then used_blocks s' = used_blocks s \<and> page_mem (pal s') = page_mem (pal s)
     else \<exists>z'. n \<le> z' \<and> used_blocks s' = insert (q, z') (used_blocks s - {(p, z)}) \<and>
       (\<forall>i. i < unat n \<and> i < unat z \<longrightarrow> page_mem (pal s') (q + of_nat i) = page_mem (pal s) (p + of_nat i)))"
  using realloc_spec[OF assms(1-3)] assms(4) by (simp only: fits_def)

definition one_block :: "(u32 \<times> malloc_state) option" where
  "one_block = Option.bind (malloc_init heap_pools) (malloc 5000)"

lemma one_block_got: "map_option fst one_block = Some 0xc010000c"
proof -
  have "first_run (bits_of (used_map (pool_of False heap_pools))) 0 (unat (2 :: u32)) False = Some 0" by code_simp
  then obtain a p where a: "palloc_get_multiple 0 2 heap_pools = Some (a, p)" "unat a = 3222274048"
    using palloc_get_multiple_eq[OF heap_pools_ok, of 2 False 0 "pool_of False heap_pools"]
    by (auto simp: pool_of_def) (auto simp: heap_pools_def)
  then have "unat a = unat (0xc0100000 :: u32)" by simp
  then have "a = 0xc0100000" by (simp only: word_unat_eq_iff)
  then show ?thesis using a(1)
    by (simp add: one_block_def malloc_init_eq malloc_def malloc_big_def sizes_def sizeof_arena_def)
qed

lemma realloc_keeps_contents_witness:
  "\<exists>s z q s'. (0xc010000c, z) \<in> used_blocks s \<and> realloc 0xc010000c 20 s = Some (q, s') \<and> malloc_ok s'"
proof -
  obtain s0 where s0: "malloc_init heap_pools = Some s0" "malloc_ok s0" using malloc_init_spec[OF heap_pools_ok] by blast
  then obtain p s where m: "malloc 5000 s0 = Some (p, s)" "got 5000 s0 p s" using malloc_spec[of s0 5000] by auto
  then have p: "p = 0xc010000c" using one_block_got s0(1) by (simp add: one_block_def)
  then obtain z where "(0xc010000c, z) \<in> used_blocks s" "malloc_ok s" using m(2) by (auto simp: got_def)
  then show ?thesis using realloc_keeps_contents[of s "0xc010000c" z 20] by auto
qed

text \<open>Two requests that no heap can satisfy: the check of \<^verbatim>\<open>calloc\<close> misses products that wrap past both factors, and the
  size of a big block wraps when the header is added.\<close>

lemma calloc_wraps: "calloc 0x10001 0x10001 s = calloc 0x20001 1 s"
proof -
  have "(0x10001 :: u32) * 0x10001 = 0x20001 * 1" by simp
  then show ?thesis unfolding calloc_def by (simp only:) simp
qed

lemma malloc_wraps:
  assumes "malloc_ok s"
  shows "malloc 0xffffffff s = Option.bind (palloc_get_multiple 0 1 (pal s)) (\<lambda>(a, p).
    if a = 0 then Some (0, s\<lparr>pal := p\<rparr>)
    else Some (a + 12, s\<lparr>pal := p, arenas := (arenas s)(a \<mapsto> \<lparr>arena_magic = ARENA_MAGIC, arena_desc = None, free_cnt = 1\<rparr>)\<rparr>))"
proof -
  have sh: "shape s" using assms by (simp add: malloc_ok_def heap_inv_def)
  have "\<not> find_desc 0xffffffff (descs s) < length (descs s)"
  proof
    assume f: "find_desc 0xffffffff (descs s) < length (descs s)"
    show False using find_desc_fits[OF f] shape_desc(2)[OF sh f] by (simp add: word_le_nat_alt)
  qed
  then have "find_desc 0xffffffff (descs s) = length (descs s)" using find_desc_le[of "0xffffffff" "descs s"] by simp
  then show ?thesis by (simp add: malloc_def malloc_big_def Let_def sizeof_arena_def case_prod_beta cong: if_cong)
qed

end
