(* ===== verification/Intq.thy ===== *)
theory Intq
  imports Kernel_Steps Fifo
begin

text \<open>
  The interrupt queues of the drivers, after \<^verbatim>\<open>devices/intq.c\<close>: a circular buffer of bytes that one thread may wait on
  at each end. The calls run with interrupts off, so a call is atomic up to the points where its thread is blocked: the
  loops that wait are cut there, into the pieces of \<open>intq_pc\<close>. A piece works on the queue together with the kernel.
\<close>

section \<open>Definitions\<close>

definition INTQ_BUFSIZE :: int where "INTQ_BUFSIZE = 64"

record intq =
  q_lock :: lock
  not_full :: tptr
  not_empty :: tptr
  buf :: "u8 list"
  head :: int
  tail :: int

datatype waiter = Not_full | Not_empty

definition next_pos :: "int \<Rightarrow> int" where "next_pos pos = (pos + 1) mod INTQ_BUFSIZE"

definition intq_init :: "intq \<Rightarrow> kernel \<Rightarrow> intq \<times> kernel" where
  "intq_init q k = (q\<lparr>not_full := 0, not_empty := 0, head := 0, tail := 0\<rparr>, lock_init (q_lock q) k)"

definition intq_empty :: "intq \<Rightarrow> kernel \<Rightarrow> bool option" where
  "intq_empty q k = ASSERT (intr_get_level k = INTR_OFF) (Some (head q = tail q))"

definition intq_full :: "intq \<Rightarrow> kernel \<Rightarrow> bool option" where
  "intq_full q k = ASSERT (intr_get_level k = INTR_OFF) (Some (next_pos (head q) = tail q))"

definition get_waiter :: "waiter \<Rightarrow> intq \<Rightarrow> tptr" where
  "get_waiter w q = (case w of Not_full \<Rightarrow> not_full q | Not_empty \<Rightarrow> not_empty q)"

definition set_waiter :: "waiter \<Rightarrow> tptr \<Rightarrow> intq \<Rightarrow> intq" where
  "set_waiter w t q = (case w of Not_full \<Rightarrow> q\<lparr>not_full := t\<rparr> | Not_empty \<Rightarrow> q\<lparr>not_empty := t\<rparr>)"

definition intq_wait :: "waiter \<Rightarrow> intq \<times> kernel \<Rightarrow> (intq \<times> kernel) option" where
  "intq_wait w = (\<lambda>(q, k).
     ASSERT (\<not> intr_context k) (
     ASSERT (intr_get_level k = INTR_OFF) (
     Option.bind (case w of Not_empty \<Rightarrow> intq_empty q k | Not_full \<Rightarrow> intq_full q k) (\<lambda>c.
     ASSERT c (
     Option.bind (thread_current k) (\<lambda>cur.
     let q = set_waiter w cur q in
     Option.bind (thread_block k) (\<lambda>k. Some (q, k))))))))"

definition intq_signal :: "waiter \<Rightarrow> intq \<times> kernel \<Rightarrow> (intq \<times> kernel) option" where
  "intq_signal w = (\<lambda>(q, k).
     ASSERT (intr_get_level k = INTR_OFF) (
     Option.bind (case w of Not_empty \<Rightarrow> intq_empty q k | Not_full \<Rightarrow> intq_full q k) (\<lambda>c.
     ASSERT (\<not> c) (
     if get_waiter w q \<noteq> 0
     then Option.bind (thread_unblock (get_waiter w q) k) (\<lambda>k. Some (set_waiter w 0 q, k))
     else Some (q, k)))))"

text \<open>The pieces of a call: the test of its loop and what follows the loop, the wait once the lock is held, and the release of
  the lock after the wait. \<open>Goes_on\<close> names the piece that the thread runs next, when the kernel has served the lock
  or waked the thread.\<close>

datatype intq_pc = Test | Wait | Unlock

datatype 'a outcome = Returns 'a | Goes_on intq_pc

definition intq_getc :: "intq_pc \<Rightarrow> intq \<times> kernel \<Rightarrow> (u8 outcome \<times> intq \<times> kernel) option" where
  "intq_getc pc = (\<lambda>(q, k).
     case pc of
       Test \<Rightarrow>
         ASSERT (intr_get_level k = INTR_OFF) (
         Option.bind (intq_empty q k) (\<lambda>empty.
         if empty then
           ASSERT (\<not> intr_context k) (
           Option.bind (lock_acquire (q_lock q) k) (\<lambda>k. Some (Goes_on Wait, q, k)))
         else
           Option.bind (lookup_at (buf q) (nat (tail q))) (\<lambda>byte.
           Option.bind (intq_signal Not_full (q\<lparr>tail := next_pos (tail q)\<rparr>, k)) (\<lambda>qk. Some (Returns byte, qk)))))
     | Wait \<Rightarrow> Option.bind (intq_wait Not_empty (q, k)) (\<lambda>qk. Some (Goes_on Unlock, qk))
     | Unlock \<Rightarrow> Option.bind (lock_release (q_lock q) k) (\<lambda>k. Some (Goes_on Test, q, k)))"

definition intq_putc :: "u8 \<Rightarrow> intq_pc \<Rightarrow> intq \<times> kernel \<Rightarrow> (unit outcome \<times> intq \<times> kernel) option" where
  "intq_putc byte pc = (\<lambda>(q, k).
     case pc of
       Test \<Rightarrow>
         ASSERT (intr_get_level k = INTR_OFF) (
         Option.bind (intq_full q k) (\<lambda>full.
         if full then
           ASSERT (\<not> intr_context k) (
           Option.bind (lock_acquire (q_lock q) k) (\<lambda>k. Some (Goes_on Wait, q, k)))
         else
           ASSERT (nat (head q) < length (buf q)) (
           Option.bind (intq_signal Not_empty (q\<lparr>buf := (buf q)[nat (head q) := byte], head := next_pos (head q)\<rparr>, k))
             (\<lambda>qk. Some (Returns (), qk)))))
     | Wait \<Rightarrow> Option.bind (intq_wait Not_full (q, k)) (\<lambda>qk. Some (Goes_on Unlock, qk))
     | Unlock \<Rightarrow> Option.bind (lock_release (q_lock q) k) (\<lambda>k. Some (Goes_on Test, q, k)))"


section \<open>The contents of the buffer\<close>

definition count :: "intq \<Rightarrow> nat" where "count q = nat ((head q - tail q) mod 64)"

definition contents :: "intq \<Rightarrow> u8 list" where
  "contents q = map (\<lambda>i. buf q ! nat ((tail q + int i) mod 64)) [0..<count q]"

definition ring_ok :: "intq \<Rightarrow> bool" where
  "ring_ok q \<longleftrightarrow> length (buf q) = 64 \<and> 0 \<le> head q \<and> head q < 64 \<and> 0 \<le> tail q \<and> tail q < 64"

lemma length_contents [simp]: "length (contents q) = count q"
  by (simp add: contents_def)

lemma contents_cong: "buf q' = buf q \<Longrightarrow> head q' = head q \<Longrightarrow> tail q' = tail q \<Longrightarrow> contents q' = contents q"
  by (simp add: contents_def count_def)

lemma count_eq: "ring_ok q \<Longrightarrow> count q = nat (if tail q \<le> head q then head q - tail q else head q - tail q + 64)"
  using mod_pos_pos_trivial[of "head q - tail q" 64] mod_pos_pos_trivial[of "head q - tail q + 64" 64]
  by (auto simp: ring_ok_def count_def)

lemma next_pos_eq: "0 \<le> p \<Longrightarrow> p < 64 \<Longrightarrow> next_pos p = (if p = 63 then 0 else p + 1)"
  by (auto simp: next_pos_def INTQ_BUFSIZE_def)

lemma ring_nextD: "ring_ok q \<Longrightarrow> next_pos (head q) = (if head q = 63 then 0 else head q + 1)"
  "ring_ok q \<Longrightarrow> next_pos (tail q) = (if tail q = 63 then 0 else tail q + 1)"
  by (simp_all add: next_pos_eq ring_ok_def)

lemma ring_empty: "ring_ok q \<Longrightarrow> head q = tail q \<longleftrightarrow> count q = 0"
  by (auto simp: count_eq ring_ok_def)

lemma ring_full: "ring_ok q \<Longrightarrow> next_pos (head q) = tail q \<longleftrightarrow> count q = 63"
  by (auto simp: count_eq ring_nextD) (auto simp: ring_ok_def)

lemma ring_take:
  assumes ok: "ring_ok q" and ne: "head q \<noteq> tail q"
  shows "ring_ok (q\<lparr>tail := next_pos (tail q)\<rparr>)" "contents q = buf q ! nat (tail q) # contents (q\<lparr>tail := next_pos (tail q)\<rparr>)"
    "count (q\<lparr>tail := next_pos (tail q)\<rparr>) < 63"
proof -
  show r: "ring_ok (q\<lparr>tail := next_pos (tail q)\<rparr>)" using ok by (simp add: ring_ok_def next_pos_def INTQ_BUFSIZE_def)
  have c: "count q = Suc (count (q\<lparr>tail := next_pos (tail q)\<rparr>))"
    using ok ne unfolding count_eq[OF ok] count_eq[OF r] by (auto simp: ring_nextD ring_ok_def next_pos_eq split: if_splits)
  moreover have "count q < 64" by (simp add: count_def nat_less_iff)
  ultimately show "count (q\<lparr>tail := next_pos (tail q)\<rparr>) < 63" by simp
  have "(tail q + int (Suc i)) mod 64 = (next_pos (tail q) + int i) mod 64" for i
    unfolding next_pos_def INTQ_BUFSIZE_def by (metis add.assoc add.commute mod_add_left_eq of_nat_Suc)
  moreover have "tail q mod 64 = tail q" using ok by (simp add: ring_ok_def)
  ultimately show "contents q = buf q ! nat (tail q) # contents (q\<lparr>tail := next_pos (tail q)\<rparr>)"
    unfolding contents_def c map_upt_Suc by simp
qed

lemma ring_add:
  assumes ok: "ring_ok q" and nf: "next_pos (head q) \<noteq> tail q"
    and q': "q' = q\<lparr>buf := (buf q)[nat (head q) := b], head := next_pos (head q)\<rparr>"
  shows "ring_ok q'" "contents q' = contents q @ [b]" "head q' \<noteq> tail q'"
proof -
  show r: "ring_ok q'" using ok by (simp add: q' ring_ok_def next_pos_def INTQ_BUFSIZE_def)
  show "head q' \<noteq> tail q'" using nf by (simp add: q')
  have c: "count q' = Suc (count q)"
    using ok nf unfolding count_eq[OF ok] count_eq[OF r] unfolding q' by (auto simp: ring_ok_def next_pos_eq split: if_splits)
  have h: "(tail q + int (count q)) mod 64 = head q"
  proof -
    have "int (count q) = (head q - tail q) mod 64" by (simp add: count_def)
    then have "(tail q + int (count q)) mod 64 = head q mod 64" by (simp add: mod_add_right_eq)
    then show ?thesis using ok by (simp add: ring_ok_def)
  qed
  have "(buf q)[nat (head q) := b] ! nat ((tail q + int i) mod 64) = buf q ! nat ((tail q + int i) mod 64)" if "i < count q" for i
  proof -
    have "count q < 64" by (simp add: count_def nat_less_iff)
    then have "(tail q + int i) mod 64 \<noteq> (tail q + int (count q)) mod 64" using that mod_eq_dvd_iff[of "tail q + int i" 64 "tail q + int (count q)"] zdvd_not_zless[of "int (count q) - int i" 64]
      by (auto simp: dvd_diff_commute)
    then have "nat ((tail q + int i) mod 64) \<noteq> nat (head q)" using h ok by (simp add: ring_ok_def)
    then show ?thesis by simp
  qed
  moreover have "(buf q)[nat (head q) := b] ! nat (head q) = b" using ok by (simp add: ring_ok_def nat_less_iff)
  ultimately show "contents q' = contents q @ [b]"
    unfolding contents_def c using h by (simp add: q')
qed

section \<open>Waking the waiting thread\<close>

definition wakeable :: "kernel \<Rightarrow> tptr \<Rightarrow> bool" where
  "wakeable k t \<longleftrightarrow> is_thread k t \<and> status_of k t = Some THREAD_BLOCKED"

text \<open>The state in which the calls are made: interrupts off, and whoever waits is blocked and waits for one thing only.\<close>

definition intq_ok :: "intq \<times> kernel \<Rightarrow> bool" where
  "intq_ok = (\<lambda>(q, k). ring_ok q \<and> intr k = INTR_OFF \<and> active_sched_policy k = SCHED_FIFO \<and>
     (not_full q \<noteq> 0 \<longrightarrow> wakeable k (not_full q)) \<and> (not_empty q \<noteq> 0 \<longrightarrow> wakeable k (not_empty q)) \<and>
     (not_full q = not_empty q \<longrightarrow> not_full q = 0))"

lemma wake_eq:
  assumes "intr k = INTR_OFF" "active_sched_policy k = SCHED_FIFO" "wakeable k t"
  shows "thread_unblock t k = Some (set_status t THREAD_READY (k\<lparr>fifo_ready_list := fifo_ready_list k @ [t]\<rparr>))"
proof -
  have "intr_disable k = k" using assms(1) by (cases k) (simp add: intr_disable_def)
  moreover have "intr_disable (set_status t THREAD_READY (k\<lparr>fifo_ready_list := fifo_ready_list k @ [t]\<rparr>)) =
      set_status t THREAD_READY (k\<lparr>fifo_ready_list := fifo_ready_list k @ [t]\<rparr>)"
    using assms(1) by (cases k) (simp add: intr_disable_def upd_def)
  ultimately show ?thesis
    using assms by (simp add: thread_unblock_def thread_enqueue_def intr_get_level_def intr_set_level_def Let_def wakeable_def)
qed

lemma wakeable_other:
  "t' \<noteq> t \<Longrightarrow> wakeable (set_status t st (k\<lparr>fifo_ready_list := ts\<rparr>)) t' \<longleftrightarrow> wakeable k t'"
  by (simp add: wakeable_def is_thread_def status_of_def upd_def)

lemma waiter_fields [simp]:
  "get_waiter w (set_waiter w t q) = t" "w \<noteq> w' \<Longrightarrow> get_waiter w' (set_waiter w t q) = get_waiter w' q"
  "buf (set_waiter w t q) = buf q" "head (set_waiter w t q) = head q" "tail (set_waiter w t q) = tail q"
  "ring_ok (set_waiter w t q) = ring_ok q" "contents (set_waiter w t q) = contents q"
  by (auto simp: get_waiter_def set_waiter_def ring_ok_def contents_def count_def split: waiter.splits)

lemma intq_ok_iff:
  "intq_ok (q, k) \<longleftrightarrow> ring_ok q \<and> intr k = INTR_OFF \<and> active_sched_policy k = SCHED_FIFO \<and>
     (\<forall>w. get_waiter w q \<noteq> 0 \<longrightarrow> wakeable k (get_waiter w q)) \<and>
     (\<forall>w w'. get_waiter w q = get_waiter w' q \<and> w \<noteq> w' \<longrightarrow> get_waiter w q = 0)"
proof -
  have all: "(\<forall>w. P w) \<longleftrightarrow> P Not_full \<and> P Not_empty" for P by (metis waiter.exhaust)
  show ?thesis unfolding intq_ok_def all by (auto simp: get_waiter_def)
qed

text \<open>The condition that a signal announces.\<close>

definition cond_holds :: "waiter \<Rightarrow> intq \<Rightarrow> bool" where
  "cond_holds w q \<longleftrightarrow> (case w of Not_full \<Rightarrow> next_pos (head q) \<noteq> tail q | Not_empty \<Rightarrow> head q \<noteq> tail q)"

definition waked :: "tptr \<Rightarrow> kernel \<Rightarrow> kernel" where
  "waked t k = (if t = 0 then k else set_status t THREAD_READY (k\<lparr>fifo_ready_list := fifo_ready_list k @ [t]\<rparr>))"

lemma signal_eq:
  assumes ok: "intq_ok (q, k)" and c: "cond_holds w q"
  shows "intq_signal w (q, k) = Some (set_waiter w 0 q, waked (get_waiter w q) k)"
    "intq_ok (set_waiter w 0 q, waked (get_waiter w q) k)"
proof -
  have q0: "set_waiter w 0 q = q" if "get_waiter w q = 0" using that by (cases w; cases q) (simp_all add: set_waiter_def get_waiter_def)
  note ok' = ok[unfolded intq_ok_iff]
  show "intq_signal w (q, k) = Some (set_waiter w 0 q, waked (get_waiter w q) k)"
  proof (cases "get_waiter w q = 0")
    case True
    then show ?thesis using q0 ok' c
      by (cases w) (simp_all add: intq_signal_def intq_full_def intq_empty_def intr_get_level_def waked_def cond_holds_def)
  next
    case False
    then have "thread_unblock (get_waiter w q) k = Some (waked (get_waiter w q) k)" using wake_eq ok' by (simp add: waked_def)
    then show ?thesis using False ok' c
      by (cases w) (simp_all add: intq_signal_def intq_full_def intq_empty_def intr_get_level_def cond_holds_def)
  qed
  show "intq_ok (set_waiter w 0 q, waked (get_waiter w q) k)"
  proof (cases "get_waiter w q = 0")
    case False
    define t where "t = get_waiter w q"
    have w': "get_waiter w' (set_waiter w 0 q) = (if w' = w then 0 else get_waiter w' q)" for w' by simp
    have "wakeable (waked t k) (get_waiter w' q)" if "w' \<noteq> w" "get_waiter w' q \<noteq> 0" for w'
    proof -
      have "get_waiter w' q \<noteq> t" using ok' that unfolding t_def by metis
      then show ?thesis using ok' that False wakeable_other by (simp add: waked_def t_def)
    qed
    moreover have "intr (waked t k) = intr k" "active_sched_policy (waked t k) = active_sched_policy k"
      by (simp_all add: waked_def upd_def)
    ultimately show ?thesis using ok' unfolding intq_ok_iff w' t_def[symmetric] by auto
  qed (use ok q0 in \<open>simp add: waked_def\<close>)
qed

lemma getc_eq:
  assumes ok: "intq_ok (q, k)" and ne: "contents q = b # bs"
  defines "q' \<equiv> q\<lparr>tail := next_pos (tail q)\<rparr>"
  shows "intq_getc Test (q, k) = Some (Returns b, set_waiter Not_full 0 q', waked (not_full q) k)"
    "intq_ok (set_waiter Not_full 0 q', waked (not_full q) k)" "contents (set_waiter Not_full 0 q') = bs"
proof -
  have r: "ring_ok q" using ok by (simp add: intq_ok_def)
  have "count q \<noteq> 0" using arg_cong[OF ne, of length] by simp
  then have ht: "head q \<noteq> tail q" using ring_empty[OF r] by simp
  note rt = ring_take[OF r ht, folded q'_def]
  have "b # bs = buf q ! nat (tail q) # contents q'" unfolding ne[symmetric] by (rule rt(2))
  then have b: "b = buf q ! nat (tail q)" "bs = contents q'" by blast+
  have w: "get_waiter w q' = get_waiter w q" for w by (simp add: get_waiter_def q'_def split: waiter.splits)
  have "intq_ok (q', k)" using ok rt(1) unfolding intq_ok_iff w by simp
  moreover have "cond_holds Not_full q'" using ring_full[OF rt(1)] rt(3) by (simp add: cond_holds_def)
  ultimately have s: "intq_signal Not_full (q', k) = Some (set_waiter Not_full 0 q', waked (not_full q) k)"
    "intq_ok (set_waiter Not_full 0 q', waked (not_full q) k)"
    using signal_eq[of q' k Not_full] by (simp_all add: get_waiter_def q'_def)
  have "nat (tail q) < length (buf q)" "intr k = INTR_OFF" using r ok by (auto simp: ring_ok_def intq_ok_def)
  then show "intq_getc Test (q, k) = Some (Returns b, set_waiter Not_full 0 q', waked (not_full q) k)"
    using s(1) ht b(1) by (simp add: intq_getc_def intq_empty_def intr_get_level_def flip: q'_def)
  show "intq_ok (set_waiter Not_full 0 q', waked (not_full q) k)" "contents (set_waiter Not_full 0 q') = bs" using s(2) b(2) by simp_all
qed

lemma putc_eq:
  fixes b :: u8
  assumes ok: "intq_ok (q, k)" and nf: "length (contents q) < 63"
  defines "q' \<equiv> q\<lparr>buf := (buf q)[nat (head q) := b], head := next_pos (head q)\<rparr>"
  shows "intq_putc b Test (q, k) = Some (Returns (), set_waiter Not_empty 0 q', waked (not_empty q) k)"
    "intq_ok (set_waiter Not_empty 0 q', waked (not_empty q) k)" "contents (set_waiter Not_empty 0 q') = contents q @ [b]"
proof -
  have r: "ring_ok q" using ok by (simp add: intq_ok_def)
  have ht: "next_pos (head q) \<noteq> tail q" using ring_full[OF r] nf by simp
  note rt = ring_add[OF r ht q'_def[THEN meta_eq_to_obj_eq]]
  have w: "get_waiter w q' = get_waiter w q" for w by (simp add: get_waiter_def q'_def split: waiter.splits)
  have "intq_ok (q', k)" using ok rt(1) unfolding intq_ok_iff w by simp
  moreover have "cond_holds Not_empty q'" using rt(3) by (simp add: cond_holds_def)
  ultimately have s: "intq_signal Not_empty (q', k) = Some (set_waiter Not_empty 0 q', waked (not_empty q) k)"
    "intq_ok (set_waiter Not_empty 0 q', waked (not_empty q) k)"
    using signal_eq[of q' k Not_empty] by (simp_all add: get_waiter_def q'_def)
  have "nat (head q) < length (buf q)" "intr k = INTR_OFF" using r ok by (auto simp: ring_ok_def intq_ok_def)
  then show "intq_putc b Test (q, k) = Some (Returns (), set_waiter Not_empty 0 q', waked (not_empty q) k)"
    using s(1) ht by (simp add: intq_putc_def intq_full_def intr_get_level_def flip: q'_def)
  show "intq_ok (set_waiter Not_empty 0 q', waked (not_empty q) k)" "contents (set_waiter Not_empty 0 q') = contents q @ [b]"
    using s(2) rt(2) by simp_all
qed


section \<open>The contract\<close>

text \<open>Calls that do not have to wait.\<close>

definition put_now :: "u8 \<Rightarrow> intq \<times> kernel \<Rightarrow> (intq \<times> kernel) option" where
  "put_now b qk = Option.bind (intq_putc b Test qk) (\<lambda>(r, qk). case r of Returns _ \<Rightarrow> Some qk | Goes_on _ \<Rightarrow> None)"

definition get_now :: "intq \<times> kernel \<Rightarrow> (u8 \<times> intq \<times> kernel) option" where
  "get_now qk = Option.bind (intq_getc Test qk) (\<lambda>(r, qk). case r of Returns b \<Rightarrow> Some (b, qk) | Goes_on _ \<Rightarrow> None)"

interpretation ring: fifo "\<lambda>qk bs. intq_ok qk \<and> contents (fst qk) = bs" "\<lambda>bs _. length bs < 63" put_now get_now
proof unfold_locales
  fix qk :: "intq \<times> kernel" and xs :: "u8 list" and b :: u8
  assume "intq_ok qk \<and> contents (fst qk) = xs" "length xs < 63"
  then show "\<exists>h'. put_now b qk = Some h' \<and> intq_ok h' \<and> contents (fst h') = xs @ [b]"
    using putc_eq[of "fst qk" "snd qk" b] by (auto simp: put_now_def)
next
  fix qk :: "intq \<times> kernel" and xs :: "u8 list" and x :: u8
  assume "intq_ok qk \<and> contents (fst qk) = x # xs"
  then show "\<exists>h'. get_now qk = Some (x, h') \<and> intq_ok h' \<and> contents (fst h') = xs"
    using getc_eq[of "fst qk" "snd qk" x xs] by (auto simp: get_now_def)
qed


section \<open>Properties\<close>

text \<open>Up to 63 bytes put into an empty interrupt queue come out in the order in which they were put, without a panic or a wait,
  wherever the indices stand in the buffer and whoever waits.\<close>

lemma intq_fifo_order:
  assumes "intq_ok (q, k)" "head q = tail q" "length bs \<le> 63"
  shows "\<exists>qk1 qk2. enq_all put_now bs (q, k) = Some qk1 \<and> deq_n get_now (length bs) qk1 = Some (bs, qk2) \<and>
    intq_ok qk2 \<and> head (fst qk2) = tail (fst qk2)"
proof -
  have "ring_ok q" using assms(1) by (simp add: intq_ok_def)
  then have "contents q = []" using ring_empty[of q] assms(2) by (simp flip: length_0_conv)
  then obtain h1 h2 where h: "enq_all put_now bs (q, k) = Some h1" "deq_n get_now (length bs) h1 = Some (bs, h2)"
      "intq_ok h2" "contents (fst h2) = []"
    using ring.fifo_order[of "(q, k)" "[]" bs] assms(1,3) by auto
  then have "ring_ok (fst h2)" "count (fst h2) = 0" using length_contents[of "fst h2"] by (auto simp: intq_ok_def split: prod.splits)
  then show ?thesis using h ring_empty by blast
qed

definition sample_thread :: thread where
  "sample_thread = \<lparr>tid = 2, status = THREAD_BLOCKED, name = ''reader'', stack = 0, priority = 31, pcb = 0,
     magic = THREAD_MAGIC, kont = [], ret = False\<rparr>"

definition sample_kernel :: kernel where
  "sample_kernel = (fresh_kernel (\<lambda>_. 0))\<lparr>threads := [4096 \<mapsto> sample_thread]\<rparr>"

definition sample_intq :: intq where
  "sample_intq = \<lparr>q_lock = Lock 0, not_full = 0, not_empty = 4096, buf = replicate 64 0, head = 62, tail = 62\<rparr>"

lemma sample_intq_ok: "intq_ok (sample_intq, sample_kernel)"
  by (simp add: intq_ok_def sample_intq_def sample_kernel_def sample_thread_def fresh_kernel_def ring_ok_def wakeable_def
      is_thread_def status_of_def)

lemma intq_fifo_order_witness:
  "\<exists>qk1 qk2. enq_all put_now [1, 2, 3] (sample_intq, sample_kernel) = Some qk1 \<and>
    deq_n get_now (length [1, 2, 3 :: u8]) qk1 = Some ([1, 2, 3], qk2) \<and> intq_ok qk2 \<and> head (fst qk2) = tail (fst qk2)"
  by (rule intq_fifo_order[OF sample_intq_ok]) (simp_all add: sample_intq_def)

text \<open>The wait of \<^verbatim>\<open>intq_getc\<close> asserts that the queue is still empty, although its thread may have slept for the lock after it has
  tested the queue: a thread that finds a byte when it gets the lock panics.\<close>

lemma wait_panics:
  assumes "intq_ok (q, k)" "contents q \<noteq> []"
  shows "intq_getc Wait (q, k) = None"
proof -
  have r: "ring_ok q" using assms(1) by (simp add: intq_ok_def)
  have "count q \<noteq> 0" using assms(2) by (simp flip: length_0_conv)
  then have "head q \<noteq> tail q" using ring_empty[OF r] by simp
  then show ?thesis using assms(1) by (simp add: intq_getc_def intq_wait_def intq_empty_def intq_ok_def intr_get_level_def)
qed

text \<open>Thread \<open>t\<close> comes back from its wait: it runs again, it still holds the lock of the queue, interrupts are off, and whoever waits for
  the lock is blocked and does not wait for the queue.\<close>

definition back_from_wait :: "tptr \<Rightarrow> intq \<times> kernel \<Rightarrow> bool" where
  "back_from_wait t = (\<lambda>(q, k). intq_ok (q, k) \<and> \<not> intr_context k \<and> running_thread k = t \<and> is_thread k t \<and> status_of k t = Some THREAD_RUNNING \<and>
     holder k (q_lock q) = t \<and>
     (\<forall>u \<in> set (waiters (semas k (Lock_sema (q_lock q)))). wakeable k u \<and> (\<forall>w. u \<noteq> get_waiter w q)))"

text \<open>What follows the wait in \<^verbatim>\<open>intq_getc\<close>: the call of \<^verbatim>\<open>lock_release\<close>, the action that this leaves on the thread's stack, and the piece that
  is next.\<close>

definition after_wait :: "intq \<times> kernel \<Rightarrow> (u8 outcome \<times> intq \<times> kernel) option" where
  "after_wait qk = Option.bind (intq_getc Unlock qk) (\<lambda>(r, q, k).
     Option.bind (run_action k) (\<lambda>k. case r of Goes_on pc \<Rightarrow> intq_getc pc (q, k) | Returns b \<Rightarrow> Some (r, q, k)))"

definition released :: "lock \<Rightarrow> kernel \<Rightarrow> kernel" where
  "released l k = upd_sema (Lock_sema l) (\<lambda>m. m\<lparr>sema_value := sema_value m + 1\<rparr>)
     (case waiters (semas k (Lock_sema l)) of
        [] \<Rightarrow> k\<lparr>holder := (holder k)(l := 0)\<rparr>
      | u # us \<Rightarrow> waked u (upd_sema (Lock_sema l) (\<lambda>m. m\<lparr>waiters := us\<rparr>) (k\<lparr>holder := (holder k)(l := 0)\<rparr>)))"

lemma run_pushed:
  assumes "is_thread k (running_thread k)"
  shows "run_action (push [a] k) = exec a k"
proof -
  obtain th where th: "threads k (running_thread k) = Some th" using assms by (auto simp: is_thread_def split: option.splits)
  have "kont_of (push [a] k) (running_thread k) = a # kont th" using th by (simp add: kont_of_def push_def upd_def)
  moreover have "pop (push [a] k) = k" using th by (cases k) (auto simp: pop_def push_def upd_def fun_eq_iff)
  moreover have "running_thread (push [a] k) = running_thread k" by (simp add: push_def upd_def)
  ultimately show ?thesis by (simp add: run_action_def)
qed

lemma wakeable_waked: "u \<noteq> t \<Longrightarrow> wakeable (waked t k) u \<longleftrightarrow> wakeable k u"
  by (simp add: waked_def wakeable_other)

lemma waked_fields [simp]:
  "intr (waked t k) = intr k" "active_sched_policy (waked t k) = active_sched_policy k" "running_thread (waked t k) = running_thread k"
  "holder (waked t k) = holder k" "in_external_intr (waked t k) = in_external_intr k" "is_thread (waked t k) = is_thread k"
  "semas (waked t k) = semas k" "u \<noteq> t \<Longrightarrow> status_of (waked t k) u = status_of k u"
  by (auto simp: waked_def upd_def is_thread_def status_of_def fun_eq_iff split: option.splits)

lemma same_threads:
  assumes "threads k' = threads k"
  shows "wakeable k' = wakeable k" "is_thread k' = is_thread k" "status_of k' = status_of k"
  using assms by (simp_all add: wakeable_def is_thread_def status_of_def fun_eq_iff)

lemma unlock_eq:
  fixes q :: intq
  assumes b: "back_from_wait t (q, k)"
  defines "k2 \<equiv> released (q_lock q) k"
  shows "\<exists>k1. intq_getc Unlock (q, k) = Some (Goes_on Test, q, k1) \<and> run_action k1 = Some k2"
    "intq_ok (q, k2)" "running_thread k2 = t" "is_thread k2 t" "status_of k2 t = Some THREAD_RUNNING" "holder k2 (q_lock q) = 0" "\<not> intr_context k2"
proof -
  define l x k0 where "l = q_lock q" and "x = Lock_sema l" and "k0 = k\<lparr>holder := (holder k)(l := 0)\<rparr>"
  note b' = b[unfolded back_from_wait_def prod.case, folded l_def, folded x_def]
  note ok = b'[THEN conjunct1, unfolded intq_ok_iff]
  have th0: "threads k0 = threads k" "waiters (semas k0 x) = waiters (semas k x)" "running_thread k0 = t" by (simp_all add: k0_def b')
  have cur: "thread_current k = Some t" using b' by (simp add: thread_current_def Let_def)
  then have unlock: "intq_getc Unlock (q, k) = Some (Goes_on Test, q, push [Sema_up x] k0)"
    using b' by (simp add: intq_getc_def lock_release_def lock_held_by_current_thread_def k0_def x_def flip: l_def)
  have run: "run_action (push [Sema_up x] k0) = sema_up x k0"
    using run_pushed[of k0 "Sema_up x"] b' same_threads[OF th0(1)] th0(3) by simp
  have off: "intr_disable k0 = k0" "intr k0 = INTR_OFF" using ok by (cases k; simp add: k0_def intr_disable_def)+
  define k3 where "k3 = (case waiters (semas k x) of [] \<Rightarrow> k0 | u # us \<Rightarrow> waked u (upd_sema x (\<lambda>m. m\<lparr>waiters := us\<rparr>) k0))"
  have k2: "k2 = upd_sema x (\<lambda>m. m\<lparr>sema_value := sema_value m + 1\<rparr>) k3"
    unfolding k2_def released_def k3_def k0_def x_def l_def by (rule refl)
  have served: "(case waiters (semas k0 x) of [] \<Rightarrow> Some k0 | u # us \<Rightarrow> thread_unblock u (upd_sema x (\<lambda>m. m\<lparr>waiters := us\<rparr>) k0)) = Some k3 \<and>
      (\<forall>w. get_waiter w q \<noteq> 0 \<longrightarrow> wakeable k3 (get_waiter w q)) \<and> is_thread k3 t \<and> status_of k3 t = Some THREAD_RUNNING \<and>
      intr k3 = INTR_OFF \<and> active_sched_policy k3 = SCHED_FIFO \<and> running_thread k3 = t \<and> holder k3 l = 0 \<and> \<not> in_external_intr k3"
  proof (cases "waiters (semas k x)")
    case Nil
    then show ?thesis using b' ok off(2) same_threads[OF th0(1)] by (simp add: k3_def th0(2,3)) (simp add: k0_def intr_context_def)
  next
    case (Cons u us)
    define k4 where "k4 = upd_sema x (\<lambda>m. m\<lparr>waiters := us\<rparr>) k0"
    have th4: "threads k4 = threads k" by (simp add: k4_def upd_sema_def th0(1))
    have u: "wakeable k u" "\<And>w. u \<noteq> get_waiter w q" using b' Cons by auto
    then have "t \<noteq> u" "u \<noteq> 0" using b' by (auto simp: wakeable_def is_thread_def)
    have 4: "intr k4 = INTR_OFF" "active_sched_policy k4 = SCHED_FIFO" "running_thread k4 = t" "holder k4 l = 0" "\<not> in_external_intr k4"
      using off(2) ok b' by (simp_all add: k4_def upd_sema_def k0_def intr_context_def)
    have k3: "k3 = waked u k4" using Cons by (simp add: k3_def k4_def)
    have "thread_unblock u k4 = Some k3" using wake_eq[OF 4(1,2)] u(1) same_threads(1)[OF th4] \<open>u \<noteq> 0\<close> by (simp add: k3 waked_def)
    moreover have "wakeable k3 (get_waiter w q)" if "get_waiter w q \<noteq> 0" for w
      using that ok u(2)[of w] wakeable_waked[of "get_waiter w q" u k4] same_threads(1)[OF th4] by (simp add: k3)
    ultimately show ?thesis using 4 b' \<open>t \<noteq> u\<close> same_threads(2,3)[OF th4] Cons by (simp add: th0(2) k3 k4_def[symmetric])
  qed
  have th2: "threads k2 = threads k3" by (simp add: k2 upd_sema_def)
  have "intr k2 = INTR_OFF" using served by (simp add: k2 upd_sema_def)
  then have "intr_disable k2 = k2" by (cases k2) (simp add: intr_disable_def)
  then have "sema_up x k0 = Some k2" using served off by (simp add: sema_up_def Let_def intr_get_level_def intr_set_level_def flip: k2)
  then show "\<exists>k1. intq_getc Unlock (q, k) = Some (Goes_on Test, q, k1) \<and> run_action k1 = Some k2"
    using unlock run by simp
  show "intq_ok (q, k2)" using ok served same_threads[OF th2] unfolding intq_ok_iff by (simp add: k2 upd_sema_def)
  show "running_thread k2 = t" "is_thread k2 t" "status_of k2 t = Some THREAD_RUNNING" "holder k2 (q_lock q) = 0" "\<not> intr_context k2"
    using served same_threads[OF th2] by (simp_all add: k2 upd_sema_def intr_context_def flip: l_def)
qed

lemma after_wait_eq:
  assumes b: "back_from_wait t (q, k)"
  shows "\<exists>r qk. after_wait (q, k) = Some (r, qk) \<and> (case contents q of [] \<Rightarrow> r = Goes_on Wait | c # cs \<Rightarrow> r = Returns c \<and> contents (fst qk) = cs)"
proof -
  define k2 where "k2 = released (q_lock q) k"
  note r = unlock_eq[OF b, folded k2_def]
  obtain k1 where k1: "intq_getc Unlock (q, k) = Some (Goes_on Test, q, k1)" "run_action k1 = Some k2" using r(1) by blast
  then have a: "after_wait (q, k) = intq_getc Test (q, k2)" by (simp add: after_wait_def)
  show ?thesis
  proof (cases "contents q")
    case Nil
    have t: "t \<noteq> 0" using r(4) by (simp add: is_thread_def)
    have "ring_ok q" "intr k2 = INTR_OFF" using r(2) by (auto simp: intq_ok_def)
    then have "head q = tail q" using ring_empty[of q] Nil length_contents[of q] by simp
    moreover have "thread_current k2 = Some t" using r(3-5) by (simp add: thread_current_def Let_def)
    ultimately have "intq_getc Test (q, k2) = Some (Goes_on Wait, q, push [Sema_down (Lock_sema (q_lock q)), Set_holder (q_lock q)] k2)"
      using r(6,7) t \<open>intr k2 = INTR_OFF\<close>
      by (simp add: intq_getc_def intq_empty_def lock_acquire_def lock_held_by_current_thread_def intr_get_level_def)
    then show ?thesis using Nil a by simp
  next
    case (Cons c cs)
    then show ?thesis using getc_eq(1,3)[OF r(2) Cons] a by simp
  qed
qed

text \<open>C21. A thread that waits in \<^verbatim>\<open>intq_getc\<close> is not left waiting: the next call of \<^verbatim>\<open>intq_putc\<close> puts the byte into the queue and makes
  the thread ready, at the back of the run queue. When the thread comes back from its wait, with its lock, it releases the lock, which wakes
  the first thread that waits for it, and tests the queue again: it returns the byte that is then the first, without a panic. This is the byte that
  was put, unless other calls have changed the queue in the meantime; if one has emptied it, the thread asks for the lock to wait again.\<close>

theorem intq_putc_wakes_reader:
  assumes "intq_ok (q, k)" "head q = tail q" "not_empty q = t" "t \<noteq> 0"
  shows "\<exists>q' k'. intq_putc b Test (q, k) = Some (Returns (), q', k') \<and> contents q' = [b] \<and> not_empty q' = 0 \<and>
    status_of k' t = Some THREAD_READY \<and> fifo_ready_list k' = fifo_ready_list k @ [t] \<and> holder k' = holder k \<and>
    (\<forall>k''. back_from_wait t (q', k'') \<longrightarrow> (\<exists>q2 k2. after_wait (q', k'') = Some (Returns b, q2, k2) \<and> contents q2 = [])) \<and>
    (\<forall>q'' k''. back_from_wait t (q'', k'') \<longrightarrow> (\<exists>r qk. after_wait (q'', k'') = Some (r, qk) \<and>
       (case contents q'' of [] \<Rightarrow> r = Goes_on Wait | c # cs \<Rightarrow> r = Returns c \<and> contents (fst qk) = cs)))"
proof -
  have "ring_ok q" using assms(1) by (simp add: intq_ok_def)
  then have e: "contents q = []" using ring_empty[of q] assms(2) by (simp flip: length_0_conv)
  define q' where "q' = set_waiter Not_empty 0 (q\<lparr>buf := (buf q)[nat (head q) := b], head := next_pos (head q)\<rparr>)"
  have p: "intq_putc b Test (q, k) = Some (Returns (), q', waked t k)" "contents q' = [b]"
    using putc_eq[OF assms(1), of b] e assms(3) by (simp_all add: q'_def)
  have "not_empty q' = 0" by (simp add: q'_def set_waiter_def)
  moreover have "wakeable k t" using assms by (auto simp: intq_ok_def)
  then have "status_of (waked t k) t = Some THREAD_READY" "fifo_ready_list (waked t k) = fifo_ready_list k @ [t]"
    using assms(4) by (auto simp: waked_def status_of_def upd_def wakeable_def)
  moreover have "\<exists>q2 k2. after_wait (q', k'') = Some (Returns b, q2, k2) \<and> contents q2 = []" if "back_from_wait t (q', k'')" for k''
    using after_wait_eq[OF that] p(2) by auto
  ultimately show ?thesis using p after_wait_eq by (intro exI[of _ q'] exI[of _ "waked t k"]) simp
qed

text \<open>Two threads: the reader finds the queue empty and waits; the other puts a byte and yields; the reader returns it.\<close>

definition sleeps :: "intq \<times> kernel \<Rightarrow> (intq \<times> kernel) option" where
  "sleeps qk = Option.bind (intq_getc Test qk) (\<lambda>(r, q, k).
     Option.bind (run_actions 2 k) (\<lambda>k. case r of Goes_on pc \<Rightarrow> map_option snd (intq_getc pc (q, k)) | Returns b \<Rightarrow> None))"

definition sample_other :: thread where
  "sample_other = sample_thread\<lparr>tid := 3, status := THREAD_READY\<rparr>"

definition reader_runs :: kernel where
  "reader_runs = (fresh_kernel (\<lambda>_. 0))\<lparr>threads := [4096 \<mapsto> sample_thread\<lparr>status := THREAD_RUNNING\<rparr>, 8192 \<mapsto> sample_other],
     running_thread := 4096, fifo_ready_list := [8192]\<rparr>"

definition idle_intq :: intq where "idle_intq = sample_intq\<lparr>not_empty := 0\<rparr>"

definition other_runs :: kernel where
  "other_runs = reader_runs\<lparr>threads := [4096 \<mapsto> sample_thread, 8192 \<mapsto> sample_other\<lparr>status := THREAD_RUNNING\<rparr>],
     running_thread := 8192, fifo_ready_list := [], holder := (\<lambda>_. 0)(Lock 0 := 4096),
     semas := (semas reader_runs)(Lock_sema (Lock 0) := \<lparr>sema_value = 0, waiters = []\<rparr>)\<rparr>"

lemmas sample_defs = reader_runs_def other_runs_def sample_thread_def sample_other_def idle_intq_def sample_intq_def fresh_kernel_def

lemma sleeps_eq: "sleeps (idle_intq, reader_runs) = Some (sample_intq, other_runs)"
proof -
  have "intq_getc Test (idle_intq, reader_runs) = Some (Goes_on Wait, idle_intq, push [Sema_down (Lock_sema (Lock 0)), Set_holder (Lock 0)] reader_runs)"
    by (simp add: sample_defs intq_getc_def intq_empty_def intr_get_level_def lock_acquire_def lock_held_by_current_thread_def thread_current_def
        Let_def is_thread_def status_of_def intr_context_def)
  moreover have "run_actions 2 (push [Sema_down (Lock_sema (Lock 0)), Set_holder (Lock 0)] reader_runs) = Some (reader_runs\<lparr>holder := (\<lambda>_. 0)(Lock 0 := 4096),
     semas := (semas reader_runs)(Lock_sema (Lock 0) := \<lparr>sema_value = 0, waiters = []\<rparr>)\<rparr>)"
    by (simp add: numeral_2_eq_2 sample_defs run_action_def kont_of_def pop_def push_def upd_def sema_down_def sema_down_loop_def intr_disable_def intr_context_def Let_def
        intr_get_level_def intr_set_level_def upd_sema_def set_holder_def thread_current_def is_thread_def status_of_def fun_eq_iff)
  moreover have "intq_getc Wait (idle_intq, reader_runs\<lparr>holder := (\<lambda>_. 0)(Lock 0 := 4096),
     semas := (semas reader_runs)(Lock_sema (Lock 0) := \<lparr>sema_value = 0, waiters = []\<rparr>)\<rparr>) = Some (Goes_on Unlock, sample_intq, other_runs)"
    by (simp add: sample_defs intq_getc_def intq_wait_def intq_empty_def intr_get_level_def intr_context_def thread_current_def Let_def is_thread_def status_of_def
        set_waiter_def thread_block_def schedule_def next_thread_to_run_def thread_schedule_fifo_def thread_switch_tail_def upd_def fun_eq_iff)
  ultimately show ?thesis by (simp add: sleeps_def)
qed

lemma other_runs_ok: "intq_ok (sample_intq, other_runs)"
  by (simp add: intq_ok_def sample_defs ring_ok_def wakeable_def is_thread_def status_of_def)

lemma back_when_yields:
  assumes "intq_putc 7 Test (sample_intq, other_runs) = Some (Returns (), q, k)"
  shows "\<exists>k'. thread_yield k = Some k' \<and> back_from_wait 4096 (q, k')"
proof -
  have "contents sample_intq = []" by (simp add: contents_def count_def sample_intq_def)
  then have q: "q = sample_intq\<lparr>buf := (buf sample_intq)[62 := 7], head := 63, not_empty := 0\<rparr>" and k: "k = waked 4096 other_runs"
    using putc_eq(1)[OF other_runs_ok, of 7] assms by (simp_all add: sample_intq_def set_waiter_def next_pos_def INTQ_BUFSIZE_def)
  have "\<exists>k'. thread_yield k = Some k' \<and> intr k' = INTR_OFF \<and> active_sched_policy k' = SCHED_FIFO \<and> \<not> in_external_intr k' \<and> running_thread k' = 4096 \<and>
      is_thread k' 4096 \<and> status_of k' 4096 = Some THREAD_RUNNING \<and> holder k' (Lock 0) = 4096 \<and> waiters (semas k' (Lock_sema (Lock 0))) = []"
    by (simp add: k waked_def sample_defs thread_yield_def thread_current_def is_thread_def status_of_def Let_def intr_context_def intr_disable_def intr_get_level_def
        thread_enqueue_def schedule_def next_thread_to_run_def thread_schedule_fifo_def thread_switch_tail_def upd_def push_def)
  then show ?thesis by (auto simp: back_from_wait_def intq_ok_def intr_context_def q sample_intq_def ring_ok_def)
qed

lemma intq_putc_wakes_reader_witness:
  "\<exists>q k q' k' k'' q2 k2. sleeps (idle_intq, reader_runs) = Some (q, k) \<and> intq_putc 7 Test (q, k) = Some (Returns (), q', k') \<and>
     thread_yield k' = Some k'' \<and> after_wait (q', k'') = Some (Returns 7, q2, k2) \<and> contents q2 = []"
proof -
  obtain q' k' where p: "intq_putc 7 Test (sample_intq, other_runs) = Some (Returns (), q', k')"
    "\<And>k''. back_from_wait 4096 (q', k'') \<Longrightarrow> \<exists>q2 k2. after_wait (q', k'') = Some (Returns 7, q2, k2) \<and> contents q2 = []"
    using intq_putc_wakes_reader[OF other_runs_ok, of 4096 7] by (auto simp: sample_intq_def)
  show ?thesis using back_when_yields[OF p(1)] p sleeps_eq by blast
qed

end
