(* ===== verification/Hash.thy ===== *)
theory Hash
  imports CString List_Sort
begin

unbundle bit_operations_syntax

text \<open>
  Hash tables, after \<^verbatim>\<open>lib/kernel/hash.c\<close>. A bucket, which is a list of \<^verbatim>\<open>list.c\<close>, is the HOL
  list of its elements (\<open>Kernel_List\<close> shows that the list operations are the ones on HOL lists); an element is its
  address, of a type \<open>'a\<close>, on which the table's hash and comparison functions are functions, since the part of an element
  they look at must not change while it is in a table. Whether \<^verbatim>\<open>malloc\<close> finds memory is an
  argument of the operations that call it.
\<close>

section \<open>Definitions\<close>

record 'a hash_table =
  h_elem_cnt :: u32
  h_bucket_cnt :: u32
  h_buckets :: "'a list list"
  h_hash :: "'a \<Rightarrow> u32"
  h_less :: "'a \<Rightarrow> 'a \<Rightarrow> bool"

text \<open>The index of the bucket an element belongs in, and that bucket.\<close>

definition find_bucket :: "'a hash_table \<Rightarrow> 'a \<Rightarrow> nat" where
  "find_bucket h e = unat (h_hash h e AND (h_bucket_cnt h - 1))"

primrec find_elem :: "'a hash_table \<Rightarrow> 'a list \<Rightarrow> 'a \<Rightarrow> 'a option" where
  "find_elem h [] e = None"
| "find_elem h (hi # bucket) e =
     (if \<not> h_less h hi e \<and> \<not> h_less h e hi then Some hi else find_elem h bucket e)"

definition turn_off_least_1bit :: "u32 \<Rightarrow> u32" where "turn_off_least_1bit x = x AND (x - 1)"

definition is_power_of_2 :: "u32 \<Rightarrow> bool" where
  "is_power_of_2 x \<longleftrightarrow> x \<noteq> 0 \<and> turn_off_least_1bit x = 0"

definition MIN_ELEMS_PER_BUCKET :: u32 where "MIN_ELEMS_PER_BUCKET = 1"
definition BEST_ELEMS_PER_BUCKET :: u32 where "BEST_ELEMS_PER_BUCKET = 2"
definition MAX_ELEMS_PER_BUCKET :: u32 where "MAX_ELEMS_PER_BUCKET = 4"

text \<open>The loop that rounds the number of buckets down to a power of 2; at 0 it would not end.\<close>

partial_function (option) round_loop :: "u32 \<Rightarrow> u32 option" where
  "round_loop n = (if \<not> is_power_of_2 n then round_loop (turn_off_least_1bit n) else Some n)"

definition ideal_bucket_cnt :: "'a hash_table \<Rightarrow> u32 option" where
  "ideal_bucket_cnt h =
     (let n = h_elem_cnt h div BEST_ELEMS_PER_BUCKET in round_loop (if n < 4 then 4 else n))"

definition push_elem :: "'a hash_table \<Rightarrow> 'a \<Rightarrow> 'a hash_table" where
  "push_elem h e = (let i = find_bucket h e in
     h\<lparr>h_buckets := (h_buckets h)[i := e # h_buckets h ! i]\<rparr>)"

definition rehash :: "bool \<Rightarrow> 'a hash_table \<Rightarrow> 'a hash_table option" where
  "rehash mem_ok h =
     Option.bind (ideal_bucket_cnt h) (\<lambda>new_bucket_cnt.
     if new_bucket_cnt = h_bucket_cnt h then Some h
     else if \<not> mem_ok then Some h
     else Some (foldl (foldl push_elem)
       (h\<lparr>h_buckets := replicate (unat new_bucket_cnt) [], h_bucket_cnt := new_bucket_cnt\<rparr>) (h_buckets h)))"

definition insert_elem :: "nat \<Rightarrow> 'a \<Rightarrow> 'a hash_table \<Rightarrow> 'a hash_table" where
  "insert_elem bucket e h =
     h\<lparr>h_elem_cnt := h_elem_cnt h + 1, h_buckets := (h_buckets h)[bucket := e # h_buckets h ! bucket]\<rparr>"

text \<open>\<^verbatim>\<open>list_remove\<close> takes the element out of the list it is in.\<close>

definition remove_elem :: "'a \<Rightarrow> 'a hash_table \<Rightarrow> 'a hash_table" where
  "remove_elem e h = h\<lparr>h_elem_cnt := h_elem_cnt h - 1, h_buckets := map (remove1 e) (h_buckets h)\<rparr>"

definition hash_insert :: "bool \<Rightarrow> 'a \<Rightarrow> 'a hash_table \<Rightarrow> ('a option \<times> 'a hash_table) option" where
  "hash_insert mem_ok new h =
     (let bucket = find_bucket h new; old = find_elem h (h_buckets h ! bucket) new;
          h = (if old = None then insert_elem bucket new h else h) in
      Option.bind (rehash mem_ok h) (\<lambda>h. Some (old, h)))"

definition hash_replace :: "bool \<Rightarrow> 'a \<Rightarrow> 'a hash_table \<Rightarrow> ('a option \<times> 'a hash_table) option" where
  "hash_replace mem_ok new h =
     (let bucket = find_bucket h new; old = find_elem h (h_buckets h ! bucket) new;
          h = (case old of None \<Rightarrow> h | Some old \<Rightarrow> remove_elem old h);
          h = insert_elem bucket new h in
      Option.bind (rehash mem_ok h) (\<lambda>h. Some (old, h)))"

definition hash_find :: "'a \<Rightarrow> 'a hash_table \<Rightarrow> 'a option" where
  "hash_find e h = find_elem h (h_buckets h ! find_bucket h e) e"

definition hash_delete :: "bool \<Rightarrow> 'a \<Rightarrow> 'a hash_table \<Rightarrow> ('a option \<times> 'a hash_table) option" where
  "hash_delete mem_ok e h =
     (let found = find_elem h (h_buckets h ! find_bucket h e) e in
      case found of
        None \<Rightarrow> Some (found, h)
      | Some f \<Rightarrow> Option.bind (rehash mem_ok (remove_elem f h)) (\<lambda>h. Some (found, h)))"

text \<open>\<open>destructor\<close> and \<open>action\<close> change a state of the caller's.\<close>

definition hash_clear :: "('a \<Rightarrow> 's \<Rightarrow> 's) option \<Rightarrow> 'a hash_table \<Rightarrow> 's \<Rightarrow> 'a hash_table \<times> 's" where
  "hash_clear destructor h s =
     (h\<lparr>h_buckets := replicate (unat (h_bucket_cnt h)) [], h_elem_cnt := 0\<rparr>,
      case destructor of None \<Rightarrow> s | Some d \<Rightarrow> fold (fold d) (h_buckets h) s)"

text \<open>\<open>buckets\<close> is the memory \<^verbatim>\<open>malloc\<close> gave for the four buckets, with arbitrary contents.\<close>

definition hash_init :: "('a \<Rightarrow> u32) \<Rightarrow> ('a \<Rightarrow> 'a \<Rightarrow> bool) \<Rightarrow> 'a list list option \<Rightarrow> 'a hash_table option" where
  "hash_init hash lt buckets = (case buckets of
     None \<Rightarrow> None
   | Some bs \<Rightarrow> Some (fst (hash_clear None
       \<lparr>h_elem_cnt = 0, h_bucket_cnt = 4, h_buckets = bs, h_hash = hash, h_less = lt\<rparr> ())))"

text \<open>Destroying a table gives back the state of the caller; the buckets are freed.\<close>

definition hash_destroy :: "('a \<Rightarrow> 's \<Rightarrow> 's) option \<Rightarrow> 'a hash_table \<Rightarrow> 's \<Rightarrow> 's" where
  "hash_destroy destructor h s = (case destructor of None \<Rightarrow> s | Some d \<Rightarrow> snd (hash_clear destructor h s))"

definition hash_apply :: "('a \<Rightarrow> 's \<Rightarrow> 's) \<Rightarrow> 'a hash_table \<Rightarrow> 's \<Rightarrow> 's" where
  "hash_apply action h s = fold (fold action) (h_buckets h) s"

text \<open>An iterator is the number of a bucket and a position in it: 0 is the list's head, \<open>Suc k\<close> the \<open>k\<close>-th element or,
  after the last element, the list's end. \<open>it_pos = None\<close> is a null element.\<close>

record hash_iterator =
  it_bucket :: nat
  it_pos :: "nat option"

definition hash_first :: "'a hash_table \<Rightarrow> hash_iterator" where
  "hash_first h = \<lparr>it_bucket = 0, it_pos = Some 0\<rparr>"

definition hash_cur :: "'a hash_table \<Rightarrow> hash_iterator \<Rightarrow> 'a option" where
  "hash_cur h i = (case it_pos i of Some (Suc k) \<Rightarrow> Some (h_buckets h ! it_bucket i ! k) | _ \<Rightarrow> None)"

function hash_next_loop :: "'a hash_table \<Rightarrow> hash_iterator \<Rightarrow> hash_iterator" where
  "hash_next_loop h i =
     (if it_bucket i < unat (h_bucket_cnt h) \<and> it_pos i = Some (Suc (length (h_buckets h ! it_bucket i)))
      then if Suc (it_bucket i) \<ge> unat (h_bucket_cnt h)
           then \<lparr>it_bucket = Suc (it_bucket i), it_pos = None\<rparr>
           else hash_next_loop h \<lparr>it_bucket = Suc (it_bucket i), it_pos = Some 1\<rparr>
      else i)"
  by pat_completeness auto
termination
  by (relation "measure (\<lambda>(h, i). unat (h_bucket_cnt h) - it_bucket i)") auto

definition hash_next :: "'a hash_table \<Rightarrow> hash_iterator \<Rightarrow> (hash_iterator \<times> 'a option) option" where
  "hash_next h i = Option.bind (it_pos i) (\<lambda>k.
     let i = hash_next_loop h (i\<lparr>it_pos := Some (Suc k)\<rparr>) in Some (i, hash_cur h i))"

definition hash_size :: "'a hash_table \<Rightarrow> u32" where "hash_size h = h_elem_cnt h"

definition hash_empty :: "'a hash_table \<Rightarrow> bool" where "hash_empty h \<longleftrightarrow> h_elem_cnt h = 0"

definition FNV_32_PRIME :: u32 where "FNV_32_PRIME = 16777619"
definition FNV_32_BASIS :: u32 where "FNV_32_BASIS = 2166136261"

function hash_bytes_loop :: "u32 \<Rightarrow> u32 \<Rightarrow> u32 \<Rightarrow> mem \<Rightarrow> u32" where
  "hash_bytes_loop buf sz hash m =
     (if sz > 0 then hash_bytes_loop (buf + 1) (sz - 1) ((hash * FNV_32_PRIME) XOR ucast (m buf)) m else hash)"
  by pat_completeness auto
termination
  by (relation "measure (\<lambda>(b, n, x, m). unat n)") (auto intro: count_down)

definition hash_bytes :: "u32 \<Rightarrow> u32 \<Rightarrow> mem \<Rightarrow> u32 option" where
  "hash_bytes buf sz m = ASSERT (buf \<noteq> 0) (Some (hash_bytes_loop buf sz FNV_32_BASIS m))"

partial_function (option) hash_string_loop :: "u32 \<Rightarrow> u32 \<Rightarrow> mem \<Rightarrow> u32 option" where
  "hash_string_loop s hash m =
     (if m s \<noteq> 0 then hash_string_loop (s + 1) ((hash * FNV_32_PRIME) XOR ucast (m s)) m else Some hash)"

definition hash_string :: "u32 \<Rightarrow> mem \<Rightarrow> u32 option" where
  "hash_string s m = ASSERT (s \<noteq> 0) (hash_string_loop s FNV_32_BASIS m)"

text \<open>The four bytes of an integer, lowest first, at the address of the parameter.\<close>

definition int_bytes :: "u32 \<Rightarrow> u8 list" where
  "int_bytes i = map (\<lambda>k. ucast (drop_bit (8 * k) i)) [0..<4]"

definition hash_int :: "u32 \<Rightarrow> u32 \<Rightarrow> mem \<Rightarrow> u32 option" where
  "hash_int addr i m = hash_bytes addr 4 (write_bytes m addr (int_bytes i))"

declare hash_next_loop.simps [simp del] hash_bytes_loop.simps [simp del]


section \<open>Rounding to a power of 2\<close>

lemma turn_off_power: "k < 32 \<Longrightarrow> turn_off_least_1bit (2 ^ k) = 0"
proof -
  assume "k < 32"
  have "(2 ^ k :: u32) AND mask k = 0" by (rule bit_word_eqI) (auto simp: bit_simps)
  then show ?thesis by (simp add: turn_off_least_1bit_def mask_eq_exp_minus_1)
qed

lemma unat_exp: "k < 32 \<Longrightarrow> unat (2 ^ k :: u32) = 2 ^ k"
  using unat_of_nat[of "2 ^ k", where 'a = 32] power_strict_increasing[of k 32 "2 :: nat"] by simp

lemma unat_drop: "unat (drop_bit k (x :: u32)) = unat x div 2 ^ k"
proof -
  have "take_bit 32 (unat x) = unat x" using unat_bound[of x] by (simp add: take_bit_nat_eq_self)
  then show ?thesis by (simp add: unsigned_drop_bit_eq flip: drop_bit_eq_div)
qed

lemma turn_off_top:
  assumes "2 ^ k < unat n" "unat n < 2 ^ Suc k"
  shows "2 ^ k \<le> unat (turn_off_least_1bit n)" "turn_off_least_1bit n < n"
proof -
  have n0: "0 < n" using assms(1) by (simp add: word_less_nat_alt)
  have d: "drop_bit k x = 1" if "2 ^ k \<le> unat x" "unat x < 2 ^ Suc k" for x :: u32
  proof -
    have "unat x div 2 ^ k = 1" using that by (intro div_nat_eqI) auto
    then have "unat (drop_bit k x) = 1" by (simp only: unat_drop)
    then show ?thesis by (metis unat_1 word_unat_eq_iff)
  qed
  have "drop_bit k n = 1" "drop_bit k (n - 1) = 1" using assms unat_dec[OF n0] by (auto intro!: d)
  then have "drop_bit k (n AND (n - 1)) = 1" by simp
  then have "unat (drop_bit k (n AND (n - 1))) = 1" by (metis unat_1)
  then have "unat (n AND (n - 1)) div 2 ^ k = 1" by (simp only: unat_drop)
  then have "1 * 2 ^ k \<le> unat (n AND (n - 1))" by (metis div_times_less_eq_dividend)
  then show "2 ^ k \<le> unat (turn_off_least_1bit n)" by (simp add: turn_off_least_1bit_def)
  have "n AND (n - 1) \<le> n - 1" by (simp add: word_and_le1)
  then show "turn_off_least_1bit n < n"
    using unat_dec[OF n0] n0 unfolding turn_off_least_1bit_def word_le_nat_alt word_less_nat_alt by simp
qed

lemma round_loop_eq:
  assumes "2 ^ k \<le> unat n" "unat n < 2 ^ Suc k" "k < 32"
  shows "round_loop n = Some (2 ^ k)"
  using assms(1,2)
proof (induction "unat n" arbitrary: n rule: less_induct)
  case less
  note u = unat_exp[OF assms(3)]
  show ?case
  proof (cases "n = 2 ^ k")
    case True
    then have "is_power_of_2 n" using turn_off_power[OF assms(3)] u assms(3) by (auto simp: is_power_of_2_def)
    then show ?thesis using True by (subst round_loop.simps) simp
  next
    case False
    then have "2 ^ k < unat n" using less.prems u by (metis le_neq_implies_less word_unat_eq_iff)
    note top = turn_off_top[OF this less.prems(2)]
    have lt: "unat (turn_off_least_1bit n) < unat n" using top(2) by (simp add: word_less_nat_alt)
    have "round_loop (turn_off_least_1bit n) = Some (2 ^ k)"
      using less.hyps[OF lt top(1)] lt less.prems(2) by simp
    moreover have "\<not> is_power_of_2 n" using top(1) by (auto simp: is_power_of_2_def)
    ultimately show ?thesis by (subst round_loop.simps) simp
  qed
qed

lemma power_2_around: "0 < n \<Longrightarrow> \<exists>k. 2 ^ k \<le> n \<and> n < 2 ^ Suc k" for n :: nat
proof (induction n rule: less_induct)
  case (less n)
  show ?case
  proof (cases "n = 1")
    case True
    then show ?thesis by (intro exI[of _ 0]) simp
  next
    case False
    with less.prems have "0 < n div 2" "n div 2 < n" by auto
    then obtain k where "2 ^ k \<le> n div 2" "n div 2 < 2 ^ Suc k" using less.IH by blast
    then have "2 ^ Suc k \<le> n" "n < 2 ^ Suc (Suc k)" by auto
    then show ?thesis by blast
  qed
qed

lemma ideal_bucket_cnt_eq:
  "\<exists>k. 2 \<le> k \<and> k < 31 \<and> ideal_bucket_cnt h = Some (2 ^ k) \<and> 2 ^ k \<le> max 4 (unat (h_elem_cnt h) div 2) \<and>
     max 4 (unat (h_elem_cnt h) div 2) < 2 ^ Suc k"
proof -
  let ?n = "h_elem_cnt h div BEST_ELEMS_PER_BUCKET"
  let ?m = "if ?n < 4 then 4 else ?n"
  have un: "unat ?n = unat (h_elem_cnt h) div 2" by (simp add: BEST_ELEMS_PER_BUCKET_def unat_div)
  then have um: "unat ?m = max 4 (unat (h_elem_cnt h) div 2)" by (auto simp: word_less_nat_alt)
  obtain k where k: "2 ^ k \<le> unat ?m" "unat ?m < 2 ^ Suc k" 
  proof -
    have "0 < unat ?m" unfolding um by simp
    then show ?thesis using power_2_around that by blast
  qed
  have "unat (h_elem_cnt h) div 2 < 2 ^ 31" using unat_bound[of "h_elem_cnt h"] by simp
  then have "(2 :: nat) ^ k < 2 ^ 31" using k(1) um by auto
  then have "k < 31" by (rule power_less_imp_less_exp[rotated]) simp
  moreover have "(2 :: nat) ^ 2 < 2 ^ Suc k" using k(2) um by auto
  then have "2 < Suc k" by (rule power_less_imp_less_exp[rotated]) simp
  ultimately show ?thesis
    using round_loop_eq[OF k] k um by (intro exI[of _ k]) (simp add: ideal_bucket_cnt_def Let_def)
qed


section \<open>The table as a multiset of elements\<close>

definition elems :: "'a hash_table \<Rightarrow> 'a multiset" where
  "elems h = mset (concat (h_buckets h))"

text \<open>Every element is in the bucket its hash value selects.\<close>

definition placed :: "'a hash_table \<Rightarrow> bool" where
  "placed h \<longleftrightarrow> (\<exists>k. 2 \<le> k \<and> k < 31 \<and> h_bucket_cnt h = 2 ^ k) \<and> length (h_buckets h) = unat (h_bucket_cnt h) \<and>
     (\<forall>i < length (h_buckets h). \<forall>e \<in> set (h_buckets h ! i). find_bucket h e = i)"

lemma find_bucket_bound:
  assumes "h_bucket_cnt h = 2 ^ k" "k < 31" shows "find_bucket h e < unat (h_bucket_cnt h)"
proof -
  have "h_hash h e AND (2 ^ k - 1) = take_bit k (h_hash h e)" by (simp add: take_bit_eq_mask mask_eq_exp_minus_1)
  then have "find_bucket h e = take_bit k (unat (h_hash h e))" using assms by (simp add: find_bucket_def unsigned_take_bit_eq)
  moreover have "take_bit k (unat (h_hash h e)) < 2 ^ k" by simp
  ultimately show ?thesis using assms unat_exp[of k] by simp
qed

lemma find_bucket_in: "placed h \<Longrightarrow> find_bucket h e < length (h_buckets h)"
  unfolding placed_def using find_bucket_bound by metis

lemma mset_concat_update:
  "i < length bs \<Longrightarrow> mset (concat (bs[i := b])) + mset (bs ! i) = mset (concat bs) + mset b"
proof (induction bs arbitrary: i)
  case (Cons c bs)
  then show ?case by (cases i) (auto simp: ac_simps)
qed simp

lemma elems_push:
  assumes "i < length (h_buckets h)"
  shows "mset (concat ((h_buckets h)[i := e # h_buckets h ! i])) = add_mset e (elems h)"
  using mset_concat_update[OF assms, of "e # h_buckets h ! i"] by (simp add: elems_def)

lemma push_elem_eq:
  assumes "placed h"
  shows "placed (push_elem h e)" "elems (push_elem h e) = add_mset e (elems h)"
    "h_bucket_cnt (push_elem h e) = h_bucket_cnt h" "h_elem_cnt (push_elem h e) = h_elem_cnt h"
    "h_hash (push_elem h e) = h_hash h" "h_less (push_elem h e) = h_less h"
proof -
  have f: "find_bucket (push_elem h e) x = find_bucket h x" for x by (simp add: find_bucket_def push_elem_def Let_def)
  show "elems (push_elem h e) = add_mset e (elems h)"
    using elems_push[OF find_bucket_in[OF assms]] by (simp add: push_elem_def Let_def elems_def)
  show "placed (push_elem h e)"
    using assms find_bucket_in[OF assms, of e] unfolding placed_def f
    by (auto simp: push_elem_def Let_def nth_list_update split: if_splits)
qed (simp_all add: push_elem_def Let_def)

lemma foldl_push:
  assumes "placed h"
  shows "placed (foldl push_elem h es) \<and> elems (foldl push_elem h es) = elems h + mset es \<and>
    h_elem_cnt (foldl push_elem h es) = h_elem_cnt h \<and> h_bucket_cnt (foldl push_elem h es) = h_bucket_cnt h \<and>
    h_hash (foldl push_elem h es) = h_hash h \<and> h_less (foldl push_elem h es) = h_less h"
  using assms
proof (induction es arbitrary: h)
  case (Cons e es)
  show ?case using Cons.IH[OF push_elem_eq(1)[OF Cons.prems, of e]] push_elem_eq[OF Cons.prems, of e] by simp
qed simp

lemma foldl_concat: "foldl (foldl f) h ess = foldl f h (concat ess)"
  by (induction ess arbitrary: h) simp_all

text \<open>Rehashing keeps the elements, whether or not there is memory for new buckets; the new number of buckets is the ideal
  one if there is.\<close>

lemma rehash_eq:
  assumes "placed h"
  shows "\<exists>h'. rehash mem_ok h = Some h' \<and> placed h' \<and> elems h' = elems h \<and> h_elem_cnt h' = h_elem_cnt h \<and>
    h_hash h' = h_hash h \<and> h_less h' = h_less h \<and> (mem_ok \<longrightarrow> ideal_bucket_cnt h = Some (h_bucket_cnt h'))"
proof -
  obtain k where k: "2 \<le> k" "k < 31" "ideal_bucket_cnt h = Some (2 ^ k)" using ideal_bucket_cnt_eq by blast
  let ?h = "h\<lparr>h_buckets := replicate (unat (2 ^ k :: u32)) [], h_bucket_cnt := 2 ^ k\<rparr>"
  have "placed ?h" using k by (auto simp: placed_def)
  moreover have "elems ?h = {#}" by (simp add: elems_def)
  ultimately show ?thesis
    using foldl_push[of ?h "concat (h_buckets h)"] assms k
    by (auto simp: rehash_def foldl_concat elems_def)
qed

section \<open>Tables with unique keys\<close>

definition same_key :: "('a \<Rightarrow> 'a \<Rightarrow> bool) \<Rightarrow> 'a \<Rightarrow> 'a \<Rightarrow> bool" where
  "same_key lt x y \<longleftrightarrow> \<not> lt x y \<and> \<not> lt y x"

text \<open>The invariant, and the finite set of elements that a table stands for.\<close>

definition table_ok :: "'a hash_table \<Rightarrow> bool" where
  "table_ok h \<longleftrightarrow> placed h \<and> (\<forall>x. count (elems h) x \<le> 1) \<and> h_elem_cnt h = of_nat (size (elems h)) \<and>
     (\<forall>x \<in># elems h. \<forall>y \<in># elems h. same_key (h_less h) x y \<longrightarrow> x = y)"

definition contents :: "'a hash_table \<Rightarrow> 'a set" where "contents h = set_mset (elems h)"

lemma contents_buckets: "contents h = (\<Union>b \<in> set (h_buckets h). set b)"
  by (simp add: contents_def elems_def)

lemma find_elem_Some: "find_elem h b e = Some x \<Longrightarrow> x \<in> set b \<and> same_key (h_less h) x e"
  by (induction b) (auto simp: same_key_def split: if_splits)

lemma find_elem_None: "find_elem h b e = None \<longleftrightarrow> (\<forall>x \<in> set b. \<not> same_key (h_less h) x e)"
  by (induction b) (auto simp: same_key_def)

lemma mset_remove_everywhere:
  "count (mset (concat bs)) e \<le> 1 \<Longrightarrow> mset (concat (map (remove1 e) bs)) = mset (concat bs) - {#e#}"
proof (induction bs)
  case (Cons b bs)
  show ?case
  proof (cases "e \<in> set b")
    case True
    then have "0 < count (mset b) e" by (simp add: count_greater_zero_iff)
    moreover have "count (mset b) e + count (mset (concat bs)) e \<le> 1" using Cons.prems by simp
    ultimately have "count (mset (concat bs)) e = 0" by linarith
    then have "e \<notin> set (concat bs)" by (metis count_eq_zero_iff set_mset_mset)
    then have "map (remove1 e) bs = bs" by (intro map_idI) (auto simp: remove1_idem)
    then show ?thesis using True by simp
  next
    case False
    then have b: "count (mset b) e = 0" by (simp add: count_eq_zero_iff)
    have "mset b + (X - {#e#}) = mset b + X - {#e#}" for X
    proof (rule multiset_eqI)
      show "count (mset b + (X - {#e#})) x = count (mset b + X - {#e#}) x" for x by (cases "x = e") (simp_all add: b)
    qed
    then show ?thesis using Cons False by (simp add: remove1_idem)
  qed
qed simp

lemma remove_elem_eq:
  assumes "table_ok h" "e \<in> contents h"
  shows "placed (remove_elem e h)" "elems (remove_elem e h) = elems h - {#e#}"
    "h_elem_cnt (remove_elem e h) = of_nat (size (elems h - {#e#}))"
    "h_hash (remove_elem e h) = h_hash h" "h_less (remove_elem e h) = h_less h"
proof -
  have ok: "placed h" "count (elems h) e \<le> 1" "h_elem_cnt h = of_nat (size (elems h))" using assms(1) by (auto simp: table_ok_def)
  have f: "find_bucket (remove_elem e h) x = find_bucket h x" for x by (simp add: find_bucket_def remove_elem_def)
  show "elems (remove_elem e h) = elems h - {#e#}"
    using mset_remove_everywhere[of "h_buckets h" e] ok(2) by (simp add: elems_def remove_elem_def)
  show "placed (remove_elem e h)"
    using ok(1) unfolding placed_def f by (auto simp: remove_elem_def dest!: notin_set_remove1[THEN contrapos_nn])
  have "size (elems h) = Suc (size (elems h - {#e#}))"
    using assms(2) by (metis contents_def size_Suc_Diff1)
  then show "h_elem_cnt (remove_elem e h) = of_nat (size (elems h - {#e#}))" using ok(3) by (simp add: remove_elem_def)
qed (simp_all add: remove_elem_def)

lemma insert_elem_eq:
  assumes "placed h" "h_elem_cnt h = of_nat (size (elems h))"
  shows "placed (insert_elem (find_bucket h e) e h)" "elems (insert_elem (find_bucket h e) e h) = add_mset e (elems h)"
    "h_elem_cnt (insert_elem (find_bucket h e) e h) = of_nat (size (add_mset e (elems h)))"
    "h_hash (insert_elem (find_bucket h e) e h) = h_hash h" "h_less (insert_elem (find_bucket h e) e h) = h_less h"
proof -
  let ?h = "insert_elem (find_bucket h e) e h"
  have f: "find_bucket ?h x = find_bucket h x" for x by (simp add: find_bucket_def insert_elem_def)
  show "elems ?h = add_mset e (elems h)"
    using elems_push[OF find_bucket_in[OF assms(1)], of e] by (simp add: insert_elem_def elems_def)
  show "placed ?h"
    using assms(1) find_bucket_in[OF assms(1), of e] unfolding placed_def f
    by (auto simp: insert_elem_def nth_list_update split: if_splits)
  show "h_elem_cnt ?h = of_nat (size (add_mset e (elems h)))" using assms(2) by (simp add: insert_elem_def add.commute)
qed (simp_all add: insert_elem_def)

text \<open>What \<^verbatim>\<open>hash.h\<close> asks of the functions of a table: an order, and equal elements have equal hash values.\<close>

locale hash_key = less_func lt for lt :: "'a \<Rightarrow> 'a \<Rightarrow> bool" +
  fixes hash :: "'a \<Rightarrow> u32"
  assumes same_hash: "same_key lt x y \<Longrightarrow> hash x = hash y"
begin

lemma same_refl [simp]: "same_key lt x x"
  by (simp add: same_key_def)

lemma same_sym: "same_key lt x y \<Longrightarrow> same_key lt y x"
  by (simp add: same_key_def)

lemma same_trans: "same_key lt x y \<Longrightarrow> same_key lt y z \<Longrightarrow> same_key lt x z"
  using ge_trans by (auto simp: same_key_def)

definition table :: "'a hash_table \<Rightarrow> bool" where
  "table h \<longleftrightarrow> table_ok h \<and> h_hash h = hash \<and> h_less h = lt"

lemma bucket_of_same: "table h \<Longrightarrow> x \<in> contents h \<Longrightarrow> same_key lt x e \<Longrightarrow> x \<in> set (h_buckets h ! find_bucket h e)"
proof -
  assume t: "table h" and x: "x \<in> contents h" and s: "same_key lt x e"
  obtain i where i: "i < length (h_buckets h)" "x \<in> set (h_buckets h ! i)"
    using x by (metis UN_E contents_buckets in_set_conv_nth)
  then have "find_bucket h x = i" using t by (auto simp: table_def table_ok_def placed_def)
  moreover have "find_bucket h x = find_bucket h e" using same_hash[OF s] t by (simp add: find_bucket_def table_def)
  ultimately show ?thesis using i by simp
qed

lemma find_spec: "table h \<Longrightarrow> hash_find e h = Some x \<longleftrightarrow> x \<in> contents h \<and> same_key lt x e"
proof -
  assume t: "table h"
  have pl: "placed h" and le: "h_less h = lt" using t by (auto simp: table_def table_ok_def)
  show ?thesis
  proof (cases "hash_find e h")
    case None
    then have "\<forall>x \<in> set (h_buckets h ! find_bucket h e). \<not> same_key lt x e" by (simp add: hash_find_def find_elem_None le)
    then show ?thesis using None bucket_of_same[OF t, of x e] by auto
  next
    case (Some y)
    then have y: "y \<in> set (h_buckets h ! find_bucket h e)" "same_key lt y e"
      using find_elem_Some le unfolding hash_find_def by metis+
    then have "y \<in> contents h" using find_bucket_in[OF pl, of e] by (auto simp: contents_buckets)
    moreover have "x = y" if "x \<in> contents h" "same_key lt x e"
      using t that y(2) \<open>y \<in> contents h\<close> same_trans[OF that(2) same_sym[OF y(2)]]
      by (auto simp: table_def table_ok_def contents_def)
    ultimately show ?thesis using Some y(2) by auto
  qed
qed

lemma find_none: "table h \<Longrightarrow> hash_find e h = None \<longleftrightarrow> (\<forall>x \<in> contents h. \<not> same_key lt x e)"
  using find_spec[of h e] by (metis not_None_eq)

lemma rehash_spec:
  assumes "placed h" "h_hash h = hash" "h_less h = lt" "\<forall>x. count (elems h) x \<le> 1" "h_elem_cnt h = of_nat (size (elems h))"
    "\<forall>x \<in> contents h. \<forall>y \<in> contents h. same_key lt x y \<longrightarrow> x = y"
  shows "\<exists>h'. rehash mem_ok h = Some h' \<and> table h' \<and> contents h' = contents h \<and>
    (mem_ok \<longrightarrow> ideal_bucket_cnt h = Some (h_bucket_cnt h'))"
  using rehash_eq[OF assms(1), of mem_ok] assms(2-) by (auto simp: table_def table_ok_def contents_def)

lemma removed:
  assumes t: "table h" and f: "hash_find e h = Some x"
  shows "placed (remove_elem x h)" "h_hash (remove_elem x h) = hash" "h_less (remove_elem x h) = lt"
    "\<forall>y. count (elems (remove_elem x h)) y \<le> 1" "h_elem_cnt (remove_elem x h) = of_nat (size (elems (remove_elem x h)))"
    "contents (remove_elem x h) = {y \<in> contents h. \<not> same_key lt y e}"
proof -
  have x: "x \<in> contents h" "same_key lt x e" using f find_spec[OF t] by auto
  have ok: "table_ok h" "h_hash h = hash" "h_less h = lt" using t by (auto simp: table_def)
  note r = remove_elem_eq[OF ok(1) x(1)]
  show "placed (remove_elem x h)" "h_hash (remove_elem x h) = hash" "h_less (remove_elem x h) = lt"
    "h_elem_cnt (remove_elem x h) = of_nat (size (elems (remove_elem x h)))" using r ok by simp_all
  have cnt: "count (elems h) y \<le> 1" for y using ok(1) by (simp add: table_ok_def)
  then show "\<forall>y. count (elems (remove_elem x h)) y \<le> 1" using r(2) by (auto intro: le_trans[OF diff_le_self])
  have "count (elems h) x = 1" using cnt[of x] x(1) by (simp add: contents_def le_Suc_eq count_eq_zero_iff)
  then have "contents (remove_elem x h) = contents h - {x}"
    using r(2) by (auto simp: contents_def in_diff_count count_eq_zero_iff split: if_splits)
  moreover have "same_key lt y e \<longleftrightarrow> y = x" if "y \<in> contents h" for y
    using find_spec[OF t, of e y] f that by auto
  ultimately show "contents (remove_elem x h) = {y \<in> contents h. \<not> same_key lt y e}" by auto
qed

lemma insert_spec:
  assumes t: "table h"
  shows "\<exists>h'. hash_insert mem_ok e h = Some (hash_find e h, h') \<and> table h' \<and>
    contents h' = (if hash_find e h = None then insert e (contents h) else contents h)"
proof -
  have ok: "table_ok h" "h_hash h = hash" "h_less h = lt" using t by (auto simp: table_def)
  then have pl: "placed h" "h_elem_cnt h = of_nat (size (elems h))" by (auto simp: table_ok_def)
  let ?old = "find_elem h (h_buckets h ! find_bucket h e) e"
  show ?thesis
  proof (cases "hash_find e h")
    case None
    note i = insert_elem_eq[OF pl, of e]
    have no: "\<not> same_key lt x e" if "x \<in> contents h" for x using None find_none[OF t] that by auto
    then have "e \<notin># elems h" using no[of e] by (auto simp: contents_def)
    then have "\<forall>x. count (elems (insert_elem (find_bucket h e) e h)) x \<le> 1"
      using ok(1) i(2) by (auto simp: table_ok_def count_eq_zero_iff)
    moreover have ct: "contents (insert_elem (find_bucket h e) e h) = insert e (contents h)" using i(2) by (simp add: contents_def)
    moreover have "\<forall>x \<in> insert e (contents h). \<forall>y \<in> insert e (contents h). same_key lt x y \<longrightarrow> x = y"
      using no same_sym ok(1,3) by (auto simp: table_ok_def contents_def)
    ultimately obtain h' where "rehash mem_ok (insert_elem (find_bucket h e) e h) = Some h'" "table h'" "contents h' = insert e (contents h)"
      using rehash_spec[of "insert_elem (find_bucket h e) e h" mem_ok] i ok by (auto simp: i)
    then show ?thesis using None by (simp add: hash_insert_def hash_find_def Let_def)
  next
    case (Some x)
    then obtain h' where "rehash mem_ok h = Some h'" "table h'" "contents h' = contents h"
      using rehash_spec[of h mem_ok] ok by (auto simp: table_ok_def contents_def)
    then show ?thesis using Some by (simp add: hash_insert_def hash_find_def Let_def)
  qed
qed

lemma replace_spec:
  assumes t: "table h"
  shows "\<exists>h'. hash_replace mem_ok e h = Some (hash_find e h, h') \<and> table h' \<and>
    contents h' = insert e {x \<in> contents h. \<not> same_key lt x e}"
proof -
  have ok: "table_ok h" "h_hash h = hash" "h_less h = lt" using t by (auto simp: table_def)
  define h1 where "h1 = (case hash_find e h of None \<Rightarrow> h | Some old \<Rightarrow> remove_elem old h)"
  have h1: "placed h1" "h_hash h1 = hash" "h_less h1 = lt" "\<forall>x. count (elems h1) x \<le> 1" "h_elem_cnt h1 = of_nat (size (elems h1))"
    "contents h1 = {x \<in> contents h. \<not> same_key lt x e}"
    using ok find_none[OF t, of e] removed[OF t, of e] by (auto simp: h1_def table_ok_def split: option.splits)
  have fb: "find_bucket h e = find_bucket h1 e" by (simp add: h1_def find_bucket_def remove_elem_def split: option.splits)
  note i = insert_elem_eq[OF h1(1,5), of e]
  have no: "\<not> same_key lt x e" if "x \<in> contents h1" for x using h1(6) that by auto
  then have "e \<notin># elems h1" using no[of e] by (auto simp: contents_def)
  then have "\<forall>x. count (elems (insert_elem (find_bucket h1 e) e h1)) x \<le> 1"
    using h1(4) i(2) by (auto simp: count_eq_zero_iff)
  moreover have ct: "contents (insert_elem (find_bucket h1 e) e h1) = insert e (contents h1)" using i(2) by (simp add: contents_def)
  moreover have "\<forall>x \<in> contents h. \<forall>y \<in> contents h. same_key lt x y \<longrightarrow> x = y"
    using ok by (auto simp: table_ok_def contents_def)
  then have "\<forall>x \<in> insert e (contents h1). \<forall>y \<in> insert e (contents h1). same_key lt x y \<longrightarrow> x = y"
    using no same_sym h1(6) by auto
  ultimately obtain h' where "rehash mem_ok (insert_elem (find_bucket h1 e) e h1) = Some h'" "table h'" "contents h' = insert e (contents h1)"
    using rehash_spec[of "insert_elem (find_bucket h1 e) e h1" mem_ok] i h1 by (auto simp: i)
  then have "rehash mem_ok (insert_elem (find_bucket h e) e h1) = Some h'" "table h'"
      "contents h' = insert e {x \<in> contents h. \<not> same_key lt x e}" using fb h1(6) by simp_all
  moreover have "(case find_elem h (h_buckets h ! find_bucket h e) e of None \<Rightarrow> h | Some old \<Rightarrow> remove_elem old h) = h1"
    by (simp add: h1_def hash_find_def)
  ultimately show ?thesis by (simp add: hash_replace_def hash_find_def Let_def)
qed

lemma delete_spec:
  assumes t: "table h"
  shows "\<exists>h'. hash_delete mem_ok e h = Some (hash_find e h, h') \<and> table h' \<and>
    contents h' = {x \<in> contents h. \<not> same_key lt x e}"
proof (cases "hash_find e h")
  case None
  then have "hash_delete mem_ok e h = Some (None, h)" by (simp add: hash_delete_def hash_find_def Let_def)
  then show ?thesis using None t find_none[OF t, of e] by auto
next
  case (Some x)
  note r = removed[OF t Some]
  have "\<forall>x \<in> contents h. \<forall>y \<in> contents h. same_key lt x y \<longrightarrow> x = y"
    using t by (auto simp: table_def table_ok_def contents_def)
  then obtain h' where "rehash mem_ok (remove_elem x h) = Some h'" "table h'" "contents h' = contents (remove_elem x h)"
    using rehash_spec[of "remove_elem x h" mem_ok] r by auto
  then show ?thesis using Some r(6) by (auto simp: hash_delete_def hash_find_def Let_def)
qed

lemma init_spec: "\<exists>h. hash_init hash lt (Some bs) = Some h \<and> table h \<and> contents h = {}"
  by (auto simp: hash_init_def hash_clear_def table_def table_ok_def contents_def elems_def placed_def intro!: exI[of _ "2 :: nat"])

end


section \<open>Hash functions\<close>

text \<open>The Fowler-Noll-Vo hash of a list of bytes.\<close>

definition fnv_step :: "u32 \<Rightarrow> u8 \<Rightarrow> u32" where "fnv_step x b = (x * FNV_32_PRIME) XOR ucast b"

definition fnv :: "u8 list \<Rightarrow> u32" where "fnv bs = foldl fnv_step FNV_32_BASIS bs"

lemma hash_bytes_loop_eq: "hash_bytes_loop buf n x m = foldl fnv_step x (bytes_at m buf (unat n))"
proof (induction buf n x m rule: hash_bytes_loop.induct)
  case (1 buf n x m)
  show ?case
  proof (cases "0 < n")
    case True
    then show ?thesis using 1 by (subst hash_bytes_loop.simps) (simp add: unat_bytes_Cons flip: fnv_step_def)
  qed (simp add: word_gt_0 hash_bytes_loop.simps[of _ 0])
qed

lemma hash_string_loop_eq: "str_at m s w \<Longrightarrow> hash_string_loop s x m = Some (foldl fnv_step x w)"
proof (induction w arbitrary: s x)
  case (Cons c w)
  then show ?case by (subst hash_string_loop.simps) (simp flip: fnv_step_def)
qed (simp add: hash_string_loop.simps)

lemma bytes_at_write: "length bs \<le> 2 ^ 32 \<Longrightarrow> bytes_at (write_bytes m a bs) a (length bs) = bs"
  by (rule nth_equalityI) (simp_all add: bytes_at_def write_bytes_def unat_of_nat)

lemma hash_int_eq: "a \<noteq> 0 \<Longrightarrow> hash_int a i m = Some (fnv (int_bytes i))"
proof -
  have "length (int_bytes i) = 4" by (simp add: int_bytes_def)
  then have "bytes_at (write_bytes m a (int_bytes i)) a 4 = int_bytes i" using bytes_at_write[of "int_bytes i" m a] by simp
  then show "a \<noteq> 0 \<Longrightarrow> ?thesis" by (simp add: hash_int_def hash_bytes_def hash_bytes_loop_eq fnv_def)
qed

text \<open>Tables of integers, compared as signed numbers and hashed with \<^verbatim>\<open>hash_int\<close>.\<close>

definition int_hash :: "u32 \<Rightarrow> u32" where "int_hash i = the (hash_int 4 i (\<lambda>_. 0))"

definition int_less :: "u32 \<Rightarrow> u32 \<Rightarrow> bool" where "int_less a b \<longleftrightarrow> sint a < sint b"

interpretation int_keys: hash_key int_less int_hash
  by unfold_locales (auto simp: int_less_def same_key_def signed_word_eqI intro!: arg_cong[of _ _ int_hash])

section \<open>Iteration\<close>

text \<open>The loop in the comment of \<^verbatim>\<open>hash_first\<close>, with a bound on the number of steps.\<close>

fun hash_walk :: "nat \<Rightarrow> 'a hash_table \<Rightarrow> hash_iterator \<Rightarrow> 'a list option" where
  "hash_walk 0 h i = None"
| "hash_walk (Suc n) h i = Option.bind (hash_next h i) (\<lambda>(i, e).
     case e of None \<Rightarrow> Some [] | Some x \<Rightarrow> Option.bind (hash_walk n h i) (\<lambda>xs. Some (x # xs)))"

text \<open>The elements an iterator has still to visit when it stands on position \<open>k\<close> of bucket \<open>b\<close>.\<close>

definition ahead :: "'a list list \<Rightarrow> nat \<Rightarrow> nat \<Rightarrow> 'a list" where
  "ahead bs b k = drop k (bs ! b) @ concat (drop (Suc b) bs)"

lemma hash_next_loop_eq:
  assumes "length (h_buckets h) = unat (h_bucket_cnt h)" "b < length (h_buckets h)" "k \<le> length (h_buckets h ! b)"
  shows "case ahead (h_buckets h) b k of
      [] \<Rightarrow> it_pos (hash_next_loop h \<lparr>it_bucket = b, it_pos = Some (Suc k)\<rparr>) = None
    | x # xs \<Rightarrow> \<exists>b' k'. hash_next_loop h \<lparr>it_bucket = b, it_pos = Some (Suc k)\<rparr> = \<lparr>it_bucket = b', it_pos = Some (Suc k')\<rparr> \<and>
        b' < length (h_buckets h) \<and> k' < length (h_buckets h ! b') \<and> h_buckets h ! b' ! k' = x \<and>
        ahead (h_buckets h) b' (Suc k') = xs"
  using assms(2,3)
proof (induction "length (h_buckets h) - b" arbitrary: b k)
  case (Suc d)
  let ?bs = "h_buckets h"
  show ?case
  proof (cases "k = length (?bs ! b)")
    case False
    then have "ahead ?bs b k = (?bs ! b ! k) # ahead ?bs b (Suc k)"
      using Suc.prems by (simp add: ahead_def Cons_nth_drop_Suc[symmetric])
    then show ?thesis using False Suc.prems by (simp add: hash_next_loop.simps[of h])
  next
    case True
    show ?thesis
    proof (cases "Suc b < length ?bs")
      case True
      have "ahead ?bs b k = ahead ?bs (Suc b) 0"
        using \<open>k = _\<close> True by (simp add: ahead_def Cons_nth_drop_Suc[symmetric])
      moreover have "hash_next_loop h \<lparr>it_bucket = b, it_pos = Some (Suc k)\<rparr> = hash_next_loop h \<lparr>it_bucket = Suc b, it_pos = Some (Suc 0)\<rparr>"
        using \<open>k = _\<close> True Suc.prems assms(1) by (subst hash_next_loop.simps) simp
      moreover have "d = length ?bs - Suc b" using Suc.hyps(2) by simp
      ultimately show ?thesis using Suc.hyps(1)[of "Suc b" 0] True by (simp split: list.splits)
    next
      case False
      then have "ahead ?bs b k = []" using \<open>k = _\<close> by (simp add: ahead_def)
      then show ?thesis using \<open>k = _\<close> False Suc.prems assms(1) by (simp add: hash_next_loop.simps[of h])
    qed
  qed
qed simp

lemma hash_walk_eq:
  assumes "length (h_buckets h) = unat (h_bucket_cnt h)"
  shows "b < length (h_buckets h) \<Longrightarrow> k \<le> length (h_buckets h ! b) \<Longrightarrow> length (ahead (h_buckets h) b k) < n \<Longrightarrow>
    hash_walk n h \<lparr>it_bucket = b, it_pos = Some k\<rparr> = Some (ahead (h_buckets h) b k)"
proof (induction n arbitrary: b k)
  case (Suc n)
  note nx = hash_next_loop_eq[OF assms Suc.prems(1,2)]
  show ?case
  proof (cases "ahead (h_buckets h) b k")
    case Nil
    then show ?thesis using nx by (simp add: hash_next_def Let_def hash_cur_def)
  next
    case (Cons x xs)
    then obtain b' k' where "hash_next_loop h \<lparr>it_bucket = b, it_pos = Some (Suc k)\<rparr> = \<lparr>it_bucket = b', it_pos = Some (Suc k')\<rparr>"
        "b' < length (h_buckets h)" "k' < length (h_buckets h ! b')" "h_buckets h ! b' ! k' = x"
        "ahead (h_buckets h) b' (Suc k') = xs" using nx by auto
    then show ?thesis using Suc.IH[of b' "Suc k'"] Suc.prems(3) Cons by (simp add: hash_next_def Let_def hash_cur_def)
  qed
qed simp


section \<open>Properties\<close>

text \<open>C15. A hash table implements a set of elements with unique keys. As long as the comparison function is an
  order and equal elements have equal hash values, \<^verbatim>\<open>hash_find\<close> finds the element with an equal key;
  \<^verbatim>\<open>hash_insert\<close> adds an element unless there is an equal one, which it returns;
  \<^verbatim>\<open>hash_replace\<close> puts the new element in place of an equal one; \<^verbatim>\<open>hash_delete\<close> takes the
  equal element out. All of them end, keep the table well formed, and give these results whether or not there was
  memory to resize the table.\<close>

theorem hash_table_refines_set:
  assumes "hash_key lt hash" "table_ok h" "h_hash h = hash" "h_less h = lt"
  shows "(\<forall>x. hash_find e h = Some x \<longleftrightarrow> x \<in> contents h \<and> same_key lt x e) \<and>
    (\<exists>h'. hash_insert mem_ok e h = Some (hash_find e h, h') \<and> table_ok h' \<and> h_hash h' = hash \<and> h_less h' = lt \<and>
      contents h' = (if hash_find e h = None then insert e (contents h) else contents h)) \<and>
    (\<exists>h'. hash_replace mem_ok e h = Some (hash_find e h, h') \<and> table_ok h' \<and> h_hash h' = hash \<and> h_less h' = lt \<and>
      contents h' = insert e {x \<in> contents h. \<not> same_key lt x e}) \<and>
    (\<exists>h'. hash_delete mem_ok e h = Some (hash_find e h, h') \<and> table_ok h' \<and> h_hash h' = hash \<and> h_less h' = lt \<and>
      contents h' = {x \<in> contents h. \<not> same_key lt x e})"
proof -
  have t: "hash_key.table lt hash h" using assms by (simp add: hash_key.table_def)
  show ?thesis
    using hash_key.find_spec[OF assms(1) t, of e] hash_key.insert_spec[OF assms(1) t, of mem_ok e]
      hash_key.replace_spec[OF assms(1) t, of mem_ok e] hash_key.delete_spec[OF assms(1) t, of mem_ok e]
    unfolding hash_key.table_def[OF assms(1)] by blast
qed

text \<open>An empty table of integers, as \<^verbatim>\<open>hash_init\<close> makes it.\<close>

definition int_table :: "u32 hash_table" where
  "int_table = \<lparr>h_elem_cnt = 0, h_bucket_cnt = 4, h_buckets = [[], [], [], []], h_hash = int_hash, h_less = int_less\<rparr>"

lemma int_table_ok: "table_ok int_table" "contents int_table = {}"
proof -
  have "length (h_buckets int_table) = unat (h_bucket_cnt int_table)" by (simp add: int_table_def)
  moreover have "h_bucket_cnt int_table = 2 ^ 2" by (simp add: int_table_def)
  moreover have "\<forall>i < length (h_buckets int_table). h_buckets int_table ! i = []"
    by (auto simp: int_table_def nth_Cons split: nat.splits)
  ultimately have "placed int_table" unfolding placed_def by (intro conjI exI[of _ 2]) auto
  then show "table_ok int_table" by (simp add: table_ok_def elems_def) (simp add: int_table_def)
  show "contents int_table = {}" by (simp add: contents_def elems_def int_table_def)
qed

theorem hash_table_refines_set_witness:
  "\<exists>h. hash_insert True 7 int_table = Some (None, h) \<and> table_ok h \<and> contents h = {7}"
proof -
  have "hash_find 7 int_table = None"
    using hash_table_refines_set[OF int_keys.hash_key_axioms int_table_ok(1), of 7] int_table_ok(2)
    by (auto simp: int_table_def)
  then show ?thesis
    using hash_table_refines_set[OF int_keys.hash_key_axioms int_table_ok(1), of 7 True] int_table_ok(2)
    by (auto simp: int_table_def)
qed

text \<open>The number of buckets is kept near half the number of elements: rehashing always ends, and when there is memory it
  leaves a power of 2 of at least four buckets that is at most half the number of elements (or four), and more than a
  quarter of it. So the average bucket holds fewer than four elements once there are eight, whatever was inserted.\<close>

lemma rehash_load:
  assumes "placed h" "h_elem_cnt h = of_nat (size (elems h))"
  shows "\<exists>h' k. rehash mem_ok h = Some h' \<and> placed h' \<and> elems h' = elems h \<and>
    (mem_ok \<longrightarrow> length (h_buckets h') = 2 ^ k \<and> 4 \<le> length (h_buckets h') \<and> length (h_buckets h') \<le> max 4 (unat (h_elem_cnt h) div 2) \<and>
      unat (h_elem_cnt h) < 4 * length (h_buckets h') + 4)"
proof -
  obtain h' where h': "rehash mem_ok h = Some h'" "placed h'" "elems h' = elems h"
      "mem_ok \<longrightarrow> ideal_bucket_cnt h = Some (h_bucket_cnt h')"
    using rehash_eq[OF assms(1), of mem_ok] by blast
  obtain k where k: "2 \<le> k" "k < 31" "ideal_bucket_cnt h = Some (2 ^ k)" "2 ^ k \<le> max 4 (unat (h_elem_cnt h) div 2)"
      "max 4 (unat (h_elem_cnt h) div 2) < 2 ^ Suc k" using ideal_bucket_cnt_eq by blast
  have "mem_ok \<longrightarrow> length (h_buckets h') = 2 ^ k" using h'(2,4) k(2,3) unat_exp[of k] by (auto simp: placed_def)
  moreover have "(2 :: nat) ^ 2 \<le> 2 ^ k" using k(1) by (intro power_increasing) auto
  moreover have "unat (h_elem_cnt h) < 4 * 2 ^ k + 4" using k(5) by auto
  ultimately show ?thesis using h' k(4) by (intro exI[of _ h'] exI[of _ k]) auto
qed

lemma rehash_load_witness: "\<exists>h'. rehash True int_table = Some h' \<and> 4 \<le> length (h_buckets h')"
  using rehash_load[of int_table True] int_table_ok(1) by (auto simp: table_ok_def)

text \<open>C16. Iterating over a table visits every element exactly once, bucket by bucket, and then ends.\<close>

theorem hash_iteration_complete:
  assumes "placed h" "size (elems h) < n"
  shows "hash_walk n h (hash_first h) = Some (concat (h_buckets h)) \<and> mset (concat (h_buckets h)) = elems h"
proof -
  have len: "length (h_buckets h) = unat (h_bucket_cnt h)" "0 < length (h_buckets h)"
    using assms(1) find_bucket_in[of h undefined] by (auto simp: placed_def)
  have all: "ahead (h_buckets h) 0 0 = concat (h_buckets h)" using len(2) by (cases "h_buckets h") (simp_all add: ahead_def)
  show ?thesis
    using hash_walk_eq[OF len, of 0 n] assms(2) unfolding all hash_first_def by (simp add: elems_def size_mset[symmetric] del: size_mset)
qed

theorem hash_iteration_complete_witness: "hash_walk 1 int_table (hash_first int_table) = Some []"
  using hash_iteration_complete[of int_table 1] int_table_ok(1) by (simp add: table_ok_def elems_def int_table_def)

text \<open>The hash of a string is the hash of its bytes: \<^verbatim>\<open>hash_string\<close> agrees with
  \<^verbatim>\<open>hash_bytes\<close> over the length that \<^verbatim>\<open>strlen\<close> computes, and both are the FNV hash of the characters.\<close>

lemma hash_string_is_hash_bytes:
  assumes "str_at m s w"
  shows "hash_string s m = Some (fnv w) \<and> Option.bind (strlen s m) (\<lambda>n. hash_bytes s n m) = hash_string s m"
  using assms str_at_nonnull[OF assms] str_at_bytes[OF assms, of "length w"] unat_str_at[OF assms] strlen_eq[OF assms]
  by (simp add: hash_string_def hash_bytes_def hash_bytes_loop_eq hash_string_loop_eq fnv_def)

lemma hash_string_is_hash_bytes_witness: "hash_string 32 sample_mem = Some (fnv [32])"
  using hash_string_is_hash_bytes[OF sample_strings(2)] by simp

end
