(* ===== verification/Fixed_Point.thy ===== *)
theory Fixed_Point
  imports Prelude "HOL-Library.Signed_Division"
begin

text \<open>
  Fixed-point numbers with 16 fractional bits, after \<^verbatim>\<open>threads/fixed-point.h\<close>. An \<^verbatim>\<open>int\<close> is a
  32-bit word read by \<open>sint\<close>; \<^verbatim>\<open>int\<close> arithmetic wraps as on the target, \<^verbatim>\<open>long long\<close>
  intermediate results fit 64 bits and are integers here, and division truncates towards zero.
\<close>

section \<open>Definitions\<close>

definition FIX_P :: nat where "FIX_P = 16"
definition FIX_Q :: nat where "FIX_Q = 16"
definition FIX_F :: int where "FIX_F = 2 ^ FIX_Q"
definition FIX_MAX_INT :: int where "FIX_MAX_INT = 2 ^ FIX_P - 1"
definition FIX_MIN_INT :: int where "FIX_MIN_INT = - FIX_MAX_INT"

record fixed_point_t = fix_f :: u32

definition mk_fix :: "u32 \<Rightarrow> fixed_point_t" where "mk_fix f = \<lparr>fix_f = f\<rparr>"

definition fix_int :: "u32 \<Rightarrow> fixed_point_t option" where
  "fix_int n = ASSERT (sint n \<ge> FIX_MIN_INT \<and> sint n \<le> FIX_MAX_INT) (Some (mk_fix (n * of_int FIX_F)))"

definition fix_frac :: "u32 \<Rightarrow> u32 \<Rightarrow> fixed_point_t option" where
  "fix_frac n d =
     ASSERT (d \<noteq> 0) (
     ASSERT (sint n sdiv sint d \<ge> FIX_MIN_INT \<and> sint n sdiv sint d \<le> FIX_MAX_INT) (
     Some (mk_fix (word_of_int (sint n * FIX_F sdiv sint d)))))"

definition fix_round :: "fixed_point_t \<Rightarrow> u32" where
  "fix_round x = word_of_int (sint (fix_f x + of_int (FIX_F div 2)) sdiv FIX_F)"

definition fix_trunc :: "fixed_point_t \<Rightarrow> u32" where
  "fix_trunc x = word_of_int (sint (fix_f x) sdiv FIX_F)"

definition fix_add :: "fixed_point_t \<Rightarrow> fixed_point_t \<Rightarrow> fixed_point_t" where
  "fix_add x y = mk_fix (fix_f x + fix_f y)"

definition fix_sub :: "fixed_point_t \<Rightarrow> fixed_point_t \<Rightarrow> fixed_point_t" where
  "fix_sub x y = mk_fix (fix_f x - fix_f y)"

definition fix_mul :: "fixed_point_t \<Rightarrow> fixed_point_t \<Rightarrow> fixed_point_t" where
  "fix_mul x y = mk_fix (word_of_int (sint (fix_f x) * sint (fix_f y) sdiv FIX_F))"

definition fix_scale :: "fixed_point_t \<Rightarrow> u32 \<Rightarrow> fixed_point_t option" where
  "fix_scale x n = ASSERT (sint n \<ge> 0) (Some (mk_fix (fix_f x * n)))"

text \<open>Dividing by zero traps.\<close>

definition fix_div :: "fixed_point_t \<Rightarrow> fixed_point_t \<Rightarrow> fixed_point_t option" where
  "fix_div x y = ASSERT (fix_f y \<noteq> 0) (Some (mk_fix (word_of_int (sint (fix_f x) * FIX_F sdiv sint (fix_f y)))))"

definition fix_unscale :: "fixed_point_t \<Rightarrow> u32 \<Rightarrow> fixed_point_t option" where
  "fix_unscale x n = ASSERT (sint n > 0) (Some (mk_fix (word_of_int (sint (fix_f x) sdiv sint n))))"

definition fix_inv :: "fixed_point_t \<Rightarrow> fixed_point_t option" where
  "fix_inv x = Option.bind (fix_int 1) (\<lambda>one. fix_div one x)"

definition fix_compare :: "fixed_point_t \<Rightarrow> fixed_point_t \<Rightarrow> int" where
  "fix_compare x y = (if sint (fix_f x) < sint (fix_f y) then -1 else if sint (fix_f x) > sint (fix_f y) then 1 else 0)"

section \<open>Converting integers\<close>

lemma fix_consts: "FIX_F = 65536" "FIX_MAX_INT = 65535" "FIX_MIN_INT = -65535"
  by (simp_all add: FIX_F_def FIX_Q_def FIX_MAX_INT_def FIX_MIN_INT_def FIX_P_def)

lemma sint_word_of_int: "- (2 ^ 31) \<le> k \<Longrightarrow> k < 2 ^ 31 \<Longrightarrow> sint (word_of_int k :: u32) = k"
  by (simp add: signed_of_int signed_take_bit_int_eq_self)

lemma scaled_sdiv: "k * 65536 sdiv 65536 = (k :: int)"
  by (simp add: signed_divide_int_def sgn_mult abs_mult mult.commute abs_mult_sgn)

lemma sint_scaled:
  assumes "- 32768 \<le> sint n" "sint n < 32768"
  shows "sint (n * of_int FIX_F :: u32) = sint n * 65536"
proof -
  have "n * of_int FIX_F = word_of_int (sint n * 65536)" by (simp add: fix_consts)
  then show ?thesis using assms sint_word_of_int[of "sint n * 65536"] by simp
qed

text \<open>An integer between -32768 and 32767 converted to fixed point and truncated is itself. Rounded it is itself only if it is
  not negative: \<^verbatim>\<open>fix_round\<close> adds a half and then truncates towards zero, so that every negative whole number
  comes out one too large, and -1 becomes 0.\<close>

lemma fix_int_roundtrip:
  assumes "- 32768 \<le> sint n" "sint n < 32768"
  shows "\<exists>x. fix_int n = Some x \<and> fix_trunc x = n \<and> fix_round x = (if 0 \<le> sint n then n else n + 1)"
proof -
  let ?x = "mk_fix (n * of_int FIX_F)"
  have s: "sint (fix_f ?x) = sint n * 65536" using sint_scaled[OF assms] by (simp add: mk_fix_def)
  have "fix_trunc ?x = n" unfolding fix_trunc_def s unfolding fix_consts scaled_sdiv by simp
  moreover have "fix_f ?x + of_int (FIX_F div 2) = word_of_int (sint n * 65536 + 32768)"
    by (simp add: mk_fix_def fix_consts)
  then have r: "sint (fix_f ?x + of_int (FIX_F div 2)) = sint n * 65536 + 32768"
    using assms sint_word_of_int[of "sint n * 65536 + 32768"] by simp
  have "(sint n * 65536 + 32768) sdiv 65536 = (if 0 \<le> sint n then sint n else sint n + 1)"
  proof (cases "0 \<le> sint n")
    case True
    then have "(sint n * 65536 + 32768) div 65536 = sint n" by simp
    with True show ?thesis by (simp add: signed_divide_int_def sgn_if)
  next
    case False
    then have neg: "sint n * 65536 + 32768 < 0" by simp
    have "- (sint n * 65536 + 32768) = 32768 + (- sint n - 1) * 65536" by simp
    then have "(- (sint n * 65536 + 32768)) div 65536 = - sint n - 1" by simp
    with False neg show ?thesis by (simp add: signed_divide_int_def sgn_if)
  qed
  then have "fix_round ?x = (if 0 \<le> sint n then n else n + 1)"
    unfolding fix_round_def r unfolding fix_consts by simp
  moreover have "fix_int n = Some ?x" using assms by (simp add: fix_int_def fix_consts)
  ultimately show ?thesis by blast
qed

lemma fix_int_roundtrip_witness: "\<exists>x. fix_int (-1) = Some x \<and> fix_trunc x = -1 \<and> fix_round x = 0"
  using fix_int_roundtrip[of "-1"] by simp

text \<open>The assertion of \<^verbatim>\<open>fix_int\<close> lets through integers that the format cannot hold: of the integers up to
  65535 it accepts, those from 32768 on overflow, and come back as negative numbers.\<close>

lemma fix_int_overflows:
  assumes "32768 \<le> sint n" "sint n \<le> 65535"
  shows "\<exists>x. fix_int n = Some x \<and> sint (fix_f x) = (sint n - 65536) * 65536 \<and> sint (fix_trunc x) = sint n - 65536"
proof -
  let ?x = "mk_fix (n * of_int FIX_F)"
  have "(65536 :: u32) * 65536 = 0" by simp
  then have "n * of_int FIX_F = word_of_int ((sint n - 65536) * 65536)"
    by (simp add: fix_consts left_diff_distrib)
  then have s: "sint (fix_f ?x) = (sint n - 65536) * 65536"
    using assms sint_word_of_int[of "(sint n - 65536) * 65536"] by (simp add: mk_fix_def)
  have "sint n - 65536 < 2 ^ 31" "- (2 ^ 31) \<le> sint n - 65536" using assms by simp_all
  then have "sint (fix_trunc ?x) = sint n - 65536"
    unfolding fix_trunc_def s unfolding fix_consts scaled_sdiv using sint_word_of_int[of "sint n - 65536"] by simp
  moreover have "fix_int n = Some ?x" using assms by (simp add: fix_int_def fix_consts)
  ultimately show ?thesis using s by blast
qed

lemma fix_int_overflows_witness: "\<exists>x. fix_int 40000 = Some x \<and> sint (fix_trunc x) = -25536"
  using fix_int_overflows[of 40000] by auto

end
