(* ===== verification/Stdlib.thy ===== *)
theory Stdlib
  imports CString List_Sort Fixed_Point
begin

unbundle bit_operations_syntax

text \<open>
  The standard library of the kernel and of user programs, after \<^verbatim>\<open>lib/stdlib.c\<close>: reading numbers, heap sort and
  binary search. The functions on arrays are given on the list of the array's elements; the loop of
  \<^verbatim>\<open>do_swap\<close> over the bytes of two elements exchanges the elements. An index is a natural number, which is what
  the code computes as long as twice the number of elements fits a \<^verbatim>\<open>size_t\<close>.
\<close>

section \<open>Definitions\<close>

text \<open>From \<^verbatim>\<open>ctype.h\<close>.\<close>

definition isdigit :: "u8 \<Rightarrow> bool" where "isdigit c \<longleftrightarrow> c \<ge> 48 \<and> c \<le> 57"

definition isspace :: "u8 \<Rightarrow> bool" where
  "isspace c \<longleftrightarrow> c = 32 \<or> c = 12 \<or> c = 10 \<or> c = 13 \<or> c = 9 \<or> c = 11"

partial_function (option) atoi_skip :: "u32 \<Rightarrow> mem \<Rightarrow> u32 option" where
  "atoi_skip s m = (if isspace (m s) then atoi_skip (s + 1) m else Some s)"

partial_function (option) atoi_digits :: "u32 \<Rightarrow> u32 \<Rightarrow> mem \<Rightarrow> u32 option" where
  "atoi_digits s v m =
     (if isdigit (m s) then atoi_digits (s + 1) (v * 10 - (ucast (m s) - 48)) m else Some v)"

definition atoi :: "u32 \<Rightarrow> mem \<Rightarrow> u32 option" where
  "atoi s m =
     ASSERT (s \<noteq> 0) (
     Option.bind (atoi_skip s m) (\<lambda>s.
     let negative = (m s = 45);
         s = (if m s = 43 \<or> m s = 45 then s + 1 else s) in
     Option.bind (atoi_digits s 0 m) (\<lambda>v. Some (if \<not> negative then - v else v))))"

text \<open>Elements by 1-based index.\<close>

abbreviation elem :: "'a list \<Rightarrow> nat \<Rightarrow> 'a" where "elem xs i \<equiv> xs ! (i - 1)"

definition do_swap :: "nat \<Rightarrow> nat \<Rightarrow> 'a list \<Rightarrow> 'a list" where
  "do_swap a_idx b_idx xs = xs[a_idx - 1 := elem xs b_idx, b_idx - 1 := elem xs a_idx]"

definition do_compare :: "('a \<Rightarrow> 'a \<Rightarrow> int) \<Rightarrow> 'a list \<Rightarrow> nat \<Rightarrow> nat \<Rightarrow> int" where
  "do_compare compare xs a_idx b_idx = compare (elem xs a_idx) (elem xs b_idx)"

definition heapify_max :: "('a \<Rightarrow> 'a \<Rightarrow> int) \<Rightarrow> nat \<Rightarrow> nat \<Rightarrow> 'a list \<Rightarrow> nat" where
  "heapify_max compare i cnt xs =
     (let left = 2 * i; right = 2 * i + 1; max = i;
          max = (if left \<le> cnt \<and> do_compare compare xs left max > 0 then left else max) in
      if right \<le> cnt \<and> do_compare compare xs right max > 0 then right else max)"

function heapify :: "('a \<Rightarrow> 'a \<Rightarrow> int) \<Rightarrow> nat \<Rightarrow> nat \<Rightarrow> 'a list \<Rightarrow> 'a list" where
  "heapify compare i cnt xs =
     (let max = heapify_max compare i cnt xs in
      if max = i then xs else heapify compare max cnt (do_swap i max xs))"
  by pat_completeness auto
termination
  by (relation "measure (\<lambda>(c, i, cnt, xs). cnt - i)") (auto simp: heapify_max_def Let_def split: if_splits)

primrec build_heap :: "('a \<Rightarrow> 'a \<Rightarrow> int) \<Rightarrow> nat \<Rightarrow> nat \<Rightarrow> 'a list \<Rightarrow> 'a list" where
  "build_heap compare cnt 0 xs = xs"
| "build_heap compare cnt (Suc i) xs = build_heap compare cnt i (heapify compare (Suc i) cnt xs)"

fun sort_heap :: "('a \<Rightarrow> 'a \<Rightarrow> int) \<Rightarrow> nat \<Rightarrow> 'a list \<Rightarrow> 'a list" where
  "sort_heap compare i xs =
     (if i > 1 then sort_heap compare (i - 1) (heapify compare 1 (i - 1) (do_swap 1 i xs)) else xs)"

definition sort_array :: "('a \<Rightarrow> 'a \<Rightarrow> int) \<Rightarrow> 'a list \<Rightarrow> 'a list" where
  "sort_array compare xs = sort_heap compare (length xs) (build_heap compare (length xs) (length xs div 2) xs)"

definition qsort :: "('a \<Rightarrow> 'a \<Rightarrow> int) \<Rightarrow> 'a list \<Rightarrow> 'a list" where
  "qsort compare xs = sort_array compare xs"

text \<open>The result is the index of the element found.\<close>

function binary_search_loop :: "('k \<Rightarrow> 'a \<Rightarrow> int) \<Rightarrow> 'k \<Rightarrow> 'a list \<Rightarrow> nat \<Rightarrow> nat \<Rightarrow> nat option" where
  "binary_search_loop compare key xs first lst =
     (if first < lst then
        let range = lst - first; middle = first + range div 2; cmp = compare key (xs ! middle) in
        if cmp < 0 then binary_search_loop compare key xs first middle
        else if cmp > 0 then binary_search_loop compare key xs (middle + 1) lst
        else Some middle
      else None)"
  by pat_completeness auto
termination
  by (relation "measure (\<lambda>(c, k, xs, f, l). l - f)") auto

definition binary_search :: "('k \<Rightarrow> 'a \<Rightarrow> int) \<Rightarrow> 'k \<Rightarrow> 'a list \<Rightarrow> nat option" where
  "binary_search compare key xs = binary_search_loop compare key xs 0 (length xs)"

definition bsearch :: "('k \<Rightarrow> 'a \<Rightarrow> int) \<Rightarrow> 'k \<Rightarrow> 'a list \<Rightarrow> nat option" where
  "bsearch compare key xs = binary_search compare key xs"

declare heapify.simps [simp del] sort_heap.simps [simp del] binary_search_loop.simps [simp del]

section \<open>Comparison functions\<close>

text \<open>What the comments ask of a comparison function: a \<^verbatim>\<open>strcmp\<close>-type result.\<close>

locale compare_func =
  fixes cmp :: "'a \<Rightarrow> 'a \<Rightarrow> int"
  assumes cmp_swap: "cmp x y > 0 \<longleftrightarrow> cmp y x < 0"
    and cmp_trans: "cmp x y \<le> 0 \<Longrightarrow> cmp y z \<le> 0 \<Longrightarrow> cmp x z \<le> 0"
begin

lemma cmp_refl: "cmp x x = 0"
  using cmp_swap[of x x] by linarith

lemma cmp_ge: "cmp x y > 0 \<Longrightarrow> cmp y x \<le> 0"
  using cmp_swap by (metis less_imp_le)

lemma cmp_total: "cmp x y \<le> 0 \<or> cmp y x \<le> 0"
  using cmp_ge[of x y] by linarith

end

sublocale compare_func \<subseteq> lt: less_func "\<lambda>x y. cmp x y < 0"
proof
  fix x y z
  show "cmp x y < 0 \<Longrightarrow> \<not> cmp y x < 0" using cmp_swap[of y x] by linarith
  show "\<not> cmp y x < 0 \<Longrightarrow> \<not> cmp z y < 0 \<Longrightarrow> \<not> cmp z x < 0"
    using cmp_swap[of x y] cmp_swap[of y z] cmp_swap[of x z] cmp_trans[of x y z] by linarith
qed

interpretation fixed_order: compare_func fix_compare
  by unfold_locales (auto simp: fix_compare_def split: if_splits)


section \<open>Heaps\<close>

text \<open>\<open>child c i\<close>: the element \<open>c\<close> is a child of \<open>i\<close> among the first \<open>cnt\<close>.\<close>

abbreviation (input) child :: "nat \<Rightarrow> nat \<Rightarrow> nat \<Rightarrow> bool" where
  "child cnt c i \<equiv> (c = 2 * i \<or> c = 2 * i + 1) \<and> c \<le> cnt"

definition heap_at :: "('a \<Rightarrow> 'a \<Rightarrow> int) \<Rightarrow> nat \<Rightarrow> 'a list \<Rightarrow> nat \<Rightarrow> bool" where
  "heap_at cmp cnt xs i \<longleftrightarrow> (\<forall>c. child cnt c i \<longrightarrow> cmp (elem xs c) (elem xs i) \<le> 0)"

lemma length_do_swap [simp]: "length (do_swap a b xs) = length xs"
  by (simp add: do_swap_def)

lemma elem_do_swap:
  assumes "1 \<le> a" "a \<le> length xs" "1 \<le> b" "b \<le> length xs" "1 \<le> j"
  shows "elem (do_swap a b xs) j = (if j = b then elem xs a else if j = a then elem xs b else elem xs j)"
  using assms by (auto simp: do_swap_def nth_list_update)

lemma mset_do_swap: "1 \<le> a \<Longrightarrow> a \<le> length xs \<Longrightarrow> 1 \<le> b \<Longrightarrow> b \<le> length xs \<Longrightarrow> mset (do_swap a b xs) = mset xs"
  unfolding do_swap_def by (rule mset_swap) auto

lemma heapify_max_cases:
  "heapify_max cmp i cnt xs = i \<or> child cnt (heapify_max cmp i cnt xs) i"
  by (simp add: heapify_max_def Let_def)

lemma heapify_frame:
  assumes "1 \<le> i" "cnt \<le> length xs"
  shows "length (heapify cmp i cnt xs) = length xs \<and> mset (heapify cmp i cnt xs) = mset xs \<and>
    drop cnt (heapify cmp i cnt xs) = drop cnt xs"
  using assms
proof (induction cmp i cnt xs rule: heapify.induct)
  case (1 cmp i cnt xs)
  let ?m = "heapify_max cmp i cnt xs"
  show ?case
  proof (cases "?m = i")
    case True
    then show ?thesis by (subst (1 2 3) heapify.simps) simp
  next
    case False
    then have m: "child cnt ?m i" using heapify_max_cases[of cmp i cnt xs] by simp
    then have r: "1 \<le> ?m" "?m \<le> cnt" "i \<le> cnt" using 1(2) by auto
    then have "drop cnt (do_swap i ?m xs) = drop cnt xs" by (simp add: do_swap_def drop_update_cancel)
    moreover have "mset (do_swap i ?m xs) = mset xs" using r 1(2,3) by (intro mset_do_swap) auto
    ultimately show ?thesis
      using 1(1)[OF refl False r(1)] 1(3) False by (subst (1 2 3) heapify.simps) (simp add: Let_def)
  qed
qed

context compare_func
begin

lemma heapify_max_is_max:
  assumes "1 \<le> i"
  shows "\<And>c. child cnt c i \<Longrightarrow> cmp (elem xs c) (elem xs (heapify_max cmp i cnt xs)) \<le> 0"
    "cmp (elem xs i) (elem xs (heapify_max cmp i cnt xs)) \<le> 0"
proof -
  let ?l = "2 * i" and ?r = "2 * i + 1"
  define m1 where "m1 = (if ?l \<le> cnt \<and> cmp (elem xs ?l) (elem xs i) > 0 then ?l else i)"
  have m: "heapify_max cmp i cnt xs = (if ?r \<le> cnt \<and> cmp (elem xs ?r) (elem xs m1) > 0 then ?r else m1)"
    by (simp add: heapify_max_def Let_def do_compare_def m1_def)
  have 1: "cmp (elem xs i) (elem xs m1) \<le> 0" "?l \<le> cnt \<Longrightarrow> cmp (elem xs ?l) (elem xs m1) \<le> 0"
    using cmp_ge[of "elem xs ?l" "elem xs i"] by (auto simp: m1_def cmp_refl)
  have 2: "cmp (elem xs m1) (elem xs (heapify_max cmp i cnt xs)) \<le> 0"
    using cmp_ge[of "elem xs ?r" "elem xs m1"] by (auto simp: m cmp_refl)
  show "cmp (elem xs i) (elem xs (heapify_max cmp i cnt xs)) \<le> 0" by (rule cmp_trans[OF 1(1) 2])
  have "?r \<le> cnt \<Longrightarrow> cmp (elem xs ?r) (elem xs (heapify_max cmp i cnt xs)) \<le> 0" by (auto simp: m cmp_refl)
  then show "child cnt c i \<Longrightarrow> cmp (elem xs c) (elem xs (heapify_max cmp i cnt xs)) \<le> 0" for c
    using cmp_trans[OF 1(2) 2] by auto
qed

text \<open>Floating an element down repairs the heap when only its own place may be wrong; \<open>k\<close> is the first place that
  has to be in order.\<close>

lemma heapify_heap:
  assumes "1 \<le> k" "k \<le> i" "cnt \<le> length xs"
    "\<And>j. k \<le> j \<Longrightarrow> j \<noteq> i \<Longrightarrow> heap_at cmp cnt xs j"
    "\<And>c. child cnt c i \<Longrightarrow> k \<le> i div 2 \<Longrightarrow> cmp (elem xs c) (elem xs (i div 2)) \<le> 0"
    "k \<le> j"
  shows "heap_at cmp cnt (heapify cmp i cnt xs) j"
  using assms
proof (induction "cnt - i" arbitrary: i xs j rule: less_induct)
  case (less i xs j)
  let ?m = "heapify_max cmp i cnt xs"
  have i: "1 \<le> i" using less.prems by simp
  note mx = heapify_max_is_max[OF i, where cnt = cnt and xs = xs]
  show ?case
  proof (cases "?m = i")
    case True
    then have "heap_at cmp cnt xs i" using mx(1) by (simp add: heap_at_def)
    then have "heap_at cmp cnt xs j" using less.prems(4,6) by (cases "j = i") auto
    then show ?thesis using True by (subst heapify.simps) simp
  next
    case False
    then have m: "child cnt ?m i" using heapify_max_cases[of cmp i cnt xs] by simp
    then have r: "1 \<le> ?m" "?m \<le> length xs" "i \<le> length xs" "i < ?m" "?m div 2 = i" using i less.prems(3) by auto
    let ?ys = "do_swap i ?m xs"
    have el: "elem ?ys j = (if j = ?m then elem xs i else if j = i then elem xs ?m else elem xs j)" if "1 \<le> j" for j
      using r i that by (intro elem_do_swap) auto
    have "heap_at cmp cnt (heapify cmp ?m cnt ?ys) j"
    proof (rule less.hyps)
      show "cnt - ?m < cnt - i" using r m by auto
      show "1 \<le> k" "k \<le> ?m" "cnt \<le> length ?ys" "k \<le> j" using less.prems r by auto
      fix j' assume j': "k \<le> j'" "j' \<noteq> ?m"
      show "heap_at cmp cnt ?ys j'" unfolding heap_at_def
      proof (intro allI impI)
        fix c assume c: "child cnt c j'"
        have jc: "1 \<le> j'" "1 \<le> c" using c j' less.prems(1) by auto
        show "cmp (elem ?ys c) (elem ?ys j') \<le> 0"
        proof (cases "j' = i")
          case True
          then have "c \<noteq> i" using c i by auto
          then show ?thesis using el[OF jc(1)] el[OF jc(2)] True False mx(1)[of c] mx(2) c by auto
        next
          case ne: False
          show ?thesis
          proof (cases "c = i")
            case True
            then have "i div 2 = j'" using c by auto
            then show ?thesis using True ne j' el[OF jc(1)] el[OF jc(2)] less.prems(5)[OF m] False by auto
          next
            case False
            have "c \<noteq> ?m" using c ne r(5) by auto
            then show ?thesis using False ne j' c less.prems(4)[OF j'(1) ne] el[OF jc(1)] el[OF jc(2)] by (auto simp: heap_at_def)
          qed
        qed
      qed
    next
      fix c assume c: "child cnt c ?m" "k \<le> ?m div 2"
      have "heap_at cmp cnt xs ?m" using less.prems(2,4) r(4) by auto
      then have "cmp (elem xs c) (elem xs ?m) \<le> 0" using c(1) by (simp add: heap_at_def)
      moreover have "c \<noteq> ?m" "c \<noteq> i" "1 \<le> c" using c(1) r i by auto
      ultimately show "cmp (elem ?ys c) (elem ?ys (?m div 2)) \<le> 0" using el[of c] el[OF i] r(5) False by auto
    qed
    then show ?thesis using False by (subst heapify.simps) (simp add: Let_def)
  qed
qed

lemma build_heap_spec:
  assumes "i \<le> cnt" "cnt = length xs" "\<And>j. i < j \<Longrightarrow> heap_at cmp cnt xs j"
  shows "length (build_heap cmp cnt i xs) = length xs \<and> mset (build_heap cmp cnt i xs) = mset xs \<and>
    (\<forall>j \<ge> 1. heap_at cmp cnt (build_heap cmp cnt i xs) j)"
  using assms
proof (induction i arbitrary: xs)
  case (Suc i)
  let ?ys = "heapify cmp (Suc i) cnt xs"
  note fr = heapify_frame[of "Suc i" cnt xs cmp]
  have "heap_at cmp cnt ?ys j" if "i < j" for j
    using Suc.prems that by (intro heapify_heap[of "Suc i"]) auto
  then show ?case using Suc.IH[of ?ys] Suc.prems fr by simp
qed auto

lemma heap_root_max:
  assumes "\<And>j. 1 \<le> j \<Longrightarrow> heap_at cmp cnt xs j" "1 \<le> j" "j \<le> cnt"
  shows "cmp (elem xs j) (elem xs 1) \<le> 0"
  using assms(2,3)
proof (induction j rule: less_induct)
  case (less j)
  show ?case
  proof (cases "j = 1")
    case False
    then have "1 \<le> j div 2" "child cnt j (j div 2)" using less.prems by auto
    then have "cmp (elem xs j) (elem xs (j div 2)) \<le> 0" using assms(1) unfolding heap_at_def by blast
    moreover have "cmp (elem xs (j div 2)) (elem xs 1) \<le> 0" using less.IH[of "j div 2"] less.prems False by auto
    ultimately show ?thesis by (rule cmp_trans)
  qed (simp add: cmp_refl)
qed

lemma sort_heap_step:
  assumes i: "1 < i" "i \<le> length xs" and heap: "\<And>j. 1 \<le> j \<Longrightarrow> heap_at cmp i xs j"
    and suf: "sorted_wrt (\<lambda>a b. cmp a b \<le> 0) (drop i xs)"
    and cross: "\<And>a b. a \<in> set (take i xs) \<Longrightarrow> b \<in> set (drop i xs) \<Longrightarrow> cmp a b \<le> 0"
    and zs: "zs = heapify cmp 1 (i - 1) (do_swap 1 i xs)"
  shows "length zs = length xs" "mset zs = mset xs" "\<And>j. 1 \<le> j \<Longrightarrow> heap_at cmp (i - 1) zs j"
    "sorted_wrt (\<lambda>a b. cmp a b \<le> 0) (drop (i - 1) zs)"
    "\<And>a b. a \<in> set (take (i - 1) zs) \<Longrightarrow> b \<in> set (drop (i - 1) zs) \<Longrightarrow> cmp a b \<le> 0"
proof -
  let ?ys = "do_swap 1 i xs"
  have el: "elem ?ys j = (if j = i then elem xs 1 else if j = 1 then elem xs i else elem xs j)" if "1 \<le> j" for j
    using i that by (intro elem_do_swap) auto
  have fr: "length zs = length ?ys" "mset zs = mset ?ys" "drop (i - 1) zs = drop (i - 1) ?ys"
    using heapify_frame[of 1 "i - 1" ?ys cmp] i zs by simp_all
  show "length zs = length xs" using fr by simp
  show "mset zs = mset xs" using fr i mset_do_swap[of 1 xs i] by simp
  show "heap_at cmp (i - 1) zs j" if "1 \<le> j" for j
    unfolding zs
  proof (rule heapify_heap[of 1])
    show "heap_at cmp (i - 1) ?ys j'" if "1 \<le> j'" "j' \<noteq> 1" for j'
      unfolding heap_at_def
    proof (intro allI impI)
      fix c assume c: "child (i - 1) c j'"
      have "2 * j' \<le> c" "c + 1 \<le> i" using c i(1) by linarith+
      then have cs: "1 \<le> c" "c \<noteq> 1" "c \<noteq> i" and "j' \<noteq> i" using that(1) by linarith+
      then have "elem ?ys c = elem xs c" "elem ?ys j' = elem xs j'" using el[OF cs(1)] el[OF that(1)] cs that by simp_all
      moreover have "child i c j'" using c by linarith
      ultimately show "cmp (elem ?ys c) (elem ?ys j') \<le> 0" using heap[OF that(1)] unfolding heap_at_def by metis
    qed
  qed (use i that in auto)
  have dr: "drop (i - 1) ?ys = elem xs 1 # drop i xs"
  proof -
    have "drop (i - 1) ?ys = ?ys ! (i - 1) # drop i ?ys" using i Cons_nth_drop_Suc[of "i - 1" ?ys] by simp
    moreover have "drop i ?ys = drop i xs" using i by (simp add: do_swap_def drop_update_cancel)
    ultimately show ?thesis using el[of i] i by simp
  qed
  have e1: "elem xs 1 \<in> set (take i xs)" using i by (auto simp: in_set_conv_nth intro!: exI[of _ 0])
  show "sorted_wrt (\<lambda>a b. cmp a b \<le> 0) (drop (i - 1) zs)"
    unfolding fr(3) dr using suf cross[OF e1] by simp
  have mt: "mset (take (i - 1) zs) = mset (take (i - 1) ?ys)"
    using fr(2,3) by (metis append_take_drop_id mset_append add_right_cancel)
  fix a b assume a: "a \<in> set (take (i - 1) zs)" and b: "b \<in> set (drop (i - 1) zs)"
  have "a \<in> set (take (i - 1) ?ys)" using a mt by (metis set_mset_mset)
  then obtain n where n: "n < i - 1" "a = ?ys ! n" by (auto simp: in_set_conv_nth)
  moreover have "Suc n \<noteq> i" using n(1) by linarith
  ultimately have "a = (if n = 0 then elem xs i else elem xs (Suc n))" using el[of "Suc n"] by simp
  then obtain j where j: "1 \<le> j" "j \<le> i" "a = elem xs j"
    using n(1) i that[of i] that[of "Suc n"] by (cases "n = 0") simp_all
  have ain: "a \<in> set (take i xs)" using j i by (auto simp: in_set_conv_nth intro!: exI[of _ "j - 1"])
  have "cmp a (elem xs 1) \<le> 0" using heap_root_max[OF heap j(1,2)] j(3) by simp
  then show "cmp a b \<le> 0" using b cross[OF ain] unfolding fr(3) dr by auto
qed

lemma sort_heap_spec:
  assumes "i \<le> length xs" "\<And>j. 1 \<le> j \<Longrightarrow> heap_at cmp i xs j" "sorted_wrt (\<lambda>a b. cmp a b \<le> 0) (drop i xs)"
    "\<And>a b. a \<in> set (take i xs) \<Longrightarrow> b \<in> set (drop i xs) \<Longrightarrow> cmp a b \<le> 0"
  shows "mset (sort_heap cmp i xs) = mset xs \<and> sorted_wrt (\<lambda>a b. cmp a b \<le> 0) (sort_heap cmp i xs)"
  using assms
proof (induction i arbitrary: xs)
  case 0
  then show ?case by (simp add: sort_heap.simps)
next
  case (Suc i)
  show ?case
  proof (cases "1 < Suc i")
    case False
    then have "xs = take 1 xs @ drop 1 xs" "Suc i = 1" by simp_all
    moreover have "sorted_wrt (\<lambda>a b. cmp a b \<le> 0) (take 1 xs)" by (cases xs) auto
    ultimately have "sorted_wrt (\<lambda>a b. cmp a b \<le> 0) (take 1 xs @ drop 1 xs)"
      using Suc.prems(3,4) unfolding sorted_wrt_append by auto
    then show ?thesis using False by (subst (1 2) sort_heap.simps) simp
  next
    case True
    define zs where "zs = heapify cmp 1 (Suc i - 1) (do_swap 1 (Suc i) xs)"
    note st = sort_heap_step[OF True Suc.prems zs_def]
    have "mset (sort_heap cmp i zs) = mset zs \<and> sorted_wrt (\<lambda>a b. cmp a b \<le> 0) (sort_heap cmp i zs)"
      using st Suc.prems(1) by (intro Suc.IH) auto
    moreover have "sort_heap cmp (Suc i) xs = sort_heap cmp i zs" using True by (subst sort_heap.simps) (simp add: zs_def)
    ultimately show ?thesis using st(2) by simp
  qed
qed

lemma sort_array_spec: "mset (sort_array cmp xs) = mset xs \<and> sorted_wrt (\<lambda>a b. cmp a b \<le> 0) (sort_array cmp xs)"
proof -
  let ?n = "length xs" and ?b = "build_heap cmp (length xs) (length xs div 2) xs"
  have "heap_at cmp ?n xs j" if "?n div 2 < j" for j using that by (auto simp: heap_at_def)
  then have b: "length ?b = ?n" "mset ?b = mset xs" "\<And>j. 1 \<le> j \<Longrightarrow> heap_at cmp ?n ?b j"
    using build_heap_spec[of "?n div 2" ?n xs] by auto
  then show ?thesis using sort_heap_spec[of ?n ?b] by (simp add: sort_array_def)
qed

end

section \<open>Properties\<close>

text \<open>The elements from \<open>lst\<close> on are too large, those before \<open>first\<close> too small.\<close>

lemma binary_search_loop_spec:
  assumes mono: "\<And>i j. i < j \<Longrightarrow> j < length xs \<Longrightarrow> (cmp key (xs ! i) < 0 \<longrightarrow> cmp key (xs ! j) < 0) \<and> (cmp key (xs ! j) > 0 \<longrightarrow> cmp key (xs ! i) > 0)"
    and "lst \<le> length xs" "\<And>i. i < first \<Longrightarrow> cmp key (xs ! i) > 0" "\<And>i. lst \<le> i \<Longrightarrow> i < length xs \<Longrightarrow> cmp key (xs ! i) < 0"
  shows "case binary_search_loop cmp key xs first lst of
      None \<Rightarrow> \<forall>x \<in> set xs. cmp key x \<noteq> 0
    | Some i \<Rightarrow> i < length xs \<and> cmp key (xs ! i) = (0 :: int)"
  using assms(2-)
proof (induction "lst - first" arbitrary: first lst rule: less_induct)
  case less
  show ?case
  proof (cases "first < lst")
    case False
    then have "cmp key (xs ! i) \<noteq> 0" if "i < length xs" for i
      using less.prems(2)[of i] less.prems(3)[of i] that by (cases "i < first") auto
    then show ?thesis using False by (subst binary_search_loop.simps) (auto simp: in_set_conv_nth)
  next
    case True
    define mid where "mid = first + (lst - first) div 2"
    have mid: "first \<le> mid" "mid < lst" "mid < length xs" using True less.prems(1) by (auto simp: mid_def)
    have eq: "binary_search_loop cmp key xs first lst =
        (if cmp key (xs ! mid) < 0 then binary_search_loop cmp key xs first mid
         else if cmp key (xs ! mid) > 0 then binary_search_loop cmp key xs (mid + 1) lst else Some mid)"
      using True by (subst binary_search_loop.simps) (simp add: Let_def mid_def)
    consider "cmp key (xs ! mid) < 0" | "cmp key (xs ! mid) > 0" | "cmp key (xs ! mid) = 0" by linarith
    then show ?thesis
    proof cases
      case 1
      have "cmp key (xs ! i) < 0" if "mid \<le> i" "i < length xs" for i
        using mono[of mid i] that 1 by (cases "i = mid") auto
      then show ?thesis unfolding eq using 1 less.hyps[of mid first] less.prems(2) mid by simp
    next
      case 2
      have "cmp key (xs ! i) > 0" if "i < mid + 1" for i
        using mono[of i mid] that 2 mid(3) by (cases "i = mid") auto
      then have "case binary_search_loop cmp key xs (mid + 1) lst of None \<Rightarrow> \<forall>x \<in> set xs. cmp key x \<noteq> 0
          | Some i \<Rightarrow> i < length xs \<and> cmp key (xs ! i) = 0" using less.hyps[of lst "mid + 1"] less.prems(1,3) mid by simp
      moreover have "binary_search_loop cmp key xs first lst = binary_search_loop cmp key xs (mid + 1) lst"
        using 2 eq by simp
      ultimately show ?thesis by simp
    next
      case 3
      then show ?thesis unfolding eq using mid by simp
    qed
  qed
qed

section \<open>Numbers\<close>

definition digit_val :: "u8 \<Rightarrow> int" where "digit_val c = int (unat c) - 48"

definition num_val :: "u8 list \<Rightarrow> int" where "num_val ds = foldl (\<lambda>v c. v * 10 + digit_val c) 0 ds"

text \<open>The decimal digits of a number.\<close>

fun digits :: "nat \<Rightarrow> u8 list" where
  "digits n = (if n < 10 then [of_nat (48 + n)] else digits (n div 10) @ [of_nat (48 + n mod 10)])"

declare digits.simps [simp del]

lemma isdigit_of_nat: "k < 10 \<Longrightarrow> isdigit (of_nat (48 + k)) \<and> digit_val (of_nat (48 + k)) = int k"
  by (simp add: isdigit_def digit_val_def word_le_nat_alt unat_of_nat del: of_nat_add of_nat_numeral)

lemma digits_spec: "digits n \<noteq> [] \<and> (\<forall>c \<in> set (digits n). isdigit c) \<and> num_val (digits n) = int n"
proof (induction n rule: less_induct)
  case (less n)
  show ?case
  proof (cases "n < 10")
    case True
    then show ?thesis using isdigit_of_nat[of n] by (simp add: digits.simps[of n] num_val_def del: of_nat_add)
  next
    case False
    then have "num_val (digits n) = int (n div 10) * 10 + int (n mod 10)"
      using less[of "n div 10"] isdigit_of_nat[of "n mod 10"] by (simp add: digits.simps[of n] num_val_def del: of_nat_add)
    also have "\<dots> = int n" unfolding of_nat_div of_nat_mod of_nat_numeral by (rule div_mult_mod_eq)
    finally show ?thesis using False less[of "n div 10"] isdigit_of_nat[of "n mod 10"]
      by (simp add: digits.simps[of n] del: of_nat_add)
  qed
qed

lemma atoi_digits_eq:
  assumes "str_at m s (ds @ rest)" "\<forall>c \<in> set ds. isdigit c" "rest = [] \<or> \<not> isdigit (hd rest)"
  shows "atoi_digits s (word_of_int (- v)) m = Some (word_of_int (- foldl (\<lambda>v c. v * 10 + digit_val c) v ds))"
  using assms
proof (induction ds arbitrary: s v)
  case Nil
  then have "\<not> isdigit (m s)" by (cases rest) (auto simp: isdigit_def)
  then show ?case by (subst atoi_digits.simps) simp
next
  case (Cons c ds)
  have step: "word_of_int (- v) * 10 - (ucast c - 48) = (word_of_int (- (v * 10 + digit_val c)) :: u32)"
    by (simp add: digit_val_def algebra_simps)
  have "atoi_digits (s + 1) (word_of_int (- v) * 10 - (ucast (m s) - 48)) m =
      Some (word_of_int (- foldl (\<lambda>v c. v * 10 + digit_val c) v (c # ds)))"
    using Cons.IH[of "s + 1" "v * 10 + digit_val c"] Cons.prems unfolding step[symmetric] by auto
  then show ?case using Cons.prems by (subst atoi_digits.simps) simp
qed

lemma atoi_skip_eq:
  assumes "str_at m s (ws @ rest)" "\<forall>c \<in> set ws. isspace c" "rest \<noteq> []" "\<not> isspace (hd rest)"
  shows "atoi_skip s m = Some (s + of_nat (length ws))"
  using assms
proof (induction ws arbitrary: s)
  case Nil
  then have "\<not> isspace (m s)" by (cases rest) auto
  then show ?case by (subst atoi_skip.simps) simp
next
  case (Cons c ws)
  then show ?case by (subst atoi_skip.simps) (simp add: algebra_simps)
qed

lemma digit_not_space: "isdigit c \<Longrightarrow> \<not> isspace c \<and> c \<noteq> 43 \<and> c \<noteq> 45"
  by (auto simp: isdigit_def isspace_def)

lemma atoi_eq:
  assumes s: "str_at m s (ws @ sg @ ds @ rest)" and ws: "\<forall>c \<in> set ws. isspace c" and sg: "sg \<in> {[], [43], [45]}"
    and ds: "ds \<noteq> []" "\<forall>c \<in> set ds. isdigit c" and rest: "rest = [] \<or> \<not> isdigit (hd rest)"
  shows "atoi s m = Some (word_of_int (if sg = [45] then - num_val ds else num_val ds))"
proof -
  let ?s = "s + of_nat (length ws)"
  obtain d ds' where d: "ds = d # ds'" "isdigit d" using ds by (cases ds) auto
  have "\<not> isspace (hd (sg @ ds @ rest))" using sg digit_not_space[OF d(2)] d(1) by (auto simp: isspace_def)
  then have sk: "atoi_skip s m = Some ?s" using atoi_skip_eq[OF s ws] ds(1) by simp
  have s1: "str_at m ?s (sg @ ds @ rest)" by (rule str_at_drop[OF s])
  have s2: "str_at m (?s + of_nat (length sg)) (ds @ rest)" by (rule str_at_drop[OF s1])
  note dg = atoi_digits_eq[OF s2 ds(2) rest, of 0, folded num_val_def]
  have "m ?s = hd (sg @ ds @ rest)" using s1 sg d(1) by auto
  then show ?thesis
    using sk dg sg d digit_not_space[OF d(2)] str_at_nonnull[OF s] by (auto simp: atoi_def Let_def)
qed

text \<open>C17. \<^verbatim>\<open>sort\<close> (and \<^verbatim>\<open>qsort\<close>, which calls it) leaves the array with the same elements in
  ascending order, for every comparison function with a \<^verbatim>\<open>strcmp\<close>-type result.\<close>

theorem qsort_sorts:
  assumes "compare_func cmp"
  shows "mset (qsort cmp xs) = mset xs \<and> sorted_wrt (\<lambda>a b. cmp a b \<le> 0) (qsort cmp xs)"
  using compare_func.sort_array_spec[OF assms] by (simp add: qsort_def)

theorem qsort_sorts_witness:
  "sorted_wrt (\<lambda>a b. fix_compare a b \<le> 0) (qsort fix_compare [mk_fix 3, mk_fix 1, mk_fix (-2)])"
  using qsort_sorts[OF fixed_order.compare_func_axioms] by blast


text \<open>\<^verbatim>\<open>binary_search\<close> on an array in ascending order finds an element that compares equal to the key if and only
  if there is one.\<close>

lemma binary_search_correct:
  assumes "\<And>i j. i < j \<Longrightarrow> j < length xs \<Longrightarrow>
      (compare key (xs ! i) < 0 \<longrightarrow> compare key (xs ! j) < 0) \<and> (compare key (xs ! j) > 0 \<longrightarrow> compare key (xs ! i) > 0)"
  shows "case bsearch compare key xs of
      None \<Rightarrow> \<forall>x \<in> set xs. compare key x \<noteq> 0
    | Some i \<Rightarrow> i < length xs \<and> compare key (xs ! i) = (0 :: int)"
  unfolding bsearch_def binary_search_def by (rule binary_search_loop_spec) (use assms in auto)

lemma binary_search_correct_witness:
  "case bsearch (\<lambda>k x. k - x) 5 [2, 5, 9 :: int] of None \<Rightarrow> \<forall>x \<in> set [2, 5, 9 :: int]. 5 - x \<noteq> 0 | Some i \<Rightarrow> i < 3 \<and> 5 - [2, 5, 9 :: int] ! i = 0"
proof -
  have "(5 - [2, 5, 9 :: int] ! i < 0 \<longrightarrow> 5 - [2, 5, 9 :: int] ! j < 0) \<and> (5 - [2, 5, 9 :: int] ! j > 0 \<longrightarrow> 5 - [2, 5, 9 :: int] ! i > 0)"
    if "i < j" "j < length [2, 5, 9 :: int]" for i j
    using that by (auto simp: nth_Cons split: nat.splits)
  from binary_search_correct[of "[2, 5, 9 :: int]" "\<lambda>k x. k - x" 5, OF this] show ?thesis by (simp split: option.splits)
qed

text \<open>Writing any 32-bit integer in decimal, with a minus sign if it is negative, and reading it with
  \<^verbatim>\<open>atoi\<close> gives the integer back, the least one included; leading white space and whatever follows the digits
  do not matter.\<close>

lemma atoi_roundtrip:
  assumes "str_at m s (ws @ (if sint n < 0 then [45] else []) @ digits (nat \<bar>sint n\<bar>) @ rest)"
    "\<forall>c \<in> set ws. isspace c" "rest = [] \<or> \<not> isdigit (hd rest)"
  shows "atoi s m = Some n"
proof -
  have d: "digits (nat \<bar>sint n\<bar>) \<noteq> []" "\<forall>c \<in> set (digits (nat \<bar>sint n\<bar>)). isdigit c" "num_val (digits (nat \<bar>sint n\<bar>)) = \<bar>sint n\<bar>"
    using digits_spec[of "nat \<bar>sint n\<bar>"] by auto
  have "atoi s m = Some (word_of_int (if sint n < 0 then - \<bar>sint n\<bar> else \<bar>sint n\<bar>))"
    using atoi_eq[OF assms(1,2) _ d(1,2) assms(3)] unfolding d(3) by auto
  then show ?thesis by (auto split: if_splits)
qed

lemma atoi_roundtrip_witness: "atoi 16 (write_bytes (\<lambda>_. 0) 16 [32, 45, 52, 50]) = Some (-42)"
proof -
  have "digits 42 = [52, 50]" by (simp add: digits.simps)
  then show ?thesis
    by (intro atoi_roundtrip[of _ _ "[32]" _ "[]"]) (simp_all add: write_bytes_def isspace_def)
qed

end
