(* ===== verification/Printf.thy ===== *)
theory Printf
  imports Stdlib
begin

text \<open>
  Formatted output (\<^verbatim>\<open>lib/stdio.c\<close>). The output function of the code is called once per character; here a function gives
  the list of these characters. Formats and strings are byte strings without the terminating zero, and the variable arguments are
  a list: taking an argument of another kind, or one too many, is \<open>None\<close>, and so are a write beyond the buffer for digits and a
  read beyond the end of the format.
\<close>

section \<open>Definitions\<close>

text \<open>A word of the stack, two words, a string (or the null pointer), and a floating-point number \<open>d\<close> as the code sees it: its whole
  part \<^verbatim>\<open>(int) d\<close>, the value of \<^verbatim>\<open>(int) ((d - first) * powers[precision])\<close> for each precision from 0 to 9, and whether \<^verbatim>\<open>d < 0\<close>.\<close>

datatype va = Word u32 | Wide u64 | Str "u8 list option" | Dbl int "int list" bool

definition next_word :: "va list \<Rightarrow> (u32 \<times> va list) option" where
  "next_word args = (case args of Word w # rest \<Rightarrow> Some (w, rest) | _ \<Rightarrow> None)"

definition next_wide :: "va list \<Rightarrow> (u64 \<times> va list) option" where
  "next_wide args = (case args of Wide w # rest \<Rightarrow> Some (w, rest) | _ \<Rightarrow> None)"

definition MINUS :: u32 where "MINUS = 1"
definition PLUS :: u32 where "PLUS = 2"
definition SPACE :: u32 where "SPACE = 4"
definition POUND :: u32 where "POUND = 8"
definition ZERO :: u32 where "ZERO = 16"
definition GROUP :: u32 where "GROUP = 32"

datatype conv_type = CHAR_type | SHORT_type | INT_type | INTMAX_type | LONG_type | LONGLONG_type | PTRDIFFT_type | SIZET_type

record printf_conversion =
  c_flags :: u32
  c_width :: int
  c_precision :: int
  c_type :: conv_type

record integer_base =
  b_base :: int
  b_digits :: "u8 list"
  b_x :: u8
  b_group :: int

definition ascii :: "string \<Rightarrow> u8 list" where "ascii s = map of_char s"

definition base_d :: integer_base where
  "base_d = \<lparr>b_base = 10, b_digits = ascii ''0123456789'', b_x = 0, b_group = 3\<rparr>"
definition base_o :: integer_base where
  "base_o = \<lparr>b_base = 8, b_digits = ascii ''01234567'', b_x = 0, b_group = 3\<rparr>"
definition base_x :: integer_base where
  "base_x = \<lparr>b_base = 16, b_digits = ascii ''0123456789abcdef'', b_x = 120, b_group = 4\<rparr>"
definition base_X :: integer_base where
  "base_X = \<lparr>b_base = 16, b_digits = ascii ''0123456789ABCDEF'', b_x = 88, b_group = 4\<rparr>"

definition DEFAULT_FLOAT_PRECISION :: int where "DEFAULT_FLOAT_PRECISION = 6"
definition MAX_FLOAT_PRECISION :: int where "MAX_FLOAT_PRECISION = 9"

subsection \<open>Parsing a conversion\<close>

text \<open>The character at the start of what is left of the format.\<close>

definition cur :: "u8 list \<Rightarrow> u8" where "cur f = (case f of [] \<Rightarrow> 0 | c # _ \<Rightarrow> c)"

definition int32 :: "int \<Rightarrow> int" where "int32 x = sint (word_of_int x :: u32)"

fun parse_flags :: "u8 list \<Rightarrow> u32 \<Rightarrow> u8 list \<times> u32" where
  "parse_flags [] flags = ([], flags)"
| "parse_flags (c # f) flags =
     (if c = 45 then parse_flags f (flags OR MINUS)
      else if c = 43 then parse_flags f (flags OR PLUS)
      else if c = 32 then parse_flags f (flags OR SPACE)
      else if c = 35 then parse_flags f (flags OR POUND)
      else if c = 48 then parse_flags f (flags OR ZERO)
      else if c = 39 then parse_flags f (flags OR GROUP)
      else (c # f, flags))"

fun parse_number :: "u8 list \<Rightarrow> int \<Rightarrow> u8 list \<times> int" where
  "parse_number [] v = ([], v)"
| "parse_number (c # f) v = (if isdigit c then parse_number f (int32 (v * 10 + uint c - 48)) else (c # f, v))"

definition parse_type :: "u8 list \<Rightarrow> u8 list \<times> conv_type" where
  "parse_type f =
     (if cur f = 104 then if cur (tl f) = 104 then (tl (tl f), CHAR_type) else (tl f, SHORT_type)
      else if cur f = 106 then (tl f, INTMAX_type)
      else if cur f = 108 then if cur (tl f) = 108 then (tl (tl f), LONGLONG_type) else (tl f, LONG_type)
      else if cur f = 116 then (tl f, PTRDIFFT_type)
      else if cur f = 122 then (tl f, SIZET_type)
      else (f, INT_type))"

definition parse_conversion :: "u8 list \<Rightarrow> va list \<Rightarrow> (u8 list \<times> printf_conversion \<times> va list) option" where
  "parse_conversion format args =
     (let (f, flags) = parse_flags format 0;
          flags = (if flags AND MINUS \<noteq> 0 then flags AND NOT ZERO else flags);
          flags = (if flags AND PLUS \<noteq> 0 then flags AND NOT SPACE else flags) in
      Option.bind (if cur f = 42 then Option.bind (next_word args) (\<lambda>(w, args). Some (tl f, sint w, args))
                   else let (f, v) = parse_number f 0 in Some (f, v, args)) (\<lambda>(f, width, args).
      let (width, flags) = (if width < 0 then (int32 (- width), flags OR MINUS) else (width, flags)) in
      Option.bind (if cur f = 46 then
                     if cur (tl f) = 42 then Option.bind (next_word args) (\<lambda>(w, args). Some (tl (tl f), sint w, args))
                     else let (f, v) = parse_number (tl f) 0 in Some (f, v, args)
                   else Some (f, -1, args)) (\<lambda>(f, precision, args).
      let precision = (if precision < 0 then -1 else precision);
          flags = (if precision \<ge> 0 then flags AND NOT ZERO else flags);
          (f, type) = parse_type f in
      Some (f, \<lparr>c_flags = flags, c_width = width, c_precision = precision, c_type = type\<rparr>, args))))"

subsection \<open>Conversions\<close>

text \<open>The buffer for digits has room for 64; the digits are in it in reverse.\<close>

definition push :: "u8 \<Rightarrow> u8 list \<Rightarrow> u8 list option" where "push c buf = ASSERT (length buf < 64) (Some (buf @ [c]))"

partial_function (option) digit_loop :: "integer_base \<Rightarrow> bool \<Rightarrow> u64 \<Rightarrow> int \<Rightarrow> u8 list \<Rightarrow> u8 list option" where
  "digit_loop b grouped val digit_cnt buf =
     (if 0 < val then
        Option.bind (if grouped \<and> 0 < digit_cnt \<and> digit_cnt mod b_group b = 0 then push 44 buf else Some buf) (\<lambda>buf.
        Option.bind (lookup_at (b_digits b) (unat (val mod word_of_int (b_base b)))) (\<lambda>d.
        Option.bind (push d buf) (\<lambda>buf.
        digit_loop b grouped (val div word_of_int (b_base b)) (digit_cnt + 1) buf)))
      else Some buf)"

function zeros_loop :: "int \<Rightarrow> u8 list \<Rightarrow> u8 list" where
  "zeros_loop precision buf =
     (if int (length buf) < precision \<and> length buf < 64 - 1 then zeros_loop precision (buf @ [48]) else buf)"
  by auto
termination by (relation "measure (\<lambda>(_, buf). 64 - length buf)") auto

declare zeros_loop.simps [simp del]

primrec output_dup :: "u8 \<Rightarrow> nat \<Rightarrow> u8 list" where
  "output_dup ch 0 = []"
| "output_dup ch (Suc n) = ch # output_dup ch n"

definition format_integer :: "u64 \<Rightarrow> bool \<Rightarrow> bool \<Rightarrow> integer_base \<Rightarrow> printf_conversion \<Rightarrow> u8 list option" where
  "format_integer val is_signed negative b c =
     (let sign = (if is_signed then
                    if c_flags c AND PLUS \<noteq> 0 then if negative then 45 else 43
                    else if c_flags c AND SPACE \<noteq> 0 then if negative then 45 else 32
                    else if negative then 45 else 0
                  else 0 :: u8);
          x = (if c_flags c AND POUND \<noteq> 0 \<and> val \<noteq> 0 then b_x b else 0) in
      Option.bind (digit_loop b (c_flags c AND GROUP \<noteq> 0) val 0 []) (\<lambda>buf.
      let precision = (if c_precision c < 0 then 1 else c_precision c);
          buf = zeros_loop precision buf in
      Option.bind (if c_flags c AND POUND \<noteq> 0 \<and> b_base b = 8 \<and> (buf = [] \<or> last buf \<noteq> 48) then push 48 buf else Some buf) (\<lambda>buf.
      let pad_cnt = c_width c - int (length buf) - (if x \<noteq> 0 then 2 else 0) - (if sign \<noteq> 0 then 1 else 0);
          pad_cnt = nat (if pad_cnt < 0 then 0 else pad_cnt) in
      Some ((if c_flags c AND (MINUS OR ZERO) = 0 then output_dup 32 pad_cnt else []) @
            (if sign \<noteq> 0 then [sign] else []) @
            (if x \<noteq> 0 then [48, x] else []) @
            (if c_flags c AND ZERO \<noteq> 0 then output_dup 48 pad_cnt else []) @
            rev buf @
            (if c_flags c AND MINUS \<noteq> 0 then output_dup 32 pad_cnt else [])))))"

definition format_string :: "u8 list \<Rightarrow> int \<Rightarrow> printf_conversion \<Rightarrow> u8 list" where
  "format_string string len c =
     (if c_width c > len \<and> c_flags c AND MINUS = 0 then output_dup 32 (nat (c_width c - len)) else []) @
     take (nat len) string @
     (if c_width c > len \<and> c_flags c AND MINUS \<noteq> 0 then output_dup 32 (nat (c_width c - len)) else [])"

definition signed_arg :: "conv_type \<Rightarrow> va list \<Rightarrow> (int \<times> va list) option" where
  "signed_arg type args =
     (case type of
        CHAR_type \<Rightarrow> Option.bind (next_word args) (\<lambda>(w, args). Some (sint (ucast w :: u8), args))
      | SHORT_type \<Rightarrow> Option.bind (next_word args) (\<lambda>(w, args). Some (sint (ucast w :: u16), args))
      | INTMAX_type \<Rightarrow> Option.bind (next_wide args) (\<lambda>(w, args). Some (sint w, args))
      | LONGLONG_type \<Rightarrow> Option.bind (next_wide args) (\<lambda>(w, args). Some (sint w, args))
      | SIZET_type \<Rightarrow> Option.bind (next_word args) (\<lambda>(w, args).
          let v = uint w in Some (if v > (2 ^ 32 - 1) div 2 then v - (2 ^ 32 - 1) - 1 else v, args))
      | _ \<Rightarrow> Option.bind (next_word args) (\<lambda>(w, args). Some (sint w, args)))"

definition unsigned_arg :: "conv_type \<Rightarrow> va list \<Rightarrow> (u64 \<times> va list) option" where
  "unsigned_arg type args =
     (case type of
        CHAR_type \<Rightarrow> Option.bind (next_word args) (\<lambda>(w, args). Some (ucast (ucast w :: u8), args))
      | SHORT_type \<Rightarrow> Option.bind (next_word args) (\<lambda>(w, args). Some (ucast (ucast w :: u16), args))
      | INTMAX_type \<Rightarrow> next_wide args
      | LONGLONG_type \<Rightarrow> next_wide args
      | PTRDIFFT_type \<Rightarrow> Option.bind (next_word args) (\<lambda>(w, args). Some (scast w AND (push_bit 1 0x7fffffff OR 1), args))
      | _ \<Rightarrow> Option.bind (next_word args) (\<lambda>(w, args). Some (ucast w, args)))"

text \<open>The conversions of \<^verbatim>\<open>__vprintf\<close> that have one, by their character.\<close>

definition convert :: "u8 \<Rightarrow> printf_conversion \<Rightarrow> va list \<Rightarrow> (u8 list \<times> va list) option" where
  "convert ch c args =
     (if ch = 100 \<or> ch = 105 then
        Option.bind (signed_arg (c_type c) args) (\<lambda>(v, args).
        Option.bind (format_integer (word_of_int (if v < 0 then - v else v)) True (v < 0) base_d c) (\<lambda>out. Some (out, args)))
      else if ch = 111 \<or> ch = 117 \<or> ch = 120 \<or> ch = 88 then
        Option.bind (unsigned_arg (c_type c) args) (\<lambda>(v, args).
        let b = (if ch = 111 then base_o else if ch = 117 then base_d else if ch = 120 then base_x else base_X) in
        Option.bind (format_integer v False False b c) (\<lambda>out. Some (out, args)))
      else if ch = 99 then
        Option.bind (next_word args) (\<lambda>(w, args). Some (format_string [ucast w] 1 c, args))
      else if ch = 115 then
        (case args of
           Str s # args \<Rightarrow>
             let s = (case s of None \<Rightarrow> ascii ''(null)'' | Some s \<Rightarrow> s);
                 len = min (length s) (unat (word_of_int (c_precision c) :: u32)) in
             Some (format_string s (int len) c, args)
         | _ \<Rightarrow> None)
      else if ch = 112 then
        Option.bind (next_word args) (\<lambda>(w, args).
        Option.bind (format_integer (ucast w) False False base_x (c\<lparr>c_flags := POUND\<rparr>)) (\<lambda>out. Some (out, args)))
      else
        (case args of
           Dbl whole rests neg # args \<Rightarrow>
             let p = (if c_precision c < 0 then DEFAULT_FLOAT_PRECISION else c_precision c);
                 p = (if p > MAX_FLOAT_PRECISION then MAX_FLOAT_PRECISION else p) in
             Option.bind (lookup_at rests (nat p)) (\<lambda>rest.
             Option.bind (format_integer (word_of_int (if whole < 0 then - whole else whole)) True neg base_d (c\<lparr>c_precision := -1\<rparr>)) (\<lambda>out1.
             Option.bind (format_integer (word_of_int (if rest < 0 then - rest else rest)) False False base_d
               (c\<lparr>c_precision := if p = 0 then 1 else p\<rparr>)) (\<lambda>out2. Some (out1 @ [46] @ out2, args))))
         | _ \<Rightarrow> None))"

text \<open>The loop over the format. A format that ends inside a conversion makes the code read beyond its end.\<close>

partial_function (option) vprintf_loop :: "u8 list \<Rightarrow> va list \<Rightarrow> u8 list option" where
  "vprintf_loop format args =
     (case format of
        [] \<Rightarrow> Some []
      | ch # format \<Rightarrow>
          if ch \<noteq> 37 then Option.bind (vprintf_loop format args) (\<lambda>out. Some (ch # out))
          else if cur format = 37 then Option.bind (vprintf_loop (tl format) args) (\<lambda>out. Some (37 # out))
          else
            Option.bind (parse_conversion format args) (\<lambda>(format, c, args).
            case format of
              [] \<Rightarrow> None
            | ch # format \<Rightarrow>
                Option.bind
                  (if ch \<in> {100, 105, 111, 117, 120, 88, 99, 115, 112, 102} then convert ch c args
                   else
                     Option.bind (vprintf_loop (if ch \<in> {101, 69, 103, 71, 110} then ascii ''<<no %%%c in kernel>>''
                         else ascii ''<<no %%%c conversion>>'') [Word (ucast ch)]) (\<lambda>out. Some (out, args))) (\<lambda>(out1, args).
                Option.bind (vprintf_loop format args) (\<lambda>out. Some (out1 @ out)))))"

definition vprintf :: "u8 list \<Rightarrow> va list \<Rightarrow> u8 list option" where "vprintf format args = vprintf_loop format args"

text \<open>Output into a buffer: the characters written, the length so far and the greatest length.\<close>

record vsnprintf_aux =
  aux_written :: "u8 list"
  aux_length :: int
  aux_max_length :: int

definition vsnprintf_helper :: "u8 \<Rightarrow> vsnprintf_aux \<Rightarrow> vsnprintf_aux" where
  "vsnprintf_helper ch aux =
     (if aux_length aux < aux_max_length aux then aux\<lparr>aux_length := aux_length aux + 1, aux_written := aux_written aux @ [ch]\<rparr>
      else aux\<lparr>aux_length := aux_length aux + 1\<rparr>)"

text \<open>The bytes written at the start of the buffer, and the result. The greatest length is an \<^verbatim>\<open>int\<close> that is set from a \<^verbatim>\<open>size_t\<close>, and so negative for
  sizes above \<open>2 ^ 31\<close>. An output that the counter, an \<^verbatim>\<open>int\<close>, cannot count is undefined in C.\<close>

definition vsnprintf :: "u32 \<Rightarrow> u8 list \<Rightarrow> va list \<Rightarrow> (u8 list \<times> int) option" where
  "vsnprintf buf_size format args =
     Option.bind (vprintf format args) (\<lambda>out.
     let aux = fold vsnprintf_helper out \<lparr>aux_written = [], aux_length = 0, aux_max_length = sint (if buf_size > 0 then buf_size - 1 else 0)\<rparr> in
     ASSERT (aux_length aux < 2 ^ 31) (
     Some (aux_written aux @ (if buf_size > 0 then [0] else []), aux_length aux)))"

definition snprintf :: "u32 \<Rightarrow> u8 list \<Rightarrow> va list \<Rightarrow> (u8 list \<times> int) option" where
  "snprintf buf_size format args = vsnprintf buf_size format args"

text \<open>A number of bytes in a readable unit; \<open>PRIu64\<close> is \<^verbatim>\<open>llu\<close>.\<close>

fun human_loop :: "u64 \<Rightarrow> u8 list list \<Rightarrow> u64 \<times> u8 list" where
  "human_loop sz (f # g # fp) = (if sz \<ge> 1024 then human_loop (sz div 1024) (g # fp) else (sz, f))"
| "human_loop sz [f] = (sz, f)"
| "human_loop sz [] = (sz, [])"

definition print_human_readable_size :: "u64 \<Rightarrow> u8 list option" where
  "print_human_readable_size sz =
     (if sz = 1 then vprintf (ascii ''1 byte'') []
      else let (sz, f) = human_loop sz [ascii ''bytes'', ascii ''kB'', ascii ''MB'', ascii ''GB'', ascii ''TB''] in
           vprintf (ascii ''%llu %s'') [Wide sz, Str (Some f)])"

section \<open>Digits\<close>

definition std_base :: "integer_base \<Rightarrow> bool" where "std_base b \<longleftrightarrow> b \<in> {base_d, base_o, base_x, base_X}"

definition digit_index :: "integer_base \<Rightarrow> u8 \<Rightarrow> nat" where "digit_index b c = length (takeWhile (\<lambda>d. d \<noteq> c) (b_digits b))"

text \<open>The value of a text, highest digit first, and of a buffer, lowest digit first.\<close>

definition text_val :: "integer_base \<Rightarrow> u8 list \<Rightarrow> nat" where
  "text_val b ds = foldl (\<lambda>v c. v * nat (b_base b) + digit_index b c) 0 ds"

abbreviation no_commas :: "u8 list \<Rightarrow> u8 list" where "no_commas \<equiv> filter (\<lambda>c. c \<noteq> 44)"

lemma digits_ascii:
  "b_digits base_d = [48, 49, 50, 51, 52, 53, 54, 55, 56, 57]" "b_digits base_o = [48, 49, 50, 51, 52, 53, 54, 55]"
  "b_digits base_x = [48, 49, 50, 51, 52, 53, 54, 55, 56, 57, 97, 98, 99, 100, 101, 102]"
  "b_digits base_X = [48, 49, 50, 51, 52, 53, 54, 55, 56, 57, 65, 66, 67, 68, 69, 70]"
  by (simp_all add: base_d_def base_o_def base_x_def base_X_def ascii_def)

lemma std_base_cases:
  assumes "std_base b"
  shows "b_base b = 8 \<or> b_base b = 10 \<or> b_base b = 16" "length (b_digits b) = nat (b_base b)" "distinct (b_digits b)"
    "44 \<notin> set (b_digits b)" "b_digits b \<noteq> []" "b_digits b ! 0 = 48"
  using assms unfolding std_base_def
  by (elim insertE emptyE; simp add: digits_ascii; simp add: base_d_def base_o_def base_x_def base_X_def)+

lemma digit_index_nth: "std_base b \<Longrightarrow> i < nat (b_base b) \<Longrightarrow> digit_index b (b_digits b ! i) = i"
proof -
  assume b: "std_base b" "i < nat (b_base b)"
  have "length (takeWhile (\<lambda>d. d \<noteq> xs ! i) xs) = i" if "distinct xs" "i < length xs" for xs :: "u8 list" and i
    using that
  proof (induction xs arbitrary: i)
    case (Cons x xs)
    then show ?case by (cases i) auto
  qed simp
  then show ?thesis using b std_base_cases[OF b(1)] by (simp add: digit_index_def)
qed

lemma text_val_append: "text_val b (xs @ [c]) = text_val b xs * nat (b_base b) + digit_index b c"
  by (simp add: text_val_def)

lemma text_val_Nil [simp]: "text_val b [] = 0"
  by (simp add: text_val_def)

lemma text_val_zeros: "std_base b \<Longrightarrow> text_val b (replicate n 48 @ ds) = text_val b ds"
proof -
  assume b: "std_base b"
  have "0 < nat (b_base b)" using std_base_cases(1)[OF b] by auto
  then have z: "digit_index b 48 = 0" using digit_index_nth[OF b, of 0] std_base_cases(6)[OF b] by simp
  have "foldl (\<lambda>v c. v * nat (b_base b) + digit_index b c) 0 (replicate n 48) = 0" by (induction n) (simp_all add: z)
  then show ?thesis by (simp add: text_val_def)
qed

lemma push_ok: "length buf < 64 \<Longrightarrow> push c buf = Some (buf @ [c])"
  by (simp add: push_def)

lemma digit_loop_eq:
  assumes b: "std_base b" and v: "unat v < nat (b_base b) ^ m" and room: "length buf + 2 * m \<le> 64"
  shows "\<exists>ds. digit_loop b g v k buf = Some (buf @ ds) \<and> length ds \<le> 2 * m \<and> length (no_commas ds) \<le> m \<and>
    text_val b (rev (no_commas ds)) = unat v \<and> set (no_commas ds) \<subseteq> set (b_digits b) \<and> (\<not> g \<longrightarrow> no_commas ds = ds) \<and> (ds = [] \<longleftrightarrow> v = 0)"
  using v room
proof (induction m arbitrary: v k buf)
  case 0
  then have "v = 0" by (simp add: unat_eq_0)
  then show ?case by (subst digit_loop.simps) (simp add: exI[of _ "[]"])
next
  case (Suc m)
  show ?case
  proof (cases "v = 0")
    case True
    then show ?thesis by (subst digit_loop.simps) (simp add: exI[of _ "[]"])
  next
    case False
    define B where "B = nat (b_base b)"
    have B: "B = 8 \<or> B = 10 \<or> B = 16" "b_base b = int B" using std_base_cases(1)[OF b] by (auto simp: B_def)
    have wB: "(word_of_int (b_base b) :: u64) = of_nat B" "unat (of_nat B :: u64) = B" using B by (auto simp: unat_of_nat)
    have dm: "unat (v mod of_nat B) = unat v mod B" "unat (v div of_nat B) = unat v div B" by (simp_all add: unat_mod unat_div wB(2))
    have mB: "unat v mod B < B" using B(1) by auto
    define d where "d = b_digits b ! (unat v mod B)"
    have len: "length (b_digits b) = B" using std_base_cases(2)[OF b] by (simp add: B_def)
    have d: "lookup_at (b_digits b) (unat (v mod of_nat B)) = Some d" "d \<in> set (b_digits b)" "digit_index b d = unat v mod B"
      using len mB digit_index_nth[OF b, folded B_def, OF mB] unfolding dm(1) d_def by (simp_all add: lookup_at_def)
    have d44: "d \<noteq> 44" using d(2) std_base_cases(4)[OF b] by blast
    obtain cm where cm: "(if g \<and> 0 < k \<and> k mod b_group b = 0 then push 44 buf else Some buf) = Some (buf @ cm)" "cm = [] \<or> g \<and> cm = [44]"
      using push_ok[of buf 44] Suc.prems(2) by (cases "g \<and> 0 < k \<and> k mod b_group b = 0") auto
    have lcm: "length cm \<le> 1" using cm(2) by auto
    have pd: "push d (buf @ cm) = Some (buf @ cm @ [d])" using push_ok[of "buf @ cm" d] Suc.prems(2) lcm by simp
    have "unat (v div of_nat B) < nat (b_base b) ^ m"
      using Suc.prems(1) B(1) unfolding dm(2) B_def[symmetric] by (auto simp: div_less_iff_less_mult mult.commute)
    moreover have "length (buf @ cm @ [d]) + 2 * m \<le> 64" using Suc.prems(2) lcm by simp
    ultimately obtain ds where ds: "digit_loop b g (v div of_nat B) (k + 1) (buf @ cm @ [d]) = Some ((buf @ cm @ [d]) @ ds)"
      "length ds \<le> 2 * m" "length (no_commas ds) \<le> m" "text_val b (rev (no_commas ds)) = unat (v div of_nat B)"
      "set (no_commas ds) \<subseteq> set (b_digits b)" "\<not> g \<longrightarrow> no_commas ds = ds"
      using Suc.IH by blast
    have "digit_loop b g v k buf = Some (buf @ cm @ d # ds)"
      using False ds(1) cm(1) d(1) pd by (subst digit_loop.simps) (simp add: wB(1) word_gt_0)
    moreover have "no_commas (cm @ d # ds) = d # no_commas ds" using cm(2) d44 by auto
    moreover have "text_val b (rev (d # no_commas ds)) = unat v"
      using ds(4) d(3) B(2) by (simp add: text_val_append dm(2) B_def[symmetric])
    ultimately show ?thesis using ds(2,3,5,6) lcm cm(2) d(2) False d44
      by (intro exI[of _ "cm @ d # ds"]) auto
  qed
qed

section \<open>The layout of numbers\<close>

lemma zeros_loop_eq: "\<exists>z. zeros_loop p buf = buf @ replicate z 48 \<and> (int (length buf + z) \<ge> p \<or> length buf + z \<ge> 63) \<and>
    (z = 0 \<or> length buf + z \<le> 63 \<and> int (length buf + z) \<le> p)"
proof (induction p buf rule: zeros_loop.induct)
  case (1 p buf)
  show ?case
  proof (cases "int (length buf) < p \<and> length buf < 63")
    case True
    obtain z where z: "zeros_loop p (buf @ [48]) = (buf @ [48]) @ replicate z 48" "int (length (buf @ [48]) + z) \<ge> p \<or> length (buf @ [48]) + z \<ge> 63"
      "z = 0 \<or> length (buf @ [48]) + z \<le> 63 \<and> int (length (buf @ [48]) + z) \<le> p" using 1 True by auto
    have "zeros_loop p buf = buf @ replicate (Suc z) 48" using True z(1) by (subst zeros_loop.simps) simp
    then show ?thesis using z(2,3) True by (intro exI[of _ "Suc z"]) auto
  next
    case False
    then have "zeros_loop p buf = buf" by (subst zeros_loop.simps) auto
    then show ?thesis using False by (intro exI[of _ 0]) auto
  qed
qed

lemma output_dup_eq [simp]: "output_dup ch n = replicate n ch"
  by (induction n) simp_all

definition sign_text :: "bool \<Rightarrow> bool \<Rightarrow> u32 \<Rightarrow> u8 list" where
  "sign_text is_signed negative flags =
     (if \<not> is_signed then [] else if negative then [45] else if flags AND PLUS \<noteq> 0 then [43] else if flags AND SPACE \<noteq> 0 then [32] else [])"

definition prefix_text :: "u64 \<Rightarrow> integer_base \<Rightarrow> u32 \<Rightarrow> u8 list" where
  "prefix_text v b flags = (if flags AND POUND \<noteq> 0 \<and> v \<noteq> 0 \<and> b_x b \<noteq> 0 then [48, b_x b] else [])"

text \<open>A number with \<open>pad\<close> fill characters: at the left, as zeros behind the sign, or at the right.\<close>

definition field :: "u32 \<Rightarrow> nat \<Rightarrow> u8 list \<Rightarrow> u8 list \<Rightarrow> u8 list" where
  "field flags pad pre body =
     (if flags AND (MINUS OR ZERO) = 0 then replicate pad 32 else []) @ pre @
     (if flags AND ZERO \<noteq> 0 then replicate pad 48 else []) @ body @ (if flags AND MINUS \<noteq> 0 then replicate pad 32 else [])"

lemma format_integer_unfold:
  "format_integer v sg neg b c =
     Option.bind (digit_loop b (c_flags c AND GROUP \<noteq> 0) v 0 []) (\<lambda>ds.
     let buf = zeros_loop (if c_precision c < 0 then 1 else c_precision c) ds in
     Option.bind (if c_flags c AND POUND \<noteq> 0 \<and> b_base b = 8 \<and> (buf = [] \<or> last buf \<noteq> 48) then push 48 buf else Some buf) (\<lambda>buf.
     let pre = sign_text sg neg (c_flags c) @ prefix_text v b (c_flags c) in
     Some (field (c_flags c) (nat (c_width c - int (length pre + length buf))) pre (rev buf))))"
proof -
  define f where "f = c_flags c"
  define sign :: u8 where "sign = (if sg then if f AND PLUS \<noteq> 0 then if neg then 45 else 43
      else if f AND SPACE \<noteq> 0 then if neg then 45 else 32 else if neg then 45 else 0 else 0)"
  define x where "x = (if f AND POUND \<noteq> 0 \<and> v \<noteq> 0 then b_x b else 0)"
  have s: "sign_text sg neg f = (if sign \<noteq> 0 then [sign] else [])" by (simp add: sign_text_def sign_def)
  have px: "prefix_text v b f = (if x \<noteq> 0 then [48, x] else [])" by (simp add: prefix_text_def x_def)
  have n: "nat (if e < 0 then 0 else e) = nat e" for e :: int by simp
  have e: "c_width c - int l - (if x \<noteq> 0 then 2 else 0) - (if sign \<noteq> 0 then 1 else 0) =
      c_width c - int (length ((if sign \<noteq> 0 then [sign] else []) @ (if x \<noteq> 0 then [48, x] else [])) + l)" for l by simp
  show ?thesis
    unfolding format_integer_def Let_def f_def[symmetric] sign_def[symmetric] x_def[symmetric] n e s px field_def output_dup_eq append.assoc ..
qed

lemma format_integer_eq:
  assumes b: "std_base b" and v: "unat v < nat (b_base b) ^ m" and m: "2 * m \<le> 64"
  shows "\<exists>body pad. format_integer v sg neg b c =
      Some (field (c_flags c) pad (sign_text sg neg (c_flags c) @ prefix_text v b (c_flags c)) body) \<and>
    pad = nat (c_width c - int (length (sign_text sg neg (c_flags c) @ prefix_text v b (c_flags c)) + length body)) \<and>
    text_val b (no_commas body) = unat v \<and> set (no_commas body) \<subseteq> set (b_digits b) \<and> length body \<le> 64 \<and>
    int (length body) \<ge> min 63 (if c_precision c < 0 then 1 else c_precision c) \<and>
    (c_flags c AND GROUP = 0 \<longrightarrow> no_commas body = body) \<and>
    (c_flags c = 0 \<and> c_precision c < 0 \<longrightarrow> length body \<le> max 1 m)"
proof -
  define g where "g = (c_flags c AND GROUP \<noteq> 0)"
  define p where "p = (if c_precision c < 0 then 1 else c_precision c)"
  obtain ds where ds: "digit_loop b g v 0 [] = Some ds" "length ds \<le> 2 * m" "length (no_commas ds) \<le> m"
    "text_val b (rev (no_commas ds)) = unat v" "set (no_commas ds) \<subseteq> set (b_digits b)" "\<not> g \<longrightarrow> no_commas ds = ds"
    using digit_loop_eq[OF b v, of "[]" g 0] m by auto
  obtain z where z: "zeros_loop p ds = ds @ replicate z 48" "int (length ds + z) \<ge> p \<or> length ds + z \<ge> 63"
    "z = 0 \<or> length ds + z \<le> 63 \<and> int (length ds + z) \<le> p" using zeros_loop_eq[of p ds] by auto
  have zlen: "length ds + z \<le> 64" using z(3) ds(2) m by auto
  have zero: "48 \<in> set (b_digits b)" using std_base_cases(5,6)[OF b] nth_mem[of 0 "b_digits b"] by simp
  define x where "x = (c_flags c AND POUND \<noteq> 0 \<and> b_base b = 8 \<and> (ds @ replicate z 48 = [] \<or> last (ds @ replicate z 48) \<noteq> 48))"
  have room: "x \<Longrightarrow> length ds + z < 64"
  proof -
    assume x: "x"
    show ?thesis
    proof (cases "z = 0")
      case True
      have "unat v < 2 ^ 64" using unsigned_less[of v] by simp
      then have "unat v < nat (b_base b) ^ 22" using std_base_cases(1)[OF b] by auto
      from digit_loop_eq[OF b this, of "[]" g 0] ds(1) show ?thesis using True by auto
    qed (use z(3) in auto)
  qed
  define buf where "buf = ds @ replicate z 48 @ (if x then [48] else [])"
  have push: "(if x then push 48 (ds @ replicate z 48) else Some (ds @ replicate z 48)) = Some buf"
    using room push_ok[of "ds @ replicate z 48" 48] by (auto simp: buf_def)
  define pre where "pre = sign_text sg neg (c_flags c) @ prefix_text v b (c_flags c)"
  define pad where "pad = nat (c_width c - int (length pre + length (rev buf)))"
  have f: "format_integer v sg neg b c = Some (field (c_flags c) pad pre (rev buf))"
    unfolding format_integer_unfold Let_def g_def[symmetric] p_def[symmetric] ds(1) z(1) bind.bind_lunit x_def[symmetric] push pre_def[symmetric] pad_def length_rev ..
  have nb: "no_commas (rev buf) = (if x then [48] else []) @ replicate z 48 @ rev (no_commas ds)" by (simp add: buf_def rev_filter)
  have "text_val b (no_commas (rev buf)) = unat v"
    using text_val_zeros[OF b, of "Suc z" "rev (no_commas ds)"] text_val_zeros[OF b, of z "rev (no_commas ds)"] ds(4) by (auto simp: nb)
  moreover have "set (no_commas (rev buf)) \<subseteq> set (b_digits b)" using ds(5) zero by (auto simp: nb)
  moreover have "length (rev buf) \<le> 64" using zlen room by (auto simp: buf_def)
  moreover have "int (length (rev buf)) \<ge> min 63 p" using z(2) by (auto simp: buf_def)
  moreover have "c_flags c AND GROUP = 0 \<longrightarrow> no_commas (rev buf) = rev buf" using ds(6) by (auto simp: nb g_def; simp add: buf_def)
  moreover have "c_flags c = 0 \<and> c_precision c < 0 \<longrightarrow> length (rev buf) \<le> max 1 m"
    using ds(3,6) z(3) by (auto simp: buf_def g_def x_def p_def)
  ultimately show ?thesis using f unfolding p_def pad_def pre_def by blast
qed

lemma below_power: "std_base b \<Longrightarrow> unat (v :: u64) < nat (b_base b) ^ 22"
proof -
  assume b: "std_base b"
  have "unat v < 2 ^ LENGTH(64)" by (rule unsigned_less)
  then show ?thesis using std_base_cases(1)[OF b] by auto
qed

text \<open>An integer is written as its conversion says: the sign and the prefix \<^verbatim>\<open>0x\<close>, then at least as many digits as the
  precision asks for (the buffer holds 63 for padding zeros), which without commas are digits of the base with the value of the number, and
  fill characters up to the width: spaces at the left, zeros behind the sign, or spaces at the right. The buffer of 64 characters is never
  exceeded, for any value, flags, width and precision.\<close>

lemma format_integer_layout:
  assumes "std_base b"
  shows "\<exists>body pad. format_integer v sg neg b c =
      Some (field (c_flags c) pad (sign_text sg neg (c_flags c) @ prefix_text v b (c_flags c)) body) \<and>
    pad = nat (c_width c - int (length (sign_text sg neg (c_flags c) @ prefix_text v b (c_flags c)) + length body)) \<and>
    text_val b (no_commas body) = unat v \<and> set (no_commas body) \<subseteq> set (b_digits b) \<and> length body \<le> 64 \<and>
    int (length body) \<ge> min 63 (if c_precision c < 0 then 1 else c_precision c)"
  using format_integer_eq[OF assms below_power[OF assms], of v sg neg c] by auto

lemma format_integer_layout_witness:
  "\<exists>body pad. format_integer 0x1ff False False base_x \<lparr>c_flags = ZERO OR POUND, c_width = 10, c_precision = -1, c_type = INT_type\<rparr> =
    Some (field (ZERO OR POUND) pad [48, 120] body) \<and> text_val base_x (no_commas body) = 0x1ff"
proof -
  have "std_base base_x" by (simp add: std_base_def)
  from format_integer_layout[OF this, of "0x1ff" False False "\<lparr>c_flags = ZERO OR POUND, c_width = 10, c_precision = -1, c_type = INT_type\<rparr>"]
  show ?thesis by (auto simp: sign_text_def prefix_text_def ZERO_def POUND_def base_x_def)
qed

section \<open>Formats\<close>

lemma format_d: "ascii ''%d'' = [37, 100]"
  by (simp add: ascii_def)

lemma parse_d: "parse_conversion [100] args = Some ([100], \<lparr>c_flags = 0, c_width = 0, c_precision = -1, c_type = INT_type\<rparr>, args)"
  by (simp add: parse_conversion_def cur_def parse_type_def isdigit_def)

lemma text_val_decimal: "set ds \<subseteq> set (b_digits base_d) \<Longrightarrow> (\<forall>c \<in> set ds. isdigit c) \<and> num_val ds = int (text_val base_d ds)"
proof -
  assume s: "set ds \<subseteq> set (b_digits base_d)"
  have one: "isdigit c \<and> digit_val c = int (digit_index base_d c)" if "c \<in> set (b_digits base_d)" for c
    using that by (auto simp: digits_ascii isdigit_def digit_val_def digit_index_def)
  have "nat (b_base base_d) = 10" by (simp add: base_d_def)
  then have "num_val ds = int (text_val base_d ds)"
    using s one by (induction ds rule: rev_induct) (auto simp: num_val_def text_val_append)
  then show ?thesis using s one by blast
qed

lemma vprintf_d:
  "\<exists>body. vprintf (ascii ''%d'') [Word n] = Some ((if sint n < 0 then [45] else []) @ body) \<and> (\<forall>c \<in> set body. isdigit c) \<and>
    num_val body = \<bar>sint n\<bar> \<and> 1 \<le> length body \<and> length body \<le> 10"
proof -
  define c where "c = \<lparr>c_flags = 0, c_width = 0, c_precision = -1, c_type = INT_type\<rparr>"
  define v :: u64 where "v = word_of_int \<bar>sint n\<bar>"
  have b: "std_base base_d" by (simp add: std_base_def)
  have r: "\<bar>sint n\<bar> \<le> 2 ^ 31" using sint_ge[of n] sint_lt[of n] by simp
  then have v: "unat v = nat \<bar>sint n\<bar>" by (simp add: v_def unsigned_of_int take_bit_int_eq_self)
  then have "unat v < nat (b_base base_d) ^ 10" using r by (simp add: base_d_def)
  moreover have "sign_text True (sint n < 0) (c_flags c) @ prefix_text v base_d (c_flags c) = (if sint n < 0 then [45] else [])"
    by (cases "sint n < 0") (simp_all add: c_def sign_text_def prefix_text_def)
  moreover have "c_flags c = 0" "c_precision c = -1" "c_width c = 0" by (simp_all add: c_def)
  ultimately obtain body where
    f: "format_integer v True (sint n < 0) base_d c = Some (field 0 0 (if sint n < 0 then [45] else []) body)"
    "text_val base_d body = unat v" "set body \<subseteq> set (b_digits base_d)" "1 \<le> length body" "length body \<le> 10"
    using format_integer_eq[OF b, of v 10 True "sint n < 0" c] by (auto simp del: set_filter)
  have "v = word_of_int (if sint n < 0 then - sint n else sint n)" unfolding v_def abs_if ..
  moreover have "signed_arg (c_type c) [Word n] = Some (sint n, [])" by (simp add: c_def signed_arg_def next_word_def)
  moreover have "field 0 0 p body = p @ body" for p by (simp add: field_def)
  ultimately have conv: "convert 100 c [Word n] = Some ((if sint n < 0 then [45] else []) @ body, [])"
    using f(1) by (simp add: convert_def)
  have "vprintf_loop [] [] = Some []" by (subst vprintf_loop.simps) simp
  then have "vprintf (ascii ''%d'') [Word n] = Some ((if sint n < 0 then [45] else []) @ body)"
    unfolding vprintf_def format_d by (subst vprintf_loop.simps) (simp add: cur_def parse_d conv flip: c_def)
  then show ?thesis using text_val_decimal[OF f(3)] f(2,4,5) v by auto
qed

lemma helper_fold:
  "fold vsnprintf_helper out aux = \<lparr>aux_written = aux_written aux @ take (nat (aux_max_length aux - aux_length aux)) out,
     aux_length = aux_length aux + int (length out), aux_max_length = aux_max_length aux\<rparr>"
proof (induction out arbitrary: aux)
  case (Cons c out)
  show ?case
  proof (cases "aux_length aux < aux_max_length aux")
    case True
    then have n: "nat (aux_max_length aux - aux_length aux) = Suc (nat (aux_max_length aux - (aux_length aux + 1)))" by simp
    have h: "vsnprintf_helper c aux = aux\<lparr>aux_length := aux_length aux + 1, aux_written := aux_written aux @ [c]\<rparr>"
      using True by (simp add: vsnprintf_helper_def)
    show ?thesis using Cons[of "vsnprintf_helper c aux"] unfolding h by (simp add: h n)
  next
    case False
    then have h: "vsnprintf_helper c aux = aux\<lparr>aux_length := aux_length aux + 1\<rparr>" by (simp add: vsnprintf_helper_def)
    show ?thesis using Cons[of "vsnprintf_helper c aux"] False unfolding h by (simp add: h)
  qed
qed simp

lemma sint_split: "sint (w :: u32) = (if unat w < 2 ^ 31 then int (unat w) else int (unat w) - 2 ^ 32)"
proof -
  have s: "sint (word_of_nat k :: u32) = signed_take_bit 31 (int k)" for k by (simp add: signed_of_nat)
  have b: "unat w < 2 ^ 32" using unsigned_less[of w] by simp
  have "word_of_nat (unat w) = w" by simp
  then have "sint w = signed_take_bit 31 (int (unat w))" using s[of "unat w"] by (simp only:)
  moreover have "signed_take_bit 31 (int k) = (if k < 2 ^ 31 then int k else int k - 2 ^ 32)" if "k < 2 ^ 32" for k
  proof (cases "k < 2 ^ 31")
    case True
    then show ?thesis by (simp add: signed_take_bit_int_eq_self)
  next
    case False
    have "(int k + 2 ^ 31) mod 2 ^ 32 = (int k - 2 ^ 31 + 2 ^ 32) mod 2 ^ 32" by (simp add: add.commute)
    also have "\<dots> = int k - 2 ^ 31" unfolding mod_add_self2 using False that by (intro mod_pos_pos_trivial) simp_all
    finally show ?thesis using False by (simp add: signed_take_bit_eq_take_bit_shift take_bit_eq_mod)
  qed
  ultimately show ?thesis using b by (simp only:)
qed

text \<open>The room that the code leaves for the text.\<close>

definition text_room :: "u32 \<Rightarrow> nat" where "text_room n = (if unat n \<le> 2 ^ 31 then unat n - 1 else 0)"

lemma max_length: "0 < n \<Longrightarrow> nat (sint (n - 1)) = text_room n"
proof -
  assume "0 < n"
  then have "unat (n - 1) = unat n - 1" "0 < unat n" by (simp_all add: unat_minus_one word_neq_0_conv[symmetric] unat_gt_0)
  moreover have "unat n < 2 ^ 32" using unsigned_less[of n] by simp
  ultimately show ?thesis by (auto simp: sint_split text_room_def simp del: of_nat_unat)
qed

lemma vsnprintf_eq:
  "vsnprintf n f args = Option.bind (vprintf f args) (\<lambda>out. if length out < 2 ^ 31
     then Some (if n = 0 then [] else take (text_room n) out @ [0], int (length out)) else None)"
  by (cases "vprintf f args") (auto simp: vsnprintf_def helper_fold Let_def max_length word_neq_0_conv)

text \<open>C31. Formatting into a buffer returns whenever the output is one that the counter can count, writes at most the size of the buffer, ends the text with a
  zero unless the size is zero, and returns the length of the whole output. Up to a size of \<open>2 ^ 31\<close> it cuts the output that does not fit; beyond, where the size does
  not fit the signed greatest length of the code, it writes the terminating zero only.\<close>

theorem vsnprintf_bounded:
  assumes "vprintf format args = Some out"
  shows "if length out < 2 ^ 31
    then \<exists>bytes. vsnprintf buf_size format args = Some (bytes, int (length out)) \<and> length bytes \<le> unat buf_size \<and>
      (0 < buf_size \<longrightarrow> bytes \<noteq> [] \<and> last bytes = 0 \<and>
         (if buf_size \<le> 2 ^ 31 then butlast bytes = take (unat buf_size - 1) out \<and> (length out < unat buf_size \<longleftrightarrow> butlast bytes = out)
          else butlast bytes = []))
    else vsnprintf buf_size format args = None"
proof (cases "length out < 2 ^ 31")
  case True
  define bytes where "bytes = (if buf_size = 0 then [] else take (text_room buf_size) out @ [0])"
  have o: "vsnprintf buf_size format args = Some (bytes, int (length out))" using True by (simp add: vsnprintf_eq assms bytes_def)
  have s: "buf_size \<le> 2 ^ 31 \<longleftrightarrow> unat buf_size \<le> 2 ^ 31" by (simp add: word_le_nat_alt)
  have z: "0 < unat buf_size" if "buf_size \<noteq> 0" using that by (simp add: unat_gt_0)
  have f: "length out < unat buf_size \<longleftrightarrow> take (unat buf_size - 1) out = out" if "buf_size \<noteq> 0" using z[OF that] by (auto simp: take_all_iff)
  have "length bytes \<le> unat buf_size" using z by (auto simp: bytes_def text_room_def min_def)
  moreover have "bytes \<noteq> [] \<and> last bytes = 0 \<and>
      (if buf_size \<le> 2 ^ 31 then butlast bytes = take (unat buf_size - 1) out \<and> (length out < unat buf_size \<longleftrightarrow> butlast bytes = out)
       else butlast bytes = [])" if "0 < buf_size"
    unfolding s using that f by (auto simp: bytes_def text_room_def butlast_append)
  ultimately show ?thesis using True o by auto
qed (simp add: vsnprintf_eq assms)

theorem vsnprintf_bounded_witness:
  "\<exists>bytes. vsnprintf 3 [97, 98, 99] [] = Some (bytes, 3) \<and> butlast bytes = [97, 98] \<and> last bytes = 0"
proof -
  have "vprintf [97, 98, 99] [] = Some [97, 98, 99]" unfolding vprintf_def by (subst vprintf_loop.simps, simp)+
  from vsnprintf_bounded[OF this, of 3] show ?thesis by auto
qed

text \<open>C30. An integer that \<^verbatim>\<open>snprintf\<close> writes with \<^verbatim>\<open>%d\<close> into a buffer of at least 12 bytes, and of at most the \<open>2 ^ 31\<close> that the code can count, is
  complete and terminated, and \<^verbatim>\<open>atoi\<close> reads it back from memory, for all 32-bit integers.\<close>

theorem snprintf_atoi_roundtrip:
  assumes "12 \<le> buf_size" "buf_size \<le> 2 ^ 31"
  shows "\<exists>str. snprintf buf_size (ascii ''%d'') [Word n] = Some (str @ [0], int (length str)) \<and>
    (\<forall>m s. str_at m s str \<longrightarrow> atoi s m = Some n)"
proof -
  obtain body where b: "vprintf (ascii ''%d'') [Word n] = Some ((if sint n < 0 then [45] else []) @ body)" "\<forall>c \<in> set body. isdigit c"
    "num_val body = \<bar>sint n\<bar>" "1 \<le> length body" "length body \<le> 10" using vprintf_d by blast
  define str where "str = (if sint n < 0 then [45] else []) @ body"
  have "length str \<le> 11" using b(5) by (simp add: str_def)
  then have "take (text_room buf_size) str = str" "length str < 2 ^ 31" "buf_size \<noteq> 0" using assms by (auto simp: text_room_def word_le_nat_alt)
  then have "snprintf buf_size (ascii ''%d'') [Word n] = Some (str @ [0], int (length str))"
    using b(1) by (simp add: snprintf_def vsnprintf_eq flip: str_def)
  moreover have "atoi s m = Some n" if "str_at m s str" for m s
  proof -
    have "str_at m s ([] @ (if sint n < 0 then [45] else []) @ body @ [])" using that by (simp add: str_def)
    moreover have "body \<noteq> []" using b(4) by auto
    ultimately have "atoi s m = Some (word_of_int (if (if sint n < 0 then [45] else []) = [45 :: u8] then - num_val body else num_val body))"
      using b(2) by (intro atoi_eq[of m s "[]" _ _ "[]"]) simp_all
    then have "atoi s m = Some (word_of_int (if sint n < 0 then - \<bar>sint n\<bar> else \<bar>sint n\<bar>))"
      unfolding b(3) by (cases "sint n < 0") simp_all
    then show ?thesis by (auto split: if_splits)
  qed
  ultimately show ?thesis by blast
qed

theorem snprintf_atoi_roundtrip_witness:
  "\<exists>str. snprintf 12 (ascii ''%d'') [Word 0x80000000] = Some (str @ [0], int (length str)) \<and>
    (\<forall>m s. str_at m s str \<longrightarrow> atoi s m = Some 0x80000000)"
  by (rule snprintf_atoi_roundtrip) simp_all

text \<open>A negative width from an argument sets the flag for the left after the flag for zeros was cleared for it: the number gets
  the fill twice, as zeros and as spaces, and is wider than asked for.\<close>

lemma negative_width_fills_twice:
  "vprintf (ascii ''%0*d'') [Word (-5), Word 42] = Some (ascii ''00042   '')"
proof -
  define c where "c = \<lparr>c_flags = 17, c_width = 5, c_precision = -1, c_type = INT_type\<rparr>"
  have p: "parse_conversion [48, 42, 100] [Word (-5), Word 42] = Some ([100], c, [Word 42])" unfolding c_def by code_simp
  have bd: "b_base base_d = 10" by (simp add: base_d_def)
  have d0: "digit_loop base_d False 0 2 [50, 52] = Some [50, 52]" by (subst digit_loop.simps) simp
  have d1: "digit_loop base_d False 4 1 [50] = Some [50, 52]"
    by (subst digit_loop.simps) (simp add: push_def digits_ascii lookup_at_def bd d0)
  have "digit_loop base_d False 42 0 [] = Some [50, 52]"
    by (subst digit_loop.simps) (simp add: push_def digits_ascii lookup_at_def bd d1)
  moreover have "(17 :: u32) AND GROUP = 0" "(17 :: u32) AND POUND = 0" "(17 :: u32) AND (MINUS OR ZERO) \<noteq> 0"
    "(17 :: u32) AND MINUS \<noteq> 0" "(17 :: u32) AND ZERO \<noteq> 0" "(17 :: u32) AND PLUS = 0" "(17 :: u32) AND SPACE = 0"
    by (simp_all add: GROUP_def POUND_def MINUS_def ZERO_def PLUS_def SPACE_def)
  moreover have "zeros_loop 1 [50, 52] = [50, 52]" by (subst zeros_loop.simps) simp
  ultimately have "convert 100 c [Word 42] = Some (ascii ''00042   '', [])"
    by (simp add: convert_def c_def signed_arg_def next_word_def format_integer_unfold Let_def bd sign_text_def prefix_text_def field_def
      ascii_def numeral_3_eq_3)
  moreover have "vprintf_loop [] [] = Some []" by (subst vprintf_loop.simps) simp
  ultimately show ?thesis unfolding vprintf_def by (simp add: ascii_def) (subst vprintf_loop.simps, simp add: cur_def p)
qed

text \<open>A format that ends in a percent sign is read beyond its end.\<close>

lemma open_conversion_overruns: "vprintf (ascii ''50%'') args = None"
  by (simp add: vprintf_def ascii_def) (subst vprintf_loop.simps, simp add: cur_def parse_conversion_def parse_type_def)+

end
