(* ===== verification/Arith64.thy ===== *)
theory Arith64
  imports Prelude "HOL-Library.Signed_Division"
begin

unbundle bit_operations_syntax

text \<open>
  64-bit division on a 32-bit processor, after \<^verbatim>\<open>lib/arithmetic.c\<close>. The processor divides a
  64-bit number by a 32-bit one when the quotient fits 32 bits and traps otherwise (\<open>None\<close>).
\<close>

section \<open>Definitions\<close>

definition divl :: "u64 \<Rightarrow> u32 \<Rightarrow> u32 option" where
  "divl n d = ASSERT (d \<noteq> 0 \<and> unat n div unat d < 2 ^ 32) (Some (of_nat (unat n div unat d)))"

definition nlz_step :: "u32 \<Rightarrow> nat \<Rightarrow> nat \<times> u32 \<Rightarrow> nat \<times> u32" where
  "nlz_step bound k p = (case p of (n, x) \<Rightarrow> if x \<le> bound then (n + k, push_bit k x) else (n, x))"

definition nlz :: "u32 \<Rightarrow> nat" where
  "nlz x =
     (let p = nlz_step 0x0000FFFF 16 (0, x);
          p = nlz_step 0x00FFFFFF 8 p;
          p = nlz_step 0x0FFFFFFF 4 p;
          p = nlz_step 0x3FFFFFFF 2 p in
      if snd p \<le> 0x7FFFFFFF then fst p + 1 else fst p)"

definition udiv64 :: "u64 \<Rightarrow> u64 \<Rightarrow> u64 option" where
  "udiv64 n d =
     (if drop_bit 32 d = 0 then
        let b = push_bit 32 1 :: u64;
            n1 = ucast (drop_bit 32 n) :: u32;
            n0 = ucast n :: u32;
            d0 = ucast d :: u32 in
        ASSERT (d0 \<noteq> 0) (
        Option.bind (divl (b * ucast (n1 mod d0) + ucast n0) d0) (\<lambda>q. Some (ucast q + b * ucast (n1 div d0))))
      else if n < d then Some 0
      else
        let d1 = ucast (drop_bit 32 d) :: u32;
            s = nlz d1 in
        Option.bind (divl (drop_bit 1 n) (ucast (drop_bit 32 (push_bit s d)))) (\<lambda>q1.
        let q = ucast (drop_bit (31 - s) q1) :: u64 in
        Some (if n - (q - 1) * d < d then q - 1 else q)))"

definition umod64 :: "u64 \<Rightarrow> u64 \<Rightarrow> u32 option" where
  "umod64 n d = Option.bind (udiv64 n d) (\<lambda>q. Some (ucast (n - d * q)))"

definition sdiv64 :: "u64 \<Rightarrow> u64 \<Rightarrow> u64 option" where
  "sdiv64 n d =
     (let n_abs = (if 0 \<le> sint n then n else - n);
          d_abs = (if 0 \<le> sint d then d else - d) in
      Option.bind (udiv64 n_abs d_abs) (\<lambda>q_abs.
      Some (if (sint n < 0) = (sint d < 0) then q_abs else - q_abs)))"

definition smod64 :: "u64 \<Rightarrow> u64 \<Rightarrow> u32 option" where
  "smod64 n d = Option.bind (sdiv64 n d) (\<lambda>q. Some (ucast (n - d * q)))"

text \<open>The entry points; the remainders come back from 32 bits.\<close>

definition divdi3 :: "u64 \<Rightarrow> u64 \<Rightarrow> u64 option" where "divdi3 n d = sdiv64 n d"

definition moddi3 :: "u64 \<Rightarrow> u64 \<Rightarrow> u64 option" where "moddi3 n d = map_option scast (smod64 n d)"

definition udivdi3 :: "u64 \<Rightarrow> u64 \<Rightarrow> u64 option" where "udivdi3 n d = udiv64 n d"

definition umoddi3 :: "u64 \<Rightarrow> u64 \<Rightarrow> u64 option" where "umoddi3 n d = map_option ucast (umod64 n d)"

section \<open>Leading zeros\<close>

lemma unat_push:
  fixes x :: "'a :: len word"
  assumes "unat x * 2 ^ k < 2 ^ LENGTH('a)" shows "unat (push_bit k x) = unat x * 2 ^ k"
proof -
  have "unat (push_bit k x) = unat x * 2 ^ k mod 2 ^ LENGTH('a)"
    by (simp add: push_bit_eq_mult unat_word_ariths unsigned_of_nat take_bit_eq_mod flip: of_nat_power) 
      (metis mod_mult_right_eq of_nat_numeral of_nat_power unat_of_nat)
  with assms show ?thesis by simp
qed

text \<open>After a step the number is shifted by what was counted, and its top bit is in the upper \<open>32 - j\<close>.\<close>

lemma nlz_step_inv:
  assumes "p = (n, x)" "unat x = unat x0 * 2 ^ n" "2 ^ j \<le> unat x" "unat bound + 1 = 2 ^ (32 - k)" "k \<le> 32"
    "j' \<le> j + k" "j' \<le> 32 - k"
  obtains n' x' where "nlz_step bound k p = (n', x')" "unat x' = unat x0 * 2 ^ n'" "2 ^ j' \<le> unat x'"
proof (cases "x \<le> bound")
  case True
  then have "unat x < 2 ^ (32 - k)" using assms(4) by (simp add: word_le_nat_alt)
  then have "unat x * 2 ^ k < 2 ^ (32 - k) * 2 ^ k" by simp
  then have u: "unat (push_bit k x) = unat x * 2 ^ k" using assms(5) by (intro unat_push) (simp flip: power_add)
  have "(2 :: nat) ^ j' \<le> 2 ^ (j + k)" using assms(6) by (intro power_increasing) auto
  also have "\<dots> \<le> unat x * 2 ^ k" using assms(3) by (simp add: power_add)
  finally show thesis using True u assms(1,2) that[of "n + k" "push_bit k x"] by (simp add: nlz_step_def power_add)
next
  case False
  then have "2 ^ (32 - k) \<le> unat x" using assms(4) by (simp add: word_le_nat_alt)
  moreover have "(2 :: nat) ^ j' \<le> 2 ^ (32 - k)" using assms(7) by (intro power_increasing) auto
  ultimately have "2 ^ j' \<le> unat x" by linarith
  then show thesis using False assms(1,2) that[of n x] by (simp add: nlz_step_def)
qed

lemma nlz_eq:
  assumes "x \<noteq> 0" shows "2 ^ 31 \<le> unat x * 2 ^ nlz x" "unat x * 2 ^ nlz x < 2 ^ 32" "nlz x \<le> 31"
proof -
  have x: "2 ^ 0 \<le> unat x" using assms by (simp add: Suc_le_eq word_gt_0 unat_gt_0)
  obtain n1 x1 where 1: "nlz_step 0x0000FFFF 16 (0, x) = (n1, x1)" "unat x1 = unat x * 2 ^ n1" "2 ^ 16 \<le> unat x1"
    by (rule nlz_step_inv[of "(0, x)" 0 x x 0 "0xFFFF" 16 16]) (use x in simp_all)
  obtain n2 x2 where 2: "nlz_step 0x00FFFFFF 8 (n1, x1) = (n2, x2)" "unat x2 = unat x * 2 ^ n2" "2 ^ 24 \<le> unat x2"
    by (rule nlz_step_inv[OF refl 1(2,3), of "0xFFFFFF" 8 24]) simp_all
  obtain n3 x3 where 3: "nlz_step 0x0FFFFFFF 4 (n2, x2) = (n3, x3)" "unat x3 = unat x * 2 ^ n3" "2 ^ 28 \<le> unat x3"
    by (rule nlz_step_inv[OF refl 2(2,3), of "0xFFFFFFF" 4 28]) simp_all
  obtain n4 x4 where 4: "nlz_step 0x3FFFFFFF 2 (n3, x3) = (n4, x4)" "unat x4 = unat x * 2 ^ n4" "2 ^ 30 \<le> unat x4"
    by (rule nlz_step_inv[OF refl 3(2,3), of "0x3FFFFFFF" 2 30]) simp_all
  have nlz: "nlz x = (if x4 \<le> 0x7FFFFFFF then n4 + 1 else n4)" by (simp add: nlz_def 1 2 3 4 Let_def)
  then show lo: "2 ^ 31 \<le> unat x * 2 ^ nlz x" and hi: "unat x * 2 ^ nlz x < 2 ^ 32"
    using 4(2,3) unat_bound[of x4] by (auto simp: word_le_nat_alt)
  have "(2 :: nat) ^ nlz x \<le> unat x * 2 ^ nlz x" using x by simp
  with hi have "(2 :: nat) ^ nlz x < 2 ^ 32" by linarith
  then have "nlz x < 32" by (rule power_less_imp_less_exp[rotated]) simp
  then show "nlz x \<le> 31" by simp
qed

section \<open>Division\<close>

text \<open>The estimate of the quotient from the upper half of the shifted divisor is right or one too large.\<close>

lemma quotient_estimate:
  fixes n d v t :: nat
  assumes t: "1 \<le> t" "t \<le> 32" and v: "2 ^ 31 \<le> v" and le: "v * 2 ^ t \<le> d" and lt: "d < (v + 1) * 2 ^ t" and n: "n < 2 ^ 64"
  shows "n div d \<le> n div (v * 2 ^ t)" "n div (v * 2 ^ t) \<le> n div d + 1"
proof -
  let ?D = "v * 2 ^ t"
  have D: "0 < ?D" using v by (simp add: zero_less_mult_iff order.strict_trans2[OF zero_less_power])
  show "n div d \<le> n div ?D" using le D by (rule div_le_mono2[rotated])
  define a :: nat where "a = 2 ^ (t - 1)"
  have a: "2 ^ t = 2 * a" "1 \<le> a" using t by (simp_all add: a_def flip: power_Suc)
  have "d - ?D + 1 \<le> 2 * a" using lt le a by (simp add: algebra_simps)
  moreover have "2 * a \<le> a * a + 1"
  proof -
    have "0 \<le> (int a - 1) * (int a - 1)" by simp
    then have "2 * int a \<le> int a * int a + 1" by (simp add: algebra_simps)
    then show ?thesis by (simp flip: of_nat_mult of_nat_add of_nat_le_iff add: nat_int_comparison)
  qed
  ultimately have diff: "d - ?D \<le> a * a" by linarith
  have "2 ^ 32 * a \<le> ?D" using v a by simp
  then have "2 ^ 64 * (a * a) \<le> ?D * ?D" using mult_le_mono[of "2 ^ 32 * a" ?D "2 ^ 32 * a" ?D] by simp
  then have "n * (d - ?D) \<le> ?D * ?D" using mult_le_mono[OF less_imp_le[OF n] diff] by linarith
  show "n div ?D \<le> n div d + 1"
  proof (rule ccontr)
    assume "\<not> n div ?D \<le> n div d + 1"
    then have Q2: "(n div d + 2) * ?D \<le> n" using D by (subst less_eq_div_iff_mult_less_eq[symmetric]) auto
    have "n < (n div d + 1) * d" using le D by (metis add.commute dividend_less_times_div mult.commute plus_1_eq_Suc mult_Suc_right order.strict_trans2)
    moreover have "(n div d + 1) * d = (n div d + 1) * ?D + (n div d + 1) * (d - ?D)" using le by (simp flip: distrib_left)
    ultimately have "?D < (n div d + 1) * (d - ?D)" using Q2 by (simp add: algebra_simps)
    then have "?D * ?D < (n div d + 1) * (d - ?D) * ?D" using D by (rule mult_strict_right_mono)
    also have "\<dots> = (n div d + 1) * ?D * (d - ?D)" by (simp only: ac_simps)
    also have "\<dots> \<le> n * (d - ?D)" using Q2 by (intro mult_le_mono1) (simp add: algebra_simps)
    finally show False using \<open>n * (d - ?D) \<le> ?D * ?D\<close> by simp
  qed
qed


lemma unat_ucast_down: "unat (ucast (x :: u64) :: u32) = unat x mod 2 ^ 32"
  by (simp add: unsigned_ucast_eq take_bit_eq_mod)

lemma unat_ucast_up [simp]: "unat (ucast (x :: u32) :: u64) = unat x"
  by (simp add: unsigned_ucast_eq take_bit_nat_eq_self unat_bound[of x, simplified] order.strict_trans[OF unat_bound[of x, simplified]])

lemma unat_drop_div: "unat (drop_bit k (x :: 'a :: len word)) = unat x div 2 ^ k"
proof -
  have "take_bit LENGTH('a) (unat x) = unat x" using unat_bound[of x] by (simp add: take_bit_nat_eq_self)
  then show ?thesis by (simp add: unsigned_drop_bit_eq flip: drop_bit_eq_div)
qed

lemma div_split_high:
  fixes n1 n0 d b :: nat
  assumes "0 < d" "n0 < b"
  shows "(b * n1 + n0) div d = (b * (n1 mod d) + n0) div d + b * (n1 div d)" "(b * (n1 mod d) + n0) div d < b"
proof -
  have "b * n1 + n0 = b * (n1 mod d) + n0 + b * (n1 div d) * d"
    using mult_div_mod_eq[of d n1] by (metis add.commute add.left_commute distrib_left mult.assoc mult.commute)
  moreover have "(b * (n1 mod d) + n0 + b * (n1 div d) * d) div d = b * (n1 div d) + (b * (n1 mod d) + n0) div d"
    using assms(1) by (intro div_mult_self1) simp
  ultimately show "(b * n1 + n0) div d = (b * (n1 mod d) + n0) div d + b * (n1 div d)" by (simp only: add.commute)
  have "n1 mod d + 1 \<le> d" using assms(1) by (simp add: Suc_leI)
  then have "b * (n1 mod d + 1) \<le> b * d" by (rule mult_le_mono2)
  then have "b * (n1 mod d) + n0 < b * d" using assms(2) by simp
  then show "(b * (n1 mod d) + n0) div d < b" by (simp add: less_mult_imp_div_less)
qed

lemma udiv64_small:
  assumes "d \<noteq> 0" "drop_bit 32 d = 0" shows "udiv64 n d = Some (n div d)"
proof -
  define n1 n0 d0 where "n1 = (ucast (drop_bit 32 n) :: u32)" and "n0 = (ucast n :: u32)" and "d0 = (ucast d :: u32)"
  have d: "unat d < 2 ^ 32" using arg_cong[OF assms(2), of unat] by (simp add: unat_drop_div div_eq_0_iff)
  then have ud: "unat d0 = unat d" by (simp add: d0_def unat_ucast_down)
  have un: "unat n1 = unat n div 2 ^ 32" "unat n0 = unat n mod 2 ^ 32"
    using unat_bound[of n] by (simp_all add: n1_def n0_def unat_ucast_down unat_drop_div)
  have d0: "0 < unat d" using assms(1) by (simp add: unat_gt_0)
  note s = div_split_high[OF d0, of "unat n0" "2 ^ 32" "unat n1"]
  have n0: "unat n0 < 2 ^ 32" using unat_bound[of n0] by simp
  let ?x = "push_bit 32 1 * ucast (n1 mod d0) + ucast n0 :: u64"
  have "unat n1 mod unat d < 2 ^ 32" using d d0 by (meson mod_less_divisor order.strict_trans)
  then have ux: "unat ?x = 2 ^ 32 * (unat n1 mod unat d) + unat n0"
    using n0 by (simp add: unat_word_ariths ud unat_mod)
  define q where "q = (2 ^ 32 * (unat n1 mod unat d) + unat n0) div unat d"
  have q: "divl ?x d0 = Some (of_nat q)" "q < 2 ^ 32"
    using s(2)[OF n0] ud d0 ux by (auto simp: divl_def q_def unat_eq_0)
  have uq: "unat (of_nat q :: u32) = q" using q(2) by (simp add: unat_of_nat)
  have "d0 \<noteq> 0" using ud d0 by auto
  then have u: "udiv64 n d = Some (ucast (of_nat q :: u32) + push_bit 32 1 * ucast (n1 div d0))"
    using assms(2) q(1) by (simp add: udiv64_def Let_def flip: n1_def n0_def d0_def)
  have nn: "unat n = 2 ^ 32 * unat n1 + unat n0" by (simp add: un)
  have tot: "q + 2 ^ 32 * (unat n1 div unat d) = unat n div unat d" using s(1)[OF n0] nn by (simp add: q_def)
  have "unat n div unat d < 2 ^ 64" using order.strict_trans1[OF div_le_dividend[of "unat n" "unat d"] unat_bound[of n]] by simp
  with tot have "2 ^ 32 * (unat n1 div unat d) < 2 ^ 64" "q + 2 ^ 32 * (unat n1 div unat d) < 2 ^ 64" by linarith+
  then have "unat (ucast (of_nat q :: u32) + push_bit 32 1 * ucast (n1 div d0) :: u64) = unat n div unat d"
    using tot by (simp add: unat_word_ariths uq ud unat_div)
  then have "ucast (of_nat q :: u32) + push_bit 32 1 * ucast (n1 div d0) = n div d"
    by (simp add: word_unat_eq_iff unat_div)
  with u show ?thesis by simp
qed


text \<open>The last step chooses between the estimate and the number below it.\<close>

lemma choose_quotient:
  fixes n d q :: u64
  assumes d: "d \<noteq> 0" "d \<le> n" and q: "unat n div unat d \<le> unat q" "unat q \<le> unat n div unat d + 1"
  shows "(if n - (q - 1) * d < d then q - 1 else q) = n div d"
proof -
  define Q where "Q = unat n div unat d"
  have ud: "0 < unat d" using d(1) by (simp add: unat_gt_0)
  have Q1: "1 \<le> Q" using d(2) ud div_le_mono[of "unat d" "unat n" "unat d"] by (simp add: Q_def word_le_nat_alt)
  have uQ: "unat (n div d) = Q" by (simp add: Q_def unat_div)
  have Qd: "Q * unat d \<le> unat n" "unat n < (Q + 1) * unat d"
    using ud dividend_less_times_div[of "unat d" "unat n"] by (simp_all add: Q_def algebra_simps)
  have q1: "unat (q - 1) = unat q - 1" using q(1) Q1 by (intro unat_dec) (simp add: word_less_nat_alt Q_def)
  show ?thesis
  proof (cases "unat q = Q")
    case True
    then have "unat (q - 1) * unat d \<le> unat n" using q1 Qd(1) by (simp add: diff_mult_distrib)
    then have m: "unat ((q - 1) * d) = (Q - 1) * unat d"
      using unat_bound[of n] q1 True by (simp add: unat_word_ariths)
    then have "unat (n - (q - 1) * d) = unat n - (Q - 1) * unat d"
      using \<open>unat (q - 1) * unat d \<le> unat n\<close> q1 True by (simp add: unat_sub word_le_nat_alt)
    moreover have "unat d \<le> unat n - (Q - 1) * unat d" using Qd(1) Q1 by (simp add: diff_mult_distrib)
    ultimately show ?thesis using True uQ by (simp add: word_less_nat_alt word_unat_eq_iff)
  next
    case False
    then have uq: "unat q = Q + 1" using q by (simp add: Q_def)
    then have m: "unat ((q - 1) * d) = Q * unat d" using unat_bound[of n] q1 Qd(1) by (simp add: unat_word_ariths)
    then have "unat (n - (q - 1) * d) = unat n - Q * unat d" using Qd(1) by (simp add: unat_sub word_le_nat_alt)
    then show ?thesis using uq q1 Qd uQ by (simp add: word_less_nat_alt word_unat_eq_iff algebra_simps)
  qed
qed

lemma udiv64_large:
  assumes "drop_bit 32 d \<noteq> 0" "d \<le> n" shows "udiv64 n d = Some (n div d)"
proof -
  define d1 :: u32 where "d1 = ucast (drop_bit 32 d)"
  define s where "s = nlz d1"
  define t where "t = 32 - s"
  define v where "v = unat d div 2 ^ t"
  have ud1: "unat d1 = unat d div 2 ^ 32" using unat_bound[of d] by (simp add: d1_def unat_ucast_down unat_drop_div)
  have "unat (drop_bit 32 d) \<noteq> 0" using assms(1) by (simp add: unat_eq_0)
  then have "d1 \<noteq> 0" using ud1 by (auto simp: unat_drop_div)
  note s = nlz_eq[OF this, folded s_def]
  have t: "1 \<le> t" "t \<le> 32" "s + t = 32" using s(3) by (auto simp: t_def)
  have p32: "(2 :: nat) ^ 32 = 2 ^ s * 2 ^ t" using t(3) by (metis power_add)
  have vd: "v * 2 ^ t \<le> unat d" "unat d < (v + 1) * 2 ^ t"
    using dividend_less_times_div[of "2 ^ t" "unat d"] by (simp_all add: v_def algebra_simps)
  have vs: "unat d * 2 ^ s div 2 ^ 32 = v" unfolding v_def p32 by (metis div_mult_mult2 mult.commute power_not_zero zero_neq_numeral)
  have "unat d div 2 ^ 32 * 2 ^ s \<le> v"
    unfolding v_def p32 div_mult2_eq by (metis div_mult2_eq div_times_less_eq_dividend mult.commute)
  then have v31: "2 ^ 31 \<le> v" using s(1) ud1 by simp
  have "unat d1 < 2 ^ t" using s(2) p32 by (metis mult.commute mult_less_cancel2)
  then have "unat d < 2 ^ t * 2 ^ 32" using ud1 by (simp add: div_less_iff_less_mult)
  then have v32: "v < 2 ^ 32" unfolding v_def by (metis less_mult_imp_div_less mult.commute)
  have ds: "unat d * 2 ^ s < 2 ^ 64"
  proof -
    have "unat d * 2 ^ s < 2 ^ t * 2 ^ 32 * 2 ^ s" using \<open>unat d < 2 ^ t * 2 ^ 32\<close> by simp
    also have "\<dots> = (2 :: nat) ^ (t + 32 + s)" by (simp only: power_add)
    also have "t + 32 + s = 64" using t(3) by simp
    finally show ?thesis .
  qed
  have uv: "unat (ucast (drop_bit 32 (push_bit s d)) :: u32) = v"
    using ds vs v32 by (simp add: unat_ucast_down unat_drop_div unat_push)
  have "unat n div 2 < 2 ^ 32 * v" using unat_bound[of n] v31 by simp
  then have "unat n div 2 div v < 2 ^ 32" by (simp add: less_mult_imp_div_less)
  then have dl: "divl (drop_bit 1 n) (ucast (drop_bit 32 (push_bit s d))) = Some (of_nat (unat n div 2 div v))"
    using v31 uv by (auto simp: divl_def unat_drop_div unat_eq_0)
  define q1 :: u32 where "q1 = of_nat (unat n div 2 div v)"
  have uq1: "unat q1 = unat n div 2 div v" using \<open>unat n div 2 div v < 2 ^ 32\<close> by (simp add: q1_def unat_of_nat)
  define q :: u64 where "q = ucast (drop_bit (31 - s) q1)"
  have "(2 :: nat) * 2 ^ (31 - s) = 2 ^ t" using s(3) by (simp add: t_def Suc_diff_le flip: power_Suc)
  then have D: "2 * v * 2 ^ (31 - s) = v * 2 ^ t" by (metis mult.assoc mult.commute)
  have uq: "unat q = unat n div (v * 2 ^ t)"
    unfolding D[symmetric] by (simp add: q_def unat_drop_div uq1 div_mult2_eq)
  have "d \<noteq> 0" using assms(1) by auto
  note est = quotient_estimate[OF t(1,2) v31 vd, of "unat n", folded uq]
  have "n - (q - 1) * d < d \<longrightarrow> q - 1 = n div d" "\<not> n - (q - 1) * d < d \<longrightarrow> q = n div d"
    using choose_quotient[of d n q] est unat_bound[of n] assms \<open>d \<noteq> 0\<close> by (auto split: if_splits)
  then show ?thesis
    using assms dl by (auto simp: udiv64_def Let_def not_less simp flip: d1_def s_def q1_def q_def)
qed


lemma udiv64_eq: "d \<noteq> 0 \<Longrightarrow> udiv64 n d = Some (n div d)"
proof (cases "drop_bit 32 d = 0")
  case True
  then show "d \<noteq> 0 \<Longrightarrow> ?thesis" using udiv64_small by simp
next
  case False
  moreover have "udiv64 n d = Some (n div d)" if "n < d"
    using False that by (simp add: udiv64_def word_unat_eq_iff unat_div word_less_nat_alt)
  ultimately show ?thesis using udiv64_large[OF False, of n] by (cases "n < d") (auto simp: not_less)
qed

section \<open>Properties\<close>

text \<open>C18. The unsigned 64-bit division that is put together from 32-bit divisions computes the quotient for every
  dividend and every divisor but 0, and the processor's divide instruction never traps on the way; dividing by 0 traps.\<close>

theorem udivdi3_is_division: "udivdi3 n d = (if d = 0 then None else Some (n div d))"
  using udiv64_eq[of d n] by (auto simp: udivdi3_def udiv64_def Let_def)

text \<open>Signed 64-bit division truncates towards zero, as C asks; the one quotient that does not fit, of the least
  number by -1, wraps.\<close>

lemma divdi3_is_signed_division: "divdi3 n d = (if d = 0 then None else Some (word_of_int (sint n sdiv sint d)))"
proof (cases "d = 0")
  case True
  then show ?thesis using udiv64_eq[of 0] by (auto simp: divdi3_def sdiv64_def udiv64_def Let_def)
next
  case False
  define a where "a = (\<lambda>x :: u64. if 0 \<le> sint x then x else - x)"
  have abs: "int (unat (a x)) = \<bar>sint x\<bar>" for x
  proof -
    have "a x = word_of_int \<bar>sint x\<bar>" by (simp add: a_def)
    moreover have "\<bar>sint x\<bar> < 2 ^ 64" using sint_ge[of x] sint_lt[of x] by simp
    ultimately show ?thesis by (simp add: uint_word_of_int_eq take_bit_int_eq_self)
  qed
  have nz: "a d \<noteq> 0" using False by (auto simp: a_def)
  have "a n div a d = word_of_int (\<bar>sint n\<bar> div \<bar>sint d\<bar>)"
  proof -
    have "int (unat (a n div a d)) = \<bar>sint n\<bar> div \<bar>sint d\<bar>"
      unfolding unat_div zdiv_int abs ..
    moreover have "word_of_int (int (unat x)) = x" for x :: u64 by simp
    ultimately show ?thesis by metis
  qed
  moreover have "sint d \<noteq> 0" using False signed_word_eqI[of d 0] by auto
  moreover have "sdiv64 n d = Option.bind (udiv64 (a n) (a d)) (\<lambda>q. Some (if (sint n < 0) = (sint d < 0) then q else - q))"
    by (simp add: sdiv64_def a_def Let_def)
  ultimately show ?thesis
    using False udiv64_eq[OF nz, of "a n"] by (auto simp: divdi3_def signed_divide_int_def sgn_if)
qed

text \<open>The 64-bit remainder is computed right but then cut to 32 bits: \<^verbatim>\<open>umod64\<close> returns a
  \<^verbatim>\<open>uint32_t\<close>. So \<^verbatim>\<open>__umoddi3\<close> returns the remainder exactly when it is below \<open>2 ^ 32\<close>, in
  particular for every divisor up to \<open>2 ^ 32\<close>, and a wrong number otherwise.\<close>

lemma umoddi3_truncates:
  assumes "d \<noteq> 0"
  shows "umoddi3 n d = Some (of_nat (unat (n mod d) mod 2 ^ 32)) \<and> (umoddi3 n d = Some (n mod d) \<longleftrightarrow> unat (n mod d) < 2 ^ 32)"
proof -
  have "n - d * (n div d) = n mod d" by (simp add: minus_mult_div_eq_mod)
  then have u: "umoddi3 n d = Some (ucast (ucast (n mod d) :: u32))"
    using udiv64_eq[OF assms, of n] by (simp add: umoddi3_def umod64_def)
  have "unat (ucast (ucast (n mod d) :: u32) :: u64) = unat (n mod d) mod 2 ^ 32" by (simp add: unat_ucast_down)
  then have "ucast (ucast (n mod d) :: u32) = (of_nat (unat (n mod d) mod 2 ^ 32) :: u64)"
    by (metis of_nat_unat ucast_id)
  moreover have "ucast (ucast (n mod d) :: u32) = n mod d \<longleftrightarrow> unat (n mod d) < 2 ^ 32"
    unfolding word_unat_eq_iff by (simp add: unat_ucast_down mod_eq_self_iff_div_eq_0 div_eq_0_iff)
  ultimately show ?thesis using u by simp
qed

lemma umoddi3_truncates_witness:
  "umoddi3 0x200000007 0x300000000 = Some 7 \<and> (0x200000007 :: u64) mod 0x300000000 = 0x200000007"
  using umoddi3_truncates[of "0x300000000" "0x200000007"] by simp

end
