(* ===== verification/Prng.thy ===== *)
theory Prng
  imports Prelude "HOL-Library.Multiset"
begin

text \<open>
  The pseudo-random number generator, after \<^verbatim>\<open>lib/random.c\<close>: the RC4 stream cipher, whose state is a
  permutation of the 256 bytes and two indices.
\<close>

section \<open>Definitions\<close>

record rc4 =
  rc_s :: "u8 list"
  s_i :: u8
  s_j :: u8
  inited :: bool

definition swap_byte :: "nat \<Rightarrow> nat \<Rightarrow> u8 list \<Rightarrow> u8 list" where
  "swap_byte a b s = s[a := s ! b, b := s ! a]"

text \<open>The bytes of the seed, lowest first.\<close>

definition seed_byte :: "u32 \<Rightarrow> nat \<Rightarrow> u8" where
  "seed_byte seed k = ucast (drop_bit (8 * (k mod 4)) seed)"

function random_init_loop :: "u32 \<Rightarrow> nat \<Rightarrow> u8 \<Rightarrow> u8 list \<Rightarrow> u8 list" where
  "random_init_loop seed i j s =
     (if i < 256 then
        let j = j + (s ! i + seed_byte seed i) in
        random_init_loop seed (i + 1) j (swap_byte i (unat j) s)
      else s)"
  by pat_completeness auto
termination
  by (relation "measure (\<lambda>(seed, i, j, s). 256 - i)") auto

definition random_init :: "u32 \<Rightarrow> rc4" where
  "random_init seed =
     \<lparr>rc_s = random_init_loop seed 0 0 (map of_nat [0..<256]), s_i = 0, s_j = 0, inited = True\<rparr>"

fun random_bytes_loop :: "nat \<Rightarrow> rc4 \<Rightarrow> u8 list \<times> rc4" where
  "random_bytes_loop 0 st = ([], st)"
| "random_bytes_loop (Suc n) st =
     (let i = s_i st + 1;
          j = s_j st + rc_s st ! unat i;
          s = swap_byte (unat i) (unat j) (rc_s st);
          s_k = s ! unat i + s ! unat j;
          (bs, st) = random_bytes_loop n (st\<lparr>s_i := i, s_j := j, rc_s := s\<rparr>) in
      (s ! unat s_k # bs, st))"

text \<open>The bytes written to the buffer and the new state.\<close>

definition random_bytes :: "u32 \<Rightarrow> rc4 \<Rightarrow> u8 list \<times> rc4" where
  "random_bytes sz st = random_bytes_loop (unat sz) (if inited st then st else random_init 0)"

definition random_ulong :: "rc4 \<Rightarrow> u32 \<times> rc4" where
  "random_ulong st = (case random_bytes 4 st of (bs, st) \<Rightarrow>
     (foldr (\<lambda>b x. ucast b + 256 * x) bs 0, st))"

declare random_init_loop.simps [simp del]

section \<open>The state stays a permutation\<close>

definition all_bytes :: "u8 list" where "all_bytes = map of_nat [0..<256]"

definition rc4_ok :: "rc4 \<Rightarrow> bool" where
  "rc4_ok st \<longleftrightarrow> inited st \<longrightarrow> mset (rc_s st) = mset all_bytes"

lemma mset_swap_byte: "a < length s \<Longrightarrow> b < length s \<Longrightarrow> mset (swap_byte a b s) = mset s"
  unfolding swap_byte_def by (rule mset_swap)

lemma length_all: "mset s = mset all_bytes \<Longrightarrow> length s = 256"
  using mset_eq_length[of s all_bytes] by (simp add: all_bytes_def)

lemma byte_index: "unat (b :: u8) < 256"
  using unat_bound[of b] by simp

lemma random_init_loop_perm: "mset s = mset all_bytes \<Longrightarrow> mset (random_init_loop seed i j s) = mset all_bytes"
proof (induction seed i j s rule: random_init_loop.induct)
  case (1 seed i j s)
  let ?j = "j + (s ! i + seed_byte seed i)"
  have "mset (swap_byte i (unat ?j) s) = mset all_bytes" if "i < 256"
    using 1(2) that mset_swap_byte[of i s "unat ?j"] length_all[OF 1(2)] byte_index[of ?j] by simp
  then show ?case using 1 by (subst random_init_loop.simps) (simp add: Let_def)
qed

lemma random_init_ok: "rc4_ok (random_init seed)" "inited (random_init seed)"
  using random_init_loop_perm[of all_bytes seed 0 0] by (simp_all add: random_init_def rc4_ok_def all_bytes_def)

lemma random_bytes_loop_ok:
  "inited st \<Longrightarrow> rc4_ok st \<Longrightarrow> random_bytes_loop n st = (bs, st') \<Longrightarrow> inited st' \<and> rc4_ok st' \<and> length bs = n"
proof (induction n arbitrary: st bs st')
  case (Suc n)
  let ?i = "s_i st + 1" and ?j = "s_j st + rc_s st ! unat (s_i st + 1)"
  let ?s = "swap_byte (unat ?i) (unat ?j) (rc_s st)"
  have perm: "mset (rc_s st) = mset all_bytes" using Suc.prems by (simp add: rc4_ok_def)
  have "mset ?s = mset all_bytes"
    using mset_swap_byte[of "unat ?i" "rc_s st" "unat ?j"] length_all[OF perm] byte_index perm by simp
  then have ok: "rc4_ok (st\<lparr>s_i := ?i, s_j := ?j, rc_s := ?s\<rparr>)" by (simp add: rc4_ok_def)
  obtain bs1 st1 where r: "random_bytes_loop n (st\<lparr>s_i := ?i, s_j := ?j, rc_s := ?s\<rparr>) = (bs1, st1)" by fastforce
  then have "bs = ?s ! unat (?s ! unat ?i + ?s ! unat ?j) # bs1" "st' = st1" using Suc.prems(3) by (auto simp: Let_def)
  then show ?case using Suc.IH[OF _ ok r] Suc.prems(1) by simp
qed simp

text \<open>The generator's table is always a permutation of the 256 bytes, after any seed and any number of bytes drawn; so
  every index into it is in range, every byte value can come out, and a call writes exactly as many bytes as were
  asked for.\<close>

lemma random_bytes_invariant:
  assumes "rc4_ok st" "random_bytes sz st = (bs, st')"
  shows "rc4_ok st' \<and> inited st' \<and> length bs = unat sz \<and> mset (rc_s st') = mset all_bytes \<and> rc4_ok (random_init seed)"
proof -
  let ?st = "if inited st then st else random_init 0"
  have "inited ?st" "rc4_ok ?st" using assms(1) random_init_ok by auto
  then have "inited st' \<and> rc4_ok st' \<and> length bs = unat sz"
    using assms(2) random_bytes_loop_ok[of ?st "unat sz" bs st'] by (simp add: random_bytes_def)
  then show ?thesis using random_init_ok(1) by (simp add: rc4_ok_def)
qed

lemma random_bytes_invariant_witness:
  "\<exists>bs st'. random_bytes 2 (random_init 7) = (bs, st') \<and> rc4_ok st' \<and> length bs = 2"
proof -
  obtain bs st' where "random_bytes 2 (random_init 7) = (bs, st')" by fastforce
  with random_bytes_invariant[OF random_init_ok(1) this] show ?thesis by auto
qed

end
