(* ===== verification/Ustar.thy ===== *)
theory Ustar
  imports Prelude
begin

text \<open>
  Headers of archives in the ustar format (\<^verbatim>\<open>lib/ustar.c\<close>). A header is the array of its 512 bytes; names are byte strings
  without the terminating zero. What \<^verbatim>\<open>ustar_make_header\<close> writes, \<^verbatim>\<open>ustar_parse_header\<close> reads.
\<close>

section \<open>Definitions\<close>

datatype ustar_type = USTAR_REGULAR | USTAR_DIRECTORY | USTAR_EOF

text \<open>The byte of a type in the format; \<open>USTAR_EOF\<close> has none.\<close>

definition type_byte :: "ustar_type \<Rightarrow> u8" where
  "type_byte t = (case t of USTAR_REGULAR \<Rightarrow> 48 | USTAR_DIRECTORY \<Rightarrow> 53 | USTAR_EOF \<Rightarrow> -1)"

definition USTAR_HEADER_SIZE :: nat where "USTAR_HEADER_SIZE = 512"

record ustar_header =
  h_name :: "u8 list"
  h_mode :: "u8 list"
  h_uid :: "u8 list"
  h_gid :: "u8 list"
  h_size :: "u8 list"
  h_mtime :: "u8 list"
  h_chksum :: "u8 list"
  h_typeflag :: u8
  h_linkname :: "u8 list"
  h_magic :: "u8 list"
  h_version :: "u8 list"
  h_uname :: "u8 list"
  h_gname :: "u8 list"
  h_devmajor :: "u8 list"
  h_devminor :: "u8 list"
  h_prefix :: "u8 list"
  h_padding :: "u8 list"

text \<open>The structure as bytes and back.\<close>

definition header_bytes :: "ustar_header \<Rightarrow> u8 list" where
  "header_bytes h = h_name h @ h_mode h @ h_uid h @ h_gid h @ h_size h @ h_mtime h @ h_chksum h @ [h_typeflag h] @ h_linkname h @
     h_magic h @ h_version h @ h_uname h @ h_gname h @ h_devmajor h @ h_devminor h @ h_prefix h @ h_padding h"

definition header_of :: "u8 list \<Rightarrow> ustar_header" where
  "header_of bs = \<lparr>h_name = take 100 bs, h_mode = take 8 (drop 100 bs), h_uid = take 8 (drop 108 bs), h_gid = take 8 (drop 116 bs),
     h_size = take 12 (drop 124 bs), h_mtime = take 12 (drop 136 bs), h_chksum = take 8 (drop 148 bs), h_typeflag = bs ! 156,
     h_linkname = take 100 (drop 157 bs), h_magic = take 6 (drop 257 bs), h_version = take 2 (drop 263 bs), h_uname = take 32 (drop 265 bs),
     h_gname = take 32 (drop 297 bs), h_devmajor = take 8 (drop 329 bs), h_devminor = take 8 (drop 337 bs), h_prefix = take 155 (drop 345 bs),
     h_padding = take 12 (drop 500 bs)\<rparr>"

definition zero_header :: ustar_header where "zero_header = header_of (replicate 512 0)"

fun chksum_loop :: "u8 list \<Rightarrow> nat \<Rightarrow> u32 \<Rightarrow> u32" where
  "chksum_loop [] i chksum = chksum"
| "chksum_loop (b # bs) i chksum = chksum_loop bs (i + 1) (chksum + (if 148 \<le> i \<and> i < 148 + 8 then 32 else ucast b))"

definition calculate_chksum :: "ustar_header \<Rightarrow> u32" where "calculate_chksum h = chksum_loop (header_bytes h) 0 0"

text \<open>The loop of \<^verbatim>\<open>strip_antisocial_prefixes\<close>: the characters are slash (47) and dot (46).\<close>

function strip_loop :: "u8 list \<Rightarrow> u8 list" where
  "strip_loop f = (if take 1 f = [47] \<or> take 2 f = [46, 47] \<or> take 3 f = [46, 46, 47]
     then strip_loop (drop 1 (dropWhile (\<lambda>c. c \<noteq> 47) f)) else f)"
  by auto
termination
proof (relation "measure length")
  fix f :: "u8 list" assume "take 1 f = [47] \<or> take 2 f = [46, 47] \<or> take 3 f = [46, 46, 47]"
  then have "f \<noteq> []" by auto
  moreover have "length (dropWhile (\<lambda>c. c \<noteq> 47) f) \<le> length f" by (rule length_dropWhile_le)
  ultimately show "(drop 1 (dropWhile (\<lambda>c. c \<noteq> 47) f), f) \<in> measure length" by (cases f) auto
qed simp

declare strip_loop.simps [simp del]

definition strip_antisocial_prefixes :: "u8 list \<Rightarrow> u8 list" where
  "strip_antisocial_prefixes f = (let f = strip_loop f in if f = [] \<or> f = [46, 46] then [46] else f)"

text \<open>A string with its terminator at the start of a field: \<^verbatim>\<open>strlcpy\<close>, and \<^verbatim>\<open>snprintf\<close> of a text that fits.\<close>

definition put_str :: "u8 list \<Rightarrow> u8 list \<Rightarrow> u8 list" where
  "put_str s fld = (let s = take (length fld - 1) s in s @ [0] @ drop (length s + 1) fld)"

text \<open>The conversion \<^verbatim>\<open>%0<width>o\<close> of an unsigned number.\<close>

fun octal_digits :: "nat \<Rightarrow> u8 list" where
  "octal_digits n = (if n < 8 then [48 + of_nat n] else octal_digits (n div 8) @ [48 + of_nat (n mod 8)])"

declare octal_digits.simps [simp del]

definition octal :: "nat \<Rightarrow> u32 \<Rightarrow> u8 list" where
  "octal width n = (let ds = octal_digits (unat n) in replicate (width - length ds) 48 @ ds)"

definition ustar_text :: "u8 list" where "ustar_text = [117, 115, 116, 97, 114]"
definition root_text :: "u8 list" where "root_text = [114, 111, 111, 116]"

definition ustar_make_header :: "u8 list \<Rightarrow> ustar_type \<Rightarrow> int \<Rightarrow> u8 list option option" where
  "ustar_make_header file_name type sz =
     ASSERT (type = USTAR_REGULAR \<or> type = USTAR_DIRECTORY) (
     let file_name = strip_antisocial_prefixes file_name in
     if 99 < length file_name then Some None
     else
       let h = zero_header;
           h = h\<lparr>h_name := put_str file_name (h_name h)\<rparr>;
           h = h\<lparr>h_mode := put_str (octal 7 (if type = USTAR_REGULAR then 420 else 493)) (h_mode h)\<rparr>;
           h = h\<lparr>h_uid := put_str (replicate 7 48) (h_uid h)\<rparr>;
           h = h\<lparr>h_gid := put_str (replicate 7 48) (h_gid h)\<rparr>;
           h = h\<lparr>h_size := put_str (octal 11 (word_of_int sz)) (h_size h)\<rparr>;
           h = h\<lparr>h_mtime := put_str (octal 11 1136102400) (h_mtime h)\<rparr>;
           h = h\<lparr>h_typeflag := type_byte type\<rparr>;
           h = h\<lparr>h_magic := put_str ustar_text (h_magic h)\<rparr>;
           h = h\<lparr>h_version := [48, 48]\<rparr>;
           h = h\<lparr>h_gname := put_str root_text (h_gname h)\<rparr>;
           h = h\<lparr>h_uname := put_str root_text (h_uname h)\<rparr>;
           h = h\<lparr>h_chksum := put_str (octal 7 (calculate_chksum h)) (h_chksum h)\<rparr>
       in Some (Some (header_bytes h)))"

fun parse_octal :: "u8 list \<Rightarrow> nat \<Rightarrow> u32 \<Rightarrow> u32 option" where
  "parse_octal [] ofs val = None"
| "parse_octal (c # cs) ofs val =
     (if 48 \<le> c \<and> c \<le> 55 then
        if val > (-1) div 8 then None else parse_octal cs (ofs + 1) (ucast c - 48 + val * 8)
      else if c = 32 \<or> c = 0 then if 0 < ofs then Some val else None
      else None)"

definition parse_octal_field :: "u8 list \<Rightarrow> u32 option" where "parse_octal_field s = parse_octal s 0 0"

fun is_all_zeros :: "u8 list \<Rightarrow> bool" where
  "is_all_zeros [] = True"
| "is_all_zeros (b # bs) = (if b \<noteq> 0 then False else is_all_zeros bs)"

datatype ustar_error =
    Not_ustar | Invalid_version | Corrupt_chksum | Checksum_mismatch | Name_too_long | Unimplemented_type | Corrupt_size | File_too_large

text \<open>The name up to its terminator; the entry at the end of an archive has no name.\<close>

definition ustar_parse_header :: "u8 list \<Rightarrow> ustar_error + (u8 list option \<times> ustar_type \<times> int)" where
  "ustar_parse_header header =
     (let h = header_of header;
          name = takeWhile (\<lambda>c. c \<noteq> 0) (h_name h) in
      if is_all_zeros header then Inr (None, USTAR_EOF, 0)
      else if h_magic h \<noteq> ustar_text @ [0] then Inl Not_ustar
      else if h_version h ! 0 \<noteq> 48 \<or> h_version h ! 1 \<noteq> 48 then Inl Invalid_version
      else
        case parse_octal_field (h_chksum h) of
          None \<Rightarrow> Inl Corrupt_chksum
        | Some chksum \<Rightarrow>
            if chksum \<noteq> calculate_chksum h then Inl Checksum_mismatch
            else if h_name h ! 99 \<noteq> 0 \<or> h_prefix h ! 0 \<noteq> 0 then Inl Name_too_long
            else if h_typeflag h = 48 then
              (case parse_octal_field (h_size h) of
                 None \<Rightarrow> Inl Corrupt_size
               | Some sz \<Rightarrow>
                   if sz > 0x7fffffff then Inl File_too_large
                   else Inr (Some (strip_antisocial_prefixes name), USTAR_REGULAR, uint sz))
            else if h_typeflag h = 53 then Inr (Some (strip_antisocial_prefixes name), USTAR_DIRECTORY, 0)
            else Inl Unimplemented_type)"

section \<open>The structure and its bytes\<close>

definition header_ok :: "ustar_header \<Rightarrow> bool" where
  "header_ok h \<longleftrightarrow> length (h_name h) = 100 \<and> length (h_mode h) = 8 \<and> length (h_uid h) = 8 \<and> length (h_gid h) = 8 \<and>
     length (h_size h) = 12 \<and> length (h_mtime h) = 12 \<and> length (h_chksum h) = 8 \<and> length (h_linkname h) = 100 \<and>
     length (h_magic h) = 6 \<and> length (h_version h) = 2 \<and> length (h_uname h) = 32 \<and> length (h_gname h) = 32 \<and>
     length (h_devmajor h) = 8 \<and> length (h_devminor h) = 8 \<and> length (h_prefix h) = 155 \<and> length (h_padding h) = 12"

lemma header_of_bytes: "header_ok h \<Longrightarrow> header_of (header_bytes h) = h"
  by (cases h) (simp add: header_ok_def header_bytes_def header_of_def nth_append)

lemma length_header_bytes: "header_ok h \<Longrightarrow> length (header_bytes h) = 512"
  by (simp add: header_ok_def header_bytes_def)

lemma zero_header_ok: "header_ok zero_header" "h_prefix zero_header ! 0 = 0"
  by (simp_all add: zero_header_def header_of_def header_ok_def)

lemma length_put_str [simp]: "fld \<noteq> [] \<Longrightarrow> length (put_str s fld) = length fld"
  by (cases fld) (auto simp: put_str_def Let_def min_def)

lemma unat_ucast8 [simp]: "unat (ucast (b :: u8) :: u32) = unat b"
proof -
  have "unat b < 2 ^ LENGTH(8)" by (rule unsigned_less)
  then show ?thesis by (simp add: unsigned_ucast_eq take_bit_nat_eq_self)
qed

lemma all_zeros_iff: "is_all_zeros bs \<longleftrightarrow> (\<forall>b \<in> set bs. b = 0)"
  by (induction bs) auto

section \<open>Numbers\<close>

definition digits_val :: "nat \<Rightarrow> u8 list \<Rightarrow> nat" where "digits_val v ds = foldl (\<lambda>v c. v * 8 + (unat c - 48)) v ds"

lemma digits_val_simps [simp]:
  "digits_val v [] = v" "digits_val v (c # ds) = digits_val (v * 8 + (unat c - 48)) ds" "digits_val v (ds @ es) = digits_val (digits_val v ds) es"
  by (simp_all add: digits_val_def)

lemma digits_val_ge: "v \<le> digits_val v ds"
proof (induction ds arbitrary: v)
  case (Cons c ds)
  show ?case using Cons[of "v * 8 + (unat c - 48)"] by simp
qed simp

lemma parse_octal_digits:
  assumes "\<forall>c \<in> set ds. 48 \<le> c \<and> c \<le> 55" "digits_val v ds < 2 ^ 32" "0 < ofs + length ds"
  shows "parse_octal (ds @ 0 # rest) ofs (of_nat v) = Some (of_nat (digits_val v ds))"
  using assms
proof (induction ds arbitrary: v ofs)
  case (Cons c ds)
  have c: "48 \<le> c" "c \<le> 55" using Cons.prems(1) by simp_all
  then have uc: "48 \<le> unat c" "unat c \<le> 55" by (simp_all add: word_le_nat_alt)
  have v: "v * 8 + (unat c - 48) < 2 ^ 32" using digits_val_ge[of "v * 8 + (unat c - 48)" ds] Cons.prems(2) by simp
  then have "v < 2 ^ 29" by simp
  then have ov: "\<not> (of_nat v :: u32) > (-1) div 8" by (simp add: word_less_nat_alt unat_of_nat unat_div)
  have "unat (ucast c :: u32) = unat c" by simp
  then have "(ucast c :: u32) = of_nat (unat c)" by (intro word_unat_eq_iff[THEN iffD2]) (simp add: unat_of_nat)
  then have step: "(ucast c - 48 + of_nat v * 8 :: u32) = of_nat (v * 8 + (unat c - 48))"
    using uc by (simp add: of_nat_diff)
  have "parse_octal (ds @ 0 # rest) (ofs + 1) (of_nat (v * 8 + (unat c - 48))) = Some (of_nat (digits_val (v * 8 + (unat c - 48)) ds))"
    by (rule Cons.IH) (use Cons.prems in auto)
  then show ?case using c ov by (simp add: step)
qed simp

lemma octal_digits_range: "c \<in> set (octal_digits n) \<Longrightarrow> 48 \<le> c \<and> c \<le> 55"
proof (induction n rule: octal_digits.induct)
  case (1 n)
  have d: "48 \<le> 48 + (of_nat k :: u8) \<and> 48 + (of_nat k :: u8) \<le> 55" if "k < 8" for k :: nat
  proof -
    have "unat (48 + of_nat k :: u8) = 48 + k" using that unat_add_lem[of "48 :: u8" "of_nat k"] by (simp add: unat_of_nat)
    then show ?thesis using that by (simp add: word_le_nat_alt)
  qed
  show ?case
  proof (cases "n < 8")
    case True
    then show ?thesis using 1(2) d by (subst (asm) octal_digits.simps) simp
  next
    case False
    then show ?thesis using 1 d[of "n mod 8"] by (subst (asm) (2) octal_digits.simps) auto
  qed
qed

lemma octal_digits_val: "digits_val 0 (octal_digits n) = n"
proof (induction n rule: octal_digits.induct)
  case (1 n)
  have d: "unat (48 + of_nat k :: u8) - 48 = k" if "k < 8" for k :: nat
    using that unat_add_lem[of "48 :: u8" "of_nat k"] by (simp add: unat_of_nat)
  show ?case
  proof (cases "n < 8")
    case True
    then show ?thesis using d by (subst octal_digits.simps) simp
  next
    case False
    have "digits_val 0 (octal_digits (n div 8) @ [48 + of_nat (n mod 8)]) = n"
      using 1[OF False] d[of "n mod 8"] by simp
    then show ?thesis using False by (subst octal_digits.simps) simp
  qed
qed

lemma length_octal_digits: "n < 8 ^ k \<Longrightarrow> 0 < k \<Longrightarrow> length (octal_digits n) \<le> k"
proof (induction k arbitrary: n)
  case (Suc k)
  show ?case
  proof (cases "n < 8")
    case False
    then have "0 < k" using Suc.prems(1) by (cases k) auto
    moreover have "n div 8 < 8 ^ k" using Suc.prems(1) by (simp add: div_less_iff_less_mult mult.commute)
    ultimately show ?thesis using Suc.IH[of "n div 8"] False by (subst octal_digits.simps) simp
  qed (subst octal_digits.simps, simp)
qed simp

lemma octal_field:
  assumes "unat n < 8 ^ k" "0 < k"
  shows "length (octal k n) = k" "parse_octal_field (put_str (octal k n) (replicate (k + 1) 0)) = Some n"
proof -
  have l: "length (octal_digits (unat n)) \<le> k" by (rule length_octal_digits[OF assms])
  then show k: "length (octal k n) = k" by (simp add: octal_def Let_def)
  have "digits_val 0 (replicate m 48) = 0" for m by (induction m) simp_all
  then have v: "digits_val 0 (octal k n) = unat n" by (simp add: octal_def Let_def octal_digits_val)
  have r: "\<forall>c \<in> set (octal k n). 48 \<le> c \<and> c \<le> 55" using octal_digits_range by (auto simp: octal_def Let_def)
  have "digits_val 0 (octal k n) < 2 ^ 32" unfolding v using unsigned_less[of n] by simp
  from parse_octal_digits[OF r this, of 0 "[]"] k assms(2) v
  show "parse_octal_field (put_str (octal k n) (replicate (k + 1) 0)) = Some n"
    by (simp add: parse_octal_field_def put_str_def)
qed

section \<open>The checksum\<close>

lemma chksum_append: "chksum_loop (xs @ ys) i c = chksum_loop ys (i + length xs) (chksum_loop xs i c)"
  by (induction xs arbitrary: i c) simp_all

lemma chksum_spaces: "148 \<le> i \<Longrightarrow> i + length xs \<le> 156 \<Longrightarrow> chksum_loop xs i c = c + of_nat (32 * length xs)"
  by (induction xs arbitrary: i c) (simp_all add: algebra_simps)

lemma chksum_independent:
  assumes "header_ok h" "length x = 8" shows "calculate_chksum (h\<lparr>h_chksum := x\<rparr>) = calculate_chksum h"
  using assms by (simp add: calculate_chksum_def header_bytes_def chksum_append chksum_spaces header_ok_def)

lemma chksum_bound: "unat c + 255 * length bs < 2 ^ 32 \<Longrightarrow> unat (chksum_loop bs i c) \<le> unat c + 255 * length bs"
proof (induction bs arbitrary: i c)
  case (Cons b bs)
  define d :: u32 where "d = (if 148 \<le> i \<and> i < 148 + 8 then 32 else ucast b)"
  have "unat b < 2 ^ LENGTH(8)" by (rule unsigned_less)
  then have d: "unat d \<le> 255" by (simp add: d_def)
  then have u: "unat (c + d) = unat c + unat d" using Cons.prems unat_add_lem[of c d] by simp
  have "chksum_loop (b # bs) i c = chksum_loop bs (i + 1) (c + d)" by (simp add: d_def)
  moreover have "unat (chksum_loop bs (i + 1) (c + d)) \<le> unat (c + d) + 255 * length bs"
    using Cons.prems d by (intro Cons.IH) (simp add: u)
  ultimately show ?case using d by (simp add: u del: chksum_loop.simps)
qed simp

section \<open>Names\<close>

lemma strip_loop_fix: "strip_loop (strip_loop f) = strip_loop f"
proof (induction f rule: strip_loop.induct)
  case (1 f)
  show ?case
  proof (cases "take 1 f = [47] \<or> take 2 f = [46, 47] \<or> take 3 f = [46, 46, 47]")
    case True
    then have "strip_loop f = strip_loop (drop 1 (dropWhile (\<lambda>c. c \<noteq> 47) f))" by (subst strip_loop.simps) simp
    then show ?thesis using 1[OF True] by simp
  next
    case False
    then have "strip_loop f = f" by (subst strip_loop.simps) simp
    then show ?thesis by simp
  qed
qed

lemma strip_loop_subset: "set (strip_loop f) \<subseteq> set f"
proof (induction f rule: strip_loop.induct)
  case (1 f)
  show ?case
  proof (cases "take 1 f = [47] \<or> take 2 f = [46, 47] \<or> take 3 f = [46, 46, 47]")
    case True
    then have "strip_loop f = strip_loop (drop 1 (dropWhile (\<lambda>c. c \<noteq> 47) f))" by (subst strip_loop.simps) simp
    then show ?thesis using 1[OF True] set_drop_subset[of 1 "dropWhile (\<lambda>c. c \<noteq> 47) f"] set_dropWhileD[of _ "\<lambda>c. c \<noteq> 47" f] by auto
  next
    case False
    then have "strip_loop f = f" by (subst strip_loop.simps) simp
    then show ?thesis by simp
  qed
qed

lemma strip_fix: "strip_antisocial_prefixes (strip_antisocial_prefixes f) = strip_antisocial_prefixes f"
proof (cases "strip_loop f = [] \<or> strip_loop f = [46, 46]")
  case True
  have "strip_loop [46] = [46]" by (subst strip_loop.simps) simp
  then show ?thesis using True by (auto simp: strip_antisocial_prefixes_def Let_def)
qed (simp add: strip_antisocial_prefixes_def Let_def strip_loop_fix)

lemma strip_zero_free: "0 \<notin> set f \<Longrightarrow> 0 \<notin> set (strip_antisocial_prefixes f)"
  using strip_loop_subset[of f] by (auto simp: strip_antisocial_prefixes_def Let_def)

text \<open>C28. A header that is made for a file can be read back: from the name without its dangerous prefixes, if that has at most 99
  characters, the type and a size that is not negative, \<^verbatim>\<open>ustar_make_header\<close> makes 512 bytes, and
  \<^verbatim>\<open>ustar_parse_header\<close> accepts them and gives the same name and type, and the size of a regular file. A longer name is
  refused.\<close>

theorem ustar_roundtrip:
  assumes "0 \<notin> set name" "type = USTAR_REGULAR \<or> type = USTAR_DIRECTORY" "0 \<le> sz" "sz < 2 ^ 31"
  shows "if length (strip_antisocial_prefixes name) \<le> 99
    then \<exists>bs. ustar_make_header name type sz = Some (Some bs) \<and> length bs = 512 \<and>
      ustar_parse_header bs = Inr (Some (strip_antisocial_prefixes name), type, if type = USTAR_REGULAR then sz else 0)
    else ustar_make_header name type sz = Some None"
proof (cases "length (strip_antisocial_prefixes name) \<le> 99")
  case False
  then show ?thesis using assms(2) by (simp add: ustar_make_header_def)
next
  case True
  define nm where "nm = strip_antisocial_prefixes name"
  have nm: "length nm \<le> 99" "0 \<notin> set nm" "strip_antisocial_prefixes nm = nm"
    using True strip_zero_free[OF assms(1)] strip_fix by (simp_all add: nm_def)
  define w :: u32 where "w = word_of_int sz"
  have uw: "unat w = nat sz" using assms(3,4) unfolding w_def by (simp add: unsigned_of_int take_bit_int_eq_self)
  define h where "h = zero_header\<lparr>h_name := put_str nm (replicate 100 0),
     h_mode := put_str (octal 7 (if type = USTAR_REGULAR then 420 else 493)) (replicate 8 0), h_uid := put_str (replicate 7 48) (replicate 8 0),
     h_gid := put_str (replicate 7 48) (replicate 8 0), h_size := put_str (octal 11 w) (replicate 12 0),
     h_mtime := put_str (octal 11 1136102400) (replicate 12 0), h_typeflag := type_byte type, h_magic := put_str ustar_text (replicate 6 0),
     h_version := [48, 48], h_gname := put_str root_text (replicate 32 0), h_uname := put_str root_text (replicate 32 0)\<rparr>"
  define c where "c = calculate_chksum h"
  define g where "g = h\<lparr>h_chksum := put_str (octal 7 c) (replicate 8 0)\<rparr>"
  have hok: "header_ok h" using zero_header_ok(1) by (simp add: h_def header_ok_def)
  then have gok: "header_ok g" by (simp add: g_def header_ok_def)
  have "unat c \<le> 255 * 512" using chksum_bound[of 0 "header_bytes h" 0] length_header_bytes[OF hok] by (simp add: c_def calculate_chksum_def)
  then have pc: "parse_octal_field (h_chksum g) = Some c" using octal_field(2)[of c 7] by (simp add: g_def)
  have cg: "calculate_chksum g = c" using chksum_independent[OF hok, of "put_str (octal 7 c) (replicate 8 0)"] by (simp add: g_def c_def)
  have "unat w < 8 ^ 11" using uw assms(3,4) by simp
  from octal_field(2)[OF this] have ps: "parse_octal_field (h_size g) = Some w" by (simp add: g_def h_def)
  have z: "h_mode zero_header = replicate 8 0" "h_name zero_header = replicate 100 0" "h_uid zero_header = replicate 8 0"
    "h_gid zero_header = replicate 8 0" "h_size zero_header = replicate 12 0" "h_mtime zero_header = replicate 12 0"
    "h_magic zero_header = replicate 6 0" "h_gname zero_header = replicate 32 0" "h_uname zero_header = replicate 32 0"
    "h_chksum zero_header = replicate 8 0" by (simp_all add: zero_header_def header_of_def)
  have make: "ustar_make_header name type sz = Some (Some (header_bytes g))"
    using assms(2) nm(1) unfolding ustar_make_header_def Let_def nm_def[symmetric] w_def[symmetric]
    by (simp add: z g_def c_def h_def)
  have tf: "h_typeflag g = type_byte type" "h_typeflag g \<in> {48, 53}" using assms(2) by (auto simp: g_def h_def type_byte_def)
  have "\<not> is_all_zeros (header_bytes g)" using tf(2) by (auto simp: all_zeros_iff header_bytes_def)
  moreover have "h_magic g = ustar_text @ [0]" "h_version g = [48, 48]" by (simp_all add: g_def h_def put_str_def ustar_text_def)
  moreover have "takeWhile (\<lambda>c. c \<noteq> 0) (h_name g) = nm" "h_name g ! 99 = 0"
  proof -
    have n: "h_name g = nm @ 0 # replicate (99 - length nm) 0"
      using nm(1) by (simp add: g_def h_def put_str_def Let_def)
    show "takeWhile (\<lambda>c. c \<noteq> 0) (h_name g) = nm" unfolding n using nm(2) by (subst takeWhile_append2) auto
    show "h_name g ! 99 = 0" unfolding n using nm(1) by (auto simp: nth_append nth_Cons')
  qed
  moreover have "h_prefix g ! 0 = 0" using zero_header_ok(2) by (simp add: g_def h_def)
  moreover have "\<not> w > 0x7fffffff" "uint w = sz"
    using uw assms(3,4) by (simp_all add: word_less_nat_alt uint_nat)
  ultimately have "ustar_parse_header (header_bytes g) = Inr (Some nm, type, if type = USTAR_REGULAR then sz else 0)"
    using assms(2) tf(1) nm(3) pc ps cg unfolding ustar_parse_header_def header_of_bytes[OF gok] Let_def
    by (auto simp: type_byte_def)
  then show ?thesis using True make length_header_bytes[OF gok] by (simp add: nm_def)
qed

theorem ustar_roundtrip_witness:
  "\<exists>bs. ustar_make_header [46, 47, 97] USTAR_REGULAR 700 = Some (Some bs) \<and> ustar_parse_header bs = Inr (Some [97], USTAR_REGULAR, 700)"
proof -
  have "strip_loop [97] = [97]" by (subst strip_loop.simps) simp
  then have "strip_loop [46, 47, 97] = [97]" by (subst strip_loop.simps) simp
  then have "strip_antisocial_prefixes [46, 47, 97] = [97]" by (simp add: strip_antisocial_prefixes_def)
  then show ?thesis using ustar_roundtrip[of "[46, 47, 97]" USTAR_REGULAR 700] by auto
qed

end
