(* ===== verification/Tokenizer.thy ===== *)
theory Tokenizer
  imports Prelude
begin

text \<open>
  The tokenizer of the homework shell (\<^verbatim>\<open>hw-shell/tokenizer.c\<close>): a state machine over the characters of a line that knows two
  kinds of quotes and the backslash. Lines and tokens are byte strings without the terminating zero; a token that does not fit the
  buffer of 4096 characters aborts the program (\<open>None\<close>). Requests for memory are taken to succeed, as the code takes them.
\<close>

section \<open>Definitions\<close>

datatype token_mode = MODE_NORMAL | MODE_SQUOTE | MODE_DQUOTE

text \<open>\<^verbatim>\<open>isspace\<close> of the C locale.\<close>

definition space_char :: "u8 \<Rightarrow> bool" where "space_char c \<longleftrightarrow> c = 32 \<or> 9 \<le> c \<and> c \<le> 13"

text \<open>The loop: \<open>ts\<close> are the tokens so far, \<open>tok\<close> the characters in the buffer. The test at the end of the body is
  \<open>room\<close>. A backslash (92) takes the next character as it is; at the end of the line it is dropped.\<close>

definition n_max :: nat where "n_max = 4096"

abbreviation room :: "u8 list \<Rightarrow> 'a option \<Rightarrow> 'a option" where
  "room tok k \<equiv> (if length tok + 1 \<ge> n_max then None else k)"

fun tokenize_loop :: "token_mode \<Rightarrow> u8 list list \<Rightarrow> u8 list \<Rightarrow> u8 list \<Rightarrow> (u8 list list \<times> u8 list) option" where
  "tokenize_loop mode ts tok [] = Some (ts, tok)"
| "tokenize_loop mode ts tok (c # cs) =
     (case mode of
        MODE_NORMAL \<Rightarrow>
          if c = 39 then room tok (tokenize_loop MODE_SQUOTE ts tok cs)
          else if c = 34 then room tok (tokenize_loop MODE_DQUOTE ts tok cs)
          else if c = 92 then
            (case cs of [] \<Rightarrow> room tok (Some (ts, tok)) | d # ds \<Rightarrow> room (tok @ [d]) (tokenize_loop mode ts (tok @ [d]) ds))
          else if space_char c then
            if 0 < length tok then tokenize_loop mode (ts @ [tok]) [] cs else tokenize_loop mode ts tok cs
          else room (tok @ [c]) (tokenize_loop mode ts (tok @ [c]) cs)
      | MODE_SQUOTE \<Rightarrow>
          if c = 39 then room tok (tokenize_loop MODE_NORMAL ts tok cs)
          else if c = 92 then
            (case cs of [] \<Rightarrow> room tok (Some (ts, tok)) | d # ds \<Rightarrow> room (tok @ [d]) (tokenize_loop mode ts (tok @ [d]) ds))
          else room (tok @ [c]) (tokenize_loop mode ts (tok @ [c]) cs)
      | MODE_DQUOTE \<Rightarrow>
          if c = 34 then room tok (tokenize_loop MODE_NORMAL ts tok cs)
          else if c = 92 then
            (case cs of [] \<Rightarrow> room tok (Some (ts, tok)) | d # ds \<Rightarrow> room (tok @ [d]) (tokenize_loop mode ts (tok @ [d]) ds))
          else room (tok @ [c]) (tokenize_loop mode ts (tok @ [c]) cs))"

text \<open>\<^verbatim>\<open>struct tokens\<close>: its list of buffers stays empty.\<close>

definition tokenize :: "u8 list option \<Rightarrow> u8 list list option option" where
  "tokenize line =
     (case line of None \<Rightarrow> Some None
      | Some line \<Rightarrow>
          Option.bind (tokenize_loop MODE_NORMAL [] [] line) (\<lambda>(ts, tok).
          Some (Some (if 0 < length tok then ts @ [tok] else ts))))"

definition tokens_get_length :: "u8 list list option \<Rightarrow> nat" where
  "tokens_get_length tokens = (case tokens of None \<Rightarrow> 0 | Some ts \<Rightarrow> length ts)"

definition tokens_get_token :: "u8 list list option \<Rightarrow> nat \<Rightarrow> u8 list option" where
  "tokens_get_token tokens n =
     (case tokens of None \<Rightarrow> None | Some ts \<Rightarrow> if n \<ge> length ts then None else Some (ts ! n))"

section \<open>Quoting\<close>

text \<open>A word is written in pieces: a character as it is or behind a backslash, or a run of characters in single or in double quotes, each of which may again be
  behind a backslash (\<open>True\<close>).\<close>

datatype piece = Plain u8 | Escaped u8 | Single "(bool \<times> u8) list" | Double "(bool \<times> u8) list"

definition quoted :: "(bool \<times> u8) list \<Rightarrow> u8 list" where "quoted xs = concat (map (\<lambda>(b, c). if b then [92, c] else [c]) xs)"

fun written :: "piece \<Rightarrow> u8 list" where
  "written (Plain c) = [c]"
| "written (Escaped c) = [92, c]"
| "written (Single xs) = [39] @ quoted xs @ [39]"
| "written (Double xs) = [34] @ quoted xs @ [34]"

fun meant :: "piece \<Rightarrow> u8 list" where
  "meant (Plain c) = [c]"
| "meant (Escaped c) = [c]"
| "meant (Single xs) = map snd xs"
| "meant (Double xs) = map snd xs"

text \<open>Which characters need the backslash: outside of quotes, the quotes, the backslash and white space; inside, the closing quote and the backslash. No character is
  the terminating zero.\<close>

fun piece_ok :: "piece \<Rightarrow> bool" where
  "piece_ok (Plain c) \<longleftrightarrow> c \<noteq> 0 \<and> c \<noteq> 39 \<and> c \<noteq> 34 \<and> c \<noteq> 92 \<and> \<not> space_char c"
| "piece_ok (Escaped c) \<longleftrightarrow> c \<noteq> 0"
| "piece_ok (Single xs) \<longleftrightarrow> (\<forall>(b, c) \<in> set xs. c \<noteq> 0 \<and> (b \<or> c \<noteq> 39 \<and> c \<noteq> 92))"
| "piece_ok (Double xs) \<longleftrightarrow> (\<forall>(b, c) \<in> set xs. c \<noteq> 0 \<and> (b \<or> c \<noteq> 34 \<and> c \<noteq> 92))"

definition word_text :: "piece list \<Rightarrow> u8 list" where "word_text w = concat (map written w)"

definition word_of :: "piece list \<Rightarrow> u8 list" where "word_of w = concat (map meant w)"

text \<open>Each word fits the buffer and is written in proper pieces.\<close>

definition word_ok :: "piece list \<Rightarrow> bool" where
  "word_ok w \<longleftrightarrow> (\<forall>p \<in> set w. piece_ok p) \<and> length (word_of w) + 1 < n_max"

text \<open>A line: the words with white space before each, which only the first can do without.\<close>

fun command :: "(u8 list \<times> piece list) list \<Rightarrow> u8 list" where
  "command [] = []"
| "command ((gap, w) # rest) = gap @ word_text w @ command rest"

fun gaps_ok :: "bool \<Rightarrow> (u8 list \<times> piece list) list \<Rightarrow> bool" where
  "gaps_ok start [] = True"
| "gaps_ok start ((gap, w) # rest) \<longleftrightarrow> (\<forall>c \<in> set gap. space_char c) \<and> (gap \<noteq> [] \<or> start) \<and> word_ok w \<and> gaps_ok False rest"

text \<open>The words that the line stands for. A word may be empty, as in \<^verbatim>\<open>''\<close>: the tokenizer gives no token for it.\<close>

definition words_of :: "(u8 list \<times> piece list) list \<Rightarrow> u8 list list" where
  "words_of ws = filter (\<lambda>w. w \<noteq> []) (map (word_of \<circ> snd) ws)"

lemma single_loop:
  assumes "\<forall>(b, c) \<in> set xs. c \<noteq> 0 \<and> (b \<or> c \<noteq> 39 \<and> c \<noteq> 92)" "length tok + length xs + 1 < n_max"
  shows "tokenize_loop MODE_SQUOTE ts tok (quoted xs @ cs) = tokenize_loop MODE_SQUOTE ts (tok @ map snd xs) cs"
  using assms by (induction xs arbitrary: tok) (auto simp: quoted_def)

lemma double_loop:
  assumes "\<forall>(b, c) \<in> set xs. c \<noteq> 0 \<and> (b \<or> c \<noteq> 34 \<and> c \<noteq> 92)" "length tok + length xs + 1 < n_max"
  shows "tokenize_loop MODE_DQUOTE ts tok (quoted xs @ cs) = tokenize_loop MODE_DQUOTE ts (tok @ map snd xs) cs"
  using assms by (induction xs arbitrary: tok) (auto simp: quoted_def)

lemma piece_loop:
  assumes "piece_ok p" "length tok + length (meant p) + 1 < n_max"
  shows "tokenize_loop MODE_NORMAL ts tok (written p @ cs) = tokenize_loop MODE_NORMAL ts (tok @ meant p) cs"
proof (cases p)
  case (Single xs)
  then show ?thesis using assms single_loop[of xs tok ts "39 # cs"] by simp
next
  case (Double xs)
  then show ?thesis using assms double_loop[of xs tok ts "34 # cs"] by simp
qed (use assms in simp_all)

lemma word_loop:
  assumes "\<forall>p \<in> set w. piece_ok p" "length tok + length (word_of w) + 1 < n_max"
  shows "tokenize_loop MODE_NORMAL ts tok (word_text w @ cs) = tokenize_loop MODE_NORMAL ts (tok @ word_of w) cs"
  using assms by (induction w arbitrary: tok) (simp_all add: word_text_def word_of_def piece_loop)

lemma gap_loop:
  assumes "\<forall>c \<in> set gap. space_char c"
  shows "tokenize_loop MODE_NORMAL ts tok (gap @ cs) =
    (if gap = [] then tokenize_loop MODE_NORMAL ts tok cs
     else tokenize_loop MODE_NORMAL (if tok = [] then ts else ts @ [tok]) [] cs)"
  using assms
proof (induction gap arbitrary: ts tok)
  case (Cons c gap)
  then have "c \<noteq> 39" "c \<noteq> 34" "c \<noteq> 92" "space_char c" by (auto simp: space_char_def)
  then show ?case using Cons by (cases tok) simp_all
qed simp

lemma command_loop:
  assumes "gaps_ok (tok = []) ws"
  shows "\<exists>ts' tok'. tokenize_loop MODE_NORMAL ts tok (command ws @ cs) = tokenize_loop MODE_NORMAL ts' tok' cs \<and>
    (if tok' = [] then ts' else ts' @ [tok']) = (if tok = [] then ts else ts @ [tok]) @ words_of ws"
  using assms
proof (induction ws arbitrary: ts tok)
  case Nil
  show ?case by (intro exI[of _ ts] exI[of _ tok]) (simp add: words_of_def)
next
  case (Cons x ws)
  obtain gap w where x: "x = (gap, w)" by (cases x)
  have g: "\<forall>c \<in> set gap. space_char c" "gap \<noteq> [] \<or> tok = []" "\<forall>p \<in> set w. piece_ok p" "length (word_of w) + 1 < n_max" "gaps_ok False ws"
    using Cons.prems by (simp_all add: x word_ok_def)
  define us where "us = (if tok = [] then ts else ts @ [tok])"
  have "tokenize_loop MODE_NORMAL ts tok (gap @ word_text w @ command ws @ cs) = tokenize_loop MODE_NORMAL us [] (word_text w @ command ws @ cs)"
    using gap_loop[OF g(1), of ts tok "word_text w @ command ws @ cs"] g(2) by (auto simp: us_def)
  then have "tokenize_loop MODE_NORMAL ts tok (command (x # ws) @ cs) = tokenize_loop MODE_NORMAL us (word_of w) (command ws @ cs)"
    using word_loop[of w "[]" us "command ws @ cs"] g(3,4) by (simp add: x)
  moreover have "gaps_ok (word_of w = []) ws" using g(5) by (cases ws) auto
  then obtain ts' tok' where "tokenize_loop MODE_NORMAL us (word_of w) (command ws @ cs) = tokenize_loop MODE_NORMAL ts' tok' cs"
    "(if tok' = [] then ts' else ts' @ [tok']) = (if word_of w = [] then us else us @ [word_of w]) @ words_of ws"
    using Cons.IH[of "word_of w" us] by auto
  ultimately show ?case using x by (intro exI[of _ ts'] exI[of _ tok']) (simp add: us_def words_of_def)
qed

text \<open>C29. The tokenizer reads back every command line. Each word may mix characters as they are, characters behind a backslash, and runs in single and in double
  quotes in which characters are again as they are or behind a backslash; between words there is white space. The tokens are the words meant, in order, without those that
  are empty. A word must fit the buffer, and no character is the zero that ends a line.\<close>

theorem tokenize_roundtrip:
  assumes "gaps_ok True ws" "\<forall>c \<in> set trail. space_char c"
  shows "tokenize (Some (command ws @ trail)) = Some (Some (words_of ws)) \<and>
    tokens_get_length (Some (words_of ws)) = length (words_of ws) \<and>
    (\<forall>n. tokens_get_token (Some (words_of ws)) n = (if n < length (words_of ws) then Some (words_of ws ! n) else None))"
proof -
  have "gaps_ok ([] = ([] :: u8 list)) ws" using assms(1) by simp
  from command_loop[OF this, of "[]" trail] obtain ts tok where
    l: "tokenize_loop MODE_NORMAL [] [] (command ws @ trail) = tokenize_loop MODE_NORMAL ts tok trail"
    "(if tok = [] then ts else ts @ [tok]) = words_of ws" by auto
  have "tokenize_loop MODE_NORMAL ts tok trail = Some (if trail = [] then (ts, tok) else (if tok = [] then ts else ts @ [tok], []))"
    using gap_loop[OF assms(2), of ts tok "[]"] by simp
  then have "tokenize (Some (command ws @ trail)) = Some (Some (words_of ws))"
    using l by (auto simp: tokenize_def)
  then show ?thesis by (simp add: tokens_get_length_def tokens_get_token_def)
qed

text \<open>The line \<^verbatim>\<open>l\s 'a "'"'"\\x ''\<close>, with an empty word and a mixture of all pieces.\<close>

theorem tokenize_roundtrip_witness:
  "tokenize (Some [108, 92, 115, 32, 39, 97, 32, 34, 39, 34, 39, 34, 92, 92, 120, 9, 39, 39, 10]) = Some (Some [[108, 115], [97, 32, 34, 39, 92, 120]])"
  using tokenize_roundtrip[of "[([], [Plain 108, Escaped 115]), ([32], [Single [(False, 97), (False, 32), (False, 34)], Double [(False, 39)], Escaped 92, Plain 120]), ([9], [Single []])]" "[10]"]
  by (simp add: word_ok_def word_of_def word_text_def quoted_def words_of_def n_max_def space_char_def)

end
