(* ===== verification/Block_Device.thy ===== *)
theory Block_Device
  imports Prelude
begin

text \<open>
  Block devices, after \<^verbatim>\<open>devices/block.c\<close>: the registered devices in probe order, the device of each role, and
  reading and writing of sectors. The operations of a driver (\<^verbatim>\<open>ops->read\<close>, \<^verbatim>\<open>ops->write\<close>) are those of a disk
  that keeps what was written to a sector; the drivers themselves, which talk to the hardware, are not modelled.
\<close>

section \<open>Definitions\<close>

definition BLOCK_SECTOR_SIZE :: int where "BLOCK_SECTOR_SIZE = 512"

datatype block_kind = BLOCK_KERNEL | BLOCK_FILESYS | BLOCK_SCRATCH | BLOCK_SWAP | BLOCK_RAW | BLOCK_FOREIGN

fun block_type_index :: "block_kind \<Rightarrow> nat" where
  "block_type_index BLOCK_KERNEL = 0"
| "block_type_index BLOCK_FILESYS = 1"
| "block_type_index BLOCK_SCRATCH = 2"
| "block_type_index BLOCK_SWAP = 3"
| "block_type_index BLOCK_RAW = 4"
| "block_type_index BLOCK_FOREIGN = 5"

definition BLOCK_ROLE_CNT :: nat where "BLOCK_ROLE_CNT = 4"

text \<open>A device; its address in kernel memory stands for the pointers to it, 0 for the null pointer.\<close>

type_synonym bptr = nat

record block =
  b_name :: string
  b_type :: block_kind
  b_size :: u32
  sectors :: "u32 \<Rightarrow> u8 list"
  read_cnt :: u64
  write_cnt :: u64

record devices =
  devs :: "bptr \<Rightarrow> block option"
  all_blocks :: "bptr list"
  block_by_role :: "nat \<Rightarrow> bptr"

definition block_type_name :: "block_kind \<Rightarrow> string" where
  "block_type_name t = [''kernel'', ''filesys'', ''scratch'', ''swap'', ''raw'', ''foreign''] ! block_type_index t"

definition block_get_role :: "block_kind \<Rightarrow> devices \<Rightarrow> bptr option" where
  "block_get_role role s =
     ASSERT (block_type_index role < BLOCK_ROLE_CNT) (Some (block_by_role s (block_type_index role)))"

definition block_set_role :: "block_kind \<Rightarrow> bptr \<Rightarrow> devices \<Rightarrow> devices option" where
  "block_set_role role b s =
     ASSERT (block_type_index role < BLOCK_ROLE_CNT)
       (Some (s\<lparr>block_by_role := (block_by_role s)(block_type_index role := b)\<rparr>))"

text \<open>The device at a position of the list, or the null pointer at its end.\<close>

definition list_elem_to_block :: "bptr list \<Rightarrow> bptr" where
  "list_elem_to_block rest = (case rest of [] \<Rightarrow> 0 | b # _ \<Rightarrow> b)"

definition block_first :: "devices \<Rightarrow> bptr" where
  "block_first s = list_elem_to_block (all_blocks s)"

definition block_next :: "bptr \<Rightarrow> devices \<Rightarrow> bptr" where
  "block_next b s = list_elem_to_block (drop 1 (dropWhile (\<lambda>x. x \<noteq> b) (all_blocks s)))"

primrec block_by_name_loop :: "string \<Rightarrow> bptr list \<Rightarrow> devices \<Rightarrow> bptr option" where
  "block_by_name_loop name [] s = Some 0"
| "block_by_name_loop name (b # bs) s =
     Option.bind (devs s b) (\<lambda>d. if name = b_name d then Some b else block_by_name_loop name bs s)"

definition block_get_by_name :: "string \<Rightarrow> devices \<Rightarrow> bptr option" where
  "block_get_by_name name s = block_by_name_loop name (all_blocks s) s"

definition check_sector :: "block \<Rightarrow> u32 \<Rightarrow> unit option" where
  "check_sector d sector = ASSERT (sector < b_size d) (Some ())"

definition block_read :: "bptr \<Rightarrow> u32 \<Rightarrow> devices \<Rightarrow> (u8 list \<times> devices) option" where
  "block_read b sector s =
     Option.bind (devs s b) (\<lambda>d.
     Option.bind (check_sector d sector) (\<lambda>_.
     Some (sectors d sector, s\<lparr>devs := (devs s)(b \<mapsto> d\<lparr>read_cnt := read_cnt d + 1\<rparr>)\<rparr>)))"

definition block_write :: "bptr \<Rightarrow> u32 \<Rightarrow> u8 list \<Rightarrow> devices \<Rightarrow> devices option" where
  "block_write b sector buffer s =
     Option.bind (devs s b) (\<lambda>d.
     Option.bind (check_sector d sector) (\<lambda>_.
     ASSERT (b_type d \<noteq> BLOCK_FOREIGN) (
     Some (s\<lparr>devs := (devs s)(b \<mapsto> d\<lparr>sectors := (sectors d)(sector := buffer), write_cnt := write_cnt d + 1\<rparr>)\<rparr>))))"

definition block_size :: "bptr \<Rightarrow> devices \<Rightarrow> u32 option" where "block_size b s = map_option b_size (devs s b)"

definition block_name :: "bptr \<Rightarrow> devices \<Rightarrow> string option" where "block_name b s = map_option b_name (devs s b)"

definition block_type :: "bptr \<Rightarrow> devices \<Rightarrow> block_kind option" where "block_type b s = map_option b_type (devs s b)"

text \<open>\<open>b\<close> is what \<^verbatim>\<open>malloc\<close> returned for the new device, \<open>contents\<close> what the disk holds; the name is cut to its field.\<close>

definition block_register ::
    "bptr \<Rightarrow> string \<Rightarrow> block_kind \<Rightarrow> u32 \<Rightarrow> (u32 \<Rightarrow> u8 list) \<Rightarrow> devices \<Rightarrow> (bptr \<times> devices) option" where
  "block_register b name type sz contents s =
     ASSERT (b \<noteq> 0) (
     Some (b, s\<lparr>all_blocks := all_blocks s @ [b],
       devs := (devs s)(b \<mapsto> \<lparr>b_name = take 15 name, b_type = type, b_size = sz, sectors = contents,
         read_cnt = 0, write_cnt = 0\<rparr>)\<rparr>))"

end
