(* ===== verification/Inode.thy ===== *)
theory Inode
  imports Bitmap Block_Device Allocator "HOL-Library.Signed_Division"
begin

unbundle bit_operations_syntax

text \<open>
  Files of the file system: inodes on the disk and in memory (\<^verbatim>\<open>filesys/inode.c\<close>), the map of the free sectors
  (\<^verbatim>\<open>filesys/free-map.c\<close>, with the file operations of \<^verbatim>\<open>lib/kernel/bitmap.c\<close>) and open files (\<^verbatim>\<open>filesys/file.c\<close>).

  The state of the three is one record, since they call each other. An inode in memory is known by its address, 0 being
  the null pointer; a \<^verbatim>\<open>struct file\<close> belongs to its holder alone and is a value. Whether the coming requests for kernel
  memory fail is an input (\<open>oom\<close>; none fails once it is used up): \<open>Malloc\<close> models the allocator itself. An access that the C code would make
  outside a buffer or through a null pointer is a panic.
\<close>

section \<open>Definitions\<close>

type_synonym off_t = int

type_synonym iptr = nat

definition FREE_MAP_SECTOR :: u32 where "FREE_MAP_SECTOR = 0"
definition ROOT_DIR_SECTOR :: u32 where "ROOT_DIR_SECTOR = 1"
definition INODE_MAGIC :: u32 where "INODE_MAGIC = 0x494e4f44"

record inode_disk =
  start_sector :: u32
  file_length :: off_t
  inode_magic :: u32

record inode =
  inode_sector :: u32
  open_cnt :: int
  removed :: bool
  deny_write_cnt :: int
  data :: inode_disk

record open_file =
  f_inode :: iptr
  f_pos :: off_t
  f_deny :: bool

record filesys =
  disks :: devices
  fs_device :: bptr
  inodes :: "iptr \<Rightarrow> inode option"
  open_inodes :: "iptr list"
  next_iptr :: iptr
  oom :: "bool list"
  free_map :: bitmap
  free_map_file :: "open_file option"

text \<open>Words and their bytes in memory, lowest byte first.\<close>

definition le32 :: "u32 \<Rightarrow> u8 list" where
  "le32 w = [ucast w, ucast (drop_bit 8 w), ucast (drop_bit 16 w), ucast (drop_bit 24 w)]"

definition of_le32 :: "u8 list \<Rightarrow> u32" where
  "of_le32 bs = ucast (bs ! 0) OR push_bit 8 (ucast (bs ! 1)) OR push_bit 16 (ucast (bs ! 2)) OR push_bit 24 (ucast (bs ! 3))"

text \<open>The sector that holds an inode. The part of the structure that is not used is zero, as \<^verbatim>\<open>calloc\<close> left it.\<close>

definition encode_inode :: "inode_disk \<Rightarrow> u8 list" where
  "encode_inode d = le32 (start_sector d) @ le32 (word_of_int (file_length d)) @ le32 (inode_magic d) @ replicate 500 0"

definition decode_inode :: "u8 list \<Rightarrow> inode_disk" where
  "decode_inode bs = \<lparr>start_sector = of_le32 (take 4 bs), file_length = sint (of_le32 (take 4 (drop 4 bs))),
     inode_magic = of_le32 (take 4 (drop 8 bs))\<rparr>"

text \<open>A request for kernel memory.\<close>

definition kmalloc :: "filesys \<Rightarrow> bool \<times> filesys" where
  "kmalloc s = (case oom s of [] \<Rightarrow> (True, s) | fails # rest \<Rightarrow> (\<not> fails, s\<lparr>oom := rest\<rparr>))"

definition dev_read :: "u32 \<Rightarrow> filesys \<Rightarrow> (u8 list \<times> filesys) option" where
  "dev_read sector s = Option.bind (block_read (fs_device s) sector (disks s)) (\<lambda>(bs, d). Some (bs, s\<lparr>disks := d\<rparr>))"

definition dev_write :: "u32 \<Rightarrow> u8 list \<Rightarrow> filesys \<Rightarrow> filesys option" where
  "dev_write sector bs s = Option.bind (block_write (fs_device s) sector bs (disks s)) (\<lambda>d. Some (s\<lparr>disks := d\<rparr>))"

subsection \<open>Reading and writing inodes\<close>

definition bytes_to_sectors :: "off_t \<Rightarrow> u32" where
  "bytes_to_sectors sz = word_of_int (sint (word_of_int (sz + BLOCK_SECTOR_SIZE - 1) :: u32) sdiv BLOCK_SECTOR_SIZE)"

definition byte_to_sector :: "inode \<Rightarrow> off_t \<Rightarrow> u32" where
  "byte_to_sector i pos =
     (if pos < file_length (data i) then start_sector (data i) + word_of_int (pos sdiv BLOCK_SECTOR_SIZE) else -1)"

definition inode_init :: "filesys \<Rightarrow> filesys" where "inode_init s = s\<lparr>open_inodes := []\<rparr>"

definition inode_length :: "iptr \<Rightarrow> filesys \<Rightarrow> off_t option" where
  "inode_length p s = Option.bind (inodes s p) (\<lambda>i. Some (file_length (data i)))"

text \<open>How much the next turn of a loop moves.\<close>

definition chunk_size :: "inode \<Rightarrow> off_t \<Rightarrow> off_t \<Rightarrow> off_t" where
  "chunk_size i sz offset =
     (let inode_left = file_length (data i) - offset;
          sector_left = BLOCK_SECTOR_SIZE - offset smod BLOCK_SECTOR_SIZE;
          min_left = (if inode_left < sector_left then inode_left else sector_left) in
      if sz < min_left then sz else min_left)"

function inode_read_loop :: "iptr \<Rightarrow> off_t \<Rightarrow> off_t \<Rightarrow> bool \<Rightarrow> filesys \<Rightarrow> (u8 list \<times> filesys) option" where
  "inode_read_loop p sz offset bounce s =
     (if 0 < sz then
        Option.bind (inodes s p) (\<lambda>i.
        let sector_idx = byte_to_sector i offset;
            sector_ofs = offset smod BLOCK_SECTOR_SIZE;
            chunk = chunk_size i sz offset in
        if chunk \<le> 0 then Some ([], s)
        else if sector_ofs = 0 \<and> chunk = BLOCK_SECTOR_SIZE then
          Option.bind (dev_read sector_idx s) (\<lambda>(bs, s).
          Option.bind (inode_read_loop p (sz - chunk) (offset + chunk) bounce s) (\<lambda>(rest, s). Some (bs @ rest, s)))
        else
          let (ok, s) = (if bounce then (True, s) else kmalloc s) in
          if \<not> ok then Some ([], s)
          else
            Option.bind (dev_read sector_idx s) (\<lambda>(bs, s).
            ASSERT (0 \<le> sector_ofs) (
            Option.bind (inode_read_loop p (sz - chunk) (offset + chunk) True s) (\<lambda>(rest, s).
            Some (take (nat chunk) (drop (nat sector_ofs) bs) @ rest, s)))))
      else Some ([], s))"
  by pat_completeness auto
termination
  by (relation "measure (\<lambda>(p, sz, offset, bounce, s). nat sz)") (auto simp: Let_def)

text \<open>The result is the bytes read into the buffer.\<close>

definition inode_read_at :: "iptr \<Rightarrow> off_t \<Rightarrow> off_t \<Rightarrow> filesys \<Rightarrow> (u8 list \<times> filesys) option" where
  "inode_read_at p sz offset s = inode_read_loop p sz offset False s"

function inode_write_loop ::
    "iptr \<Rightarrow> u8 list \<Rightarrow> off_t \<Rightarrow> off_t \<Rightarrow> bool \<Rightarrow> filesys \<Rightarrow> (off_t \<times> filesys) option" where
  "inode_write_loop p buffer sz offset bounce s =
     (if 0 < sz then
        Option.bind (inodes s p) (\<lambda>i.
        let sector_idx = byte_to_sector i offset;
            sector_ofs = offset smod BLOCK_SECTOR_SIZE;
            chunk = chunk_size i sz offset in
        if chunk \<le> 0 then Some (0, s)
        else
          ASSERT (nat chunk \<le> length buffer) (
          if sector_ofs = 0 \<and> chunk = BLOCK_SECTOR_SIZE then
            Option.bind (dev_write sector_idx (take (nat chunk) buffer) s) (\<lambda>s.
            Option.bind (inode_write_loop p (drop (nat chunk) buffer) (sz - chunk) (offset + chunk) bounce s) (\<lambda>(n, s).
            Some (chunk + n, s)))
          else
            let (ok, s) = (if bounce then (True, s) else kmalloc s) in
            if \<not> ok then Some (0, s)
            else
              Option.bind
                (if 0 < sector_ofs \<or> chunk < BLOCK_SECTOR_SIZE - sector_ofs then dev_read sector_idx s
                 else Some (replicate 512 0, s)) (\<lambda>(bs, s).
              ASSERT (0 \<le> sector_ofs) (
              Option.bind (dev_write sector_idx
                (take (nat sector_ofs) bs @ take (nat chunk) buffer @ drop (nat (sector_ofs + chunk)) bs) s) (\<lambda>s.
              Option.bind (inode_write_loop p (drop (nat chunk) buffer) (sz - chunk) (offset + chunk) True s) (\<lambda>(n, s).
              Some (chunk + n, s))))))
        )
      else Some (0, s))"
  by pat_completeness auto
termination
  by (relation "measure (\<lambda>(p, buffer, sz, offset, bounce, s). nat sz)") (auto simp: Let_def)

definition inode_write_at :: "iptr \<Rightarrow> u8 list \<Rightarrow> off_t \<Rightarrow> off_t \<Rightarrow> filesys \<Rightarrow> (off_t \<times> filesys) option" where
  "inode_write_at p buffer sz offset s =
     Option.bind (inodes s p) (\<lambda>i.
     if deny_write_cnt i \<noteq> 0 then Some (0, s) else inode_write_loop p buffer sz offset False s)"

text \<open>Changing the inode in memory.\<close>

definition upd_inode :: "(inode \<Rightarrow> inode) \<Rightarrow> iptr \<Rightarrow> filesys \<Rightarrow> filesys option" where
  "upd_inode f p s = Option.bind (inodes s p) (\<lambda>i. Some (s\<lparr>inodes := (inodes s)(p \<mapsto> f i)\<rparr>))"

definition inode_reopen :: "iptr \<Rightarrow> filesys \<Rightarrow> (iptr \<times> filesys) option" where
  "inode_reopen p s =
     (if p \<noteq> 0 then Option.bind (upd_inode (open_cnt_update (\<lambda>n. n + 1)) p s) (\<lambda>s. Some (p, s)) else Some (p, s))"

definition inode_get_inumber :: "iptr \<Rightarrow> filesys \<Rightarrow> u32 option" where
  "inode_get_inumber p s = map_option inode_sector (inodes s p)"

definition inode_remove :: "iptr \<Rightarrow> filesys \<Rightarrow> filesys option" where
  "inode_remove p s = upd_inode (removed_update (\<lambda>_. True)) p s"

definition inode_deny_write :: "iptr \<Rightarrow> filesys \<Rightarrow> filesys option" where
  "inode_deny_write p s =
     Option.bind (upd_inode (deny_write_cnt_update (\<lambda>n. n + 1)) p s) (\<lambda>s.
     Option.bind (inodes s p) (\<lambda>i.
     ASSERT (deny_write_cnt i \<le> open_cnt i) (Some s)))"

definition inode_allow_write :: "iptr \<Rightarrow> filesys \<Rightarrow> filesys option" where
  "inode_allow_write p s =
     Option.bind (inodes s p) (\<lambda>i.
     ASSERT (0 < deny_write_cnt i) (
     ASSERT (deny_write_cnt i \<le> open_cnt i) (
     upd_inode (deny_write_cnt_update (\<lambda>n. n - 1)) p s)))"

text \<open>The inode of a sector among the open ones.\<close>

primrec find_open :: "u32 \<Rightarrow> iptr list \<Rightarrow> filesys \<Rightarrow> iptr option option" where
  "find_open sector [] s = Some None"
| "find_open sector (p # ps) s =
     Option.bind (inodes s p) (\<lambda>i. if inode_sector i = sector then Some (Some p) else find_open sector ps s)"

definition inode_open :: "u32 \<Rightarrow> filesys \<Rightarrow> (iptr \<times> filesys) option" where
  "inode_open sector s =
     Option.bind (find_open sector (open_inodes s) s) (\<lambda>found.
     case found of
       Some p \<Rightarrow> inode_reopen p s
     | None \<Rightarrow>
         let (ok, s) = kmalloc s in
         if \<not> ok then Some (0, s)
         else
           let p = next_iptr s;
               s = s\<lparr>next_iptr := p + 1, open_inodes := p # open_inodes s\<rparr> in
           Option.bind (dev_read sector s) (\<lambda>(bs, s).
           Some (p, s\<lparr>inodes := (inodes s)(p \<mapsto>
             \<lparr>inode_sector = sector, open_cnt = 1, removed = False, deny_write_cnt = 0, data = decode_inode bs\<rparr>)\<rparr>)))"

subsection \<open>Open files\<close>

definition file_read :: "open_file \<Rightarrow> off_t \<Rightarrow> filesys \<Rightarrow> (u8 list \<times> open_file \<times> filesys) option" where
  "file_read f sz s =
     Option.bind (inode_read_at (f_inode f) sz (f_pos f) s) (\<lambda>(bs, s).
     Some (bs, f\<lparr>f_pos := f_pos f + int (length bs)\<rparr>, s))"

definition file_read_at :: "open_file \<Rightarrow> off_t \<Rightarrow> off_t \<Rightarrow> filesys \<Rightarrow> (u8 list \<times> filesys) option" where
  "file_read_at f sz file_ofs s = inode_read_at (f_inode f) sz file_ofs s"

definition file_write :: "open_file \<Rightarrow> u8 list \<Rightarrow> off_t \<Rightarrow> filesys \<Rightarrow> (off_t \<times> open_file \<times> filesys) option" where
  "file_write f buffer sz s =
     Option.bind (inode_write_at (f_inode f) buffer sz (f_pos f) s) (\<lambda>(n, s). Some (n, f\<lparr>f_pos := f_pos f + n\<rparr>, s))"

definition file_write_at :: "open_file \<Rightarrow> u8 list \<Rightarrow> off_t \<Rightarrow> off_t \<Rightarrow> filesys \<Rightarrow> (off_t \<times> filesys) option" where
  "file_write_at f buffer sz file_ofs s = inode_write_at (f_inode f) buffer sz file_ofs s"

definition file_get_inode :: "open_file \<Rightarrow> iptr" where "file_get_inode f = f_inode f"

definition file_deny_write :: "open_file \<Rightarrow> filesys \<Rightarrow> (open_file \<times> filesys) option" where
  "file_deny_write f s =
     (if \<not> f_deny f then Option.bind (inode_deny_write (f_inode f) s) (\<lambda>s. Some (f\<lparr>f_deny := True\<rparr>, s)) else Some (f, s))"

definition file_allow_write :: "open_file \<Rightarrow> filesys \<Rightarrow> (open_file \<times> filesys) option" where
  "file_allow_write f s =
     (if f_deny f then Option.bind (inode_allow_write (f_inode f) s) (\<lambda>s. Some (f\<lparr>f_deny := False\<rparr>, s)) else Some (f, s))"

definition file_length_of :: "open_file \<Rightarrow> filesys \<Rightarrow> off_t option" where
  "file_length_of f s = inode_length (f_inode f) s"

definition file_seek :: "off_t \<Rightarrow> open_file \<Rightarrow> open_file option" where
  "file_seek new_pos f = ASSERT (0 \<le> new_pos) (Some (f\<lparr>f_pos := new_pos\<rparr>))"

definition file_tell :: "open_file \<Rightarrow> off_t" where "file_tell f = f_pos f"

subsection \<open>The map of the free sectors\<close>

definition bitmap_file_size :: "bitmap \<Rightarrow> u32" where "bitmap_file_size b = byte_cnt (bit_cnt b)"

text \<open>The elements of a bitmap as bytes, and as many elements with other bytes at their start.\<close>

definition elem_bytes :: "u32 list \<Rightarrow> u8 list" where "elem_bytes ws = concat (map le32 ws)"

definition read_elems :: "u8 list \<Rightarrow> u32 list \<Rightarrow> u32 list" where
  "read_elems bs ws =
     (let mem = bs @ drop (length bs) (elem_bytes ws) in map (\<lambda>i. of_le32 (take 4 (drop (4 * i) mem))) [0..<length ws])"

definition bitmap_read :: "bitmap \<Rightarrow> open_file \<Rightarrow> filesys \<Rightarrow> (bool \<times> bitmap \<times> filesys) option" where
  "bitmap_read b f s =
     (if 0 < bit_cnt b then
        let sz = sint (byte_cnt (bit_cnt b)) in
        Option.bind (file_read_at f sz 0 s) (\<lambda>(bs, s).
        let success = (int (length bs) = sz);
            b = b\<lparr>bits := read_elems bs (bits b)\<rparr>;
            i = unat (elem_cnt (bit_cnt b) - 1) in
        Option.bind (lookup_at (bits b) i) (\<lambda>e.
        Some (success, b\<lparr>bits := (bits b)[i := e AND last_mask b]\<rparr>, s)))
      else Some (True, b, s))"

definition bitmap_write :: "bitmap \<Rightarrow> open_file \<Rightarrow> filesys \<Rightarrow> (bool \<times> filesys) option" where
  "bitmap_write b f s =
     (let sz = sint (byte_cnt (bit_cnt b)) in
      Option.bind (file_write_at f (elem_bytes (bits b)) sz 0 s) (\<lambda>(n, s). Some (n = sz, s)))"

text \<open>\<open>contents\<close>: what was in the memory that the new bitmap got.\<close>

definition free_map_init :: "u32 list \<Rightarrow> filesys \<Rightarrow> filesys option" where
  "free_map_init contents s =
     Option.bind (block_size (fs_device s) (disks s)) (\<lambda>n.
     let (ok1, s) = kmalloc s; (ok2, s) = (if ok1 then kmalloc s else (False, s)) in
     Option.bind (bitmap_create ok1 (if ok2 then Some contents else None) n) (\<lambda>b.
     Option.bind b (\<lambda>b.
     Option.bind (bitmap_mark FREE_MAP_SECTOR b) (\<lambda>b.
     Option.bind (bitmap_mark ROOT_DIR_SECTOR b) (\<lambda>b.
     Some (s\<lparr>free_map := b\<rparr>))))))"

definition free_map_allocate :: "u32 \<Rightarrow> filesys \<Rightarrow> (u32 option \<times> filesys) option" where
  "free_map_allocate cnt s =
     Option.bind (bitmap_scan_and_flip (free_map s) 0 cnt False) (\<lambda>(sector, b).
     let s = s\<lparr>free_map := b\<rparr> in
     if sector = BITMAP_ERROR then Some (None, s)
     else
       case free_map_file s of
         None \<Rightarrow> Some (Some sector, s)
       | Some f \<Rightarrow>
           Option.bind (bitmap_write b f s) (\<lambda>(ok, s).
           if ok then Some (Some sector, s)
           else
             Option.bind (bitmap_set_multiple sector cnt False (free_map s)) (\<lambda>b.
             Some (None, s\<lparr>free_map := b\<rparr>))))"

definition free_map_release :: "u32 \<Rightarrow> u32 \<Rightarrow> filesys \<Rightarrow> filesys option" where
  "free_map_release sector cnt s =
     Option.bind (bitmap_all (free_map s) sector cnt) (\<lambda>all.
     ASSERT all (
     Option.bind (bitmap_set_multiple sector cnt False (free_map s)) (\<lambda>b.
     let s = s\<lparr>free_map := b\<rparr> in
     Option.bind (free_map_file s) (\<lambda>f.
     Option.bind (bitmap_write b f s) (\<lambda>(_, s). Some s)))))"

subsection \<open>Creating and closing inodes\<close>

primrec zero_sectors :: "u32 \<Rightarrow> nat list \<Rightarrow> filesys \<Rightarrow> filesys option" where
  "zero_sectors start [] s = Some s"
| "zero_sectors start (i # is) s =
     Option.bind (dev_write (start + of_nat i) (replicate 512 0) s) (zero_sectors start is)"

definition inode_create :: "u32 \<Rightarrow> off_t \<Rightarrow> filesys \<Rightarrow> (bool \<times> filesys) option" where
  "inode_create sector len s =
     ASSERT (0 \<le> len) (
     let (ok, s) = kmalloc s in
     if \<not> ok then Some (False, s)
     else
       let sectors = bytes_to_sectors len in
       Option.bind (free_map_allocate sectors s) (\<lambda>(start, s).
       case start of
         None \<Rightarrow> Some (False, s)
       | Some start \<Rightarrow>
           Option.bind (dev_write sector
             (encode_inode \<lparr>start_sector = start, file_length = len, inode_magic = INODE_MAGIC\<rparr>) s) (\<lambda>s.
           Option.bind (zero_sectors start [0..<unat sectors] s) (\<lambda>s. Some (True, s)))))"

definition inode_close :: "iptr \<Rightarrow> filesys \<Rightarrow> filesys option" where
  "inode_close p s =
     (if p = 0 then Some s
      else
        Option.bind (upd_inode (open_cnt_update (\<lambda>n. n - 1)) p s) (\<lambda>s.
        Option.bind (inodes s p) (\<lambda>i.
        if open_cnt i = 0 then
          ASSERT (p \<in> set (open_inodes s)) (
          let s = s\<lparr>open_inodes := remove1 p (open_inodes s)\<rparr> in
          Option.bind
            (if removed i then
               Option.bind (free_map_release (inode_sector i) 1 s) (\<lambda>s.
               free_map_release (start_sector (data i)) (bytes_to_sectors (file_length (data i))) s)
             else Some s) (\<lambda>s.
          Some (s\<lparr>inodes := (inodes s)(p := None)\<rparr>)))
        else Some s)))"

definition file_open :: "iptr \<Rightarrow> filesys \<Rightarrow> (open_file option \<times> filesys) option" where
  "file_open p s =
     (let (ok, s) = kmalloc s in
      if p \<noteq> 0 \<and> ok then Some (Some \<lparr>f_inode = p, f_pos = 0, f_deny = False\<rparr>, s)
      else Option.bind (inode_close p s) (\<lambda>s. Some (None, s)))"

definition file_reopen :: "open_file \<Rightarrow> filesys \<Rightarrow> (open_file option \<times> filesys) option" where
  "file_reopen f s = Option.bind (inode_reopen (f_inode f) s) (\<lambda>(p, s). file_open p s)"

definition file_close :: "open_file option \<Rightarrow> filesys \<Rightarrow> filesys option" where
  "file_close f s =
     (case f of None \<Rightarrow> Some s
      | Some f \<Rightarrow> Option.bind (file_allow_write f s) (\<lambda>(f, s). inode_close (f_inode f) s))"

definition free_map_open :: "filesys \<Rightarrow> filesys option" where
  "free_map_open s =
     Option.bind (inode_open FREE_MAP_SECTOR s) (\<lambda>(p, s).
     Option.bind (file_open p s) (\<lambda>(f, s).
     let s = s\<lparr>free_map_file := f\<rparr> in
     Option.bind f (\<lambda>f.
     Option.bind (bitmap_read (free_map s) f s) (\<lambda>(ok, b, s).
     ASSERT ok (Some (s\<lparr>free_map := b\<rparr>))))))"

definition free_map_close :: "filesys \<Rightarrow> filesys option" where
  "free_map_close s = file_close (free_map_file s) s"

definition free_map_create :: "filesys \<Rightarrow> filesys option" where
  "free_map_create s =
     Option.bind (inode_create FREE_MAP_SECTOR (sint (bitmap_file_size (free_map s))) s) (\<lambda>(ok, s).
     ASSERT ok (
     Option.bind (inode_open FREE_MAP_SECTOR s) (\<lambda>(p, s).
     Option.bind (file_open p s) (\<lambda>(f, s).
     let s = s\<lparr>free_map_file := f\<rparr> in
     Option.bind f (\<lambda>f.
     Option.bind (bitmap_write (free_map s) f s) (\<lambda>(ok, s).
     ASSERT ok (Some s)))))))"

end
