(* ===== verification/Partition.thy ===== *)
theory Partition
  imports Inode
begin

unbundle bit_operations_syntax

text \<open>
  Partitions of disks (\<^verbatim>\<open>devices/partition.c\<close>): the scan of the partition table of a disk, the devices that it
  registers with the layer of \<open>Block_Device\<close>, and reading and writing through them. What the scan prints is not kept. The
  recursion over extended partitions is bounded by a depth, since it need not end.
\<close>

section \<open>Definitions\<close>

text \<open>The devices; the disk and first sector of each partition's device (\<^verbatim>\<open>struct partition\<close>); the address of the next
  device; which of the coming requests for memory fail.\<close>

record partition =
  p_block :: bptr
  p_start :: u32

record disk_state =
  registry :: devices
  partitions :: "bptr \<Rightarrow> partition option"
  next_device :: bptr
  no_memory :: "bool list"

text \<open>A request for memory.\<close>

definition kmalloc_part :: "disk_state \<Rightarrow> bool \<times> disk_state" where
  "kmalloc_part s = (case no_memory s of [] \<Rightarrow> (True, s) | fails # rest \<Rightarrow> (\<not> fails, s\<lparr>no_memory := rest\<rparr>))"

text \<open>The fields of a sector with a partition table.\<close>

record partition_table_entry =
  e_type :: u8
  e_offset :: u32
  e_size :: u32

definition table_entry :: "u8 list \<Rightarrow> nat \<Rightarrow> partition_table_entry" where
  "table_entry pt i =
     (let e = drop (446 + 16 * i) pt in
      \<lparr>e_type = e ! 4, e_offset = of_le32 (take 4 (drop 8 e)), e_size = of_le32 (take 4 (drop 12 e))\<rparr>)"

definition table_entries :: "u8 list \<Rightarrow> partition_table_entry list" where
  "table_entries pt = map (table_entry pt) [0..<4]"

definition table_signature :: "u8 list \<Rightarrow> u16" where
  "table_signature pt = ucast (pt ! 510) OR push_bit 8 (ucast (pt ! 511))"

definition is_extended :: "u8 \<Rightarrow> bool" where
  "is_extended t \<longleftrightarrow> t = 0x05 \<or> t = 0x0f \<or> t = 0x85 \<or> t = 0xc5"

text \<open>The name of a type of partition.\<close>

definition type_names :: "(u8 \<times> string) list" where
  "type_names = [
    (0x00, ''Empty''), (0x01, ''FAT12''), (0x02, ''XENIX root''), (0x03, ''XENIX usr''), (0x04, ''FAT16 <32M''),
    (0x05, ''Extended''), (0x06, ''FAT16''), (0x07, ''HPFS/NTFS''), (0x08, ''AIX''), (0x09, ''AIX bootable''),
    (0x0a, ''OS/2 Boot Manager''), (0x0b, ''W95 FAT32''), (0x0c, ''W95 FAT32 (LBA)''), (0x0e, ''W95 FAT16 (LBA)''),
    (0x0f, ''W95 Ext'd (LBA)''), (0x10, ''OPUS''), (0x11, ''Hidden FAT12''), (0x12, ''Compaq diagnostics''),
    (0x14, ''Hidden FAT16 <32M''), (0x16, ''Hidden FAT16''), (0x17, ''Hidden HPFS/NTFS''), (0x18, ''AST SmartSleep''),
    (0x1b, ''Hidden W95 FAT32''), (0x1c, ''Hidden W95 FAT32 (LBA)''), (0x1e, ''Hidden W95 FAT16 (LBA)''),
    (0x20, ''Pintos OS kernel''), (0x21, ''Pintos file system''), (0x22, ''Pintos scratch''), (0x23, ''Pintos swap''),
    (0x24, ''NEC DOS''), (0x39, ''Plan 9''), (0x3c, ''PartitionMagic recovery''), (0x40, ''Venix 80286''),
    (0x41, ''PPC PReP Boot''), (0x42, ''SFS''), (0x4d, ''QNX4.x''), (0x4e, ''QNX4.x 2nd part''), (0x4f, ''QNX4.x 3rd part''),
    (0x50, ''OnTrack DM''), (0x51, ''OnTrack DM6 Aux1''), (0x52, ''CP/M''), (0x53, ''OnTrack DM6 Aux3''),
    (0x54, ''OnTrackDM6''), (0x55, ''EZ-Drive''), (0x56, ''Golden Bow''), (0x5c, ''Priam Edisk''), (0x61, ''SpeedStor''),
    (0x63, ''GNU HURD or SysV''), (0x64, ''Novell Netware 286''), (0x65, ''Novell Netware 386''),
    (0x70, ''DiskSecure Multi-Boot''), (0x75, ''PC/IX''), (0x80, ''Old Minix''), (0x81, ''Minix / old Linux''),
    (0x82, ''Linux swap / Solaris''), (0x83, ''Linux''), (0x84, ''OS/2 hidden C: drive''), (0x85, ''Linux extended''),
    (0x86, ''NTFS volume set''), (0x87, ''NTFS volume set''), (0x88, ''Linux plaintext''), (0x8e, ''Linux LVM''),
    (0x93, ''Amoeba''), (0x94, ''Amoeba BBT''), (0x9f, ''BSD/OS''), (0xa0, ''IBM Thinkpad hibernation''), (0xa5, ''FreeBSD''),
    (0xa6, ''OpenBSD''), (0xa7, ''NeXTSTEP''), (0xa8, ''Darwin UFS''), (0xa9, ''NetBSD''), (0xab, ''Darwin boot''),
    (0xb7, ''BSDI fs''), (0xb8, ''BSDI swap''), (0xbb, ''Boot Wizard hidden''), (0xbe, ''Solaris boot''), (0xbf, ''Solaris''),
    (0xc1, ''DRDOS/sec (FAT-12)''), (0xc4, ''DRDOS/sec (FAT-16 < 32M)''), (0xc6, ''DRDOS/sec (FAT-16)''), (0xc7, ''Syrinx''),
    (0xda, ''Non-FS data''), (0xdb, ''CP/M / CTOS / ...''), (0xde, ''Dell Utility''), (0xdf, ''BootIt''),
    (0xe1, ''DOS access''), (0xe3, ''DOS R/O''), (0xe4, ''SpeedStor''), (0xeb, ''BeOS fs''), (0xee, ''EFI GPT''),
    (0xef, ''EFI (FAT-12/16/32)''), (0xf0, ''Linux/PA-RISC boot''), (0xf1, ''SpeedStor''), (0xf4, ''SpeedStor''),
    (0xf2, ''DOS secondary''), (0xfd, ''Linux raid autodetect''), (0xfe, ''LANstep''), (0xff, ''BBT'')]"

definition partition_type_name :: "u8 \<Rightarrow> string" where
  "partition_type_name t = (case map_of type_names t of Some n \<Rightarrow> n | None \<Rightarrow> ''Unknown'')"

definition partition_role :: "u8 \<Rightarrow> block_kind" where
  "partition_role t =
     (if t = 0x20 then BLOCK_KERNEL else if t = 0x21 then BLOCK_FILESYS else if t = 0x22 then BLOCK_SCRATCH
      else if t = 0x23 then BLOCK_SWAP else BLOCK_FOREIGN)"

text \<open>The text of \<^verbatim>\<open>%d\<close> for a number that is not negative.\<close>

fun decimal :: "nat \<Rightarrow> string" where
  "decimal n = (if n < 10 then [char_of (48 + n)] else decimal (n div 10) @ [char_of (48 + n mod 10)])"

declare decimal.simps [simp del]

text \<open>The device of a partition shows the sectors of its disk; \<open>registry\<close> records what they held when it was registered, and
  \<open>partition_read\<close> and \<open>partition_write\<close> below are its operations.\<close>

definition found_partition :: "bptr \<Rightarrow> u8 \<Rightarrow> u32 \<Rightarrow> u32 \<Rightarrow> nat \<Rightarrow> disk_state \<Rightarrow> disk_state option" where
  "found_partition b part_type start sz part_nr s =
     Option.bind (devs (registry s) b) (\<lambda>d.
     if start \<ge> b_size d then Some s
     else if start + sz < start \<or> start + sz > b_size d then Some s
     else
       let (ok, s) = kmalloc_part s in
       ASSERT ok (
       let name = take 15 (b_name d @ decimal part_nr); p = next_device s; (ok, s) = kmalloc_part s in
       ASSERT ok (
       Option.bind (block_register p name (partition_role part_type) sz (\<lambda>x. sectors d (start + x)) (registry s)) (\<lambda>(p, r).
       Some (s\<lparr>registry := r, partitions := (partitions s)(p \<mapsto> \<lparr>p_block = b, p_start = start\<rparr>), next_device := p + 1\<rparr>)))))"

text \<open>What a scan comes to: it needs more depth, it panics, or it returns with the number of partitions counted.\<close>

datatype scan = Too_deep | Panicked | Scanned nat disk_state

text \<open>The loop over the entries; \<open>nested\<close> is the recursive call.\<close>

primrec parse_entries ::
    "(u32 \<Rightarrow> u32 \<Rightarrow> nat \<Rightarrow> disk_state \<Rightarrow> scan) \<Rightarrow> bptr \<Rightarrow> u32 \<Rightarrow> u32 \<Rightarrow> partition_table_entry list \<Rightarrow> nat \<Rightarrow> disk_state \<Rightarrow> scan" where
  "parse_entries nested b sector primary [] nr s = Scanned nr s"
| "parse_entries nested b sector primary (e # es) nr s =
     (if e_size e = 0 \<or> e_type e = 0 then parse_entries nested b sector primary es nr s
      else if is_extended (e_type e) then
        (case (if sector = 0 then nested (e_offset e) (e_offset e) nr s else nested (e_offset e + primary) primary nr s) of
           Too_deep \<Rightarrow> Too_deep
         | Panicked \<Rightarrow> Panicked
         | Scanned nr s \<Rightarrow> parse_entries nested b sector primary es nr s)
      else
        (case found_partition b (e_type e) (e_offset e + sector) (e_size e) (nr + 1) s of
           None \<Rightarrow> Panicked
         | Some s \<Rightarrow> parse_entries nested b sector primary es (nr + 1) s))"

text \<open>The sector that is read is 0, whatever \<open>sector\<close> is.\<close>

primrec read_partition_table :: "nat \<Rightarrow> bptr \<Rightarrow> u32 \<Rightarrow> u32 \<Rightarrow> nat \<Rightarrow> disk_state \<Rightarrow> scan" where
  "read_partition_table 0 b sector primary nr s = Too_deep"
| "read_partition_table (Suc depth) b sector primary nr s =
     (case devs (registry s) b of
        None \<Rightarrow> Panicked
      | Some d \<Rightarrow>
          if sector \<ge> b_size d then Scanned nr s
          else
            let (ok, s) = kmalloc_part s in
            if \<not> ok then Panicked
            else
              (case block_read b 0 (registry s) of
                 None \<Rightarrow> Panicked
               | Some (pt, r) \<Rightarrow>
                   let s = s\<lparr>registry := r\<rparr> in
                   if table_signature pt \<noteq> 0xaa55 then Scanned nr s
                   else parse_entries (read_partition_table depth b) b sector primary (table_entries pt) nr s))"

definition partition_scan :: "nat \<Rightarrow> bptr \<Rightarrow> disk_state \<Rightarrow> scan" where
  "partition_scan depth b s = read_partition_table depth b 0 0 0 s"

definition partition_read :: "partition \<Rightarrow> u32 \<Rightarrow> disk_state \<Rightarrow> (u8 list \<times> disk_state) option" where
  "partition_read p sector s =
     Option.bind (block_read (p_block p) (p_start p + sector) (registry s)) (\<lambda>(bs, r). Some (bs, s\<lparr>registry := r\<rparr>))"

definition partition_write :: "partition \<Rightarrow> u32 \<Rightarrow> u8 list \<Rightarrow> disk_state \<Rightarrow> disk_state option" where
  "partition_write p sector buffer s =
     Option.bind (block_write (p_block p) (p_start p + sector) buffer (registry s)) (\<lambda>r. Some (s\<lparr>registry := r\<rparr>))"

text \<open>\<^verbatim>\<open>block_read\<close> and \<^verbatim>\<open>block_write\<close> on the device of a partition: the check of the sector, the type and the operation.\<close>

definition read_device :: "bptr \<Rightarrow> u32 \<Rightarrow> disk_state \<Rightarrow> (u8 list \<times> disk_state) option" where
  "read_device b sector s =
     Option.bind (devs (registry s) b) (\<lambda>d.
     Option.bind (check_sector d sector) (\<lambda>_.
     Option.bind (partitions s b) (\<lambda>p.
     Option.bind (partition_read p sector s) (\<lambda>(bs, s).
     Option.bind (devs (registry s) b) (\<lambda>d.
     Some (bs, s\<lparr>registry := (registry s)\<lparr>devs := (devs (registry s))(b \<mapsto> d\<lparr>read_cnt := read_cnt d + 1\<rparr>)\<rparr>\<rparr>))))))"

definition write_device :: "bptr \<Rightarrow> u32 \<Rightarrow> u8 list \<Rightarrow> disk_state \<Rightarrow> disk_state option" where
  "write_device b sector buffer s =
     Option.bind (devs (registry s) b) (\<lambda>d.
     Option.bind (check_sector d sector) (\<lambda>_.
     ASSERT (b_type d \<noteq> BLOCK_FOREIGN) (
     Option.bind (partitions s b) (\<lambda>p.
     Option.bind (partition_write p sector buffer s) (\<lambda>s.
     Option.bind (devs (registry s) b) (\<lambda>d.
     Some (s\<lparr>registry := (registry s)\<lparr>devs := (devs (registry s))(b \<mapsto> d\<lparr>write_cnt := write_cnt d + 1\<rparr>)\<rparr>\<rparr>)))))))"

section \<open>One partition\<close>

definition inside :: "block \<Rightarrow> u32 \<Rightarrow> u32 \<Rightarrow> bool" where
  "inside d start sz \<longleftrightarrow> start < b_size d \<and> unat start + unat sz \<le> unat (b_size d)"

text \<open>The three comparisons of the code say that the partition lies on its disk.\<close>

lemma inside_iff: "inside d start sz \<longleftrightarrow> \<not> start \<ge> b_size d \<and> \<not> (start + sz < start \<or> start + sz > b_size d)"
proof -
  have z: "unat sz < 2 ^ 32" "unat (b_size d) < 2 ^ 32" using unsigned_less[of sz] unsigned_less[of "b_size d"] by simp_all
  show ?thesis
  proof (cases "unat start + unat sz < 2 ^ 32")
    case True
    then have "unat (start + sz) = unat start + unat sz" using unat_add_lem[of start sz] by simp
    then show ?thesis by (auto simp: inside_def word_less_nat_alt word_le_nat_alt)
  next
    case False
    then have "unat (start + sz) = unat start + unat sz - 2 ^ 32" using unat_plus_if'[of start sz] by simp
    then have "start + sz < start" using z(1) False by (simp add: word_less_nat_alt)
    then show ?thesis using False z(2) by (simp add: inside_def)
  qed
qed

definition new_device :: "bptr \<Rightarrow> block \<Rightarrow> u8 \<Rightarrow> u32 \<Rightarrow> u32 \<Rightarrow> nat \<Rightarrow> block" where
  "new_device b d t start sz nr =
     \<lparr>b_name = take 15 (b_name d @ decimal nr), b_type = partition_role t, b_size = sz, sectors = (\<lambda>x. sectors d (start + x)),
      read_cnt = 0, write_cnt = 0\<rparr>"

definition add_partition :: "bptr \<Rightarrow> block \<Rightarrow> u8 \<Rightarrow> u32 \<Rightarrow> u32 \<Rightarrow> nat \<Rightarrow> disk_state \<Rightarrow> disk_state" where
  "add_partition b d t start sz nr s =
     s\<lparr>registry := (registry s)\<lparr>all_blocks := all_blocks (registry s) @ [next_device s],
         devs := (devs (registry s))(next_device s \<mapsto> new_device b d t start sz nr)\<rparr>,
       partitions := (partitions s)(next_device s \<mapsto> \<lparr>p_block = b, p_start = start\<rparr>), next_device := next_device s + 1\<rparr>"

lemma kmalloc_part_eq:
  "kmalloc_part s = (no_memory s = [] \<or> \<not> hd (no_memory s), s\<lparr>no_memory := tl (no_memory s)\<rparr>)"
  by (cases s; cases "no_memory s") (simp_all add: kmalloc_part_def)

lemma found_partition_cases:
  assumes d: "devs (registry s) b = Some d" and n: "0 < next_device s"
  shows "found_partition b t start sz nr s = None \<and> no_memory s \<noteq> [] \<or>
    (\<exists>m. found_partition b t start sz nr s =
       Some (if inside d start sz then add_partition b d t start sz nr (s\<lparr>no_memory := m\<rparr>) else s) \<and> (no_memory s = [] \<longrightarrow> m = []))"
proof (cases "inside d start sz")
  case False
  then show ?thesis using d unfolding inside_iff by (auto simp: found_partition_def)
next
  case True
  define ok where "ok \<longleftrightarrow> (no_memory s = [] \<or> \<not> hd (no_memory s)) \<and> (tl (no_memory s) = [] \<or> \<not> hd (tl (no_memory s)))"
  have "found_partition b t start sz nr s =
      (if ok then Some (add_partition b d t start sz nr (s\<lparr>no_memory := tl (tl (no_memory s))\<rparr>)) else None)"
    using True d n unfolding inside_iff
    by (simp add: found_partition_def Let_def kmalloc_part_eq block_register_def add_partition_def new_device_def ok_def del: take_append)
  then show ?thesis using True by (auto simp: ok_def)
qed

section \<open>Partitions lie on their disks\<close>

text \<open>A state of devices: each partition is on a disk that is not itself a partition, and inside it; nothing is registered
  at the address of the next device or beyond it.\<close>

definition partitions_ok :: "disk_state \<Rightarrow> bool" where
  "partitions_ok s \<longleftrightarrow> 0 < next_device s \<and>
     (\<forall>p q. partitions s p = Some q \<longrightarrow> p < next_device s \<and> p_block q < next_device s \<and> partitions s (p_block q) = None \<and>
        (\<exists>d disk. devs (registry s) p = Some d \<and> devs (registry s) (p_block q) = Some disk \<and> inside disk (p_start q) (b_size d)))"

definition is_disk :: "disk_state \<Rightarrow> bptr \<Rightarrow> (u32 \<Rightarrow> u8 list) \<Rightarrow> u32 \<Rightarrow> bool" where
  "is_disk s b contents n \<longleftrightarrow> b < next_device s \<and> partitions s b = None \<and>
     (\<exists>d. devs (registry s) b = Some d \<and> sectors d = contents \<and> b_size d = n)"

lemma add_partition_ok:
  assumes ok: "partitions_ok s" and d: "devs (registry s) b = Some d" "b < next_device s" "partitions s b = None" and i: "inside d start sz"
  shows "partitions_ok (add_partition b d t start sz nr s)"
proof -
  have b: "b \<noteq> next_device s" using d(2) by simp
  have old: "p < next_device s \<and> p_block q < next_device s \<and> partitions s (p_block q) = None \<and>
      (\<exists>e disk. devs (registry s) p = Some e \<and> devs (registry s) (p_block q) = Some disk \<and> inside disk (p_start q) (b_size e))"
    if "partitions s p = Some q" for p q using ok that unfolding partitions_ok_def by blast
  let ?s = "add_partition b d t start sz nr s"
  have "p < next_device ?s \<and> p_block q < next_device ?s \<and> partitions ?s (p_block q) = None \<and>
      (\<exists>e disk. devs (registry ?s) p = Some e \<and> devs (registry ?s) (p_block q) = Some disk \<and> inside disk (p_start q) (b_size e))"
    if q: "partitions ?s p = Some q" for p q
  proof (cases "p = next_device s")
    case True
    then have "q = \<lparr>p_block = b, p_start = start\<rparr>" using q by (simp add: add_partition_def)
    then show ?thesis using True b d i by (simp add: add_partition_def new_device_def)
  next
    case False
    then have "partitions s p = Some q" using q by (simp add: add_partition_def)
    from old[OF this] show ?thesis using False by (auto simp: add_partition_def)
  qed
  then show ?thesis by (simp add: partitions_ok_def add_partition_def)
qed

lemma partitions_ok_memory [simp]: "partitions_ok (s\<lparr>no_memory := m\<rparr>) = partitions_ok s"
  by (simp add: partitions_ok_def)

lemma is_disk_memory [simp]: "is_disk (s\<lparr>no_memory := m\<rparr>) b c n = is_disk s b c n"
  by (simp add: is_disk_def)

lemma is_disk_add: "is_disk s b c n \<Longrightarrow> is_disk (add_partition b' d t start sz nr s) b c n"
  by (auto simp: is_disk_def add_partition_def)

lemma found_partition_ok:
  assumes "partitions_ok s" "is_disk s b c n" "found_partition b t start sz nr s = Some s'"
  shows "partitions_ok s' \<and> is_disk s' b c n \<and> (no_memory s = [] \<longrightarrow> no_memory s' = [])"
proof -
  obtain d where d: "devs (registry s) b = Some d" "b < next_device s" "partitions s b = None" using assms(2) by (auto simp: is_disk_def)
  have n: "0 < next_device s" using assms(1) by (simp add: partitions_ok_def)
  from found_partition_cases[OF d(1) n, of t start sz nr] assms(3) obtain m
    where m: "s' = (if inside d start sz then add_partition b d t start sz nr (s\<lparr>no_memory := m\<rparr>) else s)" "no_memory s = [] \<longrightarrow> m = []" by auto
  show ?thesis
  proof (cases "inside d start sz")
    case True
    have "partitions_ok (add_partition b d t start sz nr (s\<lparr>no_memory := m\<rparr>))" using assms(1) d True by (intro add_partition_ok) simp_all
    moreover have "is_disk (add_partition b d t start sz nr (s\<lparr>no_memory := m\<rparr>)) b c n" using assms(2) by (intro is_disk_add) simp
    ultimately show ?thesis using True m by (simp add: add_partition_def)
  next
    case False
    then show ?thesis using m assms(1,2) by simp
  qed
qed

section \<open>The scan\<close>

text \<open>Reading and writing count accesses and change sectors; the devices stay.\<close>

lemma device_update_ok:
  assumes "partitions_ok s" "devs (registry s) p = Some d" "b_size e = b_size d"
  shows "partitions_ok (s\<lparr>registry := (registry s)\<lparr>devs := (devs (registry s))(p \<mapsto> e)\<rparr>\<rparr>)"
proof -
  have same: "\<exists>e'. ((devs (registry s))(p \<mapsto> e)) x = Some e' \<and> b_size e' = b_size y" if "devs (registry s) x = Some y" for x y
    using that assms(2,3) by (cases "x = p") auto
  have "\<exists>d disk. ((devs (registry s))(p \<mapsto> e)) x = Some d \<and> ((devs (registry s))(p \<mapsto> e)) (p_block q) = Some disk \<and>
      inside disk (p_start q) (b_size d)" if q: "partitions s x = Some q" for x q
  proof -
    obtain y z where y: "devs (registry s) x = Some y" "devs (registry s) (p_block q) = Some z" "inside z (p_start q) (b_size y)"
      using assms(1) q unfolding partitions_ok_def by blast
    obtain y' z' where "((devs (registry s))(p \<mapsto> e)) x = Some y'" "b_size y' = b_size y"
      "((devs (registry s))(p \<mapsto> e)) (p_block q) = Some z'" "b_size z' = b_size z" using same[OF y(1)] same[OF y(2)] by blast
    then show ?thesis using y(3) by (simp only: inside_def) auto
  qed
  then show ?thesis using assms(1) by (simp add: partitions_ok_def)
qed

lemma block_read_disk:
  assumes "partitions_ok s" "is_disk s b c n" "sector < n"
  obtains r where "block_read b sector (registry s) = Some (c sector, r)" "partitions_ok (s\<lparr>registry := r\<rparr>)" "is_disk (s\<lparr>registry := r\<rparr>) b c n"
    "all_blocks r = all_blocks (registry s)"
proof -
  obtain d where d: "devs (registry s) b = Some d" "sectors d = c" "b_size d = n" using assms(2) by (auto simp: is_disk_def)
  define r where "r = (registry s)\<lparr>devs := (devs (registry s))(b \<mapsto> d\<lparr>read_cnt := read_cnt d + 1\<rparr>)\<rparr>"
  have "block_read b sector (registry s) = Some (c sector, r)" using d assms(3) by (simp add: block_read_def check_sector_def r_def)
  moreover have "partitions_ok (s\<lparr>registry := r\<rparr>)" unfolding r_def by (rule device_update_ok[OF assms(1) d(1)]) simp
  moreover have "is_disk (s\<lparr>registry := r\<rparr>) b c n" using assms(2) d by (simp add: is_disk_def r_def)
  moreover have "all_blocks r = all_blocks (registry s)" by (simp add: r_def)
  ultimately show thesis by (rule that)
qed

definition kept :: "bptr \<Rightarrow> (u32 \<Rightarrow> u8 list) \<Rightarrow> u32 \<Rightarrow> disk_state \<Rightarrow> bool" where
  "kept b c n s \<longleftrightarrow> partitions_ok s \<and> is_disk s b c n"

lemma parse_entries_ok:
  assumes nest: "\<And>x y nr s nr' s'. kept b c n s \<Longrightarrow> nested x y nr s = Scanned nr' s' \<Longrightarrow> kept b c n s'"
  shows "kept b c n s \<Longrightarrow> parse_entries nested b sector primary es nr s = Scanned nr' s' \<Longrightarrow> kept b c n s'"
proof (induction es arbitrary: nr s)
  case (Cons e es)
  consider (empty) "e_size e = 0 \<or> e_type e = 0" | (ext) "e_size e \<noteq> 0" "e_type e \<noteq> 0" "is_extended (e_type e)"
    | (one) "e_size e \<noteq> 0" "e_type e \<noteq> 0" "\<not> is_extended (e_type e)" by blast
  then show ?case
  proof cases
    case empty
    then show ?thesis using Cons by simp
  next
    case ext
    then obtain nr1 s1 where n: "(if sector = 0 then nested (e_offset e) (e_offset e) nr s else nested (e_offset e + primary) primary nr s) = Scanned nr1 s1"
      "parse_entries nested b sector primary es nr1 s1 = Scanned nr' s'" using Cons.prems(2) by (auto split: scan.splits)
    have "kept b c n s1" using n(1) nest[OF Cons.prems(1)] by (cases "sector = 0") auto
    then show ?thesis by (rule Cons.IH[OF _ n(2)])
  next
    case one
    then obtain s1 where s1: "found_partition b (e_type e) (e_offset e + sector) (e_size e) (nr + 1) s = Some s1"
      "parse_entries nested b sector primary es (nr + 1) s1 = Scanned nr' s'" using Cons.prems(2) by (auto split: option.splits)
    have "kept b c n s1" using found_partition_ok[OF _ _ s1(1)] Cons.prems(1) unfolding kept_def by blast
    then show ?thesis by (rule Cons.IH[OF _ s1(2)])
  qed
qed simp

lemma read_table_step:
  assumes "kept b c n s" "0 < n"
  shows "read_partition_table (Suc depth) b sector primary nr s =
      (if sector \<ge> n then Scanned nr s else Panicked) \<and> (sector < n \<longrightarrow> no_memory s \<noteq> []) \<or>
    (\<exists>s1. read_partition_table (Suc depth) b sector primary nr s =
      (if table_signature (c 0) \<noteq> 0xaa55 then Scanned nr s1
       else parse_entries (read_partition_table depth b) b sector primary (table_entries (c 0)) nr s1) \<and>
     sector < n \<and> kept b c n s1 \<and> (no_memory s = [] \<longrightarrow> no_memory s1 = []) \<and> next_device s1 = next_device s \<and>
     all_blocks (registry s1) = all_blocks (registry s))"
proof -
  obtain d where d: "devs (registry s) b = Some d" "sectors d = c" "b_size d = n" using assms(1) by (auto simp: kept_def is_disk_def)
  define s1 where "s1 = s\<lparr>no_memory := tl (no_memory s)\<rparr>"
  have k: "partitions_ok s1" "is_disk s1 b c n" using assms(1) by (simp_all add: s1_def kept_def)
  obtain r where r: "block_read b 0 (registry s1) = Some (c 0, r)" "partitions_ok (s1\<lparr>registry := r\<rparr>)" "is_disk (s1\<lparr>registry := r\<rparr>) b c n"
    "all_blocks r = all_blocks (registry s1)" using block_read_disk[OF k assms(2)] by metis
  have s1r: "block_read b 0 (registry s) = Some (c 0, r)" using r(1) by (simp add: s1_def)
  show ?thesis
  proof (cases "n \<le> sector \<or> \<not> (no_memory s = [] \<or> \<not> hd (no_memory s))")
    case True
    then show ?thesis using d by (auto simp: kmalloc_part_eq)
  next
    case False
    then have "read_partition_table (Suc depth) b sector primary nr s =
      (if table_signature (c 0) \<noteq> 0xaa55 then Scanned nr (s1\<lparr>registry := r\<rparr>)
       else parse_entries (read_partition_table depth b) b sector primary (table_entries (c 0)) nr (s1\<lparr>registry := r\<rparr>))"
      using d s1r by (auto simp: kmalloc_part_eq Let_def s1_def)
    moreover have "next_device (s1\<lparr>registry := r\<rparr>) = next_device s" "all_blocks (registry (s1\<lparr>registry := r\<rparr>)) = all_blocks (registry s)"
      using r(4) by (simp_all add: s1_def)
    ultimately show ?thesis using r(2,3) False by (intro disjI2 exI[of _ "s1\<lparr>registry := r\<rparr>"]) (auto simp: kept_def s1_def)
  qed
qed

lemma read_table_ok: "kept b c n s \<Longrightarrow> 0 < n \<Longrightarrow> read_partition_table depth b sector primary nr s = Scanned nr' s' \<Longrightarrow> kept b c n s'"
proof (induction depth arbitrary: sector primary nr s nr' s')
  case (Suc depth)
  from read_table_step[OF Suc.prems(1,2), of depth sector primary nr] show ?case
  proof (elim disjE exE conjE)
    assume "read_partition_table (Suc depth) b sector primary nr s = (if sector \<ge> n then Scanned nr s else Panicked)"
      "sector < n \<longrightarrow> no_memory s \<noteq> []"
    then show ?thesis using Suc.prems(1,3) by (simp split: if_splits)
  next
    fix s1 assume s1: "read_partition_table (Suc depth) b sector primary nr s =
      (if table_signature (c 0) \<noteq> 0xaa55 then Scanned nr s1
       else parse_entries (read_partition_table depth b) b sector primary (table_entries (c 0)) nr s1)" "kept b c n s1"
    show ?thesis
    proof (cases "table_signature (c 0) = 0xaa55")
      case True
      then have "parse_entries (read_partition_table depth b) b sector primary (table_entries (c 0)) nr s1 = Scanned nr' s'"
        using s1(1) Suc.prems(3) by simp
      from parse_entries_ok[OF _ s1(2) this] Suc.IH[OF _ Suc.prems(2)] show ?thesis by blast
    qed (use s1 Suc.prems(3) in simp)
  qed
qed simp

section \<open>Reading and writing through a partition\<close>

lemma device_io:
  assumes ok: "partitions_ok s" and q: "partitions s p = Some q" and d: "devs (registry s) p = Some d" and x: "sector < b_size d"
  shows "\<exists>disk. devs (registry s) (p_block q) = Some disk \<and> p \<noteq> p_block q \<and>
    unat (p_start q + sector) = unat (p_start q) + unat sector \<and> unat (p_start q) + unat (b_size d) \<le> unat (b_size disk) \<and>
    (\<exists>s'. read_device p sector s = Some (sectors disk (p_start q + sector), s')) \<and>
    (b_type d \<noteq> BLOCK_FOREIGN \<and> b_type disk \<noteq> BLOCK_FOREIGN \<longrightarrow>
      (\<exists>s'. write_device p sector buffer s = Some s' \<and>
        (\<forall>x. map_option sectors (devs (registry s') x) =
          (if x = p_block q then Some ((sectors disk)(p_start q + sector := buffer)) else map_option sectors (devs (registry s) x)))))"
proof -
  obtain disk where k: "devs (registry s) (p_block q) = Some disk" "inside disk (p_start q) (b_size d)" "partitions s (p_block q) = None"
    using ok q d unfolding partitions_ok_def by (metis option.inject)
  have ne: "p \<noteq> p_block q" using k(3) q by auto
  have sx: "unat sector < unat (b_size d)" using x by (simp add: word_less_nat_alt)
  have "unat (p_start q) + unat sector < 2 ^ 32"
    using k(2) sx unat_bound[of "b_size disk"] by (simp add: inside_def)
  then have u: "unat (p_start q + sector) = unat (p_start q) + unat sector" using unat_add_lem[of "p_start q" sector] by simp
  then have in_disk: "p_start q + sector < b_size disk" using k(2) sx by (simp add: inside_def word_less_nat_alt)
  have "\<exists>s'. read_device p sector s = Some (sectors disk (p_start q + sector), s')"
    using d q k(1) x in_disk ne by (simp add: read_device_def partition_read_def block_read_def check_sector_def)
  moreover have "\<exists>s'. write_device p sector buffer s = Some s' \<and>
        (\<forall>x. map_option sectors (devs (registry s') x) =
          (if x = p_block q then Some ((sectors disk)(p_start q + sector := buffer)) else map_option sectors (devs (registry s) x)))"
    if "b_type d \<noteq> BLOCK_FOREIGN" "b_type disk \<noteq> BLOCK_FOREIGN"
    using d q k(1) x in_disk ne that by (auto simp: write_device_def partition_write_def block_write_def check_sector_def)
  ultimately show ?thesis using k(1,2) u ne by (auto simp: inside_def)
qed

text \<open>C33. Whatever partition table a disk has, after a scan that returns every sector of a registered partition is one sector of its
  disk, at the start of the partition plus its number and inside the partition, without wrap-around. Reading it gives that sector of the disk, and
  writing it changes that sector only; neither panics unless the device or the disk must not be written.\<close>

theorem partition_io_confined:
  assumes "partitions_ok s" "is_disk s b c n" "0 < n" "partition_scan depth b s = Scanned nr s1"
    "partitions s1 p = Some q" "devs (registry s1) p = Some d" "sector < b_size d"
  shows "\<exists>disk. devs (registry s1) (p_block q) = Some disk \<and> p \<noteq> p_block q \<and>
    unat (p_start q + sector) = unat (p_start q) + unat sector \<and> unat (p_start q) + unat (b_size d) \<le> unat (b_size disk) \<and>
    (\<exists>s'. read_device p sector s1 = Some (sectors disk (p_start q + sector), s')) \<and>
    (b_type d \<noteq> BLOCK_FOREIGN \<and> b_type disk \<noteq> BLOCK_FOREIGN \<longrightarrow>
      (\<exists>s'. write_device p sector buffer s1 = Some s' \<and>
        (\<forall>x. map_option sectors (devs (registry s') x) =
          (if x = p_block q then Some ((sectors disk)(p_start q + sector := buffer)) else map_option sectors (devs (registry s1) x)))))"
proof -
  have "kept b c n s" using assms(1,2) by (simp add: kept_def)
  then have "kept b c n s1" using assms(3,4) unfolding partition_scan_def by (rule read_table_ok)
  then have ok: "partitions_ok s1" by (simp add: kept_def)
  show ?thesis by (rule device_io[OF ok assms(5-7)])
qed

section \<open>Extended partitions\<close>

definition extended_entry :: "partition_table_entry \<Rightarrow> bool" where
  "extended_entry e \<longleftrightarrow> e_size e \<noteq> 0 \<and> e_type e \<noteq> 0 \<and> is_extended (e_type e)"

lemma parse_to_extended:
  assumes nest: "\<And>nr s. kept b c n s \<Longrightarrow> no_memory s = [] \<Longrightarrow>
      (if sector = 0 then nested (e_offset e) (e_offset e) nr s else nested (e_offset e + primary) primary nr s) = Too_deep"
    and e: "find extended_entry es = Some e"
  shows "kept b c n s \<Longrightarrow> no_memory s = [] \<Longrightarrow> parse_entries nested b sector primary es nr s = Too_deep"
  using e
proof (induction es arbitrary: nr s)
  case (Cons a es)
  show ?case
  proof (cases "extended_entry a")
    case True
    then show ?thesis using Cons.prems nest[of s nr] by (simp add: extended_entry_def)
  next
    case False
    then have f: "find extended_entry es = Some e" using Cons.prems(3) by simp
    show ?thesis
    proof (cases "e_size a = 0 \<or> e_type a = 0")
      case True
      then show ?thesis using Cons.IH[OF Cons.prems(1,2) f] by simp
    next
      case one: False
      obtain d where d: "devs (registry s) b = Some d" using Cons.prems(1) by (auto simp: kept_def is_disk_def)
      have nx: "0 < next_device s" using Cons.prems(1) by (simp add: kept_def partitions_ok_def)
      obtain s1 where s1: "found_partition b (e_type a) (e_offset a + sector) (e_size a) (nr + 1) s = Some s1"
        using found_partition_cases[OF d nx, of "e_type a" "e_offset a + sector" "e_size a" "nr + 1"] Cons.prems(2) by blast
      have "kept b c n s1" "no_memory s1 = []" using found_partition_ok[OF _ _ s1] Cons.prems(1,2) unfolding kept_def by blast+
      then show ?thesis using one False s1 Cons.IH[OF _ _ f, of s1 "nr + 1"] by (simp add: extended_entry_def)
    qed
  qed
qed simp

text \<open>Every nested table is the table of sector 0 again, so the recursion stays at the sector of the extended partition and at
  twice its offset.\<close>

lemma read_table_too_deep:
  assumes c: "table_signature (c 0) = 0xaa55" "find extended_entry (table_entries (c 0)) = Some e" "e_offset e < n" "e_offset e + e_offset e < n"
  shows "sector = 0 \<or> sector = e_offset e \<and> primary = e_offset e \<or> sector = e_offset e + e_offset e \<and> primary = e_offset e \<Longrightarrow>
    kept b c n s \<Longrightarrow> no_memory s = [] \<Longrightarrow> read_partition_table depth b sector primary nr s = Too_deep"
proof (induction depth arbitrary: sector primary nr s)
  case (Suc depth)
  have n: "0 < n" using c(3) by (rule le_less_trans[OF word_zero_le])
  have lt: "sector < n" using Suc.prems(1) c(3,4) n by auto
  from read_table_step[OF Suc.prems(2) n, of depth sector primary nr] obtain s1
    where s1: "read_partition_table (Suc depth) b sector primary nr s =
        parse_entries (read_partition_table depth b) b sector primary (table_entries (c 0)) nr s1" "kept b c n s1" "no_memory s1 = []"
    using c(1) Suc.prems(3) lt by (auto simp: not_le)
  have "(if sector = 0 then read_partition_table depth b (e_offset e) (e_offset e) nr s else read_partition_table depth b (e_offset e + primary) primary nr s) = Too_deep"
    if "kept b c n s" "no_memory s = []" for nr s using Suc.prems(1) Suc.IH[OF _ that] by auto
  then show ?case unfolding s1(1) by (intro parse_to_extended[OF _ c(2) s1(2,3)])
qed simp

section \<open>Primary partitions\<close>

definition used_entry :: "partition_table_entry \<Rightarrow> bool" where "used_entry e \<longleftrightarrow> e_size e \<noteq> 0 \<and> e_type e \<noteq> 0"

text \<open>The partitions that a scan from number \<open>k\<close> on registers for the disk \<open>d\<close>, with their numbers.\<close>

definition wanted :: "block \<Rightarrow> nat \<Rightarrow> partition_table_entry list \<Rightarrow> (nat \<times> partition_table_entry) list" where
  "wanted d k es = filter (\<lambda>(_, e). inside d (e_offset e) (e_size e)) (enumerate k (filter used_entry es))"

definition registered :: "bptr \<Rightarrow> block \<Rightarrow> (nat \<times> partition_table_entry) list \<Rightarrow> disk_state \<Rightarrow> disk_state \<Rightarrow> bool" where
  "registered b d ps s s' \<longleftrightarrow> next_device s' = next_device s + length ps \<and>
     all_blocks (registry s') = all_blocks (registry s) @ [next_device s..<next_device s + length ps] \<and>
     (\<forall>i < length ps. partitions s' (next_device s + i) = Some \<lparr>p_block = b, p_start = e_offset (snd (ps ! i))\<rparr> \<and>
        devs (registry s') (next_device s + i) =
          Some (new_device b d (e_type (snd (ps ! i))) (e_offset (snd (ps ! i))) (e_size (snd (ps ! i))) (fst (ps ! i)))) \<and>
     (\<forall>x < next_device s. partitions s' x = partitions s x \<and> devs (registry s') x = devs (registry s) x)"

lemma registered_nth:
  assumes "registered b d ps s s'" "i < length ps" "x = next_device s + i"
  shows "partitions s' x = Some \<lparr>p_block = b, p_start = e_offset (snd (ps ! i))\<rparr>"
    "devs (registry s') x = Some (new_device b d (e_type (snd (ps ! i))) (e_offset (snd (ps ! i))) (e_size (snd (ps ! i))) (fst (ps ! i)))"
  using assms by (simp_all add: registered_def)

lemma registered_Cons:
  assumes "registered b d ps (add_partition b d (e_type e) (e_offset e) (e_size e) k s) s'" shows "registered b d ((k, e) # ps) s s'"
proof -
  let ?s = "add_partition b d (e_type e) (e_offset e) (e_size e) k s"
  have n: "next_device ?s = Suc (next_device s)" "all_blocks (registry ?s) = all_blocks (registry s) @ [next_device s]" by (simp_all add: add_partition_def)
  note r = assms[unfolded registered_def n]
  have old: "partitions s' x = partitions ?s x" "devs (registry s') x = devs (registry ?s) x" if "x < Suc (next_device s)" for x using r that by blast+
  have all: "all_blocks (registry s') = all_blocks (registry s) @ [next_device s..<next_device s + length ((k, e) # ps)]"
    using r by (simp add: upt_conv_Cons del: upt_Suc)
  have each: "partitions s' (next_device s + i) = Some \<lparr>p_block = b, p_start = e_offset (snd (((k, e) # ps) ! i))\<rparr> \<and>
      devs (registry s') (next_device s + i) = Some (new_device b d (e_type (snd (((k, e) # ps) ! i)))
        (e_offset (snd (((k, e) # ps) ! i))) (e_size (snd (((k, e) # ps) ! i))) (fst (((k, e) # ps) ! i)))" if i: "i < length ((k, e) # ps)" for i
  proof (cases i)
    case 0
    then show ?thesis using old[of "next_device s"] by (simp add: add_partition_def)
  next
    case (Suc j)
    then show ?thesis using r i by (auto dest!: spec[of _ j])
  qed
  have rest: "partitions s' x = partitions s x \<and> devs (registry s') x = devs (registry s) x" if "x < next_device s" for x
    using old[of x] that by (simp add: add_partition_def)
  show ?thesis unfolding registered_def using r all each rest by auto
qed

lemma wanted_Cons:
  "wanted d k (e # es) = (if \<not> used_entry e then wanted d k es
     else if inside d (e_offset e) (e_size e) then (k, e) # wanted d (Suc k) es else wanted d (Suc k) es)"
  by (simp add: wanted_def)

lemma parse_primary:
  assumes "find extended_entry es = None"
  shows "kept b c n s \<Longrightarrow> no_memory s = [] \<Longrightarrow> devs (registry s) b = Some d \<Longrightarrow>
    \<exists>s'. parse_entries nested b 0 primary es nr s = Scanned (nr + length (filter used_entry es)) s' \<and>
      registered b d (wanted d (Suc nr) es) s s'"
  using assms
proof (induction es arbitrary: nr s)
  case Nil
  then show ?case by (simp add: registered_def wanted_def)
next
  case (Cons e es)
  have f: "find extended_entry es = None" and x: "\<not> extended_entry e" using Cons.prems(4) by (simp_all split: if_splits)
  show ?case
  proof (cases "used_entry e")
    case False
    then show ?thesis using Cons.IH[OF Cons.prems(1,2,3) f, of nr] by (auto simp: wanted_Cons used_entry_def)
  next
    case True
    then have step: "parse_entries nested b 0 primary (e # es) nr s =
        (case found_partition b (e_type e) (e_offset e) (e_size e) (nr + 1) s of None \<Rightarrow> Panicked
         | Some s \<Rightarrow> parse_entries nested b 0 primary es (nr + 1) s)" using x by (simp add: used_entry_def extended_entry_def)
    have nx: "0 < next_device s" "b < next_device s" using Cons.prems(1) by (simp_all add: kept_def partitions_ok_def is_disk_def)
    have same: "s\<lparr>no_memory := []\<rparr> = s" using Cons.prems(2) by (cases s) simp
    have same: "add_partition b d t x y k (s\<lparr>no_memory := []\<rparr>) = add_partition b d t x y k s" for t x y k by (simp only: same)
    define s1 where "s1 = (if inside d (e_offset e) (e_size e) then add_partition b d (e_type e) (e_offset e) (e_size e) (Suc nr) s else s)"
    have s1: "found_partition b (e_type e) (e_offset e) (e_size e) (Suc nr) s = Some s1"
      using found_partition_cases[OF Cons.prems(3) nx(1), of "e_type e" "e_offset e" "e_size e" "Suc nr"] Cons.prems(2) by (auto simp: s1_def same)
    have "kept b c n s1" "no_memory s1 = []" using found_partition_ok[OF _ _ s1] Cons.prems(1,2) unfolding kept_def by blast+
    moreover have "devs (registry s1) b = Some d" using Cons.prems(3) nx(2) by (simp add: s1_def add_partition_def)
    ultimately obtain s' where s': "parse_entries nested b 0 primary es (Suc nr) s1 = Scanned (Suc nr + length (filter used_entry es)) s'"
      "registered b d (wanted d (Suc (Suc nr)) es) s1 s'" using Cons.IH[OF _ _ _ f, of s1 "Suc nr"] by blast
    have "registered b d (wanted d (Suc nr) (e # es)) s s'"
      using s'(2) registered_Cons[of b d _ e "Suc nr" s s'] True by (auto simp: wanted_Cons s1_def)
    then show ?thesis using True step s1 s'(1) by simp
  qed
qed

lemma scan_primary:
  assumes "partitions_ok s" "is_disk s b c n" "0 < n" "devs (registry s) b = Some d" "no_memory s = []"
    "table_signature (c 0) = 0xaa55" "find extended_entry (table_entries (c 0)) = None"
  shows "\<exists>s'. partition_scan (Suc depth) b s = Scanned (length (filter used_entry (table_entries (c 0)))) s' \<and>
    registered b d (wanted d 1 (table_entries (c 0)))
      (s\<lparr>registry := (registry s)\<lparr>devs := (devs (registry s))(b \<mapsto> d\<lparr>read_cnt := read_cnt d + 1\<rparr>)\<rparr>\<rparr>) s'"
proof -
  define e s1 where "e = d\<lparr>read_cnt := read_cnt d + 1\<rparr>" and
    "s1 = s\<lparr>registry := (registry s)\<lparr>devs := (devs (registry s))(b \<mapsto> d\<lparr>read_cnt := read_cnt d + 1\<rparr>)\<rparr>\<rparr>"
  have d: "sectors d = c" "b_size d = n" using assms(2,4) by (auto simp: is_disk_def)
  have k: "kept b c n s1" using device_update_ok[OF assms(1,4), of e] assms(2) d
    by (simp add: kept_def s1_def e_def is_disk_def)
  have eq: "wanted e = wanted d" "new_device b e = new_device b d"
    by (simp_all add: fun_eq_iff wanted_def inside_def new_device_def e_def)
  have reg: "registered b e = registered b d" by (simp add: fun_eq_iff registered_def eq)
  have "partition_scan (Suc depth) b s = parse_entries (read_partition_table depth b) b 0 0 (table_entries (c 0)) 0 s1"
  proof -
    have same: "s\<lparr>no_memory := [], registry := r\<rparr> = s\<lparr>registry := r\<rparr>" for r using assms(5) by (cases s) simp
    have "n \<noteq> 0" using assms(3) by auto
    then show ?thesis using assms(3-6) d by (simp add: same partition_scan_def kmalloc_part_eq Let_def block_read_def check_sector_def s1_def)
  qed
  moreover obtain s' where "parse_entries (read_partition_table depth b) b 0 0 (table_entries (c 0)) 0 s1 =
      Scanned (0 + length (filter used_entry (table_entries (c 0)))) s'" "registered b e (wanted e (Suc 0) (table_entries (c 0))) s1 s'"
    using parse_primary[OF assms(7) k, of e "read_partition_table depth b" 0 0] assms(5) by (auto simp: s1_def e_def)
  ultimately show ?thesis unfolding eq reg s1_def by auto
qed

text \<open>C34. On a disk whose table has no extended partition, and with memory for the descriptors of the new devices, the scan returns without a panic. It counts the entries that are not empty, and
  registers, in the order of the table and after the devices there were, one device for each of them that lies on
  the disk, with the type, the size, the start and the number of the entry; the other devices are as before, but for the count of reads of the disk.\<close>

theorem scan_registers_partitions:
  assumes "partitions_ok s" "is_disk s b c n" "0 < n" "devs (registry s) b = Some d" "no_memory s = []"
    "table_signature (c 0) = 0xaa55" "find extended_entry (table_entries (c 0)) = None"
  shows "\<exists>s'. partition_scan (Suc depth) b s = Scanned (length (filter used_entry (table_entries (c 0)))) s' \<and>
    registered b d (wanted d 1 (table_entries (c 0)))
      (s\<lparr>registry := (registry s)\<lparr>devs := (devs (registry s))(b \<mapsto> d\<lparr>read_cnt := read_cnt d + 1\<rparr>)\<rparr>\<rparr>) s'"
  using scan_primary[where b = b and depth = depth, OF assms] .

text \<open>C35. A disk with an extended partition whose offset and twice whose offset are sectors of the disk is never scanned to the end: the code
  reads sector 0 for every table, finds the entry of the extended partition again and goes on forever; with a stack of any
  depth the scan needs more.\<close>

theorem extended_partition_never_ends:
  assumes "partitions_ok s" "is_disk s b c n" "no_memory s = []" "table_signature (c 0) = 0xaa55"
    "find extended_entry (table_entries (c 0)) = Some e" "e_offset e < n" "e_offset e + e_offset e < n"
  shows "partition_scan depth b s = Too_deep"
proof -
  have "kept b c n s" using assms(1,2) by (simp add: kept_def)
  then show ?thesis using read_table_too_deep[of c e n 0 0 b s depth 0] assms(3-7) unfolding partition_scan_def by simp
qed

section \<open>A disk with a table\<close>

text \<open>A disk of 1000 sectors with a file system at sector 100, a foreign partition that does not fit, and a third entry of type \<open>t\<close>.\<close>

definition sample_entry :: "u8 \<Rightarrow> u32 \<Rightarrow> u32 \<Rightarrow> u8 list" where
  "sample_entry t start sz = [0, 0, 0, 0, t, 0, 0, 0] @ le32 start @ le32 sz"

definition sample_table :: "u8 \<Rightarrow> u8 list" where
  "sample_table t = replicate 446 0 @ sample_entry 0x21 100 50 @ sample_entry 0x83 900 200 @ sample_entry t 300 20 @ replicate 16 0 @ [0x55, 0xaa]"

definition sample_scan :: "u8 \<Rightarrow> disk_state" where
  "sample_scan t = \<lparr>registry = \<lparr>devs = [1 \<mapsto> \<lparr>b_name = ''hda'', b_type = BLOCK_RAW, b_size = 1000,
       sectors = (\<lambda>x. if x = 0 then sample_table t else replicate 512 (ucast x)), read_cnt = 0, write_cnt = 0\<rparr>],
       all_blocks = [1], block_by_role = (\<lambda>_. 0)\<rparr>, partitions = Map.empty, next_device = 2, no_memory = []\<rparr>"

lemma sample_signature: "table_signature (sample_table t) = 0xaa55"
  by (simp add: table_signature_def sample_table_def sample_entry_def le32_def nth_append)

lemma sample_table_entries:
  "table_entries (sample_table t) = [\<lparr>e_type = 0x21, e_offset = 100, e_size = 50\<rparr>, \<lparr>e_type = 0x83, e_offset = 900, e_size = 200\<rparr>,
     \<lparr>e_type = t, e_offset = 300, e_size = 20\<rparr>, \<lparr>e_type = 0, e_offset = 0, e_size = 0\<rparr>]"
proof -
  have "[0..<4] = [0, 1, 2, 3 :: nat]" by (simp add: upt_rec)
  then show ?thesis by (simp add: table_entries_def table_entry_def sample_table_def sample_entry_def le32_def of_le32_def nth_append)
qed

lemma sample_scan_ok:
  "partitions_ok (sample_scan t)" "is_disk (sample_scan t) 1 (\<lambda>x. if x = 0 then sample_table t else replicate 512 (ucast x)) 1000"
  by (simp_all add: partitions_ok_def is_disk_def sample_scan_def)

lemma sample_scanned:
  obtains d where "devs (registry (sample_scan 0x22)) 1 = Some d" "b_size d = 1000"
    "table_signature (sample_table 0x22) = 0xaa55" "find extended_entry (table_entries (sample_table 0x22)) = None"
    "length (filter used_entry (table_entries (sample_table 0x22))) = 3"
    "wanted d 1 (table_entries (sample_table 0x22)) = [(1, table_entries (sample_table 0x22) ! 0), (3, table_entries (sample_table 0x22) ! 2)]"
proof -
  obtain d where d: "devs (registry (sample_scan 0x22)) 1 = Some d" "b_size d = 1000" by (simp add: sample_scan_def)
  show thesis
    by (rule that[OF d sample_signature]) (use d(2) in \<open>simp_all add: sample_table_entries extended_entry_def is_extended_def wanted_def used_entry_def inside_def\<close>)
qed

theorem scan_registers_partitions_witness:
  "\<exists>s'. partition_scan 1 1 (sample_scan 0x22) = Scanned 3 s' \<and> all_blocks (registry s') = [1, 2, 3] \<and>
    partitions s' 3 = Some \<lparr>p_block = 1, p_start = 300\<rparr>"
proof -
  obtain d where d: "devs (registry (sample_scan 0x22)) 1 = Some d" "b_size d = 1000"
    "table_signature (sample_table 0x22) = 0xaa55" "find extended_entry (table_entries (sample_table 0x22)) = None"
    "length (filter used_entry (table_entries (sample_table 0x22))) = 3"
    "wanted d 1 (table_entries (sample_table 0x22)) = [(1, table_entries (sample_table 0x22) ! 0), (3, table_entries (sample_table 0x22) ! 2)]"
    by (rule sample_scanned)
  obtain s' where "partition_scan (Suc 0) 1 (sample_scan 0x22) = Scanned 3 s'" "registered 1 d (wanted d 1 (table_entries (sample_table 0x22)))
      ((sample_scan 0x22)\<lparr>registry := (registry (sample_scan 0x22))\<lparr>devs := (devs (registry (sample_scan 0x22)))(1 \<mapsto> d\<lparr>read_cnt := read_cnt d + 1\<rparr>)\<rparr>\<rparr>) s'"
    using scan_registers_partitions[OF sample_scan_ok(1)[of "0x22"] sample_scan_ok(2)[of "0x22"] _ d(1), where depth = 0] d(3-5) by (auto simp: sample_scan_def)
  then show ?thesis using registered_nth(1)[of 1 d _ _ s' 1 3] unfolding d(6)
    by (simp add: sample_table_entries sample_scan_def) (simp add: registered_def upt_rec)
qed

theorem partition_io_confined_witness:
  "\<exists>s1 s2. partition_scan 1 1 (sample_scan 0x22) = Scanned 3 s1 \<and> read_device 2 7 s1 = Some (replicate 512 107, s2)"
proof -
  obtain d where d: "devs (registry (sample_scan 0x22)) 1 = Some d" "b_size d = 1000"
    "table_signature (sample_table 0x22) = 0xaa55" "find extended_entry (table_entries (sample_table 0x22)) = None"
    "length (filter used_entry (table_entries (sample_table 0x22))) = 3"
    "wanted d 1 (table_entries (sample_table 0x22)) = [(1, table_entries (sample_table 0x22) ! 0), (3, table_entries (sample_table 0x22) ! 2)]"
    by (rule sample_scanned)
  obtain s1 where s1: "partition_scan (Suc 0) 1 (sample_scan 0x22) = Scanned 3 s1" "registered 1 d (wanted d 1 (table_entries (sample_table 0x22)))
      ((sample_scan 0x22)\<lparr>registry := (registry (sample_scan 0x22))\<lparr>devs := (devs (registry (sample_scan 0x22)))(1 \<mapsto> d\<lparr>read_cnt := read_cnt d + 1\<rparr>)\<rparr>\<rparr>) s1"
    using scan_primary[OF sample_scan_ok(1)[of "0x22"] sample_scan_ok(2)[of "0x22"] _ d(1), where depth = 0] d(3-5) by (auto simp: sample_scan_def)
  have ps: "wanted d 1 (table_entries (sample_table 0x22)) ! 0 = (1, \<lparr>e_type = 0x21, e_offset = 100, e_size = 50\<rparr>)"
    "0 < length (wanted d 1 (table_entries (sample_table 0x22)))" unfolding d(6) by (simp_all add: sample_table_entries)
  have n: "2 = next_device ((sample_scan 0x22)\<lparr>registry := r\<rparr>) + 0" for r by (simp add: sample_scan_def)
  define p where "p = new_device 1 d 0x21 100 50 1"
  have p: "partitions s1 2 = Some \<lparr>p_block = 1, p_start = 100\<rparr>" "devs (registry s1) 2 = Some p" "b_size p = 50"
    using registered_nth[OF s1(2) ps(2) n] unfolding ps(1) by (simp_all add: p_def new_device_def del: One_nat_def)
  have disk: "devs (registry s1) 1 = Some (d\<lparr>read_cnt := read_cnt d + 1\<rparr>)" using s1(2) by (auto simp: registered_def sample_scan_def)
  have r: "sectors d 107 = replicate 512 107" using d(1) by (auto simp: sample_scan_def)
  have "7 < b_size p" "(0 :: u32) < 1000" using p(3) by simp_all
  from partition_io_confined[OF sample_scan_ok(1)[of "0x22"] sample_scan_ok(2)[of "0x22"] this(2) s1(1) p(1,2) this(1), of "[]"]
  obtain s2 where "read_device 2 7 s1 = Some (sectors d 107, s2)" using disk by auto
  then show ?thesis using s1(1) unfolding r by auto
qed

theorem extended_partition_never_ends_witness: "partition_scan 100 1 (sample_scan 0x05) = Too_deep"
  by (rule extended_partition_never_ends[OF sample_scan_ok, where e = "\<lparr>e_type = 0x05, e_offset = 300, e_size = 20\<rparr>"])
    (simp_all add: sample_signature sample_table_entries extended_entry_def is_extended_def sample_scan_def)

end
