(* ===== verification/Pagedir.thy ===== *)
theory Pagedir
  imports Palloc
begin

unbundle bit_operations_syntax

text \<open>
  Page directories (\<^verbatim>\<open>userprog/pagedir.c\<close> and \<^verbatim>\<open>threads/pte.h\<close>): the two levels of tables of the hardware, as words in
  the pages of \<open>Palloc\<close>. The user part of a page directory is a map from user pages to kernel addresses of frames.
\<close>

section \<open>Definitions\<close>

subsection \<open>Entries\<close>

definition PTSHIFT :: nat where "PTSHIFT = PGBITS"
definition PTBITS :: nat where "PTBITS = 10"
definition PTMASK :: u32 where "PTMASK = BITMASK PTSHIFT PTBITS"
definition PDSHIFT :: nat where "PDSHIFT = PTSHIFT + PTBITS"

definition pt_no :: "u32 \<Rightarrow> u32" where "pt_no va = drop_bit PTSHIFT (va AND PTMASK)"
definition pd_no :: "u32 \<Rightarrow> u32" where "pd_no va = drop_bit PDSHIFT va"

definition PTE_ADDR :: u32 where "PTE_ADDR = 0xfffff000"
definition PTE_P :: u32 where "PTE_P = 0x1"
definition PTE_W :: u32 where "PTE_W = 0x2"
definition PTE_U :: u32 where "PTE_U = 0x4"
definition PTE_A :: u32 where "PTE_A = 0x20"
definition PTE_D :: u32 where "PTE_D = 0x40"

definition pde_create :: "u32 \<Rightarrow> u32 option" where
  "pde_create pt = ASSERT (pg_ofs pt = 0) (Option.bind (vtop pt) (\<lambda>a. Some (a OR PTE_U OR PTE_P OR PTE_W)))"

definition pde_get_pt :: "u32 \<Rightarrow> u32 option" where
  "pde_get_pt pde = ASSERT (pde AND PTE_P \<noteq> 0) (ptov (pde AND PTE_ADDR))"

definition pte_create_kernel :: "u32 \<Rightarrow> bool \<Rightarrow> u32 option" where
  "pte_create_kernel page writable =
     ASSERT (pg_ofs page = 0) (Option.bind (vtop page) (\<lambda>a. Some (a OR PTE_P OR (if writable then PTE_W else 0))))"

definition pte_create_user :: "u32 \<Rightarrow> bool \<Rightarrow> u32 option" where
  "pte_create_user page writable = Option.bind (pte_create_kernel page writable) (\<lambda>e. Some (e OR PTE_U))"

definition pte_get_page :: "u32 \<Rightarrow> u32 option" where "pte_get_page pte = ptov (pte AND PTE_ADDR)"

subsection \<open>Page directories\<close>

text \<open>The pages, the register with the physical address of the active page directory, and what the kernel's start-up fixed.\<close>

record mmu =
  ram :: palloc
  cr3 :: u32
  init_page_dir :: u32
  init_ram_pages :: u32

definition load :: "u32 \<Rightarrow> mmu \<Rightarrow> u32" where "load a s = word_at (page_mem (ram s)) a"

definition word_bytes :: "u32 \<Rightarrow> u8 list" where
  "word_bytes w = [ucast w, ucast (drop_bit 8 w), ucast (drop_bit 16 w), ucast (drop_bit 24 w)]"

definition store :: "u32 \<Rightarrow> u32 \<Rightarrow> mmu \<Rightarrow> mmu" where
  "store a w s = s\<lparr>ram := (ram s)\<lparr>page_mem := write_bytes (page_mem (ram s)) a (word_bytes w)\<rparr>\<rparr>"

definition pagedir_activate :: "u32 \<Rightarrow> mmu \<Rightarrow> mmu option" where
  "pagedir_activate pd s =
     (let pd = (if pd = 0 then init_page_dir s else pd) in Option.bind (vtop pd) (\<lambda>a. Some (s\<lparr>cr3 := a\<rparr>)))"

definition active_pd :: "mmu \<Rightarrow> u32 option" where "active_pd s = ptov (cr3 s)"

definition invalidate_pagedir :: "u32 \<Rightarrow> mmu \<Rightarrow> mmu option" where
  "invalidate_pagedir pd s = Option.bind (active_pd s) (\<lambda>a. if a = pd then pagedir_activate pd s else Some s)"

definition pagedir_create :: "mmu \<Rightarrow> (u32 \<times> mmu) option" where
  "pagedir_create s =
     Option.bind (palloc_get_page 0 (ram s)) (\<lambda>(pd, p).
     if pd \<noteq> 0 then
       Option.bind (memcpy pd (init_page_dir s) PGSIZE (page_mem p)) (\<lambda>(_, m). Some (pd, s\<lparr>ram := p\<lparr>page_mem := m\<rparr>\<rparr>))
     else Some (pd, s\<lparr>ram := p\<rparr>))"

definition free_page :: "u32 \<Rightarrow> mmu \<Rightarrow> mmu option" where
  "free_page page s = Option.bind (palloc_free_page page (ram s)) (\<lambda>p. Some (s\<lparr>ram := p\<rparr>))"

text \<open>The inner and the outer loop of \<^verbatim>\<open>pagedir_destroy\<close>, over the addresses of the entries.\<close>

primrec destroy_table :: "u32 list \<Rightarrow> mmu \<Rightarrow> mmu option" where
  "destroy_table [] s = Some s"
| "destroy_table (pte # ptes) s =
     Option.bind (if load pte s AND PTE_P \<noteq> 0 then Option.bind (pte_get_page (load pte s)) (\<lambda>page. free_page page s) else Some s)
       (destroy_table ptes)"

primrec destroy_dir :: "u32 list \<Rightarrow> mmu \<Rightarrow> mmu option" where
  "destroy_dir [] s = Some s"
| "destroy_dir (pde # pdes) s =
     Option.bind
       (if load pde s AND PTE_P \<noteq> 0 then
          Option.bind (pde_get_pt (load pde s)) (\<lambda>pt.
          Option.bind (destroy_table (map (\<lambda>i. pt + 4 * of_nat i) [0..<unat PGSIZE div 4]) s) (free_page pt))
        else Some s)
       (destroy_dir pdes)"

definition pagedir_destroy :: "u32 \<Rightarrow> mmu \<Rightarrow> mmu option" where
  "pagedir_destroy pd s =
     (if pd = 0 then Some s
      else
        ASSERT (pd \<noteq> init_page_dir s) (
        Option.bind (destroy_dir (map (\<lambda>i. pd + 4 * of_nat i) [0..<unat (pd_no PHYS_BASE)]) s) (free_page pd)))"

text \<open>The address of the entry for \<open>vaddr\<close>; 0 where there is none.\<close>

definition lookup_page :: "u32 \<Rightarrow> u32 \<Rightarrow> bool \<Rightarrow> mmu \<Rightarrow> (u32 \<times> mmu) option" where
  "lookup_page pd vaddr create s =
     ASSERT (pd \<noteq> 0) (
     ASSERT (\<not> create \<or> is_user_vaddr vaddr) (
     let pde = pd + 4 * pd_no vaddr;
         found = (\<lambda>s. Option.bind (pde_get_pt (load pde s)) (\<lambda>pt. Some (pt + 4 * pt_no vaddr, s))) in
     if load pde s = 0 then
       if create then
         Option.bind (palloc_get_page PAL_ZERO (ram s)) (\<lambda>(pt, p).
         let s = s\<lparr>ram := p\<rparr> in
         if pt = 0 then Some (0, s)
         else Option.bind (pde_create pt) (\<lambda>e. found (store pde e s)))
       else Some (0, s)
     else found s))"

definition pagedir_set_page :: "u32 \<Rightarrow> u32 \<Rightarrow> u32 \<Rightarrow> bool \<Rightarrow> mmu \<Rightarrow> (bool \<times> mmu) option" where
  "pagedir_set_page pd upage kpage writable s =
     ASSERT (pg_ofs upage = 0) (
     ASSERT (pg_ofs kpage = 0) (
     ASSERT (is_user_vaddr upage) (
     Option.bind (vtop kpage) (\<lambda>a.
     ASSERT (drop_bit PTSHIFT a < init_ram_pages s) (
     ASSERT (pd \<noteq> init_page_dir s) (
     Option.bind (lookup_page pd upage True s) (\<lambda>(pte, s).
     if pte \<noteq> 0 then
       ASSERT (load pte s AND PTE_P = 0) (
       Option.bind (pte_create_user kpage writable) (\<lambda>e. Some (True, store pte e s)))
     else Some (False, s))))))))"

definition pagedir_get_page :: "u32 \<Rightarrow> u32 \<Rightarrow> mmu \<Rightarrow> u32 option" where
  "pagedir_get_page pd uaddr s =
     ASSERT (is_user_vaddr uaddr) (
     Option.bind (lookup_page pd uaddr False s) (\<lambda>(pte, s).
     if pte \<noteq> 0 \<and> load pte s AND PTE_P \<noteq> 0
     then Option.bind (pte_get_page (load pte s)) (\<lambda>page. Some (page + pg_ofs uaddr))
     else Some 0))"

definition pagedir_clear_page :: "u32 \<Rightarrow> u32 \<Rightarrow> mmu \<Rightarrow> mmu option" where
  "pagedir_clear_page pd upage s =
     ASSERT (pg_ofs upage = 0) (
     ASSERT (is_user_vaddr upage) (
     Option.bind (lookup_page pd upage False s) (\<lambda>(pte, s).
     if pte \<noteq> 0 \<and> load pte s AND PTE_P \<noteq> 0
     then invalidate_pagedir pd (store pte (load pte s AND NOT PTE_P) s)
     else Some s)))"

text \<open>Testing and changing the bits that the hardware sets.\<close>

definition pte_has :: "u32 \<Rightarrow> u32 \<Rightarrow> u32 \<Rightarrow> mmu \<Rightarrow> bool option" where
  "pte_has flag pd vpage s =
     Option.bind (lookup_page pd vpage False s) (\<lambda>(pte, s). Some (pte \<noteq> 0 \<and> load pte s AND flag \<noteq> 0))"

definition pte_put :: "u32 \<Rightarrow> u32 \<Rightarrow> u32 \<Rightarrow> bool \<Rightarrow> mmu \<Rightarrow> mmu option" where
  "pte_put flag pd vpage v s =
     Option.bind (lookup_page pd vpage False s) (\<lambda>(pte, s).
     if pte \<noteq> 0 then
       if v then Some (store pte (load pte s OR flag) s)
       else invalidate_pagedir pd (store pte (load pte s AND NOT flag) s)
     else Some s)"

definition pagedir_is_dirty :: "u32 \<Rightarrow> u32 \<Rightarrow> mmu \<Rightarrow> bool option" where "pagedir_is_dirty = pte_has PTE_D"
definition pagedir_set_dirty :: "u32 \<Rightarrow> u32 \<Rightarrow> bool \<Rightarrow> mmu \<Rightarrow> mmu option" where "pagedir_set_dirty = pte_put PTE_D"
definition pagedir_is_accessed :: "u32 \<Rightarrow> u32 \<Rightarrow> mmu \<Rightarrow> bool option" where "pagedir_is_accessed = pte_has PTE_A"
definition pagedir_set_accessed :: "u32 \<Rightarrow> u32 \<Rightarrow> bool \<Rightarrow> mmu \<Rightarrow> mmu option" where "pagedir_set_accessed = pte_put PTE_A"

section \<open>Words in pages\<close>

text \<open>The address of entry \<open>k\<close> of the table in a page.\<close>

definition slot :: "u32 \<Rightarrow> nat \<Rightarrow> u32" where "slot page k = page + 4 * of_nat k"

definition page_aligned :: "u32 \<Rightarrow> bool" where "page_aligned p \<longleftrightarrow> unat p mod 4096 = 0"

lemma unat_slot: "page_aligned p \<Longrightarrow> k < 1024 \<Longrightarrow> unat (slot p k) = unat p + 4 * k"
proof -
  assume a: "page_aligned p" "k < 1024"
  define q where "q = unat p div 4096"
  have q: "unat p = 4096 * q" using a(1) by (auto simp: page_aligned_def q_def)
  have "unat p < 2 ^ 32" using unsigned_less[of p] by simp
  then have "q < 2 ^ 20" by (simp add: q_def div_less_iff_less_mult)
  then have b: "unat p + 4096 \<le> 2 ^ 32" using q by simp
  have "unat (4 * of_nat k :: u32) = 4 * k" using a(2) by (simp add: unat_word_ariths unat_of_nat)
  then show ?thesis using a(2) b unat_add_lem[of p "4 * of_nat k"] by (simp add: slot_def)
qed

lemma slot_inj:
  assumes "page_aligned p" "page_aligned q" "k < 1024" "l < 1024" shows "slot p k = slot q l \<longleftrightarrow> p = q \<and> k = l"
proof
  assume "slot p k = slot q l"
  then have e: "unat p + 4 * k = unat q + 4 * l" using assms unat_slot by metis
  have "(unat p + 4 * k) mod 4096 = 4 * k" "(unat q + 4 * l) mod 4096 = 4 * l"
    using assms by (simp_all add: page_aligned_def mod_add_eq flip: mod_add_left_eq)
  then have "k = l" using e by simp
  then show "p = q \<and> k = l" using e by (simp add: word_unat_eq_iff)
qed simp

lemma word_bytes_length [simp]: "length (word_bytes w) = 4"
  by (simp add: word_bytes_def)

lemma word_at_bytes: "m a = word_bytes w ! 0 \<Longrightarrow> m (a + 1) = word_bytes w ! 1 \<Longrightarrow> m (a + 2) = word_bytes w ! 2 \<Longrightarrow>
    m (a + 3) = word_bytes w ! 3 \<Longrightarrow> word_at m a = w"
proof (rule bit_word_eqI)
  fix n assume m: "m a = word_bytes w ! 0" "m (a + 1) = word_bytes w ! 1" "m (a + 2) = word_bytes w ! 2" "m (a + 3) = word_bytes w ! 3"
    and "n < LENGTH(32)"
  then consider "n < 8" | "8 \<le> n" "n < 16" | "16 \<le> n" "n < 24" | "24 \<le> n" "n < 32" by fastforce
  then show "bit (word_at m a) n \<longleftrightarrow> bit w n"
    unfolding word_at_def m by cases (simp_all add: word_bytes_def bit_simps, auto)
qed

lemma word_at_same: "word_at (write_bytes m a (word_bytes w)) a = w"
  by (rule word_at_bytes) (simp_all add: write_bytes_def)

lemma word_at_apart:
  assumes "4 \<le> unat (b - a)" "4 \<le> unat (a - b)" shows "word_at (write_bytes m a (word_bytes w)) b = word_at m b"
proof -
  have "\<not> unat (b + of_nat i - a) < 4" if "i < 4" for i
  proof -
    define d where "d = b - a"
    have d: "unat d \<noteq> 0" using assms(1) by (simp add: d_def)
    have "a - b = 0 - d" by (simp add: d_def)
    moreover have "unat (0 - d) = 2 ^ 32 - unat d" unfolding unat_sub_if' using d by simp
    ultimately have "unat d + 4 \<le> 2 ^ 32" using assms(2) by simp
    then have "unat (d + of_nat i) = unat d + i" using that unat_add_lem[of d "of_nat i"] by (simp add: unat_of_nat)
    moreover have e: "b + of_nat i - a = d + of_nat i" by (simp add: d_def)
    ultimately show ?thesis using assms(1) unfolding e d_def[symmetric] by simp
  qed
  from this[of 0] this[of 1] this[of 2] this[of 3] show ?thesis by (simp add: word_at_def write_bytes_def)
qed

lemma slot_apart:
  assumes "page_aligned p" "page_aligned q" "k < 1024" "l < 1024" "slot p k \<noteq> slot q l"
  shows "4 \<le> unat (slot q l - slot p k)"
proof -
  define x y where "x = unat (slot p k)" and "y = unat (slot q l)"
  have "4 dvd x" "4 dvd y"
    using unat_slot[OF assms(1,3)] unat_slot[OF assms(2,4)] assms(1,2) dvd_trans[of 4 4096]
    by (auto simp: x_def y_def page_aligned_def mod_eq_0_iff_dvd)
  then have "4 dvd unat (slot q l - slot p k)"
    unfolding unat_sub_if' x_def[symmetric] y_def[symmetric] by (auto intro!: dvd_diff_nat dvd_add)
  moreover have "unat (slot q l - slot p k) \<noteq> 0" using assms(5) by (simp add: unat_eq_0)
  ultimately show ?thesis by (auto dest: dvd_imp_le)
qed

lemma load_store:
  assumes "page_aligned p" "page_aligned q" "k < 1024" "l < 1024"
  shows "load (slot q l) (store (slot p k) w s) = (if p = q \<and> k = l then w else load (slot q l) s)"
proof (cases "slot p k = slot q l")
  case True
  then show ?thesis using slot_inj[OF assms] by (simp add: load_def store_def word_at_same)
next
  case False
  have "4 \<le> unat (slot q l - slot p k)" "4 \<le> unat (slot p k - slot q l)"
    using slot_apart[OF assms False] slot_apart[OF assms(2,1,4,3)] False by auto
  then show ?thesis using False slot_inj[OF assms] by (auto simp: load_def store_def word_at_apart)
qed

text \<open>The fields of an entry.\<close>

lemma and_addr: "x AND PTE_ADDR = pg_round_down x"
proof -
  have "PTE_ADDR = NOT PGMASK" by (rule word_unat_eq_iff[THEN iffD2]) (simp add: PTE_ADDR_def PGMASK_eq)
  then show ?thesis by (simp add: pg_round_down_def)
qed

lemma addr_or: "page_aligned p \<Longrightarrow> f AND PTE_ADDR = 0 \<Longrightarrow> (p OR f) AND PTE_ADDR = p"
proof -
  assume a: "page_aligned p" "f AND PTE_ADDR = 0"
  have "pg_ofs p = 0" using a(1) unat_pg_ofs[of p] by (simp add: page_aligned_def unat_eq_0)
  then have "p AND PTE_ADDR = p" by (simp add: and_addr pg_round_down_minus)
  then show ?thesis using a(2) by (simp add: bit.conj_disj_distrib2)
qed

lemma aligned_low: "page_aligned p \<Longrightarrow> f AND PTE_ADDR = 0 \<Longrightarrow> p AND f = 0"
proof -
  assume a: "page_aligned p" "f AND PTE_ADDR = 0"
  have "p AND PTE_ADDR = p" using addr_or[OF a(1), of 0] by simp
  then have "p AND f = p AND (f AND PTE_ADDR)" by (metis and.assoc and.commute)
  then show ?thesis using a(2) by simp
qed

lemma or_flags: "(a OR b) AND f = (a AND f) OR (b AND f :: u32)"
  by (rule bit.conj_disj_distrib2)

section \<open>The map of a page directory\<close>

definition frame :: "u32 \<Rightarrow> u32" where "frame e = (e AND PTE_ADDR) + PHYS_BASE"

definition pde_of :: "mmu \<Rightarrow> u32 \<Rightarrow> nat \<Rightarrow> u32" where "pde_of s pd k = load (slot pd k) s"

definition pte_of :: "mmu \<Rightarrow> u32 \<Rightarrow> u32 \<Rightarrow> u32" where
  "pte_of s pd va = (if pde_of s pd (unat (pd_no va)) = 0 then 0
     else load (slot (frame (pde_of s pd (unat (pd_no va)))) (unat (pt_no va))) s)"

text \<open>What a user page is mapped to: the kernel address of the frame, and whether it can be written.\<close>

definition user_map :: "mmu \<Rightarrow> u32 \<Rightarrow> u32 \<Rightarrow> (u32 \<times> bool) option" where
  "user_map s pd va =
     (if is_user_vaddr va \<and> pte_of s pd va AND PTE_P \<noteq> 0 then Some (frame (pte_of s pd va), pte_of s pd va AND PTE_W \<noteq> 0) else None)"

text \<open>The directory and its page tables are pages in use, each table belongs to one entry, and present entries point to physical
  addresses.\<close>

definition table_page :: "mmu \<Rightarrow> u32 \<Rightarrow> bool" where
  "table_page s p \<longleftrightarrow> page_aligned p \<and> PHYS_BASE \<le> p \<and> unat p div 4096 \<in> used_pages (ram s)"

definition pd_ok :: "u32 \<Rightarrow> mmu \<Rightarrow> bool" where
  "pd_ok pd s \<longleftrightarrow> palloc_ok (ram s) \<and> 0xc0000 \<le> first_page (kernel_pool (ram s)) \<and> cr3 s < PHYS_BASE \<and> table_page s pd \<and>
     (\<forall>k < 768. pde_of s pd k \<noteq> 0 \<longrightarrow> pde_of s pd k AND PTE_P \<noteq> 0 \<and> pde_of s pd k AND PTE_ADDR < PHYS_BASE \<and>
        table_page s (frame (pde_of s pd k)) \<and> frame (pde_of s pd k) \<noteq> pd \<and>
        (\<forall>l < 1024. load (slot (frame (pde_of s pd k)) l) s AND PTE_P \<noteq> 0 \<longrightarrow> load (slot (frame (pde_of s pd k)) l) s AND PTE_ADDR < PHYS_BASE)) \<and>
     (\<forall>k < 768. \<forall>l < 768. pde_of s pd k \<noteq> 0 \<longrightarrow> pde_of s pd l \<noteq> 0 \<longrightarrow> frame (pde_of s pd k) = frame (pde_of s pd l) \<longrightarrow> k = l)"

lemma unat_pd_no: "unat (pd_no va) = unat va div 4096 div 1024"
  by (simp add: pd_no_def PDSHIFT_def PTSHIFT_def PTBITS_def PGBITS_def drop_bit_eq_div unat_div div_mult2_eq)

lemma unat_pt_no: "unat (pt_no va) = unat va div 4096 mod 1024"
proof -
  have "PTMASK = push_bit 12 (mask 10)"
    by (simp add: PTMASK_def BITMASK_def PTSHIFT_def PTBITS_def PGBITS_def mask_eq_exp_minus_1)
  then have "pt_no va = take_bit 10 (drop_bit 12 va)"
  proof -
    assume m: "PTMASK = push_bit 12 (mask 10)"
    have "bit PTMASK k \<longleftrightarrow> 12 \<le> k \<and> k < 22" for k unfolding m by (auto simp: bit_simps)
    then show ?thesis unfolding pt_no_def PTSHIFT_def PGBITS_def by (intro bit_word_eqI) (auto simp: bit_simps)
  qed
  then show ?thesis by (simp add: take_bit_eq_mod unat_mod unat_div drop_bit_eq_div)
qed

lemma same_page: "pg_no va = pg_no vb \<longleftrightarrow> unat (pd_no va) = unat (pd_no vb) \<and> unat (pt_no va) = unat (pt_no vb)"
proof -
  have "m = n \<longleftrightarrow> m div 1024 = n div 1024 \<and> m mod 1024 = n mod 1024" for m n :: nat
    using div_mult_mod_eq[of m 1024] div_mult_mod_eq[of n 1024] by (intro iffI) (simp, linarith)
  then show ?thesis unfolding word_unat_eq_iff[of "pg_no va"] unat_pg_no unat_pd_no unat_pt_no .
qed

lemma indices: "unat (pt_no va) < 1024" "is_user_vaddr va \<Longrightarrow> unat (pd_no va) < 768" "unat (pd_no va) < 1024"
proof -
  show "unat (pt_no va) < 1024" by (simp add: unat_pt_no)
  have "unat va < 2 ^ 32" using unsigned_less[of va] by simp
  then show "unat (pd_no va) < 1024" by (simp add: unat_pd_no div_less_iff_less_mult)
  assume "is_user_vaddr va"
  then have "unat va < 0xc0000000" by (simp add: is_user_vaddr_def word_less_nat_alt unat_PHYS_BASE)
  then show "unat (pd_no va) < 768" by (simp add: unat_pd_no div_less_iff_less_mult)
qed

lemma slot_index: "slot p (unat i) = p + 4 * i"
  by (simp add: slot_def)

lemma store_fields [simp]:
  "palloc_ok (ram (store a w s)) = palloc_ok (ram s)" "used_pages (ram (store a w s)) = used_pages (ram s)"
  "kernel_pool (ram (store a w s)) = kernel_pool (ram s)" "cr3 (store a w s) = cr3 s" "init_page_dir (store a w s) = init_page_dir s"
  "init_ram_pages (store a w s) = init_ram_pages s"
  by (simp_all add: store_def palloc_ok_def)

lemma table_page_store [simp]: "table_page (store a w s) = table_page s"
  by (simp add: table_page_def fun_eq_iff)

lemma pd_okD:
  assumes "pd_ok pd s"
  shows "palloc_ok (ram s)" "0xc0000 \<le> first_page (kernel_pool (ram s))" "cr3 s < PHYS_BASE" "table_page s pd"
    "\<And>k. k < 768 \<Longrightarrow> pde_of s pd k \<noteq> 0 \<Longrightarrow> pde_of s pd k AND PTE_P \<noteq> 0 \<and> pde_of s pd k AND PTE_ADDR < PHYS_BASE \<and>
        table_page s (frame (pde_of s pd k)) \<and> frame (pde_of s pd k) \<noteq> pd"
    "\<And>k l. k < 768 \<Longrightarrow> pde_of s pd k \<noteq> 0 \<Longrightarrow> l < 1024 \<Longrightarrow> load (slot (frame (pde_of s pd k)) l) s AND PTE_P \<noteq> 0 \<Longrightarrow>
        load (slot (frame (pde_of s pd k)) l) s AND PTE_ADDR < PHYS_BASE"
    "\<And>k l. k < 768 \<Longrightarrow> l < 768 \<Longrightarrow> pde_of s pd k \<noteq> 0 \<Longrightarrow> pde_of s pd l \<noteq> 0 \<Longrightarrow> frame (pde_of s pd k) = frame (pde_of s pd l) \<Longrightarrow> k = l"
  using assms unfolding pd_ok_def by blast+

lemma pd_okI:
  assumes "palloc_ok (ram s)" "0xc0000 \<le> first_page (kernel_pool (ram s))" "cr3 s < PHYS_BASE" "table_page s pd"
    "\<And>k. k < 768 \<Longrightarrow> pde_of s pd k \<noteq> 0 \<Longrightarrow> pde_of s pd k AND PTE_P \<noteq> 0 \<and> pde_of s pd k AND PTE_ADDR < PHYS_BASE \<and>
        table_page s (frame (pde_of s pd k)) \<and> frame (pde_of s pd k) \<noteq> pd \<and> (\<forall>l < 1024. load (slot (frame (pde_of s pd k)) l) s AND PTE_P \<noteq> 0 \<longrightarrow>
          load (slot (frame (pde_of s pd k)) l) s AND PTE_ADDR < PHYS_BASE)"
    "\<And>k l. k < 768 \<Longrightarrow> l < 768 \<Longrightarrow> pde_of s pd k \<noteq> 0 \<Longrightarrow> pde_of s pd l \<noteq> 0 \<Longrightarrow> frame (pde_of s pd k) = frame (pde_of s pd l) \<Longrightarrow> k = l"
  shows "pd_ok pd s"
  using assms unfolding pd_ok_def by blast

lemma put_pte:
  assumes ok: "pd_ok pd s" and va: "is_user_vaddr va" and e: "e = pde_of s pd (unat (pd_no va))" "e \<noteq> 0"
    and x: "x AND PTE_P \<noteq> 0 \<Longrightarrow> x AND PTE_ADDR < PHYS_BASE"
  defines "s' \<equiv> store (slot (frame e) (unat (pt_no va))) x s"
  shows "pd_ok pd s'" "is_user_vaddr vb \<Longrightarrow> pte_of s' pd vb = (if pg_no vb = pg_no va then x else pte_of s pd vb)"
proof -
  note d = pd_okD[OF ok]
  have k: "unat (pd_no va) < 768" "unat (pt_no va) < 1024" using indices va by simp_all
  have fe: "table_page s (frame e)" "frame e \<noteq> pd" using d(5)[OF k(1)] e by simp_all
  have al: "page_aligned (frame e)" "page_aligned pd" using fe(1) d(4) by (simp_all add: table_page_def)
  have pde: "pde_of s' pd j = pde_of s pd j" if "j < 768" for j
    using load_store[OF al k(2)] that fe(2) by (simp add: pde_of_def s'_def)
  have pte: "load (slot (frame (pde_of s pd j)) l) s' =
      (if j = unat (pd_no va) \<and> l = unat (pt_no va) then x else load (slot (frame (pde_of s pd j)) l) s)"
    if "j < 768" "l < 1024" "pde_of s pd j \<noteq> 0" for j l
  proof -
    have "page_aligned (frame (pde_of s pd j))" using d(5)[OF that(1,3)] by (simp add: table_page_def)
    moreover have "frame e = frame (pde_of s pd j) \<longleftrightarrow> j = unat (pd_no va)" using d(7)[OF k(1) that(1)] e that(3) by auto
    ultimately show ?thesis using load_store[OF al(1) _ k(2) that(2), of "frame (pde_of s pd j)" x s] by (auto simp: s'_def)
  qed
  have pt: "table_page s' = table_page s" by (simp add: s'_def)
  show "pd_ok pd s'"
    unfolding pd_ok_def pt using d pde pte x by (simp add: s'_def[symmetric]) (simp add: s'_def)
  assume vb: "is_user_vaddr vb"
  show "pte_of s' pd vb = (if pg_no vb = pg_no va then x else pte_of s pd vb)"
  proof (cases "pde_of s pd (unat (pd_no vb)) = 0")
    case True
    then show ?thesis using pde[OF indices(2)[OF vb]] e by (auto simp: pte_of_def same_page)
  next
    case False
    then have "pte_of s' pd vb = load (slot (frame (pde_of s pd (unat (pd_no vb)))) (unat (pt_no vb))) s'"
      using pde[OF indices(2)[OF vb]] by (simp add: pte_of_def)
    then show ?thesis using pte[OF indices(2)[OF vb] indices(1) False] False by (auto simp: pte_of_def same_page)
  qed
qed

section \<open>Entries that point to a page\<close>

lemma kernel_page:
  assumes "page_aligned p" "PHYS_BASE \<le> p"
  shows "vtop p = Some (p - PHYS_BASE)" "page_aligned (p - PHYS_BASE)" "p - PHYS_BASE < PHYS_BASE" "pg_ofs p = 0"
proof -
  show "vtop p = Some (p - PHYS_BASE)" using assms(2) by (simp add: vtop_def is_kernel_vaddr_def)
  have u: "unat (p - PHYS_BASE) = unat p - 0xc0000000" using assms(2) by (simp add: unat_sub unat_PHYS_BASE)
  have "0xc0000000 \<le> unat p" using assms(2) by (simp add: word_le_nat_alt unat_PHYS_BASE)
  then obtain m where m: "unat p = 0xc0000000 + m" using le_Suc_ex by blast
  have "(0xc0000000 + m) mod 4096 = m mod 4096" by (simp add: mod_add_eq[symmetric])
  then show "page_aligned (p - PHYS_BASE)" using assms(1) u m by (simp add: page_aligned_def)
  have "unat p < 2 ^ 32" using unsigned_less[of p] by simp
  then show "p - PHYS_BASE < PHYS_BASE" using m u by (simp add: word_less_nat_alt unat_PHYS_BASE)
  show "pg_ofs p = 0" using assms(1) unat_pg_ofs[of p] by (simp add: page_aligned_def unat_eq_0)
qed

lemma entry_fields:
  assumes "page_aligned p" "PHYS_BASE \<le> p" "f AND PTE_ADDR = 0"
  shows "frame (p - PHYS_BASE OR f) = p" "(p - PHYS_BASE OR f) AND PTE_ADDR = p - PHYS_BASE"
    "g AND PTE_ADDR = 0 \<Longrightarrow> (p - PHYS_BASE OR f) AND g = f AND g"
proof -
  note k = kernel_page[OF assms(1,2)]
  show a: "(p - PHYS_BASE OR f) AND PTE_ADDR = p - PHYS_BASE" by (rule addr_or[OF k(2) assms(3)])
  then show "frame (p - PHYS_BASE OR f) = p" by (simp add: frame_def)
  assume "g AND PTE_ADDR = 0"
  then show "(p - PHYS_BASE OR f) AND g = f AND g" using aligned_low[OF k(2)] by (simp add: or_flags)
qed

lemma pde_create_eq:
  assumes "page_aligned p" "PHYS_BASE \<le> p"
  obtains e where "pde_create p = Some e" "frame e = p" "e AND PTE_P \<noteq> 0" "e AND PTE_ADDR < PHYS_BASE" "e \<noteq> 0"
proof -
  note k = kernel_page[OF assms]
  define f where "f = PTE_U OR PTE_P OR PTE_W"
  have f: "f AND PTE_ADDR = 0" "PTE_P AND PTE_ADDR = 0" "f AND PTE_P \<noteq> 0" by (simp_all add: f_def PTE_U_def PTE_P_def PTE_W_def PTE_ADDR_def)
  note e = entry_fields[OF assms f(1)]
  have c: "pde_create p = Some (p - PHYS_BASE OR f)" using k by (simp add: pde_create_def f_def or.assoc)
  have P: "(p - PHYS_BASE OR f) AND PTE_P \<noteq> 0" using e(3)[OF f(2)] f(3) by simp
  then have "(p - PHYS_BASE OR f) \<noteq> 0" by auto
  then show thesis using that[OF c e(1) P] e(2) k(3) by simp
qed

lemma pte_create_eq:
  assumes "page_aligned p" "PHYS_BASE \<le> p"
  obtains e where "pte_create_user p w = Some e" "frame e = p" "e AND PTE_P \<noteq> 0" "e AND PTE_ADDR < PHYS_BASE" "e AND PTE_W \<noteq> 0 \<longleftrightarrow> w"
proof -
  note k = kernel_page[OF assms]
  define f where "f = PTE_P OR (if w then PTE_W else 0) OR PTE_U"
  have f: "f AND PTE_ADDR = 0" "PTE_P AND PTE_ADDR = 0" "PTE_W AND PTE_ADDR = 0" "f AND PTE_P \<noteq> 0" "f AND PTE_W \<noteq> 0 \<longleftrightarrow> w"
    by (simp_all add: f_def PTE_U_def PTE_P_def PTE_W_def PTE_ADDR_def)
  note e = entry_fields[OF assms f(1)]
  have c: "pte_create_user p w = Some (p - PHYS_BASE OR f)" using k by (simp add: pte_create_user_def pte_create_kernel_def f_def or.assoc)
  show thesis using that[OF c e(1)] e(2,3) f k(3) by simp
qed

section \<open>Finding the entry\<close>

lemma slot_not_0: "page_aligned p \<Longrightarrow> PHYS_BASE \<le> p \<Longrightarrow> k < 1024 \<Longrightarrow> slot p k \<noteq> 0"
  using unat_slot[of p k] by (auto simp: word_le_nat_alt unat_PHYS_BASE)

lemma pde_get_pt_eq: "e AND PTE_P \<noteq> 0 \<Longrightarrow> e AND PTE_ADDR < PHYS_BASE \<Longrightarrow> pde_get_pt e = Some (frame e)"
  by (simp add: pde_get_pt_def ptov_def frame_def)

lemma lookup_page_eq:
  assumes ok: "pd_ok pd s" and va: "is_user_vaddr va" and c: "pde_of s pd (unat (pd_no va)) \<noteq> 0 \<or> \<not> create"
  shows "lookup_page pd va create s =
      Some (if pde_of s pd (unat (pd_no va)) = 0 then 0 else slot (frame (pde_of s pd (unat (pd_no va)))) (unat (pt_no va)), s)"
    "pde_of s pd (unat (pd_no va)) \<noteq> 0 \<Longrightarrow> slot (frame (pde_of s pd (unat (pd_no va)))) (unat (pt_no va)) \<noteq> 0"
proof -
  note d = pd_okD[OF ok]
  define e where "e = pde_of s pd (unat (pd_no va))"
  have "pd \<noteq> 0" using d(4) by (auto simp: table_page_def PHYS_BASE_def)
  moreover have "load (pd + 4 * pd_no va) s = e" by (simp add: e_def pde_of_def slot_index)
  moreover have "e \<noteq> 0 \<Longrightarrow> pde_get_pt e = Some (frame e)" using d(5)[OF indices(2)[OF va]] by (simp add: e_def pde_get_pt_eq)
  ultimately show "lookup_page pd va create s = Some (if pde_of s pd (unat (pd_no va)) = 0 then 0
      else slot (frame (pde_of s pd (unat (pd_no va)))) (unat (pt_no va)), s)"
    using va c by (auto simp: lookup_page_def Let_def slot_index simp flip: e_def)
  show "pde_of s pd (unat (pd_no va)) \<noteq> 0 \<Longrightarrow> slot (frame (pde_of s pd (unat (pd_no va)))) (unat (pt_no va)) \<noteq> 0"
    using d(5)[OF indices(2)[OF va]] indices(1) by (intro slot_not_0) (simp_all add: table_page_def)
qed

lemma load_new_page:
  assumes "page_aligned q" "page_aligned pt" "l < 1024"
    and m: "\<And>x. page_mem p x = (if unat (x - pt) < 4096 then 0 else page_mem (ram s) x)"
  shows "load (slot q l) (s\<lparr>ram := p\<rparr>) = (if q = pt then 0 else load (slot q l) s)"
proof -
  define x where "x = slot q l"
  have ux: "unat x = unat q + 4 * l" using unat_slot[OF assms(1,3)] by (simp add: x_def)
  have page: "unat (x + of_nat i) = unat q + 4 * l + i" if "i < 4" for i
  proof -
    define k where "k = unat q div 4096"
    have k: "unat q = 4096 * k" using assms(1) by (auto simp: page_aligned_def k_def)
    have "unat q < 2 ^ 32" using unsigned_less[of q] by simp
    then have "k < 2 ^ 20" by (simp add: k_def div_less_iff_less_mult)
    then have "unat x + i < 2 ^ 32" using k ux that assms(3) by simp
    then show ?thesis using ux unat_add_lem[of x "of_nat i"] that by (simp add: unat_of_nat)
  qed
  have in_page: "unat (x + of_nat i - pt) < 4096 \<longleftrightarrow> q = pt" if i: "i < 4" for i
  proof
    assume "unat (x + of_nat i - pt) < 4096"
    define a b where "a = unat q div 4096" and "b = unat pt div 4096"
    have ab: "unat q = 4096 * a" "unat pt = 4096 * b" using assms(1,2) by (auto simp: page_aligned_def a_def b_def)
    have "unat pt < 2 ^ 32" using unsigned_less[of pt] by simp
    then have "b < 2 ^ 20" using ab(2) by simp
    have "a = b"
    proof (cases "unat pt \<le> unat (x + of_nat i)")
      case True
      then have "unat (x + of_nat i) - unat pt < 4096" using \<open>unat (x + of_nat i - pt) < 4096\<close> by (simp add: unat_sub_if')
      then show ?thesis using True page[OF i] ab i assms(3) by simp
    next
      case False
      then have "unat (x + of_nat i) + 2 ^ 32 - unat pt < 4096" using \<open>unat (x + of_nat i - pt) < 4096\<close> by (simp add: unat_sub_if')
      then show ?thesis using page[OF i] ab \<open>b < 2 ^ 20\<close> by simp
    qed
    then show "q = pt" using ab by (simp add: word_unat_eq_iff)
  next
    assume "q = pt"
    then have "unat (x + of_nat i - pt) = 4 * l + i" using page[OF i] by (simp add: unat_sub_if')
    then show "unat (x + of_nat i - pt) < 4096" using i assms(3) by simp
  qed
  show ?thesis using in_page[of 0] in_page[of 1] in_page[of 2] in_page[of 3]
    by (simp add: load_def word_at_def m flip: x_def)
qed

text \<open>An address in the pages of a pool.\<close>

definition in_range :: "pool \<Rightarrow> u32 \<Rightarrow> bool" where
  "in_range p x \<longleftrightarrow> first_page p \<le> unat x div 4096 \<and> unat x div 4096 < first_page p + page_total p"

lemma palloc_get_other:
  assumes "palloc_get_multiple flags n s = Some (pages, s')"
  shows "pool_of (flags AND PAL_USER = 0) s' = pool_of (flags AND PAL_USER = 0) s"
  using assms
  by (auto simp: palloc_get_multiple_def Let_def panic_simps split: if_splits prod.splits)

definition kernel_full :: "palloc \<Rightarrow> bool" where
  "kernel_full p \<longleftrightarrow> (\<forall>i < page_total (kernel_pool p). bits_of (used_map (kernel_pool p)) ! i)"

lemma get_kernel_page:
  assumes ok: "palloc_ok r" "0xc0000 \<le> first_page (kernel_pool r)" and fl: "flags AND PAL_USER = 0" "flags AND PAL_ASSERT = 0"
  shows "palloc_get_page flags r = Some (0, r) \<and> kernel_full r \<or>
    (\<exists>pt p. palloc_get_page flags r = Some (pt, p) \<and> pt \<noteq> 0 \<and> page_aligned pt \<and> PHYS_BASE \<le> pt \<and> palloc_ok p \<and>
      first_page (kernel_pool p) = first_page (kernel_pool r) \<and> unat pt div 4096 \<notin> used_pages r \<and>
      same_pools r p \<and> user_pool p = user_pool r \<and> in_range (kernel_pool r) pt \<and>
      used_pages p = insert (unat pt div 4096) (used_pages r) \<and>
      (\<forall>x. page_mem p x = (if flags AND PAL_ZERO \<noteq> 0 \<and> unat (x - pt) < 4096 then 0 else page_mem r x)))"
proof -
  have u: "False = (flags AND PAL_USER \<noteq> 0)" using fl(1) by simp
  note eq = palloc_get_multiple_eq[OF ok(1) one_neq_zero u refl]
  show ?thesis
  proof (cases "first_run (bits_of (used_map (pool_of False r))) 0 (unat (1 :: u32)) False")
    case None
    have "bits_of (used_map (kernel_pool r)) ! i" if i: "i < page_total (kernel_pool r)" for i
    proof -
      obtain n where "i \<le> n" "n < Suc i" "bits_of (used_map (kernel_pool r)) ! n"
        using first_run_None[OF None, of i] i by (auto simp: run_at_def pool_of_def)
      moreover from this have "n = i" by simp
      ultimately show ?thesis by simp
    qed
    then have "kernel_full r" by (simp add: kernel_full_def)
    then show ?thesis using None eq fl by (simp add: palloc_get_page_def)
  next
    case (Some n)
    then obtain pt p where g: "palloc_get_multiple flags 1 r = Some (pt, p)"
      "unat pt = unat (base (pool_of False r)) + 4096 * n" "palloc_ok p" "same_pools r p" "valid_run r (pt, 1)"
      "run_pages (pt, 1) \<inter> used_pages r = {}" "used_pages p = used_pages r \<union> run_pages (pt, 1)"
      "\<forall>x. page_mem p x = (if flags AND PAL_ZERO \<noteq> 0 \<and> unat (x - pt) < 4096 * unat (1 :: u32) then 0 else page_mem r x)"
      using eq by auto
    have v: "pt \<noteq> 0" "pg_ofs pt = 0" using g(5) by (simp_all add: valid_run_def)
    have al: "page_aligned pt" using v(2) unat_pg_ofs[of pt] by (simp add: page_aligned_def)
    have "unat (base (kernel_pool r)) div 4096 * 4096 \<le> unat (base (kernel_pool r))" by simp
    then have "0xc0000000 \<le> unat pt" using ok(2) g(2) by (simp add: pool_of_def)
    then have kb: "PHYS_BASE \<le> pt" by (simp add: word_le_nat_alt unat_PHYS_BASE)
    have rp: "run_pages (pt, 1) = {unat pt div 4096}" by (auto simp: run_pages_def)
    have "base (pool_of False p) = base (pool_of False r)" using g(4) by (simp add: same_pools_def)
    then have "first_page (kernel_pool p) = first_page (kernel_pool r)" by (simp add: pool_of_def)
    moreover have "user_pool p = user_pool r" using palloc_get_other[OF g(1)] fl(1) by (simp add: pool_of_def)
    moreover have "in_range (kernel_pool r) pt"
    proof -
      have "n < page_total (kernel_pool r)" using first_run_Some(2)[OF Some] by (simp add: run_at_def pool_of_def)
      moreover have "unat pt div 4096 = first_page (kernel_pool r) + n" using g(2) by (simp add: pool_of_def)
      ultimately show ?thesis by (simp add: in_range_def)
    qed
    ultimately show ?thesis using g(1,3,4,6,7,8) v al kb unfolding rp by (intro disjI2 exI[of _ pt] exI[of _ p]) (simp add: palloc_get_page_def)
  qed
qed

lemma get_table_page:
  assumes ok: "pd_ok pd s"
  shows "palloc_get_page PAL_ZERO (ram s) = Some (0, ram s) \<and> kernel_full (ram s) \<or>
    (\<exists>pt p. palloc_get_page PAL_ZERO (ram s) = Some (pt, p) \<and> pt \<noteq> 0 \<and> page_aligned pt \<and> PHYS_BASE \<le> pt \<and> palloc_ok p \<and>
      first_page (kernel_pool p) = first_page (kernel_pool (ram s)) \<and> unat pt div 4096 \<notin> used_pages (ram s) \<and>
      same_pools (ram s) p \<and> user_pool p = user_pool (ram s) \<and> in_range (kernel_pool (ram s)) pt \<and>
      used_pages p = insert (unat pt div 4096) (used_pages (ram s)) \<and>
      (\<forall>x. page_mem p x = (if unat (x - pt) < 4096 then 0 else page_mem (ram s) x)))"
  using get_kernel_page[OF pd_okD(1,2)[OF ok], of PAL_ZERO] by (simp add: PAL_ZERO_def PAL_USER_def PAL_ASSERT_def)

lemma aligned_eq: "page_aligned p \<Longrightarrow> page_aligned q \<Longrightarrow> unat p div 4096 = unat q div 4096 \<Longrightarrow> p = q"
  using div_mult_mod_eq[of "unat p" 4096] div_mult_mod_eq[of "unat q" 4096] by (simp add: page_aligned_def word_unat_eq_iff)

definition table_pages :: "mmu \<Rightarrow> u32 \<Rightarrow> nat set" where
  "table_pages s pd = (\<lambda>k. unat (frame (pde_of s pd k)) div 4096) ` {k. k < 768 \<and> pde_of s pd k \<noteq> 0}"

text \<open>What adding a page table changes: pages of the kernel pool, and entries that were empty.\<close>

definition tables_grown :: "u32 \<Rightarrow> mmu \<Rightarrow> mmu \<Rightarrow> bool" where
  "tables_grown pd s s' \<longleftrightarrow> same_pools (ram s) (ram s') \<and> user_pool (ram s') = user_pool (ram s) \<and> init_page_dir s' = init_page_dir s \<and>
     init_ram_pages s' = init_ram_pages s \<and> cr3 s' = cr3 s \<and> used_pages (ram s) \<subseteq> used_pages (ram s') \<and>
     (\<forall>x. \<not> in_range (kernel_pool (ram s)) x \<longrightarrow> page_mem (ram s') x = page_mem (ram s) x) \<and>
     (\<forall>k < 768. pde_of s' pd k = pde_of s pd k \<or> in_range (kernel_pool (ram s)) (frame (pde_of s' pd k))) \<and>
     (\<forall>k < 768. pde_of s pd k \<noteq> 0 \<longrightarrow> pde_of s' pd k = pde_of s pd k) \<and>
     used_pages (ram s') \<subseteq> used_pages (ram s) \<union> table_pages s' pd \<and> table_pages s' pd \<inter> used_pages (ram s) \<subseteq> table_pages s pd"

lemma same_page_range: "unat x div 4096 = unat y div 4096 \<Longrightarrow> in_range p x = in_range p y"
  by (simp add: in_range_def)

lemma in_page: "page_aligned q \<Longrightarrow> unat (x - q) < 4096 \<Longrightarrow> unat x div 4096 = unat q div 4096"
proof -
  assume a: "page_aligned q" "unat (x - q) < 4096"
  define d where "d = x - q"
  define k where "k = unat q div 4096"
  have k: "unat q = 4096 * k" using a(1) by (auto simp: page_aligned_def k_def)
  have "unat q < 2 ^ 32" using unat_bound[of q] by simp
  then have "k < 2 ^ 20" by (simp add: k_def div_less_iff_less_mult)
  then have "unat q + unat d < 2 ^ 32" using k a(2) by (simp add: d_def)
  then have "unat (q + d) = unat q + unat d" using unat_add_lem[of q d] by simp
  then show ?thesis using a(2) k by (simp add: d_def)
qed

lemma in_slot:
  assumes "page_aligned q" "k < 1024" "unat (x - slot q k) < 4" shows "unat x div 4096 = unat q div 4096"
proof -
  define d where "d = x - slot q k"
  have "unat (4 * of_nat k + d) = 4 * k + unat d"
  proof -
    have "unat (4 * of_nat k :: u32) = 4 * k" using assms(2) by (simp add: unat_word_ariths unat_of_nat)
    moreover have "4 * k + unat d < 2 ^ 32" using assms(2,3) by (simp add: d_def)
    ultimately show ?thesis using unat_add_lem[of "4 * of_nat k" d] by simp
  qed
  moreover have "x - q = 4 * of_nat k + d" by (simp add: d_def slot_def)
  ultimately have "unat (x - q) = 4 * k + unat d" by (simp only:)
  then have "unat (x - q) < 4096" using assms(2,3) by (simp add: d_def[symmetric])
  then show ?thesis by (rule in_page[OF assms(1)])
qed

lemma tables_grown_refl: "tables_grown pd s s"
  by (simp add: tables_grown_def same_pools_def)

lemma tables_grown_store:
  assumes "page_aligned q" "in_range (kernel_pool (ram s)) q"
    and "\<And>k. k < 768 \<Longrightarrow> pde_of (store (slot q l) e s) pd k = pde_of s pd k" and "l < 1024"
  shows "tables_grown pd s (store (slot q l) e s)"
proof -
  have "page_mem (ram (store (slot q l) e s)) x = page_mem (ram s) x" if x: "\<not> in_range (kernel_pool (ram s)) x" for x
  proof -
    have "\<not> unat (x - slot q l) < 4"
    proof
      assume "unat (x - slot q l) < 4"
      then show False using in_slot[OF assms(1,4)] x assms(2) same_page_range by blast
    qed
    then show ?thesis by (simp add: store_def write_bytes_def)
  qed
  moreover have "table_pages (store (slot q l) e s) pd = table_pages s pd" using assms(3) by (auto simp: table_pages_def)
  ultimately show ?thesis using assms(3) by (simp add: tables_grown_def) (simp add: store_def same_pools_def pool_of_def)
qed

lemma table_pages_mono:
  assumes "\<And>k. k < 768 \<Longrightarrow> pde_of s pd k \<noteq> 0 \<Longrightarrow> pde_of t pd k = pde_of s pd k" shows "table_pages s pd \<subseteq> table_pages t pd"
proof
  fix x assume "x \<in> table_pages s pd"
  then obtain k where k: "k < 768" "pde_of s pd k \<noteq> 0" "x = unat (frame (pde_of s pd k)) div 4096" by (auto simp: table_pages_def)
  then show "x \<in> table_pages t pd" using assms[OF k(1,2)] unfolding table_pages_def by (intro image_eqI[of _ _ k]) simp_all
qed

lemma tables_grown_trans:
  assumes "tables_grown pd s t" "tables_grown pd t u" shows "tables_grown pd s u"
proof -
  have sp: "same_pools (ram s) (ram t)" using assms(1) by (simp add: tables_grown_def)
  then have "base (pool_of False (ram t)) = base (pool_of False (ram s))"
    "bit_cnt (used_map (pool_of False (ram t))) = bit_cnt (used_map (pool_of False (ram s)))" unfolding same_pools_def by blast+
  then have r: "in_range (kernel_pool (ram t)) x = in_range (kernel_pool (ram s)) x" for x by (simp add: in_range_def pool_of_def)
  have "pde_of u pd k = pde_of s pd k \<or> in_range (kernel_pool (ram s)) (frame (pde_of u pd k))" if "k < 768" for k
    using assms that unfolding tables_grown_def r by metis
  moreover have same: "pde_of t pd k = pde_of s pd k" "pde_of u pd k = pde_of s pd k" if "k < 768" "pde_of s pd k \<noteq> 0" for k
    using assms that unfolding tables_grown_def by metis+
  moreover have "table_pages t pd \<subseteq> table_pages u pd"
    using assms(2) unfolding tables_grown_def by (intro table_pages_mono) blast
  then have "used_pages (ram u) \<subseteq> used_pages (ram s) \<union> table_pages u pd" using assms unfolding tables_grown_def by blast
  moreover have "table_pages u pd \<inter> used_pages (ram s) \<subseteq> table_pages s pd" using assms unfolding tables_grown_def by blast
  moreover have "same_pools (ram s) (ram u)" using assms sp by (simp add: tables_grown_def same_pools_def)
  ultimately show ?thesis using assms unfolding tables_grown_def r by auto
qed

lemma lookup_page_create:
  assumes ok: "pd_ok pd s" and va: "is_user_vaddr va" and no: "pde_of s pd (unat (pd_no va)) = 0"
  shows "lookup_page pd va True s = Some (0, s) \<and> kernel_full (ram s) \<or>
    (\<exists>s'. lookup_page pd va True s = Some (slot (frame (pde_of s' pd (unat (pd_no va)))) (unat (pt_no va)), s') \<and>
      pd_ok pd s' \<and> pde_of s' pd (unat (pd_no va)) \<noteq> 0 \<and> (in_range (kernel_pool (ram s)) pd \<longrightarrow> tables_grown pd s s') \<and>
      (\<forall>vb. is_user_vaddr vb \<longrightarrow> pte_of s' pd vb = pte_of s pd vb))"
proof -
  note d = pd_okD[OF ok]
  define j where "j = unat (pd_no va)"
  have j: "j < 768" using indices(2)[OF va] by (simp add: j_def)
  have pd: "pd \<noteq> 0" "page_aligned pd" using d(4) by (auto simp: table_page_def PHYS_BASE_def)
  have s0: "load (pd + 4 * pd_no va) s = 0" using no by (simp add: pde_of_def slot_index)
  from get_table_page[OF ok] show ?thesis
  proof (elim disjE exE conjE)
    assume "palloc_get_page PAL_ZERO (ram s) = Some (0, ram s)" "kernel_full (ram s)"
    then show ?thesis using pd va s0 by (simp add: lookup_page_def Let_def)
  next
    fix pt p assume p: "palloc_get_page PAL_ZERO (ram s) = Some (pt, p)" "pt \<noteq> 0" "page_aligned pt" "PHYS_BASE \<le> pt" "palloc_ok p"
      "first_page (kernel_pool p) = first_page (kernel_pool (ram s))" "unat pt div 4096 \<notin> used_pages (ram s)"
      and grow: "same_pools (ram s) p" "user_pool p = user_pool (ram s)" "in_range (kernel_pool (ram s)) pt"
      and p': "used_pages p = insert (unat pt div 4096) (used_pages (ram s))"
      "\<forall>x. page_mem p x = (if unat (x - pt) < 4096 then 0 else page_mem (ram s) x)"
    obtain e where e: "pde_create pt = Some e" "frame e = pt" "e AND PTE_P \<noteq> 0" "e AND PTE_ADDR < PHYS_BASE" "e \<noteq> 0"
      using pde_create_eq[OF p(3,4)] by metis
    define s1 where "s1 = s\<lparr>ram := p\<rparr>"
    define s2 where "s2 = store (slot pd j) e s1"
    have old: "q \<noteq> pt" if "table_page s q" for q using that p(7) by (auto simp: table_page_def)
    have l1: "load (slot q l) s1 = (if q = pt then 0 else load (slot q l) s)" if "page_aligned q" "l < 1024" for q l
      unfolding s1_def by (rule load_new_page[OF that(1) p(3) that(2)]) (use p'(2) in blast)
    have l2: "load (slot q l) s2 = (if pd = q \<and> j = l then e else load (slot q l) s1)" if "page_aligned q" "l < 1024" for q l
      unfolding s2_def using load_store[OF pd(2) that(1) _ that(2), of j] j by simp
    have pde: "pde_of s2 pd k = (if k = j then e else pde_of s pd k)" if "k < 768" for k
      using l1[OF pd(2)] l2[OF pd(2)] old[OF d(4)] that by (simp add: pde_of_def)
    have tab: "load (slot (frame (pde_of s pd k)) l) s2 = load (slot (frame (pde_of s pd k)) l) s"
      if "k < 768" "l < 1024" "pde_of s pd k \<noteq> 0" for k l
      using d(5)[OF that(1,3)] l1[of "frame (pde_of s pd k)" l] l2[of "frame (pde_of s pd k)" l] old that(2) by (auto simp: table_page_def)
    have new: "load (slot pt l) s2 = 0" if "l < 1024" for l
      using l1[OF p(3) that] l2[OF p(3) that] old[OF d(4)] by auto
    have tp: "table_page s2 q \<longleftrightarrow> table_page s q \<or> q = pt" for q
    proof -
      have "used_pages (ram s2) = insert (unat pt div 4096) (used_pages (ram s))" using p'(1) by (simp add: s2_def s1_def)
      then show ?thesis using p(3,4) aligned_eq[OF _ p(3), of q] by (auto simp: table_page_def)
    qed
    have fn: "frame (pde_of s pd k) \<noteq> pt" if "k < 768" "pde_of s pd k \<noteq> 0" for k using d(5)[OF that] old by blast
    have fields: "palloc_ok (ram s2)" "0xc0000 \<le> first_page (kernel_pool (ram s2))" "cr3 s2 < PHYS_BASE" "table_page s2 pd"
      using p(5,6) d(2,3,4) tp by (simp_all add: s2_def s1_def)
    have each: "pde_of s2 pd k AND PTE_P \<noteq> 0 \<and> pde_of s2 pd k AND PTE_ADDR < PHYS_BASE \<and> table_page s2 (frame (pde_of s2 pd k)) \<and>
        frame (pde_of s2 pd k) \<noteq> pd \<and> (\<forall>l < 1024. load (slot (frame (pde_of s2 pd k)) l) s2 AND PTE_P \<noteq> 0 \<longrightarrow>
          load (slot (frame (pde_of s2 pd k)) l) s2 AND PTE_ADDR < PHYS_BASE)" if k: "k < 768" "pde_of s2 pd k \<noteq> 0" for k
    proof (cases "k = j")
      case True
      then show ?thesis using e pde[OF k(1)] tp new old[OF d(4)] by auto
    next
      case False
      then show ?thesis using k pde[OF k(1)] d(5,6)[OF k(1)] tp tab[OF k(1)] by simp
    qed
    have one: "k = l" if "k < 768" "l < 768" "pde_of s2 pd k \<noteq> 0" "pde_of s2 pd l \<noteq> 0" "frame (pde_of s2 pd k) = frame (pde_of s2 pd l)" for k l
    proof -
      have "frame (pde_of s2 pd m) = pt \<longleftrightarrow> m = j" if "m < 768" "pde_of s2 pd m \<noteq> 0" for m
        using pde[OF that(1)] that(2) fn[OF that(1)] e(2) by (cases "m = j") simp_all
      then have "k = j \<longleftrightarrow> l = j" using that by metis
      then show ?thesis using that pde[OF that(1)] pde[OF that(2)] d(7)[OF that(1,2)] by (cases "k = j") simp_all
    qed
    have ok2: "pd_ok pd s2" by (rule pd_okI[OF fields each one])
    have "tables_grown pd s s2" if pr: "in_range (kernel_pool (ram s)) pd"
    proof -
      have "page_mem (ram s2) x = page_mem (ram s) x" if x: "\<not> in_range (kernel_pool (ram s)) x" for x
      proof -
        have "j < 1024" using j by simp
        then have "\<not> unat (x - slot pd j) < 4" using in_slot[OF pd(2), of j x] x pr same_page_range by metis
        moreover have "\<not> unat (x - pt) < 4096" using in_page[OF p(3), of x] x grow(3) same_page_range by blast
        ultimately show ?thesis using p'(2) by (simp add: s2_def s1_def store_def write_bytes_def)
      qed
      moreover have "pde_of s2 pd k = pde_of s pd k \<or> in_range (kernel_pool (ram s)) (frame (pde_of s2 pd k))" if "k < 768" for k
        using pde[OF that] e(2) grow(3) by simp
      moreover have "pde_of s2 pd k = pde_of s pd k" if "k < 768" "pde_of s pd k \<noteq> 0" for k
        using pde[OF that(1)] that(2) no by (cases "k = j") (simp_all add: j_def)
      moreover have "unat pt div 4096 \<in> table_pages s2 pd" using pde[OF j] e(2,5) j unfolding table_pages_def by (intro image_eqI[of _ _ j]) simp_all
      moreover have "table_pages s2 pd \<inter> used_pages (ram s) \<subseteq> table_pages s pd"
      proof
        fix x assume x: "x \<in> table_pages s2 pd \<inter> used_pages (ram s)"
        then obtain k where k: "k < 768" "pde_of s2 pd k \<noteq> 0" "x = unat (frame (pde_of s2 pd k)) div 4096" by (auto simp: table_pages_def)
        have "k \<noteq> j" using x k(3) pde[OF k(1)] e(2) p(7) by auto
        then show "x \<in> table_pages s pd" using k pde[OF k(1)] unfolding table_pages_def by (intro image_eqI[of _ _ k]) simp_all
      qed
      moreover have "same_pools (ram s) (ram s2)" using grow(1) by (simp add: s2_def s1_def store_def same_pools_def)
      ultimately show ?thesis using grow(2) p'(1) by (simp add: tables_grown_def) (auto simp: s2_def s1_def store_def)
    qed
    moreover have "pte_of s2 pd vb = pte_of s pd vb" if vb: "is_user_vaddr vb" for vb
    proof -
      define k where "k = unat (pd_no vb)"
      have k: "k < 768" using indices(2)[OF vb] by (simp add: k_def)
      show ?thesis
      proof (cases "k = j")
        case True
        then show ?thesis using pde[OF k] e no new[OF indices(1)] by (simp add: pte_of_def j_def flip: k_def)
      next
        case False
        then show ?thesis using pde[OF k] tab[OF k indices(1)] by (simp add: pte_of_def flip: k_def)
      qed
    qed
    moreover have "lookup_page pd va True s = Some (slot (frame e) (unat (pt_no va)), s2)"
    proof -
      have "load (pd + 4 * pd_no va) s2 = e" using pde[OF j] by (simp add: pde_of_def j_def slot_index)
      moreover have "store (pd + 4 * pd_no va) e s1 = s2" by (simp add: s2_def j_def slot_index)
      ultimately show ?thesis using pd va s0 p(1,2) e pde_get_pt_eq[OF e(3,4)]
        by (simp add: lookup_page_def Let_def slot_index flip: s1_def)
    qed
    ultimately show ?thesis using ok2 pde[OF j] e(5) by (simp add: j_def)
  qed
qed

section \<open>The operations on the map\<close>

lemma load_pte:
  assumes "is_user_vaddr va" "pde_of s pd (unat (pd_no va)) \<noteq> 0"
  shows "load (slot (frame (pde_of s pd (unat (pd_no va)))) (unat (pt_no va))) s = pte_of s pd va"
  using assms by (simp add: pte_of_def)

lemma user_map_put:
  assumes "pd_ok pd s" "is_user_vaddr va" "pde_of s pd (unat (pd_no va)) \<noteq> 0" "x AND PTE_P \<noteq> 0 \<Longrightarrow> x AND PTE_ADDR < PHYS_BASE"
  shows "user_map (store (slot (frame (pde_of s pd (unat (pd_no va)))) (unat (pt_no va))) x s) pd vb =
    (if is_user_vaddr vb \<and> pg_no vb = pg_no va then if x AND PTE_P \<noteq> 0 then Some (frame x, x AND PTE_W \<noteq> 0) else None
     else user_map s pd vb)"
  using put_pte(2)[OF assms(1,2) refl assms(3,4)] by (auto simp: user_map_def split: if_split_asm)

lemma pagedir_get_page_eq:
  assumes ok: "pd_ok pd s" and va: "is_user_vaddr va"
  shows "pagedir_get_page pd va s = Some (case user_map s pd va of None \<Rightarrow> 0 | Some (k, _) \<Rightarrow> k + pg_ofs va)"
proof (cases "pde_of s pd (unat (pd_no va)) = 0")
  case True
  then show ?thesis using lookup_page_eq(1)[OF ok va, of False] va by (simp add: pagedir_get_page_def user_map_def pte_of_def)
next
  case False
  have "pte_of s pd va AND PTE_P \<noteq> 0 \<Longrightarrow> pte_of s pd va AND PTE_ADDR < PHYS_BASE"
    using pd_okD(6)[OF ok indices(2)[OF va] False indices(1)[of va]] load_pte[OF va False] by simp
  then have "pte_of s pd va AND PTE_P \<noteq> 0 \<Longrightarrow> pte_get_page (pte_of s pd va) = Some (frame (pte_of s pd va))"
    by (simp add: pte_get_page_def ptov_def frame_def)
  then show ?thesis using lookup_page_eq[OF ok va, of False] False va load_pte[OF va False]
    by (simp add: pagedir_get_page_def user_map_def)
qed

lemma set_found:
  assumes ok: "pd_ok pd s" and va: "is_user_vaddr va" and e: "pde_of s pd (unat (pd_no va)) \<noteq> 0"
    and k: "page_aligned kpage" "PHYS_BASE \<le> kpage"
  shows "\<exists>s'. Option.bind (pte_create_user kpage w) (\<lambda>x. Some (True, store (slot (frame (pde_of s pd (unat (pd_no va)))) (unat (pt_no va))) x s)) =
      Some (True, s') \<and> pd_ok pd s' \<and>
      (\<forall>vb. user_map s' pd vb = (if is_user_vaddr vb \<and> pg_no vb = pg_no va then Some (kpage, w) else user_map s pd vb))"
proof -
  obtain x where x: "pte_create_user kpage w = Some x" "frame x = kpage" "x AND PTE_P \<noteq> 0" "x AND PTE_ADDR < PHYS_BASE" "x AND PTE_W \<noteq> 0 \<longleftrightarrow> w"
    using pte_create_eq[OF k] by metis
  show ?thesis using put_pte(1)[OF ok va refl e x(4)] user_map_put[OF ok va e x(4)] x by simp
qed

lemma pagedir_set_page_eq:
  assumes ok: "pd_ok pd s" and va: "is_user_vaddr va" "pg_ofs va = 0" and k: "page_aligned kpage" "PHYS_BASE \<le> kpage"
    and r: "drop_bit PTSHIFT (kpage - PHYS_BASE) < init_ram_pages s" "pd \<noteq> init_page_dir s"
  shows "if user_map s pd va = None
    then \<exists>done s'. pagedir_set_page pd va kpage w s = Some (done, s') \<and> pd_ok pd s' \<and> (done \<or> kernel_full (ram s)) \<and>
      (\<forall>vb. user_map s' pd vb = (if done \<and> is_user_vaddr vb \<and> pg_no vb = pg_no va then Some (kpage, w) else user_map s pd vb))
    else pagedir_set_page pd va kpage w s = None"
proof -
  note kp = kernel_page[OF k]
  have set: "pagedir_set_page pd va kpage w s = Option.bind (lookup_page pd va True s) (\<lambda>(pte, s).
      if pte \<noteq> 0 then
        if load pte s AND PTE_P = 0 then Option.bind (pte_create_user kpage w) (\<lambda>e. Some (True, store pte e s)) else None
      else Some (False, s))"
    using va r kp by (simp add: pagedir_set_page_def)
  show ?thesis
  proof (cases "pde_of s pd (unat (pd_no va)) = 0")
    case False
    note l = lookup_page_eq[OF ok va(1), of True]
    have "user_map s pd va = None \<longleftrightarrow> pte_of s pd va AND PTE_P = 0" using va(1) by (simp add: user_map_def)
    then have m: "user_map s pd va = None \<longleftrightarrow> load (slot (frame (pde_of s pd (unat (pd_no va)))) (unat (pt_no va))) s AND PTE_P = 0"
      using load_pte[OF va(1) False] by simp
    obtain s' where s': "Option.bind (pte_create_user kpage w)
          (\<lambda>x. Some (True, store (slot (frame (pde_of s pd (unat (pd_no va)))) (unat (pt_no va))) x s)) = Some (True, s')"
        "pd_ok pd s'" "\<forall>vb. user_map s' pd vb = (if is_user_vaddr vb \<and> pg_no vb = pg_no va then Some (kpage, w) else user_map s pd vb)"
      using set_found[OF ok va(1) False k, of w] by blast
    show ?thesis
    proof (cases "user_map s pd va = None")
      case True
      then have "pagedir_set_page pd va kpage w s = Some (True, s')" using False l s'(1) m unfolding set by simp
      then show ?thesis using True s'(2,3) by (simp only: if_True simp_thms) (intro exI[of _ True] exI[of _ s'], simp)
    qed (use False l m in \<open>simp add: set\<close>)
  next
    case True
    then have none: "user_map s pd va = None" by (simp add: user_map_def pte_of_def)
    from lookup_page_create[OF ok va(1) True] show ?thesis
    proof (elim disjE exE conjE)
      assume "lookup_page pd va True s = Some (0, s)" "kernel_full (ram s)"
      then have "pagedir_set_page pd va kpage w s = Some (False, s)" unfolding set by simp
      then show ?thesis using none ok \<open>kernel_full (ram s)\<close> by (simp only: if_True simp_thms) (intro exI[of _ False] exI[of _ s], simp)
    next
      fix s1 assume s1: "lookup_page pd va True s = Some (slot (frame (pde_of s1 pd (unat (pd_no va)))) (unat (pt_no va)), s1)"
        "pd_ok pd s1" "pde_of s1 pd (unat (pd_no va)) \<noteq> 0" "\<forall>vb. is_user_vaddr vb \<longrightarrow> pte_of s1 pd vb = pte_of s pd vb"
      have um: "user_map s1 pd = user_map s pd" using s1(4) by (auto simp: user_map_def fun_eq_iff)
      have "load (slot (frame (pde_of s1 pd (unat (pd_no va)))) (unat (pt_no va))) s1 = 0"
        using load_pte[OF va(1) s1(3)] s1(4) va(1) True by (simp add: pte_of_def)
      moreover have "slot (frame (pde_of s1 pd (unat (pd_no va)))) (unat (pt_no va)) \<noteq> 0"
        using lookup_page_eq(2)[OF s1(2) va(1) _ s1(3), of False] by simp
      moreover obtain s' where s': "Option.bind (pte_create_user kpage w)
          (\<lambda>x. Some (True, store (slot (frame (pde_of s1 pd (unat (pd_no va)))) (unat (pt_no va))) x s1)) = Some (True, s')"
        "pd_ok pd s'" "\<forall>vb. user_map s' pd vb = (if is_user_vaddr vb \<and> pg_no vb = pg_no va then Some (kpage, w) else user_map s1 pd vb)"
        using set_found[OF s1(2) va(1) s1(3) k, of w] by blast
      ultimately have "pagedir_set_page pd va kpage w s = Some (True, s')" using s1(1) unfolding set by simp
      then show ?thesis using none s'(2,3) um by (simp only: if_True simp_thms) (intro exI[of _ True] exI[of _ s'], simp)
    qed
  qed
qed

lemma invalidate_eq:
  assumes ok: "pd_ok pd s"
  shows "\<exists>s'. invalidate_pagedir pd s = Some s' \<and> pd_ok pd s' \<and> user_map s' pd = user_map s pd"
proof -
  note d = pd_okD[OF ok]
  have v: "vtop pd = Some (pd - PHYS_BASE)" "pd - PHYS_BASE < PHYS_BASE" "pd \<noteq> 0"
    using kernel_page[of pd] d(4) by (auto simp: table_page_def PHYS_BASE_def)
  have same: "pd_ok pd (s\<lparr>cr3 := x\<rparr>)" "user_map (s\<lparr>cr3 := x\<rparr>) pd = user_map s pd" if "x < PHYS_BASE" for x
  proof -
    have l: "load a (s\<lparr>cr3 := x\<rparr>) = load a s" for a by (simp add: load_def)
    then have p: "pde_of (s\<lparr>cr3 := x\<rparr>) pd = pde_of s pd" "table_page (s\<lparr>cr3 := x\<rparr>) = table_page s"
      by (simp_all add: pde_of_def table_page_def fun_eq_iff)
    show "pd_ok pd (s\<lparr>cr3 := x\<rparr>)" using ok that unfolding pd_ok_def p l by simp
    show "user_map (s\<lparr>cr3 := x\<rparr>) pd = user_map s pd" by (simp add: user_map_def pte_of_def p l fun_eq_iff)
  qed
  show ?thesis using d(3) v ok same[OF v(2)] by (simp add: invalidate_pagedir_def active_pd_def ptov_def pagedir_activate_def Let_def)
qed

lemma pagedir_clear_page_eq:
  assumes ok: "pd_ok pd s" and va: "is_user_vaddr va" "pg_ofs va = 0"
  shows "\<exists>s'. pagedir_clear_page pd va s = Some s' \<and> pd_ok pd s' \<and>
    (\<forall>vb. user_map s' pd vb = (if pg_no vb = pg_no va then None else user_map s pd vb))"
proof -
  have page: "is_user_vaddr vb" if "pg_no vb = pg_no va" for vb
  proof -
    have "unat vb div 4096 = unat va div 4096" using that by (simp add: word_unat_eq_iff unat_pg_no)
    moreover have "unat va div 4096 < 0xc0000"
      using va(1) by (simp add: is_user_vaddr_def word_less_nat_alt unat_PHYS_BASE div_less_iff_less_mult)
    ultimately have "unat vb div 4096 < 0xc0000" by simp
    then show ?thesis by (simp add: is_user_vaddr_def word_less_nat_alt unat_PHYS_BASE div_less_iff_less_mult)
  qed
  have same: "user_map s pd vb = None" if "pte_of s pd va AND PTE_P = 0" "pg_no vb = pg_no va" for vb
  proof -
    have "unat (pd_no vb) = unat (pd_no va)" "unat (pt_no vb) = unat (pt_no va)" using that(2) same_page by blast+
    then have "pte_of s pd vb = pte_of s pd va" by (simp add: pte_of_def)
    then show ?thesis using that(1) by (simp add: user_map_def)
  qed
  show ?thesis
  proof (cases "pde_of s pd (unat (pd_no va)) \<noteq> 0 \<and> pte_of s pd va AND PTE_P \<noteq> 0")
    case False
    then have p0: "pte_of s pd va AND PTE_P = 0" by (auto simp: pte_of_def)
    have "pagedir_clear_page pd va s = Some s"
      using lookup_page_eq[OF ok va(1), of False] va False load_pte[OF va(1)] by (auto simp: pagedir_clear_page_def)
    then show ?thesis using ok same[OF p0] by auto
  next
    case True
    define x where "x = pte_of s pd va AND NOT PTE_P"
    define s1 where "s1 = store (slot (frame (pde_of s pd (unat (pd_no va)))) (unat (pt_no va))) x s"
    have x: "x AND PTE_P = 0" by (simp add: x_def and.assoc)
    have ok1: "pd_ok pd s1" "user_map s1 pd vb = (if is_user_vaddr vb \<and> pg_no vb = pg_no va then None else user_map s pd vb)" for vb
      using put_pte(1)[OF ok va(1) refl, of x] user_map_put[OF ok va(1), of x] True x by (simp_all add: s1_def)
    have "pagedir_clear_page pd va s = invalidate_pagedir pd s1"
      using lookup_page_eq[OF ok va(1), of False] va True load_pte[OF va(1)] by (simp add: pagedir_clear_page_def s1_def x_def)
    then show ?thesis using invalidate_eq[OF ok1(1)] ok1(2) page by auto
  qed
qed

text \<open>C27. The user part of a page directory is a map from pages to frames. \<^verbatim>\<open>pagedir_get_page\<close> reads it at any user address;
  \<^verbatim>\<open>pagedir_set_page\<close> adds one page, making a page table if there is none, or, when the kernel pool is full, reports that there was no memory and changes
  nothing, and panics when the page is mapped already; \<^verbatim>\<open>pagedir_clear_page\<close> takes one page out. The other pages keep
  their frames.\<close>

theorem pagedir_refines_map:
  assumes "pd_ok pd s" "is_user_vaddr upage" "pg_ofs upage = 0" "is_user_vaddr ua"
    "page_aligned kpage" "PHYS_BASE \<le> kpage" "drop_bit PTSHIFT (kpage - PHYS_BASE) < init_ram_pages s" "pd \<noteq> init_page_dir s"
  shows "pagedir_get_page pd ua s = Some (case user_map s pd ua of None \<Rightarrow> 0 | Some (k, _) \<Rightarrow> k + pg_ofs ua) \<and>
    (if user_map s pd upage = None
     then \<exists>done s'. pagedir_set_page pd upage kpage w s = Some (done, s') \<and> pd_ok pd s' \<and> (done \<or> kernel_full (ram s)) \<and>
       (\<forall>va. user_map s' pd va = (if done \<and> is_user_vaddr va \<and> pg_no va = pg_no upage then Some (kpage, w) else user_map s pd va))
     else pagedir_set_page pd upage kpage w s = None) \<and>
    (\<exists>s'. pagedir_clear_page pd upage s = Some s' \<and> pd_ok pd s' \<and>
       (\<forall>va. user_map s' pd va = (if pg_no va = pg_no upage then None else user_map s pd va)))"
  using pagedir_get_page_eq[OF assms(1,4)] pagedir_set_page_eq[OF assms(1-3,5-8)] pagedir_clear_page_eq[OF assms(1-3)] by blast

text \<open>A page directory of zeros in the first page of the sample pools.\<close>

definition sample_mmu :: mmu where
  "sample_mmu = \<lparr>ram = sample_pools, cr3 = 0, init_page_dir = 0, init_ram_pages = 0x1000\<rparr>"

lemma sample_mmu_ok: "pd_ok 0xc0110000 sample_mmu"
proof -
  have z: "pde_of sample_mmu pd k = 0" for pd k
    by (simp add: pde_of_def load_def word_at_def sample_mmu_def sample_pools_def)
  have "bits_of (used_map (kernel_pool sample_pools)) ! 0" by (simp add: sample_pools_def sample_kernel_bits)
  then have "0xc0110 \<in> used_pages sample_pools" by (auto simp: used_pages_def pool_used_def sample_pools_def)
  then show ?thesis using sample_pools_ok unfolding pd_ok_def z
    by (simp add: table_page_def page_aligned_def PHYS_BASE_def sample_mmu_def) (simp add: sample_pools_def)
qed

theorem pagedir_refines_map_witness:
  "\<exists>s'. pagedir_set_page 0xc0110000 0x8048000 0xc0120000 True sample_mmu = Some (True, s') \<and>
    user_map s' 0xc0110000 0x8048000 = Some (0xc0120000, True)"
proof -
  have n: "user_map sample_mmu pd va = None" for pd va
    by (simp add: user_map_def pte_of_def pde_of_def load_def word_at_def sample_mmu_def sample_pools_def)
  have "\<not> bits_of (used_map (kernel_pool sample_pools)) ! 2" by (simp add: sample_pools_def sample_kernel_bits)
  then have "\<not> kernel_full (ram sample_mmu)" by (auto simp: kernel_full_def sample_mmu_def sample_pools_def intro!: exI[of _ 2])
  moreover have c: "is_user_vaddr 0x8048000" "pg_ofs 0x8048000 = 0" "page_aligned 0xc0120000" "PHYS_BASE \<le> 0xc0120000"
    "drop_bit PTSHIFT (0xc0120000 - PHYS_BASE) < init_ram_pages sample_mmu" "0xc0110000 \<noteq> init_page_dir sample_mmu"
    by (simp_all add: is_user_vaddr_def PHYS_BASE_def pg_ofs_def PGMASK_eq page_aligned_def PTSHIFT_def PGBITS_def drop_bit_eq_div sample_mmu_def)
  ultimately show ?thesis using pagedir_refines_map[OF sample_mmu_ok c(1,2,1,3-6), of True] c(1) unfolding n by auto
qed

end
