(* ===== verification/Address_Space.thy ===== *)
theory Address_Space
  imports Pagedir
begin

unbundle bit_operations_syntax

text \<open>
  The address space of a process: a page directory whose tables are pages of the kernel pool and whose frames are pages in use
  of the user pool, one frame for each user page. Getting and freeing other pages, and writing to frames, leave the map alone; adding a
  page leaves the contents of the frames alone; destroying the directory frees exactly its pages.
\<close>

section \<open>The invariant\<close>

definition frame_page :: "mmu \<Rightarrow> u32 \<Rightarrow> bool" where
  "frame_page s k \<longleftrightarrow> page_aligned k \<and> unat k div 4096 \<in> pool_used (user_pool (ram s))"

definition space_ok :: "u32 \<Rightarrow> mmu \<Rightarrow> bool" where
  "space_ok pd s \<longleftrightarrow> pd_ok pd s \<and> in_range (kernel_pool (ram s)) pd \<and>
     (\<forall>k < 768. pde_of s pd k \<noteq> 0 \<longrightarrow> in_range (kernel_pool (ram s)) (frame (pde_of s pd k))) \<and>
     (\<forall>va k w. user_map s pd va = Some (k, w) \<longrightarrow> frame_page s k) \<and>
     (\<forall>va vb k v w. user_map s pd va = Some (k, v) \<longrightarrow> user_map s pd vb = Some (k, w) \<longrightarrow> pg_no va = pg_no vb) \<and>
     pd \<noteq> init_page_dir s \<and> first_page (user_pool (ram s)) + page_total (user_pool (ram s)) \<le> 0xc0000 + unat (init_ram_pages s)"

lemma space_okD:
  assumes "space_ok pd s"
  shows "pd_ok pd s" "in_range (kernel_pool (ram s)) pd" "\<And>k. k < 768 \<Longrightarrow> pde_of s pd k \<noteq> 0 \<Longrightarrow> in_range (kernel_pool (ram s)) (frame (pde_of s pd k))"
    "\<And>va k w. user_map s pd va = Some (k, w) \<Longrightarrow> frame_page s k"
    "\<And>va vb k v w. user_map s pd va = Some (k, v) \<Longrightarrow> user_map s pd vb = Some (k, w) \<Longrightarrow> pg_no va = pg_no vb"
    "pd \<noteq> init_page_dir s" "first_page (user_pool (ram s)) + page_total (user_pool (ram s)) \<le> 0xc0000 + unat (init_ram_pages s)"
  using assms unfolding space_ok_def by blast+

lemma space_okI:
  assumes "pd_ok pd s" "in_range (kernel_pool (ram s)) pd" "\<And>k. k < 768 \<Longrightarrow> pde_of s pd k \<noteq> 0 \<Longrightarrow> in_range (kernel_pool (ram s)) (frame (pde_of s pd k))"
    "\<And>va k w. user_map s pd va = Some (k, w) \<Longrightarrow> frame_page s k"
    "\<And>va vb k v w. user_map s pd va = Some (k, v) \<Longrightarrow> user_map s pd vb = Some (k, w) \<Longrightarrow> pg_no va = pg_no vb"
    "pd \<noteq> init_page_dir s" "first_page (user_pool (ram s)) + page_total (user_pool (ram s)) \<le> 0xc0000 + unat (init_ram_pages s)"
  shows "space_ok pd s"
  using assms unfolding space_ok_def by blast

text \<open>The pools do not overlap.\<close>

lemma kernel_not_user:
  assumes "palloc_ok p" "in_range (kernel_pool p) x" shows "unat x div 4096 \<notin> pool_used (user_pool p)" "\<not> in_range (user_pool p) x"
  using assms pool_used_range[of "user_pool p"] by (auto simp: palloc_ok_def in_range_def)

lemma user_not_kernel:
  assumes "palloc_ok p" "unat x div 4096 \<in> pool_used (user_pool p)" shows "\<not> in_range (kernel_pool p) x" "in_range (user_pool p) x"
  using assms pool_used_range[of "user_pool p"] by (auto simp: palloc_ok_def in_range_def)

lemma kernel_used:
  assumes "palloc_ok p" "in_range (kernel_pool p) x" "unat x div 4096 \<in> used_pages p" shows "unat x div 4096 \<in> pool_used (kernel_pool p)"
  using assms kernel_not_user(1)[OF assms(1,2)] by (simp add: used_pages_def)

section \<open>Changes outside the tables\<close>

text \<open>\<open>r\<close> differs from the pages of \<open>s\<close> in the user pool only.\<close>

definition user_change :: "palloc \<Rightarrow> palloc \<Rightarrow> bool" where
  "user_change p r \<longleftrightarrow> palloc_ok r \<and> kernel_pool r = kernel_pool p \<and> base (user_pool r) = base (user_pool p) \<and>
     bit_cnt (used_map (user_pool r)) = bit_cnt (used_map (user_pool p)) \<and>
     (\<forall>x. in_range (kernel_pool p) x \<longrightarrow> page_mem r x = page_mem p x)"

lemma load_same:
  assumes "page_aligned q" "l < 1024" "in_range (kernel_pool p) q" "\<And>x. in_range (kernel_pool p) x \<Longrightarrow> m x = page_mem (ram s) x"
  shows "word_at m (slot q l) = load (slot q l) s"
proof -
  have "m (slot q l + of_nat i) = page_mem (ram s) (slot q l + of_nat i)" if "i < 4" for i
  proof -
    have "unat (slot q l + of_nat i - slot q l) < 4" using that by (simp add: unat_of_nat)
    then have "unat (slot q l + of_nat i) div 4096 = unat q div 4096" by (rule in_slot[OF assms(1,2)])
    then show ?thesis using assms(3,4) same_page_range by blast
  qed
  from this[of 0] this[of 1] this[of 2] this[of 3] show ?thesis by (simp add: load_def word_at_def)
qed

lemma space_user_change:
  assumes ok: "space_ok pd s" and c: "user_change (ram s) r"
    and mapped: "\<And>va k w. user_map s pd va = Some (k, w) \<Longrightarrow> unat k div 4096 \<in> pool_used (user_pool r)"
  shows "space_ok pd (s\<lparr>ram := r\<rparr>)" "user_map (s\<lparr>ram := r\<rparr>) pd = user_map s pd" "table_pages (s\<lparr>ram := r\<rparr>) pd = table_pages s pd"
proof -
  note d = space_okD[OF ok]
  note p = pd_okD[OF d(1)]
  have c': "palloc_ok r" "kernel_pool r = kernel_pool (ram s)" "\<And>x. in_range (kernel_pool (ram s)) x \<Longrightarrow> page_mem r x = page_mem (ram s) x"
    using c by (simp_all add: user_change_def)
  have load: "load (slot q l) (s\<lparr>ram := r\<rparr>) = load (slot q l) s" if "page_aligned q" "l < 1024" "in_range (kernel_pool (ram s)) q" for q l
    using load_same[OF that(1,2), of "ram s" "page_mem r" s] that(3) c'(3) by (simp add: load_def)
  have pda: "page_aligned pd" using p(4) by (simp add: table_page_def)
  have pde: "pde_of (s\<lparr>ram := r\<rparr>) pd k = pde_of s pd k" if "k < 768" for k
    using load[OF pda _ d(2), of k] that by (simp add: pde_of_def)
  have tab: "load (slot (frame (pde_of s pd k)) l) (s\<lparr>ram := r\<rparr>) = load (slot (frame (pde_of s pd k)) l) s"
    if "k < 768" "l < 1024" "pde_of s pd k \<noteq> 0" for k l
    using p(5)[OF that(1,3)] d(3)[OF that(1,3)] by (intro load that(2)) (simp_all add: table_page_def)
  have tp: "table_page (s\<lparr>ram := r\<rparr>) q" if "table_page s q" "in_range (kernel_pool (ram s)) q" for q
    using kernel_used[OF p(1) that(2)] that(1) c'(2) by (simp add: table_page_def used_pages_def)
  have fields: "palloc_ok (ram (s\<lparr>ram := r\<rparr>))" "0xc0000 \<le> first_page (kernel_pool (ram (s\<lparr>ram := r\<rparr>)))" "cr3 (s\<lparr>ram := r\<rparr>) < PHYS_BASE"
    "table_page (s\<lparr>ram := r\<rparr>) pd" using c'(1,2) p(2,3) tp[OF p(4) d(2)] by simp_all
  have pd: "pd_ok pd (s\<lparr>ram := r\<rparr>)"
  proof (rule pd_okI[OF fields])
    fix k assume k: "k < 768" "pde_of (s\<lparr>ram := r\<rparr>) pd k \<noteq> 0"
    then have k': "pde_of s pd k \<noteq> 0" using pde by simp
    show "pde_of (s\<lparr>ram := r\<rparr>) pd k AND PTE_P \<noteq> 0 \<and> pde_of (s\<lparr>ram := r\<rparr>) pd k AND PTE_ADDR < PHYS_BASE \<and>
        table_page (s\<lparr>ram := r\<rparr>) (frame (pde_of (s\<lparr>ram := r\<rparr>) pd k)) \<and> frame (pde_of (s\<lparr>ram := r\<rparr>) pd k) \<noteq> pd \<and>
        (\<forall>l < 1024. load (slot (frame (pde_of (s\<lparr>ram := r\<rparr>) pd k)) l) (s\<lparr>ram := r\<rparr>) AND PTE_P \<noteq> 0 \<longrightarrow>
          load (slot (frame (pde_of (s\<lparr>ram := r\<rparr>) pd k)) l) (s\<lparr>ram := r\<rparr>) AND PTE_ADDR < PHYS_BASE)"
      unfolding pde[OF k(1)] using p(5)[OF k(1) k'] p(6)[OF k(1) k'] tab[OF k(1) _ k'] tp d(3)[OF k(1) k'] by auto
  next
    fix k l assume kl: "k < 768" "l < 768" "pde_of (s\<lparr>ram := r\<rparr>) pd k \<noteq> 0" "pde_of (s\<lparr>ram := r\<rparr>) pd l \<noteq> 0"
      "frame (pde_of (s\<lparr>ram := r\<rparr>) pd k) = frame (pde_of (s\<lparr>ram := r\<rparr>) pd l)"
    then show "k = l" using p(7)[OF kl(1,2)] pde by simp
  qed
  have pte: "pte_of (s\<lparr>ram := r\<rparr>) pd va = pte_of s pd va" if "is_user_vaddr va" for va
    using tab[OF indices(2)[OF that] indices(1)[of va]] pde[OF indices(2)[OF that]] by (simp add: pte_of_def)
  show "table_pages (s\<lparr>ram := r\<rparr>) pd = table_pages s pd"
    using table_pages_mono[of s pd "s\<lparr>ram := r\<rparr>"] table_pages_mono[of "s\<lparr>ram := r\<rparr>" pd s] pde by simp
  show um: "user_map (s\<lparr>ram := r\<rparr>) pd = user_map s pd" using pte by (auto simp: user_map_def fun_eq_iff)
  show "space_ok pd (s\<lparr>ram := r\<rparr>)"
  proof (rule space_okI[OF pd])
    show "frame_page (s\<lparr>ram := r\<rparr>) k" if "user_map (s\<lparr>ram := r\<rparr>) pd va = Some (k, w)" for va k w
      using that d(4)[of va k w] mapped[of va k w] unfolding um by (simp add: frame_page_def)
    show "pg_no va = pg_no vb" if "user_map (s\<lparr>ram := r\<rparr>) pd va = Some (k, v)" "user_map (s\<lparr>ram := r\<rparr>) pd vb = Some (k, w)" for va vb k v w
      using that d(5) unfolding um by blast
  qed (use d(2,3,6,7) c c'(2) pde in \<open>simp_all add: user_change_def\<close>)
qed

section \<open>Pages of the user pool\<close>

definition user_full :: "palloc \<Rightarrow> bool" where
  "user_full p \<longleftrightarrow> (\<forall>i < page_total (user_pool p). bits_of (used_map (user_pool p)) ! i)"

lemma no_run_full:
  assumes "first_run (bits_of (used_map p)) 0 (unat (1 :: u32)) False = None" "i < page_total p"
  shows "bits_of (used_map p) ! i"
proof -
  obtain n where "i \<le> n" "n < Suc i" "bits_of (used_map p) ! n"
    using first_run_None[OF assms(1), of i] assms(2) by (auto simp: run_at_def)
  moreover from this have "n = i" by simp
  ultimately show ?thesis by simp
qed

lemma get_user_page:
  assumes ok: "palloc_ok p" and f: "flags AND PAL_USER \<noteq> 0" "flags AND PAL_ASSERT = 0"
  shows "palloc_get_page flags p = Some (0, p) \<and> user_full p \<or>
    (\<exists>k r. palloc_get_page flags p = Some (k, r) \<and> k \<noteq> 0 \<and> page_aligned k \<and> unat k div 4096 \<notin> used_pages p \<and> in_range (user_pool p) k \<and>
      user_change p r \<and> pool_used (user_pool r) = insert (unat k div 4096) (pool_used (user_pool p)) \<and>
      (\<forall>x. page_mem r x = (if flags AND PAL_ZERO \<noteq> 0 \<and> unat (x - k) < 4096 then 0 else page_mem p x)))"
proof (cases "first_run (bits_of (used_map (user_pool p))) 0 (unat (1 :: u32)) False")
  case None
  moreover from this have "user_full p" using no_run_full by (simp add: user_full_def)
  ultimately show ?thesis using palloc_get_multiple_eq[OF ok one_neq_zero refl refl, of flags] f by (simp add: palloc_get_page_def pool_of_def)
next
  case (Some n)
  obtain k r where g: "palloc_get_multiple flags 1 p = Some (k, r)"
    "unat k = unat (base (user_pool p)) + 4096 * n" "palloc_ok r" "same_pools p r" "valid_run p (k, 1)"
    "run_pages (k, 1) \<inter> used_pages p = {}" "used_pages r = used_pages p \<union> run_pages (k, 1)"
    "\<forall>x. page_mem r x = (if flags AND PAL_ZERO \<noteq> 0 \<and> unat (x - k) < 4096 * unat (1 :: u32) then 0 else page_mem p x)"
    using palloc_get_multiple_eq[OF ok one_neq_zero refl refl, of flags] f Some by (auto simp: pool_of_def)
  have n: "n < page_total (user_pool p)" using first_run_Some(2)[OF Some] by (simp add: run_at_def)
  have rp: "run_pages (k, 1) = {unat k div 4096}" by (auto simp: run_pages_def)
  have "k \<noteq> 0" "pg_ofs k = 0" using g(5) by (simp_all add: valid_run_def)
  moreover from this(2) have "page_aligned k" using unat_pg_ofs[of k] by (simp add: page_aligned_def)
  moreover have rng: "in_range (user_pool p) k" using n g(2) by (simp add: in_range_def)
  moreover have kp: "kernel_pool r = kernel_pool p" using palloc_get_other[OF g(1)] f(1) by (simp add: pool_of_def)
  moreover have up: "base (pool_of True r) = base (pool_of True p)" "bit_cnt (used_map (pool_of True r)) = bit_cnt (used_map (pool_of True p))"
    using g(4) by (simp_all add: same_pools_def)
  moreover have "page_mem r x = page_mem p x" if "in_range (kernel_pool p) x" for x
  proof -
    have "\<not> unat (x - k) < 4096"
    proof
      assume "unat (x - k) < 4096"
      then have "unat x div 4096 = unat k div 4096" by (rule in_page[OF \<open>page_aligned k\<close>])
      then have "in_range (kernel_pool p) k" using that same_page_range by blast
      then show False using kernel_not_user(2)[OF ok] rng by blast
    qed
    then show ?thesis using g(8) by simp
  qed
  ultimately have "user_change p r" using g(3) by (simp add: user_change_def pool_of_def)
  moreover have "pool_used (user_pool r) = insert (unat k div 4096) (pool_used (user_pool p))"
  proof -
    have sub: "pool_used (user_pool r) \<subseteq> {first_page (user_pool p)..<first_page (user_pool p) + page_total (user_pool p)}"
      using pool_used_range[of "user_pool r"] up by (simp add: pool_of_def)
    have off: "pool_used (kernel_pool p) \<inter> {first_page (user_pool p)..<first_page (user_pool p) + page_total (user_pool p)} = {}"
      using pools_apart[OF ok, of False True] by (simp add: pool_of_def)
    have "used_pages r = insert (unat k div 4096) (used_pages p)" using g(7) rp by simp
    moreover have "unat k div 4096 \<notin> pool_used (kernel_pool p)" using g(6) rp by (simp add: used_pages_def)
    moreover have "used_pages r = pool_used (kernel_pool p) \<union> pool_used (user_pool r)" using kp by (simp add: used_pages_def)
    moreover have "pool_used (user_pool p) \<inter> pool_used (kernel_pool p) = {}" using off pool_used_range[of "user_pool p"] by blast
    ultimately show ?thesis using sub off by (auto simp: used_pages_def)
  qed
  ultimately show ?thesis using g \<open>k \<noteq> 0\<close> \<open>page_aligned k\<close> rng rp by (intro disjI2 exI[of _ k] exI[of _ r]) (simp add: palloc_get_page_def)
qed

lemma put_user_page:
  assumes ok: "palloc_ok p" and k: "page_aligned k" "k \<noteq> 0" "unat k div 4096 \<in> pool_used (user_pool p)"
  obtains r where "palloc_free_page k p = Some r" "user_change p r" "pool_used (user_pool r) = pool_used (user_pool p) - {unat k div 4096}"
    "\<And>x. page_mem r x = (if unat (x - k) < 4096 then 0xcc else page_mem p x)"
proof -
  have rp: "run_pages (k, 1) = {unat k div 4096}" by (auto simp: run_pages_def)
  note nk = user_not_kernel[OF ok k(3)]
  have "pg_ofs k = 0" using k(1) unat_pg_ofs[of k] by (simp add: page_aligned_def unat_eq_0)
  moreover have "in_pool (pool_of True p) (k, 1)" using nk(2) by (simp add: in_pool_def in_range_def pool_of_def)
  ultimately have v: "valid_run p (k, 1)" using k(2) unfolding valid_run_def by auto
  obtain r where r: "palloc_free_multiple k 1 p = Some r" "palloc_ok r" "same_pools p r" "used_pages r = used_pages p - {unat k div 4096}"
    "\<forall>x. page_mem r x = (if unat (x - k) < 4096 then 0xcc else page_mem p x)"
    using palloc_free_multiple_eq[OF ok v] k(3) rp by (auto simp: used_pages_def)
  have nf: "\<not> page_from_pool (kernel_pool p) k"
    using page_from_pool_range[of "kernel_pool p" k] nk(1) ok by (auto simp: palloc_ok_def in_range_def)
  have kp: "kernel_pool r = kernel_pool p"
    using r(1) nf k(2) by (auto simp: palloc_free_multiple_def Let_def panic_simps set_pool_def pool_of_def split: if_splits)
  have up: "base (pool_of True r) = base (pool_of True p)" "bit_cnt (used_map (pool_of True r)) = bit_cnt (used_map (pool_of True p))"
    using r(3) by (simp_all add: same_pools_def)
  have "page_mem r x = page_mem p x" if "in_range (kernel_pool p) x" for x
  proof -
    have "\<not> unat (x - k) < 4096" using in_page[OF k(1), of x] that nk(1) same_page_range by blast
    then show ?thesis using r(5) by simp
  qed
  then have uc: "user_change p r" using r(2) kp up by (simp add: user_change_def pool_of_def)
  have "pool_used (user_pool r) = pool_used (user_pool p) - {unat k div 4096}"
  proof -
    have sub: "pool_used (user_pool r) \<subseteq> {first_page (user_pool p)..<first_page (user_pool p) + page_total (user_pool p)}"
      using pool_used_range[of "user_pool r"] up by (simp add: pool_of_def)
    have off: "pool_used (kernel_pool p) \<inter> {first_page (user_pool p)..<first_page (user_pool p) + page_total (user_pool p)} = {}"
      using pools_apart[OF ok, of False True] by (simp add: pool_of_def)
    have "pool_used (kernel_pool p) \<union> pool_used (user_pool r) = (pool_used (kernel_pool p) \<union> pool_used (user_pool p)) - {unat k div 4096}"
      using r(4) kp by (simp add: used_pages_def)
    then show ?thesis using sub off pool_used_range[of "user_pool p"] by blast
  qed
  then show thesis using that r uc by (simp add: palloc_free_page_def)
qed

section \<open>Adding a page\<close>

lemma set_page_grows:
  assumes ok: "space_ok pd s" and va: "is_user_vaddr va" and set: "pagedir_set_page pd va kpage w s = Some (done, s')"
  shows "tables_grown pd s s'"
proof -
  note d = space_okD[OF ok]
  obtain pte s1 e where l: "lookup_page pd va True s = Some (pte, s1)" and s': "s' = s1 \<or> pte \<noteq> 0 \<and> s' = store pte e s1"
    using set by (auto simp: pagedir_set_page_def panic_simps split: if_splits)
  have ex: "pte \<noteq> 0 \<longrightarrow> pde_of s1 pd (unat (pd_no va)) \<noteq> 0 \<and> pte = slot (frame (pde_of s1 pd (unat (pd_no va)))) (unat (pt_no va))"
    and g: "tables_grown pd s s1" and ok1: "pd_ok pd s1"
  proof -
    have "(pte \<noteq> 0 \<longrightarrow> pde_of s1 pd (unat (pd_no va)) \<noteq> 0 \<and> pte = slot (frame (pde_of s1 pd (unat (pd_no va)))) (unat (pt_no va))) \<and>
      tables_grown pd s s1 \<and> pd_ok pd s1"
    proof (cases "pde_of s pd (unat (pd_no va)) = 0")
      case False
      then show ?thesis using lookup_page_eq[OF d(1) va, of True] l tables_grown_refl d(1) by auto
    next
      case True
      then show ?thesis using lookup_page_create[OF d(1) va True] l d(1,2) tables_grown_refl by auto
    qed
    then show "pte \<noteq> 0 \<longrightarrow> pde_of s1 pd (unat (pd_no va)) \<noteq> 0 \<and> pte = slot (frame (pde_of s1 pd (unat (pd_no va)))) (unat (pt_no va))"
      "tables_grown pd s s1" "pd_ok pd s1" by blast+
  qed
  from s' show ?thesis
  proof (elim disjE conjE)
    assume a: "pte \<noteq> 0" "s' = store pte e s1"
    define q j where "q = frame (pde_of s1 pd (unat (pd_no va)))" and "j = unat (pd_no va)"
    have j: "j < 768" "pde_of s1 pd j \<noteq> 0" "pte = slot q (unat (pt_no va))" using indices(2)[OF va] ex a(1) by (simp_all add: j_def q_def)
    note p = pd_okD(5)[OF ok1 j(1,2)]
    have q: "page_aligned q" "q \<noteq> pd" "page_aligned pd" using p pd_okD(4)[OF ok1] by (simp_all add: q_def j_def[symmetric] table_page_def)
    have "same_pools (ram s) (ram s1)" using g by (simp add: tables_grown_def)
    then have "base (pool_of False (ram s1)) = base (pool_of False (ram s))" "bit_cnt (used_map (pool_of False (ram s1))) = bit_cnt (used_map (pool_of False (ram s)))"
      unfolding same_pools_def by blast+
    then have r: "in_range (kernel_pool (ram s1)) x = in_range (kernel_pool (ram s)) x" for x by (simp add: in_range_def pool_of_def)
    have "pde_of s1 pd j = pde_of s pd j \<or> in_range (kernel_pool (ram s)) (frame (pde_of s1 pd j))" using g j(1) by (simp add: tables_grown_def)
    then have kq: "in_range (kernel_pool (ram s1)) q"
    proof
      assume "pde_of s1 pd j = pde_of s pd j"
      then show ?thesis using d(3)[of j] j r by (simp add: q_def j_def)
    qed (simp add: r q_def j_def)
    have "pde_of (store (slot q (unat (pt_no va))) e s1) pd k = pde_of s1 pd k" if "k < 768" for k
      using load_store[OF q(1,3) indices(1)[of va], of k e s1] q(2) that by (simp add: pde_of_def)
    then have "tables_grown pd s1 s'" unfolding a(2) j(3) using tables_grown_store[OF q(1) kq _ indices(1)[of va]] by simp
    then show ?thesis by (rule tables_grown_trans[OF g])
  qed (use g in simp)
qed

lemma set_page_space:
  assumes ok: "space_ok pd s" and va: "is_user_vaddr va" "pg_ofs va = 0" "user_map s pd va = None"
    and k: "frame_page s kpage" "\<And>vb v. user_map s pd vb \<noteq> Some (kpage, v)"
  shows "\<exists>done s'. pagedir_set_page pd va kpage w s = Some (done, s') \<and> space_ok pd s' \<and> tables_grown pd s s' \<and> (done \<or> kernel_full (ram s)) \<and>
      (\<forall>vb. user_map s' pd vb = (if done \<and> is_user_vaddr vb \<and> pg_no vb = pg_no va then Some (kpage, w) else user_map s pd vb))"
proof -
  note d = space_okD[OF ok]
  note p = pd_okD[OF d(1)]
  have ka: "page_aligned kpage" "unat kpage div 4096 \<in> pool_used (user_pool (ram s))" using k(1) by (simp_all add: frame_page_def)
  note ur = user_not_kernel(2)[OF p(1) ka(2)]
  have lo: "0xc0000 \<le> unat kpage div 4096" using ur p(1,2) by (simp add: in_range_def palloc_ok_def)
  have "unat kpage div 4096 * 4096 \<le> unat kpage" by simp
  then have kb: "PHYS_BASE \<le> kpage" using lo by (simp add: word_le_nat_alt unat_PHYS_BASE)
  have r: "drop_bit PTSHIFT (kpage - PHYS_BASE) < init_ram_pages s"
  proof -
    have u: "unat (kpage - PHYS_BASE) = unat kpage - 0xc0000000" using kb by (simp add: unat_sub unat_PHYS_BASE)
    have "(unat kpage - 0xc0000 * 4096) div 4096 = unat kpage div 4096 - 0xc0000" using kb
      by (simp add: word_le_nat_alt unat_PHYS_BASE)
    moreover have "unat kpage div 4096 < 0xc0000 + unat (init_ram_pages s)" using ur d(7) by (simp add: in_range_def)
    ultimately have "unat (kpage - PHYS_BASE) div 4096 < unat (init_ram_pages s)" using u lo by simp
    then show ?thesis by (simp add: word_less_nat_alt PTSHIFT_def PGBITS_def drop_bit_eq_div unat_div)
  qed
  obtain dn s' where s': "pagedir_set_page pd va kpage w s = Some (dn, s')" "pd_ok pd s'" "dn \<or> kernel_full (ram s)"
      "\<forall>vb. user_map s' pd vb = (if dn \<and> is_user_vaddr vb \<and> pg_no vb = pg_no va then Some (kpage, w) else user_map s pd vb)"
    using pagedir_set_page_eq[OF d(1) va(1,2) ka(1) kb r d(6), of w] va(3) by auto
  have g: "tables_grown pd s s'" by (rule set_page_grows[OF ok va(1) s'(1)])
  have sp: "same_pools (ram s) (ram s')" "user_pool (ram s') = user_pool (ram s)" using g by (simp_all add: tables_grown_def)
  have "base (pool_of False (ram s')) = base (pool_of False (ram s))" "bit_cnt (used_map (pool_of False (ram s'))) = bit_cnt (used_map (pool_of False (ram s)))"
    using sp(1) unfolding same_pools_def by blast+
  then have rg: "in_range (kernel_pool (ram s')) x = in_range (kernel_pool (ram s)) x" for x by (simp add: in_range_def pool_of_def)
  have "space_ok pd s'"
  proof (rule space_okI[OF s'(2)])
    show "in_range (kernel_pool (ram s')) (frame (pde_of s' pd j))" if "j < 768" "pde_of s' pd j \<noteq> 0" for j
      using g that d(3)[of j] unfolding rg tables_grown_def by metis
    show "frame_page s' x" if "user_map s' pd vb = Some (x, v)" for vb x v
      using that s'(4) d(4)[of vb x v] k(1) sp(2) by (simp add: frame_page_def split: if_splits)
    show "pg_no vb = pg_no vc" if "user_map s' pd vb = Some (x, v)" "user_map s' pd vc = Some (x, y)" for vb vc x v y
      using that s'(4) d(5)[of vb x v vc y] k(2) by (simp split: if_splits)
  qed (use d g rg sp in \<open>simp_all add: tables_grown_def\<close>)
  then show ?thesis using s' g by blast
qed

section \<open>Destroying a page directory\<close>

lemma put_kernel_page:
  assumes ok: "palloc_ok p" and k: "page_aligned k" "k \<noteq> 0" "unat k div 4096 \<in> pool_used (kernel_pool p)"
  obtains r where "palloc_free_page k p = Some r" "palloc_ok r" "same_pools p r" "user_pool r = user_pool p"
    "pool_used (kernel_pool r) = pool_used (kernel_pool p) - {unat k div 4096}"
    "\<And>x. page_mem r x = (if unat (x - k) < 4096 then 0xcc else page_mem p x)"
proof -
  have rp: "run_pages (k, 1) = {unat k div 4096}" by (auto simp: run_pages_def)
  have kr: "in_range (kernel_pool p) k" using k(3) pool_used_range[of "kernel_pool p"] by (auto simp: in_range_def)
  have "pg_ofs k = 0" using k(1) unat_pg_ofs[of k] by (simp add: page_aligned_def unat_eq_0)
  moreover have ip: "in_pool (kernel_pool p) (k, 1)" using kr by (simp add: in_pool_def in_range_def)
  ultimately have v: "valid_run p (k, 1)" using k(2) unfolding valid_run_def by (auto simp: pool_of_def intro!: exI[of _ False])
  obtain r where r: "palloc_free_multiple k 1 p = Some r" "palloc_ok r" "same_pools p r" "used_pages r = used_pages p - {unat k div 4096}"
    "\<forall>x. page_mem r x = (if unat (x - k) < 4096 then 0xcc else page_mem p x)"
    using palloc_free_multiple_eq[OF ok v] k(3) rp by (auto simp: used_pages_def)
  have nf: "page_from_pool (kernel_pool p) k" using page_no_in_pool(1)[OF _ ip] ok by (simp add: palloc_ok_def)
  have up: "user_pool r = user_pool p"
    using r(1) nf k(2) by (auto simp: palloc_free_multiple_def Let_def panic_simps set_pool_def pool_of_def split: if_splits)
  have kp: "base (pool_of False r) = base (pool_of False p)" "bit_cnt (used_map (pool_of False r)) = bit_cnt (used_map (pool_of False p))"
    using r(3) by (simp_all add: same_pools_def)
  have "pool_used (kernel_pool r) = pool_used (kernel_pool p) - {unat k div 4096}"
  proof -
    have sub: "pool_used (kernel_pool r) \<subseteq> {first_page (kernel_pool p)..<first_page (kernel_pool p) + page_total (kernel_pool p)}"
      using pool_used_range[of "kernel_pool r"] kp by (simp add: pool_of_def)
    have off: "pool_used (user_pool p) \<inter> {first_page (kernel_pool p)..<first_page (kernel_pool p) + page_total (kernel_pool p)} = {}"
      using pools_apart[OF ok, of True False] by (simp add: pool_of_def)
    have "pool_used (kernel_pool r) \<union> pool_used (user_pool p) = (pool_used (kernel_pool p) \<union> pool_used (user_pool p)) - {unat k div 4096}"
      using r(4) up by (simp add: used_pages_def)
    then show ?thesis using sub off pool_used_range[of "kernel_pool p"] by blast
  qed
  then show thesis using that r up by (simp add: palloc_free_page_def)
qed

lemma user_change_refl: "palloc_ok p \<Longrightarrow> user_change p p"
  by (simp add: user_change_def)

lemma user_change_trans: "user_change p q \<Longrightarrow> user_change q r \<Longrightarrow> user_change p r"
  by (simp add: user_change_def)

text \<open>The pages that the entries \<open>ls\<close> of a table point to.\<close>

definition entry_frames :: "mmu \<Rightarrow> u32 \<Rightarrow> nat set \<Rightarrow> nat set" where
  "entry_frames s q ls = (\<lambda>l. unat (frame (load (slot q l) s)) div 4096) ` {l \<in> ls. load (slot q l) s AND PTE_P \<noteq> 0}"

lemma entry_frames_cong:
  assumes "\<And>l. l \<in> ls \<Longrightarrow> load (slot q l) s' = load (slot q l) s" shows "entry_frames s' q ls = entry_frames s q ls"
proof -
  have "{l \<in> ls. load (slot q l) s' AND PTE_P \<noteq> 0} = {l \<in> ls. load (slot q l) s AND PTE_P \<noteq> 0}" using assms by auto
  then show ?thesis unfolding entry_frames_def using assms by (intro image_cong) simp_all
qed

definition entries_ok :: "mmu \<Rightarrow> u32 \<Rightarrow> nat set \<Rightarrow> bool" where
  "entries_ok s q ls \<longleftrightarrow> ls \<subseteq> {..<1024} \<and>
     (\<forall>l \<in> ls. load (slot q l) s AND PTE_P \<noteq> 0 \<longrightarrow> load (slot q l) s AND PTE_ADDR < PHYS_BASE \<and> frame_page s (frame (load (slot q l) s))) \<and>
     (\<forall>l \<in> ls. \<forall>m \<in> ls. load (slot q l) s AND PTE_P \<noteq> 0 \<longrightarrow> load (slot q m) s AND PTE_P \<noteq> 0 \<longrightarrow>
        frame (load (slot q l) s) = frame (load (slot q m) s) \<longrightarrow> l = m)"

lemma frame_not_0:
  assumes "palloc_ok (ram s)" "0xc0000 \<le> first_page (kernel_pool (ram s))" "frame_page s k" shows "k \<noteq> 0"
proof
  assume "k = 0"
  then have "in_range (user_pool (ram s)) 0" using user_not_kernel(2)[OF assms(1)] assms(3) by (metis frame_page_def)
  then show False using assms(1,2) by (simp add: in_range_def palloc_ok_def)
qed

lemma destroy_table_frees:
  assumes "palloc_ok (ram s)" "0xc0000 \<le> first_page (kernel_pool (ram s))" "page_aligned q" "in_range (kernel_pool (ram s)) q"
    "distinct ls" "entries_ok s q (set ls)"
  shows "\<exists>r. destroy_table (map (slot q) ls) s = Some (s\<lparr>ram := r\<rparr>) \<and> user_change (ram s) r \<and>
    pool_used (user_pool r) = pool_used (user_pool (ram s)) - entry_frames s q (set ls)"
  using assms
proof (induction ls arbitrary: s)
  case Nil
  then show ?case using user_change_refl by (intro exI[of _ "ram s"]) (simp add: entry_frames_def)
next
  case (Cons l ls)
  define e where "e = load (slot q l) s"
  have lt: "l < 1024" "set ls \<subseteq> {..<1024}" using Cons.prems(6) by (simp_all add: entries_ok_def)
  have ents: "entries_ok s q (set ls)" using Cons.prems(6) by (simp add: entries_ok_def)
  show ?case
  proof (cases "e AND PTE_P = 0")
    case True
    then have "entry_frames s q (set (l # ls)) = entry_frames s q (set ls)" by (auto simp: entry_frames_def e_def)
    then show ?thesis using Cons.IH[OF Cons.prems(1-4) _ ents] Cons.prems(5) True by (simp add: e_def)
  next
    case False
    then have e: "e AND PTE_ADDR < PHYS_BASE" "frame_page s (frame e)" using Cons.prems(6) by (simp_all add: entries_ok_def e_def)
    have k: "page_aligned (frame e)" "unat (frame e) div 4096 \<in> pool_used (user_pool (ram s))" using e(2) by (simp_all add: frame_page_def)
    obtain r where r: "palloc_free_page (frame e) (ram s) = Some r" "user_change (ram s) r"
        "pool_used (user_pool r) = pool_used (user_pool (ram s)) - {unat (frame e) div 4096}"
      using put_user_page[OF Cons.prems(1) k(1) frame_not_0[OF Cons.prems(1,2) e(2)] k(2)] by metis
    have same: "load (slot q m) (s\<lparr>ram := r\<rparr>) = load (slot q m) s" if "m < 1024" for m
      using load_same[OF Cons.prems(3) that Cons.prems(4), of "page_mem r" s] r(2) by (simp add: load_def user_change_def)
    have kp: "kernel_pool r = kernel_pool (ram s)" "palloc_ok r" using r(2) by (simp_all add: user_change_def)
    have fp: "frame_page (s\<lparr>ram := r\<rparr>) (frame (load (slot q m) s))" if m: "m \<in> set ls" "load (slot q m) s AND PTE_P \<noteq> 0" for m
    proof -
      have f: "frame_page s (frame (load (slot q m) s))" using ents m by (simp add: entries_ok_def)
      have "m \<noteq> l" using m(1) Cons.prems(5) by auto
      then have "frame (load (slot q m) s) \<noteq> frame e" using Cons.prems(6) m False unfolding entries_ok_def e_def by auto
      then have "unat (frame (load (slot q m) s)) div 4096 \<noteq> unat (frame e) div 4096"
        using aligned_eq[of "frame (load (slot q m) s)" "frame e"] f k(1) by (auto simp: frame_page_def)
      then show ?thesis using f r(3) by (simp add: frame_page_def)
    qed
    have lls: "m < 1024" if "m \<in> set ls" for m using lt(2) that by blast
    have ents': "entries_ok (s\<lparr>ram := r\<rparr>) q (set ls)" using ents fp same lls unfolding entries_ok_def by simp
    have fr: "entry_frames (s\<lparr>ram := r\<rparr>) q (set ls) = entry_frames s q (set ls)" using same lls by (intro entry_frames_cong) simp
    obtain r' where r': "destroy_table (map (slot q) ls) (s\<lparr>ram := r\<rparr>) = Some (s\<lparr>ram := r'\<rparr>)" "user_change r r'"
        "pool_used (user_pool r') = pool_used (user_pool r) - entry_frames s q (set ls)"
      using Cons.IH[of "s\<lparr>ram := r\<rparr>"] Cons.prems(2-5) kp ents' fr by auto
    have "pte_get_page e = Some (frame e)" using e(1) by (simp add: pte_get_page_def ptov_def frame_def)
    then have "destroy_table (map (slot q) (l # ls)) s = Some (s\<lparr>ram := r'\<rparr>)"
      using False r(1) r'(1) by (simp add: e_def free_page_def)
    moreover have "entry_frames s q (set (l # ls)) = insert (unat (frame e) div 4096) (entry_frames s q (set ls))"
      using False by (auto simp: entry_frames_def e_def)
    ultimately show ?thesis using user_change_trans[OF r(2) r'(2)] r'(3) r(3) by auto
  qed
qed

text \<open>The entries \<open>ks\<close> of a page directory that is being destroyed: the tables that are left, and the frames in them.\<close>

definition dir_table :: "mmu \<Rightarrow> u32 \<Rightarrow> nat \<Rightarrow> u32 option" where
  "dir_table s pd k = (if pde_of s pd k AND PTE_P \<noteq> 0 then Some (frame (pde_of s pd k)) else None)"

definition dir_ok :: "mmu \<Rightarrow> u32 \<Rightarrow> nat set \<Rightarrow> bool" where
  "dir_ok s pd ks \<longleftrightarrow> palloc_ok (ram s) \<and> 0xc0000 \<le> first_page (kernel_pool (ram s)) \<and> page_aligned pd \<and> in_range (kernel_pool (ram s)) pd \<and>
     ks \<subseteq> {..<768} \<and>
     (\<forall>k \<in> ks. \<forall>q. dir_table s pd k = Some q \<longrightarrow> pde_of s pd k AND PTE_ADDR < PHYS_BASE \<and> page_aligned q \<and> q \<noteq> pd \<and>
        unat q div 4096 \<in> pool_used (kernel_pool (ram s)) \<and> entries_ok s q {..<1024}) \<and>
     (\<forall>k \<in> ks. \<forall>l \<in> ks. \<forall>q. dir_table s pd k = Some q \<longrightarrow> dir_table s pd l = Some q \<longrightarrow> k = l) \<and>
     (\<forall>k \<in> ks. \<forall>l \<in> ks. \<forall>p q. k \<noteq> l \<longrightarrow> dir_table s pd k = Some p \<longrightarrow> dir_table s pd l = Some q \<longrightarrow>
        entry_frames s p {..<1024} \<inter> entry_frames s q {..<1024} = {})"

definition dir_frames :: "mmu \<Rightarrow> u32 \<Rightarrow> nat set \<Rightarrow> nat set" where
  "dir_frames s pd ks = (\<Union>k \<in> ks. case dir_table s pd k of None \<Rightarrow> {} | Some q \<Rightarrow> entry_frames s q {..<1024})"

definition dir_tables :: "mmu \<Rightarrow> u32 \<Rightarrow> nat set \<Rightarrow> nat set" where
  "dir_tables s pd ks = (\<Union>k \<in> ks. case dir_table s pd k of None \<Rightarrow> {} | Some q \<Rightarrow> {unat q div 4096})"

lemma dir_framesI:
  assumes "k \<in> ks" "dir_table s pd k = Some q" shows "entry_frames s q {..<1024} \<subseteq> dir_frames s pd ks"
  unfolding dir_frames_def using assms by (intro subsetI UN_I[OF assms(1)]) simp

lemma dir_tablesI: "k \<in> ks \<Longrightarrow> dir_table s pd k = Some q \<Longrightarrow> unat q div 4096 \<in> dir_tables s pd ks"
  unfolding dir_tables_def by (rule UN_I[of k]) simp_all

lemma entry_framesI: "l \<in> ls \<Longrightarrow> load (slot q l) s AND PTE_P \<noteq> 0 \<Longrightarrow> unat (frame (load (slot q l) s)) div 4096 \<in> entry_frames s q ls"
  by (simp add: entry_frames_def)

text \<open>Freeing other pages than those of the remaining tables.\<close>

lemma dir_ok_change:
  assumes ok: "dir_ok s pd ks" and r: "palloc_ok r" "same_pools (ram s) r"
    and m: "\<And>x. in_range (kernel_pool (ram s)) x \<Longrightarrow> unat x div 4096 \<noteq> g \<Longrightarrow> page_mem r x = page_mem (ram s) x"
    and g: "unat pd div 4096 \<noteq> g" "g \<notin> dir_tables s pd ks"
    and k: "pool_used (kernel_pool (ram s)) - {g} \<subseteq> pool_used (kernel_pool r)"
    and u: "dir_frames s pd ks \<subseteq> pool_used (user_pool r)"
  shows "dir_ok (s\<lparr>ram := r\<rparr>) pd ks" "dir_frames (s\<lparr>ram := r\<rparr>) pd ks = dir_frames s pd ks" "dir_tables (s\<lparr>ram := r\<rparr>) pd ks = dir_tables s pd ks"
proof -
  have d: "palloc_ok (ram s)" "0xc0000 \<le> first_page (kernel_pool (ram s))" "page_aligned pd" "in_range (kernel_pool (ram s)) pd" "ks \<subseteq> {..<768}"
    and t: "\<And>k q. k \<in> ks \<Longrightarrow> dir_table s pd k = Some q \<Longrightarrow> pde_of s pd k AND PTE_ADDR < PHYS_BASE \<and> page_aligned q \<and> q \<noteq> pd \<and>
        unat q div 4096 \<in> pool_used (kernel_pool (ram s)) \<and> entries_ok s q {..<1024}"
    and i: "\<And>k l q. k \<in> ks \<Longrightarrow> l \<in> ks \<Longrightarrow> dir_table s pd k = Some q \<Longrightarrow> dir_table s pd l = Some q \<Longrightarrow> k = l"
    and j: "\<And>k l p q. k \<in> ks \<Longrightarrow> l \<in> ks \<Longrightarrow> k \<noteq> l \<Longrightarrow> dir_table s pd k = Some p \<Longrightarrow> dir_table s pd l = Some q \<Longrightarrow>
        entry_frames s p {..<1024} \<inter> entry_frames s q {..<1024} = {}"
    using ok unfolding dir_ok_def by blast+
  have kp: "base (pool_of False r) = base (pool_of False (ram s))" "bit_cnt (used_map (pool_of False r)) = bit_cnt (used_map (pool_of False (ram s)))"
    using r(2) by (simp_all add: same_pools_def)
  then have rg: "in_range (kernel_pool r) x = in_range (kernel_pool (ram s)) x" for x by (simp add: in_range_def pool_of_def)
  have load: "load (slot q l) (s\<lparr>ram := r\<rparr>) = load (slot q l) s"
    if q: "page_aligned q" "l < 1024" "in_range (kernel_pool (ram s)) q" "unat q div 4096 \<noteq> g" for q l
  proof -
    have "page_mem r (slot q l + of_nat n) = page_mem (ram s) (slot q l + of_nat n)" if "n < 4" for n
    proof -
      have "unat (slot q l + of_nat n - slot q l) < 4" using that by (simp add: unat_of_nat)
      then have "unat (slot q l + of_nat n) div 4096 = unat q div 4096" by (rule in_slot[OF q(1,2)])
      then show ?thesis using m q(3,4) same_page_range by metis
    qed
    from this[of 0] this[of 1] this[of 2] this[of 3] show ?thesis by (simp add: load_def word_at_def)
  qed
  have pde: "pde_of (s\<lparr>ram := r\<rparr>) pd k = pde_of s pd k" if "k \<in> ks" for k
    using load[OF d(3) _ d(4) g(1), of k] that d(5) by (auto simp: pde_of_def)
  have dt: "dir_table (s\<lparr>ram := r\<rparr>) pd k = dir_table s pd k" if "k \<in> ks" for k using pde[OF that] by (simp add: dir_table_def)
  have tab: "load (slot q l) (s\<lparr>ram := r\<rparr>) = load (slot q l) s" if "k \<in> ks" "dir_table s pd k = Some q" "l < 1024" for k q l
  proof (rule load[OF _ that(3)])
    show "page_aligned q" using t[OF that(1,2)] by blast
    show "in_range (kernel_pool (ram s)) q" using t[OF that(1,2)] pool_used_range[of "kernel_pool (ram s)"] by (auto simp: in_range_def)
    show "unat q div 4096 \<noteq> g" using g(2) that by (auto simp: dir_tables_def)
  qed
  have ef: "entry_frames (s\<lparr>ram := r\<rparr>) q {..<1024} = entry_frames s q {..<1024}" if "k \<in> ks" "dir_table s pd k = Some q" for k q
    using tab[OF that] by (intro entry_frames_cong) simp
  have eo: "entries_ok (s\<lparr>ram := r\<rparr>) q {..<1024}" if q: "k \<in> ks" "dir_table s pd k = Some q" for k q
  proof -
    have e: "entries_ok s q {..<1024}" using t[OF q] by blast
    have "frame_page (s\<lparr>ram := r\<rparr>) (frame (load (slot q l) s))" if "l < 1024" "load (slot q l) s AND PTE_P \<noteq> 0" for l
    proof -
      have "unat (frame (load (slot q l) s)) div 4096 \<in> dir_frames s pd ks" using dir_framesI[OF q] entry_framesI[of l "{..<1024}" q s] that by auto
      then show ?thesis using e that u unfolding entries_ok_def frame_page_def by auto
    qed
    then show ?thesis using e tab[OF q] unfolding entries_ok_def by simp
  qed
  show "dir_frames (s\<lparr>ram := r\<rparr>) pd ks = dir_frames s pd ks" unfolding dir_frames_def using dt ef by (intro SUP_cong) (auto split: option.split)
  show "dir_tables (s\<lparr>ram := r\<rparr>) pd ks = dir_tables s pd ks" unfolding dir_tables_def using dt by (intro SUP_cong) simp_all
  have tq: "pde_of s pd k AND PTE_ADDR < PHYS_BASE \<and> page_aligned q \<and> q \<noteq> pd \<and> unat q div 4096 \<in> pool_used (kernel_pool r) \<and>
      entries_ok (s\<lparr>ram := r\<rparr>) q {..<1024}" if q: "k \<in> ks" "dir_table s pd k = Some q" for k q
    using t[OF q] eo[OF q] k g(2) dir_tablesI[OF q] by auto
  have kk: "0xc0000 \<le> first_page (kernel_pool r)" using d(2) kp(1) by (simp add: pool_of_def)
  have ij: "\<forall>k \<in> ks. \<forall>l \<in> ks. \<forall>q. dir_table (s\<lparr>ram := r\<rparr>) pd k = Some q \<longrightarrow> dir_table (s\<lparr>ram := r\<rparr>) pd l = Some q \<longrightarrow> k = l"
    "\<forall>k \<in> ks. \<forall>l \<in> ks. \<forall>p q. k \<noteq> l \<longrightarrow> dir_table (s\<lparr>ram := r\<rparr>) pd k = Some p \<longrightarrow> dir_table (s\<lparr>ram := r\<rparr>) pd l = Some q \<longrightarrow>
        entry_frames (s\<lparr>ram := r\<rparr>) p {..<1024} \<inter> entry_frames (s\<lparr>ram := r\<rparr>) q {..<1024} = {}"
    using i j dt ef by simp_all
  show "dir_ok (s\<lparr>ram := r\<rparr>) pd ks"
    unfolding dir_ok_def using r(1) kk d(3,4,5) rg ij dt pde tq by simp
qed

lemma destroy_dir_frees:
  assumes "dir_ok s pd (set ks)" "distinct ks"
  shows "\<exists>r. destroy_dir (map (slot pd) ks) s = Some (s\<lparr>ram := r\<rparr>) \<and> palloc_ok r \<and> same_pools (ram s) r \<and>
    pool_used (kernel_pool r) = pool_used (kernel_pool (ram s)) - dir_tables s pd (set ks) \<and>
    pool_used (user_pool r) = pool_used (user_pool (ram s)) - dir_frames s pd (set ks)"
  using assms
proof (induction ks arbitrary: s)
  case Nil
  then show ?case by (intro exI[of _ "ram s"]) (simp add: dir_ok_def dir_tables_def dir_frames_def same_pools_def)
next
  case (Cons k ks)
  have d: "palloc_ok (ram s)" "0xc0000 \<le> first_page (kernel_pool (ram s))" "page_aligned pd" "in_range (kernel_pool (ram s)) pd"
    using Cons.prems(1) unfolding dir_ok_def by blast+
  have rest: "dir_ok s pd (set ks)" using Cons.prems(1) unfolding dir_ok_def by (simp add: ball_Un)
  show ?case
  proof (cases "dir_table s pd k")
    case None
    then have "dir_tables s pd (set (k # ks)) = dir_tables s pd (set ks)" "dir_frames s pd (set (k # ks)) = dir_frames s pd (set ks)"
      by (simp_all add: dir_tables_def dir_frames_def)
    moreover have "pde_of s pd k AND PTE_P = 0" using None by (simp add: dir_table_def split: if_splits)
    ultimately show ?thesis using Cons.IH[OF rest] Cons.prems(2) by (simp add: pde_of_def)
  next
    case (Some q)
    have e: "pde_of s pd k AND PTE_P \<noteq> 0" "q = frame (pde_of s pd k)" using Some by (simp_all add: dir_table_def split: if_splits)
    have t: "pde_of s pd k AND PTE_ADDR < PHYS_BASE" "page_aligned q" "q \<noteq> pd" "unat q div 4096 \<in> pool_used (kernel_pool (ram s))" "entries_ok s q {..<1024}"
      using Cons.prems(1) Some unfolding dir_ok_def by (metis list.set_intros(1))+
    have qr: "in_range (kernel_pool (ram s)) q" using t(4) pool_used_range[of "kernel_pool (ram s)"] by (auto simp: in_range_def)
    have ents: "entries_ok s q (set [0..<1024])" using t(5) by (simp add: atLeast0LessThan)
    obtain r where r: "destroy_table (map (slot q) [0..<1024]) s = Some (s\<lparr>ram := r\<rparr>)" "user_change (ram s) r"
        "pool_used (user_pool r) = pool_used (user_pool (ram s)) - entry_frames s q {..<1024}"
      using destroy_table_frees[OF d(1,2) t(2) qr distinct_upt ents] by (auto simp: atLeast0LessThan)
    have q0: "q \<noteq> 0"
    proof
      assume "q = 0"
      then show False using qr d(2) by (simp add: in_range_def)
    qed
    have rk: "palloc_ok r" "kernel_pool r = kernel_pool (ram s)" using r(2) by (simp_all add: user_change_def)
    have q4: "unat q div 4096 \<in> pool_used (kernel_pool r)" using t(4) rk(2) by simp
    obtain r2 where r2: "palloc_free_page q r = Some r2" "palloc_ok r2" "same_pools r r2" "user_pool r2 = user_pool r"
        "pool_used (kernel_pool r2) = pool_used (kernel_pool r) - {unat q div 4096}"
        "\<And>x. page_mem r2 x = (if unat (x - q) < 4096 then 0xcc else page_mem r x)"
      using put_kernel_page[OF rk(1) t(2) q0 q4] by metis
    have sp: "same_pools (ram s) r2" using r2(3) r(2) by (simp add: same_pools_def user_change_def pool_of_def)
    have mem: "page_mem r2 x = page_mem (ram s) x" if "in_range (kernel_pool (ram s)) x" "unat x div 4096 \<noteq> unat q div 4096" for x
      using r2(6)[of x] in_page[OF t(2), of x] that r(2) by (auto simp: user_change_def)
    have k_notin: "k \<notin> set ks" using Cons.prems(2) by simp
    have nt: "unat q div 4096 \<notin> dir_tables s pd (set ks)"
    proof
      assume "unat q div 4096 \<in> dir_tables s pd (set ks)"
      then obtain l p where l: "l \<in> set ks" "dir_table s pd l = Some p" "unat q div 4096 = unat p div 4096" by (auto simp: dir_tables_def split: option.splits)
      have "page_aligned p" using rest l(1,2) unfolding dir_ok_def by blast
      then have "q = p" using aligned_eq[OF t(2)] l(3) by blast
      then have "dir_table s pd k = Some p" "k \<in> set (k # ks)" "l \<in> set (k # ks)" using Some l(1) by simp_all
      then have "k = l" using Cons.prems(1) l(2) unfolding dir_ok_def by metis
      then show False using l(1) k_notin by simp
    qed
    have disj: "entry_frames s q {..<1024} \<inter> dir_frames s pd (set ks) = {}"
    proof -
      have "entry_frames s q {..<1024} \<inter> entry_frames s p {..<1024} = {}" if l: "l \<in> set ks" "dir_table s pd l = Some p" for l p
      proof -
        have "k \<noteq> l" "k \<in> set (k # ks)" "l \<in> set (k # ks)" using l(1) k_notin by auto
        then show ?thesis using Cons.prems(1) Some l(2) unfolding dir_ok_def by blast
      qed
      then show ?thesis by (fastforce simp: dir_frames_def split: option.splits)
    qed
    have used: "dir_frames s pd (set ks) \<subseteq> pool_used (user_pool (ram s))"
    proof -
      have "entry_frames s p {..<1024} \<subseteq> pool_used (user_pool (ram s))" if "l \<in> set ks" "dir_table s pd l = Some p" for l p
      proof -
        have "entries_ok s p {..<1024}" using rest that unfolding dir_ok_def by blast
        then show ?thesis by (auto simp: entries_ok_def entry_frames_def frame_page_def)
      qed
      then show ?thesis by (fastforce simp: dir_frames_def split: option.splits)
    qed
    have npd: "unat pd div 4096 \<noteq> unat q div 4096" using aligned_eq[OF d(3) t(2)] t(3) by blast
    note ch = dir_ok_change[OF rest r2(2) sp mem npd nt]
    have k2: "pool_used (kernel_pool (ram s)) - {unat q div 4096} \<subseteq> pool_used (kernel_pool r2)" using r2(5) rk(2) by simp
    have u2: "dir_frames s pd (set ks) \<subseteq> pool_used (user_pool r2)" using used disj r2(4) r(3) by auto
    note ch = ch[OF _ _ k2 u2]
    obtain r3 where r3: "destroy_dir (map (slot pd) ks) (s\<lparr>ram := r2\<rparr>) = Some (s\<lparr>ram := r3\<rparr>)" "palloc_ok r3" "same_pools r2 r3"
        "pool_used (kernel_pool r3) = pool_used (kernel_pool r2) - dir_tables s pd (set ks)"
        "pool_used (user_pool r3) = pool_used (user_pool r2) - dir_frames s pd (set ks)"
      using Cons.IH[OF ch(1)] ch(2,3) Cons.prems(2) by auto
    have tab: "map (\<lambda>i. q + 4 * of_nat i) [0..<unat PGSIZE div 4] = map (slot q) [0..<1024]" by (simp add: slot_def)
    have "destroy_dir (map (slot pd) (k # ks)) s = Some (s\<lparr>ram := r3\<rparr>)"
      using e(1) pde_get_pt_eq[OF e(1) t(1)] r(1) r2(1) r3(1) unfolding e(2)[symmetric]
      by (simp add: pde_of_def[symmetric] tab free_page_def del: PGSIZE_eq)
    moreover have "same_pools (ram s) r3" using sp r3(3) by (simp add: same_pools_def)
    moreover have "dir_tables s pd (set (k # ks)) = insert (unat q div 4096) (dir_tables s pd (set ks))"
      "dir_frames s pd (set (k # ks)) = entry_frames s q {..<1024} \<union> dir_frames s pd (set ks)"
      using Some by (simp_all add: dir_tables_def dir_frames_def)
    ultimately show ?thesis using r3 r2 r rk by auto
  qed
qed

text \<open>The user address of entry \<open>l\<close> of table \<open>k\<close>.\<close>

definition entry_addr :: "nat \<Rightarrow> nat \<Rightarrow> u32" where "entry_addr k l = of_nat (k * 2 ^ 22 + l * 2 ^ 12)"

lemma entry_addr_index:
  assumes "k < 768" "l < 1024"
  shows "is_user_vaddr (entry_addr k l)" "unat (pd_no (entry_addr k l)) = k" "unat (pt_no (entry_addr k l)) = l"
proof -
  have le: "k \<le> 767" "l \<le> 1023" using assms by simp_all
  then have "k * 2 ^ 22 + l * 2 ^ 12 \<le> 767 * 2 ^ 22 + 1023 * 2 ^ 12" by (intro add_mono mult_right_mono) simp_all
  then have b: "k * 2 ^ 22 + l * 2 ^ 12 < 0xc0000000" by simp
  have e: "k * 2 ^ 22 + l * 2 ^ 12 = (k * 1024 + l) * 4096" by simp
  have u: "unat (entry_addr k l) = k * 2 ^ 22 + l * 2 ^ 12" unfolding entry_addr_def unat_of_nat
    using b by (intro mod_less) simp
  show "is_user_vaddr (entry_addr k l)" unfolding is_user_vaddr_def word_less_nat_alt unat_PHYS_BASE u by (rule b)
  show "unat (pd_no (entry_addr k l)) = k" "unat (pt_no (entry_addr k l)) = l"
    unfolding unat_pd_no unat_pt_no u e using assms(2) by simp_all
qed

lemma entry_map:
  assumes "k < 768" "l < 1024" "pde_of s pd k \<noteq> 0" "load (slot (frame (pde_of s pd k)) l) s AND PTE_P \<noteq> 0"
  shows "\<exists>w. user_map s pd (entry_addr k l) = Some (frame (load (slot (frame (pde_of s pd k)) l) s), w)"
  using assms entry_addr_index[OF assms(1,2)] by (simp add: user_map_def pte_of_def)

definition mapped_frames :: "mmu \<Rightarrow> u32 \<Rightarrow> nat set" where
  "mapped_frames s pd = {unat k div 4096 | va k w. user_map s pd va = Some (k, w)}"

lemma space_dir:
  assumes ok: "space_ok pd s"
  shows "dir_ok s pd {..<768}" "dir_frames s pd {..<768} = mapped_frames s pd"
proof -
  note d = space_okD[OF ok]
  note p = pd_okD[OF d(1)]
  have dt: "pde_of s pd k \<noteq> 0 \<and> q = frame (pde_of s pd k)" if "dir_table s pd k = Some q" for k q
    using that by (auto simp: dir_table_def split: if_splits)
  have map: "\<exists>w. user_map s pd (entry_addr k l) = Some (frame (load (slot q l) s), w)"
    if "k < 768" "l < 1024" "dir_table s pd k = Some q" "load (slot q l) s AND PTE_P \<noteq> 0" for k l q
    using entry_map[OF that(1,2)] dt[OF that(3)] that(4) by blast
  have one: "k = k' \<and> l = l'" if a: "k < 768" "l < 1024" "dir_table s pd k = Some q" "load (slot q l) s AND PTE_P \<noteq> 0"
      "k' < 768" "l' < 1024" "dir_table s pd k' = Some q'" "load (slot q' l') s AND PTE_P \<noteq> 0"
      "frame (load (slot q l) s) = frame (load (slot q' l') s)" for k l q k' l' q'
  proof -
    obtain v w where "user_map s pd (entry_addr k l) = Some (frame (load (slot q l) s), v)"
      "user_map s pd (entry_addr k' l') = Some (frame (load (slot q l) s), w)" using map[OF a(1-4)] map[OF a(5-8)] a(9) by metis
    then have "pg_no (entry_addr k l) = pg_no (entry_addr k' l')" by (rule d(5))
    then show ?thesis using entry_addr_index[OF a(1,2)] entry_addr_index[OF a(5,6)] same_page by metis
  qed
  have fp: "frame_page s (frame (load (slot q l) s))" if "k < 768" "l < 1024" "dir_table s pd k = Some q" "load (slot q l) s AND PTE_P \<noteq> 0" for k l q
    using map[OF that] d(4) by blast
  have ents: "entries_ok s q {..<1024}" if k: "k < 768" "dir_table s pd k = Some q" for k q
    unfolding entries_ok_def using fp[OF k(1) _ k(2)] one[OF k(1) _ k(2) _ k(1) _ k(2)] p(6)[OF k(1)] dt[OF k(2)] by auto
  have disj: "entry_frames s q {..<1024} \<inter> entry_frames s q' {..<1024} = {}"
    if k: "k < 768" "k' < 768" "k \<noteq> k'" "dir_table s pd k = Some q" "dir_table s pd k' = Some q'" for k k' q q'
  proof -
    have False if l: "l < 1024" "load (slot q l) s AND PTE_P \<noteq> 0" "l' < 1024" "load (slot q' l') s AND PTE_P \<noteq> 0"
      "unat (frame (load (slot q l) s)) div 4096 = unat (frame (load (slot q' l') s)) div 4096" for l l'
    proof -
      have "frame (load (slot q l) s) = frame (load (slot q' l') s)"
        using fp[OF k(1) l(1) k(4) l(2)] fp[OF k(2) l(3) k(5) l(4)] l(5) by (intro aligned_eq) (simp_all add: frame_page_def)
      then show False using one[OF k(1) l(1) k(4) l(2) k(2) l(3) k(5) l(4)] k(3) by blast
    qed
    then show ?thesis by (auto simp: entry_frames_def)
  qed
  have tab: "pde_of s pd k AND PTE_ADDR < PHYS_BASE \<and> page_aligned q \<and> q \<noteq> pd \<and> unat q div 4096 \<in> pool_used (kernel_pool (ram s))"
    if k: "k < 768" "dir_table s pd k = Some q" for k q
    using p(5)[OF k(1)] dt[OF k(2)] d(3)[OF k(1)] kernel_used[OF p(1)] by (auto simp: table_page_def)
  have "k = l" if "k < 768" "l < 768" "dir_table s pd k = Some q" "dir_table s pd l = Some q" for k l q
    using p(7)[OF that(1,2)] dt[OF that(3)] dt[OF that(4)] by auto
  then show "dir_ok s pd {..<768}"
    unfolding dir_ok_def using p(1,2,4) d(2) tab ents disj by (auto simp: table_page_def)
  show "dir_frames s pd {..<768} = mapped_frames s pd"
  proof
    show "dir_frames s pd {..<768} \<subseteq> mapped_frames s pd"
    proof
      fix x assume "x \<in> dir_frames s pd {..<768}"
      then obtain k q where k: "k < 768" "dir_table s pd k = Some q" "x \<in> entry_frames s q {..<1024}"
        by (auto simp: dir_frames_def split: option.splits)
      then obtain l where l: "l < 1024" "load (slot q l) s AND PTE_P \<noteq> 0" "x = unat (frame (load (slot q l) s)) div 4096" by (auto simp: entry_frames_def)
      then show "x \<in> mapped_frames s pd" using map[OF k(1) l(1) k(2) l(2)] by (auto simp: mapped_frames_def)
    qed
    show "mapped_frames s pd \<subseteq> dir_frames s pd {..<768}"
    proof
      fix x assume "x \<in> mapped_frames s pd"
      then obtain va k w where m: "user_map s pd va = Some (k, w)" "x = unat k div 4096" by (auto simp: mapped_frames_def)
      define j l where "j = unat (pd_no va)" and "l = unat (pt_no va)"
      have va: "is_user_vaddr va" "pte_of s pd va AND PTE_P \<noteq> 0" "k = frame (pte_of s pd va)" using m(1) by (auto simp: user_map_def split: if_splits)
      have j: "j < 768" "l < 1024" using indices va(1) by (simp_all add: j_def l_def)
      have "pde_of s pd j \<noteq> 0" "pte_of s pd va = load (slot (frame (pde_of s pd j)) l) s" using va(2) by (auto simp: pte_of_def j_def l_def split: if_splits)
      moreover from this(1) have "dir_table s pd j = Some (frame (pde_of s pd j))" using p(5)[OF j(1)] by (simp add: dir_table_def)
      ultimately show "x \<in> dir_frames s pd {..<768}"
        using dir_framesI[of j "{..<768}" s pd "frame (pde_of s pd j)"] entry_framesI[of l "{..<1024}" "frame (pde_of s pd j)" s] j va(2,3) m(2) by auto
    qed
  qed
qed

lemma pagedir_destroy_eq:
  assumes ok: "space_ok pd s"
  shows "\<exists>r. pagedir_destroy pd s = Some (s\<lparr>ram := r\<rparr>) \<and> palloc_ok r \<and> same_pools (ram s) r \<and>
    used_pages r = used_pages (ram s) - insert (unat pd div 4096) (dir_tables s pd {..<768} \<union> mapped_frames s pd)"
proof -
  note d = space_okD[OF ok]
  note p = pd_okD[OF d(1)]
  have pd: "page_aligned pd" "pd \<noteq> 0" "unat pd div 4096 \<in> pool_used (kernel_pool (ram s))"
    using p(4) kernel_used[OF p(1) d(2)] by (auto simp: table_page_def PHYS_BASE_def)
  have set: "set [0..<768] = {..<768 :: nat}" by (simp add: atLeast0LessThan)
  obtain r where r: "destroy_dir (map (slot pd) [0..<768]) s = Some (s\<lparr>ram := r\<rparr>)" "palloc_ok r" "same_pools (ram s) r"
      "pool_used (kernel_pool r) = pool_used (kernel_pool (ram s)) - dir_tables s pd {..<768}"
      "pool_used (user_pool r) = pool_used (user_pool (ram s)) - mapped_frames s pd"
    using destroy_dir_frees[of s pd "[0..<768]"] space_dir[OF ok] unfolding set by auto
  have npd: "unat pd div 4096 \<notin> dir_tables s pd {..<768}"
  proof
    assume "unat pd div 4096 \<in> dir_tables s pd {..<768}"
    then obtain k q where k: "k < 768" "dir_table s pd k = Some q" "unat pd div 4096 = unat q div 4096" by (auto simp: dir_tables_def split: option.splits)
    then have "page_aligned q \<and> q \<noteq> pd" using space_dir(1)[OF ok] unfolding dir_ok_def by auto
    then show False using aligned_eq[OF pd(1)] k(3) by blast
  qed
  have pd4: "unat pd div 4096 \<in> pool_used (kernel_pool r)" using pd(3) npd r(4) by simp
  obtain r2 where r2: "palloc_free_page pd r = Some r2" "palloc_ok r2" "same_pools r r2" "user_pool r2 = user_pool r"
      "pool_used (kernel_pool r2) = pool_used (kernel_pool r) - {unat pd div 4096}" using put_kernel_page[OF r(2) pd(1,2) pd4] by metis
  have n: "unat (pd_no PHYS_BASE) = 768" by (simp add: unat_pd_no unat_PHYS_BASE)
  have m: "map (\<lambda>i. pd + 4 * of_nat i) [0..<768] = map (slot pd) [0..<768]" by (simp add: slot_def)
  have "pagedir_destroy pd s = Some (s\<lparr>ram := r2\<rparr>)"
    using pd(2) d(6) r(1) r2(1) unfolding pagedir_destroy_def n m by (simp add: free_page_def)
  moreover have "same_pools (ram s) r2" using r(3) r2(3) by (simp add: same_pools_def)
  moreover have "used_pages r2 = used_pages (ram s) - insert (unat pd div 4096) (dir_tables s pd {..<768} \<union> mapped_frames s pd)"
  proof -
    have "mapped_frames s pd \<inter> pool_used (kernel_pool (ram s)) = {}"
      using d(4) pools_apart[OF p(1), of True False] pool_used_range[of "kernel_pool (ram s)"]
      by (auto simp: mapped_frames_def frame_page_def pool_of_def) blast
    moreover have "insert (unat pd div 4096) (dir_tables s pd {..<768}) \<inter> pool_used (user_pool (ram s)) = {}"
    proof -
      have "unat q div 4096 \<in> pool_used (kernel_pool (ram s))" if "k < 768" "dir_table s pd k = Some q" for k q
        using that space_dir(1)[OF ok] unfolding dir_ok_def by auto
      then have "insert (unat pd div 4096) (dir_tables s pd {..<768}) \<subseteq> pool_used (kernel_pool (ram s))"
        using pd(3) by (auto simp: dir_tables_def split: option.splits)
      then show ?thesis using pools_apart[OF p(1), of False True] pool_used_range[of "user_pool (ram s)"] by (auto simp: pool_of_def)
    qed
    ultimately show ?thesis unfolding used_pages_def r2(4,5) r(4,5) by blast
  qed
  ultimately show ?thesis using r2(2) by blast
qed

text \<open>C36. Destroying the page directory of a process returns without a panic and frees exactly the pages of its address space: the directory,
  its page tables, and the frames that user pages are mapped to; no other page is freed and none is freed twice.\<close>

theorem pagedir_destroy_frees:
  assumes "space_ok pd s"
  shows "\<exists>s'. pagedir_destroy pd s = Some s' \<and> palloc_ok (ram s') \<and> same_pools (ram s) (ram s') \<and>
    used_pages (ram s') = used_pages (ram s) -
      insert (unat pd div 4096) (dir_tables s pd {..<768} \<union> {unat k div 4096 | va k w. user_map s pd va = Some (k, w)})"
  using pagedir_destroy_eq[OF assms] unfolding mapped_frames_def by auto

lemma sample_space_ok: "space_ok 0xc0110000 sample_mmu"
proof (rule space_okI[OF sample_mmu_ok])
  have z: "pde_of sample_mmu pd k = 0" for pd k
    by (simp add: pde_of_def load_def word_at_def sample_mmu_def sample_pools_def)
  then have n: "user_map sample_mmu pd va = None" for pd va by (simp add: user_map_def pte_of_def)
  show "in_range (kernel_pool (ram sample_mmu)) (frame (pde_of sample_mmu 0xc0110000 k))" if "pde_of sample_mmu 0xc0110000 k \<noteq> 0" for k
    using that z by simp
  show "frame_page sample_mmu k" if "user_map sample_mmu 0xc0110000 va = Some (k, w)" for va k w using that n by simp
  show "pg_no va = pg_no vb" if "user_map sample_mmu 0xc0110000 va = Some (k, v)" for va vb k v using that n by simp
qed (simp_all add: sample_mmu_def sample_pools_def in_range_def)

theorem pagedir_destroy_frees_witness:
  "\<exists>s'. pagedir_destroy 0xc0110000 sample_mmu = Some s' \<and> 0xc0110 \<notin> used_pages (ram s') \<and> 0xc0111 \<in> used_pages (ram s')"
proof -
  have z: "pde_of sample_mmu 0xc0110000 k = 0" for k
    by (simp add: pde_of_def load_def word_at_def sample_mmu_def sample_pools_def)
  have "dir_tables sample_mmu 0xc0110000 {..<768} = {}" by (simp add: dir_tables_def dir_table_def z)
  moreover have "user_map sample_mmu 0xc0110000 va = None" for va by (simp add: user_map_def pte_of_def z)
  moreover have "0xc0111 \<in> used_pages (ram sample_mmu)"
    by (auto simp: used_pages_def pool_used_def sample_mmu_def sample_pools_def sample_kernel_bits intro!: exI[of _ 1])
  ultimately show ?thesis using pagedir_destroy_frees[OF sample_space_ok] by auto
qed

end
