(* ===== verification/Directory.thy ===== *)
theory Directory
  imports Inode
begin

text \<open>
  Directories (\<^verbatim>\<open>filesys/directory.c\<close>) and the operations on named files (\<^verbatim>\<open>filesys/filesys.c\<close>), on top of \<open>Inode\<close>. A
  directory is a file of entries of 20 bytes. An open directory belongs to its holder and is a value. Names are byte
  strings without the terminating zero.
\<close>

section \<open>Definitions\<close>

definition NAME_MAX :: nat where "NAME_MAX = 14"

record dir =
  d_inode :: iptr
  d_pos :: off_t

text \<open>The bytes of a \<^verbatim>\<open>struct dir_entry\<close>: the sector of the inode, the name with its terminator, and whether it is in use.\<close>

type_synonym dir_entry = "u8 list"

definition sizeof_entry :: nat where "sizeof_entry = 20"

definition entry_sector :: "dir_entry \<Rightarrow> u32" where "entry_sector e = of_le32 (take 4 e)"

definition entry_name :: "dir_entry \<Rightarrow> u8 list" where "entry_name e = takeWhile (\<lambda>b. b \<noteq> 0) (take 15 (drop 4 e))"

definition entry_in_use :: "dir_entry \<Rightarrow> bool" where "entry_in_use e \<longleftrightarrow> e ! 19 \<noteq> 0"

text \<open>\<^verbatim>\<open>!strcmp (name, e.name)\<close>.\<close>

definition name_matches :: "u8 list \<Rightarrow> dir_entry \<Rightarrow> bool" where
  "name_matches name e \<longleftrightarrow> take (length name + 1) (drop 4 e) = name @ [0]"

definition dir_create :: "u32 \<Rightarrow> u32 \<Rightarrow> filesys \<Rightarrow> (bool \<times> filesys) option" where
  "dir_create sector entry_cnt s = inode_create sector (sint (entry_cnt * of_nat sizeof_entry)) s"

definition dir_open :: "iptr \<Rightarrow> filesys \<Rightarrow> (dir option \<times> filesys) option" where
  "dir_open p s =
     (let (ok, s) = kmalloc s in
      if p \<noteq> 0 \<and> ok then Some (Some \<lparr>d_inode = p, d_pos = 0\<rparr>, s)
      else Option.bind (inode_close p s) (\<lambda>s. Some (None, s)))"

definition dir_open_root :: "filesys \<Rightarrow> (dir option \<times> filesys) option" where
  "dir_open_root s = Option.bind (inode_open ROOT_DIR_SECTOR s) (\<lambda>(p, s). dir_open p s)"

definition dir_reopen :: "dir \<Rightarrow> filesys \<Rightarrow> (dir option \<times> filesys) option" where
  "dir_reopen d s = Option.bind (inode_reopen (d_inode d) s) (\<lambda>(p, s). dir_open p s)"

definition dir_close :: "dir option \<Rightarrow> filesys \<Rightarrow> filesys option" where
  "dir_close d s = (case d of None \<Rightarrow> Some s | Some d \<Rightarrow> inode_close (d_inode d) s)"

definition dir_get_inode :: "dir \<Rightarrow> iptr" where "dir_get_inode d = d_inode d"

text \<open>The entry for a name, with its offset.\<close>

partial_function (option) lookup_loop ::
    "iptr \<Rightarrow> u8 list \<Rightarrow> nat \<Rightarrow> filesys \<Rightarrow> ((dir_entry \<times> nat) option \<times> filesys) option" where
  "lookup_loop p name ofs s =
     Option.bind (inode_read_at p (int sizeof_entry) (int ofs) s) (\<lambda>(e, s).
     if length e = sizeof_entry then
       if entry_in_use e \<and> name_matches name e then Some (Some (e, ofs), s)
       else lookup_loop p name (ofs + sizeof_entry) s
     else Some (None, s))"

definition lookup :: "dir \<Rightarrow> u8 list \<Rightarrow> filesys \<Rightarrow> ((dir_entry \<times> nat) option \<times> filesys) option" where
  "lookup d name s = lookup_loop (d_inode d) name 0 s"

definition dir_lookup :: "dir \<Rightarrow> u8 list \<Rightarrow> filesys \<Rightarrow> (iptr \<times> filesys) option" where
  "dir_lookup d name s =
     Option.bind (lookup d name s) (\<lambda>(r, s).
     case r of Some (e, _) \<Rightarrow> inode_open (entry_sector e) s | None \<Rightarrow> Some (0, s))"

text \<open>The search for a free slot; \<open>e\<close> is the entry on the stack, which a short read at the end of the file changes in part.\<close>

partial_function (option) free_slot_loop ::
    "iptr \<Rightarrow> dir_entry \<Rightarrow> nat \<Rightarrow> filesys \<Rightarrow> (dir_entry \<times> nat \<times> filesys) option" where
  "free_slot_loop p e ofs s =
     Option.bind (inode_read_at p (int sizeof_entry) (int ofs) s) (\<lambda>(bs, s).
     let e = bs @ drop (length bs) e in
     if length bs = sizeof_entry then
       if \<not> entry_in_use e then Some (e, ofs, s) else free_slot_loop p e (ofs + sizeof_entry) s
     else Some (e, ofs, s))"

definition fill_entry :: "u32 \<Rightarrow> u8 list \<Rightarrow> dir_entry \<Rightarrow> dir_entry" where
  "fill_entry sector name e = le32 sector @ name @ [0] @ drop (length name + 5) (take 19 e) @ [1]"

text \<open>\<open>e\<close> is what the stack holds when \<^verbatim>\<open>dir_add\<close> starts.\<close>

definition dir_add :: "dir_entry \<Rightarrow> dir \<Rightarrow> u8 list \<Rightarrow> u32 \<Rightarrow> filesys \<Rightarrow> (bool \<times> filesys) option" where
  "dir_add e d name sector s =
     (if name = [] \<or> NAME_MAX < length name then Some (False, s)
      else
        Option.bind (lookup d name s) (\<lambda>(r, s).
        if r \<noteq> None then Some (False, s)
        else
          Option.bind (free_slot_loop (d_inode d) e 0 s) (\<lambda>(e, ofs, s).
          Option.bind (inode_write_at (d_inode d) (fill_entry sector name e) (int sizeof_entry) (int ofs) s) (\<lambda>(n, s).
          Some (n = int sizeof_entry, s)))))"

definition dir_remove :: "dir \<Rightarrow> u8 list \<Rightarrow> filesys \<Rightarrow> (bool \<times> filesys) option" where
  "dir_remove d name s =
     Option.bind (lookup d name s) (\<lambda>(r, s).
     case r of
       None \<Rightarrow> Some (False, s)
     | Some (e, ofs) \<Rightarrow>
         Option.bind (inode_open (entry_sector e) s) (\<lambda>(p, s).
         if p = 0 then Some (False, s)
         else
           Option.bind (inode_write_at (d_inode d) (take 19 e @ [0]) (int sizeof_entry) (int ofs) s) (\<lambda>(n, s).
           Option.bind (if n \<noteq> int sizeof_entry then Some (False, s)
                        else Option.bind (inode_remove p s) (\<lambda>s. Some (True, s))) (\<lambda>(success, s).
           Option.bind (inode_close p s) (\<lambda>s. Some (success, s))))))"

partial_function (option) dir_readdir :: "dir \<Rightarrow> filesys \<Rightarrow> (u8 list option \<times> dir \<times> filesys) option" where
  "dir_readdir d s =
     Option.bind (inode_read_at (d_inode d) (int sizeof_entry) (d_pos d) s) (\<lambda>(e, s).
     if length e = sizeof_entry then
       let d = d\<lparr>d_pos := d_pos d + int sizeof_entry\<rparr> in
       if entry_in_use e then Some (Some (take NAME_MAX (entry_name e)), d, s) else dir_readdir d s
     else Some (None, d, s))"

subsection \<open>Files by name\<close>

definition do_format :: "filesys \<Rightarrow> filesys option" where
  "do_format s =
     Option.bind (free_map_create s) (\<lambda>s.
     Option.bind (dir_create ROOT_DIR_SECTOR 16 s) (\<lambda>(ok, s).
     ASSERT ok (free_map_close s)))"

definition filesys_init :: "bool \<Rightarrow> u32 list \<Rightarrow> filesys \<Rightarrow> filesys option" where
  "filesys_init format contents s =
     Option.bind (block_get_role BLOCK_FILESYS (disks s)) (\<lambda>dev.
     let s = s\<lparr>fs_device := dev\<rparr> in
     ASSERT (dev \<noteq> 0) (
     Option.bind (free_map_init contents (inode_init s)) (\<lambda>s.
     Option.bind (if format then do_format s else Some s) free_map_open)))"

definition filesys_done :: "filesys \<Rightarrow> filesys option" where "filesys_done s = free_map_close s"

definition filesys_create :: "dir_entry \<Rightarrow> u8 list \<Rightarrow> off_t \<Rightarrow> filesys \<Rightarrow> (bool \<times> filesys) option" where
  "filesys_create e name initial_size s =
     Option.bind (dir_open_root s) (\<lambda>(dir, s).
     Option.bind
       (case dir of
          None \<Rightarrow> Some (False, 0, s)
        | Some d \<Rightarrow>
            Option.bind (free_map_allocate 1 s) (\<lambda>(r, s).
            case r of
              None \<Rightarrow> Some (False, 0, s)
            | Some sector \<Rightarrow>
                Option.bind (inode_create sector initial_size s) (\<lambda>(ok, s).
                if \<not> ok then Some (False, sector, s)
                else Option.bind (dir_add e d name sector s) (\<lambda>(ok, s). Some (ok, sector, s)))))
       (\<lambda>(success, sector, s).
     Option.bind (if \<not> success \<and> sector \<noteq> 0 then free_map_release sector 1 s else Some s) (\<lambda>s.
     Option.bind (dir_close dir s) (\<lambda>s. Some (success, s)))))"

definition filesys_open :: "u8 list \<Rightarrow> filesys \<Rightarrow> (open_file option \<times> filesys) option" where
  "filesys_open name s =
     Option.bind (dir_open_root s) (\<lambda>(dir, s).
     Option.bind (case dir of None \<Rightarrow> Some (0, s) | Some d \<Rightarrow> dir_lookup d name s) (\<lambda>(p, s).
     Option.bind (dir_close dir s) (file_open p)))"

definition filesys_remove :: "u8 list \<Rightarrow> filesys \<Rightarrow> (bool \<times> filesys) option" where
  "filesys_remove name s =
     Option.bind (dir_open_root s) (\<lambda>(dir, s).
     Option.bind (case dir of None \<Rightarrow> Some (False, s) | Some d \<Rightarrow> dir_remove d name s) (\<lambda>(success, s).
     Option.bind (dir_close dir s) (\<lambda>s. Some (success, s))))"

end
