(* ===== verification/Process.thy ===== *)
theory Process
  imports Pagedir Directory Synch
begin

unbundle bit_operations_syntax

text \<open>
  User processes (\<^verbatim>\<open>userprog/process.c\<close>, \<^verbatim>\<open>syscall.c\<close>, \<^verbatim>\<open>tss.c\<close>): loading an ELF executable into a page directory, starting and ending
  a process, and the one system call of this commit. The memory is that of \<open>Pagedir\<close>, the files are those of \<open>Directory\<close>;
  what a function does to semaphores and threads is the list of \<open>action\<close>s of \<open>Threads\<close> that it ends with. A process control block is a value of its thread and takes no page here. Messages and
  statistics are not kept.
\<close>

section \<open>Definitions\<close>

subsection \<open>State\<close>

record process =
  pcb_pagedir :: u32
  process_name :: string
  main_thread :: tptr

text \<open>What the running thread sees: memory and processor, files, its process (\<^verbatim>\<open>t->pcb\<close>, with \<open>None\<close> for the null pointer), the page it
  lives in, and the stack pointer for interrupts in the task state segment.\<close>

record machine =
  mm :: mmu
  fsys :: filesys
  cur_pcb :: "process option"
  cur_thread :: u32
  esp0 :: u32

definition temporary :: sema where "temporary = Sema 0"

definition mem_of :: "machine \<Rightarrow> mem" where "mem_of s = page_mem (ram (mm s))"

definition set_ram :: "palloc \<Rightarrow> machine \<Rightarrow> machine" where "set_ram r s = s\<lparr>mm := (mm s)\<lparr>ram := r\<rparr>\<rparr>"

definition set_mem :: "mem \<Rightarrow> machine \<Rightarrow> machine" where "set_mem m s = set_ram ((ram (mm s))\<lparr>page_mem := m\<rparr>) s"

definition get_page :: "u32 \<Rightarrow> machine \<Rightarrow> (u32 \<times> machine) option" where
  "get_page flags s = Option.bind (palloc_get_page flags (ram (mm s))) (\<lambda>(p, r). Some (p, set_ram r s))"

definition put_page :: "u32 \<Rightarrow> machine \<Rightarrow> machine option" where
  "put_page page s = Option.bind (palloc_free_page page (ram (mm s))) (\<lambda>r. Some (set_ram r s))"

definition tss_update :: "machine \<Rightarrow> machine" where "tss_update s = s\<lparr>esp0 := cur_thread s + PGSIZE\<rparr>"

definition process_activate :: "machine \<Rightarrow> machine option" where
  "process_activate s =
     Option.bind (case cur_pcb s of
         Some p \<Rightarrow> if pcb_pagedir p \<noteq> 0 then pagedir_activate (pcb_pagedir p) (mm s) else pagedir_activate 0 (mm s)
       | None \<Rightarrow> pagedir_activate 0 (mm s)) (\<lambda>m.
     Some (tss_update (s\<lparr>mm := m\<rparr>)))"

subsection \<open>ELF headers\<close>

definition of_le16 :: "u8 list \<Rightarrow> u16" where "of_le16 bs = ucast (bs ! 0) OR push_bit 8 (ucast (bs ! 1))"

definition half_at :: "u8 list \<Rightarrow> nat \<Rightarrow> u16" where "half_at bs k = of_le16 (take 2 (drop k bs))"

definition long_at :: "u8 list \<Rightarrow> nat \<Rightarrow> u32" where "long_at bs k = of_le32 (take 4 (drop k bs))"

record elf_header =
  eh_ident :: "u8 list"
  eh_type :: u16
  eh_machine :: u16
  eh_version :: u32
  eh_entry :: u32
  eh_phoff :: u32
  eh_phentsize :: u16
  eh_phnum :: u16

definition sizeof_ehdr :: nat where "sizeof_ehdr = 52"

definition decode_ehdr :: "u8 list \<Rightarrow> elf_header" where
  "decode_ehdr bs = \<lparr>eh_ident = take 16 bs, eh_type = half_at bs 16, eh_machine = half_at bs 18, eh_version = long_at bs 20,
     eh_entry = long_at bs 24, eh_phoff = long_at bs 28, eh_phentsize = half_at bs 42, eh_phnum = half_at bs 44\<rparr>"

record program_header =
  p_type :: u32
  p_offset :: u32
  p_vaddr :: u32
  p_paddr :: u32
  p_filesz :: u32
  p_memsz :: u32
  p_flags :: u32
  p_align :: u32

definition sizeof_phdr :: nat where "sizeof_phdr = 32"

definition decode_phdr :: "u8 list \<Rightarrow> program_header" where
  "decode_phdr bs = \<lparr>p_type = long_at bs 0, p_offset = long_at bs 4, p_vaddr = long_at bs 8, p_paddr = long_at bs 12,
     p_filesz = long_at bs 16, p_memsz = long_at bs 20, p_flags = long_at bs 24, p_align = long_at bs 28\<rparr>"

definition PT_LOAD :: u32 where "PT_LOAD = 1"
definition PT_DYNAMIC :: u32 where "PT_DYNAMIC = 2"
definition PT_INTERP :: u32 where "PT_INTERP = 3"
definition PT_SHLIB :: u32 where "PT_SHLIB = 5"
definition PF_W :: u32 where "PF_W = 2"

text \<open>The checks of the executable header.\<close>

definition ehdr_ok :: "elf_header \<Rightarrow> bool" where
  "ehdr_ok h \<longleftrightarrow> take 7 (eh_ident h) = [0x7f, 0x45, 0x4c, 0x46, 1, 1, 1] \<and> eh_type h = 2 \<and> eh_machine h = 3 \<and> eh_version h = 1 \<and>
     unat (eh_phentsize h) = sizeof_phdr \<and> \<not> eh_phnum h > 1024"

subsection \<open>Loading\<close>

definition validate_segment :: "program_header \<Rightarrow> off_t \<Rightarrow> bool" where
  "validate_segment ph len \<longleftrightarrow>
     (if p_offset ph AND PGMASK \<noteq> p_vaddr ph AND PGMASK then False
      else if p_offset ph > word_of_int len then False
      else if p_memsz ph < p_filesz ph then False
      else if p_memsz ph = 0 then False
      else if \<not> is_user_vaddr (p_vaddr ph) then False
      else if \<not> is_user_vaddr (p_vaddr ph + p_memsz ph) then False
      else if p_vaddr ph + p_memsz ph < p_vaddr ph then False
      else if p_vaddr ph < PGSIZE then False
      else True)"

definition install_page :: "u32 \<Rightarrow> u32 \<Rightarrow> bool \<Rightarrow> machine \<Rightarrow> (bool \<times> machine) option" where
  "install_page upage kpage writable s =
     Option.bind (cur_pcb s) (\<lambda>p.
     Option.bind (pagedir_get_page (pcb_pagedir p) upage (mm s)) (\<lambda>old.
     if old = 0
     then Option.bind (pagedir_set_page (pcb_pagedir p) upage kpage writable (mm s)) (\<lambda>(ok, m). Some (ok, s\<lparr>mm := m\<rparr>))
     else Some (False, s)))"

text \<open>\<^verbatim>\<open>file_read\<close> into memory at \<open>buffer\<close>.\<close>

definition read_to :: "open_file \<Rightarrow> u32 \<Rightarrow> u32 \<Rightarrow> machine \<Rightarrow> (off_t \<times> open_file \<times> machine) option" where
  "read_to f buffer sz s =
     Option.bind (file_read f (sint sz) (fsys s)) (\<lambda>(bs, f, d).
     Some (int (length bs), f, set_mem (write_bytes (mem_of s) buffer bs) (s\<lparr>fsys := d\<rparr>)))"

definition zero_mem :: "u32 \<Rightarrow> u32 \<Rightarrow> machine \<Rightarrow> machine option" where
  "zero_mem a n s = Option.bind (memset a 0 n (mem_of s)) (\<lambda>(_, m). Some (set_mem m s))"

partial_function (option) load_segment_loop ::
    "open_file \<Rightarrow> u32 \<Rightarrow> u32 \<Rightarrow> u32 \<Rightarrow> bool \<Rightarrow> machine \<Rightarrow> (bool \<times> open_file \<times> machine) option" where
  "load_segment_loop f upage read_bytes zero_bytes writable s =
     (if read_bytes > 0 \<or> zero_bytes > 0 then
        let page_read_bytes = (if read_bytes < PGSIZE then read_bytes else PGSIZE);
            page_zero_bytes = PGSIZE - page_read_bytes in
        Option.bind (get_page PAL_USER s) (\<lambda>(kpage, s).
        if kpage = 0 then Some (False, f, s)
        else
          Option.bind (read_to f kpage page_read_bytes s) (\<lambda>(n, f, s).
          if n \<noteq> sint page_read_bytes then Option.bind (put_page kpage s) (\<lambda>s. Some (False, f, s))
          else
            Option.bind (zero_mem (kpage + page_read_bytes) page_zero_bytes s) (\<lambda>s.
            Option.bind (install_page upage kpage writable s) (\<lambda>(ok, s).
            if \<not> ok then Option.bind (put_page kpage s) (\<lambda>s. Some (False, f, s))
            else
              load_segment_loop f (upage + PGSIZE) (read_bytes - page_read_bytes) (zero_bytes - page_zero_bytes) writable s))))
      else Some (True, f, s))"

definition load_segment ::
    "open_file \<Rightarrow> off_t \<Rightarrow> u32 \<Rightarrow> u32 \<Rightarrow> u32 \<Rightarrow> bool \<Rightarrow> machine \<Rightarrow> (bool \<times> open_file \<times> machine) option" where
  "load_segment f ofs upage read_bytes zero_bytes writable s =
     ASSERT ((read_bytes + zero_bytes) mod PGSIZE = 0) (
     ASSERT (pg_ofs upage = 0) (
     ASSERT (ofs smod sint PGSIZE = 0) (
     Option.bind (file_seek ofs f) (\<lambda>f. load_segment_loop f upage read_bytes zero_bytes writable s))))"

definition setup_stack :: "machine \<Rightarrow> (u32 option \<times> machine) option" where
  "setup_stack s =
     Option.bind (get_page (PAL_USER OR PAL_ZERO) s) (\<lambda>(kpage, s).
     if kpage \<noteq> 0 then
       Option.bind (install_page (PHYS_BASE - PGSIZE) kpage True s) (\<lambda>(success, s).
       if success then Some (Some PHYS_BASE, s)
       else Option.bind (put_page kpage s) (\<lambda>s. Some (None, s)))
     else Some (None, s))"

text \<open>\<^verbatim>\<open>ROUND_UP (x, PGSIZE)\<close> on 32 bits.\<close>

definition page_ceil :: "u32 \<Rightarrow> u32" where "page_ceil x = (x + PGSIZE - 1) div PGSIZE * PGSIZE"

text \<open>One segment of type \<open>PT_LOAD\<close>.\<close>

definition load_one :: "program_header \<Rightarrow> open_file \<Rightarrow> machine \<Rightarrow> (bool \<times> open_file \<times> machine) option" where
  "load_one ph f s =
     (let writable = (p_flags ph AND PF_W \<noteq> 0);
          file_page = p_offset ph AND NOT PGMASK;
          mem_page = p_vaddr ph AND NOT PGMASK;
          page_offset = p_vaddr ph AND PGMASK;
          read_bytes = (if p_filesz ph > 0 then page_offset + p_filesz ph else 0);
          zero_bytes = (if p_filesz ph > 0 then page_ceil (page_offset + p_memsz ph) - read_bytes
                        else page_ceil (page_offset + p_memsz ph)) in
      load_segment f (sint file_page) mem_page read_bytes zero_bytes writable s)"

text \<open>The loop over the program headers, with the number of those left.\<close>

primrec load_headers :: "nat \<Rightarrow> off_t \<Rightarrow> open_file \<Rightarrow> machine \<Rightarrow> (bool \<times> open_file \<times> machine) option" where
  "load_headers 0 file_ofs f s = Some (True, f, s)"
| "load_headers (Suc n) file_ofs f s =
     Option.bind (file_length_of f (fsys s)) (\<lambda>len.
     if file_ofs < 0 \<or> file_ofs > len then Some (False, f, s)
     else
       Option.bind (file_seek file_ofs f) (\<lambda>f.
       Option.bind (file_read f (int sizeof_phdr) (fsys s)) (\<lambda>(bs, f, d).
       let s = s\<lparr>fsys := d\<rparr> in
       if length bs \<noteq> sizeof_phdr then Some (False, f, s)
       else
         let ph = decode_phdr bs;
             next_ofs = sint (word_of_int file_ofs + word_of_nat sizeof_phdr :: u32) in
         if p_type ph = PT_DYNAMIC \<or> p_type ph = PT_INTERP \<or> p_type ph = PT_SHLIB then Some (False, f, s)
         else if p_type ph = PT_LOAD then
           if validate_segment ph len then
             Option.bind (load_one ph f s) (\<lambda>(ok, f, s).
             if ok then load_headers n next_ofs f s else Some (False, f, s))
           else Some (False, f, s)
         else load_headers n next_ofs f s)))"

text \<open>What is done with the open executable: the entry point and the stack pointer, or failure.\<close>

definition load_image :: "open_file \<Rightarrow> machine \<Rightarrow> ((u32 \<times> u32) option \<times> open_file \<times> machine) option" where
  "load_image f s =
     Option.bind (file_read f (int sizeof_ehdr) (fsys s)) (\<lambda>(bs, f, d).
     let s = s\<lparr>fsys := d\<rparr>; h = decode_ehdr bs in
     if length bs \<noteq> sizeof_ehdr \<or> \<not> ehdr_ok h then Some (None, f, s)
     else
       Option.bind (load_headers (unat (eh_phnum h)) (sint (eh_phoff h)) f s) (\<lambda>(ok, f, s).
       if \<not> ok then Some (None, f, s)
       else
         Option.bind (setup_stack s) (\<lambda>(esp, s).
         case esp of None \<Rightarrow> Some (None, f, s) | Some esp \<Rightarrow> Some (Some (eh_entry h, esp), f, s))))"

text \<open>The string at an address.\<close>

definition name_at :: "u32 \<Rightarrow> machine \<Rightarrow> u8 list option" where
  "name_at a s = Option.bind (strlen a (mem_of s)) (\<lambda>n. Some (bytes_at (mem_of s) a (unat n)))"

definition load_elf :: "u32 \<Rightarrow> machine \<Rightarrow> ((u32 \<times> u32) option \<times> machine) option" where
  "load_elf file_name s =
     Option.bind (cur_pcb s) (\<lambda>p.
     Option.bind (pagedir_create (mm s)) (\<lambda>(pd, m).
     let s = s\<lparr>mm := m, cur_pcb := Some (p\<lparr>pcb_pagedir := pd\<rparr>)\<rparr> in
     if pd = 0 then Some (None, s)
     else
       Option.bind (process_activate s) (\<lambda>s.
       Option.bind (name_at file_name s) (\<lambda>name.
       Option.bind (filesys_open name (fsys s)) (\<lambda>(f, d).
       let s = s\<lparr>fsys := d\<rparr> in
       case f of
         None \<Rightarrow> Some (None, s)
       | Some f \<Rightarrow>
           Option.bind (load_image f s) (\<lambda>(r, f, s).
           Option.bind (file_close (Some f) (fsys s)) (\<lambda>d. Some (r, s\<lparr>fsys := d\<rparr>))))))))"

subsection \<open>Starting a process\<close>

definition SEL_UCSEG :: u16 where "SEL_UCSEG = 0x1b"
definition SEL_UDSEG :: u16 where "SEL_UDSEG = 0x23"
definition SEL_KCSEG :: u16 where "SEL_KCSEG = 0x08"
definition FLAG_MBS :: u32 where "FLAG_MBS = 0x2"
definition FLAG_IF :: u32 where "FLAG_IF = 0x200"

text \<open>What the code uses of an interrupt frame.\<close>

record intr_frame =
  if_eax :: u32
  if_gs :: u16
  if_fs :: u16
  if_es :: u16
  if_ds :: u16
  if_eip :: u32
  if_cs :: u16
  if_eflags :: u32
  if_esp :: u32
  if_ss :: u16

text \<open>\<^verbatim>\<open>start_process\<close> ends with a jump to user mode, or with what a failed start leaves to do. Whether \<^verbatim>\<open>malloc\<close> has memory is the argument
  \<open>got\<close>; \<open>nm\<close> is the name of the thread \<open>t\<close>.\<close>

datatype start = User_mode intr_frame | Ends "action list"

definition user_frame :: "u32 \<Rightarrow> u32 \<Rightarrow> intr_frame" where
  "user_frame eip esp = \<lparr>if_eax = 0, if_gs = SEL_UDSEG, if_fs = SEL_UDSEG, if_es = SEL_UDSEG, if_ds = SEL_UDSEG, if_eip = eip, if_cs = SEL_UCSEG,
     if_eflags = FLAG_IF OR FLAG_MBS, if_esp = esp, if_ss = SEL_UDSEG\<rparr>"

definition start_process :: "bool \<Rightarrow> string \<Rightarrow> tptr \<Rightarrow> u32 \<Rightarrow> machine \<Rightarrow> (start \<times> machine) option" where
  "start_process got nm t file_name s =
     Option.bind
       (if got then
          Option.bind (load_elf file_name (s\<lparr>cur_pcb := Some \<lparr>pcb_pagedir = 0, process_name = take 15 nm, main_thread = t\<rparr>\<rparr>)) (\<lambda>(r, s).
          Some (r, if r = None then s\<lparr>cur_pcb := None\<rparr> else s))
        else Some (None, s)) (\<lambda>(r, s).
     Option.bind (put_page file_name s) (\<lambda>s.
     case r of
       None \<Rightarrow> Some (Ends [Sema_up temporary, Thread_exit], s)
     | Some (eip, esp) \<Rightarrow> Some (User_mode (user_frame eip esp), s)))"

text \<open>\<^verbatim>\<open>process_execute\<close> works on the memory and on the kernel's threads; the new page is the new thread. The result says whether there is a new thread, whose
  number \<^verbatim>\<open>thread_create\<close> gives.\<close>

definition process_execute :: "u32 \<Rightarrow> machine \<Rightarrow> kernel \<Rightarrow> (bool \<times> machine \<times> kernel) option" where
  "process_execute file_name s k =
     (let k = sema_init temporary 0 k in
      Option.bind (get_page 0 s) (\<lambda>(fn_copy, s).
      if fn_copy = 0 then Some (False, s, k)
      else
        Option.bind (strlcpy fn_copy file_name PGSIZE (mem_of s)) (\<lambda>(_, m).
        let s = set_mem m s in
        Option.bind (get_page PAL_ZERO s) (\<lambda>(t, s).
        if t = 0 then Option.bind (put_page fn_copy s) (\<lambda>s. Some (False, s, k))
        else
          Option.bind (name_at file_name s) (\<lambda>name.
          Some (True, s, push (thread_create (unat t) (map (char_of \<circ> unat) name) PRI_DEFAULT Client_func) k))))))"

definition process_wait :: "kernel \<Rightarrow> (int \<times> kernel)" where "process_wait k = (0, push [Sema_down temporary] k)"

text \<open>The first process control block, of the main thread.\<close>

definition userprog_init :: "bool \<Rightarrow> machine \<Rightarrow> machine option" where
  "userprog_init got s = ASSERT got (Some (s\<lparr>cur_pcb := Some \<lparr>pcb_pagedir = 0, process_name = [], main_thread = 0\<rparr>\<rparr>))"

definition is_main_thread :: "tptr \<Rightarrow> process \<Rightarrow> bool" where "is_main_thread t p \<longleftrightarrow> main_thread p = t"

definition get_pid :: "process \<Rightarrow> kernel \<Rightarrow> 32 word option" where "get_pid p k = map_option tid (threads k (main_thread p))"

subsection \<open>The end of a process\<close>

definition process_exit :: "machine \<Rightarrow> (action list \<times> machine) option" where
  "process_exit s =
     (case cur_pcb s of
        None \<Rightarrow> Some ([Thread_exit], s)
      | Some p \<Rightarrow>
          Option.bind
            (if pcb_pagedir p \<noteq> 0 then
               let pd = pcb_pagedir p;
                   s = s\<lparr>cur_pcb := Some (p\<lparr>pcb_pagedir := 0\<rparr>)\<rparr> in
               Option.bind (pagedir_activate 0 (mm s)) (\<lambda>m.
               Option.bind (pagedir_destroy pd m) (\<lambda>m. Some (s\<lparr>mm := m\<rparr>)))
             else Some s) (\<lambda>s.
          Some ([Sema_up temporary, Thread_exit], s\<lparr>cur_pcb := None\<rparr>)))"

text \<open>\<^verbatim>\<open>kill\<close> of \<^verbatim>\<open>exception.c\<close>: an exception of a user program ends the process, one of the kernel is a panic. A page fault is treated the same way.\<close>

definition kill :: "intr_frame \<Rightarrow> machine \<Rightarrow> (action list \<times> machine) option" where
  "kill f s = (if if_cs f = SEL_UCSEG then process_exit s else None)"

definition page_fault :: "intr_frame \<Rightarrow> machine \<Rightarrow> (action list \<times> machine) option" where "page_fault f s = kill f s"

text \<open>The arguments of a system call are words in memory, read at virtual addresses by the processor: \<open>vread\<close> gives the word, or \<open>None\<close> for a page
  fault. That fault is one of the kernel, and so a panic.\<close>

definition SYS_EXIT :: u32 where "SYS_EXIT = 1"

definition syscall_handler :: "(u32 \<Rightarrow> machine \<Rightarrow> u32 option) \<Rightarrow> intr_frame \<Rightarrow> machine \<Rightarrow> (intr_frame \<times> action list \<times> machine) option" where
  "syscall_handler vread f s =
     Option.bind (vread (if_esp f) s) (\<lambda>nr.
     if nr = SYS_EXIT then
       Option.bind (vread (if_esp f + 4) s) (\<lambda>status.
       Option.bind (process_exit s) (\<lambda>(acts, s). Some (f\<lparr>if_eax := status\<rparr>, acts, s)))
     else Some (f, [], s))"

end
