(* ===== verification/Inode_IO.thy ===== *)
theory Inode_IO
  imports Inode
begin

text \<open>
  Reading and writing of inodes: a file is an array of bytes, although it lies in sectors and is moved
  through a bounce buffer.
\<close>

declare inode_read_loop.simps [simp del] inode_write_loop.simps [simp del]

section \<open>The disk\<close>

definition disk_of :: "filesys \<Rightarrow> (block_kind \<times> u32 \<times> (u32 \<Rightarrow> u8 list)) option" where
  "disk_of s = map_option (\<lambda>d. (b_type d, b_size d, sectors d)) (devs (disks s) (fs_device s))"

definition dsize :: "filesys \<Rightarrow> u32" where "dsize s = fst (snd (the (disk_of s)))"

definition secs :: "filesys \<Rightarrow> u32 \<Rightarrow> u8 list" where "secs s = snd (snd (the (disk_of s)))"

definition whole :: "u32 \<Rightarrow> (u32 \<Rightarrow> u8 list) \<Rightarrow> bool" where "whole n f \<longleftrightarrow> (\<forall>x < n. length (f x) = 512)"

definition disk_ok :: "filesys \<Rightarrow> bool" where
  "disk_ok s \<longleftrightarrow> (\<exists>t. t \<noteq> BLOCK_FOREIGN \<and> disk_of s = Some (t, dsize s, secs s)) \<and> whole (dsize s) (secs s)"

text \<open>\<open>sync s f s'\<close>: the same file system but for the contents of the sectors, which are \<open>f\<close> in \<open>s'\<close>.\<close>

definition sync :: "filesys \<Rightarrow> (u32 \<Rightarrow> u8 list) \<Rightarrow> filesys \<Rightarrow> bool" where
  "sync s f s' \<longleftrightarrow> disk_ok s' \<and> dsize s' = dsize s \<and> secs s' = f \<and> fs_device s' = fs_device s \<and> inodes s' = inodes s \<and>
     open_inodes s' = open_inodes s \<and> next_iptr s' = next_iptr s \<and> free_map s' = free_map s \<and>
     free_map_file s' = free_map_file s \<and> (oom s = [] \<longrightarrow> oom s' = [])"

lemma sync_refl: "disk_ok s \<Longrightarrow> sync s (secs s) s"
  by (simp add: sync_def)

lemma sync_trans: "sync s f s1 \<Longrightarrow> sync s1 g s2 \<Longrightarrow> sync s g s2"
  by (simp add: sync_def)

lemma disk_okD:
  assumes "disk_ok s"
  obtains d where "devs (disks s) (fs_device s) = Some d" "b_type d \<noteq> BLOCK_FOREIGN" "b_size d = dsize s" "sectors d = secs s"
  using assms by (auto simp: disk_ok_def disk_of_def)

lemma disk_okI:
  assumes "devs (disks s) (fs_device s) = Some d" "b_type d \<noteq> BLOCK_FOREIGN" "whole (b_size d) (sectors d)"
  shows "disk_ok s" "dsize s = b_size d" "secs s = sectors d"
  using assms by (auto simp: disk_ok_def disk_of_def dsize_def secs_def)

lemma dev_read_eq:
  assumes ok: "disk_ok s" and x: "x < dsize s"
  obtains s' where "dev_read x s = Some (secs s x, s')" "sync s (secs s) s'" "oom s' = oom s"
proof -
  obtain d where d: "devs (disks s) (fs_device s) = Some d" "b_type d \<noteq> BLOCK_FOREIGN" "b_size d = dsize s" "sectors d = secs s"
    using ok by (rule disk_okD)
  define s' where "s' = s\<lparr>disks := (disks s)\<lparr>devs := (devs (disks s))(fs_device s \<mapsto> d\<lparr>read_cnt := read_cnt d + 1\<rparr>)\<rparr>\<rparr>"
  have "dev_read x s = Some (secs s x, s')" using d x by (simp add: dev_read_def block_read_def check_sector_def s'_def)
  moreover have "devs (disks s') (fs_device s') = Some (d\<lparr>read_cnt := read_cnt d + 1\<rparr>)" by (simp add: s'_def)
  note disk_okI[OF this]
  then have "sync s (secs s) s'" using d ok by (simp add: sync_def s'_def disk_ok_def)
  ultimately show thesis using that by (simp add: s'_def)
qed

lemma dev_write_eq:
  assumes ok: "disk_ok s" and x: "x < dsize s" and bs: "length bs = 512"
  obtains s' where "dev_write x bs s = Some s'" "sync s ((secs s)(x := bs)) s'" "oom s' = oom s"
proof -
  obtain d where d: "devs (disks s) (fs_device s) = Some d" "b_type d \<noteq> BLOCK_FOREIGN" "b_size d = dsize s" "sectors d = secs s"
    using ok by (rule disk_okD)
  define d' where "d' = d\<lparr>sectors := (sectors d)(x := bs), write_cnt := write_cnt d + 1\<rparr>"
  define s' where "s' = s\<lparr>disks := (disks s)\<lparr>devs := (devs (disks s))(fs_device s \<mapsto> d')\<rparr>\<rparr>"
  have "dev_write x bs s = Some s'" using d x by (simp add: dev_write_def block_write_def check_sector_def s'_def d'_def)
  moreover have "devs (disks s') (fs_device s') = Some d'" by (simp add: s'_def)
  note disk_okI[OF this]
  then have "sync s ((secs s)(x := bs)) s'" using d ok bs by (simp add: sync_def s'_def disk_ok_def whole_def d'_def)
  ultimately show thesis using that by (simp add: s'_def)
qed

lemma disk_oom [simp]:
  "disk_of (s\<lparr>oom := r\<rparr>) = disk_of s" "dsize (s\<lparr>oom := r\<rparr>) = dsize s" "secs (s\<lparr>oom := r\<rparr>) = secs s" "disk_ok (s\<lparr>oom := r\<rparr>) = disk_ok s"
  by (simp_all add: disk_ok_def disk_of_def dsize_def secs_def)

lemma kmalloc_sync: "disk_ok s \<Longrightarrow> kmalloc s = (b, s') \<Longrightarrow> sync s (secs s) s'"
  by (cases "oom s") (auto simp: kmalloc_def sync_def)

lemma kmalloc_ok: "oom s = [] \<Longrightarrow> kmalloc s = (True, s)"
  by (simp add: kmalloc_def)


section \<open>The bytes of a file\<close>

definition fbyte :: "(u32 \<Rightarrow> u8 list) \<Rightarrow> inode_disk \<Rightarrow> nat \<Rightarrow> u8" where
  "fbyte f d k = f (start_sector d + of_nat (k div 512)) ! (k mod 512)"

definition fbytes :: "(u32 \<Rightarrow> u8 list) \<Rightarrow> inode_disk \<Rightarrow> u8 list" where
  "fbytes f d = map (fbyte f d) [0..<nat (file_length d)]"

definition nsec :: "inode_disk \<Rightarrow> nat" where "nsec d = (nat (file_length d) + 511) div 512"

text \<open>The sectors of a file, and that they lie on the disk.\<close>

definition data_secs :: "inode_disk \<Rightarrow> nat set" where
  "data_secs d = {unat (start_sector d) ..< unat (start_sector d) + nsec d}"

definition fits :: "u32 \<Rightarrow> inode_disk \<Rightarrow> bool" where
  "fits n d \<longleftrightarrow> 0 \<le> file_length d \<and> file_length d + 511 < 2 ^ 31 \<and> unat (start_sector d) + nsec d \<le> unat n"

lemma length_fbytes [simp]: "length (fbytes f d) = nat (file_length d)"
  by (simp add: fbytes_def)

lemma sector_of:
  assumes "fits n d" "k < nat (file_length d)"
  shows "unat (start_sector d + of_nat (k div 512)) = unat (start_sector d) + k div 512" "k div 512 < nsec d"
    "start_sector d + of_nat (k div 512) < n"
proof -
  show lt: "k div 512 < nsec d"
  proof -
    have "(k + 512) div 512 \<le> (nat (file_length d) + 511) div 512" using assms(2) by (intro div_le_mono) simp
    then show ?thesis by (simp add: nsec_def)
  qed
  have b: "unat (start_sector d) + k div 512 < unat n" using lt assms(1) by (simp add: fits_def)
  then have "unat (start_sector d) + k div 512 < 2 ^ 32" using unat_bound[of n] by simp
  moreover from this have "unat (of_nat (k div 512) :: u32) = k div 512" by (simp add: unat_of_nat)
  ultimately show "unat (start_sector d + of_nat (k div 512)) = unat (start_sector d) + k div 512"
    using unat_add_lem[of "start_sector d" "of_nat (k div 512)"] by simp
  then show "start_sector d + of_nat (k div 512) < n" using b by (simp add: word_less_nat_alt)
qed

lemma nonneg_sdiv: "0 \<le> (a :: int) \<Longrightarrow> 0 < b \<Longrightarrow> a sdiv b = a div b"
  by (cases "a = 0") (auto simp: signed_divide_int_def)

lemma nonneg_smod: "0 \<le> (a :: int) \<Longrightarrow> 0 < b \<Longrightarrow> a smod b = a mod b"
  by (cases "a = 0") (auto simp: signed_modulo_int_def)

lemma chunk_size_eq:
  assumes "0 \<le> offset"
  shows "chunk_size i sz offset = min sz (min (file_length (data i) - offset) (512 - offset mod 512))"
proof -
  have "offset smod BLOCK_SECTOR_SIZE = offset mod 512" using assms by (simp add: BLOCK_SECTOR_SIZE_def nonneg_smod)
  then show ?thesis by (simp add: chunk_size_def Let_def BLOCK_SECTOR_SIZE_def min_def)
qed

text \<open>How many bytes the next turn moves, and that they are in one sector.\<close>

definition chunk :: "inode_disk \<Rightarrow> nat \<Rightarrow> nat \<Rightarrow> nat" where
  "chunk d m k = min m (min (nat (file_length d) - k) (512 - k mod 512))"

lemma chunk_bounds:
  assumes "k < nat (file_length d)" "0 < m"
  shows "0 < chunk d m k" "chunk d m k \<le> m" "k + chunk d m k \<le> nat (file_length d)" "k mod 512 + chunk d m k \<le> 512"
proof -
  have "k mod 512 < 512" by simp
  then show "0 < chunk d m k" "chunk d m k \<le> m" "k + chunk d m k \<le> nat (file_length d)" "k mod 512 + chunk d m k \<le> 512"
    using assms by (auto simp: chunk_def)
qed

lemma chunk_size_nat:
  assumes "0 \<le> file_length (data i)"
  shows "k < nat (file_length (data i)) \<Longrightarrow> chunk_size i (int m) (int k) = int (chunk (data i) m k)"
    "nat (file_length (data i)) \<le> k \<Longrightarrow> chunk_size i (int m) (int k) \<le> 0"
proof -
  have c: "chunk_size i (int m) (int k) = min (int m) (min (file_length (data i) - int k) (512 - int (k mod 512)))"
    by (simp add: chunk_size_eq zmod_int)
  have "k mod 512 < 512" by simp
  then show "k < nat (file_length (data i)) \<Longrightarrow> chunk_size i (int m) (int k) = int (chunk (data i) m k)"
    unfolding c chunk_def by (auto simp: min_def)
  show "nat (file_length (data i)) \<le> k \<Longrightarrow> chunk_size i (int m) (int k) \<le> 0" using assms unfolding c by auto
qed

lemma byte_to_sector_nat:
  assumes "0 \<le> file_length (data i)" "k < nat (file_length (data i))"
  shows "byte_to_sector i (int k) = start_sector (data i) + of_nat (k div 512)"
proof -
  have "int k sdiv BLOCK_SECTOR_SIZE = int (k div 512)" by (simp add: nonneg_sdiv BLOCK_SECTOR_SIZE_def zdiv_int)
  moreover have "int k < file_length (data i)" using assms by linarith
  ultimately show ?thesis by (simp add: byte_to_sector_def)
qed

lemma sector_ofs_nat: "int k smod BLOCK_SECTOR_SIZE = int (k mod 512)" "int k smod 512 = int (k mod 512)"
  by (simp_all add: nonneg_smod BLOCK_SECTOR_SIZE_def zmod_int)

lemma within_sector:
  fixes k j :: nat
  assumes "k mod 512 + c \<le> 512" "j < c" shows "(k + j) div 512 = k div 512" "(k + j) mod 512 = k mod 512 + j"
proof -
  have "k + j = k div 512 * 512 + (k mod 512 + j)" by simp
  moreover have lt: "k mod 512 + j < 512" using assms by simp
  ultimately show "(k + j) div 512 = k div 512" "(k + j) mod 512 = k mod 512 + j"
    by (metis div_mult_self3 div_less add.right_neutral zero_neq_numeral, metis mod_mult_self3 mod_less)
qed

lemma sector_slice:
  assumes "k mod 512 + c \<le> 512" "length (f (start_sector d + of_nat (k div 512))) = 512"
  shows "take c (drop (k mod 512) (f (start_sector d + of_nat (k div 512)))) = map (fbyte f d) [k ..< k + c]"
  by (rule nth_equalityI) (use assms in \<open>auto simp: fbyte_def within_sector\<close>)

lemma map_upt_append: "k \<le> n \<Longrightarrow> n \<le> m \<Longrightarrow> map g [k..<n] @ map g [n..<m] = map g [k..<m]"
  by (metis le_Suc_ex map_append upt_add_eq_append)

text \<open>The end of a transfer of \<open>m\<close> bytes from byte \<open>k\<close> on.\<close>

definition xfer_end :: "inode_disk \<Rightarrow> nat \<Rightarrow> nat \<Rightarrow> nat" where
  "xfer_end d k m = max k (min (k + m) (nat (file_length d)))"

lemma xfer_step:
  assumes "k < nat (file_length d)" "0 < m"
  shows "xfer_end d (k + chunk d m k) (m - chunk d m k) = xfer_end d k m" "k + chunk d m k \<le> xfer_end d k m"
  using chunk_bounds[OF assms] by (auto simp: xfer_end_def)

lemma read_loop_eq:
  assumes "disk_ok s" "inodes s p = Some i" "fits (dsize s) (data i)"
  shows "\<exists>n s'. inode_read_loop p (int m) (int k) bounce s = Some (map (fbyte (secs s) (data i)) [k..<n], s') \<and>
    sync s (secs s) s' \<and> k \<le> n \<and> n \<le> xfer_end (data i) k m \<and> (bounce \<or> oom s = [] \<longrightarrow> n = xfer_end (data i) k m)"
  using assms
proof (induction m arbitrary: k bounce s rule: less_induct)
  case (less m)
  let ?d = "data i"
  have pos: "0 \<le> file_length ?d" using less.prems(3) by (simp add: fits_def)
  show ?case
  proof (cases "0 < m \<and> k < nat (file_length ?d)")
    case False
    then have "inode_read_loop p (int m) (int k) bounce s = Some ([], s)"
      using less.prems(2) chunk_size_nat(2)[OF pos, of k m] by (subst inode_read_loop.simps) (auto simp: Let_def)
    moreover have "xfer_end ?d k m = k" using False by (auto simp: xfer_end_def)
    ultimately show ?thesis using sync_refl[OF less.prems(1)] by (intro exI[of _ k] exI[of _ s]) simp
  next
    case True
    then have kl: "k < nat (file_length ?d)" and m: "0 < m" by auto
    define c where "c = chunk ?d m k"
    note cb = chunk_bounds[OF kl m, folded c_def] and xs = xfer_step[OF kl m, folded c_def]
    note so = sector_of[OF less.prems(3) kl]
    define x where "x = start_sector ?d + of_nat (k div 512)"
    have bx: "byte_to_sector i (int k) = x" "chunk_size i (int m) (int k) = int c"
      using byte_to_sector_nat[OF pos kl] chunk_size_nat(1)[OF pos kl] by (simp_all add: x_def c_def)
    have rest: "int m - int c = int (m - c)" "int k + int c = int (k + c)" using cb(2) by simp_all
    have piece: "take c (drop (k mod 512) (secs s x)) = map (fbyte (secs s) ?d) [k ..< k + c]"
      using sector_slice[OF cb(4)] less.prems(1) so(3) by (simp add: x_def disk_ok_def whole_def)
    have turn: "\<exists>n s'. Option.bind (dev_read x s1) (\<lambda>(bs, s). Option.bind (inode_read_loop p (int m - int c) (int k + int c) b s)
          (\<lambda>(r, s). Some (take c (drop (k mod 512) bs) @ r, s))) = Some (map (fbyte (secs s) ?d) [k..<n], s') \<and>
        sync s (secs s) s' \<and> k \<le> n \<and> n \<le> xfer_end ?d k m \<and> (b \<or> oom s1 = [] \<longrightarrow> n = xfer_end ?d k m)"
      if s1: "sync s (secs s) s1" for s1 b
    proof -
      have d1: "disk_ok s1" "dsize s1 = dsize s" "secs s1 = secs s" "inodes s1 = inodes s" using s1 by (simp_all add: sync_def)
      obtain s2 where s2: "dev_read x s1 = Some (secs s x, s2)" "sync s1 (secs s1) s2" "oom s2 = oom s1"
        using dev_read_eq[OF d1(1), of x] so(3) d1 by (auto simp: x_def)
      have d2: "disk_ok s2" "dsize s2 = dsize s" "secs s2 = secs s" "inodes s2 = inodes s" using s2(2) d1 by (simp_all add: sync_def)
      have "m - c < m" using cb(1) m by simp
      from less.IH[OF this d2(1), of "k + c" b] less.prems(2,3) d2
      obtain n s' where r: "inode_read_loop p (int (m - c)) (int (k + c)) b s2 = Some (map (fbyte (secs s) ?d) [k + c..<n], s')"
        "sync s2 (secs s) s'" "k + c \<le> n" "n \<le> xfer_end ?d (k + c) (m - c)" "b \<or> oom s2 = [] \<longrightarrow> n = xfer_end ?d (k + c) (m - c)"
        by auto
      have "map (fbyte (secs s) ?d) [k..<k + c] @ map (fbyte (secs s) ?d) [k + c..<n] = map (fbyte (secs s) ?d) [k..<n]"
        by (rule map_upt_append) (use r(3) in auto)
      then have "Option.bind (dev_read x s1) (\<lambda>(bs, s). Option.bind (inode_read_loop p (int m - int c) (int k + int c) b s)
          (\<lambda>(r, s). Some (take c (drop (k mod 512) bs) @ r, s))) = Some (map (fbyte (secs s) ?d) [k..<n], s')"
        unfolding rest s2(1) by (simp add: r(1) piece del: of_nat_add of_nat_diff)
      moreover have "sync s (secs s) s'" by (rule sync_trans[OF s1 sync_trans[OF s2(2) r(2)]])
      moreover have "b \<or> oom s1 = [] \<longrightarrow> n = xfer_end ?d k m" using r(5) s2(3) xs(1) by simp
      ultimately show ?thesis using r(3,4) xs(1) by (intro exI[of _ n] exI[of _ s']) simp
    qed
    show ?thesis
    proof (cases "k mod 512 = 0 \<and> c = 512")
      case True
      obtain s2 where rd: "dev_read x s = Some (secs s x, s2)" using dev_read_eq[OF less.prems(1), of x] so(3) x_def by blast
      have "length (secs s x) = 512" using less.prems(1) so(3) by (simp add: x_def disk_ok_def whole_def)
      then have full: "take c (drop (k mod 512) (secs s x)) = secs s x" using True by simp
      have "inode_read_loop p (int m) (int k) bounce s =
        Option.bind (dev_read x s) (\<lambda>(bs, s). Option.bind (inode_read_loop p (int m - int c) (int k + int c) bounce s)
          (\<lambda>(r, s). Some (bs @ r, s)))"
        using less.prems(2) m cb(1) True bx by (subst inode_read_loop.simps) (simp add: Let_def sector_ofs_nat BLOCK_SECTOR_SIZE_def)
      also have "\<dots> = Option.bind (dev_read x s) (\<lambda>(bs, s). Option.bind (inode_read_loop p (int m - int c) (int k + int c) bounce s)
          (\<lambda>(r, s). Some (take c (drop (k mod 512) bs) @ r, s)))"
        unfolding rd by (simp add: full)
      finally show ?thesis using turn[OF sync_refl[OF less.prems(1)], of bounce] by simp
    next
      case False
      obtain ok s1 where k1: "(if bounce then (True, s) else kmalloc s) = (ok, s1)" by (metis surj_pair)
      have s1: "sync s (secs s) s1" using k1 kmalloc_sync[OF less.prems(1)] sync_refl[OF less.prems(1)] by (auto split: if_splits)
      have o1: "oom s = [] \<Longrightarrow> oom s1 = [] \<and> ok" "bounce \<Longrightarrow> ok" using k1 kmalloc_ok[of s] by (auto split: if_splits)
      have "inode_read_loop p (int m) (int k) bounce s =
        (if \<not> ok then Some ([], s1) else
        Option.bind (dev_read x s1) (\<lambda>(bs, s). Option.bind (inode_read_loop p (int m - int c) (int k + int c) True s)
          (\<lambda>(r, s). Some (take c (drop (k mod 512) bs) @ r, s))))"
        using less.prems(2) m cb(1) False bx k1 by (subst inode_read_loop.simps) (auto simp: Let_def sector_ofs_nat BLOCK_SECTOR_SIZE_def)
      note step = this
      show ?thesis
      proof (cases "ok = True")
        case True
        note step' = step[unfolded True not_True_eq_False if_False]
        show ?thesis using turn[OF s1, of True] unfolding step' by blast
      next
        case False
        have "k \<le> xfer_end ?d k m" by (simp add: xfer_end_def)
        then show ?thesis using False step o1 s1 by (intro exI[of _ k] exI[of _ s1]) auto
      qed
    qed
  qed
qed

section \<open>Writing\<close>

definition wrote :: "(u32 \<Rightarrow> u8 list) \<Rightarrow> inode_disk \<Rightarrow> nat \<Rightarrow> u8 list \<Rightarrow> (u32 \<Rightarrow> u8 list) \<Rightarrow> bool" where
  "wrote f d k bs f' \<longleftrightarrow>
     (\<forall>j < nat (file_length d). fbyte f' d j = (if k \<le> j \<and> j < k + length bs then bs ! (j - k) else fbyte f d j)) \<and>
     (\<forall>x. unat x \<notin> data_secs d \<longrightarrow> f' x = f x) \<and> (\<forall>x. length (f x) = 512 \<longrightarrow> length (f' x) = 512)"

lemma wrote_refl: "wrote f d k [] f"
  by (simp add: wrote_def)

lemma wrote_trans:
  assumes "wrote f d k bs f1" "wrote f1 d (k + length bs) cs f2" shows "wrote f d k (bs @ cs) f2"
  using assms unfolding wrote_def by (auto simp: nth_append)

lemma splice_nth:
  "k + length bs \<le> length y \<Longrightarrow> j < length y \<Longrightarrow>
   (take k y @ bs @ drop (k + length bs) y) ! j = (if k \<le> j \<and> j < k + length bs then bs ! (j - k) else y ! j)"
  by (auto simp: nth_append)

lemma wrote_sector:
  assumes fit: "fits n d" and k: "k < nat (file_length d)" and c: "k mod 512 + length bs \<le> 512"
    and x: "x = start_sector d + of_nat (k div 512)" and len: "length (f x) = 512"
  shows "wrote f d k bs (f(x := take (k mod 512) (f x) @ bs @ drop (k mod 512 + length bs) (f x)))" (is "wrote f d k bs ?f")
  unfolding wrote_def
proof (intro conjI allI impI)
  fix j assume j: "j < nat (file_length d)"
  note sk = sector_of[OF fit k] and sj = sector_of[OF fit j]
  have same: "start_sector d + of_nat (j div 512) = x \<longleftrightarrow> j div 512 = k div 512"
    unfolding x word_unat_eq_iff sk(1) sj(1) by simp
  show "fbyte ?f d j = (if k \<le> j \<and> j < k + length bs then bs ! (j - k) else fbyte f d j)"
  proof (cases "j div 512 = k div 512")
    case True
    have jk: "j = k div 512 * 512 + j mod 512" "k = k div 512 * 512 + k mod 512" using True by (metis div_mult_mod_eq)+
    then have "k \<le> j \<longleftrightarrow> k mod 512 \<le> j mod 512" "j < k + length bs \<longleftrightarrow> j mod 512 < k mod 512 + length bs"
      "j - k = j mod 512 - k mod 512" by linarith+
    moreover have "fbyte ?f d j = (take (k mod 512) (f x) @ bs @ drop (k mod 512 + length bs) (f x)) ! (j mod 512)"
      "fbyte f d j = f x ! (j mod 512)" using same True by (simp_all add: fbyte_def x)
    ultimately show ?thesis using c len by (simp add: splice_nth)
  next
    case False
    have "\<not> (k \<le> j \<and> j < k + length bs)"
    proof
      assume r: "k \<le> j \<and> j < k + length bs"
      then have "j - k < length bs" by arith
      then show False using within_sector(1)[OF c, of "j - k"] False r by simp
    qed
    then show ?thesis using same False by (auto simp: fbyte_def)
  qed
next
  fix y :: u32 assume "unat y \<notin> data_secs d"
  then have "y \<noteq> x" using sector_of[OF fit k] x by (auto simp: data_secs_def)
  then show "?f y = f y" by simp
qed (use c len in auto)

lemma write_loop_eq:
  assumes "disk_ok s" "inodes s p = Some i" "fits (dsize s) (data i)" "m \<le> length buf"
  shows "\<exists>n s' f'. inode_write_loop p buf (int m) (int k) bounce s = Some (int n, s') \<and> sync s f' s' \<and>
    wrote (secs s) (data i) k (take n buf) f' \<and> n \<le> m \<and> k + n \<le> xfer_end (data i) k m \<and>
    (bounce \<or> oom s = [] \<longrightarrow> k + n = xfer_end (data i) k m)"
  using assms
proof (induction m arbitrary: k bounce buf s rule: less_induct)
  case (less m)
  let ?d = "data i"
  have pos: "0 \<le> file_length ?d" using less.prems(3) by (simp add: fits_def)
  show ?case
  proof (cases "0 < m \<and> k < nat (file_length ?d)")
    case False
    then have "inode_write_loop p buf (int m) (int k) bounce s = Some (0, s)"
      using less.prems(2) chunk_size_nat(2)[OF pos, of k m] by (subst inode_write_loop.simps) (auto simp: Let_def)
    moreover have "xfer_end ?d k m = k" using False by (auto simp: xfer_end_def)
    ultimately show ?thesis using sync_refl[OF less.prems(1)] wrote_refl[of "secs s" ?d k] by (intro exI[of _ 0] exI[of _ s]) auto
  next
    case True
    then have kl: "k < nat (file_length ?d)" and m: "0 < m" by auto
    define c where "c = chunk ?d m k"
    note cb = chunk_bounds[OF kl m, folded c_def] and xs = xfer_step[OF kl m, folded c_def]
    note so = sector_of[OF less.prems(3) kl]
    define x where "x = start_sector ?d + of_nat (k div 512)"
    define b1 where "b1 = take (k mod 512) (secs s x) @ take c buf @ drop (k mod 512 + c) (secs s x)"
    have bx: "byte_to_sector i (int k) = x" "chunk_size i (int m) (int k) = int c"
      using byte_to_sector_nat[OF pos kl] chunk_size_nat(1)[OF pos kl] by (simp_all add: x_def c_def)
    have rest: "int m - int c = int (m - c)" "int k + int c = int (k + c)" using cb(2) by simp_all
    have len: "length (secs s x) = 512" "length (take c buf) = c"
      using less.prems(1,4) so(3) cb(2) by (simp_all add: x_def disk_ok_def whole_def)
    have b1: "length b1 = 512" using len cb(4) by (simp add: b1_def)
    have w1: "wrote (secs s) ?d k (take c buf) ((secs s)(x := b1))"
      using wrote_sector[of "dsize s" ?d k "take c buf" x "secs s"] less.prems(3) kl x_def len cb(4) by (simp add: b1_def)
    have turn: "\<exists>n s' f'. Option.bind (dev_write x b1 s1) (\<lambda>s. Option.bind (inode_write_loop p (drop c buf) (int m - int c) (int k + int c) b s)
          (\<lambda>(n, s). Some (int c + n, s))) = Some (int n, s') \<and> sync s f' s' \<and> wrote (secs s) ?d k (take n buf) f' \<and> n \<le> m \<and>
        k + n \<le> xfer_end ?d k m \<and> (b \<or> oom s1 = [] \<longrightarrow> k + n = xfer_end ?d k m)"
      if s1: "sync s (secs s) s1" for s1 b
    proof -
      have d1: "disk_ok s1" "dsize s1 = dsize s" "secs s1 = secs s" "inodes s1 = inodes s" using s1 by (simp_all add: sync_def)
      obtain s2 where s2: "dev_write x b1 s1 = Some s2" "sync s1 ((secs s1)(x := b1)) s2" "oom s2 = oom s1"
        using dev_write_eq[OF d1(1) _ b1] so(3) d1 by (auto simp: x_def)
      have d2: "disk_ok s2" "dsize s2 = dsize s" "secs s2 = (secs s)(x := b1)" "inodes s2 = inodes s" using s2(2) d1 by (simp_all add: sync_def)
      have mc: "m - c < m" "m - c \<le> length (drop c buf)" using cb(1) m less.prems(4) by simp_all
      have i2: "inodes s2 p = Some i" "fits (dsize s2) ?d" using less.prems(2,3) d2 by simp_all
      from less.IH[OF mc(1) d2(1) i2 mc(2), of "k + c" b, unfolded d2(3)]
      obtain n s' f' where r: "inode_write_loop p (drop c buf) (int (m - c)) (int (k + c)) b s2 = Some (int n, s')"
        "sync s2 f' s'" "wrote ((secs s)(x := b1)) ?d (k + c) (take n (drop c buf)) f'" "n \<le> m - c"
        "k + c + n \<le> xfer_end ?d (k + c) (m - c)" "b \<or> oom s2 = [] \<longrightarrow> k + c + n = xfer_end ?d (k + c) (m - c)" by blast
      have "wrote (secs s) ?d k (take c buf @ take n (drop c buf)) f'" using wrote_trans[OF w1] r(3) len(2) by simp
      then have w: "wrote (secs s) ?d k (take (c + n) buf) f'" by (simp add: take_add)
      have "Option.bind (dev_write x b1 s1) (\<lambda>s. Option.bind (inode_write_loop p (drop c buf) (int m - int c) (int k + int c) b s)
          (\<lambda>(n, s). Some (int c + n, s))) = Some (int (c + n), s')"
        unfolding rest s2(1) by (simp add: r(1) del: of_nat_add of_nat_diff)
      moreover have "sync s f' s'" by (rule sync_trans[OF s1 sync_trans[OF s2(2) r(2)]])
      moreover have "b \<or> oom s1 = [] \<longrightarrow> k + (c + n) = xfer_end ?d k m" using r(6) s2(3) xs(1) by (simp add: add.assoc)
      moreover have "c + n \<le> m" "k + (c + n) \<le> xfer_end ?d k m" using r(4,5) cb(2) xs(1) by simp_all
      ultimately show ?thesis using w by blast
    qed
    show ?thesis
    proof (cases "k mod 512 = 0 \<and> c = 512")
      case True
      have "b1 = take c buf" using True len by (simp add: b1_def)
      then have "inode_write_loop p buf (int m) (int k) bounce s =
        Option.bind (dev_write x b1 s) (\<lambda>s. Option.bind (inode_write_loop p (drop c buf) (int m - int c) (int k + int c) bounce s)
          (\<lambda>(n, s). Some (int c + n, s)))"
        using less.prems(2,4) m cb(1,2) True bx by (subst inode_write_loop.simps) (simp add: Let_def sector_ofs_nat BLOCK_SECTOR_SIZE_def)
      then show ?thesis using turn[OF sync_refl[OF less.prems(1)], of bounce] by simp
    next
      case False
      obtain ok s1 where k1: "(if bounce then (True, s) else kmalloc s) = (ok, s1)" by (metis surj_pair)
      have s1: "sync s (secs s) s1" using k1 kmalloc_sync[OF less.prems(1)] sync_refl[OF less.prems(1)] by (auto split: if_splits)
      have o1: "oom s = [] \<Longrightarrow> oom s1 = [] \<and> ok" "bounce \<Longrightarrow> ok" using k1 kmalloc_ok[of s] by (auto split: if_splits)
      have d1: "disk_ok s1" "dsize s1 = dsize s" "secs s1 = secs s" using s1 by (simp_all add: sync_def)
      obtain s2 where s2: "dev_read x s1 = Some (secs s x, s2)" "sync s1 (secs s1) s2" "oom s2 = oom s1"
        using dev_read_eq[OF d1(1), of x] so(3) d1 by (auto simp: x_def)
      have s02: "sync s (secs s) s2" using sync_trans[OF s1] s2(2) d1(3) by simp
      have old: "0 < int (k mod 512) \<or> int c < BLOCK_SECTOR_SIZE - int (k mod 512)"
        using False cb(4) by (auto simp: BLOCK_SECTOR_SIZE_def)
      have "inode_write_loop p buf (int m) (int k) bounce s =
        (if \<not> ok then Some (0, s1) else
        Option.bind (dev_write x b1 s2) (\<lambda>s. Option.bind (inode_write_loop p (drop c buf) (int m - int c) (int k + int c) True s)
          (\<lambda>(n, s). Some (int c + n, s))))"
        using less.prems(2,4) m cb(1,2) False bx k1 s2(1) old
        by (subst inode_write_loop.simps) (auto simp: Let_def sector_ofs_nat BLOCK_SECTOR_SIZE_def b1_def nat_int_add)
      note step = this
      show ?thesis
      proof (cases "ok = True")
        case True
        note step' = step[unfolded True not_True_eq_False if_False]
        show ?thesis using turn[OF s02, of True] unfolding step' by blast
      next
        case False
        have "k \<le> xfer_end ?d k m" by (simp add: xfer_end_def)
        then show ?thesis using False step o1 s1 wrote_refl[of "secs s" ?d k] by (intro exI[of _ 0] exI[of _ s1] exI[of _ "secs s"]) auto
      qed
    qed
  qed
qed

section \<open>Files as arrays of bytes\<close>

lemma fbytes_piece: "n \<le> nat (file_length d) \<Longrightarrow> map (fbyte f d) [k..<n] = take (n - k) (drop k (fbytes f d))"
  by (rule nth_equalityI) (auto simp: fbytes_def)

lemma read_at_eq:
  assumes "disk_ok s" "inodes s p = Some i" "fits (dsize s) (data i)"
  obtains n s' where "inode_read_at p (int m) (int k) s = Some (take n (drop k (fbytes (secs s) (data i))), s')"
    "sync s (secs s) s'" "n \<le> m"
    "oom s = [] \<Longrightarrow> take n (drop k (fbytes (secs s) (data i))) = take m (drop k (fbytes (secs s) (data i)))"
proof -
  let ?L = "nat (file_length (data i))" and ?fb = "fbytes (secs s) (data i)"
  obtain n s' where r: "inode_read_loop p (int m) (int k) False s = Some (map (fbyte (secs s) (data i)) [k..<n], s')"
      "sync s (secs s) s'" "k \<le> n" "n \<le> xfer_end (data i) k m" "oom s = [] \<longrightarrow> n = xfer_end (data i) k m"
    using read_loop_eq[OF assms, of m k False] by auto
  have piece: "map (fbyte (secs s) (data i)) [k..<n] = take (n - k) (drop k ?fb)"
  proof (cases "k \<le> ?L")
    case True
    then show ?thesis using r(4) by (intro fbytes_piece) (simp add: xfer_end_def)
  qed (use r(4) in \<open>simp add: xfer_end_def\<close>)
  have "take (n - k) (drop k ?fb) = take m (drop k ?fb)" if "oom s = []"
  proof -
    have "n = max k (min (k + m) ?L)" using r(5) that by (simp add: xfer_end_def)
    then have "n - k = min m (?L - k)" by linarith
    then have "n - k = min m (length (drop k ?fb))" by simp
    then show ?thesis using take_take[of m "length (drop k ?fb)" "drop k ?fb"] by (simp only: take_all[OF order_refl])
  qed
  moreover have "n - k \<le> m" using r(4) by (auto simp: xfer_end_def)
  ultimately show thesis using that r(1,2) piece by (simp add: inode_read_at_def)
qed

lemma write_at_eq:
  assumes "disk_ok s" "inodes s p = Some i" "fits (dsize s) (data i)" "deny_write_cnt i = 0" "m \<le> length buf"
  obtains n s' f' where "inode_write_at p buf (int m) (int k) s = Some (int n, s')" "sync s f' s'"
    "wrote (secs s) (data i) k (take n buf) f'" "n \<le> m" "n \<le> nat (file_length (data i)) - k"
    "oom s = [] \<Longrightarrow> n = min m (nat (file_length (data i)) - k)"
proof -
  obtain n s' f' where r: "inode_write_loop p buf (int m) (int k) False s = Some (int n, s')" "sync s f' s'"
      "wrote (secs s) (data i) k (take n buf) f'" "n \<le> m" "k + n \<le> xfer_end (data i) k m"
      "oom s = [] \<longrightarrow> k + n = xfer_end (data i) k m"
    using write_loop_eq[OF assms(1-3,5), of k False] by auto
  show thesis
    by (rule that[OF _ r(2,3,4)]) (use r assms(2,4) in \<open>auto simp: inode_write_at_def xfer_end_def\<close>)
qed

lemma wrote_fbytes:
  assumes "wrote f d k bs f'" "bs = [] \<or> k + length bs \<le> nat (file_length d)"
  shows "fbytes f' d = take k (fbytes f d) @ bs @ drop (k + length bs) (fbytes f d)"
proof (cases "bs = []")
  case True
  then show ?thesis using assms(1) by (auto simp: wrote_def fbytes_def)
next
  case False
  then have le: "k + length bs \<le> nat (file_length d)" using assms(2) by simp
  show ?thesis
  proof (rule nth_equalityI)
    fix j assume "j < length (fbytes f' d)"
    then have j: "j < nat (file_length d)" by simp
    have sp: "(take k (fbytes f d) @ bs @ drop (k + length bs) (fbytes f d)) ! j =
        (if k \<le> j \<and> j < k + length bs then bs ! (j - k) else fbytes f d ! j)"
      using le j by (intro splice_nth) simp_all
    show "fbytes f' d ! j = (take k (fbytes f d) @ bs @ drop (k + length bs) (fbytes f d)) ! j"
      unfolding sp using assms(1) j by (simp add: wrote_def fbytes_def)
  qed (use le in simp)
qed

lemma wrote_other:
  assumes "wrote f d k bs f'" "fits n d'" "data_secs d \<inter> data_secs d' = {}"
  shows "fbytes f' d' = fbytes f d'"
proof -
  have "fbyte f' d' j = fbyte f d' j" if "j < nat (file_length d')" for j
  proof -
    have "unat (start_sector d' + of_nat (j div 512)) \<in> data_secs d'" using sector_of[OF assms(2) that] by (simp add: data_secs_def)
    then have "unat (start_sector d' + of_nat (j div 512)) \<notin> data_secs d" using assms(3) by blast
    then show ?thesis using assms(1) by (simp add: wrote_def fbyte_def)
  qed
  then show ?thesis by (simp add: fbytes_def)
qed

lemma wrote_inside:
  assumes "wrote f d k bs f'" "unat x \<notin> data_secs d" shows "f' x = f x"
  using assms by (simp add: wrote_def)

section \<open>Properties\<close>

lemma inode_write_eq:
  assumes "disk_ok s" "inodes s p = Some i" "fits (dsize s) (data i)" "m \<le> length buf"
  shows "\<exists>n s'. inode_write_at p buf (int m) (int k) s = Some (int n, s') \<and> sync s (secs s') s' \<and>
    fbytes (secs s') (data i) = take k (fbytes (secs s) (data i)) @ take n buf @ drop (k + n) (fbytes (secs s) (data i)) \<and>
    (\<forall>x. unat x \<notin> data_secs (data i) \<longrightarrow> secs s' x = secs s x) \<and> n \<le> m \<and>
    (if deny_write_cnt i \<noteq> 0 then n = 0 \<and> secs s' = secs s
     else oom s = [] \<longrightarrow> n = min m (nat (file_length (data i)) - k))"
proof (cases "deny_write_cnt i = 0")
  case False
  then have "inode_write_at p buf (int m) (int k) s = Some (int 0, s)" using assms(2) by (simp add: inode_write_at_def)
  then show ?thesis using False sync_refl[OF assms(1)] by (intro exI[of _ 0] exI[of _ s]) simp
next
  case True
  obtain n s' f' where w: "inode_write_at p buf (int m) (int k) s = Some (int n, s')" "sync s f' s'"
    "wrote (secs s) (data i) k (take n buf) f'" "n \<le> m" "n \<le> nat (file_length (data i)) - k"
    "oom s = [] \<longrightarrow> n = min m (nat (file_length (data i)) - k)" using write_at_eq[OF assms(1-3) True assms(4)] by metis
  have len: "length (take n buf) = n" using w(4) assms(4) by simp
  have "n = 0 \<or> k + n \<le> nat (file_length (data i))" using w(5) by linarith
  then have "take n buf = [] \<or> k + length (take n buf) \<le> nat (file_length (data i))" using len by auto
  from wrote_fbytes[OF w(3) this] len
  have "fbytes f' (data i) = take k (fbytes (secs s) (data i)) @ take n buf @ drop (k + n) (fbytes (secs s) (data i))"
    by simp
  moreover have "secs s' = f'" using w(2) by (simp add: sync_def)
  ultimately show ?thesis using w wrote_inside[OF w(3)] True by (intro exI[of _ n] exI[of _ s']) simp
qed

lemma inode_write_frame:
  assumes "disk_ok s" "inodes s p = Some i" "fits (dsize s) (data i)" "m \<le> length buf"
  shows "\<exists>n s'. inode_write_at p buf (int m) (int k) s = Some (n, s') \<and> (\<forall>x. unat x \<notin> data_secs (data i) \<longrightarrow> secs s' x = secs s x)"
  using inode_write_eq[OF assms, of k] by blast

text \<open>C22. An inode is an array of bytes of fixed length. A read returns bytes from the offset on, all that were asked for and are in the file
  unless memory for the bounce buffer runs out, and changes no sector. A write to an inode that is denied writes stores nothing and returns 0. Any other write stores a
  prefix of the buffer at the offset, again all of it that fits unless memory runs out, returns the length of what it stored, and keeps the other bytes of the file and
  every sector outside it. Neither panics.\<close>

theorem inode_io_refines_bytes:
  assumes "disk_ok s" "inodes s p = Some i" "fits (dsize s) (data i)" "m \<le> length buf"
  shows "(\<exists>n s'. inode_read_at p (int m) (int k) s = Some (take n (drop k (fbytes (secs s) (data i))), s') \<and> sync s (secs s) s' \<and>
      n \<le> m \<and> (oom s = [] \<longrightarrow> take n (drop k (fbytes (secs s) (data i))) = take m (drop k (fbytes (secs s) (data i))))) \<and>
    (\<exists>n s'. inode_write_at p buf (int m) (int k) s = Some (int n, s') \<and> sync s (secs s') s' \<and>
      fbytes (secs s') (data i) = take k (fbytes (secs s) (data i)) @ take n buf @ drop (k + n) (fbytes (secs s) (data i)) \<and>
      (\<forall>x. unat x \<notin> data_secs (data i) \<longrightarrow> secs s' x = secs s x) \<and> n \<le> m \<and>
      (if deny_write_cnt i \<noteq> 0 then n = 0 \<and> secs s' = secs s
       else oom s = [] \<longrightarrow> n = min m (nat (file_length (data i)) - k)))"
proof -
  obtain n1 s1 where r: "inode_read_at p (int m) (int k) s = Some (take n1 (drop k (fbytes (secs s) (data i))), s1)"
      "sync s (secs s) s1" "n1 \<le> m"
      "oom s = [] \<longrightarrow> take n1 (drop k (fbytes (secs s) (data i))) = take m (drop k (fbytes (secs s) (data i)))"
    using read_at_eq[OF assms(1-3)] by metis
  show ?thesis using r inode_write_eq[OF assms, of k] by blast
qed

text \<open>A disk of 16 sectors, and an inode of 700 bytes in sectors 5 and 6.\<close>

definition sample_disk :: block where
  "sample_disk = \<lparr>b_name = ''hda'', b_type = BLOCK_FILESYS, b_size = 16, sectors = (\<lambda>_. replicate 512 0), read_cnt = 0, write_cnt = 0\<rparr>"

definition sample_inode :: inode where
  "sample_inode = \<lparr>inode_sector = 4, open_cnt = 1, removed = False, deny_write_cnt = 0,
     data = \<lparr>start_sector = 5, file_length = 700, inode_magic = INODE_MAGIC\<rparr>\<rparr>"

definition sample_fs :: filesys where
  "sample_fs = \<lparr>disks = \<lparr>devs = [1 \<mapsto> sample_disk], all_blocks = [1], block_by_role = (\<lambda>_. 0)\<rparr>, fs_device = 1, inodes = [8 \<mapsto> sample_inode],
     open_inodes = [8], next_iptr = 9, oom = [], free_map = \<lparr>bit_cnt = 16, bits = [0x73]\<rparr>, free_map_file = None\<rparr>"

lemma sample_disk_ok: "disk_ok sample_fs" "dsize sample_fs = 16"
  using disk_okI[of sample_fs sample_disk] by (simp_all add: sample_fs_def sample_disk_def whole_def)

theorem inode_io_refines_bytes_witness:
  "\<exists>n s'. inode_write_at 8 (replicate 20 7) (int 20) (int 505) sample_fs = Some (int n, s') \<and> n = 20"
proof -
  have i: "inodes sample_fs 8 = Some sample_inode" "fits (dsize sample_fs) (data sample_inode)" "deny_write_cnt sample_inode = 0"
    "oom sample_fs = []" "file_length (data sample_inode) = 700"
    unfolding sample_disk_ok(2) by (simp_all add: sample_fs_def sample_inode_def fits_def nsec_def)
  show ?thesis using inode_io_refines_bytes[OF sample_disk_ok(1) i(1,2), of 20 "replicate 20 7" 505] i(3-5) by auto
qed

end
