(* ===== verification/Load.thy ===== *)
theory Load
  imports Address_Space Process Inode_IO
begin

unbundle bit_operations_syntax

text \<open>
  What the loader of \<open>Process\<close> does: the pages that a segment of the executable becomes, that no executable makes the loader panic, what is
  left when loading fails, and that the end of a process frees its pages.
\<close>

section \<open>One frame\<close>

definition user_used :: "machine \<Rightarrow> nat set" where "user_used s = pool_used (user_pool (ram (mm s)))"

definition machine_ok :: "u32 \<Rightarrow> machine \<Rightarrow> bool" where
  "machine_ok pd s \<longleftrightarrow> space_ok pd (mm s) \<and> (\<exists>p. cur_pcb s = Some p \<and> pcb_pagedir p = pd)"

text \<open>A page of the user pool that is in use and not mapped.\<close>

definition holds_page :: "u32 \<Rightarrow> u32 \<Rightarrow> machine \<Rightarrow> bool" where
  "holds_page pd k s \<longleftrightarrow> machine_ok pd s \<and> frame_page (mm s) k \<and> (\<forall>va w. user_map (mm s) pd va \<noteq> Some (k, w))"

text \<open>All but memory, files and user pages; the pages of the kernel pool that were taken are page tables.\<close>

definition kernel_used :: "machine \<Rightarrow> nat set" where "kernel_used s = pool_used (kernel_pool (ram (mm s)))"

definition same_rest :: "u32 \<Rightarrow> machine \<Rightarrow> machine \<Rightarrow> bool" where
  "same_rest pd s s' \<longleftrightarrow> cur_pcb s' = cur_pcb s \<and> cur_thread s' = cur_thread s \<and> esp0 s' = esp0 s \<and> init_page_dir (mm s') = init_page_dir (mm s) \<and>
     init_ram_pages (mm s') = init_ram_pages (mm s) \<and> cr3 (mm s') = cr3 (mm s) \<and> same_pools (ram (mm s)) (ram (mm s')) \<and>
     kernel_used s \<subseteq> kernel_used s' \<and> kernel_used s' \<subseteq> kernel_used s \<union> table_pages (mm s') pd \<and> table_pages (mm s) pd \<subseteq> table_pages (mm s') pd \<and>
     table_pages (mm s') pd \<inter> kernel_used s \<subseteq> table_pages (mm s) pd"

lemma same_rest_refl [simp]: "same_rest pd s s"
  by (simp add: same_rest_def same_pools_def)

lemma same_rest_trans: "same_rest pd s t \<Longrightarrow> same_rest pd t u \<Longrightarrow> same_rest pd s u"
  unfolding same_rest_def same_pools_def by auto

lemma set_ram_fields [simp]:
  "mm (set_ram r s) = (mm s)\<lparr>ram := r\<rparr>" "fsys (set_ram r s) = fsys s" "cur_pcb (set_ram r s) = cur_pcb s" "cur_thread (set_ram r s) = cur_thread s"
  "esp0 (set_ram r s) = esp0 s" "mem_of (set_ram r s) = page_mem r" "user_used (set_ram r s) = pool_used (user_pool r)"
  by (simp_all add: set_ram_def mem_of_def user_used_def)

lemma fsys_fields [simp]:
  "machine_ok pd (s\<lparr>fsys := d\<rparr>) = machine_ok pd s" "holds_page pd k (s\<lparr>fsys := d\<rparr>) = holds_page pd k s" "mem_of (s\<lparr>fsys := d\<rparr>) = mem_of s"
  "user_used (s\<lparr>fsys := d\<rparr>) = user_used s" "same_rest pd s (s\<lparr>fsys := d\<rparr>)"
  by (simp_all add: machine_ok_def holds_page_def mem_of_def user_used_def kernel_used_def same_rest_def same_pools_def)

lemma machine_okD:
  assumes "machine_ok pd s"
  shows "space_ok pd (mm s)" "palloc_ok (ram (mm s))" "0xc0000 \<le> first_page (kernel_pool (ram (mm s)))" "\<exists>p. cur_pcb s = Some p \<and> pcb_pagedir p = pd"
  using assms space_okD(1) pd_okD(1,2) unfolding machine_ok_def by blast+

lemma machine_user_change:
  assumes ok: "machine_ok pd s" and c: "user_change (ram (mm s)) r"
    and m: "\<And>va k w. user_map (mm s) pd va = Some (k, w) \<Longrightarrow> unat k div 4096 \<in> pool_used (user_pool r)"
  shows "machine_ok pd (set_ram r s)" "user_map (mm (set_ram r s)) pd = user_map (mm s) pd" "same_rest pd s (set_ram r s)"
proof -
  note u = space_user_change[OF machine_okD(1)[OF ok] c m]
  show "machine_ok pd (set_ram r s)" "user_map (mm (set_ram r s)) pd = user_map (mm s) pd"
    using u(1,2) machine_okD(4)[OF ok] by (simp_all add: machine_ok_def)
  show "same_rest pd s (set_ram r s)"
    using c u(3) by (simp add: same_rest_def user_change_def same_pools_def pool_of_def kernel_used_def)
qed

lemma mapped_used:
  assumes "machine_ok pd s" "user_map (mm s) pd va = Some (k, w)" shows "page_aligned k" "unat k div 4096 \<in> user_used s" "k \<noteq> 0"
  using space_okD(4)[OF machine_okD(1)[OF assms(1)] assms(2)] frame_not_0[OF machine_okD(2,3)[OF assms(1)]]
  by (auto simp: frame_page_def user_used_def)

lemma holdsD:
  assumes "holds_page pd k s" shows "machine_ok pd s" "page_aligned k" "unat k div 4096 \<in> user_used s" "k \<noteq> 0"
proof -
  show m: "machine_ok pd s" using assms by (simp add: holds_page_def)
  show "page_aligned k" "unat k div 4096 \<in> user_used s" using assms by (simp_all add: holds_page_def frame_page_def user_used_def)
  show "k \<noteq> 0" using frame_not_0[OF machine_okD(2,3)[OF m]] assms by (simp add: holds_page_def)
qed

lemma get_frame:
  assumes ok: "machine_ok pd s" and f: "flags AND PAL_USER \<noteq> 0" "flags AND PAL_ASSERT = 0"
  shows "get_page flags s = Some (0, s) \<and> user_full (ram (mm s)) \<or>
    (\<exists>k s'. get_page flags s = Some (k, s') \<and> holds_page pd k s' \<and> k \<noteq> 0 \<and> user_map (mm s') pd = user_map (mm s) pd \<and> fsys s' = fsys s \<and> same_rest pd s s' \<and>
      unat k div 4096 \<notin> user_used s \<and> user_used s' = insert (unat k div 4096) (user_used s) \<and>
      (\<forall>x. mem_of s' x = (if flags AND PAL_ZERO \<noteq> 0 \<and> unat (x - k) < 4096 then 0 else mem_of s x)))"
  using get_user_page[OF machine_okD(2)[OF ok] f]
proof (elim disjE exE conjE)
  assume a: "palloc_get_page flags (ram (mm s)) = Some (0, ram (mm s))" "user_full (ram (mm s))"
  have "set_ram (ram (mm s)) s = s" by (simp add: set_ram_def)
  then show ?thesis using a by (simp add: get_page_def)
next
  fix k r assume k: "palloc_get_page flags (ram (mm s)) = Some (k, r)" "k \<noteq> 0" "page_aligned k" "unat k div 4096 \<notin> used_pages (ram (mm s))"
    "in_range (user_pool (ram (mm s))) k" "user_change (ram (mm s)) r"
    "pool_used (user_pool r) = insert (unat k div 4096) (pool_used (user_pool (ram (mm s))))"
    "\<forall>x. page_mem r x = (if flags AND PAL_ZERO \<noteq> 0 \<and> unat (x - k) < 4096 then 0 else page_mem (ram (mm s)) x)"
  have m: "unat j div 4096 \<in> pool_used (user_pool r)" if "user_map (mm s) pd va = Some (j, w)" for va j w
    using mapped_used(2)[OF ok that] k(7) by (simp add: user_used_def)
  note c = machine_user_change[OF ok k(6) m]
  have n: "unat k div 4096 \<notin> user_used s" using k(4) by (simp add: used_pages_def user_used_def)
  have "user_map (mm s) pd va \<noteq> Some (k, w)" for va w using mapped_used(2)[OF ok, of va k w] n by auto
  then have "holds_page pd k (set_ram r s)" using c k(3,7) by (simp add: holds_page_def frame_page_def)
  then show ?thesis using k c n by (intro disjI2 exI[of _ k] exI[of _ "set_ram r s"]) (simp add: get_page_def user_used_def mem_of_def)
qed

lemma put_frame:
  assumes h: "holds_page pd k s"
  obtains s' where "put_page k s = Some s'" "machine_ok pd s'" "user_map (mm s') pd = user_map (mm s) pd" "fsys s' = fsys s" "same_rest pd s s'"
    "user_used s' = user_used s - {unat k div 4096}" "\<And>x. unat x div 4096 \<noteq> unat k div 4096 \<Longrightarrow> mem_of s' x = mem_of s x"
proof -
  note d = holdsD[OF h]
  obtain r where r: "palloc_free_page k (ram (mm s)) = Some r" "user_change (ram (mm s)) r"
    "pool_used (user_pool r) = pool_used (user_pool (ram (mm s))) - {unat k div 4096}"
    "\<And>x. page_mem r x = (if unat (x - k) < 4096 then 0xcc else page_mem (ram (mm s)) x)"
    using put_user_page[OF machine_okD(2)[OF d(1)] d(2,4)] d(3) by (metis user_used_def)
  have m: "unat j div 4096 \<in> pool_used (user_pool r)" if "user_map (mm s) pd va = Some (j, w)" for va j w
  proof -
    have "j \<noteq> k" using h that by (auto simp: holds_page_def)
    then have "unat j div 4096 \<noteq> unat k div 4096" using aligned_eq mapped_used(1)[OF d(1) that] d(2) by blast
    then show ?thesis using mapped_used(2)[OF d(1) that] r(3) by (simp add: user_used_def)
  qed
  note c = machine_user_change[OF d(1) r(2) m]
  have "mem_of (set_ram r s) x = mem_of s x" if "unat x div 4096 \<noteq> unat k div 4096" for x
    using r(4)[of x] in_page[OF d(2), of x] that by (auto simp: mem_of_def)
  then show thesis using that[of "set_ram r s"] r c by (simp add: put_page_def user_used_def)
qed

lemma write_frame:
  assumes h: "holds_page pd k s" and m: "\<And>x. unat x div 4096 \<noteq> unat k div 4096 \<Longrightarrow> m x = mem_of s x"
  shows "holds_page pd k (set_mem m s)" "user_map (mm (set_mem m s)) pd = user_map (mm s) pd" "fsys (set_mem m s) = fsys s" "same_rest pd s (set_mem m s)"
    "user_used (set_mem m s) = user_used s" "mem_of (set_mem m s) = m"
proof -
  note d = holdsD[OF h]
  have c: "user_change (ram (mm s)) ((ram (mm s))\<lparr>page_mem := m\<rparr>)"
  proof -
    have "m x = page_mem (ram (mm s)) x" if "in_range (kernel_pool (ram (mm s))) x" for x
      using m[of x] kernel_not_user(1)[OF machine_okD(2)[OF d(1)] that] d(3) unfolding mem_of_def user_used_def by metis
    then show ?thesis using machine_okD(2)[OF d(1)] by (simp add: user_change_def palloc_ok_def)
  qed
  have mp: "unat j div 4096 \<in> pool_used (user_pool ((ram (mm s))\<lparr>page_mem := m\<rparr>))" if "user_map (mm s) pd va = Some (j, w)" for va j w
    using mapped_used(2)[OF d(1) that] by (simp add: user_used_def)
  note c2 = machine_user_change[OF d(1) c mp]
  show um: "user_map (mm (set_mem m s)) pd = user_map (mm s) pd" using c2(2) by (simp add: set_mem_def)
  show "fsys (set_mem m s) = fsys s" "user_used (set_mem m s) = user_used s" "mem_of (set_mem m s) = m" by (simp_all add: set_mem_def user_used_def)
  show "same_rest pd s (set_mem m s)" using c2(3) by (simp add: set_mem_def)
  show "holds_page pd k (set_mem m s)" using h c2 um by (simp add: holds_page_def set_mem_def frame_page_def)
qed

lemma install_frame:
  assumes h: "holds_page pd k s" and va: "is_user_vaddr va" "pg_ofs va = 0"
  shows "\<exists>ok s'. install_page va k w s = Some (ok, s') \<and> (if ok then machine_ok pd s' else holds_page pd k s') \<and> (ok \<longrightarrow> user_map (mm s) pd va = None) \<and>
    (ok \<or> user_map (mm s) pd va \<noteq> None \<or> kernel_full (ram (mm s))) \<and> fsys s' = fsys s \<and> same_rest pd s s' \<and> user_used s' = user_used s \<and>
    (\<forall>x. unat x div 4096 \<in> user_used s \<longrightarrow> mem_of s' x = mem_of s x) \<and>
    (\<forall>vb. user_map (mm s') pd vb = (if ok \<and> is_user_vaddr vb \<and> pg_no vb = pg_no va then Some (k, w) else user_map (mm s) pd vb))"
proof -
  note d = holdsD[OF h]
  obtain p where p: "cur_pcb s = Some p" "pcb_pagedir p = pd" using machine_okD(4)[OF d(1)] by blast
  have sp: "space_ok pd (mm s)" by (rule machine_okD(1)[OF d(1)])
  have g: "pagedir_get_page pd va (mm s) = Some (case user_map (mm s) pd va of None \<Rightarrow> 0 | Some (j, _) \<Rightarrow> j)"
    using pagedir_get_page_eq[OF space_okD(1)[OF sp] va(1)] va(2) by (simp split: option.splits)
  show ?thesis
  proof (cases "user_map (mm s) pd va")
    case (Some jw)
    obtain j v where jv: "user_map (mm s) pd va = Some (j, v)" using Some by (cases jw) simp
    have "install_page va k w s = Some (False, s)" using p g jv mapped_used(3)[OF d(1) jv] by (simp add: install_page_def)
    then show ?thesis using h Some by (intro exI[of _ False] exI[of _ s]) simp
  next
    case None
    have fp: "frame_page (mm s) k" "\<And>vb v. user_map (mm s) pd vb \<noteq> Some (k, v)" using h by (simp_all add: holds_page_def)
    obtain ok m where m: "pagedir_set_page pd va k w (mm s) = Some (ok, m)" "space_ok pd m" "tables_grown pd (mm s) m" "ok \<or> kernel_full (ram (mm s))"
        "\<forall>vb. user_map m pd vb = (if ok \<and> is_user_vaddr vb \<and> pg_no vb = pg_no va then Some (k, w) else user_map (mm s) pd vb)"
      using set_page_space[OF sp va None fp, of w] by blast
    define s' where "s' = s\<lparr>mm := m\<rparr>"
    have i: "install_page va k w s = Some (ok, s')" using p g None m(1) by (simp add: install_page_def s'_def)
    have gr: "user_pool (ram m) = user_pool (ram (mm s))" "\<And>x. \<not> in_range (kernel_pool (ram (mm s))) x \<Longrightarrow> page_mem (ram m) x = page_mem (ram (mm s)) x"
      using m(3) by (simp_all add: tables_grown_def)
    have "kernel_used s' \<inter> user_used s = {}"
      using pools_apart[OF pd_okD(1)[OF space_okD(1)[OF m(2)]], of False True] pool_used_range[of "user_pool (ram m)"] gr(1)
      by (auto simp: kernel_used_def user_used_def s'_def pool_of_def)
    moreover have "kernel_used s \<inter> user_used s = {}"
      using pools_apart[OF machine_okD(2)[OF d(1)], of False True] pool_used_range[of "user_pool (ram (mm s))"]
      by (auto simp: kernel_used_def user_used_def pool_of_def)
    moreover have "used_pages (ram (mm s)) \<subseteq> used_pages (ram m)" "used_pages (ram m) \<subseteq> used_pages (ram (mm s)) \<union> table_pages m pd"
      "table_pages (mm s) pd \<subseteq> table_pages m pd" using m(3) table_pages_mono[of "mm s" pd m] by (simp_all add: tables_grown_def)
    moreover have "table_pages m pd \<inter> used_pages (ram (mm s)) \<subseteq> table_pages (mm s) pd" using m(3) by (simp add: tables_grown_def)
    ultimately have "kernel_used s \<subseteq> kernel_used s'" "kernel_used s' \<subseteq> kernel_used s \<union> table_pages m pd" "table_pages (mm s) pd \<subseteq> table_pages m pd"
      "table_pages m pd \<inter> kernel_used s \<subseteq> table_pages (mm s) pd"
      using gr(1) by (auto simp: used_pages_def kernel_used_def user_used_def s'_def)
    then have rest: "same_rest pd s s'" using m(3) by (simp add: tables_grown_def same_rest_def) (simp add: s'_def)
    have mok: "machine_ok pd s'" using m(2) p by (simp add: machine_ok_def s'_def)
    have "holds_page pd k s'" if "\<not> ok" using mok m(5) fp gr(1) that by (simp add: holds_page_def frame_page_def s'_def)
    moreover have "mem_of s' x = mem_of s x" if "unat x div 4096 \<in> user_used s" for x
      using gr(2)[of x] user_not_kernel(1)[OF machine_okD(2)[OF d(1)]] that by (simp add: mem_of_def s'_def user_used_def)
    ultimately show ?thesis using i mok None m(4,5) gr(1) rest
      by (intro exI[of _ ok] exI[of _ s']) (simp add: user_used_def s'_def)
  qed
qed

section \<open>Files\<close>

text \<open>The file of \<open>f\<close> is \<open>i\<close>, on a sound disk.\<close>

definition file_ok :: "open_file \<Rightarrow> inode \<Rightarrow> machine \<Rightarrow> bool" where
  "file_ok f i s \<longleftrightarrow> disk_ok (fsys s) \<and> inodes (fsys s) (f_inode f) = Some i \<and> fits (dsize (fsys s)) (data i) \<and> 0 \<le> f_pos f"

definition contents :: "inode \<Rightarrow> machine \<Rightarrow> u8 list" where "contents i s = fbytes (secs (fsys s)) (data i)"

text \<open>Reading changes counts of the disk, uses up memory requests and moves the position.\<close>

definition read_only :: "open_file \<Rightarrow> machine \<Rightarrow> open_file \<Rightarrow> machine \<Rightarrow> bool" where
  "read_only f s f' s' \<longleftrightarrow> sync (fsys s) (secs (fsys s)) (fsys s') \<and> f_inode f' = f_inode f \<and> f_deny f' = f_deny f \<and> 0 \<le> f_pos f'"

lemma read_only_ok:
  assumes "file_ok f i s" "read_only f s f' s'" shows "file_ok f' i s'" "contents i s' = contents i s"
  using assms by (simp_all add: file_ok_def read_only_def sync_def contents_def)

lemma read_only_trans: "read_only f s g t \<Longrightarrow> read_only g t h u \<Longrightarrow> read_only f s h u"
  using sync_trans[of "fsys s" "secs (fsys s)" "fsys t" "secs (fsys t)" "fsys u"] by (auto simp: read_only_def sync_def)

lemma read_only_refl: "file_ok f i s \<Longrightarrow> read_only f s f s"
  by (simp add: file_ok_def read_only_def sync_refl)

lemma read_only_mm: "fsys t = fsys t' \<Longrightarrow> read_only f s g t \<Longrightarrow> read_only f s g t'"
  by (simp add: read_only_def)

lemma open_read_ok:
  assumes ok: "file_ok f i s"
  obtains c f' d where "file_read f (int m) (fsys s) = Some (take c (drop (nat (f_pos f)) (contents i s)), f', d)" "c \<le> m"
    "read_only f s f' (s\<lparr>fsys := d\<rparr>)" "f_pos f' = f_pos f + int (length (take c (drop (nat (f_pos f)) (contents i s))))"
    "oom (fsys s) = [] \<Longrightarrow> take c (drop (nat (f_pos f)) (contents i s)) = take m (drop (nat (f_pos f)) (contents i s))"
proof -
  have p: "int (nat (f_pos f)) = f_pos f" using ok by (simp add: file_ok_def)
  obtain c d where r: "inode_read_at (f_inode f) (int m) (int (nat (f_pos f))) (fsys s) = Some (take c (drop (nat (f_pos f)) (contents i s)), d)"
    "sync (fsys s) (secs (fsys s)) d" "c \<le> m"
    "oom (fsys s) = [] \<Longrightarrow> take c (drop (nat (f_pos f)) (contents i s)) = take m (drop (nat (f_pos f)) (contents i s))"
    using read_at_eq[of "fsys s" "f_inode f" i m "nat (f_pos f)"] ok unfolding file_ok_def contents_def by metis
  define bs where "bs = take c (drop (nat (f_pos f)) (contents i s))"
  have "file_read f (int m) (fsys s) = Some (bs, f\<lparr>f_pos := f_pos f + int (length bs)\<rparr>, d)" using r(1) p by (simp add: file_read_def bs_def)
  moreover have "read_only f s (f\<lparr>f_pos := f_pos f + int (length bs)\<rparr>) (s\<lparr>fsys := d\<rparr>)" using r(2) ok by (simp add: read_only_def file_ok_def)
  ultimately show thesis using that[OF _ r(3), of "f\<lparr>f_pos := f_pos f + int (length bs)\<rparr>" d] r(4) by (simp add: bs_def)
qed

lemma length_file_contents: "file_ok f i s \<Longrightarrow> length (contents i s) < 2 ^ 31"
  by (auto simp: contents_def file_ok_def fits_def nat_less_iff)

lemma sint_small:
  assumes "unat (w :: u32) < 2 ^ 31" shows "sint w = int (unat w)"
proof -
  obtain n where n: "unat w = n" by blast
  have u: "uint w = int n" using n by auto
  have "n < 2 ^ 31" using assms n by simp
  then have "signed_take_bit 31 (int n) = int n" by (intro signed_take_bit_int_eq_self) simp_all
  moreover have "sint w = signed_take_bit 31 (uint w)" by (simp add: sint_uint)
  ultimately show ?thesis by (simp only: u n)
qed

lemma read_frame:
  assumes h: "holds_page pd k s" and f: "file_ok f i s" and m: "unat sz \<le> 4096"
  obtains c f' s' where "read_to f k sz s = Some (int (length (take c (drop (nat (f_pos f)) (contents i s)))), f', s')" "c \<le> unat sz"
    "read_only f s f' s'" "f_pos f' = f_pos f + int (length (take c (drop (nat (f_pos f)) (contents i s))))"
    "holds_page pd k s'" "user_map (mm s') pd = user_map (mm s) pd" "same_rest pd s s'" "user_used s' = user_used s"
    "mem_of s' = write_bytes (mem_of s) k (take c (drop (nat (f_pos f)) (contents i s)))"
    "\<And>x. unat x div 4096 \<noteq> unat k div 4096 \<Longrightarrow> mem_of s' x = mem_of s x"
    "oom (fsys s) = [] \<Longrightarrow> take c (drop (nat (f_pos f)) (contents i s)) = take (unat sz) (drop (nat (f_pos f)) (contents i s))"
proof -
  have sz: "sint sz = int (unat sz)" using m by (intro sint_small) simp
  obtain c f' d where r: "file_read f (int (unat sz)) (fsys s) = Some (take c (drop (nat (f_pos f)) (contents i s)), f', d)" "c \<le> unat sz"
    "read_only f s f' (s\<lparr>fsys := d\<rparr>)" "f_pos f' = f_pos f + int (length (take c (drop (nat (f_pos f)) (contents i s))))"
    "oom (fsys s) = [] \<Longrightarrow> take c (drop (nat (f_pos f)) (contents i s)) = take (unat sz) (drop (nat (f_pos f)) (contents i s))"
    using open_read_ok[OF f, of "unat sz"] by metis
  define bs where "bs = take c (drop (nat (f_pos f)) (contents i s))"
  have len: "length bs \<le> 4096" using r(2) m by (simp add: bs_def)
  have out: "write_bytes (mem_of s) k bs x = mem_of (s\<lparr>fsys := d\<rparr>) x" if "unat x div 4096 \<noteq> unat k div 4096" for x
    using in_page[OF holdsD(2)[OF h], of x] that len by (auto simp: write_bytes_def)
  have h2: "holds_page pd k (s\<lparr>fsys := d\<rparr>)" using h by simp
  note w = write_frame[OF h2 out]
  show thesis
    by (rule that[of c f' "set_mem (write_bytes (mem_of s) k bs) (s\<lparr>fsys := d\<rparr>)"])
      (use r w out same_rest_trans[OF _ w(4), of s] in \<open>simp_all add: read_to_def sz bs_def[symmetric] read_only_def\<close>)
qed

section \<open>One segment\<close>

text \<open>\<open>m\<close> pages from page number \<open>u\<close> on, which were not mapped, have become frames that hold the bytes \<open>bs\<close>; the other pages are mapped as before.\<close>

definition loaded :: "u32 \<Rightarrow> nat \<Rightarrow> nat \<Rightarrow> bool \<Rightarrow> u8 list \<Rightarrow> machine \<Rightarrow> machine \<Rightarrow> bool" where
  "loaded pd u m w bs s s' \<longleftrightarrow> (\<forall>va.
     if u \<le> unat va div 4096 \<and> unat va div 4096 < u + m
     then user_map (mm s) pd va = None \<and>
       (\<exists>k. user_map (mm s') pd va = Some (k, w) \<and> bytes_at (mem_of s') k 4096 = take 4096 (drop (4096 * (unat va div 4096 - u)) bs))
     else user_map (mm s') pd va = user_map (mm s) pd va)"

text \<open>The frames that were in use are still in use and have their contents, and every new one is mapped.\<close>

definition keeps_frames :: "u32 \<Rightarrow> machine \<Rightarrow> machine \<Rightarrow> bool" where
  "keeps_frames pd s s' \<longleftrightarrow> user_used s \<subseteq> user_used s' \<and> user_used s' \<subseteq> user_used s \<union> mapped_frames (mm s') pd \<and>
     (\<forall>x. unat x div 4096 \<in> user_used s \<longrightarrow> mem_of s' x = mem_of s x) \<and> mapped_frames (mm s) pd \<subseteq> mapped_frames (mm s') pd \<and>
     mapped_frames (mm s') pd \<inter> user_used s \<subseteq> mapped_frames (mm s) pd"

lemma keeps_frames_trans:
  assumes "keeps_frames pd s t" "keeps_frames pd t u" shows "keeps_frames pd s u"
  using assms unfolding keeps_frames_def by (auto; blast)

lemma in_frame:
  assumes "page_aligned k" "i < 4096" shows "unat (k + of_nat i) div 4096 = unat k div 4096"
proof (rule in_page[OF assms(1)])
  show "unat (k + of_nat i - k) < 4096" using assms(2) by (simp add: unat_of_nat)
qed

lemma same_bytes:
  assumes "page_aligned k" "\<And>x. unat x div 4096 = unat k div 4096 \<Longrightarrow> m' x = m x" shows "bytes_at m' k 4096 = bytes_at m k 4096"
  using in_frame[OF assms(1)] assms(2) by (simp add: bytes_at_def)

lemma frame_bytes:
  assumes "length bs + z = 4096"
  shows "bytes_at (write_bytes (write_bytes m k bs) (k + of_nat (length bs)) (replicate z 0)) k 4096 = bs @ replicate z 0"
proof (rule nth_equalityI)
  fix i assume "i < length (bytes_at (write_bytes (write_bytes m k bs) (k + of_nat (length bs)) (replicate z 0)) k 4096)"
  then have i: "i < 4096" by simp
  have a: "unat (k + of_nat i - k) = i" using i by (simp add: unat_of_nat)
  have e: "k + of_nat i - (k + of_nat (length bs)) = (of_nat i - of_nat (length bs) :: u32)" by simp
  have ul: "unat (of_nat i :: u32) = i" "unat (of_nat (length bs) :: u32) = length bs" using i assms by (simp_all add: unat_of_nat)
  have b: "unat (of_nat i - of_nat (length bs) :: u32) = (if length bs \<le> i then i - length bs else 2 ^ 32 - (length bs - i))"
    using i assms unfolding unat_sub_if' ul by auto
  have "length bs \<le> 4096" "z \<le> 4096" using assms by simp_all
  then have "(write_bytes (write_bytes m k bs) (k + of_nat (length bs)) (replicate z 0)) (k + of_nat i) = (bs @ replicate z 0) ! i"
    using i a assms unfolding write_bytes_def e b by (auto simp: nth_append)
  then show "bytes_at (write_bytes (write_bytes m k bs) (k + of_nat (length bs)) (replicate z 0)) k 4096 ! i = (bs @ replicate z 0) ! i"
    using i by (simp add: bytes_at_def)
qed (use assms in simp)

lemma loaded_in:
  assumes "loaded pd u m w bs s s'" "n = unat va div 4096" "u \<le> n" "n < u + m"
  obtains k where "user_map (mm s) pd va = None" "user_map (mm s') pd va = Some (k, w)"
    "bytes_at (mem_of s') k 4096 = take 4096 (drop (4096 * (n - u)) bs)"
proof -
  have "if u \<le> n \<and> n < u + m
     then user_map (mm s) pd va = None \<and> (\<exists>k. user_map (mm s') pd va = Some (k, w) \<and> bytes_at (mem_of s') k 4096 = take 4096 (drop (4096 * (n - u)) bs))
     else user_map (mm s') pd va = user_map (mm s) pd va" using assms(1) unfolding loaded_def assms(2) by blast
  then show thesis using assms(3,4) that by auto
qed

lemma loaded_out:
  assumes "loaded pd u m w bs s s'" "\<not> (u \<le> unat va div 4096 \<and> unat va div 4096 < u + m)"
  shows "user_map (mm s') pd va = user_map (mm s) pd va"
proof -
  have "if u \<le> unat va div 4096 \<and> unat va div 4096 < u + m
     then user_map (mm s) pd va = None \<and>
       (\<exists>k. user_map (mm s') pd va = Some (k, w) \<and> bytes_at (mem_of s') k 4096 = take 4096 (drop (4096 * (unat va div 4096 - u)) bs))
     else user_map (mm s') pd va = user_map (mm s) pd va" using assms(1) unfolding loaded_def by blast
  then show ?thesis unfolding if_not_P[OF assms(2)] .
qed

lemma loaded_trans:
  assumes ok: "machine_ok pd t" and a: "loaded pd u 1 w bs s t" and b: "loaded pd (Suc u) m w (drop 4096 bs) t v" and k: "keeps_frames pd t v"
  shows "loaded pd u (Suc m) w bs s v"
  unfolding loaded_def
proof
  fix va :: u32
  define n where "n = unat va div 4096"
  show "if u \<le> unat va div 4096 \<and> unat va div 4096 < u + Suc m
     then user_map (mm s) pd va = None \<and>
       (\<exists>k. user_map (mm v) pd va = Some (k, w) \<and> bytes_at (mem_of v) k 4096 = take 4096 (drop (4096 * (unat va div 4096 - u)) bs))
     else user_map (mm v) pd va = user_map (mm s) pd va"
  proof (cases "n = u")
    case True
    obtain j where j: "user_map (mm s) pd va = None" "user_map (mm t) pd va = Some (j, w)" "bytes_at (mem_of t) j 4096 = take 4096 bs"
      using loaded_in[OF a n_def] True by auto
    have "user_map (mm v) pd va = Some (j, w)" using loaded_out[OF b, of va] True j(2) by (simp add: n_def)
    moreover have "bytes_at (mem_of v) j 4096 = take 4096 bs"
      using same_bytes[of j "mem_of v" "mem_of t"] mapped_used(1,2)[OF ok j(2)] k j(3) by (auto simp: keeps_frames_def)
    ultimately show ?thesis using j(1) True by (simp add: n_def)
  next
    case False
    have s: "user_map (mm t) pd va = user_map (mm s) pd va" using loaded_out[OF a, of va] False by (simp add: n_def)
    show ?thesis
    proof (cases "Suc u \<le> n \<and> n < Suc u + m")
      case True
      have e: "4096 * (n - Suc u) + 4096 = 4096 * (n - u)" using True by (simp add: algebra_simps)
      obtain j where "user_map (mm t) pd va = None" "user_map (mm v) pd va = Some (j, w)"
        "bytes_at (mem_of v) j 4096 = take 4096 (drop (4096 * (n - Suc u)) (drop 4096 bs))"
        using loaded_in[OF b n_def] True by auto
      then show ?thesis using s True e by (simp add: n_def[symmetric] add.commute)
    next
      case out: False
      then have "user_map (mm v) pd va = user_map (mm t) pd va" using loaded_out[OF b, of va] by (simp add: n_def)
      moreover have neg: "\<not> (u \<le> n \<and> n < u + Suc m)" using out False by linarith
      ultimately show ?thesis using s unfolding n_def[symmetric] if_not_P[OF neg] by simp
    qed
  qed
qed

text \<open>Giving back a page that could not be filled or mapped; \<open>s\<close> is the state before the page was taken.\<close>

lemma give_back:
  assumes t: "holds_page pd k t" "user_map (mm t) pd = user_map (mm s) pd" "same_rest pd s t"
    and k: "unat k div 4096 \<notin> user_used s" "user_used t = insert (unat k div 4096) (user_used s)"
    and old: "\<And>x. unat x div 4096 \<in> user_used s \<Longrightarrow> mem_of t x = mem_of s x"
  obtains s' where "put_page k t = Some s'" "machine_ok pd s'" "user_map (mm s') pd = user_map (mm s) pd" "fsys s' = fsys t" "same_rest pd s s'"
    "keeps_frames pd s s'" "same_rest pd t s'"
proof -
  obtain s' where s': "put_page k t = Some s'" "machine_ok pd s'" "user_map (mm s') pd = user_map (mm t) pd" "fsys s' = fsys t" "same_rest pd t s'"
    "user_used s' = user_used t - {unat k div 4096}" "\<And>x. unat x div 4096 \<noteq> unat k div 4096 \<Longrightarrow> mem_of s' x = mem_of t x"
    using put_frame[OF t(1)] by metis
  have "user_used s' = user_used s" using s'(6) k by auto
  moreover have "mem_of s' x = mem_of s x" if "unat x div 4096 \<in> user_used s" for x using s'(7)[of x] old[OF that] that k(1) by metis
  ultimately have "keeps_frames pd s s'" using s'(3) t(2) by (simp add: keeps_frames_def mapped_frames_def)
  then show thesis using that s' t(2) same_rest_trans[OF t(3) s'(5)] by simp
qed

text \<open>Zeroing the end of a page.\<close>

lemma zero_end:
  assumes h: "holds_page pd k s" and pr: "unat pr \<le> 4096" and m: "mem_of s = write_bytes m0 k bs" "length bs = unat pr"
  obtains s' where "zero_mem (k + pr) (PGSIZE - pr) s = Some s'" "holds_page pd k s'" "user_map (mm s') pd = user_map (mm s) pd" "fsys s' = fsys s"
    "same_rest pd s s'" "user_used s' = user_used s" "\<And>x. unat x div 4096 \<noteq> unat k div 4096 \<Longrightarrow> mem_of s' x = mem_of s x"
    "bytes_at (mem_of s') k 4096 = bs @ replicate (4096 - unat pr) 0"
proof -
  have len: "length bs + (4096 - unat pr) = 4096" using m(2) pr by simp
  have lb: "of_nat (length bs) = pr" using m(2) by simp
  have uz: "unat (PGSIZE - pr) = 4096 - unat pr" using pr by (simp add: unat_sub word_le_nat_alt)
  have addr: "k + pr \<noteq> 0 \<or> PGSIZE - pr = 0"
  proof (cases "unat pr = 4096")
    case True
    then show ?thesis using uz by (simp add: unat_eq_0[symmetric] del: unat_eq_0)
  next
    case False
    have "unat (k + of_nat (unat pr)) div 4096 = unat k div 4096" using in_frame[OF holdsD(2)[OF h], of "unat pr"] pr False by simp
    moreover have "in_range (user_pool (ram (mm s))) k" using user_not_kernel(2)[OF machine_okD(2)] holdsD(1,3)[OF h] by (simp add: user_used_def)
    then have "unat k div 4096 \<noteq> 0" using machine_okD(2,3)[OF holdsD(1)[OF h]] by (auto simp: in_range_def palloc_ok_def)
    ultimately show ?thesis by auto
  qed
  define m where "m = write_bytes (mem_of s) (k + pr) (replicate (4096 - unat pr) 0)"
  have out: "m x = mem_of s x" if "unat x div 4096 \<noteq> unat k div 4096" for x
  proof -
    have "\<not> unat (x - (k + pr)) < 4096 - unat pr"
    proof
      assume a: "unat (x - (k + pr)) < 4096 - unat pr"
      define d where "d = x - (k + pr)"
      have s: "unat pr + unat d < 4096" using a pr unfolding d_def by linarith
      then have "unat (pr + d) = unat pr + unat d" using unat_add_lem[of pr d] by simp
      moreover have "x - k = pr + d" by (simp add: d_def)
      ultimately have "unat (x - k) < 4096" using s by (simp only:)
      then show False using in_page[OF holdsD(2)[OF h]] that by blast
    qed
    then show ?thesis by (simp add: m_def write_bytes_def)
  qed
  have z: "zero_mem (k + pr) (PGSIZE - pr) s = Some (set_mem m s)"
    using addr uz by (auto simp: zero_mem_def memset_def memset_loop_eq m_def)
  have b: "bytes_at m k 4096 = bs @ replicate (4096 - unat pr) 0" using frame_bytes[OF len, of m0 k] m(1) lb by (simp add: m_def)
  show thesis by (rule that[OF z]) (use write_frame[OF h out] out b in simp_all)
qed

text \<open>A page that has been mapped.\<close>

lemma mapped_framesI: "user_map s pd va = Some (k, w) \<Longrightarrow> unat k div 4096 \<in> mapped_frames s pd"
  by (auto simp: mapped_frames_def)

lemma page_mapped:
  assumes up: "is_user_vaddr upage" "user_map (mm s) pd upage = None"
    and map: "\<And>va. user_map (mm s') pd va = (if is_user_vaddr va \<and> pg_no va = pg_no upage then Some (k, w) else user_map (mm s) pd va)"
    and b: "bytes_at (mem_of s') k 4096 = take 4096 bs"
  shows "loaded pd (unat upage div 4096) 1 w bs s s'" "insert (unat k div 4096) (mapped_frames (mm s) pd) \<subseteq> mapped_frames (mm s') pd"
    "mapped_frames (mm s') pd \<subseteq> insert (unat k div 4096) (mapped_frames (mm s) pd)"
proof -
  show "mapped_frames (mm s') pd \<subseteq> insert (unat k div 4096) (mapped_frames (mm s) pd)"
  proof
    fix x assume "x \<in> mapped_frames (mm s') pd"
    then obtain va j v where j: "user_map (mm s') pd va = Some (j, v)" "x = unat j div 4096" by (auto simp: mapped_frames_def)
    then show "x \<in> insert (unat k div 4096) (mapped_frames (mm s) pd)"
      using map[of va] mapped_framesI[of "mm s" pd va j v] by (cases "is_user_vaddr va \<and> pg_no va = pg_no upage") auto
  qed
  have page: "pg_no va = pg_no upage \<longleftrightarrow> unat va div 4096 = unat upage div 4096" for va by (simp add: word_unat_eq_iff unat_pg_no)
  have user: "is_user_vaddr va" if "unat va div 4096 = unat upage div 4096" for va
  proof -
    have "unat upage div 4096 < 0xc0000" using up(1) by (simp add: is_user_vaddr_def word_less_nat_alt unat_PHYS_BASE div_less_iff_less_mult)
    then have "unat va div 4096 < 0xc0000" using that by simp
    then show ?thesis by (simp add: is_user_vaddr_def word_less_nat_alt unat_PHYS_BASE div_less_iff_less_mult)
  qed
  have none: "user_map (mm s) pd va = None" if "unat va div 4096 = unat upage div 4096" for va
  proof -
    have "unat (pd_no va) = unat (pd_no upage)" "unat (pt_no va) = unat (pt_no upage)" using page[of va] that same_page by blast+
    then have "pte_of (mm s) pd va = pte_of (mm s) pd upage" by (simp add: pte_of_def)
    then show ?thesis using up by (simp add: user_map_def split: if_splits)
  qed
  show "loaded pd (unat upage div 4096) 1 w bs s s'"
    unfolding loaded_def
  proof
    fix va :: u32
    show "if unat upage div 4096 \<le> unat va div 4096 \<and> unat va div 4096 < unat upage div 4096 + 1
       then user_map (mm s) pd va = None \<and>
         (\<exists>k. user_map (mm s') pd va = Some (k, w) \<and> bytes_at (mem_of s') k 4096 = take 4096 (drop (4096 * (unat va div 4096 - unat upage div 4096)) bs))
       else user_map (mm s') pd va = user_map (mm s) pd va"
    proof (cases "unat va div 4096 = unat upage div 4096")
      case True
      then show ?thesis using none[OF True] map[of va] user[OF True] page[of va] b by simp
    next
      case False
      then have "user_map (mm s') pd va = user_map (mm s) pd va" using map[of va] page[of va] by simp
      then show ?thesis using False by auto
    qed
  qed
  have "mapped_frames (mm s) pd \<subseteq> mapped_frames (mm s') pd"
  proof
    fix x assume "x \<in> mapped_frames (mm s) pd"
    then obtain va j v where j: "user_map (mm s) pd va = Some (j, v)" "x = unat j div 4096" by (auto simp: mapped_frames_def)
    then have "unat va div 4096 \<noteq> unat upage div 4096" using none[of va] by auto
    then have "user_map (mm s') pd va = Some (j, v)" using map[of va] page[of va] j(1) by simp
    then show "x \<in> mapped_frames (mm s') pd" using j(2) by (auto simp: mapped_frames_def)
  qed
  moreover have "unat k div 4096 \<in> mapped_frames (mm s') pd"
    using map[of upage] up(1) by (intro mapped_framesI) simp
  ultimately show "insert (unat k div 4096) (mapped_frames (mm s) pd) \<subseteq> mapped_frames (mm s') pd" by blast
qed

text \<open>The bytes of the first page of a segment with \<open>r\<close> bytes from the file and \<open>z\<close> zeros.\<close>

lemma first_page_bytes:
  assumes "4096 \<le> r + z" "p = min r 4096" "length (take p X) = p"
  shows "take p X @ replicate (4096 - p) 0 = take 4096 (take r X @ replicate z 0)"
    "take (r - p) (drop p X) @ replicate (z - (4096 - p)) 0 = drop 4096 (take r X @ replicate z 0)"
proof -
  have "take p X @ replicate (4096 - p) 0 = take 4096 (take r X @ replicate z 0) \<and>
    take (r - p) (drop p X) @ replicate (z - (4096 - p)) 0 = drop 4096 (take r X @ replicate z 0)"
  proof (cases "r < 4096")
    case True
    then have "p = r" using assms(2) by simp
    then show ?thesis using True assms(1,3) by simp
  next
    case False
    then have "p = 4096" using assms(2) by simp
    moreover from this have "4096 \<le> length X" using assms(3) by (simp add: min_def split: if_splits)
    ultimately show ?thesis using False by (simp add: min_def drop_take)
  qed
  then show "take p X @ replicate (4096 - p) 0 = take 4096 (take r X @ replicate z 0)"
    "take (r - p) (drop p X) @ replicate (z - (4096 - p)) 0 = drop 4096 (take r X @ replicate z 0)" by blast+
qed

text \<open>Why a segment is not loaded: one of the pools has no page left when the loader gives up, there was no memory to read with, the
  file ends too early, or a page is mapped already.\<close>

definition out_of_memory :: "machine \<Rightarrow> bool" where "out_of_memory s \<longleftrightarrow> kernel_full (ram (mm s)) \<or> user_full (ram (mm s))"

lemma kernel_full_used:
  "kernel_full p \<longleftrightarrow> pool_used (kernel_pool p) = {first_page (kernel_pool p)..<first_page (kernel_pool p) + page_total (kernel_pool p)}"
proof
  assume a: "pool_used (kernel_pool p) = {first_page (kernel_pool p)..<first_page (kernel_pool p) + page_total (kernel_pool p)}"
  have "bits_of (used_map (kernel_pool p)) ! i" if "i < page_total (kernel_pool p)" for i
  proof -
    have "first_page (kernel_pool p) + i \<in> pool_used (kernel_pool p)" unfolding a using that by simp
    then show ?thesis by (auto simp: pool_used_def)
  qed
  then show "kernel_full p" by (simp add: kernel_full_def)
next
  assume full: "kernel_full p"
  have "x \<in> pool_used (kernel_pool p)" if "x \<in> {first_page (kernel_pool p)..<first_page (kernel_pool p) + page_total (kernel_pool p)}" for x
    using full that unfolding pool_used_def kernel_full_def by (intro CollectI exI[of _ "x - first_page (kernel_pool p)"]) auto
  then show "pool_used (kernel_pool p) = {first_page (kernel_pool p)..<first_page (kernel_pool p) + page_total (kernel_pool p)}"
    using pool_used_range[of "kernel_pool p"] by blast
qed

lemma kernel_full_mono:
  assumes "same_rest pd s s'" "kernel_full (ram (mm s))" shows "kernel_full (ram (mm s'))"
proof -
  have p: "base (pool_of False (ram (mm s'))) = base (pool_of False (ram (mm s)))"
    "bit_cnt (used_map (pool_of False (ram (mm s')))) = bit_cnt (used_map (pool_of False (ram (mm s))))"
    using assms(1) unfolding same_rest_def same_pools_def by blast+
  then have "first_page (kernel_pool (ram (mm s'))) = first_page (kernel_pool (ram (mm s)))" "page_total (kernel_pool (ram (mm s'))) = page_total (kernel_pool (ram (mm s)))"
    by (simp_all add: pool_of_def)
  moreover have "pool_used (kernel_pool (ram (mm s))) \<subseteq> pool_used (kernel_pool (ram (mm s')))" using assms(1) by (simp add: same_rest_def kernel_used_def)
  ultimately show ?thesis using assms(2) pool_used_range[of "kernel_pool (ram (mm s'))"] unfolding kernel_full_used by auto
qed

definition blocked :: "u32 \<Rightarrow> nat \<Rightarrow> nat \<Rightarrow> nat \<Rightarrow> u8 list \<Rightarrow> machine \<Rightarrow> machine \<Rightarrow> bool" where
  "blocked pd u n len X s s' \<longleftrightarrow> out_of_memory s' \<or> oom (fsys s) \<noteq> [] \<or> length X < len \<or>
     (\<exists>va. u \<le> unat va div 4096 \<and> unat va div 4096 < u + n \<and> user_map (mm s) pd va \<noteq> None)"

lemma blocked_first:
  assumes "out_of_memory s' \<or> oom (fsys s) \<noteq> [] \<or> length X < len \<or> user_map (mm s) pd upage \<noteq> None"
  shows "blocked pd (unat upage div 4096) 1 len X s s'"
  using assms unfolding blocked_def by (metis less_add_one order_refl)

text \<open>The first turn of the loop, with \<open>X\<close> the rest of the file.\<close>

lemma segment_page:
  assumes ok: "machine_ok pd s" and f: "file_ok f i s" and up: "pg_ofs upage = 0" "is_user_vaddr upage"
    and X: "X = drop (nat (f_pos f)) (contents i s)" and sz: "4096 \<le> unat rd + unat zr" and pr: "pr = (if rd < PGSIZE then rd else PGSIZE)"
  shows "(\<exists>f' s'. load_segment_loop f upage rd zr w s = Some (False, f', s') \<and> machine_ok pd s' \<and> user_map (mm s') pd = user_map (mm s) pd \<and>
      read_only f s f' s' \<and> same_rest pd s s' \<and> keeps_frames pd s s' \<and>
      blocked pd (unat upage div 4096) 1 (unat pr) X s s') \<or>
    (\<exists>f' s'. load_segment_loop f upage rd zr w s = load_segment_loop f' (upage + PGSIZE) (rd - pr) (zr - (PGSIZE - pr)) w s' \<and>
      machine_ok pd s' \<and> read_only f s f' s' \<and> same_rest pd s s' \<and> keeps_frames pd s s' \<and>
      f_pos f' = f_pos f + int (unat pr) \<and> length (take (unat pr) X) = unat pr \<and>
      loaded pd (unat upage div 4096) 1 w (take (unat rd) X @ replicate (unat zr) 0) s s')"
proof -
  have pos: "rd > 0 \<or> zr > 0" using sz by (auto simp: word_gt_0 unat_eq_0 intro: ccontr)
  have p4: "unat pr = min (unat rd) 4096" "unat pr \<le> 4096" by (auto simp: pr word_less_nat_alt min_def)
  have fl: "PAL_USER AND PAL_USER \<noteq> 0" "PAL_USER AND PAL_ASSERT = 0" "PAL_USER AND PAL_ZERO = 0" by (simp_all add: PAL_USER_def PAL_ASSERT_def PAL_ZERO_def)
  note unfold = load_segment_loop.simps[of f upage rd zr w s, folded pr]
  from get_frame[OF ok fl(1,2)] show ?thesis
  proof (elim disjE exE conjE)
    assume full: "get_page PAL_USER s = Some (0, s)" "user_full (ram (mm s))"
    then have "load_segment_loop f upage rd zr w s = Some (False, f, s)" unfolding unfold using pos by (simp add: Let_def)
    then show ?thesis using ok read_only_refl[OF f] full(2) blocked_first[of s s X] by (intro disjI1 exI[of _ f] exI[of _ s]) (simp add: keeps_frames_def out_of_memory_def)
  next
    fix k s1 assume k: "get_page PAL_USER s = Some (k, s1)" "holds_page pd k s1" "k \<noteq> 0" "user_map (mm s1) pd = user_map (mm s) pd" "fsys s1 = fsys s"
      "same_rest pd s s1" "unat k div 4096 \<notin> user_used s" "user_used s1 = insert (unat k div 4096) (user_used s)"
      and m1: "\<forall>x. mem_of s1 x = (if PAL_USER AND PAL_ZERO \<noteq> 0 \<and> unat (x - k) < 4096 then 0 else mem_of s x)"
    have f1: "file_ok f i s1" "contents i s1 = contents i s" using f k(5) by (simp_all add: file_ok_def contents_def)
    obtain c f2 s2 where r: "read_to f k pr s1 = Some (int (length (take c X)), f2, s2)" "c \<le> unat pr" "read_only f s1 f2 s2"
      "f_pos f2 = f_pos f + int (length (take c X))" "holds_page pd k s2" "user_map (mm s2) pd = user_map (mm s1) pd" "same_rest pd s1 s2" "user_used s2 = user_used s1"
      "mem_of s2 = write_bytes (mem_of s1) k (take c X)" "\<And>x. unat x div 4096 \<noteq> unat k div 4096 \<Longrightarrow> mem_of s2 x = mem_of s1 x"
      "oom (fsys s) = [] \<Longrightarrow> take c X = take (unat pr) X"
      using read_frame[OF k(2) f1(1) p4(2)] unfolding f1(2) X[symmetric] k(5) by metis
    have ro: "read_only f s f2 t" if "fsys t = fsys s2" for t using r(3) k(5) that by (simp add: read_only_def)
    have other: "unat x div 4096 \<noteq> unat k div 4096" if "unat x div 4096 \<in> user_used s" for x using that k(7) by auto
    have old: "mem_of s2 x = mem_of s x" if "unat x div 4096 \<in> user_used s" for x using r(10)[OF other[OF that]] m1 fl(3) by simp
    have s2: "user_map (mm s2) pd = user_map (mm s) pd" "same_rest pd s s2" "user_used s2 = insert (unat k div 4096) (user_used s)"
      using r(6,8) k(4,8) same_rest_trans[OF k(6) r(7)] by simp_all
    have sp: "sint pr = int (unat pr)" using p4(2) by (intro sint_small) simp
    show ?thesis
    proof (cases "length (take c X) = unat pr")
      case False
      then have ne: "int (length (take c X)) \<noteq> sint pr" unfolding sp by (simp only: of_nat_eq_iff not_False_eq_True)
      obtain s' where s': "put_page k s2 = Some s'" "machine_ok pd s'" "user_map (mm s') pd = user_map (mm s) pd" "fsys s' = fsys s2" "same_rest pd s s'" "keeps_frames pd s s'" "same_rest pd s2 s'"
        using give_back[OF r(5) s2(1,2) k(7) s2(3) old] by metis
      have "load_segment_loop f upage rd zr w s = Some (False, f2, s')"
        unfolding unfold using pos k(1,3) r(1) ne s'(1) by (simp add: Let_def del: length_take)
      moreover have "oom (fsys s) \<noteq> [] \<or> length X < unat pr"
      proof (rule disjCI)
        assume "\<not> length X < unat pr"
        then have "length (take (unat pr) X) = unat pr" by simp
        then show "oom (fsys s) \<noteq> []" using r(11) False by metis
      qed
      ultimately show ?thesis using s' ro blocked_first[of s' s X "unat pr"] by blast
    next
      case True
      then have c: "take c X = take (unat pr) X" "length (take (unat pr) X) = unat pr" using r(2) by (auto simp: min_def split: if_splits)
      have eqn: "int (length (take c X)) = sint pr" unfolding sp True ..
      obtain s3 where s3: "zero_mem (k + pr) (PGSIZE - pr) s2 = Some s3" "holds_page pd k s3" "user_map (mm s3) pd = user_map (mm s2) pd" "fsys s3 = fsys s2"
        "same_rest pd s2 s3" "user_used s3 = user_used s2" "\<And>x. unat x div 4096 \<noteq> unat k div 4096 \<Longrightarrow> mem_of s3 x = mem_of s2 x"
        "bytes_at (mem_of s3) k 4096 = take (unat pr) X @ replicate (4096 - unat pr) 0"
        using zero_end[OF r(5) p4(2) r(9)[unfolded c(1)] c(2)] by metis
      obtain ok s4 where i4: "install_page upage k w s3 = Some (ok, s4)" "if ok then machine_ok pd s4 else holds_page pd k s4"
        "ok \<longrightarrow> user_map (mm s3) pd upage = None" "ok \<or> user_map (mm s3) pd upage \<noteq> None \<or> kernel_full (ram (mm s3))" "fsys s4 = fsys s3" "same_rest pd s3 s4" "user_used s4 = user_used s3"
        "\<forall>x. unat x div 4096 \<in> user_used s3 \<longrightarrow> mem_of s4 x = mem_of s3 x"
        "\<forall>vb. user_map (mm s4) pd vb = (if ok \<and> is_user_vaddr vb \<and> pg_no vb = pg_no upage then Some (k, w) else user_map (mm s3) pd vb)"
        using install_frame[OF s3(2) up(2,1), of w] by blast
      have rest4: "same_rest pd s s4" using s2(2) s3(5) i4(6) same_rest_trans by blast
      have used4: "user_used s4 = insert (unat k div 4096) (user_used s)" "user_used s3 = insert (unat k div 4096) (user_used s)"
        using i4(7) s3(6) s2(3) by simp_all
      have old4: "mem_of s4 x = mem_of s x" if "unat x div 4096 \<in> user_used s" for x
        using i4(8) s3(7)[OF other[OF that]] old[OF that] that used4(2) by simp
      have map4: "user_map (mm s4) pd vb = (if ok \<and> is_user_vaddr vb \<and> pg_no vb = pg_no upage then Some (k, w) else user_map (mm s) pd vb)" for vb
        using i4(9) s3(3) s2(1) by simp
      have eq: "load_segment_loop f upage rd zr w s =
          (if \<not> ok then Option.bind (put_page k s4) (\<lambda>s. Some (False, f2, s))
           else load_segment_loop f2 (upage + PGSIZE) (rd - pr) (zr - (PGSIZE - pr)) w s4)"
        unfolding unfold using pos k(1,3) r(1) eqn s3(1) i4(1) by (simp add: Let_def del: length_take PGSIZE_eq)
      show ?thesis
      proof (cases ok)
        case False
        have h4: "holds_page pd k s4" using i4(2) False by simp
        have m4: "user_map (mm s4) pd = user_map (mm s) pd" using map4 False by (simp add: fun_eq_iff)
        obtain s' where "put_page k s4 = Some s'" "machine_ok pd s'" "user_map (mm s') pd = user_map (mm s) pd" "fsys s' = fsys s4" "same_rest pd s s'" "keeps_frames pd s s'" "same_rest pd s4 s'"
          using give_back[OF h4 m4 rest4 k(7) used4(1) old4] by metis
        moreover from this(7) have "out_of_memory s' \<or> user_map (mm s) pd upage \<noteq> None"
          using i4(4) False kernel_full_mono[OF same_rest_trans[OF i4(6)]] s3(3) s2(1) by (auto simp: out_of_memory_def)
        then have "blocked pd (unat upage div 4096) 1 (unat pr) X s s'" by (intro blocked_first) blast
        ultimately show ?thesis using eq False ro[of s'] s3(4) i4(5) by auto
      next
        case t: True
        have none: "user_map (mm s) pd upage = None" using i4(3) t s3(3) s2(1) by simp
        have "bytes_at (mem_of s4) k 4096 = bytes_at (mem_of s3) k 4096"
          by (rule same_bytes[OF holdsD(2)[OF k(2)]]) (use i4(8) used4(2) in simp)
        then have b4: "bytes_at (mem_of s4) k 4096 = take 4096 (take (unat rd) X @ replicate (unat zr) 0)"
          using s3(8) first_page_bytes(1)[OF sz p4(1) c(2)] by simp
        have map4': "user_map (mm s4) pd va = (if is_user_vaddr va \<and> pg_no va = pg_no upage then Some (k, w) else user_map (mm s) pd va)" for va
          using map4 t by simp
        note pm = page_mapped[OF up(2) none map4' b4]
        have keep: "keeps_frames pd s s4" using used4(1) old4 pm(2,3) k(7) by (auto simp: keeps_frames_def)
        have "machine_ok pd s4" using i4(2) t by simp
        moreover have "f_pos f2 = f_pos f + int (unat pr)" using r(4) True by simp
        ultimately show ?thesis using eq t rest4 keep pm(1) c(2) ro[of s4] s3(4) i4(5) by (intro disjI2 exI[of _ f2] exI[of _ s4]) simp
      qed
    qed
  qed
qed

lemma loaded_none: "user_map (mm s') pd = user_map (mm s) pd \<Longrightarrow> loaded pd u 0 w bs s s'"
  by (auto simp: loaded_def)

lemma blocked_more:
  assumes "blocked pd u m l X s s'" "m \<le> n" "l \<le> k" shows "blocked pd u n k X s s'"
  using assms unfolding blocked_def by (meson add_le_mono order_refl order_less_le_trans)

lemma blocked_later:
  assumes "blocked pd (Suc u) n (k - p) (drop p X) s1 s'" "loaded pd u 1 w bs s s1" "read_only f s f1 s1" "length (take p X) = p"
  shows "blocked pd u (Suc n) k X s s'"
proof -
  have "user_map (mm s) pd va \<noteq> None" if "user_map (mm s1) pd va \<noteq> None" "Suc u \<le> unat va div 4096" for va
    using loaded_out[OF assms(2), of va] that by simp
  moreover have "oom (fsys s) \<noteq> []" if "oom (fsys s1) \<noteq> []" using assms(3) that by (auto simp: read_only_def sync_def)
  moreover have "length X < k" if "length (drop p X) < k - p" using that assms(4) by simp
  ultimately show ?thesis using assms(1) unfolding blocked_def by (metis Suc_leD add_Suc_shift)
qed

lemma segment_loop:
  assumes "machine_ok pd s" "file_ok f i s" "pg_ofs upage = 0" "unat rd + unat zr = 4096 * n" "unat upage + 4096 * n \<le> 0xc0000000"
    "X = drop (nat (f_pos f)) (contents i s)"
  shows "\<exists>ok f' s' m. load_segment_loop f upage rd zr w s = Some (ok, f', s') \<and> machine_ok pd s' \<and> read_only f s f' s' \<and> same_rest pd s s' \<and>
    keeps_frames pd s s' \<and> m \<le> n \<and> (if ok then m = n \<and> length (take (unat rd) X) = unat rd else blocked pd (unat upage div 4096) n (unat rd) X s s') \<and>
    loaded pd (unat upage div 4096) m w (take (unat rd) X @ replicate (unat zr) 0) s s'"
  using assms
proof (induction n arbitrary: f upage rd zr X s)
  case 0
  then have z: "rd = 0" "zr = 0" by (simp_all add: unat_eq_0)
  have "load_segment_loop f upage rd zr w s = Some (True, f, s)" by (subst load_segment_loop.simps) (simp add: z)
  moreover have "read_only f s f s" by (rule read_only_refl[OF 0(2)])
  ultimately show ?case using 0(1) z loaded_none[of s pd s]
    by (intro exI[of _ True] exI[of _ f] exI[of _ s] exI[of _ 0]) (simp add: keeps_frames_def)
next
  case (Suc n)
  define pr where "pr = (if rd < PGSIZE then rd else PGSIZE)"
  have p4: "unat pr = min (unat rd) 4096" by (auto simp: pr_def word_less_nat_alt min_def)
  have user: "is_user_vaddr upage" using Suc.prems(5) by (simp add: is_user_vaddr_def word_less_nat_alt unat_PHYS_BASE)
  have sz: "4096 \<le> unat rd + unat zr" using Suc.prems(4) by simp
  from segment_page[OF Suc.prems(1-3) user Suc.prems(6) sz pr_def, of w] show ?case
  proof (elim disjE exE conjE)
    fix f' s' assume a: "load_segment_loop f upage rd zr w s = Some (False, f', s')" "machine_ok pd s'" "user_map (mm s') pd = user_map (mm s) pd"
      "read_only f s f' s'" "same_rest pd s s'" "keeps_frames pd s s'" "blocked pd (unat upage div 4096) 1 (unat pr) X s s'"
    have "blocked pd (unat upage div 4096) (Suc n) (unat rd) X s s'" by (rule blocked_more[OF a(7)]) (simp_all add: p4)
    then show ?thesis using loaded_none[OF a(3)] a by (intro exI[of _ False] exI[of _ f'] exI[of _ s'] exI[of _ 0]) simp
  next
    fix f1 s1 assume a: "load_segment_loop f upage rd zr w s = load_segment_loop f1 (upage + PGSIZE) (rd - pr) (zr - (PGSIZE - pr)) w s1"
      "machine_ok pd s1" "read_only f s f1 s1" "same_rest pd s s1" "keeps_frames pd s s1" "f_pos f1 = f_pos f + int (unat pr)" "length (take (unat pr) X) = unat pr"
      and l: "loaded pd (unat upage div 4096) 1 w (take (unat rd) X @ replicate (unat zr) 0) s s1"
    have rz: "unat (rd - pr) = unat rd - unat pr" "unat (PGSIZE - pr) = 4096 - unat pr" using p4 by (simp_all add: unat_sub word_le_nat_alt)
    have zle: "4096 - unat pr \<le> unat zr" using p4 sz by linarith
    then have zz: "unat (zr - (PGSIZE - pr)) = unat zr - (4096 - unat pr)" using rz(2) by (simp add: unat_sub word_le_nat_alt)
    have uu: "unat (upage + PGSIZE) = unat upage + 4096" using Suc.prems(5) unat_add_lem[of upage PGSIZE] by simp
    have po: "pg_ofs (upage + PGSIZE) = 0"
    proof -
      have "unat upage mod 4096 = 0" using Suc.prems(3) unat_pg_ofs[of upage] by simp
      then have "unat (pg_ofs (upage + PGSIZE)) = 0" unfolding unat_pg_ofs uu by simp
      then show ?thesis by (simp only: unat_eq_0)
    qed
    have sum: "unat (rd - pr) + unat (zr - (PGSIZE - pr)) = 4096 * n" 
    proof (cases "unat rd < 4096")
      case True
      then show ?thesis unfolding rz(1) zz using Suc.prems(4) p4 zle by simp
    next
      case False
      then have "unat pr = 4096" using p4 by simp
      then show ?thesis unfolding rz(1) zz using Suc.prems(4) False by simp
    qed
    have X1: "drop (unat pr) X = drop (nat (f_pos f1)) (contents i s1)"
    proof -
      have "nat (f_pos f1) = nat (f_pos f) + unat pr" using a(6) Suc.prems(2) by (simp add: file_ok_def nat_add_distrib)
      then show ?thesis using Suc.prems(6) read_only_ok(2)[OF Suc.prems(2) a(3)] by (simp add: add.commute)
    qed
    have up: "unat (upage + PGSIZE) + 4096 * n \<le> 0xc0000000" using Suc.prems(5) uu by simp
    obtain ok f' s' m where b: "load_segment_loop f1 (upage + PGSIZE) (rd - pr) (zr - (PGSIZE - pr)) w s1 = Some (ok, f', s')" "machine_ok pd s'"
      "read_only f1 s1 f' s'" "same_rest pd s1 s'" "keeps_frames pd s1 s'" "m \<le> n"
      "if ok then m = n \<and> length (take (unat (rd - pr)) (drop (unat pr) X)) = unat (rd - pr)
       else blocked pd (unat (upage + PGSIZE) div 4096) n (unat (rd - pr)) (drop (unat pr) X) s1 s'"
      "loaded pd (unat (upage + PGSIZE) div 4096) m w (take (unat (rd - pr)) (drop (unat pr) X) @ replicate (unat (zr - (PGSIZE - pr))) 0) s1 s'"
      using Suc.IH[OF a(2) read_only_ok(1)[OF Suc.prems(2) a(3)] po sum up X1] by blast
    have un: "unat (upage + PGSIZE) div 4096 = Suc (unat upage div 4096)" unfolding uu by simp
    have "loaded pd (unat upage div 4096) (Suc m) w (take (unat rd) X @ replicate (unat zr) 0) s s'"
    proof (rule loaded_trans[OF a(2) l _ b(5)])
      show "loaded pd (Suc (unat upage div 4096)) m w (drop 4096 (take (unat rd) X @ replicate (unat zr) 0)) s1 s'"
        using b(8) unfolding un rz(1) zz first_page_bytes(2)[OF sz p4 a(7)] .
    qed
    moreover have "if ok then m = n \<and> length (take (unat rd) X) = unat rd else blocked pd (unat upage div 4096) (Suc n) (unat rd) X s s'"
    proof (cases ok)
      case True
      then show ?thesis using b(7) a(7) p4 unfolding rz(1) by (auto simp: min_def split: if_splits)
    next
      case False
      then have bl: "blocked pd (Suc (unat upage div 4096)) n (unat rd - unat pr) (drop (unat pr) X) s1 s'" using b(7) unfolding un rz(1) by simp
      show ?thesis using blocked_later[OF bl l a(3)] a(7) False by simp
    qed
    ultimately show ?thesis using a(1) b(1-6) read_only_trans[OF a(3) b(3)] same_rest_trans[OF a(4) b(4)] keeps_frames_trans[OF a(5) b(5)]
      by (intro exI[of _ ok] exI[of _ f'] exI[of _ s'] exI[of _ "Suc m"]) (simp del: length_take)
  qed
qed

lemma load_segment_eq:
  assumes "machine_ok pd s" "file_ok f i s" "pg_ofs upage = 0" "unat rd + unat zr = 4096 * n" "unat upage + 4096 * n \<le> 0xc0000000" "4096 dvd k"
    "X = drop k (contents i s)"
  shows "\<exists>ok f' s' m. load_segment f (int k) upage rd zr w s = Some (ok, f', s') \<and> machine_ok pd s' \<and> read_only f s f' s' \<and> same_rest pd s s' \<and>
    keeps_frames pd s s' \<and> m \<le> n \<and> (if ok then m = n \<and> length (take (unat rd) X) = unat rd else blocked pd (unat upage div 4096) n (unat rd) X s s') \<and>
    loaded pd (unat upage div 4096) m w (take (unat rd) X @ replicate (unat zr) 0) s s'"
proof -
  have f: "file_ok (f\<lparr>f_pos := int k\<rparr>) i s" "nat (f_pos (f\<lparr>f_pos := int k\<rparr>)) = k" using assms(2) by (simp_all add: file_ok_def)
  have ro: "read_only f s f' s'" if "read_only (f\<lparr>f_pos := int k\<rparr>) s f' s'" for f' s' using that by (simp add: read_only_def)
  have "unat rd + unat zr < 2 ^ 32" using assms(4,5) by simp
  then have "unat (rd + zr) = 4096 * n" using assms(4) unat_add_lem[of rd zr] by simp
  then have a: "(rd + zr) mod PGSIZE = 0" by (simp add: word_arith_nat_mod)
  have "sint PGSIZE = 4096" by simp
  moreover have "int k smod 4096 = 0"
  proof -
    obtain q where "k = 4096 * q" using assms(6) by blast
    then show ?thesis using nonneg_smod[of "int k" 4096] by simp
  qed
  ultimately have "load_segment f (int k) upage rd zr w s = load_segment_loop (f\<lparr>f_pos := int k\<rparr>) upage rd zr w s"
    using a assms(3) by (simp add: load_segment_def file_seek_def)
  then show ?thesis using segment_loop[OF assms(1) f(1) assms(3-5), of X w] assms(7) ro f(2) by fastforce
qed

end
