(* ===== verification/Image.thy ===== *)
theory Image
  imports Load
begin

unbundle bit_operations_syntax

text \<open>
  Loading an executable gives the address space that its contents describe. The address space is read as a map from user addresses to
  bytes, each with its permission to be written; what a program header asks for is such a map, too, computed from the contents of the file.
\<close>

section \<open>The address space as a map of bytes\<close>

definition user_byte :: "machine \<Rightarrow> u32 \<Rightarrow> u32 \<Rightarrow> (u8 \<times> bool) option" where
  "user_byte s pd va = (case user_map (mm s) pd va of None \<Rightarrow> None | Some (k, w) \<Rightarrow> Some (mem_of s (k + pg_ofs va), w))"

text \<open>What a program header asks for: whole pages, with the bytes of the file up to the end of the segment's file part and zeros after it.\<close>

definition segment_map :: "u8 list \<Rightarrow> program_header \<Rightarrow> u32 \<Rightarrow> (u8 \<times> bool) option" where
  "segment_map X ph va =
     (if unat (p_vaddr ph) div 4096 \<le> unat va div 4096 \<and> unat va div 4096 \<le> (unat (p_vaddr ph) + unat (p_memsz ph) - 1) div 4096
      then Some (if p_filesz ph \<noteq> 0 \<and> unat va < unat (p_vaddr ph) + unat (p_filesz ph)
                 then X ! (unat va + unat (p_offset ph) - unat (p_vaddr ph)) else 0, p_flags ph AND PF_W \<noteq> 0)
      else None)"

text \<open>The program headers of a file, from one position on, and what they ask for together.\<close>

definition header_at :: "u8 list \<Rightarrow> nat \<Rightarrow> program_header" where "header_at X k = decode_phdr (take sizeof_phdr (drop k X))"

primrec segments_map :: "u8 list \<Rightarrow> nat \<Rightarrow> nat \<Rightarrow> u32 \<Rightarrow> (u8 \<times> bool) option" where
  "segments_map X k 0 = Map.empty"
| "segments_map X k (Suc n) =
     (if p_type (header_at X k) = PT_LOAD then segment_map X (header_at X k) else Map.empty) ++ segments_map X (k + sizeof_phdr) n"

text \<open>The headers can be loaded: they and the bytes they name lie in the file, none asks for dynamic linking, and no page is asked for twice.\<close>

primrec segments_ok :: "u8 list \<Rightarrow> nat \<Rightarrow> nat \<Rightarrow> bool" where
  "segments_ok X k 0 = True"
| "segments_ok X k (Suc n) \<longleftrightarrow> k + sizeof_phdr \<le> length X \<and> p_type (header_at X k) \<notin> {PT_DYNAMIC, PT_INTERP, PT_SHLIB} \<and>
     (p_type (header_at X k) = PT_LOAD \<longrightarrow> validate_segment (header_at X k) (int (length X)) \<and>
        unat (p_offset (header_at X k)) + unat (p_filesz (header_at X k)) \<le> length X \<and>
        dom (segment_map X (header_at X k)) \<inter> dom (segments_map X (k + sizeof_phdr) n) = {}) \<and>
     segments_ok X (k + sizeof_phdr) n"

definition stack_map :: "u32 \<Rightarrow> (u8 \<times> bool) option" where
  "stack_map va = (if pg_no va = pg_no (PHYS_BASE - PGSIZE) then Some (0, True) else None)"

section \<open>One segment\<close>

text \<open>What the checks of a segment mean.\<close>

lemma validated:
  assumes "validate_segment ph (int len)" "len < 2 ^ 31"
  shows "unat (p_offset ph) mod 4096 = unat (p_vaddr ph) mod 4096" "unat (p_offset ph) \<le> len" "unat (p_filesz ph) \<le> unat (p_memsz ph)"
    "0 < unat (p_memsz ph)" "unat (p_vaddr ph) + unat (p_memsz ph) < 0xc0000000"
proof -
  have v: "p_offset ph AND PGMASK = p_vaddr ph AND PGMASK" "\<not> p_offset ph > word_of_int (int len)" "\<not> p_memsz ph < p_filesz ph" "p_memsz ph \<noteq> 0"
    "is_user_vaddr (p_vaddr ph + p_memsz ph)" "\<not> p_vaddr ph + p_memsz ph < p_vaddr ph"
    using assms(1) by (auto simp: validate_segment_def split: if_splits)
  have "pg_ofs (p_offset ph) = pg_ofs (p_vaddr ph)" using v(1) by (simp add: pg_ofs_def)
  then show "unat (p_offset ph) mod 4096 = unat (p_vaddr ph) mod 4096" by (metis unat_pg_ofs)
  have "unat (of_nat len :: u32) = len" using assms(2) by (simp add: unat_of_nat)
  then show "unat (p_offset ph) \<le> len" using v(2) by (simp add: word_less_nat_alt not_less)
  show "unat (p_filesz ph) \<le> unat (p_memsz ph)" using v(3) by (simp add: word_less_nat_alt not_less)
  show "0 < unat (p_memsz ph)" using v(4) by (simp add: unat_gt_0)
  have "unat (p_memsz ph) < 2 ^ 32" using unsigned_less[of "p_memsz ph"] by simp
  then have "unat (p_vaddr ph + p_memsz ph) = unat (p_vaddr ph) + unat (p_memsz ph)"
    using v(6) unat_plus_if'[of "p_vaddr ph" "p_memsz ph"]
    by (simp add: word_less_nat_alt not_less split: if_splits)
  then show "unat (p_vaddr ph) + unat (p_memsz ph) < 0xc0000000"
    using v(5) by (simp add: is_user_vaddr_def word_less_nat_alt unat_PHYS_BASE)
qed

lemma unat_page_ceil: "unat x + 4095 < 2 ^ 32 \<Longrightarrow> unat (page_ceil x) = 4096 * ((unat x + 4095) div 4096)"
proof -
  assume a: "unat x + 4095 < 2 ^ 32"
  have "x + PGSIZE - 1 = x + 4095" by simp
  moreover have "unat (x + 4095) = unat x + 4095" using a unat_add_lem[of x 4095] by simp
  ultimately have u: "unat (x + PGSIZE - 1) = unat x + 4095" by (simp only:)
  have "unat (page_ceil x) = (unat x + 4095) div 4096 * 4096 mod 2 ^ 32"
    unfolding page_ceil_def unat_word_ariths(2) unat_div u by simp
  moreover have "(unat x + 4095) div 4096 * 4096 < 2 ^ 32" using a div_times_less_eq_dividend[of "unat x + 4095" 4096] by linarith
  ultimately show ?thesis by simp
qed

text \<open>The bytes of the address space in pages that have been loaded, and in the others.\<close>

lemma bytes_at_nth: "j < n \<Longrightarrow> bytes_at m a n ! j = m (a + of_nat j)"
  by (simp add: bytes_at_def)

lemma user_byte_same:
  assumes "machine_ok pd s" "keeps_frames pd s s'" "user_map (mm s') pd va = user_map (mm s) pd va"
  shows "user_byte s' pd va = user_byte s pd va"
proof (cases "user_map (mm s) pd va")
  case (Some kw)
  obtain k w where kw: "user_map (mm s) pd va = Some (k, w)" using Some by (cases kw) simp
  have "unat (k + of_nat (unat va mod 4096)) div 4096 = unat k div 4096" using in_frame mapped_used(1)[OF assms(1) kw] by simp
  moreover have "of_nat (unat va mod 4096) = pg_ofs va" using unat_pg_ofs[of va] by (metis of_nat_unat ucast_id)
  ultimately have "mem_of s' (k + pg_ofs va) = mem_of s (k + pg_ofs va)"
    using assms(2) mapped_used(2)[OF assms(1) kw] by (simp add: keeps_frames_def)
  then show ?thesis using kw assms(3) by (simp add: user_byte_def)
qed (use assms(3) in \<open>simp add: user_byte_def\<close>)

lemma loaded_others:
  assumes ok: "machine_ok pd s" and k: "keeps_frames pd s s'" and l: "loaded pd u m w bs s s'"
  shows "\<not> (u \<le> unat va div 4096 \<and> unat va div 4096 < u + m) \<Longrightarrow> user_byte s' pd va = user_byte s pd va"
    "u \<le> unat va div 4096 \<and> unat va div 4096 < u + m \<Longrightarrow> user_byte s pd va = None"
proof -
  assume "\<not> (u \<le> unat va div 4096 \<and> unat va div 4096 < u + m)"
  then have "user_map (mm s') pd va = user_map (mm s) pd va" by (rule loaded_out[OF l])
  then show "user_byte s' pd va = user_byte s pd va" by (rule user_byte_same[OF ok k])
next
  assume a: "u \<le> unat va div 4096 \<and> unat va div 4096 < u + m"
  obtain k where "user_map (mm s) pd va = None" "user_map (mm s') pd va = Some (k, w)"
    "bytes_at (mem_of s') k 4096 = take 4096 (drop (4096 * (unat va div 4096 - u)) bs)"
    by (rule loaded_in[OF l refl conjunct1[OF a] conjunct2[OF a]])
  then show "user_byte s pd va = None" by (simp add: user_byte_def)
qed

lemma loaded_bytes:
  assumes l: "loaded pd u m w bs s s'" and b: "4096 * m \<le> length bs" and q: "q = unat va div 4096" "u \<le> q" "q < u + m"
  shows "user_byte s' pd va = Some (bs ! (unat va - 4096 * u), w)"
proof -
  have va: "unat va = 4096 * q + unat va mod 4096" by (simp add: q(1))
  obtain f where f: "user_map (mm s') pd va = Some (f, w)" "bytes_at (mem_of s') f 4096 = take 4096 (drop (4096 * (q - u)) bs)"
    using loaded_in[OF l q] by auto
  have "of_nat (unat va mod 4096) = pg_ofs va" using unat_pg_ofs[of va] by (metis of_nat_unat ucast_id)
  then have "mem_of s' (f + pg_ofs va) = bytes_at (mem_of s') f 4096 ! (unat va mod 4096)" by (simp add: bytes_at_nth)
  also have "\<dots> = bs ! (4096 * (q - u) + unat va mod 4096)"
  proof -
    have "q - u \<le> m" using q by linarith
    then have "4096 * (q - u) \<le> length bs" using b by linarith
    then show ?thesis unfolding f(2) by (simp add: nth_drop)
  qed
  also have "4096 * (q - u) + unat va mod 4096 = unat va - 4096 * u" using va q(2) by (simp add: algebra_simps)
  finally show ?thesis using f(1) by (simp add: user_byte_def)
qed

lemma loaded_as_map:
  assumes ok: "machine_ok pd s" "keeps_frames pd s s'" and l: "loaded pd u m w bs s s'"
    and out: "\<And>va. \<not> (u \<le> unat va div 4096 \<and> unat va div 4096 < u + m) \<Longrightarrow> M va = None"
    and i: "\<And>va. u \<le> unat va div 4096 \<Longrightarrow> unat va div 4096 < u + m \<Longrightarrow> M va = Some (bs ! (unat va - 4096 * u), w)" and b: "4096 * m \<le> length bs"
  shows "user_byte s' pd = user_byte s pd ++ M" "dom (user_byte s pd) \<inter> dom M = {}" "user_byte s pd \<subseteq>\<^sub>m user_byte s' pd"
proof -
  note others = loaded_others[OF ok l]
  show "user_byte s' pd = user_byte s pd ++ M"
  proof
    fix va
    show "user_byte s' pd va = (user_byte s pd ++ M) va"
    proof (cases "u \<le> unat va div 4096 \<and> unat va div 4096 < u + m")
      case True
      then show ?thesis using loaded_bytes[OF l b refl, of va] i[of va] by (simp add: map_add_def)
    next
      case False
      then show ?thesis using others(1)[OF False] out[OF False] by (simp add: map_add_def)
    qed
  qed
  have "user_byte s pd va = None" if "M va \<noteq> None" for va using others(2)[of va] out[of va] that by metis
  then show "dom (user_byte s pd) \<inter> dom M = {}" by (auto simp: dom_def)
  show "user_byte s pd \<subseteq>\<^sub>m user_byte s' pd" unfolding map_le_def using others by (metis domIff)
qed

text \<open>The numbers that the loader computes for a segment; \<open>n\<close> is its number of pages, and \<open>k\<close> where the file is read from.\<close>

lemma page_sums:
  fixes v :: nat
  assumes "0 < ms" "n = (v mod 4096 + ms + 4095) div 4096"
  shows "v mod 4096 + ms \<le> 4096 * n" "v div 4096 + n = Suc ((v + ms - 1) div 4096)" "v + ms < 0xc0000000 \<Longrightarrow> 4096 * (v div 4096) + 4096 * n \<le> 0xc0000000"
proof -
  show "v mod 4096 + ms \<le> 4096 * n" using assms(2) by linarith
  have "v + ms - 1 = 4096 * (v div 4096) + (v mod 4096 + ms - 1)" using assms(1) by simp
  then have "(v + ms - 1) div 4096 = v div 4096 + (v mod 4096 + ms - 1) div 4096" by simp
  moreover have "n = Suc ((v mod 4096 + ms - 1) div 4096)" using assms by simp
  ultimately show "v div 4096 + n = Suc ((v + ms - 1) div 4096)" by simp
  moreover have "(v + ms - 1) div 4096 < 0xc0000" if "v + ms < 0xc0000000" using that by (simp add: div_less_iff_less_mult)
  ultimately show "4096 * (v div 4096) + 4096 * n \<le> 0xc0000000" if "v + ms < 0xc0000000" using that by (simp flip: distrib_left)
qed

lemma load_one_eq:
  assumes ok: "machine_ok pd s" "file_ok f i s" and v: "validate_segment ph (file_length (data i))" and X: "X = contents i s"
  shows "\<exists>ok f' s'. load_one ph f s = Some (ok, f', s') \<and> machine_ok pd s' \<and> read_only f s f' s' \<and> same_rest pd s s' \<and> keeps_frames pd s s' \<and>
    user_byte s pd \<subseteq>\<^sub>m user_byte s' pd \<and>
    (if ok then unat (p_offset ph) + unat (p_filesz ph) \<le> length X \<and> user_byte s' pd = user_byte s pd ++ segment_map X ph \<and>
       dom (user_byte s pd) \<inter> dom (segment_map X ph) = {}
     else out_of_memory s' \<or> oom (fsys s) \<noteq> [] \<or> \<not> unat (p_offset ph) + unat (p_filesz ph) \<le> length X \<or>
       dom (user_byte s pd) \<inter> dom (segment_map X ph) \<noteq> {})"
proof -
  have len: "file_length (data i) = int (length X)" using ok(2) X by (simp add: contents_def file_ok_def fits_def)
  have lt: "length X < 2 ^ 31" using length_file_contents[OF ok(2)] X by simp
  define v po ms fs off where "v = unat (p_vaddr ph)" and "po = v mod 4096" and "ms = unat (p_memsz ph)" and "fs = unat (p_filesz ph)" and "off = unat (p_offset ph)"
  note d = v_def ms_def fs_def off_def
  have c: "off mod 4096 = po" "off \<le> length X" "fs \<le> ms" "0 < ms" "v + ms < 0xc0000000"
    using validated[OF assms(3)[unfolded len] lt] unfolding d po_def by auto
  define n where "n = (po + ms + 4095) div 4096"
  note ps = page_sums[OF c(4), of n v, folded po_def, OF n_def]
  define rd where "rd = (if p_filesz ph > 0 then pg_ofs (p_vaddr ph) + p_filesz ph else 0)"
  define zr where "zr = (if p_filesz ph > 0 then page_ceil (pg_ofs (p_vaddr ph) + p_memsz ph) - rd else page_ceil (pg_ofs (p_vaddr ph) + p_memsz ph))"
  have up: "unat (pg_ofs (p_vaddr ph)) = po" by (simp add: unat_pg_ofs po_def v_def)
  have po: "po < 4096" "po \<le> v" by (simp_all add: po_def)
  have fz: "p_filesz ph > 0 \<longleftrightarrow> fs \<noteq> 0" by (simp add: fs_def word_gt_0 unat_eq_0)
  have urd: "unat rd = (if fs = 0 then 0 else po + fs)"
    using c(3,5) po unat_add_lem[of "pg_ofs (p_vaddr ph)" "p_filesz ph"] fz unfolding rd_def up by (auto simp: fs_def)
  have "unat (pg_ofs (p_vaddr ph) + p_memsz ph) = po + ms"
    using c(5) po unat_add_lem[of "pg_ofs (p_vaddr ph)" "p_memsz ph"] unfolding up by (auto simp: ms_def)
  then have uc: "unat (page_ceil (pg_ofs (p_vaddr ph) + p_memsz ph)) = 4096 * n"
    using unat_page_ceil[of "pg_ofs (p_vaddr ph) + p_memsz ph"] c(5) po by (simp add: n_def)
  have rn: "unat rd \<le> 4096 * n" using urd ps(1) c(3) by auto
  have uz: "unat zr = 4096 * n - unat rd"
    using uc rn fz urd unfolding zr_def by (auto simp: unat_sub word_le_nat_alt)
  have sum: "unat rd + unat zr = 4096 * n" using uz rn by simp
  have mp: "unat (pg_round_down (p_vaddr ph)) = 4096 * (v div 4096)" by (simp add: unat_pg_round_down ROUND_DOWN_def v_def)
  have fp: "unat (pg_round_down (p_offset ph)) = 4096 * (off div 4096)" by (simp add: unat_pg_round_down ROUND_DOWN_def off_def)
  have fpi: "sint (pg_round_down (p_offset ph)) = int (4096 * (off div 4096))"
    using sint_small[of "pg_round_down (p_offset ph)"] c(2) lt unfolding fp by simp
  have l1: "load_one ph f s = load_segment f (int (4096 * (off div 4096))) (pg_round_down (p_vaddr ph)) rd zr (p_flags ph AND PF_W \<noteq> 0) s"
    unfolding load_one_def Let_def pg_round_down_def[symmetric] pg_ofs_def[symmetric] fpi rd_def[symmetric] zr_def[symmetric] ..
  have dv: "4096 * (v div 4096) div 4096 = v div 4096" by simp
  define bs where "bs = take (unat rd) (drop (4096 * (off div 4096)) X) @ replicate (unat zr) 0"
  have top: "unat (pg_round_down (p_vaddr ph)) + 4096 * n \<le> 0xc0000000" using ps(3) c(5) unfolding mp by simp
  obtain ok f' s' m where r: "load_one ph f s = Some (ok, f', s')" "machine_ok pd s'" "read_only f s f' s'" "same_rest pd s s'" "keeps_frames pd s s'"
    "m \<le> n" "if ok then m = n \<and> length (take (unat rd) (drop (4096 * (off div 4096)) X)) = unat rd
     else blocked pd (v div 4096) n (unat rd) (drop (4096 * (off div 4096)) X) s s'"
    "loaded pd (v div 4096) m (p_flags ph AND PF_W \<noteq> 0) bs s s'"
    using load_segment_eq[OF assms(1,2) pg_ofs_pg_round_down sum top dvd_triv_left refl, of "off div 4096" "p_flags ph AND PF_W \<noteq> 0"]
    unfolding l1 bs_def X mp dv by blast
  note others = loaded_others[OF ok(1) r(5,8)]
  have le: "user_byte s pd \<subseteq>\<^sub>m user_byte s' pd" unfolding map_le_def using others by (metis domIff)
  have vo: "v = 4096 * (v div 4096) + po" "off = 4096 * (off div 4096) + po" using c(1) mult_div_mod_eq[of 4096 off] by (simp_all add: po_def)
  have cond: "v div 4096 \<le> a div 4096 \<and> a div 4096 \<le> (v + ms - 1) div 4096 \<longleftrightarrow> v div 4096 \<le> a div 4096 \<and> a div 4096 < v div 4096 + n" for a
    unfolding ps(2) by linarith
  have fits: "rd = 0 \<or> (length X - 4096 * (off div 4096) < unat rd \<longleftrightarrow> length X < off + fs)"
    using urd vo(2) c(2) by (auto simp: unat_eq_0)
  have "out_of_memory s' \<or> oom (fsys s) \<noteq> [] \<or> \<not> off + fs \<le> length X \<or> dom (user_byte s pd) \<inter> dom (segment_map X ph) \<noteq> {}" if "\<not> ok"
  proof -
    have b: "blocked pd (v div 4096) n (unat rd) (drop (4096 * (off div 4096)) X) s s'" using r(7) that by simp
    have "dom (user_byte s pd) \<inter> dom (segment_map X ph) \<noteq> {}"
      if a: "v div 4096 \<le> unat va div 4096 \<and> unat va div 4096 < v div 4096 + n" "user_map (mm s) pd va \<noteq> None" for va
    proof -
      have c: "v div 4096 \<le> unat va div 4096 \<and> unat va div 4096 \<le> (v + ms - 1) div 4096" using cond[of "unat va"] a(1) by blast
      have "segment_map X ph va \<noteq> None" unfolding segment_map_def v_def[symmetric] ms_def[symmetric] if_P[OF c] by simp
      moreover have "user_byte s pd va \<noteq> None" using a(2) by (auto simp: user_byte_def)
      ultimately show ?thesis by blast
    qed
    moreover have "length X < off + fs" if "length (drop (4096 * (off div 4096)) X) < unat rd" using fits that by auto
    ultimately show ?thesis using b unfolding blocked_def by (meson not_le)
  qed
  moreover have "off + fs \<le> length X" "user_byte s' pd = user_byte s pd ++ segment_map X ph" "dom (user_byte s pd) \<inter> dom (segment_map X ph) = {}" if ok
  proof -
    have m: "m = n" "length (take (unat rd) (drop (4096 * (off div 4096)) X)) = unat rd" using r(7) that by simp_all
    have lb: "4096 * m \<le> length bs" using sum m by (simp add: bs_def del: length_take)
    have dm: "segment_map X ph va = (if v div 4096 \<le> unat va div 4096 \<and> unat va div 4096 < v div 4096 + m
      then Some (bs ! (unat va - 4096 * (v div 4096)), p_flags ph AND PF_W \<noteq> 0) else None)" for va
    proof -
      define a where "a = unat va"
      define q where "q = 4096 * (v div 4096)"
      note vq = vo[folded q_def]
      have "bs ! (a - q) = (if fs \<noteq> 0 \<and> a < v + fs then X ! (a + off - v) else 0)"
        if in_pages: "v div 4096 \<le> a div 4096" "a div 4096 < v div 4096 + m"
      proof -
        have a: "q \<le> a" "a - q < 4096 * n" using in_pages unfolding m(1) q_def by linarith+
        have nth: "bs ! (a - q) = (if a - q < unat rd then X ! (4096 * (off div 4096) + (a - q)) else 0)"
          using m(2) a(2) sum c(2) unfolding bs_def nth_append m(2) by (auto simp: nth_drop)
        have "a - q < unat rd \<longleftrightarrow> fs \<noteq> 0 \<and> a < v + fs" using urd vq(1) a(1) by auto
        moreover have "4096 * (off div 4096) + (a - q) = a + off - v" using vq a(1) by linarith
        ultimately show ?thesis using nth by simp
      qed
      then show ?thesis using cond[of a, folded m(1)] unfolding segment_map_def v_def[symmetric] ms_def[symmetric] fs_def[symmetric] off_def[symmetric] a_def[symmetric] q_def[symmetric]
        by (simp add: fs_def unat_eq_0)
    qed
    note sz = m(2)
    note m = loaded_as_map[OF ok(1) r(5,8) _ _ lb, of "segment_map X ph"]
    show "off + fs \<le> length X"
    proof (rule ccontr)
      assume "\<not> off + fs \<le> length X"
      then have "length (take (unat rd) (drop (4096 * (off div 4096)) X)) < unat rd" using fits c(2) urd by (auto simp: min_def)
      then show False using sz by simp
    qed
    show "user_byte s' pd = user_byte s pd ++ segment_map X ph" by (rule m) (simp_all add: dm)
    show "dom (user_byte s pd) \<inter> dom (segment_map X ph) = {}" by (rule m) (simp_all add: dm)
  qed
  ultimately have "user_byte s pd \<subseteq>\<^sub>m user_byte s' pd \<and>
    (if ok then off + fs \<le> length X \<and> user_byte s' pd = user_byte s pd ++ segment_map X ph \<and> dom (user_byte s pd) \<inter> dom (segment_map X ph) = {}
     else out_of_memory s' \<or> oom (fsys s) \<noteq> [] \<or> \<not> off + fs \<le> length X \<or> dom (user_byte s pd) \<inter> dom (segment_map X ph) \<noteq> {})" using le by presburger
  then show ?thesis using r(1-5) unfolding off_def[symmetric] fs_def[symmetric] by blast
qed

section \<open>The stack\<close>

lemma setup_stack_eq:
  assumes ok: "machine_ok pd s"
  shows "\<exists>e s'. setup_stack s = Some (e, s') \<and> machine_ok pd s' \<and> fsys s' = fsys s \<and> same_rest pd s s' \<and> keeps_frames pd s s' \<and>
    user_byte s pd \<subseteq>\<^sub>m user_byte s' pd \<and>
    (if e \<noteq> None then e = Some PHYS_BASE \<and> user_byte s' pd = user_byte s pd ++ stack_map \<and> dom (user_byte s pd) \<inter> dom stack_map = {}
     else out_of_memory s' \<or> dom (user_byte s pd) \<inter> dom stack_map \<noteq> {})"
proof -
  define fl where "fl = PAL_USER OR PAL_ZERO"
  have fl: "fl AND PAL_USER \<noteq> 0" "fl AND PAL_ASSERT = 0" "fl AND PAL_ZERO \<noteq> 0" by (simp_all add: fl_def PAL_USER_def PAL_ASSERT_def PAL_ZERO_def)
  define up where "up = PHYS_BASE - PGSIZE"
  have up: "is_user_vaddr up" "pg_ofs up = 0" "unat up div 4096 = 0xbffff" by (simp_all add: up_def is_user_vaddr_def PHYS_BASE_def pg_ofs_def PGMASK_eq)
  note unfold = setup_stack_def[of s, folded fl_def up_def]
  from get_frame[OF ok fl(1,2)] show ?thesis
  proof (elim disjE exE conjE)
    assume full: "get_page fl s = Some (0, s)" "user_full (ram (mm s))"
    then have "setup_stack s = Some (None, s)" unfolding unfold by simp
    moreover have "out_of_memory s" using full(2) by (simp add: out_of_memory_def)
    ultimately show ?thesis using ok by (intro exI[of _ None] exI[of _ s]) (simp add: keeps_frames_def)
  next
    fix k s1 assume k: "get_page fl s = Some (k, s1)" "holds_page pd k s1" "k \<noteq> 0" "user_map (mm s1) pd = user_map (mm s) pd" "fsys s1 = fsys s"
      "same_rest pd s s1" "unat k div 4096 \<notin> user_used s" "user_used s1 = insert (unat k div 4096) (user_used s)"
      and m1: "\<forall>x. mem_of s1 x = (if fl AND PAL_ZERO \<noteq> 0 \<and> unat (x - k) < 4096 then 0 else mem_of s x)"
    obtain ok s2 where i: "install_page up k True s1 = Some (ok, s2)" "if ok then machine_ok pd s2 else holds_page pd k s2"
      "ok \<longrightarrow> user_map (mm s1) pd up = None" "ok \<or> user_map (mm s1) pd up \<noteq> None \<or> kernel_full (ram (mm s1))" "fsys s2 = fsys s1" "same_rest pd s1 s2" "user_used s2 = user_used s1"
      "\<forall>x. unat x div 4096 \<in> user_used s1 \<longrightarrow> mem_of s2 x = mem_of s1 x"
      "\<forall>vb. user_map (mm s2) pd vb = (if ok \<and> is_user_vaddr vb \<and> pg_no vb = pg_no up then Some (k, True) else user_map (mm s1) pd vb)"
      using install_frame[OF k(2) up(1,2), of True] by blast
    have rest: "same_rest pd s s2" using k(6) i(6) same_rest_trans by blast
    have used: "user_used s2 = insert (unat k div 4096) (user_used s)" using i(7) k(8) by simp
    have old: "mem_of s2 x = mem_of s x" if x: "unat x div 4096 \<in> user_used s" for x
    proof -
      have "\<not> unat (x - k) < 4096" using in_page[OF holdsD(2)[OF k(2)]] k(7) x by metis
      then show ?thesis using i(8) m1 k(8) x by simp
    qed
    show ?thesis
    proof (cases ok)
      case False
      have "user_map (mm s2) pd = user_map (mm s) pd" using i(9) False k(4) by (simp add: fun_eq_iff)
      moreover have "holds_page pd k s2" using i(2) False by simp
      ultimately obtain s' where s': "put_page k s2 = Some s'" "machine_ok pd s'" "user_map (mm s') pd = user_map (mm s) pd" "fsys s' = fsys s2"
        "same_rest pd s s'" "keeps_frames pd s s'" "same_rest pd s2 s'" using give_back[OF _ _ rest k(7) used old] by metis
      have "out_of_memory s' \<or> user_map (mm s) pd up \<noteq> None"
        using i(4) False k(4) kernel_full_mono[OF same_rest_trans[OF i(6) s'(7)]] by (auto simp: out_of_memory_def)
      moreover have "stack_map up \<noteq> None" by (simp add: stack_map_def up_def)
      moreover have "user_byte s pd up \<noteq> None" if "user_map (mm s) pd up \<noteq> None" using that by (auto simp: user_byte_def)
      ultimately have bl: "out_of_memory s' \<or> dom (user_byte s pd) \<inter> dom stack_map \<noteq> {}" by blast
      have "user_byte s' pd = user_byte s pd" using user_byte_same[OF assms s'(6)] s'(3) by (simp add: fun_eq_iff)
      moreover have "setup_stack s = Some (None, s')" unfolding unfold using k(1,3) i(1) False s'(1) by simp
      ultimately show ?thesis using s' i(5) k(5) bl by (intro exI[of _ None] exI[of _ s']) simp
    next
      case True
      have none: "user_map (mm s) pd up = None" using i(3) True k(4) by simp
      have map: "user_map (mm s2) pd va = (if is_user_vaddr va \<and> pg_no va = pg_no up then Some (k, True) else user_map (mm s) pd va)" for va
        using i(9) True k(4) by simp
      have "bytes_at (mem_of s2) k 4096 = bytes_at (mem_of s1) k 4096"
        by (rule same_bytes[OF holdsD(2)[OF k(2)]]) (use i(8) k(8) in simp)
      moreover have "bytes_at (mem_of s1) k 4096 = replicate 4096 0"
        by (rule nth_equalityI) (use m1 fl(3) in \<open>simp_all add: bytes_at_nth unat_of_nat\<close>)
      ultimately have b: "bytes_at (mem_of s2) k 4096 = take 4096 (replicate 4096 0)" by simp
      note pm = page_mapped[OF up(1) none map b]
      have keep: "keeps_frames pd s s2" using used old pm(2,3) k(7) by (auto simp: keeps_frames_def)
      have page: "pg_no va = pg_no up \<longleftrightarrow> unat va div 4096 = 0xbffff" for va by (simp add: word_unat_eq_iff unat_pg_no up(3))
      have at: "stack_map va = (if unat va div 4096 = 0xbffff then Some (0, True) else None)" for va
        unfolding stack_map_def up_def[symmetric] page ..
      have out: "stack_map va = None" if "\<not> (unat up div 4096 \<le> unat va div 4096 \<and> unat va div 4096 < unat up div 4096 + 1)" for va
      proof -
        have "unat va div 4096 \<noteq> 0xbffff" using that unfolding up(3) by linarith
        then show ?thesis unfolding at by (simp only: if_False)
      qed
      have in_page: "stack_map va = Some (replicate 4096 0 ! (unat va - 4096 * (unat up div 4096)), True)"
        if "unat up div 4096 \<le> unat va div 4096" "unat va div 4096 < unat up div 4096 + 1" for va
      proof -
        have q: "unat va div 4096 = 0xbffff" using that unfolding up(3) by linarith
        then have "unat va - 4096 * 0xbffff < 4096" by linarith
        then show ?thesis unfolding at up(3) if_P[OF q] by (simp only: nth_replicate)
      qed
      have "user_byte s2 pd = user_byte s pd ++ stack_map \<and> dom (user_byte s pd) \<inter> dom stack_map = {}"
        using loaded_as_map(1,2)[OF assms keep pm(1) out in_page] by simp
      then have "if Some PHYS_BASE \<noteq> None then Some PHYS_BASE = Some PHYS_BASE \<and> user_byte s2 pd = user_byte s pd ++ stack_map \<and>
          dom (user_byte s pd) \<inter> dom stack_map = {} else out_of_memory s2 \<or> dom (user_byte s pd) \<inter> dom stack_map \<noteq> {}" by simp
      moreover have "user_byte s pd \<subseteq>\<^sub>m user_byte s2 pd" using loaded_as_map(3)[OF assms keep pm(1) out in_page] by simp
      moreover have "setup_stack s = Some (Some PHYS_BASE, s2)" unfolding unfold using k(1,3) i(1) True by simp
      moreover have "machine_ok pd s2" using i(2) True by simp
      moreover have "fsys s2 = fsys s" using i(5) k(5) by simp
      ultimately show ?thesis using keep rest by (intro exI[of _ "Some PHYS_BASE"] exI[of _ s2]) blast
    qed
  qed
qed

section \<open>The program headers\<close>

lemma read_header:
  assumes ok: "file_ok f i s" and X: "X = contents i s" and m: "0 \<le> p"
  obtains bs f' d where "file_seek p f = Some (f\<lparr>f_pos := p\<rparr>)" "file_read (f\<lparr>f_pos := p\<rparr>) (int m) (fsys s) = Some (bs, f', d)"
    "read_only f s f' (s\<lparr>fsys := d\<rparr>)" "length bs = m \<Longrightarrow> bs = take m (drop (nat p) X) \<and> nat p + m \<le> length X \<or> m = 0"
    "oom (fsys s) \<noteq> [] \<or> \<not> nat p + m \<le> length X \<or> length bs = m"
proof -
  define g where "g = f\<lparr>f_pos := p\<rparr>"
  have g: "file_ok g i s" "f_pos g = p" using ok m by (simp_all add: file_ok_def g_def)
  obtain c f' d where r: "file_read g (int m) (fsys s) = Some (take c (drop (nat p) X), f', d)" "c \<le> m" "read_only g s f' (s\<lparr>fsys := d\<rparr>)"
    "oom (fsys s) = [] \<Longrightarrow> take c (drop (nat p) X) = take m (drop (nat p) X)"
    using open_read_ok[OF g(1), of m] unfolding g(2) X[symmetric] by blast
  show thesis
  proof (rule that[of "take c (drop (nat p) X)" f' d])
    show "file_seek p f = Some (f\<lparr>f_pos := p\<rparr>)" using m by (simp add: file_seek_def)
    show "read_only f s f' (s\<lparr>fsys := d\<rparr>)" using r(3) by (simp add: read_only_def g_def)
    assume "length (take c (drop (nat p) X)) = m"
    then show "take c (drop (nat p) X) = take m (drop (nat p) X) \<and> nat p + m \<le> length X \<or> m = 0" using r(2) by (auto simp: min_def split: if_splits)
  next
    show "oom (fsys s) \<noteq> [] \<or> \<not> nat p + m \<le> length X \<or> length (take c (drop (nat p) X)) = m"
    proof (cases "oom (fsys s) = [] \<and> nat p + m \<le> length X")
      case True
      then have "m \<le> length X - nat p" by linarith
      then have "length (take m (drop (nat p) X)) = m" by simp
      then show ?thesis using r(4) True by metis
    qed auto
  qed (rule r(1)[unfolded g_def])
qed

text \<open>What holds when a part of the loader returns: no page and no byte is lost; success means that the input is well formed, \<open>W\<close>, and that the map
  asked for has been added; failure has a reason.\<close>

definition adds :: "u32 \<Rightarrow> open_file \<Rightarrow> machine \<Rightarrow> bool \<Rightarrow> bool \<Rightarrow> (u32 \<Rightarrow> (u8 \<times> bool) option) \<Rightarrow> open_file \<Rightarrow> machine \<Rightarrow> bool" where
  "adds pd f s ok W M f' s' \<longleftrightarrow> machine_ok pd s' \<and> read_only f s f' s' \<and> same_rest pd s s' \<and> keeps_frames pd s s' \<and> user_byte s pd \<subseteq>\<^sub>m user_byte s' pd \<and>
     (if ok then W \<and> user_byte s' pd = user_byte s pd ++ M \<and> dom (user_byte s pd) \<inter> dom M = {}
      else out_of_memory s' \<or> oom (fsys s) \<noteq> [] \<or> \<not> W \<or> dom (user_byte s pd) \<inter> dom M \<noteq> {})"

lemma keeps_frames_refl [simp]: "keeps_frames pd s s"
  by (simp add: keeps_frames_def)

lemma user_byte_fsys [simp]: "user_byte (s\<lparr>fsys := d\<rparr>) pd = user_byte s pd"
  by (simp add: user_byte_def fun_eq_iff split: option.split)

lemma addsI:
  assumes "machine_ok pd s" "read_only f s f' (s\<lparr>fsys := d\<rparr>)"
  shows "oom (fsys s) \<noteq> [] \<or> \<not> W \<Longrightarrow> adds pd f s False W M f' (s\<lparr>fsys := d\<rparr>)" "adds pd f s True True Map.empty f' (s\<lparr>fsys := d\<rparr>)"
  using assms by (auto simp: adds_def keeps_frames_def)

lemma adds_trans:
  assumes a: "adds pd f s True W M g t" and b: "adds pd g t ok V N h u" and U: "U \<longleftrightarrow> W \<and> V \<and> dom M \<inter> dom N = {}"
  shows "adds pd f s ok U (M ++ N) h u"
proof -
  have a': "read_only f s g t" "same_rest pd s t" "keeps_frames pd s t" "user_byte s pd \<subseteq>\<^sub>m user_byte t pd" W
    "user_byte t pd = user_byte s pd ++ M" "dom (user_byte s pd) \<inter> dom M = {}" using a unfolding adds_def if_True by blast+
  have b': "machine_ok pd u" "read_only g t h u" "same_rest pd t u" "keeps_frames pd t u" "user_byte t pd \<subseteq>\<^sub>m user_byte u pd"
    "if ok then V \<and> user_byte u pd = user_byte t pd ++ N \<and> dom (user_byte t pd) \<inter> dom N = {}
     else out_of_memory u \<or> oom (fsys t) \<noteq> [] \<or> \<not> V \<or> dom (user_byte t pd) \<inter> dom N \<noteq> {}" using b unfolding adds_def by blast+
  have dt: "dom (user_byte t pd) = dom (user_byte s pd) \<union> dom M" using a'(6) by auto
  have "oom (fsys s) \<noteq> []" if "oom (fsys t) \<noteq> []" using a'(1) that by (auto simp: read_only_def sync_def)
  then have "if ok then U \<and> user_byte u pd = user_byte s pd ++ (M ++ N) \<and> dom (user_byte s pd) \<inter> dom (M ++ N) = {}
     else out_of_memory u \<or> oom (fsys s) \<noteq> [] \<or> \<not> U \<or> dom (user_byte s pd) \<inter> dom (M ++ N) \<noteq> {}"
    using a'(5-7) b'(6) U unfolding dt by (cases ok) auto
  then show ?thesis
    unfolding adds_def using b'(1) read_only_trans[OF a'(1) b'(2)] same_rest_trans[OF a'(2) b'(3)] keeps_frames_trans[OF a'(3) b'(4)] map_le_trans[OF a'(4) b'(5)] by blast
qed

lemma adds_fail:
  assumes "adds pd f s False W M g t" "U \<Longrightarrow> W" "dom M \<subseteq> dom N" shows "adds pd f s False U N g t"
  using assms unfolding adds_def by auto

lemma load_one_adds:
  assumes "machine_ok pd s" "file_ok f i s" "validate_segment ph (file_length (data i))"
  shows "\<exists>ok f' s'. load_one ph f s = Some (ok, f', s') \<and>
    adds pd f s ok (unat (p_offset ph) + unat (p_filesz ph) \<le> length (contents i s)) (segment_map (contents i s) ph) f' s'"
  using load_one_eq[OF assms refl] unfolding adds_def by blast

lemma load_headers_eq:
  assumes "machine_ok pd s" "file_ok f i s"
  shows "\<exists>ok f' s'. load_headers n p f s = Some (ok, f', s') \<and> 
    adds pd f s ok (segments_ok (contents i s) (nat p) n \<and> (n = 0 \<or> 0 \<le> p)) (segments_map (contents i s) (nat p) n) f' s'"
  using assms
proof (induction n arbitrary: p f s)
  case 0
  have "read_only f s f (s\<lparr>fsys := fsys s\<rparr>)" using read_only_refl[OF 0(2)] by simp
  from addsI(2)[OF 0(1) this] have "adds pd f s True True Map.empty f s" by simp
  then show ?case by (intro exI[of _ True] exI[of _ f] exI[of _ s]) simp
next
  case (Suc n)
  define X where "X = contents i s"
  have len: "file_length_of f (fsys s) = Some (int (length X))" "file_length (data i) = int (length X)"
    using Suc.prems(2) by (simp_all add: file_length_of_def inode_length_def file_ok_def contents_def fits_def X_def)
  have same: "read_only f s f (s\<lparr>fsys := fsys s\<rparr>)" using read_only_refl[OF Suc.prems(2)] by simp
  show ?case
  proof (cases "p < 0 \<or> p > int (length X)")
    case True
    then have "load_headers (Suc n) p f s = Some (False, f, s)" using len by simp
    moreover have "\<not> (segments_ok X (nat p) (Suc n) \<and> (Suc n = 0 \<or> 0 \<le> p))" using True by auto
    then have "adds pd f s False (segments_ok X (nat p) (Suc n) \<and> (Suc n = 0 \<or> 0 \<le> p)) M (f) (s\<lparr>fsys := fsys s\<rparr>)" for M
      by (intro addsI(1)[OF Suc.prems(1) same] disjI2)
    then have "adds pd f s False (segments_ok X (nat p) (Suc n) \<and> (Suc n = 0 \<or> 0 \<le> p)) M f s" for M by simp
    ultimately show ?thesis unfolding X_def by blast
  next
    case False
    then have p: "0 \<le> p" by simp
    obtain bs f1 d where r: "file_seek p f = Some (f\<lparr>f_pos := p\<rparr>)" "file_read (f\<lparr>f_pos := p\<rparr>) (int sizeof_phdr) (fsys s) = Some (bs, f1, d)"
      "read_only f s f1 (s\<lparr>fsys := d\<rparr>)" "length bs = sizeof_phdr \<Longrightarrow> bs = take sizeof_phdr (drop (nat p) X) \<and> nat p + sizeof_phdr \<le> length X \<or> sizeof_phdr = 0"
      "oom (fsys s) \<noteq> [] \<or> \<not> nat p + sizeof_phdr \<le> length X \<or> length bs = sizeof_phdr"
      using read_header[OF Suc.prems(2) X_def p] by metis
    define s1 where "s1 = s\<lparr>fsys := d\<rparr>"
    note a1 = addsI[OF Suc.prems(1) r(3), folded s1_def]
    have f1: "file_ok f1 i s1" "contents i s1 = X" "machine_ok pd s1"
      using read_only_ok[OF Suc.prems(2) r(3)] Suc.prems(1) unfolding s1_def X_def by simp_all
    define ph where "ph = decode_phdr bs"
    define q where "q = sint (word_of_int p + word_of_nat sizeof_phdr :: u32)"
    have eq: "load_headers (Suc n) p f s =
       (if length bs \<noteq> sizeof_phdr then Some (False, f1, s1)
        else if p_type ph = PT_DYNAMIC \<or> p_type ph = PT_INTERP \<or> p_type ph = PT_SHLIB then Some (False, f1, s1)
        else if p_type ph = PT_LOAD then
          if validate_segment ph (int (length X)) then
            Option.bind (load_one ph f1 s1) (\<lambda>(ok, f, s). if ok then load_headers n q f s else Some (False, f, s))
          else Some (False, f1, s1)
        else load_headers n q f1 s1)"
      using False len(1) r(1,2) unfolding q_def ph_def s1_def by (simp add: Let_def)
    have fail: ?thesis if "load_headers (Suc n) p f s = Some (False, f1, s1)" "oom (fsys s) \<noteq> [] \<or> \<not> segments_ok X (nat p) (Suc n)"
    proof -
      have "adds pd f s False (segments_ok X (nat p) (Suc n) \<and> (Suc n = 0 \<or> 0 \<le> p)) (segments_map X (nat p) (Suc n)) f1 s1"
        by (rule a1(1)) (use that(2) in blast)
      then show ?thesis using that(1) unfolding X_def by blast
    qed
    show ?thesis
    proof (cases "length bs = sizeof_phdr")
      case True
      then have b: "bs = take sizeof_phdr (drop (nat p) X)" "nat p + sizeof_phdr \<le> length X" using r(4) by (auto simp: sizeof_phdr_def)
      have ph: "ph = header_at X (nat p)" by (simp add: ph_def b(1) header_at_def)
      have q: "nat q = nat p + sizeof_phdr"
      proof -
        have "word_of_int p = (word_of_nat (nat p) :: u32)" using p by (metis int_nat_eq of_int_of_nat_eq)
        then have "q = sint (word_of_nat (nat p + sizeof_phdr) :: u32)" by (simp add: q_def)
        moreover have "unat (word_of_nat (nat p + sizeof_phdr) :: u32) = nat p + sizeof_phdr"
          using b(2) length_file_contents[OF Suc.prems(2)] unfolding X_def[symmetric] by (simp add: unat_of_nat del: of_nat_add)
        ultimately have "q = int (nat p + sizeof_phdr)"
          using sint_small[of "word_of_nat (nat p + sizeof_phdr)"] b(2) length_file_contents[OF Suc.prems(2)] unfolding X_def[symmetric] by (simp del: of_nat_add)
        then show ?thesis by (simp del: of_nat_add)
      qed
      have q0: "0 \<le> q" using q by (simp add: sizeof_phdr_def)
      have more: "\<exists>ok f' s'. load_headers n q f2 s2 = Some (ok, f', s') \<and>
          adds pd f2 s2 ok (segments_ok X (nat p + sizeof_phdr) n) (segments_map X (nat p + sizeof_phdr) n) f' s'"
        if "machine_ok pd s2" "file_ok f2 i s2" "contents i s2 = X" for f2 s2 using Suc.IH[OF that(1,2), of q] q0 unfolding that(3) q by simp
      consider (bad) "p_type ph = PT_DYNAMIC \<or> p_type ph = PT_INTERP \<or> p_type ph = PT_SHLIB"
        | (skip) "\<not> (p_type ph = PT_DYNAMIC \<or> p_type ph = PT_INTERP \<or> p_type ph = PT_SHLIB)" "p_type ph \<noteq> PT_LOAD"
        | (invalid) "p_type ph = PT_LOAD" "\<not> validate_segment ph (int (length X))" | (one) "p_type ph = PT_LOAD" "validate_segment ph (int (length X))" by blast
      then show ?thesis
      proof cases
        case bad
        then have "\<not> segments_ok X (nat p) (Suc n)" by (auto simp: ph)
        then show ?thesis using fail True bad unfolding eq by simp
      next
        case skip
        have sm: "segments_map X (nat p) (Suc n) = Map.empty ++ segments_map X (nat p + sizeof_phdr) n" using skip(2) ph by simp
        obtain ok f' s' where h: "load_headers n q f1 s1 = Some (ok, f', s')" "adds pd f1 s1 ok (segments_ok X (nat p + sizeof_phdr) n) (segments_map X (nat p + sizeof_phdr) n) f' s'"
          using more[OF f1(3,1,2)] by blast
        have "load_headers (Suc n) p f s = Some (ok, f', s')" using eq True skip h(1) by simp
        moreover have "adds pd f s ok (segments_ok X (nat p) (Suc n) \<and> (Suc n = 0 \<or> 0 \<le> p)) (Map.empty ++ segments_map X (nat p + sizeof_phdr) n) f' s'"
          by (rule adds_trans[OF a1(2) h(2)]) (use b(2) skip p in \<open>simp add: ph\<close>)
        ultimately show ?thesis unfolding X_def[symmetric] sm by blast
      next
        case invalid
        have "\<not> (p_type ph = PT_DYNAMIC \<or> p_type ph = PT_INTERP \<or> p_type ph = PT_SHLIB)" using invalid(1) by (simp add: PT_LOAD_def PT_DYNAMIC_def PT_INTERP_def PT_SHLIB_def)
        moreover have "\<not> segments_ok X (nat p) (Suc n)" using invalid by (auto simp: ph)
        ultimately show ?thesis using fail True invalid unfolding eq by simp
      next
        case one
        have ty: "\<not> (p_type ph = PT_DYNAMIC \<or> p_type ph = PT_INTERP \<or> p_type ph = PT_SHLIB)" using one(1) by (simp add: PT_LOAD_def PT_DYNAMIC_def PT_INTERP_def PT_SHLIB_def)
        have sm: "segments_map X (nat p) (Suc n) = segment_map X ph ++ segments_map X (nat p + sizeof_phdr) n" using one(1) ph by simp
        obtain ok2 f2 s2 where l: "load_one ph f1 s1 = Some (ok2, f2, s2)" "adds pd f1 s1 ok2 (unat (p_offset ph) + unat (p_filesz ph) \<le> length X) (segment_map X ph) f2 s2"
          using load_one_adds[OF f1(3,1)] one(2) len(2) f1(2) by metis
        have W: "segments_ok X (nat p) (Suc n) \<and> (Suc n = 0 \<or> 0 \<le> p) \<longleftrightarrow> (unat (p_offset ph) + unat (p_filesz ph) \<le> length X) \<and>
            segments_ok X (nat p + sizeof_phdr) n \<and> dom (segment_map X ph) \<inter> dom (segments_map X (nat p + sizeof_phdr) n) = {}"
          using b(2) one ty p by (auto simp: ph)
        show ?thesis
        proof (cases ok2)
          case False
          have "load_headers (Suc n) p f s = Some (False, f2, s2)" using eq True one ty l(1) False by simp
          moreover have "adds pd f s False (unat (p_offset ph) + unat (p_filesz ph) \<le> length X) (Map.empty ++ segment_map X ph) f2 s2"
            by (rule adds_trans[OF a1(2)]) (use l(2) False in simp_all)
          then have "adds pd f s False (segments_ok X (nat p) (Suc n) \<and> (Suc n = 0 \<or> 0 \<le> p)) (segments_map X (nat p) (Suc n)) f2 s2"
            by (rule adds_fail) (use W in \<open>auto simp: sm simp del: segments_map.simps\<close>)
          ultimately show ?thesis unfolding X_def by blast
        next
          case t: True
          have l2: "adds pd f1 s1 True (unat (p_offset ph) + unat (p_filesz ph) \<le> length X) (segment_map X ph) f2 s2" using l(2) t by simp
          have s2: "machine_ok pd s2" "file_ok f2 i s2" "contents i s2 = X" using l2 read_only_ok[OF f1(1)] f1(2) unfolding adds_def by auto
          obtain ok f' s' where h: "load_headers n q f2 s2 = Some (ok, f', s')" "adds pd f2 s2 ok (segments_ok X (nat p + sizeof_phdr) n) (segments_map X (nat p + sizeof_phdr) n) f' s'"
            using more[OF s2] by blast
          have "load_headers (Suc n) p f s = Some (ok, f', s')" using eq True one ty l(1) t h(1) by simp
          moreover have "adds pd f s ok (segments_ok X (nat p) (Suc n) \<and> (Suc n = 0 \<or> 0 \<le> p)) (Map.empty ++ (segment_map X ph ++ segments_map X (nat p + sizeof_phdr) n)) f' s'"
            by (rule adds_trans[OF a1(2) adds_trans[OF l2 h(2) refl]]) (use W in simp)
          ultimately show ?thesis unfolding X_def[symmetric] sm empty_map_add by blast
        qed
      qed
    next
      case False
      then have "oom (fsys s) \<noteq> [] \<or> \<not> segments_ok X (nat p) (Suc n)" using r(5) by auto
      then show ?thesis using fail False unfolding eq by simp
    qed
  qed
qed

section \<open>The whole executable\<close>

text \<open>What an executable asks for: the address space, the entry point and the stack pointer.\<close>

definition image_map :: "u8 list \<Rightarrow> u32 \<Rightarrow> (u8 \<times> bool) option" where
  "image_map X = segments_map X (unat (eh_phoff (decode_ehdr (take sizeof_ehdr X)))) (unat (eh_phnum (decode_ehdr (take sizeof_ehdr X)))) ++ stack_map"

definition executable_ok :: "u8 list \<Rightarrow> bool" where
  "executable_ok X \<longleftrightarrow> sizeof_ehdr \<le> length X \<and> ehdr_ok (decode_ehdr (take sizeof_ehdr X)) \<and>
     segments_ok X (unat (eh_phoff (decode_ehdr (take sizeof_ehdr X)))) (unat (eh_phnum (decode_ehdr (take sizeof_ehdr X)))) \<and>
     dom (segments_map X (unat (eh_phoff (decode_ehdr (take sizeof_ehdr X)))) (unat (eh_phnum (decode_ehdr (take sizeof_ehdr X))))) \<inter> dom stack_map = {}"

lemma sint_nonneg:
  assumes "0 \<le> sint (w :: u32)" shows "nat (sint w) = unat w"
proof -
  have s: "sint w = signed_take_bit 31 (uint w)" by (simp add: sint_uint)
  then have nb: "\<not> bit (uint w) 31" using assms signed_take_bit_nonnegative_iff[of 31 "uint w"] by metis
  have "sint w = take_bit (Suc 31) (uint w)"
    by (simp only: s signed_take_bit_eq_take_bit_minus nb of_bool_eq mult_zero_right diff_zero)
  moreover have "uint w < 2 ^ 32" using unsigned_less[of w] by simp
  then have "take_bit 32 (uint w) = uint w" by (intro take_bit_int_eq_self) simp_all
  ultimately show ?thesis by simp
qed

lemma load_image_eq:
  assumes ok: "machine_ok pd s" "file_ok f i s" and pos: "f_pos f = 0" and X: "X = contents i s"
  shows "\<exists>r f' s'. load_image f s = Some (r, f', s') \<and> adds pd f s (r \<noteq> None) (executable_ok X) (image_map X) f' s' \<and>
    (r \<noteq> None \<longrightarrow> r = Some (eh_entry (decode_ehdr (take sizeof_ehdr X)), PHYS_BASE))"
proof -
  have fp: "f\<lparr>f_pos := 0\<rparr> = f" using pos by simp
  obtain bs f1 d where r: "file_read f (int sizeof_ehdr) (fsys s) = Some (bs, f1, d)" "read_only f s f1 (s\<lparr>fsys := d\<rparr>)"
    "length bs = sizeof_ehdr \<Longrightarrow> bs = take sizeof_ehdr X \<and> sizeof_ehdr \<le> length X" "oom (fsys s) \<noteq> [] \<or> \<not> sizeof_ehdr \<le> length X \<or> length bs = sizeof_ehdr"
  proof -
    obtain bs f1 d where "file_read f (int sizeof_ehdr) (fsys s) = Some (bs, f1, d)" "read_only f s f1 (s\<lparr>fsys := d\<rparr>)"
      "length bs = sizeof_ehdr \<Longrightarrow> bs = take sizeof_ehdr (drop (nat 0) X) \<and> nat 0 + sizeof_ehdr \<le> length X \<or> sizeof_ehdr = 0"
      "oom (fsys s) \<noteq> [] \<or> \<not> nat 0 + sizeof_ehdr \<le> length X \<or> length bs = sizeof_ehdr"
      using read_header[OF ok(2) X order_refl, of sizeof_ehdr] unfolding fp by metis
    then show thesis using that by (simp add: sizeof_ehdr_def)
  qed
  define s1 h where "s1 = s\<lparr>fsys := d\<rparr>" and "h = decode_ehdr bs"
  note a1 = addsI[OF ok(1) r(2), folded s1_def]
  have f1: "file_ok f1 i s1" "contents i s1 = X" "machine_ok pd s1"
    using read_only_ok[OF ok(2) r(2)] ok(1) unfolding s1_def X by simp_all
  have eq: "load_image f s = (if length bs \<noteq> sizeof_ehdr \<or> \<not> ehdr_ok h then Some (None, f1, s1)
     else Option.bind (load_headers (unat (eh_phnum h)) (sint (eh_phoff h)) f1 s1) (\<lambda>(ok, f, s).
       if \<not> ok then Some (None, f, s)
       else Option.bind (setup_stack s) (\<lambda>(esp, s). case esp of None \<Rightarrow> Some (None, f, s) | Some esp \<Rightarrow> Some (Some (eh_entry h, esp), f, s))))"
    using r(1) unfolding h_def s1_def by (simp add: load_image_def Let_def)
  have failed: ?thesis if "load_image f s = Some (None, g, t)" "adds pd f s False (executable_ok X) (image_map X) g t" for g t
    using that by (intro exI[of _ None] exI[of _ g] exI[of _ t]) simp
  show ?thesis
  proof (cases "length bs \<noteq> sizeof_ehdr \<or> \<not> ehdr_ok h")
    case True
    have "load_image f s = Some (None, f1, s1)" unfolding eq if_P[OF True] ..
    moreover have "oom (fsys s) \<noteq> [] \<or> \<not> executable_ok X"
      using True r(3,4) by (auto simp: executable_ok_def h_def)
    ultimately show ?thesis using failed[OF _ a1(1)] by blast
  next
    case False
    then have b: "bs = take sizeof_ehdr X" "sizeof_ehdr \<le> length X" "ehdr_ok h" using r(3) by auto
    define po n where "po = eh_phoff h" and "n = unat (eh_phnum h)"
    define S where "S = segments_map X (unat po) n"
    have W: "executable_ok X \<longleftrightarrow> segments_ok X (unat po) n \<and> dom S \<inter> dom stack_map = {}"
      using b(2,3) unfolding executable_ok_def b(1)[symmetric] h_def[symmetric] S_def po_def n_def by simp
    have same: "segments_ok X (nat (sint po)) n \<and> (n = 0 \<or> 0 \<le> sint po) \<longleftrightarrow> segments_ok X (unat po) n"
      "segments_ok X (nat (sint po)) n \<and> (n = 0 \<or> 0 \<le> sint po) \<Longrightarrow> segments_map X (nat (sint po)) n = S"
    proof -
      have "unat po < 2 ^ 31" if "segments_ok X (unat po) n" "n \<noteq> 0"
        using that length_file_contents[OF ok(2)] by (cases n) (auto simp: X)
      then show "segments_ok X (nat (sint po)) n \<and> (n = 0 \<or> 0 \<le> sint po) \<longleftrightarrow> segments_ok X (unat po) n"
        using sint_small[of po] sint_nonneg[of po] by (cases "n = 0") auto
      show "segments_map X (nat (sint po)) n = S" if "segments_ok X (nat (sint po)) n \<and> (n = 0 \<or> 0 \<le> sint po)"
        using that sint_nonneg[of po] by (auto simp: S_def)
    qed
    obtain ok2 f2 s2 where l: "load_headers n (sint po) f1 s1 = Some (ok2, f2, s2)"
      "adds pd f1 s1 ok2 (segments_ok X (nat (sint po)) n \<and> (n = 0 \<or> 0 \<le> sint po)) (segments_map X (nat (sint po)) n) f2 s2"
      using load_headers_eq[OF f1(3,1)] unfolding f1(2) by blast
    have all: "adds pd f s ok2 (segments_ok X (unat po) n) S f2 s2"
    proof -
      have "adds pd f s ok2 (segments_ok X (unat po) n) (Map.empty ++ segments_map X (nat (sint po)) n) f2 s2"
        by (rule adds_trans[OF a1(2) l(2)]) (simp add: same(1))
      then show ?thesis using same by (cases "segments_ok X (unat po) n") (auto simp: adds_def)
    qed
    show ?thesis
    proof (cases ok2)
      case ok2: False
      have "load_image f s = Some (None, f2, s2)" using eq False l(1) ok2 by (simp add: po_def n_def)
      moreover have "adds pd f s False (segments_ok X (unat po) n) S f2 s2" using all ok2 by simp
      then have "adds pd f s False (executable_ok X) (image_map X) f2 s2"
        by (rule adds_fail) (use W in \<open>auto simp: image_map_def S_def po_def n_def h_def b(1)\<close>)
      ultimately show ?thesis by (rule failed)
    next
      case ok2: True
      have l2: "adds pd f s True (segments_ok X (unat po) n) S f2 s2" using all ok2 by simp
      have ok_s2: "machine_ok pd s2" "file_ok f2 i s2" using l2 read_only_ok[OF ok(2)] unfolding adds_def by auto
      obtain e s3 where st: "setup_stack s2 = Some (e, s3)" "machine_ok pd s3" "fsys s3 = fsys s2" "same_rest pd s2 s3" "keeps_frames pd s2 s3"
        "user_byte s2 pd \<subseteq>\<^sub>m user_byte s3 pd"
        "if e \<noteq> None then e = Some PHYS_BASE \<and> user_byte s3 pd = user_byte s2 pd ++ stack_map \<and> dom (user_byte s2 pd) \<inter> dom stack_map = {}
         else out_of_memory s3 \<or> dom (user_byte s2 pd) \<inter> dom stack_map \<noteq> {}"
        using setup_stack_eq[OF ok_s2(1)] by blast
      have "read_only f2 s2 f2 s3" using read_only_refl[OF ok_s2(2)] st(3) by (simp add: read_only_def)
      then have a3: "adds pd f2 s2 (e \<noteq> None) True stack_map f2 s3" using st(2,4-7) unfolding adds_def by (cases e) auto
      have all3: "adds pd f s (e \<noteq> None) (executable_ok X) (S ++ stack_map) f2 s3" by (rule adds_trans[OF l2 a3]) (simp add: W)
      have im: "S ++ stack_map = image_map X" by (simp add: image_map_def S_def po_def n_def h_def b(1))
      have li: "load_image f s = (case e of None \<Rightarrow> Some (None, f2, s3) | Some esp \<Rightarrow> Some (Some (eh_entry h, esp), f2, s3))"
        using eq False l(1) ok2 st(1) by (simp add: po_def n_def)
      show ?thesis
      proof (cases e)
        case None
        show ?thesis by (rule failed[of f2 s3]) (use li all3 None im in simp_all)
      next
        case (Some x)
        then have "x = PHYS_BASE" using st(7) by simp
        then show ?thesis using li all3 Some im b(1) by (intro exI[of _ "Some (eh_entry h, PHYS_BASE)"] exI[of _ f2] exI[of _ s3]) (simp add: h_def)
      qed
    qed
  qed
qed

text \<open>C37. An executable is loaded into an empty address space exactly as its contents describe. Whatever the file holds, \<^verbatim>\<open>load\<close> returns without a
  panic and leaves the page directory sound. When it succeeds, the headers are well formed, the entry point is the one of the executable header, and at every
  user address there is what the program headers ask for: the bytes of the file, zeros after the file part of a segment and in the
  stack page, each with its permission to be written, and nothing elsewhere. It fails only for a file that is not well formed, when one of the two page pools has
  no page left, or when the file cannot be read for want of memory.\<close>

theorem executable_loads:
  assumes "machine_ok pd s" "\<And>va. user_map (mm s) pd va = None" "file_ok f i s" "f_pos f = 0"
  shows "\<exists>r f' s'. load_image f s = Some (r, f', s') \<and> machine_ok pd s' \<and> contents i s' = contents i s \<and>
    (case r of
       Some (eip, esp) \<Rightarrow> executable_ok (contents i s) \<and> eip = eh_entry (decode_ehdr (take sizeof_ehdr (contents i s))) \<and> esp = PHYS_BASE \<and>
         user_byte s' pd = image_map (contents i s)
     | None \<Rightarrow> \<not> executable_ok (contents i s) \<or> out_of_memory s' \<or> oom (fsys s) \<noteq> [])"
proof -
  obtain r f' s' where l: "load_image f s = Some (r, f', s')" "adds pd f s (r \<noteq> None) (executable_ok (contents i s)) (image_map (contents i s)) f' s'"
    "r \<noteq> None \<longrightarrow> r = Some (eh_entry (decode_ehdr (take sizeof_ehdr (contents i s))), PHYS_BASE)"
    using load_image_eq[OF assms(1,3,4) refl] by blast
  have e: "user_byte s pd = Map.empty" using assms(2) by (simp add: user_byte_def fun_eq_iff)
  have "machine_ok pd s'" "contents i s' = contents i s" using l(2) read_only_ok(2)[OF assms(3)] unfolding adds_def by blast+
  moreover have "if r \<noteq> None then executable_ok (contents i s) \<and> user_byte s' pd = image_map (contents i s)
      else out_of_memory s' \<or> oom (fsys s) \<noteq> [] \<or> \<not> executable_ok (contents i s)" using l(2) unfolding adds_def e by (cases r) simp_all
  ultimately show ?thesis using l(1,3) by (cases r) auto
qed

text \<open>An executable without segments: its header is at the start of sector 5.\<close>

definition sample_elf :: "u8 list" where
  "sample_elf = [0x7f, 0x45, 0x4c, 0x46, 1, 1, 1] @ replicate 9 0 @ [2, 0, 3, 0, 1, 0, 0, 0, 0, 0x80, 4, 8] @ replicate 14 0 @ [32, 0] @ replicate 8 0"

definition elf_disk :: block where "elf_disk = sample_disk\<lparr>sectors := (\<lambda>x. if x = 5 then sample_elf @ replicate 460 0 else replicate 512 0)\<rparr>"

definition elf_inode :: inode where "elf_inode = sample_inode\<lparr>data := \<lparr>start_sector = 5, file_length = 52, inode_magic = INODE_MAGIC\<rparr>\<rparr>"

definition elf_machine :: machine where
  "elf_machine = \<lparr>mm = sample_mmu, fsys = sample_fs\<lparr>disks := (disks sample_fs)\<lparr>devs := [1 \<mapsto> elf_disk]\<rparr>, inodes := [8 \<mapsto> elf_inode]\<rparr>,
     cur_pcb = Some \<lparr>pcb_pagedir = 0xc0110000, process_name = ''sample'', main_thread = 1\<rparr>, cur_thread = 0xc0111000, esp0 = 0\<rparr>"

definition elf_file :: open_file where "elf_file = \<lparr>f_inode = 8, f_pos = 0, f_deny = False\<rparr>"

lemma elf_machine_ok: "machine_ok 0xc0110000 elf_machine"
  using sample_space_ok by (simp add: machine_ok_def elf_machine_def)

lemma elf_unmapped: "user_map (mm elf_machine) pd va = None"
  by (simp add: user_map_def pte_of_def pde_of_def load_def word_at_def elf_machine_def sample_mmu_def sample_pools_def)

lemma elf_file_ok: "file_ok elf_file elf_inode elf_machine" and elf_contents: "contents elf_inode elf_machine = sample_elf" and elf_oom: "oom (fsys elf_machine) = []"
proof -
  have len: "length sample_elf = 52" by (simp add: sample_elf_def)
  then have d: "disk_ok (fsys elf_machine)" "dsize (fsys elf_machine) = 16" "secs (fsys elf_machine) = sectors elf_disk"
    using disk_okI[of "fsys elf_machine" elf_disk] by (simp_all add: elf_machine_def sample_fs_def elf_disk_def sample_disk_def whole_def)
  then show "file_ok elf_file elf_inode elf_machine"
    by (simp add: file_ok_def elf_file_def fits_def nsec_def) (simp add: elf_machine_def elf_inode_def nsec_def)
  show "contents elf_inode elf_machine = sample_elf"
    by (rule nth_equalityI) (use len in \<open>simp_all add: contents_def d(3) fbytes_def fbyte_def elf_inode_def elf_disk_def nth_append\<close>)
  show "oom (fsys elf_machine) = []" by (simp add: elf_machine_def sample_fs_def)
qed

lemma setup_stack_works:
  assumes ok: "machine_ok pd s" and free: "\<not> user_full (ram (mm s))" "\<not> kernel_full (ram (mm s))" and none: "\<And>va. user_map (mm s) pd va = None"
  shows "\<exists>s'. setup_stack s = Some (Some PHYS_BASE, s')"
proof -
  define fl where "fl = PAL_USER OR PAL_ZERO"
  have fl: "fl AND PAL_USER \<noteq> 0" "fl AND PAL_ASSERT = 0" by (simp_all add: fl_def PAL_USER_def PAL_ASSERT_def PAL_ZERO_def)
  obtain k s1 where k: "get_page fl s = Some (k, s1)" "holds_page pd k s1" "k \<noteq> 0" "user_map (mm s1) pd = user_map (mm s) pd"
    using get_frame[OF ok fl] free(1) by blast
  have "kernel_pool (ram (mm s1)) = kernel_pool (ram (mm s))"
    using k(1) palloc_get_other[of fl 1 "ram (mm s)"] fl(1) by (auto simp: get_page_def palloc_get_page_def pool_of_def bind_eq_Some_conv)
  then have "\<not> kernel_full (ram (mm s1))" using free(2) by (simp add: kernel_full_def)
  moreover have up: "is_user_vaddr (PHYS_BASE - PGSIZE)" "pg_ofs (PHYS_BASE - PGSIZE) = 0" by (simp_all add: is_user_vaddr_def PHYS_BASE_def pg_ofs_def PGMASK_eq)
  ultimately obtain s2 where "install_page (PHYS_BASE - PGSIZE) k True s1 = Some (True, s2)"
    using install_frame[OF k(2) up, of True] k(4) none by (metis (full_types))
  then show ?thesis using k(1,3) by (simp add: setup_stack_def fl_def[symmetric])
qed

lemma sample_elf_header:
  "ehdr_ok (decode_ehdr sample_elf)" "eh_entry (decode_ehdr sample_elf) = 0x8048000" "eh_phnum (decode_ehdr sample_elf) = 0"
  "take sizeof_ehdr sample_elf = sample_elf" "length sample_elf = sizeof_ehdr"
proof -
  show "ehdr_ok (decode_ehdr sample_elf)" "eh_entry (decode_ehdr sample_elf) = 0x8048000" "eh_phnum (decode_ehdr sample_elf) = 0"
    by code_simp+
qed (simp_all add: sample_elf_def sizeof_ehdr_def)

text \<open>An executable without segments has a stack only, and starts where there are pages for it.\<close>

lemma sample_elf_works:
  assumes ok: "machine_ok pd s" and f: "file_ok f i s" "contents i s = sample_elf" "f_pos f = 0" and o: "oom (fsys s) = []"
    and free: "\<not> user_full (ram (mm s))" "\<not> kernel_full (ram (mm s))" and none: "\<And>va. user_map (mm s) pd va = None"
  shows "\<exists>f' s'. load_image f s = Some (Some (0x8048000, PHYS_BASE), f', s')"
proof -
  obtain bs f1 dd where r: "file_read (f\<lparr>f_pos := 0\<rparr>) (int sizeof_ehdr) (fsys s) = Some (bs, f1, dd)"
    "length bs = sizeof_ehdr \<Longrightarrow> bs = take sizeof_ehdr (drop (nat 0) sample_elf) \<and> nat 0 + sizeof_ehdr \<le> length sample_elf \<or> sizeof_ehdr = 0"
    "oom (fsys s) \<noteq> [] \<or> \<not> nat 0 + sizeof_ehdr \<le> length sample_elf \<or> length bs = sizeof_ehdr"
    using read_header[OF f(1) f(2)[symmetric] order_refl, of sizeof_ehdr] by metis
  have bs: "bs = sample_elf" "length bs = sizeof_ehdr" using r(2,3) o sample_elf_header(4,5) by (auto simp: sizeof_ehdr_def)
  have f0: "f\<lparr>f_pos := 0\<rparr> = f" using f(3) by simp
  have mo: "machine_ok pd (s\<lparr>fsys := dd\<rparr>)" using ok by simp
  obtain s2 where st: "setup_stack (s\<lparr>fsys := dd\<rparr>) = Some (Some PHYS_BASE, s2)"
    using setup_stack_works[OF mo] free none by auto
  show ?thesis using r(1) st sample_elf_header(1-3) bs(2) unfolding f0 by (simp add: load_image_def bs(1))
qed

theorem executable_loads_witness:
  "\<exists>f' s'. load_image elf_file elf_machine = Some (Some (0x8048000, PHYS_BASE), f', s') \<and> machine_ok 0xc0110000 s' \<and>
     user_byte s' 0xc0110000 0xbfffffff = Some (0, True) \<and> user_byte s' 0xc0110000 0x8048000 = None"
proof -
  have free: "\<not> user_full (ram (mm elf_machine))" "\<not> kernel_full (ram (mm elf_machine))"
    using sample_user_bits sample_kernel_bits
    by (auto simp: user_full_def kernel_full_def elf_machine_def sample_mmu_def sample_pools_def intro!: exI[of _ 2])
  have p0: "f_pos elf_file = 0" by (simp add: elf_file_def)
  obtain f1 s2 where li: "load_image elf_file elf_machine = Some (Some (0x8048000, PHYS_BASE), f1, s2)"
    using sample_elf_works[OF elf_machine_ok elf_file_ok elf_contents p0 elf_oom free elf_unmapped] by blast
  have "user_byte s2 0xc0110000 = image_map sample_elf" "machine_ok 0xc0110000 s2"
    using executable_loads[OF elf_machine_ok elf_unmapped elf_file_ok] li by (auto simp: elf_file_def elf_contents)
  moreover have "image_map sample_elf 0xbfffffff = Some (0, True)" "image_map sample_elf 0x8048000 = None"
    unfolding image_map_def sample_elf_header(3,4) by (simp_all add: stack_map_def PHYS_BASE_def pg_no_def PGBITS_def)
  ultimately show ?thesis using li by auto
qed

end
