(* ===== verification/Free_Map.thy ===== *)
theory Free_Map
  imports Inode_IO
begin

text \<open>
  The map of the free sectors (\<^verbatim>\<open>filesys/free-map.c\<close>) as an allocator of runs of sectors. Every change of the map is written
  through to its file; a write that fails, because memory runs out or writing is denied, takes an allocation back.
\<close>

section \<open>The bytes of a bitmap\<close>

lemma length_le32 [simp]: "length (le32 w) = 4"
  by (simp add: le32_def)

lemma length_elem_bytes [simp]: "length (elem_bytes ws) = 4 * length ws"
  by (induction ws) (simp_all add: elem_bytes_def)

lemma of_le32_le32 [simp]: "of_le32 (le32 w) = w"
proof (rule bit_word_eqI)
  fix n assume "n < LENGTH(32)"
  then consider "n < 8" | "8 \<le> n" "n < 16" | "16 \<le> n" "n < 24" | "24 \<le> n" "n < 32" by fastforce
  then show "bit (of_le32 (le32 w)) n \<longleftrightarrow> bit w n" by cases (simp_all add: of_le32_def le32_def bit_simps, auto)
qed

lemma elem_bytes_at: "i < length ws \<Longrightarrow> take 4 (drop (4 * i) (elem_bytes ws)) = le32 (ws ! i)"
proof (induction ws arbitrary: i)
  case (Cons w ws)
  then show ?case by (cases i) (simp_all add: elem_bytes_def)
qed simp

lemma read_elems_back:
  assumes "bs = take (4 * n) (elem_bytes ws)" "n \<le> length ws" "n \<le> length ws0"
  shows "read_elems bs ws0 = take n ws @ drop n ws0"
proof (rule nth_equalityI)
  show "length (read_elems bs ws0) = length (take n ws @ drop n ws0)" using assms by (simp add: read_elems_def Let_def)
next
  fix i assume "i < length (read_elems bs ws0)"
  then have i: "i < length ws0" by (simp add: read_elems_def Let_def)
  have lb: "length bs = 4 * n" using assms by simp
  have "take 4 (drop (4 * i) (bs @ drop (4 * n) (elem_bytes ws0))) = le32 ((take n ws @ drop n ws0) ! i)"
  proof (cases "i < n")
    case True
    then have "4 * i + 4 \<le> 4 * n" by simp
    define E where "E = take (4 * n - 4 * i) (drop (4 * i) (elem_bytes ws))"
    have "drop (4 * i) (bs @ drop (4 * n) (elem_bytes ws0)) = E @ drop (4 * n) (elem_bytes ws0)"
      using lb True by (simp add: assms(1) drop_take E_def)
    moreover have "length E = 4 * n - 4 * i" using assms(2) by (simp add: E_def)
    then have "take 4 (E @ drop (4 * n) (elem_bytes ws0)) = take 4 E" using \<open>4 * i + 4 \<le> 4 * n\<close> by simp
    moreover have "take 4 E = take 4 (drop (4 * i) (elem_bytes ws))" using \<open>4 * i + 4 \<le> 4 * n\<close> by (simp add: E_def min_def)
    ultimately have "take 4 (drop (4 * i) (bs @ drop (4 * n) (elem_bytes ws0))) = take 4 (drop (4 * i) (elem_bytes ws))" by simp
    then show ?thesis using elem_bytes_at[of i ws] True assms(2) by (simp add: nth_append)
  next
    case False
    then have "drop (4 * i) (bs @ drop (4 * n) (elem_bytes ws0)) = drop (4 * i) (elem_bytes ws0)"
      using lb by (simp add: algebra_simps)
    then show ?thesis using elem_bytes_at[OF i] False i assms(2,3) by (simp add: nth_append)
  qed
  then show "read_elems bs ws0 ! i = (take n ws @ drop n ws0) ! i" using i lb by (simp add: read_elems_def Let_def)
qed

lemma unat_elem_cnt: "unat n + 31 < 2 ^ 32 \<Longrightarrow> unat (elem_cnt n) = (unat n + 31) div 32"
proof -
  assume b: "unat n + 31 < 2 ^ 32"
  have n31: "n + ELEM_BITS - 1 = n + 31" by (simp add: ELEM_BITS_def algebra_simps)
  have "unat (n + ELEM_BITS - 1) = unat n + 31" unfolding n31 using b unat_add_lem[of n 31] by simp
  then show ?thesis by (simp add: elem_cnt_def unat_div) (simp add: ELEM_BITS_def)
qed

lemma byte_cnt_eq:
  assumes "unat n + 31 < 2 ^ 32"
  shows "unat (byte_cnt n) = 4 * ((unat n + 31) div 32)" "sint (byte_cnt n) = int (4 * ((unat n + 31) div 32))"
    "4 * ((unat n + 31) div 32) < 2 ^ 30"
proof -
  have "(unat n + 31) div 32 < 2 ^ 27" using assms by (simp add: div_less_iff_less_mult)
  then show b: "4 * ((unat n + 31) div 32) < 2 ^ 30" by simp
  then show u: "unat (byte_cnt n) = 4 * ((unat n + 31) div 32)"
    using unat_elem_cnt[OF assms] by (simp add: byte_cnt_def unat_word_ariths)
  have "sint (byte_cnt n) = uint (byte_cnt n)"
    using b u by (simp add: sint_uint signed_take_bit_int_eq_self uint_nat)
  then show "sint (byte_cnt n) = int (4 * ((unat n + 31) div 32))" using u by (simp add: uint_nat)
qed

lemma elems_enough: "bitmap_ok b \<Longrightarrow> (unat (bit_cnt b) + 31) div 32 \<le> length (bits b)"
proof -
  assume "bitmap_ok b"
  then have "(unat (bit_cnt b) + 31) div 32 \<le> (32 * length (bits b) + 31) div 32" by (intro div_le_mono) (simp add: bitmap_ok_def)
  then show ?thesis by simp
qed


section \<open>The state of the map\<close>

definition map_ok :: "filesys \<Rightarrow> bool" where
  "map_ok s \<longleftrightarrow> disk_ok s \<and> bitmap_ok (free_map s) \<and> bit_cnt (free_map s) = dsize s \<and> unat (dsize s) + 31 < 2 ^ 32 \<and>
     (\<exists>f i. free_map_file s = Some f \<and> inodes s (f_inode f) = Some i \<and> fits (dsize s) (data i) \<and>
        file_length (data i) = sint (byte_cnt (dsize s)))"

definition used_sectors :: "filesys \<Rightarrow> nat set" where
  "used_sectors s = {k. k < unat (bit_cnt (free_map s)) \<and> bits_of (free_map s) ! k}"

definition extent :: "u32 \<times> u32 \<Rightarrow> nat set" where "extent e = {unat (fst e) ..< unat (fst e) + unat (snd e)}"

definition valid_extent :: "filesys \<Rightarrow> u32 \<times> u32 \<Rightarrow> bool" where
  "valid_extent s e \<longleftrightarrow> unat (fst e) + unat (snd e) \<le> unat (dsize s)"

lemma map_fields [simp]:
  "disk_ok (s\<lparr>free_map := b\<rparr>) = disk_ok s" "dsize (s\<lparr>free_map := b\<rparr>) = dsize s" "secs (s\<lparr>free_map := b\<rparr>) = secs s"
  by (simp_all add: disk_ok_def disk_of_def dsize_def secs_def)

lemma map_ok_update:
  assumes "map_ok s" "bitmap_ok b" "bit_cnt b = bit_cnt (free_map s)" shows "map_ok (s\<lparr>free_map := b\<rparr>)"
  using assms by (simp add: map_ok_def)

lemma map_ok_sync: "map_ok s \<Longrightarrow> sync s f s' \<Longrightarrow> map_ok s'"
  by (simp add: map_ok_def sync_def)

lemma used_sync: "sync s f s' \<Longrightarrow> used_sectors s' = used_sectors s"
  by (simp add: used_sectors_def sync_def)

text \<open>Writing the map: all its bytes, or the write is reported as failed.\<close>

lemma bitmap_write_eq:
  assumes ok: "disk_ok s" and b: "bitmap_ok b" "unat (bit_cnt b) + 31 < 2 ^ 32"
    and i: "inodes s (f_inode f) = Some i" "fits (dsize s) (data i)" "file_length (data i) = sint (byte_cnt (bit_cnt b))"
  obtains good s' f' where "bitmap_write b f s = Some (good, s')" "sync s f' s'"
    "\<forall>x. unat x \<notin> data_secs (data i) \<longrightarrow> f' x = secs s x" "good \<Longrightarrow> fbytes f' (data i) = take (unat (byte_cnt (bit_cnt b))) (elem_bytes (bits b))"
    "oom s = [] \<Longrightarrow> deny_write_cnt i = 0 \<Longrightarrow> good"
proof -
  define m where "m = 4 * ((unat (bit_cnt b) + 31) div 32)"
  note bc = byte_cnt_eq[OF b(2), folded m_def]
  have L: "nat (file_length (data i)) = m" using i(3) bc(2) by simp
  have mb: "m \<le> length (elem_bytes (bits b))" using elems_enough[OF b(1)] by (simp add: m_def)
  show thesis
  proof (cases "deny_write_cnt i = 0")
    case True
    obtain n s' f' where w: "inode_write_at (f_inode f) (elem_bytes (bits b)) (int m) (int 0) s = Some (int n, s')" "sync s f' s'"
      "wrote (secs s) (data i) 0 (take n (elem_bytes (bits b))) f'" "n \<le> m" "n \<le> nat (file_length (data i)) - 0"
      "oom s = [] \<longrightarrow> n = min m (nat (file_length (data i)) - 0)" using write_at_eq[OF ok i(1,2) True mb] by metis
    have "fbytes f' (data i) = take m (elem_bytes (bits b))" if "n = m"
      using wrote_fbytes[OF w(3)] that L mb by simp
    then show thesis using that[of "n = m" s' f'] w wrote_inside[OF w(3)] L bc by (simp add: bitmap_write_def file_write_at_def)
  next
    case False
    then have "bitmap_write b f s = Some (0 = int m, s)" using i(1) bc by (simp add: bitmap_write_def file_write_at_def inode_write_at_def)
    moreover have "fbytes (secs s) (data i) = take (unat (byte_cnt (bit_cnt b))) (elem_bytes (bits b))" if "m = 0"
      using that L bc by (simp add: fbytes_def)
    ultimately show thesis using that[of "0 = int m" s "secs s"] sync_refl[OF ok] False by auto
  qed
qed

section \<open>Allocating and releasing\<close>

lemma used_set_run:
  assumes "bits_of b = set_run (bits_of (free_map s)) n cnt v" "bit_cnt b = bit_cnt (free_map s)" "n + cnt \<le> unat (bit_cnt b)"
  shows "used_sectors (s\<lparr>free_map := b\<rparr>) =
    (if v then used_sectors s \<union> {n ..< n + cnt} else used_sectors s - {n ..< n + cnt})"
  using assms by (cases v) (auto simp: used_sectors_def nth_set_run split: if_split_asm)

lemma map_okD:
  assumes "map_ok s"
  obtains f i where "disk_ok s" "bitmap_ok (free_map s)" "bit_cnt (free_map s) = dsize s" "unat (dsize s) + 31 < 2 ^ 32"
    "free_map_file s = Some f" "inodes s (f_inode f) = Some i" "fits (dsize s) (data i)" "file_length (data i) = sint (byte_cnt (dsize s))"
  using assms by (auto simp: map_ok_def)

lemma allocate_eq:
  assumes ok: "map_ok s"
  shows "\<exists>r s'. free_map_allocate cnt s = Some (r, s') \<and> map_ok s' \<and> dsize s' = dsize s \<and>
    (case r of None \<Rightarrow> used_sectors s' = used_sectors s
     | Some x \<Rightarrow> valid_extent s (x, cnt) \<and> extent (x, cnt) \<inter> used_sectors s = {} \<and> used_sectors s' = used_sectors s \<union> extent (x, cnt))"
proof -
  obtain f i where k: "disk_ok s" "bitmap_ok (free_map s)" "bit_cnt (free_map s) = dsize s" "unat (dsize s) + 31 < 2 ^ 32"
    "free_map_file s = Some f" "inodes s (f_inode f) = Some i" "fits (dsize s) (data i)" "file_length (data i) = sint (byte_cnt (dsize s))"
    using map_okD[OF ok] by metis
  have "unat (-1 :: u32) = 2 ^ 32 - 1" by (simp add: unsigned_minus_1_eq_mask mask_eq_exp_minus_1)
  then have small: "bit_cnt (free_map s) < -1" using k(3,4) by (simp add: word_less_nat_alt)
  note scan = scan_and_flip_eq[OF k(2) _ small, of 0 cnt False, simplified]
  show ?thesis
  proof (cases "first_run (bits_of (free_map s)) 0 (unat cnt) False")
    case None
    have "s\<lparr>free_map := free_map s\<rparr> = s" by (cases s) simp
    then show ?thesis using None scan ok by (auto simp: free_map_allocate_def)
  next
    case (Some n)
    then obtain b where b: "bitmap_scan_and_flip (free_map s) 0 cnt False = Some (of_nat n, b)" "(of_nat n :: u32) \<noteq> BITMAP_ERROR"
      "unat (of_nat n :: u32) = n" "bitmap_ok b" "bit_cnt b = bit_cnt (free_map s)"
      "bits_of b = set_run (bits_of (free_map s)) n (unat cnt) True" using scan by auto
    have run: "n + unat cnt \<le> unat (dsize s)" "\<And>j. n \<le> j \<Longrightarrow> j < n + unat cnt \<Longrightarrow> \<not> bits_of (free_map s) ! j"
      using first_run_Some(2)[OF Some] k(3) by (auto simp: run_at_def)
    define s1 where "s1 = s\<lparr>free_map := b\<rparr>"
    have ok1: "map_ok s1" "dsize s1 = dsize s" using map_ok_update[OF ok b(4,5)] by (simp_all add: s1_def)
    have ex: "extent (of_nat n, cnt) = {n ..< n + unat cnt}" using b(3) by (simp add: extent_def)
    have us1: "used_sectors s1 = used_sectors s \<union> extent (of_nat n, cnt)"
      using used_set_run[OF b(6,5)] run(1) k(3) b(5) by (simp add: s1_def ex)
    have apart: "extent (of_nat n, cnt) \<inter> used_sectors s = {}" using run(2) by (auto simp: ex used_sectors_def)
    have d1: "disk_ok s1" "inodes s1 (f_inode f) = Some i" "fits (dsize s1) (data i)" "unat (bit_cnt b) + 31 < 2 ^ 32"
      "file_length (data i) = sint (byte_cnt (bit_cnt b))" using k b(5) by (simp_all add: s1_def)
    obtain good s2 f' where w: "bitmap_write b f s1 = Some (good, s2)" "sync s1 f' s2"
      using bitmap_write_eq[OF d1(1) b(4) d1(4,2,3,5)] by metis
    have ok2: "map_ok s2" "dsize s2 = dsize s" "used_sectors s2 = used_sectors s1" "free_map s2 = b"
      using map_ok_sync[OF ok1(1) w(2)] used_sync[OF w(2)] w(2) by (simp_all add: sync_def s1_def)
    show ?thesis
    proof (cases good)
      case True
      then have "free_map_allocate cnt s = Some (Some (of_nat n), s2)" using b(1,2) w(1) k(5) by (simp add: free_map_allocate_def Let_def s1_def)
      moreover have "valid_extent s (of_nat n, cnt)" using run(1) b(3) by (simp add: valid_extent_def)
      ultimately show ?thesis using ok2 us1 apart by simp
    next
      case False
      have inb: "in_bitmap b (of_nat n) cnt" using run(1) b(3,5) k(3) by (simp add: in_bitmap_def)
      obtain b2 where b2: "bitmap_set_multiple (of_nat n) cnt False b = Some b2" "bitmap_ok b2" "bit_cnt b2 = bit_cnt b"
        "bits_of b2 = set_run (bits_of b) n (unat cnt) False" using bitmap_set_multiple_run[OF b(4) inb, of False] b(3) by auto
      have "used_sectors (s2\<lparr>free_map := b2\<rparr>) = used_sectors s2 - {n ..< n + unat cnt}"
        using used_set_run[of b2 s2 n "unat cnt" False] b2 ok2(4) run(1) b(5) k(3) by simp
      then have "used_sectors (s2\<lparr>free_map := b2\<rparr>) = used_sectors s" using ok2(3) us1 apart ex by auto
      moreover have "map_ok (s2\<lparr>free_map := b2\<rparr>)" using map_ok_update[OF ok2(1) b2(2)] b2(3) ok2(4) by simp
      moreover have "free_map_allocate cnt s = Some (None, s2\<lparr>free_map := b2\<rparr>)"
        using False b(1,2) w(1) k(5) b2(1) ok2(4) by (simp add: free_map_allocate_def Let_def s1_def)
      ultimately show ?thesis using ok2(2) by simp
    qed
  qed
qed

lemma release_eq:
  assumes ok: "map_ok s" and v: "valid_extent s e" and used: "extent e \<subseteq> used_sectors s"
  shows "\<exists>s'. free_map_release (fst e) (snd e) s = Some s' \<and> map_ok s' \<and> dsize s' = dsize s \<and>
    used_sectors s' = used_sectors s - extent e \<and>
    inodes s' = inodes s \<and> open_inodes s' = open_inodes s \<and> next_iptr s' = next_iptr s"
proof -
  obtain f i where k: "disk_ok s" "bitmap_ok (free_map s)" "bit_cnt (free_map s) = dsize s" "unat (dsize s) + 31 < 2 ^ 32"
    "free_map_file s = Some f" "inodes s (f_inode f) = Some i" "fits (dsize s) (data i)" "file_length (data i) = sint (byte_cnt (dsize s))"
    using map_okD[OF ok] by metis
  have inb: "in_bitmap (free_map s) (fst e) (snd e)" using v k(3) by (simp add: in_bitmap_def valid_extent_def)
  have "bits_of (free_map s) ! n" if "unat (fst e) \<le> n" "n < unat (fst e) + unat (snd e)" for n
    using used that by (auto simp: extent_def used_sectors_def)
  then have all: "bitmap_all (free_map s) (fst e) (snd e) = Some True"
    using bitmap_contains_eq[OF k(2) inb, of False] by (auto simp: bitmap_all_def)
  obtain b where b: "bitmap_set_multiple (fst e) (snd e) False (free_map s) = Some b" "bitmap_ok b" "bit_cnt b = bit_cnt (free_map s)"
    "bits_of b = set_run (bits_of (free_map s)) (unat (fst e)) (unat (snd e)) False"
    using bitmap_set_multiple_run[OF k(2) inb, of False] by auto
  define s1 where "s1 = s\<lparr>free_map := b\<rparr>"
  have ok1: "map_ok s1" using map_ok_update[OF ok b(2,3)] by (simp add: s1_def)
  have us1: "used_sectors s1 = used_sectors s - extent e"
    using used_set_run[OF b(4,3)] v k(3) b(3) by (simp add: s1_def valid_extent_def extent_def)
  have d1: "disk_ok s1" "inodes s1 (f_inode f) = Some i" "fits (dsize s1) (data i)" "unat (bit_cnt b) + 31 < 2 ^ 32"
    "file_length (data i) = sint (byte_cnt (bit_cnt b))" using k b(3) by (simp_all add: s1_def)
  obtain good s2 f' where w: "bitmap_write b f s1 = Some (good, s2)" "sync s1 f' s2"
    using bitmap_write_eq[OF d1(1) b(2) d1(4,2,3,5)] by metis
  have "free_map_release (fst e) (snd e) s = Some s2" using all b(1) k(5) w(1) by (simp add: free_map_release_def Let_def s1_def)
  moreover have "map_ok s2" "dsize s2 = dsize s" "used_sectors s2 = used_sectors s1"
    "inodes s2 = inodes s" "open_inodes s2 = open_inodes s" "next_iptr s2 = next_iptr s"
    using map_ok_sync[OF ok1 w(2)] used_sync[OF w(2)] w(2) by (simp_all add: sync_def s1_def)
  ultimately show ?thesis using us1 by simp
qed

section \<open>The contract\<close>

definition take_sectors :: "u32 \<Rightarrow> filesys \<Rightarrow> ((u32 \<times> u32) option \<times> filesys) option" where
  "take_sectors cnt s = Option.bind (free_map_allocate cnt s) (\<lambda>(r, s). Some (map_option (\<lambda>x. (x, cnt)) r, s))"

definition give_sectors :: "u32 \<times> u32 \<Rightarrow> filesys \<Rightarrow> filesys option" where
  "give_sectors e s = free_map_release (fst e) (snd e) s"

interpretation runs: extent_allocator map_ok used_sectors valid_extent "\<lambda>_. extent" "\<lambda>_. True" take_sectors give_sectors
  "\<lambda>s s'. dsize s' = dsize s"
proof unfold_locales
  fix s :: filesys and cnt :: u32 assume "map_ok s"
  then show "\<exists>res s'. take_sectors cnt s = Some (res, s') \<and> map_ok s' \<and> dsize s' = dsize s \<and>
      (case res of None \<Rightarrow> used_sectors s' = used_sectors s
       | Some e \<Rightarrow> valid_extent s e \<and> extent e \<inter> used_sectors s = {} \<and> used_sectors s' = used_sectors s \<union> extent e)"
  proof -
    obtain r s' where a: "free_map_allocate cnt s = Some (r, s')" "map_ok s'" "dsize s' = dsize s"
      and r: "case r of None \<Rightarrow> used_sectors s' = used_sectors s
        | Some x \<Rightarrow> valid_extent s (x, cnt) \<and> extent (x, cnt) \<inter> used_sectors s = {} \<and> used_sectors s' = used_sectors s \<union> extent (x, cnt)"
      using allocate_eq[OF \<open>map_ok s\<close>] by blast
    then show ?thesis by (cases r) (simp_all add: take_sectors_def)
  qed
next
  fix s :: filesys and e assume "map_ok s" "valid_extent s e" "extent e \<subseteq> used_sectors s"
  then show "\<exists>s'. give_sectors e s = Some s' \<and> map_ok s' \<and> dsize s' = dsize s \<and> used_sectors s' = used_sectors s - extent e"
    using release_eq[of s e] unfolding give_sectors_def by blast
qed (auto simp: valid_extent_def fun_eq_iff)

text \<open>A disk of 16 sectors whose map is in sector 2. Sectors 0 to 2 are used.\<close>

definition map_inode :: inode where
  "map_inode = \<lparr>inode_sector = 0, open_cnt = 1, removed = False, deny_write_cnt = 0,
     data = \<lparr>start_sector = 2, file_length = 4, inode_magic = INODE_MAGIC\<rparr>\<rparr>"

definition sample_map :: filesys where
  "sample_map = sample_fs\<lparr>inodes := [7 \<mapsto> map_inode], open_inodes := [7], free_map := \<lparr>bit_cnt = 16, bits = [7]\<rparr>,
     free_map_file := Some \<lparr>f_inode = 7, f_pos = 0, f_deny = False\<rparr>\<rparr>"

lemma sample_map_disk: "disk_ok sample_map" "dsize sample_map = 16"
  using disk_okI[of sample_map sample_disk] by (simp_all add: sample_map_def sample_fs_def sample_disk_def whole_def)

lemma map_inode_ok: "fits 16 (data map_inode)" "file_length (data map_inode) = sint (byte_cnt 16)"
  by (simp_all add: map_inode_def fits_def nsec_def byte_cnt_def elem_cnt_def ELEM_BITS_def)

lemma sample_map_ok: "map_ok sample_map"
  using sample_map_disk map_inode_ok unfolding map_ok_def by (simp add: sample_map_def bitmap_ok_def)

text \<open>C23. Whatever sequence of requests for sectors and releases the file system makes, no sector is ever given out twice: the
  runs that are held are pairwise disjoint and disjoint from what was in use, the map marks exactly these as used, and no call
  panics, even where the file of the map cannot be written.\<close>

theorem free_map_never_shares:
  assumes "map_ok s"
  shows "\<exists>live s'. serve take_sectors give_sectors qs [] s = Some (live, s') \<and> map_ok s' \<and>
    sorted_wrt (\<lambda>e f. extent e \<inter> extent f = {}) live \<and> used_sectors s \<inter> (\<Union>e \<in> set live. extent e) = {} \<and>
    used_sectors s' = used_sectors s \<union> (\<Union>e \<in> set live. extent e)"
  using runs.serve_holds[of "[]" "used_sectors s" s qs] assms by (auto simp: runs.holds_def)

theorem free_map_never_shares_witness:
  "\<exists>live s'. serve take_sectors give_sectors [Alloc 3, Alloc 2, Free 0, Alloc 20, Alloc 1] [] sample_map = Some (live, s') \<and>
    sorted_wrt (\<lambda>e f. extent e \<inter> extent f = {}) live"
  using free_map_never_shares[OF sample_map_ok, of "[Alloc 3, Alloc 2, Free 0, Alloc 20, Alloc 1]"] by blast

section \<open>Reading a map back\<close>

lemma div32_up: "(x :: nat) mod 32 \<noteq> 0 \<Longrightarrow> (x + 31) div 32 = x div 32 + 1"
proof -
  assume a: "x mod 32 \<noteq> 0"
  define q r where "q = x div 32" and "r = x mod 32"
  have "x = 32 * q + r" "0 < r" "r < 32" using a by (simp_all add: q_def r_def)
  then have "(x + 31) div 32 = q + 1" by (intro div_nat_eqI) simp_all
  then show ?thesis by (simp add: q_def)
qed

lemma bit_last_mask: "k < unat (bit_cnt b) \<Longrightarrow> k div 32 = (unat (bit_cnt b) + 31) div 32 - 1 \<Longrightarrow> bit (last_mask b) (k mod 32)"
proof -
  assume a: "k < unat (bit_cnt b)" "k div 32 = (unat (bit_cnt b) + 31) div 32 - 1"
  have m: "unat (bit_cnt b mod ELEM_BITS) = unat (bit_cnt b) mod 32" by (simp add: ELEM_BITS_def unat_mod)
  show ?thesis
  proof (cases "bit_cnt b mod ELEM_BITS = 0")
    case True
    then show ?thesis by (simp add: last_mask_def Let_def)
  next
    case False
    then have "unat (bit_cnt b mod ELEM_BITS) \<noteq> 0" by (simp add: unat_eq_0)
    then have "unat (bit_cnt b) mod 32 \<noteq> 0" unfolding m .
    then have "(unat (bit_cnt b) + 31) div 32 = unat (bit_cnt b) div 32 + 1" by (rule div32_up)
    then have "k div 32 = unat (bit_cnt b) div 32" using a(2) by simp
    then have "k mod 32 < unat (bit_cnt b) mod 32"
      using a(1) div_mult_mod_eq[of k 32] div_mult_mod_eq[of "unat (bit_cnt b)" 32] by linarith
    then show ?thesis using False
      by (simp add: last_mask_def Let_def m push_bit_of_1 bit_mask_iff flip: mask_eq_exp_minus_1)
  qed
qed

text \<open>A bitmap that was written to a file of its size comes back when the file is read into a bitmap of the same number of bits.\<close>

lemma bitmap_file_roundtrip:
  assumes "disk_ok s" "oom s = []" "bitmap_ok b" "unat (bit_cnt b) + 31 < 2 ^ 32" "bitmap_ok c" "bit_cnt c = bit_cnt b"
    "inodes s (f_inode f) = Some i" "fits (dsize s) (data i)" "file_length (data i) = sint (byte_cnt (bit_cnt b))" "deny_write_cnt i = 0"
  shows "\<exists>s1 s2 d. bitmap_write b f s = Some (True, s1) \<and> bitmap_read c f s1 = Some (True, d, s2) \<and> bits_of d = bits_of b \<and> bitmap_ok d"
proof -
  define m where "m = (unat (bit_cnt b) + 31) div 32"
  note bc = byte_cnt_eq[OF assms(4), folded m_def]
  have lb: "m \<le> length (bits b)" "m \<le> length (bits c)"
    using elems_enough[OF assms(3)] elems_enough[OF assms(5)] assms(6) by (simp_all add: m_def)
  obtain good s1 f1 where w: "bitmap_write b f s = Some (good, s1)" "sync s f1 s1"
    "good \<Longrightarrow> fbytes f1 (data i) = take (unat (byte_cnt (bit_cnt b))) (elem_bytes (bits b))" "good"
    using bitmap_write_eq[OF assms(1,3,4,7-9)] assms(2,10) by metis
  have s1: "disk_ok s1" "inodes s1 (f_inode f) = Some i" "fits (dsize s1) (data i)" "oom s1 = []" "secs s1 = f1"
    using w(2) assms(2,7,8) by (simp_all add: sync_def)
  have fb: "fbytes (secs s1) (data i) = take (4 * m) (elem_bytes (bits b))" using w(3)[OF w(4)] s1(5) bc(1) by simp
  have rd: "read_elems (take (4 * m) (elem_bytes (bits b))) (bits c) = take m (bits b) @ drop m (bits c)"
    by (rule read_elems_back[OF refl lb])
  show ?thesis
  proof (cases "bit_cnt b = 0")
    case True
    then show ?thesis using w(1,4) assms(5,6) by (simp add: bitmap_read_def bits_of_def)
  next
    case False
    then have m0: "0 < m" by (simp add: m_def div_greater_zero_iff unat_gt_0 Suc_leI)
    have pred: "unat (elem_cnt (bit_cnt b) - 1) = m - 1"
      using unat_elem_cnt[OF assms(4), folded m_def] m0 unat_minus_one[of "elem_cnt (bit_cnt b)"] by fastforce
    obtain n s2 where r: "inode_read_at (f_inode f) (int (4 * m)) (int 0) s1 = Some (take n (drop 0 (fbytes (secs s1) (data i))), s2)"
      "take n (drop 0 (fbytes (secs s1) (data i))) = take (4 * m) (drop 0 (fbytes (secs s1) (data i)))"
      using read_at_eq[OF s1(1-3), of "4 * m" 0] s1(4) by metis
    then have r: "inode_read_at (f_inode f) (int (4 * m)) (int 0) s1 = Some (take (4 * m) (elem_bytes (bits b)), s2)"
      using fb by (simp add: min_def)
    define es where "es = take m (bits b) @ drop m (bits c)"
    define d where "d = c\<lparr>bits := es[m - 1 := es ! (m - 1) AND last_mask c]\<rparr>"
    have les: "length es = length (bits c)" "m - 1 < length es" "last_mask (c\<lparr>bits := es\<rparr>) = last_mask c"
      using lb m0 by (simp_all add: es_def last_mask_def)
    have "bitmap_read c f s1 = Some (True, d, s2)"
      using False word_gt_0[of "bit_cnt b"] assms(6) r bc(2) lb pred rd les
      by (simp add: bitmap_read_def file_read_at_def lookup_at_def d_def Let_def flip: es_def)
    moreover have "bitmap_ok d" using assms(5) les by (simp add: bitmap_ok_def d_def)
    moreover have "bits_of d = bits_of b"
    proof (rule nth_equalityI)
      fix k assume "k < length (bits_of d)"
      then have k: "k < unat (bit_cnt b)" using assms(6) by (simp add: d_def)
      then have km: "k div 32 < m" unfolding m_def by (simp add: div_less_iff_less_mult)
      then have "es ! (k div 32) = bits b ! (k div 32)" using lb by (simp add: es_def nth_append)
      moreover have "k div 32 = m - 1 \<Longrightarrow> bit (last_mask c) (k mod 32)"
        using bit_last_mask[of k c] k assms(6) by (simp add: m_def)
      ultimately have "bit_at d k = bit_at b k" using les by (auto simp: bit_at_def d_def nth_list_update bit_and_iff)
      then show "bits_of d ! k = bits_of b ! k" using k assms(6) by (simp add: nth_bits_of d_def)
    qed (simp add: d_def assms(6))
    ultimately show ?thesis using w(1,4) by simp
  qed
qed

lemma bitmap_file_roundtrip_witness:
  "\<exists>s1 s2 d. bitmap_write \<lparr>bit_cnt = 16, bits = [0x1234]\<rparr> \<lparr>f_inode = 7, f_pos = 0, f_deny = False\<rparr> sample_map = Some (True, s1) \<and>
     bitmap_read \<lparr>bit_cnt = 16, bits = [0xffffffff]\<rparr> \<lparr>f_inode = 7, f_pos = 0, f_deny = False\<rparr> s1 = Some (True, d, s2)"
proof -
  have "oom sample_map = []" "inodes sample_map 7 = Some map_inode" "fits (dsize sample_map) (data map_inode)" "deny_write_cnt map_inode = 0"
    unfolding sample_map_disk(2) using map_inode_ok by (simp_all add: sample_map_def sample_fs_def map_inode_def)
  then show ?thesis
    using bitmap_file_roundtrip[OF sample_map_disk(1), of "\<lparr>bit_cnt = 16, bits = [0x1234]\<rparr>" "\<lparr>bit_cnt = 16, bits = [0xffffffff]\<rparr>"
      "\<lparr>f_inode = 7, f_pos = 0, f_deny = False\<rparr>" map_inode] map_inode_ok(2)
    by (simp add: bitmap_ok_def) blast
qed

end
