(* ===== verification/Open_Files.thy ===== *)
theory Open_Files
  imports Free_Map
begin

text \<open>
  Open files (\<^verbatim>\<open>filesys/file.c\<close>) and the inodes they share (\<^verbatim>\<open>filesys/inode.c\<close>). The counters of an inode in memory are the
  number of files open on it and the number of them that deny writing, and one inode is in memory for a sector. Every call on
  files keeps this and does not panic. An inode that is removed stays until its last opener closes it.
\<close>

section \<open>The counters of the open inodes\<close>

text \<open>\<open>r p\<close> openers hold the inode \<open>p\<close>, and \<open>d p\<close> of them deny writing.\<close>

definition table_ok :: "u32 \<Rightarrow> (iptr \<Rightarrow> inode option) \<Rightarrow> iptr list \<Rightarrow> iptr \<Rightarrow> (iptr \<Rightarrow> nat) \<Rightarrow> (iptr \<Rightarrow> nat) \<Rightarrow> bool" where
  "table_ok n ino ops nx r d \<longleftrightarrow> 0 < nx \<and> distinct ops \<and> (\<forall>p. p \<in> set ops \<longleftrightarrow> 0 < r p) \<and> (\<forall>p. p \<in> set ops \<longleftrightarrow> ino p \<noteq> None) \<and>
     (\<forall>p. d p \<le> r p) \<and> (\<forall>p \<in> set ops. 0 < p \<and> p < nx) \<and>
     (\<forall>p i. ino p = Some i \<longrightarrow> fits n (data i) \<and> open_cnt i = int (r p) \<and> deny_write_cnt i = int (d p)) \<and>
     (\<forall>p q i j. ino p = Some i \<longrightarrow> ino q = Some j \<longrightarrow> inode_sector i = inode_sector j \<longrightarrow> p = q)"

definition counts_ok :: "filesys \<Rightarrow> (iptr \<Rightarrow> nat) \<Rightarrow> (iptr \<Rightarrow> nat) \<Rightarrow> bool" where
  "counts_ok s r d \<longleftrightarrow> disk_ok s \<and> table_ok (dsize s) (inodes s) (open_inodes s) (next_iptr s) r d"

lemma counts_sync: "counts_ok s r d \<Longrightarrow> sync s f s' \<Longrightarrow> counts_ok s' r d"
  by (simp add: counts_ok_def sync_def)

lemma disk_fields [simp]:
  "disk_ok (s\<lparr>inodes := x\<rparr>) = disk_ok s" "dsize (s\<lparr>inodes := x\<rparr>) = dsize s" "secs (s\<lparr>inodes := x\<rparr>) = secs s"
  "disk_ok (s\<lparr>open_inodes := y\<rparr>) = disk_ok s" "dsize (s\<lparr>open_inodes := y\<rparr>) = dsize s" "secs (s\<lparr>open_inodes := y\<rparr>) = secs s"
  "disk_ok (s\<lparr>next_iptr := z\<rparr>) = disk_ok s" "dsize (s\<lparr>next_iptr := z\<rparr>) = dsize s" "secs (s\<lparr>next_iptr := z\<rparr>) = secs s"
  by (simp_all add: disk_ok_def disk_of_def dsize_def secs_def)

lemma table_open:
  assumes "table_ok n ino ops nx r d" "0 < r p"
  obtains i where "ino p = Some i" "p \<in> set ops" "p \<noteq> 0" "fits n (data i)" "open_cnt i = int (r p)" "deny_write_cnt i = int (d p)" "d p \<le> r p"
proof -
  have p: "p \<in> set ops" using assms unfolding table_ok_def by blast
  then have "ino p \<noteq> None" using assms(1) unfolding table_ok_def by blast
  then obtain i where i: "ino p = Some i" by blast
  have "0 < p" "fits n (data i) \<and> open_cnt i = int (r p) \<and> deny_write_cnt i = int (d p)" "d p \<le> r p"
    using assms(1) p i unfolding table_ok_def by blast+
  then show thesis using that[OF i p] by simp
qed

text \<open>Changing the counters of one inode.\<close>

lemma table_upd:
  assumes c: "table_ok n ino ops nx r d" and i: "ino p = Some i"
    and j: "data j = data i" "inode_sector j = inode_sector i" "open_cnt j = int k" "deny_write_cnt j = int l" and o: "0 < k" "l \<le> k"
  shows "table_ok n (ino(p \<mapsto> j)) ops nx (r(p := k)) (d(p := l))"
proof -
  have c1: "0 < nx" "distinct ops" "\<And>p. p \<in> set ops \<longleftrightarrow> 0 < r p" "\<And>p. p \<in> set ops \<longleftrightarrow> ino p \<noteq> None" "\<And>p. d p \<le> r p"
    "\<forall>p \<in> set ops. 0 < p \<and> p < nx" "\<And>p i. ino p = Some i \<Longrightarrow> fits n (data i) \<and> open_cnt i = int (r p) \<and> deny_write_cnt i = int (d p)"
    "\<And>p q i j. ino p = Some i \<Longrightarrow> ino q = Some j \<Longrightarrow> inode_sector i = inode_sector j \<Longrightarrow> p = q"
    using c unfolding table_ok_def by blast+
  have p: "p \<in> set ops" using c1(4)[of p] i by simp
  have same: "\<exists>y'. ino x = Some y' \<and> inode_sector y' = inode_sector y" if "(ino(p \<mapsto> j)) x = Some y" for x y
    using that i j(2) by (cases "x = p") auto
  have one: "x = q" if "(ino(p \<mapsto> j)) x = Some y" "(ino(p \<mapsto> j)) q = Some z" "inode_sector y = inode_sector z" for x q y z
    using same[OF that(1)] same[OF that(2)] that(3) c1(8) by metis
  have each: "fits n (data y) \<and> open_cnt y = int ((r(p := k)) x) \<and> deny_write_cnt y = int ((d(p := l)) x)"
    if "(ino(p \<mapsto> j)) x = Some y" for x y proof (cases "x = p")
    case True
    then have "y = j" using that by simp
    then show ?thesis using True j c1(7)[OF i] by simp
  next
    case False
    then show ?thesis using that c1(7)[of x y] by simp
  qed
  have "x \<in> set ops \<longleftrightarrow> 0 < (r(p := k)) x" "x \<in> set ops \<longleftrightarrow> (ino(p \<mapsto> j)) x \<noteq> None" "(d(p := l)) x \<le> (r(p := k)) x" for x
    using p c1(3)[of p] c1(3)[of x] c1(4)[of x] c1(5)[of x] o by simp_all
  then show ?thesis using c1(1,2,6) one each unfolding table_ok_def by blast
qed

lemma table_drop:
  assumes c: "table_ok n ino ops nx r d" and o: "d p = 0"
  shows "table_ok n (ino(p := None)) (remove1 p ops) nx (r(p := 0)) d"
proof -
  have c1: "0 < nx" "distinct ops" "\<And>p. p \<in> set ops \<longleftrightarrow> 0 < r p" "\<And>p. p \<in> set ops \<longleftrightarrow> ino p \<noteq> None" "\<And>p. d p \<le> r p"
    "\<forall>p \<in> set ops. 0 < p \<and> p < nx" "\<And>p i. ino p = Some i \<Longrightarrow> fits n (data i) \<and> open_cnt i = int (r p) \<and> deny_write_cnt i = int (d p)"
    "\<And>p q i j. ino p = Some i \<Longrightarrow> ino q = Some j \<Longrightarrow> inode_sector i = inode_sector j \<Longrightarrow> p = q"
    using c unfolding table_ok_def by blast+
  have ops: "set (remove1 p ops) = set ops - {p}" "distinct (remove1 p ops)" using c1(2) by simp_all
  have sub: "x \<noteq> p \<and> ino x = Some y" if "(ino(p := None)) x = Some y" for x y using that by (cases "x = p") auto
  have "fits n (data y) \<and> open_cnt y = int ((r(p := 0)) x) \<and> deny_write_cnt y = int (d x)" if "(ino(p := None)) x = Some y" for x y
    using sub[OF that] c1(7)[of x y] by simp
  moreover have "x = q" if "(ino(p := None)) x = Some y" "(ino(p := None)) q = Some z" "inode_sector y = inode_sector z" for x q y z
    using sub[OF that(1)] sub[OF that(2)] that(3) c1(8) by blast
  moreover have "x \<in> set (remove1 p ops) \<longleftrightarrow> 0 < (r(p := 0)) x" "x \<in> set (remove1 p ops) \<longleftrightarrow> (ino(p := None)) x \<noteq> None"
    "d x \<le> (r(p := 0)) x" for x using c1(3)[of x] c1(4)[of x] c1(5)[of x] o ops(1) by simp_all
  moreover have "\<forall>x \<in> set (remove1 p ops). 0 < x \<and> x < nx" using c1(6) ops(1) by simp
  ultimately show ?thesis using c1(1) ops(2) unfolding table_ok_def by blast
qed

lemma table_add:
  assumes c: "table_ok n ino ops nx r d" and "fits n (data i)" "open_cnt i = 1" "deny_write_cnt i = 0"
    and new: "\<And>p j. ino p = Some j \<Longrightarrow> inode_sector j \<noteq> inode_sector i"
  shows "table_ok n (ino(nx \<mapsto> i)) (nx # ops) (nx + 1) (r(nx := 1)) d \<and> r nx = 0"
proof -
  have c1: "0 < nx" "distinct ops" "\<And>p. p \<in> set ops \<longleftrightarrow> 0 < r p" "\<And>p. p \<in> set ops \<longleftrightarrow> ino p \<noteq> None" "\<And>p. d p \<le> r p"
    "\<forall>p \<in> set ops. 0 < p \<and> p < nx" "\<And>p i. ino p = Some i \<Longrightarrow> fits n (data i) \<and> open_cnt i = int (r p) \<and> deny_write_cnt i = int (d p)"
    "\<And>p q i j. ino p = Some i \<Longrightarrow> ino q = Some j \<Longrightarrow> inode_sector i = inode_sector j \<Longrightarrow> p = q"
    using c unfolding table_ok_def by blast+
  have fresh: "nx \<notin> set ops" using c1(6) by blast
  then have rd: "r nx = 0" "d nx = 0" using c1(3)[of nx] c1(5)[of nx] by simp_all
  have up: "nx < nx + 1" by simp
  have cs: "x = nx \<and> y = i \<or> x \<noteq> nx \<and> ino x = Some y" if "(ino(nx \<mapsto> i)) x = Some y" for x y
    using that by (cases "x = nx") auto
  have "fits n (data y) \<and> open_cnt y = int ((r(nx := 1)) x) \<and> deny_write_cnt y = int (d x)" if "(ino(nx \<mapsto> i)) x = Some y" for x y
    using cs[OF that] c1(7)[of x y] assms(2-4) rd by (cases "x = nx") auto
  moreover have "x = q" if "(ino(nx \<mapsto> i)) x = Some y" "(ino(nx \<mapsto> i)) q = Some z" "inode_sector y = inode_sector z" for x q y z
    using cs[OF that(1)] cs[OF that(2)] that(3) c1(8)[of x y q z] new by metis
  moreover have "x \<in> set (nx # ops) \<longleftrightarrow> 0 < (r(nx := 1)) x" "x \<in> set (nx # ops) \<longleftrightarrow> (ino(nx \<mapsto> i)) x \<noteq> None"
    "d x \<le> (r(nx := 1)) x" for x using c1(3)[of x] c1(4)[of x] c1(5)[of x] rd by simp_all
  moreover have "\<forall>x \<in> set (nx # ops). 0 < x \<and> x < nx + 1" using c1(1,6) up by (auto intro: less_trans)
  moreover have "0 < nx + 1" using c1(1) up by (rule less_trans)
  moreover have "distinct (nx # ops)" using fresh c1(2) by simp
  ultimately show ?thesis using rd(1) unfolding table_ok_def by blast
qed

lemma upd_inode_eq: "inodes s p = Some i \<Longrightarrow> upd_inode f p s = Some (s\<lparr>inodes := (inodes s)(p \<mapsto> f i)\<rparr>)"
  by (simp add: upd_inode_def)

lemma inode_reopen_ok:
  assumes c: "counts_ok s r d" and p: "0 < r p"
  shows "\<exists>s'. inode_reopen p s = Some (p, s') \<and> counts_ok s' (r(p := Suc (r p))) d \<and> next_iptr s' = next_iptr s"
proof -
  have t: "table_ok (dsize s) (inodes s) (open_inodes s) (next_iptr s) r d" "disk_ok s" using c by (simp_all add: counts_ok_def)
  obtain i where i: "inodes s p = Some i" "p \<in> set (open_inodes s)" "p \<noteq> 0" "fits (dsize s) (data i)"
    "open_cnt i = int (r p)" "deny_write_cnt i = int (d p)" "d p \<le> r p" using table_open[OF t(1) p] by metis
  show ?thesis using table_upd[OF t(1) i(1), of "open_cnt_update (\<lambda>n. n + 1) i" "Suc (r p)" "d p"] i t(2)
    by (simp add: inode_reopen_def upd_inode_eq counts_ok_def)
qed

lemma find_open_eq:
  assumes "\<forall>p \<in> set ps. inodes s p \<noteq> None"
  shows "(\<exists>p i. find_open sector ps s = Some (Some p) \<and> p \<in> set ps \<and> inodes s p = Some i \<and> inode_sector i = sector) \<or>
    find_open sector ps s = Some None \<and> (\<forall>p \<in> set ps. \<forall>i. inodes s p = Some i \<longrightarrow> inode_sector i \<noteq> sector)"
  using assms
proof (induction ps)
  case (Cons a ps)
  then obtain y where y: "inodes s a = Some y" by auto
  show ?case
  proof (cases "inode_sector y = sector")
    case True
    then show ?thesis using y by auto
  next
    case False
    have eq: "find_open sector (a # ps) s = find_open sector ps s" using y False by simp
    have "(\<exists>p i. find_open sector ps s = Some (Some p) \<and> p \<in> set ps \<and> inodes s p = Some i \<and> inode_sector i = sector) \<or>
      find_open sector ps s = Some None \<and> (\<forall>p \<in> set ps. \<forall>i. inodes s p = Some i \<longrightarrow> inode_sector i \<noteq> sector)"
      using Cons.prems by (intro Cons.IH) simp
    then show ?thesis
    proof (elim disjE exE conjE)
      fix p i assume "find_open sector ps s = Some (Some p)" "p \<in> set ps" "inodes s p = Some i" "inode_sector i = sector"
      then show ?thesis unfolding eq by (intro disjI1 exI[of _ p] exI[of _ i]) simp
    next
      assume "find_open sector ps s = Some None" "\<forall>p \<in> set ps. \<forall>i. inodes s p = Some i \<longrightarrow> inode_sector i \<noteq> sector"
      then show ?thesis unfolding eq using y False by simp
    qed
  qed
qed simp

lemma inode_open_ok:
  assumes c: "counts_ok s r d" and sec: "sector < dsize s" "fits (dsize s) (decode_inode (secs s sector))"
  shows "\<exists>p s'. inode_open sector s = Some (p, s') \<and> dsize s' = dsize s \<and> secs s' = secs s \<and> (oom s = [] \<longrightarrow> oom s' = [] \<and> p \<noteq> 0) \<and>
    (\<forall>q. q \<noteq> p \<longrightarrow> inodes s' q = inodes s q) \<and>
    (p = 0 \<and> counts_ok s' r d \<or> p \<noteq> 0 \<and> counts_ok s' (r(p := Suc (r p))) d \<and>
       (\<exists>i. inodes s' p = Some i \<and> inode_sector i = sector \<and> (r p = 0 \<longrightarrow> \<not> removed i \<and> data i = decode_inode (secs s sector)) \<and>
         (\<forall>j. inodes s p = Some j \<longrightarrow> inode_sector j = sector \<and> data i = data j \<and> removed i = removed j)))"
proof -
  have t: "table_ok (dsize s) (inodes s) (open_inodes s) (next_iptr s) r d" "disk_ok s" using c by (simp_all add: counts_ok_def)
  have "\<forall>p \<in> set (open_inodes s). inodes s p \<noteq> None" using t(1) unfolding table_ok_def by blast
  from find_open_eq[OF this, of sector] show ?thesis
  proof (elim disjE exE conjE)
    fix p i assume f: "find_open sector (open_inodes s) s = Some (Some p)" "p \<in> set (open_inodes s)" "inodes s p = Some i" "inode_sector i = sector"
    have p: "0 < r p" using t(1) f(2) unfolding table_ok_def by blast
    obtain s' where r: "inode_reopen p s = Some (p, s')" "counts_ok s' (r(p := Suc (r p))) d" using inode_reopen_ok[OF c p] by blast
    have "p \<noteq> 0" using table_open[OF t(1) p] by metis
    then have s': "s' = s\<lparr>inodes := (inodes s)(p \<mapsto> open_cnt_update (\<lambda>n. n + 1) i)\<rparr>"
      using r(1) f(3) by (simp add: inode_reopen_def upd_inode_eq)
    then have "dsize s' = dsize s" "secs s' = secs s" "oom s' = oom s" "\<And>q. q \<noteq> p \<Longrightarrow> inodes s' q = inodes s q"
      "inodes s' p = Some (open_cnt_update (\<lambda>n. n + 1) i)" by simp_all
    then show ?thesis using r f p \<open>p \<noteq> 0\<close> by (simp add: inode_open_def)
  next
    assume f: "find_open sector (open_inodes s) s = Some None" "\<forall>p \<in> set (open_inodes s). \<forall>i. inodes s p = Some i \<longrightarrow> inode_sector i \<noteq> sector"
    obtain ok s1 where k: "kmalloc s = (ok, s1)" by (cases "kmalloc s")
    have s1: "sync s (secs s) s1" using kmalloc_sync[OF t(2) k] .
    have c1: "counts_ok s1 r d" by (rule counts_sync[OF c s1])
    show ?thesis
    proof (cases ok)
      case False
      then show ?thesis using f(1) k c1 s1 kmalloc_ok[of s] by (intro exI[of _ 0] exI[of _ s1]) (auto simp: inode_open_def sync_def)
    next
      case True
      define p s2 where "p = next_iptr s1" and "s2 = s1\<lparr>next_iptr := p + 1, open_inodes := p # open_inodes s1\<rparr>"
      have d2: "disk_ok s2" "sector < dsize s2" "secs s2 = secs s" "dsize s2 = dsize s" using s1 sec(1) by (simp_all add: s2_def sync_def)
      obtain s3 where d3: "dev_read sector s2 = Some (secs s sector, s3)" "sync s2 (secs s) s3"
        using dev_read_eq[OF d2(1,2)] d2(3) by metis
      define i where "i = \<lparr>inode_sector = sector, open_cnt = 1, removed = False, deny_write_cnt = 0, data = decode_inode (secs s sector)\<rparr>"
      have "inode_sector j \<noteq> sector" if "inodes s q = Some j" for q j
        using that f(2) t(1) unfolding table_ok_def by blast
      then have "table_ok (dsize s) ((inodes s)(p \<mapsto> i)) (p # open_inodes s) (p + 1) (r(p := 1)) d \<and> r p = 0"
        using t(1) sec(2) s1 by (intro table_add) (simp_all add: i_def p_def sync_def)
      moreover have "p \<noteq> 0" using t(1) s1 unfolding table_ok_def by (simp add: p_def sync_def)
      moreover have "inode_open sector s = Some (p, s3\<lparr>inodes := (inodes s3)(p \<mapsto> i)\<rparr>)"
        using True f(1) k d3(1) by (simp add: inode_open_def Let_def i_def p_def[symmetric] s2_def)
      moreover have "disk_ok s3" "dsize s3 = dsize s" "inodes s3 = inodes s" "open_inodes s3 = p # open_inodes s" "next_iptr s3 = p + 1"
        using d3(2) d2(4) s1 by (simp_all add: sync_def s2_def)
      moreover from calculation have "inodes s p = None" using t(1) unfolding table_ok_def by (metis less_numeral_extra(3))
      moreover have "secs s3 = secs s" "oom s = [] \<longrightarrow> oom s3 = []" using d3(2) s1 by (simp_all add: sync_def s2_def)
      ultimately show ?thesis by (simp add: counts_ok_def i_def)
    qed
  qed
qed

section \<open>Closing\<close>

lemma bytes_to_sectors_eq: "fits n d \<Longrightarrow> unat (bytes_to_sectors (file_length d)) = nsec d"
proof -
  assume f: "fits n d"
  define m where "m = nat (file_length d)"
  have m0: "file_length d = int m" "file_length d + 511 < 2 ^ 31" using f by (simp_all add: fits_def m_def)
  then have m: "file_length d = int m" "m + 511 < 2 ^ 31" by simp_all
  have "sint (word_of_int (int (m + 511)) :: u32) = int (m + 511)"
  proof -
    have "sint (word_of_int k :: u32) = signed_take_bit 31 k" for k by (simp add: signed_of_int)
    then show ?thesis using m(2) by (simp only:) (rule signed_take_bit_int_eq_self, simp_all)
  qed
  then have "bytes_to_sectors (int m) = word_of_int (int (m + 511) sdiv 512)"
    by (simp add: bytes_to_sectors_def BLOCK_SECTOR_SIZE_def algebra_simps)
  also have "int (m + 511) sdiv 512 = int ((m + 511) div 512)" using nonneg_sdiv[of "int (m + 511)" 512] by (simp add: zdiv_int)
  finally have "bytes_to_sectors (int m) = word_of_nat ((m + 511) div 512)" by simp
  moreover have "(m + 511) div 512 < 2 ^ 32" using m(2) by (simp add: div_less_iff_less_mult)
  ultimately show ?thesis using m(1) by (simp add: nsec_def unsigned_of_nat take_bit_nat_eq_self)
qed

text \<open>The sectors of a file: its inode and its data.\<close>

definition data_extent :: "inode \<Rightarrow> u32 \<times> u32" where
  "data_extent i = (start_sector (data i), bytes_to_sectors (file_length (data i)))"

definition file_sectors :: "inode \<Rightarrow> nat set" where
  "file_sectors i = extent (inode_sector i, 1) \<union> extent (data_extent i)"

definition releasable :: "filesys \<Rightarrow> inode \<Rightarrow> bool" where
  "releasable s i \<longleftrightarrow> map_ok s \<and> valid_extent s (inode_sector i, 1) \<and> valid_extent s (data_extent i) \<and>
     file_sectors i \<subseteq> used_sectors s \<and> extent (inode_sector i, 1) \<inter> extent (data_extent i) = {}"

lemma map_ok_upd:
  assumes "map_ok s" "inodes s p = Some i" "data j = data i" shows "map_ok (s\<lparr>inodes := (inodes s)(p \<mapsto> j)\<rparr>)"
  using assms by (auto simp: map_ok_def)

lemma used_fields [simp]:
  "used_sectors (s\<lparr>inodes := x\<rparr>) = used_sectors s" "used_sectors (s\<lparr>open_inodes := y\<rparr>) = used_sectors s"
  by (simp_all add: used_sectors_def)

lemma release_file:
  assumes "releasable s i"
  shows "\<exists>s'. Option.bind (free_map_release (inode_sector i) 1 s) (\<lambda>s.
      free_map_release (start_sector (data i)) (bytes_to_sectors (file_length (data i))) s) = Some s' \<and>
    map_ok s' \<and> dsize s' = dsize s \<and> used_sectors s' = used_sectors s - file_sectors i \<and>
    inodes s' = inodes s \<and> open_inodes s' = open_inodes s \<and> next_iptr s' = next_iptr s"
proof -
  have a: "map_ok s" "valid_extent s (inode_sector i, 1)" "valid_extent s (data_extent i)"
    "extent (inode_sector i, 1) \<subseteq> used_sectors s" "extent (data_extent i) \<subseteq> used_sectors s"
    "extent (inode_sector i, 1) \<inter> extent (data_extent i) = {}" using assms by (auto simp: releasable_def file_sectors_def)
  obtain s1 where s1: "free_map_release (inode_sector i) 1 s = Some s1" "map_ok s1" "dsize s1 = dsize s"
    "used_sectors s1 = used_sectors s - extent (inode_sector i, 1)"
    "inodes s1 = inodes s" "open_inodes s1 = open_inodes s" "next_iptr s1 = next_iptr s"
    using release_eq[OF a(1,2,4)] by auto
  have "valid_extent s1 (data_extent i)" "extent (data_extent i) \<subseteq> used_sectors s1"
    using a(3,5,6) s1(3,4) by (auto simp: valid_extent_def)
  from release_eq[OF s1(2) this] obtain s2 where s2: "free_map_release (fst (data_extent i)) (snd (data_extent i)) s1 = Some s2"
    "map_ok s2" "dsize s2 = dsize s1" "used_sectors s2 = used_sectors s1 - extent (data_extent i)"
    "inodes s2 = inodes s1" "open_inodes s2 = open_inodes s1" "next_iptr s2 = next_iptr s1" by blast
  show ?thesis using s1 s2 by (auto simp: data_extent_def file_sectors_def)
qed

lemma inode_close_ok:
  assumes c: "counts_ok s r d" and p: "0 < r p" "d p \<le> r p - 1" and i: "inodes s p = Some i"
    and rel: "r p = 1 \<Longrightarrow> removed i \<Longrightarrow> releasable s i"
  shows "\<exists>s'. inode_close p s = Some s' \<and> counts_ok s' (r(p := r p - 1)) d \<and> dsize s' = dsize s \<and>
    inodes s' = (inodes s)(p := if r p = 1 then None else Some (open_cnt_update (\<lambda>n. n - 1) i)) \<and>
    used_sectors s' = (if r p = 1 \<and> removed i then used_sectors s - file_sectors i else used_sectors s) \<and>
    (\<not> (r p = 1 \<and> removed i) \<longrightarrow> secs s' = secs s \<and> oom s' = oom s)"
proof -
  have t: "table_ok (dsize s) (inodes s) (open_inodes s) (next_iptr s) r d" "disk_ok s" using c by (simp_all add: counts_ok_def)
  have o: "p \<in> set (open_inodes s)" "p \<noteq> 0" "open_cnt i = int (r p)" "deny_write_cnt i = int (d p)"
    using table_open[OF t(1) p(1)] i by (metis option.inject)+
  define j where "j = open_cnt_update (\<lambda>n. n - 1) i"
  define s1 where "s1 = s\<lparr>inodes := (inodes s)(p \<mapsto> j)\<rparr>"
  have j: "data j = data i" "inode_sector j = inode_sector i" "removed j = removed i" "file_sectors j = file_sectors i" "data_extent j = data_extent i"
    by (simp_all add: j_def file_sectors_def data_extent_def)
  show ?thesis
  proof (cases "r p = 1")
    case False
    have "table_ok (dsize s) ((inodes s)(p \<mapsto> j)) (open_inodes s) (next_iptr s) (r(p := r p - 1)) (d(p := d p))"
      using p o False by (intro table_upd[OF t(1) i]) (simp_all add: j_def)
    then have "counts_ok s1 (r(p := r p - 1)) d" using t(2) by (simp add: counts_ok_def s1_def)
    moreover have "inode_close p s = Some s1" using o False p(1) by (simp add: inode_close_def upd_inode_eq[OF i] s1_def j_def)
    ultimately show ?thesis using False by (simp add: s1_def j_def)
  next
    case True
    define s2 where "s2 = s1\<lparr>open_inodes := remove1 p (open_inodes s)\<rparr>"
    have tb: "table_ok (dsize s) ((inodes s)(p := None)) (remove1 p (open_inodes s)) (next_iptr s) (r(p := 0)) d"
      using p True by (intro table_drop[OF t(1)]) simp
    have s2: "inodes s2 p = Some j" "open_cnt j = 0" "disk_ok s2" "dsize s2 = dsize s" "used_sectors s2 = used_sectors s"
      using o(3) True t(2) by (simp_all add: s2_def s1_def j_def)
    obtain s3 where s3: "(if removed j then
        Option.bind (free_map_release (inode_sector j) 1 s2) (\<lambda>s.
        free_map_release (start_sector (data j)) (bytes_to_sectors (file_length (data j))) s) else Some s2) = Some s3"
      "disk_ok s3" "dsize s3 = dsize s" "used_sectors s3 = (if removed i then used_sectors s - file_sectors i else used_sectors s)"
      "inodes s3 = inodes s2" "open_inodes s3 = open_inodes s2" "next_iptr s3 = next_iptr s2"
      "\<not> removed i \<Longrightarrow> s3 = s2"
    proof (cases "removed i")
      case False
      then show thesis using that[of s2] j s2 by simp
    next
      case rm: True
      have "releasable s i" using rel True rm .
      moreover from this have "map_ok s1" unfolding s1_def releasable_def using j(1) by (intro map_ok_upd[OF _ i]) simp_all
      then have "map_ok s2" by (simp add: map_ok_def s2_def)
      ultimately have "releasable s2 j" using s2 j by (simp add: releasable_def valid_extent_def)
      from release_file[OF this] show thesis using that rm j s2 by (auto simp: map_ok_def)
    qed
    have "inode_close p s = Some (s3\<lparr>inodes := (inodes s3)(p := None)\<rparr>)"
    proof -
      have "open_inodes s1 = open_inodes s" by (simp add: s1_def)
      moreover from this have "s1\<lparr>open_inodes := remove1 p (open_inodes s1)\<rparr> = s2" by (simp add: s2_def)
      moreover have "inodes s1 p = Some j" by (simp add: s1_def)
      ultimately show ?thesis using o(1,2) s3(1) s2(2)
        by (simp add: inode_close_def upd_inode_eq[OF i] s1_def[symmetric] j_def[symmetric] Let_def del: bind_assoc)
    qed
    moreover have "(inodes s3)(p := None) = (inodes s)(p := None)" using s3(5) by (simp add: s2_def s1_def)
    moreover have "open_inodes s3 = remove1 p (open_inodes s)" "next_iptr s3 = next_iptr s" using s3(6,7) by (simp_all add: s2_def s1_def)
    moreover have "secs s3 = secs s" "oom s3 = oom s" if "\<not> removed i" using s3(8)[OF that] by (simp_all add: s2_def s1_def)
    ultimately show ?thesis using True tb s3(2,3,4) by (simp add: counts_ok_def)
  qed
qed

section \<open>Denying writes\<close>

lemma inode_deny_ok:
  assumes c: "counts_ok s r d" and p: "0 < r p" "d p < r p"
  shows "\<exists>s'. inode_deny_write p s = Some s' \<and> counts_ok s' r (d(p := Suc (d p)))"
proof -
  have t: "table_ok (dsize s) (inodes s) (open_inodes s) (next_iptr s) r d" "disk_ok s" using c by (simp_all add: counts_ok_def)
  obtain i where i: "inodes s p = Some i" "open_cnt i = int (r p)" "deny_write_cnt i = int (d p)" using table_open[OF t(1) p(1)] by metis
  define j where "j = deny_write_cnt_update (\<lambda>n. n + 1) i"
  have "table_ok (dsize s) ((inodes s)(p \<mapsto> j)) (open_inodes s) (next_iptr s) (r(p := r p)) (d(p := Suc (d p)))"
    using p i by (intro table_upd[OF t(1) i(1)]) (simp_all add: j_def)
  then show ?thesis using i p t(2) by (simp add: inode_deny_write_def upd_inode_eq[OF i(1)] j_def counts_ok_def)
qed

lemma inode_allow_ok:
  assumes c: "counts_ok s r d" and p: "0 < r p" "0 < d p"
  shows "\<exists>s'. inode_allow_write p s = Some s' \<and> counts_ok s' r (d(p := d p - 1)) \<and> dsize s' = dsize s \<and>
    used_sectors s' = used_sectors s \<and> (map_ok s \<longrightarrow> map_ok s') \<and>
    (\<forall>i. inodes s p = Some i \<longrightarrow> (\<exists>j. inodes s' p = Some j \<and> data j = data i \<and> inode_sector j = inode_sector i \<and> removed j = removed i))"
proof -
  have t: "table_ok (dsize s) (inodes s) (open_inodes s) (next_iptr s) r d" "disk_ok s" using c by (simp_all add: counts_ok_def)
  obtain i where i: "inodes s p = Some i" "open_cnt i = int (r p)" "deny_write_cnt i = int (d p)" "d p \<le> r p" using table_open[OF t(1) p(1)] by metis
  define j where "j = deny_write_cnt_update (\<lambda>n. n - 1) i"
  have tb: "table_ok (dsize s) ((inodes s)(p \<mapsto> j)) (open_inodes s) (next_iptr s) (r(p := r p)) (d(p := d p - 1))"
    using p i by (intro table_upd[OF t(1) i(1)]) (simp_all add: j_def of_nat_diff)
  have a: "inode_allow_write p s = Some (s\<lparr>inodes := (inodes s)(p \<mapsto> j)\<rparr>)"
    using i p by (simp add: inode_allow_write_def upd_inode_eq[OF i(1)] j_def)
  have "map_ok s \<Longrightarrow> map_ok (s\<lparr>inodes := (inodes s)(p \<mapsto> j)\<rparr>)" using i by (intro map_ok_upd) (simp_all add: j_def)
  then show ?thesis using tb a i(1) t(2) by (simp add: counts_ok_def j_def)
qed

section \<open>Calls on files\<close>

definition refs :: "open_file list \<Rightarrow> iptr \<Rightarrow> nat" where "refs fs p = length (filter (\<lambda>f. f_inode f = p) fs)"

definition denials :: "open_file list \<Rightarrow> iptr \<Rightarrow> nat" where
  "denials fs p = length (filter (\<lambda>f. f_inode f = p \<and> f_deny f) fs)"

text \<open>The open files, all that hold an inode, fit the file system, and their positions are not negative.\<close>

definition files_ok :: "open_file list \<Rightarrow> filesys \<Rightarrow> bool" where
  "files_ok fs s \<longleftrightarrow> counts_ok s (refs fs) (denials fs) \<and> (\<forall>f \<in> set fs. 0 \<le> f_pos f)"

datatype file_call =
    Open_sector u32
  | Reopen nat
  | Close nat
  | Deny nat
  | Allow nat
  | Read nat nat
  | Write nat "u8 list"
  | Seek nat nat
  | Remove nat

text \<open>A call by number of the file; \<^verbatim>\<open>filesys_open\<close> opens the inode of a sector and then a file on it.\<close>

definition opened :: "open_file list \<Rightarrow> (open_file option \<times> filesys) option \<Rightarrow> (open_file list \<times> filesys) option" where
  "opened fs r = Option.bind r (\<lambda>(f, s). Some (fs @ (case f of None \<Rightarrow> [] | Some f \<Rightarrow> [f]), s))"

fun do_call :: "file_call \<Rightarrow> open_file list \<Rightarrow> filesys \<Rightarrow> (open_file list \<times> filesys) option" where
  "do_call (Open_sector sector) fs s = Option.bind (inode_open sector s) (\<lambda>(p, s). opened fs (file_open p s))"
| "do_call (Reopen k) fs s = opened fs (file_reopen (fs ! k) s)"
| "do_call (Close k) fs s = Option.bind (file_close (Some (fs ! k)) s) (\<lambda>s. Some (take k fs @ drop (Suc k) fs, s))"
| "do_call (Deny k) fs s = Option.bind (file_deny_write (fs ! k) s) (\<lambda>(f, s). Some (fs[k := f], s))"
| "do_call (Allow k) fs s = Option.bind (file_allow_write (fs ! k) s) (\<lambda>(f, s). Some (fs[k := f], s))"
| "do_call (Read k n) fs s = Option.bind (file_read (fs ! k) (int n) s) (\<lambda>(_, f, s). Some (fs[k := f], s))"
| "do_call (Write k bs) fs s =
     Option.bind (file_write (fs ! k) bs (int (length bs)) s) (\<lambda>(_, f, s). Some (fs[k := f], s))"
| "do_call (Seek k n) fs s = Option.bind (file_seek (int n) (fs ! k)) (\<lambda>f. Some (fs[k := f], s))"
| "do_call (Remove k) fs s = Option.bind (inode_remove (file_get_inode (fs ! k)) s) (\<lambda>s. Some (fs, s))"

text \<open>What a caller must provide: a file that is open, a sector that holds an inode, and, where the last opener of a removed file
  closes it, sectors that the map has as used.\<close>

fun call_ok :: "file_call \<Rightarrow> open_file list \<Rightarrow> filesys \<Rightarrow> bool" where
  "call_ok (Open_sector sector) fs s \<longleftrightarrow> sector < dsize s \<and> fits (dsize s) (decode_inode (secs s sector))"
| "call_ok (Close k) fs s \<longleftrightarrow> k < length fs \<and>
     (refs fs (f_inode (fs ! k)) = 1 \<longrightarrow>
      (\<forall>i. inodes s (f_inode (fs ! k)) = Some i \<longrightarrow> removed i \<longrightarrow> releasable s i))"
| "call_ok (Reopen k) fs s \<longleftrightarrow> k < length fs"
| "call_ok (Deny k) fs s \<longleftrightarrow> k < length fs"
| "call_ok (Allow k) fs s \<longleftrightarrow> k < length fs"
| "call_ok (Read k n) fs s \<longleftrightarrow> k < length fs"
| "call_ok (Write k bs) fs s \<longleftrightarrow> k < length fs"
| "call_ok (Seek k n) fs s \<longleftrightarrow> k < length fs"
| "call_ok (Remove k) fs s \<longleftrightarrow> k < length fs"

lemma refs_append [simp]: "refs (fs @ gs) p = refs fs p + refs gs p" by (simp add: refs_def)
lemma denials_append [simp]: "denials (fs @ gs) p = denials fs p + denials gs p" by (simp add: denials_def)
lemma refs_Cons [simp]: "refs (f # fs) p = (if f_inode f = p then Suc (refs fs p) else refs fs p)" by (simp add: refs_def)
lemma denials_Cons [simp]: "denials (f # fs) p = (if f_inode f = p \<and> f_deny f then Suc (denials fs p) else denials fs p)"
  by (simp add: denials_def)
lemma refs_Nil [simp]: "refs [] p = 0" by (simp add: refs_def)
lemma denials_Nil [simp]: "denials [] p = 0" by (simp add: denials_def)

lemma denials_le: "denials fs p \<le> refs fs p"
  by (induction fs) auto

lemma at_split:
  assumes "k < length fs" obtains xs ys where "fs = xs @ fs ! k # ys" "length xs = k"
  using id_take_nth_drop[OF assms] that[of "take k fs"] assms by simp

lemma file_open_ok:
  assumes c: "counts_ok s (\<lambda>q. refs fs q + (if q = p then 1 else 0)) (denials fs)" and pos: "\<forall>f \<in> set fs. 0 \<le> f_pos f" and p: "p \<noteq> 0"
    and i: "inodes s p = Some i" and new: "refs fs p = 0 \<Longrightarrow> \<not> removed i"
  shows "\<exists>gs s'. opened fs (file_open p s) = Some (gs, s') \<and> files_ok gs s'"
proof -
  obtain ok s1 where k: "kmalloc s = (ok, s1)" by (cases "kmalloc s")
  have dk: "disk_ok s" using c by (simp add: counts_ok_def)
  have s1: "sync s (secs s) s1" using kmalloc_sync[OF dk k] .
  have c1: "counts_ok s1 (\<lambda>q. refs fs q + (if q = p then 1 else 0)) (denials fs)" by (rule counts_sync[OF c s1])
  show ?thesis
  proof (cases ok)
    case True
    have "(\<lambda>q. refs fs q + (if q = p then 1 else 0)) = refs (fs @ [\<lparr>f_inode = p, f_pos = 0, f_deny = False\<rparr>])"
      "denials fs = denials (fs @ [\<lparr>f_inode = p, f_pos = 0, f_deny = False\<rparr>])" by (auto simp: fun_eq_iff)
    then have "files_ok (fs @ [\<lparr>f_inode = p, f_pos = 0, f_deny = False\<rparr>]) s1" using c1 pos by (simp add: files_ok_def)
    then show ?thesis using True k p by (simp add: file_open_def opened_def)
  next
    case False
    have "inodes s1 p = Some i" using s1 i by (simp add: sync_def)
    from inode_close_ok[OF c1 _ _ this] denials_le[of fs p] new obtain s2 where
      s2: "inode_close p s1 = Some s2" "counts_ok s2 ((\<lambda>q. refs fs q + (if q = p then 1 else 0))(p := refs fs p)) (denials fs)"
      by fastforce
    have "(\<lambda>q. refs fs q + (if q = p then 1 else 0))(p := refs fs p) = refs fs" by (auto simp: fun_eq_iff)
    then show ?thesis using False k s2 pos by (simp add: file_open_def opened_def files_ok_def)
  qed
qed

lemma files_upd:
  assumes "k < length fs" "f_inode f = f_inode (fs ! k)" "f_deny f = f_deny (fs ! k)"
  shows "refs (fs[k := f]) = refs fs" "denials (fs[k := f]) = denials fs"
proof -
  obtain xs ys where d: "fs = xs @ fs ! k # ys" "length xs = k" using at_split[OF assms(1)] .
  then have "fs[k := f] = xs @ f # ys" by (metis list_update_length)
  moreover define g where "g = fs ! k"
  ultimately have "fs = xs @ g # ys" "fs[k := f] = xs @ f # ys" using d(1) by simp_all
  then show "refs (fs[k := f]) = refs fs" "denials (fs[k := f]) = denials fs"
    using assms(2,3)[folded g_def] by (simp_all add: fun_eq_iff)
qed

lemma files_move:
  assumes "files_ok fs s" "k < length fs" "f_inode f = f_inode (fs ! k)" "f_deny f = f_deny (fs ! k)" "0 \<le> f_pos f"
  shows "files_ok (fs[k := f]) s"
  using assms set_update_subset_insert[of fs k f] by (auto simp: files_ok_def files_upd)

lemma files_holder:
  assumes "files_ok fs s" "k < length fs"
  obtains i where "0 < refs fs (f_inode (fs ! k))" "inodes s (f_inode (fs ! k)) = Some i" "f_inode (fs ! k) \<noteq> 0"
    "fits (dsize s) (data i)" "0 \<le> f_pos (fs ! k)" "disk_ok s" "counts_ok s (refs fs) (denials fs)"
    "deny_write_cnt i = int (denials fs (f_inode (fs ! k)))" "open_cnt i = int (refs fs (f_inode (fs ! k)))"
proof -
  obtain xs ys where d: "fs = xs @ fs ! k # ys" "length xs = k" using at_split[OF assms(2)] .
  have r: "0 < refs fs (f_inode (fs ! k))" by (subst d(1)) simp
  have c: "counts_ok s (refs fs) (denials fs)" "0 \<le> f_pos (fs ! k)" using assms by (simp_all add: files_ok_def)
  then have t: "table_ok (dsize s) (inodes s) (open_inodes s) (next_iptr s) (refs fs) (denials fs)" "disk_ok s" by (simp_all add: counts_ok_def)
  show thesis using table_open[OF t(1) r] that r t(2) c by metis
qed

lemma file_reopen_ok:
  assumes f: "files_ok fs s" and k: "k < length fs"
  shows "\<exists>gs s'. opened fs (file_reopen (fs ! k) s) = Some (gs, s') \<and> files_ok gs s'"
proof -
  define p where "p = f_inode (fs ! k)"
  obtain i where h: "0 < refs fs p" "p \<noteq> 0" "counts_ok s (refs fs) (denials fs)" using files_holder[OF f k] by (metis p_def)
  obtain s1 where s1: "inode_reopen p s = Some (p, s1)" "counts_ok s1 ((refs fs)(p := Suc (refs fs p))) (denials fs)"
    using inode_reopen_ok[OF h(3,1)] by blast
  have e: "(refs fs)(p := Suc (refs fs p)) = (\<lambda>q. refs fs q + (if q = p then 1 else 0))" by (auto simp: fun_eq_iff)
  obtain j where "inodes s1 p = Some j" using table_open[of _ "inodes s1" _ _ _ _ p] s1(2) by (metis counts_ok_def fun_upd_same zero_less_Suc)
  from file_open_ok[OF s1(2)[unfolded e] _ h(2) this] h(1) f show ?thesis
    by (simp add: file_reopen_def s1(1) files_ok_def flip: p_def)
qed

lemma file_open_sector_ok:
  assumes f: "files_ok fs s" and sec: "sector < dsize s" "fits (dsize s) (decode_inode (secs s sector))"
  shows "\<exists>gs s'. Option.bind (inode_open sector s) (\<lambda>(p, s). opened fs (file_open p s)) = Some (gs, s') \<and> files_ok gs s'"
proof -
  have c: "counts_ok s (refs fs) (denials fs)" "\<forall>f \<in> set fs. 0 \<le> f_pos f" using f by (simp_all add: files_ok_def)
  obtain p s1 where s1: "inode_open sector s = Some (p, s1)" and
    cs: "p = 0 \<and> counts_ok s1 (refs fs) (denials fs) \<or> p \<noteq> 0 \<and> counts_ok s1 ((refs fs)(p := Suc (refs fs p))) (denials fs) \<and>
       (\<exists>i. inodes s1 p = Some i \<and> inode_sector i = sector \<and> (refs fs p = 0 \<longrightarrow> \<not> removed i \<and> data i = decode_inode (secs s sector)))"
  proof -
    from inode_open_ok[OF c(1) sec] show thesis
    proof (elim exE conjE)
      fix p s1 assume o: "inode_open sector s = Some (p, s1)"
        and "p = 0 \<and> counts_ok s1 (refs fs) (denials fs) \<or> p \<noteq> 0 \<and> counts_ok s1 ((refs fs)(p := Suc (refs fs p))) (denials fs) \<and>
          (\<exists>i. inodes s1 p = Some i \<and> inode_sector i = sector \<and> (refs fs p = 0 \<longrightarrow> \<not> removed i \<and> data i = decode_inode (secs s sector)) \<and>
            (\<forall>j. inodes s p = Some j \<longrightarrow> inode_sector j = sector \<and> data i = data j \<and> removed i = removed j))"
      then show thesis using that[OF o] by (elim disjE exE conjE) simp_all
    qed
  qed
  have e: "(refs fs)(p := Suc (refs fs p)) = (\<lambda>q. refs fs q + (if q = p then 1 else 0))" by (auto simp: fun_eq_iff)
  from cs show ?thesis
  proof (elim disjE conjE exE)
    assume p: "p = 0" and c1: "counts_ok s1 (refs fs) (denials fs)"
    obtain ok s2 where k: "kmalloc s1 = (ok, s2)" by (cases "kmalloc s1")
    have "disk_ok s1" using c1 by (simp add: counts_ok_def)
    from counts_sync[OF c1 kmalloc_sync[OF this k]] have "files_ok fs s2" using c(2) by (simp add: files_ok_def)
    then show ?thesis using s1 p k by (simp add: file_open_def opened_def inode_close_def)
  next
    fix i assume p: "p \<noteq> 0" and i: "counts_ok s1 ((refs fs)(p := Suc (refs fs p))) (denials fs)" "inodes s1 p = Some i"
      and "refs fs p = 0 \<longrightarrow> \<not> removed i \<and> data i = decode_inode (secs s sector)"
    then have new: "refs fs p = 0 \<Longrightarrow> \<not> removed i" by simp
    have "Option.bind (inode_open sector s) (\<lambda>(p, s). opened fs (file_open p s)) = opened fs (file_open p s1)" using s1 by simp
    then show ?thesis using file_open_ok[OF i(1)[unfolded e] c(2) p i(2) new] by (simp only:)
  qed
qed

lemma file_close_ok:
  assumes f: "files_ok fs s" and k: "k < length fs"
    and rel: "refs fs (f_inode (fs ! k)) = 1 \<Longrightarrow> \<forall>i. inodes s (f_inode (fs ! k)) = Some i \<longrightarrow> removed i \<longrightarrow> releasable s i"
  shows "\<exists>s'. file_close (Some (fs ! k)) s = Some s' \<and> files_ok (take k fs @ drop (Suc k) fs) s'"
proof -
  define g p where "g = fs ! k" and "p = f_inode g"
  obtain xs ys where d: "fs = xs @ g # ys" "length xs = k" using at_split[OF k] unfolding g_def by metis
  have rest: "take k fs @ drop (Suc k) fs = xs @ ys" using d by simp
  obtain i where i: "0 < refs fs p" "inodes s p = Some i" "counts_ok s (refs fs) (denials fs)"
    using files_holder[OF f k] by (metis p_def g_def)
  have pos: "\<forall>f \<in> set (xs @ ys). 0 \<le> f_pos f" using f d(1) by (simp add: files_ok_def)
  have rel': "refs fs p = 1 \<Longrightarrow> removed i \<Longrightarrow> releasable s i" using rel i(2) unfolding p_def g_def by blast
  have dl: "denials (xs @ ys) p \<le> refs fs p - 1" using denials_le[of "xs @ ys" p] d(1) by (simp add: p_def)
  have e: "(refs fs)(p := refs fs p - 1) = refs (xs @ ys)" using d(1) by (auto simp: fun_eq_iff p_def)
  obtain s1 j g' where s1: "file_allow_write g s = Some (g', s1)" "f_inode g' = p" "counts_ok s1 (refs fs) (denials (xs @ ys))"
    "inodes s1 p = Some j" "removed j \<Longrightarrow> removed i" "releasable s i \<Longrightarrow> releasable s1 j"
  proof (cases "f_deny g")
    case False
    then have "denials fs = denials (xs @ ys)" using d(1) by (simp add: fun_eq_iff)
    then show thesis using that[of g s i] False i p_def by (simp add: file_allow_write_def)
  next
    case True
    then have dp: "0 < denials fs p" using d(1) by (simp add: p_def)
    have e2: "(denials fs)(p := denials fs p - 1) = denials (xs @ ys)" using d(1) True by (auto simp: fun_eq_iff p_def)
    obtain s1 j where s1: "inode_allow_write p s = Some s1" "counts_ok s1 (refs fs) (denials (xs @ ys))" "dsize s1 = dsize s"
      "used_sectors s1 = used_sectors s" "map_ok s \<longrightarrow> map_ok s1" "inodes s1 p = Some j" "data j = data i" "inode_sector j = inode_sector i"
      "removed j = removed i"
      using inode_allow_ok[OF i(3,1) dp] unfolding e2 using i(2) by blast
    have "releasable s i \<Longrightarrow> releasable s1 j"
      using s1 by (simp add: releasable_def valid_extent_def data_extent_def file_sectors_def)
    then show thesis using that[of "g\<lparr>f_deny := False\<rparr>" s1 j] s1 True by (simp add: file_allow_write_def p_def)
  qed
  have "\<exists>s'. inode_close p s1 = Some s' \<and> counts_ok s' ((refs fs)(p := refs fs p - 1)) (denials (xs @ ys))"
    using inode_close_ok[OF s1(3) i(1) dl s1(4)] rel' s1(5,6) by blast
  then show ?thesis using s1(1,2) pos unfolding e rest by (auto simp: file_close_def files_ok_def simp flip: g_def)
qed

lemma file_deny_ok:
  assumes f: "files_ok fs s" and k: "k < length fs"
  shows "\<exists>g s'. file_deny_write (fs ! k) s = Some (g, s') \<and> files_ok (fs[k := g]) s'"
proof (cases "f_deny (fs ! k)")
  case True
  then show ?thesis using f by (simp add: file_deny_write_def)
next
  case False
  define g p where "g = fs ! k" and "p = f_inode g"
  obtain xs ys where d: "fs = xs @ g # ys" "length xs = k" using at_split[OF k] unfolding g_def by metis
  have h: "0 < refs fs p" "counts_ok s (refs fs) (denials fs)" using files_holder[OF f k] by (metis p_def g_def)+
  have nd: "\<not> f_deny g" using False by (simp add: g_def)
  have up: "fs[k := g\<lparr>f_deny := True\<rparr>] = xs @ g\<lparr>f_deny := True\<rparr> # ys" using d by (metis list_update_length)
  have e: "(denials fs)(p := Suc (denials fs p)) = denials (fs[k := g\<lparr>f_deny := True\<rparr>])" "refs (fs[k := g\<lparr>f_deny := True\<rparr>]) = refs fs"
    unfolding up using d(1) nd by (auto simp: fun_eq_iff p_def)
  have "denials fs p < refs fs p" using denials_le[of xs p] denials_le[of ys p] d(1) nd by (simp add: p_def)
  from inode_deny_ok[OF h(2,1) this] obtain s' where s': "inode_deny_write p s = Some s'"
    "counts_ok s' (refs fs) ((denials fs)(p := Suc (denials fs p)))" by blast
  have "\<forall>f \<in> set (fs[k := g\<lparr>f_deny := True\<rparr>]). 0 \<le> f_pos f" unfolding up using f d(1) by (simp add: files_ok_def)
  then have "files_ok (fs[k := g\<lparr>f_deny := True\<rparr>]) s'" using s'(2) e by (simp add: files_ok_def)
  then show ?thesis using s'(1) nd by (simp add: file_deny_write_def p_def flip: g_def)
qed

lemma file_allow_ok:
  assumes f: "files_ok fs s" and k: "k < length fs"
  shows "\<exists>g s'. file_allow_write (fs ! k) s = Some (g, s') \<and> files_ok (fs[k := g]) s'"
proof (cases "f_deny (fs ! k)")
  case False
  then show ?thesis using f by (simp add: file_allow_write_def)
next
  case True
  define g p where "g = fs ! k" and "p = f_inode g"
  obtain xs ys where d: "fs = xs @ g # ys" "length xs = k" using at_split[OF k] unfolding g_def by metis
  have h: "0 < refs fs p" "counts_ok s (refs fs) (denials fs)" using files_holder[OF f k] by (metis p_def g_def)+
  have dn: "f_deny g" using True by (simp add: g_def)
  have up: "fs[k := g\<lparr>f_deny := False\<rparr>] = xs @ g\<lparr>f_deny := False\<rparr> # ys" using d by (metis list_update_length)
  have e: "(denials fs)(p := denials fs p - 1) = denials (fs[k := g\<lparr>f_deny := False\<rparr>])" "refs (fs[k := g\<lparr>f_deny := False\<rparr>]) = refs fs"
    unfolding up using d(1) dn by (auto simp: fun_eq_iff p_def)
  have "0 < denials fs p" using d(1) dn by (simp add: p_def)
  from inode_allow_ok[OF h(2,1) this] obtain s' where s': "inode_allow_write p s = Some s'"
    "counts_ok s' (refs fs) ((denials fs)(p := denials fs p - 1))" by blast
  have "\<forall>f \<in> set (fs[k := g\<lparr>f_deny := False\<rparr>]). 0 \<le> f_pos f" unfolding up using f d(1) by (simp add: files_ok_def)
  then have "files_ok (fs[k := g\<lparr>f_deny := False\<rparr>]) s'" using s'(2) e by (simp add: files_ok_def)
  then show ?thesis using s'(1) dn by (simp add: file_allow_write_def p_def flip: g_def)
qed

lemma files_sync: "files_ok fs s \<Longrightarrow> sync s f s' \<Longrightarrow> files_ok fs s'"
  unfolding files_ok_def by (blast intro: counts_sync)

lemma file_read_ok:
  assumes f: "files_ok fs s" and k: "k < length fs"
  shows "\<exists>bs g s'. file_read (fs ! k) (int n) s = Some (bs, g, s') \<and> files_ok (fs[k := g]) s'"
proof -
  obtain i where i: "inodes s (f_inode (fs ! k)) = Some i" "fits (dsize s) (data i)" "0 \<le> f_pos (fs ! k)" "disk_ok s"
    using files_holder[OF f k] by metis
  obtain m where m: "f_pos (fs ! k) = int m" using i(3) nonneg_int_cases by metis
  obtain bs s' where r: "inode_read_at (f_inode (fs ! k)) (int n) (int m) s = Some (bs, s')" "sync s (secs s) s'"
    using read_at_eq[OF i(4,1,2)] by metis
  have "files_ok (fs[k := (fs ! k)\<lparr>f_pos := f_pos (fs ! k) + int (length bs)\<rparr>]) s'"
    using files_sync[OF f r(2)] k i(3) by (intro files_move) simp_all
  then show ?thesis using r(1) m by (simp add: file_read_def)
qed

lemma file_write_ok:
  assumes f: "files_ok fs s" and k: "k < length fs"
  shows "\<exists>m g s'. file_write (fs ! k) bs (int (length bs)) s = Some (m, g, s') \<and> files_ok (fs[k := g]) s'"
proof -
  obtain i where i: "inodes s (f_inode (fs ! k)) = Some i" "fits (dsize s) (data i)" "0 \<le> f_pos (fs ! k)" "disk_ok s"
    using files_holder[OF f k] by metis
  obtain m where m: "f_pos (fs ! k) = int m" using i(3) nonneg_int_cases by metis
  obtain n s' x where w: "inode_write_at (f_inode (fs ! k)) bs (int (length bs)) (int m) s = Some (int n, s')" "sync s x s'"
  proof (cases "deny_write_cnt i = 0")
    case True
    show thesis using write_at_eq[OF i(4,1,2) True order_refl] that by metis
  next
    case False
    then show thesis using that[of 0 s "secs s"] i(1) sync_refl[OF i(4)] by (simp add: inode_write_at_def)
  qed
  have "files_ok (fs[k := (fs ! k)\<lparr>f_pos := f_pos (fs ! k) + int n\<rparr>]) s'"
    using files_sync[OF f w(2)] k i(3) by (intro files_move) simp_all
  then show ?thesis using w(1) m by (simp add: file_write_def)
qed

lemma inode_remove_ok:
  assumes f: "files_ok fs s" and k: "k < length fs"
  shows "\<exists>s'. inode_remove (f_inode (fs ! k)) s = Some s' \<and> files_ok fs s'"
proof -
  define p where "p = f_inode (fs ! k)"
  obtain i where i: "0 < refs fs p" "inodes s p = Some i" "counts_ok s (refs fs) (denials fs)" "open_cnt i = int (refs fs p)"
    "deny_write_cnt i = int (denials fs p)" using files_holder[OF f k] by (metis p_def)
  have t: "table_ok (dsize s) (inodes s) (open_inodes s) (next_iptr s) (refs fs) (denials fs)" "disk_ok s" using i(3) by (simp_all add: counts_ok_def)
  have "table_ok (dsize s) ((inodes s)(p \<mapsto> removed_update (\<lambda>_. True) i)) (open_inodes s) (next_iptr s)
      ((refs fs)(p := refs fs p)) ((denials fs)(p := denials fs p))"
    using i denials_le[of fs p] by (intro table_upd[OF t(1) i(2)]) simp_all
  then show ?thesis using f t(2) by (simp add: inode_remove_def upd_inode_eq[OF i(2)] files_ok_def counts_ok_def flip: p_def)
qed

text \<open>C24. The state of the open files is well formed: an inode in memory lies on the disk, it is the only one for its sector, its
  open count is the number of files that hold it and its deny count the number of those that deny writing. Every call on open
  files keeps it so and does not panic, whether or not memory can be allocated.\<close>

theorem file_calls_well_typed:
  assumes "files_ok fs s" "call_ok c fs s"
  shows "\<exists>gs s'. do_call c fs s = Some (gs, s') \<and> files_ok gs s'"
proof (cases c)
  case (Open_sector sector)
  then show ?thesis using file_open_sector_ok[OF assms(1)] assms(2) by simp
next
  case (Reopen k)
  then show ?thesis using file_reopen_ok[OF assms(1)] assms(2) by simp
next
  case (Close k)
  then show ?thesis using file_close_ok[OF assms(1), of k] assms(2) by fastforce
next
  case (Deny k)
  then show ?thesis using file_deny_ok[OF assms(1), of k] assms(2) by fastforce
next
  case (Allow k)
  then show ?thesis using file_allow_ok[OF assms(1), of k] assms(2) by fastforce
next
  case (Read k n)
  then show ?thesis using file_read_ok[OF assms(1), of k n] assms(2) by fastforce
next
  case (Write k bs)
  then show ?thesis using file_write_ok[OF assms(1), of k bs] assms(2) by fastforce
next
  case (Seek k n)
  have "files_ok (fs[k := (fs ! k)\<lparr>f_pos := int n\<rparr>]) s" using assms Seek by (intro files_move) simp_all
  then show ?thesis using Seek by (simp add: file_seek_def)
next
  case (Remove k)
  then show ?thesis using inode_remove_ok[OF assms(1), of k] assms(2) by (auto simp: file_get_inode_def)
qed

text \<open>The file of the free map as the only open file.\<close>

definition map_file :: open_file where "map_file = \<lparr>f_inode = 7, f_pos = 0, f_deny = False\<rparr>"

lemma sample_files_ok: "files_ok [map_file] sample_map"
  using sample_map_disk map_inode_ok(1) unfolding files_ok_def counts_ok_def table_ok_def
  by (simp add: sample_map_def sample_fs_def map_file_def map_inode_def refs_def denials_def)

theorem file_calls_well_typed_witness:
  "\<exists>gs s'. do_call (Write 0 [1, 2, 3]) [map_file] sample_map = Some (gs, s') \<and> files_ok gs s'"
  by (rule file_calls_well_typed[OF sample_files_ok]) simp

text \<open>C25. A removed file lives until its last opener closes it: while others hold the inode, closing changes only its count and the
  map of the sectors stays; the last close takes the inode out of memory and, when it was removed, frees exactly the sectors of
  the inode and its data. The file that is closed is one that does not deny writes, and the sectors of a removed inode are in use in the free map (\<open>releasable\<close>).\<close>

theorem removed_until_last_close:
  assumes "files_ok fs s" "k < length fs" "inodes s (f_inode (fs ! k)) = Some i" "f_deny (fs ! k) = False"
    "removed i \<longrightarrow> releasable s i"
  shows "\<exists>s'. file_close (Some (fs ! k)) s = Some s' \<and>
    (if refs fs (f_inode (fs ! k)) = 1
     then inodes s' (f_inode (fs ! k)) = None \<and> used_sectors s' = used_sectors s - (if removed i then file_sectors i else {})
     else inodes s' (f_inode (fs ! k)) = Some (i\<lparr>open_cnt := open_cnt i - 1\<rparr>) \<and> used_sectors s' = used_sectors s)"
proof -
  define p where "p = f_inode (fs ! k)"
  obtain xs ys where d: "fs = xs @ fs ! k # ys" using at_split[OF assms(2)] by metis
  have h: "0 < refs fs p" "counts_ok s (refs fs) (denials fs)" using files_holder[OF assms(1,2)] by (metis p_def)+
  have "refs fs p = Suc (refs (xs @ ys) p)" "denials fs p = denials (xs @ ys) p"
    by (subst d, simp add: p_def assms(4))+
  then have "denials fs p \<le> refs fs p - 1" using denials_le[of "xs @ ys" p] by simp
  from inode_close_ok[OF h(2,1) this assms(3)[folded p_def]] assms(5) obtain s' where "inode_close p s = Some s'"
    "inodes s' = (inodes s)(p := if refs fs p = 1 then None else Some (open_cnt_update (\<lambda>n. n - 1) i))"
    "used_sectors s' = (if refs fs p = 1 \<and> removed i then used_sectors s - file_sectors i else used_sectors s)" by blast
  then show ?thesis using assms(4) by (simp add: file_close_def file_allow_write_def flip: p_def)
qed

text \<open>The same with a removed file in sectors 4 to 6.\<close>

definition gone_inode :: inode where "gone_inode = sample_inode\<lparr>removed := True\<rparr>"

definition gone_file :: open_file where "gone_file = \<lparr>f_inode = 8, f_pos = 0, f_deny = False\<rparr>"

definition sample_gone :: filesys where
  "sample_gone = sample_map\<lparr>inodes := [7 \<mapsto> map_inode, 8 \<mapsto> gone_inode], open_inodes := [8, 7], free_map := \<lparr>bit_cnt = 16, bits = [0x77]\<rparr>\<rparr>"

lemma sample_gone_disk: "disk_ok sample_gone" "dsize sample_gone = 16"
  using sample_map_disk by (simp_all add: sample_gone_def)

lemma gone_inode_ok: "fits 16 (data gone_inode)" "bytes_to_sectors (file_length (data gone_inode)) = 2"
  by (simp_all add: gone_inode_def sample_inode_def fits_def nsec_def bytes_to_sectors_def BLOCK_SECTOR_SIZE_def)

lemma sample_gone_releasable: "releasable sample_gone gone_inode"
proof -
  have "map_ok sample_gone"
    using sample_gone_disk map_inode_ok unfolding map_ok_def by (simp add: sample_gone_def sample_map_def sample_fs_def bitmap_ok_def)
  moreover have "file_sectors gone_inode = {4, 5, 6}" "extent (data_extent gone_inode) = {5, 6}" "extent (inode_sector gone_inode, 1) = {4}"
    by (auto simp: file_sectors_def data_extent_def extent_def gone_inode_ok) (simp_all add: gone_inode_def sample_inode_def)
  moreover have "{4, 5, 6} \<subseteq> used_sectors sample_gone"
    by (simp add: used_sectors_def sample_gone_def nth_bits_of bit_at_def)
  moreover have "valid_extent sample_gone (inode_sector gone_inode, 1)" "valid_extent sample_gone (data_extent gone_inode)"
    by (simp_all add: valid_extent_def data_extent_def sample_gone_disk gone_inode_ok) (simp_all add: gone_inode_def sample_inode_def)
  ultimately show ?thesis by (simp add: releasable_def)
qed

lemma sample_gone_ok: "files_ok [map_file, gone_file] sample_gone"
proof -
  have "fits 16 (data map_inode)" "fits 16 (data gone_inode)" using map_inode_ok(1) gone_inode_ok(1) .
  then show ?thesis using sample_gone_disk unfolding files_ok_def counts_ok_def table_ok_def sample_gone_disk(2)
    by (auto simp: sample_gone_def sample_map_def sample_fs_def map_file_def gone_file_def refs_def denials_def
      map_inode_def gone_inode_def sample_inode_def split: if_splits)
qed

theorem removed_until_last_close_witness:
  "\<exists>s'. file_close (Some gone_file) sample_gone = Some s' \<and> inodes s' 8 = None \<and>
    used_sectors s' = used_sectors sample_gone - file_sectors gone_inode"
proof -
  have "inodes sample_gone 8 = Some gone_inode" "removed gone_inode" by (simp_all add: sample_gone_def gone_inode_def)
  then show ?thesis using removed_until_last_close[OF sample_gone_ok, of 1 gone_inode] sample_gone_releasable
    by (simp add: gone_file_def map_file_def refs_def)
qed

end
