(* ===== verification/Dir_Spec.thy ===== *)
theory Dir_Spec
  imports Open_Files Directory
begin

text \<open>
  Directories as maps from names to sectors. The entries of a directory are the pieces of 20 bytes of its file; looking a name up,
  adding it and removing it on the bytes are the operations of the map.
\<close>

section \<open>Entries\<close>

definition entry_at :: "u8 list \<Rightarrow> nat \<Rightarrow> dir_entry" where "entry_at bs j = take 20 (drop (20 * j) bs)"

definition entry_cnt :: "u8 list \<Rightarrow> nat" where "entry_cnt bs = length bs div 20"

definition is_entry :: "u8 list \<Rightarrow> dir_entry \<Rightarrow> bool" where "is_entry name e \<longleftrightarrow> entry_in_use e \<and> name_matches name e"

definition find_entry :: "(dir_entry \<Rightarrow> bool) \<Rightarrow> u8 list \<Rightarrow> nat \<Rightarrow> nat option" where
  "find_entry P bs k = List.find (\<lambda>j. P (entry_at bs j)) [k..<entry_cnt bs]"

text \<open>The map: names are byte strings without a zero.\<close>

definition dir_map :: "u8 list \<Rightarrow> u8 list \<Rightarrow> u32 option" where
  "dir_map bs name = (if 0 \<in> set name then None
     else map_option (\<lambda>j. entry_sector (entry_at bs j)) (find_entry (is_entry name) bs 0))"

lemma find_entry_step:
  "find_entry P bs k = (if k < entry_cnt bs then if P (entry_at bs k) then Some k else find_entry P bs (Suc k) else None)"
  by (auto simp: find_entry_def upt_rec[of k])

lemma find_entry_Some: "find_entry P bs k = Some j \<Longrightarrow> k \<le> j \<and> j < entry_cnt bs \<and> P (entry_at bs j)"
  by (auto simp: find_entry_def find_Some_iff)

lemma find_entry_None: "find_entry P bs k = None \<longleftrightarrow> (\<forall>j. k \<le> j \<longrightarrow> j < entry_cnt bs \<longrightarrow> \<not> P (entry_at bs j))"
  by (auto simp: find_entry_def find_None_iff)

lemma find_entry_cong:
  assumes "entry_cnt cs = entry_cnt bs" "\<And>j. k \<le> j \<Longrightarrow> j < entry_cnt bs \<Longrightarrow> Q (entry_at cs j) = P (entry_at bs j)"
  shows "find_entry Q cs k = find_entry P bs k"
  unfolding find_entry_def assms(1) by (rule find_cong) (use assms(2) in auto)

lemma whole_entry: "20 * k + 20 \<le> length bs \<longleftrightarrow> k < entry_cnt bs"
  by (auto simp: entry_cnt_def less_mult_imp_div_less div_less_iff_less_mult Suc_le_eq[symmetric] less_eq_div_iff_mult_less_eq)

lemma length_entry_at [simp]: "k < entry_cnt bs \<Longrightarrow> length (entry_at bs k) = 20"
  using whole_entry[of k bs] by (simp add: entry_at_def)

lemma short_entry: "\<not> k < entry_cnt bs \<Longrightarrow> length (entry_at bs k) < 20"
  using whole_entry[of k bs] by (simp add: entry_at_def)

section \<open>The loops\<close>

lemma read_entry:
  assumes "disk_ok s" "inodes s p = Some i" "fits (dsize s) (data i)" "oom s = []"
  obtains s' where "inode_read_at p (int sizeof_entry) (int (20 * k)) s = Some (entry_at (fbytes (secs s) (data i)) k, s')"
    "sync s (secs s) s'"
proof -
  obtain n s' where r: "inode_read_at p (int 20) (int (20 * k)) s = Some (take n (drop (20 * k) (fbytes (secs s) (data i))), s')"
    "sync s (secs s) s'" "take n (drop (20 * k) (fbytes (secs s) (data i))) = take 20 (drop (20 * k) (fbytes (secs s) (data i)))"
    using read_at_eq[OF assms(1-3), of 20 "20 * k"] assms(4) by metis
  then show thesis using that[of s'] by (simp add: entry_at_def sizeof_entry_def)
qed

lemma sync_same: "sync s (secs s) s' \<Longrightarrow> sync s' f s'' \<Longrightarrow> sync s f s''"
  by (simp add: sync_def)

lemma lookup_loop_eq:
  assumes "disk_ok s" "inodes s p = Some i" "fits (dsize s) (data i)" "oom s = []"
  shows "\<exists>s'. lookup_loop p name (20 * k) s = Some (map_option (\<lambda>j. (entry_at (fbytes (secs s) (data i)) j, 20 * j))
      (find_entry (is_entry name) (fbytes (secs s) (data i)) k), s') \<and> sync s (secs s) s'"
  using assms
proof (induction "entry_cnt (fbytes (secs s) (data i)) - k" arbitrary: k s rule: less_induct)
  case less
  let ?B = "fbytes (secs s) (data i)"
  obtain s1 where s1: "inode_read_at p (int sizeof_entry) (int (20 * k)) s = Some (entry_at ?B k, s1)" "sync s (secs s) s1"
    using read_entry[OF less.prems] by metis
  show ?case
  proof (cases "k < entry_cnt ?B")
    case False
    then show ?thesis using s1 short_entry[OF False]
      by (subst lookup_loop.simps, subst find_entry_step) (simp add: sizeof_entry_def)
  next
    case True
    show ?thesis
    proof (cases "is_entry name (entry_at ?B k)")
      case yes: True
      then show ?thesis using s1 True
        by (subst lookup_loop.simps, subst find_entry_step) (simp add: sizeof_entry_def is_entry_def)
    next
      case no: False
      have e: "secs s1 = secs s" "disk_ok s1" "inodes s1 p = Some i" "fits (dsize s1) (data i)" "oom s1 = []"
        using s1(2) less.prems by (simp_all add: sync_def)
      have "entry_cnt (fbytes (secs s1) (data i)) - Suc k < entry_cnt ?B - k" using True e(1) by simp
      from less.hyps[OF this e(2-5)] obtain s2 where s2: "lookup_loop p name (20 * Suc k) s1 =
          Some (map_option (\<lambda>j. (entry_at ?B j, 20 * j)) (find_entry (is_entry name) ?B (Suc k)), s2)" "sync s1 (secs s1) s2"
        unfolding e(1) by blast
      have "lookup_loop p name (20 * k) s = lookup_loop p name (20 * Suc k) s1"
        using s1(1) True no by (subst lookup_loop.simps) (auto simp: sizeof_entry_def is_entry_def add.commute)
      moreover have "find_entry (is_entry name) ?B k = find_entry (is_entry name) ?B (Suc k)"
        using True no by (subst find_entry_step) simp
      ultimately show ?thesis using s2 sync_same[OF s1(2)] e(1) by simp
    qed
  qed
qed

lemma free_slot_loop_eq:
  assumes "disk_ok s" "inodes s p = Some i" "fits (dsize s) (data i)" "oom s = []" "length e = 20"
  shows "\<exists>e' s'. free_slot_loop p e (20 * k) s =
      Some (e', 20 * (case find_entry (\<lambda>e. \<not> entry_in_use e) (fbytes (secs s) (data i)) k of
        Some j \<Rightarrow> j | None \<Rightarrow> max k (entry_cnt (fbytes (secs s) (data i)))), s') \<and> length e' = 20 \<and> sync s (secs s) s'"
  using assms
proof (induction "entry_cnt (fbytes (secs s) (data i)) - k" arbitrary: k e s rule: less_induct)
  case less
  let ?B = "fbytes (secs s) (data i)"
  let ?P = "\<lambda>e. \<not> entry_in_use e"
  obtain s1 where s1: "inode_read_at p (int sizeof_entry) (int (20 * k)) s = Some (entry_at ?B k, s1)" "sync s (secs s) s1"
    using read_entry[OF less.prems(1-4)] by metis
  show ?case
  proof (cases "k < entry_cnt ?B")
    case False
    then show ?thesis using s1 short_entry[OF False] less.prems(5)
      by (subst free_slot_loop.simps, subst find_entry_step) (simp add: sizeof_entry_def max_def)
  next
    case True
    show ?thesis
    proof (cases "entry_in_use (entry_at ?B k)")
      case False
      then show ?thesis using s1 True less.prems(5)
        by (subst free_slot_loop.simps, subst find_entry_step) (simp add: sizeof_entry_def)
    next
      case used: True
      have e: "secs s1 = secs s" "disk_ok s1" "inodes s1 p = Some i" "fits (dsize s1) (data i)" "oom s1 = []" "length (entry_at ?B k) = 20"
        using s1(2) less.prems True by (simp_all add: sync_def)
      have "entry_cnt (fbytes (secs s1) (data i)) - Suc k < entry_cnt ?B - k" using True e(1) by simp
      from less.hyps[OF this e(2-6)] obtain e' s2 where s2: "free_slot_loop p (entry_at ?B k) (20 * Suc k) s1 =
          Some (e', 20 * (case find_entry ?P ?B (Suc k) of Some j \<Rightarrow> j | None \<Rightarrow> max (Suc k) (entry_cnt ?B)), s2)"
          "length e' = 20" "sync s1 (secs s1) s2"
        unfolding e(1) by blast
      have "free_slot_loop p e (20 * k) s = free_slot_loop p (entry_at ?B k) (20 * Suc k) s1"
        using s1(1) True used less.prems(5) by (subst free_slot_loop.simps) (simp add: sizeof_entry_def add.commute)
      moreover have "find_entry ?P ?B k = find_entry ?P ?B (Suc k)" using True used by (subst find_entry_step) simp
      moreover have "max (Suc k) (entry_cnt ?B) = max k (entry_cnt ?B)" using True by simp
      ultimately show ?thesis using s2 sync_same[OF s1(2)] e(1) by simp
    qed
  qed
qed

text \<open>When memory for the bounce buffer runs out, a read in the middle of the directory is short, and both loops stop there.\<close>

lemma read_some:
  assumes "disk_ok s" "inodes s p = Some i" "fits (dsize s) (data i)"
  obtains bs s' where "inode_read_at p (int sizeof_entry) (int (20 * k)) s = Some (bs, s')" "sync s (secs s) s'" "length bs \<le> 20"
    "length bs = 20 \<longrightarrow> bs = entry_at (fbytes (secs s) (data i)) k"
proof -
  obtain n s' where r: "inode_read_at p (int 20) (int (20 * k)) s = Some (take n (drop (20 * k) (fbytes (secs s) (data i))), s')"
    "sync s (secs s) s'" "n \<le> 20"
    using read_at_eq[OF assms(1-3), of 20 "20 * k"] by metis
  define bs where "bs = take n (drop (20 * k) (fbytes (secs s) (data i)))"
  have "length bs \<le> n" by (simp add: bs_def)
  then have "length bs = 20 \<longrightarrow> n = 20" "length bs \<le> 20" using r(3) by auto
  then have "length bs \<le> 20" "length bs = 20 \<longrightarrow> bs = entry_at (fbytes (secs s) (data i)) k" by (auto simp: bs_def entry_at_def)
  moreover have "inode_read_at p (int sizeof_entry) (int (20 * k)) s = Some (bs, s')" using r(1) by (simp add: bs_def sizeof_entry_def)
  ultimately show thesis using that r(2) by blast
qed

lemma lookup_loop_sound:
  assumes "disk_ok s" "inodes s p = Some i" "fits (dsize s) (data i)"
  shows "\<exists>r s'. lookup_loop p name (20 * k) s = Some (r, s') \<and> sync s (secs s) s' \<and>
    (r = None \<or> r = map_option (\<lambda>j. (entry_at (fbytes (secs s) (data i)) j, 20 * j)) (find_entry (is_entry name) (fbytes (secs s) (data i)) k))"
  using assms
proof (induction "entry_cnt (fbytes (secs s) (data i)) - k" arbitrary: k s rule: less_induct)
  case less
  let ?B = "fbytes (secs s) (data i)"
  obtain bs s1 where s1: "inode_read_at p (int sizeof_entry) (int (20 * k)) s = Some (bs, s1)" "sync s (secs s) s1" "length bs \<le> 20"
    "length bs = 20 \<longrightarrow> bs = entry_at ?B k"
    using read_some[OF less.prems] by metis
  show ?case
  proof (cases "length bs = 20 \<and> \<not> is_entry name bs")
    case False
    have "k < entry_cnt ?B" if "length bs = 20" using s1(4) that short_entry[of k ?B] by fastforce
    then show ?thesis using s1 False
      by (subst (1) lookup_loop.simps, subst find_entry_step) (auto simp: sizeof_entry_def is_entry_def)
  next
    case True
    have bs: "bs = entry_at ?B k" "k < entry_cnt ?B" using True s1(4) short_entry[of k ?B] by fastforce+
    have e: "secs s1 = secs s" "disk_ok s1" "inodes s1 p = Some i" "fits (dsize s1) (data i)"
      using s1(2) less.prems by (simp_all add: sync_def)
    have "entry_cnt (fbytes (secs s1) (data i)) - Suc k < entry_cnt ?B - k" using bs(2) e(1) by simp
    from less.hyps[OF this e(2-4)] obtain r s2 where s2: "lookup_loop p name (20 * Suc k) s1 = Some (r, s2)" "sync s1 (secs s1) s2"
      "r = None \<or> r = map_option (\<lambda>j. (entry_at ?B j, 20 * j)) (find_entry (is_entry name) ?B (Suc k))"
      unfolding e(1) by blast
    have "lookup_loop p name (20 * k) s = lookup_loop p name (20 * Suc k) s1"
      using s1(1) True by (subst lookup_loop.simps) (auto simp: sizeof_entry_def is_entry_def add.commute)
    moreover have "find_entry (is_entry name) ?B k = find_entry (is_entry name) ?B (Suc k)"
      using bs True by (subst find_entry_step) simp
    ultimately show ?thesis using s2 sync_same[OF s1(2)] e(1) by simp
  qed
qed

lemma free_slot_loop_ends:
  assumes "disk_ok s" "inodes s p = Some i" "fits (dsize s) (data i)" "length e = 20"
  shows "\<exists>e' j s'. free_slot_loop p e (20 * k) s = Some (e', 20 * j, s') \<and> length e' = 20 \<and> sync s (secs s) s'"
  using assms
proof (induction "entry_cnt (fbytes (secs s) (data i)) - k" arbitrary: k e s rule: less_induct)
  case less
  let ?B = "fbytes (secs s) (data i)"
  obtain bs s1 where s1: "inode_read_at p (int sizeof_entry) (int (20 * k)) s = Some (bs, s1)" "sync s (secs s) s1" "length bs \<le> 20"
    "length bs = 20 \<longrightarrow> bs = entry_at ?B k"
    using read_some[OF less.prems(1-3)] by metis
  show ?case
  proof (cases "length bs = 20 \<and> entry_in_use bs")
    case False
    then show ?thesis using s1(1-3) less.prems(4)
      by (intro exI[of _ "bs @ drop (length bs) e"] exI[of _ k] exI[of _ s1], subst free_slot_loop.simps)
        (cases "length bs = 20"; simp add: sizeof_entry_def Let_def)
  next
    case True
    have bs: "bs = entry_at ?B k" "k < entry_cnt ?B" using True s1(4) short_entry[of k ?B] by fastforce+
    have e: "secs s1 = secs s" "disk_ok s1" "inodes s1 p = Some i" "fits (dsize s1) (data i)" "length bs = 20"
      using s1(2) less.prems True by (simp_all add: sync_def)
    have "entry_cnt (fbytes (secs s1) (data i)) - Suc k < entry_cnt ?B - k" using bs(2) e(1) by simp
    from less.hyps[OF this e(2-5)] obtain e' j s2 where s2: "free_slot_loop p bs (20 * Suc k) s1 = Some (e', 20 * j, s2)"
      "length e' = 20" "sync s1 (secs s1) s2" by blast
    have "free_slot_loop p e (20 * k) s = free_slot_loop p bs (20 * Suc k) s1"
      using s1(1) True less.prems(4) by (subst free_slot_loop.simps) (simp add: sizeof_entry_def add.commute)
    then show ?thesis using s2 sync_same[OF s1(2)] e(1) by auto
  qed
qed

section \<open>Changing one entry\<close>

lemma put_entry:
  assumes "cs = take (20 * j) bs @ es @ drop (20 * j + length es) bs" "length es = 20 \<and> j < entry_cnt bs \<or> length es < 20 \<and> j = entry_cnt bs"
    "20 * j + length es \<le> length bs"
  shows "entry_cnt cs = entry_cnt bs" "k < entry_cnt bs \<Longrightarrow> entry_at cs k = (if k = j then es else entry_at bs k)"
proof -
  have l: "length cs = length bs" using assms(1,3) by simp
  then show "entry_cnt cs = entry_cnt bs" by (simp add: entry_cnt_def)
  assume k: "k < entry_cnt bs"
  then have kb: "20 * k + 20 \<le> length bs" by (simp add: whole_entry)
  consider "k < j" | "k = j" | "j < k" by linarith
  then show "entry_at cs k = (if k = j then es else entry_at bs k)"
  proof cases
    case 1
    then have "20 * k + 20 \<le> 20 * j" by simp
    then have "take 20 (drop (20 * k) (take (20 * j) bs)) = take 20 (drop (20 * k) bs)" by (simp add: drop_take min_def)
    moreover have "length (drop (20 * k) (take (20 * j) bs)) \<ge> 20" using \<open>20 * k + 20 \<le> 20 * j\<close> assms(3) by simp
    moreover have "20 * k \<le> length (take (20 * j) bs)" using \<open>20 * k + 20 \<le> 20 * j\<close> assms(3) by simp
    ultimately show ?thesis using 1 by (simp add: assms(1) entry_at_def)
  next
    case 2
    then show ?thesis using assms(2,3) k by (auto simp: assms(1) entry_at_def)
  next
    case 3
    then have "length es = 20" "20 * j + 20 \<le> 20 * k" using k assms(2) by auto
    then show ?thesis using 3 assms(3) by (simp add: assms(1) entry_at_def)
  qed
qed

lemma fill_entry_fields:
  assumes "length name \<le> NAME_MAX" "0 \<notin> set name" "length e = 20"
  shows "length (fill_entry sector name e) = 20" "entry_in_use (fill_entry sector name e)" "entry_sector (fill_entry sector name e) = sector"
    "0 \<notin> set nm \<Longrightarrow> name_matches nm (fill_entry sector name e) \<longleftrightarrow> nm = name"
proof -
  show "length (fill_entry sector name e) = 20" "entry_in_use (fill_entry sector name e)" "entry_sector (fill_entry sector name e) = sector"
    using assms(1,3) by (simp_all add: fill_entry_def NAME_MAX_def entry_in_use_def entry_sector_def nth_append)
  assume nm: "0 \<notin> set nm"
  obtain r where r: "drop 4 (fill_entry sector name e) = name @ 0 # r" by (simp add: fill_entry_def)
  have "nm = name" if "take (length nm + 1) (name @ 0 # r) = nm @ [0]"
  proof -
    have "name @ 0 # r = nm @ 0 # drop (length nm + 1) (name @ 0 # r)"
      using append_take_drop_id[of "length nm + 1" "name @ 0 # r", unfolded that] by simp
    then have "takeWhile (\<lambda>b. b \<noteq> 0) (name @ 0 # r) = takeWhile (\<lambda>b. b \<noteq> 0) (nm @ 0 # drop (length nm + 1) (name @ 0 # r))" by simp
    moreover have "takeWhile (\<lambda>b. b \<noteq> 0) (x @ 0 # y) = x" if "0 \<notin> set x" for x y :: "u8 list"
      using that by (induction x) auto
    ultimately show ?thesis using nm assms(2) by simp
  qed
  then show "name_matches nm (fill_entry sector name e) \<longleftrightarrow> nm = name" unfolding name_matches_def r by auto
qed

lemma dir_map_None: "0 \<notin> set name \<Longrightarrow> dir_map bs name = None \<longleftrightarrow> (\<forall>j < entry_cnt bs. \<not> is_entry name (entry_at bs j))"
  by (auto simp: dir_map_def find_entry_None)

lemma dir_map_cong:
  assumes "entry_cnt cs = entry_cnt bs" "\<And>j. j < entry_cnt bs \<Longrightarrow> is_entry name (entry_at cs j) = is_entry name (entry_at bs j)"
    "\<And>j. j < entry_cnt bs \<Longrightarrow> is_entry name (entry_at bs j) \<Longrightarrow> entry_sector (entry_at cs j) = entry_sector (entry_at bs j)"
  shows "dir_map cs name = dir_map bs name"
proof -
  have "find_entry (is_entry name) cs 0 = find_entry (is_entry name) bs 0" by (rule find_entry_cong[OF assms(1)]) (rule assms(2))
  then show ?thesis using assms(3) find_entry_Some[of "is_entry name" bs 0]
    by (cases "find_entry (is_entry name) bs 0") (auto simp: dir_map_def)
qed

lemma dir_map_put:
  assumes n: "length name \<le> NAME_MAX" "0 \<notin> set name" "length e = 20" and none: "dir_map bs name = None"
    and j: "j < entry_cnt bs" "\<not> entry_in_use (entry_at bs j)"
    and cs: "entry_cnt cs = entry_cnt bs" "\<And>k. k < entry_cnt bs \<Longrightarrow> entry_at cs k = (if k = j then fill_entry sector name e else entry_at bs k)"
  shows "dir_map cs = (dir_map bs)(name \<mapsto> sector)"
proof
  fix nm
  note f = fill_entry_fields[OF n]
  show "dir_map cs nm = ((dir_map bs)(name \<mapsto> sector)) nm"
  proof (cases "nm = name")
    case True
    have one: "is_entry name (entry_at cs k) \<longleftrightarrow> k = j" if "k < entry_cnt bs" for k
      using that cs(2)[OF that] f n(2) none j by (auto simp: is_entry_def dir_map_None)
    then have "\<forall>k. 0 \<le> k \<longrightarrow> k < entry_cnt cs \<longrightarrow> is_entry name (entry_at cs k) \<longrightarrow> k = j" using cs(1) by simp
    moreover have "find_entry (is_entry name) cs 0 \<noteq> None" using one[OF j(1)] j(1) cs(1) by (auto simp: find_entry_None)
    ultimately have "find_entry (is_entry name) cs 0 = Some j" using find_entry_Some[of "is_entry name" cs 0] by fastforce
    then show ?thesis using True n(2) cs(2)[OF j(1)] f(3) by (simp add: dir_map_def)
  next
    case False
    show ?thesis
    proof (cases "0 \<in> set nm")
      case no0: False
      have "dir_map cs nm = dir_map bs nm"
        by (rule dir_map_cong[OF cs(1)]) (use cs(2) f(4)[OF no0] False j(2) in \<open>auto simp: is_entry_def\<close>)
      then show ?thesis using False by simp
    qed (use False in \<open>simp add: dir_map_def\<close>)
  qed
qed

section \<open>Looking up and adding\<close>

lemma lookup_eq:
  assumes "disk_ok s" "inodes s (d_inode d) = Some i" "fits (dsize s) (data i)" "oom s = []"
  obtains s' where "lookup d name s = Some (map_option (\<lambda>j. (entry_at (fbytes (secs s) (data i)) j, 20 * j))
      (find_entry (is_entry name) (fbytes (secs s) (data i)) 0), s')" "sync s (secs s) s'"
  using lookup_loop_eq[OF assms, of name 0] that by (auto simp: lookup_def)

lemma write_entry:
  assumes "disk_ok s" "inodes s p = Some i" "fits (dsize s) (data i)" "oom s = []" "deny_write_cnt i = 0" "length es = 20"
    "j \<le> entry_cnt (fbytes (secs s) (data i))"
  obtains s' f' where "inode_write_at p es (int sizeof_entry) (int (20 * j)) s =
      Some (int (if j < entry_cnt (fbytes (secs s) (data i)) then 20 else length (fbytes (secs s) (data i)) - 20 * j), s')" "sync s f' s'"
    "\<forall>x. unat x \<notin> data_secs (data i) \<longrightarrow> f' x = secs s x"
    "entry_cnt (fbytes f' (data i)) = entry_cnt (fbytes (secs s) (data i))"
    "\<And>k. k < entry_cnt (fbytes (secs s) (data i)) \<Longrightarrow> entry_at (fbytes f' (data i)) k = (if k = j then es else entry_at (fbytes (secs s) (data i)) k)"
proof -
  let ?B = "fbytes (secs s) (data i)" and ?L = "nat (file_length (data i))"
  obtain n s' f' where w: "inode_write_at p es (int 20) (int (20 * j)) s = Some (int n, s')" "sync s f' s'"
    "wrote (secs s) (data i) (20 * j) (take n es) f'" "n = min 20 (?L - 20 * j)"
    using write_at_eq[OF assms(1-3,5) eq_imp_le[OF assms(6)[symmetric]], of "20 * j"] assms(4) by metis
  have L: "length ?B = ?L" by simp
  have n: "n = (if j < entry_cnt ?B then 20 else length ?B - 20 * j)" "20 * j + n \<le> ?L" "n < 20 \<or> j < entry_cnt ?B"
    using w(4) assms(7) whole_entry[of j ?B] whole_entry[of "j - 1" ?B] unfolding L by (auto simp: min_def)
  have len: "length (take n es) = n" using w(4) assms(6) by simp
  have "fbytes f' (data i) = take (20 * j) ?B @ take n es @ drop (20 * j + length (take n es)) ?B"
    by (rule wrote_fbytes[OF w(3)]) (use n len in simp)
  note put = put_entry[OF this]
  have c: "length (take n es) = 20 \<and> j < entry_cnt ?B \<or> length (take n es) < 20 \<and> j = entry_cnt ?B"
    using n(1,3) assms(7) unfolding len by auto
  have b: "20 * j + length (take n es) \<le> length ?B" using n(2) unfolding len L .
  show thesis
  proof (rule that[OF _ w(2)])
    show "inode_write_at p es (int sizeof_entry) (int (20 * j)) s = Some (int (if j < entry_cnt ?B then 20 else length ?B - 20 * j), s')"
      using w(1) unfolding n(1)[symmetric] by (simp add: sizeof_entry_def)
    show "\<forall>x. unat x \<notin> data_secs (data i) \<longrightarrow> f' x = secs s x" using wrote_inside[OF w(3)] by blast
    show "entry_cnt (fbytes f' (data i)) = entry_cnt ?B" by (rule put(1)[OF c b])
    fix k assume k: "k < entry_cnt ?B"
    show "entry_at (fbytes f' (data i)) k = (if k = j then es else entry_at ?B k)"
      using put(2)[OF c b k] k c assms(6) by auto
  qed
qed

lemma dir_add_eq:
  assumes "disk_ok s" "inodes s (d_inode d) = Some i" "fits (dsize s) (data i)" "oom s = []" "0 \<notin> set name" "length e = 20"
  shows "\<exists>ok s'. dir_add e d name sector s = Some (ok, s') \<and>
    (ok \<longleftrightarrow> deny_write_cnt i = 0 \<and> name \<noteq> [] \<and> length name \<le> NAME_MAX \<and> dir_map (fbytes (secs s) (data i)) name = None \<and>
       (\<exists>j < entry_cnt (fbytes (secs s) (data i)). \<not> entry_in_use (entry_at (fbytes (secs s) (data i)) j))) \<and>
    dir_map (fbytes (secs s') (data i)) =
      (if ok then (dir_map (fbytes (secs s) (data i)))(name \<mapsto> sector) else dir_map (fbytes (secs s) (data i))) \<and>
    (\<forall>x. unat x \<notin> data_secs (data i) \<longrightarrow> secs s' x = secs s x)"
proof -
  define B where "B = fbytes (secs s) (data i)"
  obtain s1 where l: "lookup d name s = Some (map_option (\<lambda>j. (entry_at B j, 20 * j)) (find_entry (is_entry name) B 0), s1)"
    "sync s (secs s) s1" using lookup_eq[OF assms(1-4)] unfolding B_def by metis
  have s1: "disk_ok s1" "inodes s1 (d_inode d) = Some i" "fits (dsize s1) (data i)" "oom s1 = []" "secs s1 = secs s"
    using l(2) assms(1-4) by (simp_all add: sync_def)
  consider "name = [] \<or> NAME_MAX < length name" | "name \<noteq> []" "length name \<le> NAME_MAX" "dir_map B name \<noteq> None"
    | "name \<noteq> []" "length name \<le> NAME_MAX" "dir_map B name = None" by linarith
  then have "\<exists>ok s'. dir_add e d name sector s = Some (ok, s') \<and>
      (ok \<longleftrightarrow> deny_write_cnt i = 0 \<and> name \<noteq> [] \<and> length name \<le> NAME_MAX \<and> dir_map B name = None \<and> (\<exists>j < entry_cnt B. \<not> entry_in_use (entry_at B j))) \<and>
      dir_map (fbytes (secs s') (data i)) = (if ok then (dir_map B)(name \<mapsto> sector) else dir_map B) \<and>
      (\<forall>x. unat x \<notin> data_secs (data i) \<longrightarrow> secs s' x = secs s x)"
  proof cases
    case 1
    then show ?thesis by (auto simp: dir_add_def B_def)
  next
    case 2
    then have "dir_add e d name sector s = Some (False, s1)" using l(1) assms(5) by (auto simp: dir_add_def dir_map_def)
    then show ?thesis using 2 s1(5) by (auto simp: B_def)
  next
    case 3
    define j where "j = (case find_entry (\<lambda>e. \<not> entry_in_use e) B 0 of Some j \<Rightarrow> j | None \<Rightarrow> entry_cnt B)"
    obtain e' s2 where f: "free_slot_loop (d_inode d) e 0 s1 = Some (e', 20 * j, s2)" "length e' = 20" "sync s1 (secs s1) s2"
      using free_slot_loop_eq[OF s1(1-4) assms(6), of 0] unfolding s1(5) B_def[symmetric] j_def by auto
    have s2: "disk_ok s2" "inodes s2 (d_inode d) = Some i" "fits (dsize s2) (data i)" "oom s2 = []" "secs s2 = secs s"
      using f(3) s1 by (simp_all add: sync_def)
    have j: "j \<le> entry_cnt B" "j < entry_cnt B \<longleftrightarrow> (\<exists>j < entry_cnt B. \<not> entry_in_use (entry_at B j))"
      "j < entry_cnt B \<Longrightarrow> \<not> entry_in_use (entry_at B j)"
      using find_entry_Some[of "\<lambda>e. \<not> entry_in_use e" B 0] find_entry_None[of "\<lambda>e. \<not> entry_in_use e" B 0]
      by (cases "find_entry (\<lambda>e. \<not> entry_in_use e) B 0"; force simp: j_def)+
    have none: "find_entry (is_entry name) B 0 = None" using 3(3) assms(5) by (simp add: dir_map_def)
    show ?thesis
    proof (cases "deny_write_cnt i = 0")
      case False
      then have "dir_add e d name sector s = Some (False, s2)"
        using 3(1,2) l(1) none f(1) s2(2) by (simp add: dir_add_def inode_write_at_def sizeof_entry_def)
      then show ?thesis using False s2(5) by (auto simp: B_def)
    next
      case writable: True
      note fe = fill_entry_fields[OF 3(2) assms(5) f(2)]
      obtain s3 f' where w: "inode_write_at (d_inode d) (fill_entry sector name e') (int sizeof_entry) (int (20 * j)) s2 =
          Some (int (if j < entry_cnt B then 20 else length B - 20 * j), s3)" "sync s2 f' s3"
        "\<forall>x. unat x \<notin> data_secs (data i) \<longrightarrow> f' x = secs s x" "entry_cnt (fbytes f' (data i)) = entry_cnt B"
        "\<And>k. k < entry_cnt B \<Longrightarrow> entry_at (fbytes f' (data i)) k = (if k = j then fill_entry sector name e' else entry_at B k)"
        using write_entry[OF s2(1-4) writable fe(1), of j] j(1) unfolding s2(5) B_def by blast
      have f': "secs s3 = f'" using w(2) by (simp add: sync_def)
      have add: "dir_add e d name sector s = Some (int (if j < entry_cnt B then 20 else length B - 20 * j) = int sizeof_entry, s3)"
        using 3(1,2) l(1) none f(1) w(1) by (simp add: dir_add_def)
      show ?thesis
      proof (cases "j < entry_cnt B")
        case True
        have "dir_map (fbytes f' (data i)) = (dir_map B)(name \<mapsto> sector)"
          by (rule dir_map_put[OF 3(2) assms(5) f(2) 3(3) True j(3)[OF True] w(4,5)])
        then show ?thesis using add True writable 3 j(2) w(3) f' by (simp add: sizeof_entry_def) blast
    next
        case False
        have "dir_map (fbytes f' (data i)) nm = dir_map B nm" for nm
          by (rule dir_map_cong[OF w(4)]) (use w(5) False in auto)
        then have "dir_map (fbytes f' (data i)) = dir_map B" by blast
        moreover have "length B - 20 * j < 20" using False j(1) whole_entry[of j B] by simp
        ultimately show ?thesis using add False 3 j(2) w(3) f' by (auto simp: sizeof_entry_def)
      qed
    qed
  qed
  then show ?thesis unfolding B_def by blast
qed

text \<open>Whatever memory there is, adding changes sectors of the directory only.\<close>

lemma dir_add_frame:
  assumes "disk_ok s" "inodes s (d_inode d) = Some i" "fits (dsize s) (data i)" "0 \<notin> set name" "length e = 20"
  shows "\<exists>ok s'. dir_add e d name sector s = Some (ok, s') \<and> (\<forall>x. unat x \<notin> data_secs (data i) \<longrightarrow> secs s' x = secs s x)"
proof (cases "name = [] \<or> NAME_MAX < length name")
  case True
  then show ?thesis by (auto simp: dir_add_def)
next
  case False
  obtain r s1 where l: "lookup d name s = Some (r, s1)" "sync s (secs s) s1"
    using lookup_loop_sound[OF assms(1-3), of name 0] unfolding lookup_def by auto
  have s1: "disk_ok s1" "inodes s1 (d_inode d) = Some i" "fits (dsize s1) (data i)" "secs s1 = secs s"
    using l(2) assms(1-3) by (simp_all add: sync_def)
  obtain e' j s2 where f: "free_slot_loop (d_inode d) e 0 s1 = Some (e', 20 * j, s2)" "length e' = 20" "sync s1 (secs s1) s2"
    using free_slot_loop_ends[OF s1(1-3) assms(5), of 0] by auto
  have s2: "disk_ok s2" "inodes s2 (d_inode d) = Some i" "fits (dsize s2) (data i)" "secs s2 = secs s"
    using f(3) s1 by (simp_all add: sync_def)
  have "length (fill_entry sector name e') = 20" using fill_entry_fields(1)[OF _ assms(4) f(2)] False by simp
  then have sz: "20 \<le> length (fill_entry sector name e')" by simp
  obtain n s3 where w: "inode_write_at (d_inode d) (fill_entry sector name e') (int 20) (int (20 * j)) s2 = Some (n, s3)"
    "\<forall>x. unat x \<notin> data_secs (data i) \<longrightarrow> secs s3 x = secs s2 x"
    using inode_write_frame[OF s2(1-3) sz] by blast
  show ?thesis
  proof (cases "r = None")
    case True
    then have "dir_add e d name sector s = Some (n = int sizeof_entry, s3)" using False l(1) f(1) w(1) by (simp add: dir_add_def sizeof_entry_def)
    then show ?thesis using w(2) s2(4) by auto
  next
    case False
    then have "dir_add e d name sector s = Some (False, s1)" using \<open>\<not> (name = [] \<or> NAME_MAX < length name)\<close> l(1) by (auto simp: dir_add_def)
    then show ?thesis using s1(4) by auto
  qed
qed

text \<open>C26. A directory is a map from names to sectors. While memory for the bounce buffers of its reads and writes lasts, looking a name up is applying the map, and adding
  a name succeeds exactly when it is not empty, has at most 14 characters, is not there yet, the directory has a free slot and its inode is not denied writes; then the map has
  exactly the new pair more, and otherwise it is unchanged. When memory runs out, a lookup still gives nothing but what the map has, though it may miss a name.
  In any case neither panics, and only sectors of the directory change.\<close>

theorem directory_refines_map:
  assumes "disk_ok s" "inodes s (d_inode d) = Some i" "fits (dsize s) (data i)" "0 \<notin> set name" "length e = 20"
  shows "(\<exists>r s'. lookup d name s = Some (r, s') \<and> secs s' = secs s \<and>
      (oom s = [] \<longrightarrow> map_option (\<lambda>(e, _). entry_sector e) r = dir_map (fbytes (secs s) (data i)) name) \<and>
      (r \<noteq> None \<longrightarrow> map_option (\<lambda>(e, _). entry_sector e) r = dir_map (fbytes (secs s) (data i)) name)) \<and>
    (\<exists>ok s'. dir_add e d name sector s = Some (ok, s') \<and>
      (oom s = [] \<longrightarrow>
        (ok \<longleftrightarrow> deny_write_cnt i = 0 \<and> name \<noteq> [] \<and> length name \<le> NAME_MAX \<and> dir_map (fbytes (secs s) (data i)) name = None \<and>
           (\<exists>j < entry_cnt (fbytes (secs s) (data i)). \<not> entry_in_use (entry_at (fbytes (secs s) (data i)) j))) \<and>
        dir_map (fbytes (secs s') (data i)) =
          (if ok then (dir_map (fbytes (secs s) (data i)))(name \<mapsto> sector) else dir_map (fbytes (secs s) (data i)))) \<and>
      (\<forall>x. unat x \<notin> data_secs (data i) \<longrightarrow> secs s' x = secs s x))"
proof (intro conjI)
  define B where "B = fbytes (secs s) (data i)"
  have m: "map_option (\<lambda>(e, _). entry_sector e) (map_option (\<lambda>j. (entry_at B j, 20 * j)) (find_entry (is_entry name) B 0)) = dir_map B name"
    using assms(4) by (simp add: dir_map_def option.map_comp comp_def)
  obtain r s1 where l: "lookup d name s = Some (r, s1)" "sync s (secs s) s1"
    "r = None \<or> r = map_option (\<lambda>j. (entry_at B j, 20 * j)) (find_entry (is_entry name) B 0)"
    using lookup_loop_sound[OF assms(1-3), of name 0] unfolding lookup_def B_def by auto
  have "map_option (\<lambda>(e, _). entry_sector e) r = dir_map B name" if no: "oom s = []"
  proof -
    obtain s2 where "lookup d name s = Some (map_option (\<lambda>j. (entry_at B j, 20 * j)) (find_entry (is_entry name) B 0), s2)"
      using lookup_eq[OF assms(1-3) no, of name] unfolding B_def by metis
    then have "r = map_option (\<lambda>j. (entry_at B j, 20 * j)) (find_entry (is_entry name) B 0)" using l(1) by simp
    then show ?thesis using m by simp
  qed
  moreover have "map_option (\<lambda>(e, _). entry_sector e) r = dir_map B name" if "r \<noteq> None" using l(3) m that by metis
  moreover have "secs s1 = secs s" using l(2) by (simp add: sync_def)
  ultimately show "\<exists>r s'. lookup d name s = Some (r, s') \<and> secs s' = secs s \<and>
      (oom s = [] \<longrightarrow> map_option (\<lambda>(e, _). entry_sector e) r = dir_map (fbytes (secs s) (data i)) name) \<and>
      (r \<noteq> None \<longrightarrow> map_option (\<lambda>(e, _). entry_sector e) r = dir_map (fbytes (secs s) (data i)) name)"
    using l(1) unfolding B_def by blast
next
  show "\<exists>ok s'. dir_add e d name sector s = Some (ok, s') \<and>
      (oom s = [] \<longrightarrow>
        (ok \<longleftrightarrow> deny_write_cnt i = 0 \<and> name \<noteq> [] \<and> length name \<le> NAME_MAX \<and> dir_map (fbytes (secs s) (data i)) name = None \<and>
           (\<exists>j < entry_cnt (fbytes (secs s) (data i)). \<not> entry_in_use (entry_at (fbytes (secs s) (data i)) j))) \<and>
        dir_map (fbytes (secs s') (data i)) =
          (if ok then (dir_map (fbytes (secs s) (data i)))(name \<mapsto> sector) else dir_map (fbytes (secs s) (data i)))) \<and>
      (\<forall>x. unat x \<notin> data_secs (data i) \<longrightarrow> secs s' x = secs s x)"
  proof (cases "oom s = []")
    case True
    then show ?thesis using dir_add_eq[OF assms(1-3) True assms(4,5), of sector] by blast
  next
    case False
    then show ?thesis using dir_add_frame[OF assms(1-3,4,5), of sector] by blast
  qed
qed

text \<open>When there is no memory for the first bounce buffer, a lookup finds nothing, whatever the directory holds; \<^verbatim>\<open>dir_add\<close> then adds a name that is there already. The comment in
  \<^verbatim>\<open>dir_add\<close> says that a read is only short at the end of the file.\<close>

lemma lookup_without_memory:
  assumes "inodes s (d_inode d) = Some i" "fits (dsize s) (data i)" "0 < file_length (data i)" "oom s = True # rest"
  shows "lookup d name s = Some (None, s\<lparr>oom := rest\<rparr>)"
proof -
  have c: "chunk_size i (int 20) (int 0) = int (chunk (data i) 20 0)" using assms(2,3) by (intro chunk_size_nat) (simp_all add: fits_def)
  have "0 < chunk (data i) 20 0" "chunk (data i) 20 0 \<le> 20" using chunk_bounds[of 0 "data i" 20] assms(3) by simp_all
  then have "inode_read_at (d_inode d) (int sizeof_entry) 0 s = Some ([], s\<lparr>oom := rest\<rparr>)"
    using assms(1,4) c unfolding inode_read_at_def
    by (subst inode_read_loop.simps) (simp add: sizeof_entry_def kmalloc_def BLOCK_SECTOR_SIZE_def Let_def)
  then show ?thesis unfolding lookup_def by (subst lookup_loop.simps) (simp add: sizeof_entry_def)
qed

text \<open>A directory of two entries in sector 9, on the disk of the samples: it has the bytes of zeros.\<close>

definition dir_node :: inode where
  "dir_node = \<lparr>inode_sector = 1, open_cnt = 1, removed = False, deny_write_cnt = 0,
     data = \<lparr>start_sector = 9, file_length = 40, inode_magic = INODE_MAGIC\<rparr>\<rparr>"

definition sample_dir :: filesys where "sample_dir = sample_fs\<lparr>inodes := [8 \<mapsto> dir_node]\<rparr>"

lemma sample_dir_ok: "disk_ok sample_dir" "dsize sample_dir = 16" "fits 16 (data dir_node)" "secs sample_dir = (\<lambda>_. replicate 512 0)"
proof -
  show "disk_ok sample_dir" "dsize sample_dir = 16" using sample_disk_ok by (simp_all add: sample_dir_def)
  show "fits 16 (data dir_node)" by (simp add: dir_node_def fits_def nsec_def)
  show "secs sample_dir = (\<lambda>_. replicate 512 0)" by (simp add: sample_dir_def sample_fs_def sample_disk_def secs_def disk_of_def)
qed

lemma sample_dir_bytes: "fbytes (secs sample_dir) (data dir_node) = replicate 40 0"
  by (rule nth_equalityI) (simp_all add: sample_dir_ok(4) dir_node_def fbytes_def fbyte_def)

theorem directory_refines_map_witness:
  "\<exists>s'. dir_add (replicate 20 0) \<lparr>d_inode = 8, d_pos = 0\<rparr> [104, 105] 12 sample_dir = Some (True, s') \<and>
    dir_map (fbytes (secs s') (data dir_node)) [104, 105] = Some 12"
proof -
  have i: "inodes sample_dir 8 = Some dir_node" "oom sample_dir = []" "deny_write_cnt dir_node = 0" "fits (dsize sample_dir) (data dir_node)"
    using sample_dir_ok by (simp_all add: sample_dir_def dir_node_def sample_fs_def)
  have z: "\<not> entry_in_use (entry_at (replicate 40 0) j)" if "j < 2" for j
    using that by (simp add: entry_at_def entry_in_use_def numeral_2_eq_2 less_Suc_eq) (auto)
  then have "dir_map (replicate 40 0) [104, 105] = None" by (simp add: dir_map_None is_entry_def entry_cnt_def)
  moreover have "entry_cnt (replicate 40 (0 :: u8)) = 2" by (simp add: entry_cnt_def)
  moreover have "\<exists>j < 2. \<not> entry_in_use (entry_at (replicate 40 0) j)" using z[of 0] by (intro exI[of _ 0]) simp
  ultimately show ?thesis
    using directory_refines_map[OF sample_dir_ok(1), of "\<lparr>d_inode = 8, d_pos = 0\<rparr>" dir_node "[104, 105]" "replicate 20 0" 12] i
    unfolding sample_dir_bytes by (auto simp: NAME_MAX_def)
qed

end
