(* ===== verification/Open_By_Name.thy ===== *)
theory Open_By_Name
  imports Dir_Spec Open_Files
begin

unbundle bit_operations_syntax

text \<open>
  Opening a file by its name (\<^verbatim>\<open>filesys_open\<close>): the root directory is opened and closed, and the inode its entry names is opened, with every count of openers right.
\<close>

section \<open>The root directory\<close>

definition root_bytes :: "filesys \<Rightarrow> u8 list" where "root_bytes s = fbytes (secs s) (decode_inode (secs s ROOT_DIR_SECTOR))"

text \<open>The root directory is on the disk and not open, and the entry for the name, if there is one, names an inode of another file.\<close>

definition root_ok :: "u8 list \<Rightarrow> filesys \<Rightarrow> bool" where
  "root_ok name s \<longleftrightarrow> ROOT_DIR_SECTOR < dsize s \<and> fits (dsize s) (decode_inode (secs s ROOT_DIR_SECTOR)) \<and>
     (\<forall>p i. inodes s p = Some i \<longrightarrow> inode_sector i \<noteq> ROOT_DIR_SECTOR) \<and>
     (\<forall>sector. dir_map (root_bytes s) name = Some sector \<longrightarrow>
        sector \<noteq> ROOT_DIR_SECTOR \<and> sector < dsize s \<and> fits (dsize s) (decode_inode (secs s sector)))"

lemma table_None: "table_ok n ino ops nx r d \<Longrightarrow> ino p = None \<Longrightarrow> r p = 0"
  using table_open[of n ino ops nx r d p] by fastforce

text \<open>Closing the only opener of an inode that is not removed.\<close>

lemma close_only:
  assumes c: "counts_ok s (r(p := 1)) d" and r: "r p = 0" "d p = 0" and i: "inodes s p = Some i" "\<not> removed i"
  obtains s' where "inode_close p s = Some s'" "counts_ok s' r d" "dsize s' = dsize s" "secs s' = secs s" "oom s' = oom s" "inodes s' = (inodes s)(p := None)"
proof -
  have e: "(r(p := 1))(p := (r(p := 1)) p - 1) = r" using r(1) by auto
  have pre: "0 < (r(p := 1)) p" "d p \<le> (r(p := 1)) p - 1" using r(2) by simp_all
  from inode_close_ok[OF c pre i(1)] i(2) obtain s' where s': "inode_close p s = Some s'" "counts_ok s' ((r(p := 1))(p := (r(p := 1)) p - 1)) d" "dsize s' = dsize s"
    "inodes s' = (inodes s)(p := if (r(p := 1)) p = 1 then None else Some (open_cnt_update (\<lambda>n. n - 1) i))" "secs s' = secs s" "oom s' = oom s"
    by blast
  show thesis by (rule that[OF s'(1) s'(2)[unfolded e] s'(3,5,6)]) (use s'(4) in simp)
qed

section \<open>Opening a file by its name\<close>

text \<open>Whatever memory there is, no step panics and the counters stay right: an inode that is opened may be missing (address 0), and an object that cannot be
  allocated gives its inode back.\<close>

lemma open_inode_any:
  assumes c: "counts_ok s r d" and sec: "sector < dsize s" "fits (dsize s) (decode_inode (secs s sector))"
  obtains (none) s' where "inode_open sector s = Some (0, s')" "oom s \<noteq> []" "counts_ok s' r d" "dsize s' = dsize s" "secs s' = secs s"
      "\<forall>q. q \<noteq> 0 \<longrightarrow> inodes s' q = inodes s q"
    | (inode) p s' i where "inode_open sector s = Some (p, s')" "p \<noteq> 0" "counts_ok s' (r(p := Suc (r p))) d" "dsize s' = dsize s" "secs s' = secs s"
      "oom s = [] \<longrightarrow> oom s' = []" "inodes s' p = Some i" "inode_sector i = sector" "r p = 0 \<longrightarrow> \<not> removed i \<and> data i = decode_inode (secs s sector)"
      "\<forall>j. inodes s p = Some j \<longrightarrow> inode_sector j = sector \<and> data i = data j \<and> removed i = removed j" "\<forall>q. q \<noteq> p \<longrightarrow> inodes s' q = inodes s q"
proof -
  from inode_open_ok[OF c sec] show thesis
  proof (elim exE conjE)
    fix p s' assume o1: "inode_open sector s = Some (p, s')" "dsize s' = dsize s" "secs s' = secs s" "\<forall>q. q \<noteq> p \<longrightarrow> inodes s' q = inodes s q"
      and o2: "oom s = [] \<longrightarrow> oom s' = [] \<and> p \<noteq> 0"
      and alt: "p = 0 \<and> counts_ok s' r d \<or> p \<noteq> 0 \<and> counts_ok s' (r(p := Suc (r p))) d \<and>
       (\<exists>i. inodes s' p = Some i \<and> inode_sector i = sector \<and> (r p = 0 \<longrightarrow> \<not> removed i \<and> data i = decode_inode (secs s sector)) \<and>
         (\<forall>j. inodes s p = Some j \<longrightarrow> inode_sector j = sector \<and> data i = data j \<and> removed i = removed j))"
    from alt show thesis
    proof (elim disjE conjE exE)
      assume "p = 0" "counts_ok s' r d"
      then show thesis using none[of s'] o1 o2 by simp
    next
      fix i assume i: "p \<noteq> 0" "counts_ok s' (r(p := Suc (r p))) d" "inodes s' p = Some i" "inode_sector i = sector"
        "r p = 0 \<longrightarrow> \<not> removed i \<and> data i = decode_inode (secs s sector)"
        "\<forall>j. inodes s p = Some j \<longrightarrow> inode_sector j = sector \<and> data i = data j \<and> removed i = removed j"
      have o3: "oom s = [] \<longrightarrow> oom s' = []" using o2 by simp
      show thesis by (rule inode[OF o1(1) i(1,2) o1(2,3) o3 i(3-6) o1(4)])
    qed
  qed
qed

text \<open>The same for the root directory, which is not open: the object for it is there, or its inode is closed again.\<close>

lemma open_root_any:
  assumes f: "files_ok fs s" and root: "root_ok name s"
  obtains (absent) s' where "dir_open_root s = Some (None, s')" "oom s \<noteq> []" "files_ok fs s'" "dsize s' = dsize s" "secs s' = secs s"
    | (present) p s' i where "dir_open_root s = Some (Some \<lparr>d_inode = p, d_pos = 0\<rparr>, s')" "p \<noteq> 0" "refs fs p = 0" "counts_ok s' ((refs fs)(p := 1)) (denials fs)"
      "dsize s' = dsize s" "secs s' = secs s" "oom s = [] \<longrightarrow> oom s' = []" "inodes s' p = Some i" "\<not> removed i"
      "data i = decode_inode (secs s ROOT_DIR_SECTOR)" "inode_sector i = ROOT_DIR_SECTOR" "\<forall>q. q \<noteq> p \<longrightarrow> inodes s' q = inodes s q"
proof -
  have c: "counts_ok s (refs fs) (denials fs)" and pos: "\<forall>f \<in> set fs. 0 \<le> f_pos f" using f by (simp_all add: files_ok_def)
  then have tab: "table_ok (dsize s) (inodes s) (open_inodes s) (next_iptr s) (refs fs) (denials fs)" by (simp add: counts_ok_def)
  have r: "ROOT_DIR_SECTOR < dsize s" "fits (dsize s) (decode_inode (secs s ROOT_DIR_SECTOR))" "\<forall>p i. inodes s p = Some i \<longrightarrow> inode_sector i \<noteq> ROOT_DIR_SECTOR"
    using root unfolding root_ok_def by blast+
  show thesis
  proof (cases rule: open_inode_any[OF c r(1,2)])
    case (1 s1)
    obtain ok s2 where k: "kmalloc s1 = (ok, s2)" by (cases "kmalloc s1")
    have dk: "disk_ok s1" using 1(3) by (simp add: counts_ok_def)
    have s2: "sync s1 (secs s1) s2" using kmalloc_sync[OF dk k] .
    have "dir_open_root s = Some (None, s2)" using 1(1) k by (simp add: dir_open_root_def dir_open_def inode_close_def)
    then show thesis using absent[of s2] 1(2,4,5) counts_sync[OF 1(3) s2] s2 pos by (simp add: files_ok_def sync_def)
  next
    case (2 p s1 i)
    have "inodes s p = None" using 2(10) r(3) by (cases "inodes s p") auto
    then have z: "refs fs p = 0" by (rule table_None[OF tab])
    have i: "\<not> removed i" "data i = decode_inode (secs s ROOT_DIR_SECTOR)" using 2(9) z by simp_all
    obtain ok s2 where k: "kmalloc s1 = (ok, s2)" by (cases "kmalloc s1")
    have dk: "disk_ok s1" using 2(3) by (simp add: counts_ok_def)
    have s2: "sync s1 (secs s1) s2" using kmalloc_sync[OF dk k] .
    have c2: "counts_ok s2 ((refs fs)(p := 1)) (denials fs)" using counts_sync[OF 2(3) s2] z by simp
    have e2: "inodes s2 = inodes s1" "dsize s2 = dsize s" "secs s2 = secs s" "oom s = [] \<longrightarrow> oom s2 = []" using s2 2(4-6) by (simp_all add: sync_def)
    have dn: "denials fs p = 0" using denials_le[of fs p] z by simp
    show thesis
    proof (cases ok)
      case True
      have "dir_open_root s = Some (Some \<lparr>d_inode = p, d_pos = 0\<rparr>, s2)" using 2(1,2) k True by (simp add: dir_open_root_def dir_open_def)
      then show thesis using present[of p s2 i] z c2 e2 2(2,7,8,11) i by simp
    next
      case False
      have ne: "oom s \<noteq> []"
      proof
        assume "oom s = []"
        then have "kmalloc s1 = (True, s1)" using 2(6) by (simp add: kmalloc_ok)
        then show False using k False by simp
      qed
      have i2: "inodes s2 p = Some i" using 2(7) e2(1) by simp
      obtain s3 where s3: "inode_close p s2 = Some s3" "counts_ok s3 (refs fs) (denials fs)" "dsize s3 = dsize s2" "secs s3 = secs s2"
        using close_only[OF c2 z dn i2 i(1)] by metis
      have "dir_open_root s = Some (None, s3)" using 2(1,2) k False s3(1) by (simp add: dir_open_root_def dir_open_def)
      then show thesis using absent[of s3] ne s3(2-4) e2 pos by (simp add: files_ok_def)
    qed
  qed
qed

text \<open>A file object that cannot be allocated closes its inode; the inode stays for the other openers.\<close>

lemma file_open_any:
  assumes c: "counts_ok s ((refs fs)(q := Suc (refs fs q))) (denials fs)" and pos: "\<forall>f \<in> set fs. 0 \<le> f_pos f" and q: "q \<noteq> 0"
    and i: "inodes s q = Some i" and new: "refs fs q = 0 \<Longrightarrow> \<not> removed i"
  shows "\<exists>r s'. file_open q s = Some (r, s') \<and> secs s' = secs s \<and> dsize s' = dsize s \<and>
    (r = None \<and> oom s \<noteq> [] \<and> files_ok fs s' \<or>
     r = Some \<lparr>f_inode = q, f_pos = 0, f_deny = False\<rparr> \<and> files_ok (fs @ [\<lparr>f_inode = q, f_pos = 0, f_deny = False\<rparr>]) s' \<and> inodes s' q = Some i \<and>
       (oom s = [] \<longrightarrow> oom s' = []))"
proof -
  define g where "g = \<lparr>f_inode = q, f_pos = 0, f_deny = False\<rparr>"
  obtain ok s1 where k: "kmalloc s = (ok, s1)" by (cases "kmalloc s")
  have dk: "disk_ok s" using c by (simp add: counts_ok_def)
  have s1: "sync s (secs s) s1" using kmalloc_sync[OF dk k] .
  have c1: "counts_ok s1 ((refs fs)(q := Suc (refs fs q))) (denials fs)" by (rule counts_sync[OF c s1])
  show ?thesis
  proof (cases ok)
    case True
    have "refs (fs @ [g]) = (refs fs)(q := Suc (refs fs q))" "denials (fs @ [g]) = denials fs" by (auto simp: fun_eq_iff g_def)
    then have "files_ok (fs @ [g]) s1" using c1 pos by (simp add: files_ok_def g_def)
    moreover have "file_open q s = Some (Some g, s1)" using k True q by (simp add: file_open_def g_def)
    ultimately show ?thesis using s1 i unfolding g_def[symmetric] by (intro exI[of _ "Some g"] exI[of _ s1]) (simp add: sync_def)
  next
    case False
    have i1: "inodes s1 q = Some i" using s1 i by (simp add: sync_def)
    define r where "r = (refs fs)(q := Suc (refs fs q))"
    have pre: "0 < r q" "denials fs q \<le> r q - 1" "r(q := r q - 1) = refs fs" using denials_le[of fs q] by (auto simp: r_def)
    have "\<not> (r q = 1 \<and> removed i)" using new by (auto simp: r_def)
    with inode_close_ok[OF c1[folded r_def] pre(1,2) i1] obtain s2 where s2: "inode_close q s1 = Some s2" "counts_ok s2 (r(q := r q - 1)) (denials fs)"
      "dsize s2 = dsize s1" "secs s2 = secs s1" by blast
    have "oom s \<noteq> []" using k False by (auto simp: kmalloc_ok)
    moreover have "files_ok fs s2" using s2(2) pos unfolding pre(3) by (simp add: files_ok_def)
    moreover have "file_open q s = Some (None, s2)" using k False s2(1) by (simp add: file_open_def)
    ultimately show ?thesis using s2(3,4) s1 by (intro exI[of _ None] exI[of _ s2]) (simp add: sync_def)
  qed
qed

lemma dir_lookup_any:
  assumes "disk_ok s" "inodes s (d_inode d) = Some i" "fits (dsize s) (data i)" "0 \<notin> set name"
  obtains s' r where "sync s (secs s) s'" "r = None \<or> r = dir_map (fbytes (secs s) (data i)) name" "oom s = [] \<longrightarrow> r = dir_map (fbytes (secs s) (data i)) name"
    "dir_lookup d name s = (case r of None \<Rightarrow> Some (0, s') | Some sector \<Rightarrow> inode_open sector s')"
proof -
  let ?B = "fbytes (secs s) (data i)"
  let ?f = "map_option (\<lambda>j. (entry_at ?B j, 20 * j)) (find_entry (is_entry name) ?B 0)"
  obtain r s' where l: "lookup d name s = Some (r, s')" "sync s (secs s) s'" "r = None \<or> r = ?f"
    using lookup_loop_sound[OF assms(1-3), of name 0] unfolding lookup_def by auto
  have f: "r = ?f" if no: "oom s = []" using lookup_eq[OF assms(1-3) no, of name] l(1) by (metis option.inject prod.inject)
  have m: "map_option (\<lambda>(e, _). entry_sector e) ?f = dir_map ?B name" using assms(4) by (simp add: dir_map_def option.map_comp comp_def)
  show thesis
  proof (rule that[OF l(2), of "map_option (\<lambda>(e, _). entry_sector e) r"])
    show "map_option (\<lambda>(e, _). entry_sector e) r = None \<or> map_option (\<lambda>(e, _). entry_sector e) r = dir_map ?B name"
      using l(3) m by auto
    show "oom s = [] \<longrightarrow> map_option (\<lambda>(e, _). entry_sector e) r = dir_map ?B name" using f m by simp
    show "dir_lookup d name s = (case map_option (\<lambda>(e, _). entry_sector e) r of None \<Rightarrow> Some (0, s') | Some sector \<Rightarrow> inode_open sector s')"
      using l(1) by (cases r) (auto simp: dir_lookup_def)
  qed
qed

lemma filesys_open_any:
  assumes f: "files_ok fs s" and root: "root_ok name s" and name: "0 \<notin> set name"
  shows "\<exists>r s'. filesys_open name s = Some (r, s') \<and> secs s' = secs s \<and> dsize s' = dsize s \<and> (oom s = [] \<longrightarrow> oom s' = []) \<and>
    (r = None \<and> (oom s \<noteq> [] \<or> dir_map (root_bytes s) name = None) \<and> files_ok fs s' \<or>
     (\<exists>p i. r = Some \<lparr>f_inode = p, f_pos = 0, f_deny = False\<rparr> \<and> files_ok (fs @ [\<lparr>f_inode = p, f_pos = 0, f_deny = False\<rparr>]) s' \<and> inodes s' p = Some i \<and>
        dir_map (root_bytes s) name = Some (inode_sector i) \<and>
        (case inodes s p of None \<Rightarrow> \<not> removed i \<and> data i = decode_inode (secs s (inode_sector i)) | Some j \<Rightarrow>
           inode_sector j = inode_sector i \<and> data i = data j \<and> removed i = removed j)))"
proof -
  have c: "counts_ok s (refs fs) (denials fs)" and pos: "\<forall>f \<in> set fs. 0 \<le> f_pos f" using f by (simp_all add: files_ok_def)
  have tab: "table_ok (dsize s) (inodes s) (open_inodes s) (next_iptr s) (refs fs) (denials fs)" using c by (simp add: counts_ok_def)
  show ?thesis
  proof (cases rule: open_root_any[OF f root])
    case (1 s1)
    obtain ok s2 where k: "kmalloc s1 = (ok, s2)" by (cases "kmalloc s1")
    have "disk_ok s1" using 1(3) by (simp add: files_ok_def counts_ok_def)
    then have s2: "sync s1 (secs s1) s2" using kmalloc_sync k by blast
    have "filesys_open name s = Some (None, s2)" using 1(1) k by (simp add: filesys_open_def dir_close_def file_open_def inode_close_def)
    then show ?thesis using 1(2,4,5) files_sync[OF 1(3) s2] s2 by (simp add: sync_def)
  next
    case (2 p s1 i)
    note present = 2
    have dn: "denials fs p = 0" using denials_le[of fs p] present(3) by simp
    have dk: "disk_ok s1" using present(4) by (simp add: counts_ok_def)
    have fi: "fits (dsize s1) (data i)" using assms(2) unfolding root_ok_def present(5,10) by blast
    obtain s2 m where s2: "sync s1 (secs s1) s2" "m = None \<or> m = dir_map (fbytes (secs s1) (data i)) name"
      "oom s1 = [] \<longrightarrow> m = dir_map (fbytes (secs s1) (data i)) name"
      "dir_lookup \<lparr>d_inode = p, d_pos = 0\<rparr> name s1 = (case m of None \<Rightarrow> Some (0, s2) | Some sector \<Rightarrow> inode_open sector s2)"
      using dir_lookup_any[OF dk _ fi name, of "\<lparr>d_inode = p, d_pos = 0\<rparr>"] present(8) by auto
    have B: "fbytes (secs s1) (data i) = root_bytes s" by (simp add: root_bytes_def present(6,10))
    have e2: "dsize s2 = dsize s" "secs s2 = secs s" "oom s = [] \<longrightarrow> oom s2 = []" "inodes s2 = inodes s1" using s2(1) present(5-7) by (simp_all add: sync_def)
    have c2: "counts_ok s2 ((refs fs)(p := 1)) (denials fs)" using counts_sync[OF present(4) s2(1)] .
    have fo: "filesys_open name s = Option.bind (inode_close p s4) (file_open q)" if "dir_lookup \<lparr>d_inode = p, d_pos = 0\<rparr> name s1 = Some (q, s4)" for q s4
      using present(1) that by (simp add: filesys_open_def dir_close_def)
    have no_file: ?thesis if l: "dir_lookup \<lparr>d_inode = p, d_pos = 0\<rparr> name s1 = Some (0, s4)" and c4: "counts_ok s4 ((refs fs)(p := 1)) (denials fs)"
      and i4: "inodes s4 p = Some i" and e4: "dsize s4 = dsize s" "secs s4 = secs s" "oom s = [] \<longrightarrow> oom s4 = []" and why: "oom s \<noteq> [] \<or> dir_map (root_bytes s) name = None" for s4
    proof -
      obtain s3 where s3: "inode_close p s4 = Some s3" "counts_ok s3 (refs fs) (denials fs)" "dsize s3 = dsize s4" "secs s3 = secs s4" "oom s3 = oom s4"
        using close_only[OF c4 present(3) dn i4 present(9)] by metis
      obtain ok s5 where k: "kmalloc s3 = (ok, s5)" by (cases "kmalloc s3")
      have "disk_ok s3" using s3(2) by (simp add: counts_ok_def)
      then have s5: "sync s3 (secs s3) s5" using kmalloc_sync k by blast
      have "filesys_open name s = Some (None, s5)" using fo[OF l] s3(1) k by (simp add: file_open_def inode_close_def)
      then show ?thesis using why s3(3-5) e4 counts_sync[OF s3(2) s5] s5 pos by (simp add: files_ok_def sync_def)
    qed
    show ?thesis
    proof (cases m)
      case None
      have why: "oom s \<noteq> [] \<or> dir_map (root_bytes s) name = None" using s2(3) present(7) None unfolding B by auto
      have l: "dir_lookup \<lparr>d_inode = p, d_pos = 0\<rparr> name s1 = Some (0, s2)" "inodes s2 p = Some i" using s2(4) None present(8) e2(4) by simp_all
      show ?thesis by (rule no_file[OF l(1) c2 l(2) e2(1-3) why])
    next
      case (Some sector)
      then have dm: "dir_map (root_bytes s) name = Some sector" using s2(2) unfolding B by simp
      have sec: "sector \<noteq> ROOT_DIR_SECTOR" "sector < dsize s2" "fits (dsize s2) (decode_inode (secs s2 sector))"
        using assms(2) dm unfolding root_ok_def e2 by blast+
      have dl: "dir_lookup \<lparr>d_inode = p, d_pos = 0\<rparr> name s1 = inode_open sector s2" using s2(4) Some by simp
      show ?thesis
      proof (cases rule: open_inode_any[OF c2 sec(2,3)])
        case (1 s3)
        have why: "oom s \<noteq> [] \<or> dir_map (root_bytes s) name = None" using 1(2) e2(3) by blast
        have l: "dir_lookup \<lparr>d_inode = p, d_pos = 0\<rparr> name s1 = Some (0, s3)" "inodes s3 p = Some i" "dsize s3 = dsize s" "secs s3 = secs s" "oom s = [] \<longrightarrow> oom s3 = []"
          using dl 1 present(2,8) e2 by simp_all
        show ?thesis by (rule no_file[OF l(1) 1(3) l(2-5) why])
      next
        case (2 q s3 j)
        note inode = 2
        have qp: "q \<noteq> p" using inode(10) present(8,11) sec(1) e2(4) by auto
        have e: "((refs fs)(p := 1))(q := Suc (((refs fs)(p := 1)) q)) = ((refs fs)(q := Suc (refs fs q)))(p := 1)" using qp by (auto simp: fun_eq_iff)
        have r0: "((refs fs)(q := Suc (refs fs q))) p = 0" "inodes s3 p = Some i" using qp present(3,8) inode(11) e2(4) by simp_all
        obtain s4 where s4: "inode_close p s3 = Some s4" "counts_ok s4 ((refs fs)(q := Suc (refs fs q))) (denials fs)" "dsize s4 = dsize s3" "secs s4 = secs s3"
          "oom s4 = oom s3" "inodes s4 = (inodes s3)(p := None)"
          using close_only[OF inode(3)[unfolded e] r0(1) dn r0(2) present(9)] .
        have j4: "inodes s4 q = Some j" using s4(6) inode(7) qp by simp
        have same: "inodes s2 q = inodes s q" using present(12) qp e2(4) by simp
        have new: "\<not> removed j \<and> data j = decode_inode (secs s sector)" if "refs fs q = 0" using inode(9) that qp e2(2) by simp
        have "filesys_open name s = file_open q s4" using fo[of q s3] dl inode(1) s4(1) by simp
        moreover have "case inodes s q of None \<Rightarrow> \<not> removed j \<and> data j = decode_inode (secs s (inode_sector j)) | Some k \<Rightarrow>
            inode_sector k = inode_sector j \<and> data j = data k \<and> removed j = removed k"
          using new table_None[OF tab, of q] inode(8,10) unfolding same by (simp split: option.split)
        moreover have "oom s = [] \<longrightarrow> oom s4 = []" using e2(3) inode(6) s4(5) by simp
        moreover have "dir_map (root_bytes s) name = Some (inode_sector j)" using dm inode(8) by simp
        ultimately show ?thesis using file_open_any[OF s4(2) pos inode(2) j4] new inode(4,5) s4(3,4) e2(1,2) by fastforce
      qed
    qed
  qed
qed

lemma filesys_open_eq:
  assumes f: "files_ok fs s" and o: "oom s = []" and root: "root_ok name s" and name: "0 \<notin> set name"
  shows "\<exists>r s'. filesys_open name s = Some (r, s') \<and> secs s' = secs s \<and> dsize s' = dsize s \<and> oom s' = [] \<and>
    (case dir_map (root_bytes s) name of
       None \<Rightarrow> r = None \<and> files_ok fs s'
     | Some sector \<Rightarrow> \<exists>p i. r = Some \<lparr>f_inode = p, f_pos = 0, f_deny = False\<rparr> \<and> files_ok (fs @ [\<lparr>f_inode = p, f_pos = 0, f_deny = False\<rparr>]) s' \<and>
         inodes s' p = Some i \<and> inode_sector i = sector \<and>
         (case inodes s p of None \<Rightarrow> \<not> removed i \<and> data i = decode_inode (secs s sector) | Some j \<Rightarrow> data i = data j \<and> removed i = removed j))"
  using filesys_open_any[OF f root name] o by (elim exE conjE disjE) (force split: option.splits)+

text \<open>C32. Opening a file by its name follows the directory. With memory to spare, \<^verbatim>\<open>filesys_open\<close> returns without a panic, and the file it gives is open exactly when the
  root directory maps the name to a sector: it stands at the start, does not deny writing, and is on the one inode in memory of that sector, read from the disk if no file was open on it.
  The root directory is closed again, so that the counters of every inode match the files that are open, with the new one; the disk is unchanged.\<close>

theorem filesys_open_finds:
  assumes "files_ok fs s" "oom s = []" "root_ok name s" "0 \<notin> set name"
  shows "\<exists>r s'. filesys_open name s = Some (r, s') \<and> secs s' = secs s \<and> (r = None \<longleftrightarrow> dir_map (root_bytes s) name = None) \<and>
    files_ok (fs @ (case r of None \<Rightarrow> [] | Some f \<Rightarrow> [f])) s' \<and>
    (\<forall>f. r = Some f \<longrightarrow> f_pos f = 0 \<and> \<not> f_deny f \<and>
       (\<exists>i. inodes s' (f_inode f) = Some i \<and> dir_map (root_bytes s) name = Some (inode_sector i) \<and>
          (inodes s (f_inode f) = None \<longrightarrow> \<not> removed i \<and> data i = decode_inode (secs s (inode_sector i)))))"
  using filesys_open_eq[OF assms] by (cases "dir_map (root_bytes s) name") (force split: option.splits)+

section \<open>A disk with one file\<close>

text \<open>The inode of the root directory is in sector 1 and its one entry, for the file \<^verbatim>\<open>a\<close>, in sector 2; the file's inode is in sector 4 and its bytes are in sector 5.\<close>

definition named_sectors :: "u8 list \<Rightarrow> u32 \<Rightarrow> u8 list" where
  "named_sectors bs x =
    (if x = 1 then encode_inode \<lparr>start_sector = 2, file_length = 20, inode_magic = INODE_MAGIC\<rparr>
     else if x = 2 then le32 4 @ [97, 0] @ replicate 13 0 @ [1] @ replicate 492 0
     else if x = 4 then encode_inode \<lparr>start_sector = 5, file_length = int (length bs), inode_magic = INODE_MAGIC\<rparr>
     else if x = 5 then bs @ replicate (512 - length bs) 0
     else replicate 512 0)"

definition named_fs :: "u8 list \<Rightarrow> filesys" where
  "named_fs bs = sample_fs\<lparr>disks := (disks sample_fs)\<lparr>devs := [1 \<mapsto> sample_disk\<lparr>sectors := named_sectors bs\<rparr>]\<rparr>, inodes := Map.empty, open_inodes := []\<rparr>"

lemma take_le32 [simp]: "take 4 (le32 w @ xs) = le32 w" "drop 4 (le32 w @ xs) = xs" "length (le32 w) = 4"
  by (simp_all add: le32_def)

lemma signed_small: "0 \<le> k \<Longrightarrow> k < 2 ^ 31 \<Longrightarrow> sint (word_of_int k :: u32) = k"
  by (simp add: signed_of_int signed_take_bit_int_eq_self)

lemma decode_named: "0 \<le> n \<Longrightarrow> n < 2 ^ 31 \<Longrightarrow> decode_inode (encode_inode \<lparr>start_sector = a, file_length = n, inode_magic = m\<rparr>) = \<lparr>start_sector = a, file_length = n, inode_magic = m\<rparr>"
  by (simp add: decode_inode_def encode_inode_def signed_small)

lemma named_fs_ok:
  assumes "length bs \<le> 512"
  shows "disk_ok (named_fs bs)" "dsize (named_fs bs) = 16" "secs (named_fs bs) = named_sectors bs" "files_ok [] (named_fs bs)" "oom (named_fs bs) = []"
proof -
  have w: "whole 16 (named_sectors bs)" using assms by (simp add: whole_def named_sectors_def encode_inode_def)
  show d: "disk_ok (named_fs bs)" "dsize (named_fs bs) = 16" "secs (named_fs bs) = named_sectors bs"
    using disk_okI[of "named_fs bs" "sample_disk\<lparr>sectors := named_sectors bs\<rparr>"] w by (simp_all add: named_fs_def sample_fs_def sample_disk_def)
  show "files_ok [] (named_fs bs)" using d(1) by (simp add: files_ok_def counts_ok_def table_ok_def) (simp add: named_fs_def sample_fs_def)
  show "oom (named_fs bs) = []" by (simp add: named_fs_def sample_fs_def)
qed

lemma named_root:
  assumes "length bs \<le> 512"
  shows "root_bytes (named_fs bs) = le32 4 @ [97, 0] @ replicate 13 0 @ [1]"
proof -
  have l: "length (named_sectors bs 2) = 512" by (simp add: named_sectors_def)
  have "root_bytes (named_fs bs) = map ((!) (named_sectors bs 2)) [0..<20]"
    unfolding root_bytes_def named_fs_ok(3)[OF assms] by (simp add: fbytes_def named_sectors_def[of bs 1] ROOT_DIR_SECTOR_def decode_named fbyte_def)
  also have "\<dots> = take 20 (named_sectors bs 2)" using l by (intro nth_equalityI) simp_all
  finally show ?thesis by (simp add: named_sectors_def)
qed

lemma named_root_ok:
  assumes "length bs \<le> 512"
  shows "dir_map (root_bytes (named_fs bs)) [97] = Some 4" "dir_map (root_bytes (named_fs bs)) [98] = None" "root_ok [97] (named_fs bs)"
proof -
  show m: "dir_map (root_bytes (named_fs bs)) [97] = Some 4" "dir_map (root_bytes (named_fs bs)) [98] = None"
    unfolding named_root[OF assms] by code_simp+
  have f: "fits 16 (decode_inode (named_sectors bs 4))" "fits 16 (decode_inode (named_sectors bs 1))"
    using assms by (simp_all add: named_sectors_def decode_named fits_def nsec_def)
  then show "root_ok [97] (named_fs bs)" unfolding root_ok_def m named_fs_ok(2,3)[OF assms] ROOT_DIR_SECTOR_def by (simp add: named_fs_def)
qed

theorem filesys_open_finds_witness:
  "\<exists>f s' i. filesys_open [97] (named_fs [7]) = Some (Some f, s') \<and> files_ok [f] s' \<and> inodes s' (f_inode f) = Some i \<and> inode_sector i = 4 \<and>
     fbytes (secs s') (data i) = [7]"
proof -
  have z: "inodes (named_fs [7]) p = None" for p by (simp add: named_fs_def)
  have c: "fbytes (named_sectors [7]) (decode_inode (named_sectors [7] 4)) = [7]"
    by (simp add: named_sectors_def decode_named fbytes_def fbyte_def)
  have b: "length [7 :: u8] \<le> 512" by simp
  show ?thesis using filesys_open_finds[OF named_fs_ok(4,5)[OF b] named_root_ok(3)[OF b]] z c named_root_ok(1)[OF b] named_fs_ok(3)[OF b] by auto
qed

end
