(* ===== verification/Lifecycle.thy ===== *)
theory Lifecycle
  imports Image Open_By_Name
begin

unbundle bit_operations_syntax

text \<open>
  The life of a process: its page directory is made, an executable is loaded into it, and the end of the process gives back every page; what
  a failed start leaves behind, and what a system call does.
\<close>

section \<open>Making a page directory\<close>

text \<open>The kernel's own page directory maps no user page, and both pools lie in the memory that the kernel maps.\<close>

definition boot_ok :: "mmu \<Rightarrow> bool" where
  "boot_ok m \<longleftrightarrow> palloc_ok (ram m) \<and> 0xc0000 \<le> first_page (kernel_pool (ram m)) \<and> cr3 m < PHYS_BASE \<and>
     page_aligned (init_page_dir m) \<and> init_page_dir m \<noteq> 0 \<and> PHYS_BASE \<le> init_page_dir m \<and> unat (init_page_dir m) div 4096 \<in> used_pages (ram m) \<and>
     (\<forall>k < 768. pde_of m (init_page_dir m) k = 0) \<and>
     first_page (user_pool (ram m)) + page_total (user_pool (ram m)) \<le> 0xc0000 + unat (init_ram_pages m)"

lemma slot_byte: "slot p k + of_nat i = p + of_nat (4 * k + i)"
  by (simp add: slot_def)

lemma word_at_copy:
  assumes "\<And>j. j < 4096 \<Longrightarrow> m' (p + of_nat j) = m (q + of_nat j)" "k < 1024"
  shows "word_at m' (slot p k) = word_at m (slot q k)"
proof -
  have b: "m' (slot p k + of_nat i) = m (slot q k + of_nat i)" if "i < 4" for i
    unfolding slot_byte using assms(2) that by (intro assms(1)) simp
  show ?thesis using b[of 0] b[of 1] b[of 2] b[of 3] by (simp add: word_at_def)
qed

lemma copy_page:
  assumes al: "page_aligned p" "page_aligned q" "p \<noteq> q" "p \<noteq> 0" "q \<noteq> 0"
  obtains m' where "memcpy p q PGSIZE m = Some (p, m')" "\<And>j. j < 4096 \<Longrightarrow> m' (p + of_nat j) = m (q + of_nat j)"
    "\<And>x. unat x div 4096 \<noteq> unat p div 4096 \<Longrightarrow> m' x = m x"
proof -
  have "unat PGSIZE \<le> unat (p - q)"
  proof (rule ccontr)
    assume "\<not> unat PGSIZE \<le> unat (p - q)"
    then have "unat p div 4096 = unat q div 4096" using in_page[OF al(2), of p] by simp
    then show False using aligned_eq[OF al(1,2)] al(3) by blast
  qed
  then have c: "memcpy_loop p q PGSIZE m = write_bytes m p (bytes_at m q (unat PGSIZE))" by (simp add: memcpy_loop_up memmove_up_eq)
  have "memcpy p q PGSIZE m = Some (p, write_bytes m p (bytes_at m q 4096))" unfolding memcpy_def c using al(4,5) by simp
  moreover have "write_bytes m p (bytes_at m q 4096) (p + of_nat j) = m (q + of_nat j)" if "j < 4096" for j
  proof -
    have "unat (p + of_nat j - p) = j" using that by (simp add: unat_of_nat)
    then show ?thesis using that by (simp add: write_bytes_def bytes_at_nth)
  qed
  moreover have "write_bytes m p (bytes_at m q 4096) x = m x" if "unat x div 4096 \<noteq> unat p div 4096" for x
    using in_page[OF al(1), of x] that by (auto simp: write_bytes_def)
  ultimately show thesis using that by blast
qed

lemma create_page_dir:
  assumes b: "boot_ok m"
  shows "pagedir_create m = Some (0, m) \<and> kernel_full (ram m) \<or>
    (\<exists>pd r. pagedir_create m = Some (pd, m\<lparr>ram := r\<rparr>) \<and> pd \<noteq> 0 \<and> space_ok pd (m\<lparr>ram := r\<rparr>) \<and> boot_ok (m\<lparr>ram := r\<rparr>) \<and>
      (\<forall>k < 768. pde_of (m\<lparr>ram := r\<rparr>) pd k = 0) \<and> unat pd div 4096 \<notin> used_pages (ram m) \<and>
      used_pages r = insert (unat pd div 4096) (used_pages (ram m)) \<and> same_pools (ram m) r \<and> user_pool r = user_pool (ram m) \<and>
      (\<forall>x. unat x div 4096 \<noteq> unat pd div 4096 \<longrightarrow> page_mem r x = page_mem (ram m) x))"
proof -
  have f: "palloc_ok (ram m)" "0xc0000 \<le> first_page (kernel_pool (ram m))" "cr3 m < PHYS_BASE" "page_aligned (init_page_dir m)" "init_page_dir m \<noteq> 0"
    "unat (init_page_dir m) div 4096 \<in> used_pages (ram m)" "\<And>k. k < 768 \<Longrightarrow> pde_of m (init_page_dir m) k = 0"
    "first_page (user_pool (ram m)) + page_total (user_pool (ram m)) \<le> 0xc0000 + unat (init_ram_pages m)" "PHYS_BASE \<le> init_page_dir m"
    using b unfolding boot_ok_def by blast+
  have fl: "(0 :: u32) AND PAL_USER = 0" "(0 :: u32) AND PAL_ASSERT = 0" by simp_all
  from get_kernel_page[OF f(1,2) fl] show ?thesis
  proof (elim disjE exE conjE)
    assume "palloc_get_page 0 (ram m) = Some (0, ram m)" "kernel_full (ram m)"
    then show ?thesis by (simp add: pagedir_create_def)
  next
    fix pd p assume p: "palloc_get_page 0 (ram m) = Some (pd, p)" "pd \<noteq> 0" "page_aligned pd" "PHYS_BASE \<le> pd" "palloc_ok p"
      "first_page (kernel_pool p) = first_page (kernel_pool (ram m))" "unat pd div 4096 \<notin> used_pages (ram m)"
      "same_pools (ram m) p" "user_pool p = user_pool (ram m)" "in_range (kernel_pool (ram m)) pd"
      "used_pages p = insert (unat pd div 4096) (used_pages (ram m))"
      "\<forall>x. page_mem p x = (if (0 :: u32) AND PAL_ZERO \<noteq> 0 \<and> unat (x - pd) < 4096 then 0 else page_mem (ram m) x)"
    have pm: "page_mem p = page_mem (ram m)" using p(12) by (simp add: fun_eq_iff)
    have ne: "pd \<noteq> init_page_dir m" using f(6) p(7) by auto
    obtain m' where m': "memcpy pd (init_page_dir m) PGSIZE (page_mem p) = Some (pd, m')"
      "\<And>j. j < 4096 \<Longrightarrow> m' (pd + of_nat j) = page_mem (ram m) (init_page_dir m + of_nat j)"
      "\<And>x. unat x div 4096 \<noteq> unat pd div 4096 \<Longrightarrow> m' x = page_mem (ram m) x"
      using copy_page[OF p(3) f(4) ne p(2) f(5), of "page_mem p"] unfolding pm by metis
    define r where "r = p\<lparr>page_mem := m'\<rparr>"
    define n where "n = m\<lparr>ram := r\<rparr>"
    have c: "pagedir_create m = Some (pd, n)" using p(1,2) m'(1) by (simp add: pagedir_create_def r_def n_def)
    have z: "pde_of n pd k = 0" if "k < 768" for k
      using word_at_copy[of m' pd "page_mem (ram m)" "init_page_dir m" k, OF m'(2)] f(7)[OF that] that by (simp add: pde_of_def load_def n_def r_def)
    have zi: "pde_of n (init_page_dir m) k = 0" if "k < 768" for k
    proof -
      have "m' (init_page_dir m + of_nat j) = page_mem (ram m) (init_page_dir m + of_nat j)" if "j < 4096" for j
        using m'(3) in_frame[OF f(4) that] f(6) p(7) by metis
      then show ?thesis using word_at_copy[of m' "init_page_dir m" "page_mem (ram m)" "init_page_dir m" k] f(7)[OF that] that
        by (simp add: pde_of_def load_def n_def r_def)
    qed
    have po: "pool_of u r = pool_of u p" for u by (simp add: pool_of_def r_def)
    have r: "palloc_ok r" "used_pages r = used_pages p" "kernel_pool r = kernel_pool p" "user_pool r = user_pool p" "same_pools (ram m) r" "page_mem r = m'"
      using p(5,8) by (simp_all add: palloc_ok_def same_pools_def po) (simp_all add: r_def)
    have bok: "boot_ok n" using f p(6,9,11) r(1-4) zi unfolding boot_ok_def by (simp add: n_def)
    have tp: "table_page n pd" using p(3,4,11) r(2) by (simp add: table_page_def n_def)
    have "pd_ok pd n" unfolding pd_ok_def using r p(6) f(1-3) tp z by (simp add: n_def)
    moreover have um: "user_map n pd va = None" for va
    proof (cases "is_user_vaddr va")
      case True
      then have "pde_of n pd (unat (pd_no va)) = 0" using indices(2) z by blast
      then show ?thesis by (simp add: user_map_def pte_of_def)
    qed (simp add: user_map_def)
    moreover have "in_range (kernel_pool (ram n)) pd"
    proof -
      have "base (pool_of False (ram m)) = base (pool_of False r)" "bit_cnt (used_map (pool_of False (ram m))) = bit_cnt (used_map (pool_of False r))"
        using r(5) unfolding same_pools_def by metis+
      then show ?thesis using p(10) by (simp add: in_range_def pool_of_def n_def)
    qed
    ultimately have "space_ok pd n" using z ne f(8) r(4) p(9) by (intro space_okI) (simp_all add: n_def)
    then show ?thesis using c p(2,7,9,11) bok z m'(3) r unfolding n_def by (intro disjI2 exI[of _ pd] exI[of _ r]) simp
  qed
qed

section \<open>Loading into a new page directory\<close>

lemma space_cr3:
  assumes "x < PHYS_BASE"
  shows "space_ok pd m \<Longrightarrow> space_ok pd (m\<lparr>cr3 := x\<rparr>)" "user_map (m\<lparr>cr3 := x\<rparr>) = user_map m" "pde_of (m\<lparr>cr3 := x\<rparr>) = pde_of m"
proof -
  have l: "load a (m\<lparr>cr3 := x\<rparr>) = load a m" for a by (simp add: load_def)
  show p: "pde_of (m\<lparr>cr3 := x\<rparr>) = pde_of m" by (simp add: pde_of_def l fun_eq_iff)
  have tp: "table_page (m\<lparr>cr3 := x\<rparr>) = table_page m" by (simp add: table_page_def fun_eq_iff)
  show um: "user_map (m\<lparr>cr3 := x\<rparr>) = user_map m" by (simp add: user_map_def pte_of_def p l fun_eq_iff)
  show "space_ok pd (m\<lparr>cr3 := x\<rparr>)" if ok: "space_ok pd m"
  proof -
    note d = space_okD[OF ok]
    have "pd_ok pd (m\<lparr>cr3 := x\<rparr>)" using d(1) assms unfolding pd_ok_def p tp l by simp
    moreover have "frame_page (m\<lparr>cr3 := x\<rparr>) = frame_page m" by (simp add: frame_page_def fun_eq_iff)
    ultimately show ?thesis using ok unfolding space_ok_def um p by simp
  qed
qed

lemma space_tables:
  assumes "space_ok pd m" shows "dir_tables m pd {..<768} = table_pages m pd"
proof -
  have "dir_table m pd k = (if pde_of m pd k \<noteq> 0 then Some (frame (pde_of m pd k)) else None)" if "k < 768" for k
    using pd_okD(5)[OF space_okD(1)[OF assms] that] by (auto simp: dir_table_def)
  then show ?thesis by (fastforce simp: dir_tables_def table_pages_def split: option.splits if_splits)
qed

lemma vtop_kernel: "PHYS_BASE \<le> a \<Longrightarrow> vtop a = Some (a - PHYS_BASE) \<and> a - PHYS_BASE < PHYS_BASE"
proof -
  assume a: "PHYS_BASE \<le> a"
  have "unat (a - PHYS_BASE) = unat a - 0xc0000000" using a by (simp add: unat_sub unat_PHYS_BASE)
  moreover have "unat a < 2 ^ 32" using unsigned_less[of a] by simp
  ultimately show ?thesis using a by (simp add: vtop_def is_kernel_vaddr_def word_less_nat_alt unat_PHYS_BASE)
qed

text \<open>The name of the file is a string in a page of its own, and the file system opens it. The file \<open>f\<close> is one of the open files, on the inode \<open>i\<close>,
  which has not been removed.\<close>

definition executable_file :: "u32 \<Rightarrow> machine \<Rightarrow> open_file \<Rightarrow> inode \<Rightarrow> filesys \<Rightarrow> bool" where
  "executable_file fn s f i d \<longleftrightarrow> (\<exists>w fs. str_at (mem_of s) fn w \<and> length w < 4096 \<and> page_aligned fn \<and> unat fn div 4096 \<in> kernel_used s \<and>
     filesys_open w (fsys s) = Some (Some f, d) \<and> files_ok fs d \<and> f \<in> set fs \<and> inodes d (f_inode f) = Some i \<and> \<not> removed i \<and> f_pos f = 0)"

text \<open>The same where the file need not be there: the bytes of the file, if \<^verbatim>\<open>filesys_open\<close> has opened one.\<close>

definition program_file :: "u32 \<Rightarrow> machine \<Rightarrow> u8 list option \<Rightarrow> filesys \<Rightarrow> bool" where
  "program_file fn s fx d \<longleftrightarrow> (\<exists>w r. str_at (mem_of s) fn w \<and> length w < 4096 \<and> page_aligned fn \<and> unat fn div 4096 \<in> kernel_used s \<and>
     filesys_open w (fsys s) = Some (r, d) \<and>
     (case r of None \<Rightarrow> fx = None
      | Some f \<Rightarrow> \<exists>fs i. files_ok fs d \<and> f \<in> set fs \<and> inodes d (f_inode f) = Some i \<and> \<not> removed i \<and> f_pos f = 0 \<and> fx = Some (fbytes (secs d) (data i))))"

definition not_program :: "u8 list option \<Rightarrow> bool" where "not_program fx \<longleftrightarrow> (case fx of None \<Rightarrow> True | Some X \<Rightarrow> \<not> executable_ok X)"

lemma executable_program: "executable_file fn s f i d \<Longrightarrow> program_file fn s (Some (fbytes (secs d) (data i))) d"
  unfolding executable_file_def program_file_def by (elim exE conjE) (rule exI, rule exI[of _ "Some f"], auto)

lemma name_read:
  assumes "str_at (mem_of s) fn w" "length w < 4096" "page_aligned fn" "\<And>x. unat x div 4096 = unat fn div 4096 \<Longrightarrow> mem_of t x = mem_of s x"
  shows "name_at fn t = Some w"
proof -
  have same: "mem_of t x = mem_of s x" if "x \<in> str_block fn w" for x
    using that assms(2,4) in_page[OF assms(3), of x] by (simp add: str_block_def)
  have at: "str_at (mem_of t) fn w" by (rule str_at_cong[OF same assms(1)])
  have "unat (of_nat (length w) :: u32) = length w" using unat_str_at[OF at] .
  then show ?thesis using strlen_eq[OF at] str_at_bytes[OF at, of "length w"] by (simp add: name_at_def)
qed

lemma machine_fields_fsys [simp]: "out_of_memory (s\<lparr>fsys := d\<rparr>) = out_of_memory s"
  by (simp add: out_of_memory_def)

text \<open>The pages in use after a part of the loader has run on an empty page directory: those from before, and those of the address space.\<close>

lemma new_pages:
  assumes ok: "machine_ok pd s" "machine_ok pd s'" and r: "same_rest pd s s'" "keeps_frames pd s s'"
    and e: "table_pages (mm s) pd = {}" "mapped_frames (mm s) pd = {}" and pd: "unat pd div 4096 \<in> kernel_used s" "U = used_pages (ram (mm s)) - {unat pd div 4096}"
  shows "used_pages (ram (mm s')) - insert (unat pd div 4096) (table_pages (mm s') pd \<union> mapped_frames (mm s') pd) = U"
    "unat pd div 4096 \<in> used_pages (ram (mm s'))"
proof -
  let ?T = "table_pages (mm s') pd" and ?M = "mapped_frames (mm s') pd"
  have used: "used_pages (ram (mm t)) = kernel_used t \<union> user_used t" for t by (simp add: used_pages_def kernel_used_def user_used_def)
  have k: "kernel_used s \<subseteq> kernel_used s'" "kernel_used s' \<subseteq> kernel_used s \<union> ?T" "?T \<inter> kernel_used s = {}" using r(1) e(1) by (auto simp: same_rest_def)
  have u: "user_used s \<subseteq> user_used s'" "user_used s' \<subseteq> user_used s \<union> ?M" "?M \<inter> user_used s = {}" using r(2) e(2) by (auto simp: keeps_frames_def)
  have apart: "kernel_used t \<inter> user_used t = {}" if "machine_ok pd t" for t
    using pools_apart[OF machine_okD(2)[OF that], of False True] pool_used_range[of "user_pool (ram (mm t))"]
    by (auto simp: kernel_used_def user_used_def pool_of_def)
  have "?M \<subseteq> user_used s'" using mapped_used(2)[OF ok(2)] by (auto simp: mapped_frames_def)
  moreover have "?T \<subseteq> kernel_used s'"
  proof
    fix x assume "x \<in> ?T"
    then obtain j where j: "j < 768" "pde_of (mm s') pd j \<noteq> 0" "x = unat (frame (pde_of (mm s') pd j)) div 4096" by (auto simp: table_pages_def)
    note sd = space_okD[OF machine_okD(1)[OF ok(2)]]
    have "x \<in> used_pages (ram (mm s'))" using pd_okD(5)[OF sd(1) j(1,2)] j(3) by (simp add: table_page_def)
    then show "x \<in> kernel_used s'" using Address_Space.kernel_used[OF machine_okD(2)[OF ok(2)] sd(3)[OF j(1,2)]] j(3) by (simp add: kernel_used_def)
  qed
  ultimately show "used_pages (ram (mm s')) - insert (unat pd div 4096) (?T \<union> ?M) = U"
    using k u apart[OF ok(1)] apart[OF ok(2)] pd unfolding used by blast
  show "unat pd div 4096 \<in> used_pages (ram (mm s'))" using pd(1) k(1) unfolding used by blast
qed

lemma close_after_read:
  assumes f: "files_ok fs d" "f \<in> set fs" "inodes d (f_inode f) = Some i" "\<not> removed i" and r: "sync d (secs d) e" "f_inode g = f_inode f" "f_deny g = f_deny f" "0 \<le> f_pos g"
  shows "\<exists>e'. file_close (Some g) e = Some e'"
proof -
  obtain k where k: "k < length fs" "fs ! k = f" using f(2) by (auto simp: in_set_conv_nth)
  have "files_ok (fs[k := g]) e" using files_move[OF files_sync[OF f(1) r(1)] k(1)] k(2) r(2-4) by simp
  moreover have "fs[k := g] ! k = g" "k < length (fs[k := g])" using k(1) by simp_all
  moreover have "inodes e (f_inode g) = Some i" using r(1,2) f(3) by (simp add: sync_def)
  ultimately show ?thesis using file_close_ok[of "fs[k := g]" e k] f(4) by auto
qed

text \<open>What \<^verbatim>\<open>load\<close> does before it reads the file: a page directory without user pages, the processor on it, and the file open.\<close>

lemma load_elf_starts:
  assumes b: "boot_ok (mm s)" and cp: "cur_pcb s = Some p" and ex: "program_file fn s fx d"
  shows "load_elf fn s = Some (None, s\<lparr>cur_pcb := Some (p\<lparr>pcb_pagedir := 0\<rparr>)\<rparr>) \<and> kernel_full (ram (mm s)) \<or>
    (\<exists>pd s0 r. pd \<noteq> 0 \<and> machine_ok pd s0 \<and> fsys s0 = d \<and>
       (case r of None \<Rightarrow> fx = None
        | Some f \<Rightarrow> \<exists>fs i. files_ok fs d \<and> f \<in> set fs \<and> inodes d (f_inode f) = Some i \<and> \<not> removed i \<and> f_pos f = 0 \<and> fx = Some (fbytes (secs d) (data i)) \<and>
            file_ok f i s0) \<and>
       (\<forall>k < 768. pde_of (mm s0) pd k = 0) \<and> (\<forall>va. user_map (mm s0) pd va = None) \<and>
       unat pd div 4096 \<notin> used_pages (ram (mm s)) \<and> used_pages (ram (mm s0)) = insert (unat pd div 4096) (used_pages (ram (mm s))) \<and>
       same_pools (ram (mm s)) (ram (mm s0)) \<and> user_pool (ram (mm s0)) = user_pool (ram (mm s)) \<and>
       init_page_dir (mm s0) = init_page_dir (mm s) \<and> cur_pcb s0 = Some (p\<lparr>pcb_pagedir := pd\<rparr>) \<and>
       load_elf fn s = (case r of None \<Rightarrow> Some (None, s0)
         | Some f \<Rightarrow> Option.bind (load_image f s0) (\<lambda>(r, f, s). Option.bind (file_close (Some f) (fsys s)) (\<lambda>d. Some (r, s\<lparr>fsys := d\<rparr>)))))"
proof -
  from create_page_dir[OF b] show ?thesis
  proof (elim disjE exE conjE)
    assume c: "pagedir_create (mm s) = Some (0, mm s)" and "kernel_full (ram (mm s))"
    have "load_elf fn s = Some (None, s\<lparr>cur_pcb := Some (p\<lparr>pcb_pagedir := 0\<rparr>)\<rparr>)" using cp c by (simp add: load_elf_def Let_def)
    then show ?thesis using \<open>kernel_full (ram (mm s))\<close> by blast
  next
    fix pd r assume c: "pagedir_create (mm s) = Some (pd, (mm s)\<lparr>ram := r\<rparr>)" "pd \<noteq> 0" "space_ok pd ((mm s)\<lparr>ram := r\<rparr>)"
      "\<forall>k < 768. pde_of ((mm s)\<lparr>ram := r\<rparr>) pd k = 0" "unat pd div 4096 \<notin> used_pages (ram (mm s))"
      "used_pages r = insert (unat pd div 4096) (used_pages (ram (mm s)))" "same_pools (ram (mm s)) r" "user_pool r = user_pool (ram (mm s))"
      "\<forall>x. unat x div 4096 \<noteq> unat pd div 4096 \<longrightarrow> page_mem r x = page_mem (ram (mm s)) x"
    obtain w fo where w: "str_at (mem_of s) fn w" "length w < 4096" "page_aligned fn" "unat fn div 4096 \<in> kernel_used s"
      "filesys_open w (fsys s) = Some (fo, d)" and fo: "case fo of None \<Rightarrow> fx = None
      | Some f \<Rightarrow> \<exists>fs i. files_ok fs d \<and> f \<in> set fs \<and> inodes d (f_inode f) = Some i \<and> \<not> removed i \<and> f_pos f = 0 \<and> fx = Some (fbytes (secs d) (data i))"
      using ex unfolding program_file_def by blast
    have tp: "table_page ((mm s)\<lparr>ram := r\<rparr>) pd" using pd_okD(4)[OF space_okD(1)[OF c(3)]] .
    then have v: "vtop pd = Some (pd - PHYS_BASE)" "pd - PHYS_BASE < PHYS_BASE" using vtop_kernel by (simp_all add: table_page_def)
    define s1 where "s1 = s\<lparr>mm := (mm s)\<lparr>ram := r, cr3 := pd - PHYS_BASE\<rparr>, cur_pcb := Some (p\<lparr>pcb_pagedir := pd\<rparr>), esp0 := cur_thread s + PGSIZE\<rparr>"
    have act: "process_activate (s\<lparr>mm := (mm s)\<lparr>ram := r\<rparr>, cur_pcb := Some (p\<lparr>pcb_pagedir := pd\<rparr>)\<rparr>) = Some s1"
      using c(2) v(1) by (simp add: process_activate_def pagedir_activate_def tss_update_def s1_def)
    have name: "name_at fn s1 = Some w"
    proof (rule name_read[OF w(1-3)])
      fix x :: u32 assume "unat x div 4096 = unat fn div 4096"
      then have "unat x div 4096 \<noteq> unat pd div 4096" using c(5) w(4) by (auto simp: used_pages_def kernel_used_def)
      then show "mem_of s1 x = mem_of s x" using c(9) by (simp add: mem_of_def s1_def)
    qed
    define s0 where "s0 = s1\<lparr>fsys := d\<rparr>"
    have ok0: "machine_ok pd s0" using space_cr3(1)[OF v(2) c(3)] by (simp add: machine_ok_def s0_def s1_def)
    have z: "pde_of (mm s0) pd k = 0" if "k < 768" for k using c(4) that space_cr3(3)[OF v(2), of "(mm s)\<lparr>ram := r\<rparr>"] by (simp add: s0_def s1_def)
    have um: "user_map (mm s0) pd va = None" for va
    proof (cases "is_user_vaddr va")
      case True
      then have "pde_of (mm s0) pd (unat (pd_no va)) = 0" using indices(2) z by blast
      then show ?thesis by (simp add: user_map_def pte_of_def)
    qed (simp add: user_map_def)
    have fok: "case fo of None \<Rightarrow> fx = None
      | Some f \<Rightarrow> \<exists>fs i. files_ok fs d \<and> f \<in> set fs \<and> inodes d (f_inode f) = Some i \<and> \<not> removed i \<and> f_pos f = 0 \<and> fx = Some (fbytes (secs d) (data i)) \<and>
          file_ok f i s0"
    proof (cases fo)
      case (Some f)
      obtain fs i where f: "files_ok fs d" "f \<in> set fs" "inodes d (f_inode f) = Some i" "\<not> removed i" "f_pos f = 0" "fx = Some (fbytes (secs d) (data i))"
        using fo Some by auto
      obtain k where k: "k < length fs" "fs ! k = f" using f(2) by (auto simp: in_set_conv_nth)
      have "file_ok f i s0" using files_holder[OF f(1) k(1)] k(2) f(3,5) by (simp add: file_ok_def s0_def) (metis option.inject)
      then show ?thesis using Some f by auto
    qed (use fo in simp)
    have "load_elf fn s = (case fo of None \<Rightarrow> Some (None, s0)
         | Some f \<Rightarrow> Option.bind (load_image f s0) (\<lambda>(r, f, s). Option.bind (file_close (Some f) (fsys s)) (\<lambda>d. Some (r, s\<lparr>fsys := d\<rparr>))))"
      using cp c(1,2) act name w(5) by (simp add: load_elf_def Let_def s0_def split: option.split) (simp add: s1_def)
    then show ?thesis using c(2,5-8) ok0 z um fok by (intro disjI2 exI[of _ pd] exI[of _ s0] exI[of _ fo]) (simp add: s0_def s1_def)
  qed
qed

lemma load_elf_eq:
  assumes b: "boot_ok (mm s)" and cp: "cur_pcb s = Some p" and ex: "program_file fn s fx d"
  shows "\<exists>r s'. load_elf fn s = Some (r, s') \<and>
    (r = None \<and> kernel_full (ram (mm s)) \<and> s' = s\<lparr>cur_pcb := Some (p\<lparr>pcb_pagedir := 0\<rparr>)\<rparr> \<or>
     (\<exists>pd. pd \<noteq> 0 \<and> machine_ok pd s' \<and> unat pd div 4096 \<notin> used_pages (ram (mm s)) \<and> unat pd div 4096 \<in> used_pages (ram (mm s')) \<and>
       used_pages (ram (mm s')) - insert (unat pd div 4096) (table_pages (mm s') pd \<union> mapped_frames (mm s') pd) = used_pages (ram (mm s)) \<and>
       init_page_dir (mm s') = init_page_dir (mm s) \<and> same_pools (ram (mm s)) (ram (mm s')) \<and> cur_pcb s' = Some (p\<lparr>pcb_pagedir := pd\<rparr>) \<and>
       (case r of
          Some (eip, esp) \<Rightarrow> \<exists>X. fx = Some X \<and> executable_ok X \<and> eip = eh_entry (decode_ehdr (take sizeof_ehdr X)) \<and> esp = PHYS_BASE \<and> user_byte s' pd = image_map X
        | None \<Rightarrow> not_program fx \<or> out_of_memory s' \<or> oom d \<noteq> [])))"
proof -
  from load_elf_starts[OF b cp ex] show ?thesis
  proof (elim disjE exE conjE)
    fix pd s0 fo assume c: "pd \<noteq> 0" and ok0: "machine_ok pd s0" "fsys s0 = d"
      and fo: "case fo of None \<Rightarrow> fx = None
        | Some f \<Rightarrow> \<exists>fs i. files_ok fs d \<and> f \<in> set fs \<and> inodes d (f_inode f) = Some i \<and> \<not> removed i \<and> f_pos f = 0 \<and> fx = Some (fbytes (secs d) (data i)) \<and>
            file_ok f i s0"
      and z: "\<forall>k < 768. pde_of (mm s0) pd k = 0" and um: "\<forall>va. user_map (mm s0) pd va = None"
      and u: "unat pd div 4096 \<notin> used_pages (ram (mm s))" "used_pages (ram (mm s0)) = insert (unat pd div 4096) (used_pages (ram (mm s)))"
      "same_pools (ram (mm s)) (ram (mm s0))" "init_page_dir (mm s0) = init_page_dir (mm s)" "cur_pcb s0 = Some (p\<lparr>pcb_pagedir := pd\<rparr>)"
      and eq: "load_elf fn s = (case fo of None \<Rightarrow> Some (None, s0)
         | Some f \<Rightarrow> Option.bind (load_image f s0) (\<lambda>(r, f, s). Option.bind (file_close (Some f) (fsys s)) (\<lambda>d. Some (r, s\<lparr>fsys := d\<rparr>))))"
    have tz: "table_pages (mm s0) pd = {}" using z by (auto simp: table_pages_def)
    have mz: "mapped_frames (mm s0) pd = {}" using um by (simp add: mapped_frames_def)
    show ?thesis
    proof (cases fo)
      case None
      have "load_elf fn s = Some (None, s0)" "not_program fx" using eq fo None by (simp_all add: not_program_def)
      then show ?thesis using c ok0(1) u tz mz by (intro exI[of _ None] exI[of _ s0] conjI disjI2 exI[of _ pd]) simp_all
    next
      case (Some f)
      obtain fs i where w: "files_ok fs d" "f \<in> set fs" "inodes d (f_inode f) = Some i" "\<not> removed i" "f_pos f = 0"
        and X: "fx = Some (fbytes (secs d) (data i))" and fok: "file_ok f i s0" using fo Some by auto
      define X where "X = fbytes (secs d) (data i)"
      have cX: "contents i s0 = X" by (simp add: contents_def X_def ok0(2))
      obtain res f' s' where l: "load_image f s0 = Some (res, f', s')" "adds pd f s0 (res \<noteq> None) (executable_ok X) (image_map X) f' s'"
        "res \<noteq> None \<longrightarrow> res = Some (eh_entry (decode_ehdr (take sizeof_ehdr X)), PHYS_BASE)"
        using load_image_eq[OF ok0(1) fok w(5) refl] um unfolding cX by blast
      have a: "machine_ok pd s'" "read_only f s0 f' s'" "same_rest pd s0 s'" "keeps_frames pd s0 s'" using l(2) unfolding adds_def by blast+
      obtain e where e: "file_close (Some f') (fsys s') = Some e"
        using close_after_read[OF w(1-4), of "fsys s'" f'] a(2) by (auto simp: read_only_def ok0(2))
      have le: "load_elf fn s = Some (res, s'\<lparr>fsys := e\<rparr>)" using eq l(1) e Some by simp
      have "unat pd div 4096 \<in> kernel_used s0"
        using Address_Space.kernel_used[OF machine_okD(2)[OF ok0(1)] space_okD(2)[OF machine_okD(1)[OF ok0(1)]]] u(2) by (simp add: kernel_used_def)
      moreover have "used_pages (ram (mm s)) = used_pages (ram (mm s0)) - {unat pd div 4096}" using u(1,2) by simp
      ultimately have n: "used_pages (ram (mm s')) - insert (unat pd div 4096) (table_pages (mm s') pd \<union> mapped_frames (mm s') pd) = used_pages (ram (mm s))"
        "unat pd div 4096 \<in> used_pages (ram (mm s'))" using new_pages[OF ok0(1) a(1,3,4) tz mz] by blast+
      have "user_byte s0 pd = Map.empty" using um by (simp add: user_byte_def fun_eq_iff)
      then have "case res of
            Some (eip, esp) \<Rightarrow> \<exists>X. fx = Some X \<and> executable_ok X \<and> eip = eh_entry (decode_ehdr (take sizeof_ehdr X)) \<and> esp = PHYS_BASE \<and> user_byte s' pd = image_map X
          | None \<Rightarrow> not_program fx \<or> out_of_memory s' \<or> oom d \<noteq> []"
        using l(2,3) X unfolding adds_def X_def[symmetric] by (cases res) (auto simp: ok0(2) not_program_def)
      moreover have "same_pools (ram (mm s0)) (ram (mm s'))" using a(3) by (simp add: same_rest_def)
      then have "same_pools (ram (mm s)) (ram (mm s'))" using u(3) unfolding same_pools_def by simp
      moreover have "init_page_dir (mm s') = init_page_dir (mm s)" "cur_pcb s' = Some (p\<lparr>pcb_pagedir := pd\<rparr>)" using a(3) u(4,5) by (simp_all add: same_rest_def)
      ultimately show ?thesis using le n a(1) c u(1)
        by (intro exI[of _ res] exI[of _ "s'\<lparr>fsys := e\<rparr>"] conjI disjI2 exI[of _ pd]) (simp_all split: option.splits prod.splits)
    qed
  qed blast
qed

section \<open>The end of a process\<close>

lemma process_exit_eq:
  assumes ok: "machine_ok pd s" and pd: "pd \<noteq> 0" and k: "PHYS_BASE \<le> init_page_dir (mm s)" "init_page_dir (mm s) \<noteq> 0"
  shows "\<exists>s'. process_exit s = Some ([Sema_up temporary, Thread_exit], s') \<and> cur_pcb s' = None \<and> palloc_ok (ram (mm s')) \<and>
    same_pools (ram (mm s)) (ram (mm s')) \<and> cr3 (mm s') = init_page_dir (mm s) - PHYS_BASE \<and>
    used_pages (ram (mm s')) = used_pages (ram (mm s)) - insert (unat pd div 4096) (table_pages (mm s) pd \<union> mapped_frames (mm s) pd)"
proof -
  obtain p where p: "cur_pcb s = Some p" "pcb_pagedir p = pd" using machine_okD(4)[OF ok] by blast
  note v = vtop_kernel[OF k(1)]
  have sp: "space_ok pd ((mm s)\<lparr>cr3 := init_page_dir (mm s) - PHYS_BASE\<rparr>)"
    by (rule space_cr3(1)[OF conjunct2[OF v] machine_okD(1)[OF ok]])
  obtain r where r: "pagedir_destroy pd ((mm s)\<lparr>cr3 := init_page_dir (mm s) - PHYS_BASE\<rparr>) = Some ((mm s)\<lparr>cr3 := init_page_dir (mm s) - PHYS_BASE, ram := r\<rparr>)"
    "palloc_ok r" "same_pools (ram (mm s)) r"
    "used_pages r = used_pages (ram (mm s)) - insert (unat pd div 4096) (table_pages (mm s) pd \<union> mapped_frames (mm s) pd)"
    using pagedir_destroy_eq[OF sp] space_tables[OF sp] space_cr3(2,3)[OF conjunct2[OF v], of "mm s"] by (auto simp: table_pages_def mapped_frames_def)
  have "process_exit s = Some ([Sema_up temporary, Thread_exit], s\<lparr>cur_pcb := None, mm := (mm s)\<lparr>cr3 := init_page_dir (mm s) - PHYS_BASE, ram := r\<rparr>\<rparr>)"
    using p pd v r(1) k(2) by (simp add: process_exit_def pagedir_activate_def Let_def)
  then show ?thesis using r(2-4) by simp
qed

text \<open>Freeing a page of the kernel pool that is not part of the address space.\<close>

lemma put_other_page:
  assumes ok: "machine_ok pd s" and k: "page_aligned k" "k \<noteq> 0" "unat k div 4096 \<in> kernel_used s" "unat k div 4096 \<noteq> unat pd div 4096" "unat k div 4096 \<notin> table_pages (mm s) pd"
  shows "\<exists>s'. put_page k s = Some s' \<and> machine_ok pd s' \<and> user_byte s' pd = user_byte s pd \<and> table_pages (mm s') pd = table_pages (mm s) pd \<and>
    mapped_frames (mm s') pd = mapped_frames (mm s) pd \<and> used_pages (ram (mm s')) = used_pages (ram (mm s)) - {unat k div 4096} \<and>
    cur_pcb s' = cur_pcb s \<and> init_page_dir (mm s') = init_page_dir (mm s)"
proof -
  note sp = machine_okD(1)[OF ok]
  note d = space_okD[OF sp]
  note p = pd_okD[OF d(1)]
  obtain r where r: "palloc_free_page k (ram (mm s)) = Some r" "palloc_ok r" "same_pools (ram (mm s)) r" "user_pool r = user_pool (ram (mm s))"
    "pool_used (kernel_pool r) = pool_used (kernel_pool (ram (mm s))) - {unat k div 4096}"
    "\<And>x. page_mem r x = (if unat (x - k) < 4096 then 0xcc else page_mem (ram (mm s)) x)"
    using put_kernel_page[OF p(1) k(1,2) k(3)[unfolded kernel_used_def]] by metis
  define n where "n = (mm s)\<lparr>ram := r\<rparr>"
  have same: "page_mem r x = page_mem (ram (mm s)) x" if "unat x div 4096 \<noteq> unat k div 4096" for x
    using r(6)[of x] in_page[OF k(1), of x] that by auto
  have ld: "load (slot q l) n = load (slot q l) (mm s)" if q: "page_aligned q" "unat q div 4096 \<noteq> unat k div 4096" "l < 1024" for q l
  proof -
    have "page_mem r (slot q l + of_nat i) = page_mem (ram (mm s)) (slot q l + of_nat i)" if "i < 4" for i
    proof -
      have "unat (slot q l + of_nat i - slot q l) < 4" using that by (simp add: unat_of_nat)
      then show ?thesis using in_slot[OF q(1,3)] q(2) by (intro same) metis
    qed
    from this[of 0] this[of 1] this[of 2] this[of 3] show ?thesis by (simp add: load_def word_at_def n_def)
  qed
  have al: "page_aligned pd" "\<And>j. j < 768 \<Longrightarrow> pde_of (mm s) pd j \<noteq> 0 \<Longrightarrow> page_aligned (frame (pde_of (mm s) pd j))" using p(4,5) by (simp_all add: table_page_def)
  have pde: "pde_of n pd j = pde_of (mm s) pd j" if "j < 768" for j unfolding pde_of_def using ld[OF al(1)] k(4) that by simp
  have ne: "unat (frame (pde_of (mm s) pd j)) div 4096 \<noteq> unat k div 4096" if "j < 768" "pde_of (mm s) pd j \<noteq> 0" for j
  proof -
    have "unat (frame (pde_of (mm s) pd j)) div 4096 \<in> table_pages (mm s) pd" unfolding table_pages_def using that by (intro image_eqI[of _ _ j]) simp_all
    then show ?thesis using k(5) by metis
  qed
  have tab: "load (slot (frame (pde_of (mm s) pd j)) l) n = load (slot (frame (pde_of (mm s) pd j)) l) (mm s)" if "j < 768" "pde_of (mm s) pd j \<noteq> 0" "l < 1024" for j l
    using ld[OF al(2)[OF that(1,2)] _ that(3)] ne[OF that(1,2)] by simp
  have um: "user_map n pd = user_map (mm s) pd"
  proof
    fix va
    show "user_map n pd va = user_map (mm s) pd va"
    proof (cases "is_user_vaddr va")
      case True
      then have "pte_of n pd va = pte_of (mm s) pd va" using pde[OF indices(2)[OF True]] tab[OF indices(2)[OF True] _ indices(1)] by (simp add: pte_of_def)
      then show ?thesis by (simp add: user_map_def)
    qed (simp add: user_map_def)
  qed
  have "pool_used (user_pool (ram (mm s))) \<inter> pool_used (kernel_pool (ram (mm s))) = {}"
    using pools_apart[OF p(1), of True False] pool_used_range[of "kernel_pool (ram (mm s))"] by (auto simp: pool_of_def)
  then have nu: "used_pages r = used_pages (ram (mm s)) - {unat k div 4096}" using r(4,5) k(3) by (auto simp: used_pages_def kernel_used_def)
  have tp: "table_page n q" if "table_page (mm s) q" "unat q div 4096 \<noteq> unat k div 4096" for q using that nu by (simp add: table_page_def n_def)
  have rg: "base (pool_of False r) = base (pool_of False (ram (mm s)))" "bit_cnt (used_map (pool_of False r)) = bit_cnt (used_map (pool_of False (ram (mm s))))"
    using r(3) unfolding same_pools_def by blast+
  then have rng: "in_range (kernel_pool r) x = in_range (kernel_pool (ram (mm s))) x" for x by (simp add: in_range_def pool_of_def)
  have "pd_ok pd n"
  proof (rule pd_okI)
    show "palloc_ok (ram n)" "cr3 n < PHYS_BASE" using r(2) p(3) by (simp_all add: n_def)
    show "0xc0000 \<le> first_page (kernel_pool (ram n))" using p(2) rg(1) by (simp add: n_def pool_of_def)
    show "table_page n pd" using tp[OF p(4)] k(4) by simp
    show "pde_of n pd j AND PTE_P \<noteq> 0 \<and> pde_of n pd j AND PTE_ADDR < PHYS_BASE \<and> table_page n (frame (pde_of n pd j)) \<and> frame (pde_of n pd j) \<noteq> pd \<and>
        (\<forall>l < 1024. load (slot (frame (pde_of n pd j)) l) n AND PTE_P \<noteq> 0 \<longrightarrow> load (slot (frame (pde_of n pd j)) l) n AND PTE_ADDR < PHYS_BASE)"
      if "j < 768" "pde_of n pd j \<noteq> 0" for j
      using that p(5,6)[OF that(1)] tp ne[OF that(1)] tab[OF that(1)] unfolding pde[OF that(1)] by metis
    show "j = l" if "j < 768" "l < 768" "pde_of n pd j \<noteq> 0" "pde_of n pd l \<noteq> 0" "frame (pde_of n pd j) = frame (pde_of n pd l)" for j l
      using that(3-5) p(7)[OF that(1,2)] unfolding pde[OF that(1)] pde[OF that(2)] by blast
  qed
  then have "space_ok pd n"
  proof (rule space_okI)
    have fp: "frame_page n q = frame_page (mm s) q" for q using r(4) by (simp add: frame_page_def n_def)
    show "in_range (kernel_pool (ram n)) pd" using d(2) rng by (simp add: n_def)
    show "in_range (kernel_pool (ram n)) (frame (pde_of n pd j))" if "j < 768" "pde_of n pd j \<noteq> 0" for j
      using d(3)[OF that(1)] that(2) rng unfolding pde[OF that(1)] by (simp add: n_def)
    show "frame_page n q" if "user_map n pd va = Some (q, w)" for va q w using d(4) that unfolding um fp .
    show "pg_no va = pg_no vb" if "user_map n pd va = Some (q, v)" "user_map n pd vb = Some (q, w)" for va vb q v w using d(5) that unfolding um .
    show "pd \<noteq> init_page_dir n" using d(6) by (simp add: n_def)
    show "first_page (user_pool (ram n)) + page_total (user_pool (ram n)) \<le> 0xc0000 + unat (init_ram_pages n)" using d(7) r(4) by (simp add: n_def)
  qed
  then have mo: "machine_ok pd (set_ram r s)" using machine_okD(4)[OF ok] by (simp add: machine_ok_def n_def)
  have kn: "unat k div 4096 \<notin> user_used s"
    using k(3) pools_apart[OF p(1), of False True] pool_used_range[of "user_pool (ram (mm s))"] by (auto simp: kernel_used_def user_used_def pool_of_def)
  have "page_mem r x = page_mem (ram (mm s)) x" if "unat x div 4096 \<in> user_used s" for x using same kn that by metis
  moreover have mn: "mm (set_ram r s) = n" by (simp add: n_def)
  moreover have mf: "mapped_frames n pd = mapped_frames (mm s) pd" using um by (simp add: mapped_frames_def)
  moreover have "user_used (set_ram r s) = user_used s" using r(4) by (simp add: user_used_def)
  moreover have "mem_of (set_ram r s) = page_mem r" "mem_of s = page_mem (ram (mm s))" by (simp_all add: mem_of_def)
  ultimately have "keeps_frames pd s (set_ram r s)" unfolding keeps_frames_def by simp
  then have "user_byte (set_ram r s) pd va = user_byte s pd va" for va by (rule user_byte_same[OF ok]) (simp only: mn um)
  then have "user_byte (set_ram r s) pd = user_byte s pd" by (rule ext)
  moreover have "put_page k s = Some (set_ram r s)" using r(1) by (simp add: put_page_def)
  moreover have "table_pages n pd = table_pages (mm s) pd" using pde by (auto simp: table_pages_def)
  ultimately show ?thesis using mo nu mf by (intro exI[of _ "set_ram r s"]) (simp add: n_def)
qed

lemma program_file_pcb [simp]: "program_file fn (s\<lparr>cur_pcb := q\<rparr>) fx d = program_file fn s fx d"
  by (simp add: program_file_def mem_of_def kernel_used_def)

text \<open>A pool has no page left, or only the one where the name of the file was.\<close>

definition pages_out :: "u32 \<Rightarrow> machine \<Rightarrow> bool" where
  "pages_out fn s \<longleftrightarrow> user_full (ram (mm s)) \<or>
     {first_page (kernel_pool (ram (mm s)))..<first_page (kernel_pool (ram (mm s))) + page_total (kernel_pool (ram (mm s)))} \<subseteq>
       insert (unat fn div 4096) (pool_used (kernel_pool (ram (mm s))))"

lemma put_page_out:
  assumes p: "put_page fn s = Some s'" "palloc_ok (ram (mm s))" and fn: "page_aligned fn" "fn \<noteq> 0" "unat fn div 4096 \<in> kernel_used s" and out: "out_of_memory s"
  shows "pages_out fn s'"
proof -
  obtain q where q: "palloc_free_page fn (ram (mm s)) = Some q" "same_pools (ram (mm s)) q" "user_pool q = user_pool (ram (mm s))"
    "pool_used (kernel_pool q) = pool_used (kernel_pool (ram (mm s))) - {unat fn div 4096}"
    using put_kernel_page[OF p(2) fn(1,2) fn(3)[unfolded kernel_used_def]] by metis
  have s': "ram (mm s') = q" using p(1) q(1) by (auto simp: put_page_def)
  have "base (pool_of False q) = base (pool_of False (ram (mm s)))" "bit_cnt (used_map (pool_of False q)) = bit_cnt (used_map (pool_of False (ram (mm s))))"
    using q(2) unfolding same_pools_def by metis+
  then have same: "first_page (kernel_pool q) = first_page (kernel_pool (ram (mm s)))" "page_total (kernel_pool q) = page_total (kernel_pool (ram (mm s)))"
    by (simp_all add: pool_of_def)
  show ?thesis
  proof (cases "user_full (ram (mm s))")
    case True
    then show ?thesis using q(3) by (simp add: pages_out_def s' user_full_def)
  next
    case False
    then have "pool_used (kernel_pool (ram (mm s))) = {first_page (kernel_pool q)..<first_page (kernel_pool q) + page_total (kernel_pool q)}"
      using out unfolding out_of_memory_def kernel_full_used same by blast
    then show ?thesis using q(4) unfolding pages_out_def s' by blast
  qed
qed

text \<open>How a start ends, and what has become of the memory: \<open>U\<close> are the pages in use before, but for the page of the name. A start fails because there is no file, it is not an
  executable, there is no memory to read it with, or the pages are out.\<close>

primrec started :: "u32 \<Rightarrow> u8 list option \<Rightarrow> filesys \<Rightarrow> string \<Rightarrow> tptr \<Rightarrow> nat set \<Rightarrow> machine \<Rightarrow> machine \<Rightarrow> start \<Rightarrow> bool" where
  "started fn fx d nm t U s s' (User_mode fr) \<longleftrightarrow> (\<exists>X. fx = Some X \<and> executable_ok X \<and> fr = user_frame (eh_entry (decode_ehdr (take sizeof_ehdr X))) PHYS_BASE \<and>
     (\<exists>pd. pd \<noteq> 0 \<and> cur_pcb s' = Some \<lparr>pcb_pagedir = pd, process_name = take 15 nm, main_thread = t\<rparr> \<and> machine_ok pd s' \<and> user_byte s' pd = image_map X \<and>
       used_pages (ram (mm s')) - insert (unat pd div 4096) (table_pages (mm s') pd \<union> mapped_frames (mm s') pd) = U))"
| "started fn fx d nm t U s s' (Ends acts) \<longleftrightarrow> acts = [Sema_up temporary, Thread_exit] \<and> cur_pcb s' = None \<and> U \<subseteq> used_pages (ram (mm s')) \<and>
     (kernel_full (ram (mm s)) \<or> \<not> used_pages (ram (mm s')) \<subseteq> used_pages (ram (mm s))) \<and> (not_program fx \<or> oom d \<noteq> [] \<or> pages_out fn s')"

lemma start_process_eq:
  assumes b: "boot_ok (mm s)" and ex: "program_file fn s fx d" and U: "U = used_pages (ram (mm s)) - {unat fn div 4096}"
  shows "\<exists>out s'. start_process True nm t fn s = Some (out, s') \<and> init_page_dir (mm s') = init_page_dir (mm s) \<and> started fn fx d nm t U s s' out"
proof -
  define p where "p = \<lparr>pcb_pagedir = 0, process_name = take 15 nm, main_thread = t\<rparr>"
  define s0 where "s0 = s\<lparr>cur_pcb := Some p\<rparr>"
  have fn: "page_aligned fn" "fn \<noteq> 0" "unat fn div 4096 \<in> kernel_used s" using ex str_at_nonnull unfolding program_file_def by blast+
  have b0: "boot_ok (mm s0)" "program_file fn s0 fx d" "cur_pcb s0 = Some p" "mm s0 = mm s" using b ex by (simp_all add: s0_def)
  have sp: "start_process True nm t fn s = Option.bind (put_page fn (if r = None then s1\<lparr>cur_pcb := None\<rparr> else s1)) (\<lambda>s.
      case r of None \<Rightarrow> Some (Ends [Sema_up temporary, Thread_exit], s) | Some (eip, esp) \<Rightarrow> Some (User_mode (user_frame eip esp), s))"
    if "load_elf fn s0 = Some (r, s1)" for r s1 using that by (simp add: start_process_def s0_def p_def)
  have pcb: "put_page fn (s\<lparr>cur_pcb := None\<rparr>) = map_option (cur_pcb_update (\<lambda>_. None)) (put_page fn s)" for s
    by (cases "palloc_free_page fn (ram (mm s))") (simp_all add: put_page_def set_ram_def)
  from load_elf_eq[OF b0(1,3,2)] show ?thesis
  proof (elim exE conjE disjE)
    fix r s1 assume l: "load_elf fn s0 = Some (r, s1)" "r = None" "kernel_full (ram (mm s0))" "s1 = s0\<lparr>cur_pcb := Some (p\<lparr>pcb_pagedir := 0\<rparr>)\<rparr>"
    have m: "mm s1 = mm s" "palloc_ok (ram (mm s))" using l(4) b0(4) b by (simp_all add: boot_ok_def)
    obtain q where q: "palloc_free_page fn (ram (mm s)) = Some q" "user_pool q = user_pool (ram (mm s))"
      "pool_used (kernel_pool q) = pool_used (kernel_pool (ram (mm s))) - {unat fn div 4096}"
      using put_kernel_page[OF m(2) fn(1,2) fn(3)[unfolded kernel_used_def]] by metis
    have "U \<subseteq> used_pages q" using q(2,3) U by (auto simp: used_pages_def)
    moreover have "start_process True nm t fn s = Some (Ends [Sema_up temporary, Thread_exit], (set_ram q s1)\<lparr>cur_pcb := None\<rparr>)"
      unfolding sp[OF l(1)] using l(2) q(1) m(1) by (simp add: pcb) (simp add: put_page_def m(1))
    moreover have "put_page fn s1 = Some (set_ram q s1)" using q(1) m(1) by (simp add: put_page_def)
    then have "pages_out fn (set_ram q s1)"
      by (rule put_page_out) (use l(3) m fn b0(4) in \<open>simp_all add: out_of_memory_def kernel_used_def\<close>)
    then have "pages_out fn ((set_ram q s1)\<lparr>cur_pcb := None\<rparr>)" by (simp add: pages_out_def)
    ultimately show ?thesis using l(3) m(1) b0(4)
      by (intro exI[of _ "Ends [Sema_up temporary, Thread_exit]"] exI[of _ "(set_ram q s1)\<lparr>cur_pcb := None\<rparr>"]) simp
  next
    fix r s1 pd assume l: "load_elf fn s0 = Some (r, s1)"
      and a: "pd \<noteq> 0" "machine_ok pd s1" "unat pd div 4096 \<notin> used_pages (ram (mm s0))" "unat pd div 4096 \<in> used_pages (ram (mm s1))"
      "used_pages (ram (mm s1)) - insert (unat pd div 4096) (table_pages (mm s1) pd \<union> mapped_frames (mm s1) pd) = used_pages (ram (mm s0))"
      "init_page_dir (mm s1) = init_page_dir (mm s0)" "same_pools (ram (mm s0)) (ram (mm s1))" "cur_pcb s1 = Some (p\<lparr>pcb_pagedir := pd\<rparr>)"
      and c: "case r of
          Some (eip, esp) \<Rightarrow> \<exists>X. fx = Some X \<and> executable_ok X \<and> eip = eh_entry (decode_ehdr (take sizeof_ehdr X)) \<and> esp = PHYS_BASE \<and> user_byte s1 pd = image_map X
        | None \<Rightarrow> not_program fx \<or> out_of_memory s1 \<or> oom d \<noteq> []"
    have fu: "unat fn div 4096 \<in> used_pages (ram (mm s0))" using fn(3) b0(4) by (simp add: used_pages_def kernel_used_def)
    then have f1: "unat fn div 4096 \<in> used_pages (ram (mm s1))" "unat fn div 4096 \<noteq> unat pd div 4096" "unat fn div 4096 \<notin> table_pages (mm s1) pd"
      "unat fn div 4096 \<notin> mapped_frames (mm s1) pd" using a(5) by blast+
    have k1: "unat fn div 4096 \<in> kernel_used s1"
    proof -
      have "base (pool_of False (ram (mm s1))) = base (pool_of False (ram (mm s)))" "bit_cnt (used_map (pool_of False (ram (mm s1)))) = bit_cnt (used_map (pool_of False (ram (mm s))))"
        using a(7) b0(4) unfolding same_pools_def by metis+
      moreover have "in_range (kernel_pool (ram (mm s))) fn" using fn(3) pool_used_range[of "kernel_pool (ram (mm s))"] by (auto simp: in_range_def kernel_used_def)
      ultimately have "in_range (kernel_pool (ram (mm s1))) fn" by (simp add: in_range_def pool_of_def)
      then show ?thesis using Address_Space.kernel_used[OF machine_okD(2)[OF a(2)] _ f1(1)] by (simp add: kernel_used_def)
    qed
    obtain s2 where s2: "put_page fn s1 = Some s2" "machine_ok pd s2" "user_byte s2 pd = user_byte s1 pd" "table_pages (mm s2) pd = table_pages (mm s1) pd"
      "mapped_frames (mm s2) pd = mapped_frames (mm s1) pd" "used_pages (ram (mm s2)) = used_pages (ram (mm s1)) - {unat fn div 4096}"
      "cur_pcb s2 = cur_pcb s1" "init_page_dir (mm s2) = init_page_dir (mm s1)"
      using put_other_page[OF a(2) fn(1,2) k1 f1(2,3)] by blast
    show ?thesis
    proof (cases r)
      case None
      have "start_process True nm t fn s = Some (Ends [Sema_up temporary, Thread_exit], s2\<lparr>cur_pcb := None\<rparr>)"
        unfolding sp[OF l] using None s2(1) by (simp add: pcb)
      moreover have "U \<subseteq> used_pages (ram (mm s2))" "\<not> used_pages (ram (mm s2)) \<subseteq> used_pages (ram (mm s))" using U a(3-5) b0(4) s2(6) f1(2) by auto
      moreover have "not_program fx \<or> oom d \<noteq> [] \<or> pages_out fn s2"
        using c None put_page_out[OF s2(1) machine_okD(2)[OF a(2)] fn(1,2) k1] by auto
      then have "not_program fx \<or> oom d \<noteq> [] \<or> pages_out fn (s2\<lparr>cur_pcb := None\<rparr>)" by (simp add: pages_out_def)
      ultimately show ?thesis using a(6) s2(8) b0(4) by (intro exI[of _ "Ends [Sema_up temporary, Thread_exit]"] exI[of _ "s2\<lparr>cur_pcb := None\<rparr>"]) auto
    next
      case (Some es)
      obtain eip esp where es: "es = (eip, esp)" by (cases es)
      have "start_process True nm t fn s = Some (User_mode (user_frame eip esp), s2)" unfolding sp[OF l] using Some es s2(1) by simp
      moreover have "used_pages (ram (mm s2)) - insert (unat pd div 4096) (table_pages (mm s2) pd \<union> mapped_frames (mm s2) pd) = U"
        using U a(5) b0(4) s2(4-6) by auto
      moreover obtain X where "fx = Some X" "executable_ok X" "eip = eh_entry (decode_ehdr (take sizeof_ehdr X))" "esp = PHYS_BASE" "user_byte s2 pd = image_map X"
        using c Some es s2(3) by auto
      ultimately show ?thesis using a(1,6,8) s2(2,7,8) b0(4)
        by (intro exI[of _ "User_mode (user_frame eip esp)"] exI[of _ s2]) (auto simp: p_def)
    qed
  qed
qed

section \<open>A machine with one file\<close>

text \<open>The kernel's page directory is the first page of the small pool and the name \<^verbatim>\<open>a\<close> of the file is in the second; the disk is the one with one file.\<close>

definition life_machine :: "u8 list \<Rightarrow> machine" where
  "life_machine bs = \<lparr>mm = sample_mmu\<lparr>init_page_dir := 0xc0110000, ram := sample_pools\<lparr>page_mem := (\<lambda>x. if x = 0xc0111000 then 97 else 0)\<rparr>\<rparr>,
     fsys = named_fs bs, cur_pcb = None, cur_thread = 0xc0112000, esp0 = 0\<rparr>"

lemma life_pools:
  "kernel_pool (ram (mm (life_machine bs))) = kernel_pool sample_pools" "user_pool (ram (mm (life_machine bs))) = user_pool sample_pools"
  "used_pages (ram (mm (life_machine bs))) = {0xc0110, 0xc0111}" "palloc_ok (ram (mm (life_machine bs)))" "\<not> kernel_full (ram (mm (life_machine bs)))"
proof -
  show k: "kernel_pool (ram (mm (life_machine bs))) = kernel_pool sample_pools" "user_pool (ram (mm (life_machine bs))) = user_pool sample_pools"
    by (simp_all add: life_machine_def sample_mmu_def)
  have i4: "i < 4 \<longleftrightarrow> i = 0 \<or> i = 1 \<or> i = 2 \<or> i = (3 :: nat)" for i by auto
  have "pool_used (kernel_pool sample_pools) = {0xc0110, 0xc0111}"
    unfolding pool_used_def by (rule set_eqI) (simp add: sample_pools_def sample_kernel_bits i4 conj_disj_distribR ex_disj_distrib conj_disj_distribL)
  moreover have "pool_used (user_pool sample_pools) = {}"
    unfolding pool_used_def by (rule set_eqI) (simp add: sample_pools_def sample_user_bits i4 conj_disj_distribR ex_disj_distrib conj_disj_distribL)
  ultimately show "used_pages (ram (mm (life_machine bs))) = {0xc0110, 0xc0111}" unfolding used_pages_def k by blast
  show "palloc_ok (ram (mm (life_machine bs)))" using sample_pools_ok k by (simp add: palloc_ok_def pool_of_def)
  show "\<not> kernel_full (ram (mm (life_machine bs)))"
    unfolding kernel_full_def k using sample_kernel_bits by (auto simp: sample_pools_def intro!: exI[of _ 2])
qed

lemma life_boot_ok: "boot_ok (mm (life_machine bs))"
proof -
  have "pde_of (mm (life_machine bs)) 0xc0110000 k = 0" if "k < 768" for k
  proof -
    have "page_mem (ram (mm (life_machine bs))) (0xc0110000 + of_nat j) = 0" if "j < 4096" for j
    proof -
      have "unat (0xc0110000 + of_nat j :: u32) div 4096 = unat (0xc0110000 :: u32) div 4096"
        by (rule in_frame[OF _ that]) (simp add: page_aligned_def)
      then have "0xc0110000 + of_nat j \<noteq> (0xc0111000 :: u32)" by auto
      then show ?thesis by (simp add: life_machine_def)
    qed
    then have "word_at (page_mem (ram (mm (life_machine bs)))) (slot 0xc0110000 k) = word_at (\<lambda>_. 0) (slot 0xc0110000 k)"
      by (intro word_at_copy) (use that in simp_all)
    then show ?thesis by (simp add: pde_of_def load_def) (simp add: word_at_def)
  qed
  then show ?thesis unfolding boot_ok_def life_pools
    using life_pools(4) by (simp add: life_machine_def sample_mmu_def page_aligned_def PHYS_BASE_def) (simp add: sample_pools_def)
qed

lemma named_file:
  assumes "length bs \<le> 512" shows "fbytes (named_sectors bs) (decode_inode (named_sectors bs 4)) = bs"
proof -
  have "fbytes (named_sectors bs) (decode_inode (named_sectors bs 4)) = take (length bs) (named_sectors bs 5)"
    by (rule nth_equalityI) (use assms in \<open>simp_all add: fbytes_def fbyte_def named_sectors_def[of bs 4] decode_named\<close>, simp_all add: named_sectors_def)
  then show ?thesis by (simp add: named_sectors_def)
qed

lemma life_file:
  assumes "length bs \<le> 512"
  obtains f i d where "executable_file 0xc0111000 (life_machine bs) f i d" "fbytes (secs d) (data i) = bs" "oom d = []"
proof -
  have z: "inodes (named_fs bs) p = None" for p by (simp add: named_fs_def)
  have n: "0 \<notin> set [97 :: u8]" by simp
  obtain p i d where d: "filesys_open [97] (named_fs bs) = Some (Some \<lparr>f_inode = p, f_pos = 0, f_deny = False\<rparr>, d)" "secs d = named_sectors bs" "oom d = []"
    "files_ok [\<lparr>f_inode = p, f_pos = 0, f_deny = False\<rparr>] d" "inodes d p = Some i" "\<not> removed i" "data i = decode_inode (named_sectors bs 4)"
    using filesys_open_eq[OF named_fs_ok(4,5)[OF assms] named_root_ok(3)[OF assms] n] unfolding named_root_ok(1)[OF assms] named_fs_ok(3)[OF assms] z by auto
  define f where "f = \<lparr>f_inode = p, f_pos = 0, f_deny = False\<rparr>"
  have "str_at (mem_of (life_machine bs)) 0xc0111000 [97]" "page_aligned (0xc0111000 :: u32)"
    by (simp_all add: life_machine_def mem_of_def page_aligned_def)
  moreover have "unat (0xc0111000 :: u32) div 4096 \<in> kernel_used (life_machine bs)"
    unfolding kernel_used_def life_pools by (auto simp: pool_used_def sample_pools_def sample_kernel_bits intro!: exI[of _ 1])
  moreover have "fsys (life_machine bs) = named_fs bs" by (simp add: life_machine_def)
  ultimately have "executable_file 0xc0111000 (life_machine bs) f i d"
    unfolding executable_file_def using d by (intro exI[of _ "[97]"] exI[of _ "[f]"]) (simp add: f_def)
  moreover have "fbytes (secs d) (data i) = bs" using named_file[OF assms] by (simp add: d(2,7))
  ultimately show thesis using that d(3) by blast
qed

text \<open>The executable without segments starts on this machine.\<close>

lemma life_starts:
  "\<exists>fr s1. start_process True ''a'' 1 0xc0111000 (life_machine sample_elf) = Some (User_mode fr, s1)"
proof -
  have len: "length sample_elf \<le> 512" by (simp add: sample_elf_def)
  obtain f i d where f: "executable_file 0xc0111000 (life_machine sample_elf) f i d" "fbytes (secs d) (data i) = sample_elf" "oom d = []"
    using life_file[OF len] .
  define p where "p = \<lparr>pcb_pagedir = 0, process_name = ''a'', main_thread = 1\<rparr>"
  define s where "s = (life_machine sample_elf)\<lparr>cur_pcb := Some p\<rparr>"
  have s: "boot_ok (mm s)" "cur_pcb s = Some p" "program_file 0xc0111000 s (Some sample_elf) d" "mm s = mm (life_machine sample_elf)"
    using life_boot_ok executable_program[OF f(1)] f(2) by (simp_all add: s_def)
  have nf: "\<not> kernel_full (ram (mm s))" using life_pools(5) s(4) by simp
  from load_elf_starts[OF s(1-3)] nf obtain pd s0 r where s0: "pd \<noteq> 0" "machine_ok pd s0" "fsys s0 = d"
    "case r of None \<Rightarrow> Some sample_elf = None
      | Some f \<Rightarrow> \<exists>fs i. files_ok fs d \<and> f \<in> set fs \<and> inodes d (f_inode f) = Some i \<and> \<not> removed i \<and> f_pos f = 0 \<and>
          Some sample_elf = Some (fbytes (secs d) (data i)) \<and> file_ok f i s0"
    "\<forall>va. user_map (mm s0) pd va = None" "used_pages (ram (mm s0)) = insert (unat pd div 4096) (used_pages (ram (mm s)))"
    "same_pools (ram (mm s)) (ram (mm s0))" "user_pool (ram (mm s0)) = user_pool (ram (mm s))"
    "load_elf 0xc0111000 s = (case r of None \<Rightarrow> Some (None, s0)
      | Some f \<Rightarrow> Option.bind (load_image f s0) (\<lambda>(r, f, s). Option.bind (file_close (Some f) (fsys s)) (\<lambda>d. Some (r, s\<lparr>fsys := d\<rparr>))))"
    by blast
  obtain g j where g: "r = Some g" "f_pos g = 0" "sample_elf = fbytes (secs d) (data j)" "file_ok g j s0" using s0(4) by (cases r) auto
  have uf: "\<not> user_full (ram (mm s0))"
    unfolding user_full_def s0(8) s(4) life_pools using sample_user_bits by (auto simp: sample_pools_def intro!: exI[of _ 0])
  have kf: "\<not> kernel_full (ram (mm s0))"
  proof
    assume "kernel_full (ram (mm s0))"
    moreover have "first_page (kernel_pool (ram (mm s0))) = 0xc0110" "page_total (kernel_pool (ram (mm s0))) = 4"
    proof -
      have "base (kernel_pool (ram (mm s))) = base (kernel_pool (ram (mm s0)))" "bit_cnt (used_map (kernel_pool (ram (mm s)))) = bit_cnt (used_map (kernel_pool (ram (mm s0))))"
        using s0(7) unfolding same_pools_def by (metis pool_of_def)+
      then show "first_page (kernel_pool (ram (mm s0))) = 0xc0110" "page_total (kernel_pool (ram (mm s0))) = 4"
        unfolding s(4) life_pools by (simp_all add: sample_pools_def)
    qed
    ultimately have "{0xc0110..<0xc0110 + 4} \<subseteq> used_pages (ram (mm s0))" unfolding kernel_full_used used_pages_def by auto
    then have sub: "{0xc0110..<0xc0110 + 4} \<subseteq> insert (unat pd div 4096) {0xc0110, 0xc0111}" unfolding s0(6) s(4) life_pools .
    have "(0xc0112 :: nat) \<in> {0xc0110..<0xc0110 + 4}" "(0xc0113 :: nat) \<in> {0xc0110..<0xc0110 + 4}" by simp_all
    then have "(0xc0112 :: nat) \<in> insert (unat pd div 4096) {0xc0110, 0xc0111}" "(0xc0113 :: nat) \<in> insert (unat pd div 4096) {0xc0110, 0xc0111}"
      using sub by (blast intro: subsetD)+
    then show False by simp
  qed
  have X: "contents j s0 = sample_elf" "oom (fsys s0) = []" using f(3) s0(3) g(3) by (simp_all add: contents_def)
  obtain f' s1 where li: "load_image g s0 = Some (Some (0x8048000, PHYS_BASE), f', s1)"
    using sample_elf_works[OF s0(2) g(4) X(1) g(2) X(2) uf kf] s0(5) by blast
  have le: "load_elf 0xc0111000 s = map_option (\<lambda>d. (Some (0x8048000, PHYS_BASE), s1\<lparr>fsys := d\<rparr>)) (file_close (Some f') (fsys s1))"
    using s0(9) li g(1) by (simp add: map_option_case split: option.split)
  obtain out s' where o: "start_process True ''a'' 1 0xc0111000 (life_machine sample_elf) = Some (out, s')"
    using start_process_eq[OF life_boot_ok executable_program[OF f(1)] refl, of "''a''" 1] by blast
  have "\<exists>fr. out = User_mode fr"
    using o le unfolding start_process_def by (auto simp: s_def p_def bind_eq_Some_conv)
  then show ?thesis using o by blast
qed

text \<open>C39. A process that was started gives back all its memory. When \<^verbatim>\<open>start_process\<close> has entered user mode, \<^verbatim>\<open>process_exit\<close> returns without a panic: exactly the pages that were in use
  before the start are in use again, but for the page of the file's name, which \<^verbatim>\<open>start_process\<close> has freed; no page is freed twice; the processor is on the kernel's own page directory, not on the freed one; and what is left to do is to wake the
  waiting parent and to end the thread.\<close>

theorem process_returns_memory:
  assumes "boot_ok (mm s)" "executable_file fn s f i d" "start_process True nm t fn s = Some (User_mode fr, s1)"
  shows "\<exists>s2. process_exit s1 = Some ([Sema_up temporary, Thread_exit], s2) \<and> cur_pcb s2 = None \<and> palloc_ok (ram (mm s2)) \<and>
    used_pages (ram (mm s2)) = used_pages (ram (mm s)) - {unat fn div 4096} \<and> cr3 (mm s2) = init_page_dir (mm s) - PHYS_BASE"
proof -
  have k: "PHYS_BASE \<le> init_page_dir (mm s)" "init_page_dir (mm s) \<noteq> 0" using assms(1) by (simp_all add: boot_ok_def)
  obtain pd where pd: "pd \<noteq> 0" "machine_ok pd s1" "init_page_dir (mm s1) = init_page_dir (mm s)"
    "used_pages (ram (mm s1)) - insert (unat pd div 4096) (table_pages (mm s1) pd \<union> mapped_frames (mm s1) pd) = used_pages (ram (mm s)) - {unat fn div 4096}"
    using start_process_eq[OF assms(1) executable_program[OF assms(2)] refl, of nm t] assms(3) by auto
  show ?thesis using process_exit_eq[OF pd(2,1)] k pd(3,4) by auto
qed

theorem process_returns_memory_witness:
  "\<exists>fr s1 s2. start_process True ''a'' 1 0xc0111000 (life_machine sample_elf) = Some (User_mode fr, s1) \<and>
     process_exit s1 = Some ([Sema_up temporary, Thread_exit], s2) \<and> used_pages (ram (mm s2)) = {0xc0110}"
proof -
  have len: "length sample_elf \<le> 512" by (simp add: sample_elf_def)
  obtain f i d where f: "executable_file 0xc0111000 (life_machine sample_elf) f i d" using life_file[OF len] .
  obtain fr s1 where st: "start_process True ''a'' 1 0xc0111000 (life_machine sample_elf) = Some (User_mode fr, s1)" using life_starts by blast
  show ?thesis using process_returns_memory[OF life_boot_ok f st] st unfolding life_pools by auto
qed

text \<open>The file that the root directory has under a name. In memory its inode is as on the disk, and not removed.\<close>

definition file_named :: "u8 list \<Rightarrow> filesys \<Rightarrow> u8 list option" where
  "file_named w d = map_option (\<lambda>sector. fbytes (secs d) (decode_inode (secs d sector))) (dir_map (root_bytes d) w)"

definition file_kept :: "u8 list \<Rightarrow> filesys \<Rightarrow> bool" where
  "file_kept w d \<longleftrightarrow> (\<forall>p j. inodes d p = Some j \<longrightarrow> dir_map (root_bytes d) w = Some (inode_sector j) \<longrightarrow>
     \<not> removed j \<and> data j = decode_inode (secs d (inode_sector j)))"

text \<open>The page that \<^verbatim>\<open>process_execute\<close> has given to \<^verbatim>\<open>start_process\<close>: a page of the kernel pool, with the name in it.\<close>

definition name_page :: "u32 \<Rightarrow> u8 list \<Rightarrow> machine \<Rightarrow> bool" where
  "name_page fn w s \<longleftrightarrow> str_at (mem_of s) fn w \<and> length w < 4096 \<and> page_aligned fn \<and> unat fn div 4096 \<in> kernel_used s"

lemma program_file_opens:
  assumes n: "name_page fn w s" and f: "files_ok fs (fsys s)" "root_ok w (fsys s)" "file_kept w (fsys s)"
  shows "\<exists>fx d. program_file fn s fx d \<and> (fx = None \<and> (oom (fsys s) \<noteq> [] \<or> file_named w (fsys s) = None) \<or> fx \<noteq> None \<and> fx = file_named w (fsys s)) \<and>
    (oom (fsys s) = [] \<longrightarrow> oom d = [])"
proof -
  have str: "str_at (mem_of s) fn w" using n by (simp add: name_page_def)
  then have "0 \<notin> set w" using str_at_append[of "mem_of s" fn w "[]"] by simp
  from filesys_open_any[OF f(1,2) this] obtain r d where o: "filesys_open w (fsys s) = Some (r, d)" "secs d = secs (fsys s)" "oom (fsys s) = [] \<longrightarrow> oom d = []"
    and alt: "r = None \<and> (oom (fsys s) \<noteq> [] \<or> dir_map (root_bytes (fsys s)) w = None) \<or>
      (\<exists>p i. r = Some \<lparr>f_inode = p, f_pos = 0, f_deny = False\<rparr> \<and> files_ok (fs @ [\<lparr>f_inode = p, f_pos = 0, f_deny = False\<rparr>]) d \<and> inodes d p = Some i \<and>
        dir_map (root_bytes (fsys s)) w = Some (inode_sector i) \<and>
        (case inodes (fsys s) p of None \<Rightarrow> \<not> removed i \<and> data i = decode_inode (secs (fsys s) (inode_sector i)) | Some j \<Rightarrow>
           inode_sector j = inode_sector i \<and> data i = data j \<and> removed i = removed j))"
    by blast
  from alt show ?thesis
  proof (elim disjE exE conjE)
    assume r: "r = None" "oom (fsys s) \<noteq> []"
    then have "program_file fn s None d" using n o(1) unfolding program_file_def name_page_def by (intro exI[of _ w] exI[of _ r]) simp
    then show ?thesis using r o(3) by (intro exI[of _ None] exI[of _ d]) simp
  next
    assume r: "r = None" "dir_map (root_bytes (fsys s)) w = None"
    then have "program_file fn s None d" using n o(1) unfolding program_file_def name_page_def by (intro exI[of _ w] exI[of _ r]) simp
    then show ?thesis using r o(3) by (intro exI[of _ None] exI[of _ d]) (auto simp: file_named_def)
  next
    fix p i assume r: "r = Some \<lparr>f_inode = p, f_pos = 0, f_deny = False\<rparr>" "files_ok (fs @ [\<lparr>f_inode = p, f_pos = 0, f_deny = False\<rparr>]) d" "inodes d p = Some i"
      "dir_map (root_bytes (fsys s)) w = Some (inode_sector i)"
      and c: "case inodes (fsys s) p of None \<Rightarrow> \<not> removed i \<and> data i = decode_inode (secs (fsys s) (inode_sector i)) | Some j \<Rightarrow>
           inode_sector j = inode_sector i \<and> data i = data j \<and> removed i = removed j"
    have i: "\<not> removed i \<and> data i = decode_inode (secs (fsys s) (inode_sector i))"
    proof (cases "inodes (fsys s) p")
      case (Some j)
      then have "\<not> removed j \<and> data j = decode_inode (secs (fsys s) (inode_sector j))" using f(3) r(4) c unfolding file_kept_def by simp
      then show ?thesis using c Some by simp
    qed (use c in simp)
    have "program_file fn s (Some (fbytes (secs d) (data i))) d" unfolding program_file_def
      using n o(1) r(1-3) i unfolding name_page_def by (intro exI[of _ w] exI[of _ r]) auto
    moreover have "file_named w (fsys s) = Some (fbytes (secs d) (data i))" using i r(4) o(2) by (simp add: file_named_def)
    ultimately show ?thesis using o(3) by (intro exI[of _ "Some (fbytes (secs d) (data i))"] exI[of _ d]) simp
  qed
qed

lemma start_without_pcb:
  assumes b: "boot_ok (mm s)" and n: "name_page fn w s"
  shows "\<exists>s'. start_process False nm t fn s = Some (Ends [Sema_up temporary, Thread_exit], s') \<and> cur_pcb s' = cur_pcb s"
proof -
  have fn: "page_aligned fn" "fn \<noteq> 0" "unat fn div 4096 \<in> pool_used (kernel_pool (ram (mm s)))" "palloc_ok (ram (mm s))"
    using n b str_at_nonnull by (auto simp: name_page_def kernel_used_def boot_ok_def)
  obtain q where "palloc_free_page fn (ram (mm s)) = Some q" using put_kernel_page[OF fn(4,1-3)] by metis
  then have "put_page fn s = Some (set_ram q s)" by (simp add: put_page_def)
  then show ?thesis by (intro exI[of _ "set_ram q s"]) (simp add: start_process_def set_ram_def)
qed

text \<open>C38. Starting a process enters user mode with the image of the executable, or fails for a reason. Whatever \<^verbatim>\<open>malloc\<close> grants and whatever file the name stands for,
  \<^verbatim>\<open>start_process\<close> returns without a panic. When it enters user mode, the root directory has under the name a well-formed executable, the registers are the entry
  point, the top of the user stack and the user segments with interrupts on, the process control block has the name and the thread, and the address space holds exactly the
  executable's image. Otherwise there is no process, what is left is to wake the parent and to end the thread, and the cause is one of these: no memory for the
  process control block or for the objects and buffers of the file system, no such file, a file that is not a well-formed executable, or a pool without pages.\<close>

theorem start_process_runs:
  assumes "boot_ok (mm s)" "cur_pcb s = None" "name_page fn w s" "files_ok fs (fsys s)" "root_ok w (fsys s)" "file_kept w (fsys s)"
  shows "\<exists>out s'. start_process got nm t fn s = Some (out, s') \<and>
    (case out of
       User_mode fr \<Rightarrow> got \<and> (\<exists>X pd. file_named w (fsys s) = Some X \<and> executable_ok X \<and>
         if_eip fr = eh_entry (decode_ehdr (take sizeof_ehdr X)) \<and> if_esp fr = PHYS_BASE \<and>
         if_cs fr = SEL_UCSEG \<and> {if_ss fr, if_ds fr, if_es fr, if_fs fr, if_gs fr} = {SEL_UDSEG} \<and> if_eflags fr AND FLAG_IF \<noteq> 0 \<and>
         cur_pcb s' = Some \<lparr>pcb_pagedir = pd, process_name = take 15 nm, main_thread = t\<rparr> \<and> user_byte s' pd = image_map X)
     | Ends acts \<Rightarrow> acts = [Sema_up temporary, Thread_exit] \<and> cur_pcb s' = None \<and>
         (\<not> got \<or> oom (fsys s) \<noteq> [] \<or> not_program (file_named w (fsys s)) \<or> pages_out fn s'))"
proof (cases got)
  case False
  then show ?thesis using start_without_pcb[OF assms(1,3), of nm t] assms(2) by auto
next
  case True
  obtain fx d where fx: "program_file fn s fx d" "fx = None \<and> (oom (fsys s) \<noteq> [] \<or> file_named w (fsys s) = None) \<or> fx \<noteq> None \<and> fx = file_named w (fsys s)"
    "oom (fsys s) = [] \<longrightarrow> oom d = []" using program_file_opens[OF assms(3-6)] by blast
  obtain out s' where o: "start_process True nm t fn s = Some (out, s')" "started fn fx d nm t (used_pages (ram (mm s)) - {unat fn div 4096}) s s' out"
    using start_process_eq[OF assms(1) fx(1) refl, of nm t] by blast
  show ?thesis
  proof (cases out)
    case (User_mode fr)
    from o(2) fx(2) User_mode obtain X where "fx = Some X" "file_named w (fsys s) = Some X" by (cases fx) auto
    then show ?thesis using o User_mode True by (auto simp: user_frame_def FLAG_IF_def FLAG_MBS_def)
  next
    case (Ends acts)
    then have "oom (fsys s) \<noteq> [] \<or> not_program (file_named w (fsys s)) \<or> pages_out fn s'"
      using o(2) fx(2,3) by (auto simp: not_program_def)
    then show ?thesis using o Ends True by auto
  qed
qed

lemma life_named:
  assumes "length bs \<le> 512"
  shows "name_page 0xc0111000 [97] (life_machine bs)" "files_ok [] (fsys (life_machine bs))" "root_ok [97] (fsys (life_machine bs))" "file_kept w (fsys (life_machine bs))"
    "file_named [97] (fsys (life_machine bs)) = Some bs" "cur_pcb (life_machine bs) = None"
proof -
  have fs: "fsys (life_machine bs) = named_fs bs" by (simp add: life_machine_def)
  show "name_page 0xc0111000 [97] (life_machine bs)" unfolding name_page_def kernel_used_def life_pools
    by (auto simp: pool_used_def sample_pools_def sample_kernel_bits life_machine_def mem_of_def page_aligned_def intro!: exI[of _ 1])
  show "files_ok [] (fsys (life_machine bs))" "root_ok [97] (fsys (life_machine bs))" unfolding fs using named_fs_ok(4)[OF assms] named_root_ok(3)[OF assms] by blast+
  show "file_kept w (fsys (life_machine bs))" unfolding fs file_kept_def by (simp add: named_fs_def)
  show "file_named [97] (fsys (life_machine bs)) = Some bs"
    unfolding fs file_named_def named_root_ok(1)[OF assms] named_fs_ok(3)[OF assms] using named_file[OF assms] by simp
qed (simp add: life_machine_def)

theorem start_process_runs_witness:
  "\<exists>fr s1. start_process True ''a'' 1 0xc0111000 (life_machine sample_elf) = Some (User_mode fr, s1) \<and>
     if_eip fr = 0x8048000 \<and> if_esp fr = 0xc0000000 \<and> executable_ok sample_elf"
proof -
  have len: "length sample_elf \<le> 512" by (simp add: sample_elf_def)
  note n = life_named[OF len]
  obtain fr s1 where st: "start_process True ''a'' 1 0xc0111000 (life_machine sample_elf) = Some (User_mode fr, s1)" using life_starts by blast
  show ?thesis using start_process_runs[OF life_boot_ok n(6,1-3) n(4), of True "''a''" 1] st
    unfolding n(5) by (auto simp: PHYS_BASE_def sample_elf_header(2,4))
qed

text \<open>C40. A start that fails keeps its memory for ever. When the file is not a well-formed executable, \<^verbatim>\<open>start_process\<close> frees the process control block, which holds the only
  reference to the new page directory, and ends the thread: unless there was no page for the page directory, pages are in use that were not before, and every page that was is
  (but for the page of the name).\<close>

theorem failed_start_leaks:
  assumes "boot_ok (mm s)" "executable_file fn s f i d" "\<not> executable_ok (fbytes (secs d) (data i))" "\<not> kernel_full (ram (mm s))"
  shows "\<exists>s'. start_process True nm t fn s = Some (Ends [Sema_up temporary, Thread_exit], s') \<and> cur_pcb s' = None \<and>
    \<not> used_pages (ram (mm s')) \<subseteq> used_pages (ram (mm s)) \<and> used_pages (ram (mm s)) - {unat fn div 4096} \<subseteq> used_pages (ram (mm s'))"
proof -
  obtain out s' where o: "start_process True nm t fn s = Some (out, s')"
    "started fn (Some (fbytes (secs d) (data i))) d nm t (used_pages (ram (mm s)) - {unat fn div 4096}) s s' out"
    using start_process_eq[OF assms(1) executable_program[OF assms(2)] refl, of nm t] by blast
  then show ?thesis using assms(3,4) by (cases out) auto
qed

theorem failed_start_leaks_witness:
  "\<exists>s'. start_process True ''a'' 1 0xc0111000 (life_machine []) = Some (Ends [Sema_up temporary, Thread_exit], s') \<and>
     \<not> used_pages (ram (mm s')) \<subseteq> {0xc0110, 0xc0111}"
proof -
  have len: "length ([] :: u8 list) \<le> 512" by simp
  obtain f i d where f: "executable_file 0xc0111000 (life_machine []) f i d" "fbytes (secs d) (data i) = []" using life_file[OF len] .
  have "\<not> executable_ok (fbytes (secs d) (data i))" unfolding f(2) by (simp add: executable_ok_def sizeof_ehdr_def)
  then show ?thesis using failed_start_leaks[OF life_boot_ok f(1) _ life_pools(5), of "''a''" 1] unfolding life_pools by auto
qed

end
