(* ===== verification/Spec2Isabelle.thy ===== *)
theory Spec2Isabelle
  imports Vaddr List_Sort Kernel_Props Malloc Intq Hash Printf Arith64 Prng Ustar Tokenizer Partition Lifecycle
begin

text \<open>
  Verification of the Pintos kernel of this repository (\<^verbatim>\<open>src/group0/src\<close>): its threads and their synchronization,
  its memory allocators, its file system, its user processes and the library that they share.

  \<^bold>\<open>The program.\<close> The kernel runs on one processor. Threads (\<^verbatim>\<open>threads/thread.c\<close>) are switched by a scheduler with a
  first-in-first-out run queue, which the timer interrupt (\<^verbatim>\<open>devices/timer.c\<close>, \<^verbatim>\<open>threads/interrupt.c\<close>) calls at the end
  of a time slice; they wait for each other with the primitives of \<^verbatim>\<open>threads/synch.c\<close>. Pages come from two pools
  (\<^verbatim>\<open>threads/palloc.c\<close>), kept in bitmaps (\<^verbatim>\<open>lib/kernel/bitmap.c\<close>), and blocks smaller than a page from arenas in these
  pages (\<^verbatim>\<open>threads/malloc.c\<close>). Run queues, wait lists and free lists are doubly linked lists (\<^verbatim>\<open>lib/kernel/list.c\<close>). The
  file system (\<^verbatim>\<open>filesys/\<close>) stores inodes, a map of the free sectors and one directory on a block device
  (\<^verbatim>\<open>devices/block.c\<close>), which may be a partition of a disk (\<^verbatim>\<open>devices/partition.c\<close>). A user process
  (\<^verbatim>\<open>userprog/process.c\<close>) is an executable, loaded from the file system into the pages of an address space of its own
  (\<^verbatim>\<open>userprog/pagedir.c\<close>). The library has strings, numbers, sorting, hash tables and random numbers.

  \<^bold>\<open>Conventions.\<close> Machine integers are words (\<open>u8\<close>, \<open>u32\<close>, \<open>u64\<close>) where they are unsigned, and integers with the
  conversions written out where the code computes with \<^verbatim>\<open>int\<close> or \<^verbatim>\<open>off_t\<close>. A failed \<^verbatim>\<open>ASSERT\<close>, a panic, a division by
  zero and a read through a bad pointer are \<open>None\<close>; errors that the code reports are values of the result. A loop is a
  structural recursion, a \<open>function\<close> with a measure, or, where it need not end (a search for a terminating zero, a walk over
  entries of a file, the loop over the pages of a segment), a \<open>partial_function (option)\<close>; the theorems then show the result itself, so that
  the loop ends. The one fuel is the depth of \<open>read_partition_table\<close>, whose recursion need not end: \<open>Too_deep\<close> is a result of its own, a depth
  of 1 is shown to be enough for a table without extended partitions, and no depth to be enough for some with one.

  \<^bold>\<open>The theories.\<close>

  \<^item> \<open>Prelude\<close>: the widths, \<open>ASSERT\<close>, reading of arrays, shared lemmas. \<open>Fifo\<close> and \<open>Allocator\<close>: the contracts, as
    locales, of a first-in-first-out queue and of an allocator of extents, with what their clients rely on proved once.
  \<^item> \<open>Vaddr\<close>: \<^verbatim>\<open>threads/vaddr.h\<close> and \<^verbatim>\<open>lib/round.h\<close>.
  \<^item> \<open>Kernel_List\<close>, \<open>List_Sort\<close>: \<^verbatim>\<open>lib/kernel/list.c\<close> on a store of \<open>prev\<close> and \<open>next\<close> pointers. The operations are those of
    HOL lists, the queue operations have the contract of \<open>Fifo\<close>, and \<^verbatim>\<open>list_sort\<close>, a natural merge sort in place, is
    a stable sort that ends.
  \<^item> \<open>Threads\<close>, \<open>Synch\<close>: \<^verbatim>\<open>thread.c\<close> and \<^verbatim>\<open>synch.c\<close>. The state \<open>kernel\<close> has the threads, the run queue, the semaphores, locks
    and conditions, the interrupt level and the tick counter. What can be interrupted is cut into actions; the rest of a function a
    thread is in is on its stack \<open>kont\<close>.
  \<^item> \<open>Kernel_Steps\<close>: the steps of the kernel (an action of the running thread, a call, an interrupt) and the states that
    are reachable from the state after start-up, which \<open>Kernel_Boot\<close> computes from the definitions. The calls are those of \<^verbatim>\<open>synch.c\<close>,
    \<^verbatim>\<open>thread.c\<close> and \<^verbatim>\<open>timer_sleep\<close>; a call of \<^verbatim>\<open>intq.c\<close> is not a step, so the invariants are about systems whose threads do not use interrupt queues.
  \<^item> \<open>Sched_Inv\<close>, \<open>Step_Cases\<close>, \<open>Lock_Inv\<close>, \<open>Sema_Inv\<close>, \<open>Kernel_Props\<close>: the invariants of the scheduler, of locks and of semaphores
    by induction over the steps, and what follows: no thread is lost, no wake-up is lost, locks exclude, the timer preempts,
    and a panic is always a misuse by the caller.
  \<^item> \<open>Intq\<close>: \<^verbatim>\<open>devices/intq.c\<close> on the kernel of \<open>Threads\<close>, its calls cut where they may sleep; its ring buffer is a \<open>Fifo\<close>, and a waiting reader
    is waked by the next byte.
  \<^item> \<open>Bitmap\<close>: \<^verbatim>\<open>lib/kernel/bitmap.c\<close>; the operations on elements of 32 bits are operations on a list of bits.
  \<^item> \<open>Palloc\<close>, \<open>Malloc\<close>: \<^verbatim>\<open>palloc.c\<close> and \<^verbatim>\<open>malloc.c\<close>, down to the bytes of the memory. Both have the contract of
    \<open>Allocator\<close>: whatever the order of requests, the extents handed out are disjoint.
  \<^item> \<open>Pagedir\<close>: \<^verbatim>\<open>userprog/pagedir.c\<close> and \<^verbatim>\<open>threads/pte.h\<close> on the pages of \<open>Palloc\<close>; the user part of a page directory is a map
    from pages to frames. \<open>Address_Space\<close>: an address space as its pages, page tables and frames, none of them shared; destroying it frees exactly these.
  \<^item> \<open>CString\<close>: \<^verbatim>\<open>lib/string.c\<close> on a memory of bytes. \<open>Hash\<close>: \<^verbatim>\<open>lib/kernel/hash.c\<close>, a refinement of a set with keys.
    \<open>Stdlib\<close>: \<^verbatim>\<open>lib/stdlib.c\<close>, heap sort, binary search and \<^verbatim>\<open>atoi\<close>. \<open>Arith64\<close>: \<^verbatim>\<open>lib/arithmetic.c\<close>, the division of 64-bit
    numbers on a machine of 32 bits. \<open>Prng\<close>: \<^verbatim>\<open>lib/random.c\<close>. \<open>Fixed_Point\<close>: \<^verbatim>\<open>threads/fixed-point.h\<close>.
  \<^item> \<open>Block_Device\<close>, \<open>Inode\<close>, \<open>Directory\<close>: the definitions of \<^verbatim>\<open>devices/block.c\<close>; of \<^verbatim>\<open>filesys/inode.c\<close>, \<^verbatim>\<open>file.c\<close> and
    \<^verbatim>\<open>free-map.c\<close>; and of \<^verbatim>\<open>directory.c\<close> and \<^verbatim>\<open>filesys.c\<close>. The state \<open>filesys\<close> has the devices, the inodes in memory by
    address, the list \<^verbatim>\<open>open_inodes\<close>, the free map and its file. The list \<open>oom\<close> says which of the coming requests for kernel
    memory fail (all later ones succeed), so the error paths are branches of the model. A \<^verbatim>\<open>struct file\<close> and a
    \<^verbatim>\<open>struct dir\<close> belong to their holder and are values.
  \<^item> \<open>Inode_IO\<close>: reading and writing through sectors are reading and writing of the bytes of the file. \<open>Free_Map\<close>: the free
    map has the contract of \<open>Allocator\<close> even when it cannot be written, and its file gives it back. \<open>Open_Files\<close>: the
    counters of the inodes agree with the open files through every call, no call panics, and a removed file
    lives until it is closed for the last time. \<open>Dir_Spec\<close>: a directory is a map from names to sectors. \<open>Open_By_Name\<close>: opening a file by
    its name, which puts these together.
  \<^item> \<open>Partition\<close>: \<^verbatim>\<open>devices/partition.c\<close>. A scan of a partition table registers the partitions that lie on their disk, and input and output on them
    stays inside them.
  \<^item> \<open>Process\<close>: the definitions of \<^verbatim>\<open>userprog/process.c\<close>, with \<^verbatim>\<open>tss.c\<close>, \<^verbatim>\<open>exception.c\<close> and \<^verbatim>\<open>syscall.c\<close>. The state \<open>machine\<close> has the memory and
    the processor's page directory (the \<open>mmu\<close> of \<open>Pagedir\<close>), the files, and the process of the running thread; what a function leaves to the scheduler is
    a list of actions of \<open>Threads\<close>.
  \<^item> \<open>Load\<close>, \<open>Image\<close>: loading a segment, page by page, and an executable. \<open>image_map\<close> says what an executable puts at each user address, \<open>executable_ok\<close> which files
    are executables; the loader gives the address space exactly that image, or fails because the file is not one or pages are out. \<open>Lifecycle\<close>: starting a process
    from any file or none, with the cause when it fails, and its end, through all the layers below; the memory comes back, but not when the start fails.
  \<^item> \<open>Printf\<close>: \<^verbatim>\<open>lib/stdio.c\<close>, with the output as a list of characters: the layout of numbers, output into buffers, and, with
    \<open>Stdlib\<close>, that integers are read back by \<^verbatim>\<open>atoi\<close>.
  \<^item> \<open>Ustar\<close>: \<^verbatim>\<open>lib/ustar.c\<close>, the headers of archives, which are read back as they were made. \<open>Tokenizer\<close>: the splitting of a
    command line by the homework shell, \<^verbatim>\<open>hw-shell/tokenizer.c\<close>; words written with any mixture of plain, escaped and quoted characters are read back.

  \<^bold>\<open>How the components are tied.\<close> The contracts are interpreted on the model's own operations: \<open>Fifo\<close> on linked lists
  (\<open>Kernel_List\<close>) and on the ring buffer (\<open>Intq\<close>), \<open>Allocator\<close> on pages (\<open>Palloc\<close>), blocks (\<open>Malloc\<close>) and runs of sectors
  (\<open>Free_Map\<close>). \<open>Threads\<close> uses HOL lists for its queues, which \<open>list_queue_order\<close> justifies; \<open>Palloc\<close>, \<open>Malloc\<close>,
  \<open>Inode\<close>, \<open>Directory\<close>, \<open>Pagedir\<close>, \<open>Partition\<close> and \<open>Process\<close> use the definitions of the components below them.

  \<^bold>\<open>Assumptions.\<close> The processor switches threads only where the code lets it: at a call of the scheduler and, with
  interrupts on, between actions. A block device keeps what was written. Addresses of inodes in memory are never used again.
  \<^verbatim>\<open>malloc\<close> and the file system are modelled for one caller at a time (their locks are the locks of \<open>Synch\<close>). Whether \<^verbatim>\<open>malloc\<close> has memory for a
  control block of a process, an inode, a file or a buffer is an argument or a list of the model, and may fail at any request; the theorems on directories say
  what holds then (a failed buffer makes a read short, which a search of a directory takes for its end). The pages that \<open>Lifecycle\<close> counts are those of address spaces and file names.

  \<^bold>\<open>Not modelled.\<close> Device drivers, the descriptor tables and the start-up of the machine are port I/O and hardware set-up.
  The consoles and the dump functions only print. Of user programs, what the processor does in user mode is not modelled, nor how it reads user memory
  for a system call, which is a parameter of \<open>syscall_handler\<close>; the functions for user threads are empty in this commit. The user library, \<^verbatim>\<open>lib/float.c\<close>
  and \<^verbatim>\<open>threads/switch.S\<close> are assembly. The calibration of delays depends on the speed of the processor. The homework programs
  beside the kernel (\<^verbatim>\<open>hw0\<close>, \<^verbatim>\<open>hw-list\<close>, \<^verbatim>\<open>hw-shell/shell.c\<close>) call the host's system calls; \<^verbatim>\<open>hw-list/list.c\<close> is a copy of the kernel's
  lists.
\<close>

end
